(* ===== verification/Rlc_Prelude.thy ===== *)
theory Rlc_Prelude
  imports Main "HOL-Library.Word" "HOL-Library.Monad_Syntax"
begin

text \<open>
  Shared ground of the development: the machine types of the C++ sources, the collections of
  simplification rules the component proofs draw on, and the generic lemmas about sequence-number
  arithmetic, byte strings and option-valued computations.

  Sequence numbers are \<open>uint32_t\<close> values in the sources and \<^typ>\<open>32 word\<close> here.  Every comparison of
  sequence numbers goes through a modulus base: the code computes \<open>(x - base) % mod\<close> with \<open>mod\<close> a
  power of two.  The function \<open>sn_off\<close> below reads that expression as a natural number, and the
  lemmas about it turn window reasoning into linear arithmetic.

  A failed \<open>ocudu_assert\<close> terminates the process; operations that can fail this way return an
  option, and \<^const>\<open>None\<close> is the terminated process.
\<close>

unbundle bit_operations_syntax

type_synonym u8 = "8 word"
type_synonym u16 = "16 word"
type_synonym u32 = "32 word"
type_synonym u64 = "64 word"
type_synonym bytes = "u8 list"

named_theorems sn_arith \<open>arithmetic of sequence-number offsets\<close>
named_theorems codec_simps \<open>evaluation of header encoders and decoders\<close>

section \<open>Offsets of sequence numbers from a modulus base\<close>

text \<open>\<open>sn_off n b x\<close> is the value of the C++ expression \<open>(x - b) % 2^n\<close> on \<open>uint32_t\<close>.\<close>

definition sn_off :: "nat \<Rightarrow> u32 \<Rightarrow> u32 \<Rightarrow> nat" where
  "sn_off n b x = unat (take_bit n (x - b))"

definition sn_inc :: "nat \<Rightarrow> u32 \<Rightarrow> u32" where
  "sn_inc n x = take_bit n (x + 1)"


lemma unat_less_u32: "unat (x :: u32) < 2 ^ 32"
  using unsigned_less[of x] by simp

lemma unat_of_nat_u32: "k < 2 ^ 32 \<Longrightarrow> unat (of_nat k :: u32) = k"
  by (simp only: unat_of_nat) (simp add: take_bit_eq_mod)

lemma unat_of_nat_u16: "k < 2 ^ 16 \<Longrightarrow> unat (of_nat k :: u16) = k"
  by (simp only: unat_of_nat) (simp add: take_bit_eq_mod)

lemma unat_ucast_16_32 [simp]: "unat (ucast (x :: u16) :: u32) = unat x"
proof -
  have "unat x < 2 ^ 16"
    using unsigned_less[of x] by simp
  then show ?thesis
    by (simp add: unsigned_ucast_eq take_bit_eq_mod)
qed

lemma unat_take_bit: "unat (take_bit n (x :: 'a::len word)) = unat x mod 2 ^ n"
  by (simp only: unsigned_take_bit_eq) (simp add: take_bit_eq_mod)

lemma take_bit_of_bound: "unat (x :: 'a::len word) < 2 ^ n \<Longrightarrow> take_bit n x = x"
  by (simp add: word_unat_eq_iff unat_take_bit)

lemma unat_below_take_bit: "take_bit n x = (x :: 'a::len word) \<Longrightarrow> unat x < 2 ^ n"
  by (metis unat_take_bit mod_less_divisor zero_less_numeral zero_less_power)

lemma uint_take_bit_u32: "uint (take_bit n (x :: u32)) = uint x mod 2 ^ n"
  by (simp only: unsigned_take_bit_eq) (simp add: take_bit_eq_mod)

lemma unat_take_bit_u32: "unat (take_bit n (x :: u32)) = unat x mod 2 ^ n"
  by (simp only: unsigned_take_bit_eq) (simp add: take_bit_eq_mod)

lemma unat_add_u32: "unat a + unat b < 2 ^ 32 \<Longrightarrow> unat (a + b :: u32) = unat a + unat b"
  by (simp add: unat_word_ariths)

lemma unat_drop_bit_u32: "unat (drop_bit n (x :: u32)) = unat x div 2 ^ n"
proof -
  have "take_bit 32 (unat x) = unat x"
    by (intro take_bit_nat_eq_self unat_less_u32)
  then show ?thesis
    by (simp only: unsigned_drop_bit_eq) (simp add: drop_bit_eq_div)
qed

lemma unat_diff_Suc: "(d :: u32) \<noteq> n \<Longrightarrow> unat (n - (d + 1)) < unat (n - d)"
proof -
  assume "d \<noteq> n"
  then have "unat (n - d - 1) < unat (n - d)"
    by (intro measure_unat) simp
  then show ?thesis
    by (simp add: diff_diff_eq)
qed

text \<open>The modulus divides \<open>2^32\<close>, so the wrap-around of \<open>uint32_t\<close> does not show.\<close>

lemma mod_pow2_pow2: "n \<le> m \<Longrightarrow> (a :: int) mod 2 ^ m mod 2 ^ n = a mod 2 ^ n"
  by (simp add: mod_mod_cancel le_imp_power_dvd)

lemma int_sn_off:
  assumes "n \<le> 32"
  shows "int (sn_off n b x) = (uint x - uint b) mod 2 ^ n"
proof -
  have "int (sn_off n b x) = uint (take_bit n (x - b))"
    by (simp add: sn_off_def)
  also have "\<dots> = uint (x - b) mod 2 ^ n"
    by (rule uint_take_bit_u32)
  also have "\<dots> = (uint x - uint b) mod 2 ^ 32 mod 2 ^ n"
    by (simp add: uint_word_ariths)
  also have "\<dots> = (uint x - uint b) mod 2 ^ n"
    using assms by (rule mod_pow2_pow2)
  finally show ?thesis .
qed

lemma uint_sn_inc:
  assumes "n \<le> 32"
  shows "uint (sn_inc n x) = (uint x + 1) mod 2 ^ n"
proof -
  have "uint (sn_inc n x) = (uint x + 1) mod 2 ^ 32 mod 2 ^ n"
    by (simp add: sn_inc_def uint_take_bit_u32 uint_word_ariths)
  also have "\<dots> = (uint x + 1) mod 2 ^ n"
    using assms by (rule mod_pow2_pow2)
  finally show ?thesis .
qed

lemma sn_off_less: "sn_off n b x < 2 ^ n"
  by (simp add: sn_off_def unat_take_bit_u32)

lemma sn_off_self [simp]: "sn_off n b b = 0"
  by (simp add: sn_off_def)

lemma sn_inc_less: "unat (sn_inc n x) < 2 ^ n"
  by (simp add: sn_inc_def unat_take_bit_u32)

text \<open>Stepping one sequence number forward moves the offset by one, up to the modulus.\<close>

lemma sn_off_inc_mod:
  assumes "n \<le> 32"
  shows "sn_off n b (sn_inc n x) = (sn_off n b x + 1) mod 2 ^ n"
proof -
  have "int (sn_off n b (sn_inc n x)) = ((uint x + 1) mod 2 ^ n - uint b) mod 2 ^ n"
    using assms by (simp add: int_sn_off uint_sn_inc)
  also have "\<dots> = (uint x + 1 - uint b) mod 2 ^ n"
    by (rule mod_diff_left_eq)
  also have "\<dots> = (uint x - uint b + 1) mod 2 ^ n"
    by (simp add: algebra_simps)
  also have "\<dots> = ((uint x - uint b) mod 2 ^ n + 1) mod 2 ^ n"
    by (rule mod_add_left_eq[symmetric])
  also have "\<dots> = int ((sn_off n b x + 1) mod 2 ^ n)"
    using assms by (simp add: int_sn_off zmod_int add.commute)
  finally show ?thesis by simp
qed

lemma sn_off_inc [sn_arith]:
  assumes "n \<le> 32" and "sn_off n b x + 1 < 2 ^ n"
  shows "sn_off n b (sn_inc n x) = sn_off n b x + 1"
  using assms by (simp add: sn_off_inc_mod)

text \<open>Changing the base.\<close>

lemma sn_off_rebase_int:
  assumes "n \<le> 32"
  shows "int (sn_off n b' x) = (int (sn_off n b x) - int (sn_off n b b')) mod 2 ^ n"
  using assms by (simp add: int_sn_off mod_diff_left_eq mod_diff_right_eq)

lemma sn_off_rebase_ge:
  assumes "n \<le> 32" and "sn_off n b b' \<le> sn_off n b x"
  shows "sn_off n b' x = sn_off n b x - sn_off n b b'"
proof -
  have "sn_off n b x - sn_off n b b' < 2 ^ n"
    using sn_off_less[of n b x] by linarith
  then have "(int (sn_off n b x) - int (sn_off n b b')) mod 2 ^ n
      = int (sn_off n b x - sn_off n b b')"
    using assms(2) by (simp flip: of_nat_diff add: zmod_int[symmetric])
  then show ?thesis
    using sn_off_rebase_int[OF assms(1), of b' x b] by simp
qed

lemma sn_off_rebase_lt:
  assumes "n \<le> 32" and "sn_off n b x < sn_off n b b'"
  shows "sn_off n b' x = sn_off n b x + 2 ^ n - sn_off n b b'"
proof -
  let ?d = "sn_off n b x + 2 ^ n - sn_off n b b'"
  have lt: "?d < 2 ^ n" and le: "sn_off n b b' \<le> sn_off n b x + 2 ^ n"
    using assms(2) sn_off_less[of n b b'] by linarith+
  have "int (sn_off n b x) - int (sn_off n b b') = int ?d - 2 ^ n"
    using le by simp
  then have "(int (sn_off n b x) - int (sn_off n b b')) mod 2 ^ n = int ?d mod 2 ^ n"
    by (simp add: minus_mod_self2)
  also have "\<dots> = int ?d"
    using lt by (metis of_nat_mod mod_less of_nat_numeral of_nat_power)
  finally show ?thesis
    using sn_off_rebase_int[OF assms(1), of b' x b] by simp
qed

lemma sn_off_rebase:
  assumes "n \<le> 32"
  shows "sn_off n b' x = (if sn_off n b b' \<le> sn_off n b x then sn_off n b x - sn_off n b b'
     else sn_off n b x + 2 ^ n - sn_off n b b')"
  using sn_off_rebase_ge[OF assms, of b b' x] sn_off_rebase_lt[OF assms, of b x b'] by simp

text \<open>Two sequence numbers below the modulus with the same offset are equal.\<close>

lemma sn_off_inject:
  assumes "n \<le> 32" and "unat x < 2 ^ n" and "unat y < 2 ^ n"
    and "sn_off n b x = sn_off n b y"
  shows "x = y"
proof -
  have "(uint x - uint b) mod 2 ^ n = (uint y - uint b) mod 2 ^ n"
    using assms(1,4) by (metis int_sn_off)
  then have "uint x mod 2 ^ n = uint y mod 2 ^ n"
    by (metis diff_add_cancel mod_add_left_eq)
  then have "take_bit n x = take_bit n y"
    by (metis uint_take_bit_u32 word_uint_eq_iff)
  then have "unat x mod 2 ^ n = unat y mod 2 ^ n"
    by (metis unat_take_bit_u32)
  then show ?thesis
    using assms(2,3) by (simp add: word_unat_eq_iff)
qed

lemma sn_off_add:
  assumes "n \<le> 32"
  shows "sn_off n b (x + w) = (sn_off n b x + unat w) mod 2 ^ n"
proof -
  have "int (sn_off n b (x + w)) = ((uint x + uint w) mod 2 ^ 32 - uint b) mod 2 ^ n"
    using assms by (simp add: int_sn_off uint_word_ariths)
  also have "\<dots> = ((uint x + uint w) mod 2 ^ 32 mod 2 ^ n - uint b) mod 2 ^ n"
    by (rule mod_diff_left_eq[symmetric])
  also have "\<dots> = (uint x + uint w - uint b) mod 2 ^ n"
    unfolding mod_pow2_pow2[OF assms] by (rule mod_diff_left_eq)
  also have "\<dots> = (uint x - uint b + uint w) mod 2 ^ n"
    by (simp add: algebra_simps)
  also have "\<dots> = ((uint x - uint b) mod 2 ^ n + uint w) mod 2 ^ n"
    by (rule mod_add_left_eq[symmetric])
  also have "\<dots> = int ((sn_off n b x + unat w) mod 2 ^ n)"
    using assms by (simp add: int_sn_off zmod_int)
  finally show ?thesis by simp
qed

text \<open>Offsets agree with the numbers modulo any smaller power of two.\<close>

lemma sn_off_take_bit: "n \<le> 32 \<Longrightarrow> sn_off n b (take_bit n x) = sn_off n b x"
proof -
  assume n: "n \<le> 32"
  have "int (sn_off n b (take_bit n x)) = int (sn_off n b x)"
    using n by (simp add: int_sn_off uint_take_bit_u32 mod_diff_left_eq)
  then show ?thesis by simp
qed

lemma sn_off_mod_smaller:
  assumes "n \<le> 32" and "k \<le> n"
  shows "int (sn_off n b x) mod 2 ^ k = (uint x - uint b) mod 2 ^ k"
  using assms by (simp add: int_sn_off mod_pow2_pow2)

lemma sn_off_no_collision:
  assumes n: "n \<le> 32" "k \<le> n" and xy: "unat x < 2 ^ n" "unat y < 2 ^ n"
    and off: "sn_off n b x < 2 ^ k" "sn_off n b y < 2 ^ k"
    and eq: "unat x mod 2 ^ k = unat y mod 2 ^ k"
  shows "x = y"
proof -
  have "int (unat x mod 2 ^ k) = int (unat y mod 2 ^ k)"
    using eq by (rule arg_cong)
  then have "uint x mod 2 ^ k = uint y mod 2 ^ k"
    by (simp add: zmod_int)
  then have "(uint x - uint b) mod 2 ^ k = (uint y - uint b) mod 2 ^ k"
    by (metis mod_diff_left_eq)
  then have "int (sn_off n b x) mod 2 ^ k = int (sn_off n b y) mod 2 ^ k"
    using n by (simp add: sn_off_mod_smaller)
  then have "int (sn_off n b x mod 2 ^ k) = int (sn_off n b y mod 2 ^ k)"
    by (simp add: zmod_int)
  then have "sn_off n b x = sn_off n b y"
    using off by simp
  then show ?thesis
    using sn_off_inject[OF n(1) xy, of b] by simp
qed

text \<open>The C++ expression itself.\<close>

lemma unat_mod_pow2_u32:
  "n < 32 \<Longrightarrow> unat ((x :: u32) mod 2 ^ n) = unat x mod 2 ^ n"
  by (simp flip: take_bit_eq_mod add: unat_take_bit_u32)

section \<open>Bytes of a field\<close>

text \<open>
  A field of \<open>w\<close> bits is written high byte first.  \<open>octet k x\<close> is the byte that holds the bits
  \<open>k .. k + 7\<close> of \<open>x\<close>: the value of \<open>static_cast<uint8_t>(x >> k)\<close>.
\<close>

definition octet :: "nat \<Rightarrow> 'a::len word \<Rightarrow> u8" where
  "octet k x = ucast (drop_bit k x)"

lemma bit_octet: "bit (octet k x) i \<longleftrightarrow> i < 8 \<and> bit (x :: 'a::len word) (k + i)"
  by (auto simp: octet_def bit_simps dest: bit_imp_le_length)

text \<open>Equality of bytes, bit by bit; the masks of the sources; bits of a field of limited width.\<close>

lemma less_8_cases: "(i::nat) < 8 \<longleftrightarrow> i \<in> {0, 1, 2, 3, 4, 5, 6, 7}"
  by auto

lemma u8_eq_iff:
  "(x :: u8) = y \<longleftrightarrow> bit x 0 = bit y 0 \<and> bit x 1 = bit y 1 \<and> bit x 2 = bit y 2 \<and> bit x 3 = bit y 3
     \<and> bit x 4 = bit y 4 \<and> bit x 5 = bit y 5 \<and> bit x 6 = bit y 6 \<and> bit x 7 = bit y 7"
  (is "_ \<longleftrightarrow> ?bits")
proof
  assume ?bits
  then have "\<forall>i\<in>{0, 1, 2, 3, 4, 5, 6, 7}. bit x i = bit y i" by blast
  then show "x = y"
    by (intro bit_word_eqI) (auto simp: less_8_cases)
qed simp

lemma mask_numerals:
  "(1 :: 'a::len word) = mask 1" "(3 :: 'a word) = mask 2" "(0xF :: 'a word) = mask 4"
  "(0x3F :: 'a word) = mask 6" "(0x7F :: 'a word) = mask 7" "(0xFF :: 'a word) = mask 8"
  by (simp_all add: mask_eq_exp_minus_1)

lemma bit_of_take_bit: "take_bit n x = x \<Longrightarrow> bit x i \<Longrightarrow> i < n"
  by (metis bit_take_bit_iff)

lemma and_FF_u8 [simp]: "(x :: u8) AND 0xFF = x"
  by (simp add: u8_eq_iff bit_simps)

text \<open>Two bytes of a 16-bit field.\<close>

lemma join_octets_16 [codec_simps]:
  "push_bit 8 (ucast (octet 8 (x :: u16))) OR ucast (octet 0 x) = x"
  by (rule bit_word_eqI) (auto simp: bit_simps bit_octet)

section \<open>Options and lists\<close>

lemma bind_eq_Some_conv': "(x \<bind> f) = Some y \<longleftrightarrow> (\<exists>a. x = Some a \<and> f a = Some y)"
  by (cases x) auto

end
