(* ===== verification/Rlc_Config.thy ===== *)
theory Rlc_Config
  imports Rlc_Prelude
begin

text \<open>
  The enumerations and constants of \<open>include/ocudu/rlc/rlc_config.h\<close>: field lengths of sequence
  numbers, the cardinality of a sequence-number space, the window size, the D/C and SI fields, and
  the configuration structures of the three RLC modes.
\<close>

section \<open>Sequence-number field lengths\<close>

datatype rlc_um_sn_size = um_size6bits | um_size12bits

primrec um_to_number :: "rlc_um_sn_size \<Rightarrow> nat" where
  "um_to_number um_size6bits = 6"
| "um_to_number um_size12bits = 12"

datatype rlc_am_sn_size = am_size12bits | am_size18bits

primrec am_to_number :: "rlc_am_sn_size \<Rightarrow> nat" where
  "am_to_number am_size12bits = 12"
| "am_to_number am_size18bits = 18"

definition cardinality :: "nat \<Rightarrow> u32" where
  "cardinality sn_size = push_bit sn_size 1"

definition window_size :: "nat \<Rightarrow> u32" where
  "window_size sn_size = cardinality (sn_size - 1)"

lemma um_to_number_bounds: "6 \<le> um_to_number s" "um_to_number s \<le> 12"
  by (cases s; simp)+

lemma am_to_number_bounds: "12 \<le> am_to_number s" "am_to_number s \<le> 18"
  by (cases s; simp)+

lemma cardinality_pow2: "cardinality n = 2 ^ n"
  by (simp add: cardinality_def push_bit_eq_mult)

lemma unat_cardinality:
  assumes "n < 32"
  shows "unat (cardinality n) = 2 ^ n"
proof -
  have "(2::nat) ^ n < 2 ^ 32"
    by (rule power_strict_increasing) (simp_all add: assms)
  then have "unat (of_nat (2 ^ n) :: u32) = 2 ^ n"
    by (simp only: unat_of_nat) (simp add: take_bit_eq_mod)
  then show ?thesis
    by (simp add: cardinality_pow2)
qed

lemma unat_window_size: "n < 32 \<Longrightarrow> unat (window_size n) = 2 ^ (n - 1)"
  by (simp add: window_size_def unat_cardinality)

lemma window_size_half: "0 < n \<Longrightarrow> n < 32 \<Longrightarrow> 2 * unat (window_size n) = 2 ^ n"
  by (cases n) (simp_all add: unat_window_size)

lemma mod_cardinality: "(x :: u32) mod cardinality n = take_bit n x"
  by (simp add: cardinality_pow2 take_bit_eq_mod)

text \<open>The base expressions of the sources, in terms of offsets.\<close>

lemma unat_mod_cardinality: "unat ((x - b) mod cardinality n) = sn_off n b x"
  by (simp only: mod_cardinality sn_off_def)

lemma inc_mod_cardinality: "(x + 1) mod cardinality n = sn_inc n x"
  by (simp only: mod_cardinality sn_inc_def)

section \<open>Header enumerations\<close>

datatype rlc_dc_field = dc_control | dc_data

primrec dc_to_number :: "rlc_dc_field \<Rightarrow> u8" where
  "dc_to_number dc_control = 0"
| "dc_to_number dc_data = 1"

datatype rlc_si_field = full_sdu | first_segment | last_segment | middle_segment

primrec si_to_number :: "rlc_si_field \<Rightarrow> u8" where
  "si_to_number full_sdu = 0"
| "si_to_number first_segment = 1"
| "si_to_number last_segment = 2"
| "si_to_number middle_segment = 3"

text \<open>
  The casts \<open>(rlc_dc_field)\<close> and \<open>(rlc_si_field)\<close> of the decoders are applied to one and to two
  masked bits, so every value has its enumerator.
\<close>

definition dc_of_bits :: "u8 \<Rightarrow> rlc_dc_field" where
  "dc_of_bits b = (if b = 0 then dc_control else dc_data)"

definition si_of_bits :: "u8 \<Rightarrow> rlc_si_field" where
  "si_of_bits b = (if b = 0 then full_sdu else if b = 1 then first_segment
     else if b = 2 then last_segment else middle_segment)"

lemma dc_of_to_number [simp]: "dc_of_bits (dc_to_number d) = d"
  by (cases d) (simp_all add: dc_of_bits_def)

lemma si_of_to_number [simp]: "si_of_bits (si_to_number s) = s"
  by (cases s) (simp_all add: si_of_bits_def)

section \<open>Configuration structures\<close>

record rlc_rx_am_config =
  rxam_sn_field_length :: rlc_am_sn_size
  rxam_t_reassembly :: int
  rxam_t_status_prohibit :: int
  rxam_max_sn_per_status :: "u32 option"

datatype pdcp_sn_size = pdcp_invalid | pdcp_size12bits | pdcp_size18bits

record rlc_tx_am_config =
  txam_sn_field_length :: rlc_am_sn_size
  txam_pdcp_sn_len :: pdcp_sn_size
  txam_t_poll_retx :: int
  txam_max_retx_thresh :: u32
  txam_poll_pdu :: int
  txam_poll_byte :: int
  txam_queue_size :: u32
  txam_queue_size_bytes :: u32
  txam_max_window :: u32

record rlc_rx_um_config =
  rxum_sn_field_length :: rlc_um_sn_size
  rxum_t_reassembly :: int

record rlc_tx_um_config =
  txum_sn_field_length :: rlc_um_sn_size
  txum_pdcp_sn_len :: pdcp_sn_size
  txum_queue_size :: u32
  txum_queue_size_bytes :: u32

record rlc_tx_tm_config =
  txtm_queue_size :: u32
  txtm_queue_size_bytes :: u32

end
