(* ===== verification/Rlc_Sdu_Queue.thy ===== *)
theory Rlc_Sdu_Queue
  imports Rlc_Config
begin

text \<open>
  The SDU queue between the upper layer and the transmit entities,
  \<open>lib/rlc/rlc_sdu_queue_lockfree.h\<close>, and the extraction of the PDCP sequence number,
  \<open>include/ocudu/ran/pdcp/pdcp_sn_util.h\<close>.

  The internal single-producer single-consumer queue is a bounded list.  The arrays of slot states
  and SDU sizes are functions of the slot number.  Each method is one atomic step here; the
  packed 64-bit counter of SDUs and bytes keeps its width and its wrap-around.

  The locale \<open>sdu_fifo\<close> is what the transmit entities rely on: a FIFO of the SDUs that are not
  discarded, with exact totals.
\<close>

section \<open>SDUs and their PDCP sequence numbers\<close>

record rlc_sdu =
  sdu_buf :: bytes
  sdu_is_retx :: bool
  sdu_pdcp_sn :: "u32 option"

definition sdu_default :: rlc_sdu where
  "sdu_default = \<lparr>sdu_buf = [], sdu_is_retx = False, sdu_pdcp_sn = None\<rparr>"

text \<open>The bit decoder reads the D/C bit, the reserved bits and the sequence number, high bit first.\<close>

definition get_pdcp_sn :: "bytes \<Rightarrow> pdcp_sn_size \<Rightarrow> bool \<Rightarrow> u32 option" where
  "get_pdcp_sn pdu sn_len is_srb = (case pdu of [] \<Rightarrow> None | b0 # rest \<Rightarrow>
     if is_srb \<and> sn_len \<noteq> pdcp_size12bits then None
     else let dc = drop_bit 7 b0 in
       if \<not> is_srb \<and> dc = 0 then None
       else if is_srb \<and> dc = 1 then None
       else (case sn_len of
           pdcp_size12bits \<Rightarrow> (case rest of [] \<Rightarrow> None | b1 # _ \<Rightarrow>
             if drop_bit 4 b0 AND 0x07 \<noteq> 0 then None
             else Some (push_bit 8 (ucast (b0 AND 0x0F)) OR ucast b1))
         | pdcp_size18bits \<Rightarrow> (case rest of b1 # b2 # _ \<Rightarrow>
             if drop_bit 2 b0 AND 0x1F \<noteq> 0 then None
             else Some (push_bit 16 (ucast (b0 AND 0x03)) OR push_bit 8 (ucast b1) OR ucast b2)
             | _ \<Rightarrow> None)
         | pdcp_invalid \<Rightarrow> None))"

section \<open>The queue\<close>

definition STATE_FREE :: u32 where "STATE_FREE = 0xFFFFFFFF"
definition STATE_DISCARDED :: u32 where "STATE_DISCARDED = 0xFFFFFFFE"

record rlc_sdu_queue =
  sq_capacity :: u32
  sq_byte_limit :: u32
  sq_state :: u64
  sq_queue :: "rlc_sdu list"
  sq_sdu_states :: "nat \<Rightarrow> u32"
  sq_sdu_sizes :: "nat \<Rightarrow> nat"

definition sq_new :: "u32 \<Rightarrow> u32 \<Rightarrow> rlc_sdu_queue" where
  "sq_new capacity byte_limit = \<lparr>sq_capacity = capacity, sq_byte_limit = byte_limit, sq_state = 0,
     sq_queue = [], sq_sdu_states = (\<lambda>_. STATE_FREE), sq_sdu_sizes = (\<lambda>_. 0)\<rparr>"

definition sq_slot :: "rlc_sdu_queue \<Rightarrow> u32 \<Rightarrow> nat" where
  "sq_slot q sn = unat (sn mod sq_capacity q)"

record sq_state_t =
  n_sdus :: u32
  n_bytes :: u32

definition sq_get_state :: "rlc_sdu_queue \<Rightarrow> sq_state_t" where
  "sq_get_state q = \<lparr>n_sdus = ucast (drop_bit 32 (sq_state q)),
     n_bytes = ucast (sq_state q AND 0xFFFFFFFF)\<rparr>"

definition sq_state_change :: "u32 \<Rightarrow> u64" where
  "sq_state_change sdu_size = push_bit 32 1 OR ucast sdu_size"

definition sq_state_add :: "u32 \<Rightarrow> rlc_sdu_queue \<Rightarrow> rlc_sdu_queue" where
  "sq_state_add sdu_size q = q\<lparr>sq_state := sq_state q + sq_state_change sdu_size\<rparr>"

definition sq_state_sub :: "u32 \<Rightarrow> rlc_sdu_queue \<Rightarrow> rlc_sdu_queue" where
  "sq_state_sub sdu_size q = q\<lparr>sq_state := sq_state q - sq_state_change sdu_size\<rparr>"

definition sq_try_push :: "rlc_sdu_queue \<Rightarrow> rlc_sdu \<Rightarrow> (rlc_sdu_queue) option" where
  "sq_try_push q sdu = (if length (sq_queue q) < unat (sq_capacity q)
     then Some (q\<lparr>sq_queue := sq_queue q @ [sdu]\<rparr>) else None)"

definition sq_push_counted :: "rlc_sdu_queue \<Rightarrow> rlc_sdu_queue \<Rightarrow> rlc_sdu \<Rightarrow> bool \<times> rlc_sdu_queue" where
  "sq_push_counted q on_full sdu = (case sq_try_push q sdu of None \<Rightarrow> (False, on_full)
     | Some q' \<Rightarrow> (True, sq_state_add (of_nat (length (sdu_buf sdu))) q'))"

definition sq_write :: "rlc_sdu_queue \<Rightarrow> rlc_sdu \<Rightarrow> bool \<times> rlc_sdu_queue" where
  "sq_write q sdu =
     (if length (sdu_buf sdu) + unat (n_bytes (sq_get_state q)) \<ge> unat (sq_byte_limit q) then (False, q)
      else (case sdu_pdcp_sn sdu of
          None \<Rightarrow> sq_push_counted q q sdu
        | Some sn \<Rightarrow> let i = sq_slot q sn in
            if sq_sdu_states q i \<noteq> STATE_FREE then (False, q)
            else let q' = q\<lparr>sq_sdu_sizes := (sq_sdu_sizes q)(i := length (sdu_buf sdu)),
                            sq_sdu_states := (sq_sdu_states q)(i := sn)\<rparr>
              in sq_push_counted q' (q'\<lparr>sq_sdu_states := (sq_sdu_states q')(i := STATE_FREE)\<rparr>) sdu))"

definition sq_try_discard :: "rlc_sdu_queue \<Rightarrow> u32 \<Rightarrow> bool \<times> rlc_sdu_queue" where
  "sq_try_discard q sn = (let i = sq_slot q sn; sdu_size = of_nat (sq_sdu_sizes q i) in
     if sq_sdu_states q i \<noteq> sn then (False, q)
     else (True, sq_state_sub sdu_size (q\<lparr>sq_sdu_states := (sq_sdu_states q)(i := STATE_DISCARDED)\<rparr>)))"

definition sq_check_and_release :: "rlc_sdu_queue \<Rightarrow> u32 \<Rightarrow> bool \<times> rlc_sdu_queue" where
  "sq_check_and_release q sn = (let i = sq_slot q sn;
       sdu_size = of_nat (sq_sdu_sizes q i);
       old_state = sq_sdu_states q i;
       q' = q\<lparr>sq_sdu_states := (sq_sdu_states q)(i := STATE_FREE)\<rparr> in
     if old_state = sn then (True, sq_state_sub sdu_size q')
     else if old_state = STATE_DISCARDED then (False, q')
     else (False, sq_state_sub sdu_size q'))"

definition sq_check :: "rlc_sdu_queue \<Rightarrow> u32 \<Rightarrow> bool" where
  "sq_check q sn \<longleftrightarrow> sq_sdu_states q (sq_slot q sn) = sn"

lemma sq_release_queue [simp]: "sq_queue (snd (sq_check_and_release q sn)) = sq_queue q"
  by (simp add: sq_check_and_release_def sq_state_sub_def Let_def)

text \<open>
  \<open>read\<close> pops until it finds an SDU that was not discarded.  Every pop assigns to the SDU passed by
  reference, also when the popped SDU turns out to be discarded and the queue is empty after it:
  the result holds the success flag, the SDU object after the call and the queue.
\<close>

function sq_read :: "rlc_sdu \<Rightarrow> rlc_sdu_queue \<Rightarrow> bool \<times> rlc_sdu \<times> rlc_sdu_queue" where
  "sq_read sdu q = (case sq_queue q of [] \<Rightarrow> (False, sdu, q) | front # rest \<Rightarrow>
     (case sdu_pdcp_sn front of
        None \<Rightarrow> (True, front, sq_state_sub (of_nat (length (sdu_buf front))) (q\<lparr>sq_queue := rest\<rparr>))
      | Some sn \<Rightarrow>
          if fst (sq_check_and_release (q\<lparr>sq_queue := rest\<rparr>) sn)
          then (True, front, snd (sq_check_and_release (q\<lparr>sq_queue := rest\<rparr>) sn))
          else sq_read front (snd (sq_check_and_release (q\<lparr>sq_queue := rest\<rparr>) sn))))"
  by pat_completeness auto
termination
  by (relation "measure (\<lambda>(_, q). length (sq_queue q))") auto

function sq_front :: "rlc_sdu_queue \<Rightarrow> rlc_sdu option \<times> rlc_sdu_queue" where
  "sq_front q = (case sq_queue q of [] \<Rightarrow> (None, q) | front_sdu # rest \<Rightarrow>
     (case sdu_pdcp_sn front_sdu of
        None \<Rightarrow> (Some front_sdu, q)
      | Some sn \<Rightarrow> if sq_check q sn then (Some front_sdu, q)
          else if fst (sq_check_and_release (q\<lparr>sq_queue := rest\<rparr>) sn)
          then (None, snd (sq_check_and_release (q\<lparr>sq_queue := rest\<rparr>) sn))
          else sq_front (snd (sq_check_and_release (q\<lparr>sq_queue := rest\<rparr>) sn))))"
  by pat_completeness auto
termination
  by (relation "measure (\<lambda>q. length (sq_queue q))") auto

declare sq_read.simps [simp del] sq_front.simps [simp del]

definition sq_is_empty :: "rlc_sdu_queue \<Rightarrow> bool" where
  "sq_is_empty q \<longleftrightarrow> sq_queue q = []"

definition sq_is_full :: "rlc_sdu_queue \<Rightarrow> bool" where
  "sq_is_full q \<longleftrightarrow> length (sq_queue q) \<ge> unat (sq_capacity q)"

section \<open>The queue of the SDUs that are not discarded\<close>

definition sq_live :: "rlc_sdu_queue \<Rightarrow> rlc_sdu \<Rightarrow> bool" where
  "sq_live q sdu \<longleftrightarrow> (case sdu_pdcp_sn sdu of None \<Rightarrow> True | Some sn \<Rightarrow> sq_check q sn)"

definition sq_abs :: "rlc_sdu_queue \<Rightarrow> rlc_sdu list" where
  "sq_abs q = filter (sq_live q) (sq_queue q)"

definition sdu_bytes :: "rlc_sdu list \<Rightarrow> nat" where
  "sdu_bytes sdus = sum_list (map (\<lambda>s. length (sdu_buf s)) sdus)"

text \<open>The slots taken by the SDUs of a list, in order.\<close>

fun sq_slots :: "rlc_sdu_queue \<Rightarrow> rlc_sdu list \<Rightarrow> nat list" where
  "sq_slots q [] = []"
| "sq_slots q (s # ss) = (case sdu_pdcp_sn s of None \<Rightarrow> sq_slots q ss
     | Some sn \<Rightarrow> sq_slot q sn # sq_slots q ss)"

definition sq_slots_ok :: "rlc_sdu_queue \<Rightarrow> bool" where
  "sq_slots_ok q \<longleftrightarrow> distinct (sq_slots q (sq_queue q))
     \<and> (\<forall>i < unat (sq_capacity q). sq_sdu_states q i = STATE_FREE \<longleftrightarrow> i \<notin> set (sq_slots q (sq_queue q)))
     \<and> (\<forall>s \<in> set (sq_queue q). \<forall>sn. sdu_pdcp_sn s = Some sn \<longrightarrow>
          sq_sdu_states q (sq_slot q sn) \<in> {sn, STATE_DISCARDED}
          \<and> sn \<noteq> STATE_FREE \<and> sn \<noteq> STATE_DISCARDED
          \<and> sq_sdu_sizes q (sq_slot q sn) = length (sdu_buf s))"

definition sq_wf :: "rlc_sdu_queue \<Rightarrow> bool" where
  "sq_wf q \<longleftrightarrow> 0 < unat (sq_capacity q) \<and> length (sq_queue q) \<le> unat (sq_capacity q)
     \<and> sq_slots_ok q
     \<and> sq_state q = of_nat (2 ^ 32 * length (sq_abs q) + sdu_bytes (sq_abs q))
     \<and> sdu_bytes (sq_abs q) < 2 ^ 32"

text \<open>The packed counter.\<close>

lemma sq_state_change_add: "sq_state_change x = of_nat (2 ^ 32 + unat x)"
proof -
  have "\<not> bit (push_bit 32 1 :: u64) n \<or> \<not> bit (ucast x :: u64) n" for n
    using bit_imp_le_length[of x n]
    by (simp only: bit_push_bit_iff bit_1_iff bit_unsigned_iff) auto
  then have "(push_bit 32 1 :: u64) + ucast x = push_bit 32 1 OR ucast x"
    by (rule disjunctive_add)
  then have "sq_state_change x = push_bit 32 1 + ucast x"
    by (simp only: sq_state_change_def)
  then show ?thesis
    by (simp add: push_bit_eq_mult)
qed

lemma sq_get_state_packed:
  assumes "sq_state q = of_nat (2 ^ 32 * n + b)" and "n < 2 ^ 32" and "b < 2 ^ 32"
  shows "unat (n_sdus (sq_get_state q)) = n" "unat (n_bytes (sq_get_state q)) = b"
proof -
  let ?v = "2 ^ 32 * n + b"
  have small: "?v < 2 ^ 64"
    using assms(2,3) by simp
  then have v: "unat (sq_state q) = ?v"
    unfolding assms(1) by (simp only: unat_of_nat) (simp add: take_bit_eq_mod)
  have "unat (drop_bit 32 (sq_state q)) = n"
    using v assms(3) small
    by (simp only: unsigned_drop_bit_eq) (simp add: drop_bit_eq_div take_bit_eq_mod)
  then show "unat (n_sdus (sq_get_state q)) = n"
    using assms(2) by (simp add: sq_get_state_def unsigned_ucast_eq take_bit_eq_mod)
  have "sq_state q AND 0xFFFFFFFF = take_bit 32 (sq_state q)"
    by (simp add: take_bit_eq_mask mask_eq_exp_minus_1)
  then have "unat (sq_state q AND 0xFFFFFFFF) = b"
    using v assms(3) by (simp only: unat_take_bit) simp
  then show "unat (n_bytes (sq_get_state q)) = b"
    using assms(3) by (simp add: sq_get_state_def unsigned_ucast_eq take_bit_eq_mod)
qed

text \<open>Slots and liveness.\<close>

lemma sq_slot_less: "0 < unat (sq_capacity q) \<Longrightarrow> sq_slot q sn < unat (sq_capacity q)"
  by (simp add: sq_slot_def unat_mod)

lemma sq_slots_append [simp]: "sq_slots q (xs @ ys) = sq_slots q xs @ sq_slots q ys"
  by (induction xs) (simp_all split: option.splits)

lemma sq_slot_cong [simp]:
  "sq_slot (q\<lparr>sq_queue := a\<rparr>) = sq_slot q" "sq_slot (q\<lparr>sq_sdu_states := b\<rparr>) = sq_slot q"
  "sq_slot (q\<lparr>sq_sdu_sizes := c\<rparr>) = sq_slot q" "sq_slot (q\<lparr>sq_state := d\<rparr>) = sq_slot q"
  by (simp_all add: sq_slot_def fun_eq_iff)

lemma sq_slots_cong: "sq_slot q' = sq_slot q \<Longrightarrow> sq_slots q' ss = sq_slots q ss"
  by (induction ss) (simp_all split: option.splits)

lemma sq_slots_upd [simp]:
  "sq_slots (q\<lparr>sq_queue := a\<rparr>) = sq_slots q" "sq_slots (q\<lparr>sq_sdu_states := b\<rparr>) = sq_slots q"
  "sq_slots (q\<lparr>sq_sdu_sizes := c\<rparr>) = sq_slots q" "sq_slots (q\<lparr>sq_state := d\<rparr>) = sq_slots q"
  by (rule ext, rule sq_slots_cong, simp)+

lemma set_sq_slots: "i \<in> set (sq_slots q ss) \<longleftrightarrow> (\<exists>s \<in> set ss. \<exists>sn. sdu_pdcp_sn s = Some sn \<and> sq_slot q sn = i)"
  by (induction ss) (auto split: option.splits)

lemma sq_live_state [simp]: "sq_live (q\<lparr>sq_state := d\<rparr>) = sq_live q"
  by (simp add: sq_live_def sq_check_def fun_eq_iff split: option.splits)

lemma sq_live_cong:
  assumes "\<And>s sn. s \<in> set ss \<Longrightarrow> sdu_pdcp_sn s = Some sn \<Longrightarrow>
      sq_sdu_states q' (sq_slot q sn) = sq_sdu_states q (sq_slot q sn)" and "sq_slot q' = sq_slot q"
  shows "filter (sq_live q') ss = filter (sq_live q) ss"
  using assms by (intro filter_cong) (auto simp: sq_live_def sq_check_def split: option.splits)

lemma sdu_bytes_simps [simp]:
  "sdu_bytes [] = 0" "sdu_bytes (s # ss) = length (sdu_buf s) + sdu_bytes ss"
  "sdu_bytes (ss @ ts) = sdu_bytes ss + sdu_bytes ts"
  by (simp_all add: sdu_bytes_def)

lemma length_sq_abs: "length (sq_abs q) \<le> length (sq_queue q)"
  by (simp add: sq_abs_def)

lemma sq_wf_state:
  assumes "sq_wf q"
  shows "unat (n_sdus (sq_get_state q)) = length (sq_abs q)"
    "unat (n_bytes (sq_get_state q)) = sdu_bytes (sq_abs q)"
proof -
  have "length (sq_abs q) \<le> unat (sq_capacity q)"
    using assms length_sq_abs[of q] by (simp add: sq_wf_def)
  also have "\<dots> < 2 ^ 32"
    using unat_less_u32[of "sq_capacity q"] by simp
  finally have "length (sq_abs q) < 2 ^ 32" .
  then show "unat (n_sdus (sq_get_state q)) = length (sq_abs q)"
    "unat (n_bytes (sq_get_state q)) = sdu_bytes (sq_abs q)"
    using assms sq_get_state_packed unfolding sq_wf_def by blast+
qed

lemma sq_new_wf: "0 < unat capacity \<Longrightarrow> sq_wf (sq_new capacity byte_limit)"
  by (simp add: sq_wf_def sq_new_def sq_slots_ok_def sq_abs_def)

lemma sq_new_abs [simp]: "sq_abs (sq_new c l) = []"
  by (simp add: sq_abs_def sq_new_def)

section \<open>The operations on the queue of live SDUs\<close>

definition sdu_sn_ok :: "rlc_sdu \<Rightarrow> bool" where
  "sdu_sn_ok sdu \<longleftrightarrow> sdu_pdcp_sn sdu \<notin> {Some STATE_FREE, Some STATE_DISCARDED}"

lemma state_add_packed:
  assumes "l < 2 ^ 32"
  shows "of_nat (2 ^ 32 * n + b) + sq_state_change (of_nat l) = of_nat (2 ^ 32 * Suc n + (b + l))"
  using assms by (simp add: sq_state_change_add unat_of_nat_u32)

lemma state_sub_packed:
  assumes "l < 2 ^ 32"
  shows "of_nat (2 ^ 32 * Suc n + (l + b)) - sq_state_change (of_nat l) = of_nat (2 ^ 32 * n + b)"
  using assms by (simp add: sq_state_change_add unat_of_nat_u32)

lemma state_sub_Cons:
  assumes "st = of_nat (2 ^ 32 * length (x # xs) + sdu_bytes (x # xs))" and "length (sdu_buf x) < 2 ^ 32"
  shows "st - sq_state_change (of_nat (length (sdu_buf x))) = of_nat (2 ^ 32 * length xs + sdu_bytes xs)"
  using state_sub_packed[OF assms(2), of "length xs" "sdu_bytes xs"]
  unfolding assms(1) by (simp only: length_Cons sdu_bytes_simps)

text \<open>Appending a live SDU for which the slot (if it needs one) was prepared.\<close>

lemma sq_push_wf:
  assumes slots: "sq_slots_ok (q\<lparr>sq_queue := sq_queue q @ [sdu]\<rparr>)"
    and live: "sq_live q sdu"
    and cap: "0 < unat (sq_capacity q)" "length (sq_queue q) < unat (sq_capacity q)"
    and st: "sq_state q = of_nat (2 ^ 32 * length (sq_abs q) + sdu_bytes (sq_abs q))"
    and bound: "sdu_bytes (sq_abs q) + length (sdu_buf sdu) < 2 ^ 32"
  defines "q' \<equiv> sq_state_add (of_nat (length (sdu_buf sdu))) (q\<lparr>sq_queue := sq_queue q @ [sdu]\<rparr>)"
  shows "sq_wf q'" "sq_abs q' = sq_abs q @ [sdu]"
proof -
  have live': "sq_live q' = sq_live q"
    by (simp add: q'_def sq_state_add_def sq_live_def sq_check_def fun_eq_iff split: option.splits)
  show abs: "sq_abs q' = sq_abs q @ [sdu]"
    using live unfolding sq_abs_def live' by (simp add: q'_def sq_state_add_def)
  have "sq_state q' = of_nat (2 ^ 32 * Suc (length (sq_abs q)) + (sdu_bytes (sq_abs q) + length (sdu_buf sdu)))"
    using bound state_add_packed[of "length (sdu_buf sdu)"] by (simp add: q'_def sq_state_add_def st)
  moreover have "sq_slots_ok q'"
    using slots by (simp add: q'_def sq_state_add_def sq_slots_ok_def)
  ultimately show "sq_wf q'"
    using cap bound by (simp add: sq_wf_def abs) (simp add: q'_def sq_state_add_def)
qed

lemma sq_slots_ok_push_None:
  "sq_slots_ok q \<Longrightarrow> sdu_pdcp_sn sdu = None \<Longrightarrow> sq_slots_ok (q\<lparr>sq_queue := sq_queue q @ [sdu]\<rparr>)"
  by (auto simp: sq_slots_ok_def)

text \<open>Taking a free slot; all other SDUs keep theirs.\<close>

definition sq_take_slot :: "rlc_sdu_queue \<Rightarrow> u32 \<Rightarrow> nat \<Rightarrow> rlc_sdu_queue" where
  "sq_take_slot q sn len = q\<lparr>sq_sdu_sizes := (sq_sdu_sizes q)(sq_slot q sn := len),
     sq_sdu_states := (sq_sdu_states q)(sq_slot q sn := sn)\<rparr>"

lemma sq_free_slot:
  assumes "sq_slots_ok q" and "0 < unat (sq_capacity q)" and "sq_sdu_states q (sq_slot q sn) = STATE_FREE"
    and "s \<in> set (sq_queue q)" and "sdu_pdcp_sn s = Some sn'"
  shows "sq_slot q sn' \<noteq> sq_slot q sn"
  using assms sq_slot_less[OF assms(2), of sn] by (auto simp: sq_slots_ok_def set_sq_slots)

lemma sq_take_slot_abs:
  assumes "sq_slots_ok q" and "0 < unat (sq_capacity q)" and "sq_sdu_states q (sq_slot q sn) = STATE_FREE"
  shows "sq_abs (sq_take_slot q sn len) = sq_abs q"
  unfolding sq_abs_def sq_take_slot_def
  using sq_free_slot[OF assms] by (simp, intro sq_live_cong) auto

lemma sq_slots_ok_push_Some:
  assumes ok: "sq_slots_ok q" and cap: "0 < unat (sq_capacity q)"
    and free: "sq_sdu_states q (sq_slot q sn) = STATE_FREE"
    and sdu: "sdu_pdcp_sn sdu = Some sn" "sn \<noteq> STATE_FREE" "sn \<noteq> STATE_DISCARDED"
  shows "sq_slots_ok ((sq_take_slot q sn (length (sdu_buf sdu)))\<lparr>sq_queue := sq_queue q @ [sdu]\<rparr>)"
proof -
  have "sq_slot q sn \<notin> set (sq_slots q (sq_queue q))"
    using ok free sq_slot_less[OF cap, of sn] by (simp add: sq_slots_ok_def)
  then show ?thesis
    using ok sdu sq_free_slot[OF ok cap free] unfolding sq_slots_ok_def sq_take_slot_def
    by (auto simp: set_sq_slots)
qed

lemma sq_write_spec:
  assumes wf: "sq_wf q" and sn: "sdu_sn_ok sdu"
  shows "sq_wf (snd (sq_write q sdu))"
    "sq_abs (snd (sq_write q sdu)) = (if fst (sq_write q sdu) then sq_abs q @ [sdu] else sq_abs q)"
proof -
  have ok: "sq_slots_ok q" and cap: "0 < unat (sq_capacity q)"
    and st: "sq_state q = of_nat (2 ^ 32 * length (sq_abs q) + sdu_bytes (sq_abs q))"
    using wf by (simp_all add: sq_wf_def)
  have limit: "sdu_bytes (sq_abs q) + length (sdu_buf sdu) < 2 ^ 32"
    if "\<not> length (sdu_buf sdu) + unat (n_bytes (sq_get_state q)) \<ge> unat (sq_byte_limit q)"
    using that sq_wf_state(2)[OF wf] unat_less_u32[of "sq_byte_limit q"] by simp
  have "sq_wf (snd (sq_write q sdu)) \<and>
    sq_abs (snd (sq_write q sdu)) = (if fst (sq_write q sdu) then sq_abs q @ [sdu] else sq_abs q)"
  proof (cases "length (sdu_buf sdu) + unat (n_bytes (sq_get_state q)) \<ge> unat (sq_byte_limit q)")
    case True
    then show ?thesis using wf by (simp add: sq_write_def)
  next
    case below: False
    note b = limit[OF below]
    show ?thesis
    proof (cases "sdu_pdcp_sn sdu")
      case None
      then have "sq_live q sdu" by (simp add: sq_live_def)
      then show ?thesis
        using None below wf sq_push_wf[OF sq_slots_ok_push_None[OF ok None] _ cap _ st b]
        by (simp add: sq_write_def sq_push_counted_def sq_try_push_def)
    next
      case (Some x)
      then have x: "x \<noteq> STATE_FREE" "x \<noteq> STATE_DISCARDED"
        using sn by (auto simp: sdu_sn_ok_def)
      show ?thesis
      proof (cases "sq_sdu_states q (sq_slot q x) = STATE_FREE")
        case False
        then show ?thesis using Some below wf by (simp add: sq_write_def)
      next
        case free: True
        let ?q = "sq_take_slot q x (length (sdu_buf sdu))"
        let ?full = "?q\<lparr>sq_sdu_states := (sq_sdu_states ?q)(sq_slot q x := STATE_FREE)\<rparr>"
        have w: "sq_write q sdu = sq_push_counted ?q ?full sdu"
          using Some below free by (simp add: sq_write_def sq_take_slot_def Let_def)
        have fields: "sq_queue ?q = sq_queue q" "sq_capacity ?q = sq_capacity q" "sq_state ?q = sq_state q"
          by (simp_all add: sq_take_slot_def)
        note abs = sq_take_slot_abs[OF ok cap free, of "length (sdu_buf sdu)"]
        show ?thesis
        proof (cases "length (sq_queue q) < unat (sq_capacity q)")
          case True
          have "sq_live ?q sdu"
            using Some by (simp add: sq_live_def sq_check_def sq_take_slot_def)
          then show ?thesis
            using True w sq_push_wf[of ?q sdu] sq_slots_ok_push_Some[OF ok cap free Some x] cap st b
            by (simp add: fields abs sq_push_counted_def sq_try_push_def)
        next
          case False
          have "?full = q\<lparr>sq_sdu_sizes := (sq_sdu_sizes q)(sq_slot q x := length (sdu_buf sdu))\<rparr>"
            using free by (simp add: sq_take_slot_def fun_upd_idem)
          moreover have "sq_live (q\<lparr>sq_sdu_sizes := f\<rparr>) = sq_live q" for f
            by (simp add: sq_live_def sq_check_def fun_eq_iff split: option.splits)
          ultimately show ?thesis
            using False w wf sq_free_slot[OF ok cap free]
            by (auto simp: fields sq_push_counted_def sq_try_push_def sq_wf_def sq_abs_def sq_slots_ok_def)
        qed
      qed
    qed
  qed
  then show "sq_wf (snd (sq_write q sdu))"
    "sq_abs (snd (sq_write q sdu)) = (if fst (sq_write q sdu) then sq_abs q @ [sdu] else sq_abs q)"
    by blast+
qed

text \<open>Releasing the slot of the SDU just popped.\<close>

lemma sq_pop_release:
  assumes wf: "sq_wf q" and queue: "sq_queue q = front # rest" and sn: "sdu_pdcp_sn front = Some sn"
  defines "r \<equiv> sq_check_and_release (q\<lparr>sq_queue := rest\<rparr>) sn"
  shows "fst r = sq_check q sn" "sq_wf (snd r)"
    "sq_abs q = (if fst r then front # sq_abs (snd r) else sq_abs (snd r))"
proof -
  let ?i = "sq_slot q sn"
  have ok: "sq_slots_ok q" and cap: "0 < unat (sq_capacity q)"
    using wf by (simp_all add: sq_wf_def)
  have state: "sq_sdu_states q ?i \<in> {sn, STATE_DISCARDED}" and "sn \<noteq> STATE_DISCARDED"
    and size: "sq_sdu_sizes q ?i = length (sdu_buf front)"
    using ok queue sn by (auto simp: sq_slots_ok_def)
  then show fst: "fst r = sq_check q sn"
    by (auto simp: r_def sq_check_and_release_def sq_check_def Let_def)
  have other: "sq_slot q sn' \<noteq> ?i" if "s \<in> set rest" "sdu_pdcp_sn s = Some sn'" for s sn'
    using ok queue sn that by (auto simp: sq_slots_ok_def set_sq_slots)
  define q' where "q' = q\<lparr>sq_queue := rest, sq_sdu_states := (sq_sdu_states q)(?i := STATE_FREE)\<rparr>"
  have snd: "snd r = (if sq_check q sn then sq_state_sub (of_nat (length (sdu_buf front))) q' else q')"
    using state \<open>sn \<noteq> STATE_DISCARDED\<close> size
    by (auto simp: r_def q'_def sq_check_and_release_def sq_check_def Let_def)
  have live: "filter (sq_live q') rest = filter (sq_live q) rest"
    using other by (intro sq_live_cong) (auto simp: q'_def)
  have abs: "sq_abs (snd r) = filter (sq_live q) rest"
    using live by (simp add: snd sq_abs_def sq_state_sub_def) (simp add: q'_def)
  have head: "sq_live q front = sq_check q sn"
    using sn by (simp add: sq_live_def)
  show absq: "sq_abs q = (if fst r then front # sq_abs (snd r) else sq_abs (snd r))"
    using queue by (simp add: sq_abs_def[of q] head fst abs)
  have "sq_slots_ok q'"
    using ok queue sn other unfolding sq_slots_ok_def q'_def
    by (auto simp: set_sq_slots)
  then have slots: "sq_slots_ok (snd r)"
    by (simp add: snd sq_state_sub_def sq_slots_ok_def)
  have bytes: "sdu_bytes (sq_abs q) < 2 ^ 32"
    and st: "sq_state q = of_nat (2 ^ 32 * length (sq_abs q) + sdu_bytes (sq_abs q))"
    using wf by (simp_all add: sq_wf_def)
  have "sq_state (snd r) = of_nat (2 ^ 32 * length (sq_abs (snd r)) + sdu_bytes (sq_abs (snd r)))"
  proof (cases "sq_check q sn")
    case True
    then have cons: "sq_abs q = front # sq_abs (snd r)"
      using absq fst by simp
    then have "length (sdu_buf front) < 2 ^ 32"
      using bytes by simp
    then have "sq_state q - sq_state_change (of_nat (length (sdu_buf front)))
        = of_nat (2 ^ 32 * length (sq_abs (snd r)) + sdu_bytes (sq_abs (snd r)))"
      using st unfolding cons by (intro state_sub_Cons)
    moreover have "sq_state (snd r) = sq_state q - sq_state_change (of_nat (length (sdu_buf front)))"
      using True by (simp add: snd sq_state_sub_def q'_def)
    ultimately show ?thesis by (simp only:)
  next
    case False
    then show ?thesis using absq fst st by (simp add: snd q'_def)
  qed
  moreover have "sdu_bytes (sq_abs (snd r)) < 2 ^ 32"
    using absq bytes by (auto split: if_splits)
  ultimately show "sq_wf (snd r)"
    using wf slots queue by (simp add: sq_wf_def) (simp add: snd sq_state_sub_def q'_def)
qed

lemma sq_pop_plain:
  assumes wf: "sq_wf q" and queue: "sq_queue q = front # rest" and sn: "sdu_pdcp_sn front = None"
  defines "q' \<equiv> sq_state_sub (of_nat (length (sdu_buf front))) (q\<lparr>sq_queue := rest\<rparr>)"
  shows "sq_wf q'" "sq_abs q = front # sq_abs q'"
proof -
  have "sq_live q' = sq_live q"
    by (simp add: q'_def sq_state_sub_def sq_live_def sq_check_def fun_eq_iff split: option.splits)
  then show abs: "sq_abs q = front # sq_abs q'"
    using queue sn by (simp add: sq_abs_def sq_live_def) (simp add: q'_def sq_state_sub_def)
  have st: "sq_state q = of_nat (2 ^ 32 * length (sq_abs q) + sdu_bytes (sq_abs q))"
    and bytes: "sdu_bytes (sq_abs q) < 2 ^ 32" and ok: "sq_slots_ok q"
    using wf by (simp_all add: sq_wf_def)
  then have "length (sdu_buf front) < 2 ^ 32"
    by (simp add: abs)
  then have "sq_state q - sq_state_change (of_nat (length (sdu_buf front)))
      = of_nat (2 ^ 32 * length (sq_abs q') + sdu_bytes (sq_abs q'))"
    using st unfolding abs by (intro state_sub_Cons)
  moreover have "sq_state q' = sq_state q - sq_state_change (of_nat (length (sdu_buf front)))"
    by (simp add: q'_def sq_state_sub_def)
  ultimately have "sq_state q' = of_nat (2 ^ 32 * length (sq_abs q') + sdu_bytes (sq_abs q'))"
    by (simp only:)
  moreover have "sq_slots_ok q'"
    using ok queue sn by (simp add: sq_slots_ok_def q'_def sq_state_sub_def)
  ultimately show "sq_wf q'"
    using wf queue bytes unfolding abs by (simp add: sq_wf_def) (simp add: q'_def sq_state_sub_def)
qed

definition read_result :: "rlc_sdu list \<Rightarrow> bool \<times> rlc_sdu \<times> rlc_sdu_queue \<Rightarrow> bool" where
  "read_result sdus r \<longleftrightarrow> (case r of (ok, sdu, q') \<Rightarrow> sq_wf q' \<and>
     (if ok then sdus = sdu # sq_abs q' else sdus = [] \<and> sq_abs q' = []))"

lemma sq_read_spec: "sq_wf q \<Longrightarrow> read_result (sq_abs q) (sq_read sdu q)"
proof (induction sdu q rule: sq_read.induct)
  case (1 sdu q)
  show ?case
  proof (cases "sq_queue q")
    case Nil
    then show ?thesis
      using 1(2) by (subst sq_read.simps) (simp add: read_result_def sq_abs_def)
  next
    case (Cons front rest)
    show ?thesis
    proof (cases "sdu_pdcp_sn front")
      case None
      then show ?thesis
        using Cons sq_pop_plain[OF 1(2) Cons None]
        by (subst sq_read.simps) (simp add: read_result_def)
    next
      case (Some sn)
      let ?r = "sq_check_and_release (q\<lparr>sq_queue := rest\<rparr>) sn"
      note pop = sq_pop_release[OF 1(2) Cons Some]
      show ?thesis
      proof (cases "fst ?r")
        case True
        then show ?thesis
          using Cons Some pop by (subst sq_read.simps) (simp add: read_result_def)
      next
        case False
        then have "read_result (sq_abs (snd ?r)) (sq_read front (snd ?r))"
          using 1(1)[OF Cons Some] pop by simp
        with False show ?thesis
          using Cons Some pop by (subst sq_read.simps) simp
      qed
    qed
  qed
qed

definition front_result :: "rlc_sdu list \<Rightarrow> rlc_sdu option \<times> rlc_sdu_queue \<Rightarrow> bool" where
  "front_result sdus r \<longleftrightarrow> sq_wf (snd r) \<and> sq_abs (snd r) = sdus
     \<and> fst r = (case sdus of [] \<Rightarrow> None | s # _ \<Rightarrow> Some s)"

lemma sq_front_spec: "sq_wf q \<Longrightarrow> front_result (sq_abs q) (sq_front q)"
proof (induction q rule: sq_front.induct)
  case (1 q)
  show ?case
  proof (cases "sq_queue q")
    case Nil
    then show ?thesis
      using 1(2) by (subst sq_front.simps) (simp add: front_result_def sq_abs_def)
  next
    case (Cons front rest)
    show ?thesis
    proof (cases "sdu_pdcp_sn front")
      case None
      then show ?thesis
        using Cons sq_pop_plain(2)[OF 1(2) Cons None] 1(2)
        by (subst sq_front.simps) (simp add: front_result_def)
    next
      case (Some sn)
      let ?r = "sq_check_and_release (q\<lparr>sq_queue := rest\<rparr>) sn"
      note pop = sq_pop_release[OF 1(2) Cons Some]
      show ?thesis
      proof (cases "sq_check q sn")
        case True
        then show ?thesis
          using Cons Some pop 1(2) by (subst sq_front.simps) (simp add: front_result_def)
      next
        case False
        then have "front_result (sq_abs (snd ?r)) (sq_front (snd ?r))"
          using 1(1)[OF Cons Some] pop by simp
        with False show ?thesis
          using Cons Some pop by (subst sq_front.simps) simp
      qed
    qed
  qed
qed

text \<open>Discarding removes the SDU from the queue of live SDUs at once.\<close>

lemma sq_state_holder:
  assumes wf: "sq_wf q" and st: "sq_sdu_states q (sq_slot q sn) = sn"
    and sn: "sn \<noteq> STATE_FREE" "sn \<noteq> STATE_DISCARDED"
  obtains as s bs where "sq_queue q = as @ s # bs" "sdu_pdcp_sn s = Some sn"
    "\<And>t sn'. t \<in> set (as @ bs) \<Longrightarrow> sdu_pdcp_sn t = Some sn' \<Longrightarrow> sq_slot q sn' \<noteq> sq_slot q sn"
proof -
  have ok: "sq_slots_ok q" and cap: "0 < unat (sq_capacity q)"
    using wf by (simp_all add: sq_wf_def)
  then have "sq_slot q sn \<in> set (sq_slots q (sq_queue q))"
    using st sn sq_slot_less[OF cap, of sn] by (auto simp: sq_slots_ok_def)
  then obtain s sn' where s: "s \<in> set (sq_queue q)" "sdu_pdcp_sn s = Some sn'" "sq_slot q sn' = sq_slot q sn"
    by (auto simp: set_sq_slots)
  then have "sq_sdu_states q (sq_slot q sn') \<in> {sn', STATE_DISCARDED}"
    using ok by (auto simp: sq_slots_ok_def)
  then have sn': "sdu_pdcp_sn s = Some sn"
    using s st sn by auto
  obtain as bs where split: "sq_queue q = as @ s # bs"
    using s(1) by (meson split_list)
  have "sq_slot q sn'' \<noteq> sq_slot q sn" if "t \<in> set (as @ bs)" "sdu_pdcp_sn t = Some sn''" for t sn''
  proof -
    have "sq_slot q sn \<notin> set (sq_slots q as)" "sq_slot q sn \<notin> set (sq_slots q bs)"
      using ok split sn' by (auto simp: sq_slots_ok_def)
    then show ?thesis using that unfolding set_sq_slots by auto
  qed
  with split sn' show ?thesis by (rule that)
qed

lemma sq_try_discard_success:
  assumes wf: "sq_wf q" and ok: "fst (sq_try_discard q sn)"
    and sn: "sn \<noteq> STATE_FREE" "sn \<noteq> STATE_DISCARDED"
  shows "sq_wf (snd (sq_try_discard q sn))"
    "\<exists>as s bs. sdu_pdcp_sn s = Some sn \<and> sq_abs q = as @ s # bs
       \<and> sq_abs (snd (sq_try_discard q sn)) = as @ bs"
proof -
  let ?i = "sq_slot q sn" and ?q' = "snd (sq_try_discard q sn)"
  have st: "sq_sdu_states q ?i = sn"
    using ok by (auto simp: sq_try_discard_def Let_def split: if_splits)
  obtain as s bs where split: "sq_queue q = as @ s # bs" and s: "sdu_pdcp_sn s = Some sn"
    and other: "\<And>t sn'. t \<in> set (as @ bs) \<Longrightarrow> sdu_pdcp_sn t = Some sn' \<Longrightarrow> sq_slot q sn' \<noteq> ?i"
    using sq_state_holder[OF wf st sn] by metis
  have slots: "sq_slots_ok q" and bytes: "sdu_bytes (sq_abs q) < 2 ^ 32"
    and state: "sq_state q = of_nat (2 ^ 32 * length (sq_abs q) + sdu_bytes (sq_abs q))"
    using wf by (simp_all add: sq_wf_def)
  have size: "sq_sdu_sizes q ?i = length (sdu_buf s)"
    using slots split s by (auto simp: sq_slots_ok_def)
  have q': "?q' = q\<lparr>sq_sdu_states := (sq_sdu_states q)(?i := STATE_DISCARDED),
      sq_state := sq_state q - sq_state_change (of_nat (length (sdu_buf s)))\<rparr>"
    using st size by (simp add: sq_try_discard_def sq_state_sub_def Let_def)
  have "filter (sq_live ?q') ts = filter (sq_live q) ts" if "set ts \<subseteq> set (as @ bs)" for ts
  proof (rule sq_live_cong)
    fix t sn' assume "t \<in> set ts" "sdu_pdcp_sn t = Some sn'"
    then have "sq_slot q sn' \<noteq> ?i" using other[of t sn'] that by blast
    then show "sq_sdu_states ?q' (sq_slot q sn') = sq_sdu_states q (sq_slot q sn')" by (simp add: q')
  qed (simp add: q')
  then have live: "filter (sq_live ?q') as = filter (sq_live q) as" "filter (sq_live ?q') bs = filter (sq_live q) bs"
    by simp_all
  have gone: "\<not> sq_live ?q' s" and here: "sq_live q s"
    using s st sn by (simp_all add: sq_live_def sq_check_def q')
  have abs: "sq_abs q = filter (sq_live q) as @ s # filter (sq_live q) bs"
    using split here by (simp add: sq_abs_def)
  have abs': "sq_abs ?q' = filter (sq_live q) as @ filter (sq_live q) bs"
    using split gone live unfolding sq_abs_def by (simp add: q')
  show "\<exists>as s bs. sdu_pdcp_sn s = Some sn \<and> sq_abs q = as @ s # bs \<and> sq_abs ?q' = as @ bs"
    using s abs abs' by blast
  have small: "length (sdu_buf s) < 2 ^ 32"
    using bytes by (simp add: abs)
  have "sq_state q = of_nat (2 ^ 32 * length (s # sq_abs ?q') + sdu_bytes (s # sq_abs ?q'))"
    unfolding state by (simp add: abs abs')
  from state_sub_Cons[OF this small]
  have "sq_state ?q' = of_nat (2 ^ 32 * length (sq_abs ?q') + sdu_bytes (sq_abs ?q'))"
    unfolding q' by simp
  moreover have "sq_slots_ok ?q'"
    using slots sn sq_slot_less[of q sn] wf split s other
    by (auto simp: sq_slots_ok_def q' sq_wf_def set_sq_slots STATE_FREE_def STATE_DISCARDED_def)
  moreover have "sdu_bytes (sq_abs ?q') < 2 ^ 32"
    using bytes by (simp add: abs abs')
  ultimately show "sq_wf ?q'"
    using wf by (simp add: sq_wf_def) (simp add: q')
qed

lemma sq_try_discard_fail: "\<not> fst (sq_try_discard q sn) \<Longrightarrow> snd (sq_try_discard q sn) = q"
  by (simp add: sq_try_discard_def Let_def split: if_splits)

lemma sq_try_discard_iff:
  assumes "sq_wf q" and "sn \<noteq> STATE_FREE" "sn \<noteq> STATE_DISCARDED"
  shows "fst (sq_try_discard q sn) \<longleftrightarrow> (\<exists>s \<in> set (sq_abs q). sdu_pdcp_sn s = Some sn)"
proof
  assume "fst (sq_try_discard q sn)"
  then show "\<exists>s \<in> set (sq_abs q). sdu_pdcp_sn s = Some sn"
    using sq_try_discard_success(2)[OF assms(1) _ assms(2,3)] by force
next
  assume "\<exists>s \<in> set (sq_abs q). sdu_pdcp_sn s = Some sn"
  then show "fst (sq_try_discard q sn)"
    by (auto simp: sq_abs_def sq_live_def sq_check_def sq_try_discard_def Let_def)
qed

text \<open>Which SDUs the queue and the object read into can hold.\<close>

lemma sq_read_sets:
  assumes "sq_read sdu q = (ok, sdu', q')"
  shows "(sdu' = sdu \<or> sdu' \<in> set (sq_queue q)) \<and> set (sq_queue q') \<subseteq> set (sq_queue q)"
  using assms
proof (induction sdu q rule: sq_read.induct)
  case (1 sdu q)
  show ?case
  proof (cases "sq_queue q")
    case Nil
    then show ?thesis using 1(2) by (simp add: sq_read.simps[of sdu q])
  next
    case (Cons front rest)
    show ?thesis
    proof (cases "sdu_pdcp_sn front")
      case None
      then show ?thesis
        using 1(2) Cons by (auto simp: sq_read.simps[of sdu q] sq_state_sub_def)
    next
      case (Some sn)
      let ?r = "sq_check_and_release (q\<lparr>sq_queue := rest\<rparr>) sn"
      have set_r: "sq_queue (snd ?r) = rest" by simp
      show ?thesis
      proof (cases "fst ?r")
        case True
        then show ?thesis
          using 1(2) Cons Some set_r by (auto simp: sq_read.simps[of sdu q])
      next
        case False
        then have "sq_read front (snd ?r) = (ok, sdu', q')"
          using 1(2) Cons Some by (simp add: sq_read.simps[of sdu q])
        then show ?thesis
          using 1(1)[OF Cons Some False] set_r Cons by auto
      qed
    qed
  qed
qed

lemma sq_front_set: "set (sq_queue (snd (sq_front q))) \<subseteq> set (sq_queue q)"
proof (induction q rule: sq_front.induct)
  case (1 q)
  then show ?case
    by (subst sq_front.simps) (auto split: list.splits option.splits)
qed

lemma sq_write_set: "set (sq_queue (snd (sq_write q sdu))) \<subseteq> insert sdu (set (sq_queue q))"
  by (auto simp: sq_write_def sq_push_counted_def sq_try_push_def sq_state_add_def Let_def
      split: option.splits if_splits)

lemma sq_discard_queue [simp]: "sq_queue (snd (sq_try_discard q sn)) = sq_queue q"
  by (simp add: sq_try_discard_def sq_state_sub_def Let_def)

section \<open>The contract of the SDU queue\<close>

locale sdu_fifo =
  fixes invar :: "'q \<Rightarrow> bool"
    and contents :: "'q \<Rightarrow> rlc_sdu list"
    and wr :: "'q \<Rightarrow> rlc_sdu \<Rightarrow> bool \<times> 'q"
    and discard :: "'q \<Rightarrow> u32 \<Rightarrow> bool \<times> 'q"
    and rd :: "rlc_sdu \<Rightarrow> 'q \<Rightarrow> bool \<times> rlc_sdu \<times> 'q"
    and front :: "'q \<Rightarrow> rlc_sdu option \<times> 'q"
    and totals :: "'q \<Rightarrow> sq_state_t"
  assumes write_inv: "invar q \<Longrightarrow> sdu_sn_ok s \<Longrightarrow> invar (snd (wr q s))"
    and write_contents: "invar q \<Longrightarrow> sdu_sn_ok s \<Longrightarrow>
      contents (snd (wr q s)) = (if fst (wr q s) then contents q @ [s] else contents q)"
    and discard_inv: "invar q \<Longrightarrow> sn \<noteq> STATE_FREE \<Longrightarrow> sn \<noteq> STATE_DISCARDED \<Longrightarrow> invar (snd (discard q sn))"
    and discard_contents: "invar q \<Longrightarrow> sn \<noteq> STATE_FREE \<Longrightarrow> sn \<noteq> STATE_DISCARDED \<Longrightarrow> fst (discard q sn) \<Longrightarrow>
      \<exists>as s bs. sdu_pdcp_sn s = Some sn \<and> contents q = as @ s # bs \<and> contents (snd (discard q sn)) = as @ bs"
    and discard_fails: "invar q \<Longrightarrow> sn \<noteq> STATE_FREE \<Longrightarrow> sn \<noteq> STATE_DISCARDED \<Longrightarrow>
      \<not> fst (discard q sn) \<Longrightarrow> snd (discard q sn) = q \<and> (\<forall>s \<in> set (contents q). sdu_pdcp_sn s \<noteq> Some sn)"
    and read_inv: "invar q \<Longrightarrow> invar (snd (snd (rd s q)))"
    and read_some: "invar q \<Longrightarrow> contents q = x # xs \<Longrightarrow>
      fst (rd s q) \<and> fst (snd (rd s q)) = x \<and> contents (snd (snd (rd s q))) = xs"
    and read_none: "invar q \<Longrightarrow> contents q = [] \<Longrightarrow> \<not> fst (rd s q) \<and> contents (snd (snd (rd s q))) = []"
    and front_inv: "invar q \<Longrightarrow> invar (snd (front q))"
    and front_contents: "invar q \<Longrightarrow> contents (snd (front q)) = contents q"
    and front_hd: "invar q \<Longrightarrow> fst (front q) = (case contents q of [] \<Rightarrow> None | s # _ \<Rightarrow> Some s)"
    and totals_ok: "invar q \<Longrightarrow> unat (n_sdus (totals q)) = length (contents q)
      \<and> unat (n_bytes (totals q)) = sdu_bytes (contents q)"
begin

text \<open>A read is the inverse of the writes: what was accepted comes out in order.\<close>

lemma read_success_iff: "invar q \<Longrightarrow> fst (rd s q) \<longleftrightarrow> contents q \<noteq> []"
  using read_some read_none by (metis list.exhaust)

lemma write_read_empty:
  assumes "invar q" and "contents q = []" and "sdu_sn_ok x" and "fst (wr q x)"
  shows "fst (snd (rd s (snd (wr q x)))) = x"
  using assms read_some[OF write_inv[OF assms(1,3)], of x "[]" s] write_contents[OF assms(1,3)] by simp

lemma totals_after_write:
  assumes "invar q" and "sdu_sn_ok x" and "fst (wr q x)"
  shows "unat (n_bytes (totals (snd (wr q x)))) = unat (n_bytes (totals q)) + length (sdu_buf x)"
    "unat (n_sdus (totals (snd (wr q x)))) = unat (n_sdus (totals q)) + 1"
  using assms totals_ok[OF assms(1)] totals_ok[OF write_inv[OF assms(1,2)]] write_contents[OF assms(1,2)]
  by simp_all

end

interpretation fifo: sdu_fifo sq_wf sq_abs sq_write sq_try_discard sq_read sq_front sq_get_state
proof (unfold_locales, goal_cases)
  case (4 q sn)
  then show ?case by (intro sq_try_discard_success(2))
next
  case (3 q sn)
  then show ?case
    using sq_try_discard_success(1) sq_try_discard_fail by metis
next
  case (5 q sn)
  then show ?case
    using sq_try_discard_iff sq_try_discard_fail by metis
next
  case (6 q s)
  then show ?case
    using sq_read_spec[of q s] by (auto simp: read_result_def split: prod.splits)
next
  case (7 q x xs s)
  then show ?case
    using sq_read_spec[of q s] by (auto simp: read_result_def split: prod.splits if_splits)
next
  case (8 q s)
  then show ?case
    using sq_read_spec[of q s] by (auto simp: read_result_def split: prod.splits if_splits)
qed (simp_all add: sq_write_spec sq_wf_state sq_front_spec[unfolded front_result_def])

section \<open>Properties\<close>

lemma sq_slot_taken:
  assumes "sq_wf q"
  shows "sq_sdu_states q (sq_slot q sn) = STATE_FREE \<longleftrightarrow> sq_slot q sn \<notin> set (sq_slots q (sq_queue q))"
  using assms sq_slot_less[of q sn] by (simp add: sq_wf_def sq_slots_ok_def)

text \<open>A write appends the SDU to the queue of SDUs that are not discarded or leaves that queue as
  it is, and keeps the queue well formed; it is accepted exactly when the byte limit, the number of
  entries and the slot of the SDU's PDCP sequence number (not taken by an SDU in the queue, discarded
  or not) allow it.\<close>

theorem sdu_queue_write:
  assumes "sq_wf q" and "sdu_sn_ok sdu"
  shows "sq_wf (snd (sq_write q sdu))
     \<and> sq_abs (snd (sq_write q sdu)) = (if fst (sq_write q sdu) then sq_abs q @ [sdu] else sq_abs q)
     \<and> (fst (sq_write q sdu) \<longleftrightarrow>
          sdu_bytes (sq_abs q) + length (sdu_buf sdu) < unat (sq_byte_limit q)
          \<and> length (sq_queue q) < unat (sq_capacity q)
          \<and> (case sdu_pdcp_sn sdu of None \<Rightarrow> True
             | Some sn \<Rightarrow> sq_slot q sn \<notin> set (sq_slots q (sq_queue q))))"
  using fifo.write_inv[OF assms] fifo.write_contents[OF assms] sq_wf_state(2)[OF assms(1)]
    sq_slot_taken[OF assms(1)]
  by (auto simp: sq_write_def sq_push_counted_def sq_try_push_def Let_def split: option.splits)

definition sq_demo_sdu :: rlc_sdu where
  "sq_demo_sdu = \<lparr>sdu_buf = [0x80, 3, 1], sdu_is_retx = False, sdu_pdcp_sn = Some 3\<rparr>"

lemma sq_demo_ok: "sdu_sn_ok sq_demo_sdu"
  by (simp add: sdu_sn_ok_def sq_demo_sdu_def STATE_FREE_def STATE_DISCARDED_def)

theorem sdu_queue_write_witness:
  "let q = sq_new 4 100 in sq_wf (snd (sq_write q sq_demo_sdu))
     \<and> sq_abs (snd (sq_write q sq_demo_sdu)) = (if fst (sq_write q sq_demo_sdu) then sq_abs q @ [sq_demo_sdu] else sq_abs q)
     \<and> (fst (sq_write q sq_demo_sdu) \<longleftrightarrow>
          sdu_bytes (sq_abs q) + length (sdu_buf sq_demo_sdu) < unat (sq_byte_limit q)
          \<and> length (sq_queue q) < unat (sq_capacity q)
          \<and> (case sdu_pdcp_sn sq_demo_sdu of None \<Rightarrow> True
             | Some sn \<Rightarrow> sq_slot q sn \<notin> set (sq_slots q (sq_queue q))))"
  unfolding Let_def by (rule sdu_queue_write[OF sq_new_wf sq_demo_ok]) simp

definition sq_demo :: rlc_sdu_queue where
  "sq_demo = snd (sq_write (sq_new 4 100) sq_demo_sdu)"

lemma sq_demo_wf: "sq_wf sq_demo"
  unfolding sq_demo_def by (rule fifo.write_inv[OF sq_new_wf sq_demo_ok]) simp

text \<open>A read returns the oldest SDU that is not discarded and removes it, or fails exactly when
  there is none; \<open>front\<close> shows that SDU without removing it; both keep the queue well formed.\<close>

theorem sdu_queue_read:
  assumes "sq_wf q"
  shows "(case sq_read out q of (ok, sdu, q') \<Rightarrow> sq_wf q'
          \<and> (if ok then sq_abs q = sdu # sq_abs q' else sq_abs q = [] \<and> sq_abs q' = []))
     \<and> (case sq_front q of (f, q') \<Rightarrow> sq_wf q' \<and> sq_abs q' = sq_abs q
          \<and> f = (case sq_abs q of [] \<Rightarrow> None | s # _ \<Rightarrow> Some s))"
  using sq_read_spec[OF assms, of out] fifo.front_inv[OF assms] fifo.front_contents[OF assms] fifo.front_hd[OF assms]
  by (simp add: read_result_def case_prod_beta)

theorem sdu_queue_read_witness:
  "(case sq_read sdu_default sq_demo of (ok, sdu, q') \<Rightarrow> sq_wf q'
          \<and> (if ok then sq_abs sq_demo = sdu # sq_abs q' else sq_abs sq_demo = [] \<and> sq_abs q' = []))
     \<and> (case sq_front sq_demo of (f, q') \<Rightarrow> sq_wf q' \<and> sq_abs q' = sq_abs sq_demo
          \<and> f = (case sq_abs sq_demo of [] \<Rightarrow> None | s # _ \<Rightarrow> Some s))"
  by (rule sdu_queue_read[OF sq_demo_wf])

text \<open>Discarding a PDCP sequence number succeeds exactly when an SDU with that number is waiting,
  and then takes exactly that SDU out of the queue; otherwise nothing changes.  The packed 64-bit
  counter always reads as the number and the total size of the SDUs that are not discarded.\<close>

theorem sdu_queue_discard:
  assumes "sq_wf q" and "sn \<noteq> STATE_FREE" and "sn \<noteq> STATE_DISCARDED"
  shows "sq_wf (snd (sq_try_discard q sn))
     \<and> (if fst (sq_try_discard q sn)
        then \<exists>as s bs. sdu_pdcp_sn s = Some sn \<and> sq_abs q = as @ s # bs
           \<and> sq_abs (snd (sq_try_discard q sn)) = as @ bs
        else snd (sq_try_discard q sn) = q \<and> (\<forall>s \<in> set (sq_abs q). sdu_pdcp_sn s \<noteq> Some sn))
     \<and> unat (n_sdus (sq_get_state q)) = length (sq_abs q)
     \<and> unat (n_bytes (sq_get_state q)) = sdu_bytes (sq_abs q)"
  using fifo.discard_inv[OF assms] fifo.discard_contents[OF assms] fifo.discard_fails[OF assms]
    fifo.totals_ok[OF assms(1)]
  by simp

theorem sdu_queue_discard_witness:
  "sq_wf (snd (sq_try_discard sq_demo 3))
     \<and> (if fst (sq_try_discard sq_demo 3)
        then \<exists>as s bs. sdu_pdcp_sn s = Some 3 \<and> sq_abs sq_demo = as @ s # bs
           \<and> sq_abs (snd (sq_try_discard sq_demo 3)) = as @ bs
        else snd (sq_try_discard sq_demo 3) = sq_demo \<and> (\<forall>s \<in> set (sq_abs sq_demo). sdu_pdcp_sn s \<noteq> Some 3))
     \<and> unat (n_sdus (sq_get_state sq_demo)) = length (sq_abs sq_demo)
     \<and> unat (n_bytes (sq_get_state sq_demo)) = sdu_bytes (sq_abs sq_demo)"
  by (rule sdu_queue_discard[OF sq_demo_wf]) (simp_all add: STATE_FREE_def STATE_DISCARDED_def)

end
