(* ===== verification/Rlc_Tx_Common.thy ===== *)
theory Rlc_Tx_Common
  imports Rlc_Sdu_Queue
begin

text \<open>
  What the transmit entities have in common: the notifications they send to the adjacent layers
  (\<open>include/ocudu/rlc/rlc_tx.h\<close>), in the order in which they are sent, and the largest transport
  block of \<open>include/ocudu/ran/pdsch/pdsch_constants.h\<close>.

  \<open>Defer_buffer_state_update\<close> is the task that \<open>handle_changed_buffer_state\<close> hands to the cell
  executor; whether the executor accepts it is an argument of the operation.
\<close>

datatype rlc_tx_event =
    On_transmitted_sdu u32 u32
  | On_retransmitted_sdu u32
  | On_delivered_sdu u32
  | On_delivered_retransmitted_sdu u32
  | On_protocol_failure
  | On_max_retx
  | On_buffer_state_update u32
  | Defer_buffer_state_update

definition MAX_DL_PDU_LENGTH :: nat where
  "MAX_DL_PDU_LENGTH = (156 * 275 * 4 * 8) div 8"

text \<open>The flag \<open>pending_buffer_state\<close> lets at most one update task be queued.\<close>

definition trigger_update :: "bool \<Rightarrow> bool \<Rightarrow> bool \<times> rlc_tx_event list" where
  "trigger_update defer_ok pending =
     (True, if \<not> pending \<and> defer_ok then [Defer_buffer_state_update] else [])"

text \<open>The PDCP sequence numbers read from the header of an SDU lie below the special values of the slots of
  the SDU queue.\<close>

lemma pdcp_sn_bits:
  "take_bit 18 (push_bit 8 (ucast (b0 AND 0x0F)) OR ucast (b1 :: u8) :: u32)
     = push_bit 8 (ucast ((b0 :: u8) AND 0x0F)) OR ucast b1"
  "take_bit 18 (push_bit 16 (ucast (b0 AND 0x03)) OR push_bit 8 (ucast b1) OR ucast (b2 :: u8) :: u32)
     = push_bit 16 (ucast (b0 AND 0x03)) OR push_bit 8 (ucast b1) OR ucast b2"
  by (rule bit_word_eqI; auto simp: mask_numerals(2,3) bit_simps dest: bit_imp_le_length)+

lemmas pdcp_sn_bounds = pdcp_sn_bits[THEN unat_below_take_bit]

lemma pdcp_sn_ok:
  assumes "get_pdcp_sn buf sn_len is_srb = Some sn"
  shows "unat sn < 2 ^ 18"
  using assms pdcp_sn_bounds unfolding get_pdcp_sn_def Let_def
  by (auto split: list.splits if_splits pdcp_sn_size.splits)

lemma pdcp_sdu_sn_ok: "sdu_pdcp_sn sdu = get_pdcp_sn buf sn_len is_srb \<Longrightarrow> sdu_sn_ok sdu"
  using pdcp_sn_ok[of buf sn_len is_srb] by (auto simp: sdu_sn_ok_def STATE_FREE_def STATE_DISCARDED_def)

end
