(* ===== verification/Rlc_Am_Pdu.thy ===== *)
theory Rlc_Am_Pdu
  imports Rlc_Config
begin

text \<open>
  The data PDU header of acknowledged mode, \<open>lib/rlc/rlc_am_pdu.h\<close>: its fields, its sizes, the
  reader and the writer.

  A \<open>byte_buffer_view\<close> is the list of its bytes.  The writer fills a \<open>span\<close> from its beginning and
  returns the number of bytes written; here it returns the bytes themselves, so that the number is
  the length of the list.  The reader returns \<^const>\<open>None\<close> where the C++ function returns \<open>false\<close>;
  the header passed in by the caller supplies the fields a short header does not carry.
\<close>

section \<open>Sizes\<close>

definition INVALID_RLC_SN :: u32 where
  "INVALID_RLC_SN = 0xFFFFFFFF"

definition RETX_COUNT_NOT_STARTED :: u32 where
  "RETX_COUNT_NOT_STARTED = 0xFFFFFFFF"

definition rlc_am_pdu_header_so_size :: nat where
  "rlc_am_pdu_header_so_size = 2"

fun rlc_am_pdu_header_min_size :: "rlc_am_sn_size \<Rightarrow> nat" where
  "rlc_am_pdu_header_min_size am_size12bits = 2"
| "rlc_am_pdu_header_min_size am_size18bits = 3"

definition rlc_am_pdu_header_max_size :: "rlc_am_sn_size \<Rightarrow> nat" where
  "rlc_am_pdu_header_max_size s = rlc_am_pdu_header_min_size s + rlc_am_pdu_header_so_size"

section \<open>The header\<close>

record rlc_am_pdu_header =
  amh_dc :: rlc_dc_field
  amh_p :: u8
  amh_si :: rlc_si_field
  amh_sn_size :: rlc_am_sn_size
  amh_sn :: u32
  amh_so :: u16

definition amh_get_packed_size :: "rlc_am_pdu_header \<Rightarrow> nat" where
  "amh_get_packed_size h = (if amh_si h = last_segment \<or> amh_si h = middle_segment
     then rlc_am_pdu_header_max_size (amh_sn_size h)
     else rlc_am_pdu_header_min_size (amh_sn_size h))"

text \<open>The fixed part of the header and the optional segment offset.\<close>

fun am_read_sn :: "rlc_am_sn_size \<Rightarrow> bytes \<Rightarrow> (u32 \<times> bytes) option" where
  "am_read_sn am_size12bits (b0 # rest) = (case rest of [] \<Rightarrow> None
     | b1 # rest' \<Rightarrow> Some (push_bit 8 (ucast (b0 AND 0x0F)) OR ucast (b1 AND 0xFF), rest'))"
| "am_read_sn am_size18bits (b0 # rest) = (if b0 AND 0x0C \<noteq> 0 then None else
     (case rest of [] \<Rightarrow> None | b1 # rest' \<Rightarrow>
        (case rest' of [] \<Rightarrow> None | b2 # rest'' \<Rightarrow>
           Some (push_bit 16 (ucast (b0 AND 0x03)) OR push_bit 8 (ucast (b1 AND 0xFF))
                   OR ucast (b2 AND 0xFF), rest''))))"
| "am_read_sn _ [] = None"

definition read_so :: "bytes \<Rightarrow> u16 option" where
  "read_so rest = (case rest of [] \<Rightarrow> None | b0 # rest' \<Rightarrow>
     (case rest' of [] \<Rightarrow> None | b1 # _ \<Rightarrow>
        Some (push_bit 8 (ucast (b0 AND 0xFF)) OR ucast (b1 AND 0xFF))))"

definition rlc_am_read_data_pdu_header ::
    "bytes \<Rightarrow> rlc_am_sn_size \<Rightarrow> rlc_am_pdu_header \<Rightarrow> rlc_am_pdu_header option" where
  "rlc_am_read_data_pdu_header pdu sn_size header =
     (if length pdu \<le> rlc_am_pdu_header_min_size sn_size then None else
        let b0 = hd pdu;
            si = si_of_bits (drop_bit 4 b0 AND 0x03);
            header' = header\<lparr>amh_sn_size := sn_size,
                             amh_dc := dc_of_bits (drop_bit 7 b0 AND 0x01),
                             amh_p := drop_bit 6 b0 AND 0x01,
                             amh_si := si\<rparr>
        in (case am_read_sn sn_size pdu of None \<Rightarrow> None | Some (sn, rest) \<Rightarrow>
              if si = last_segment \<or> si = middle_segment
              then (case read_so rest of None \<Rightarrow> None
                    | Some so \<Rightarrow> Some (header'\<lparr>amh_sn := sn, amh_so := so\<rparr>))
              else Some (header'\<lparr>amh_sn := sn\<rparr>)))"

text \<open>The first byte: D/C, P and SI, and the upper bits of the sequence number.\<close>

definition am_octet0 :: "rlc_dc_field \<Rightarrow> u8 \<Rightarrow> rlc_si_field \<Rightarrow> u8 \<Rightarrow> u8" where
  "am_octet0 dc p si sn_high = push_bit 7 (dc_to_number dc AND 0x01) OR push_bit 6 (p AND 0x01)
     OR push_bit 4 (si_to_number si AND 0x03) OR sn_high"

definition rlc_am_write_data_pdu_header :: "rlc_am_pdu_header \<Rightarrow> bytes" where
  "rlc_am_write_data_pdu_header h =
     (case amh_sn_size h of
        am_size12bits \<Rightarrow> [am_octet0 (amh_dc h) (amh_p h) (amh_si h) (octet 8 (amh_sn h) AND 0x0F),
          octet 0 (amh_sn h)]
      | am_size18bits \<Rightarrow> [am_octet0 (amh_dc h) (amh_p h) (amh_si h) (octet 16 (amh_sn h) AND 0x03),
          octet 8 (amh_sn h), octet 0 (amh_sn h)])
     @ (if amh_so h \<noteq> 0 then [octet 8 (amh_so h), octet 0 (amh_so h)] else [])"

text \<open>The zero-initialised header \<open>rlc_am_pdu_header header = {}\<close> of the callers.\<close>

definition am_header_zero :: rlc_am_pdu_header where
  "am_header_zero = \<lparr>amh_dc = dc_control, amh_p = 0, amh_si = full_sdu, amh_sn_size = am_size12bits,
     amh_sn = 0, amh_so = 0\<rparr>"

section \<open>Consistent headers\<close>

text \<open>
  The writer decides on the offset field by \<open>so \<noteq> 0\<close>, the reader and \<open>get_packed_size\<close> by the
  segmentation info.  The headers that the transmit entities build make the two agree.
\<close>

definition am_header_ok :: "rlc_am_pdu_header \<Rightarrow> bool" where
  "am_header_ok h \<longleftrightarrow> amh_p h \<le> 1 \<and> unat (amh_sn h) < 2 ^ am_to_number (amh_sn_size h)
     \<and> (amh_so h \<noteq> 0 \<longleftrightarrow> amh_si h \<in> {last_segment, middle_segment})"

lemma header_min_max: "rlc_am_pdu_header_min_size s \<le> rlc_am_pdu_header_max_size s"
    "0 < rlc_am_pdu_header_min_size s"
  by (cases s; simp add: rlc_am_pdu_header_max_size_def)+

lemma length_write_am_header:
  "am_header_ok h \<Longrightarrow> length (rlc_am_write_data_pdu_header h) = amh_get_packed_size h"
  by (auto simp: rlc_am_write_data_pdu_header_def amh_get_packed_size_def am_header_ok_def
      rlc_am_pdu_header_max_size_def rlc_am_pdu_header_so_size_def split: rlc_am_sn_size.splits)

text \<open>The fields of the first byte.\<close>

lemma si_and_3 [simp]: "si_to_number s AND 3 = si_to_number s"
  by (cases s) simp_all

lemma dc_and_1 [simp]: "dc_to_number d AND 1 = dc_to_number d"
  by (cases d) simp_all

lemma p_and_1: "(p :: u8) \<le> 1 \<Longrightarrow> p AND 1 = p"
proof -
  assume "p \<le> 1"
  then have "p = 0 \<or> p = 1" by (simp add: word_le_nat_alt word_unat_eq_iff le_Suc_eq)
  then show ?thesis by auto
qed

lemma octet0_fields:
  fixes d p s x :: u8
  assumes "x AND 0xF0 = 0"
    and "b = push_bit 7 (d AND 1) OR push_bit 6 (p AND 1) OR push_bit 4 (s AND 3) OR x"
  shows "drop_bit 7 b AND 1 = d AND 1" "drop_bit 6 b AND 1 = p AND 1"
    "drop_bit 4 b AND 3 = s AND 3" "b AND 0x0F = x AND 0x0F"
    "b AND 0x0C = x AND 0x0C" "b AND 0x03 = x AND 0x03"
  using assms(1) unfolding assms(2) by (simp_all add: u8_eq_iff bit_simps)

lemma am_octet0_fields:
  assumes "x AND 0xF0 = 0"
  shows "drop_bit 7 (am_octet0 d p s x) AND 1 = dc_to_number d"
    "drop_bit 6 (am_octet0 d p s x) AND 1 = p AND 1"
    "drop_bit 4 (am_octet0 d p s x) AND 3 = si_to_number s"
    "am_octet0 d p s x AND 0x0F = x AND 0x0F"
    "am_octet0 d p s x AND 0x0C = x AND 0x0C" "am_octet0 d p s x AND 0x03 = x AND 0x03"
  using octet0_fields[OF assms am_octet0_def] by (simp_all only: si_and_3 dc_and_1)

lemma sn_high_octets:
  fixes x :: u8
  shows "(x AND 0xF) AND 0xF0 = 0" "(x AND 0x3) AND 0xF0 = 0" "(x AND 0x3) AND 0x0C = 0"
    "(x AND 0xF) AND 0xF = x AND 0xF" "(x AND 0x3) AND 0x3 = x AND 0x3"
  by (simp_all add: u8_eq_iff bit_simps)

lemmas am_header_simps = am_octet0_fields sn_high_octets p_and_1 read_so_def codec_simps

lemma sn_join_12:
  assumes "take_bit 12 x = (x :: u32)"
  shows "push_bit 8 (ucast (octet 8 x AND 0xF)) OR ucast (octet 0 x) = x"
  by (rule bit_word_eqI)
    (auto simp: mask_numerals bit_simps bit_octet dest: bit_of_take_bit[OF assms])

lemma sn_join_18:
  assumes "take_bit 18 x = (x :: u32)"
  shows "push_bit 16 (ucast (octet 16 x AND 0x3)) OR push_bit 8 (ucast (octet 8 x))
     OR ucast (octet 0 x) = x"
  by (rule bit_word_eqI)
    (auto simp: mask_numerals bit_simps bit_octet dest: bit_of_take_bit[OF assms])

text \<open>Reading back a written header, whatever payload follows it.\<close>

lemma read_write_am_header:
  assumes ok: "am_header_ok h" and payload: "payload \<noteq> []"
    and init: "amh_so init = 0"
  shows "rlc_am_read_data_pdu_header (rlc_am_write_data_pdu_header h @ payload) (amh_sn_size h) init
     = Some h"
proof (cases "amh_sn_size h")
  case am_size12bits
  then have "take_bit 12 (amh_sn h) = amh_sn h"
    using ok by (intro take_bit_of_bound) (simp add: am_header_ok_def)
  then show ?thesis
    using ok payload init am_size12bits
    by (cases h; cases init)
      (auto simp: am_header_ok_def rlc_am_read_data_pdu_header_def rlc_am_write_data_pdu_header_def
        sn_join_12 am_header_simps)
next
  case am_size18bits
  then have "take_bit 18 (amh_sn h) = amh_sn h"
    using ok by (intro take_bit_of_bound) (simp add: am_header_ok_def)
  then show ?thesis
    using ok payload init am_size18bits
    by (cases h; cases init)
      (auto simp: am_header_ok_def rlc_am_read_data_pdu_header_def rlc_am_write_data_pdu_header_def
        sn_join_18 am_header_simps)
qed

text \<open>What a successful read guarantees.\<close>

lemma am_read_sn_bound:
  assumes "am_read_sn s pdu = Some (sn, rest)"
  shows "unat sn < 2 ^ am_to_number s"
proof -
  have "take_bit (am_to_number s) sn = sn"
    using assms
    by (cases "(s, pdu)" rule: am_read_sn.cases)
      (auto split: list.splits if_splits intro!: bit_word_eqI simp: mask_numerals bit_simps)
  then show ?thesis
    by (metis sn_off_less sn_off_def diff_zero)
qed

lemma am_read_sn_length:
  "am_read_sn s pdu = Some (sn, rest) \<Longrightarrow> length pdu = rlc_am_pdu_header_min_size s + length rest"
  by (cases "(s, pdu)" rule: am_read_sn.cases) (auto split: list.splits if_splits)

lemma read_so_length: "read_so rest = Some so \<Longrightarrow> rlc_am_pdu_header_so_size \<le> length rest"
  by (auto simp: read_so_def rlc_am_pdu_header_so_size_def split: list.splits)

lemma and_1_le_1: "(x :: u8) AND 1 \<le> 1"
  by (rule word_and_le1)

lemma read_am_header_bounds:
  assumes "rlc_am_read_data_pdu_header pdu s h0 = Some h"
  shows "unat (amh_sn h) < 2 ^ am_to_number s" "amh_sn_size h = s" "amh_p h \<le> 1"
    "amh_so h0 = 0 \<Longrightarrow> amh_so h \<noteq> 0 \<Longrightarrow> amh_si h \<in> {last_segment, middle_segment}"
  using assms
  by (auto simp: rlc_am_read_data_pdu_header_def Let_def am_read_sn_bound and_1_le_1
      split: if_splits option.splits)

lemma read_am_header_length:
  assumes "rlc_am_read_data_pdu_header pdu s h0 = Some h"
  shows "amh_get_packed_size h \<le> length pdu"
  using assms
  by (auto simp: rlc_am_read_data_pdu_header_def Let_def amh_get_packed_size_def
      rlc_am_pdu_header_max_size_def dest!: am_read_sn_length read_so_length
      split: if_splits option.splits)

section \<open>Properties\<close>

text \<open>Reading a written acknowledged-mode header back, with any non-empty payload after it and
  the zero-initialised header object of the callers, gives the header, and the number of bytes written
  is \<open>get_packed_size\<close>.\<close>

theorem am_header_roundtrip:
  assumes "am_header_ok h" and "payload \<noteq> []"
  shows "rlc_am_read_data_pdu_header (rlc_am_write_data_pdu_header h @ payload) (amh_sn_size h) am_header_zero = Some h
     \<and> length (rlc_am_write_data_pdu_header h) = amh_get_packed_size h"
  using read_write_am_header[OF assms, of am_header_zero] length_write_am_header[OF assms(1)]
  by (simp add: am_header_zero_def)

definition am_demo_header :: rlc_am_pdu_header where
  "am_demo_header = \<lparr>amh_dc = dc_data, amh_p = 1, amh_si = middle_segment, amh_sn_size = am_size18bits,
     amh_sn = 0x2A5C3, amh_so = 300\<rparr>"

theorem am_header_roundtrip_witness:
  "rlc_am_read_data_pdu_header (rlc_am_write_data_pdu_header am_demo_header @ [1]) (amh_sn_size am_demo_header)
      am_header_zero = Some am_demo_header
     \<and> length (rlc_am_write_data_pdu_header am_demo_header) = amh_get_packed_size am_demo_header"
  by (rule am_header_roundtrip) (simp_all add: am_header_ok_def am_demo_header_def)

text \<open>Whatever bytes arrive, a header that the reader accepts has its sequence number inside the
  SN space, a one-bit poll flag, an offset only if the segmentation info says so, and it lies within
  the PDU, so that stripping \<open>get_packed_size\<close> bytes is possible.\<close>

theorem am_header_read_bounds:
  assumes "rlc_am_read_data_pdu_header pdu s am_header_zero = Some h"
  shows "unat (amh_sn h) < 2 ^ am_to_number s \<and> amh_sn_size h = s \<and> amh_p h \<le> 1
     \<and> (amh_so h \<noteq> 0 \<longrightarrow> amh_si h \<in> {last_segment, middle_segment})
     \<and> amh_get_packed_size h \<le> length pdu"
  using read_am_header_bounds[OF assms] read_am_header_length[OF assms] by (simp add: am_header_zero_def)

lemma am_demo_read: "rlc_am_read_data_pdu_header [0xC0, 1, 2] am_size12bits am_header_zero
   = Some (am_header_zero\<lparr>amh_dc := dc_data, amh_p := 1, amh_sn := 1\<rparr>)"
  by (simp add: rlc_am_read_data_pdu_header_def am_header_zero_def dc_of_bits_def si_of_bits_def)

theorem am_header_read_bounds_witness:
  "let h = am_header_zero\<lparr>amh_dc := dc_data, amh_p := 1, amh_sn := 1\<rparr> in
     unat (amh_sn h) < 2 ^ am_to_number am_size12bits \<and> amh_sn_size h = am_size12bits \<and> amh_p h \<le> 1
     \<and> (amh_so h \<noteq> 0 \<longrightarrow> amh_si h \<in> {last_segment, middle_segment})
     \<and> amh_get_packed_size h \<le> length [0xC0 :: u8, 1, 2]"
  unfolding Let_def by (rule am_header_read_bounds[OF am_demo_read])

end
