(* ===== verification/Rlc_Um_Pdu.thy ===== *)
theory Rlc_Um_Pdu
  imports Rlc_Am_Pdu
begin

text \<open>
  The data PDU header of unacknowledged mode, \<open>lib/rlc/rlc_um_pdu.h\<close>.  A complete SDU is sent with
  a one-byte header that carries no sequence number; segments carry the sequence number and, but
  for the first one, the segment offset.
\<close>

definition rlc_um_pdu_header_size_complete_sdu :: nat where
  "rlc_um_pdu_header_size_complete_sdu = 1"

fun rlc_um_pdu_header_size_no_so :: "rlc_um_sn_size \<Rightarrow> nat" where
  "rlc_um_pdu_header_size_no_so um_size6bits = 1"
| "rlc_um_pdu_header_size_no_so um_size12bits = 2"

fun rlc_um_pdu_header_size_with_so :: "rlc_um_sn_size \<Rightarrow> nat" where
  "rlc_um_pdu_header_size_with_so um_size6bits = 3"
| "rlc_um_pdu_header_size_with_so um_size12bits = 4"

record rlc_um_pdu_header =
  umh_si :: rlc_si_field
  umh_sn_size :: rlc_um_sn_size
  umh_sn :: u16
  umh_so :: u16

definition um_header_zero :: rlc_um_pdu_header where
  "um_header_zero = \<lparr>umh_si = full_sdu, umh_sn_size = um_size6bits, umh_sn = 0, umh_so = 0\<rparr>"

text \<open>The fixed part: segmentation info, sequence number and the bytes that follow.\<close>

fun um_read_fixed :: "rlc_um_sn_size \<Rightarrow> u8 \<Rightarrow> bytes \<Rightarrow> (rlc_si_field \<times> u16 \<times> bytes) option" where
  "um_read_fixed um_size6bits b0 rest =
     (let si = si_of_bits (drop_bit 6 b0 AND 0x03); sn = ucast (b0 AND 0x3F) in
      if si = full_sdu \<and> sn \<noteq> 0 then None else Some (si, sn, rest))"
| "um_read_fixed um_size12bits b0 rest =
     (let si = si_of_bits (drop_bit 6 b0 AND 0x03); sn = push_bit 8 (ucast (b0 AND 0x0F)) in
      if si = full_sdu \<and> sn \<noteq> 0 then None
      else if si = first_segment \<and> drop_bit 4 b0 AND 0x03 \<noteq> 0 then None
      else if si \<noteq> full_sdu
      then (case rest of [] \<Rightarrow> None | b1 # rest' \<Rightarrow> Some (si, sn OR ucast (b1 AND 0xFF), rest'))
      else Some (si, sn, rest))"

definition rlc_um_read_data_pdu_header ::
    "bytes \<Rightarrow> rlc_um_sn_size \<Rightarrow> rlc_um_pdu_header \<Rightarrow> rlc_um_pdu_header option" where
  "rlc_um_read_data_pdu_header pdu sn_size header = (case pdu of [] \<Rightarrow> None | b0 # rest \<Rightarrow>
     (case um_read_fixed sn_size b0 rest of None \<Rightarrow> None | Some (si, sn, rest') \<Rightarrow>
        let header' = header\<lparr>umh_si := si, umh_sn_size := sn_size, umh_sn := sn\<rparr> in
        if si = last_segment \<or> si = middle_segment
        then (case read_so rest' of None \<Rightarrow> None | Some so \<Rightarrow> Some (header'\<lparr>umh_so := so\<rparr>))
        else Some header'))"

definition rlc_um_nr_packed_length :: "rlc_um_pdu_header \<Rightarrow> nat" where
  "rlc_um_nr_packed_length h = (if umh_si h = full_sdu then 1
     else (if umh_sn_size h = um_size6bits then 1 else 2) + (if umh_so h \<noteq> 0 then 2 else 0))"

definition um_octet0 :: "rlc_si_field \<Rightarrow> u8 \<Rightarrow> u8" where
  "um_octet0 si sn_high = push_bit 6 (si_to_number si AND 0x03) OR sn_high"

definition rlc_um_write_data_pdu_header :: "rlc_um_pdu_header \<Rightarrow> bytes" where
  "rlc_um_write_data_pdu_header h =
     (if umh_si h = full_sdu then [um_octet0 full_sdu 0]
      else (case umh_sn_size h of
              um_size6bits \<Rightarrow> [um_octet0 (umh_si h) (octet 0 (umh_sn h) AND 0x3F)]
            | um_size12bits \<Rightarrow> [um_octet0 (umh_si h) (octet 8 (umh_sn h) AND 0x0F), octet 0 (umh_sn h)])
           @ (if umh_so h \<noteq> 0 then [octet 8 (umh_so h), octet 0 (umh_so h)] else []))"

section \<open>Consistent headers\<close>

definition um_header_ok :: "rlc_um_pdu_header \<Rightarrow> bool" where
  "um_header_ok h \<longleftrightarrow> (umh_si h = full_sdu \<longrightarrow> umh_sn h = 0)
     \<and> unat (umh_sn h) < 2 ^ um_to_number (umh_sn_size h)
     \<and> (umh_so h \<noteq> 0 \<longleftrightarrow> umh_si h \<in> {last_segment, middle_segment})"

lemma length_write_um_header:
  "length (rlc_um_write_data_pdu_header h) = rlc_um_nr_packed_length h"
  by (simp add: rlc_um_write_data_pdu_header_def rlc_um_nr_packed_length_def
      split: rlc_um_sn_size.splits)

lemma um_packed_length_sizes:
  "um_header_ok h \<Longrightarrow> rlc_um_nr_packed_length h =
     (case umh_si h of full_sdu \<Rightarrow> rlc_um_pdu_header_size_complete_sdu
      | first_segment \<Rightarrow> rlc_um_pdu_header_size_no_so (umh_sn_size h)
      | _ \<Rightarrow> rlc_um_pdu_header_size_with_so (umh_sn_size h))"
  by (cases "umh_sn_size h")
    (auto simp: um_header_ok_def rlc_um_nr_packed_length_def rlc_um_pdu_header_size_complete_sdu_def
      split: rlc_si_field.splits)

lemma um_octet0_fields:
  shows "drop_bit 6 (um_octet0 s (x AND 0x3F)) AND 3 = si_to_number s"
    "drop_bit 6 (um_octet0 s (x AND 0x0F)) AND 3 = si_to_number s"
    "drop_bit 4 (um_octet0 s (x AND 0x0F)) AND 3 = 0"
    "um_octet0 s (x AND 0x3F) AND 0x3F = x AND 0x3F"
    "um_octet0 s (x AND 0x0F) AND 0x0F = x AND 0x0F"
    "um_octet0 full_sdu 0 = 0"
  unfolding um_octet0_def by (cases s; simp add: u8_eq_iff bit_simps)+

lemma sn_join_um_12:
  assumes "take_bit 12 x = (x :: u16)"
  shows "push_bit 8 (ucast (octet 8 x AND 0xF)) OR ucast (octet 0 x) = x"
  by (rule bit_word_eqI)
    (auto simp: mask_numerals bit_simps bit_octet dest: bit_of_take_bit[OF assms])

lemma sn_join_um_6:
  assumes "take_bit 6 x = (x :: u16)"
  shows "ucast (octet 0 x AND 0x3F) = x"
  by (rule bit_word_eqI)
    (auto simp: mask_numerals bit_simps bit_octet dest: bit_of_take_bit[OF assms])

lemmas um_header_simps = um_octet0_fields read_so_def codec_simps

lemma read_write_um_header:
  assumes ok: "um_header_ok h" and init: "umh_so init = 0"
  shows "rlc_um_read_data_pdu_header (rlc_um_write_data_pdu_header h @ payload) (umh_sn_size h) init
     = Some h"
proof (cases "umh_sn_size h")
  case um_size6bits
  then have "take_bit 6 (umh_sn h) = umh_sn h"
    using ok by (intro take_bit_of_bound) (simp add: um_header_ok_def)
  then show ?thesis
    using ok init um_size6bits
    by (cases h; cases init)
      (auto simp: um_header_ok_def rlc_um_read_data_pdu_header_def rlc_um_write_data_pdu_header_def
        sn_join_um_6 um_header_simps si_of_bits_def[of 0])
next
  case um_size12bits
  then have "take_bit 12 (umh_sn h) = umh_sn h"
    using ok by (intro take_bit_of_bound) (simp add: um_header_ok_def)
  then show ?thesis
    using ok init um_size12bits
    by (cases h; cases init)
      (auto simp: um_header_ok_def rlc_um_read_data_pdu_header_def rlc_um_write_data_pdu_header_def
        sn_join_um_12 um_header_simps si_of_bits_def[of 0])
qed

text \<open>What a successful read guarantees.\<close>

lemma um_sn_bits:
  "take_bit 6 (ucast (b0 AND 0x3F) :: u16) = ucast ((b0 :: u8) AND 0x3F)"
  "take_bit 12 (push_bit 8 (ucast (b0 AND 0x0F)) :: u16) = push_bit 8 (ucast ((b0 :: u8) AND 0x0F))"
  "take_bit 12 (push_bit 8 (ucast (b0 AND 0x0F)) OR ucast (b1 :: u8) :: u16)
     = push_bit 8 (ucast ((b0 :: u8) AND 0x0F)) OR ucast b1"
  by (rule bit_word_eqI; auto simp: mask_numerals(3,4) bit_simps dest: bit_imp_le_length)+

lemmas um_sn_bounds = um_sn_bits[THEN unat_below_take_bit]

lemma um_read_fixed_bound:
  assumes "um_read_fixed s b0 rest = Some (si, sn, rest')"
  shows "unat sn < 2 ^ um_to_number s"
  using assms um_sn_bounds
  by (cases s) (auto simp: Let_def split: list.splits if_splits)

lemma read_um_header_bounds:
  assumes "rlc_um_read_data_pdu_header pdu s h0 = Some h"
  shows "unat (umh_sn h) < 2 ^ um_to_number s" "umh_sn_size h = s"
    "umh_so h0 = 0 \<Longrightarrow> umh_so h \<noteq> 0 \<Longrightarrow> umh_si h \<in> {last_segment, middle_segment}"
  using assms um_read_fixed_bound
  by (auto simp: rlc_um_read_data_pdu_header_def Let_def split: list.splits option.splits if_splits)

section \<open>Properties\<close>

text \<open>Reading a written unacknowledged-mode header back, whatever follows it, gives the header,
  and the number of bytes written is the packed length, which is the size constant of its kind of
  segment.\<close>

theorem um_header_roundtrip:
  assumes "um_header_ok h"
  shows "rlc_um_read_data_pdu_header (rlc_um_write_data_pdu_header h @ payload) (umh_sn_size h) um_header_zero = Some h
     \<and> length (rlc_um_write_data_pdu_header h) = rlc_um_nr_packed_length h
     \<and> rlc_um_nr_packed_length h =
        (case umh_si h of full_sdu \<Rightarrow> rlc_um_pdu_header_size_complete_sdu
         | first_segment \<Rightarrow> rlc_um_pdu_header_size_no_so (umh_sn_size h)
         | _ \<Rightarrow> rlc_um_pdu_header_size_with_so (umh_sn_size h))"
  using read_write_um_header[OF assms, of um_header_zero payload] length_write_um_header[of h]
    um_packed_length_sizes[OF assms]
  by (simp add: um_header_zero_def)

definition um_demo_header :: rlc_um_pdu_header where
  "um_demo_header = \<lparr>umh_si = last_segment, umh_sn_size = um_size12bits, umh_sn = 0xABC, umh_so = 300\<rparr>"

theorem um_header_roundtrip_witness:
  "rlc_um_read_data_pdu_header (rlc_um_write_data_pdu_header um_demo_header @ [1]) (umh_sn_size um_demo_header)
      um_header_zero = Some um_demo_header
     \<and> length (rlc_um_write_data_pdu_header um_demo_header) = rlc_um_nr_packed_length um_demo_header
     \<and> rlc_um_nr_packed_length um_demo_header =
        (case umh_si um_demo_header of full_sdu \<Rightarrow> rlc_um_pdu_header_size_complete_sdu
         | first_segment \<Rightarrow> rlc_um_pdu_header_size_no_so (umh_sn_size um_demo_header)
         | _ \<Rightarrow> rlc_um_pdu_header_size_with_so (umh_sn_size um_demo_header))"
  by (rule um_header_roundtrip) (simp add: um_header_ok_def um_demo_header_def)

end
