(* ===== verification/Rlc_Segments.thy ===== *)
theory Rlc_Segments
  imports Rlc_Config
begin

text \<open>
  Segments of a service data unit on the receive side: \<open>store_segment\<close>,
  \<open>update_segment_inventory\<close> and the chaining loop of \<open>reassemble_sdu\<close>, which
  \<open>lib/rlc/rlc_rx_am_entity.cpp\<close> and \<open>lib/rlc/rlc_rx_um_entity.cpp\<close> share word by word.

  A \<open>std::set\<close> of segments ordered by their offset is the list of its elements in that order;
  \<open>insert\<close> finds the position by the key (the hint does not matter) and leaves the set alone if the
  key is there.  The iterator of the loop splits the list into the elements behind it and the
  elements from it on.  Offsets stay 16 bits wide and last bytes 32 bits wide, as in the sources.
\<close>

section \<open>Segments and the segment set\<close>

record rlc_rx_sdu_segment =
  seg_si :: rlc_si_field
  seg_so :: u16
  seg_payload :: bytes

fun seg_insert :: "rlc_rx_sdu_segment \<Rightarrow> rlc_rx_sdu_segment list \<Rightarrow> rlc_rx_sdu_segment list" where
  "seg_insert s [] = [s]"
| "seg_insert s (t # ts) = (if seg_so s < seg_so t then s # t # ts
     else if seg_so t < seg_so s then t # seg_insert s ts else t # ts)"

definition last_byte :: "rlc_rx_sdu_segment \<Rightarrow> u32" where
  "last_byte s = ucast (seg_so s) + of_nat (length (seg_payload s)) - 1"

text \<open>Drop the bytes up to and including offset \<open>b\<close>.\<close>

definition advance_past :: "u32 \<Rightarrow> rlc_rx_sdu_segment \<Rightarrow> rlc_rx_sdu_segment" where
  "advance_past b s = s\<lparr>seg_payload := drop (unat (b + 1 - ucast (seg_so s))) (seg_payload s),
                        seg_so := ucast (b + 1)\<rparr>"

text \<open>\<open>None\<close>: the new segment brings no new byte and \<open>store_segment\<close> returns \<open>false\<close>.\<close>

fun store_loop :: "rlc_rx_sdu_segment list \<Rightarrow> rlc_rx_sdu_segment list \<Rightarrow> rlc_rx_sdu_segment
     \<Rightarrow> (rlc_rx_sdu_segment list \<times> rlc_rx_sdu_segment) option" where
  "store_loop before [] new_segment = Some (before, new_segment)"
| "store_loop before (cur # rest) new_segment =
     (let cur_last_byte = last_byte cur; new_last_byte = last_byte new_segment in
      if ucast (seg_so new_segment) > cur_last_byte
      then store_loop (before @ [cur]) rest new_segment
      else if seg_so new_segment \<ge> seg_so cur
      then (if new_last_byte \<le> cur_last_byte then None
            else store_loop (before @ [cur]) rest (advance_past cur_last_byte new_segment))
      else if new_last_byte < ucast (seg_so cur) then Some (before @ cur # rest, new_segment)
      else if new_last_byte < cur_last_byte
      then Some (seg_insert (advance_past new_last_byte cur) (before @ rest), new_segment)
      else store_loop before rest new_segment)"

definition store_segment ::
    "rlc_rx_sdu_segment list \<Rightarrow> rlc_rx_sdu_segment \<Rightarrow> bool \<times> rlc_rx_sdu_segment list" where
  "store_segment segments new_segment = (case store_loop [] segments new_segment of
       None \<Rightarrow> (False, segments)
     | Some (segments', new_segment') \<Rightarrow> (True, seg_insert new_segment' segments'))"

text \<open>The flags \<open>has_gap\<close> and \<open>fully_received\<close>, in this order.\<close>

fun inventory_loop :: "u32 \<Rightarrow> rlc_rx_sdu_segment list \<Rightarrow> bool \<times> bool" where
  "inventory_loop next_byte [] = (False, False)"
| "inventory_loop next_byte (segm # segms) =
     (if ucast (seg_so segm) \<noteq> next_byte then (True, False)
      else if seg_si segm = last_segment then (False, True)
      else inventory_loop (next_byte + of_nat (length (seg_payload segm))) segms)"

definition segment_inventory :: "rlc_rx_sdu_segment list \<Rightarrow> bool \<times> bool" where
  "segment_inventory segments = (if segments = [] then (False, False) else inventory_loop 0 segments)"

definition chain_segments :: "rlc_rx_sdu_segment list \<Rightarrow> bytes" where
  "chain_segments segments = concat (map seg_payload segments)"

section \<open>Extent of segments\<close>

definition seg_lo :: "rlc_rx_sdu_segment \<Rightarrow> nat" where
  "seg_lo s = unat (seg_so s)"

definition seg_hi :: "rlc_rx_sdu_segment \<Rightarrow> nat" where
  "seg_hi s = unat (seg_so s) + length (seg_payload s)"

definition seg_bytes :: "rlc_rx_sdu_segment \<Rightarrow> nat set" where
  "seg_bytes s = {seg_lo s..<seg_hi s}"

definition covered :: "rlc_rx_sdu_segment list \<Rightarrow> nat set" where
  "covered segs = (\<Union>s \<in> set segs. seg_bytes s)"

text \<open>A segment cut out of an SDU: the last one, and no other, reaches its end.\<close>

definition seg_of :: "bytes \<Rightarrow> rlc_rx_sdu_segment \<Rightarrow> bool" where
  "seg_of sdu s \<longleftrightarrow> seg_payload s \<noteq> [] \<and> seg_hi s \<le> length sdu \<and> length sdu \<le> 65536
     \<and> seg_payload s = take (length (seg_payload s)) (drop (seg_lo s) sdu)
     \<and> (seg_si s = last_segment \<longleftrightarrow> seg_hi s = length sdu)"

text \<open>Stored segments: in order and without overlap.\<close>

definition chained :: "rlc_rx_sdu_segment list \<Rightarrow> bool" where
  "chained segs \<longleftrightarrow> sorted_wrt (\<lambda>a b. seg_hi a \<le> seg_lo b) segs"

lemma seg_of_range:
  assumes "seg_of sdu s"
  shows "seg_lo s < seg_hi s" "seg_hi s \<le> 65536" "seg_lo s \<in> seg_bytes s"
  using assms by (auto simp: seg_of_def seg_lo_def seg_hi_def seg_bytes_def)

lemma unat_last_byte:
  assumes "seg_of sdu s"
  shows "unat (last_byte s) = seg_hi s - 1"
proof -
  have "0 < seg_hi s" "seg_hi s \<le> 65536"
    using seg_of_range[OF assms] by simp_all
  have "last_byte s = of_nat (seg_hi s) - 1"
    by (simp add: last_byte_def seg_hi_def)
  also have "\<dots> = of_nat (seg_hi s - 1)"
    using \<open>0 < seg_hi s\<close> by (simp add: of_nat_diff)
  finally show ?thesis
    using \<open>seg_hi s \<le> 65536\<close> by (simp add: unat_of_nat_u32)
qed

text \<open>The comparisons of the loop, on extents.\<close>

lemma loop_comparisons:
  assumes "seg_of sdu new" and "seg_of sdu cur"
  shows "ucast (seg_so new) > last_byte cur \<longleftrightarrow> seg_hi cur \<le> seg_lo new"
    "seg_so new \<ge> seg_so cur \<longleftrightarrow> seg_lo cur \<le> seg_lo new"
    "last_byte new \<le> last_byte cur \<longleftrightarrow> seg_hi new \<le> seg_hi cur"
    "last_byte new < ucast (seg_so cur) \<longleftrightarrow> seg_hi new \<le> seg_lo cur"
    "last_byte new < last_byte cur \<longleftrightarrow> seg_hi new < seg_hi cur"
  using seg_of_range[OF assms(1)] seg_of_range[OF assms(2)]
  by (auto simp: word_less_nat_alt word_le_nat_alt unat_last_byte[OF assms(1)]
      unat_last_byte[OF assms(2)] seg_lo_def[symmetric])

lemma advance_past_spec:
  assumes s: "seg_of sdu s" and b: "unat b + 1 = k" and k: "seg_lo s \<le> k" "k < seg_hi s"
  shows "seg_of sdu (advance_past b s)" "seg_lo (advance_past b s) = k"
    "seg_hi (advance_past b s) = seg_hi s"
proof -
  have small: "k < 65536"
    using k seg_of_range[OF s] by simp
  have b1: "b + 1 = of_nat k"
    using b by (metis of_nat_1 of_nat_add of_nat_unat ucast_id)
  then have "b + 1 - ucast (seg_so s) = of_nat (k - seg_lo s)"
    using k by (simp add: of_nat_diff seg_lo_def)
  then have n: "unat (b + 1 - ucast (seg_so s)) = k - seg_lo s"
    using small by (simp add: unat_of_nat_u32)
  have so: "unat (ucast (b + 1) :: u16) = k"
    using small by (simp add: b1 unsigned_ucast_eq unat_of_nat_u32 take_bit_eq_mod)
  show lo: "seg_lo (advance_past b s) = k"
    by (simp add: seg_lo_def advance_past_def so)
  show hi: "seg_hi (advance_past b s) = seg_hi s"
    using k so n by (simp add: seg_hi_def seg_lo_def advance_past_def)
  have "seg_payload (advance_past b s)
      = drop (k - seg_lo s) (take (length (seg_payload s)) (drop (seg_lo s) sdu))"
    using s by (simp add: advance_past_def n seg_of_def)
  also have "\<dots> = take (seg_hi s - k) (drop k sdu)"
    using k by (simp add: drop_take seg_hi_def seg_lo_def add.commute)
  finally have "seg_payload (advance_past b s) = take (seg_hi s - k) (drop k sdu)" .
  then show "seg_of sdu (advance_past b s)"
    using s k lo hi by (auto simp: seg_of_def advance_past_def)
qed

text \<open>Insertion at the place of the key.\<close>

lemma set_seg_insert:
  "seg_lo s \<notin> seg_lo ` set ts \<Longrightarrow> set (seg_insert s ts) = insert s (set ts)"
  by (induction ts) (auto simp: seg_lo_def word_less_nat_alt)

lemma chained_seg_insert:
  assumes "chained ts" and "\<forall>t \<in> set ts. seg_hi t \<le> seg_lo s \<or> seg_hi s \<le> seg_lo t"
    and "\<forall>t \<in> insert s (set ts). seg_lo t < seg_hi t"
  shows "chained (seg_insert s ts)" "set (seg_insert s ts) = insert s (set ts)"
proof -
  have "seg_lo s \<notin> seg_lo ` set ts"
    using assms(2,3) by fastforce
  then show set: "set (seg_insert s ts) = insert s (set ts)"
    by (rule set_seg_insert)
  show "chained (seg_insert s ts)"
    using assms
  proof (induction ts)
    case (Cons t ts)
    have "seg_hi t \<le> seg_lo s \<or> seg_hi s \<le> seg_lo t" "seg_lo t < seg_hi t" "seg_lo s < seg_hi s"
      using Cons.prems by simp_all
    moreover have "set (seg_insert s ts) = insert s (set ts)"
      using Cons.prems by (intro set_seg_insert) fastforce
    ultimately show ?case
      using Cons by (auto simp: chained_def word_less_nat_alt seg_lo_def[symmetric])
  qed (simp add: chained_def)
qed

section \<open>Storing a segment\<close>

definition segs_of :: "bytes \<Rightarrow> rlc_rx_sdu_segment list \<Rightarrow> bool" where
  "segs_of sdu segs \<longleftrightarrow> chained segs \<and> (\<forall>s \<in> set segs. seg_of sdu s)"

definition apart :: "rlc_rx_sdu_segment \<Rightarrow> rlc_rx_sdu_segment \<Rightarrow> bool" where
  "apart s t \<longleftrightarrow> seg_hi t \<le> seg_lo s \<or> seg_hi s \<le> seg_lo t"

lemma segs_of_insert:
  assumes "segs_of sdu ts" and "seg_of sdu s" and "\<forall>t \<in> set ts. apart s t"
  shows "segs_of sdu (seg_insert s ts)" "set (seg_insert s ts) = insert s (set ts)"
proof -
  have "\<forall>t \<in> insert s (set ts). seg_lo t < seg_hi t"
    using assms(1,2) seg_of_range(1) by (auto simp: segs_of_def)
  then have "chained (seg_insert s ts)" and set: "set (seg_insert s ts) = insert s (set ts)"
    using chained_seg_insert[of ts s] assms by (auto simp: segs_of_def apart_def)
  then show "segs_of sdu (seg_insert s ts)" "set (seg_insert s ts) = insert s (set ts)"
    using assms by (auto simp: segs_of_def)
qed

text \<open>
  What the loop leaves: segments of the SDU that do not overlap, a rest of the new segment apart
  from all of them that begins with a byte not received before, and all bytes of both.
\<close>

definition loop_result :: "bytes \<Rightarrow> nat set \<Rightarrow> rlc_rx_sdu_segment
     \<Rightarrow> (rlc_rx_sdu_segment list \<times> rlc_rx_sdu_segment) option \<Rightarrow> bool" where
  "loop_result sdu old new res = (case res of None \<Rightarrow> seg_bytes new \<subseteq> old
     | Some (segs, new') \<Rightarrow> segs_of sdu segs \<and> seg_of sdu new' \<and> (\<forall>t \<in> set segs. apart new' t)
         \<and> covered segs \<union> seg_bytes new' = old \<union> seg_bytes new \<and> seg_lo new' \<notin> old
         \<and> seg_lo new' \<in> seg_bytes new)"

lemma chained_append:
  "chained (xs @ ys) \<longleftrightarrow> chained xs \<and> chained ys \<and> (\<forall>x\<in>set xs. \<forall>y\<in>set ys. seg_hi x \<le> seg_lo y)"
  by (simp add: chained_def sorted_wrt_append)

lemma chained_Cons:
  "chained (x # ys) \<longleftrightarrow> (\<forall>y\<in>set ys. seg_hi x \<le> seg_lo y) \<and> chained ys"
  by (simp add: chained_def)

lemma covered_simps [simp]:
  "covered [] = {}" "covered (s # ss) = seg_bytes s \<union> covered ss"
  "covered (ss @ ts) = covered ss \<union> covered ts"
  by (auto simp: covered_def)

lemma lo_uncovered:
  assumes "\<forall>t\<in>set ts. seg_hi t \<le> x \<or> x < seg_lo t"
  shows "x \<notin> covered ts"
  using assms by (fastforce simp: covered_def seg_bytes_def)

lemma loop_result_trimmed:
  assumes "loop_result sdu old new' res" and "seg_lo new \<le> seg_lo new'" and "seg_hi new' = seg_hi new"
    and "{seg_lo new..<seg_lo new'} \<subseteq> old"
  shows "loop_result sdu old new res"
proof -
  have "seg_bytes new \<subseteq> old \<union> seg_bytes new'" "seg_bytes new' \<subseteq> seg_bytes new"
    using assms(2,3,4) by (auto simp: seg_bytes_def)
  then show ?thesis
    using assms(1) by (auto simp: loop_result_def split: option.splits)
qed

text \<open>A segment that begins before all that is left in the loop is stored from its first byte on.\<close>

lemma store_loop_front:
  assumes "segs_of sdu cur" and "seg_of sdu new" and "\<forall>s \<in> set cur. seg_lo new < seg_lo s"
  shows "\<exists>segs. store_loop before cur new = Some (segs, new)"
  using assms
proof (induction before cur new rule: store_loop.induct)
  case (2 before cur rest new)
  have cur: "seg_of sdu cur" and rest: "segs_of sdu rest"
    using 2 by (simp_all add: segs_of_def chained_Cons)
  have "\<not> seg_hi cur \<le> seg_lo new" "\<not> seg_lo cur \<le> seg_lo new"
    using 2(6) seg_of_range(1)[OF cur] by auto
  with 2 rest show ?case
    by (simp add: loop_comparisons[OF 2(5) cur] Let_def)
qed simp

lemma store_loop_spec:
  assumes "segs_of sdu (before @ cur)" and "seg_of sdu new" and "\<forall>s \<in> set before. seg_hi s \<le> seg_lo new"
  shows "loop_result sdu (covered (before @ cur)) new (store_loop before cur new)"
  using assms
proof (induction before cur new rule: store_loop.induct)
  case (1 before new)
  then have "seg_lo new \<notin> covered before"
    by (intro lo_uncovered) auto
  with 1 show ?case
    using seg_of_range[of sdu new] by (auto simp: loop_result_def apart_def)
next
  case (2 before cur rest new)
  have cur: "seg_of sdu cur" and new: "seg_of sdu new" and rest: "segs_of sdu rest"
    and remain: "segs_of sdu (before @ rest)"
    using 2(4,5) by (auto simp: segs_of_def chained_append chained_Cons)
  note cmp = loop_comparisons[OF new cur] and rc = seg_of_range[OF cur] and rn = seg_of_range[OF new]
  have sorted: "\<forall>s\<in>set before. seg_hi s \<le> seg_lo cur" "\<forall>s\<in>set rest. seg_hi cur \<le> seg_lo s"
    using 2(4) by (auto simp: segs_of_def chained_append chained_Cons)
  have pos: "\<forall>s\<in>set rest. seg_lo s < seg_hi s"
    using rest seg_of_range(1) by (auto simp: segs_of_def)
  consider (after) "seg_hi cur \<le> seg_lo new"
    | (inside) "seg_lo new < seg_hi cur" "seg_lo cur \<le> seg_lo new" "seg_hi new \<le> seg_hi cur"
    | (over) "seg_lo new < seg_hi cur" "seg_lo cur \<le> seg_lo new" "seg_hi cur < seg_hi new"
    | (front) "seg_lo new < seg_lo cur" "seg_hi new \<le> seg_lo cur"
    | (cut) "seg_lo new < seg_lo cur" "seg_lo cur < seg_hi new" "seg_hi new < seg_hi cur"
    | (erase) "seg_lo new < seg_lo cur" "seg_lo cur < seg_hi new" "seg_hi cur \<le> seg_hi new"
    by linarith
  then show ?case
  proof cases
    case after
    then have "store_loop before (cur # rest) new = store_loop (before @ [cur]) rest new"
      by (simp add: cmp)
    with 2(1)[OF refl refl] 2(4-) after show ?thesis
      by (simp add: cmp Un_assoc)
  next
    case inside
    then show ?thesis
      by (auto simp: cmp loop_result_def seg_bytes_def)
  next
    case over
    let ?new' = "advance_past (last_byte cur) new"
    have b: "unat (last_byte cur) + 1 = seg_hi cur"
      using unat_last_byte[OF cur] rc by simp
    have new': "seg_of sdu ?new'" "seg_lo ?new' = seg_hi cur" "seg_hi ?new' = seg_hi new"
      using advance_past_spec[OF new b] over by auto
    have "store_loop before (cur # rest) new = store_loop (before @ [cur]) rest ?new'"
      using over by (simp add: cmp)
    moreover have "loop_result sdu (covered (before @ cur # rest)) ?new' (store_loop (before @ [cur]) rest ?new')"
      using 2(2)[OF refl refl] 2(4) new' over rc sorted by (force simp: cmp Un_assoc)
    moreover have "{seg_lo new..<seg_lo ?new'} \<subseteq> covered (before @ cur # rest)"
      using new' over by (auto simp: seg_bytes_def)
    ultimately show ?thesis
      using loop_result_trimmed[of sdu _ ?new' _ new] new' over by simp
  next
    case front
    then have "seg_lo new \<notin> covered (before @ cur # rest)"
      using 2(6) rc sorted pos by (intro lo_uncovered) fastforce
    with front 2(4-) rn rc sorted show ?thesis
      by (fastforce simp: cmp loop_result_def apart_def)
  next
    case cut
    let ?cut = "advance_past (last_byte new) cur"
    have b: "unat (last_byte new) + 1 = seg_hi new"
      using unat_last_byte[OF new] rn by simp
    have cut': "seg_of sdu ?cut" "seg_lo ?cut = seg_hi new" "seg_hi ?cut = seg_hi cur"
      using advance_past_spec[OF cur b] cut by auto
    have "\<forall>t\<in>set (before @ rest). apart ?cut t"
      using cut' cut 2(6) rn sorted by (fastforce simp: apart_def)
    note ins = segs_of_insert[OF remain cut'(1) this]
    have "seg_lo new \<notin> covered (before @ cur # rest)"
      using 2(6) cut rc sorted pos by (intro lo_uncovered) fastforce
    moreover have "\<forall>t\<in>insert ?cut (set (before @ rest)). apart new t"
      using cut' cut 2(6) rn sorted by (fastforce simp: apart_def)
    moreover have "covered (seg_insert ?cut (before @ rest)) \<union> seg_bytes new
        = covered (before @ cur # rest) \<union> seg_bytes new"
      using cut' cut rn by (auto simp: covered_def ins(2) seg_bytes_def)
    ultimately show ?thesis
      using cut ins new rn by (simp add: cmp loop_result_def)
  next
    case erase
    then have eq: "store_loop before (cur # rest) new = store_loop before rest new"
      using rc by (simp add: cmp Let_def)
    obtain segs where "store_loop before rest new = Some (segs, new)"
      using store_loop_front[OF rest new] erase sorted rc by force
    moreover have "loop_result sdu (covered (before @ rest)) new (store_loop before rest new)"
      using 2(3)[OF refl refl] erase remain new 2(6) rc by (simp add: cmp)
    moreover have "seg_lo new \<notin> seg_bytes cur" "seg_bytes cur \<subseteq> seg_bytes new"
      using erase by (auto simp: seg_bytes_def)
    ultimately show ?thesis
      unfolding eq by (auto simp: loop_result_def)
  qed
qed

text \<open>The set after \<open>store_segment\<close>, and when a segment is dropped.\<close>

lemma store_segment_spec:
  assumes "segs_of sdu segs" and "seg_of sdu new" and "store_segment segs new = (stored, segs')"
  shows "segs_of sdu segs'" "covered segs' = covered segs \<union> seg_bytes new"
    "stored \<longleftrightarrow> \<not> seg_bytes new \<subseteq> covered segs" "\<not> stored \<Longrightarrow> segs' = segs"
proof -
  have r: "loop_result sdu (covered segs) new (store_loop [] segs new)"
    using store_loop_spec[of sdu "[]" segs new] assms by simp
  have "segs_of sdu segs' \<and> covered segs' = covered segs \<union> seg_bytes new
      \<and> (stored \<longleftrightarrow> \<not> seg_bytes new \<subseteq> covered segs) \<and> (\<not> stored \<longrightarrow> segs' = segs)"
  proof (cases "store_loop [] segs new")
    case None
    then show ?thesis
      using r assms by (auto simp: loop_result_def store_segment_def)
  next
    case (Some p)
    then obtain ts new' where p: "store_loop [] segs new = Some (ts, new')"
      by (cases p) auto
    then have res: "segs_of sdu ts" "seg_of sdu new'" "\<forall>t \<in> set ts. apart new' t"
        "covered ts \<union> seg_bytes new' = covered segs \<union> seg_bytes new"
        "seg_lo new' \<notin> covered segs" "seg_lo new' \<in> seg_bytes new"
      using r by (simp_all add: loop_result_def)
    have out: "stored" "segs' = seg_insert new' ts"
      using assms(3) p by (simp_all add: store_segment_def)
    note ins = segs_of_insert[OF res(1,2,3)]
    have "covered (seg_insert new' ts) = covered ts \<union> seg_bytes new'"
      by (auto simp: covered_def ins(2))
    then show ?thesis
      using out ins res by auto
  qed
  then show "segs_of sdu segs'" "covered segs' = covered segs \<union> seg_bytes new"
    "stored \<longleftrightarrow> \<not> seg_bytes new \<subseteq> covered segs" "\<not> stored \<Longrightarrow> segs' = segs"
    by blast+
qed

section \<open>The inventory and reassembly\<close>

text \<open>Walking over stored segments that begin where the previous ones ended.\<close>

lemma interval_union_from:
  fixes n h l :: nat
  assumes "C \<subseteq> {h..}" and "n < h" and "h \<le> l"
  shows "{n..<h} \<union> C = {n..<l} \<longleftrightarrow> C = {h..<l}"
    "(\<forall>m. {n..<h} \<union> C \<noteq> {n..<m}) \<longleftrightarrow> (\<forall>m. C \<noteq> {h..<m})"
proof -
  have C: "C = ({n..<h} \<union> C) \<inter> {h..}"
  proof
    show "C \<subseteq> ({n..<h} \<union> C) \<inter> {h..}" using assms(1) by blast
    show "({n..<h} \<union> C) \<inter> {h..} \<subseteq> C" by auto
  qed
  have from_union: "C = {h..<m}" if "{n..<h} \<union> C = {n..<m}" for m
    using C assms(2) unfolding that by auto
  have to_union: "{n..<h} \<union> C = {n..<max h m}" if "C = {h..<m}" for m
    using that assms(2) by (cases "h \<le> m") (auto simp: max_def)
  show "{n..<h} \<union> C = {n..<l} \<longleftrightarrow> C = {h..<l}"
    using from_union[of l] to_union[of l] assms(3) by (auto simp: max_def)
  show "(\<forall>m. {n..<h} \<union> C \<noteq> {n..<m}) \<longleftrightarrow> (\<forall>m. C \<noteq> {h..<m})"
    using from_union to_union by metis
qed

lemma covered_from: "\<forall>s \<in> set segs. n \<le> seg_lo s \<Longrightarrow> covered segs \<subseteq> {n..}"
  by (fastforce simp: covered_def seg_bytes_def)

lemma so_next_byte: "n < 2 ^ 32 \<Longrightarrow> ucast (seg_so s) = (of_nat n :: u32) \<longleftrightarrow> seg_lo s = n"
  by (simp add: word_unat_eq_iff unat_of_nat_u32 seg_lo_def)

definition inventory_result :: "bytes \<Rightarrow> nat \<Rightarrow> rlc_rx_sdu_segment list \<Rightarrow> bool \<times> bool \<Rightarrow> bool" where
  "inventory_result sdu n segs r \<longleftrightarrow> (snd r \<longleftrightarrow> covered segs = {n..<length sdu})
     \<and> (fst r \<longleftrightarrow> (\<forall>m. covered segs \<noteq> {n..<m}))
     \<and> (snd r \<longrightarrow> chain_segments segs = drop n sdu)"

lemma inventory_loop_spec:
  assumes "segs_of sdu segs" and "\<forall>s \<in> set segs. n \<le> seg_lo s" and "n < length sdu" and "length sdu \<le> 65536"
  shows "inventory_result sdu n segs (inventory_loop (of_nat n) segs)"
  using assms
proof (induction segs arbitrary: n)
  case Nil
  then show ?case
    by (auto simp: inventory_result_def intro: exI[of _ n])
next
  case (Cons s segs)
  have s: "seg_of sdu s" and segs: "segs_of sdu segs" and later: "\<forall>t \<in> set segs. seg_hi s \<le> seg_lo t"
    using Cons.prems by (auto simp: segs_of_def chained_Cons)
  note range = seg_of_range[OF s]
  have next_eq: "ucast (seg_so s) = (of_nat n :: u32) \<longleftrightarrow> seg_lo s = n"
    using Cons.prems by (intro so_next_byte) simp
  show ?case
  proof (cases "seg_lo s = n")
    case False
    then have "n < seg_lo s"
      using Cons.prems(2) by simp
    then have "\<forall>t\<in>set (s # segs). n < seg_lo t"
      using range later by fastforce
    then have "n \<notin> covered (s # segs)"
      by (intro lo_uncovered) blast
    moreover have "seg_lo s \<in> covered (s # segs)"
      using range by simp
    ultimately have *: "n \<notin> covered (s # segs)" "seg_lo s \<in> covered (s # segs)" .
    have "covered (s # segs) \<noteq> {n..<m}" for m
    proof
      assume eq: "covered (s # segs) = {n..<m}"
      have "n \<notin> {n..<m}" "seg_lo s \<in> {n..<m}"
        using * unfolding eq by blast+
      then show False by simp
    qed
    then show ?thesis
      using False by (simp add: inventory_result_def next_eq)
  next
    case lo: True
    have bytes: "seg_bytes s = {n..<seg_hi s}"
      using lo by (simp add: seg_bytes_def)
    have payload: "seg_payload s = take (seg_hi s - n) (drop n sdu)"
      using s lo by (auto simp: seg_of_def seg_hi_def seg_lo_def)
    show ?thesis
    proof (cases "seg_si s = last_segment")
      case True
      then have hi: "seg_hi s = length sdu"
        using s by (simp add: seg_of_def)
      have "segs = []"
      proof (rule ccontr)
        assume "segs \<noteq> []"
        then obtain t where t: "t \<in> set segs" by (cases segs) auto
        then have "seg_of sdu t" using segs by (simp add: segs_of_def)
        then show False
          using seg_of_range(1)[of sdu t] later t hi by (force simp: seg_of_def)
      qed
      then show ?thesis
        using True lo hi payload bytes
        by (auto simp: inventory_result_def next_eq chain_segments_def)
    next
      case False
      then have hi: "seg_hi s < length sdu"
        using s by (auto simp: seg_of_def)
      have "inventory_result sdu (seg_hi s) segs (inventory_loop (of_nat (seg_hi s)) segs)"
        using Cons.IH[OF segs later hi] Cons.prems by simp
      moreover have "(of_nat n + of_nat (length (seg_payload s)) :: u32) = of_nat (seg_hi s)"
        using lo by (simp add: seg_hi_def seg_lo_def)
      moreover have "chain_segments segs = drop (seg_hi s) sdu \<Longrightarrow> chain_segments (s # segs) = drop n sdu"
        using payload range lo hi
        by (simp add: chain_segments_def) (metis append_take_drop_id drop_drop le_add_diff_inverse2 less_imp_le)
      ultimately show ?thesis
        using False lo hi range interval_union_from[OF covered_from[OF later], of n "length sdu"]
        by (simp add: inventory_result_def next_eq bytes)
    qed
  qed
qed

lemma segment_inventory_spec:
  assumes "segs_of sdu segs" and "sdu \<noteq> []" and "length sdu \<le> 65536"
  shows "snd (segment_inventory segs) \<longleftrightarrow> covered segs = {..<length sdu}"
    "fst (segment_inventory segs) \<longleftrightarrow> (\<forall>m. covered segs \<noteq> {..<m})"
    "snd (segment_inventory segs) \<Longrightarrow> chain_segments segs = sdu"
proof -
  have "inventory_result sdu 0 segs (segment_inventory segs)"
    using inventory_loop_spec[OF assms(1), of 0] assms
    by (cases segs) (auto simp: segment_inventory_def)
  then show "snd (segment_inventory segs) \<longleftrightarrow> covered segs = {..<length sdu}"
    "fst (segment_inventory segs) \<longleftrightarrow> (\<forall>m. covered segs \<noteq> {..<m})"
    "snd (segment_inventory segs) \<Longrightarrow> chain_segments segs = sdu"
    by (simp_all add: inventory_result_def atLeast0LessThan)
qed

section \<open>Extents without contents\<close>

text \<open>
  The order and the extents of the stored segments do not depend on the payload bytes or on the
  segmentation info.  So the facts above hold for segments of any origin, as long as they end
  within the 16-bit range of offsets: blank the payload and choose a blank SDU.
\<close>

definition seg_fits :: "rlc_rx_sdu_segment \<Rightarrow> bool" where
  "seg_fits s \<longleftrightarrow> seg_payload s \<noteq> [] \<and> seg_hi s \<le> 65535"

definition blank :: "rlc_rx_sdu_segment \<Rightarrow> rlc_rx_sdu_segment" where
  "blank s = s\<lparr>seg_si := middle_segment, seg_payload := replicate (length (seg_payload s)) 0\<rparr>"

lemma blank_fields [simp]:
  "seg_so (blank s) = seg_so s" "length (seg_payload (blank s)) = length (seg_payload s)"
  "seg_lo (blank s) = seg_lo s" "seg_hi (blank s) = seg_hi s" "last_byte (blank s) = last_byte s"
  by (simp_all add: blank_def seg_lo_def seg_hi_def last_byte_def)

lemma blank_advance: "advance_past b (blank s) = blank (advance_past b s)"
  by (simp add: advance_past_def blank_def)

lemma blank_insert: "seg_insert (blank s) (map blank ts) = map blank (seg_insert s ts)"
  by (induction ts) simp_all

lemma blank_insert_append:
  "seg_insert (blank s) (map blank as @ map blank bs) = map blank (seg_insert s (as @ bs))"
  by (simp flip: blank_insert)

lemma blank_empty [simp]: "seg_payload (blank s) = [] \<longleftrightarrow> seg_payload s = []"
  by (simp add: blank_def)

lemma blank_store_loop:
  "store_loop (map blank before) (map blank segs) (blank new)
     = map_option (\<lambda>(segs, new). (map blank segs, blank new)) (store_loop before segs new)"
proof (induction before segs new rule: store_loop.induct)
  case (2 before cur rest new)
  then show ?case
    by (simp add: Let_def blank_advance blank_insert_append)
qed simp

lemma blank_store_segment:
  "store_segment (map blank segs) (blank new) = (fst (store_segment segs new), map blank (snd (store_segment segs new)))"
  using blank_store_loop[of "[]" segs new]
  by (simp add: store_segment_def blank_insert split: option.splits)

lemma seg_fits_blank: "seg_fits s \<Longrightarrow> seg_of (replicate 65536 0) (blank s)"
  by (auto simp: seg_fits_def seg_of_def) (auto simp: blank_def seg_hi_def seg_lo_def min_def)

lemma covered_blank: "covered (map blank segs) = covered segs"
  by (simp add: covered_def seg_bytes_def)

lemma chained_blank: "chained (map blank segs) = chained segs"
  by (simp add: chained_def sorted_wrt_map)

text \<open>The stored segments of an SDU whose bytes end at offset 65534 at the latest.\<close>

definition segs_fit :: "rlc_rx_sdu_segment list \<Rightarrow> bool" where
  "segs_fit segs \<longleftrightarrow> chained segs \<and> (\<forall>s \<in> set segs. seg_fits s)"

lemma segs_fit_blank: "segs_fit segs \<Longrightarrow> segs_of (replicate 65536 0) (map blank segs)"
  by (simp add: segs_fit_def segs_of_def chained_blank seg_fits_blank)

lemma covered_bound: "segs_of sdu segs \<Longrightarrow> covered segs \<subseteq> {..<n} \<Longrightarrow> s \<in> set segs \<Longrightarrow> seg_hi s \<le> n"
proof -
  assume s: "segs_of sdu segs" "covered segs \<subseteq> {..<n}" "s \<in> set segs"
  then have "seg_lo s < seg_hi s" using seg_of_range by (auto simp: segs_of_def)
  then have "seg_hi s - 1 \<in> covered segs"
    using s(3) by (auto simp: covered_def seg_bytes_def intro!: bexI[of _ s])
  then show "seg_hi s \<le> n" using s(2) by auto
qed

lemma store_segment_fit:
  assumes segs: "segs_fit segs" and new: "seg_fits new"
  shows "segs_fit (snd (store_segment segs new))"
    "covered (snd (store_segment segs new)) = covered segs \<union> seg_bytes new"
proof -
  let ?r = "snd (store_segment segs new)"
  have spec: "segs_of (replicate 65536 0) (map blank ?r)" "covered (map blank ?r) = covered (map blank segs) \<union> seg_bytes (blank new)"
    using store_segment_spec(1,2)[OF segs_fit_blank[OF segs] seg_fits_blank[OF new] blank_store_segment] by simp_all
  then show cov: "covered ?r = covered segs \<union> seg_bytes new"
    by (simp add: covered_blank seg_bytes_def)
  have "covered segs \<subseteq> {..<65535}" "seg_bytes new \<subseteq> {..<65535}"
    using segs new by (auto simp: covered_def seg_bytes_def segs_fit_def seg_fits_def)
  then have "covered (map blank ?r) \<subseteq> {..<65535}"
    by (simp add: covered_blank cov)
  then have "seg_hi (blank s) \<le> 65535" if "s \<in> set ?r" for s
    using covered_bound[OF spec(1), of 65535 "blank s"] that by auto
  then show "segs_fit ?r"
    using spec(1) by (auto simp: segs_fit_def segs_of_def chained_blank seg_fits_def seg_of_def)
qed

section \<open>Properties\<close>

lemma store_segments_fold:
  assumes "segs_of sdu stored" and "list_all (seg_of sdu) segs"
  defines "r \<equiv> fold (\<lambda>s acc. snd (store_segment acc s)) segs stored"
  shows "segs_of sdu r" "covered r = covered stored \<union> covered segs"
proof -
  have "segs_of sdu r \<and> covered r = covered stored \<union> covered segs"
    using assms(1,2) unfolding r_def
  proof (induction segs arbitrary: stored)
    case Nil
    then show ?case by (simp add: covered_def)
  next
    case (Cons s segs)
    obtain ok stored' where st: "store_segment stored s = (ok, stored')"
      using prod.exhaust by blast
    have "segs_of sdu stored'" "covered stored' = covered stored \<union> seg_bytes s"
      using store_segment_spec(1,2)[OF Cons.prems(1) _ st] Cons.prems(2) by simp_all
    then show ?case
      using Cons.IH[of stored'] Cons.prems(2) st by (auto simp: covered_def)
  qed
  then show "segs_of sdu r" "covered r = covered stored \<union> covered segs" by blast+
qed

text \<open>Storing a segment of an SDU into the stored segments of the same SDU keeps them sorted,
  non-overlapping and true to the SDU, and adds exactly the bytes of the new segment; it reports
  false, and changes nothing, exactly when the segment brings no new byte.\<close>

theorem store_segment_adds_bytes:
  assumes "segs_of sdu segs" and "seg_of sdu new"
  shows "segs_of sdu (snd (store_segment segs new))
     \<and> covered (snd (store_segment segs new)) = covered segs \<union> seg_bytes new
     \<and> (fst (store_segment segs new) \<longleftrightarrow> \<not> seg_bytes new \<subseteq> covered segs)
     \<and> (\<not> fst (store_segment segs new) \<longrightarrow> snd (store_segment segs new) = segs)"
  using store_segment_spec[OF assms, of "fst (store_segment segs new)" "snd (store_segment segs new)"]
  unfolding prod.collapse by blast

definition demo_sdu :: bytes where
  "demo_sdu = [10, 11, 12, 13, 14, 15]"

definition demo_seg1 :: rlc_rx_sdu_segment where
  "demo_seg1 = \<lparr>seg_si = first_segment, seg_so = 0, seg_payload = [10, 11, 12, 13]\<rparr>"

definition demo_seg2 :: rlc_rx_sdu_segment where
  "demo_seg2 = \<lparr>seg_si = last_segment, seg_so = 2, seg_payload = [12, 13, 14, 15]\<rparr>"

lemma demo_segs: "seg_of demo_sdu demo_seg1" "seg_of demo_sdu demo_seg2" "segs_of demo_sdu [demo_seg1]"
  by (simp_all add: seg_of_def segs_of_def chained_def seg_lo_def seg_hi_def demo_sdu_def demo_seg1_def demo_seg2_def)

theorem store_segment_adds_bytes_witness:
  "segs_of demo_sdu (snd (store_segment [demo_seg1] demo_seg2))
     \<and> covered (snd (store_segment [demo_seg1] demo_seg2)) = {0..<6}
     \<and> fst (store_segment [demo_seg1] demo_seg2)"
proof -
  have "covered [demo_seg1] = {0..<4}" "seg_bytes demo_seg2 = {2..<6}"
    by (auto simp: covered_def seg_bytes_def seg_lo_def seg_hi_def demo_seg1_def demo_seg2_def)
  then show ?thesis
    using store_segment_adds_bytes[OF demo_segs(3,2)] by auto
qed

text \<open>C27: Reassembly is exact: whatever segments of an SDU arrive, in any order, duplicated or
  overlapping, the inventory declares the SDU fully received exactly when every byte has arrived, and
  then the chained payloads are the SDU; it reports a gap exactly when the bytes received are not a
  prefix of the SDU.\<close>

theorem reassembly_exact:
  assumes "sdu \<noteq> []" and "length sdu \<le> 65536" and "list_all (seg_of sdu) segs"
  defines "stored \<equiv> fold (\<lambda>s acc. snd (store_segment acc s)) segs []"
  shows "(snd (segment_inventory stored) \<longleftrightarrow> covered segs = {..<length sdu})
     \<and> (snd (segment_inventory stored) \<longrightarrow> chain_segments stored = sdu)
     \<and> (fst (segment_inventory stored) \<longleftrightarrow> (\<forall>m. covered segs \<noteq> {..<m}))"
proof -
  have "segs_of sdu []" by (simp add: segs_of_def chained_def)
  from store_segments_fold[OF this assms(3)] have "segs_of sdu stored" "covered stored = covered segs"
    by (simp_all add: stored_def covered_def)
  then show ?thesis
    using segment_inventory_spec[OF _ assms(1,2), of stored] by simp
qed

theorem reassembly_exact_witness:
  "let stored = fold (\<lambda>s acc. snd (store_segment acc s)) [demo_seg2, demo_seg1, demo_seg2] [] in
     segment_inventory stored = (False, True) \<and> chain_segments stored = demo_sdu"
proof -
  have "covered [demo_seg2, demo_seg1, demo_seg2] = {..<6}"
    by (auto simp: covered_def seg_bytes_def seg_lo_def seg_hi_def demo_seg1_def demo_seg2_def)
  then show ?thesis
    using reassembly_exact[of demo_sdu "[demo_seg2, demo_seg1, demo_seg2]"] demo_segs
    by (auto simp: Let_def demo_sdu_def prod_eq_iff)
qed

end
