(* ===== verification/Rlc_Tx_Um.thy ===== *)
theory Rlc_Tx_Um
  imports Rlc_Tx_Common Rlc_Um_Pdu Rlc_Segments
begin

text \<open>
  The transmitting side of unacknowledged mode, \<open>lib/rlc/rlc_tx_um_entity.cpp\<close> and
  \<open>lib/rlc/rlc_tx_um_entity.h\<close>: queueing, discarding, segmentation into the grants of the MAC layer
  and the buffer state.

  \<open>pull_pdu\<close> returns the bytes it writes into the grant (none where the C++ method returns 0), the
  new state and the notifications.
\<close>

record rlc_tx_um =
  tu_cfg :: rlc_tx_um_config
  tu_tx_next :: u32
  tu_sdu_queue :: rlc_sdu_queue
  tu_sdu :: rlc_sdu
  tu_next_so :: u32
  tu_prev_pending_bytes :: u32
  tu_suspend_bs_notif_barring :: bool
  tu_pending_buffer_state :: bool

definition tx_um_new :: "rlc_tx_um_config \<Rightarrow> rlc_tx_um option" where
  "tx_um_new cfg = (if txum_pdcp_sn_len cfg = pdcp_size12bits \<or> txum_pdcp_sn_len cfg = pdcp_size18bits
     then Some \<lparr>tu_cfg = cfg, tu_tx_next = 0,
       tu_sdu_queue = sq_new (txum_queue_size cfg) (txum_queue_size_bytes cfg),
       tu_sdu = sdu_default, tu_next_so = 0, tu_prev_pending_bytes = 0,
       tu_suspend_bs_notif_barring = True, tu_pending_buffer_state = False\<rparr> else None)"

definition tu_mod :: "rlc_tx_um \<Rightarrow> u32" where
  "tu_mod st = cardinality (um_to_number (txum_sn_field_length (tu_cfg st)))"

definition head_len_full :: "rlc_tx_um \<Rightarrow> u32" where
  "head_len_full st = of_nat rlc_um_pdu_header_size_complete_sdu"

definition head_len_first :: "rlc_tx_um \<Rightarrow> u32" where
  "head_len_first st = of_nat (rlc_um_pdu_header_size_no_so (txum_sn_field_length (tu_cfg st)))"

definition head_len_not_first :: "rlc_tx_um \<Rightarrow> u32" where
  "head_len_not_first st = of_nat (rlc_um_pdu_header_size_with_so (txum_sn_field_length (tu_cfg st)))"

definition tu_handle_changed_buffer_state :: "bool \<Rightarrow> rlc_tx_um \<Rightarrow> rlc_tx_um \<times> rlc_tx_event list" where
  "tu_handle_changed_buffer_state defer_ok st =
     (let (pending, ev) = trigger_update defer_ok (tu_pending_buffer_state st)
      in (st\<lparr>tu_pending_buffer_state := pending\<rparr>, ev))"

definition tu_handle_sdu :: "bool \<Rightarrow> bytes \<Rightarrow> bool \<Rightarrow> rlc_tx_um \<Rightarrow> rlc_tx_um \<times> rlc_tx_event list" where
  "tu_handle_sdu defer_ok sdu_buf0 is_retx st =
     (let sdu = sdu_default\<lparr>sdu_buf := sdu_buf0,
            sdu_pdcp_sn := get_pdcp_sn sdu_buf0 (txum_pdcp_sn_len (tu_cfg st)) False\<rparr>;
          (written, q) = sq_write (tu_sdu_queue st) sdu
      in if written then tu_handle_changed_buffer_state defer_ok (st\<lparr>tu_sdu_queue := q\<rparr>)
         else (st\<lparr>tu_sdu_queue := q\<rparr>, []))"

definition tu_discard_sdu :: "bool \<Rightarrow> u32 \<Rightarrow> rlc_tx_um \<Rightarrow> rlc_tx_um \<times> rlc_tx_event list" where
  "tu_discard_sdu defer_ok pdcp_sn st =
     (let (discarded, q) = sq_try_discard (tu_sdu_queue st) pdcp_sn
      in if discarded then tu_handle_changed_buffer_state defer_ok (st\<lparr>tu_sdu_queue := q\<rparr>)
         else (st\<lparr>tu_sdu_queue := q\<rparr>, []))"

text \<open>\<open>None\<close>: the grant cannot hold the header and a byte of payload.\<close>

definition get_si_and_expected_header_size ::
    "rlc_tx_um \<Rightarrow> u32 \<Rightarrow> u32 \<Rightarrow> u32 \<Rightarrow> (rlc_si_field \<times> u32) option" where
  "get_si_and_expected_header_size st so sdu_len grant_len =
     (if so = 0 then
        (if sdu_len \<le> grant_len - head_len_full st then Some (full_sdu, head_len_full st)
         else if grant_len \<le> head_len_first st then None
         else Some (first_segment, head_len_first st))
      else if grant_len \<le> head_len_not_first st then None
      else if sdu_len - tu_next_so st \<le> grant_len - head_len_not_first st
      then Some (last_segment, head_len_not_first st)
      else Some (middle_segment, head_len_not_first st))"

text \<open>Get an SDU to transmit: the one under segmentation, or the next of the queue.\<close>

definition tu_get_sdu :: "rlc_tx_um \<Rightarrow> bool \<times> rlc_tx_um \<times> rlc_tx_event list" where
  "tu_get_sdu st = (if sdu_buf (tu_sdu st) \<noteq> [] then (True, st, [])
     else (case sq_read (tu_sdu st) (tu_sdu_queue st) of (ok, sdu, q) \<Rightarrow>
       let st' = st\<lparr>tu_sdu := sdu, tu_sdu_queue := q\<rparr> in
       if \<not> ok then (False, st', [])
       else (True, st', (case sdu_pdcp_sn sdu of None \<Rightarrow> []
           | Some sn \<Rightarrow> [On_transmitted_sdu sn (txum_queue_size_bytes (tu_cfg st))]))))"

text \<open>After the PDU was written: release the SDU or advance the offset; count the SN.\<close>

definition tu_advance :: "rlc_si_field \<Rightarrow> u32 \<Rightarrow> rlc_tx_um \<Rightarrow> rlc_tx_um" where
  "tu_advance si payload_len st =
     (let st' = (if si = full_sdu \<or> si = last_segment
          then st\<lparr>tu_sdu := (tu_sdu st)\<lparr>sdu_buf := []\<rparr>, tu_next_so := 0\<rparr>
          else st\<lparr>tu_next_so := tu_next_so st + payload_len\<rparr>)
      in if si = last_segment then st'\<lparr>tu_tx_next := (tu_tx_next st' + 1) mod tu_mod st'\<rparr> else st')"

definition tu_build_pdu :: "u32 \<Rightarrow> rlc_tx_um \<Rightarrow> bytes \<times> rlc_tx_um" where
  "tu_build_pdu grant_len st =
     (let buf = sdu_buf (tu_sdu st); next_so = tu_next_so st in
      case get_si_and_expected_header_size st next_so (of_nat (length buf)) grant_len of
        None \<Rightarrow> ([], st)
      | Some (si, expected_hdr_len) \<Rightarrow>
          let header = \<lparr>umh_si = si, umh_sn_size = txum_sn_field_length (tu_cfg st),
                        umh_sn = ucast (tu_tx_next st), umh_so = ucast next_so\<rparr>;
              head = rlc_um_write_data_pdu_header header;
              space = grant_len - of_nat (length head);
              payload_len = (if unat space \<ge> length buf - unat next_so
                             then of_nat (length buf - unat next_so) else space);
              payload = take (unat payload_len) (drop (unat next_so) buf)
          in if length payload = 0 \<or> length payload \<noteq> unat payload_len then ([], st)
             else (head @ payload, tu_advance si payload_len st))"

definition tu_pull_pdu :: "u32 \<Rightarrow> rlc_tx_um \<Rightarrow> bytes \<times> rlc_tx_um \<times> rlc_tx_event list" where
  "tu_pull_pdu grant_len st =
     (if grant_len \<le> head_len_full st then ([], st, [])
      else (case tu_get_sdu st of (ok, st1, ev) \<Rightarrow>
        if \<not> ok then ([], st1, ev)
        else (case tu_build_pdu grant_len st1 of (pdu, st2) \<Rightarrow> (pdu, st2, ev))))"

definition tu_get_buffer_state :: "rlc_tx_um \<Rightarrow> u32 \<times> rlc_tx_um" where
  "tu_get_buffer_state st =
     (let queue_state = sq_get_state (tu_sdu_queue st);
          queue_bytes = n_bytes queue_state + n_sdus queue_state * head_len_full st;
          (segment_bytes, st1) =
            (if sdu_buf (tu_sdu st) \<noteq> []
             then ((of_nat (length (sdu_buf (tu_sdu st))) - tu_next_so st) + head_len_not_first st, st)
             else (0, st\<lparr>tu_sdu_queue := snd (sq_front (tu_sdu_queue st))\<rparr>));
          pending_bytes = queue_bytes + segment_bytes
      in (pending_bytes,
          if unat pending_bytes \<le> MAX_DL_PDU_LENGTH
          then st1\<lparr>tu_suspend_bs_notif_barring := True\<rparr> else st1))"

definition tu_update_mac_buffer_state :: "rlc_tx_um \<Rightarrow> rlc_tx_um \<times> rlc_tx_event list" where
  "tu_update_mac_buffer_state st0 =
     (let (bs, st) = tu_get_buffer_state (st0\<lparr>tu_pending_buffer_state := False\<rparr>);
          notify = (unat bs \<le> MAX_DL_PDU_LENGTH \<or> unat (tu_prev_pending_bytes st) \<le> MAX_DL_PDU_LENGTH
                    \<or> tu_suspend_bs_notif_barring st);
          st' = (if notify then st\<lparr>tu_suspend_bs_notif_barring := False\<rparr> else st)
      in (st'\<lparr>tu_prev_pending_bytes := bs\<rparr>, if notify then [On_buffer_state_update bs] else []))"

section \<open>Invariant\<close>

text \<open>
  Offsets are 16 bits wide in the header, so SDUs are at most 65535 bytes long: a bound that the
  PDCP layer keeps and that is part of the invariant.
\<close>

definition tu_inv :: "rlc_tx_um \<Rightarrow> bool" where
  "tu_inv st \<longleftrightarrow> sq_wf (tu_sdu_queue st)
     \<and> unat (tu_tx_next st) < 2 ^ um_to_number (txum_sn_field_length (tu_cfg st))
     \<and> (if sdu_buf (tu_sdu st) = [] then tu_next_so st = 0
        else unat (tu_next_so st) < length (sdu_buf (tu_sdu st)))
     \<and> length (sdu_buf (tu_sdu st)) \<le> 65535
     \<and> (\<forall>s \<in> set (sq_queue (tu_sdu_queue st)). length (sdu_buf s) \<le> 65535)"

text \<open>The header written for a segment.\<close>

definition um_seg_header :: "rlc_tx_um \<Rightarrow> rlc_rx_sdu_segment \<Rightarrow> rlc_um_pdu_header" where
  "um_seg_header st seg = \<lparr>umh_si = seg_si seg, umh_sn_size = txum_sn_field_length (tu_cfg st),
     umh_sn = ucast (tu_tx_next st), umh_so = seg_so seg\<rparr>"

definition tu_full_header :: "rlc_tx_um \<Rightarrow> rlc_um_pdu_header" where
  "tu_full_header st = \<lparr>umh_si = full_sdu, umh_sn_size = txum_sn_field_length (tu_cfg st),
     umh_sn = ucast (tu_tx_next st), umh_so = 0\<rparr>"

definition tu_release :: "rlc_tx_um \<Rightarrow> rlc_tx_um" where
  "tu_release st = st\<lparr>tu_sdu := (tu_sdu st)\<lparr>sdu_buf := []\<rparr>, tu_next_so := 0\<rparr>"

text \<open>The three outcomes of building a PDU: nothing fits, the whole SDU, or its next segment.\<close>

definition tu_segment_sent :: "rlc_tx_um \<Rightarrow> rlc_rx_sdu_segment \<Rightarrow> rlc_tx_um \<Rightarrow> bool" where
  "tu_segment_sent st seg st' \<longleftrightarrow>
     (let buf = sdu_buf (tu_sdu st) in
      seg_of buf seg \<and> seg_lo seg = unat (tu_next_so st)
      \<and> seg_si seg = (if tu_next_so st = 0 then first_segment
            else if seg_hi seg = length buf then last_segment else middle_segment)
      \<and> st' = (if seg_hi seg = length buf
            then (tu_release st)\<lparr>tu_tx_next := (tu_tx_next st + 1) mod tu_mod st\<rparr>
            else st\<lparr>tu_next_so := of_nat (seg_hi seg)\<rparr>))"

definition tu_outcome :: "rlc_tx_um \<Rightarrow> bytes \<Rightarrow> rlc_tx_um \<Rightarrow> bool" where
  "tu_outcome st pdu st' \<longleftrightarrow>
     pdu = [] \<and> st' = st
     \<or> tu_next_so st = 0 \<and> pdu = rlc_um_write_data_pdu_header (tu_full_header st) @ sdu_buf (tu_sdu st)
         \<and> st' = tu_release st
     \<or> (\<exists>seg. tu_segment_sent st seg st'
         \<and> pdu = rlc_um_write_data_pdu_header (um_seg_header st seg) @ seg_payload seg)"

lemma head_lens:
  "unat (head_len_full st) = 1"
  "unat (head_len_first st) = rlc_um_pdu_header_size_no_so (txum_sn_field_length (tu_cfg st))"
  "unat (head_len_not_first st) = rlc_um_pdu_header_size_with_so (txum_sn_field_length (tu_cfg st))"
  by (cases "txum_sn_field_length (tu_cfg st)";
      simp add: head_len_full_def head_len_first_def head_len_not_first_def
        rlc_um_pdu_header_size_complete_sdu_def)+

lemma unat_sub_u32: "b \<le> (a :: u32) \<Longrightarrow> unat (a - b) = unat a - unat b"
  by (rule unat_sub)

text \<open>The segment that is sent when the whole rest does not fit, or after the first segment.\<close>

lemma tu_next_segment:
  assumes buf: "buf = sdu_buf (tu_sdu st)" and so: "unat (tu_next_so st) < length buf" and len: "length buf \<le> 65535"
    and n: "0 < n" "unat (tu_next_so st) + n \<le> length buf"
    and si: "si = last_segment \<longleftrightarrow> unat (tu_next_so st) + n = length buf"
  defines "seg \<equiv> \<lparr>seg_si = si, seg_so = ucast (tu_next_so st), seg_payload = take n (drop (unat (tu_next_so st)) buf)\<rparr>"
  shows "seg_of buf seg" "seg_lo seg = unat (tu_next_so st)" "seg_hi seg = unat (tu_next_so st) + n"
proof -
  have lo: "unat (ucast (tu_next_so st) :: u16) = unat (tu_next_so st)"
    using so len by (simp add: unsigned_ucast_eq take_bit_eq_mod)
  have p: "length (seg_payload seg) = n"
    using n by (simp add: seg_def)
  show lo': "seg_lo seg = unat (tu_next_so st)"
    by (simp add: seg_lo_def seg_def lo)
  show hi: "seg_hi seg = unat (tu_next_so st) + n"
    using p by (simp add: seg_hi_def) (simp add: seg_def lo)
  have "seg_payload seg = take (length (seg_payload seg)) (drop (seg_lo seg) buf)"
    unfolding p lo' by (simp add: seg_def)
  moreover have "seg_payload seg \<noteq> []"
    using p n(1) by auto
  moreover have "seg_si seg = last_segment \<longleftrightarrow> seg_hi seg = length buf"
    using si hi by (simp add: seg_def)
  ultimately show "seg_of buf seg"
    unfolding seg_of_def using n len hi by linarith
qed

text \<open>The lengths of the headers.\<close>

lemma length_um_headers:
  "length (rlc_um_write_data_pdu_header (tu_full_header st)) = 1"
  "seg_si seg \<noteq> full_sdu \<Longrightarrow> length (rlc_um_write_data_pdu_header (um_seg_header st seg))
     = (if seg_lo seg = 0 then unat (head_len_first st) else unat (head_len_not_first st))"
proof -
  show "length (rlc_um_write_data_pdu_header (tu_full_header st)) = 1"
    by (simp add: length_write_um_header rlc_um_nr_packed_length_def tu_full_header_def)
  have so: "seg_so seg = 0 \<longleftrightarrow> seg_lo seg = 0"
    by (simp add: seg_lo_def unsigned_eq_0_iff)
  assume "seg_si seg \<noteq> full_sdu"
  then show "length (rlc_um_write_data_pdu_header (um_seg_header st seg))
     = (if seg_lo seg = 0 then unat (head_len_first st) else unat (head_len_not_first st))"
    by (cases "txum_sn_field_length (tu_cfg st)")
      (simp_all add: length_write_um_header rlc_um_nr_packed_length_def um_seg_header_def head_lens so)
qed

lemma tu_build_full:
  assumes inv: "tu_inv st" and buf: "sdu_buf (tu_sdu st) \<noteq> []" and so: "tu_next_so st = 0"
    and si: "get_si_and_expected_header_size st 0 (of_nat (length (sdu_buf (tu_sdu st)))) grant_len
      = Some (full_sdu, hl)"
    and fits: "length (sdu_buf (tu_sdu st)) \<le> unat grant_len - 1" "1 < unat grant_len"
  shows "tu_build_pdu grant_len st
     = (rlc_um_write_data_pdu_header (tu_full_header st) @ sdu_buf (tu_sdu st), tu_release st)"
proof -
  have len: "length (sdu_buf (tu_sdu st)) \<le> 65535"
    using inv by (simp add: tu_inv_def)
  have "unat (grant_len - 1) = unat grant_len - 1"
    using fits(2) by (subst unat_sub_u32) (auto simp: word_le_nat_alt)
  then show ?thesis
    using buf so si fits len length_um_headers(1)[of st]
    by (simp add: tu_build_pdu_def tu_full_header_def tu_advance_def tu_release_def unat_of_nat_u32)
qed

lemma tu_build_segment:
  assumes inv: "tu_inv st" and buf: "sdu_buf (tu_sdu st) \<noteq> []"
    and si: "get_si_and_expected_header_size st (tu_next_so st) (of_nat (length (sdu_buf (tu_sdu st)))) grant_len
      = Some (si, hl)"
    and n: "n = min (length (sdu_buf (tu_sdu st)) - unat (tu_next_so st)) (unat grant_len - unat hl)" "0 < n"
    and seg: "seg = \<lparr>seg_si = si, seg_so = ucast (tu_next_so st),
      seg_payload = take n (drop (unat (tu_next_so st)) (sdu_buf (tu_sdu st)))\<rparr>"
    and hl: "length (rlc_um_write_data_pdu_header (um_seg_header st seg)) = unat hl"
  shows "tu_build_pdu grant_len st
     = (rlc_um_write_data_pdu_header (um_seg_header st seg) @ seg_payload seg, tu_advance si (of_nat n) st)"
proof -
  let ?buf = "sdu_buf (tu_sdu st)" and ?so = "unat (tu_next_so st)"
  have so: "?so < length ?buf" and len: "length ?buf \<le> 65535"
    using inv buf by (auto simp: tu_inv_def)
  have space: "unat (grant_len - hl) = unat grant_len - unat hl"
    using n by (intro unat_sub_u32) (simp add: word_le_nat_alt)
  define payload_len where "payload_len = (if unat (grant_len - hl) \<ge> length ?buf - ?so
     then of_nat (length ?buf - ?so) else grant_len - hl)"
  have "unat payload_len = n"
    using n(1) len space by (auto simp: payload_len_def unat_of_nat_u32 min_def)
  then have pl: "payload_len = of_nat n"
    by (metis of_nat_unat ucast_id)
  have head: "rlc_um_write_data_pdu_header \<lparr>umh_si = si, umh_sn_size = txum_sn_field_length (tu_cfg st),
      umh_sn = ucast (tu_tx_next st), umh_so = ucast (tu_next_so st)\<rparr>
      = rlc_um_write_data_pdu_header (um_seg_header st seg)"
    by (simp add: um_seg_header_def seg)
  have hlw: "(of_nat (length (rlc_um_write_data_pdu_header (um_seg_header st seg))) :: u32) = hl"
    unfolding hl by (metis of_nat_unat ucast_id)
  have payload: "take (unat payload_len) (drop ?so ?buf) = seg_payload seg" "length (seg_payload seg) = n"
    using n(1) \<open>unat payload_len = n\<close> by (simp_all add: seg)
  show ?thesis
    unfolding tu_build_pdu_def Let_def si option.case prod.case head hlw
    unfolding payload_len_def[symmetric] payload
    using n(2) \<open>unat payload_len = n\<close> by (simp add: pl)
qed

text \<open>The state after a segment.\<close>

lemma tu_advance_segment:
  assumes "seg_si seg = (if tu_next_so st = 0 then first_segment
            else if seg_hi seg = length (sdu_buf (tu_sdu st)) then last_segment else middle_segment)"
    and "tu_next_so st = 0 \<Longrightarrow> seg_hi seg \<noteq> length (sdu_buf (tu_sdu st))"
    and "seg_hi seg = unat (tu_next_so st) + n"
  shows "tu_advance (seg_si seg) (of_nat n) st = (if seg_hi seg = length (sdu_buf (tu_sdu st))
            then (tu_release st)\<lparr>tu_tx_next := (tu_tx_next st + 1) mod tu_mod st\<rparr>
            else st\<lparr>tu_next_so := of_nat (seg_hi seg)\<rparr>)"
  using assms by (auto simp: tu_advance_def tu_release_def tu_mod_def)

lemma get_si_segment:
  assumes get: "get_si_and_expected_header_size st (tu_next_so st) (of_nat l) grant_len = Some (si, hl)"
    and si: "si \<noteq> full_sdu" and l: "unat (tu_next_so st) < l" "l \<le> 65535" and G: "1 < unat grant_len"
  defines "n \<equiv> min (l - unat (tu_next_so st)) (unat grant_len - unat hl)"
  shows "0 < n" "unat (tu_next_so st) + n \<le> l" "unat hl < unat grant_len"
    "si = (if tu_next_so st = 0 then first_segment
       else if unat (tu_next_so st) + n = l then last_segment else middle_segment)"
    "tu_next_so st = 0 \<Longrightarrow> unat (tu_next_so st) + n \<noteq> l"
    "hl = (if tu_next_so st = 0 then head_len_first st else head_len_not_first st)"
proof -
  have L: "unat (of_nat l :: u32) = l"
    using l by (simp add: unat_of_nat_u32)
  have rest: "unat (of_nat l - tu_next_so st) = l - unat (tu_next_so st)"
    using l L by (subst unat_sub_u32) (auto simp: word_le_nat_alt)
  have sub1: "unat (grant_len - head_len_full st) = unat grant_len - 1"
    using G head_lens(1)[of st] by (subst unat_sub_u32) (auto simp: word_le_nat_alt)
  have zero: "tu_next_so st = 0 \<Longrightarrow> unat (tu_next_so st) = 0"
    by simp
  have hl1: "1 \<le> unat (head_len_first st)"
    by (cases "txum_sn_field_length (tu_cfg st)") (simp_all add: head_lens)
  have *: "hl = (if tu_next_so st = 0 then head_len_first st else head_len_not_first st)"
      "unat hl < unat grant_len"
      "tu_next_so st = 0 \<Longrightarrow> si = first_segment \<and> unat grant_len - 1 < l"
    using get si sub1 L
    by (auto simp: get_si_and_expected_header_size_def word_le_nat_alt not_le split: if_splits)
  then have sub: "unat (grant_len - hl) = unat grant_len - unat hl"
    by (intro unat_sub_u32) (simp add: word_le_nat_alt)
  have last: "tu_next_so st \<noteq> 0 \<Longrightarrow> si = (if l - unat (tu_next_so st) \<le> unat grant_len - unat hl
      then last_segment else middle_segment)"
    using get *(1) sub rest
    by (auto simp: get_si_and_expected_header_size_def word_le_nat_alt split: if_splits)
  show "hl = (if tu_next_so st = 0 then head_len_first st else head_len_not_first st)"
    "unat hl < unat grant_len" by fact+
  show "0 < n" "unat (tu_next_so st) + n \<le> l"
    using *(2) l by (auto simp: n_def)
  show ne: "tu_next_so st = 0 \<Longrightarrow> unat (tu_next_so st) + n \<noteq> l"
    using * hl1 zero by (auto simp: n_def)
  show "si = (if tu_next_so st = 0 then first_segment
       else if unat (tu_next_so st) + n = l then last_segment else middle_segment)"
    using * last l by (auto simp: n_def)
qed

lemma tu_build_pdu_outcome:
  assumes inv: "tu_inv st" and buf: "sdu_buf (tu_sdu st) \<noteq> []" and grant: "\<not> grant_len \<le> head_len_full st"
    and res: "tu_build_pdu grant_len st = (pdu, st')"
  shows "tu_outcome st pdu st' \<and> length pdu \<le> unat grant_len"
proof -
  let ?buf = "sdu_buf (tu_sdu st)" and ?so = "unat (tu_next_so st)" and ?G = "unat grant_len"
  let ?get = "get_si_and_expected_header_size st (tu_next_so st) (of_nat (length ?buf)) grant_len"
  have so: "?so < length ?buf" and len: "length ?buf \<le> 65535"
    using inv buf by (auto simp: tu_inv_def)
  have G: "1 < ?G"
    using grant head_lens(1)[of st] by (simp add: word_le_nat_alt)
  have L: "unat (of_nat (length ?buf) :: u32) = length ?buf"
    using len by (simp add: unat_of_nat_u32)
  have zero: "tu_next_so st = 0 \<longleftrightarrow> ?so = 0"
    by (simp add: unsigned_eq_0_iff)
  have sub1: "unat (grant_len - head_len_full st) = ?G - 1"
    using grant head_lens(1)[of st] by (subst unat_sub_u32) auto
  show ?thesis
  proof (cases ?get)
    case None
    then have "tu_build_pdu grant_len st = ([], st)"
      by (simp add: tu_build_pdu_def Let_def)
    then show ?thesis using res by (simp add: tu_outcome_def)
  next
    case (Some p)
    obtain si hl where p: "p = (si, hl)" by (cases p)
    show ?thesis
    proof (cases "si = full_sdu")
      case True
      then have so0: "tu_next_so st = 0" and fits: "length ?buf \<le> ?G - 1"
        using Some p sub1 L
        by (auto simp: get_si_and_expected_header_size_def word_le_nat_alt split: if_splits)
      have "tu_build_pdu grant_len st
          = (rlc_um_write_data_pdu_header (tu_full_header st) @ ?buf, tu_release st)"
        using Some p True so0 fits G by (intro tu_build_full[OF inv buf so0]) simp_all
      then show ?thesis
        using res so0 fits G length_um_headers(1)[of st] by (auto simp: tu_outcome_def)
    next
      case False
      define n where "n = min (length ?buf - ?so) (?G - unat hl)"
      define seg where "seg = \<lparr>seg_si = si, seg_so = ucast (tu_next_so st), seg_payload = take n (drop ?so ?buf)\<rparr>"
      note get = get_si_segment[OF Some[unfolded p] False so len G, folded n_def]
      have "si = last_segment \<longleftrightarrow> ?so + n = length ?buf"
        using get(4,5) by auto
      note sg = tu_next_segment[OF refl so len get(1,2) this, folded seg_def]
      have si': "seg_si seg = si" by (simp add: seg_def)
      have hl: "length (rlc_um_write_data_pdu_header (um_seg_header st seg)) = unat hl"
        using length_um_headers(2)[of seg st] False get(6) sg(2) zero si' by simp
      have b: "tu_build_pdu grant_len st
          = (rlc_um_write_data_pdu_header (um_seg_header st seg) @ seg_payload seg, tu_advance si (of_nat n) st)"
        using tu_build_segment[OF inv buf Some[unfolded p] n_def get(1) seg_def hl] .
      have "tu_segment_sent st seg (tu_advance si (of_nat n) st)"
      proof -
        have si'': "seg_si seg = (if tu_next_so st = 0 then first_segment
            else if seg_hi seg = length ?buf then last_segment else middle_segment)"
          using get(4) si' unfolding sg(3) by (simp only:)
        moreover have "tu_next_so st = 0 \<Longrightarrow> seg_hi seg \<noteq> length ?buf"
          using get(5) unfolding sg(3) .
        ultimately have "tu_advance (seg_si seg) (of_nat n) st = (if seg_hi seg = length ?buf
            then (tu_release st)\<lparr>tu_tx_next := (tu_tx_next st + 1) mod tu_mod st\<rparr>
            else st\<lparr>tu_next_so := of_nat (seg_hi seg)\<rparr>)"
          using sg(3) by (rule tu_advance_segment)
        then show ?thesis
          using sg(1,2) si'' unfolding tu_segment_sent_def Let_def si' by blast
      qed
      moreover have "length (seg_payload seg) \<le> ?G - unat hl"
        by (simp add: seg_def n_def)
      ultimately show ?thesis
        using res b hl get(3) unfolding tu_outcome_def by auto
    qed
  qed
qed

section \<open>Preservation\<close>

lemma tu_outcome_inv:
  assumes inv: "tu_inv st" and out: "tu_outcome st pdu st'"
  shows "tu_inv st'"
proof -
  have rel: "tu_inv (tu_release st)"
    using inv by (simp add: tu_inv_def tu_release_def)
  have mod: "unat ((x :: u32) mod tu_mod st) < 2 ^ um_to_number (txum_sn_field_length (tu_cfg st))" for x
    by (simp add: tu_mod_def mod_cardinality unat_take_bit)
  show ?thesis
    using out unfolding tu_outcome_def
  proof (elim disjE conjE exE)
    fix seg assume seg: "tu_segment_sent st seg st'"
    then have s: "seg_of (sdu_buf (tu_sdu st)) seg" by (simp add: tu_segment_sent_def Let_def)
    then have "seg_hi seg \<le> length (sdu_buf (tu_sdu st))" by (simp add: seg_of_def)
    then have "seg_hi seg \<le> 65535" using inv by (simp add: tu_inv_def)
    then have "unat (of_nat (seg_hi seg) :: u32) = seg_hi seg"
      by (simp add: unat_of_nat_u32)
    then show ?thesis
      using seg s inv rel mod \<open>seg_hi seg \<le> length (sdu_buf (tu_sdu st))\<close>
      by (auto simp: tu_segment_sent_def Let_def tu_inv_def tu_release_def seg_of_def)
  qed (use inv rel in simp_all)
qed

lemma tu_get_sdu_inv:
  assumes inv: "tu_inv st" and get: "tu_get_sdu st = (ok, st', ev)"
  shows "tu_inv st'"
proof (cases "sdu_buf (tu_sdu st) = []")
  case False
  then show ?thesis using get inv by (simp add: tu_get_sdu_def)
next
  case True
  obtain sdu q where r: "sq_read (tu_sdu st) (tu_sdu_queue st) = (ok, sdu, q)"
    and st': "st' = st\<lparr>tu_sdu := sdu, tu_sdu_queue := q\<rparr>"
    using get True by (auto simp: tu_get_sdu_def Let_def split: prod.splits if_splits)
  have "sq_wf q"
    using fifo.read_inv[of "tu_sdu_queue st" "tu_sdu st"] inv r by (simp add: tu_inv_def)
  moreover note sq_read_sets[OF r]
  ultimately show ?thesis
    using inv True by (auto simp: tu_inv_def st')
qed

lemma tu_pull_pdu_spec:
  assumes inv: "tu_inv st" and pull: "tu_pull_pdu grant_len st = (pdu, st', ev)"
  shows "tu_inv st'" "length pdu \<le> unat grant_len"
    "pdu \<noteq> [] \<Longrightarrow> \<exists>st1. tu_get_sdu st = (True, st1, ev) \<and> tu_inv st1 \<and> sdu_buf (tu_sdu st1) \<noteq> []
       \<and> tu_outcome st1 pdu st'"
proof -
  have "tu_inv st' \<and> length pdu \<le> unat grant_len \<and>
    (pdu \<noteq> [] \<longrightarrow> (\<exists>st1. tu_get_sdu st = (True, st1, ev) \<and> tu_inv st1 \<and> sdu_buf (tu_sdu st1) \<noteq> []
       \<and> tu_outcome st1 pdu st'))"
  proof (cases "grant_len \<le> head_len_full st")
    case True
    then show ?thesis using pull inv by (simp add: tu_pull_pdu_def)
  next
    case grant: False
    obtain ok st1 ev1 where get: "tu_get_sdu st = (ok, st1, ev1)"
      using prod_cases3 by blast
    note inv1 = tu_get_sdu_inv[OF inv get]
    have "head_len_full st1 = head_len_full st"
      by (simp add: head_len_full_def)
    then have grant1: "\<not> grant_len \<le> head_len_full st1"
      using grant by simp
    show ?thesis
    proof (cases ok)
      case False
      then show ?thesis using pull grant get inv1 by (simp add: tu_pull_pdu_def)
    next
      case True
      then have b: "tu_build_pdu grant_len st1 = (pdu, st')" and ev: "ev1 = ev"
        using pull grant get by (auto simp: tu_pull_pdu_def split: prod.splits)
      show ?thesis
      proof (cases "sdu_buf (tu_sdu st1) = []")
        case True
        then have "pdu = []" "st' = st1"
          using b by (auto simp: tu_build_pdu_def Let_def split: option.splits if_splits)
        then show ?thesis using inv1 by simp
      next
        case False
        then show ?thesis
          using tu_build_pdu_outcome[OF inv1 False grant1 b] tu_outcome_inv[OF inv1] get True ev inv1
          by auto
      qed
    qed
  qed
  then show "tu_inv st'" "length pdu \<le> unat grant_len"
    "pdu \<noteq> [] \<Longrightarrow> \<exists>st1. tu_get_sdu st = (True, st1, ev) \<and> tu_inv st1 \<and> sdu_buf (tu_sdu st1) \<noteq> []
       \<and> tu_outcome st1 pdu st'"
    by blast+
qed

lemma tu_handle_sdu_inv:
  assumes inv: "tu_inv st" and len: "length buf \<le> 65535"
  shows "tu_inv (fst (tu_handle_sdu defer_ok buf is_retx st))"
proof -
  define sdu where "sdu = sdu_default\<lparr>sdu_buf := buf,
            sdu_pdcp_sn := get_pdcp_sn buf (txum_pdcp_sn_len (tu_cfg st)) False\<rparr>"
  have "sdu_sn_ok sdu"
    by (rule pdcp_sdu_sn_ok) (simp add: sdu_def)
  then have "sq_wf (snd (sq_write (tu_sdu_queue st) sdu))"
    using inv by (intro fifo.write_inv) (simp_all add: tu_inv_def)
  moreover have "\<forall>s \<in> set (sq_queue (snd (sq_write (tu_sdu_queue st) sdu))). length (sdu_buf s) \<le> 65535"
    using sq_write_set[of "tu_sdu_queue st" sdu] inv len by (auto simp: tu_inv_def sdu_def)
  ultimately have "tu_inv (st\<lparr>tu_sdu_queue := snd (sq_write (tu_sdu_queue st) sdu)\<rparr>)"
    using inv by (simp add: tu_inv_def)
  then show ?thesis
    unfolding tu_handle_sdu_def sdu_def[symmetric] Let_def
    by (auto simp: tu_handle_changed_buffer_state_def trigger_update_def tu_inv_def split: prod.splits)
qed

lemma tu_discard_sdu_inv:
  assumes inv: "tu_inv st" and sn: "sn \<noteq> STATE_FREE" "sn \<noteq> STATE_DISCARDED"
  shows "tu_inv (fst (tu_discard_sdu defer_ok sn st))"
proof -
  have "sq_wf (snd (sq_try_discard (tu_sdu_queue st) sn))"
    using inv sn by (intro fifo.discard_inv) (simp_all add: tu_inv_def)
  then have "tu_inv (st\<lparr>tu_sdu_queue := snd (sq_try_discard (tu_sdu_queue st) sn)\<rparr>)"
    using inv by (simp add: tu_inv_def)
  then show ?thesis
    by (auto simp: tu_discard_sdu_def tu_handle_changed_buffer_state_def trigger_update_def tu_inv_def
        case_prod_beta Let_def)
qed

lemma tu_get_buffer_state_inv:
  assumes inv: "tu_inv st"
  shows "tu_inv (snd (tu_get_buffer_state st))"
proof -
  have "sq_wf (snd (sq_front (tu_sdu_queue st)))"
    using inv by (intro fifo.front_inv) (simp add: tu_inv_def)
  then show ?thesis
    using inv sq_front_set[of "tu_sdu_queue st"]
    by (auto simp: tu_get_buffer_state_def Let_def tu_inv_def)
qed

lemma tu_update_mac_buffer_state_inv:
  assumes "tu_inv st"
  shows "tu_inv (fst (tu_update_mac_buffer_state st))"
proof -
  have "tu_inv (st\<lparr>tu_pending_buffer_state := False\<rparr>)"
    using assms by (simp add: tu_inv_def)
  from tu_get_buffer_state_inv[OF this] show ?thesis
    by (auto simp: tu_update_mac_buffer_state_def Let_def tu_inv_def split: prod.splits)
qed

section \<open>Properties\<close>

text \<open>The states a transmitter reaches by the calls of the upper layer, the MAC layer and the executor.\<close>

inductive tu_reachable :: "rlc_tx_um_config \<Rightarrow> rlc_tx_um \<Rightarrow> bool" for cfg where
  tu_init: "tx_um_new cfg = Some st \<Longrightarrow> tu_reachable cfg st"
| tu_sdu: "tu_reachable cfg st \<Longrightarrow> length buf \<le> 65535
     \<Longrightarrow> tu_reachable cfg (fst (tu_handle_sdu defer_ok buf is_retx st))"
| tu_discard: "tu_reachable cfg st \<Longrightarrow> sn < STATE_DISCARDED
     \<Longrightarrow> tu_reachable cfg (fst (tu_discard_sdu defer_ok sn st))"
| tu_pull: "tu_reachable cfg st \<Longrightarrow> tu_pull_pdu grant_len st = (pdu, st', ev) \<Longrightarrow> tu_reachable cfg st'"
| tu_bs: "tu_reachable cfg st \<Longrightarrow> tu_reachable cfg (snd (tu_get_buffer_state st))"
| tu_update: "tu_reachable cfg st \<Longrightarrow> tu_reachable cfg (fst (tu_update_mac_buffer_state st))"

lemma tu_reachable_inv:
  assumes "0 < unat (txum_queue_size cfg)"
  shows "tu_reachable cfg st \<Longrightarrow> tu_inv st"
proof (induction rule: tu_reachable.induct)
  case (tu_init st)
  then show ?case
    using sq_new_wf[OF assms] by (auto simp: tx_um_new_def tu_inv_def sdu_default_def sq_new_def split: if_splits)
next
  case (tu_discard st sn defer_ok)
  then have "sn \<noteq> STATE_FREE" "sn \<noteq> STATE_DISCARDED"
    by (auto simp: STATE_FREE_def STATE_DISCARDED_def)
  with tu_discard show ?case by (intro tu_discard_sdu_inv)
qed (auto intro: tu_handle_sdu_inv tu_get_buffer_state_inv tu_update_mac_buffer_state_inv tu_pull_pdu_spec(1))

text \<open>In every reachable state of an unacknowledged-mode transmitter: \<open>TX_Next\<close> is inside the SN
  space, the segmentation offset lies inside the SDU under segmentation (0 if there is none), and the
  queue is well formed; the next PDU never exceeds the grant, and is either nothing, the complete
  queued SDU behind a one-byte header, or the segment that starts at the current offset, with the
  segmentation info of its position.\<close>

theorem um_tx_pull_pdu:
  assumes "0 < unat (txum_queue_size cfg)" and "tu_reachable cfg st" and "tu_pull_pdu grant_len st = (pdu, st', ev)"
  shows "tu_inv st \<and> length pdu \<le> unat grant_len
     \<and> (pdu \<noteq> [] \<longrightarrow> (\<exists>st1. tu_get_sdu st = (True, st1, ev) \<and> sdu_buf (tu_sdu st1) \<noteq> [] \<and> tu_outcome st1 pdu st'))"
  using tu_reachable_inv[OF assms(1,2)] tu_pull_pdu_spec[OF tu_reachable_inv[OF assms(1,2)] assms(3)] by blast

definition tu_demo_cfg :: rlc_tx_um_config where
  "tu_demo_cfg = \<lparr>txum_sn_field_length = um_size12bits, txum_pdcp_sn_len = pdcp_size12bits,
     txum_queue_size = 4, txum_queue_size_bytes = 1000\<rparr>"

definition tu_demo :: rlc_tx_um where
  "tu_demo = fst (tu_handle_sdu True [0x80, 1, 7, 8, 9] False (the (tx_um_new tu_demo_cfg)))"

lemma tu_demo_reachable: "tu_reachable tu_demo_cfg tu_demo"
  unfolding tu_demo_def by (rule tu_sdu, rule tu_init) (simp_all add: tx_um_new_def tu_demo_cfg_def)

theorem um_tx_pull_pdu_witness:
  "case tu_pull_pdu 4 tu_demo of (pdu, st', ev) \<Rightarrow> tu_inv tu_demo \<and> length pdu \<le> unat (4 :: u32)
     \<and> (pdu \<noteq> [] \<longrightarrow> (\<exists>st1. tu_get_sdu tu_demo = (True, st1, ev) \<and> sdu_buf (tu_sdu st1) \<noteq> []
        \<and> tu_outcome st1 pdu st'))"
proof (cases "tu_pull_pdu 4 tu_demo")
  case (fields pdu st' ev)
  show ?thesis
    unfolding fields prod.case by (rule um_tx_pull_pdu[OF _ tu_demo_reachable fields]) (simp add: tu_demo_cfg_def)
qed

end
