(* ===== verification/Circular_Map.thy ===== *)
theory Circular_Map
  imports Rlc_Prelude
begin

text \<open>
  \<open>include/ocudu/adt/circular_map.h\<close> (the vector storage whose size is a power of two) and
  \<open>include/ocudu/support/sdu_window.h\<close>, the container of every RLC transmit and receive window.

  The storage vector of optional key/value pairs is a function from slot numbers to optional pairs;
  only the slots below the capacity are ever addressed.  The window operations return
  \<^const>\<open>None\<close> where the C++ code runs into \<open>ocudu_assertion_failure\<close>.

  The locale \<open>sn_window\<close> states the contract that the RLC entities rely on; its interpretation on
  the operations below is what their proofs use.
\<close>

section \<open>The circular map\<close>

record 'v circular_map =
  cm_data :: "nat \<Rightarrow> (u32 \<times> 'v) option"
  cm_capacity :: nat
  cm_count :: nat

definition cm_init :: "nat \<Rightarrow> 'v circular_map option" where
  "cm_init sz = (if sz AND (sz - 1) = 0
     then Some \<lparr>cm_data = (\<lambda>_. None), cm_capacity = sz, cm_count = 0\<rparr> else None)"

definition get_circular_idx :: "'v circular_map \<Rightarrow> u32 \<Rightarrow> nat" where
  "get_circular_idx m idx = unat idx AND (cm_capacity m - 1)"

definition cm_contains :: "'v circular_map \<Rightarrow> u32 \<Rightarrow> bool" where
  "cm_contains m key = (case cm_data m (get_circular_idx m key) of
       None \<Rightarrow> False | Some kv \<Rightarrow> fst kv = key)"

definition cm_insert :: "'v circular_map \<Rightarrow> u32 \<Rightarrow> 'v \<Rightarrow> bool \<times> 'v circular_map" where
  "cm_insert m key obj = (let idx = get_circular_idx m key in
     case cm_data m idx of
       Some _ \<Rightarrow> (False, m)
     | None \<Rightarrow> (True, m\<lparr>cm_data := (cm_data m)(idx \<mapsto> (key, obj)), cm_count := cm_count m + 1\<rparr>))"

definition cm_erase :: "'v circular_map \<Rightarrow> u32 \<Rightarrow> bool \<times> 'v circular_map" where
  "cm_erase m key = (if \<not> cm_contains m key then (False, m)
     else (True, m\<lparr>cm_data := (cm_data m)(get_circular_idx m key := None),
                   cm_count := cm_count m - 1\<rparr>))"

definition cm_overwrite :: "'v circular_map \<Rightarrow> u32 \<Rightarrow> 'v \<Rightarrow> 'v circular_map" where
  "cm_overwrite m key obj = (let m' = (case cm_data m (get_circular_idx m key) of
       Some kv \<Rightarrow> snd (cm_erase m (fst kv)) | None \<Rightarrow> m)
     in snd (cm_insert m' key obj))"

definition cm_at :: "'v circular_map \<Rightarrow> u32 \<Rightarrow> 'v option" where
  "cm_at m key = (if cm_contains m key
     then map_option snd (cm_data m (get_circular_idx m key)) else None)"

definition cm_clear :: "'v circular_map \<Rightarrow> 'v circular_map" where
  "cm_clear m = m\<lparr>cm_data := (\<lambda>_. None), cm_count := 0\<rparr>"

definition cm_size :: "'v circular_map \<Rightarrow> nat" where
  "cm_size m = cm_count m"

definition cm_empty :: "'v circular_map \<Rightarrow> bool" where
  "cm_empty m \<longleftrightarrow> cm_size m = 0"

definition cm_full :: "'v circular_map \<Rightarrow> bool" where
  "cm_full m \<longleftrightarrow> cm_size m = cm_capacity m"

text \<open>Assignment through the reference that \<open>operator[]\<close> returns.\<close>

definition cm_assign :: "'v circular_map \<Rightarrow> u32 \<Rightarrow> 'v \<Rightarrow> 'v circular_map option" where
  "cm_assign m key obj = (if cm_contains m key
     then Some (m\<lparr>cm_data := (cm_data m)(get_circular_idx m key \<mapsto> (key, obj))\<rparr>) else None)"

section \<open>The SDU window\<close>

definition has_sn :: "'v circular_map \<Rightarrow> u32 \<Rightarrow> bool" where
  "has_sn w sn = cm_contains w sn"

definition add_sn :: "'v circular_map \<Rightarrow> u32 \<Rightarrow> 'v \<Rightarrow> 'v circular_map option" where
  "add_sn w sn dflt = (if has_sn w sn then None else Some (cm_overwrite w sn dflt))"

definition remove_sn :: "'v circular_map \<Rightarrow> u32 \<Rightarrow> 'v circular_map option" where
  "remove_sn w sn = (if \<not> has_sn w sn then None else Some (snd (cm_erase w sn)))"

definition win_at :: "'v circular_map \<Rightarrow> u32 \<Rightarrow> 'v option" where
  "win_at w sn = cm_at w sn"

definition win_set :: "'v circular_map \<Rightarrow> u32 \<Rightarrow> 'v \<Rightarrow> 'v circular_map option" where
  "win_set w sn v = cm_assign w sn v"

section \<open>Well-formed maps\<close>

definition cm_slots :: "'v circular_map \<Rightarrow> nat set" where
  "cm_slots m = {i. cm_data m i \<noteq> None}"

definition cm_wf :: "nat \<Rightarrow> 'v circular_map \<Rightarrow> bool" where
  "cm_wf k m \<longleftrightarrow> cm_capacity m = 2 ^ k \<and> cm_slots m \<subseteq> {..<2 ^ k}
     \<and> cm_count m = card (cm_slots m)
     \<and> (\<forall>i key v. cm_data m i = Some (key, v) \<longrightarrow> get_circular_idx m key = i)"

text \<open>The bit mask computes the remainder by the capacity.\<close>

lemma and_mask_nat: "(a :: nat) AND (2 ^ k - 1) = a mod 2 ^ k"
  by (simp only: mask_eq_exp_minus_1[symmetric] take_bit_eq_mask[symmetric] take_bit_eq_mod)

lemmas and_mask_nat' = and_mask_nat[unfolded One_nat_def]

lemma get_circular_idx_upd [simp]:
  "get_circular_idx (m\<lparr>cm_data := d\<rparr>) key = get_circular_idx m key"
  "get_circular_idx (m\<lparr>cm_count := c\<rparr>) key = get_circular_idx m key"
  by (simp_all add: get_circular_idx_def)

lemma circular_idx_mod:
  "cm_capacity m = 2 ^ k \<Longrightarrow> get_circular_idx m key = unat key mod 2 ^ k"
  by (simp add: get_circular_idx_def and_mask_nat')

lemma cm_init_wf: "cm_init (2 ^ k) = Some m \<Longrightarrow> cm_wf k m"
  by (auto simp: cm_init_def cm_wf_def cm_slots_def split: if_splits)

lemma cm_init_pow2: "\<exists>m. cm_init (2 ^ k) = Some m \<and> cm_wf k m \<and> (\<forall>sn. cm_at m sn = None)"
  by (simp add: cm_init_def and_mask_nat' cm_wf_def cm_slots_def cm_at_def cm_contains_def)

lemma cm_slots_finite: "cm_wf k m \<Longrightarrow> finite (cm_slots m)"
  unfolding cm_wf_def using finite_subset by blast

lemma cm_at_None: "cm_at m key = None \<longleftrightarrow> \<not> cm_contains m key"
  by (auto simp: cm_at_def cm_contains_def split: option.splits)

lemma cm_contains_slot: "cm_contains m key \<longleftrightarrow> (\<exists>v. cm_data m (get_circular_idx m key) = Some (key, v))"
  by (auto simp: cm_contains_def split: option.splits)

lemma cm_at_Some: "cm_at m key = Some v \<longleftrightarrow> cm_data m (get_circular_idx m key) = Some (key, v)"
  by (auto simp: cm_at_def cm_contains_def split: option.splits)

lemma get_circular_idx_cong:
  "cm_capacity m' = cm_capacity m \<Longrightarrow> get_circular_idx m' key = get_circular_idx m key"
  by (simp add: get_circular_idx_def)

lemma cm_erase_wf:
  assumes "cm_wf k m"
  shows "cm_wf k (snd (cm_erase m key))"
proof (cases "cm_contains m key")
  case True
  let ?i = "get_circular_idx m key"
  let ?m = "snd (cm_erase m key)"
  have in_slots: "?i \<in> cm_slots m"
    using True by (auto simp: cm_contains_slot cm_slots_def)
  have slots: "cm_slots ?m = cm_slots m - {?i}"
    using True by (auto simp: cm_erase_def cm_slots_def)
  have cap: "cm_capacity ?m = cm_capacity m" and cnt: "cm_count ?m = cm_count m - 1"
    using True by (simp_all add: cm_erase_def)
  have "card (cm_slots ?m) = card (cm_slots m) - 1"
    using slots in_slots cm_slots_finite[OF assms] by simp
  moreover have "\<forall>i key' v. cm_data ?m i = Some (key', v) \<longrightarrow> get_circular_idx ?m key' = i"
    using assms True cap
    by (auto simp: cm_wf_def cm_erase_def get_circular_idx_def split: if_splits)
  ultimately show ?thesis
    using assms slots cap cnt by (auto simp: cm_wf_def)
next
  case False
  then show ?thesis using assms by (simp add: cm_erase_def)
qed

lemma cm_insert_wf:
  assumes "cm_wf k m"
  shows "cm_wf k (snd (cm_insert m key v))"
proof (cases "cm_data m (get_circular_idx m key)")
  case None
  let ?i = "get_circular_idx m key"
  let ?m = "snd (cm_insert m key v)"
  have slots: "cm_slots ?m = insert ?i (cm_slots m)" and fresh: "?i \<notin> cm_slots m"
    using None by (auto simp: cm_insert_def cm_slots_def Let_def)
  have cap: "cm_capacity ?m = cm_capacity m" and cnt: "cm_count ?m = cm_count m + 1"
    using None by (simp_all add: cm_insert_def Let_def)
  have "?i < 2 ^ k"
    using assms by (simp add: cm_wf_def circular_idx_mod)
  moreover have "card (cm_slots ?m) = card (cm_slots m) + 1"
    using slots fresh cm_slots_finite[OF assms] by simp
  moreover have "\<forall>i key' v'. cm_data ?m i = Some (key', v') \<longrightarrow> get_circular_idx ?m key' = i"
    using assms None cap
    by (auto simp: cm_wf_def cm_insert_def get_circular_idx_def Let_def split: if_splits)
  ultimately show ?thesis
    using assms slots cap cnt by (auto simp: cm_wf_def)
next
  case (Some kv)
  then show ?thesis using assms by (simp add: cm_insert_def Let_def)
qed

lemma cm_overwrite_wf:
  assumes "cm_wf k m"
  shows "cm_wf k (cm_overwrite m key v)"
  using assms by (auto simp: cm_overwrite_def Let_def intro!: cm_insert_wf cm_erase_wf
      split: option.splits)

lemma cm_assign_wf:
  assumes "cm_wf k m" and "cm_assign m key v = Some m'"
  shows "cm_wf k m'"
proof -
  have m': "m' = m\<lparr>cm_data := (cm_data m)(get_circular_idx m key \<mapsto> (key, v))\<rparr>"
    and c: "cm_contains m key"
    using assms(2) by (auto simp: cm_assign_def split: if_splits)
  have "cm_slots m' = cm_slots m"
    using c by (auto simp: m' cm_slots_def cm_contains_slot)
  then show ?thesis
    using assms(1) by (auto simp: m' cm_wf_def get_circular_idx_def split: if_splits)
qed

text \<open>What a lookup returns after each operation.\<close>

lemma cm_at_erase:
  assumes "cm_wf k m"
  shows "cm_at (snd (cm_erase m key)) key' = (if key' = key then None else cm_at m key')"
proof (cases "cm_contains m key")
  case True
  then show ?thesis by (auto simp: cm_at_def cm_contains_slot cm_erase_def)
next
  case False
  then show ?thesis by (auto simp: cm_erase_def cm_at_None)
qed

lemma cm_at_overwrite:
  assumes "cm_wf k m"
  shows "cm_at (cm_overwrite m key v) key' = (if key' = key then Some v
     else if get_circular_idx m key' = get_circular_idx m key then None else cm_at m key')"
proof (cases "cm_data m (get_circular_idx m key)")
  case None
  then show ?thesis
    by (auto simp: cm_overwrite_def cm_insert_def cm_at_def cm_contains_slot get_circular_idx_def)
next
  case (Some kv)
  then obtain key0 v0 where kv: "cm_data m (get_circular_idx m key) = Some (key0, v0)"
    by (cases kv) auto
  then have idx0: "get_circular_idx m key0 = get_circular_idx m key"
    using assms by (auto simp: cm_wf_def)
  then have "cm_contains m key0"
    using kv by (simp add: cm_contains_slot)
  then show ?thesis
    using kv idx0
    by (auto simp: cm_overwrite_def cm_erase_def cm_insert_def cm_at_def cm_contains_slot
        get_circular_idx_def)
qed

lemma cm_at_assign:
  assumes "cm_assign m key v = Some m'"
  shows "cm_at m' key' = (if key' = key then Some v else cm_at m key')"
  using assms
  by (auto simp: cm_assign_def cm_at_def cm_contains_slot get_circular_idx_def split: if_splits)

lemma cm_overwrite_capacity [simp]: "cm_capacity (cm_overwrite m key v) = cm_capacity m"
  by (simp add: cm_overwrite_def cm_insert_def cm_erase_def Let_def split: option.splits)

lemma cm_erase_capacity [simp]: "cm_capacity (snd (cm_erase m key)) = cm_capacity m"
  by (simp add: cm_erase_def)

section \<open>The contract of a window\<close>

text \<open>
  A window of \<open>2^k\<close> slots: two sequence numbers can be held together unless they are equal modulo
  the number of slots.  \<open>add\<close> and \<open>remove\<close> are partial: adding a number that is present and
  removing one that is absent is a failed assertion.
\<close>

locale sn_window =
  fixes invar :: "nat \<Rightarrow> 'w \<Rightarrow> bool"
    and lookup :: "'w \<Rightarrow> u32 \<Rightarrow> 'v option"
    and add :: "'w \<Rightarrow> u32 \<Rightarrow> 'v \<Rightarrow> 'w option"
    and upd :: "'w \<Rightarrow> u32 \<Rightarrow> 'v \<Rightarrow> 'w option"
    and remove :: "'w \<Rightarrow> u32 \<Rightarrow> 'w option"
    and nof :: "'w \<Rightarrow> nat"
  assumes add_fresh: "invar k w \<Longrightarrow> lookup w sn = None \<Longrightarrow>
        \<exists>w'. add w sn v = Some w' \<and> invar k w' \<and> lookup w' sn = Some v \<and>
          (\<forall>sn'. sn' \<noteq> sn \<longrightarrow> lookup w' sn' =
             (if unat sn' mod 2 ^ k = unat sn mod 2 ^ k then None else lookup w sn'))"
    and add_present: "invar k w \<Longrightarrow> lookup w sn \<noteq> None \<Longrightarrow> add w sn v = None"
    and upd_present: "invar k w \<Longrightarrow> lookup w sn \<noteq> None \<Longrightarrow>
        \<exists>w'. upd w sn v = Some w' \<and> invar k w' \<and> lookup w' = (lookup w)(sn \<mapsto> v)"
    and upd_absent: "invar k w \<Longrightarrow> lookup w sn = None \<Longrightarrow> upd w sn v = None"
    and remove_present: "invar k w \<Longrightarrow> lookup w sn \<noteq> None \<Longrightarrow>
        \<exists>w'. remove w sn = Some w' \<and> invar k w' \<and> lookup w' = (lookup w)(sn := None)"
    and remove_absent: "invar k w \<Longrightarrow> lookup w sn = None \<Longrightarrow> remove w sn = None"
    and nof_card: "invar k w \<Longrightarrow> nof w = card (dom (lookup w))"
    and no_collision: "invar k w \<Longrightarrow> lookup w sn \<noteq> None \<Longrightarrow> lookup w sn' \<noteq> None \<Longrightarrow>
        unat sn mod 2 ^ k = unat sn' mod 2 ^ k \<Longrightarrow> sn = sn'"
begin

text \<open>Within any set of numbers that do not collide the window is a finite map.\<close>

lemma add_map_update:
  assumes "invar k w" and "lookup w sn = None"
    and "\<And>sn'. lookup w sn' \<noteq> None \<Longrightarrow> unat sn' mod 2 ^ k \<noteq> unat sn mod 2 ^ k"
  shows "\<exists>w'. add w sn v = Some w' \<and> invar k w' \<and> lookup w' = (lookup w)(sn \<mapsto> v)"
proof -
  obtain w' where w': "add w sn v = Some w'" "invar k w'" "lookup w' sn = Some v"
    and other: "\<forall>sn'. sn' \<noteq> sn \<longrightarrow> lookup w' sn' =
             (if unat sn' mod 2 ^ k = unat sn mod 2 ^ k then None else lookup w sn')"
    using add_fresh[OF assms(1,2)] by blast
  have "lookup w' x = ((lookup w)(sn \<mapsto> v)) x" for x
    using w'(3) other assms(3) by (metis fun_upd_apply)
  then have "lookup w' = (lookup w)(sn \<mapsto> v)"
    by (rule ext)
  with w' show ?thesis by blast
qed

lemma remove_then_absent:
  "invar k w \<Longrightarrow> remove w sn = Some w' \<Longrightarrow> remove w' sn = None"
  using remove_present remove_absent
  by (metis fun_upd_same option.distinct(1) option.inject)

lemma dom_finite: "invar k w \<Longrightarrow> finite (dom (lookup w))"
proof -
  assume inv: "invar k w"
  have "inj_on (\<lambda>sn. unat sn mod 2 ^ k) (dom (lookup w))"
    using no_collision[OF inv] by (auto simp: inj_on_def dom_def)
  moreover have "(\<lambda>sn. unat sn mod 2 ^ k) ` dom (lookup w) \<subseteq> {..<2 ^ k}"
    by auto
  ultimately show ?thesis
    by (meson finite_imageD finite_lessThan finite_subset)
qed

lemma nof_bound: "invar k w \<Longrightarrow> nof w \<le> 2 ^ k"
proof -
  assume inv: "invar k w"
  have "inj_on (\<lambda>sn. unat sn mod 2 ^ k) (dom (lookup w))"
    using no_collision[OF inv] by (auto simp: inj_on_def dom_def)
  moreover have "(\<lambda>sn. unat sn mod 2 ^ k) ` dom (lookup w) \<subseteq> {..<2 ^ k}"
    by auto
  ultimately have "card (dom (lookup w)) \<le> card {..<(2::nat) ^ k}"
    by (meson card_inj_on_le finite_lessThan)
  with nof_card[OF inv] show ?thesis by simp
qed

end

lemma dom_cm_at_bij:
  assumes "cm_wf k m"
  shows "bij_betw (get_circular_idx m) (dom (cm_at m)) (cm_slots m)"
proof (rule bij_betwI')
  fix x y assume "x \<in> dom (cm_at m)" "y \<in> dom (cm_at m)"
  then show "(get_circular_idx m x = get_circular_idx m y) = (x = y)"
    by (auto simp: cm_at_Some)
next
  fix x assume "x \<in> dom (cm_at m)"
  then show "get_circular_idx m x \<in> cm_slots m"
    by (auto simp: cm_at_Some cm_slots_def)
next
  fix i assume "i \<in> cm_slots m"
  then obtain key v where "cm_data m i = Some (key, v)"
    by (auto simp: cm_slots_def)
  then show "\<exists>x\<in>dom (cm_at m). i = get_circular_idx m x"
    using assms by (intro bexI[of _ key]) (force simp: cm_wf_def cm_at_Some dom_def)+
qed

interpretation win: sn_window cm_wf win_at add_sn win_set remove_sn cm_size
proof (unfold_locales, goal_cases)
  case (1 k w sn v)
  then have "add_sn w sn v = Some (cm_overwrite w sn v)"
    by (simp add: add_sn_def has_sn_def win_at_def cm_at_None)
  moreover have "cm_capacity w = 2 ^ k"
    using 1 by (simp add: cm_wf_def)
  ultimately show ?case
    using 1 by (simp add: win_at_def cm_at_overwrite[of k] cm_overwrite_wf circular_idx_mod[of w k])
next
  case (2 k w sn v)
  then show ?case by (simp add: add_sn_def has_sn_def win_at_def cm_at_None)
next
  case (3 k w sn v)
  then obtain w' where w': "cm_assign w sn v = Some w'"
    by (auto simp: win_at_def cm_at_None cm_assign_def)
  then have "cm_at w' = (cm_at w)(sn \<mapsto> v)"
    using cm_at_assign by fastforce
  with 3 w' show ?case
    by (auto simp: win_set_def win_at_def[abs_def] cm_assign_wf)
next
  case (4 k w sn v)
  then show ?case by (simp add: win_set_def cm_assign_def win_at_def cm_at_None)
next
  case (5 k w sn)
  then have "remove_sn w sn = Some (snd (cm_erase w sn))"
    by (auto simp: remove_sn_def has_sn_def win_at_def cm_at_None)
  moreover have "cm_at (snd (cm_erase w sn)) = (cm_at w)(sn := None)"
    using cm_at_erase[OF 5(1)] by fastforce
  ultimately show ?case
    using 5 by (simp add: win_at_def[abs_def] cm_erase_wf)
next
  case (6 k w sn)
  then show ?case by (simp add: remove_sn_def has_sn_def win_at_def cm_at_None)
next
  case (7 k w)
  then show ?case
    using bij_betw_same_card[OF dom_cm_at_bij[OF 7]]
    by (simp add: cm_size_def cm_wf_def win_at_def[abs_def])
next
  case (8 k w sn sn')
  then have "get_circular_idx w sn = get_circular_idx w sn'"
    by (metis cm_wf_def circular_idx_mod)
  moreover obtain v v' where "cm_at w sn = Some v" "cm_at w sn' = Some v'"
    using 8 by (auto simp: win_at_def)
  ultimately show ?case
    by (simp add: cm_at_Some)
qed

lemma has_sn_win_at: "has_sn w sn \<longleftrightarrow> win_at w sn \<noteq> None"
  by (simp add: has_sn_def win_at_def cm_at_None)

section \<open>Properties\<close>

definition win_demo :: "nat circular_map" where
  "win_demo = the (cm_init (2 ^ 3))"

lemma win_demo_wf: "cm_wf 3 win_demo" "win_at win_demo sn = None"
proof -
  obtain m :: "nat circular_map" where "cm_init (2 ^ 3) = Some m" "cm_wf 3 m" "\<forall>sn. cm_at m sn = None"
    using cm_init_pow2 by blast
  then show "cm_wf 3 win_demo" "win_at win_demo sn = None"
    by (simp_all add: win_demo_def win_at_def)
qed

text \<open>The power-of-two circular map with its bit-mask index behaves as a finite map: adding a
  sequence number whose slot is free, assigning to and removing one that is present succeed and
  change the lookup at that number only, the slots stay consistent, and the element counter is the
  number of sequence numbers held.\<close>

theorem window_is_finite_map:
  assumes "cm_wf k w" and "cm_wf k w2" and "win_at w2 sn \<noteq> None"
    and "\<And>sn'. win_at w sn' \<noteq> None \<Longrightarrow> unat sn' mod 2 ^ k \<noteq> unat sn mod 2 ^ k"
  shows "(\<exists>w'. add_sn w sn v = Some w' \<and> cm_wf k w' \<and> win_at w' = (win_at w)(sn \<mapsto> v)
         \<and> cm_size w' = cm_size w + 1)
     \<and> (\<exists>w'. win_set w2 sn v = Some w' \<and> cm_wf k w' \<and> win_at w' = (win_at w2)(sn \<mapsto> v)
         \<and> cm_size w' = cm_size w2)
     \<and> (\<exists>w'. remove_sn w2 sn = Some w' \<and> cm_wf k w' \<and> win_at w' = (win_at w2)(sn := None)
         \<and> cm_size w' + 1 = cm_size w2)"
proof -
  have fresh: "win_at w sn = None"
    using assms(4) by blast
  have card: "\<And>u. cm_wf k u \<Longrightarrow> cm_size u = card (dom (win_at u))" "\<And>u. cm_wf k u \<Longrightarrow> finite (dom (win_at u))"
    using win.nof_card win.dom_finite by blast+
  obtain w' where w': "add_sn w sn v = Some w'" "cm_wf k w'" "win_at w' = (win_at w)(sn \<mapsto> v)"
    using win.add_map_update[OF assms(1) fresh assms(4)] by blast
  moreover have "cm_size w' = cm_size w + 1"
    using card(1)[OF w'(2)] card[OF assms(1)] w'(3) fresh by (simp add: card_insert_disjoint domIff)
  moreover obtain w3 where w3: "win_set w2 sn v = Some w3" "cm_wf k w3" "win_at w3 = (win_at w2)(sn \<mapsto> v)"
    using win.upd_present[OF assms(2,3)] by blast
  moreover have "cm_size w3 = cm_size w2"
    using card(1)[OF w3(2)] card(1)[OF assms(2)] w3(3) assms(3) by (simp add: domIff insert_absorb)
  moreover obtain w4 where w4: "remove_sn w2 sn = Some w4" "cm_wf k w4" "win_at w4 = (win_at w2)(sn := None)"
    using win.remove_present[OF assms(2,3)] by blast
  moreover have "cm_size w4 + 1 = cm_size w2"
    using card(1)[OF w4(2)] card[OF assms(2)] w4(3) assms(3) card_Suc_Diff1[of "dom (win_at w2)" sn]
    by (simp add: domIff)
  ultimately show ?thesis by blast
qed

theorem window_is_finite_map_witness:
  "\<exists>w2 :: nat circular_map. (\<exists>w'. add_sn win_demo 10 7 = Some w' \<and> cm_wf 3 w' \<and> win_at w' = (win_at win_demo)(10 \<mapsto> 7)
         \<and> cm_size w' = cm_size win_demo + 1)
     \<and> (\<exists>w'. win_set w2 10 7 = Some w' \<and> cm_wf 3 w' \<and> win_at w' = (win_at w2)(10 \<mapsto> 7)
         \<and> cm_size w' = cm_size w2)
     \<and> (\<exists>w'. remove_sn w2 10 = Some w' \<and> cm_wf 3 w' \<and> win_at w' = (win_at w2)(10 := None)
         \<and> cm_size w' + 1 = cm_size w2)"
proof -
  obtain w2 where w2: "add_sn win_demo 10 1 = Some w2" "cm_wf 3 w2" "win_at w2 = (win_at win_demo)(10 \<mapsto> 1)"
    using win.add_map_update[OF win_demo_wf(1), of 10 1] win_demo_wf(2) by auto
  show ?thesis
    by (rule exI[of _ w2], rule window_is_finite_map) (use w2 win_demo_wf in simp_all)
qed

end
