(* ===== verification/Rlc_Rx_Um.thy ===== *)
theory Rlc_Rx_Um
  imports Circular_Map Rlc_Um_Pdu Rlc_Segments
begin

text \<open>
  The receiving side of unacknowledged mode, \<open>lib/rlc/rlc_rx_um_entity.cpp\<close> and
  \<open>lib/rlc/rlc_rx_um_entity.h\<close>: the reassembly window, its three state variables and the
  reassembly timer.

  The handlers return the SDUs delivered to the upper layer.  A failed assertion of the window
  is \<^const>\<open>None\<close>.  \<open>pool_ok\<close> says whether the byte buffer pool can supply the chain an SDU is
  delivered in: if it cannot, the SDU is dropped.  The timer is a flag; its expiry calls
  \<open>on_expired_reassembly_timer\<close>.
\<close>

section \<open>State\<close>

record rlc_rx_um_sdu_info =
  ui_fully_received :: bool
  ui_has_gap :: bool
  ui_segments :: "rlc_rx_sdu_segment list"

definition um_info_default :: rlc_rx_um_sdu_info where
  "um_info_default = \<lparr>ui_fully_received = False, ui_has_gap = False, ui_segments = []\<rparr>"

record rlc_rx_um =
  ru_cfg :: rlc_rx_um_config
  ru_next_reassembly :: u32
  ru_timer_trigger :: u32
  ru_next_highest :: u32
  ru_window :: "rlc_rx_um_sdu_info circular_map"
  ru_timer_running :: bool

abbreviation ru_size :: "rlc_rx_um \<Rightarrow> rlc_um_sn_size" where
  "ru_size st \<equiv> rxum_sn_field_length (ru_cfg st)"

definition rx_um_new :: "rlc_rx_um_config \<Rightarrow> rlc_rx_um option" where
  "rx_um_new cfg = do {
     w \<leftarrow> cm_init (unat (window_size (um_to_number (rxum_sn_field_length cfg))));
     Some \<lparr>ru_cfg = cfg, ru_next_reassembly = 0, ru_timer_trigger = 0, ru_next_highest = 0,
       ru_window = w, ru_timer_running = False\<rparr>
   }"

text \<open>\<open>rx_mod_base\<close> for a given upper edge of the window, and the two window tests.\<close>

definition um_mod_base :: "rlc_um_sn_size \<Rightarrow> u32 \<Rightarrow> u32 \<Rightarrow> u32" where
  "um_mod_base s highest x =
     (x - highest - window_size (um_to_number s)) mod cardinality (um_to_number s)"

definition um_in_window :: "rlc_um_sn_size \<Rightarrow> u32 \<Rightarrow> u32 \<Rightarrow> bool" where
  "um_in_window s highest sn \<longleftrightarrow>
     um_mod_base s highest (highest - window_size (um_to_number s)) \<le> um_mod_base s highest sn
     \<and> um_mod_base s highest sn < um_mod_base s highest highest"

definition sn_in_reassembly_window :: "rlc_rx_um \<Rightarrow> u32 \<Rightarrow> bool" where
  "sn_in_reassembly_window st sn = um_in_window (ru_size st) (ru_next_highest st) sn"

definition sn_invalid_for_rx_buffer :: "rlc_rx_um \<Rightarrow> u32 \<Rightarrow> bool" where
  "sn_invalid_for_rx_buffer st sn \<longleftrightarrow>
     um_mod_base (ru_size st) (ru_next_highest st) (ru_next_highest st - window_size (um_to_number (ru_size st)))
       \<le> um_mod_base (ru_size st) (ru_next_highest st) sn
     \<and> um_mod_base (ru_size st) (ru_next_highest st) sn
       < um_mod_base (ru_size st) (ru_next_highest st) (ru_next_reassembly st)"

text \<open>The base of the comparisons as an offset.\<close>

definition um_off :: "rlc_um_sn_size \<Rightarrow> u32 \<Rightarrow> u32 \<Rightarrow> nat" where
  "um_off s highest x = sn_off (um_to_number s) (highest + window_size (um_to_number s)) x"

lemma um_to_number_32: "um_to_number s \<le> 32" "um_to_number s < 32" "0 < um_to_number s"
  by (cases s; simp)+

lemma unat_um_mod_base: "unat (um_mod_base s highest x) = um_off s highest x"
  by (simp add: um_mod_base_def um_off_def mod_cardinality sn_off_def algebra_simps)

definition um_W :: "rlc_um_sn_size \<Rightarrow> nat" where
  "um_W s = 2 ^ (um_to_number s - 1)"

lemma um_W: "0 < um_W s" "2 * um_W s = 2 ^ um_to_number s" "unat (window_size (um_to_number s)) = um_W s"
    "um_W s < 2 ^ um_to_number s"
  by (cases s; simp add: um_W_def window_size_def cardinality_def)+

lemma um_off_edges: "um_off s h h = um_W s" "um_off s h (h - window_size (um_to_number s)) = 0"
  by (cases s; simp add: um_off_def sn_off_def um_W_def window_size_def cardinality_def)+

lemma um_off_less: "um_off s h x < 2 ^ um_to_number s"
  by (simp add: um_off_def sn_off_less)

lemma um_in_window_off: "um_in_window s h sn \<longleftrightarrow> um_off s h sn < um_W s"
  by (simp add: um_in_window_def word_le_nat_alt word_less_nat_alt unat_um_mod_base um_off_edges)

lemma um_invalid_off:
  "sn_invalid_for_rx_buffer st sn \<longleftrightarrow>
     um_off (ru_size st) (ru_next_highest st) sn < um_off (ru_size st) (ru_next_highest st) (ru_next_reassembly st)"
  by (simp add: sn_invalid_for_rx_buffer_def word_le_nat_alt word_less_nat_alt unat_um_mod_base um_off_edges)

definition um_inc :: "rlc_um_sn_size \<Rightarrow> u32 \<Rightarrow> u32" where
  "um_inc s sn = (sn + 1) mod cardinality (um_to_number s)"

lemma um_off_inc: "um_off s h (um_inc s sn) = (um_off s h sn + 1) mod 2 ^ um_to_number s"
  by (simp add: um_off_def um_inc_def inc_mod_cardinality sn_off_inc_mod um_to_number_32)

lemma um_off_inc_below: "um_off s h sn < um_W s \<Longrightarrow> um_off s h (um_inc s sn) = um_off s h sn + 1"
  using um_W[of s] by (simp add: um_off_inc)

section \<open>Handlers\<close>

definition ru_handle_segment_data_sdu ::
    "rlc_um_pdu_header \<Rightarrow> bytes \<Rightarrow> rlc_rx_um \<Rightarrow> rlc_rx_um option" where
  "ru_handle_segment_data_sdu header payload st =
     (if umh_si header = full_sdu then Some st
      else let sn = ucast (umh_sn header) in do {
        w \<leftarrow> (if has_sn (ru_window st) sn then Some (ru_window st)
              else add_sn (ru_window st) sn um_info_default);
        rx_sdu \<leftarrow> win_at w sn;
        let segment = \<lparr>seg_si = umh_si header, seg_so = umh_so header, seg_payload = payload\<rparr>;
        let segments = snd (store_segment (ui_segments rx_sdu) segment);
        let (gap, full) = segment_inventory segments;
        w \<leftarrow> win_set w sn \<lparr>ui_fully_received = full, ui_has_gap = gap, ui_segments = segments\<rparr>;
        Some (st\<lparr>ru_window := w\<rparr>)
      })"

text \<open>
  The loop that moves \<open>rx_next_reassembly\<close> over the completely received SDUs and drops them from
  the window; the same loop body follows the clean-up of the window.
\<close>

function um_advance_loop :: "rlc_um_sn_size \<Rightarrow> u32 \<Rightarrow> u32 \<Rightarrow> rlc_rx_um_sdu_info circular_map
     \<Rightarrow> (u32 \<times> rlc_rx_um_sdu_info circular_map) option" where
  "um_advance_loop s highest sn_upd w =
     (if um_mod_base s highest sn_upd < um_mod_base s highest highest
      then (case win_at w sn_upd of None \<Rightarrow> Some (sn_upd, w)
        | Some info \<Rightarrow> if \<not> ui_fully_received info then Some (sn_upd, w)
            else (case remove_sn w sn_upd of None \<Rightarrow> None
              | Some w' \<Rightarrow> um_advance_loop s highest (um_inc s sn_upd) w'))
      else Some (sn_upd, w))"
  by pat_completeness auto
termination
proof (relation "measure (\<lambda>(s, h, sn, _). um_W s - um_off s h sn)", goal_cases)
  case (2 s h sn w info w')
  then have "um_off s h sn < um_W s"
    by (simp add: word_less_nat_alt unat_um_mod_base um_off_edges)
  then show ?case by (simp add: um_off_inc_below)
qed simp

text \<open>Drop everything from \<open>rx_next_reassembly\<close> up to the lower edge of the window.\<close>

function um_clean_loop :: "rlc_um_sn_size \<Rightarrow> u32 \<Rightarrow> u32 \<Rightarrow> rlc_rx_um_sdu_info circular_map
     \<Rightarrow> (u32 \<times> rlc_rx_um_sdu_info circular_map) option" where
  "um_clean_loop s highest sn_upd w =
     (if um_in_window s highest sn_upd then Some (sn_upd, w)
      else if has_sn w sn_upd
      then (case remove_sn w sn_upd of None \<Rightarrow> None
        | Some w' \<Rightarrow> um_clean_loop s highest (um_inc s sn_upd) w')
      else um_clean_loop s highest (um_inc s sn_upd) w)"
  by pat_completeness auto
termination
proof (relation "measure (\<lambda>(s, h, sn, _). if um_in_window s h sn then 0
    else 2 ^ um_to_number s - um_off s h sn)", goal_cases)
  case (2 s h sn w w')
  then show ?case
    using um_off_less[of s h sn] um_W(1)[of s]
    by (cases "um_off s h sn + 1 = 2 ^ um_to_number s") (auto simp: um_in_window_off um_off_inc)
next
  case (3 s h sn w)
  then show ?case
    using um_off_less[of s h sn] um_W(1)[of s]
    by (cases "um_off s h sn + 1 = 2 ^ um_to_number s") (auto simp: um_in_window_off um_off_inc)
qed simp

declare um_advance_loop.simps [simp del] um_clean_loop.simps [simp del]

text \<open>Actions when a PDU was placed in the reception buffer.\<close>

definition um_reassemble_sdu :: "bool \<Rightarrow> rlc_rx_um_sdu_info \<Rightarrow> bytes option" where
  "um_reassemble_sdu pool_ok info =
     (if \<not> ui_fully_received info then None
      else if \<not> pool_ok then None else Some (chain_segments (ui_segments info)))"

definition ru_deliver :: "bool \<Rightarrow> u32 \<Rightarrow> rlc_rx_um_sdu_info \<Rightarrow> rlc_rx_um \<Rightarrow> (rlc_rx_um \<times> bytes list) option" where
  "ru_deliver pool_ok sn sdu_info st = do {
     let out = (case um_reassemble_sdu pool_ok sdu_info of None \<Rightarrow> [] | Some sdu \<Rightarrow> [sdu]);
     w \<leftarrow> win_set (ru_window st) sn (sdu_info\<lparr>ui_segments := []\<rparr>);
     if sn = ru_next_reassembly st then do {
       (sn_upd, w) \<leftarrow> um_advance_loop (ru_size st) (ru_next_highest st)
         (ru_next_reassembly st mod cardinality (um_to_number (ru_size st))) w;
       Some (st\<lparr>ru_window := w, ru_next_reassembly := sn_upd\<rparr>, out)
     } else Some (st\<lparr>ru_window := w\<rparr>, out)
   }"

definition ru_outside :: "u32 \<Rightarrow> rlc_rx_um \<Rightarrow> rlc_rx_um option" where
  "ru_outside sn st = do {
     let highest = um_inc (ru_size st) sn;
     (sn_upd, w) \<leftarrow> um_clean_loop (ru_size st) highest
       (ru_next_reassembly st mod cardinality (um_to_number (ru_size st))) (ru_window st);
     (sn_upd, w) \<leftarrow> um_advance_loop (ru_size st) highest sn_upd w;
     Some (st\<lparr>ru_next_highest := highest, ru_window := w, ru_next_reassembly := sn_upd\<rparr>)
   }"

definition ru_placed :: "bool \<Rightarrow> u32 \<Rightarrow> rlc_rx_um \<Rightarrow> (rlc_rx_um \<times> bytes list) option" where
  "ru_placed pool_ok sn st = (case win_at (ru_window st) sn of
       Some info \<Rightarrow> if ui_fully_received info then ru_deliver pool_ok sn info st
         else if \<not> sn_in_reassembly_window st sn then map_option (\<lambda>st'. (st', [])) (ru_outside sn st)
         else Some (st, [])
     | None \<Rightarrow> if \<not> sn_in_reassembly_window st sn then map_option (\<lambda>st'. (st', [])) (ru_outside sn st)
         else Some (st, []))"

definition ru_stop_reassembly_timer :: "rlc_rx_um \<Rightarrow> rlc_rx_um" where
  "ru_stop_reassembly_timer st = (if \<not> ru_timer_running st then st
     else let stop = (ru_timer_trigger st \<le> ru_next_reassembly st
         \<or> \<not> sn_in_reassembly_window st (ru_timer_trigger st) \<and> ru_timer_trigger st \<noteq> ru_next_highest st
         \<or> ru_next_highest st = ru_next_reassembly st + 1
             \<and> (case win_at (ru_window st) (ru_next_highest st) of None \<Rightarrow> False
                | Some info \<Rightarrow> \<not> ui_has_gap info))
       in if stop then st\<lparr>ru_timer_running := False\<rparr> else st)"

definition ru_restart :: "rlc_rx_um \<Rightarrow> bool" where
  "ru_restart st =
     (let base = um_mod_base (ru_size st) (ru_next_highest st)
      in base (ru_next_highest st) > base (ru_next_reassembly st + 1)
         \<or> base (ru_next_highest st) = base (ru_next_reassembly st + 1)
            \<and> (case win_at (ru_window st) (ru_next_highest st) of None \<Rightarrow> False
               | Some info \<Rightarrow> ui_has_gap info))"

text \<open>
  The constructor sets the duration of the timer only if \<open>t_reassembly > 0\<close>; running a timer without a
  duration fails an assertion.
\<close>

definition ru_timer_set :: "rlc_rx_um \<Rightarrow> bool" where
  "ru_timer_set st \<longleftrightarrow> 0 < rxum_t_reassembly (ru_cfg st)"

definition ru_start_reassembly_timer :: "rlc_rx_um \<Rightarrow> rlc_rx_um option" where
  "ru_start_reassembly_timer st =
     (if ru_restart st
      then if \<not> ru_timer_set st then None
        else Some (st\<lparr>ru_timer_running := True, ru_timer_trigger := ru_next_highest st\<rparr>)
      else Some st)"

definition ru_handle_pdu :: "bool \<Rightarrow> bytes \<Rightarrow> rlc_rx_um \<Rightarrow> (rlc_rx_um \<times> bytes list) option" where
  "ru_handle_pdu pool_ok buf st =
     (case rlc_um_read_data_pdu_header buf (ru_size st) um_header_zero of
        None \<Rightarrow> Some (st, [])
      | Some header \<Rightarrow>
          let header_len = rlc_um_nr_packed_length header; payload = drop header_len buf in
          if length buf \<le> header_len then Some (st, [])
          else if umh_si header = full_sdu then Some (st, if pool_ok then [payload] else [])
          else let sn = ucast (umh_sn header) in
            if sn_invalid_for_rx_buffer st sn then Some (st, [])
            else do {
              st \<leftarrow> ru_handle_segment_data_sdu header payload st;
              (st, out) \<leftarrow> ru_placed pool_ok sn st;
              let st = ru_stop_reassembly_timer st;
              st \<leftarrow> (if \<not> ru_timer_running st then ru_start_reassembly_timer st else Some st);
              Some (st, out)
            })"

text \<open>Expiry of the reassembly timer.\<close>

function um_expire_loop :: "rlc_um_sn_size \<Rightarrow> u32 \<Rightarrow> u32 \<Rightarrow> u32 \<Rightarrow> rlc_rx_um_sdu_info circular_map
     \<Rightarrow> (u32 \<times> rlc_rx_um_sdu_info circular_map) option" where
  "um_expire_loop s highest trigger sn_upd w =
     (if um_mod_base s highest sn_upd < um_mod_base s highest highest
      then if um_mod_base s highest sn_upd < um_mod_base s highest trigger
        then if has_sn w sn_upd
          then (case remove_sn w sn_upd of None \<Rightarrow> None
            | Some w' \<Rightarrow> um_expire_loop s highest trigger (um_inc s sn_upd) w')
          else um_expire_loop s highest trigger (um_inc s sn_upd) w
        else (case win_at w sn_upd of None \<Rightarrow> Some (sn_upd, w)
          | Some info \<Rightarrow> if \<not> ui_fully_received info then Some (sn_upd, w)
              else (case remove_sn w sn_upd of None \<Rightarrow> None
                | Some w' \<Rightarrow> um_expire_loop s highest trigger (um_inc s sn_upd) w'))
      else Some (sn_upd, w))"
  by pat_completeness auto
termination
proof (relation "measure (\<lambda>(s, h, _, sn, _). um_W s - um_off s h sn)", goal_cases)
  case (2 s h t sn w w')
  then have "um_off s h sn < um_W s"
    by (simp add: word_less_nat_alt unat_um_mod_base um_off_edges)
  then show ?case by (simp add: um_off_inc_below)
next
  case (3 s h t sn w)
  then have "um_off s h sn < um_W s"
    by (simp add: word_less_nat_alt unat_um_mod_base um_off_edges)
  then show ?case by (simp add: um_off_inc_below)
next
  case (4 s h t sn w info w')
  then have "um_off s h sn < um_W s"
    by (simp add: word_less_nat_alt unat_um_mod_base um_off_edges)
  then show ?case by (simp add: um_off_inc_below)
qed simp

declare um_expire_loop.simps [simp del]

definition ru_on_expired_reassembly_timer :: "rlc_rx_um \<Rightarrow> rlc_rx_um option" where
  "ru_on_expired_reassembly_timer st0 = do {
     let st = st0\<lparr>ru_timer_running := False\<rparr>;
     (sn_upd, w) \<leftarrow> um_expire_loop (ru_size st) (ru_next_highest st) (ru_timer_trigger st)
       (ru_next_reassembly st) (ru_window st);
     ru_start_reassembly_timer (st\<lparr>ru_window := w, ru_next_reassembly := sn_upd\<rparr>)
   }"

section \<open>The loops\<close>

text \<open>All SDUs held in the window have sequence numbers with offsets from \<open>lo\<close> to the upper edge.\<close>

definition um_keys :: "rlc_um_sn_size \<Rightarrow> u32 \<Rightarrow> nat \<Rightarrow> rlc_rx_um_sdu_info circular_map \<Rightarrow> bool" where
  "um_keys s h lo w \<longleftrightarrow> (\<forall>x. win_at w x \<noteq> None \<longrightarrow> unat x < 2 ^ um_to_number s
     \<and> lo \<le> um_off s h x \<and> um_off s h x < um_W s)"

definition um_win :: "rlc_um_sn_size \<Rightarrow> rlc_rx_um_sdu_info circular_map \<Rightarrow> bool" where
  "um_win s w \<longleftrightarrow> cm_wf (um_to_number s - 1) w"

lemma um_off_inject:
  "unat x < 2 ^ um_to_number s \<Longrightarrow> unat y < 2 ^ um_to_number s \<Longrightarrow> um_off s h x = um_off s h y \<Longrightarrow> x = y"
  unfolding um_off_def by (rule sn_off_inject[OF um_to_number_32(1)])

lemma um_inc_less: "unat (um_inc s sn) < 2 ^ um_to_number s"
  by (simp add: um_inc_def mod_cardinality unat_take_bit)

lemma um_remove:
  assumes "um_win s w" and "win_at w sn = Some info"
  obtains w' where "remove_sn w sn = Some w'" "um_win s w'" "win_at w' = (win_at w)(sn := None)"
  using win.remove_present[of "um_to_number s - 1" w sn] assms by (auto simp: um_win_def)

lemma um_base_less: "um_mod_base s h x < um_mod_base s h y \<longleftrightarrow> um_off s h x < um_off s h y"
  by (simp add: word_less_nat_alt unat_um_mod_base)

lemma um_keys_remove:
  assumes "um_keys s h (um_off s h sn) w" and "unat sn < 2 ^ um_to_number s" and "um_off s h sn < um_W s"
    and "win_at w' = (win_at w)(sn := None)"
  shows "um_keys s h (um_off s h (um_inc s sn)) w'"
  unfolding um_keys_def
proof (intro allI impI)
  fix x assume x: "win_at w' x \<noteq> None"
  then have ne: "x \<noteq> sn" and "win_at w x \<noteq> None"
    using assms(4) by (auto split: if_splits)
  then have k: "unat x < 2 ^ um_to_number s" "um_off s h sn \<le> um_off s h x" "um_off s h x < um_W s"
    using assms(1) by (auto simp: um_keys_def)
  moreover have "um_off s h x \<noteq> um_off s h sn"
    using ne um_off_inject[OF k(1) assms(2)] by blast
  ultimately show "unat x < 2 ^ um_to_number s \<and> um_off s h (um_inc s sn) \<le> um_off s h x \<and> um_off s h x < um_W s"
    by (simp add: um_off_inc_below[OF assms(3)])
qed

text \<open>What moving the lower edge over received SDUs does.\<close>

definition um_advanced :: "rlc_um_sn_size \<Rightarrow> u32 \<Rightarrow> u32 \<Rightarrow> rlc_rx_um_sdu_info circular_map
     \<Rightarrow> u32 \<Rightarrow> rlc_rx_um_sdu_info circular_map \<Rightarrow> bool" where
  "um_advanced s h sn w sn' w' \<longleftrightarrow> um_win s w' \<and> unat sn' < 2 ^ um_to_number s
     \<and> um_off s h sn \<le> um_off s h sn' \<and> um_off s h sn' \<le> um_W s
     \<and> um_keys s h (um_off s h sn') w'
     \<and> (\<forall>x. um_off s h sn' \<le> um_off s h x \<longrightarrow> win_at w' x = win_at w x)
     \<and> (\<forall>x. unat x < 2 ^ um_to_number s \<longrightarrow> um_off s h sn \<le> um_off s h x \<longrightarrow> um_off s h x < um_off s h sn'
          \<longrightarrow> (\<exists>info. win_at w x = Some info \<and> ui_fully_received info))
     \<and> (um_off s h sn' < um_W s \<longrightarrow> (\<forall>info. win_at w' sn' = Some info \<longrightarrow> \<not> ui_fully_received info))"

lemma um_advance_loop_spec:
  assumes "um_win s w" and "unat sn < 2 ^ um_to_number s" and "um_off s h sn \<le> um_W s"
    and "um_keys s h (um_off s h sn) w"
  shows "\<exists>sn' w'. um_advance_loop s h sn w = Some (sn', w') \<and> um_advanced s h sn w sn' w'"
  using assms
proof (induction s h sn w rule: um_advance_loop.induct)
  case (1 s h sn w)
  show ?case
  proof (cases "um_off s h sn < um_W s")
    case False
    then have "um_advance_loop s h sn w = Some (sn, w)"
      by (simp add: um_advance_loop.simps um_base_less um_off_edges)
    with False 1(2-) show ?thesis by (simp add: um_advanced_def)
  next
    case below: True
    show ?thesis
    proof (cases "\<exists>info. win_at w sn = Some info \<and> ui_fully_received info")
      case False
      then have "um_advance_loop s h sn w = Some (sn, w)"
        using below by (auto simp: um_advance_loop.simps[of s h sn] um_base_less um_off_edges split: option.splits)
      with False 1(2-) show ?thesis by (auto simp: um_advanced_def)
    next
      case True
      then obtain info where info: "win_at w sn = Some info" "ui_fully_received info" by blast
      obtain w' where w': "remove_sn w sn = Some w'" "um_win s w'" "win_at w' = (win_at w)(sn := None)"
        using um_remove[OF 1(2) info(1)] .
      have eq: "um_advance_loop s h sn w = um_advance_loop s h (um_inc s sn) w'"
        using below info w' by (simp add: um_advance_loop.simps[of s h sn w] um_base_less um_off_edges)
      note off = um_off_inc_below[OF below]
      have keys: "um_keys s h (um_off s h (um_inc s sn)) w'"
        using um_keys_remove[OF 1(5,3) below w'(3)] .
      obtain sn2 w2 where r: "um_advance_loop s h (um_inc s sn) w' = Some (sn2, w2)"
          "um_advanced s h (um_inc s sn) w' sn2 w2"
        using 1(1)[of info w'] below info w' keys off um_inc_less[of s sn]
        by (auto simp: um_base_less um_off_edges)
      have "win_at w2 x = win_at w x" if "um_off s h sn2 \<le> um_off s h x" for x
        using r(2) that off w'(3) by (auto simp: um_advanced_def)
      moreover have "\<exists>info. win_at w x = Some info \<and> ui_fully_received info"
        if x: "unat x < 2 ^ um_to_number s" "um_off s h sn \<le> um_off s h x" "um_off s h x < um_off s h sn2" for x
      proof (cases "x = sn")
        case True
        then show ?thesis using info by simp
      next
        case False
        then have "um_off s h (um_inc s sn) \<le> um_off s h x"
          using x um_off_inject[OF x(1) 1(3), of h] off by fastforce
        then have "\<exists>info. win_at w' x = Some info \<and> ui_fully_received info"
          using r(2) x by (simp add: um_advanced_def)
        then show ?thesis using False w'(3) by simp
      qed
      ultimately have "um_advanced s h sn w sn2 w2"
        using r(2) off by (auto simp: um_advanced_def)
      with eq r show ?thesis by simp
    qed
  qed
qed

text \<open>Dropping what fell out of the window.\<close>

definition um_cleanable :: "rlc_um_sn_size \<Rightarrow> u32 \<Rightarrow> u32 \<Rightarrow> rlc_rx_um_sdu_info circular_map \<Rightarrow> bool" where
  "um_cleanable s h sn w \<longleftrightarrow> (if um_off s h sn < um_W s then um_keys s h (um_off s h sn) w
     else (\<forall>x. win_at w x \<noteq> None \<longrightarrow> unat x < 2 ^ um_to_number s
        \<and> (um_off s h x < um_W s \<or> um_off s h sn \<le> um_off s h x)))"

lemma um_cleanable_step:
  assumes "um_cleanable s h sn w" and "\<not> um_off s h sn < um_W s" and "unat sn < 2 ^ um_to_number s"
    and "win_at w' = (win_at w)(sn := None)"
  shows "um_cleanable s h (um_inc s sn) w'"
proof (cases "um_off s h sn + 1 = 2 ^ um_to_number s")
  case True
  then have "um_off s h (um_inc s sn) = 0" by (simp add: um_off_inc)
  moreover have "um_off s h x < um_W s" if "win_at w' x \<noteq> None" for x
    using assms that True um_off_less[of s h x] um_off_inject[of x s sn h]
    by (force simp: um_cleanable_def split: if_splits)
  moreover have "unat x < 2 ^ um_to_number s" if "win_at w' x \<noteq> None" for x
    using assms that by (auto simp: um_cleanable_def split: if_splits)
  ultimately show ?thesis
    using um_W(1)[of s] by (auto simp: um_cleanable_def um_keys_def)
next
  case False
  then have off: "um_off s h (um_inc s sn) = um_off s h sn + 1"
    using um_off_less[of s h sn] by (simp add: um_off_inc)
  have "unat x < 2 ^ um_to_number s \<and> (um_off s h x < um_W s \<or> um_off s h sn + 1 \<le> um_off s h x)"
    if x: "win_at w' x \<noteq> None" for x
  proof -
    have ne: "x \<noteq> sn" and "win_at w x \<noteq> None"
      using x assms(4) by (auto split: if_splits)
    then have "unat x < 2 ^ um_to_number s \<and> (um_off s h x < um_W s \<or> um_off s h sn \<le> um_off s h x)"
      using assms(1,2) by (auto simp: um_cleanable_def)
    moreover have "um_off s h x \<noteq> um_off s h sn" if "unat x < 2 ^ um_to_number s"
      using ne um_off_inject[OF that assms(3)] by blast
    ultimately show ?thesis by auto
  qed
  then show ?thesis
    using off assms(2) by (auto simp: um_cleanable_def)
qed

definition um_cleaned :: "rlc_um_sn_size \<Rightarrow> u32 \<Rightarrow> u32 \<Rightarrow> rlc_rx_um_sdu_info circular_map
     \<Rightarrow> (u32 \<times> rlc_rx_um_sdu_info circular_map) option \<Rightarrow> bool" where
  "um_cleaned s h sn w r \<longleftrightarrow> (\<exists>sn' w'. r = Some (sn', w') \<and> um_win s w' \<and> unat sn' < 2 ^ um_to_number s
     \<and> um_off s h sn' < um_W s \<and> um_keys s h (um_off s h sn') w'
     \<and> (\<forall>x. um_off s h x < um_W s \<longrightarrow> win_at w' x = win_at w x)
     \<and> (if um_off s h sn < um_W s then sn' = sn else um_off s h sn' = 0))"

lemma um_cleaned_step:
  assumes "um_cleaned s h (um_inc s sn) w' r" and "\<not> um_off s h sn < um_W s"
    and "win_at w' = (win_at w)(sn := None)"
  shows "um_cleaned s h sn w r"
proof -
  have "um_off s h (um_inc s sn) = 0 \<or> \<not> um_off s h (um_inc s sn) < um_W s"
    using assms(2) um_off_less[of s h sn] by (auto simp: um_off_inc mod_Suc)
  then show ?thesis
    using assms by (auto simp: um_cleaned_def split: if_splits)
qed

lemma um_clean_loop_spec:
  assumes "um_win s w" and "unat sn < 2 ^ um_to_number s" and "um_cleanable s h sn w"
  shows "um_cleaned s h sn w (um_clean_loop s h sn w)"
  using assms
proof (induction s h sn w rule: um_clean_loop.induct)
  case (1 s h sn w)
  show ?case
  proof (cases "um_off s h sn < um_W s")
    case True
    then have "um_clean_loop s h sn w = Some (sn, w)"
      by (simp add: um_clean_loop.simps um_in_window_off)
    with True 1(3-) show ?thesis by (simp add: um_cleaned_def um_cleanable_def)
  next
    case out: False
    show ?thesis
    proof (cases "win_at w sn")
      case None
      then have eq: "um_clean_loop s h sn w = um_clean_loop s h (um_inc s sn) w"
        using out by (subst um_clean_loop.simps) (simp add: um_in_window_off has_sn_win_at)
      have w: "win_at w = (win_at w)(sn := None)"
        using None by (metis fun_upd_triv)
      have "um_cleaned s h (um_inc s sn) w (um_clean_loop s h (um_inc s sn) w)"
        using 1(2) out None 1(3) um_inc_less um_cleanable_step[OF 1(5) out 1(4) w]
        by (simp add: um_in_window_off has_sn_win_at)
      then show ?thesis
        unfolding eq using um_cleaned_step[OF _ out w] by blast
    next
      case (Some info)
      obtain w' where w': "remove_sn w sn = Some w'" "um_win s w'" "win_at w' = (win_at w)(sn := None)"
        using um_remove[OF 1(3) Some] .
      then have eq: "um_clean_loop s h sn w = um_clean_loop s h (um_inc s sn) w'"
        using out Some by (subst um_clean_loop.simps) (simp add: um_in_window_off has_sn_win_at)
      have "um_cleaned s h (um_inc s sn) w' (um_clean_loop s h (um_inc s sn) w')"
        using 1(1)[of w'] out Some w'(1,2) um_inc_less um_cleanable_step[OF 1(5) out 1(4) w'(3)]
        by (simp add: um_in_window_off has_sn_win_at)
      then show ?thesis
        unfolding eq using um_cleaned_step[OF _ out w'(3)] by blast
    qed
  qed
qed

text \<open>Expiry: everything below the trigger goes, then the received SDUs.\<close>

definition um_expired :: "rlc_um_sn_size \<Rightarrow> u32 \<Rightarrow> u32 \<Rightarrow> (u32 \<times> rlc_rx_um_sdu_info circular_map) option \<Rightarrow> bool" where
  "um_expired s h sn r \<longleftrightarrow> (\<exists>sn' w'. r = Some (sn', w') \<and> um_win s w' \<and> unat sn' < 2 ^ um_to_number s
     \<and> um_off s h sn \<le> um_off s h sn' \<and> um_off s h sn' \<le> um_W s \<and> um_keys s h (um_off s h sn') w')"

lemma um_expire_loop_spec:
  assumes "um_win s w" and "unat sn < 2 ^ um_to_number s" and "um_off s h sn \<le> um_W s"
    and "um_keys s h (um_off s h sn) w"
  shows "um_expired s h sn (um_expire_loop s h t sn w)"
  using assms
proof (induction s h t sn w rule: um_expire_loop.induct)
  case (1 s h t sn w)
  show ?case
  proof (cases "um_off s h sn < um_W s")
    case False
    then have "um_expire_loop s h t sn w = Some (sn, w)"
      by (simp add: um_expire_loop.simps um_base_less um_off_edges)
    with False 1(4-) show ?thesis by (simp add: um_expired_def)
  next
    case below: True
    note off = um_off_inc_below[OF below]
    have step: "um_expired s h sn r" if "um_expired s h (um_inc s sn) r" for r
      using that off by (auto simp: um_expired_def)
    show ?thesis
    proof (cases "win_at w sn")
      case None
      have w: "win_at w = (win_at w)(sn := None)"
        using None by (metis fun_upd_triv)
      have keys: "um_keys s h (um_off s h (um_inc s sn)) w"
        using um_keys_remove[OF 1(7,5) below w] .
      show ?thesis
      proof (cases "um_off s h sn < um_off s h t")
        case True
        then have "um_expire_loop s h t sn w = um_expire_loop s h t (um_inc s sn) w"
          using below None by (subst um_expire_loop.simps) (simp add: um_base_less um_off_edges has_sn_win_at)
        moreover have "um_expired s h (um_inc s sn) (um_expire_loop s h t (um_inc s sn) w)"
          using 1(2) True below None 1(4) um_inc_less keys off
          by (simp add: um_base_less um_off_edges has_sn_win_at)
        ultimately show ?thesis using step by simp
      next
        case False
        then have "um_expire_loop s h t sn w = Some (sn, w)"
          using below None by (subst um_expire_loop.simps) (simp add: um_base_less um_off_edges)
        with 1(4-) show ?thesis by (simp add: um_expired_def)
      qed
    next
      case (Some info)
      obtain w' where w': "remove_sn w sn = Some w'" "um_win s w'" "win_at w' = (win_at w)(sn := None)"
        using um_remove[OF 1(4) Some] .
      have keys: "um_keys s h (um_off s h (um_inc s sn)) w'"
        using um_keys_remove[OF 1(7,5) below w'(3)] .
      show ?thesis
      proof (cases "um_off s h sn < um_off s h t \<or> ui_fully_received info")
        case True
        then have "um_expire_loop s h t sn w = um_expire_loop s h t (um_inc s sn) w'"
          using below Some w' by (subst um_expire_loop.simps) (auto simp: um_base_less um_off_edges has_sn_win_at)
        moreover have "um_expired s h (um_inc s sn) (um_expire_loop s h t (um_inc s sn) w')"
          using 1(1)[of w'] 1(3)[of info w'] True below Some w' um_inc_less keys off
          by (cases "um_off s h sn < um_off s h t") (simp_all add: um_base_less um_off_edges has_sn_win_at)
        ultimately show ?thesis using step by simp
      next
        case False
        then have "um_expire_loop s h t sn w = Some (sn, w)"
          using below Some by (subst um_expire_loop.simps) (simp add: um_base_less um_off_edges)
        with 1(4-) show ?thesis by (simp add: um_expired_def)
      qed
    qed
  qed
qed

section \<open>Invariant\<close>

definition ru_inv :: "rlc_rx_um \<Rightarrow> bool" where
  "ru_inv st \<longleftrightarrow> um_win (ru_size st) (ru_window st)
     \<and> unat (ru_next_reassembly st) < 2 ^ um_to_number (ru_size st)
     \<and> unat (ru_next_highest st) < 2 ^ um_to_number (ru_size st)
     \<and> um_off (ru_size st) (ru_next_highest st) (ru_next_reassembly st) \<le> um_W (ru_size st)
     \<and> um_keys (ru_size st) (ru_next_highest st)
         (um_off (ru_size st) (ru_next_highest st) (ru_next_reassembly st)) (ru_window st)"

lemma um_no_collision:
  assumes "unat x < 2 ^ um_to_number s" "unat y < 2 ^ um_to_number s"
    and "um_off s h x < um_W s" "um_off s h y < um_W s"
    and "unat x mod 2 ^ (um_to_number s - 1) = unat y mod 2 ^ (um_to_number s - 1)"
  shows "x = y"
  using assms unfolding um_off_def um_W_def
  by (intro sn_off_no_collision[OF um_to_number_32(1)]) simp_all

text \<open>Moving the upper edge of the window to follow a sequence number outside.\<close>

lemma um_off_shift:
  assumes "um_W s \<le> um_off s h sn"
  defines "d \<equiv> um_off s h sn + 1 - um_W s"
  shows "um_off s (um_inc s sn) x = (if d \<le> um_off s h x then um_off s h x - d
     else um_off s h x + 2 * um_W s - d)"
    "1 \<le> d" "d \<le> um_W s"
proof -
  let ?n = "um_to_number s" and ?W = "window_size (um_to_number s)"
  have lt: "um_off s h sn < 2 * um_W s"
    using um_off_less[of s h sn] um_W(2)[of s] by simp
  show "1 \<le> d" "d \<le> um_W s"
    using assms(1) lt by (auto simp: d_def)
  have "sn_off ?n (h + ?W) (um_inc s sn + ?W) = (um_off s h (um_inc s sn) + um_W s) mod 2 ^ ?n"
    using sn_off_add[OF um_to_number_32(1), of s "h + ?W" "um_inc s sn" ?W]
    by (simp add: um_off_def um_W(3))
  also have "\<dots> = (um_off s h sn + 1 + um_W s) mod (2 * um_W s)"
    by (simp add: um_off_inc um_W(2) mod_add_left_eq)
  also have "um_off s h sn + 1 + um_W s = d + 2 * um_W s"
    using assms(1) by (simp add: d_def)
  also have "(d + 2 * um_W s) mod (2 * um_W s) = d"
    using \<open>d \<le> um_W s\<close> um_W(1)[of s] by simp
  finally have d: "sn_off ?n (h + ?W) (um_inc s sn + ?W) = d" .
  show "um_off s (um_inc s sn) x = (if d \<le> um_off s h x then um_off s h x - d
     else um_off s h x + 2 * um_W s - d)"
    using sn_off_rebase[OF um_to_number_32(1), of s "um_inc s sn + ?W" x "h + ?W"]
    by (simp add: um_off_def d um_W(2))
qed

lemma um_outside_cleanable:
  assumes R: "um_off s h r \<le> um_W s" and sn: "um_W s \<le> um_off s h sn" "unat sn < 2 ^ um_to_number s"
    and keys: "\<And>x. win_at w x \<noteq> None \<Longrightarrow> x = sn \<or> unat x < 2 ^ um_to_number s
       \<and> um_off s h r \<le> um_off s h x \<and> um_off s h x < um_W s"
  shows "um_cleanable s (um_inc s sn) r w"
proof -
  define d where "d = um_off s h sn + 1 - um_W s"
  note shift = um_off_shift[OF sn(1), folded d_def]
  have d: "d \<le> um_off s h sn" "um_off s h sn - d = um_W s - 1"
    using sn(1) um_W(1)[of s] by (simp_all add: d_def)
  show ?thesis
  proof (cases "d \<le> um_off s h r")
    case True
    then have r: "um_off s (um_inc s sn) r = um_off s h r - d"
      using shift(1) by simp
    have "um_off s (um_inc s sn) r < um_W s"
      using r R shift(2) um_W(1)[of s] True by linarith
    moreover have "um_keys s (um_inc s sn) (um_off s (um_inc s sn) r) w"
      unfolding um_keys_def
    proof (intro allI impI)
      fix x assume "win_at w x \<noteq> None"
      from keys[OF this] show "unat x < 2 ^ um_to_number s
        \<and> um_off s (um_inc s sn) r \<le> um_off s (um_inc s sn) x \<and> um_off s (um_inc s sn) x < um_W s"
        using True shift R d sn(2) um_W(1)[of s] by (auto simp: r)
    qed
    ultimately show ?thesis by (simp add: um_cleanable_def)
  next
    case False
    then have r: "um_off s (um_inc s sn) r = um_off s h r + 2 * um_W s - d"
      using shift(1) by simp
    have "\<not> um_off s (um_inc s sn) r < um_W s"
      using r shift(3) by linarith
    moreover have "unat x < 2 ^ um_to_number s
        \<and> (um_off s (um_inc s sn) x < um_W s \<or> um_off s (um_inc s sn) r \<le> um_off s (um_inc s sn) x)"
      if "win_at w x \<noteq> None" for x
      using keys[OF that] shift d sn(2) um_W(1)[of s] by (auto simp: r)
    ultimately show ?thesis by (simp add: um_cleanable_def)
  qed
qed

lemma ru_outside_spec:
  assumes win: "um_win (ru_size st) (ru_window st)"
    and R: "unat (ru_next_reassembly st) < 2 ^ um_to_number (ru_size st)"
      "um_off (ru_size st) (ru_next_highest st) (ru_next_reassembly st) \<le> um_W (ru_size st)"
    and sn: "um_W (ru_size st) \<le> um_off (ru_size st) (ru_next_highest st) sn"
      "unat sn < 2 ^ um_to_number (ru_size st)"
    and keys: "\<And>x. win_at (ru_window st) x \<noteq> None \<Longrightarrow> x = sn \<or> unat x < 2 ^ um_to_number (ru_size st)
       \<and> um_off (ru_size st) (ru_next_highest st) (ru_next_reassembly st)
           \<le> um_off (ru_size st) (ru_next_highest st) x
       \<and> um_off (ru_size st) (ru_next_highest st) x < um_W (ru_size st)"
    and new: "win_at (ru_window st) sn = Some info" "\<not> ui_fully_received info"
  shows "\<exists>st'. ru_outside sn st = Some st' \<and> ru_inv st' \<and> ru_cfg st' = ru_cfg st
     \<and> ru_next_highest st' = um_inc (ru_size st) sn \<and> win_at (ru_window st') sn = Some info
     \<and> (ru_next_reassembly st = sn \<longrightarrow> ru_next_reassembly st' = sn)"
proof -
  let ?s = "ru_size st" and ?h = "um_inc (ru_size st) sn"
  have Rmod: "ru_next_reassembly st mod cardinality (um_to_number ?s) = ru_next_reassembly st"
    using R(1) by (simp add: mod_cardinality take_bit_of_bound)
  note c = um_outside_cleanable[OF R(2) sn keys]
  obtain sn1 w1 where 1: "um_clean_loop ?s ?h (ru_next_reassembly st) (ru_window st) = Some (sn1, w1)"
      "um_win ?s w1" "unat sn1 < 2 ^ um_to_number ?s" "um_off ?s ?h sn1 < um_W ?s"
      "um_keys ?s ?h (um_off ?s ?h sn1) w1" "\<forall>x. um_off ?s ?h x < um_W ?s \<longrightarrow> win_at w1 x = win_at (ru_window st) x"
      "um_off ?s ?h (ru_next_reassembly st) < um_W ?s \<longrightarrow> sn1 = ru_next_reassembly st"
    using um_clean_loop_spec[OF win R(1) c] by (auto simp: um_cleaned_def)
  have top: "um_off ?s ?h sn < um_W ?s"
    using um_off_shift(1)[OF sn(1), of sn] sn(1) um_W(1)[of ?s] by simp
  then have here: "win_at w1 sn = Some info"
    using 1(6) new by simp
  obtain sn2 w2 where 2: "um_advance_loop ?s ?h sn1 w1 = Some (sn2, w2)" "um_advanced ?s ?h sn1 w1 sn2 w2"
    using um_advance_loop_spec[of ?s w1 sn1 ?h] 1 by auto
  have low: "um_off ?s ?h sn1 \<le> um_off ?s ?h sn"
    using 1(5) here by (simp add: um_keys_def)
  have le: "um_off ?s ?h sn2 \<le> um_off ?s ?h sn"
  proof (rule ccontr)
    assume "\<not> um_off ?s ?h sn2 \<le> um_off ?s ?h sn"
    then have "\<exists>i. win_at w1 sn = Some i \<and> ui_fully_received i"
      using 2(2) low sn(2) by (simp add: um_advanced_def)
    with here new(2) show False by simp
  qed
  then have "win_at w2 sn = Some info"
    using 2(2) here by (simp add: um_advanced_def)
  moreover have "sn2 = sn" if r: "ru_next_reassembly st = sn"
  proof (rule um_off_inject[OF _ sn(2)])
    have "sn1 = sn" using 1(7) top unfolding r by blast
    then have "um_off ?s ?h sn \<le> um_off ?s ?h sn2" "unat sn2 < 2 ^ um_to_number ?s"
      using 2(2) by (simp_all only: um_advanced_def)
    then show "unat sn2 < 2 ^ um_to_number ?s" "um_off ?s ?h sn2 = um_off ?s ?h sn"
      using le by (simp_all only: antisym)
  qed
  moreover from 2 have "ru_inv (st\<lparr>ru_next_highest := ?h, ru_window := w2, ru_next_reassembly := sn2\<rparr>)"
    using um_inc_less[of ?s sn] by (simp add: ru_inv_def um_advanced_def)
  ultimately show ?thesis
    using 1(1) 2(1) by (simp add: ru_outside_def Rmod)
qed

text \<open>Storing a segment in the window.\<close>

definition um_stored_info :: "rlc_rx_um_sdu_info \<Rightarrow> rlc_um_pdu_header \<Rightarrow> bytes \<Rightarrow> rlc_rx_um_sdu_info" where
  "um_stored_info info header payload =
     (let segments = snd (store_segment (ui_segments info)
            \<lparr>seg_si = umh_si header, seg_so = umh_so header, seg_payload = payload\<rparr>)
      in \<lparr>ui_fully_received = snd (segment_inventory segments),
          ui_has_gap = fst (segment_inventory segments), ui_segments = segments\<rparr>)"

definition um_info_at :: "rlc_rx_um \<Rightarrow> u32 \<Rightarrow> rlc_rx_um_sdu_info" where
  "um_info_at st sn = (case win_at (ru_window st) sn of None \<Rightarrow> um_info_default | Some info \<Rightarrow> info)"

lemma ru_handle_segment_spec:
  assumes win: "um_win (ru_size st) (ru_window st)" and si: "umh_si header \<noteq> full_sdu"
  defines "sn \<equiv> ucast (umh_sn header)"
  obtains w where "ru_handle_segment_data_sdu header payload st = Some (st\<lparr>ru_window := w\<rparr>)"
    "um_win (ru_size st) w"
    "win_at w sn = Some (um_stored_info (um_info_at st sn) header payload)"
    "\<And>x. x \<noteq> sn \<Longrightarrow> win_at w x = (if win_at (ru_window st) sn = None
         \<and> unat x mod 2 ^ (um_to_number (ru_size st) - 1) = unat sn mod 2 ^ (um_to_number (ru_size st) - 1)
       then None else win_at (ru_window st) x)"
proof -
  let ?k = "um_to_number (ru_size st) - 1" and ?w = "ru_window st"
  let ?P = "\<lambda>w. um_win (ru_size st) w \<and> win_at w sn = Some (um_info_at st sn)
      \<and> (\<forall>x. x \<noteq> sn \<longrightarrow> win_at w x = (if win_at ?w sn = None \<and> unat x mod 2 ^ ?k = unat sn mod 2 ^ ?k
       then None else win_at ?w x))"
  obtain w1 where w1: "(if has_sn ?w sn then Some ?w else add_sn ?w sn um_info_default) = Some w1" "?P w1"
  proof (cases "win_at ?w sn")
    case None
    then show ?thesis
      using that win.add_fresh[of ?k ?w sn um_info_default] win
      by (auto simp: um_win_def um_info_at_def has_sn_win_at)
  next
    case (Some info)
    then show ?thesis
      using that[of ?w] win by (auto simp: um_info_at_def has_sn_win_at)
  qed
  let ?info = "um_stored_info (um_info_at st sn) header payload"
  obtain w2 where w2: "win_set w1 sn ?info = Some w2" "um_win (ru_size st) w2"
      "win_at w2 = (win_at w1)(sn \<mapsto> ?info)"
    using win.upd_present[of ?k w1 sn ?info] w1(2) by (auto simp: um_win_def)
  have "ru_handle_segment_data_sdu header payload st = Some (st\<lparr>ru_window := w2\<rparr>)"
    using si w1 w2(1)
    by (simp add: ru_handle_segment_data_sdu_def sn_def[symmetric] um_stored_info_def Let_def case_prod_beta)
  then show ?thesis
    using that w1(2) w2(2,3) by simp
qed

text \<open>One segment alone completes an SDU only if it claims to be the last one and to start it.\<close>

lemma single_segment_not_full:
  assumes "si = last_segment \<Longrightarrow> so \<noteq> 0"
  shows "\<not> ui_fully_received (um_stored_info um_info_default header payload)
     \<or> umh_si header \<noteq> si \<or> umh_so header \<noteq> so"
  using assms
  by (auto simp: um_stored_info_def um_info_default_def store_segment_def segment_inventory_def
      word_unat_eq_iff Let_def)

definition um_consistent :: "rlc_um_sn_size \<Rightarrow> bytes \<Rightarrow> bool" where
  "um_consistent s buf \<longleftrightarrow> (case rlc_um_read_data_pdu_header buf s um_header_zero of None \<Rightarrow> True
     | Some h \<Rightarrow> umh_si h = last_segment \<longrightarrow> umh_so h \<noteq> 0)"

lemma ru_deliver_spec:
  assumes inv: "ru_inv st" and info: "win_at (ru_window st) sn = Some info"
  shows "\<exists>st'. ru_deliver pool_ok sn info st
     = Some (st', case um_reassemble_sdu pool_ok info of None \<Rightarrow> [] | Some sdu \<Rightarrow> [sdu]) \<and> ru_inv st'
     \<and> ru_next_highest st' = ru_next_highest st \<and> ru_cfg st' = ru_cfg st
     \<and> (sn = ru_next_reassembly st \<longrightarrow> ui_fully_received info
          \<longrightarrow> um_off (ru_size st) (ru_next_highest st) sn + 1 = um_W (ru_size st)
          \<longrightarrow> ru_next_reassembly st' = ru_next_highest st)"
proof -
  let ?s = "ru_size st" and ?h = "ru_next_highest st" and ?r = "ru_next_reassembly st"
  have win: "um_win ?s (ru_window st)" and r: "unat ?r < 2 ^ um_to_number ?s" "um_off ?s ?h ?r \<le> um_W ?s"
    and keys: "um_keys ?s ?h (um_off ?s ?h ?r) (ru_window st)"
    using inv by (simp_all add: ru_inv_def)
  obtain w1 where w1: "win_set (ru_window st) sn (info\<lparr>ui_segments := []\<rparr>) = Some w1" "um_win ?s w1"
      "win_at w1 = (win_at (ru_window st))(sn \<mapsto> info\<lparr>ui_segments := []\<rparr>)"
    using win.upd_present[of "um_to_number ?s - 1" "ru_window st" sn] win info by (auto simp: um_win_def)
  have keys1: "um_keys ?s ?h (um_off ?s ?h ?r) w1"
    using keys w1(3) info by (auto simp: um_keys_def split: if_splits)
  have rmod: "?r mod cardinality (um_to_number ?s) = ?r"
    using r(1) by (simp add: mod_cardinality take_bit_of_bound)
  obtain sn2 w2 where 2: "um_advance_loop ?s ?h ?r w1 = Some (sn2, w2)" "um_advanced ?s ?h ?r w1 sn2 w2"
    using um_advance_loop_spec[OF w1(2) r keys1] by auto
  have top: "sn2 = ?h" if "sn = ?r" "ui_fully_received info" "um_off ?s ?h sn + 1 = um_W ?s"
  proof -
    have "win_at w1 sn = Some (info\<lparr>ui_segments := []\<rparr>)"
      by (simp add: w1(3))
    then have "um_off ?s ?h sn2 \<noteq> um_off ?s ?h sn"
      using that 2(2) um_off_inject[of sn2 ?s sn ?h] r(1) by (auto simp: um_advanced_def)
    then have "um_off ?s ?h sn2 = um_off ?s ?h ?h"
      using that 2(2) by (simp add: um_advanced_def um_off_edges)
    then show ?thesis
      using 2(2) inv um_off_inject[of sn2 ?s ?h ?h] by (simp add: um_advanced_def ru_inv_def)
  qed
  show ?thesis
  proof (cases "sn = ?r")
    case True
    then show ?thesis
      using w1 2 inv top by (simp add: ru_deliver_def rmod ru_inv_def um_advanced_def)
  next
    case False
    then show ?thesis
      using w1 keys1 inv by (simp add: ru_deliver_def ru_inv_def)
  qed
qed

text \<open>A segment that is not stale: what it does to the state and what it delivers.\<close>

definition ru_segment :: "bool \<Rightarrow> rlc_um_pdu_header \<Rightarrow> bytes \<Rightarrow> rlc_rx_um \<Rightarrow> (rlc_rx_um \<times> bytes list) option" where
  "ru_segment pool_ok header payload st = do {
     st \<leftarrow> ru_handle_segment_data_sdu header payload st;
     ru_placed pool_ok (ucast (umh_sn header)) st
   }"

lemma unat_ucast_sn: "unat (ucast (x :: u16) :: u32) = unat x"
  by simp

lemma ru_segment_spec:
  fixes payload :: bytes
  assumes inv: "ru_inv st" and si: "umh_si header \<noteq> full_sdu"
    and so: "umh_si header = last_segment \<Longrightarrow> umh_so header \<noteq> 0"
    and sn_bound: "unat (umh_sn header) < 2 ^ um_to_number (ru_size st)"
  defines "sn \<equiv> ucast (umh_sn header)"
  defines "info \<equiv> um_stored_info (um_info_at st sn) header payload"
  assumes valid: "\<not> sn_invalid_for_rx_buffer st sn"
  shows "\<exists>st'. ru_segment pool_ok header payload st = Some (st',
       if ui_fully_received info \<and> pool_ok then [chain_segments (ui_segments info)] else [])
     \<and> ru_inv st' \<and> ru_cfg st' = ru_cfg st
     \<and> ru_next_highest st' = (if sn_in_reassembly_window st sn then ru_next_highest st else um_inc (ru_size st) sn)
     \<and> (\<not> ui_fully_received info \<longrightarrow> win_at (ru_window st') sn = Some info)
     \<and> (ui_fully_received info \<longrightarrow> sn_in_reassembly_window st sn)
     \<and> (ru_next_reassembly st = sn \<longrightarrow> (if ui_fully_received info
          then um_off (ru_size st) (ru_next_highest st) sn + 1 = um_W (ru_size st)
            \<longrightarrow> ru_next_reassembly st' = ru_next_highest st
          else ru_next_reassembly st' = sn))"
proof -
  let ?s = "ru_size st" and ?h = "ru_next_highest st" and ?r = "ru_next_reassembly st"
  have win: "um_win ?s (ru_window st)" and r: "unat ?r < 2 ^ um_to_number ?s" "um_off ?s ?h ?r \<le> um_W ?s"
    and keys: "um_keys ?s ?h (um_off ?s ?h ?r) (ru_window st)"
    using inv by (simp_all add: ru_inv_def)
  have sn: "unat sn < 2 ^ um_to_number ?s" "um_off ?s ?h ?r \<le> um_off ?s ?h sn"
    using sn_bound valid by (simp_all add: sn_def um_invalid_off)
  obtain w where w: "ru_handle_segment_data_sdu header payload st = Some (st\<lparr>ru_window := w\<rparr>)"
      "um_win ?s w" "win_at w sn = Some info"
      "\<And>x. x \<noteq> sn \<Longrightarrow> win_at w x = (if win_at (ru_window st) sn = None
         \<and> unat x mod 2 ^ (um_to_number ?s - 1) = unat sn mod 2 ^ (um_to_number ?s - 1)
       then None else win_at (ru_window st) x)"
    by (rule ru_handle_segment_spec[OF win si, of payload, folded sn_def, folded info_def]) blast
  let ?st1 = "st\<lparr>ru_window := w\<rparr>"
  have seg: "ru_segment pool_ok header payload st = ru_placed pool_ok sn ?st1"
    by (simp add: ru_segment_def w(1) sn_def)
  have old: "x = sn \<or> unat x < 2 ^ um_to_number ?s \<and> um_off ?s ?h ?r \<le> um_off ?s ?h x \<and> um_off ?s ?h x < um_W ?s"
    if "win_at w x \<noteq> None" for x
  proof -
    have "x = sn \<or> win_at (ru_window st) x \<noteq> None"
      using that w(4)[of x] by metis
    then show ?thesis
      using keys unfolding um_keys_def by blast
  qed
  show ?thesis
  proof (cases "um_off ?s ?h sn < um_W ?s")
    case True
    then have in_window: "sn_in_reassembly_window st sn" "sn_in_reassembly_window ?st1 sn"
      by (simp_all add: sn_in_reassembly_window_def um_in_window_off)
    have "um_keys ?s ?h (um_off ?s ?h ?r) w"
      using old sn True by (auto simp: um_keys_def)
    then have inv1: "ru_inv ?st1"
      using inv w(2) by (simp add: ru_inv_def)
    show ?thesis
    proof (cases "ui_fully_received info")
      case full: True
      then have "ru_placed pool_ok sn ?st1 = ru_deliver pool_ok sn info ?st1"
        using w(3) by (simp add: ru_placed_def)
      then show ?thesis
        using ru_deliver_spec[OF inv1, of sn info pool_ok] w(3) full in_window seg
        by (auto simp: um_reassemble_sdu_def)
    next
      case False
      then show ?thesis
        using w(3) in_window seg inv1 by (simp add: ru_placed_def)
    qed
  next
    case False
    then have out: "\<not> sn_in_reassembly_window st sn" "\<not> sn_in_reassembly_window ?st1 sn"
      by (simp_all add: sn_in_reassembly_window_def um_in_window_off)
    have "win_at (ru_window st) sn = None"
      using keys False by (auto simp: um_keys_def)
    then have "info = um_stored_info um_info_default header payload"
      by (simp add: info_def um_info_at_def)
    then have nf: "\<not> ui_fully_received info"
      using single_segment_not_full[of "umh_si header" "umh_so header" header payload] so by auto
    obtain st' where st': "ru_outside sn ?st1 = Some st'" "ru_inv st'" "ru_cfg st' = ru_cfg st"
        "ru_next_highest st' = um_inc ?s sn" "win_at (ru_window st') sn = Some info"
        "ru_next_reassembly st = sn \<longrightarrow> ru_next_reassembly st' = sn"
      using ru_outside_spec[of ?st1 sn info] w(2,3) r sn False old nf by auto
    then show ?thesis
      using seg out nf w(3) by (simp add: ru_placed_def)
  qed
qed

section \<open>The handlers\<close>

text \<open>The timers change neither the window nor its edges.\<close>

definition ru_kept :: "rlc_rx_um \<Rightarrow> rlc_rx_um \<Rightarrow> bool" where
  "ru_kept st st' \<longleftrightarrow> ru_window st' = ru_window st \<and> ru_cfg st' = ru_cfg st
     \<and> ru_next_reassembly st' = ru_next_reassembly st \<and> ru_next_highest st' = ru_next_highest st"

lemma ru_kept_inv: "ru_kept st st' \<Longrightarrow> ru_inv st \<Longrightarrow> ru_inv st' \<and> ru_cfg st' = ru_cfg st"
  by (simp add: ru_kept_def ru_inv_def)

lemma ru_start_reassembly_timer_cases:
  "\<not> ru_timer_set st \<and> ru_restart st \<and> ru_start_reassembly_timer st = None
   \<or> (\<exists>st'. ru_start_reassembly_timer st = Some st' \<and> ru_kept st st')"
  by (auto simp: ru_start_reassembly_timer_def ru_kept_def)

definition ru_timers :: "rlc_rx_um \<Rightarrow> rlc_rx_um option" where
  "ru_timers st = (let st = ru_stop_reassembly_timer st in
     if \<not> ru_timer_running st then ru_start_reassembly_timer st else Some st)"

lemma ru_timers_cases:
  "\<not> ru_timer_set st \<and> ru_restart st \<and> ru_timers st = None \<or> (\<exists>st'. ru_timers st = Some st' \<and> ru_kept st st')"
proof -
  let ?st = "ru_stop_reassembly_timer st"
  have "ru_kept st ?st" "ru_timer_set ?st = ru_timer_set st" "ru_restart ?st = ru_restart st"
    by (simp_all add: ru_stop_reassembly_timer_def ru_kept_def ru_timer_set_def ru_restart_def Let_def)
  then show ?thesis
    using ru_start_reassembly_timer_cases[of ?st] by (auto simp: ru_timers_def Let_def ru_kept_def)
qed

text \<open>The handler by the kind of its PDU.\<close>

lemma ru_handle_pdu_cases:
  assumes "rlc_um_read_data_pdu_header buf (ru_size st) um_header_zero = Some header"
    and "rlc_um_nr_packed_length header < length buf"
  shows "ru_handle_pdu pool_ok buf st =
     (if umh_si header = full_sdu
      then Some (st, if pool_ok then [drop (rlc_um_nr_packed_length header) buf] else [])
      else if sn_invalid_for_rx_buffer st (ucast (umh_sn header)) then Some (st, [])
      else Option.bind (ru_segment pool_ok header (drop (rlc_um_nr_packed_length header) buf) st)
        (\<lambda>(st, out). Option.bind (ru_timers st) (\<lambda>st. Some (st, out))))"
  using assms
  by (auto simp: ru_handle_pdu_def ru_segment_def ru_timers_def Let_def split: option.splits bind_splits)

lemma ru_handle_pdu_total_inv:
  assumes inv: "ru_inv st" and con: "um_consistent (ru_size st) buf"
  shows "\<not> ru_timer_set st \<and> ru_handle_pdu pool_ok buf st = None
     \<or> (\<exists>st' out. ru_handle_pdu pool_ok buf st = Some (st', out) \<and> ru_inv st' \<and> ru_cfg st' = ru_cfg st)"
proof (cases "rlc_um_read_data_pdu_header buf (ru_size st) um_header_zero")
  case None
  then show ?thesis using inv by (simp add: ru_handle_pdu_def)
next
  case (Some header)
  show ?thesis
  proof (cases "rlc_um_nr_packed_length header < length buf")
    case False
    then show ?thesis using Some inv by (simp add: ru_handle_pdu_def Let_def)
  next
    case True
    note c = ru_handle_pdu_cases[OF Some True, of pool_ok]
    show ?thesis
    proof (cases "umh_si header = full_sdu \<or> sn_invalid_for_rx_buffer st (ucast (umh_sn header))")
      case True
      then show ?thesis using inv by (auto simp: c)
    next
      case False
      have so: "umh_si header = last_segment \<Longrightarrow> umh_so header \<noteq> 0"
        using con Some by (simp add: um_consistent_def)
      obtain st' out where "ru_segment pool_ok header (drop (rlc_um_nr_packed_length header) buf) st = Some (st', out)"
          "ru_inv st'" "ru_cfg st' = ru_cfg st"
        using ru_segment_spec[OF inv _ so read_um_header_bounds(1)[OF Some]] False by blast
      then show ?thesis
        using False ru_timers_cases[of st'] by (auto simp: c ru_timer_set_def dest: ru_kept_inv)
    qed
  qed
qed

lemma ru_expire_inv:
  assumes inv: "ru_inv st"
  shows "\<not> ru_timer_set st \<and> ru_on_expired_reassembly_timer st = None
     \<or> (\<exists>st'. ru_on_expired_reassembly_timer st = Some st' \<and> ru_inv st' \<and> ru_cfg st' = ru_cfg st)"
proof -
  let ?s = "ru_size st" and ?h = "ru_next_highest st"
  have "um_expired ?s ?h (ru_next_reassembly st)
      (um_expire_loop ?s ?h (ru_timer_trigger st) (ru_next_reassembly st) (ru_window st))"
    using inv by (intro um_expire_loop_spec) (simp_all add: ru_inv_def)
  then obtain sn' w' where e: "um_expire_loop ?s ?h (ru_timer_trigger st) (ru_next_reassembly st) (ru_window st)
        = Some (sn', w')"
      "um_win ?s w'" "unat sn' < 2 ^ um_to_number ?s" "um_off ?s ?h sn' \<le> um_W ?s"
      "um_keys ?s ?h (um_off ?s ?h sn') w'"
    by (auto simp: um_expired_def)
  let ?st = "st\<lparr>ru_timer_running := False, ru_window := w', ru_next_reassembly := sn'\<rparr>"
  have "ru_inv ?st" using inv e by (simp add: ru_inv_def)
  then show ?thesis
    using ru_start_reassembly_timer_cases[of ?st] e(1)
    by (auto simp: ru_on_expired_reassembly_timer_def ru_timer_set_def Let_def dest: ru_kept_inv)
qed

lemma rx_um_new_inv: "\<exists>st. rx_um_new cfg = Some st \<and> ru_inv st \<and> ru_cfg st = cfg"
proof -
  let ?s = "rxum_sn_field_length cfg"
  obtain w :: "rlc_rx_um_sdu_info circular_map" where
    "cm_init (2 ^ (um_to_number ?s - 1)) = Some w" "cm_wf (um_to_number ?s - 1) w" "\<forall>sn. cm_at w sn = None"
    using cm_init_pow2 by blast
  then show ?thesis
    by (simp add: rx_um_new_def um_W(3) ru_inv_def um_win_def um_keys_def win_at_def um_off_edges)
      (simp add: um_W_def um_off_edges[unfolded um_W_def])
qed

section \<open>No failed assertion\<close>

text \<open>
  A peer may send any bytes, also segments that no transmitter of this kind builds (a last segment
  at offset 0).  The handlers then may leave the invariant, but not the well-formedness of the
  window, and no assertion of the window fails.
\<close>

lemma um_advance_loop_total:
  "um_win s w \<Longrightarrow> \<exists>sn' w'. um_advance_loop s h sn w = Some (sn', w') \<and> um_win s w'"
proof (induction s h sn w rule: um_advance_loop.induct)
  case (1 s h sn w)
  show ?case
  proof (cases "um_mod_base s h sn < um_mod_base s h h \<and> (\<exists>info. win_at w sn = Some info \<and> ui_fully_received info)")
    case True
    then obtain info where info: "win_at w sn = Some info" "ui_fully_received info" by blast
    obtain w' where w': "remove_sn w sn = Some w'" "um_win s w'"
      using um_remove[OF 1(2) info(1)] .
    then show ?thesis
      using 1(1)[of info w'] True info by (simp add: um_advance_loop.simps[of s h sn w])
  next
    case False
    then show ?thesis
      using 1(2) by (auto simp: um_advance_loop.simps[of s h sn w] split: option.splits)
  qed
qed

lemma um_clean_loop_total:
  "um_win s w \<Longrightarrow> \<exists>sn' w'. um_clean_loop s h sn w = Some (sn', w') \<and> um_win s w'"
proof (induction s h sn w rule: um_clean_loop.induct)
  case (1 s h sn w)
  show ?case
  proof (cases "\<not> um_in_window s h sn \<and> has_sn w sn")
    case True
    then obtain info where info: "win_at w sn = Some info" by (auto simp: has_sn_win_at)
    obtain w' where w': "remove_sn w sn = Some w'" "um_win s w'"
      using um_remove[OF 1(3) info] .
    then show ?thesis
      using 1(1)[of w'] True by (simp add: um_clean_loop.simps[of s h sn w])
  next
    case False
    then show ?thesis
      using 1(2,3) by (subst um_clean_loop.simps) auto
  qed
qed

lemma um_expire_loop_total:
  "um_win s w \<Longrightarrow> \<exists>sn' w'. um_expire_loop s h t sn w = Some (sn', w') \<and> um_win s w'"
proof (induction s h t sn w rule: um_expire_loop.induct)
  case (1 s h t sn w)
  show ?case
  proof (cases "win_at w sn")
    case None
    then show ?thesis
      using 1(2,4) by (subst um_expire_loop.simps) (auto simp: has_sn_win_at)
  next
    case (Some info)
    obtain w' where w': "remove_sn w sn = Some w'" "um_win s w'"
      using um_remove[OF 1(4) Some] .
    then show ?thesis
      using 1(1)[of w'] 1(3)[of info w'] 1(4) Some
      by (subst um_expire_loop.simps) (auto simp: has_sn_win_at)
  qed
qed

lemma ru_deliver_total:
  assumes win: "um_win (ru_size st) (ru_window st)" and info: "win_at (ru_window st) sn \<noteq> None"
  shows "\<exists>st' out. ru_deliver pool_ok sn i st = Some (st', out) \<and> um_win (ru_size st') (ru_window st')
     \<and> ru_cfg st' = ru_cfg st"
proof -
  obtain w where w: "win_set (ru_window st) sn (i\<lparr>ui_segments := []\<rparr>) = Some w" "um_win (ru_size st) w"
    using win.upd_present[of _ "ru_window st"] win info unfolding um_win_def by blast
  show ?thesis
    using um_advance_loop_total[OF w(2), of "ru_next_highest st"
        "ru_next_reassembly st mod cardinality (um_to_number (ru_size st))"] w
    by (cases "sn = ru_next_reassembly st") (auto simp: ru_deliver_def Let_def)
qed

lemma ru_outside_total:
  assumes win: "um_win (ru_size st) (ru_window st)"
  shows "\<exists>st'. ru_outside sn st = Some st' \<and> um_win (ru_size st') (ru_window st') \<and> ru_cfg st' = ru_cfg st"
proof -
  let ?s = "ru_size st" and ?h = "um_inc (ru_size st) sn"
  obtain sn1 w1 where w1: "um_clean_loop ?s ?h (ru_next_reassembly st mod cardinality (um_to_number ?s)) (ru_window st)
      = Some (sn1, w1)" "um_win ?s w1"
    using um_clean_loop_total[OF win] by blast
  obtain sn2 w2 where "um_advance_loop ?s ?h sn1 w1 = Some (sn2, w2)" "um_win ?s w2"
    using um_advance_loop_total[OF w1(2)] by blast
  then show ?thesis using w1 by (simp add: ru_outside_def)
qed

lemma ru_placed_total:
  assumes win: "um_win (ru_size st) (ru_window st)"
  shows "\<exists>st' out. ru_placed pool_ok sn st = Some (st', out) \<and> um_win (ru_size st') (ru_window st')
     \<and> ru_cfg st' = ru_cfg st"
  using ru_outside_total[OF win, of sn] ru_deliver_total[OF win, of sn pool_ok] win
  by (fastforce simp: ru_placed_def split: option.splits)

lemma ru_handle_pdu_no_assert:
  assumes win: "um_win (ru_size st) (ru_window st)"
  shows "\<not> ru_timer_set st \<and> ru_handle_pdu pool_ok buf st = None
     \<or> (\<exists>st' out. ru_handle_pdu pool_ok buf st = Some (st', out) \<and> um_win (ru_size st') (ru_window st')
     \<and> ru_cfg st' = ru_cfg st)"
proof (cases "rlc_um_read_data_pdu_header buf (ru_size st) um_header_zero")
  case None
  then show ?thesis using win by (simp add: ru_handle_pdu_def)
next
  case (Some header)
  show ?thesis
  proof (cases "rlc_um_nr_packed_length header < length buf \<and> umh_si header \<noteq> full_sdu
      \<and> \<not> sn_invalid_for_rx_buffer st (ucast (umh_sn header))")
    case False
    then show ?thesis using Some win by (auto simp: ru_handle_pdu_def Let_def)
  next
    case True
    let ?payload = "drop (rlc_um_nr_packed_length header) buf" and ?sn = "ucast (umh_sn header) :: u32"
    obtain w where w: "ru_handle_segment_data_sdu header ?payload st = Some (st\<lparr>ru_window := w\<rparr>)"
        "um_win (ru_size st) w"
      using ru_handle_segment_spec[OF win] True by blast
    obtain st' out where "ru_placed pool_ok ?sn (st\<lparr>ru_window := w\<rparr>) = Some (st', out)"
        "um_win (ru_size st') (ru_window st')" "ru_cfg st' = ru_cfg st"
      using ru_placed_total[of "st\<lparr>ru_window := w\<rparr>" pool_ok ?sn] w(2) by auto
    then show ?thesis
      using True w ru_handle_pdu_cases[OF Some, of pool_ok] ru_timers_cases[of st']
      by (auto simp: ru_segment_def ru_kept_def ru_timer_set_def)
  qed
qed

lemma ru_expire_no_assert:
  assumes win: "um_win (ru_size st) (ru_window st)"
  shows "\<not> ru_timer_set st \<and> ru_on_expired_reassembly_timer st = None
     \<or> (\<exists>st'. ru_on_expired_reassembly_timer st = Some st' \<and> um_win (ru_size st') (ru_window st')
     \<and> ru_cfg st' = ru_cfg st)"
proof -
  obtain sn w where w: "um_expire_loop (ru_size st) (ru_next_highest st) (ru_timer_trigger st) (ru_next_reassembly st) (ru_window st)
      = Some (sn, w)" "um_win (ru_size st) w"
    using um_expire_loop_total[OF win, of "ru_next_highest st" "ru_timer_trigger st" "ru_next_reassembly st"] by auto
  then show ?thesis
    using ru_start_reassembly_timer_cases[of "st\<lparr>ru_timer_running := False, ru_window := w, ru_next_reassembly := sn\<rparr>"]
    by (auto simp: ru_on_expired_reassembly_timer_def ru_kept_def ru_timer_set_def Let_def)
qed

section \<open>Reachable states\<close>

text \<open>
  The states of a receiver that gets PDUs satisfying \<open>ok\<close> (any bytes, or what a transmitter builds)
  and whose reassembly timer expires at any moment.
\<close>

inductive ru_reachable :: "(bytes \<Rightarrow> bool) \<Rightarrow> rlc_rx_um_config \<Rightarrow> rlc_rx_um \<Rightarrow> bool" for ok cfg where
  ru_init: "rx_um_new cfg = Some st \<Longrightarrow> ru_reachable ok cfg st"
| ru_pdu: "ru_reachable ok cfg st \<Longrightarrow> ok buf \<Longrightarrow> ru_handle_pdu pool_ok buf st = Some (st', out)
     \<Longrightarrow> ru_reachable ok cfg st'"
| ru_expiry: "ru_reachable ok cfg st \<Longrightarrow> ru_on_expired_reassembly_timer st = Some st'
     \<Longrightarrow> ru_reachable ok cfg st'"

lemma ru_reachable_inv:
  "ru_reachable (um_consistent (rxum_sn_field_length cfg)) cfg st \<Longrightarrow> ru_inv st \<and> ru_cfg st = cfg"
proof (induction rule: ru_reachable.induct)
  case (ru_init st)
  then show ?case using rx_um_new_inv[of cfg] by auto
next
  case (ru_pdu st buf pool_ok st' out)
  then show ?case using ru_handle_pdu_total_inv[of st buf pool_ok] by auto
next
  case (ru_expiry st st')
  then show ?case using ru_expire_inv[of st] by auto
qed

lemma ru_reachable_win: "ru_reachable ok cfg st \<Longrightarrow> um_win (ru_size st) (ru_window st) \<and> ru_cfg st = cfg"
proof (induction rule: ru_reachable.induct)
  case (ru_init st)
  then show ?case using rx_um_new_inv[of cfg] by (auto simp: ru_inv_def)
next
  case (ru_pdu st buf pool_ok st' out)
  then show ?case using ru_handle_pdu_no_assert[of st pool_ok buf] by auto
next
  case (ru_expiry st st')
  then show ?case using ru_expire_no_assert[of st] by auto
qed

definition ru_demo_cfg :: rlc_rx_um_config where
  "ru_demo_cfg = \<lparr>rxum_sn_field_length = um_size12bits, rxum_t_reassembly = 50\<rparr>"

lemma ru_demo_reachable: "ru_reachable ok ru_demo_cfg (the (rx_um_new ru_demo_cfg))"
  using rx_um_new_inv[of ru_demo_cfg] by (auto intro: ru_init)

text \<open>Robustness against any input: in every state that an unacknowledged-mode receiver with a positive
  \<open>t-Reassembly\<close> reaches by PDUs of arbitrary bytes and expiries of the reassembly timer, both handlers
  return (no assertion of the reception window or of the timer fails) for every further PDU.\<close>

theorem um_rx_never_asserts:
  assumes "ru_reachable (\<lambda>_. True) cfg st" and "0 < rxum_t_reassembly cfg"
  shows "(\<exists>st' out. ru_handle_pdu pool_ok buf st = Some (st', out))
     \<and> (\<exists>st'. ru_on_expired_reassembly_timer st = Some st')"
  using ru_handle_pdu_no_assert[of st pool_ok buf] ru_expire_no_assert[of st] ru_reachable_win[OF assms(1)] assms(2)
  unfolding ru_timer_set_def by blast

theorem um_rx_never_asserts_witness:
  "(\<exists>st' out. ru_handle_pdu True [0x90, 5, 0, 0, 17] (the (rx_um_new ru_demo_cfg)) = Some (st', out))
     \<and> (\<exists>st'. ru_on_expired_reassembly_timer (the (rx_um_new ru_demo_cfg)) = Some st')"
  by (rule um_rx_never_asserts[OF ru_demo_reachable]) (simp add: ru_demo_cfg_def)

text \<open>Window invariant: as long as the PDUs are ones a transmitter can build (a last segment has
  a non-zero offset), every reachable state has \<open>RX_Next_Reassembly\<close> and the numbers of all SDUs in
  the reception buffer inside the SN space and in the window below \<open>RX_Next_Highest\<close>, no SDU is held
  below \<open>RX_Next_Reassembly\<close>, and the number of SDUs held is at most the window size.\<close>

theorem um_rx_window_invariant:
  assumes "ru_reachable (um_consistent (rxum_sn_field_length cfg)) cfg st"
  shows "unat (ru_next_reassembly st) < 2 ^ um_to_number (ru_size st)
     \<and> (sn_in_reassembly_window st (ru_next_reassembly st) \<or> ru_next_reassembly st = ru_next_highest st)
     \<and> (\<forall>sn. has_sn (ru_window st) sn \<longrightarrow> unat sn < 2 ^ um_to_number (ru_size st)
          \<and> sn_in_reassembly_window st sn \<and> \<not> sn_invalid_for_rx_buffer st sn)
     \<and> cm_size (ru_window st) \<le> unat (window_size (um_to_number (ru_size st)))"
proof -
  have inv: "ru_inv st" using ru_reachable_inv[OF assms] by blast
  have "cm_size (ru_window st) \<le> um_W (ru_size st)"
    using inv win.nof_bound[of "um_to_number (ru_size st) - 1" "ru_window st"]
    by (simp add: ru_inv_def um_win_def um_W_def)
  moreover have "ru_next_reassembly st = ru_next_highest st"
    if "\<not> um_off (ru_size st) (ru_next_highest st) (ru_next_reassembly st) < um_W (ru_size st)"
    using inv that um_off_inject[of "ru_next_reassembly st" "ru_size st" "ru_next_highest st" "ru_next_highest st"]
    by (simp add: ru_inv_def um_off_edges)
  ultimately show ?thesis
    using inv
    by (auto simp: ru_inv_def um_keys_def sn_in_reassembly_window_def um_in_window_off um_invalid_off
        has_sn_win_at um_W(3) not_less le_less)
qed

theorem um_rx_window_invariant_witness:
  "let st = the (rx_um_new ru_demo_cfg) in
     unat (ru_next_reassembly st) < 2 ^ um_to_number (ru_size st)
     \<and> (sn_in_reassembly_window st (ru_next_reassembly st) \<or> ru_next_reassembly st = ru_next_highest st)
     \<and> (\<forall>sn. has_sn (ru_window st) sn \<longrightarrow> unat sn < 2 ^ um_to_number (ru_size st)
          \<and> sn_in_reassembly_window st sn \<and> \<not> sn_invalid_for_rx_buffer st sn)
     \<and> cm_size (ru_window st) \<le> unat (window_size (um_to_number (ru_size st)))"
  unfolding Let_def by (rule um_rx_window_invariant[OF ru_demo_reachable])

end
