(* ===== verification/Rlc_Um_Channel.thy ===== *)
theory Rlc_Um_Channel
  imports Rlc_Tx_Um Rlc_Rx_Um
begin

text \<open>
  An unacknowledged-mode transmitter and receiver connected by a channel that neither loses nor
  reorders PDUs: the two sides stay synchronised, and the receiver delivers exactly the SDUs the
  transmitter completes, in order, whatever sizes the grants have.
\<close>

text \<open>
  Synchronised states.  Between two SDUs both edges of the receive window are at \<open>TX_Next\<close>.  While
  an SDU is under segmentation the receiver holds its bytes up to the transmitter's offset.
\<close>

definition um_sync :: "rlc_tx_um \<Rightarrow> rlc_rx_um \<Rightarrow> bool" where
  "um_sync tx rx \<longleftrightarrow> tu_inv tx \<and> ru_inv rx \<and> ru_size rx = txum_sn_field_length (tu_cfg tx)
     \<and> ru_next_reassembly rx = tu_tx_next tx
     \<and> (if tu_next_so tx = 0 then ru_next_highest rx = tu_tx_next tx
        else ru_next_highest rx = um_inc (ru_size rx) (tu_tx_next tx)
          \<and> (\<exists>info. win_at (ru_window rx) (tu_tx_next tx) = Some info
               \<and> segs_of (sdu_buf (tu_sdu tx)) (ui_segments info)
               \<and> covered (ui_segments info) = {..<unat (tu_next_so tx)}))"

text \<open>The header of a segment survives the trip.\<close>

lemma um_seg_header_read:
  assumes inv: "tu_inv tx" and seg: "tu_segment_sent tx seg tx'" "seg_payload seg \<noteq> []"
  defines "pdu \<equiv> rlc_um_write_data_pdu_header (um_seg_header tx seg) @ seg_payload seg"
  shows "rlc_um_read_data_pdu_header pdu (txum_sn_field_length (tu_cfg tx)) um_header_zero
      = Some (um_seg_header tx seg)"
    "rlc_um_nr_packed_length (um_seg_header tx seg) < length pdu"
    "drop (rlc_um_nr_packed_length (um_seg_header tx seg)) pdu = seg_payload seg"
    "ucast (umh_sn (um_seg_header tx seg)) = tu_tx_next tx"
proof -
  let ?s = "txum_sn_field_length (tu_cfg tx)" and ?h = "um_seg_header tx seg"
  have tx_next: "unat (tu_tx_next tx) < 2 ^ um_to_number ?s"
    using inv by (simp add: tu_inv_def)
  also have "(2::nat) ^ um_to_number ?s \<le> 2 ^ 12"
    by (cases ?s) simp_all
  finally have small: "unat (tu_tx_next tx) < 2 ^ 12" .
  then have sn: "unat (ucast (tu_tx_next tx) :: u16) = unat (tu_tx_next tx)"
    by (simp add: unsigned_ucast_eq take_bit_eq_mod)
  then show "ucast (umh_sn ?h) = tu_tx_next tx"
    by (simp add: um_seg_header_def word_unat_eq_iff)
  have "seg_lo seg = unat (tu_next_so tx)"
    using seg(1) unfolding tu_segment_sent_def Let_def by blast
  then have "unat (seg_so seg) = 0 \<longleftrightarrow> unat (tu_next_so tx) = 0"
    by (simp only: seg_lo_def)
  then have "seg_so seg = 0 \<longleftrightarrow> tu_next_so tx = 0"
    by (simp only: unsigned_eq_0_iff)
  moreover have "seg_si seg = first_segment \<and> tu_next_so tx = 0
      \<or> seg_si seg \<in> {last_segment, middle_segment} \<and> tu_next_so tx \<noteq> 0"
  proof -
    have "seg_si seg = (if tu_next_so tx = 0 then first_segment
       else if seg_hi seg = length (sdu_buf (tu_sdu tx)) then last_segment else middle_segment)"
      using seg(1) unfolding tu_segment_sent_def Let_def by blast
    then show ?thesis by simp
  qed
  ultimately have "um_header_ok ?h"
    using tx_next sn by (auto simp: um_header_ok_def um_seg_header_def)
  then have "rlc_um_read_data_pdu_header pdu (umh_sn_size ?h) um_header_zero = Some ?h"
    unfolding pdu_def by (intro read_write_um_header) (simp_all add: um_header_zero_def)
  then show "rlc_um_read_data_pdu_header pdu ?s um_header_zero = Some ?h"
    by (simp add: um_seg_header_def)
  show "rlc_um_nr_packed_length ?h < length pdu" "drop (rlc_um_nr_packed_length ?h) pdu = seg_payload seg"
    using seg(2) by (simp_all add: pdu_def length_write_um_header[symmetric])
qed

lemma um_full_header_read:
  assumes "buf \<noteq> []" and pdu_def: "pdu = rlc_um_write_data_pdu_header (tu_full_header tx) @ buf"
  shows "\<exists>h'. rlc_um_read_data_pdu_header pdu (txum_sn_field_length (tu_cfg tx)) um_header_zero = Some h'
     \<and> umh_si h' = full_sdu \<and> rlc_um_nr_packed_length h' < length pdu
     \<and> drop (rlc_um_nr_packed_length h') pdu = buf"
  using assms(1) unfolding pdu_def
  by (cases "txum_sn_field_length (tu_cfg tx)")
    (simp_all add: tu_full_header_def rlc_um_write_data_pdu_header_def rlc_um_read_data_pdu_header_def
      um_octet0_fields si_of_bits_def um_header_zero_def rlc_um_nr_packed_length_def)

text \<open>What the receiver holds after the next segment.\<close>

lemma um_next_info:
  assumes sync: "um_sync tx rx" and seg: "tu_segment_sent tx seg tx'"
  defines "info \<equiv> um_stored_info (um_info_at rx (tu_tx_next tx)) (um_seg_header tx seg) (seg_payload seg)"
  shows "segs_of (sdu_buf (tu_sdu tx)) (ui_segments info)" "covered (ui_segments info) = {..<seg_hi seg}"
    "ui_fully_received info \<longleftrightarrow> seg_hi seg = length (sdu_buf (tu_sdu tx))"
    "ui_fully_received info \<Longrightarrow> chain_segments (ui_segments info) = sdu_buf (tu_sdu tx)"
proof -
  let ?buf = "sdu_buf (tu_sdu tx)" and ?sn = "tu_tx_next tx" and ?old = "um_info_at rx (tu_tx_next tx)"
  have s: "seg_of ?buf seg" "seg_lo seg = unat (tu_next_so tx)"
    using seg by (simp_all add: tu_segment_sent_def Let_def)
  have old: "segs_of ?buf (ui_segments ?old) \<and> covered (ui_segments ?old) = {..<unat (tu_next_so tx)}"
  proof (cases "tu_next_so tx = 0")
    case True
    have "win_at (ru_window rx) ?sn = None"
    proof (rule ccontr)
      assume "win_at (ru_window rx) ?sn \<noteq> None"
      then have "um_off (ru_size rx) (ru_next_highest rx) ?sn < um_W (ru_size rx)"
        using sync by (auto simp: um_sync_def ru_inv_def um_keys_def)
      with True sync show False
        by (simp add: um_sync_def um_off_edges)
    qed
    then show ?thesis
      using True by (simp add: um_info_at_def um_info_default_def segs_of_def chained_def)
  next
    case False
    then obtain i where "win_at (ru_window rx) ?sn = Some i" "segs_of ?buf (ui_segments i)"
        "covered (ui_segments i) = {..<unat (tu_next_so tx)}"
      using sync unfolding um_sync_def by (simp only: if_False) blast
    then show ?thesis by (simp add: um_info_at_def)
  qed
  have segs: "ui_segments info = snd (store_segment (ui_segments ?old) seg)"
    by (cases seg) (simp add: info_def um_stored_info_def um_seg_header_def Let_def)
  obtain stored segs' where st: "store_segment (ui_segments ?old) seg = (stored, segs')"
    by (cases "store_segment (ui_segments ?old) seg")
  note spec = store_segment_spec[OF _ s(1) st]
  show so: "segs_of ?buf (ui_segments info)"
    using old spec(1) st segs by simp
  show cov: "covered (ui_segments info) = {..<seg_hi seg}"
  proof -
    have "covered (ui_segments info) = {..<seg_lo seg} \<union> {seg_lo seg..<seg_hi seg}"
      using old spec(2) st segs s(2) by (simp add: seg_bytes_def)
    then show ?thesis
      using seg_of_range(1)[OF s(1)] by (simp add: ivl_disj_un_one(2))
  qed
  have len: "?buf \<noteq> []" "length ?buf \<le> 65536"
    using s(1) by (auto simp: seg_of_def)
  have full: "ui_fully_received info = snd (segment_inventory (ui_segments info))"
    by (simp add: info_def um_stored_info_def Let_def)
  show "ui_fully_received info \<longleftrightarrow> seg_hi seg = length ?buf"
    using segment_inventory_spec(1)[OF so len] cov full by simp
  show "ui_fully_received info \<Longrightarrow> chain_segments (ui_segments info) = ?buf"
    using segment_inventory_spec(3)[OF so len] full by simp
qed

text \<open>The sequence number just below the upper edge of the window.\<close>

lemma um_off_top: "um_off s (um_inc s sn) sn + 1 = um_W s"
  using um_off_shift(1)[of s sn sn sn] um_W(1)[of s] by (simp add: um_off_edges)

lemma um_sync_after:
  assumes sync: "um_sync tx rx" and seg: "tu_segment_sent tx seg tx'" and inv': "tu_inv tx'"
    and rx': "ru_inv rx'" "ru_cfg rx' = ru_cfg rx"
      "ru_next_highest rx' = um_inc (ru_size rx) (tu_tx_next tx)"
      "ru_next_reassembly rx' = (if seg_hi seg = length (sdu_buf (tu_sdu tx))
         then um_inc (ru_size rx) (tu_tx_next tx) else tu_tx_next tx)"
    and info: "seg_hi seg \<noteq> length (sdu_buf (tu_sdu tx)) \<Longrightarrow> win_at (ru_window rx') (tu_tx_next tx) = Some info"
      "segs_of (sdu_buf (tu_sdu tx)) (ui_segments info)" "covered (ui_segments info) = {..<seg_hi seg}"
  shows "um_sync tx' rx'"
proof -
  have s: "seg_of (sdu_buf (tu_sdu tx)) seg"
    and tx': "tx' = (if seg_hi seg = length (sdu_buf (tu_sdu tx))
            then (tu_release tx)\<lparr>tu_tx_next := (tu_tx_next tx + 1) mod tu_mod tx\<rparr>
            else tx\<lparr>tu_next_so := of_nat (seg_hi seg)\<rparr>)"
    using seg unfolding tu_segment_sent_def Let_def by blast+
  have size: "ru_size rx = txum_sn_field_length (tu_cfg tx)" and tinv: "tu_inv tx"
    using sync by (simp_all add: um_sync_def)
  show ?thesis
  proof (cases "seg_hi seg = length (sdu_buf (tu_sdu tx))")
    case True
    then show ?thesis
      using inv' rx' size by (simp add: um_sync_def tx' tu_release_def um_inc_def tu_mod_def)
  next
    case False
    have hi: "0 < seg_hi seg" "seg_hi seg \<le> 65535"
      using seg_of_range[OF s] s tinv by (auto simp: seg_of_def tu_inv_def)
    then have u: "unat (of_nat (seg_hi seg) :: u32) = seg_hi seg"
      by (simp add: unat_of_nat_u32)
    then have "(of_nat (seg_hi seg) :: u32) \<noteq> 0"
      using hi by (metis unsigned_0 less_irrefl)
    then show ?thesis
      using False inv' rx' size info u by (simp add: um_sync_def tx')
  qed
qed

text \<open>In a synchronised state nothing is missing, so the reassembly timer is not started.\<close>

lemma um_sync_timers:
  assumes "um_sync tx rx"
  shows "\<exists>rx'. ru_timers rx = Some rx' \<and> um_sync tx rx'"
proof -
  let ?s = "ru_size rx" and ?h = "ru_next_highest rx" and ?r = "ru_next_reassembly rx"
  have keys: "win_at (ru_window rx) ?h = None"
  proof (rule ccontr)
    assume "win_at (ru_window rx) ?h \<noteq> None"
    then have "um_off ?s ?h ?h < um_W ?s" using assms unfolding um_sync_def ru_inv_def um_keys_def by blast
    then show False by (simp add: um_off_edges)
  qed
  have inc: "um_off ?s ?h (?r + 1) = (um_off ?s ?h ?r + 1) mod 2 ^ um_to_number ?s"
    using um_off_inc[of ?s ?h ?r] by (simp add: um_inc_def um_off_def mod_cardinality sn_off_take_bit um_to_number_32)
  have wide: "um_W ?s + 1 < 2 ^ um_to_number ?s" by (cases ?s) (simp_all add: um_W_def)
  have "?h = ?r \<or> ?h = um_inc ?s ?r" using assms by (auto simp: um_sync_def split: if_splits)
  then have "um_off ?s ?h ?r = um_W ?s \<or> um_off ?s ?h ?r + 1 = um_W ?s"
    using um_off_top[of ?s ?r] um_off_edges(1)[of ?s ?r] by auto
  then have "um_W ?s \<le> um_off ?s ?h (?r + 1)"
    using inc um_W[of ?s] wide by auto
  then have "\<not> ru_restart rx"
    using keys by (simp add: ru_restart_def um_base_less um_off_edges Let_def)
  then obtain rx' where rx': "ru_timers rx = Some rx'" "ru_kept rx rx'"
    using ru_timers_cases[of rx] by blast
  have "ru_inv rx'" using ru_kept_inv[OF rx'(2)] assms by (simp add: um_sync_def)
  then have "um_sync tx rx'" using assms rx'(2) by (simp add: um_sync_def ru_kept_def)
  then show ?thesis using rx'(1) by blast
qed

text \<open>One PDU across the channel.\<close>

lemma um_sync_segment:
  assumes sync: "um_sync tx rx" and seg: "tu_segment_sent tx seg tx'"
    and pdu: "pdu = rlc_um_write_data_pdu_header (um_seg_header tx seg) @ seg_payload seg"
  shows "\<exists>rx'. ru_handle_pdu True pdu rx = Some (rx',
       if seg_hi seg = length (sdu_buf (tu_sdu tx)) then [sdu_buf (tu_sdu tx)] else []) \<and> um_sync tx' rx'"
proof -
  let ?buf = "sdu_buf (tu_sdu tx)" and ?sn = "tu_tx_next tx" and ?h = "um_seg_header tx seg"
  let ?info = "um_stored_info (um_info_at rx ?sn) ?h (seg_payload seg)"
  have inv: "tu_inv tx" "ru_inv rx" and size: "ru_size rx = txum_sn_field_length (tu_cfg tx)"
    and R: "ru_next_reassembly rx = ?sn"
    using sync by (simp_all add: um_sync_def)
  have s: "seg_of ?buf seg" "seg_lo seg = unat (tu_next_so tx)"
    and si: "seg_si seg = (if tu_next_so tx = 0 then first_segment
            else if seg_hi seg = length ?buf then last_segment else middle_segment)"
    using seg by (simp_all add: tu_segment_sent_def Let_def)
  have payload: "seg_payload seg \<noteq> []"
    using s(1) by (simp add: seg_of_def)
  note rd = um_seg_header_read[OF inv(1) seg payload, folded pdu]
  note nx = um_next_info[OF sync seg]
  have fields: "umh_si ?h = seg_si seg" "umh_so ?h = seg_so seg"
    by (simp_all add: um_seg_header_def)
  have so: "seg_so seg \<noteq> 0" if "tu_next_so tx \<noteq> 0"
    using that s(2) by (metis seg_lo_def unsigned_eq_0_iff)
  have valid: "\<not> sn_invalid_for_rx_buffer rx ?sn"
    by (simp add: um_invalid_off R)
  have "\<exists>rx'. ru_segment True ?h (seg_payload seg) rx = Some (rx',
       if ui_fully_received ?info \<and> True then [chain_segments (ui_segments ?info)] else [])
     \<and> ru_inv rx' \<and> ru_cfg rx' = ru_cfg rx
     \<and> ru_next_highest rx' = (if sn_in_reassembly_window rx ?sn then ru_next_highest rx else um_inc (ru_size rx) ?sn)
     \<and> (\<not> ui_fully_received ?info \<longrightarrow> win_at (ru_window rx') ?sn = Some ?info)
     \<and> (ui_fully_received ?info \<longrightarrow> sn_in_reassembly_window rx ?sn)
     \<and> (ru_next_reassembly rx = ?sn \<longrightarrow> (if ui_fully_received ?info
          then um_off (ru_size rx) (ru_next_highest rx) ?sn + 1 = um_W (ru_size rx)
            \<longrightarrow> ru_next_reassembly rx' = ru_next_highest rx
          else ru_next_reassembly rx' = ?sn))"
    using ru_segment_spec[OF inv(2), of ?h True "seg_payload seg"] rd(4) valid fields si so
      read_um_header_bounds(1)[OF rd(1)] size by (simp split: if_splits)
  then obtain rx' where rx': "ru_segment True ?h (seg_payload seg) rx = Some (rx',
       if ui_fully_received ?info then [chain_segments (ui_segments ?info)] else [])"
     "ru_inv rx'" "ru_cfg rx' = ru_cfg rx"
     "ru_next_highest rx' = (if sn_in_reassembly_window rx ?sn then ru_next_highest rx else um_inc (ru_size rx) ?sn)"
     "\<not> ui_fully_received ?info \<longrightarrow> win_at (ru_window rx') ?sn = Some ?info"
     "ui_fully_received ?info \<longrightarrow> sn_in_reassembly_window rx ?sn"
     "if ui_fully_received ?info
          then um_off (ru_size rx) (ru_next_highest rx) ?sn + 1 = um_W (ru_size rx)
            \<longrightarrow> ru_next_reassembly rx' = ru_next_highest rx
          else ru_next_reassembly rx' = ?sn"
    using R by auto
  have "ru_handle_pdu True pdu rx = Option.bind (ru_timers rx')
       (\<lambda>rx. Some (rx, if ui_fully_received ?info then [chain_segments (ui_segments ?info)] else []))"
    using ru_handle_pdu_cases[of pdu rx ?h True] rd size valid fields si rx'(1) by (simp split: if_splits)
  moreover have "um_sync tx' rx'"
  proof (rule um_sync_after[OF sync seg, where info = ?info])
    show "tu_inv tx'"
      using tu_outcome_inv[OF inv(1), of pdu tx'] seg pdu by (auto simp: tu_outcome_def)
    show "ru_inv rx'" "ru_cfg rx' = ru_cfg rx" by (rule rx'(2,3))+
    have first: "\<not> sn_in_reassembly_window rx ?sn" if "tu_next_so tx = 0"
      using that sync by (simp add: um_sync_def sn_in_reassembly_window_def um_in_window_off um_off_edges)
    have H: "ru_next_highest rx = um_inc (ru_size rx) ?sn" if "tu_next_so tx \<noteq> 0"
      using that sync by (simp add: um_sync_def)
    then have later: "sn_in_reassembly_window rx ?sn" if "tu_next_so tx \<noteq> 0"
      using that um_off_top[of "ru_size rx" ?sn]
      by (simp add: sn_in_reassembly_window_def um_in_window_off)
    show "ru_next_highest rx' = um_inc (ru_size rx) ?sn"
      using rx'(4) first H later by auto
    have nz: "tu_next_so tx \<noteq> 0" if "seg_hi seg = length ?buf"
      using that s(1) si by (auto simp: seg_of_def)
    show "ru_next_reassembly rx' = (if seg_hi seg = length ?buf
         then um_inc (ru_size rx) ?sn else ?sn)"
    proof (cases "seg_hi seg = length ?buf")
      case True
      note h = H[OF nz[OF True]]
      have "um_off (ru_size rx) (ru_next_highest rx) ?sn + 1 = um_W (ru_size rx)"
        unfolding h by (rule um_off_top)
      then show ?thesis
        using rx'(7) nx(3) True h by simp
    next
      case False
      then show ?thesis using rx'(7) nx(3) by simp
    qed
    show "win_at (ru_window rx') ?sn = Some ?info" if "seg_hi seg \<noteq> length ?buf"
      using that rx'(5) nx(3) by simp
    show "segs_of ?buf (ui_segments ?info)" using nx(1) .
    show "covered (ui_segments ?info) = {..<seg_hi seg}" using nx(2) .
  qed
  ultimately show ?thesis
    using nx(3,4) um_sync_timers[of tx' rx'] by auto
qed

lemma um_sync_full:
  assumes sync: "um_sync tx rx" and so: "tu_next_so tx = 0" and buf: "sdu_buf (tu_sdu tx) \<noteq> []"
    and pdu: "pdu = rlc_um_write_data_pdu_header (tu_full_header tx) @ sdu_buf (tu_sdu tx)"
  shows "ru_handle_pdu True pdu rx = Some (rx, [sdu_buf (tu_sdu tx)]) \<and> um_sync (tu_release tx) rx"
proof -
  have size: "ru_size rx = txum_sn_field_length (tu_cfg tx)"
    using sync by (simp add: um_sync_def)
  have "ru_handle_pdu True pdu rx = Some (rx, [sdu_buf (tu_sdu tx)])"
    using um_full_header_read[OF buf pdu] ru_handle_pdu_cases[of pdu rx _ True] size by auto
  moreover have "tu_inv (tu_release tx)"
    using sync so by (auto simp: um_sync_def tu_inv_def tu_release_def)
  ultimately show ?thesis
    using sync so by (simp add: um_sync_def tu_release_def)
qed

section \<open>A run over the channel\<close>

text \<open>
  A list of grants: every PDU pulled goes to the receiver.  The run collects the SDUs whose last
  byte was sent and the SDUs delivered.
\<close>

definition um_current :: "rlc_tx_um \<Rightarrow> bytes" where
  "um_current tx = sdu_buf (tu_sdu (fst (snd (tu_get_sdu tx))))"

fun um_run :: "u32 list \<Rightarrow> rlc_tx_um \<Rightarrow> rlc_rx_um \<Rightarrow> (rlc_tx_um \<times> rlc_rx_um \<times> bytes list \<times> bytes list) option" where
  "um_run [] tx rx = Some (tx, rx, [], [])"
| "um_run (g # gs) tx rx = (case tu_pull_pdu g tx of (pdu, tx', _) \<Rightarrow>
     if pdu = [] then um_run gs tx' rx
     else do {
       (rx', out) \<leftarrow> ru_handle_pdu True pdu rx;
       (tx2, rx2, sent, dlv) \<leftarrow> um_run gs tx' rx';
       Some (tx2, rx2, (if sdu_buf (tu_sdu tx') = [] then [um_current tx] else []) @ sent, out @ dlv)
     })"

lemma um_sync_get_sdu:
  assumes sync: "um_sync tx rx" and get: "tu_get_sdu tx = (ok, tx1, ev)"
  shows "um_sync tx1 rx"
proof (cases "sdu_buf (tu_sdu tx) = []")
  case True
  then have so: "tu_next_so tx = 0"
    using sync by (simp add: um_sync_def tu_inv_def)
  have "tu_inv tx1"
    using tu_get_sdu_inv[OF _ get] sync by (simp add: um_sync_def)
  moreover have "tu_cfg tx1 = tu_cfg tx" "tu_tx_next tx1 = tu_tx_next tx" "tu_next_so tx1 = tu_next_so tx"
    using get True by (auto simp: tu_get_sdu_def Let_def split: prod.splits if_splits)
  ultimately show ?thesis
    using sync so by (simp add: um_sync_def)
next
  case False
  then show ?thesis using get sync by (simp add: tu_get_sdu_def)
qed

lemma tu_pull_empty:
  assumes "tu_inv tx" and "tu_pull_pdu g tx = ([], tx', ev)"
  shows "tx' = tx \<or> (\<exists>ok. tu_get_sdu tx = (ok, tx', ev))"
proof (cases "g \<le> head_len_full tx")
  case True
  then show ?thesis using assms(2) by (simp add: tu_pull_pdu_def)
next
  case g: False
  obtain ok tx1 ev1 where get: "tu_get_sdu tx = (ok, tx1, ev1)"
    using prod_cases3 by blast
  show ?thesis
  proof (cases ok)
    case False
    then show ?thesis using assms(2) g get by (auto simp: tu_pull_pdu_def)
  next
    case True
    then have "tu_build_pdu g tx1 = ([], tx')" "ev1 = ev"
      using assms(2) g get by (auto simp: tu_pull_pdu_def split: prod.splits)
    moreover have "tx' = tx1" if "tu_build_pdu g tx1 = ([], tx')"
      using that by (auto simp: tu_build_pdu_def Let_def split: option.splits if_splits)
    ultimately show ?thesis using get True by auto
  qed
qed

lemma um_sync_pull:
  assumes sync: "um_sync tx rx" and pull: "tu_pull_pdu g tx = (pdu, tx', ev)"
  shows "if pdu = [] then um_sync tx' rx
    else \<exists>rx'. um_sync tx' rx' \<and> ru_handle_pdu True pdu rx
      = Some (rx', if sdu_buf (tu_sdu tx') = [] then [um_current tx] else [])"
proof -
  have inv: "tu_inv tx" using sync by (simp add: um_sync_def)
  show ?thesis
  proof (cases "pdu = []")
    case True
    then show ?thesis
      using tu_pull_empty[OF inv, of g tx' ev] pull um_sync_get_sdu[OF sync] sync by auto
  next
    case False
    then obtain tx1 where tx1: "tu_get_sdu tx = (True, tx1, ev)" "tu_inv tx1" "sdu_buf (tu_sdu tx1) \<noteq> []"
        "tu_outcome tx1 pdu tx'"
      using tu_pull_pdu_spec(3)[OF inv pull] by blast
    note sync1 = um_sync_get_sdu[OF sync tx1(1)]
    have cur: "um_current tx = sdu_buf (tu_sdu tx1)"
      by (simp add: um_current_def tx1(1))
    from tx1(4) False consider (full) "tu_next_so tx1 = 0"
        "pdu = rlc_um_write_data_pdu_header (tu_full_header tx1) @ sdu_buf (tu_sdu tx1)" "tx' = tu_release tx1"
      | (seg) seg where "tu_segment_sent tx1 seg tx'"
        "pdu = rlc_um_write_data_pdu_header (um_seg_header tx1 seg) @ seg_payload seg"
      unfolding tu_outcome_def by blast
    then show ?thesis
    proof cases
      case full
      then show ?thesis
        using um_sync_full[OF sync1 full(1) tx1(3) full(2)] False cur
        by (simp add: tu_release_def)
    next
      case (seg seg)
      have "sdu_buf (tu_sdu tx') = [] \<longleftrightarrow> seg_hi seg = length (sdu_buf (tu_sdu tx1))"
        using seg(1) tx1(3) unfolding tu_segment_sent_def Let_def tu_release_def by auto
      then show ?thesis
        using um_sync_segment[OF sync1 seg] False cur by auto
    qed
  qed
qed

text \<open>
  The SDUs still to be sent: the one under segmentation, then the queue.  No SDU of the queue is
  marked as discarded and none is empty.
\<close>

definition um_pending :: "rlc_tx_um \<Rightarrow> bytes list" where
  "um_pending tx = (if sdu_buf (tu_sdu tx) = [] then [] else [sdu_buf (tu_sdu tx)])
     @ map sdu_buf (sq_abs (tu_sdu_queue tx))"

definition um_no_discard :: "rlc_tx_um \<Rightarrow> bool" where
  "um_no_discard tx \<longleftrightarrow> sq_abs (tu_sdu_queue tx) = sq_queue (tu_sdu_queue tx)
     \<and> (\<forall>s \<in> set (sq_queue (tu_sdu_queue tx)). sdu_buf s \<noteq> [])"

lemma sq_read_all_live:
  assumes wf: "sq_wf q" and live: "sq_abs q = sq_queue q"
  shows "sq_read sdu q = (case sq_queue q of [] \<Rightarrow> (False, sdu, q)
     | s # rest \<Rightarrow> (True, s, snd (snd (sq_read sdu q))))"
    "sq_abs (snd (snd (sq_read sdu q))) = sq_queue (snd (snd (sq_read sdu q)))"
    "sq_queue (snd (snd (sq_read sdu q))) = tl (sq_queue q)"
proof -
  have "sq_read sdu q = (case sq_queue q of [] \<Rightarrow> (False, sdu, q)
     | s # rest \<Rightarrow> (True, s, snd (snd (sq_read sdu q))))
    \<and> sq_abs (snd (snd (sq_read sdu q))) = sq_queue (snd (snd (sq_read sdu q)))
    \<and> sq_queue (snd (snd (sq_read sdu q))) = tl (sq_queue q)"
  proof (cases "sq_queue q")
    case Nil
    then show ?thesis using live by (simp add: sq_read.simps[of sdu q])
  next
    case (Cons front rest)
    show ?thesis
    proof (cases "sdu_pdcp_sn front")
      case None
      then have "sq_read sdu q = (True, front, sq_state_sub (of_nat (length (sdu_buf front))) (q\<lparr>sq_queue := rest\<rparr>))"
        using Cons by (simp add: sq_read.simps[of sdu q])
      then show ?thesis
        using sq_pop_plain(2)[OF wf Cons None] live Cons by (simp add: sq_state_sub_def)
    next
      case (Some sn)
      let ?r = "sq_check_and_release (q\<lparr>sq_queue := rest\<rparr>) sn"
      note pop = sq_pop_release[OF wf Cons Some]
      have "fst ?r"
      proof (rule ccontr)
        assume "\<not> fst ?r"
        then have "sq_abs q = sq_abs (snd ?r)" using pop(3) by simp
        then have "length (front # rest) \<le> length rest"
          using live Cons length_sq_abs[of "snd ?r"] by simp
        then show False by simp
      qed
      then show ?thesis
        using Cons Some pop(3) live by (simp add: sq_read.simps[of sdu q])
    qed
  qed
  then show "sq_read sdu q = (case sq_queue q of [] \<Rightarrow> (False, sdu, q)
     | s # rest \<Rightarrow> (True, s, snd (snd (sq_read sdu q))))"
    "sq_abs (snd (snd (sq_read sdu q))) = sq_queue (snd (snd (sq_read sdu q)))"
    "sq_queue (snd (snd (sq_read sdu q))) = tl (sq_queue q)" by blast+
qed

lemma um_pending_get_sdu:
  assumes inv: "tu_inv tx" and nd: "um_no_discard tx" and get: "tu_get_sdu tx = (ok, tx1, ev)"
  shows "um_pending tx1 = um_pending tx" "um_no_discard tx1"
proof -
  have "um_pending tx1 = um_pending tx \<and> um_no_discard tx1"
  proof (cases "sdu_buf (tu_sdu tx) = []")
    case False
    then show ?thesis using get nd by (simp add: tu_get_sdu_def)
  next
    case True
    let ?q = "tu_sdu_queue tx"
    have wf: "sq_wf ?q" using inv by (simp add: tu_inv_def)
    have live: "sq_abs ?q = sq_queue ?q" using nd by (simp add: um_no_discard_def)
    note rd = sq_read_all_live[OF wf live, of "tu_sdu tx"]
    show ?thesis
    proof (cases "sq_queue ?q")
      case Nil
      then have "tx1 = tx"
        using get True rd(1) by (auto simp: tu_get_sdu_def Let_def)
      then show ?thesis using nd by simp
    next
      case (Cons s rest)
      let ?q' = "snd (snd (sq_read (tu_sdu tx) ?q))"
      have "sq_read (tu_sdu tx) ?q = (True, s, ?q')"
        using rd(1) unfolding Cons list.case .
      then have "tx1 = tx\<lparr>tu_sdu := s, tu_sdu_queue := ?q'\<rparr>"
        using get True by (auto simp: tu_get_sdu_def Let_def split: prod.splits)
      then show ?thesis
        using rd(2,3) Cons live nd True by (auto simp: um_pending_def um_no_discard_def)
    qed
  qed
  then show "um_pending tx1 = um_pending tx" "um_no_discard tx1" by blast+
qed

lemma um_pending_outcome:
  assumes out: "tu_outcome tx pdu tx'" and pdu: "pdu \<noteq> []" and buf: "sdu_buf (tu_sdu tx) \<noteq> []"
  shows "um_pending tx = (if sdu_buf (tu_sdu tx') = [] then [sdu_buf (tu_sdu tx)] else []) @ um_pending tx'"
    "um_no_discard tx' = um_no_discard tx"
proof -
  have "tx' = tu_release tx \<or> (\<exists>n. tx' = (tu_release tx)\<lparr>tu_tx_next := n\<rparr>) \<or> (\<exists>n. tx' = tx\<lparr>tu_next_so := n\<rparr>)"
    using out pdu unfolding tu_outcome_def tu_segment_sent_def Let_def by metis
  then show "um_pending tx = (if sdu_buf (tu_sdu tx') = [] then [sdu_buf (tu_sdu tx)] else []) @ um_pending tx'"
    "um_no_discard tx' = um_no_discard tx"
    using buf by (auto simp: um_pending_def um_no_discard_def tu_release_def)
qed

text \<open>The receiver delivers what the transmitter completed.\<close>

definition um_run_ok :: "rlc_tx_um \<Rightarrow> (rlc_tx_um \<times> rlc_rx_um \<times> bytes list \<times> bytes list) option \<Rightarrow> bool" where
  "um_run_ok tx r \<longleftrightarrow> (\<exists>tx' rx' sent. r = Some (tx', rx', sent, sent) \<and> um_sync tx' rx'
     \<and> um_pending tx = sent @ um_pending tx' \<and> um_no_discard tx')"

lemma um_run_spec:
  assumes "um_sync tx rx" and "um_no_discard tx"
  shows "um_run_ok tx (um_run gs tx rx)"
  using assms
proof (induction gs arbitrary: tx rx)
  case Nil
  then show ?case by (simp add: um_run_ok_def)
next
  case (Cons g gs)
  obtain pdu tx1 ev where pull: "tu_pull_pdu g tx = (pdu, tx1, ev)"
    using prod_cases3 by blast
  have inv: "tu_inv tx" using Cons.prems by (simp add: um_sync_def)
  note step = um_sync_pull[OF Cons.prems(1) pull]
  show ?case
  proof (cases "pdu = []")
    case True
    have "um_pending tx1 = um_pending tx \<and> um_no_discard tx1"
      using tu_pull_empty[OF inv, of g tx1 ev] pull True um_pending_get_sdu[OF inv Cons.prems(2)] Cons.prems(2)
      by auto
    then show ?thesis
      using step Cons.IH[of tx1 rx] pull True by (simp add: um_run_ok_def)
  next
    case False
    then obtain rx1 where rx1: "um_sync tx1 rx1" "ru_handle_pdu True pdu rx
        = Some (rx1, if sdu_buf (tu_sdu tx1) = [] then [um_current tx] else [])"
      using step by auto
    obtain tx0 where tx0: "tu_get_sdu tx = (True, tx0, ev)" "sdu_buf (tu_sdu tx0) \<noteq> []" "tu_outcome tx0 pdu tx1"
      using tu_pull_pdu_spec(3)[OF inv pull False] by blast
    have cur: "um_current tx = sdu_buf (tu_sdu tx0)"
      by (simp add: um_current_def tx0(1))
    note p = um_pending_get_sdu[OF inv Cons.prems(2) tx0(1)] um_pending_outcome[OF tx0(3) False tx0(2)]
    obtain tx2 rx2 sent where r: "um_run gs tx1 rx1 = Some (tx2, rx2, sent, sent)" "um_sync tx2 rx2"
        "um_pending tx1 = sent @ um_pending tx2" "um_no_discard tx2"
      using Cons.IH[OF rx1(1)] p by (auto simp: um_run_ok_def)
    show ?thesis
      using False pull rx1(2) r p cur
      by (cases "sdu_buf (tu_sdu tx1) = []") (simp_all add: um_run_ok_def)
  qed
qed

lemma um_sync_init:
  assumes "tx_um_new tcfg = Some tx" and "rx_um_new rcfg = Some rx" and "0 < unat (txum_queue_size tcfg)"
    and "rxum_sn_field_length rcfg = txum_sn_field_length tcfg"
  shows "um_sync tx rx" "um_no_discard tx"
proof -
  have tx: "tu_cfg tx = tcfg" "tu_tx_next tx = 0" "tu_next_so tx = 0" "sdu_buf (tu_sdu tx) = []"
    "tu_sdu_queue tx = sq_new (txum_queue_size tcfg) (txum_queue_size_bytes tcfg)"
    using assms(1) by (auto simp: tx_um_new_def sdu_default_def split: if_splits)
  have rx: "ru_inv rx" "ru_cfg rx = rcfg"
    using rx_um_new_inv[of rcfg] assms(2) by auto
  have rx0: "ru_next_reassembly rx = 0" "ru_next_highest rx = 0"
    using assms(2) by (auto simp: rx_um_new_def bind_eq_Some_conv')
  have "tu_inv tx"
    using tx sq_new_wf[OF assms(3)] by (simp add: tu_inv_def sq_new_def)
  then show "um_sync tx rx"
    using tx rx rx0 assms(4) by (simp add: um_sync_def)
  show "um_no_discard tx"
    using tx by (simp add: um_no_discard_def) (simp add: sq_new_def)
qed

section \<open>SDUs and grants in any order\<close>

text \<open>
  What happens on the channel: the upper layer hands over an SDU (\<open>handle_sdu\<close>; whether the cell
  executor accepts the deferred update, and the retransmission flag, are part of the action) or the
  MAC layer asks for a PDU, which the receiver gets at once.  The run returns the SDUs accepted by
  the queue and the SDUs delivered.
\<close>

datatype um_action = Um_sdu bool bytes bool | Um_grant u32

definition tu_accepts :: "rlc_tx_um \<Rightarrow> bytes \<Rightarrow> bool" where
  "tu_accepts tx buf \<longleftrightarrow> fst (sq_write (tu_sdu_queue tx) (sdu_default\<lparr>sdu_buf := buf,
     sdu_pdcp_sn := get_pdcp_sn buf (txum_pdcp_sn_len (tu_cfg tx)) False\<rparr>))"

fun um_exec :: "um_action list \<Rightarrow> rlc_tx_um \<Rightarrow> rlc_rx_um
     \<Rightarrow> (rlc_tx_um \<times> rlc_rx_um \<times> bytes list \<times> bytes list) option" where
  "um_exec [] tx rx = Some (tx, rx, [], [])"
| "um_exec (Um_sdu defer_ok buf is_retx # as) tx rx = do {
     (tx', rx', accepted, delivered) \<leftarrow> um_exec as (fst (tu_handle_sdu defer_ok buf is_retx tx)) rx;
     Some (tx', rx', (if tu_accepts tx buf then [buf] else []) @ accepted, delivered)
   }"
| "um_exec (Um_grant g # as) tx rx = do {
     (tx1, rx1, _, out) \<leftarrow> um_run [g] tx rx;
     (tx', rx', accepted, delivered) \<leftarrow> um_exec as tx1 rx1;
     Some (tx', rx', accepted, out @ delivered)
   }"

definition um_action_ok :: "um_action \<Rightarrow> bool" where
  "um_action_ok a = (case a of Um_sdu _ buf _ \<Rightarrow> buf \<noteq> [] \<and> length buf \<le> 65535 | Um_grant _ \<Rightarrow> True)"

lemma sq_write_queue:
  "sq_queue (snd (sq_write q s)) = (if fst (sq_write q s) then sq_queue q @ [s] else sq_queue q)"
  by (simp add: sq_write_def sq_push_counted_def sq_try_push_def sq_state_add_def Let_def
      split: option.splits)

lemma um_handle_sdu_step:
  fixes defer_ok is_retx :: bool
  assumes sync: "um_sync tx rx" and nd: "um_no_discard tx" and buf: "buf \<noteq> []" "length buf \<le> 65535"
  defines "tx' \<equiv> fst (tu_handle_sdu defer_ok buf is_retx tx)"
  shows "um_sync tx' rx" "um_no_discard tx'"
    "um_pending tx' = um_pending tx @ (if tu_accepts tx buf then [buf] else [])"
proof -
  define sdu where "sdu = sdu_default\<lparr>sdu_buf := buf,
     sdu_pdcp_sn := get_pdcp_sn buf (txum_pdcp_sn_len (tu_cfg tx)) False\<rparr>"
  let ?q = "tu_sdu_queue tx"
  have fields: "tu_cfg tx' = tu_cfg tx" "tu_tx_next tx' = tu_tx_next tx" "tu_next_so tx' = tu_next_so tx"
      "tu_sdu tx' = tu_sdu tx" "tu_sdu_queue tx' = snd (sq_write ?q sdu)"
    by (simp_all add: tx'_def tu_handle_sdu_def tu_handle_changed_buffer_state_def Let_def case_prod_beta sdu_def)
  have inv: "tu_inv tx" "tu_inv tx'"
    using sync tu_handle_sdu_inv[of tx buf] buf by (simp_all add: um_sync_def tx'_def)
  have acc: "tu_accepts tx buf = fst (sq_write ?q sdu)"
    by (simp add: tu_accepts_def sdu_def)
  have "sdu_sn_ok sdu"
    by (rule pdcp_sdu_sn_ok) (simp add: sdu_def)
  then have abs: "sq_abs (snd (sq_write ?q sdu))
      = (if fst (sq_write ?q sdu) then sq_abs ?q @ [sdu] else sq_abs ?q)"
    using inv by (intro fifo.write_contents) (simp_all add: tu_inv_def)
  show "um_sync tx' rx"
    using sync inv fields by (simp add: um_sync_def)
  show "um_no_discard tx'"
    using nd abs buf by (auto simp: um_no_discard_def fields sq_write_queue sdu_def)
  show "um_pending tx' = um_pending tx @ (if tu_accepts tx buf then [buf] else [])"
    using abs by (simp add: um_pending_def fields acc) (simp add: sdu_def)
qed

lemma um_exec_spec:
  assumes "um_sync tx rx" and "um_no_discard tx" and "list_all um_action_ok as"
  shows "\<exists>tx' rx' accepted delivered. um_exec as tx rx = Some (tx', rx', accepted, delivered)
     \<and> um_sync tx' rx' \<and> um_pending tx @ accepted = delivered @ um_pending tx'"
  using assms
proof (induction as arbitrary: tx rx)
  case Nil
  then show ?case by simp
next
  case (Cons a as)
  show ?case
  proof (cases a)
    case (Um_sdu defer_ok buf is_retx)
    note step = um_handle_sdu_step[OF Cons.prems(1,2), of buf defer_ok is_retx]
    then show ?thesis
      using Cons.IH[of "fst (tu_handle_sdu defer_ok buf is_retx tx)" rx] Cons.prems(3) Um_sdu
      by (auto simp: um_action_ok_def)
  next
    case (Um_grant g)
    obtain tx1 rx1 sent where run: "um_run [g] tx rx = Some (tx1, rx1, sent, sent)" "um_sync tx1 rx1"
        "um_pending tx = sent @ um_pending tx1" "um_no_discard tx1"
      using um_run_spec[OF Cons.prems(1,2), of "[g]"] unfolding um_run_ok_def by blast
    obtain tx' rx' accepted delivered where "um_exec as tx1 rx1 = Some (tx', rx', accepted, delivered)"
        "um_sync tx' rx'" "um_pending tx1 @ accepted = delivered @ um_pending tx'"
      using Cons.IH[OF run(2,4)] Cons.prems(3) by auto
    then show ?thesis
      using run Um_grant by (simp del: um_run.simps)
  qed
qed

text \<open>C26: Between a fresh unacknowledged-mode transmitter and a fresh receiver with the same
  sequence-number size, whatever SDUs are queued and whatever grants are given, in any order: no
  assertion fails, and the SDUs accepted by the transmit queue are exactly the SDUs delivered by the
  receiver, in order and byte for byte, followed by those the transmitter still holds.\<close>

theorem um_channel_lossless:
  assumes "tx_um_new tcfg = Some tx" and "rx_um_new rcfg = Some rx" and "0 < unat (txum_queue_size tcfg)"
    and "rxum_sn_field_length rcfg = txum_sn_field_length tcfg" and "list_all um_action_ok as"
  shows "\<exists>tx' rx' accepted delivered. um_exec as tx rx = Some (tx', rx', accepted, delivered)
     \<and> accepted = delivered @ um_pending tx'"
proof -
  have "um_pending tx = []"
    using assms(1) by (auto simp: tx_um_new_def um_pending_def sdu_default_def split: if_splits)
  then show ?thesis
    using um_exec_spec[OF um_sync_init[OF assms(1-4)] assms(5)] by auto
qed

definition um_demo_tcfg :: rlc_tx_um_config where
  "um_demo_tcfg = \<lparr>txum_sn_field_length = um_size6bits, txum_pdcp_sn_len = pdcp_size12bits,
     txum_queue_size = 4, txum_queue_size_bytes = 1000\<rparr>"

definition um_demo_rcfg :: rlc_rx_um_config where
  "um_demo_rcfg = \<lparr>rxum_sn_field_length = um_size6bits, rxum_t_reassembly = 50\<rparr>"

theorem um_channel_lossless_witness:
  "\<exists>tx' rx' accepted delivered. um_exec [Um_sdu True [0x80, 1, 7, 8, 9] False, Um_grant 4, Um_grant 9]
       (the (tx_um_new um_demo_tcfg)) (the (rx_um_new um_demo_rcfg)) = Some (tx', rx', accepted, delivered)
     \<and> accepted = delivered @ um_pending tx'"
proof (rule um_channel_lossless[where tcfg = um_demo_tcfg and rcfg = um_demo_rcfg])
  show "tx_um_new um_demo_tcfg = Some (the (tx_um_new um_demo_tcfg))"
    by (simp add: tx_um_new_def um_demo_tcfg_def)
  show "rx_um_new um_demo_rcfg = Some (the (rx_um_new um_demo_rcfg))"
    using rx_um_new_inv[of um_demo_rcfg] by auto
qed (simp_all add: um_demo_tcfg_def um_demo_rcfg_def um_action_ok_def)

end
