(* ===== verification/Rlc_Tm.thy ===== *)
theory Rlc_Tm
  imports Rlc_Tx_Common
begin

text \<open>
  Transparent mode: \<open>lib/rlc/rlc_tx_tm_entity.cpp\<close>, \<open>lib/rlc/rlc_tx_tm_entity.h\<close> and
  \<open>lib/rlc/rlc_rx_tm_entity.cpp\<close>.  SDUs are passed on without a header and without segmentation; an
  SDU that does not fit into the grant waits in the entity for a larger one.

  Arguments stand for what other parts of the system decide: whether the cell executor accepts a task
  and whether the buffer pool has room for the delivered SDU.
\<close>

section \<open>State and operations\<close>

record rlc_tx_tm =
  tt_cfg :: rlc_tx_tm_config
  tt_sdu_queue :: rlc_sdu_queue
  tt_sdu :: rlc_sdu
  tt_pending_buffer_state :: bool

definition tx_tm_new :: "rlc_tx_tm_config \<Rightarrow> rlc_tx_tm" where
  "tx_tm_new cfg = \<lparr>tt_cfg = cfg, tt_sdu_queue = sq_new (txtm_queue_size cfg) (txtm_queue_size_bytes cfg),
     tt_sdu = sdu_default, tt_pending_buffer_state = False\<rparr>"

definition tt_handle_changed_buffer_state :: "bool \<Rightarrow> rlc_tx_tm \<Rightarrow> rlc_tx_tm \<times> rlc_tx_event list" where
  "tt_handle_changed_buffer_state defer_ok st =
     (let (pending, ev) = trigger_update defer_ok (tt_pending_buffer_state st)
      in (st\<lparr>tt_pending_buffer_state := pending\<rparr>, ev))"

definition tt_handle_sdu :: "bool \<Rightarrow> bytes \<Rightarrow> bool \<Rightarrow> rlc_tx_tm \<Rightarrow> rlc_tx_tm \<times> rlc_tx_event list" where
  "tt_handle_sdu defer_ok buf is_retx st =
     (let sdu = sdu_default\<lparr>sdu_buf := buf\<rparr>; (written, q) = sq_write (tt_sdu_queue st) sdu
      in if written then tt_handle_changed_buffer_state defer_ok (st\<lparr>tt_sdu_queue := q\<rparr>)
         else (st\<lparr>tt_sdu_queue := q\<rparr>, []))"

definition tt_discard_sdu :: "u32 \<Rightarrow> rlc_tx_tm \<Rightarrow> rlc_tx_tm \<times> rlc_tx_event list" where
  "tt_discard_sdu pdcp_sn st = (st, [])"

text \<open>Get a new SDU, if none is currently being transmitted.\<close>

definition tt_get_sdu :: "rlc_tx_tm \<Rightarrow> bool \<times> rlc_tx_tm" where
  "tt_get_sdu st = (if sdu_buf (tt_sdu st) = []
     then (case sq_read (tt_sdu st) (tt_sdu_queue st) of (ok, sdu, q) \<Rightarrow> (ok, st\<lparr>tt_sdu := sdu, tt_sdu_queue := q\<rparr>))
     else (True, st))"

definition tt_pull_pdu :: "nat \<Rightarrow> rlc_tx_tm \<Rightarrow> bytes \<times> rlc_tx_tm \<times> rlc_tx_event list" where
  "tt_pull_pdu grant_len st = (case tt_get_sdu st of (ok, st1) \<Rightarrow>
     if \<not> ok then ([], st1, [])
     else let buf = sdu_buf (tt_sdu st1) in
       if length buf > grant_len then ([], st1, [])
       else (buf, st1\<lparr>tt_sdu := (tt_sdu st1)\<lparr>sdu_buf := []\<rparr>\<rparr>,
             (case sdu_pdcp_sn (tt_sdu st1) of None \<Rightarrow> []
              | Some sn \<Rightarrow> [On_transmitted_sdu sn (txtm_queue_size_bytes (tt_cfg st1))])))"

definition tt_get_buffer_state :: "rlc_tx_tm \<Rightarrow> u32 \<times> rlc_tx_tm" where
  "tt_get_buffer_state st =
     (let st1 = (if sdu_buf (tt_sdu st) \<noteq> [] then st else st\<lparr>tt_sdu_queue := snd (sq_front (tt_sdu_queue st))\<rparr>)
      in (n_bytes (sq_get_state (tt_sdu_queue st1)) + of_nat (length (sdu_buf (tt_sdu st1))), st1))"

definition tt_update_mac_buffer_state :: "rlc_tx_tm \<Rightarrow> rlc_tx_tm \<times> rlc_tx_event list" where
  "tt_update_mac_buffer_state st =
     (let (bs, st') = tt_get_buffer_state (st\<lparr>tt_pending_buffer_state := False\<rparr>)
      in (st', [On_buffer_state_update bs]))"

text \<open>The receiver keeps no state: it hands the PDU up as an SDU (\<open>None\<close>: no buffer could be created).\<close>

definition rt_handle_pdu :: "bool \<Rightarrow> bytes \<Rightarrow> bytes option" where
  "rt_handle_pdu create_ok buf = (if create_ok then Some buf else None)"

section \<open>The list of waiting SDUs\<close>

text \<open>SDUs of this mode carry no PDCP sequence number, so none of them is ever discarded.\<close>

definition tt_inv :: "rlc_tx_tm \<Rightarrow> bool" where
  "tt_inv st \<longleftrightarrow> sq_wf (tt_sdu_queue st) \<and> sdu_pdcp_sn (tt_sdu st) = None
     \<and> (\<forall>s \<in> set (sq_queue (tt_sdu_queue st)). sdu_pdcp_sn s = None)"

definition tt_stream :: "rlc_tx_tm \<Rightarrow> bytes list" where
  "tt_stream st = (if sdu_buf (tt_sdu st) = [] then [] else [sdu_buf (tt_sdu st)])
     @ map sdu_buf (sq_abs (tt_sdu_queue st))"

text \<open>What a grant does to the list: its first SDU leaves if it fits.\<close>

fun stream_pull :: "nat \<Rightarrow> bytes list \<Rightarrow> bytes \<times> bytes list" where
  "stream_pull grant_len [] = ([], [])"
| "stream_pull grant_len (b # bs) = (if length b \<le> grant_len then (b, bs) else ([], b # bs))"

lemma tt_new_inv: "0 < unat (txtm_queue_size cfg) \<Longrightarrow> tt_inv (tx_tm_new cfg)"
  using sq_new_wf by (simp add: tt_inv_def tx_tm_new_def sdu_default_def sq_new_def)

lemma tt_new_stream: "tt_stream (tx_tm_new cfg) = []"
  by (simp add: tt_stream_def tx_tm_new_def sdu_default_def)

lemma tt_no_sn_abs: "\<forall>s \<in> set (sq_queue q). sdu_pdcp_sn s = None \<Longrightarrow> sq_abs q = sq_queue q"
  by (simp add: sq_abs_def sq_live_def filter_id_conv)

text \<open>A read of the queue moves its head into the entity.\<close>

lemma tt_get_sdu_spec:
  assumes inv: "tt_inv st"
  shows "case tt_get_sdu st of (ok, st1) \<Rightarrow> tt_inv st1 \<and> (ok \<longleftrightarrow> tt_stream st \<noteq> [])
     \<and> (if ok then tt_stream st = sdu_buf (tt_sdu st1) # map sdu_buf (sq_abs (tt_sdu_queue st1)) else st1 = st)"
proof (cases "sdu_buf (tt_sdu st) = []")
  case True
  obtain ok sdu q where rd: "sq_read (tt_sdu st) (tt_sdu_queue st) = (ok, sdu, q)" by (metis prod_cases3)
  have wf: "sq_wf (tt_sdu_queue st)" and none: "\<forall>s \<in> set (sq_queue (tt_sdu_queue st)). sdu_pdcp_sn s = None"
    using inv by (simp_all add: tt_inv_def)
  have spec: "sq_wf q" "if ok then sq_abs (tt_sdu_queue st) = sdu # sq_abs q else sq_abs (tt_sdu_queue st) = []"
    using sq_read_spec[OF wf, of "tt_sdu st"] rd by (auto simp: read_result_def)
  have "tt_inv (st\<lparr>tt_sdu := sdu, tt_sdu_queue := q\<rparr>)"
    using sq_read_sets[OF rd] spec(1) inv by (auto simp: tt_inv_def)
  moreover have "sdu = tt_sdu st \<and> q = tt_sdu_queue st" if "\<not> ok"
  proof -
    have "sq_queue (tt_sdu_queue st) = []" using that spec(2) tt_no_sn_abs[OF none] by simp
    then show ?thesis using rd by (simp add: sq_read.simps)
  qed
  ultimately show ?thesis
    using spec(2) rd True by (auto simp: tt_get_sdu_def tt_stream_def)
qed (use inv in \<open>simp add: tt_get_sdu_def tt_stream_def\<close>)

lemma tt_pull_pdu_spec:
  assumes inv: "tt_inv st" and pull: "tt_pull_pdu grant_len st = (pdu, st', ev)"
  shows "tt_inv st'" "stream_pull grant_len (tt_stream st) = (pdu, tt_stream st')" "ev = []"
proof -
  obtain ok st1 where get: "tt_get_sdu st = (ok, st1)" by fastforce
  have spec: "tt_inv st1" "ok \<longleftrightarrow> tt_stream st \<noteq> []"
      "if ok then tt_stream st = sdu_buf (tt_sdu st1) # map sdu_buf (sq_abs (tt_sdu_queue st1)) else st1 = st"
    using tt_get_sdu_spec[OF inv] unfolding get prod.case by blast+
  have "tt_inv st' \<and> stream_pull grant_len (tt_stream st) = (pdu, tt_stream st') \<and> ev = []"
  proof (cases ok)
    case True
    then show ?thesis
      using spec pull get by (auto simp: tt_pull_pdu_def tt_inv_def Let_def tt_stream_def split: if_splits)
  next
    case False
    then show ?thesis using spec pull get by (simp add: tt_pull_pdu_def)
  qed
  then show "tt_inv st'" "stream_pull grant_len (tt_stream st) = (pdu, tt_stream st')" "ev = []" by simp_all
qed

lemma tt_handle_sdu_spec:
  fixes buf :: bytes and st :: rlc_tx_tm
  assumes inv: "tt_inv st"
  defines "taken \<equiv> fst (sq_write (tt_sdu_queue st) (sdu_default\<lparr>sdu_buf := buf\<rparr>))"
  shows "tt_inv (fst (tt_handle_sdu defer_ok buf is_retx st))"
    "tt_stream (fst (tt_handle_sdu defer_ok buf is_retx st)) = tt_stream st @ (if taken then [buf] else [])"
proof -
  define sdu where "sdu = sdu_default\<lparr>sdu_buf := buf\<rparr>"
  have sdu: "sdu_sn_ok sdu" "sdu_pdcp_sn sdu = None" "sdu_buf sdu = buf"
    by (simp_all add: sdu_def sdu_sn_ok_def sdu_default_def)
  have wf: "sq_wf (tt_sdu_queue st)" using inv by (simp add: tt_inv_def)
  define r where "r = sq_write (tt_sdu_queue st) sdu"
  have taken: "fst r \<longleftrightarrow> taken" by (simp add: r_def taken_def sdu_def)
  have *: "sq_wf (snd r)" "sq_abs (snd r) = sq_abs (tt_sdu_queue st) @ (if taken then [sdu] else [])"
      "\<forall>s \<in> set (sq_queue (snd r)). sdu_pdcp_sn s = None"
    using fifo.write_inv[OF wf sdu(1)] fifo.write_contents[OF wf sdu(1)] sq_write_set[of "tt_sdu_queue st" sdu] inv sdu taken
    by (auto simp: r_def tt_inv_def)
  have eq: "fst (tt_handle_sdu defer_ok buf is_retx st)
      = st\<lparr>tt_sdu_queue := snd r, tt_pending_buffer_state := (tt_pending_buffer_state st \<or> fst r)\<rparr>"
    by (simp add: tt_handle_sdu_def sdu_def[symmetric] r_def[symmetric] tt_handle_changed_buffer_state_def
        trigger_update_def case_prod_beta)
  show "tt_inv (fst (tt_handle_sdu defer_ok buf is_retx st))"
    unfolding eq using * inv by (simp add: tt_inv_def)
  show "tt_stream (fst (tt_handle_sdu defer_ok buf is_retx st)) = tt_stream st @ (if taken then [buf] else [])"
    unfolding eq using * sdu by (simp add: tt_stream_def)
qed

lemma tt_get_buffer_state_spec:
  assumes inv: "tt_inv st"
  shows "fst (tt_get_buffer_state st) = of_nat (sum_list (map length (tt_stream st)))"
    "tt_inv (snd (tt_get_buffer_state st))" "tt_stream (snd (tt_get_buffer_state st)) = tt_stream st"
proof -
  have wf: "sq_wf (tt_sdu_queue st)" using inv by (simp add: tt_inv_def)
  have bytes: "n_bytes (sq_get_state q) = of_nat (sdu_bytes (sq_abs q))" if "sq_wf q" for q
    using sq_wf_state(2)[OF that] by (metis of_nat_unat ucast_id)
  have sum: "sdu_bytes xs = sum_list (map length (map sdu_buf xs))" for xs by (simp add: sdu_bytes_def comp_def)
  note front = fifo.front_inv[OF wf] fifo.front_contents[OF wf]
  show "fst (tt_get_buffer_state st) = of_nat (sum_list (map length (tt_stream st)))"
    using bytes[OF wf] bytes[OF front(1)] front(2)
    by (auto simp: tt_get_buffer_state_def Let_def tt_stream_def sum)
  show "tt_inv (snd (tt_get_buffer_state st))"
    using inv front sq_front_set[of "tt_sdu_queue st"] by (auto simp: tt_get_buffer_state_def Let_def tt_inv_def)
  show "tt_stream (snd (tt_get_buffer_state st)) = tt_stream st"
    using front by (auto simp: tt_get_buffer_state_def Let_def tt_stream_def)
qed

lemma tt_update_mac_buffer_state_spec:
  assumes inv: "tt_inv st"
  shows "tt_inv (fst (tt_update_mac_buffer_state st))" "tt_stream (fst (tt_update_mac_buffer_state st)) = tt_stream st"
    "snd (tt_update_mac_buffer_state st) = [On_buffer_state_update (of_nat (sum_list (map length (tt_stream st))))]"
proof -
  let ?st = "st\<lparr>tt_pending_buffer_state := False\<rparr>"
  have "tt_inv ?st" and s: "tt_stream ?st = tt_stream st" using inv by (simp_all add: tt_inv_def tt_stream_def)
  note spec = tt_get_buffer_state_spec[OF this(1)]
  show "tt_inv (fst (tt_update_mac_buffer_state st))" "tt_stream (fst (tt_update_mac_buffer_state st)) = tt_stream st"
    "snd (tt_update_mac_buffer_state st) = [On_buffer_state_update (of_nat (sum_list (map length (tt_stream st))))]"
    using spec s by (simp_all add: tt_update_mac_buffer_state_def case_prod_beta)
qed

section \<open>Both sides\<close>

text \<open>
  The calls that reach the entities.  A grant whose PDU is empty is not transmitted; the others arrive
  at the peer.
\<close>

datatype tm_call =
    Tm_sdu bool bytes bool
  | Tm_discard u32
  | Tm_grant nat
  | Tm_update

fun tm_run :: "tm_call list \<Rightarrow> rlc_tx_tm \<Rightarrow> rlc_tx_tm \<times> bytes list" where
  "tm_run [] st = (st, [])"
| "tm_run (Tm_sdu defer_ok buf is_retx # cs) st = tm_run cs (fst (tt_handle_sdu defer_ok buf is_retx st))"
| "tm_run (Tm_discard sn # cs) st = tm_run cs (fst (tt_discard_sdu sn st))"
| "tm_run (Tm_grant grant_len # cs) st = (case tt_pull_pdu grant_len st of (pdu, st1, _) \<Rightarrow>
     case tm_run cs st1 of (st2, out) \<Rightarrow>
       (st2, (if pdu = [] then [] else case rt_handle_pdu True pdu of None \<Rightarrow> [] | Some sdu \<Rightarrow> [sdu]) @ out))"
| "tm_run (Tm_update # cs) st = tm_run cs (fst (tt_update_mac_buffer_state st))"

text \<open>The SDUs that the transmit queue accepts during a run.\<close>

fun tm_accepted :: "tm_call list \<Rightarrow> rlc_tx_tm \<Rightarrow> bytes list" where
  "tm_accepted [] st = []"
| "tm_accepted (Tm_sdu defer_ok buf is_retx # cs) st =
     (if fst (sq_write (tt_sdu_queue st) (sdu_default\<lparr>sdu_buf := buf\<rparr>)) then [buf] else [])
     @ tm_accepted cs (fst (tt_handle_sdu defer_ok buf is_retx st))"
| "tm_accepted (Tm_grant grant_len # cs) st = tm_accepted cs (fst (snd (tt_pull_pdu grant_len st)))"
| "tm_accepted (Tm_discard sn # cs) st = tm_accepted cs (fst (tt_discard_sdu sn st))"
| "tm_accepted (Tm_update # cs) st = tm_accepted cs (fst (tt_update_mac_buffer_state st))"

text \<open>One call: what is accepted joins the list of waiting SDUs, what is delivered leaves it.\<close>

abbreviation nonempty :: "bytes list \<Rightarrow> bytes list" where
  "nonempty \<equiv> filter (\<lambda>b. b \<noteq> [])"

lemma stream_pull_nonempty:
  "stream_pull n xs = (pdu, ys) \<Longrightarrow> nonempty xs = (if pdu = [] then [] else [pdu]) @ nonempty ys"
  by (induction n xs rule: stream_pull.induct) (auto split: if_splits)

lemma tm_run_transparent:
  "tt_inv st \<Longrightarrow> tm_run cs st = (st', out) \<Longrightarrow>
     tt_inv st' \<and> nonempty (tt_stream st @ tm_accepted cs st) = out @ nonempty (tt_stream st')"
proof (induction cs arbitrary: st st' out)
  case (Cons c cs)
  show ?case
  proof (cases c)
    case (Tm_sdu defer_ok buf is_retx)
    show ?thesis
      using Cons.IH[OF tt_handle_sdu_spec(1)[OF Cons.prems(1)]] Cons.prems(2)
        tt_handle_sdu_spec(2)[OF Cons.prems(1), of defer_ok buf is_retx]
      by (fastforce simp: Tm_sdu)
  next
    case (Tm_discard sn)
    then show ?thesis using Cons by (simp add: tt_discard_sdu_def)
  next
    case (Tm_grant grant_len)
    obtain pdu st1 ev where pull: "tt_pull_pdu grant_len st = (pdu, st1, ev)" by (metis prod_cases3)
    obtain st2 out2 where run: "tm_run cs st1 = (st2, out2)" by fastforce
    have "nonempty (tt_stream st) = (if pdu = [] then [] else [pdu]) @ nonempty (tt_stream st1)"
      using tt_pull_pdu_spec(2)[OF Cons.prems(1) pull] by (rule stream_pull_nonempty)
    then show ?thesis
      using Cons.IH[OF tt_pull_pdu_spec(1)[OF Cons.prems(1) pull] run] Cons.prems(2) pull run
      by (auto simp: Tm_grant rt_handle_pdu_def)
  next
    case Tm_update
    show ?thesis
      using Cons.IH[OF tt_update_mac_buffer_state_spec(1)[OF Cons.prems(1)]] Cons.prems
        tt_update_mac_buffer_state_spec(2)[OF Cons.prems(1)] by (simp add: Tm_update)
  qed
qed simp

section \<open>Properties\<close>

text \<open>Transparent mode is transparent: whatever the order of SDUs, discards, grants and buffer state updates, the
  SDUs the transmit queue accepts (empty ones apart, which give no PDU) are the SDUs delivered by the
  peer, in order and byte for byte, followed by those that still wait for a grant; a grant takes
  the first waiting SDU exactly when it fits, and the buffer state reported is the number of bytes waiting, modulo
  the 32 bits of the counter.\<close>

theorem tm_transparent:
  assumes "0 < unat (txtm_queue_size cfg)" and "tm_run cs (tx_tm_new cfg) = (st, out)"
  shows "nonempty (tm_accepted cs (tx_tm_new cfg)) = out @ nonempty (tt_stream st)
     \<and> (case tt_pull_pdu grant_len st of (pdu, st', ev) \<Rightarrow> stream_pull grant_len (tt_stream st) = (pdu, tt_stream st'))
     \<and> snd (tt_update_mac_buffer_state st) = [On_buffer_state_update (of_nat (sum_list (map length (tt_stream st))))]"
proof -
  have inv: "tt_inv st" and stream: "nonempty (tm_accepted cs (tx_tm_new cfg)) = out @ nonempty (tt_stream st)"
    using tm_run_transparent[OF tt_new_inv[OF assms(1)] assms(2)] by (simp_all add: tt_new_stream)
  then show ?thesis
    using tt_pull_pdu_spec(2)[OF inv] tt_update_mac_buffer_state_spec(3)[OF inv] by (simp split: prod.split)
qed

definition tm_demo_cfg :: rlc_tx_tm_config where
  "tm_demo_cfg = \<lparr>txtm_queue_size = 2, txtm_queue_size_bytes = 100\<rparr>"

definition tm_demo_calls :: "tm_call list" where
  "tm_demo_calls = [Tm_sdu True [1, 2, 3] False, Tm_sdu True [4] False, Tm_grant 2, Tm_grant 3]"

theorem tm_transparent_witness:
  "case tm_run tm_demo_calls (tx_tm_new tm_demo_cfg) of (st, out) \<Rightarrow>
     nonempty (tm_accepted tm_demo_calls (tx_tm_new tm_demo_cfg)) = out @ nonempty (tt_stream st)
     \<and> (case tt_pull_pdu 1 st of (pdu, st', ev) \<Rightarrow> stream_pull 1 (tt_stream st) = (pdu, tt_stream st'))
     \<and> snd (tt_update_mac_buffer_state st) = [On_buffer_state_update (of_nat (sum_list (map length (tt_stream st))))]
     \<and> out = [[1, 2, 3]]"
proof -
  obtain st out where run: "tm_run tm_demo_calls (tx_tm_new tm_demo_cfg) = (st, out)" by fastforce
  have "snd (tm_run tm_demo_calls (tx_tm_new tm_demo_cfg)) = [[1, 2, 3]]"
    by (simp add: tm_demo_calls_def tx_tm_new_def tm_demo_cfg_def tt_handle_sdu_def sq_new_def sq_write_def sdu_default_def
        sq_get_state_def sq_push_counted_def sq_try_push_def sq_state_add_def sq_state_change_def
        tt_handle_changed_buffer_state_def trigger_update_def tt_pull_pdu_def tt_get_sdu_def sq_read.simps
        sq_state_sub_def rt_handle_pdu_def)
  then show ?thesis
    using tm_transparent[OF _ run, of 1] run by (simp add: tm_demo_cfg_def)
qed

end
