(* ===== verification/Ring_Buffer.thy ===== *)
theory Ring_Buffer
  imports Circular_Map
begin

text \<open>
  \<open>include/ocudu/adt/ring_buffer.h\<close>: the ring buffer with vector storage whose size is rounded up
  to a power of two.  The storage is a function from slots to optional elements.  Positions and
  counts stay below twice the size of the storage, so they are natural numbers.  An operation
  returns \<^const>\<open>None\<close> where the C++ code fails an assertion.

  The locale \<open>bounded_queue\<close> is the contract that the retransmission queue relies on.
\<close>

record 'a ring_buffer =
  rb_rpos :: nat
  rb_count :: nat
  rb_max_size :: nat
  rb_data :: "nat \<Rightarrow> 'a option"

text \<open>The smallest power of two that is not below a size; the value of \<open>pow(2, ceil(log(sz) / log(2)))\<close>.\<close>

function pow2_from :: "nat \<Rightarrow> nat \<Rightarrow> nat" where
  "pow2_from p sz = (if p = 0 \<or> sz \<le> p then p else pow2_from (2 * p) sz)"
  by pat_completeness auto
termination
  by (relation "measure (\<lambda>(p, sz). sz - p)") auto

definition to_next_pow2 :: "nat \<Rightarrow> nat" where
  "to_next_pow2 sz = (if sz = 0 then 0 else pow2_from 1 sz)"

definition rb_new :: "nat \<Rightarrow> 'a ring_buffer" where
  "rb_new sz = \<lparr>rb_rpos = 0, rb_count = 0, rb_max_size = to_next_pow2 sz, rb_data = (\<lambda>_. None)\<rparr>"

definition advance_pos :: "'a ring_buffer \<Rightarrow> nat \<Rightarrow> nat \<Rightarrow> nat" where
  "advance_pos rb pos n = (pos + n) AND (rb_max_size rb - 1)"

definition rb_full :: "'a ring_buffer \<Rightarrow> bool" where
  "rb_full rb \<longleftrightarrow> rb_count rb = rb_max_size rb"

definition rb_empty :: "'a ring_buffer \<Rightarrow> bool" where
  "rb_empty rb \<longleftrightarrow> rb_count rb = 0"

definition rb_push :: "'a ring_buffer \<Rightarrow> 'a \<Rightarrow> 'a ring_buffer option" where
  "rb_push rb u = (if rb_full rb then None
     else Some (rb\<lparr>rb_data := (rb_data rb)(advance_pos rb (rb_rpos rb) (rb_count rb) \<mapsto> u),
                   rb_count := rb_count rb + 1\<rparr>))"

definition rb_try_push :: "'a ring_buffer \<Rightarrow> 'a \<Rightarrow> bool \<times> 'a ring_buffer" where
  "rb_try_push rb u = (case rb_push rb u of None \<Rightarrow> (False, rb) | Some rb' \<Rightarrow> (True, rb'))"

definition rb_pop :: "'a ring_buffer \<Rightarrow> 'a ring_buffer option" where
  "rb_pop rb = (if rb_empty rb then None
     else Some (rb\<lparr>rb_data := (rb_data rb)(rb_rpos rb := None),
                   rb_rpos := advance_pos rb (rb_rpos rb) 1, rb_count := rb_count rb - 1\<rparr>))"

text \<open>Reading and writing through \<open>operator[]\<close>, an iterator, or \<open>top\<close>.\<close>

definition rb_at :: "'a ring_buffer \<Rightarrow> nat \<Rightarrow> 'a option" where
  "rb_at rb i = (if i < rb_count rb then rb_data rb (advance_pos rb (rb_rpos rb) i) else None)"

definition rb_set :: "'a ring_buffer \<Rightarrow> nat \<Rightarrow> 'a \<Rightarrow> 'a ring_buffer option" where
  "rb_set rb i u = (if i < rb_count rb
     then Some (rb\<lparr>rb_data := (rb_data rb)(advance_pos rb (rb_rpos rb) i \<mapsto> u)\<rparr>) else None)"

definition rb_top :: "'a ring_buffer \<Rightarrow> 'a option" where
  "rb_top rb = (if rb_empty rb then None else rb_data rb (rb_rpos rb))"

definition rb_set_top :: "'a ring_buffer \<Rightarrow> 'a \<Rightarrow> 'a ring_buffer option" where
  "rb_set_top rb u = (if rb_empty rb then None else Some (rb\<lparr>rb_data := (rb_data rb)(rb_rpos rb \<mapsto> u)\<rparr>))"

definition rb_clear :: "'a ring_buffer \<Rightarrow> 'a ring_buffer" where
  "rb_clear rb = rb\<lparr>rb_data := (\<lambda>i. if \<exists>k < rb_count rb. i = advance_pos rb (rb_rpos rb) k then None
      else rb_data rb i), rb_rpos := 0, rb_count := 0\<rparr>"

section \<open>The elements in order\<close>

definition rb_pos :: "'a ring_buffer \<Rightarrow> nat \<Rightarrow> nat" where
  "rb_pos rb i = (rb_rpos rb + i) mod rb_max_size rb"

definition rb_wf :: "'a ring_buffer \<Rightarrow> bool" where
  "rb_wf rb \<longleftrightarrow> (\<exists>k. rb_max_size rb = 2 ^ k) \<and> rb_rpos rb < rb_max_size rb \<and> rb_count rb \<le> rb_max_size rb
     \<and> (\<forall>i < rb_count rb. rb_data rb (rb_pos rb i) \<noteq> None)"

definition rb_list :: "'a ring_buffer \<Rightarrow> 'a list" where
  "rb_list rb = map (\<lambda>i. the (rb_data rb (rb_pos rb i))) [0..<rb_count rb]"

lemma pow2_from_pow2: "\<exists>k. pow2_from (2 ^ j) sz = 2 ^ k"
proof (induction "2 ^ j :: nat" sz arbitrary: j rule: pow2_from.induct)
  case (1 sz)
  show ?case
  proof (cases "sz \<le> 2 ^ j")
    case True
    then show ?thesis by (auto simp: pow2_from.simps[of "2 ^ j"])
  next
    case False
    then have "pow2_from (2 ^ j) sz = pow2_from (2 ^ Suc j) sz"
      by (subst pow2_from.simps) simp
    then show ?thesis
      using 1[of "Suc j"] False by simp
  qed
qed

lemma pow2_from_ge: "0 < p \<Longrightarrow> sz \<le> pow2_from p sz"
proof (induction p sz rule: pow2_from.induct)
  case (1 p sz)
  then show ?case by (subst pow2_from.simps) auto
qed

declare pow2_from.simps [simp del]

lemma to_next_pow2: "0 < sz \<Longrightarrow> \<exists>k. to_next_pow2 sz = 2 ^ k" "sz \<le> to_next_pow2 sz"
  using pow2_from_pow2[of 0 sz] pow2_from_ge[of 1 sz] by (simp_all add: to_next_pow2_def)

lemma to_next_pow2_exp: "to_next_pow2 (2 ^ k) = 2 ^ k"
proof -
  have "pow2_from (2 ^ j) (2 ^ k) = 2 ^ k" if "j \<le> k" for j
    using that
  proof (induction "k - j" arbitrary: j)
    case 0
    then show ?case by (simp add: pow2_from.simps)
  next
    case (Suc n)
    then have "j < k" by simp
    then have "pow2_from (2 ^ Suc j) (2 ^ k) = 2 ^ k"
      using Suc.hyps(1)[of "Suc j"] Suc.hyps(2) by simp
    then show ?case using \<open>j < k\<close> by (subst pow2_from.simps) simp
  qed
  from this[of 0] show ?thesis by (simp add: to_next_pow2_def)
qed

lemma advance_pos_mod: "rb_wf rb \<Longrightarrow> advance_pos rb pos n = (pos + n) mod rb_max_size rb"
  by (auto simp: rb_wf_def advance_pos_def and_mask_nat')

lemma rb_pos_inject:
  assumes "rb_wf rb" and "i < rb_max_size rb" and "j < rb_max_size rb"
  shows "rb_pos rb i = rb_pos rb j \<longleftrightarrow> i = j"
proof -
  have le: "i = j" if "(a + i) mod m = (a + j) mod m" "i \<le> j" "j < m" for a m i j :: nat
  proof -
    have "m dvd (a + j) - (a + i)"
      using that by (subst mod_eq_dvd_iff_nat[symmetric]) simp_all
    then show ?thesis using that by (auto dest: dvd_imp_le)
  qed
  have "i = j" if "(a + i) mod m = (a + j) mod m" "i < m" "j < m" for a m :: nat
    using le[of a i m j] le[of a j m i] that by linarith
  then show ?thesis using assms by (auto simp: rb_pos_def)
qed

text \<open>Each operation on the list of elements.\<close>

lemma length_rb_list [simp]: "length (rb_list rb) = rb_count rb"
  by (simp add: rb_list_def)

lemma rb_at_list: "rb_wf rb \<Longrightarrow> rb_at rb i = (if i < length (rb_list rb) then Some (rb_list rb ! i) else None)"
  by (auto simp: rb_at_def rb_list_def advance_pos_mod rb_pos_def rb_wf_def)

lemma rb_top_list: "rb_wf rb \<Longrightarrow> rb_top rb = (case rb_list rb of [] \<Rightarrow> None | x # _ \<Rightarrow> Some x)"
proof -
  assume wf: "rb_wf rb"
  then have "rb_top rb = rb_at rb 0"
    by (simp add: rb_top_def rb_at_def rb_empty_def advance_pos_mod rb_wf_def)
  then show ?thesis
    using rb_at_list[OF wf, of 0] by (cases "rb_list rb") (simp_all flip: length_rb_list)
qed

lemma rb_push_list:
  assumes wf: "rb_wf rb"
  shows "rb_push rb u = None \<longleftrightarrow> length (rb_list rb) = rb_max_size rb"
    "rb_push rb u = Some rb' \<Longrightarrow> rb_wf rb' \<and> rb_list rb' = rb_list rb @ [u] \<and> rb_max_size rb' = rb_max_size rb"
proof -
  show "rb_push rb u = None \<longleftrightarrow> length (rb_list rb) = rb_max_size rb"
    by (simp add: rb_push_def rb_full_def)
  assume push: "rb_push rb u = Some rb'"
  let ?p = "rb_pos rb (rb_count rb)"
  have lt: "rb_count rb < rb_max_size rb" and rb': "rb' = rb\<lparr>rb_data := (rb_data rb)(?p \<mapsto> u), rb_count := rb_count rb + 1\<rparr>"
    using push wf by (auto simp: rb_push_def rb_full_def advance_pos_mod rb_pos_def rb_wf_def split: if_splits)
  have pos: "rb_pos rb' = rb_pos rb"
    by (simp add: rb_pos_def rb' fun_eq_iff)
  have data: "i < rb_count rb \<Longrightarrow> rb_data rb' (rb_pos rb i) = rb_data rb (rb_pos rb i)" for i
    using rb_pos_inject[OF wf, of i "rb_count rb"] lt by (simp add: rb')
  have last: "rb_data rb' (rb_pos rb (rb_count rb)) = Some u"
    by (simp add: rb')
  have "\<forall>i < rb_count rb'. rb_data rb' (rb_pos rb' i) \<noteq> None"
    using wf data last unfolding pos by (auto simp: rb' less_Suc_eq rb_wf_def simp del: fun_upd_apply)
  then have "rb_wf rb'"
    using wf lt unfolding rb_wf_def by (simp add: rb')
  moreover have "rb_list rb' = rb_list rb @ [u]"
    using data last by (simp add: rb_list_def pos) (simp add: rb')
  ultimately show "rb_wf rb' \<and> rb_list rb' = rb_list rb @ [u] \<and> rb_max_size rb' = rb_max_size rb"
    by (simp add: rb')
qed

lemma rb_pop_list:
  assumes wf: "rb_wf rb"
  shows "rb_pop rb = None \<longleftrightarrow> rb_list rb = []"
    "rb_pop rb = Some rb' \<Longrightarrow> rb_wf rb' \<and> rb_list rb' = tl (rb_list rb) \<and> rb_max_size rb' = rb_max_size rb"
proof -
  show "rb_pop rb = None \<longleftrightarrow> rb_list rb = []"
    by (simp add: rb_pop_def rb_empty_def rb_list_def)
  assume pop: "rb_pop rb = Some rb'"
  have pos0: "rb_pos rb 0 = rb_rpos rb"
    using wf by (simp add: rb_pos_def rb_wf_def)
  have n: "0 < rb_count rb" and rb': "rb' = rb\<lparr>rb_data := (rb_data rb)(rb_pos rb 0 := None),
      rb_rpos := rb_pos rb 1, rb_count := rb_count rb - 1\<rparr>"
    using pop wf pos0 by (auto simp: rb_pop_def rb_empty_def advance_pos_mod rb_pos_def split: if_splits)
  have pos: "rb_pos rb' i = rb_pos rb (Suc i)" for i
    by (simp add: rb' rb_pos_def mod_add_left_eq)
  have lt: "rb_count rb \<le> rb_max_size rb" using wf by (simp add: rb_wf_def)
  have data: "i < rb_count rb - 1 \<Longrightarrow> rb_data rb' (rb_pos rb' i) = rb_data rb (rb_pos rb (Suc i))" for i
    using rb_pos_inject[OF wf, of "Suc i" 0] lt by (simp add: pos) (simp add: rb')
  have "\<forall>i < rb_count rb'. rb_data rb' (rb_pos rb' i) \<noteq> None"
  proof (intro allI impI)
    fix i assume "i < rb_count rb'"
    then have "i < rb_count rb - 1" "Suc i < rb_count rb" by (simp_all add: rb')
    then show "rb_data rb' (rb_pos rb' i) \<noteq> None"
      using data wf unfolding rb_wf_def by metis
  qed
  then have "rb_wf rb'"
    using wf n unfolding rb_wf_def by (auto simp: rb' rb_pos_def)
  moreover have "rb_list rb' = tl (rb_list rb)"
  proof -
    have "rb_list rb' = map (\<lambda>i. the (rb_data rb (rb_pos rb (Suc i)))) [0..<rb_count rb - 1]"
      unfolding rb_list_def using data by (simp add: rb')
    also have "\<dots> = tl (rb_list rb)"
      using n by (cases "rb_count rb") (simp_all add: rb_list_def map_tl[symmetric] upt_conv_Cons map_Suc_upt[symmetric] del: upt_Suc)
    finally show ?thesis .
  qed
  ultimately show "rb_wf rb' \<and> rb_list rb' = tl (rb_list rb) \<and> rb_max_size rb' = rb_max_size rb"
    by (simp add: rb')
qed

lemma rb_set_list:
  assumes wf: "rb_wf rb"
  shows "rb_set rb i u = None \<longleftrightarrow> \<not> i < length (rb_list rb)"
    "rb_set rb i u = Some rb' \<Longrightarrow> rb_wf rb' \<and> rb_list rb' = (rb_list rb)[i := u] \<and> rb_max_size rb' = rb_max_size rb"
proof -
  show "rb_set rb i u = None \<longleftrightarrow> \<not> i < length (rb_list rb)"
    by (simp add: rb_set_def)
  assume set: "rb_set rb i u = Some rb'"
  have i: "i < rb_count rb" and rb': "rb' = rb\<lparr>rb_data := (rb_data rb)(rb_pos rb i \<mapsto> u)\<rparr>"
    using set wf by (auto simp: rb_set_def advance_pos_mod rb_pos_def split: if_splits)
  have pos: "rb_pos rb' = rb_pos rb"
    by (simp add: rb_pos_def rb' fun_eq_iff)
  have lt: "rb_count rb \<le> rb_max_size rb" using wf by (simp add: rb_wf_def)
  have data: "j < rb_count rb \<Longrightarrow> rb_data rb' (rb_pos rb j) = (if j = i then Some u else rb_data rb (rb_pos rb j))" for j
    using rb_pos_inject[OF wf, of j i] lt i by (simp add: rb')
  have "rb_wf rb'"
    using wf data by (auto simp: rb_wf_def pos) (simp_all add: rb')
  moreover have "rb_list rb' = (rb_list rb)[i := u]"
  proof (rule nth_equalityI)
    show "length (rb_list rb') = length ((rb_list rb)[i := u])" by (simp add: rb')
    fix j assume "j < length (rb_list rb')"
    then have "j < rb_count rb" by (simp add: rb')
    moreover from this have "rb_list rb' ! j = the (rb_data rb' (rb_pos rb j))"
      by (simp add: rb_list_def pos) (simp add: rb')
    ultimately show "rb_list rb' ! j = (rb_list rb)[i := u] ! j"
      using data by (simp add: nth_list_update) (simp add: rb_list_def)
  qed
  ultimately show "rb_wf rb' \<and> rb_list rb' = (rb_list rb)[i := u] \<and> rb_max_size rb' = rb_max_size rb"
    by (simp add: rb')
qed

lemma rb_set_top_set: "rb_wf rb \<Longrightarrow> rb_set_top rb u = rb_set rb 0 u"
  by (auto simp: rb_set_top_def rb_set_def rb_empty_def advance_pos_mod rb_wf_def)

lemma rb_clear_list: "rb_wf rb \<Longrightarrow> rb_wf (rb_clear rb) \<and> rb_list (rb_clear rb) = []"
  by (auto simp: rb_clear_def rb_wf_def rb_list_def)

lemma rb_new_list: "0 < sz \<Longrightarrow> rb_wf (rb_new sz) \<and> rb_list (rb_new sz) = [] \<and> rb_max_size (rb_new sz) = to_next_pow2 sz"
  using to_next_pow2[of sz] by (auto simp: rb_new_def rb_wf_def rb_list_def)

section \<open>The contract\<close>

locale bounded_queue =
  fixes invar :: "'q \<Rightarrow> bool"
    and contents :: "'q \<Rightarrow> 'a list"
    and limit :: "'q \<Rightarrow> nat"
    and try_push :: "'q \<Rightarrow> 'a \<Rightarrow> bool \<times> 'q"
    and pop :: "'q \<Rightarrow> 'q option"
    and top :: "'q \<Rightarrow> 'a option"
    and set_top :: "'q \<Rightarrow> 'a \<Rightarrow> 'q option"
    and at :: "'q \<Rightarrow> nat \<Rightarrow> 'a option"
    and set_at :: "'q \<Rightarrow> nat \<Rightarrow> 'a \<Rightarrow> 'q option"
    and clear :: "'q \<Rightarrow> 'q"
  assumes push_ok: "invar q \<Longrightarrow> length (contents q) < limit q \<Longrightarrow>
      \<exists>q'. try_push q x = (True, q') \<and> invar q' \<and> contents q' = contents q @ [x] \<and> limit q' = limit q"
    and push_full: "invar q \<Longrightarrow> length (contents q) = limit q \<Longrightarrow> try_push q x = (False, q)"
    and bounded: "invar q \<Longrightarrow> length (contents q) \<le> limit q"
    and pop_ok: "invar q \<Longrightarrow> contents q = x # xs \<Longrightarrow>
      \<exists>q'. pop q = Some q' \<and> invar q' \<and> contents q' = xs \<and> limit q' = limit q"
    and top_ok: "invar q \<Longrightarrow> top q = (case contents q of [] \<Rightarrow> None | x # _ \<Rightarrow> Some x)"
    and set_top_ok: "invar q \<Longrightarrow> contents q = x # xs \<Longrightarrow>
      \<exists>q'. set_top q y = Some q' \<and> invar q' \<and> contents q' = y # xs \<and> limit q' = limit q"
    and at_ok: "invar q \<Longrightarrow> at q i = (if i < length (contents q) then Some (contents q ! i) else None)"
    and set_at_ok: "invar q \<Longrightarrow> i < length (contents q) \<Longrightarrow>
      \<exists>q'. set_at q i y = Some q' \<and> invar q' \<and> contents q' = (contents q)[i := y] \<and> limit q' = limit q"
    and clear_ok: "invar q \<Longrightarrow> invar (clear q) \<and> contents (clear q) = []"
begin

lemma push_fifo: "invar q \<Longrightarrow> length (contents q) < limit q \<Longrightarrow> fst (try_push q x)
    \<and> (contents q \<noteq> [] \<longrightarrow> top (snd (try_push q x)) = top q)"
  using push_ok[of q x] top_ok by (fastforce split: list.splits)

end

interpretation rb: bounded_queue rb_wf rb_list rb_max_size rb_try_push rb_pop rb_top rb_set_top rb_at rb_set rb_clear
proof (unfold_locales, goal_cases)
  case (1 q x)
  then show ?case
    using rb_push_list[of q x] by (cases "rb_push q x") (auto simp: rb_try_push_def)
next
  case (2 q x)
  then show ?case
    using rb_push_list(1)[of q x] by (simp add: rb_try_push_def)
next
  case (4 q x xs)
  then show ?case using rb_pop_list[of q] by (cases "rb_pop q") auto
next
  case (6 q x xs y)
  then show ?case
    using rb_set_list[of q 0 y] by (cases "rb_set q 0 y") (auto simp: rb_set_top_set)
next
  case (8 q i y)
  then show ?case using rb_set_list[of q i y] by (cases "rb_set q i y") auto
next
  case (3 q)
  then show ?case by (simp add: rb_wf_def)
qed (simp_all add: rb_top_list rb_at_list rb_clear_list)

end
