(* ===== verification/Rlc_Retx_Queue.thy ===== *)
theory Rlc_Retx_Queue
  imports Ring_Buffer Rlc_Am_Pdu
begin

text \<open>
  The queue of retransmissions of the acknowledged-mode transmitter, \<open>lib/rlc/rlc_retx_queue.h\<close>:
  a ring buffer whose elements can be marked invalid in place, so that removing a sequence number
  does not move elements, and running totals from which the buffer state is computed.
\<close>

record rlc_tx_amd_retx =
  rt_sn :: u32
  rt_so :: u32
  rt_length :: u32

definition retx_default :: rlc_tx_amd_retx where
  "retx_default = \<lparr>rt_sn = INVALID_RLC_SN, rt_so = 0, rt_length = 0\<rparr>"

definition retx_includes :: "rlc_tx_amd_retx \<Rightarrow> u32 \<Rightarrow> u32 \<Rightarrow> bool" where
  "retx_includes r segment_offset segment_length \<longleftrightarrow>
     segment_offset \<ge> rt_so r \<and> segment_offset + segment_length \<le> rt_so r + rt_length r"

record rlc_retx_queue_state =
  rs_retx_bytes :: u32
  rs_n_retx_so_zero :: u32
  rs_n_retx_so_nonzero :: u32

definition rs_zero :: rlc_retx_queue_state where
  "rs_zero = \<lparr>rs_retx_bytes = 0, rs_n_retx_so_zero = 0, rs_n_retx_so_nonzero = 0\<rparr>"

definition rs_add :: "rlc_tx_amd_retx \<Rightarrow> rlc_retx_queue_state \<Rightarrow> rlc_retx_queue_state" where
  "rs_add elem st =
     (let st1 = st\<lparr>rs_retx_bytes := rs_retx_bytes st + rt_length elem\<rparr> in
      if rt_so elem = 0 then st1\<lparr>rs_n_retx_so_zero := rs_n_retx_so_zero st1 + 1\<rparr>
      else st1\<lparr>rs_n_retx_so_nonzero := rs_n_retx_so_nonzero st1 + 1\<rparr>)"

definition rs_subtract :: "rlc_tx_amd_retx \<Rightarrow> rlc_retx_queue_state \<Rightarrow> rlc_retx_queue_state" where
  "rs_subtract elem st =
     (let st1 = (if rs_retx_bytes st \<ge> rt_length elem
            then st\<lparr>rs_retx_bytes := rs_retx_bytes st - rt_length elem\<rparr>
            else st\<lparr>rs_retx_bytes := 0\<rparr>) in
      if rt_so elem = 0 then
        (if rs_n_retx_so_zero st1 > 0 then st1\<lparr>rs_n_retx_so_zero := rs_n_retx_so_zero st1 - 1\<rparr> else st1)
      else
        (if rs_n_retx_so_nonzero st1 > 0 then st1\<lparr>rs_n_retx_so_nonzero := rs_n_retx_so_nonzero st1 - 1\<rparr> else st1))"

record rlc_retx_queue_item =
  qi_invalid :: bool
  qi_retx :: rlc_tx_amd_retx

record rlc_retx_queue =
  rq_queue :: "rlc_retx_queue_item ring_buffer"
  rq_st :: rlc_retx_queue_state

definition rq_new :: "nat \<Rightarrow> rlc_retx_queue" where
  "rq_new capacity = \<lparr>rq_queue = rb_new capacity, rq_st = rs_zero\<rparr>"

definition rq_empty :: "rlc_retx_queue \<Rightarrow> bool" where
  "rq_empty q = rb_empty (rq_queue q)"

definition rq_size :: "rlc_retx_queue \<Rightarrow> nat" where
  "rq_size q = rb_count (rq_queue q)"

definition rq_try_push :: "rlc_tx_amd_retx \<Rightarrow> rlc_retx_queue \<Rightarrow> bool \<times> rlc_retx_queue" where
  "rq_try_push retx q = (case rb_try_push (rq_queue q) \<lparr>qi_invalid = False, qi_retx = retx\<rparr> of
     (success, b) \<Rightarrow> (success, if success then q\<lparr>rq_queue := b, rq_st := rs_add retx (rq_st q)\<rparr> else q\<lparr>rq_queue := b\<rparr>))"

text \<open>Remove invalid elements from the front.\<close>

function clean_invalid_front :: "rlc_retx_queue_item ring_buffer \<Rightarrow> rlc_retx_queue_item ring_buffer option" where
  "clean_invalid_front b = (if rb_empty b then Some b
     else (case rb_top b of None \<Rightarrow> None
       | Some item \<Rightarrow> if qi_invalid item
           then (case rb_pop b of None \<Rightarrow> None | Some b' \<Rightarrow> clean_invalid_front b')
           else Some b))"
  by pat_completeness auto
termination
  by (relation "measure rb_count") (auto simp: rb_pop_def rb_empty_def split: if_splits)

declare clean_invalid_front.simps [simp del]

definition rq_pop :: "rlc_retx_queue \<Rightarrow> rlc_retx_queue option" where
  "rq_pop q = (if rq_empty q then Some q
     else do {
       item \<leftarrow> rb_top (rq_queue q);
       b \<leftarrow> rb_pop (rq_queue q);
       b \<leftarrow> clean_invalid_front b;
       Some (q\<lparr>rq_queue := b, rq_st := rs_subtract (qi_retx item) (rq_st q)\<rparr>)
     })"

definition rq_front :: "rlc_retx_queue \<Rightarrow> rlc_tx_amd_retx option" where
  "rq_front q = (case rb_top (rq_queue q) of None \<Rightarrow> None
     | Some item \<Rightarrow> if qi_invalid item then None else Some (qi_retx item))"

definition rq_replace_front :: "rlc_tx_amd_retx \<Rightarrow> rlc_retx_queue \<Rightarrow> rlc_retx_queue option" where
  "rq_replace_front retx q = do {
     item \<leftarrow> rb_top (rq_queue q);
     if qi_invalid item then None else do {
       b \<leftarrow> rb_set_top (rq_queue q) \<lparr>qi_invalid = False, qi_retx = retx\<rparr>;
       Some (q\<lparr>rq_queue := b, rq_st := rs_add retx (rs_subtract (qi_retx item) (rq_st q))\<rparr>)
     }
   }"

definition rq_clear :: "rlc_retx_queue \<Rightarrow> rlc_retx_queue" where
  "rq_clear q = \<lparr>rq_queue = rb_clear (rq_queue q), rq_st = rs_zero\<rparr>"

text \<open>The searches run over the elements in order.\<close>

fun rq_find :: "(rlc_tx_amd_retx \<Rightarrow> bool) \<Rightarrow> rlc_retx_queue_item list \<Rightarrow> bool" where
  "rq_find p [] = False"
| "rq_find p (elem # elems) = (if \<not> qi_invalid elem \<and> p (qi_retx elem) then True else rq_find p elems)"

definition rq_has_sn :: "u32 \<Rightarrow> rlc_retx_queue \<Rightarrow> bool" where
  "rq_has_sn sn q = (if rq_empty q then False else rq_find (\<lambda>r. rt_sn r = sn) (rb_list (rq_queue q)))"

definition rq_has_segment :: "u32 \<Rightarrow> u32 \<Rightarrow> u32 \<Rightarrow> rlc_retx_queue \<Rightarrow> bool" where
  "rq_has_segment sn so len q = (if rq_empty q then False
     else rq_find (\<lambda>r. rt_sn r = sn \<and> retx_includes r so len) (rb_list (rq_queue q)))"

text \<open>
  The loop of \<open>remove_sn\<close>: an element that is marked is visited once more, as an invalid one, before
  the iterator moves on.
\<close>

function rq_remove_loop :: "u32 \<Rightarrow> nat \<Rightarrow> bool \<Rightarrow> rlc_retx_queue_item ring_buffer \<Rightarrow> rlc_retx_queue_state
     \<Rightarrow> (bool \<times> rlc_retx_queue_item ring_buffer \<times> rlc_retx_queue_state) option" where
  "rq_remove_loop sn i result b st =
     (if i \<ge> rb_count b then Some (result, b, st)
      else (case rb_at b i of None \<Rightarrow> None
        | Some item \<Rightarrow>
            if \<not> qi_invalid item \<and> rt_sn (qi_retx item) = sn
            then (case rb_set b i (item\<lparr>qi_invalid := True\<rparr>) of None \<Rightarrow> None
              | Some b' \<Rightarrow> rq_remove_loop sn i True b' (rs_subtract (qi_retx item) st))
            else rq_remove_loop sn (i + 1) result b st))"
  by pat_completeness auto
termination
proof (relation "measure (\<lambda>(sn, i, r, b, st). 2 * (rb_count b - i)
    + (case rb_at b i of None \<Rightarrow> 0 | Some item \<Rightarrow> if qi_invalid item then 0 else 1))", goal_cases)
  case (2 sn i r b st item b')
  then have "rb_at b' i = Some (item\<lparr>qi_invalid := True\<rparr>)" "rb_count b' = rb_count b"
    by (auto simp: rb_set_def rb_at_def advance_pos_def split: if_splits)
  then show ?case using 2 by simp
qed (auto split: option.splits)

declare rq_remove_loop.simps [simp del]

definition rq_remove_sn :: "u32 \<Rightarrow> rlc_retx_queue \<Rightarrow> (bool \<times> rlc_retx_queue) option" where
  "rq_remove_sn sn q = (if rq_empty q then Some (False, q)
     else do {
       (result, b, st) \<leftarrow> rq_remove_loop sn 0 False (rq_queue q) (rq_st q);
       b \<leftarrow> clean_invalid_front b;
       Some (result, q\<lparr>rq_queue := b, rq_st := st\<rparr>)
     })"

section \<open>The valid retransmissions in order\<close>

definition valid_retx :: "rlc_retx_queue_item list \<Rightarrow> rlc_tx_amd_retx list" where
  "valid_retx items = map qi_retx (filter (\<lambda>i. \<not> qi_invalid i) items)"

definition rq_abs :: "rlc_retx_queue \<Rightarrow> rlc_tx_amd_retx list" where
  "rq_abs q = valid_retx (rb_list (rq_queue q))"

text \<open>Structure: the front is valid, so the queue is empty exactly if no valid element is queued.\<close>

definition rq_wf :: "rlc_retx_queue \<Rightarrow> bool" where
  "rq_wf q \<longleftrightarrow> rb_wf (rq_queue q)
     \<and> (case rb_list (rq_queue q) of [] \<Rightarrow> True | item # _ \<Rightarrow> \<not> qi_invalid item)"

text \<open>Accounting: the totals are those of the valid elements.\<close>

definition retx_bytes :: "rlc_tx_amd_retx list \<Rightarrow> nat" where
  "retx_bytes rs = sum_list (map (\<lambda>r. unat (rt_length r)) rs)"

definition rs_exact :: "rlc_tx_amd_retx list \<Rightarrow> rlc_retx_queue_state \<Rightarrow> bool" where
  "rs_exact rs st \<longleftrightarrow> unat (rs_retx_bytes st) = retx_bytes rs
     \<and> unat (rs_n_retx_so_zero st) = length (filter (\<lambda>r. rt_so r = 0) rs)
     \<and> unat (rs_n_retx_so_nonzero st) = length (filter (\<lambda>r. rt_so r \<noteq> 0) rs)"

definition rq_exact :: "rlc_retx_queue \<Rightarrow> bool" where
  "rq_exact q \<longleftrightarrow> rs_exact (rq_abs q) (rq_st q)"

lemma valid_retx_simps [simp]:
  "valid_retx [] = []"
  "valid_retx (i # is) = (if qi_invalid i then valid_retx is else qi_retx i # valid_retx is)"
  "valid_retx (is @ js) = valid_retx is @ valid_retx js"
  by (simp_all add: valid_retx_def)

lemma retx_bytes_simps [simp]:
  "retx_bytes [] = 0" "retx_bytes (r # rs) = unat (rt_length r) + retx_bytes rs"
  "retx_bytes (rs @ rs') = retx_bytes rs + retx_bytes rs'"
  by (simp_all add: retx_bytes_def)

lemma clean_invalid_front_spec:
  "rb_wf b \<Longrightarrow> \<exists>b'. clean_invalid_front b = Some b' \<and> rb_wf b' \<and> rb_max_size b' = rb_max_size b
     \<and> rb_list b' = dropWhile qi_invalid (rb_list b)"
proof (induction b rule: clean_invalid_front.induct)
  case (1 b)
  show ?case
  proof (cases "rb_list b")
    case Nil
    then have "rb_empty b" by (metis length_rb_list list.size(3) rb_empty_def)
    then show ?thesis using 1(2) Nil by (simp add: clean_invalid_front.simps)
  next
    case (Cons item rest)
    then have ne: "\<not> rb_empty b" by (metis length_0_conv length_rb_list list.distinct(1) rb_empty_def)
    have top: "rb_top b = Some item" using rb.top_ok[OF 1(2)] Cons by simp
    obtain b' where b': "rb_pop b = Some b'" "rb_wf b'" "rb_list b' = rest" "rb_max_size b' = rb_max_size b"
      using rb.pop_ok[OF 1(2) Cons] by blast
    show ?thesis
    proof (cases "qi_invalid item")
      case True
      then show ?thesis
        using 1(1)[OF ne top True b'(1) b'(2)] ne top b' Cons by (subst clean_invalid_front.simps) simp
    next
      case False
      then show ?thesis
        using 1(2) ne top Cons by (subst clean_invalid_front.simps) simp
    qed
  qed
qed

lemma valid_dropWhile [simp]: "valid_retx (dropWhile qi_invalid items) = valid_retx items"
  by (induction items) simp_all

lemma dropWhile_front: "case dropWhile qi_invalid items of [] \<Rightarrow> True | item # _ \<Rightarrow> \<not> qi_invalid item"
  by (induction items) simp_all

lemma rq_cleaned:
  assumes "rb_wf b"
  obtains b' where "clean_invalid_front b = Some b'" "rq_wf \<lparr>rq_queue = b', rq_st = st\<rparr>"
    "rq_abs \<lparr>rq_queue = b', rq_st = st\<rparr> = valid_retx (rb_list b)" "rb_max_size b' = rb_max_size b"
  using clean_invalid_front_spec[OF assms] dropWhile_front[of "rb_list b"]
  by (auto simp: rq_wf_def rq_abs_def)

section \<open>Accounting\<close>

lemma unat_add_1_u32: "unat (x :: u32) + 1 < 2 ^ 32 \<Longrightarrow> unat (x + 1) = unat x + 1"
  by (simp add: unat_word_ariths)

lemma rs_add_exact:
  assumes ex: "rs_exact rs st" and "retx_bytes rs + unat (rt_length r) < 2 ^ 32" and "length rs + 1 < 2 ^ 32"
  shows "rs_exact (rs @ [r]) (rs_add r st)"
proof -
  have "unat (rs_retx_bytes st + rt_length r) = unat (rs_retx_bytes st) + unat (rt_length r)"
    using assms by (simp add: rs_exact_def unat_word_ariths)
  moreover have "length (filter (\<lambda>r. rt_so r = 0) rs) + 1 < 2 ^ 32" "length (filter (\<lambda>r. rt_so r \<noteq> 0) rs) + 1 < 2 ^ 32"
    using assms(3) length_filter_le[of "\<lambda>r. rt_so r = 0" rs] length_filter_le[of "\<lambda>r. rt_so r \<noteq> 0" rs] by linarith+
  ultimately show ?thesis
    using ex unat_add_1_u32[of "rs_n_retx_so_zero st"] unat_add_1_u32[of "rs_n_retx_so_nonzero st"]
    by (simp add: rs_exact_def rs_add_def Let_def)
qed

lemma rs_exact_mset:
  "rs_exact (as @ r # bs) st = rs_exact (r # as @ bs) st"
  by (auto simp: rs_exact_def)

lemma rs_subtract_exact:
  assumes "rs_exact (as @ r # bs) st"
  shows "rs_exact (as @ bs) (rs_subtract r st)"
proof -
  have ex: "rs_exact (r # as @ bs) st" using assms by (simp only: rs_exact_mset)
  then have "rt_length r \<le> rs_retx_bytes st"
    by (simp add: rs_exact_def word_le_nat_alt)
  then have bytes: "unat (rs_retx_bytes st - rt_length r) = retx_bytes (as @ bs)" "rt_length r \<le> rs_retx_bytes st"
    using ex by (simp_all add: rs_exact_def unat_sub)
  have minus1: "unat (x - 1) = n \<and> 0 < x" if "unat (x :: u32) = Suc n" for x n
  proof -
    have "0 < x" using that by (auto simp: word_less_nat_alt)
    then show ?thesis using that by (simp add: unat_minus_one word_neq_0_conv)
  qed
  show ?thesis
    using ex bytes minus1[of "rs_n_retx_so_zero st"] minus1[of "rs_n_retx_so_nonzero st"]
    by (auto simp: rs_exact_def rs_subtract_def Let_def)
qed

section \<open>The operations on the valid retransmissions\<close>

lemma rq_empty_abs: "rq_wf q \<Longrightarrow> rq_empty q \<longleftrightarrow> rq_abs q = []"
  by (auto simp: rq_wf_def rq_abs_def rq_empty_def rb_empty_def simp flip: length_rb_list split: list.splits)

lemma rq_size_bound: "rq_wf q \<Longrightarrow> length (rq_abs q) \<le> rq_size q"
  by (simp add: rq_abs_def rq_size_def valid_retx_def flip: length_rb_list)

lemma rq_push_spec:
  assumes wf: "rq_wf q"
  shows "rq_wf (snd (rq_try_push r q))"
    "rq_abs (snd (rq_try_push r q)) = rq_abs q @ (if fst (rq_try_push r q) then [r] else [])"
    "rq_st (snd (rq_try_push r q)) = (if fst (rq_try_push r q) then rs_add r (rq_st q) else rq_st q)"
    "fst (rq_try_push r q) \<longleftrightarrow> rq_size q < rb_max_size (rq_queue q)"
    "rb_max_size (rq_queue (snd (rq_try_push r q))) = rb_max_size (rq_queue q)"
proof -
  let ?b = "rq_queue q" and ?i = "\<lparr>qi_invalid = False, qi_retx = r\<rparr>" and ?q' = "snd (rq_try_push r q)"
  have b: "rb_wf ?b" using wf by (simp add: rq_wf_def)
  have len: "rq_size q = length (rb_list ?b)" by (simp add: rq_size_def)
  have "rq_wf ?q' \<and> rq_abs ?q' = rq_abs q @ (if fst (rq_try_push r q) then [r] else [])
     \<and> rq_st ?q' = (if fst (rq_try_push r q) then rs_add r (rq_st q) else rq_st q)
     \<and> (fst (rq_try_push r q) \<longleftrightarrow> rq_size q < rb_max_size ?b) \<and> rb_max_size (rq_queue ?q') = rb_max_size ?b"
  proof (cases "length (rb_list ?b) < rb_max_size ?b")
    case True
    obtain b' where "rb_try_push ?b ?i = (True, b')" "rb_wf b'" "rb_list b' = rb_list ?b @ [?i]" "rb_max_size b' = rb_max_size ?b"
      using rb.push_ok[OF b True] by blast
    then show ?thesis
      using True wf len by (cases "rb_list ?b") (simp_all add: rq_try_push_def rq_wf_def rq_abs_def)
  next
    case False
    then have "length (rb_list ?b) = rb_max_size ?b" using rb.bounded[OF b] by linarith
    then show ?thesis
      using rb.push_full[OF b, of ?i] wf len by (simp add: rq_try_push_def)
  qed
  then show "rq_wf ?q'" "rq_abs ?q' = rq_abs q @ (if fst (rq_try_push r q) then [r] else [])"
    "rq_st ?q' = (if fst (rq_try_push r q) then rs_add r (rq_st q) else rq_st q)"
    "fst (rq_try_push r q) \<longleftrightarrow> rq_size q < rb_max_size ?b"
    "rb_max_size (rq_queue ?q') = rb_max_size ?b" by blast+
qed

lemma rq_front_item:
  assumes "rq_wf q" and "rq_abs q = r # rs"
  obtains item rest where "rb_list (rq_queue q) = item # rest" "qi_retx item = r" "\<not> qi_invalid item" "valid_retx rest = rs"
  using assms by (cases "rb_list (rq_queue q)") (auto simp: rq_wf_def rq_abs_def)

lemma rq_front_spec: "rq_wf q \<Longrightarrow> rq_front q = (case rq_abs q of [] \<Rightarrow> None | r # _ \<Rightarrow> Some r)"
  using rb.top_ok[of "rq_queue q"]
  by (auto simp: rq_front_def rq_wf_def rq_abs_def split: list.splits)

lemma rq_pop_spec:
  assumes wf: "rq_wf q" and abs: "rq_abs q = r # rs"
  shows "\<exists>q'. rq_pop q = Some q' \<and> rq_wf q' \<and> rq_abs q' = rs \<and> rq_st q' = rs_subtract r (rq_st q)
     \<and> rb_max_size (rq_queue q') = rb_max_size (rq_queue q)"
proof -
  obtain item rest where items: "rb_list (rq_queue q) = item # rest" "qi_retx item = r" "valid_retx rest = rs"
    using rq_front_item[OF wf abs] .
  have b: "rb_wf (rq_queue q)" using wf by (simp add: rq_wf_def)
  obtain b' where b': "rb_pop (rq_queue q) = Some b'" "rb_wf b'" "rb_list b' = rest" "rb_max_size b' = rb_max_size (rq_queue q)"
    using rb.pop_ok[OF b items(1)] by blast
  obtain b2 where "clean_invalid_front b' = Some b2" "rq_wf \<lparr>rq_queue = b2, rq_st = rs_subtract r (rq_st q)\<rparr>"
      "rq_abs \<lparr>rq_queue = b2, rq_st = rs_subtract r (rq_st q)\<rparr> = valid_retx (rb_list b')" "rb_max_size b2 = rb_max_size b'"
    using rq_cleaned[OF b'(2)] .
  moreover have "rb_top (rq_queue q) = Some item" "\<not> rq_empty q"
    using rb.top_ok[OF b] items(1) rq_empty_abs[OF wf] abs by simp_all
  ultimately show ?thesis
    using b' items by (simp add: rq_pop_def rq_wf_def rq_abs_def)
qed

lemma rq_replace_front_spec:
  assumes wf: "rq_wf q" and abs: "rq_abs q = r # rs"
  shows "\<exists>q'. rq_replace_front r' q = Some q' \<and> rq_wf q' \<and> rq_abs q' = r' # rs
     \<and> rq_st q' = rs_add r' (rs_subtract r (rq_st q)) \<and> rb_max_size (rq_queue q') = rb_max_size (rq_queue q)"
proof -
  obtain item rest where items: "rb_list (rq_queue q) = item # rest" "qi_retx item = r" "\<not> qi_invalid item" "valid_retx rest = rs"
    using rq_front_item[OF wf abs] .
  have b: "rb_wf (rq_queue q)" using wf by (simp add: rq_wf_def)
  obtain b' where "rb_set_top (rq_queue q) \<lparr>qi_invalid = False, qi_retx = r'\<rparr> = Some b'" "rb_wf b'"
      "rb_list b' = \<lparr>qi_invalid = False, qi_retx = r'\<rparr> # rest" "rb_max_size b' = rb_max_size (rq_queue q)"
    using rb.set_top_ok[OF b items(1)] by blast
  then show ?thesis
    using rb.top_ok[OF b] items by (simp add: rq_replace_front_def rq_wf_def rq_abs_def)
qed

lemma rq_find_valid: "rq_find p items \<longleftrightarrow> (\<exists>r \<in> set (valid_retx items). p r)"
  by (induction items) auto

lemma rq_has_spec:
  assumes "rq_wf q"
  shows "rq_has_sn sn q \<longleftrightarrow> (\<exists>r \<in> set (rq_abs q). rt_sn r = sn)"
    "rq_has_segment sn so len q \<longleftrightarrow> (\<exists>r \<in> set (rq_abs q). rt_sn r = sn \<and> retx_includes r so len)"
  using rq_empty_abs[OF assms] by (auto simp: rq_has_sn_def rq_has_segment_def rq_find_valid) (auto simp: rq_abs_def)

text \<open>Removing a sequence number.\<close>

definition removed_retx :: "u32 \<Rightarrow> rlc_tx_amd_retx list \<Rightarrow> rlc_tx_amd_retx list" where
  "removed_retx sn rs = filter (\<lambda>r. rt_sn r \<noteq> sn) rs"

definition remove_result :: "u32 \<Rightarrow> nat \<Rightarrow> bool \<Rightarrow> rlc_retx_queue_item ring_buffer \<Rightarrow> rlc_retx_queue_state
     \<Rightarrow> (bool \<times> rlc_retx_queue_item ring_buffer \<times> rlc_retx_queue_state) option \<Rightarrow> bool" where
  "remove_result sn i result b st r \<longleftrightarrow> (\<exists>result' b' st'. r = Some (result', b', st') \<and> rb_wf b'
     \<and> rb_max_size b' = rb_max_size b
     \<and> valid_retx (rb_list b') = valid_retx (take i (rb_list b)) @ removed_retx sn (valid_retx (drop i (rb_list b)))
     \<and> (result' \<longleftrightarrow> result \<or> (\<exists>r \<in> set (valid_retx (drop i (rb_list b))). rt_sn r = sn))
     \<and> (rs_exact (valid_retx (rb_list b)) st \<longrightarrow> rs_exact (valid_retx (rb_list b')) st'))"

lemma take_drop_nth: "i < length xs \<Longrightarrow> drop i xs = xs ! i # drop (Suc i) xs \<and> take (Suc i) xs = take i xs @ [xs ! i]"
  by (simp add: Cons_nth_drop_Suc take_Suc_conv_app_nth)

lemma rq_remove_loop_spec: "rb_wf b \<Longrightarrow> remove_result sn i result b st (rq_remove_loop sn i result b st)"
proof (induction sn i result b st rule: rq_remove_loop.induct)
  case (1 sn i result b st)
  let ?xs = "rb_list b"
  show ?case
  proof (cases "i < length ?xs")
    case False
    then show ?thesis
      using 1(3) by (subst rq_remove_loop.simps) (simp add: remove_result_def removed_retx_def)
  next
    case i: True
    let ?item = "?xs ! i"
    have at: "rb_at b i = Some ?item" using rb.at_ok[OF 1(3)] i by simp
    have nc: "\<not> rb_count b \<le> i" using i by simp
    note split = take_drop_nth[OF i]
    show ?thesis
    proof (cases "\<not> qi_invalid ?item \<and> rt_sn (qi_retx ?item) = sn")
      case True
      obtain b' where b': "rb_set b i (?item\<lparr>qi_invalid := True\<rparr>) = Some b'" "rb_wf b'"
          "rb_list b' = ?xs[i := ?item\<lparr>qi_invalid := True\<rparr>]" "rb_max_size b' = rb_max_size b"
        using rb.set_at_ok[OF 1(3) i] by blast
      have xs: "?xs = take i ?xs @ ?item # drop (Suc i) ?xs" using i by (simp add: id_take_nth_drop)
      have xs': "rb_list b' = take i ?xs @ ?item\<lparr>qi_invalid := True\<rparr> # drop (Suc i) ?xs"
        using i by (simp add: b'(3) upd_conv_take_nth_drop)
      have ti: "take i (rb_list b') = take i ?xs" "drop i (rb_list b') = ?item\<lparr>qi_invalid := True\<rparr> # drop (Suc i) ?xs"
        using i by (simp_all add: xs')
      have v: "valid_retx (rb_list b') = valid_retx (take i ?xs) @ valid_retx (drop (Suc i) ?xs)"
        by (simp add: xs')
      have "valid_retx ?xs = valid_retx (take i ?xs) @ qi_retx ?item # valid_retx (drop (Suc i) ?xs)"
        using True by (subst xs) (simp del: append_take_drop_id)
      then have ex: "rs_exact (valid_retx ?xs) st \<Longrightarrow> rs_exact (valid_retx (rb_list b')) (rs_subtract (qi_retx ?item) st)"
        unfolding v by (simp add: rs_subtract_exact)
      have "remove_result sn i True b' (rs_subtract (qi_retx ?item) st)
          (rq_remove_loop sn i True b' (rs_subtract (qi_retx ?item) st))"
        using 1(1)[OF nc at True b'(1,2)] .
      moreover have "rq_remove_loop sn i result b st = rq_remove_loop sn i True b' (rs_subtract (qi_retx ?item) st)"
        using at True nc b'(1) by (simp add: rq_remove_loop.simps[of sn i result b st])
      ultimately show ?thesis
        using True ex b'(4) split unfolding remove_result_def ti by (auto simp: removed_retx_def)
    next
      case False
      then have "remove_result sn (i + 1) result b st (rq_remove_loop sn (i + 1) result b st)"
        using 1(2)[OF nc at False 1(3)] by simp
      moreover have "rq_remove_loop sn i result b st = rq_remove_loop sn (i + 1) result b st"
        using at False nc by (subst rq_remove_loop.simps) auto
      ultimately show ?thesis
        using False split unfolding remove_result_def by (auto simp: removed_retx_def)
    qed
  qed
qed

lemma rq_remove_sn_spec:
  assumes wf: "rq_wf q"
  shows "\<exists>q'. rq_remove_sn sn q = Some (rq_has_sn sn q, q') \<and> rq_wf q' \<and> rq_abs q' = removed_retx sn (rq_abs q)
     \<and> (rq_exact q \<longrightarrow> rq_exact q') \<and> rb_max_size (rq_queue q') = rb_max_size (rq_queue q)"
proof (cases "rq_empty q")
  case True
  then show ?thesis
    using wf rq_empty_abs[OF wf] by (simp add: rq_remove_sn_def rq_has_sn_def removed_retx_def)
next
  case False
  have "rb_wf (rq_queue q)" using wf by (simp add: rq_wf_def)
  from rq_remove_loop_spec[OF this, of sn 0 False "rq_st q"]
  obtain result b st where r: "rq_remove_loop sn 0 False (rq_queue q) (rq_st q) = Some (result, b, st)" "rb_wf b"
      "rb_max_size b = rb_max_size (rq_queue q)" "valid_retx (rb_list b) = removed_retx sn (rq_abs q)"
      "result \<longleftrightarrow> rq_has_sn sn q" "rq_exact q \<longrightarrow> rs_exact (valid_retx (rb_list b)) st"
    unfolding remove_result_def rq_has_spec(1)[OF wf] by (auto simp: rq_abs_def rq_exact_def)
  obtain b' where "clean_invalid_front b = Some b'" "rq_wf \<lparr>rq_queue = b', rq_st = st\<rparr>"
      "rq_abs \<lparr>rq_queue = b', rq_st = st\<rparr> = valid_retx (rb_list b)" "rb_max_size b' = rb_max_size b"
    using rq_cleaned[OF r(2)] .
  then show ?thesis
    using False r by (simp add: rq_remove_sn_def rq_wf_def rq_abs_def rq_exact_def)
qed

section \<open>The contract of the retransmission queue\<close>

locale retx_fifo =
  fixes invar :: "'q \<Rightarrow> bool"
    and contents :: "'q \<Rightarrow> rlc_tx_amd_retx list"
    and push :: "rlc_tx_amd_retx \<Rightarrow> 'q \<Rightarrow> bool \<times> 'q"
    and pop :: "'q \<Rightarrow> 'q option"
    and front :: "'q \<Rightarrow> rlc_tx_amd_retx option"
    and replace :: "rlc_tx_amd_retx \<Rightarrow> 'q \<Rightarrow> 'q option"
    and remove :: "u32 \<Rightarrow> 'q \<Rightarrow> (bool \<times> 'q) option"
    and empty :: "'q \<Rightarrow> bool"
  assumes push_law: "invar q \<Longrightarrow> invar (snd (push r q))
      \<and> contents (snd (push r q)) = contents q @ (if fst (push r q) then [r] else [])"
    and pop_law: "invar q \<Longrightarrow> contents q = r # rs \<Longrightarrow> \<exists>q'. pop q = Some q' \<and> invar q' \<and> contents q' = rs"
    and front_law: "invar q \<Longrightarrow> front q = (case contents q of [] \<Rightarrow> None | r # _ \<Rightarrow> Some r)"
    and replace_law: "invar q \<Longrightarrow> contents q = r # rs \<Longrightarrow>
      \<exists>q'. replace r' q = Some q' \<and> invar q' \<and> contents q' = r' # rs"
    and remove_law: "invar q \<Longrightarrow> \<exists>found q'. remove sn q = Some (found, q') \<and> invar q'
      \<and> contents q' = filter (\<lambda>r. rt_sn r \<noteq> sn) (contents q)"
    and empty_law: "invar q \<Longrightarrow> empty q \<longleftrightarrow> contents q = []"
begin

lemma front_total: "invar q \<Longrightarrow> \<not> empty q \<Longrightarrow> \<exists>r rs q'. front q = Some r \<and> contents q = r # rs
    \<and> pop q = Some q' \<and> invar q' \<and> contents q' = rs"
  using front_law empty_law pop_law by (cases "contents q") fastforce+

lemma remove_sns: "invar q \<Longrightarrow> \<exists>found q'. remove sn q = Some (found, q') \<and> invar q'
    \<and> (\<forall>r \<in> set (contents q'). r \<in> set (contents q) \<and> rt_sn r \<noteq> sn)"
  using remove_law[of q sn] by fastforce

end

interpretation retx: retx_fifo rq_wf rq_abs rq_try_push rq_pop rq_front rq_replace_front rq_remove_sn rq_empty
proof (unfold_locales, goal_cases)
  case (5 q sn)
  then show ?case using rq_remove_sn_spec[of q sn] by (auto simp: removed_retx_def)
next
  case (2 q r rs)
  then show ?case using rq_pop_spec by blast
next
  case (4 q r rs r')
  then show ?case using rq_replace_front_spec by blast
qed (simp_all add: rq_push_spec(1,2) rq_front_spec rq_empty_abs)

section \<open>Properties\<close>

lemma rq_new_wf: "0 < n \<Longrightarrow> rq_wf (rq_new n) \<and> rq_abs (rq_new n) = [] \<and> rq_exact (rq_new n)"
proof -
  assume "0 < n"
  then have "rb_wf (rb_new n :: rlc_retx_queue_item ring_buffer)" "rb_list (rb_new n :: rlc_retx_queue_item ring_buffer) = []"
    using rb_new_list by blast+
  then show ?thesis by (simp add: rq_new_def rq_wf_def rq_abs_def rq_exact_def rs_exact_def rs_zero_def)
qed

text \<open>The retransmission queue with in-place invalidation behaves as a plain list: pushing appends
  (or is refused when the ring buffer is full), the front is the oldest valid element, popping and
  replacing act on it, and removing a sequence number deletes exactly its elements; no assertion
  fails, and the running byte and element totals remain those of the list as long as the byte
  total fits its 32-bit counter.\<close>

theorem retx_queue_refines_list:
  assumes "rq_wf q" and "rq_exact q" and "retx_bytes (rq_abs q) + unat (rt_length r) < 2 ^ 32"
    and "rb_max_size (rq_queue q) < 2 ^ 32"
  shows "(case rq_try_push r q of (ok, q') \<Rightarrow> rq_wf q' \<and> rq_exact q'
        \<and> (ok \<longleftrightarrow> rq_size q < rb_max_size (rq_queue q)) \<and> rq_abs q' = rq_abs q @ (if ok then [r] else []))
     \<and> (\<exists>q'. rq_remove_sn sn q = Some (rq_has_sn sn q, q') \<and> rq_wf q' \<and> rq_exact q'
        \<and> rq_abs q' = filter (\<lambda>r. rt_sn r \<noteq> sn) (rq_abs q))
     \<and> (case rq_abs q of [] \<Rightarrow> rq_empty q \<and> rq_pop q = Some q
        | x # xs \<Rightarrow> rq_front q = Some x
            \<and> (\<exists>q'. rq_pop q = Some q' \<and> rq_wf q' \<and> rq_exact q' \<and> rq_abs q' = xs)
            \<and> (\<exists>q'. rq_replace_front r q = Some q' \<and> rq_wf q' \<and> rq_abs q' = r # xs))"
proof (intro conjI)
  have len: "length (rq_abs q) \<le> rq_size q" "rq_size q \<le> rb_max_size (rq_queue q)"
    using rq_size_bound[OF assms(1)] rb.bounded[of "rq_queue q"] assms(1) by (simp_all add: rq_size_def rq_wf_def)
  have "rq_exact (snd (rq_try_push r q))"
    using rq_push_spec[OF assms(1), of r] assms(2) rs_add_exact[of "rq_abs q" "rq_st q" r] assms(3,4) len
    by (auto simp: rq_exact_def)
  then show "case rq_try_push r q of (ok, q') \<Rightarrow> rq_wf q' \<and> rq_exact q'
        \<and> (ok \<longleftrightarrow> rq_size q < rb_max_size (rq_queue q)) \<and> rq_abs q' = rq_abs q @ (if ok then [r] else [])"
    using rq_push_spec[OF assms(1), of r] by (simp add: case_prod_beta)
  show "\<exists>q'. rq_remove_sn sn q = Some (rq_has_sn sn q, q') \<and> rq_wf q' \<and> rq_exact q'
        \<and> rq_abs q' = filter (\<lambda>r. rt_sn r \<noteq> sn) (rq_abs q)"
    using rq_remove_sn_spec[OF assms(1), of sn] assms(2) by (auto simp: removed_retx_def)
  show "case rq_abs q of [] \<Rightarrow> rq_empty q \<and> rq_pop q = Some q
        | x # xs \<Rightarrow> rq_front q = Some x
            \<and> (\<exists>q'. rq_pop q = Some q' \<and> rq_wf q' \<and> rq_exact q' \<and> rq_abs q' = xs)
            \<and> (\<exists>q'. rq_replace_front r q = Some q' \<and> rq_wf q' \<and> rq_abs q' = r # xs)"
  proof (cases "rq_abs q")
    case Nil
    then show ?thesis using retx.empty_law[OF assms(1)] by (simp add: rq_pop_def)
  next
    case (Cons x xs)
    have "rs_exact xs (rs_subtract x (rq_st q))"
      using rs_subtract_exact[of "[]" x xs] assms(2) Cons by (simp add: rq_exact_def)
    then show ?thesis
      using Cons rq_pop_spec[OF assms(1) Cons] rq_replace_front_spec[OF assms(1) Cons, of r]
        retx.front_law[OF assms(1)] by (auto simp: rq_exact_def)
  qed
qed

definition retx_demo1 :: rlc_tx_amd_retx where
  "retx_demo1 = \<lparr>rt_sn = 5, rt_so = 0, rt_length = 100\<rparr>"

definition retx_demo2 :: rlc_tx_amd_retx where
  "retx_demo2 = \<lparr>rt_sn = 6, rt_so = 20, rt_length = 30\<rparr>"

lemma rq_new_4: "rb_max_size (rq_queue (rq_new 4)) = 4"
  using to_next_pow2_exp[of 2] by (simp add: rq_new_def rb_new_def)

theorem retx_queue_refines_list_witness:
  "(case rq_try_push retx_demo1 (rq_new 4) of (ok, q) \<Rightarrow> ok \<and> rq_abs q = [retx_demo1]
     \<and> rq_front q = Some retx_demo1
     \<and> (case rq_try_push retx_demo2 q of (ok2, q2) \<Rightarrow> ok2 \<and> rq_abs q2 = [retx_demo1, retx_demo2]))"
proof -
  obtain q where q: "rq_try_push retx_demo1 (rq_new 4) = (True, q)" "rq_wf q" "rq_exact q" "rq_abs q = [retx_demo1]"
    using retx_queue_refines_list[of "rq_new 4" retx_demo1 0] rq_new_wf[of 4] rq_new_4
    by (auto simp: rq_size_def rq_new_def rb_new_def retx_demo1_def split: prod.splits)
  have max: "rb_max_size (rq_queue q) = 4" "rq_size q = 1"
    using rq_push_spec(5)[of "rq_new 4" retx_demo1] rq_new_wf[of 4] rq_new_4 q(1)
    by (auto simp: rq_try_push_def rb_try_push_def rb_push_def rq_size_def rq_new_def rb_new_def split: if_splits)
  then show ?thesis
    using retx_queue_refines_list[of q retx_demo2 0] q
    by (auto simp: retx_demo1_def retx_demo2_def split: prod.splits)
qed

end
