(* ===== verification/Rlc_Status_Pdu.thy ===== *)
theory Rlc_Status_Pdu
  imports Rlc_Am_Pdu
begin

text \<open>
  The status PDU of acknowledged mode, class \<open>rlc_am_status_pdu\<close> of \<open>lib/rlc/rlc_am_pdu.h\<close> and
  \<open>lib/rlc/rlc_am_pdu.cpp\<close>: the list of NACKs with the merging of neighbours, the running packed
  size, trimming to a grant, and the bit-exact encoder and decoder for both sequence-number sizes.

  \<open>pack\<close> returns the bytes it writes; \<open>unpack\<close> returns \<^const>\<open>None\<close> where the C++ method returns
  \<open>false\<close> (its caller drops the object then).
\<close>

section \<open>NACKs\<close>

definition so_end_of_sdu :: u16 where
  "so_end_of_sdu = 0xFFFF"

record rlc_am_status_nack =
  nack_sn :: u32
  has_so :: bool
  so_start :: u16
  so_end :: u16
  has_nack_range :: bool
  nack_range :: u8

definition nack_default :: rlc_am_status_nack where
  "nack_default = \<lparr>nack_sn = 0, has_so = False, so_start = 0, so_end = so_end_of_sdu,
     has_nack_range = False, nack_range = 0\<rparr>"

definition sizeof_header_ack_sn :: u32 where "sizeof_header_ack_sn = 3"
definition sizeof_nack_sn_ext_12bit_sn :: u32 where "sizeof_nack_sn_ext_12bit_sn = 2"
definition sizeof_nack_sn_ext_18bit_sn :: u32 where "sizeof_nack_sn_ext_18bit_sn = 3"
definition sizeof_nack_so :: u32 where "sizeof_nack_so = 4"
definition sizeof_nack_range :: u32 where "sizeof_nack_range = 1"

lemmas sizeof_defs = sizeof_header_ack_sn_def sizeof_nack_sn_ext_12bit_sn_def
  sizeof_nack_sn_ext_18bit_sn_def sizeof_nack_so_def sizeof_nack_range_def

section \<open>The status object\<close>

text \<open>\<open>st_cpt\<close> is the numeric value of the control PDU type; 0 is \<open>status_pdu\<close>.\<close>

record rlc_am_status_pdu =
  st_sn_size :: rlc_am_sn_size
  st_mod_nr :: u32
  st_nacks :: "rlc_am_status_nack list"
  st_packed_size :: u32
  st_cpt :: u8
  st_ack_sn :: u32

definition status_pdu_new :: "rlc_am_sn_size \<Rightarrow> rlc_am_status_pdu" where
  "status_pdu_new sn_size = \<lparr>st_sn_size = sn_size, st_mod_nr = cardinality (am_to_number sn_size),
     st_nacks = [], st_packed_size = sizeof_header_ack_sn, st_cpt = 0, st_ack_sn = INVALID_RLC_SN\<rparr>"

definition status_reset :: "rlc_am_status_pdu \<Rightarrow> rlc_am_status_pdu" where
  "status_reset st = st\<lparr>st_cpt := 0, st_ack_sn := INVALID_RLC_SN, st_nacks := [],
     st_packed_size := sizeof_header_ack_sn\<rparr>"

definition nack_size :: "rlc_am_sn_size \<Rightarrow> rlc_am_status_nack \<Rightarrow> u32" where
  "nack_size sn_size nack =
     (if sn_size = am_size12bits then sizeof_nack_sn_ext_12bit_sn else sizeof_nack_sn_ext_18bit_sn)
     + (if has_so nack then sizeof_nack_so else 0)
     + (if has_nack_range nack then sizeof_nack_range else 0)"

definition can_be_merged :: "u32 \<Rightarrow> rlc_am_status_nack \<Rightarrow> rlc_am_status_nack \<Rightarrow> bool" where
  "can_be_merged mod_nr left right =
     (if nack_sn right \<noteq> (if has_nack_range left then nack_sn left + ucast (nack_range left)
                           else nack_sn left + 1) mod mod_nr then False
      else if has_so left \<and> so_end left \<noteq> so_end_of_sdu then False
      else if has_so right \<and> so_start right \<noteq> 0 then False
      else (let left_range = (if has_nack_range left then unat (nack_range left) else 1);
                right_range = (if has_nack_range right then unat (nack_range right) else 1)
            in left_range + right_range \<le> 255))"

text \<open>The expansion of the previous NACK: first its range, then its segment offsets.\<close>

definition expand_range :: "rlc_am_status_nack \<Rightarrow> rlc_am_status_nack \<Rightarrow> rlc_am_status_nack" where
  "expand_range prev nack =
     (if has_nack_range nack then
        (if has_nack_range prev then prev\<lparr>nack_range := nack_range prev + nack_range nack\<rparr>
         else prev\<lparr>nack_range := nack_range nack + 1, has_nack_range := True\<rparr>)
      else
        (if has_nack_range prev then prev\<lparr>nack_range := nack_range prev + 1\<rparr>
         else prev\<lparr>nack_range := 2, has_nack_range := True\<rparr>))"

definition expand_so :: "rlc_am_status_nack \<Rightarrow> rlc_am_status_nack \<Rightarrow> rlc_am_status_nack" where
  "expand_so prev nack =
     (if has_so nack then
        (let prev' = (if \<not> has_so prev then prev\<lparr>has_so := True, so_start := 0\<rparr> else prev)
         in prev'\<lparr>so_end := so_end nack\<rparr>)
      else if has_so prev then prev\<lparr>so_end := so_end_of_sdu\<rparr> else prev)"

definition push_nack :: "rlc_am_status_pdu \<Rightarrow> rlc_am_status_nack \<Rightarrow> rlc_am_status_pdu" where
  "push_nack st nack =
     (let size_of = nack_size (st_sn_size st);
          append = st\<lparr>st_nacks := st_nacks st @ [nack],
                      st_packed_size := st_packed_size st + size_of nack\<rparr>
      in if st_nacks st = [] then append
         else let prev = last (st_nacks st) in
           if \<not> can_be_merged (st_mod_nr st) prev nack then append
           else let prev' = expand_so (expand_range prev nack) nack in
             st\<lparr>st_nacks := butlast (st_nacks st) @ [prev'],
                st_packed_size := st_packed_size st - size_of prev + size_of prev'\<rparr>)"

text \<open>The loop of \<open>trim\<close> removes NACKs from the back.\<close>

function trim_loop :: "u32 \<Rightarrow> rlc_am_status_pdu \<Rightarrow> rlc_am_status_pdu" where
  "trim_loop max_packed_size st =
     (if st_nacks st \<noteq> [] \<and> (max_packed_size < st_packed_size st
           \<or> nack_sn (last (st_nacks st)) = st_ack_sn st)
      then trim_loop max_packed_size
        (st\<lparr>st_packed_size := st_packed_size st - nack_size (st_sn_size st) (last (st_nacks st)),
            st_ack_sn := nack_sn (last (st_nacks st)),
            st_nacks := butlast (st_nacks st)\<rparr>)
      else st)"
  by pat_completeness auto
termination
  by (relation "measure (\<lambda>(_, st). length (st_nacks st))") auto

declare trim_loop.simps [simp del]

definition trim :: "rlc_am_status_pdu \<Rightarrow> u32 \<Rightarrow> bool \<times> rlc_am_status_pdu" where
  "trim st max_packed_size =
     (if max_packed_size \<ge> st_packed_size st then (True, st)
      else if max_packed_size < sizeof_header_ack_sn then (False, st)
      else (True, trim_loop max_packed_size st))"

definition refresh_packed_size :: "rlc_am_status_pdu \<Rightarrow> rlc_am_status_pdu" where
  "refresh_packed_size st = st\<lparr>st_packed_size :=
     foldl (\<lambda>acc nack. acc + nack_size (st_sn_size st) nack) sizeof_header_ack_sn (st_nacks st)\<rparr>"

section \<open>Decoding\<close>

definition is_control_pdu :: "bytes \<Rightarrow> bool" where
  "is_control_pdu pdu \<longleftrightarrow> drop_bit 7 (hd pdu) AND 0x01 = dc_to_number dc_control"

text \<open>The optional parts of a NACK, the same code for both sequence-number sizes.\<close>

definition read_nack_so :: "bool \<Rightarrow> rlc_am_status_nack \<Rightarrow> bytes \<Rightarrow> (rlc_am_status_nack \<times> bytes) option"
where
  "read_nack_so e2 nack rest = (if \<not> e2 then Some (nack, rest) else
     (case rest of b0 # b1 # b2 # b3 # rest' \<Rightarrow>
        Some (nack\<lparr>has_so := True,
                   so_start := push_bit 8 (ucast b0) OR ucast b1,
                   so_end := push_bit 8 (ucast b2) OR ucast b3\<rparr>, rest')
      | _ \<Rightarrow> None))"

definition read_nack_range ::
    "bool \<Rightarrow> rlc_am_status_nack \<Rightarrow> bytes \<Rightarrow> (rlc_am_status_nack \<times> bytes) option" where
  "read_nack_range e3 nack rest = (if \<not> e3 then Some (nack, rest) else
     (case rest of b0 # rest' \<Rightarrow> Some (nack\<lparr>has_nack_range := True, nack_range := b0\<rparr>, rest')
      | [] \<Rightarrow> None))"

text \<open>One round of the loop up to \<open>push_nack\<close>: the NACK, the new E1 flag and the rest.\<close>

fun unpack_nack_12bit :: "bytes \<Rightarrow> (rlc_am_status_nack \<times> bool \<times> bytes) option" where
  "unpack_nack_12bit (b0 # b1 # rest) =
     (let e1 = (b1 AND 0x08 \<noteq> 0); e2 = (b1 AND 0x04 \<noteq> 0); e3 = (b1 AND 0x02 \<noteq> 0) in
      if b1 AND 0x01 \<noteq> 0 then None else do {
        let nack = nack_default\<lparr>nack_sn := push_bit 4 (ucast (b0 AND 0xFF))
                                  OR ucast (drop_bit 4 (b1 AND 0xF0))\<rparr>;
        (nack, rest) \<leftarrow> read_nack_so e2 nack rest;
        (nack, rest) \<leftarrow> read_nack_range e3 nack rest;
        Some (nack, e1, rest)
      })"
| "unpack_nack_12bit _ = None"

fun unpack_nack_18bit :: "bytes \<Rightarrow> (rlc_am_status_nack \<times> bool \<times> bytes) option" where
  "unpack_nack_18bit (b0 # b1 # b2 # rest) =
     (let e1 = (b2 AND 0x20 \<noteq> 0); e2 = (b2 AND 0x10 \<noteq> 0); e3 = (b2 AND 0x08 \<noteq> 0) in
      if b2 AND 0x07 \<noteq> 0 then None else do {
        let nack = nack_default\<lparr>nack_sn := push_bit 10 (ucast (b0 AND 0xFF))
                                  OR push_bit 2 (ucast (b1 AND 0xFF))
                                  OR ucast (drop_bit 6 (b2 AND 0xC0))\<rparr>;
        (nack, rest) \<leftarrow> read_nack_so e2 nack rest;
        (nack, rest) \<leftarrow> read_nack_range e3 nack rest;
        Some (nack, e1, rest)
      })"
| "unpack_nack_18bit _ = None"

lemma read_nack_so_length:
  "read_nack_so e2 nack rest = Some (nack', rest') \<Longrightarrow> length rest' \<le> length rest"
  by (auto simp: read_nack_so_def split: if_splits list.splits)

lemma read_nack_range_length:
  "read_nack_range e3 nack rest = Some (nack', rest') \<Longrightarrow> length rest' \<le> length rest"
  by (auto simp: read_nack_range_def split: if_splits list.splits)

lemma unpack_nack_12bit_length:
  "unpack_nack_12bit bs = Some (nack, e1, rest) \<Longrightarrow> length rest < length bs"
  by (cases bs rule: unpack_nack_12bit.cases)
    (auto simp: Let_def bind_eq_Some_conv' split: if_splits
      dest!: read_nack_so_length read_nack_range_length)

lemma unpack_nack_18bit_length:
  "unpack_nack_18bit bs = Some (nack, e1, rest) \<Longrightarrow> length rest < length bs"
  by (cases bs rule: unpack_nack_18bit.cases)
    (auto simp: Let_def bind_eq_Some_conv' split: if_splits
      dest!: read_nack_so_length read_nack_range_length)

function unpack_nacks_12bit :: "bool \<Rightarrow> bytes \<Rightarrow> rlc_am_status_pdu \<Rightarrow> rlc_am_status_pdu option" where
  "unpack_nacks_12bit e1 bs st = (if \<not> e1 then Some st else
     (case unpack_nack_12bit bs of None \<Rightarrow> None
      | Some (nack, e1', rest) \<Rightarrow> unpack_nacks_12bit e1' rest (push_nack st nack)))"
  by pat_completeness auto
termination
  by (relation "measure (\<lambda>(_, bs, _). length bs)") (auto dest: unpack_nack_12bit_length)

function unpack_nacks_18bit :: "bool \<Rightarrow> bytes \<Rightarrow> rlc_am_status_pdu \<Rightarrow> rlc_am_status_pdu option" where
  "unpack_nacks_18bit e1 bs st = (if \<not> e1 then Some st else
     (case unpack_nack_18bit bs of None \<Rightarrow> None
      | Some (nack, e1', rest) \<Rightarrow> unpack_nacks_18bit e1' rest (push_nack st nack)))"
  by pat_completeness auto
termination
  by (relation "measure (\<lambda>(_, bs, _). length bs)") (auto dest: unpack_nack_18bit_length)

declare unpack_nacks_12bit.simps [simp del] unpack_nacks_18bit.simps [simp del]

definition unpack_12bit :: "rlc_am_status_pdu \<Rightarrow> bytes \<Rightarrow> rlc_am_status_pdu option" where
  "unpack_12bit st pdu = (case pdu of b0 # b1 # b2 # rest \<Rightarrow>
     if \<not> is_control_pdu pdu then None
     else let st1 = (status_reset st)\<lparr>st_cpt := drop_bit 4 b0 AND 0x07\<rparr> in
       if st_cpt st1 \<noteq> 0 then None
       else let st2 = st1\<lparr>st_ack_sn := push_bit 8 (ucast (b0 AND 0x0F)) OR ucast (b1 AND 0xFF)\<rparr> in
         if b2 AND 0x7F \<noteq> 0 then None
         else unpack_nacks_12bit (b2 AND 0x80 \<noteq> 0) rest st2
   | _ \<Rightarrow> None)"

definition unpack_18bit :: "rlc_am_status_pdu \<Rightarrow> bytes \<Rightarrow> rlc_am_status_pdu option" where
  "unpack_18bit st pdu = (case pdu of b0 # b1 # b2 # rest \<Rightarrow>
     if \<not> is_control_pdu pdu then None
     else let st1 = (status_reset st)\<lparr>st_cpt := drop_bit 4 b0 AND 0x07\<rparr> in
       if st_cpt st1 \<noteq> 0 then None
       else let st2 = st1\<lparr>st_ack_sn := push_bit 14 (ucast (b0 AND 0x0F))
                            OR push_bit 6 (ucast (b1 AND 0xFF))
                            OR ucast (drop_bit 2 (b2 AND 0xFC))\<rparr> in
         if b2 AND 0x01 \<noteq> 0 then None
         else unpack_nacks_18bit (b2 AND 0x02 \<noteq> 0) rest st2
   | _ \<Rightarrow> None)"

definition unpack :: "rlc_am_status_pdu \<Rightarrow> bytes \<Rightarrow> rlc_am_status_pdu option" where
  "unpack st pdu = (case st_sn_size st of
     am_size12bits \<Rightarrow> unpack_12bit st pdu | am_size18bits \<Rightarrow> unpack_18bit st pdu)"

section \<open>Encoding\<close>

definition pack_nack_tail :: "rlc_am_status_nack \<Rightarrow> bytes" where
  "pack_nack_tail nack =
     (if has_so nack then [octet 8 (so_start nack), octet 0 (so_start nack),
                           octet 8 (so_end nack), octet 0 (so_end nack)] else [])
     @ (if has_nack_range nack then [nack_range nack] else [])"

definition pack_nack_12bit :: "bool \<Rightarrow> rlc_am_status_nack \<Rightarrow> bytes" where
  "pack_nack_12bit e1 nack =
     [octet 4 (nack_sn nack) AND 0xFF,
      push_bit 4 (octet 0 (nack_sn nack) AND 0x0F) OR (if e1 then 0x08 else 0)
        OR (if has_so nack then 0x04 else 0) OR (if has_nack_range nack then 0x02 else 0)]
     @ pack_nack_tail nack"

definition pack_nack_18bit :: "bool \<Rightarrow> rlc_am_status_nack \<Rightarrow> bytes" where
  "pack_nack_18bit e1 nack =
     [octet 10 (nack_sn nack) AND 0xFF, octet 2 (nack_sn nack) AND 0xFF,
      (octet 0 (push_bit 6 (nack_sn nack)) AND 0xC0) OR (if e1 then 0x20 else 0)
        OR (if has_so nack then 0x10 else 0) OR (if has_nack_range nack then 0x08 else 0)]
     @ pack_nack_tail nack"

primrec pack_nacks :: "(bool \<Rightarrow> rlc_am_status_nack \<Rightarrow> bytes) \<Rightarrow> rlc_am_status_nack list \<Rightarrow> bytes" where
  "pack_nacks f [] = []"
| "pack_nacks f (n # ns) = f (ns \<noteq> []) n @ pack_nacks f ns"

definition pack_12bit :: "rlc_am_status_pdu \<Rightarrow> bytes" where
  "pack_12bit st = [octet 8 (st_ack_sn st) AND 0x0F, octet 0 (st_ack_sn st) AND 0xFF,
      (if st_nacks st \<noteq> [] then 0x80 else 0)] @ pack_nacks pack_nack_12bit (st_nacks st)"

definition pack_18bit :: "rlc_am_status_pdu \<Rightarrow> bytes" where
  "pack_18bit st = [octet 14 (st_ack_sn st) AND 0x0F, octet 6 (st_ack_sn st) AND 0xFF,
      (octet 0 (push_bit 2 (st_ack_sn st)) AND 0xFC) OR (if st_nacks st \<noteq> [] then 0x02 else 0)]
      @ pack_nacks pack_nack_18bit (st_nacks st)"

definition pack :: "rlc_am_status_pdu \<Rightarrow> bytes" where
  "pack st = (case st_sn_size st of
     am_size12bits \<Rightarrow> pack_12bit st | am_size18bits \<Rightarrow> pack_18bit st)"

section \<open>The packed size\<close>

definition status_size_ok :: "rlc_am_status_pdu \<Rightarrow> bool" where
  "status_size_ok st \<longleftrightarrow> st_packed_size st
     = sizeof_header_ack_sn + sum_list (map (nack_size (st_sn_size st)) (st_nacks st))"

lemma sum_list_last:
  fixes f :: "'a \<Rightarrow> u32"
  assumes "xs \<noteq> []"
  shows "sum_list (map f xs) = sum_list (map f (butlast xs)) + f (last xs)"
  using assms by (cases xs rule: rev_cases) simp_all

lemma status_new_size [simp]: "status_size_ok (status_pdu_new s)"
  by (simp add: status_size_ok_def status_pdu_new_def)

lemma status_reset_size [simp]: "status_size_ok (status_reset st)"
  by (simp add: status_size_ok_def status_reset_def)

lemma push_nack_fields [simp]:
  "st_sn_size (push_nack st n) = st_sn_size st" "st_mod_nr (push_nack st n) = st_mod_nr st"
  "st_ack_sn (push_nack st n) = st_ack_sn st" "st_cpt (push_nack st n) = st_cpt st"
  by (simp_all add: push_nack_def Let_def)

lemma push_nack_size: "status_size_ok st \<Longrightarrow> status_size_ok (push_nack st n)"
  by (auto simp: status_size_ok_def push_nack_def Let_def sum_list_last)

lemma trim_loop_size: "status_size_ok st \<Longrightarrow> status_size_ok (trim_loop m st)"
proof (induction m st rule: trim_loop.induct)
  case (1 m st)
  then show ?case
    by (subst trim_loop.simps) (auto simp: status_size_ok_def sum_list_last)
qed

lemma trim_size: "status_size_ok st \<Longrightarrow> status_size_ok (snd (trim st m))"
  by (simp add: trim_def trim_loop_size)

lemma refresh_packed_size_ok: "status_size_ok (refresh_packed_size st)"
proof -
  have "foldl (\<lambda>acc nack. acc + f nack) a ns = a + sum_list (map f ns)"
    for f :: "rlc_am_status_nack \<Rightarrow> u32" and a ns
    by (induction ns arbitrary: a) (simp_all add: add.assoc)
  then show ?thesis by (simp add: status_size_ok_def refresh_packed_size_def)
qed

lemma refresh_packed_size_id: "status_size_ok st \<Longrightarrow> refresh_packed_size st = st"
  using refresh_packed_size_ok[of st]
  by (simp add: status_size_ok_def refresh_packed_size_def)

text \<open>The encoder produces exactly the running size.\<close>

lemma length_pack_nack:
  "of_nat (length (pack_nack_12bit e1 n)) = nack_size am_size12bits n"
  "of_nat (length (pack_nack_18bit e1 n)) = nack_size am_size18bits n"
  by (simp_all add: pack_nack_12bit_def pack_nack_18bit_def pack_nack_tail_def nack_size_def sizeof_defs)

lemma length_pack_nacks:
  "of_nat (length (pack_nacks pack_nack_12bit ns)) = sum_list (map (nack_size am_size12bits) ns)"
  "of_nat (length (pack_nacks pack_nack_18bit ns)) = sum_list (map (nack_size am_size18bits) ns)"
  by (induction ns) (simp_all add: length_pack_nack)

lemma length_pack:
  "status_size_ok st \<Longrightarrow> of_nat (length (pack st)) = st_packed_size st"
  by (cases "st_sn_size st")
    (simp_all add: status_size_ok_def pack_def pack_12bit_def pack_18bit_def length_pack_nacks sizeof_defs)

section \<open>Decoding what was encoded\<close>

text \<open>
  The NACKs a status object holds: sequence number in range, and the offsets and the range at their
  constructor's values when the flags say they are absent.
\<close>

definition nack_ok :: "rlc_am_sn_size \<Rightarrow> rlc_am_status_nack \<Rightarrow> bool" where
  "nack_ok s n \<longleftrightarrow> unat (nack_sn n) < 2 ^ am_to_number s
     \<and> (\<not> has_so n \<longrightarrow> so_start n = 0 \<and> so_end n = so_end_of_sdu)
     \<and> (\<not> has_nack_range n \<longrightarrow> nack_range n = 0)"

definition status_ok :: "rlc_am_status_pdu \<Rightarrow> bool" where
  "status_ok st \<longleftrightarrow> status_size_ok st
     \<and> st_mod_nr st = cardinality (am_to_number (st_sn_size st))
     \<and> list_all (nack_ok (st_sn_size st)) (st_nacks st)
     \<and> successively (\<lambda>l r. \<not> can_be_merged (st_mod_nr st) l r) (st_nacks st)"

lemma bit_push_octet:
  "bit (push_bit k (ucast (octet k x)) :: u32) i \<longleftrightarrow> k \<le> i \<and> i < k + 8 \<and> bit (x :: u32) i"
  using bit_imp_le_length[of x i] by (auto simp: bit_simps bit_octet)

lemma nack_octets_12:
  assumes "take_bit 12 x = (x :: u32)"
  shows "push_bit 4 (ucast (octet 4 x)) OR ucast (drop_bit 4 (push_bit 4 (octet 0 x AND 0x0F) :: u8)) = x"
  by (rule bit_word_eqI, simp only: bit_or_iff bit_push_octet)
    (auto simp: mask_numerals bit_simps bit_octet dest: bit_of_take_bit[OF assms])

lemma nack_octets_18:
  assumes "take_bit 18 x = (x :: u32)"
  shows "push_bit 10 (ucast (octet 10 x)) OR push_bit 2 (ucast (octet 2 x))
    OR ucast (drop_bit 6 (octet 0 (push_bit 6 x))) = x"
  by (rule bit_word_eqI, simp only: bit_or_iff bit_push_octet)
    (auto simp: mask_numerals bit_simps bit_octet dest: bit_of_take_bit[OF assms])

lemma ack_octets_18:
  assumes "take_bit 18 x = (x :: u32)"
  shows "push_bit 14 (ucast (octet 14 x AND 0x0F)) OR push_bit 6 (ucast (octet 6 x))
    OR ucast (drop_bit 2 (octet 0 (push_bit 2 x) AND 0xFC)) = x"
proof -
  have "drop_bit 2 (y AND 0xFC) = drop_bit 2 y" for y :: u8
    by (auto simp: u8_eq_iff bit_simps dest: bit_imp_le_length)
  moreover have "octet 14 x AND 0x0F = octet 14 x"
    by (rule bit_word_eqI)
      (auto simp: mask_numerals bit_simps bit_octet dest: bit_of_take_bit[OF assms])
  ultimately show ?thesis
    by (intro bit_word_eqI, simp only: bit_or_iff bit_push_octet)
      (auto simp: mask_numerals bit_simps bit_octet dest: bit_of_take_bit[OF assms])
qed

text \<open>The flag byte of a NACK, with the bits of the sequence number above the flags.\<close>

lemma flag_octet_12:
  fixes x :: u8 and e1 e2 e3 :: bool
  defines "b \<equiv> push_bit 4 (x AND 0x0F) OR (if e1 then 0x08 else 0) OR (if e2 then 0x04 else 0)
     OR (if e3 then 0x02 else 0)"
  shows "b AND 0x08 \<noteq> 0 \<longleftrightarrow> e1" "b AND 0x04 \<noteq> 0 \<longleftrightarrow> e2" "b AND 0x02 \<noteq> 0 \<longleftrightarrow> e3"
    "b AND 0x01 = 0" "drop_bit 4 (b AND 0xF0) = drop_bit 4 (push_bit 4 (x AND 0x0F))"
  unfolding b_def by (auto simp: u8_eq_iff bit_simps dest: bit_imp_le_length)+

lemma flag_octet_18:
  fixes x :: u8 and e1 e2 e3 :: bool
  defines "b \<equiv> (x AND 0xC0) OR (if e1 then 0x20 else 0) OR (if e2 then 0x10 else 0)
     OR (if e3 then 0x08 else 0)"
  shows "b AND 0x20 \<noteq> 0 \<longleftrightarrow> e1" "b AND 0x10 \<noteq> 0 \<longleftrightarrow> e2" "b AND 0x08 \<noteq> 0 \<longleftrightarrow> e3"
    "b AND 0x07 = 0" "drop_bit 6 (b AND 0xC0) = drop_bit 6 x"
  unfolding b_def by (auto simp: u8_eq_iff bit_simps dest: bit_imp_le_length)+

lemma read_nack_tail:
  assumes "\<not> has_so n \<Longrightarrow> so_start n = 0 \<and> so_end n = so_end_of_sdu"
    and "\<not> has_nack_range n \<Longrightarrow> nack_range n = 0"
  shows "(read_nack_so (has_so n) (nack_default\<lparr>nack_sn := nack_sn n\<rparr>) (pack_nack_tail n @ rest)
      \<bind> (\<lambda>(nack, rest). read_nack_range (has_nack_range n) nack rest
      \<bind> (\<lambda>(nack, rest). Some (nack, e1, rest)))) = Some (n, e1, rest)"
  using assms
  by (cases n) (auto simp: read_nack_so_def read_nack_range_def pack_nack_tail_def nack_default_def
      join_octets_16)

lemma unpack_pack_nack_12bit:
  assumes "nack_ok am_size12bits n"
  shows "unpack_nack_12bit (pack_nack_12bit e1 n @ rest) = Some (n, e1, rest)"
proof -
  have "take_bit 12 (nack_sn n) = nack_sn n"
    using assms by (intro take_bit_of_bound) (simp add: nack_ok_def)
  from nack_octets_12[OF this] show ?thesis
    unfolding pack_nack_12bit_def append_Cons append_Nil unpack_nack_12bit.simps Let_def
      flag_octet_12 and_FF_u8
    using assms read_nack_tail[of n rest e1] by (simp add: nack_ok_def)
qed

lemma unpack_pack_nack_18bit:
  assumes "nack_ok am_size18bits n"
  shows "unpack_nack_18bit (pack_nack_18bit e1 n @ rest) = Some (n, e1, rest)"
proof -
  have "take_bit 18 (nack_sn n) = nack_sn n"
    using assms by (intro take_bit_of_bound) (simp add: nack_ok_def)
  from nack_octets_18[OF this] show ?thesis
    unfolding pack_nack_18bit_def append_Cons append_Nil unpack_nack_18bit.simps Let_def
      flag_octet_18 and_FF_u8
    using assms read_nack_tail[of n rest e1] by (simp add: nack_ok_def)
qed

lemma unpack_pack_nacks_12bit:
  "list_all (nack_ok am_size12bits) ns \<Longrightarrow>
   unpack_nacks_12bit (ns \<noteq> []) (pack_nacks pack_nack_12bit ns @ rest) st = Some (foldl push_nack st ns)"
  by (induction ns arbitrary: st)
    (simp_all add: unpack_nacks_12bit.simps unpack_pack_nack_12bit)

lemma unpack_pack_nacks_18bit:
  "list_all (nack_ok am_size18bits) ns \<Longrightarrow>
   unpack_nacks_18bit (ns \<noteq> []) (pack_nacks pack_nack_18bit ns @ rest) st = Some (foldl push_nack st ns)"
  by (induction ns arbitrary: st)
    (simp_all add: unpack_nacks_18bit.simps unpack_pack_nack_18bit)

lemma push_nack_append:
  assumes "successively (\<lambda>l r. \<not> can_be_merged (st_mod_nr st) l r) (st_nacks st @ [n])"
  shows "push_nack st n = st\<lparr>st_nacks := st_nacks st @ [n],
     st_packed_size := st_packed_size st + nack_size (st_sn_size st) n\<rparr>"
  using assms by (auto simp: push_nack_def Let_def successively_append_iff)

lemma foldl_push_nack:
  assumes "successively (\<lambda>l r. \<not> can_be_merged (st_mod_nr st) l r) (st_nacks st @ ns)"
  shows "foldl push_nack st ns = st\<lparr>st_nacks := st_nacks st @ ns,
     st_packed_size := st_packed_size st + sum_list (map (nack_size (st_sn_size st)) ns)\<rparr>"
  using assms
proof (induction ns arbitrary: st)
  case (Cons n ns)
  have "successively (\<lambda>l r. \<not> can_be_merged (st_mod_nr st) l r) ((st_nacks st @ [n]) @ ns)"
    using Cons.prems by simp
  then have "successively (\<lambda>l r. \<not> can_be_merged (st_mod_nr st) l r) (st_nacks st @ [n])"
    by (simp only: successively_append_iff)
  from push_nack_append[OF this] show ?case
    using Cons by (simp add: add.assoc)
qed simp

text \<open>Reset objects of the same configuration; the first three bytes.\<close>

lemma status_start:
  assumes "status_ok st" and "st_cpt st = 0"
    and "st_sn_size st0 = st_sn_size st" and "st_mod_nr st0 = st_mod_nr st"
  shows "foldl push_nack ((status_reset st0)\<lparr>st_cpt := 0, st_ack_sn := st_ack_sn st\<rparr>) (st_nacks st) = st"
  using assms by (subst foldl_push_nack)
    (auto simp: status_reset_def status_ok_def status_size_ok_def)

lemma status_first_octet:
  fixes x :: u8
  shows "drop_bit 7 (x AND 0x0F) AND 0x01 = 0" "drop_bit 4 (x AND 0x0F) AND 0x07 = 0"
    "(x AND 0x0F) AND 0x0F = x AND 0x0F"
  by (simp_all add: u8_eq_iff bit_simps)

lemma status_e1_octet_18:
  fixes x :: u8 and e1 :: bool
  shows "((x AND 0xFC) OR (if e1 then 0x02 else 0)) AND 0x01 = 0"
    "((x AND 0xFC) OR (if e1 then 0x02 else 0)) AND 0xFC = x AND 0xFC"
    "((x AND 0xFC) OR (if e1 then 0x02 else 0)) AND 0x02 \<noteq> 0 \<longleftrightarrow> e1"
  by (auto simp: u8_eq_iff bit_simps)

lemma unpack_pack_12bit:
  assumes "status_ok st" and "st_cpt st = 0" and "st_sn_size st = am_size12bits"
    and "unat (st_ack_sn st) < 2 ^ 12"
    and "st_sn_size st0 = st_sn_size st" and "st_mod_nr st0 = st_mod_nr st"
  shows "unpack_12bit st0 (pack_12bit st) = Some st"
proof -
  have e1: "(if c then 0x80 else 0) AND 0x7F = (0 :: u8)"
      "(if c then 0x80 else 0) AND 0x80 \<noteq> (0 :: u8) \<longleftrightarrow> c" for c :: bool
    by simp_all
  show ?thesis
    using assms status_start[OF assms(1,2,5,6)]
      sn_join_12[OF take_bit_of_bound[OF assms(4)]] unpack_pack_nacks_12bit[of "st_nacks st" "[]"]
    unfolding unpack_12bit_def pack_12bit_def append_Cons append_Nil list.case e1
    by (simp add: is_control_pdu_def status_first_octet status_ok_def)
qed

lemma unpack_pack_18bit:
  assumes "status_ok st" and "st_cpt st = 0" and "st_sn_size st = am_size18bits"
    and "unat (st_ack_sn st) < 2 ^ 18"
    and "st_sn_size st0 = st_sn_size st" and "st_mod_nr st0 = st_mod_nr st"
  shows "unpack_18bit st0 (pack_18bit st) = Some st"
  using assms status_start[OF assms(1,2,5,6)]
    ack_octets_18[OF take_bit_of_bound[OF assms(4)]] unpack_pack_nacks_18bit[of "st_nacks st" "[]"]
  unfolding unpack_18bit_def pack_18bit_def append_Cons append_Nil list.case status_e1_octet_18
  by (simp add: is_control_pdu_def status_first_octet status_ok_def)

section \<open>What a status PDU reports as missing\<close>

text \<open>
  A NACK denotes a set of bytes of the peer's SDUs: pairs of a sequence number and an offset, where
  the offsets run to \<open>so_end_of_sdu\<close>.  A range covers all its SDUs entirely, except for the bytes
  before the start offset of the first and after the end offset of the last one.
\<close>

definition nack_count :: "rlc_am_status_nack \<Rightarrow> nat" where
  "nack_count n = (if has_nack_range n then unat (nack_range n) else 1)"

definition nack_lo :: "rlc_am_status_nack \<Rightarrow> nat" where
  "nack_lo n = (if has_so n then unat (so_start n) else 0)"

definition nack_hi :: "rlc_am_status_nack \<Rightarrow> nat" where
  "nack_hi n = (if has_so n then unat (so_end n) else 65535)"

definition missing :: "nat \<Rightarrow> u32 \<Rightarrow> nat \<Rightarrow> nat \<Rightarrow> nat \<Rightarrow> (u32 \<times> nat) set" where
  "missing k sn cnt lo hi = {(take_bit k (sn + of_nat i), off) | i off.
     i < cnt \<and> off \<le> 65535 \<and> (i = 0 \<longrightarrow> lo \<le> off) \<and> (Suc i = cnt \<longrightarrow> off \<le> hi)}"

definition nack_missing :: "rlc_am_sn_size \<Rightarrow> rlc_am_status_nack \<Rightarrow> (u32 \<times> nat) set" where
  "nack_missing s n = missing (am_to_number s) (nack_sn n) (nack_count n) (nack_lo n) (nack_hi n)"

definition status_missing :: "rlc_am_status_pdu \<Rightarrow> (u32 \<times> nat) set" where
  "status_missing st = (\<Union>n \<in> set (st_nacks st). nack_missing (st_sn_size st) n)"

lemma take_bit_add_left:
  assumes "k \<le> 32"
  shows "take_bit k (take_bit k a + b) = take_bit k (a + b :: u32)"
proof -
  have "uint (take_bit k (take_bit k a + b)) = (uint a mod 2 ^ k + uint b) mod 2 ^ 32 mod 2 ^ k"
    by (simp add: uint_take_bit_u32 uint_word_ariths)
  also have "\<dots> = (uint a mod 2 ^ k + uint b) mod 2 ^ k"
    using assms by (rule mod_pow2_pow2)
  also have "\<dots> = (uint a + uint b) mod 2 ^ k"
    by (rule mod_add_left_eq)
  also have "\<dots> = (uint a + uint b) mod 2 ^ 32 mod 2 ^ k"
    using assms by (rule mod_pow2_pow2[symmetric])
  also have "\<dots> = uint (take_bit k (a + b))"
    by (simp add: uint_take_bit_u32 uint_word_ariths)
  finally show ?thesis by (simp add: word_uint_eq_iff)
qed

lemma missing_concat:
  assumes "0 < c1" and "0 < c2" and "k \<le> 32"
  shows "missing k sn (c1 + c2) lo hi
     = missing k sn c1 lo 65535 \<union> missing k (take_bit k (sn + of_nat c1)) c2 0 hi" (is "?m = ?l \<union> ?r")
proof (intro equalityI subsetI)
  fix x assume "x \<in> ?m"
  then obtain i off where x: "x = (take_bit k (sn + of_nat i), off)" "i < c1 + c2" "off \<le> 65535"
      "i = 0 \<longrightarrow> lo \<le> off" "Suc i = c1 + c2 \<longrightarrow> off \<le> hi"
    by (auto simp: missing_def)
  show "x \<in> ?l \<union> ?r"
  proof (cases "i < c1")
    case True
    then show ?thesis using x by (auto simp: missing_def)
  next
    case False
    then obtain j where "i = c1 + j" using le_Suc_ex by (metis not_less)
    then have "x \<in> ?r"
      using x assms(3) by (auto simp: missing_def take_bit_add_left add.assoc intro!: exI[of _ j])
    then show ?thesis ..
  qed
next
  fix x assume "x \<in> ?l \<union> ?r"
  then show "x \<in> ?m"
  proof
    assume "x \<in> ?l"
    then show ?thesis using assms by (fastforce simp: missing_def)
  next
    assume "x \<in> ?r"
    then obtain j off where "x = (take_bit k (sn + of_nat (c1 + j)), off)" "j < c2" "off \<le> 65535"
        "Suc j = c2 \<longrightarrow> off \<le> hi"
      using assms(3) by (auto simp: missing_def take_bit_add_left add.assoc)
    then show ?thesis
      using assms by (auto simp: missing_def intro!: exI[of _ "c1 + j"])
  qed
qed

text \<open>The fields of a merged NACK.\<close>

definition merge_nack :: "rlc_am_status_nack \<Rightarrow> rlc_am_status_nack \<Rightarrow> rlc_am_status_nack" where
  "merge_nack prev n = expand_so (expand_range prev n) n"

lemma unat_add_u8: "unat (a :: u8) + unat b \<le> 255 \<Longrightarrow> unat (a + b) = unat a + unat b"
  by (simp add: unat_word_ariths)

lemma merge_nack_range:
  assumes "can_be_merged m l r"
  shows "nack_count (merge_nack l r) = nack_count l + nack_count r"
proof -
  have "nack_count l + nack_count r \<le> 255"
    using assms by (auto simp: can_be_merged_def nack_count_def Let_def split: if_splits)
  then show ?thesis
    using unat_add_u8[of "nack_range l" "nack_range r"] unat_add_u8[of "nack_range l" 1]
      unat_add_u8[of "nack_range r" 1]
    by (auto simp: merge_nack_def expand_so_def expand_range_def nack_count_def Let_def)
qed

lemma merge_nack_fields:
  assumes "can_be_merged m l r"
  shows "nack_sn (merge_nack l r) = nack_sn l" "nack_lo (merge_nack l r) = nack_lo l"
    "nack_hi (merge_nack l r) = nack_hi r" "nack_lo r = 0" "nack_hi l = 65535"
    "nack_sn r = (nack_sn l + of_nat (nack_count l)) mod m"
  using assms
  by (auto simp: can_be_merged_def merge_nack_def expand_so_def expand_range_def nack_lo_def
      nack_hi_def nack_count_def so_end_of_sdu_def Let_def split: if_splits)

lemma nack_missing_merge:
  assumes "can_be_merged (cardinality (am_to_number s)) l r"
    and "0 < nack_count l" and "0 < nack_count r"
  shows "nack_missing s (merge_nack l r) = nack_missing s l \<union> nack_missing s r"
  using am_to_number_bounds(2)[of s] missing_concat[OF assms(2,3)] merge_nack_fields[OF assms(1)] merge_nack_range[OF assms(1)]
  by (simp add: nack_missing_def mod_cardinality)

lemma push_nack_nacks:
  "st_nacks (push_nack st n) =
     (if st_nacks st \<noteq> [] \<and> can_be_merged (st_mod_nr st) (last (st_nacks st)) n
      then butlast (st_nacks st) @ [merge_nack (last (st_nacks st)) n] else st_nacks st @ [n])"
  by (simp add: push_nack_def merge_nack_def Let_def)

lemma push_nack_missing:
  assumes "st_mod_nr st = cardinality (am_to_number (st_sn_size st))"
    and "\<forall>m \<in> set (st_nacks st). 0 < nack_count m" and "0 < nack_count n"
  shows "status_missing (push_nack st n) = status_missing st \<union> nack_missing (st_sn_size st) n"
proof (cases "st_nacks st \<noteq> [] \<and> can_be_merged (st_mod_nr st) (last (st_nacks st)) n")
  case True
  then obtain ns l where ns: "st_nacks st = ns @ [l]"
    by (cases "st_nacks st" rule: rev_cases) auto
  then have "can_be_merged (cardinality (am_to_number (st_sn_size st))) l n" "0 < nack_count l"
    using True assms by simp_all
  from nack_missing_merge[OF this assms(3)] show ?thesis
    using True ns by (auto simp: status_missing_def push_nack_nacks)
next
  case False
  then show ?thesis by (auto simp: status_missing_def push_nack_nacks)
qed

text \<open>Merging keeps the object well formed.\<close>

lemma merge_nack_ok:
  "can_be_merged m l r \<Longrightarrow> nack_ok s l \<Longrightarrow> nack_ok s r \<Longrightarrow> nack_ok s (merge_nack l r)"
  by (auto simp: nack_ok_def merge_nack_def expand_so_def expand_range_def Let_def)

lemma merge_not_mergeable:
  assumes "\<not> can_be_merged m p l" and "can_be_merged m l r" and "0 < nack_count r"
  shows "\<not> can_be_merged m p (merge_nack l r)"
proof
  assume c: "can_be_merged m p (merge_nack l r)"
  note f = merge_nack_fields[OF assms(2)] merge_nack_range[OF assms(2)]
  have "has_so l \<Longrightarrow> has_so (merge_nack l r) \<and> so_start (merge_nack l r) = so_start l"
    by (auto simp: merge_nack_def expand_so_def expand_range_def Let_def)
  then have "can_be_merged m p l"
    using c f by (auto simp: can_be_merged_def nack_count_def Let_def split: if_splits)
  with assms(1) show False ..
qed

lemma push_nack_ok:
  assumes ok: "status_ok st" and n: "nack_ok (st_sn_size st) n" and pos: "0 < nack_count n"
  shows "status_ok (push_nack st n)"
proof (cases "st_nacks st \<noteq> [] \<and> can_be_merged (st_mod_nr st) (last (st_nacks st)) n")
  case True
  then obtain ns l where ns: "st_nacks st = ns @ [l]"
    by (cases "st_nacks st" rule: rev_cases) auto
  then have c: "can_be_merged (st_mod_nr st) l n" using True by simp
  have "nack_ok (st_sn_size st) (merge_nack l n)"
    using merge_nack_ok[OF c] ok n ns by (simp add: status_ok_def)
  moreover have "successively (\<lambda>l r. \<not> can_be_merged (st_mod_nr st) l r) (ns @ [merge_nack l n])"
    using ok merge_not_mergeable[OF _ c pos] ns
    by (cases ns rule: rev_cases) (auto simp: status_ok_def successively_append_iff)
  ultimately show ?thesis
    using ok True ns push_nack_size[of st n] by (simp add: status_ok_def push_nack_nacks)
next
  case False
  then show ?thesis
    using ok n push_nack_size[of st n]
    by (auto simp: status_ok_def push_nack_nacks successively_append_iff)
qed

lemma status_new_ok [simp]: "status_ok (status_pdu_new s)"
  using status_new_size[of s] by (simp add: status_ok_def) (simp add: status_pdu_new_def)

section \<open>Trimming\<close>

text \<open>The NACKs that remain are a prefix; \<open>ACK_SN\<close> moves to the first NACK removed.\<close>

definition trimmed :: "u32 \<Rightarrow> rlc_am_status_pdu \<Rightarrow> rlc_am_status_pdu \<Rightarrow> bool" where
  "trimmed m st st' \<longleftrightarrow> status_ok st' \<and> st_packed_size st' \<le> m
     \<and> (\<exists>dropped. st_nacks st = st_nacks st' @ dropped
          \<and> st_ack_sn st' = (if dropped = [] then st_ack_sn st else nack_sn (hd dropped)))
     \<and> (st_nacks st' \<noteq> [] \<longrightarrow> nack_sn (last (st_nacks st')) \<noteq> st_ack_sn st')"

definition drop_last_nack :: "rlc_am_status_pdu \<Rightarrow> rlc_am_status_pdu" where
  "drop_last_nack st = st\<lparr>st_packed_size := st_packed_size st - nack_size (st_sn_size st) (last (st_nacks st)),
            st_ack_sn := nack_sn (last (st_nacks st)),
            st_nacks := butlast (st_nacks st)\<rparr>"

lemma drop_last_nack_ok:
  assumes "status_ok st" and "st_nacks st \<noteq> []"
  shows "status_ok (drop_last_nack st)"
proof -
  obtain ns n where "st_nacks st = ns @ [n]"
    using assms(2) by (cases "st_nacks st" rule: rev_cases) auto
  then show ?thesis
    using assms(1)
    by (auto simp: status_ok_def status_size_ok_def drop_last_nack_def successively_append_iff)
qed

lemma drop_last_nack_fields [simp]:
  "st_nacks (drop_last_nack st) = butlast (st_nacks st)"
  "st_ack_sn (drop_last_nack st) = nack_sn (last (st_nacks st))"
  by (simp_all add: drop_last_nack_def)

lemma trimmed_step:
  assumes "st_nacks st \<noteq> []" and "trimmed m (drop_last_nack st) st'"
  shows "trimmed m st st'"
proof -
  obtain ns n where ns: "st_nacks st = ns @ [n]"
    using assms(1) by (cases "st_nacks st" rule: rev_cases) auto
  obtain dropped where "ns = st_nacks st' @ dropped"
      "st_ack_sn st' = (if dropped = [] then nack_sn n else nack_sn (hd dropped))"
    using assms(2) ns by (auto simp: trimmed_def cong: if_cong)
  then have "st_nacks st = st_nacks st' @ (dropped @ [n])"
      "st_ack_sn st' = nack_sn (hd (dropped @ [n]))"
    using ns by (auto split: if_splits)
  then show ?thesis
    using assms(2) unfolding trimmed_def
    by (metis append_is_Nil_conv not_Cons_self2)
qed

lemma trim_loop_spec:
  assumes "status_ok st" and "sizeof_header_ack_sn \<le> m"
  shows "trimmed m st (trim_loop m st)"
  using assms
proof (induction m st rule: trim_loop.induct)
  case (1 m st)
  let ?c = "st_nacks st \<noteq> [] \<and> (m < st_packed_size st \<or> nack_sn (last (st_nacks st)) = st_ack_sn st)"
  show ?case
  proof (cases ?c)
    case True
    then have "trimmed m (drop_last_nack st) (trim_loop m (drop_last_nack st))"
      using 1 drop_last_nack_ok[of st] unfolding drop_last_nack_def by blast
    then show ?thesis
      using True trimmed_step[of st m] by (subst trim_loop.simps) (simp add: drop_last_nack_def)
  next
    case False
    then have "trim_loop m st = st"
      by (subst trim_loop.simps) (simp only: if_False)
    moreover have "st_packed_size st \<le> m"
      using False 1(2,3) by (cases "st_nacks st = []")
        (simp_all add: status_ok_def status_size_ok_def not_less)
    ultimately show ?thesis
      using False 1(2) by (auto simp: trimmed_def)
  qed
qed

section \<open>Properties\<close>

definition demo_nack1 :: rlc_am_status_nack where
  "demo_nack1 = nack_default\<lparr>nack_sn := 4095, has_so := True, so_start := 20\<rparr>"

definition demo_nack2 :: rlc_am_status_nack where
  "demo_nack2 = nack_default\<lparr>nack_sn := 0\<rparr>"

definition demo_status :: rlc_am_status_pdu where
  "demo_status = (push_nack (status_pdu_new am_size12bits) demo_nack1)\<lparr>st_ack_sn := 7\<rparr>"

lemma demo_nack_facts:
  "nack_ok am_size12bits demo_nack1" "nack_ok am_size12bits demo_nack2"
  "nack_count demo_nack1 = 1" "nack_count demo_nack2 = 1"
  by (simp_all add: demo_nack1_def demo_nack2_def nack_default_def nack_ok_def nack_count_def so_end_of_sdu_def)

lemma status_ok_ack [simp]: "status_ok (st\<lparr>st_ack_sn := a\<rparr>) = status_ok st"
  by (simp add: status_ok_def status_size_ok_def)

lemma demo_status_facts:
  "status_ok demo_status" "st_cpt demo_status = 0" "st_sn_size demo_status = am_size12bits"
  "st_nacks demo_status = [demo_nack1]" "st_ack_sn demo_status = 7"
proof -
  show "status_ok demo_status"
    using push_nack_ok[OF status_new_ok[of am_size12bits], of demo_nack1] demo_nack_facts
    by (simp add: demo_status_def status_pdu_new_def)
  show "st_cpt demo_status = 0" "st_sn_size demo_status = am_size12bits"
    "st_nacks demo_status = [demo_nack1]" "st_ack_sn demo_status = 7"
    by (simp_all add: demo_status_def push_nack_def status_pdu_new_def)
qed

text \<open>C30: Decoding an encoded status PDU gives back the status object, for both sequence-number
  sizes and whatever the decoding object held before; the number of bytes is the running packed
  size.\<close>

theorem status_pdu_roundtrip:
  assumes "status_ok st" and "st_cpt st = 0" and "unat (st_ack_sn st) < 2 ^ am_to_number (st_sn_size st)"
    and "st_sn_size st0 = st_sn_size st" and "st_mod_nr st0 = st_mod_nr st"
  shows "unpack st0 (pack st) = Some st \<and> of_nat (length (pack st)) = st_packed_size st"
  using assms unpack_pack_12bit[OF assms(1,2)] unpack_pack_18bit[OF assms(1,2)] length_pack[of st]
  by (cases "st_sn_size st") (simp_all add: unpack_def pack_def status_ok_def)

theorem status_pdu_roundtrip_witness:
  "unpack (status_pdu_new am_size12bits) (pack demo_status) = Some demo_status
     \<and> of_nat (length (pack demo_status)) = st_packed_size demo_status"
  using demo_status_facts
  by (intro status_pdu_roundtrip) (simp_all add: status_pdu_new_def status_ok_def)

text \<open>Appending a NACK, with or without merging it into the previous one, adds exactly the bytes
  it reports as missing to those the status PDU reports, and keeps the object well formed (packed
  size, field ranges, and no two neighbours that could still be merged).\<close>

theorem push_nack_reports:
  assumes "status_ok st" and "\<forall>m \<in> set (st_nacks st). 0 < nack_count m"
    and "nack_ok (st_sn_size st) n" and "0 < nack_count n"
  shows "status_missing (push_nack st n) = status_missing st \<union> nack_missing (st_sn_size st) n
     \<and> status_ok (push_nack st n)"
  using push_nack_missing[OF _ assms(2,4)] push_nack_ok[OF assms(1,3,4)] assms(1)
  unfolding status_ok_def by blast

theorem push_nack_reports_witness:
  "status_missing (push_nack demo_status demo_nack2)
      = status_missing demo_status \<union> nack_missing (st_sn_size demo_status) demo_nack2
     \<and> status_ok (push_nack demo_status demo_nack2)"
  using demo_status_facts demo_nack_facts by (intro push_nack_reports) simp_all

text \<open>Trimming a status PDU to a size that holds at least the fixed header succeeds; the encoded
  PDU then has at most that size, the remaining NACKs are a prefix of the old ones, and if any NACK was
  removed \<open>ACK_SN\<close> is the sequence number of the first one removed, so nothing is acknowledged that
  was reported missing from there on.  A smaller size is refused and changes nothing.\<close>

theorem trim_fits:
  assumes "status_ok st"
  shows "if m < sizeof_header_ack_sn then m \<ge> st_packed_size st \<or> trim st m = (False, st)
     else fst (trim st m) \<and> status_ok (snd (trim st m))
       \<and> of_nat (length (pack (snd (trim st m)))) \<le> m
       \<and> (\<exists>dropped. st_nacks st = st_nacks (snd (trim st m)) @ dropped
            \<and> st_ack_sn (snd (trim st m)) = (if dropped = [] then st_ack_sn st else nack_sn (hd dropped)))"
proof -
  have size: "\<And>st'. status_ok st' \<Longrightarrow> of_nat (length (pack st')) = st_packed_size st'"
    using length_pack by (simp add: status_ok_def)
  consider "st_packed_size st \<le> m" | "m < st_packed_size st" "m < sizeof_header_ack_sn"
    | "m < st_packed_size st" "\<not> m < sizeof_header_ack_sn"
    by (meson not_le)
  then show ?thesis
  proof cases
    case 1
    then show ?thesis using assms size[OF assms] by (simp add: trim_def)
  next
    case 2
    then show ?thesis by (simp add: trim_def)
  next
    case 3
    then have "trimmed m st (trim_loop m st)"
      using trim_loop_spec[OF assms, of m] by (simp add: not_less)
    moreover have "trim st m = (True, trim_loop m st)"
      using 3 by (simp add: trim_def)
    ultimately show ?thesis
      using 3 size[of "trim_loop m st"] by (simp add: trimmed_def)
  qed
qed

theorem trim_fits_witness:
  "if 5 < sizeof_header_ack_sn then 5 \<ge> st_packed_size demo_status \<or> trim demo_status 5 = (False, demo_status)
     else fst (trim demo_status 5) \<and> status_ok (snd (trim demo_status 5))
       \<and> of_nat (length (pack (snd (trim demo_status 5)))) \<le> (5 :: u32)
       \<and> (\<exists>dropped. st_nacks demo_status = st_nacks (snd (trim demo_status 5)) @ dropped
            \<and> st_ack_sn (snd (trim demo_status 5))
              = (if dropped = [] then st_ack_sn demo_status else nack_sn (hd dropped)))"
  by (rule trim_fits[OF demo_status_facts(1)])

end
