(* ===== verification/Rlc_Rx_Am.thy ===== *)
theory Rlc_Rx_Am
  imports Circular_Map Rlc_Am_Pdu Rlc_Segments Rlc_Status_Pdu
begin

text \<open>
  The receiving side of acknowledged mode, \<open>lib/rlc/rlc_rx_am_entity.cpp\<close> and
  \<open>lib/rlc/rlc_rx_am_entity.h\<close>: the reception window, the state variables, the reassembly and
  status-prohibit timers, and the status report that the transmitting side sends.

  The three status buffers that the writer, the exchange slot and the reader own by pointer are
  three fields; an atomic exchange swaps two of them.  Handlers return the notifications in order; a
  failed assertion is \<^const>\<open>None\<close>.  \<open>pool_ok\<close> says whether the byte buffer pool can supply the chain
  an SDU is delivered in; \<open>defer_ok\<close> whether the executor accepts a task.
\<close>

section \<open>State\<close>

datatype rx_sdu_data = Sdu_slice bytes | Sdu_segments "rlc_rx_sdu_segment list"

record rlc_rx_am_sdu_info =
  ai_fully_received :: bool
  ai_has_gap :: bool
  ai_data :: rx_sdu_data

definition am_info_default :: rlc_rx_am_sdu_info where
  "am_info_default = \<lparr>ai_fully_received = False, ai_has_gap = False, ai_data = Sdu_slice []\<rparr>"

record rlc_rx_am =
  ra_cfg :: rlc_rx_am_config
  ra_next :: u32
  ra_status_trigger :: u32
  ra_highest_status :: u32
  ra_next_highest :: u32
  ra_max_nof_sn :: u32
  ra_do_status :: bool
  ra_window :: "rlc_rx_am_sdu_info circular_map"
  ra_status_writer :: rlc_am_status_pdu
  ra_status_exchange :: rlc_am_status_pdu
  ra_status_reader :: rlc_am_status_pdu
  ra_status_size :: u32
  ra_prohibit_flag :: bool
  ra_prohibit_timer :: bool
  ra_timer_running :: bool
  ra_stopped :: bool

datatype rlc_rx_am_event =
    On_new_sdu bytes
  | On_status_pdu rlc_am_status_pdu
  | On_status_report_changed

abbreviation ra_size :: "rlc_rx_am \<Rightarrow> rlc_am_sn_size" where
  "ra_size st \<equiv> rxam_sn_field_length (ra_cfg st)"

definition am_mod :: "rlc_am_sn_size \<Rightarrow> u32" where
  "am_mod s = cardinality (am_to_number s)"

definition am_window_size :: "rlc_am_sn_size \<Rightarrow> u32" where
  "am_window_size s = window_size (am_to_number s)"

definition rx_am_new :: "rlc_rx_am_config \<Rightarrow> rlc_rx_am option" where
  "rx_am_new cfg = (let s = rxam_sn_field_length cfg in do {
     max_nof_sn \<leftarrow> (case rxam_max_sn_per_status cfg of
         Some max_sn_per_status \<Rightarrow> if max_sn_per_status \<le> am_window_size s \<and> max_sn_per_status > 0
           then Some max_sn_per_status else None
       | None \<Rightarrow> Some (am_window_size s));
     w \<leftarrow> cm_init (unat (am_window_size s));
     let init_status = (status_pdu_new s)\<lparr>st_ack_sn := 0\<rparr>;
     Some \<lparr>ra_cfg = cfg, ra_next = 0, ra_status_trigger = 0, ra_highest_status = 0, ra_next_highest = 0,
       ra_max_nof_sn = max_nof_sn, ra_do_status = False, ra_window = w,
       ra_status_writer = status_pdu_new s, ra_status_exchange = init_status, ra_status_reader = status_pdu_new s,
       ra_status_size = st_packed_size init_status, ra_prohibit_flag = False, ra_prohibit_timer = False,
       ra_timer_running = False, ra_stopped = False\<rparr>
   })"

definition ra_stop :: "rlc_rx_am \<Rightarrow> rlc_rx_am" where
  "ra_stop st = (if \<not> ra_stopped st
     then st\<lparr>ra_prohibit_timer := False, ra_timer_running := False, ra_stopped := True\<rparr> else st)"

text \<open>Comparisons relative to \<open>RX_Next\<close>.\<close>

definition am_base :: "rlc_am_sn_size \<Rightarrow> u32 \<Rightarrow> u32 \<Rightarrow> u32" where
  "am_base s nxt sn = (sn - nxt) mod am_mod s"

abbreviation rx_mod_base :: "rlc_rx_am \<Rightarrow> u32 \<Rightarrow> u32" where
  "rx_mod_base st \<equiv> am_base (ra_size st) (ra_next st)"

definition inside_rx_window :: "rlc_rx_am \<Rightarrow> u32 \<Rightarrow> bool" where
  "inside_rx_window st sn \<longleftrightarrow> rx_mod_base st sn < am_window_size (ra_size st)"

definition valid_ack_sn :: "rlc_rx_am \<Rightarrow> u32 \<Rightarrow> bool" where
  "valid_ack_sn st sn \<longleftrightarrow> 0 < rx_mod_base st sn \<and> rx_mod_base st sn \<le> am_window_size (ra_size st)"

definition am_inc :: "rlc_am_sn_size \<Rightarrow> u32 \<Rightarrow> u32" where
  "am_inc s sn = (sn + 1) mod am_mod s"

abbreviation am_off :: "rlc_am_sn_size \<Rightarrow> u32 \<Rightarrow> u32 \<Rightarrow> nat" where
  "am_off s nxt sn \<equiv> sn_off (am_to_number s) nxt sn"

lemma am_to_number_32: "am_to_number s \<le> 32" "am_to_number s < 32" "0 < am_to_number s"
  by (cases s; simp)+

lemma unat_am_base: "unat (am_base s nxt sn) = am_off s nxt sn"
  by (simp add: am_base_def am_mod_def unat_mod_cardinality)

lemma am_base_less: "am_base s nxt x < am_base s nxt y \<longleftrightarrow> am_off s nxt x < am_off s nxt y"
  and am_base_le: "am_base s nxt x \<le> am_base s nxt y \<longleftrightarrow> am_off s nxt x \<le> am_off s nxt y"
  and am_base_eq: "am_base s nxt x = am_base s nxt y \<longleftrightarrow> am_off s nxt x = am_off s nxt y"
  by (simp_all add: word_less_nat_alt word_le_nat_alt word_unat_eq_iff unat_am_base)

lemma am_off_less: "am_off s nxt x < 2 ^ am_to_number s"
  by (rule sn_off_less)

lemma am_off_inc: "am_off s nxt (am_inc s sn) = (am_off s nxt sn + 1) mod 2 ^ am_to_number s"
  by (simp add: am_inc_def am_mod_def inc_mod_cardinality sn_off_inc_mod am_to_number_32)

lemma am_off_inc_below: "am_off s nxt sn < am_off s nxt x \<Longrightarrow> am_off s nxt (am_inc s sn) = am_off s nxt sn + 1"
  using am_off_less[of s nxt x] by (simp add: am_off_inc)

section \<open>Storing what was received\<close>

definition ra_get_or_add :: "u32 \<Rightarrow> rlc_rx_am_sdu_info circular_map
     \<Rightarrow> (rlc_rx_am_sdu_info \<times> rlc_rx_am_sdu_info circular_map) option" where
  "ra_get_or_add sn w = do {
     w \<leftarrow> (if has_sn w sn then Some w else add_sn w sn am_info_default);
     rx_sdu \<leftarrow> win_at w sn;
     Some (rx_sdu, w)
   }"

definition ra_handle_full_data_sdu :: "rlc_am_pdu_header \<Rightarrow> bytes \<Rightarrow> rlc_rx_am \<Rightarrow> (bool \<times> rlc_rx_am) option" where
  "ra_handle_full_data_sdu header payload st =
     (if amh_si header \<noteq> full_sdu then Some (False, st)
      else do {
        (rx_sdu, w) \<leftarrow> ra_get_or_add (amh_sn header) (ra_window st);
        w \<leftarrow> win_set w (amh_sn header) (rx_sdu\<lparr>ai_data := Sdu_slice payload, ai_fully_received := True, ai_has_gap := False\<rparr>);
        Some (True, st\<lparr>ra_window := w\<rparr>)
      })"

text \<open>The variant is replaced by an empty set unless it holds a set already.\<close>

definition ai_segments :: "rlc_rx_am_sdu_info \<Rightarrow> rlc_rx_sdu_segment list" where
  "ai_segments info = (case ai_data info of Sdu_slice _ \<Rightarrow> [] | Sdu_segments segs \<Rightarrow> segs)"

definition am_store_segment :: "rlc_rx_am_sdu_info \<Rightarrow> rlc_rx_sdu_segment \<Rightarrow> bool \<times> rlc_rx_am_sdu_info" where
  "am_store_segment info new_segment =
     (let (stored, segments) = store_segment (ai_segments info) new_segment
      in (stored, info\<lparr>ai_data := Sdu_segments segments\<rparr>))"

definition am_update_segment_inventory :: "rlc_rx_am_sdu_info \<Rightarrow> rlc_rx_am_sdu_info option" where
  "am_update_segment_inventory info = (case ai_data info of
       Sdu_slice _ \<Rightarrow> None
     | Sdu_segments segments \<Rightarrow>
         let (gap, full) = segment_inventory segments
         in Some (info\<lparr>ai_fully_received := full, ai_has_gap := gap\<rparr>))"

definition ra_handle_segment_data_sdu :: "rlc_am_pdu_header \<Rightarrow> bytes \<Rightarrow> rlc_rx_am \<Rightarrow> (bool \<times> rlc_rx_am) option" where
  "ra_handle_segment_data_sdu header payload st =
     (if amh_si header = full_sdu then Some (False, st)
      else do {
        (rx_sdu, w) \<leftarrow> ra_get_or_add (amh_sn header) (ra_window st);
        let segment = \<lparr>seg_si = amh_si header, seg_so = amh_so header, seg_payload = payload\<rparr>;
        let (stored, rx_sdu) = am_store_segment rx_sdu segment;
        rx_sdu \<leftarrow> am_update_segment_inventory rx_sdu;
        w \<leftarrow> win_set w (amh_sn header) rx_sdu;
        Some (stored, st\<lparr>ra_window := w\<rparr>)
      })"

definition am_reassemble_sdu :: "bool \<Rightarrow> rlc_rx_am_sdu_info \<Rightarrow> bytes option" where
  "am_reassemble_sdu pool_ok info =
     (if \<not> ai_fully_received info then None
      else if \<not> pool_ok then None
      else Some (case ai_data info of Sdu_slice payload \<Rightarrow> payload | Sdu_segments segs \<Rightarrow> chain_segments segs))"

section \<open>The status report\<close>

text \<open>The gaps of a partly received SDU; the result holds the status object, the end of the last
  segment and whether a last segment is there.\<close>

fun am_nack_segments :: "u32 \<Rightarrow> rlc_rx_sdu_segment list \<Rightarrow> u32 \<Rightarrow> bool \<Rightarrow> rlc_am_status_pdu
     \<Rightarrow> (rlc_am_status_pdu \<times> u32 \<times> bool) option" where
  "am_nack_segments i [] last_so have_last status = Some (status, last_so, have_last)"
| "am_nack_segments i (segm # segms) last_so have_last status = do {
     status \<leftarrow> (if ucast (seg_so segm) \<noteq> last_so
        then let nack = nack_default\<lparr>nack_sn := i, has_so := True, so_start := ucast last_so, so_end := seg_so segm - 1\<rparr>;
                 status' = push_nack status nack
             in if so_start nack > so_end nack then None else Some status'
        else Some status);
     am_nack_segments i segms (ucast (seg_so segm) + of_nat (length (seg_payload segm)))
       (have_last \<or> seg_si segm = last_segment) status
   }"

definition am_nack_sdu :: "u32 \<Rightarrow> rlc_rx_am_sdu_info circular_map \<Rightarrow> rlc_am_status_pdu \<Rightarrow> rlc_am_status_pdu option" where
  "am_nack_sdu i w status = (case win_at w i of
       None \<Rightarrow> Some (push_nack status (nack_default\<lparr>nack_sn := i, has_so := False\<rparr>))
     | Some info \<Rightarrow> if ai_fully_received info then Some status
         else (case ai_data info of Sdu_slice _ \<Rightarrow> None
           | Sdu_segments segments \<Rightarrow> do {
               (status, last_so, have_last) \<leftarrow> am_nack_segments i segments 0 False status;
               if have_last then Some status
               else let nack = nack_default\<lparr>nack_sn := i, has_so := True, so_start := ucast last_so, so_end := so_end_of_sdu\<rparr>;
                        status' = push_nack status nack
                    in if so_start nack > so_end nack then None else Some status'
             }))"

function am_report_loop :: "rlc_am_sn_size \<Rightarrow> u32 \<Rightarrow> u32 \<Rightarrow> u32 \<Rightarrow> rlc_rx_am_sdu_info circular_map
     \<Rightarrow> rlc_am_status_pdu \<Rightarrow> rlc_am_status_pdu option" where
  "am_report_loop s nxt stop_sn i w status =
     (if am_base s nxt i < am_base s nxt stop_sn
      then (case am_nack_sdu i w status of None \<Rightarrow> None
        | Some status' \<Rightarrow> am_report_loop s nxt stop_sn (am_inc s i) w status')
      else Some status)"
  by pat_completeness auto
termination
proof (relation "measure (\<lambda>(s, nxt, stop, i, _). am_off s nxt stop - am_off s nxt i)", goal_cases)
  case (2 s nxt stop i w status status')
  then have "am_off s nxt i < am_off s nxt stop"
    by (simp add: am_base_less)
  then show ?case by (simp add: am_off_inc_below)
qed simp

declare am_report_loop.simps [simp del]

definition ra_stop_sn :: "rlc_rx_am \<Rightarrow> u32" where
  "ra_stop_sn st =
     (if rx_mod_base st (ra_highest_status st) > rx_mod_base st ((ra_next st + ra_max_nof_sn st) mod am_mod (ra_size st))
      then (ra_next st + ra_max_nof_sn st) mod am_mod (ra_size st) else ra_highest_status st)"

definition ra_store_status_report :: "rlc_rx_am \<Rightarrow> rlc_rx_am" where
  "ra_store_status_report st = st\<lparr>ra_status_writer := ra_status_exchange st, ra_status_exchange := ra_status_writer st,
     ra_status_size := st_packed_size (ra_status_writer st)\<rparr>"

definition ra_refresh_status_report :: "rlc_rx_am \<Rightarrow> rlc_rx_am option" where
  "ra_refresh_status_report st = do {
     status \<leftarrow> am_report_loop (ra_size st) (ra_next st) (ra_stop_sn st) (ra_next st) (ra_window st)
       (status_reset (ra_status_writer st));
     Some (ra_store_status_report (st\<lparr>ra_status_writer := status\<lparr>st_ack_sn := ra_stop_sn st\<rparr>\<rparr>))
   }"

definition ra_get_status_pdu :: "bool \<Rightarrow> rlc_rx_am \<Rightarrow> rlc_am_status_pdu \<times> rlc_rx_am" where
  "ra_get_status_pdu defer_ok st =
     (let st1 = st\<lparr>ra_do_status := False\<rparr>;
          st2 = (if rxam_t_status_prohibit (ra_cfg st) > 0
            then st1\<lparr>ra_prohibit_timer := ra_prohibit_timer st \<or> defer_ok, ra_prohibit_flag := True\<rparr> else st1);
          st3 = st2\<lparr>ra_status_reader := ra_status_exchange st, ra_status_exchange := ra_status_reader st\<rparr>
      in (ra_status_reader st3, st3))"

definition ra_get_status_pdu_length :: "rlc_rx_am \<Rightarrow> u32" where
  "ra_get_status_pdu_length st = ra_status_size st"

definition ra_status_report_required :: "rlc_rx_am \<Rightarrow> bool" where
  "ra_status_report_required st \<longleftrightarrow> ra_do_status st \<and> \<not> ra_prohibit_flag st"

definition ra_notify_status_report_changed :: "rlc_rx_am \<Rightarrow> rlc_rx_am_event list" where
  "ra_notify_status_report_changed st = (if ra_status_report_required st then [On_status_report_changed] else [])"

definition ra_on_expired_status_prohibit_timer :: "rlc_rx_am \<Rightarrow> rlc_rx_am \<times> rlc_rx_am_event list" where
  "ra_on_expired_status_prohibit_timer st =
     (let st' = st\<lparr>ra_prohibit_timer := False, ra_prohibit_flag := False\<rparr>
      in (st', ra_notify_status_report_changed st'))"

section \<open>Handling a PDU\<close>

text \<open>The first SDU from a sequence number on that is not fully received, at most \<open>RX_Next_Highest\<close>.\<close>

function am_status_loop :: "rlc_am_sn_size \<Rightarrow> u32 \<Rightarrow> u32 \<Rightarrow> u32 \<Rightarrow> rlc_rx_am_sdu_info circular_map \<Rightarrow> u32" where
  "am_status_loop s nxt highest sn_upd w =
     (if am_base s nxt sn_upd < am_base s nxt highest
      then (case win_at w sn_upd of None \<Rightarrow> sn_upd
        | Some info \<Rightarrow> if \<not> ai_fully_received info then sn_upd
            else am_status_loop s nxt highest (am_inc s sn_upd) w)
      else sn_upd)"
  by pat_completeness auto
termination
proof (relation "measure (\<lambda>(s, nxt, highest, sn, _). am_off s nxt highest - am_off s nxt sn)", goal_cases)
  case (2 s nxt highest sn w info)
  then have "am_off s nxt sn < am_off s nxt highest"
    by (simp add: am_base_less)
  then show ?case by (simp add: am_off_inc_below)
qed simp

text \<open>The same, removing the fully received SDUs.\<close>

function am_next_loop :: "rlc_am_sn_size \<Rightarrow> u32 \<Rightarrow> u32 \<Rightarrow> u32 \<Rightarrow> rlc_rx_am_sdu_info circular_map
     \<Rightarrow> (u32 \<times> rlc_rx_am_sdu_info circular_map) option" where
  "am_next_loop s nxt highest sn_upd w =
     (if am_base s nxt sn_upd < am_base s nxt highest
      then (case win_at w sn_upd of None \<Rightarrow> Some (sn_upd, w)
        | Some info \<Rightarrow> if \<not> ai_fully_received info then Some (sn_upd, w)
            else (case remove_sn w sn_upd of None \<Rightarrow> None
              | Some w' \<Rightarrow> am_next_loop s nxt highest (am_inc s sn_upd) w'))
      else Some (sn_upd, w))"
  by pat_completeness auto
termination
proof (relation "measure (\<lambda>(s, nxt, highest, sn, _). am_off s nxt highest - am_off s nxt sn)", goal_cases)
  case (2 s nxt highest sn w info w')
  then have "am_off s nxt sn < am_off s nxt highest"
    by (simp add: am_base_less)
  then show ?case by (simp add: am_off_inc_below)
qed simp

declare am_status_loop.simps [simp del] am_next_loop.simps [simp del]

definition ra_update_next_highest :: "u32 \<Rightarrow> rlc_rx_am \<Rightarrow> rlc_rx_am" where
  "ra_update_next_highest sn st =
     (if rx_mod_base st sn \<ge> rx_mod_base st (ra_next_highest st)
      then st\<lparr>ra_next_highest := (sn + 1) mod am_mod (ra_size st)\<rparr> else st)"

definition ra_fully_received :: "bool \<Rightarrow> u32 \<Rightarrow> rlc_rx_am_sdu_info \<Rightarrow> rlc_rx_am \<Rightarrow> (rlc_rx_am \<times> rlc_rx_am_event list) option" where
  "ra_fully_received pool_ok sn sdu_info st = do {
     let out = (case am_reassemble_sdu pool_ok sdu_info of None \<Rightarrow> [] | Some sdu \<Rightarrow> [On_new_sdu sdu]);
     w \<leftarrow> win_set (ra_window st) sn (sdu_info\<lparr>ai_data := Sdu_slice []\<rparr>);
     let st = st\<lparr>ra_window := w\<rparr>;
     let st = (if rx_mod_base st sn = rx_mod_base st (ra_highest_status st)
        then st\<lparr>ra_highest_status := am_status_loop (ra_size st) (ra_next st) (ra_next_highest st)
               ((ra_highest_status st + 1) mod am_mod (ra_size st)) (ra_window st)\<rparr> else st);
     if rx_mod_base st sn = rx_mod_base st (ra_next st)
     then do {
       (sn_upd, w) \<leftarrow> am_next_loop (ra_size st) (ra_next st) (ra_next_highest st)
         (ra_next st mod am_mod (ra_size st)) (ra_window st);
       Some (st\<lparr>ra_window := w, ra_next := sn_upd\<rparr>, out)
     } else Some (st, out)
   }"

text \<open>\<open>rx_window[rx_next]\<close> is read without a check when the trigger is one above \<open>RX_Next\<close>.\<close>

definition ra_stop_timer :: "rlc_rx_am \<Rightarrow> rlc_rx_am option" where
  "ra_stop_timer st = (if \<not> ra_timer_running st then Some st
     else do {
       let stop1 = (ra_status_trigger st = ra_next st);
       stop2 \<leftarrow> (if rx_mod_base st (ra_status_trigger st) = rx_mod_base st (ra_next st + 1)
         then map_option (\<lambda>info. \<not> ai_has_gap info) (win_at (ra_window st) (ra_next st)) else Some False);
       let stop3 = (\<not> inside_rx_window st (ra_status_trigger st));
       Some (if stop1 \<or> stop2 \<or> stop3 then st\<lparr>ra_timer_running := False\<rparr> else st)
     })"

definition ra_gap_at :: "rlc_rx_am \<Rightarrow> u32 \<Rightarrow> bool" where
  "ra_gap_at st sn = (case win_at (ra_window st) sn of None \<Rightarrow> False | Some info \<Rightarrow> ai_has_gap info)"

text \<open>
  The constructor sets the duration of the timer only if \<open>t_reassembly > 0\<close>; running a timer without a duration fails an
  assertion.
\<close>

definition ra_timer_set :: "rlc_rx_am \<Rightarrow> bool" where
  "ra_timer_set st \<longleftrightarrow> 0 < rxam_t_reassembly (ra_cfg st)"

text \<open>Start the timer if something is missing from \<open>sn\<close> on (\<open>RX_Next\<close> or \<open>RX_Highest_Status\<close>).\<close>

definition ra_start_timer :: "u32 \<Rightarrow> rlc_rx_am \<Rightarrow> rlc_rx_am option" where
  "ra_start_timer sn st =
     (if rx_mod_base st (ra_next_highest st) > rx_mod_base st (sn + 1)
         \<or> rx_mod_base st (ra_next_highest st) = rx_mod_base st (sn + 1) \<and> ra_gap_at st sn
      then if \<not> ra_timer_set st then None
        else Some (st\<lparr>ra_timer_running := True, ra_status_trigger := ra_next_highest st\<rparr>)
      else Some st)"

definition ra_placed :: "bool \<Rightarrow> u32 \<Rightarrow> rlc_rx_am \<Rightarrow> (rlc_rx_am \<times> rlc_rx_am_event list) option" where
  "ra_placed pool_ok sn st0 = do {
     let st = ra_update_next_highest sn st0;
     (st, ev) \<leftarrow> (case win_at (ra_window st) sn of
         Some info \<Rightarrow> if ai_fully_received info then ra_fully_received pool_ok sn info st else Some (st, [])
       | None \<Rightarrow> Some (st, []));
     st \<leftarrow> ra_stop_timer st;
     st \<leftarrow> (if \<not> ra_timer_running st then ra_start_timer (ra_next st) st else Some st);
     Some (st, ev)
   }"

definition ra_on_exit :: "bool \<Rightarrow> bool \<Rightarrow> rlc_rx_am \<Rightarrow> (rlc_rx_am \<times> rlc_rx_am_event list) option" where
  "ra_on_exit status_changed status_requested st = do {
     st \<leftarrow> (if status_changed \<or> status_requested then ra_refresh_status_report st else Some st);
     let st = (if status_requested then st\<lparr>ra_do_status := True\<rparr> else st);
     Some (st, if status_changed \<or> status_requested then ra_notify_status_report_changed st else [])
   }"

definition ra_handle_data_pdu :: "bool \<Rightarrow> bytes \<Rightarrow> rlc_rx_am \<Rightarrow> (rlc_rx_am \<times> rlc_rx_am_event list) option" where
  "ra_handle_data_pdu pool_ok buf st =
     (case rlc_am_read_data_pdu_header buf (ra_size st) am_header_zero of
        None \<Rightarrow> ra_on_exit False False st
      | Some header \<Rightarrow>
          let header_len = amh_get_packed_size header; payload = drop header_len buf;
              sn = amh_sn header; status_requested = (amh_p header \<noteq> 0) in
          if length buf \<le> header_len then ra_on_exit False False st
          else if \<not> inside_rx_window st sn then ra_on_exit False status_requested st
          else if (case win_at (ra_window st) sn of None \<Rightarrow> False | Some info \<Rightarrow> ai_fully_received info)
          then ra_on_exit False status_requested st
          else do {
            (status_changed, st) \<leftarrow> (if amh_si header = full_sdu then ra_handle_full_data_sdu header payload st
               else ra_handle_segment_data_sdu header payload st);
            (st, ev) \<leftarrow> ra_placed pool_ok sn st;
            (st, ev') \<leftarrow> ra_on_exit status_changed status_requested st;
            Some (st, ev @ ev')
          })"

definition ra_handle_control_pdu :: "bytes \<Rightarrow> rlc_rx_am \<Rightarrow> rlc_rx_am \<times> rlc_rx_am_event list" where
  "ra_handle_control_pdu buf st = (case unpack (status_pdu_new (ra_size st)) buf of
       Some status_pdu \<Rightarrow> (st, [On_status_pdu status_pdu]) | None \<Rightarrow> (st, []))"

definition ra_handle_pdu :: "bool \<Rightarrow> bytes \<Rightarrow> rlc_rx_am \<Rightarrow> (rlc_rx_am \<times> rlc_rx_am_event list) option" where
  "ra_handle_pdu pool_ok buf st =
     (if buf = [] then Some (st, [])
      else if is_control_pdu buf then Some (ra_handle_control_pdu buf st)
      else ra_handle_data_pdu pool_ok buf st)"

text \<open>
  The expiry handler runs some time after the timer stopped; if the PDU handler restarted the timer
  in between, the event is outdated.
\<close>

definition ra_on_expired_reassembly_timer :: "rlc_rx_am \<Rightarrow> (rlc_rx_am \<times> rlc_rx_am_event list) option" where
  "ra_on_expired_reassembly_timer st =
     (if ra_timer_running st then Some (st, [])
      else if \<not> valid_ack_sn st (ra_status_trigger st) then Some (st, [])
      else let sn_upd = am_status_loop (ra_size st) (ra_next st) (ra_next_highest st) (ra_status_trigger st) (ra_window st)
        in if \<not> valid_ack_sn st sn_upd then None
        else do {
          let st = st\<lparr>ra_highest_status := sn_upd\<rparr>;
          st \<leftarrow> ra_start_timer (ra_highest_status st) st;
          st \<leftarrow> ra_refresh_status_report st;
          let st = st\<lparr>ra_do_status := True\<rparr>;
          Some (st, ra_notify_status_report_changed st)
        })"

section \<open>Invariant\<close>

definition am_W :: "rlc_am_sn_size \<Rightarrow> nat" where
  "am_W s = 2 ^ (am_to_number s - 1)"

lemma am_W: "0 < am_W s" "2 * am_W s = 2 ^ am_to_number s" "unat (am_window_size s) = am_W s" "am_W s < 2 ^ am_to_number s"
    "1 < am_W s"
  by (cases s; simp add: am_W_def am_window_size_def window_size_def cardinality_def)+

lemma am_inside_off: "inside_rx_window st sn \<longleftrightarrow> am_off (ra_size st) (ra_next st) sn < am_W (ra_size st)"
  by (simp add: inside_rx_window_def word_less_nat_alt unat_am_base am_W)

lemma am_valid_ack_off: "valid_ack_sn st sn \<longleftrightarrow> 0 < am_off (ra_size st) (ra_next st) sn
    \<and> am_off (ra_size st) (ra_next st) sn \<le> am_W (ra_size st)"
  by (auto simp: valid_ack_sn_def word_less_nat_alt word_le_nat_alt unat_am_base am_W)

lemma am_off_inject:
  "unat x < 2 ^ am_to_number s \<Longrightarrow> unat y < 2 ^ am_to_number s \<Longrightarrow> am_off s b x = am_off s b y \<Longrightarrow> x = y"
  by (rule sn_off_inject[OF am_to_number_32(1)])

lemma am_off_zero: "unat x < 2 ^ am_to_number s \<Longrightarrow> unat b < 2 ^ am_to_number s \<Longrightarrow> am_off s b x = 0 \<longleftrightarrow> x = b"
  using am_off_inject[of x s b b] by auto

lemma am_inc_less: "unat (am_inc s sn) < 2 ^ am_to_number s"
  by (simp add: am_inc_def am_mod_def mod_cardinality unat_take_bit)

lemma am_off_next1: "am_off s b (b + 1) = 1"
  by (cases s) (simp_all add: sn_off_def)

definition am_full :: "rlc_rx_am_sdu_info circular_map \<Rightarrow> u32 \<Rightarrow> bool" where
  "am_full w x \<longleftrightarrow> (\<exists>info. win_at w x = Some info \<and> ai_fully_received info)"

text \<open>An incomplete SDU is held as a set of segments within the range of offsets.\<close>

definition info_ok :: "rlc_rx_am_sdu_info \<Rightarrow> bool" where
  "info_ok info \<longleftrightarrow> ai_fully_received info \<or> (\<exists>segs. ai_data info = Sdu_segments segs \<and> segs_fit segs)"

definition am_win :: "rlc_am_sn_size \<Rightarrow> u32 \<Rightarrow> nat \<Rightarrow> rlc_rx_am_sdu_info circular_map \<Rightarrow> bool" where
  "am_win s nxt hi w \<longleftrightarrow> cm_wf (am_to_number s - 1) w
     \<and> (\<forall>x info. win_at w x = Some info \<longrightarrow> unat x < 2 ^ am_to_number s \<and> am_off s nxt x < hi \<and> info_ok info)"

text \<open>
  The state variables and the window.  \<open>E\<close> is the set of sequence numbers whose SDU was just
  completed, for which the variables are yet to be moved.
\<close>

definition am_state :: "u32 set \<Rightarrow> rlc_am_sn_size \<Rightarrow> u32 \<Rightarrow> u32 \<Rightarrow> u32 \<Rightarrow> rlc_rx_am_sdu_info circular_map \<Rightarrow> bool" where
  "am_state E s nxt hs highest w \<longleftrightarrow>
     unat nxt < 2 ^ am_to_number s \<and> unat hs < 2 ^ am_to_number s \<and> unat highest < 2 ^ am_to_number s
     \<and> am_off s nxt hs \<le> am_off s nxt highest \<and> am_off s nxt highest \<le> am_W s
     \<and> am_win s nxt (am_off s nxt highest) w
     \<and> (hs = highest \<or> \<not> am_full w hs \<or> hs \<in> E) \<and> (nxt = highest \<or> \<not> am_full w nxt \<or> nxt \<in> E)
     \<and> (nxt = highest \<or> (\<exists>x. win_at w x \<noteq> None \<and> am_off s nxt x + 1 = am_off s nxt highest))"

definition am_timer :: "rlc_am_sn_size \<Rightarrow> u32 \<Rightarrow> u32 \<Rightarrow> u32 \<Rightarrow> rlc_rx_am_sdu_info circular_map \<Rightarrow> bool" where
  "am_timer s nxt highest trigger w \<longleftrightarrow> unat trigger < 2 ^ am_to_number s
     \<and> 0 < am_off s nxt trigger \<and> am_off s nxt trigger \<le> am_off s nxt highest
     \<and> (\<exists>x. win_at w x \<noteq> None \<and> am_off s nxt x + 1 = am_off s nxt trigger)"

definition ra_statuses_ok :: "rlc_rx_am \<Rightarrow> bool" where
  "ra_statuses_ok st \<longleftrightarrow> (\<forall>status \<in> {ra_status_writer st, ra_status_exchange st, ra_status_reader st}.
     status_ok status \<and> st_cpt status = 0 \<and> st_sn_size status = ra_size st)"

definition ra_inv :: "rlc_rx_am \<Rightarrow> bool" where
  "ra_inv st \<longleftrightarrow> am_state {} (ra_size st) (ra_next st) (ra_highest_status st) (ra_next_highest st) (ra_window st)
     \<and> (ra_timer_running st \<longrightarrow> am_timer (ra_size st) (ra_next st) (ra_next_highest st) (ra_status_trigger st) (ra_window st))
     \<and> ra_statuses_ok st
     \<and> 0 < unat (ra_max_nof_sn st) \<and> unat (ra_max_nof_sn st) \<le> am_W (ra_size st)"

section \<open>The window under the operations\<close>

lemma am_get_or_add:
  assumes win: "am_win s nxt hi w" and hi: "hi \<le> am_W s"
    and sn: "unat sn < 2 ^ am_to_number s" "am_off s nxt sn < am_W s"
  defines "info \<equiv> (case win_at w sn of None \<Rightarrow> am_info_default | Some info \<Rightarrow> info)"
  shows "\<exists>w'. ra_get_or_add sn w = Some (info, w') \<and> cm_wf (am_to_number s - 1) w' \<and> win_at w' = (win_at w)(sn \<mapsto> info)"
proof (cases "win_at w sn")
  case (Some i)
  then show ?thesis
    using win by (auto simp: ra_get_or_add_def has_sn_win_at info_def am_win_def)
next
  case None
  have "unat sn' mod 2 ^ (am_to_number s - 1) \<noteq> unat sn mod 2 ^ (am_to_number s - 1)" if "win_at w sn' \<noteq> None" for sn'
  proof
    assume eq: "unat sn' mod 2 ^ (am_to_number s - 1) = unat sn mod 2 ^ (am_to_number s - 1)"
    have "unat sn' < 2 ^ am_to_number s" "am_off s nxt sn' < am_W s"
      using win that hi by (auto simp: am_win_def dest!: spec[of _ sn'])
    then have "sn' = sn"
      using sn eq by (intro sn_off_no_collision[OF am_to_number_32(1), of "am_to_number s - 1"]) (simp_all add: am_W_def)
    then show False using None that by simp
  qed
  then obtain w' where "add_sn w sn am_info_default = Some w'" "cm_wf (am_to_number s - 1) w'"
      "win_at w' = (win_at w)(sn \<mapsto> am_info_default)"
    using win.add_map_update[of "am_to_number s - 1" w sn am_info_default] None win by (auto simp: am_win_def)
  then show ?thesis
    using None by (simp add: ra_get_or_add_def has_sn_win_at info_def)
qed

lemma am_set:
  assumes "cm_wf k w" and "win_at w sn \<noteq> None"
  obtains w' where "win_set w sn info = Some w'" "cm_wf k w'" "win_at w' = (win_at w)(sn \<mapsto> info)"
  using win.upd_present[OF assms, of info] by blast

text \<open>Placing an SDU at \<open>sn\<close> and moving \<open>RX_Next_Highest\<close>.\<close>

lemma am_state_place:
  assumes st: "am_state {} s nxt hs highest w" and sn: "unat sn < 2 ^ am_to_number s" "am_off s nxt sn < am_W s"
    and w': "cm_wf (am_to_number s - 1) w'" "win_at w' = (win_at w)(sn \<mapsto> info)" and info: "info_ok info"
  defines "highest' \<equiv> (if am_off s nxt highest \<le> am_off s nxt sn then am_inc s sn else highest)"
  shows "am_state {sn} s nxt hs highest' w'" "am_off s nxt sn < am_off s nxt highest'"
    "am_timer s nxt highest trigger w \<Longrightarrow> am_timer s nxt highest' trigger w'"
proof -
  have inc: "am_off s nxt (am_inc s sn) = am_off s nxt sn + 1"
    using sn(2) am_W(4)[of s] by (simp add: am_off_inc)
  have hi: "am_off s nxt highest \<le> am_off s nxt highest'" "am_off s nxt highest' \<le> am_W s" "unat highest' < 2 ^ am_to_number s"
    using st sn inc am_inc_less[of s sn] by (auto simp: highest'_def am_state_def)
  show lt: "am_off s nxt sn < am_off s nxt highest'"
    by (auto simp: highest'_def inc)
  have win: "am_win s nxt (am_off s nxt highest') w'"
    using st hi lt w' sn info by (fastforce simp: am_win_def am_state_def split: if_splits)
  have full: "am_full w' x \<longleftrightarrow> (if x = sn then ai_fully_received info else am_full w x)" for x
    by (simp add: am_full_def w'(2))
  have edge: "x = highest' \<or> \<not> am_full w' x \<or> x \<in> {sn}" if x: "x = highest \<or> \<not> am_full w x" for x
  proof (cases "x = sn \<or> \<not> am_full w x")
    case True
    then show ?thesis using full[of x] by auto
  next
    case False
    then have "x = highest" using x by simp
    moreover have "\<not> am_full w highest"
      using st by (auto simp: am_full_def am_state_def am_win_def)
    ultimately show ?thesis using False by simp
  qed
  have hs: "hs = highest \<or> \<not> am_full w hs" "nxt = highest \<or> \<not> am_full w nxt"
    using st by (auto simp: am_state_def)
  have top: "\<exists>x. win_at w' x \<noteq> None \<and> am_off s nxt x + 1 = am_off s nxt highest'"
  proof (cases "am_off s nxt highest \<le> am_off s nxt sn")
    case True
    then show ?thesis using w'(2) inc by (intro exI[of _ sn]) (simp add: highest'_def)
  next
    case False
    then have "nxt \<noteq> highest" by auto
    then obtain x where "win_at w x \<noteq> None" "am_off s nxt x + 1 = am_off s nxt highest"
      using st by (auto simp: am_state_def)
    then show ?thesis using False w'(2) by (intro exI[of _ x]) (simp add: highest'_def)
  qed
  show "am_state {sn} s nxt hs highest' w'"
    using st hi win edge[OF hs(1)] edge[OF hs(2)] top unfolding am_state_def by auto
  show "am_timer s nxt highest' trigger w'" if timer: "am_timer s nxt highest trigger w"
  proof -
    obtain x where "win_at w x \<noteq> None" "am_off s nxt x + 1 = am_off s nxt trigger"
      using timer unfolding am_timer_def by blast
    then have "win_at w' x \<noteq> None \<and> am_off s nxt x + 1 = am_off s nxt trigger" by (simp add: w'(2))
    then show ?thesis using timer hi(1) unfolding am_timer_def by auto
  qed
qed

text \<open>The two loops.\<close>

definition am_first_gap :: "rlc_am_sn_size \<Rightarrow> u32 \<Rightarrow> u32 \<Rightarrow> rlc_rx_am_sdu_info circular_map \<Rightarrow> u32 \<Rightarrow> u32 \<Rightarrow> bool" where
  "am_first_gap s nxt highest w sn r \<longleftrightarrow> unat r < 2 ^ am_to_number s \<and> am_off s nxt sn \<le> am_off s nxt r
     \<and> am_off s nxt r \<le> am_off s nxt highest \<and> (r = highest \<or> \<not> am_full w r)
     \<and> (\<forall>x. unat x < 2 ^ am_to_number s \<longrightarrow> am_off s nxt sn \<le> am_off s nxt x \<longrightarrow> am_off s nxt x < am_off s nxt r
          \<longrightarrow> am_full w x)"

lemma am_first_gap_step:
  assumes "am_first_gap s nxt highest w' (am_inc s sn) r" and "am_full w sn" and "am_off s nxt sn < am_off s nxt highest"
    and "unat sn < 2 ^ am_to_number s" and "\<And>x. x \<noteq> sn \<Longrightarrow> am_full w' x = am_full w x"
  shows "am_first_gap s nxt highest w sn r"
proof -
  note inc = am_off_inc_below[OF assms(3)]
  have ge: "am_off s nxt sn < am_off s nxt r"
    using assms(1) inc by (auto simp: am_first_gap_def)
  then have "r \<noteq> sn" by auto
  have "am_full w x" if x: "unat x < 2 ^ am_to_number s" "am_off s nxt sn \<le> am_off s nxt x" "am_off s nxt x < am_off s nxt r" for x
  proof (cases "x = sn")
    case True
    then show ?thesis using assms(2) by simp
  next
    case False
    then have "am_off s nxt x \<noteq> am_off s nxt sn" using am_off_inject[OF x(1) assms(4)] by blast
    then show ?thesis using False x inc assms(1) assms(5)[of x] by (auto simp: am_first_gap_def)
  qed
  then show ?thesis
    using assms(1) assms(5)[OF \<open>r \<noteq> sn\<close>] ge unfolding am_first_gap_def by auto
qed

lemma am_status_loop_spec:
  assumes "unat sn < 2 ^ am_to_number s" and "unat highest < 2 ^ am_to_number s"
    and "am_off s nxt sn \<le> am_off s nxt highest"
  shows "am_first_gap s nxt highest w sn (am_status_loop s nxt highest sn w)"
  using assms
proof (induction s nxt highest sn w rule: am_status_loop.induct)
  case (1 s nxt highest sn w)
  show ?case
  proof (cases "am_off s nxt sn < am_off s nxt highest \<and> am_full w sn")
    case True
    then obtain info where info: "win_at w sn = Some info" "ai_fully_received info" by (auto simp: am_full_def)
    have "am_first_gap s nxt highest w (am_inc s sn) (am_status_loop s nxt highest (am_inc s sn) w)"
      using 1(1)[OF _ info(1) _ am_inc_less 1(3)] True info(2) am_off_inc_below[of s nxt sn highest] by (auto simp: am_base_less)
    then have "am_first_gap s nxt highest w sn (am_status_loop s nxt highest (am_inc s sn) w)"
      by (rule am_first_gap_step) (use True 1(2) in simp_all)
    then show ?thesis using True info by (simp add: am_status_loop.simps[of s nxt highest sn] am_base_less)
  next
    case False
    then have "am_status_loop s nxt highest sn w = sn"
      by (auto simp: am_status_loop.simps[of s nxt highest sn] am_base_less am_full_def split: option.splits)
    moreover have "sn = highest \<or> \<not> am_full w sn"
      using False 1(2-4) am_off_inject[of sn s highest nxt] by force
    ultimately show ?thesis using 1(2,4) by (auto simp: am_first_gap_def)
  qed
qed

lemma am_next_loop_spec:
  assumes "cm_wf (am_to_number s - 1) w" and "unat sn < 2 ^ am_to_number s" and "unat highest < 2 ^ am_to_number s"
    and "am_off s nxt sn \<le> am_off s nxt highest" and "\<And>x. win_at w x \<noteq> None \<Longrightarrow> unat x < 2 ^ am_to_number s"
  shows "\<exists>r w'. am_next_loop s nxt highest sn w = Some (r, w') \<and> am_first_gap s nxt highest w sn r
     \<and> cm_wf (am_to_number s - 1) w'
     \<and> (\<forall>x. win_at w' x = (if am_off s nxt sn \<le> am_off s nxt x \<and> am_off s nxt x < am_off s nxt r then None else win_at w x))"
  using assms
proof (induction s nxt highest sn w rule: am_next_loop.induct)
  case (1 s nxt highest sn w)
  show ?case
  proof (cases "am_off s nxt sn < am_off s nxt highest \<and> am_full w sn")
    case True
    then obtain info where info: "win_at w sn = Some info" "ai_fully_received info" by (auto simp: am_full_def)
    obtain w1 where w1: "remove_sn w sn = Some w1" "cm_wf (am_to_number s - 1) w1" "win_at w1 = (win_at w)(sn := None)"
      using win.remove_present[OF 1(2), of sn] info by auto
    note inc = am_off_inc_below[OF conjunct1[OF True]]
    have keys1: "\<And>x. win_at w1 x \<noteq> None \<Longrightarrow> unat x < 2 ^ am_to_number s"
      using 1(6) w1(3) by (auto split: if_splits)
    obtain r w' where r: "am_next_loop s nxt highest (am_inc s sn) w1 = Some (r, w')"
        "am_first_gap s nxt highest w1 (am_inc s sn) r" "cm_wf (am_to_number s - 1) w'"
        "\<forall>x. win_at w' x = (if am_off s nxt (am_inc s sn) \<le> am_off s nxt x \<and> am_off s nxt x < am_off s nxt r then None else win_at w1 x)"
      using 1(1)[OF _ info(1) _ w1(1,2) am_inc_less 1(4) _ keys1] True info(2) inc by (auto simp: am_base_less)
    have gap: "am_first_gap s nxt highest w sn r"
      using r(2) by (rule am_first_gap_step) (use True 1(3) in \<open>simp_all add: am_full_def w1(3)\<close>)
    have "win_at w' x = (if am_off s nxt sn \<le> am_off s nxt x \<and> am_off s nxt x < am_off s nxt r then None else win_at w x)" for x
    proof (cases "x = sn")
      case True
      then show ?thesis using r(4) inc w1(3) r(2) by (auto simp: am_first_gap_def)
    next
      case False
      then show ?thesis
        using r(4) inc w1(3) 1(6)[of x] am_off_inject[of x s sn nxt] 1(3) by (cases "win_at w x") auto
    qed
    then show ?thesis
      using r gap True info w1 by (simp add: am_next_loop.simps[of s nxt highest sn w] am_base_less)
  next
    case False
    then have "am_next_loop s nxt highest sn w = Some (sn, w)"
      by (auto simp: am_next_loop.simps[of s nxt highest sn] am_base_less am_full_def split: option.splits)
    moreover have "sn = highest \<or> \<not> am_full w sn"
      using False 1(3-5) am_off_inject[of sn s highest nxt] by force
    ultimately show ?thesis using 1(2,3,5) by (auto simp: am_first_gap_def)
  qed
qed

text \<open>Moving \<open>RX_Next\<close> over what was received changes the base of all comparisons.\<close>

lemma am_advance_window:
  assumes st: "am_state E s nxt hs highest w" and gap: "am_first_gap s nxt highest w nxt r"
    and hs: "hs = highest \<or> \<not> am_full w hs"
    and w': "cm_wf (am_to_number s - 1) w'"
      "\<forall>x. win_at w' x = (if am_off s nxt x < am_off s nxt r then None else win_at w x)"
  shows "am_state {} s r hs highest w'"
    "am_timer s nxt highest trigger w \<Longrightarrow> trigger = r \<or> am_W s < am_off s r trigger \<or> am_timer s r highest trigger w'"
proof -
  have r: "unat r < 2 ^ am_to_number s" "am_off s nxt r \<le> am_off s nxt highest"
    using gap by (auto simp: am_first_gap_def)
  have base: "am_off s r x = am_off s nxt x - am_off s nxt r" if "am_off s nxt r \<le> am_off s nxt x" for x
    using sn_off_rebase_ge[OF am_to_number_32(1) that] .
  have full: "am_full w' x \<Longrightarrow> am_full w x" for x
    by (auto simp: am_full_def w'(2) split: if_splits)
  have r_hs: "am_off s nxt r \<le> am_off s nxt hs"
    using gap hs st unfolding am_first_gap_def am_state_def by (metis not_le zero_le sn_off_self)
  have win: "am_win s r (am_off s r highest) w'"
    unfolding am_win_def
  proof (intro conjI allI impI)
    fix x info assume x: "win_at w' x = Some info"
    then have "win_at w x = Some info" "am_off s nxt r \<le> am_off s nxt x"
      using w'(2) by (auto split: if_splits)
    then show "unat x < 2 ^ am_to_number s" "am_off s r x < am_off s r highest" "info_ok info"
      using st base[of x] base[OF r(2)] by (fastforce simp: am_state_def am_win_def)+
  qed (rule w'(1))
  have top: "r = highest \<or> (\<exists>x. win_at w' x \<noteq> None \<and> am_off s r x + 1 = am_off s r highest)"
  proof (cases "r = highest")
    case False
    then have lt: "am_off s nxt r < am_off s nxt highest"
      using r st am_off_inject[of r s highest nxt] by (auto simp: am_state_def le_less)
    then have "nxt \<noteq> highest" by auto
    then obtain x where x: "win_at w x \<noteq> None" "am_off s nxt x + 1 = am_off s nxt highest"
      using st unfolding am_state_def by blast
    then have "win_at w' x \<noteq> None" "am_off s nxt r \<le> am_off s nxt x" using w'(2) lt by auto
    then show ?thesis using x(2) base[of x] base[OF r(2)] by (intro disjI2 exI[of _ x]) simp
  qed simp
  have "\<not> am_full w' r \<or> r = highest"
    using gap full[of r] by (auto simp: am_first_gap_def)
  then show "am_state {} s r hs highest w'"
    using st r win top hs full[of hs] base[OF r_hs] base[OF r(2)] r_hs unfolding am_state_def by auto
  assume timer: "am_timer s nxt highest trigger w"
  show "trigger = r \<or> am_W s < am_off s r trigger \<or> am_timer s r highest trigger w'"
  proof (cases "am_off s nxt r \<le> am_off s nxt trigger")
    case True
    show ?thesis
    proof (cases "trigger = r")
      case False
      obtain x where x: "win_at w x \<noteq> None" "am_off s nxt x + 1 = am_off s nxt trigger"
        using timer unfolding am_timer_def by blast
      have "am_off s nxt r < am_off s nxt trigger"
        using True False timer r am_off_inject[of r s trigger nxt] by (auto simp: am_timer_def le_less)
      then have "win_at w' x \<noteq> None" "am_off s nxt r \<le> am_off s nxt x" using w'(2) x by auto
      then have "win_at w' x \<noteq> None \<and> am_off s r x + 1 = am_off s r trigger"
        using x(2) base[of x] base[OF True] by simp
      then show ?thesis
        using timer True \<open>am_off s nxt r < am_off s nxt trigger\<close> base[OF True] base[OF r(2)] unfolding am_timer_def by auto
    qed simp
  next
    case False
    then have "am_off s r trigger = am_off s nxt trigger + 2 ^ am_to_number s - am_off s nxt r"
      using sn_off_rebase_lt[OF am_to_number_32(1), of s nxt trigger r] by simp
    moreover have "am_off s nxt r \<le> am_W s" using r st by (simp add: am_state_def)
    moreover have "0 < am_off s nxt trigger" using timer by (simp add: am_timer_def)
    ultimately have "am_W s < am_off s r trigger" using am_W(2)[of s] by linarith
    then show ?thesis by simp
  qed
qed

lemma am_full_cong: "win_at w' = (win_at w)(sn \<mapsto> i') \<Longrightarrow> win_at w sn = Some i \<Longrightarrow> ai_fully_received i' = ai_fully_received i
    \<Longrightarrow> am_full w' = am_full w"
  by (auto simp: am_full_def fun_eq_iff)

lemma am_state_clear_data:
  assumes "am_state E s nxt hs highest w" and "win_at w sn = Some info" "ai_fully_received info"
    and w': "cm_wf (am_to_number s - 1) w'" "win_at w' = (win_at w)(sn \<mapsto> info\<lparr>ai_data := Sdu_slice []\<rparr>)"
  shows "am_state E s nxt hs highest w'" "am_timer s nxt highest trigger w \<Longrightarrow> am_timer s nxt highest trigger w'"
proof -
  have full: "am_full w' = am_full w"
    using am_full_cong[OF w'(2) assms(2)] by simp
  have mem: "win_at w' x \<noteq> None \<longleftrightarrow> win_at w x \<noteq> None" for x
    by (simp add: w'(2) assms(2))
  have "am_win s nxt (am_off s nxt highest) w'"
    using assms(1-3) w' by (auto simp: am_state_def am_win_def info_ok_def)
  then show "am_state E s nxt hs highest w'"
    using assms(1) full mem unfolding am_state_def by auto
  show "am_timer s nxt highest trigger w \<Longrightarrow> am_timer s nxt highest trigger w'"
    using mem unfolding am_timer_def by auto
qed

text \<open>\<open>RX_Next\<close> moves over completely received SDUs, which leave the window.\<close>

definition am_moved :: "rlc_am_sn_size \<Rightarrow> u32 \<Rightarrow> u32 \<Rightarrow> (u32 \<Rightarrow> rlc_rx_am_sdu_info option) \<Rightarrow> u32
     \<Rightarrow> (u32 \<Rightarrow> rlc_rx_am_sdu_info option) \<Rightarrow> bool" where
  "am_moved s nxt0 highest f nxt g \<longleftrightarrow> am_off s nxt0 nxt \<le> am_off s nxt0 highest
     \<and> (\<forall>x. unat x < 2 ^ am_to_number s \<longrightarrow> am_off s nxt0 x < am_off s nxt0 nxt
          \<longrightarrow> (\<exists>info. f x = Some info \<and> ai_fully_received info))
     \<and> g = (\<lambda>x. if am_off s nxt0 x < am_off s nxt0 nxt then None else f x)"

text \<open>The three phases when all bytes of an SDU are there.\<close>

lemma ra_fully_received_spec:
  assumes st: "am_state {sn} (ra_size st) (ra_next st) (ra_highest_status st) (ra_next_highest st) (ra_window st)"
    and info: "win_at (ra_window st) sn = Some info" "ai_fully_received info"
    and sn: "unat sn < 2 ^ am_to_number (ra_size st)"
      "am_off (ra_size st) (ra_next st) sn < am_off (ra_size st) (ra_next st) (ra_next_highest st)"
  shows "\<exists>w hs nxt. ra_fully_received pool_ok sn info st
       = Some (st\<lparr>ra_window := w, ra_highest_status := hs, ra_next := nxt\<rparr>,
           case am_reassemble_sdu pool_ok info of None \<Rightarrow> [] | Some sdu \<Rightarrow> [On_new_sdu sdu])
     \<and> am_state {} (ra_size st) nxt hs (ra_next_highest st) w
     \<and> am_moved (ra_size st) (ra_next st) (ra_next_highest st)
          ((win_at (ra_window st))(sn \<mapsto> info\<lparr>ai_data := Sdu_slice []\<rparr>)) nxt (win_at w)
     \<and> (am_timer (ra_size st) (ra_next st) (ra_next_highest st) (ra_status_trigger st) (ra_window st)
        \<longrightarrow> ra_status_trigger st = nxt \<or> am_W (ra_size st) < am_off (ra_size st) nxt (ra_status_trigger st)
          \<or> am_timer (ra_size st) nxt (ra_next_highest st) (ra_status_trigger st) w)"
proof -
  let ?s = "ra_size st" and ?nxt = "ra_next st" and ?hs = "ra_highest_status st" and ?hi = "ra_next_highest st"
  have wf: "cm_wf (am_to_number ?s - 1) (ra_window st)" using st by (simp add: am_state_def am_win_def)
  obtain w1 where w1: "win_set (ra_window st) sn (info\<lparr>ai_data := Sdu_slice []\<rparr>) = Some w1" "cm_wf (am_to_number ?s - 1) w1"
      "win_at w1 = (win_at (ra_window st))(sn \<mapsto> info\<lparr>ai_data := Sdu_slice []\<rparr>)"
    using am_set[OF wf, of sn] info by auto
  note clear = am_state_clear_data[OF st info w1(2,3)]
  define hs where "hs = (if am_off ?s ?nxt sn = am_off ?s ?nxt ?hs
      then am_status_loop ?s ?nxt ?hi (am_inc ?s ?hs) w1 else ?hs)"
  have bounds: "unat ?nxt < 2 ^ am_to_number ?s" "unat ?hs < 2 ^ am_to_number ?s" "unat ?hi < 2 ^ am_to_number ?s"
      "am_off ?s ?nxt ?hi \<le> am_W ?s"
    using st by (simp_all add: am_state_def)
  have hs: "am_state {sn} ?s ?nxt hs ?hi w1 \<and> (hs = ?hi \<or> \<not> am_full w1 hs)"
  proof (cases "am_off ?s ?nxt sn = am_off ?s ?nxt ?hs")
    case True
    then have "am_off ?s ?nxt (am_inc ?s ?hs) = am_off ?s ?nxt sn + 1"
      using am_off_inc_below[of ?s ?nxt ?hs ?hi] sn(2) by simp
    then have "am_first_gap ?s ?nxt ?hi w1 (am_inc ?s ?hs) hs"
      using True sn(2) am_status_loop_spec[OF am_inc_less bounds(3), of ?nxt ?hs w1] by (simp add: hs_def)
    then show ?thesis using clear(1) by (auto simp: am_state_def am_first_gap_def)
  next
    case False
    then show ?thesis using clear(1) by (auto simp: am_state_def hs_def)
  qed
  have eq1: "ra_fully_received pool_ok sn info st =
      (if am_off ?s ?nxt sn = 0
       then map_option (\<lambda>(sn_upd, w). (st\<lparr>ra_window := w, ra_highest_status := hs, ra_next := sn_upd\<rparr>,
           case am_reassemble_sdu pool_ok info of None \<Rightarrow> [] | Some sdu \<Rightarrow> [On_new_sdu sdu]))
         (am_next_loop ?s ?nxt ?hi ?nxt w1)
       else Some (st\<lparr>ra_window := w1, ra_highest_status := hs\<rparr>,
           case am_reassemble_sdu pool_ok info of None \<Rightarrow> [] | Some sdu \<Rightarrow> [On_new_sdu sdu]))"
  proof -
    have "?nxt mod am_mod ?s = ?nxt"
      using bounds(1) by (simp add: am_mod_def mod_cardinality take_bit_of_bound)
    then show ?thesis
      using w1(1) by (auto simp: ra_fully_received_def Let_def am_base_eq hs_def am_inc_def
          split: option.splits bind_splits)
  qed
  show ?thesis
  proof (cases "am_off ?s ?nxt sn = 0")
    case False
    then have "sn \<noteq> ?nxt" by auto
    then have "am_state {} ?s ?nxt hs ?hi w1"
      using hs by (auto simp: am_state_def)
    moreover have "am_moved ?s ?nxt ?hi ((win_at (ra_window st))(sn \<mapsto> info\<lparr>ai_data := Sdu_slice []\<rparr>)) ?nxt (win_at w1)"
      unfolding w1(3)[symmetric] by (simp add: am_moved_def)
    ultimately show ?thesis
      using eq1 False clear(2) by (intro exI[of _ w1] exI[of _ hs] exI[of _ ?nxt]) simp
  next
    case True
    have "\<And>x. win_at w1 x \<noteq> None \<Longrightarrow> unat x < 2 ^ am_to_number ?s"
      using hs by (auto simp: am_state_def am_win_def)
    from am_next_loop_spec[OF w1(2) bounds(1,3) _ this, of ?nxt, simplified]
    obtain r w' where r: "am_next_loop ?s ?nxt ?hi ?nxt w1 = Some (r, w')" "am_first_gap ?s ?nxt ?hi w1 ?nxt r"
        "cm_wf (am_to_number ?s - 1) w'"
        "\<forall>x. win_at w' x = (if am_off ?s ?nxt x < am_off ?s ?nxt r then None else win_at w1 x)"
      by auto
    note adv = am_advance_window[OF conjunct1[OF hs] r(2) conjunct2[OF hs] r(3,4)]
    have "am_moved ?s ?nxt ?hi (win_at w1) r (win_at w')"
      using r(2,4) by (auto simp: am_moved_def am_first_gap_def am_full_def)
    then have moved: "am_moved ?s ?nxt ?hi ((win_at (ra_window st))(sn \<mapsto> info\<lparr>ai_data := Sdu_slice []\<rparr>)) r (win_at w')"
      unfolding w1(3) .
    show ?thesis
      using eq1 True r(1) adv(1) adv(2)[of "ra_status_trigger st"] clear(2)[of "ra_status_trigger st"] moved
      by (intro exI[of _ w'] exI[of _ hs] exI[of _ r]) simp
  qed
qed

text \<open>The reassembly timer.\<close>

lemma ra_stop_timer_spec:
  assumes st: "am_state {} (ra_size st) (ra_next st) (ra_highest_status st) (ra_next_highest st) (ra_window st)"
    and timer: "ra_timer_running st \<Longrightarrow> ra_status_trigger st = ra_next st
       \<or> am_W (ra_size st) < am_off (ra_size st) (ra_next st) (ra_status_trigger st)
       \<or> am_timer (ra_size st) (ra_next st) (ra_next_highest st) (ra_status_trigger st) (ra_window st)"
  shows "\<exists>running. ra_stop_timer st = Some (st\<lparr>ra_timer_running := running\<rparr>)
     \<and> (running \<longrightarrow> am_timer (ra_size st) (ra_next st) (ra_next_highest st) (ra_status_trigger st) (ra_window st))"
proof (cases "ra_timer_running st")
  case False
  then have "ra_stop_timer st = Some (st\<lparr>ra_timer_running := False\<rparr>)"
    by (simp add: ra_stop_timer_def)
  then show ?thesis by blast
next
  case running: True
  let ?s = "ra_size st" and ?nxt = "ra_next st" and ?t = "ra_status_trigger st"
  have known: "\<exists>info. win_at (ra_window st) ?nxt = Some info" if one: "am_off ?s ?nxt ?t = 1"
  proof -
    have "am_timer ?s ?nxt (ra_next_highest st) ?t (ra_window st)"
      using timer[OF running] one am_W(5)[of ?s] by auto
    then obtain x where x: "win_at (ra_window st) x \<noteq> None" "am_off ?s ?nxt x = 0"
      using one by (auto simp: am_timer_def)
    then have "x = ?nxt"
      using st am_off_zero[of x ?s ?nxt] by (auto simp: am_state_def am_win_def)
    then show ?thesis using x by auto
  qed
  define stop where "stop \<longleftrightarrow> ?t = ?nxt
      \<or> am_off ?s ?nxt ?t = 1 \<and> (\<exists>info. win_at (ra_window st) ?nxt = Some info \<and> \<not> ai_has_gap info)
      \<or> \<not> am_off ?s ?nxt ?t < am_W ?s"
  have "ra_stop_timer st = Some (st\<lparr>ra_timer_running := \<not> stop\<rparr>)"
    using running known
    by (cases "am_off ?s ?nxt ?t = 1")
      (auto simp: ra_stop_timer_def am_base_eq am_off_next1 am_inside_off stop_def Let_def)
  then show ?thesis
    using timer[OF running] by (intro exI[of _ "\<not> stop"]) (auto simp: stop_def)
qed

lemma ra_start_timer_spec:
  assumes st: "am_state {} (ra_size st) (ra_next st) (ra_highest_status st) (ra_next_highest st) (ra_window st)"
    and nr: "\<not> ra_timer_running st"
  shows "\<not> ra_timer_set st \<and> ra_start_timer sn st = None
     \<or> (\<exists>running trigger. ra_start_timer sn st = Some (st\<lparr>ra_timer_running := running, ra_status_trigger := trigger\<rparr>)
     \<and> (running \<longrightarrow> am_timer (ra_size st) (ra_next st) (ra_next_highest st) trigger (ra_window st)))"
proof -
  let ?s = "ra_size st" and ?nxt = "ra_next st" and ?hi = "ra_next_highest st"
  let ?c = "rx_mod_base st ?hi > rx_mod_base st (sn + 1) \<or> rx_mod_base st ?hi = rx_mod_base st (sn + 1) \<and> ra_gap_at st sn"
  show ?thesis
  proof (cases ?c)
    case False
    then have "ra_start_timer sn st = Some (st\<lparr>ra_timer_running := False, ra_status_trigger := ra_status_trigger st\<rparr>)"
      using nr by (auto simp: ra_start_timer_def)
    then show ?thesis by blast
  next
    case True
    have "?hi \<noteq> ?nxt"
    proof
      assume eq: "?hi = ?nxt"
      then have "ra_gap_at st sn" "am_off ?s ?nxt (sn + 1) = 0"
        using True by (auto simp: am_base_less am_base_eq)
      then show False
        using st eq by (auto simp: ra_gap_at_def am_state_def am_win_def split: option.splits)
    qed
    then have "am_timer ?s ?nxt ?hi ?hi (ra_window st)"
      using st am_off_zero[of ?hi ?s ?nxt] unfolding am_state_def am_timer_def by auto
    moreover have "ra_start_timer sn st
        = (if ra_timer_set st then Some (st\<lparr>ra_timer_running := True, ra_status_trigger := ?hi\<rparr>) else None)"
      using True by (auto simp: ra_start_timer_def)
    ultimately show ?thesis by (cases "ra_timer_set st") auto
  qed
qed

text \<open>All actions when an AMD PDU is placed in the reception buffer.\<close>

definition ra_core :: "rlc_rx_am \<Rightarrow> bool" where
  "ra_core st \<longleftrightarrow> am_state {} (ra_size st) (ra_next st) (ra_highest_status st) (ra_next_highest st) (ra_window st)
     \<and> (ra_timer_running st \<longrightarrow> am_timer (ra_size st) (ra_next st) (ra_next_highest st) (ra_status_trigger st) (ra_window st))"

lemma ra_update_next_highest_off:
  "ra_update_next_highest sn st = st\<lparr>ra_next_highest :=
     if am_off (ra_size st) (ra_next st) (ra_next_highest st) \<le> am_off (ra_size st) (ra_next st) sn
     then am_inc (ra_size st) sn else ra_next_highest st\<rparr>"
  by (simp add: ra_update_next_highest_def am_base_le am_inc_def)

text \<open>What a placed SDU does to \<open>RX_Next\<close>, \<open>RX_Highest_Status\<close>, \<open>RX_Next_Highest\<close> and the window.\<close>

definition am_placed :: "u32 \<Rightarrow> rlc_rx_am_sdu_info \<Rightarrow> rlc_rx_am \<Rightarrow> u32 \<Rightarrow> u32 \<Rightarrow> u32 \<Rightarrow> rlc_rx_am_sdu_info circular_map \<Rightarrow> bool" where
  "am_placed sn info st nxt hs highest w \<longleftrightarrow>
     highest = (if am_off (ra_size st) (ra_next st) (ra_next_highest st) \<le> am_off (ra_size st) (ra_next st) sn
       then am_inc (ra_size st) sn else ra_next_highest st)
     \<and> (if ai_fully_received info
        then am_moved (ra_size st) (ra_next st) highest ((win_at (ra_window st))(sn \<mapsto> info\<lparr>ai_data := Sdu_slice []\<rparr>)) nxt (win_at w)
        else nxt = ra_next st \<and> hs = ra_highest_status st \<and> win_at w = (win_at (ra_window st))(sn \<mapsto> info))"

lemma ra_placed_spec:
  assumes core: "ra_core st" and sn: "unat sn < 2 ^ am_to_number (ra_size st)" "inside_rx_window st sn"
    and w': "cm_wf (am_to_number (ra_size st) - 1) w'" "win_at w' = (win_at (ra_window st))(sn \<mapsto> info)"
    and info: "info_ok info"
  shows "\<not> ra_timer_set st \<and> ra_placed pool_ok sn (st\<lparr>ra_window := w'\<rparr>) = None
     \<or> (\<exists>w hs nxt highest running trigger. ra_placed pool_ok sn (st\<lparr>ra_window := w'\<rparr>)
       = Some (st\<lparr>ra_window := w, ra_highest_status := hs, ra_next := nxt, ra_next_highest := highest,
             ra_timer_running := running, ra_status_trigger := trigger\<rparr>,
           if ai_fully_received info \<and> pool_ok
           then [On_new_sdu (case ai_data info of Sdu_slice payload \<Rightarrow> payload | Sdu_segments segs \<Rightarrow> chain_segments segs)]
           else [])
     \<and> ra_core (st\<lparr>ra_window := w, ra_highest_status := hs, ra_next := nxt, ra_next_highest := highest,
             ra_timer_running := running, ra_status_trigger := trigger\<rparr>)
     \<and> am_placed sn info st nxt hs highest w)"
proof -
  let ?s = "ra_size st"
  define st1 where "st1 = ra_update_next_highest sn (st\<lparr>ra_window := w'\<rparr>)"
  have off: "am_off ?s (ra_next st) sn < am_W ?s" using sn(2) by (simp add: am_inside_off)
  have core1: "am_state {} ?s (ra_next st) (ra_highest_status st) (ra_next_highest st) (ra_window st)"
    using core by (simp add: ra_core_def)
  define highest' where "highest' = (if am_off ?s (ra_next st) (ra_next_highest st) \<le> am_off ?s (ra_next st) sn
     then am_inc ?s sn else ra_next_highest st)"
  note place = am_state_place[OF core1 sn(1) off w' info, folded highest'_def]
  have st1_eq: "st1 = st\<lparr>ra_window := w', ra_next_highest := highest'\<rparr>"
    by (simp add: st1_def ra_update_next_highest_off highest'_def)
  have st1: "am_state {sn} ?s (ra_next st1) (ra_highest_status st1) (ra_next_highest st1) (ra_window st1)"
      "am_off ?s (ra_next st1) sn < am_off ?s (ra_next st1) (ra_next_highest st1)" "ra_size st1 = ?s"
      "ra_timer_running st1 \<Longrightarrow> am_timer ?s (ra_next st1) (ra_next_highest st1) (ra_status_trigger st1) (ra_window st1)"
      "win_at (ra_window st1) sn = Some info"
    using place core w'(2) by (simp_all add: st1_eq ra_core_def)
  obtain w hs nxt where mid: "(if ai_fully_received info then ra_fully_received pool_ok sn info st1 else Some (st1, []))
       = Some (st1\<lparr>ra_window := w, ra_highest_status := hs, ra_next := nxt\<rparr>,
           if ai_fully_received info \<and> pool_ok
           then [On_new_sdu (case ai_data info of Sdu_slice payload \<Rightarrow> payload | Sdu_segments segs \<Rightarrow> chain_segments segs)]
           else [])"
      "am_state {} ?s nxt hs (ra_next_highest st1) w"
      "ra_timer_running st1 \<Longrightarrow> ra_status_trigger st1 = nxt \<or> am_W ?s < am_off ?s nxt (ra_status_trigger st1)
          \<or> am_timer ?s nxt (ra_next_highest st1) (ra_status_trigger st1) w"
      "am_placed sn info st nxt hs highest' w"
  proof (cases "ai_fully_received info")
    case True
    have "am_state {sn} (ra_size st1) (ra_next st1) (ra_highest_status st1) (ra_next_highest st1) (ra_window st1)"
      using st1 by simp
    moreover have "(win_at (ra_window st1))(sn \<mapsto> i) = (win_at (ra_window st))(sn \<mapsto> i)" for i
      by (simp add: st1_eq w'(2))
    moreover have "ra_next st1 = ra_next st" "ra_next_highest st1 = highest'" by (simp_all add: st1_eq)
    ultimately obtain w hs nxt where full: "ra_fully_received pool_ok sn info st1
       = Some (st1\<lparr>ra_window := w, ra_highest_status := hs, ra_next := nxt\<rparr>,
           case am_reassemble_sdu pool_ok info of None \<Rightarrow> [] | Some sdu \<Rightarrow> [On_new_sdu sdu])"
       "am_state {} ?s nxt hs (ra_next_highest st1) w"
       "am_moved ?s (ra_next st) highest' ((win_at (ra_window st))(sn \<mapsto> info\<lparr>ai_data := Sdu_slice []\<rparr>)) nxt (win_at w)"
       "am_timer ?s (ra_next st1) (ra_next_highest st1) (ra_status_trigger st1) (ra_window st1)
        \<longrightarrow> ra_status_trigger st1 = nxt \<or> am_W ?s < am_off ?s nxt (ra_status_trigger st1)
          \<or> am_timer ?s nxt (ra_next_highest st1) (ra_status_trigger st1) w"
      using ra_fully_received_spec[OF _ st1(5) True, of pool_ok] st1(2,3) sn(1) by auto
    have "am_placed sn info st nxt hs highest' w"
      using full(3) True by (simp add: am_placed_def highest'_def)
    from that[OF _ full(2) _ this] full(1,4) st1(4) show ?thesis
      by (cases pool_ok) (auto simp: am_reassemble_sdu_def True)
  next
    case False
    then have "\<not> am_full (ra_window st1) sn" by (simp add: am_full_def st1(5))
    then have "am_state {} ?s (ra_next st1) (ra_highest_status st1) (ra_next_highest st1) (ra_window st1)"
      using st1(1) by (auto simp: am_state_def)
    then show ?thesis
      using that[where w = "ra_window st1" and hs = "ra_highest_status st1" and nxt = "ra_next st1"] False st1(4) w'(2)
      by (simp add: am_placed_def st1_eq highest'_def)
  qed
  define st2 where "st2 = st1\<lparr>ra_window := w, ra_highest_status := hs, ra_next := nxt\<rparr>"
  obtain running where stop: "ra_stop_timer st2 = Some (st2\<lparr>ra_timer_running := running\<rparr>)"
      "running \<Longrightarrow> am_timer ?s nxt (ra_next_highest st1) (ra_status_trigger st1) w"
    using ra_stop_timer_spec[of st2] mid(2,3) by (auto simp: st2_def st1(3))
  have fields: "ra_timer_running (st2\<lparr>ra_timer_running := running\<rparr>) = running" "ra_next (st2\<lparr>ra_timer_running := running\<rparr>) = nxt"
      "ra_timer_set (st2\<lparr>ra_timer_running := running\<rparr>) = ra_timer_set st"
    by (simp_all add: st2_def st1_eq ra_timer_set_def)
  let ?start = "if \<not> running then ra_start_timer nxt (st2\<lparr>ra_timer_running := running\<rparr>) else Some (st2\<lparr>ra_timer_running := running\<rparr>)"
  have placed: "ra_placed pool_ok sn (st\<lparr>ra_window := w'\<rparr>) = Option.bind ?start (\<lambda>st'. Some (st',
       if ai_fully_received info \<and> pool_ok
       then [On_new_sdu (case ai_data info of Sdu_slice payload \<Rightarrow> payload | Sdu_segments segs \<Rightarrow> chain_segments segs)] else []))"
    unfolding ra_placed_def Let_def st1_def[symmetric] st1(5) option.case mid(1)
      Option.bind.simps prod.case st2_def[symmetric] stop(1) fields(1,2) ..
  have start_spec: "\<not> ra_timer_set st \<and> ?start = None \<or> (\<exists>r t. ?start = Some (st2\<lparr>ra_timer_running := r, ra_status_trigger := t\<rparr>)
      \<and> (r \<longrightarrow> am_timer ?s nxt (ra_next_highest st1) t w))"
  proof (cases running)
    case True
    then show ?thesis using stop(2) by (intro disjI2 exI[of _ True] exI[of _ "ra_status_trigger st2"]) (simp add: st2_def)
  next
    case False
    then show ?thesis
      using ra_start_timer_spec[of "st2\<lparr>ra_timer_running := False\<rparr>" nxt] mid(2) fields(3) by (auto simp: st2_def st1(3))
  qed
  show ?thesis
  proof (cases "?start = None")
    case True
    then show ?thesis using placed start_spec by simp
  next
    case False
    then obtain running' trigger where start: "?start = Some (st2\<lparr>ra_timer_running := running', ra_status_trigger := trigger\<rparr>)"
        "running' \<longrightarrow> am_timer ?s nxt (ra_next_highest st1) trigger w"
      using start_spec by (elim disjE conjE exE) (simp_all only: simp_thms)
    have "ra_placed pool_ok sn (st\<lparr>ra_window := w'\<rparr>) = Some (st2\<lparr>ra_timer_running := running', ra_status_trigger := trigger\<rparr>,
         if ai_fully_received info \<and> pool_ok
         then [On_new_sdu (case ai_data info of Sdu_slice payload \<Rightarrow> payload | Sdu_segments segs \<Rightarrow> chain_segments segs)] else [])"
      unfolding placed start(1) Option.bind.simps ..
    moreover have "st2\<lparr>ra_timer_running := running', ra_status_trigger := trigger\<rparr>
        = st\<lparr>ra_window := w, ra_highest_status := hs, ra_next := nxt, ra_next_highest := ra_next_highest st1,
            ra_timer_running := running', ra_status_trigger := trigger\<rparr>"
      by (simp add: st2_def st1_eq)
    moreover have "ra_core (st\<lparr>ra_window := w, ra_highest_status := hs, ra_next := nxt, ra_next_highest := ra_next_highest st1,
            ra_timer_running := running', ra_status_trigger := trigger\<rparr>)"
      using mid(2) start(2) by (simp add: ra_core_def)
    moreover have "am_placed sn info st nxt hs (ra_next_highest st1) w"
      using mid(4) by (simp add: st1_eq)
    ultimately show ?thesis by metis
  qed
qed

section \<open>What the status report says\<close>

text \<open>Byte \<open>off\<close> of the SDU with sequence number \<open>sn\<close> has arrived, or lies behind a known end of the SDU.\<close>

definition am_has :: "rlc_rx_am_sdu_info circular_map \<Rightarrow> u32 \<Rightarrow> nat \<Rightarrow> bool" where
  "am_has w sn off = (case win_at w sn of None \<Rightarrow> False
     | Some info \<Rightarrow> ai_fully_received info \<or> off \<in> covered (ai_segments info)
         \<or> ((\<exists>seg \<in> set (ai_segments info). seg_si seg = last_segment)
            \<and> (\<forall>seg \<in> set (ai_segments info). seg_hi seg \<le> off)))"

definition status_good :: "rlc_am_sn_size \<Rightarrow> rlc_am_status_pdu \<Rightarrow> bool" where
  "status_good s st \<longleftrightarrow> status_ok st \<and> st_cpt st = 0 \<and> st_sn_size st = s \<and> (\<forall>n \<in> set (st_nacks st). 0 < nack_count n)"

lemma status_reset_good: "status_ok st \<Longrightarrow> st_sn_size st = s \<Longrightarrow> status_good s (status_reset st)"
    "status_missing (status_reset st) = {}"
  using status_reset_size[of st]
  by (simp_all add: status_good_def status_ok_def status_missing_def) (simp_all add: status_reset_def)

lemma push_nack_good:
  assumes "status_good s st" and "nack_ok s n" and "nack_count n = 1"
  shows "status_good s (push_nack st n)" "status_missing (push_nack st n) = status_missing st \<union> nack_missing s n"
proof -
  have "\<forall>m \<in> set (st_nacks (push_nack st n)). 0 < nack_count m"
    using assms merge_nack_range[of "st_mod_nr st" "last (st_nacks st)" n]
    by (auto simp: status_good_def push_nack_nacks dest: in_set_butlastD)
  then show "status_good s (push_nack st n)"
    using assms push_nack_ok[of st n] by (simp add: status_good_def)
  show "status_missing (push_nack st n) = status_missing st \<union> nack_missing s n"
    using push_nack_missing[of st n] assms by (auto simp: status_good_def status_ok_def)
qed

lemma nack_missing_so:
  assumes "unat i < 2 ^ am_to_number s"
  shows "nack_missing s (nack_default\<lparr>nack_sn := i, has_so := True, so_start := a, so_end := b\<rparr>) = {i} \<times> {unat a..unat b}"
    "nack_missing s (nack_default\<lparr>nack_sn := i, has_so := False\<rparr>) = {i} \<times> {..65535}"
proof -
  have i: "take_bit (am_to_number s) i = i" using take_bit_of_bound[OF assms] .
  have "unat b < 2 ^ LENGTH(16)" by (rule unsigned_less)
  then have b: "unat b \<le> 65535" by simp
  show "nack_missing s (nack_default\<lparr>nack_sn := i, has_so := True, so_start := a, so_end := b\<rparr>) = {i} \<times> {unat a..unat b}"
    using i b by (auto simp: nack_missing_def missing_def nack_count_def nack_lo_def nack_hi_def nack_default_def)
  show "nack_missing s (nack_default\<lparr>nack_sn := i, has_so := False\<rparr>) = {i} \<times> {..65535}"
    using i by (auto simp: nack_missing_def missing_def nack_count_def nack_lo_def nack_hi_def nack_default_def)
qed

lemma nack_default_ok:
  assumes "unat i < 2 ^ am_to_number s"
  shows "nack_ok s (nack_default\<lparr>nack_sn := i, has_so := True, so_start := a, so_end := b\<rparr>)"
    "nack_ok s (nack_default\<lparr>nack_sn := i, has_so := False\<rparr>)"
    "nack_count (nack_default\<lparr>nack_sn := i, has_so := True, so_start := a, so_end := b\<rparr>) = 1"
    "nack_count (nack_default\<lparr>nack_sn := i, has_so := False\<rparr>) = 1"
  using assms by (simp_all add: nack_ok_def nack_default_def nack_count_def)

definition segs_end :: "nat \<Rightarrow> rlc_rx_sdu_segment list \<Rightarrow> nat" where
  "segs_end n segs = (if segs = [] then n else seg_hi (last segs))"

lemma segs_end_simps [simp]: "segs_end n [] = n" "segs_end n (seg # segs) = segs_end (seg_hi seg) segs"
  by (simp_all add: segs_end_def)

lemma segs_fit_Cons:
  "segs_fit (seg # segs) \<longleftrightarrow> segs_fit segs \<and> seg_fits seg \<and> (\<forall>t \<in> set segs. seg_hi seg \<le> seg_lo t)"
  by (auto simp: segs_fit_def chained_def)

lemma seg_fits_bounds: "seg_fits seg \<Longrightarrow> seg_lo seg < seg_hi seg" "seg_fits seg \<Longrightarrow> seg_hi seg \<le> 65535"
  by (auto simp: seg_fits_def seg_lo_def seg_hi_def)

lemma segs_end_bounds:
  "segs_fit segs \<Longrightarrow> \<forall>t \<in> set segs. n \<le> seg_lo t \<Longrightarrow> n \<le> 65535 \<Longrightarrow> n \<le> segs_end n segs \<and> segs_end n segs \<le> 65535
     \<and> (\<forall>t \<in> set segs. seg_hi t \<le> segs_end n segs)"
proof (induction segs arbitrary: n)
  case (Cons seg segs)
  then have "seg_hi seg \<le> segs_end (seg_hi seg) segs \<and> segs_end (seg_hi seg) segs \<le> 65535
      \<and> (\<forall>t \<in> set segs. seg_hi t \<le> segs_end (seg_hi seg) segs)"
    using Cons.IH[of "seg_hi seg"] seg_fits_bounds by (simp add: segs_fit_Cons)
  then show ?case
    using Cons.prems seg_fits_bounds[of seg] by (auto simp: segs_fit_Cons)
qed simp

lemma unat_of_nat_so: "n \<le> 65535 \<Longrightarrow> unat (ucast (of_nat n :: u32) :: u16) = n" "n \<le> 65535 \<Longrightarrow> unat (of_nat n :: u32) = n"
  by (simp_all add: unsigned_ucast_eq unat_of_nat_u32 take_bit_eq_mod)

text \<open>One gap in front of a segment.\<close>

lemma am_gap_nack:
  assumes good: "status_good s status" and i: "unat i < 2 ^ am_to_number s"
    and seg: "seg_fits seg" "n \<le> seg_lo seg"
  shows "\<exists>status'. (if ucast (seg_so seg) \<noteq> (of_nat n :: u32)
        then let nack = nack_default\<lparr>nack_sn := i, has_so := True, so_start := ucast (of_nat n :: u32), so_end := seg_so seg - 1\<rparr>;
                 status' = push_nack status nack
             in if so_start nack > so_end nack then None else Some status'
        else Some status) = Some status' \<and> status_good s status'
     \<and> status_missing status' = status_missing status \<union> {i} \<times> {n..<seg_lo seg}"
proof -
  have n: "n \<le> 65535" using seg seg_fits_bounds[OF seg(1)] by simp
  have eq: "ucast (seg_so seg) = (of_nat n :: u32) \<longleftrightarrow> seg_lo seg = n"
    using unat_of_nat_so(2)[OF n] by (simp add: word_unat_eq_iff seg_lo_def)
  show ?thesis
  proof (cases "seg_lo seg = n")
    case True
    then show ?thesis using good eq by simp
  next
    case False
    then have lt: "n < seg_lo seg" using seg(2) by simp
    have so: "unat (seg_so seg - 1) = seg_lo seg - 1"
      using lt by (subst unat_minus_one) (auto simp: seg_lo_def)
    let ?nack = "nack_default\<lparr>nack_sn := i, has_so := True, so_start := ucast (of_nat n :: u32), so_end := seg_so seg - 1\<rparr>"
    have "\<not> so_start ?nack > so_end ?nack"
      using lt so unat_of_nat_so(1)[OF n] by (simp add: word_less_nat_alt)
    moreover have "{n..seg_lo seg - 1} = {n..<seg_lo seg}"
      using lt by auto
    ultimately show ?thesis
      using False eq push_nack_good[OF good nack_default_ok(1,3)[OF i], of "seg_so seg - 1" "ucast (of_nat n :: u32)"]
        nack_missing_so(1)[OF i, of "seg_so seg - 1" "ucast (of_nat n :: u32)"] so unat_of_nat_so(1)[OF n]
      by (simp add: Let_def)
  qed
qed

lemma am_nack_segments_spec:
  assumes "status_good s status" and i: "unat i < 2 ^ am_to_number s"
    and "segs_fit segs" and "\<forall>t \<in> set segs. n \<le> seg_lo t" and "n \<le> 65535"
  shows "\<exists>status'. am_nack_segments i segs (of_nat n) hl status
       = Some (status', of_nat (segs_end n segs), hl \<or> (\<exists>t \<in> set segs. seg_si t = last_segment))
     \<and> status_good s status'
     \<and> status_missing status' = status_missing status \<union> {i} \<times> ({n..<segs_end n segs} - covered segs)"
  using assms(1,3-)
proof (induction segs arbitrary: n hl status)
  case Nil
  then show ?case by simp
next
  case (Cons seg segs)
  have seg: "seg_fits seg" "n \<le> seg_lo seg" and segs: "segs_fit segs" "\<forall>t \<in> set segs. seg_hi seg \<le> seg_lo t"
    using Cons.prems by (simp_all add: segs_fit_Cons)
  note b = seg_fits_bounds[OF seg(1)]
  obtain status1 where s1: "(if ucast (seg_so seg) \<noteq> (of_nat n :: u32)
        then let nack = nack_default\<lparr>nack_sn := i, has_so := True, so_start := ucast (of_nat n :: u32), so_end := seg_so seg - 1\<rparr>;
                 status' = push_nack status nack
             in if so_start nack > so_end nack then None else Some status'
        else Some status) = Some status1" "status_good s status1"
      "status_missing status1 = status_missing status \<union> {i} \<times> {n..<seg_lo seg}"
    using am_gap_nack[OF Cons.prems(1) i seg] by blast
  have hi: "ucast (seg_so seg) + of_nat (length (seg_payload seg)) = (of_nat (seg_hi seg) :: u32)"
    by (simp add: seg_hi_def)
  obtain status2 where s2: "am_nack_segments i segs (of_nat (seg_hi seg)) (hl \<or> seg_si seg = last_segment) status1
       = Some (status2, of_nat (segs_end (seg_hi seg) segs), (hl \<or> seg_si seg = last_segment) \<or> (\<exists>t \<in> set segs. seg_si t = last_segment))"
      "status_good s status2"
      "status_missing status2 = status_missing status1 \<union> {i} \<times> ({seg_hi seg..<segs_end (seg_hi seg) segs} - covered segs)"
    using Cons.IH[OF s1(2) segs b(2)] by blast
  have "{n..<seg_lo seg} \<union> ({seg_hi seg..<segs_end (seg_hi seg) segs} - covered segs)
      = {n..<segs_end n (seg # segs)} - covered (seg # segs)"
    using segs_end_bounds[OF segs b(2)] seg(2) segs(2) b by (fastforce simp: covered_def seg_bytes_def)
  then have "status_missing status2 = status_missing status \<union> {i} \<times> ({n..<segs_end n (seg # segs)} - covered (seg # segs))"
    using s1(3) s2(3) by blast
  moreover have "am_nack_segments i (seg # segs) (of_nat n) hl status
       = Some (status2, of_nat (segs_end n (seg # segs)), hl \<or> (\<exists>t \<in> set (seg # segs). seg_si t = last_segment))"
    unfolding am_nack_segments.simps s1(1) Option.bind.simps hi s2(1) by auto
  ultimately show ?case using s2(2) by blast
qed

lemma am_nack_sdu_spec:
  assumes good: "status_good s status" and i: "unat i < 2 ^ am_to_number s"
    and info: "\<And>info. win_at w i = Some info \<Longrightarrow> info_ok info"
  shows "\<exists>status'. am_nack_sdu i w status = Some status' \<and> status_good s status'
     \<and> status_missing status' = status_missing status \<union> {i} \<times> {off. off \<le> 65535 \<and> \<not> am_has w i off}"
proof (cases "win_at w i")
  case None
  then show ?thesis
    using push_nack_good[OF good nack_default_ok(2,4)[OF i]] nack_missing_so(2)[OF i]
    by (simp add: am_nack_sdu_def am_has_def atMost_def)
next
  case (Some inf)
  show ?thesis
  proof (cases "ai_fully_received inf")
    case True
    then show ?thesis using Some good by (simp add: am_nack_sdu_def am_has_def)
  next
    case False
    then obtain segs where segs: "ai_data inf = Sdu_segments segs" "segs_fit segs"
      using info[OF Some] by (auto simp: info_ok_def)
    let ?e = "segs_end 0 segs" and ?last = "\<exists>t \<in> set segs. seg_si t = last_segment"
    have e: "?e \<le> 65535" "\<forall>t \<in> set segs. seg_hi t \<le> ?e"
      using segs_end_bounds[OF segs(2), of 0] by simp_all
    have end_max: "(\<forall>t \<in> set segs. seg_hi t \<le> off) \<longleftrightarrow> ?e \<le> off" for off
      using e(2) by (auto simp: segs_end_def intro: order_trans)
    have cov: "off \<in> covered segs \<Longrightarrow> off < ?e" for off
      using e(2) by (fastforce simp: covered_def seg_bytes_def)
    obtain status1 where s1: "am_nack_segments i segs 0 False status = Some (status1, of_nat ?e, ?last)"
        "status_good s status1" "status_missing status1 = status_missing status \<union> {i} \<times> ({0..<?e} - covered segs)"
      using am_nack_segments_spec[OF good i segs(2), of 0 False] by auto
    have has: "am_has w i off \<longleftrightarrow> off \<in> covered segs \<or> ?last \<and> ?e \<le> off" for off
      using Some False end_max[of off] by (simp add: am_has_def ai_segments_def segs)
    show ?thesis
    proof (cases ?last)
      case True
      then have "{off. off \<le> 65535 \<and> \<not> am_has w i off} = {0..<?e} - covered segs"
        unfolding has using True e(1) by (intro set_eqI) (simp add: not_le, linarith)
      moreover have "am_nack_sdu i w status = Some status1"
        using s1(1) True Some False segs(1) by (simp add: am_nack_sdu_def)
      ultimately show ?thesis using s1(2,3) by simp
    next
      case nl: False
      let ?nack = "nack_default\<lparr>nack_sn := i, has_so := True, so_start := ucast (of_nat ?e :: u32), so_end := so_end_of_sdu\<rparr>"
      have "\<not> so_start ?nack > so_end ?nack"
        using unat_of_nat_so(1)[OF e(1)] e(1) by (simp add: word_less_nat_alt so_end_of_sdu_def)
      then have eq: "am_nack_sdu i w status = Some (push_nack status1 ?nack)"
        using s1(1) nl Some False segs(1) by (simp add: am_nack_sdu_def Let_def)
      have "nack_missing s ?nack = {i} \<times> {?e..65535}"
        using nack_missing_so(1)[OF i] unat_of_nat_so(1)[OF e(1)] by (simp add: so_end_of_sdu_def)
      moreover have "({0..<?e} - covered segs) \<union> {?e..65535} = {off. off \<le> 65535 \<and> \<not> am_has w i off}"
      proof (rule set_eqI)
        fix off
        have "am_has w i off \<longleftrightarrow> off \<in> covered segs" using has[of off] nl by blast
        then show "off \<in> ({0..<?e} - covered segs) \<union> {?e..65535} \<longleftrightarrow> off \<in> {off. off \<le> 65535 \<and> \<not> am_has w i off}"
          using cov[of off] e(1) by (cases "off < ?e") auto
      qed
      ultimately have "status_missing (push_nack status1 ?nack)
          = status_missing status \<union> {i} \<times> {off. off \<le> 65535 \<and> \<not> am_has w i off}"
        unfolding push_nack_good(2)[OF s1(2) nack_default_ok(1,3)[OF i]] s1(3)
        by (simp only: Un_assoc Sigma_Un_distrib2[symmetric])
      then show ?thesis
        using eq push_nack_good(1)[OF s1(2) nack_default_ok(1,3)[OF i]] by blast
    qed
  qed
qed

lemma am_report_loop_spec:
  assumes "status_good s status" and "unat i < 2 ^ am_to_number s"
    and "\<And>x info. win_at w x = Some info \<Longrightarrow> info_ok info"
  shows "\<exists>status'. am_report_loop s nxt stop i w status = Some status' \<and> status_good s status'
     \<and> status_missing status' = status_missing status \<union>
         {(x, off). unat x < 2 ^ am_to_number s \<and> am_off s nxt i \<le> am_off s nxt x \<and> am_off s nxt x < am_off s nxt stop
            \<and> off \<le> 65535 \<and> \<not> am_has w x off}"
  using assms
proof (induction s nxt stop i w status rule: am_report_loop.induct)
  case (1 s nxt stop i w status)
  show ?case
  proof (cases "am_off s nxt i < am_off s nxt stop")
    case False
    then have "am_report_loop s nxt stop i w status = Some status"
      by (simp add: am_report_loop.simps am_base_less)
    then show ?thesis using 1(2) False by auto
  next
    case True
    then have less: "am_base s nxt i < am_base s nxt stop" by (simp add: am_base_less)
    obtain status1 where s1: "am_nack_sdu i w status = Some status1" "status_good s status1"
        "status_missing status1 = status_missing status \<union> {i} \<times> {off. off \<le> 65535 \<and> \<not> am_has w i off}"
      using am_nack_sdu_spec[OF 1(2,3)] 1(4) by blast
    note inc = am_off_inc_below[OF True]
    obtain status2 where s2: "am_report_loop s nxt stop (am_inc s i) w status1 = Some status2" "status_good s status2"
        "status_missing status2 = status_missing status1 \<union>
         {(x, off). unat x < 2 ^ am_to_number s \<and> am_off s nxt (am_inc s i) \<le> am_off s nxt x \<and> am_off s nxt x < am_off s nxt stop
            \<and> off \<le> 65535 \<and> \<not> am_has w x off}"
      using 1(1)[OF less s1(1,2) am_inc_less] 1(4) by blast
    have "am_off s nxt i \<le> am_off s nxt x \<longleftrightarrow> x = i \<or> am_off s nxt (am_inc s i) \<le> am_off s nxt x"
      if "unat x < 2 ^ am_to_number s" for x
      using inc am_off_inject[OF that 1(3), of nxt] by auto
    then have "status_missing status2 = status_missing status \<union>
         {(x, off). unat x < 2 ^ am_to_number s \<and> am_off s nxt i \<le> am_off s nxt x \<and> am_off s nxt x < am_off s nxt stop
            \<and> off \<le> 65535 \<and> \<not> am_has w x off}"
      using s1(3) s2(3) 1(3) True by auto
    moreover have "am_report_loop s nxt stop i w status = Some status2"
      using less s1(1) s2(1) by (subst am_report_loop.simps) simp
    ultimately show ?thesis using s2(2) by blast
  qed
qed

section \<open>The handlers keep the invariant\<close>

lemma ra_inv_core: "ra_inv st \<longleftrightarrow> ra_core st \<and> ra_statuses_ok st \<and> 0 < unat (ra_max_nof_sn st)
    \<and> unat (ra_max_nof_sn st) \<le> am_W (ra_size st)"
  by (auto simp: ra_inv_def ra_core_def)

lemma ra_stop_sn_off:
  assumes "ra_inv st"
  shows "unat (ra_stop_sn st) < 2 ^ am_to_number (ra_size st)"
    "am_off (ra_size st) (ra_next st) (ra_stop_sn st)
      = min (am_off (ra_size st) (ra_next st) (ra_highest_status st)) (unat (ra_max_nof_sn st))"
proof -
  let ?s = "ra_size st" and ?n = "(ra_next st + ra_max_nof_sn st) mod am_mod (ra_size st)"
  have max: "unat (ra_max_nof_sn st) < 2 ^ am_to_number ?s"
    using assms am_W(4)[of ?s] by (simp add: ra_inv_def)
  have "am_off ?s (ra_next st) ?n = am_off ?s (ra_next st) (ra_next st + ra_max_nof_sn st)"
    by (simp add: am_mod_def mod_cardinality sn_off_take_bit am_to_number_32)
  also have "\<dots> = unat (ra_max_nof_sn st)"
    using max take_bit_of_bound[OF max] by (simp add: sn_off_def)
  finally have n: "am_off ?s (ra_next st) ?n = unat (ra_max_nof_sn st)" .
  have "unat ?n < 2 ^ am_to_number ?s"
    by (simp add: am_mod_def mod_cardinality unat_take_bit)
  then show "unat (ra_stop_sn st) < 2 ^ am_to_number ?s"
    using assms by (simp add: ra_stop_sn_def ra_inv_def am_state_def)
  show "am_off ?s (ra_next st) (ra_stop_sn st) = min (am_off ?s (ra_next st) (ra_highest_status st)) (unat (ra_max_nof_sn st))"
    using n by (auto simp: ra_stop_sn_def am_base_less)
qed

text \<open>The report that is put into the exchange slot.\<close>

definition ra_report_exact :: "rlc_rx_am \<Rightarrow> rlc_am_status_pdu \<Rightarrow> bool" where
  "ra_report_exact st status \<longleftrightarrow> status_ok status \<and> st_cpt status = 0 \<and> st_sn_size status = ra_size st
     \<and> st_ack_sn status = ra_stop_sn st
     \<and> status_missing status = {(sn, off). unat sn < 2 ^ am_to_number (ra_size st)
          \<and> rx_mod_base st sn < rx_mod_base st (ra_stop_sn st) \<and> off \<le> 65535 \<and> \<not> am_has (ra_window st) sn off}"

lemma ra_refresh_spec:
  assumes inv: "ra_inv st"
  shows "\<exists>status. ra_refresh_status_report st = Some (st\<lparr>ra_status_writer := ra_status_exchange st,
       ra_status_exchange := status, ra_status_size := st_packed_size status\<rparr>) \<and> ra_report_exact st status"
proof -
  let ?s = "ra_size st"
  have w: "status_ok (ra_status_writer st)" "st_sn_size (ra_status_writer st) = ?s"
    using inv by (simp_all add: ra_inv_def ra_statuses_ok_def)
  have infos: "win_at (ra_window st) x = Some info \<Longrightarrow> info_ok info" for x info
    using inv by (auto simp: ra_inv_def am_state_def am_win_def)
  have nxt: "unat (ra_next st) < 2 ^ am_to_number ?s"
    using inv by (simp add: ra_inv_def am_state_def)
  obtain status where s: "am_report_loop ?s (ra_next st) (ra_stop_sn st) (ra_next st) (ra_window st)
        (status_reset (ra_status_writer st)) = Some status" "status_good ?s status"
      "status_missing status = {(x, off). unat x < 2 ^ am_to_number ?s
          \<and> am_off ?s (ra_next st) x < am_off ?s (ra_next st) (ra_stop_sn st) \<and> off \<le> 65535 \<and> \<not> am_has (ra_window st) x off}"
    using am_report_loop_spec[OF status_reset_good(1)[OF w] nxt, where w = "ra_window st" and nxt = "ra_next st" and stop = "ra_stop_sn st"] infos
    unfolding status_reset_good(2) by auto
  have "status_missing (status\<lparr>st_ack_sn := a\<rparr>) = status_missing status" for a
    by (simp add: status_missing_def)
  then have "ra_report_exact st (status\<lparr>st_ack_sn := ra_stop_sn st\<rparr>)"
    using s(2,3) by (simp add: ra_report_exact_def status_good_def am_base_less)
  moreover have "ra_refresh_status_report st = Some (st\<lparr>ra_status_writer := ra_status_exchange st,
       ra_status_exchange := status\<lparr>st_ack_sn := ra_stop_sn st\<rparr>, ra_status_size := st_packed_size (status\<lparr>st_ack_sn := ra_stop_sn st\<rparr>)\<rparr>)"
    using s(1) by (simp add: ra_refresh_status_report_def ra_store_status_report_def)
  ultimately show ?thesis by blast
qed

lemma ra_inv_refresh:
  assumes "ra_inv st" and "ra_report_exact st status"
  shows "ra_inv (st\<lparr>ra_status_writer := ra_status_exchange st, ra_status_exchange := status, ra_status_size := n\<rparr>)"
  using assms by (simp add: ra_inv_def ra_statuses_ok_def ra_report_exact_def)

lemma ra_inv_do_status [simp]: "ra_inv (st\<lparr>ra_do_status := b\<rparr>) = ra_inv st"
  by (simp add: ra_inv_def ra_statuses_ok_def)

text \<open>While a status report is required the report put up for the transmitter acknowledges a sequence
  number: a report object that was never filled is not handed out.\<close>

definition ra_fresh :: "rlc_rx_am \<Rightarrow> bool" where
  "ra_fresh st \<longleftrightarrow> (ra_do_status st \<longrightarrow> unat (st_ack_sn (ra_status_exchange st)) < 2 ^ am_to_number (ra_size st))"

lemma ra_on_exit_spec:
  assumes inv: "ra_inv st"
  shows "\<exists>st' ev. ra_on_exit changed requested st = Some (st', ev) \<and> ra_inv st' \<and> ra_cfg st' = ra_cfg st
     \<and> ra_next st' = ra_next st \<and> ra_window st' = ra_window st \<and> set ev \<subseteq> {On_status_report_changed}
     \<and> (ra_fresh st \<longrightarrow> ra_fresh st')"
  using ra_refresh_spec[OF inv] ra_inv_refresh[OF inv] inv ra_stop_sn_off(1)[OF inv]
  by (auto simp: ra_on_exit_def ra_notify_status_report_changed_def Let_def ra_fresh_def ra_report_exact_def)

text \<open>The condition on PDUs: their bytes lie in the range of the 16-bit offsets.\<close>

definition am_pdu_fits :: "rlc_am_sn_size \<Rightarrow> bytes \<Rightarrow> bool" where
  "am_pdu_fits s buf \<longleftrightarrow> (case rlc_am_read_data_pdu_header buf s am_header_zero of None \<Rightarrow> True
     | Some h \<Rightarrow> unat (amh_so h) + (length buf - amh_get_packed_size h) \<le> 65535)"

definition am_stored :: "rlc_am_pdu_header \<Rightarrow> bytes \<Rightarrow> rlc_rx_am_sdu_info \<Rightarrow> rlc_rx_am_sdu_info" where
  "am_stored header payload info =
     (if amh_si header = full_sdu
      then info\<lparr>ai_data := Sdu_slice payload, ai_fully_received := True, ai_has_gap := False\<rparr>
      else let segments = snd (store_segment (ai_segments info)
             \<lparr>seg_si = amh_si header, seg_so = amh_so header, seg_payload = payload\<rparr>)
        in info\<lparr>ai_data := Sdu_segments segments, ai_fully_received := snd (segment_inventory segments),
             ai_has_gap := fst (segment_inventory segments)\<rparr>)"

lemma am_stored_ok:
  assumes "info_ok info \<or> info = am_info_default" and "\<not> ai_fully_received info"
    and "payload \<noteq> []" "unat (amh_so header) + length payload \<le> 65535"
  shows "info_ok (am_stored header payload info)"
proof (cases "amh_si header = full_sdu")
  case True
  then show ?thesis by (simp add: am_stored_def info_ok_def)
next
  case False
  have "segs_fit (ai_segments info)"
    using assms(1,2) by (auto simp: info_ok_def ai_segments_def am_info_default_def segs_fit_def chained_def)
  then show ?thesis
    using False assms(3,4) store_segment_fit(1)[of "ai_segments info"]
    by (simp add: am_stored_def info_ok_def Let_def seg_fits_def seg_hi_def)
qed

definition am_info_at :: "rlc_rx_am \<Rightarrow> u32 \<Rightarrow> rlc_rx_am_sdu_info" where
  "am_info_at st sn = (case win_at (ra_window st) sn of None \<Rightarrow> am_info_default | Some info \<Rightarrow> info)"

lemma ra_store_spec:
  assumes core: "ra_core st" and sn: "unat (amh_sn header) < 2 ^ am_to_number (ra_size st)" "inside_rx_window st (amh_sn header)"
  shows "\<exists>stored w'. (if amh_si header = full_sdu then ra_handle_full_data_sdu header payload st
        else ra_handle_segment_data_sdu header payload st) = Some (stored, st\<lparr>ra_window := w'\<rparr>)
     \<and> cm_wf (am_to_number (ra_size st) - 1) w'
     \<and> win_at w' = (win_at (ra_window st))(amh_sn header \<mapsto> am_stored header payload (am_info_at st (amh_sn header)))
     \<and> (stored \<longleftrightarrow> amh_si header = full_sdu \<or> fst (store_segment (ai_segments (am_info_at st (amh_sn header)))
            \<lparr>seg_si = amh_si header, seg_so = amh_so header, seg_payload = payload\<rparr>))"
proof -
  let ?s = "ra_size st" and ?sn = "amh_sn header" and ?i = "am_info_at st (amh_sn header)"
  have win: "am_win ?s (ra_next st) (am_off ?s (ra_next st) (ra_next_highest st)) (ra_window st)"
      "am_off ?s (ra_next st) (ra_next_highest st) \<le> am_W ?s"
    using core by (simp_all add: ra_core_def am_state_def)
  obtain w1 where w1: "ra_get_or_add ?sn (ra_window st) = Some (?i, w1)" "cm_wf (am_to_number ?s - 1) w1"
      "win_at w1 = (win_at (ra_window st))(?sn \<mapsto> ?i)"
    using am_get_or_add[OF win sn(1)] sn(2) by (auto simp: am_inside_off am_info_at_def)
  obtain w' where "win_set w1 ?sn (am_stored header payload ?i) = Some w'" "cm_wf (am_to_number ?s - 1) w'"
      "win_at w' = (win_at w1)(?sn \<mapsto> am_stored header payload ?i)"
    using am_set[OF w1(2), of ?sn "am_stored header payload ?i"] w1(3) by auto
  then show ?thesis
    using w1 by (auto simp: ra_handle_full_data_sdu_def ra_handle_segment_data_sdu_def am_store_segment_def
        am_update_segment_inventory_def am_stored_def Let_def case_prod_beta
        split: if_splits)
qed

lemma ra_inv_of_core:
  assumes "ra_inv st" and "ra_core st'" and "ra_cfg st' = ra_cfg st" and "ra_max_nof_sn st' = ra_max_nof_sn st"
    and "ra_status_writer st' = ra_status_writer st" "ra_status_exchange st' = ra_status_exchange st"
    "ra_status_reader st' = ra_status_reader st"
  shows "ra_inv st'"
  using assms by (simp add: ra_inv_core ra_statuses_ok_def)

lemma ra_handle_data_pdu_spec:
  assumes inv: "ra_inv st" and fits: "am_pdu_fits (ra_size st) buf"
  shows "\<not> ra_timer_set st \<and> ra_handle_data_pdu pool_ok buf st = None
     \<or> (\<exists>st' ev. ra_handle_data_pdu pool_ok buf st = Some (st', ev) \<and> ra_inv st' \<and> ra_cfg st' = ra_cfg st
     \<and> (ra_fresh st \<longrightarrow> ra_fresh st'))"
proof (cases "rlc_am_read_data_pdu_header buf (ra_size st) am_header_zero")
  case None
  then show ?thesis using ra_on_exit_spec[OF inv, of False False] by (auto simp: ra_handle_data_pdu_def)
next
  case (Some header)
  let ?payload = "drop (amh_get_packed_size header) buf" and ?sn = "amh_sn header"
  show ?thesis
  proof (cases "length buf \<le> amh_get_packed_size header \<or> \<not> inside_rx_window st ?sn \<or> am_full (ra_window st) ?sn")
    case True
    then show ?thesis
      using Some ra_on_exit_spec[OF inv, of False False] ra_on_exit_spec[OF inv, of False "amh_p header \<noteq> 0"]
      by (auto simp: ra_handle_data_pdu_def Let_def am_full_def split: option.splits)
  next
    case False
    have bounds: "unat ?sn < 2 ^ am_to_number (ra_size st)" using read_am_header_bounds(1)[OF Some] .
    have core: "ra_core st" using inv by (simp add: ra_inv_core)
    have info: "info_ok (am_info_at st ?sn) \<or> am_info_at st ?sn = am_info_default" "\<not> ai_fully_received (am_info_at st ?sn)"
      using inv False
      by (auto simp: am_info_at_def ra_inv_def am_state_def am_win_def am_full_def am_info_default_def split: option.splits)
    have "info_ok (am_stored header ?payload (am_info_at st ?sn))"
      using am_stored_ok[OF info, of ?payload header] fits False Some by (simp add: am_pdu_fits_def)
    moreover obtain stored w' where store: "(if amh_si header = full_sdu then ra_handle_full_data_sdu header ?payload st
        else ra_handle_segment_data_sdu header ?payload st) = Some (stored, st\<lparr>ra_window := w'\<rparr>)"
        "cm_wf (am_to_number (ra_size st) - 1) w'"
        "win_at w' = (win_at (ra_window st))(?sn \<mapsto> am_stored header ?payload (am_info_at st ?sn))"
      using ra_store_spec[OF core bounds] False by blast
    ultimately consider (unset) "\<not> ra_timer_set st" "ra_placed pool_ok ?sn (st\<lparr>ra_window := w'\<rparr>) = None"
      | (placed) st1 ev1 where "ra_placed pool_ok ?sn (st\<lparr>ra_window := w'\<rparr>) = Some (st1, ev1)" "ra_core st1"
        "ra_cfg st1 = ra_cfg st" "ra_max_nof_sn st1 = ra_max_nof_sn st" "ra_status_writer st1 = ra_status_writer st"
        "ra_status_exchange st1 = ra_status_exchange st" "ra_status_reader st1 = ra_status_reader st"
        "ra_do_status st1 = ra_do_status st"
      using ra_placed_spec[OF core bounds _ store(2,3), of pool_ok] False by auto
    then show ?thesis
    proof cases
      case unset
      then show ?thesis
        using Some False store(1) by (auto simp: ra_handle_data_pdu_def Let_def am_full_def split: option.splits)
    next
      case placed
      have inv1: "ra_inv st1" by (rule ra_inv_of_core[OF inv placed(2-7)])
      have "ra_fresh st \<longrightarrow> ra_fresh st1" using placed(3,6,8) by (simp add: ra_fresh_def)
      moreover obtain st2 ev2 where "ra_on_exit stored (amh_p header \<noteq> 0) st1 = Some (st2, ev2)" "ra_inv st2" "ra_cfg st2 = ra_cfg st1"
          "ra_fresh st1 \<longrightarrow> ra_fresh st2"
        using ra_on_exit_spec[OF inv1] by blast
      ultimately show ?thesis
        using Some False store(1) placed(1,3)
        by (auto simp: ra_handle_data_pdu_def Let_def am_full_def split: option.splits)
    qed
  qed
qed

lemma ra_expire_spec:
  assumes inv: "ra_inv st" and running: "ra_timer_running st"
  shows "\<not> ra_timer_set st \<and> ra_on_expired_reassembly_timer (st\<lparr>ra_timer_running := False\<rparr>) = None
     \<or> (\<exists>st' ev. ra_on_expired_reassembly_timer (st\<lparr>ra_timer_running := False\<rparr>) = Some (st', ev) \<and> ra_inv st' \<and> ra_cfg st' = ra_cfg st
     \<and> ra_fresh st')"
proof -
  let ?s = "ra_size st" and ?nxt = "ra_next st" and ?hi = "ra_next_highest st" and ?t = "ra_status_trigger st"
  let ?st0 = "st\<lparr>ra_timer_running := False\<rparr>"
  define sn where "sn = am_status_loop ?s ?nxt ?hi ?t (ra_window st)"
  have timer: "am_timer ?s ?nxt ?hi ?t (ra_window st)" and state: "am_state {} ?s ?nxt (ra_highest_status st) ?hi (ra_window st)"
    using inv running by (simp_all add: ra_inv_def)
  have gap: "am_first_gap ?s ?nxt ?hi (ra_window st) ?t sn"
    unfolding sn_def using timer state by (intro am_status_loop_spec) (simp_all add: am_timer_def am_state_def)
  have ack: "valid_ack_sn ?st0 ?t" "valid_ack_sn ?st0 sn"
    using timer state gap by (auto simp: am_valid_ack_off am_timer_def am_state_def am_first_gap_def)
  have state': "am_state {} ?s ?nxt sn ?hi (ra_window st)"
    using state gap by (auto simp: am_state_def am_first_gap_def)
  consider (unset) "\<not> ra_timer_set st" "ra_start_timer sn (?st0\<lparr>ra_highest_status := sn\<rparr>) = None"
    | (start) r t where "ra_start_timer sn (?st0\<lparr>ra_highest_status := sn\<rparr>)
        = Some (?st0\<lparr>ra_highest_status := sn, ra_timer_running := r, ra_status_trigger := t\<rparr>)"
      "r \<longrightarrow> am_timer ?s ?nxt ?hi t (ra_window st)"
    using ra_start_timer_spec[of "?st0\<lparr>ra_highest_status := sn\<rparr>" sn] state' by (auto simp: ra_timer_set_def)
  then show ?thesis
  proof cases
    case unset
    then show ?thesis using ack by (simp add: ra_on_expired_reassembly_timer_def Let_def sn_def[symmetric])
  next
    case (start r t)
    have inv1: "ra_inv (?st0\<lparr>ra_highest_status := sn, ra_timer_running := r, ra_status_trigger := t\<rparr>)"
      using inv state' start(2) by (simp add: ra_inv_def ra_statuses_ok_def)
    show ?thesis
      using ra_refresh_spec[OF inv1] ra_inv_refresh[OF inv1] ack start(1) ra_stop_sn_off(1)[OF inv1]
      by (auto simp: ra_on_expired_reassembly_timer_def Let_def sn_def[symmetric] ra_fresh_def ra_report_exact_def)
  qed
qed

lemma rx_am_new_inv:
  assumes "case rxam_max_sn_per_status cfg of None \<Rightarrow> True
     | Some m \<Rightarrow> 0 < m \<and> m \<le> am_window_size (rxam_sn_field_length cfg)"
  shows "\<exists>st. rx_am_new cfg = Some st \<and> ra_inv st \<and> ra_cfg st = cfg"
proof -
  let ?s = "rxam_sn_field_length cfg"
  obtain w :: "rlc_rx_am_sdu_info circular_map" where w: "cm_init (2 ^ (am_to_number ?s - 1)) = Some w"
      "cm_wf (am_to_number ?s - 1) w" "\<forall>sn. win_at w sn = None"
    using cm_init_pow2 unfolding win_at_def by blast
  have "am_state {} ?s 0 0 0 w"
    using w(2,3) by (simp add: am_state_def am_win_def)
  moreover have "st_cpt (status_pdu_new ?s) = 0" "st_sn_size (status_pdu_new ?s) = ?s"
    by (simp_all add: status_pdu_new_def)
  ultimately show ?thesis
    using assms w(1) am_W(1,3)[of ?s]
    by (auto simp: rx_am_new_def Let_def ra_inv_def ra_statuses_ok_def am_W_def word_less_nat_alt word_le_nat_alt
        split: option.splits)
qed

lemma ra_get_status_pdu_inv: "ra_inv st \<Longrightarrow> ra_inv (snd (ra_get_status_pdu defer_ok st)) \<and> ra_cfg (snd (ra_get_status_pdu defer_ok st)) = ra_cfg st"
  by (auto simp: ra_get_status_pdu_def Let_def ra_inv_def ra_statuses_ok_def)

section \<open>Reachable states\<close>

text \<open>
  PDUs, the expiries of the two timers, the reader of the status report (which trims its copy to the
  grant) and the stop of the entity.  An expiry stops the timer and runs its handler.
\<close>

inductive ra_reachable :: "rlc_rx_am_config \<Rightarrow> rlc_rx_am \<Rightarrow> bool" for cfg where
  ra_init: "rx_am_new cfg = Some st \<Longrightarrow> ra_reachable cfg st"
| ra_pdu: "ra_reachable cfg st \<Longrightarrow> am_pdu_fits (rxam_sn_field_length cfg) buf
     \<Longrightarrow> ra_handle_pdu pool_ok buf st = Some (st', ev) \<Longrightarrow> ra_reachable cfg st'"
| ra_reassembly: "ra_reachable cfg st \<Longrightarrow> ra_timer_running st
     \<Longrightarrow> ra_on_expired_reassembly_timer (st\<lparr>ra_timer_running := False\<rparr>) = Some (st', ev) \<Longrightarrow> ra_reachable cfg st'"
| ra_prohibit: "ra_reachable cfg st \<Longrightarrow> ra_reachable cfg (fst (ra_on_expired_status_prohibit_timer st))"
| ra_read: "ra_reachable cfg st \<Longrightarrow> ra_reachable cfg (snd (ra_get_status_pdu defer_ok st))"
| ra_trim: "ra_reachable cfg st
     \<Longrightarrow> ra_reachable cfg (st\<lparr>ra_status_reader := snd (trim (ra_status_reader st) max_size)\<rparr>)"
| ra_stopping: "ra_reachable cfg st \<Longrightarrow> ra_reachable cfg (ra_stop st)"

inductive_cases ra_reachableE: "ra_reachable cfg st"

lemma trim_fields: "st_cpt (snd (trim st m)) = st_cpt st" "st_sn_size (snd (trim st m)) = st_sn_size st"
proof -
  have "st_cpt (trim_loop m st) = st_cpt st \<and> st_sn_size (trim_loop m st) = st_sn_size st"
  proof (induction m st rule: trim_loop.induct)
    case (1 m st)
    then show ?case by (subst (1 2) trim_loop.simps) simp
  qed
  then show "st_cpt (snd (trim st m)) = st_cpt st" "st_sn_size (snd (trim st m)) = st_sn_size st"
    by (simp_all add: trim_def)
qed

lemma trim_ok: "status_ok st \<Longrightarrow> status_ok (snd (trim st m))"
  using trim_loop_spec[of st m] by (auto simp: trim_def trimmed_def not_less)

lemma rx_am_new_cfg: "rx_am_new cfg = Some st \<Longrightarrow> ra_inv st \<and> ra_cfg st = cfg"
proof -
  assume new: "rx_am_new cfg = Some st"
  then have "case rxam_max_sn_per_status cfg of None \<Rightarrow> True
     | Some m \<Rightarrow> 0 < m \<and> m \<le> am_window_size (rxam_sn_field_length cfg)"
    by (auto simp: rx_am_new_def Let_def split: option.splits if_splits)
  then show ?thesis using rx_am_new_inv[of cfg] new by auto
qed

lemma ra_handle_pdu_spec:
  assumes "ra_inv st" and "am_pdu_fits (ra_size st) buf"
  shows "\<not> ra_timer_set st \<and> ra_handle_pdu pool_ok buf st = None
     \<or> (\<exists>st' ev. ra_handle_pdu pool_ok buf st = Some (st', ev) \<and> ra_inv st' \<and> ra_cfg st' = ra_cfg st
     \<and> (ra_fresh st \<longrightarrow> ra_fresh st'))"
  using ra_handle_data_pdu_spec[OF assms, of pool_ok] assms(1)
  by (auto simp: ra_handle_pdu_def ra_handle_control_pdu_def split: option.splits)

lemma ra_reachable_inv: "ra_reachable cfg st \<Longrightarrow> ra_inv st \<and> ra_cfg st = cfg"
proof (induction rule: ra_reachable.induct)
  case (ra_init st)
  then show ?case by (rule rx_am_new_cfg)
next
  case (ra_pdu st buf pool_ok st' ev)
  then show ?case using ra_handle_pdu_spec[of st buf pool_ok] by auto
next
  case (ra_reassembly st st' ev)
  then show ?case using ra_expire_spec[of st] by auto
next
  case (ra_prohibit st)
  then show ?case by (auto simp: ra_on_expired_status_prohibit_timer_def Let_def ra_inv_def ra_statuses_ok_def)
next
  case (ra_read st defer_ok)
  then show ?case using ra_get_status_pdu_inv[of st defer_ok] by simp
next
  case (ra_trim st max_size)
  then show ?case by (auto simp: ra_inv_def ra_statuses_ok_def trim_fields trim_ok)
next
  case (ra_stopping st)
  then show ?case by (auto simp: ra_stop_def ra_inv_def ra_statuses_ok_def)
qed

lemma ra_reachable_fresh: "ra_reachable cfg st \<Longrightarrow> ra_fresh st"
proof (induction rule: ra_reachable.induct)
  case (ra_init st)
  then show ?case by (auto simp: rx_am_new_def Let_def bind_eq_Some_conv' ra_fresh_def)
next
  case (ra_pdu st buf pool_ok st' ev)
  then show ?case using ra_handle_pdu_spec[of st buf pool_ok] ra_reachable_inv[OF ra_pdu(1)] by auto
next
  case (ra_reassembly st st' ev)
  then show ?case using ra_expire_spec[of st] ra_reachable_inv[OF ra_reassembly(1)] by auto
qed (auto simp: ra_fresh_def ra_on_expired_status_prohibit_timer_def ra_get_status_pdu_def ra_stop_def Let_def)

section \<open>Properties\<close>

definition ra_demo_cfg :: rlc_rx_am_config where
  "ra_demo_cfg = \<lparr>rxam_sn_field_length = am_size12bits, rxam_t_reassembly = 35, rxam_t_status_prohibit = 10,
     rxam_max_sn_per_status = None\<rparr>"

definition ra_demo :: rlc_rx_am where
  "ra_demo = the (rx_am_new ra_demo_cfg)"

lemma ra_demo_new: "rx_am_new ra_demo_cfg = Some ra_demo"
  using rx_am_new_inv[of ra_demo_cfg] by (auto simp: ra_demo_def ra_demo_cfg_def)

lemma ra_demo_reachable: "ra_reachable ra_demo_cfg ra_demo"
  by (rule ra_init[OF ra_demo_new])

lemma ra_demo_size: "ra_size ra_demo = am_size12bits"
  using rx_am_new_cfg[OF ra_demo_new] by (simp add: ra_demo_cfg_def)

lemma ra_demo_fits: "am_pdu_fits (rxam_sn_field_length ra_demo_cfg) [0xC0, 1, 2]"
  by (simp add: am_pdu_fits_def ra_demo_cfg_def am_demo_read)
    (simp add: am_header_zero_def amh_get_packed_size_def)

lemma rx_am_new_empty:
  assumes "rx_am_new cfg = Some st"
  shows "ra_next st = 0" "ra_highest_status st = 0" "ra_next_highest st = 0" "win_at (ra_window st) sn = None"
proof -
  let ?s = "rxam_sn_field_length cfg"
  obtain w :: "rlc_rx_am_sdu_info circular_map" where w: "cm_init (2 ^ (am_to_number ?s - 1)) = Some w"
      "\<forall>sn. win_at w sn = None"
    using cm_init_pow2 unfolding win_at_def by blast
  show "ra_next st = 0" "ra_highest_status st = 0" "ra_next_highest st = 0" "win_at (ra_window st) sn = None"
    using assms w am_W(3)[of ?s] by (auto simp: rx_am_new_def Let_def am_W_def split: option.splits if_splits)
qed

text \<open>No assertion of the acknowledged-mode receiver fails if \<open>t-Reassembly\<close> is positive, so that its timer
  has a duration: in every reachable state, for every further PDU whose bytes lie within the 16-bit range
  of segment offsets, the PDU handler returns, and if the reassembly timer is running its expiry handler
  returns.  This covers the unchecked access to \<open>rx_window[rx_next]\<close>, the variant checks and offset checks
  of the status report and the check of \<open>RX_Highest_Status\<close>.\<close>

theorem am_rx_never_asserts:
  assumes "ra_reachable cfg st" and "am_pdu_fits (rxam_sn_field_length cfg) buf" and "0 < rxam_t_reassembly cfg"
  shows "(\<exists>st' ev. ra_handle_pdu pool_ok buf st = Some (st', ev))
     \<and> (ra_timer_running st \<longrightarrow> (\<exists>st' ev. ra_on_expired_reassembly_timer (st\<lparr>ra_timer_running := False\<rparr>) = Some (st', ev)))"
  using ra_reachable_inv[OF assms(1)] ra_handle_pdu_spec[of st buf pool_ok] ra_expire_spec[of st] assms(2,3)
  by (auto simp: ra_timer_set_def)

theorem am_rx_never_asserts_witness:
  "\<exists>st' ev. ra_handle_pdu True [0xC0, 1, 2] ra_demo = Some (st', ev)"
  using am_rx_never_asserts[OF ra_demo_reachable ra_demo_fits, of True] by (simp add: ra_demo_cfg_def)

text \<open>The state variables of the acknowledged-mode receiver are always ordered: relative to
  \<open>RX_Next\<close>, \<open>RX_Highest_Status\<close> is at most \<open>RX_Next_Highest\<close>, which is at most the window size; every SDU
  held lies in \<open>RX_Next \<le> SN < RX_Next_Highest\<close>; and the SDUs with sequence numbers \<open>RX_Next\<close> and
  \<open>RX_Highest_Status\<close> are not completely received unless they equal \<open>RX_Next_Highest\<close>.\<close>

theorem am_rx_state_ordered:
  assumes "ra_reachable cfg st"
  shows "rx_mod_base st (ra_highest_status st) \<le> rx_mod_base st (ra_next_highest st)
     \<and> rx_mod_base st (ra_next_highest st) \<le> am_window_size (ra_size st)
     \<and> (\<forall>sn. has_sn (ra_window st) sn \<longrightarrow> rx_mod_base st sn < rx_mod_base st (ra_next_highest st))
     \<and> (\<forall>sn \<in> {ra_next st, ra_highest_status st}. sn = ra_next_highest st \<or> \<not> am_full (ra_window st) sn)
     \<and> cm_size (ra_window st) \<le> unat (am_window_size (ra_size st))"
proof -
  have inv: "am_state {} (ra_size st) (ra_next st) (ra_highest_status st) (ra_next_highest st) (ra_window st)"
    using ra_reachable_inv[OF assms, THEN conjunct1] unfolding ra_inv_def by blast
  have "cm_size (ra_window st) \<le> am_W (ra_size st)"
    using inv win.nof_bound[of "am_to_number (ra_size st) - 1" "ra_window st"] by (simp add: am_state_def am_win_def am_W_def)
  moreover have "rx_mod_base st (ra_next_highest st) \<le> am_window_size (ra_size st)"
    using inv by (simp add: am_state_def word_le_nat_alt unat_am_base am_W)
  ultimately show ?thesis
    using inv by (auto simp: am_state_def am_win_def am_base_le am_base_less has_sn_win_at am_W)
qed

theorem am_rx_state_ordered_witness:
  "rx_mod_base ra_demo (ra_highest_status ra_demo) \<le> rx_mod_base ra_demo (ra_next_highest ra_demo)
     \<and> rx_mod_base ra_demo (ra_next_highest ra_demo) \<le> am_window_size (ra_size ra_demo)
     \<and> cm_size (ra_window ra_demo) \<le> unat (am_window_size (ra_size ra_demo))"
  using am_rx_state_ordered[OF ra_demo_reachable] by blast

text \<open>C16: The status report is exact.  In every reachable state refreshing the status report succeeds,
  and the report put up for the transmitter acknowledges up to a sequence number between \<open>RX_Next\<close> and
  \<open>RX_Highest_Status\<close>; below it, it reports as missing exactly the bytes that have not been received
  (all bytes of SDUs of which nothing arrived, the gaps between segments, and the rest behind the last
  segment unless the end of the SDU is known).  A peer that decodes the encoded report gets exactly this
  status object.\<close>

theorem am_status_report_exact:
  assumes "ra_reachable cfg st"
  shows "\<exists>st' status. ra_refresh_status_report st = Some st' \<and> ra_status_exchange st' = status
     \<and> ra_get_status_pdu_length st' = st_packed_size status
     \<and> st_ack_sn status = ra_stop_sn st
     \<and> rx_mod_base st (ra_stop_sn st) \<le> rx_mod_base st (ra_highest_status st)
     \<and> status_missing status = {(sn, off). unat sn < 2 ^ am_to_number (ra_size st)
          \<and> rx_mod_base st sn < rx_mod_base st (ra_stop_sn st) \<and> off \<le> 65535 \<and> \<not> am_has (ra_window st) sn off}
     \<and> unpack (status_pdu_new (ra_size st)) (pack status) = Some status"
proof -
  have inv: "ra_inv st" using ra_reachable_inv[OF assms] by simp
  obtain status where s: "ra_refresh_status_report st = Some (st\<lparr>ra_status_writer := ra_status_exchange st,
       ra_status_exchange := status, ra_status_size := st_packed_size status\<rparr>)" "ra_report_exact st status"
    using ra_refresh_spec[OF inv] by blast
  have "unpack (status_pdu_new (ra_size st)) (pack status) = Some status"
    using s(2) ra_stop_sn_off(1)[OF inv] unpack_pack_12bit[of status "status_pdu_new (ra_size st)"]
      unpack_pack_18bit[of status "status_pdu_new (ra_size st)"]
    by (cases "ra_size st") (auto simp: ra_report_exact_def unpack_def pack_def status_pdu_new_def status_ok_def)
  moreover have "rx_mod_base st (ra_stop_sn st) \<le> rx_mod_base st (ra_highest_status st)"
    using ra_stop_sn_off(2)[OF inv] by (simp add: am_base_le)
  ultimately show ?thesis
    using s by (simp add: ra_report_exact_def ra_get_status_pdu_length_def)
qed

theorem am_status_report_exact_witness:
  "\<exists>st' status. ra_refresh_status_report ra_demo = Some st' \<and> ra_status_exchange st' = status
     \<and> ra_get_status_pdu_length st' = st_packed_size status
     \<and> st_ack_sn status = ra_stop_sn ra_demo
     \<and> rx_mod_base ra_demo (ra_stop_sn ra_demo) \<le> rx_mod_base ra_demo (ra_highest_status ra_demo)
     \<and> status_missing status = {(sn, off). unat sn < 2 ^ am_to_number (ra_size ra_demo)
          \<and> rx_mod_base ra_demo sn < rx_mod_base ra_demo (ra_stop_sn ra_demo) \<and> off \<le> 65535
          \<and> \<not> am_has (ra_window ra_demo) sn off}
     \<and> unpack (status_pdu_new (ra_size ra_demo)) (pack status) = Some status"
  by (rule am_status_report_exact[OF ra_demo_reachable])

text \<open>The SDUs among the notifications.\<close>

definition new_sdus :: "rlc_rx_am_event list \<Rightarrow> bytes list" where
  "new_sdus ev = concat (map (\<lambda>e. case e of On_new_sdu sdu \<Rightarrow> [sdu] | _ \<Rightarrow> []) ev)"

lemma new_sdus_exit: "set ev \<subseteq> {On_status_report_changed} \<Longrightarrow> new_sdus ev = []"
  by (auto simp: new_sdus_def)

definition am_sdu_bytes :: "rlc_rx_am_sdu_info \<Rightarrow> bytes" where
  "am_sdu_bytes info = (case ai_data info of Sdu_slice payload \<Rightarrow> payload | Sdu_segments segs \<Rightarrow> chain_segments segs)"

text \<open>C25: Delivery of a data PDU in a reachable state: an SDU is handed to the upper layer exactly when
  the PDU lies in the reception window, its SDU was not completely received before and the PDU completes
  it; the SDU handed over is the payload of a complete SDU or the chained segments.  Anything else
  (malformed, empty, outside the window, duplicate, incomplete) delivers nothing.  The handler fails to
  return only if \<open>t-Reassembly\<close> is zero, which leaves its timer without a duration.\<close>

theorem am_rx_delivery:
  assumes "ra_reachable cfg st" and "am_pdu_fits (rxam_sn_field_length cfg) buf"
  shows "case ra_handle_data_pdu True buf st of None \<Rightarrow> rxam_t_reassembly cfg \<le> 0
     | Some (st', ev) \<Rightarrow>
       new_sdus ev = (case rlc_am_read_data_pdu_header buf (ra_size st) am_header_zero of None \<Rightarrow> []
        | Some h \<Rightarrow> let info = am_stored h (drop (amh_get_packed_size h) buf) (am_info_at st (amh_sn h)) in
            if amh_get_packed_size h < length buf \<and> inside_rx_window st (amh_sn h)
               \<and> \<not> am_full (ra_window st) (amh_sn h) \<and> ai_fully_received info
            then [am_sdu_bytes info] else [])"
proof (cases "rlc_am_read_data_pdu_header buf (ra_size st) am_header_zero")
  case None
  have inv: "ra_inv st" using ra_reachable_inv[OF assms(1)] by simp
  from None show ?thesis
    using ra_on_exit_spec[OF inv, of False False] new_sdus_exit by (auto simp: ra_handle_data_pdu_def)
next
  case (Some h)
  have inv: "ra_inv st" and cfg: "ra_cfg st = cfg" using ra_reachable_inv[OF assms(1)] by simp_all
  let ?payload = "drop (amh_get_packed_size h) buf" and ?sn = "amh_sn h"
  let ?info = "am_stored h ?payload (am_info_at st ?sn)"
  show ?thesis
  proof (cases "length buf \<le> amh_get_packed_size h \<or> \<not> inside_rx_window st ?sn \<or> am_full (ra_window st) ?sn")
    case True
    let ?q = "length buf > amh_get_packed_size h \<and> amh_p h \<noteq> 0"
    have "ra_handle_data_pdu True buf st = ra_on_exit False ?q st"
      using Some True by (auto simp: ra_handle_data_pdu_def Let_def am_full_def split: option.splits)
    then show ?thesis
      using ra_on_exit_spec[OF inv, of False ?q] new_sdus_exit True Some by (auto simp: Let_def)
  next
    case False
    have bounds: "unat ?sn < 2 ^ am_to_number (ra_size st)" using read_am_header_bounds(1)[OF Some] .
    have core: "ra_core st" using inv by (simp add: ra_inv_core)
    have "info_ok (am_info_at st ?sn) \<or> am_info_at st ?sn = am_info_default" "\<not> ai_fully_received (am_info_at st ?sn)"
      using inv False
      by (auto simp: am_info_at_def ra_inv_def am_state_def am_win_def am_full_def am_info_default_def split: option.splits)
    then have ok: "info_ok ?info"
      using am_stored_ok[of "am_info_at st ?sn" ?payload h] assms(2) False Some cfg by (simp add: am_pdu_fits_def)
    obtain stored w' where store: "(if amh_si h = full_sdu then ra_handle_full_data_sdu h ?payload st
        else ra_handle_segment_data_sdu h ?payload st) = Some (stored, st\<lparr>ra_window := w'\<rparr>)"
        "cm_wf (am_to_number (ra_size st) - 1) w'" "win_at w' = (win_at (ra_window st))(?sn \<mapsto> ?info)"
      using ra_store_spec[OF core bounds] False by blast
    consider (unset) "\<not> ra_timer_set st" "ra_placed True ?sn (st\<lparr>ra_window := w'\<rparr>) = None"
      | (placed) st1 where "ra_placed True ?sn (st\<lparr>ra_window := w'\<rparr>)
          = Some (st1, if ai_fully_received ?info then [On_new_sdu (am_sdu_bytes ?info)] else [])" "ra_core st1"
        "ra_cfg st1 = ra_cfg st" "ra_max_nof_sn st1 = ra_max_nof_sn st" "ra_status_writer st1 = ra_status_writer st"
        "ra_status_exchange st1 = ra_status_exchange st" "ra_status_reader st1 = ra_status_reader st"
      using ra_placed_spec[OF core bounds _ store(2,3) ok, of True] False by (auto simp: am_sdu_bytes_def)
    then show ?thesis
    proof cases
      case unset
      then show ?thesis
        using Some False store(1) cfg by (auto simp: ra_handle_data_pdu_def ra_timer_set_def Let_def am_full_def split: option.splits)
    next
      case placed
      have inv1: "ra_inv st1" by (rule ra_inv_of_core[OF inv placed(2-7)])
      obtain st2 ev2 where exit: "ra_on_exit stored (amh_p h \<noteq> 0) st1 = Some (st2, ev2)" "set ev2 \<subseteq> {On_status_report_changed}"
        using ra_on_exit_spec[OF inv1] by blast
      then have "ra_handle_data_pdu True buf st
          = Some (st2, (if ai_fully_received ?info then [On_new_sdu (am_sdu_bytes ?info)] else []) @ ev2)"
        using Some False store(1) placed(1)
        by (auto simp: ra_handle_data_pdu_def Let_def am_full_def split: option.splits)
      then show ?thesis
        using Some False new_sdus_exit[OF exit(2)] by (auto simp: Let_def new_sdus_def)
    qed
  qed
qed

theorem am_rx_delivery_witness:
  "\<exists>st' ev. ra_handle_data_pdu True [0xC0, 1, 2] ra_demo = Some (st', ev) \<and> new_sdus ev = [[2]]"
proof -
  let ?h = "am_header_zero\<lparr>amh_dc := dc_data, amh_p := 1, amh_sn := 1\<rparr>"
  have inside: "inside_rx_window ra_demo 1" and nf: "\<not> am_full (ra_window ra_demo) 1"
  proof -
    have "ra_next ra_demo = 0" "win_at (ra_window ra_demo) 1 = None"
      using rx_am_new_empty[OF ra_demo_new] by blast+
    then show "inside_rx_window ra_demo 1" "\<not> am_full (ra_window ra_demo) 1"
      by (simp_all add: am_inside_off sn_off_def am_W_def ra_demo_size am_full_def)
  qed
  have info: "am_sdu_bytes (am_stored ?h [2] i) = [2]" "ai_fully_received (am_stored ?h [2] i)" "amh_get_packed_size ?h = 2" for i
    by (simp_all add: am_stored_def am_sdu_bytes_def am_header_zero_def amh_get_packed_size_def)
  from am_rx_delivery[OF ra_demo_reachable ra_demo_fits] show ?thesis
    using inside nf info
    by (simp add: ra_demo_size am_demo_read ra_demo_cfg_def Let_def split: option.splits prod.splits)
qed

section \<open>The timer without a duration\<close>

lemma ra_update_next_highest_fields [simp]:
  "ra_cfg (ra_update_next_highest sn st) = ra_cfg st" "ra_next (ra_update_next_highest sn st) = ra_next st"
  "ra_timer_running (ra_update_next_highest sn st) = ra_timer_running st"
  by (simp_all add: ra_update_next_highest_def)

lemma ra_fully_received_fields:
  assumes "ra_fully_received pool_ok sn info st = Some (st', ev)"
  shows "ra_cfg st' = ra_cfg st" "ra_timer_running st' = ra_timer_running st" "ra_next_highest st' = ra_next_highest st"
    "rx_mod_base st sn \<noteq> rx_mod_base st (ra_next st) \<Longrightarrow> ra_next st' = ra_next st"
  using assms by (auto simp: ra_fully_received_def Let_def bind_eq_Some_conv' split: if_splits)

text \<open>Placing an SDU other than that of \<open>RX_Next\<close> keeps \<open>RX_Next\<close>; without a timer only the check of the last step fails.\<close>

lemma ra_placed_unset:
  assumes "ra_placed pool_ok sn st = Some (st', ev)" and unset: "\<not> ra_timer_set st" and nr: "\<not> ra_timer_running st"
  shows "\<not> ra_timer_running st'"
    and "rx_mod_base st sn \<noteq> rx_mod_base st (ra_next st)
      \<Longrightarrow> am_off (ra_size st) (ra_next st) (ra_next_highest (ra_update_next_highest sn st)) \<le> 1"
proof -
  let ?st1 = "ra_update_next_highest sn st"
  obtain st2 where mid: "(case win_at (ra_window ?st1) sn of
         Some info \<Rightarrow> if ai_fully_received info then ra_fully_received pool_ok sn info ?st1 else Some (?st1, [])
       | None \<Rightarrow> Some (?st1, [])) = Some (st2, ev)"
      "bind (ra_stop_timer st2) (\<lambda>st. if \<not> ra_timer_running st then ra_start_timer (ra_next st) st else Some st) = Some st'"
    using assms(1) by (auto simp: ra_placed_def Let_def bind_eq_Some_conv')
  have fields: "ra_cfg st2 = ra_cfg st" "\<not> ra_timer_running st2" "ra_next_highest st2 = ra_next_highest ?st1"
      "rx_mod_base st sn \<noteq> rx_mod_base st (ra_next st) \<Longrightarrow> ra_next st2 = ra_next st"
    using mid(1) nr ra_fully_received_fields[of pool_ok sn _ ?st1 st2 ev] by (auto split: option.splits if_splits)
  then have start: "ra_start_timer (ra_next st2) st2 = Some st'"
    using mid(2) by (simp add: ra_stop_timer_def)
  then show "\<not> ra_timer_running st'"
    using unset fields(1,2) by (auto simp: ra_start_timer_def ra_timer_set_def split: if_splits)
  assume "rx_mod_base st sn \<noteq> rx_mod_base st (ra_next st)"
  then show "am_off (ra_size st) (ra_next st) (ra_next_highest ?st1) \<le> 1"
    using start unset fields by (auto simp: ra_start_timer_def ra_timer_set_def am_base_less am_off_next1 split: if_splits)
qed

lemma ra_on_exit_timer: "ra_on_exit c r st = Some (st', ev) \<Longrightarrow> ra_timer_running st' = ra_timer_running st"
  by (auto simp: ra_on_exit_def ra_refresh_status_report_def ra_store_status_report_def Let_def bind_eq_Some_conv' split: if_splits)

text \<open>A data PDU that is not dropped is placed.\<close>

lemma ra_handle_data_pdu_placed:
  assumes inv: "ra_inv st" and read: "rlc_am_read_data_pdu_header buf (ra_size st) am_header_zero = Some h"
    and inside: "amh_get_packed_size h < length buf" "inside_rx_window st (amh_sn h)" "\<not> am_full (ra_window st) (amh_sn h)"
  shows "\<exists>changed w. ra_handle_data_pdu pool_ok buf st = Option.bind (ra_placed pool_ok (amh_sn h) (st\<lparr>ra_window := w\<rparr>))
     (\<lambda>(st, ev). Option.bind (ra_on_exit changed (amh_p h \<noteq> 0) st) (\<lambda>(st, ev'). Some (st, ev @ ev')))"
proof -
  let ?payload = "drop (amh_get_packed_size h) buf"
  obtain changed w where store: "(if amh_si h = full_sdu then ra_handle_full_data_sdu h ?payload st
      else ra_handle_segment_data_sdu h ?payload st) = Some (changed, st\<lparr>ra_window := w\<rparr>)"
    using ra_store_spec[of st h ?payload] inv read_am_header_bounds(1)[OF read] inside(2) by (auto simp: ra_inv_core)
  have "\<not> (case win_at (ra_window st) (amh_sn h) of None \<Rightarrow> False | Some info \<Rightarrow> ai_fully_received info)"
    using inside(3) by (auto simp: am_full_def split: option.splits)
  then have "ra_handle_data_pdu pool_ok buf st = Option.bind (ra_placed pool_ok (amh_sn h) (st\<lparr>ra_window := w\<rparr>))
     (\<lambda>(st, ev). Option.bind (ra_on_exit changed (amh_p h \<noteq> 0) st) (\<lambda>(st, ev'). Some (st, ev @ ev')))"
    using read inside(1,2) store by (simp add: ra_handle_data_pdu_def Let_def)
  then show ?thesis by blast
qed

text \<open>A timer without a duration never runs.\<close>

lemma ra_data_unset:
  assumes "ra_inv st" and "\<not> ra_timer_set st" and "\<not> ra_timer_running st" and "ra_handle_data_pdu pool_ok buf st = Some (st', ev)"
  shows "\<not> ra_timer_running st'"
proof (cases "\<exists>h. rlc_am_read_data_pdu_header buf (ra_size st) am_header_zero = Some h \<and> amh_get_packed_size h < length buf
    \<and> inside_rx_window st (amh_sn h) \<and> \<not> am_full (ra_window st) (amh_sn h)")
  case True
  then obtain h where "rlc_am_read_data_pdu_header buf (ra_size st) am_header_zero = Some h" "amh_get_packed_size h < length buf"
      "inside_rx_window st (amh_sn h)" "\<not> am_full (ra_window st) (amh_sn h)"
    by blast
  then obtain changed w where "Option.bind (ra_placed pool_ok (amh_sn h) (st\<lparr>ra_window := w\<rparr>))
      (\<lambda>(st, ev). Option.bind (ra_on_exit changed (amh_p h \<noteq> 0) st) (\<lambda>(st, ev'). Some (st, ev @ ev'))) = Some (st', ev)"
    using ra_handle_data_pdu_placed[OF assms(1), of buf h pool_ok] assms(4) by auto
  then obtain st1 ev1 ev2 where "ra_placed pool_ok (amh_sn h) (st\<lparr>ra_window := w\<rparr>) = Some (st1, ev1)"
      "ra_on_exit changed (amh_p h \<noteq> 0) st1 = Some (st', ev2)"
    by (auto simp: bind_eq_Some_conv')
  then show ?thesis
    using assms(2,3) ra_placed_unset(1)[of pool_ok "amh_sn h" "st\<lparr>ra_window := w\<rparr>" st1 ev1] ra_on_exit_timer
    by (simp add: ra_timer_set_def)
next
  case False
  then obtain r where "ra_on_exit False r st = Some (st', ev)"
    using assms(4) by (auto simp: ra_handle_data_pdu_def Let_def am_full_def not_less split: option.splits if_splits)
  then show ?thesis using ra_on_exit_timer assms(3) by blast
qed

lemma ra_unset_never_runs: "ra_reachable cfg st \<Longrightarrow> rxam_t_reassembly cfg \<le> 0 \<Longrightarrow> \<not> ra_timer_running st"
proof (induction rule: ra_reachable.induct)
  case (ra_pdu st buf pool_ok st' ev)
  then show ?case
    using ra_data_unset[of st pool_ok buf st' ev] ra_reachable_inv[OF ra_pdu(1)]
    by (auto simp: ra_handle_pdu_def ra_handle_control_pdu_def ra_timer_set_def split: if_splits option.splits)
qed (auto simp: rx_am_new_def ra_on_expired_status_prohibit_timer_def ra_get_status_pdu_def ra_stop_def
    Let_def bind_eq_Some_conv')

text \<open>C33: A zero \<open>t-Reassembly\<close>, a value of its range, makes the receiver fail an assertion as soon as
  an SDU overtakes another one.  The constructor leaves the timer without a duration, but the first data
  PDU that is placed in the window behind \<open>RX_Next\<close> (of any payload, complete or a segment, in any state
  reached) starts it, and the assertion of the timer that a duration is set fails.\<close>

theorem am_zero_reassembly_fails:
  assumes "ra_reachable cfg st" and "rxam_t_reassembly cfg \<le> 0"
    and "rlc_am_read_data_pdu_header buf (ra_size st) am_header_zero = Some h" and "\<not> is_control_pdu buf"
    and "amh_get_packed_size h < length buf" and "inside_rx_window st (amh_sn h)" and "\<not> am_full (ra_window st) (amh_sn h)"
    and "amh_sn h \<noteq> ra_next st"
  shows "ra_handle_pdu pool_ok buf st = None"
proof -
  let ?s = "ra_size st"
  have inv: "ra_inv st" and unset: "\<not> ra_timer_set st" and nr: "\<not> ra_timer_running st"
    using ra_reachable_inv[OF assms(1)] ra_unset_never_runs[OF assms(1,2)] assms(2) by (auto simp: ra_timer_set_def)
  obtain changed w where data: "ra_handle_data_pdu pool_ok buf st
      = Option.bind (ra_placed pool_ok (amh_sn h) (st\<lparr>ra_window := w\<rparr>))
         (\<lambda>(st, ev). Option.bind (ra_on_exit changed (amh_p h \<noteq> 0) st) (\<lambda>(st, ev'). Some (st, ev @ ev')))"
    using ra_handle_data_pdu_placed[OF inv assms(3,5-7)] by blast
  have nxt: "unat (ra_next st) < 2 ^ am_to_number ?s" using inv by (simp add: ra_inv_def am_state_def)
  then have off: "0 < am_off ?s (ra_next st) (amh_sn h)"
    using am_off_zero[of "amh_sn h" ?s "ra_next st"] read_am_header_bounds(1)[OF assms(3)] assms(8) by simp
  have "am_off ?s (ra_next st) (amh_sn h) < am_W ?s" using assms(6) by (simp add: am_inside_off)
  then have "am_off ?s (ra_next st) (am_inc ?s (amh_sn h)) = am_off ?s (ra_next st) (amh_sn h) + 1"
    using am_W(4)[of ?s] by (simp add: am_off_inc)
  then have "2 \<le> am_off ?s (ra_next st) (ra_next_highest (ra_update_next_highest (amh_sn h) (st\<lparr>ra_window := w\<rparr>)))"
    using off by (simp add: ra_update_next_highest_off)
  then have "ra_placed pool_ok (amh_sn h) (st\<lparr>ra_window := w\<rparr>) = None"
    using ra_placed_unset(2)[of pool_ok "amh_sn h" "st\<lparr>ra_window := w\<rparr>"] unset nr off am_off_zero[OF nxt nxt]
    by (cases "ra_placed pool_ok (amh_sn h) (st\<lparr>ra_window := w\<rparr>)") (auto simp: ra_timer_set_def am_base_eq)
  then show ?thesis
    using data assms(4,5) by (auto simp: ra_handle_pdu_def)
qed

definition ra_demo_zero_cfg :: rlc_rx_am_config where
  "ra_demo_zero_cfg = ra_demo_cfg\<lparr>rxam_t_reassembly := 0\<rparr>"

theorem am_zero_reassembly_fails_witness:
  "\<exists>st. rx_am_new ra_demo_zero_cfg = Some st \<and> ra_handle_pdu True [0xC0, 1, 2] st = None"
proof -
  obtain st where st: "rx_am_new ra_demo_zero_cfg = Some st" "ra_cfg st = ra_demo_zero_cfg"
    using rx_am_new_inv[of ra_demo_zero_cfg] by (auto simp: ra_demo_zero_cfg_def ra_demo_cfg_def)
  have size: "ra_size st = am_size12bits" using st(2) by (simp add: ra_demo_zero_cfg_def ra_demo_cfg_def)
  let ?h = "am_header_zero\<lparr>amh_dc := dc_data, amh_p := 1, amh_sn := 1\<rparr>"
  have h: "rlc_am_read_data_pdu_header [0xC0, 1, 2] (ra_size st) am_header_zero = Some ?h"
      "amh_get_packed_size ?h = 2" "\<not> is_control_pdu [0xC0, 1, 2]"
    using am_demo_read by (simp_all add: size am_header_zero_def amh_get_packed_size_def is_control_pdu_def)
  have "inside_rx_window st 1" "\<not> am_full (ra_window st) 1"
    using rx_am_new_empty[OF st(1)] by (simp_all add: am_inside_off sn_off_def am_W_def size am_full_def)
  then have "ra_handle_pdu True [0xC0, 1, 2] st = None"
    using am_zero_reassembly_fails[OF ra_init[OF st(1)] _ h(1,3)] h(2) rx_am_new_empty(1)[OF st(1)]
    by (simp add: ra_demo_zero_cfg_def)
  then show ?thesis using st(1) by blast
qed

end
