(* ===== verification/Rlc_Tx_Am.thy ===== *)
theory Rlc_Tx_Am
  imports Rlc_Tx_Common Rlc_Retx_Queue Rlc_Rx_Am
begin

text \<open>
  The transmitting side of acknowledged mode, \<open>lib/rlc/rlc_tx_am_entity.cpp\<close> and
  \<open>lib/rlc/rlc_tx_am_entity.h\<close>: queueing and discarding of SDUs, the transmit window, segmentation,
  retransmissions, polling, the evaluation of received status reports and the buffer state.

  The status provider that the entity calls is the receiving side of the same bearer: the operations
  that use it take the receiver state and return it.  \<open>pull_pdu\<close> returns the bytes it writes into the
  grant (none where the C++ method returns 0).  An operation returns \<^const>\<open>None\<close> where the C++ code
  fails an assertion; the unchecked accesses \<open>tx_window[sn]\<close> and \<open>retx_queue.front()\<close> are such places.

  Whether an executor accepts a task is an argument (\<open>defer_ok\<close>, \<open>exec_ok\<close>), and so is the outcome of
  the comparison of two arrival times in the buffer state update (\<open>hol_older\<close>).
\<close>

section \<open>State\<close>

record rlc_tx_am_sdu_info =
  ti_sdu :: bytes
  ti_is_retx :: bool
  ti_pdcp_sn :: "u32 option"
  ti_next_so :: u32
  ti_retx_count :: u32

record rlc_tx_am =
  ta_cfg :: rlc_tx_am_config
  ta_is_srb :: bool
  ta_tx_next_ack :: u32
  ta_tx_next :: u32
  ta_poll_sn :: u32
  ta_pdu_without_poll :: u32
  ta_byte_without_poll :: u32
  ta_sdu_queue :: rlc_sdu_queue
  ta_sn_under_segmentation :: u32
  ta_retx_queue :: rlc_retx_queue
  ta_retx_sn :: u32
  ta_window :: "rlc_tx_am_sdu_info circular_map"
  ta_poll_timer :: bool
  ta_prev_pending_bytes :: u32
  ta_suspend_bs_notif_barring :: bool
  ta_pending_buffer_state :: bool
  ta_stopped_upper :: bool
  ta_stopped_lower :: bool
  ta_max_retx_reached :: bool

abbreviation ta_size :: "rlc_tx_am \<Rightarrow> rlc_am_sn_size" where
  "ta_size st \<equiv> txam_sn_field_length (ta_cfg st)"

definition tx_am_new :: "rlc_tx_am_config \<Rightarrow> bool \<Rightarrow> rlc_tx_am option" where
  "tx_am_new cfg is_srb = (let s = txam_sn_field_length cfg in do {
     w \<leftarrow> cm_init (unat (am_window_size s));
     if txam_pdcp_sn_len cfg = pdcp_size12bits \<or> txam_pdcp_sn_len cfg = pdcp_size18bits
     then Some \<lparr>ta_cfg = cfg, ta_is_srb = is_srb, ta_tx_next_ack = 0, ta_tx_next = 0, ta_poll_sn = 0,
       ta_pdu_without_poll = 0, ta_byte_without_poll = 0,
       ta_sdu_queue = sq_new (txam_queue_size cfg) (txam_queue_size_bytes cfg),
       ta_sn_under_segmentation = INVALID_RLC_SN, ta_retx_queue = rq_new (unat (am_window_size s)),
       ta_retx_sn = INVALID_RLC_SN, ta_window = w, ta_poll_timer = False, ta_prev_pending_bytes = 0,
       ta_suspend_bs_notif_barring = True, ta_pending_buffer_state = False,
       ta_stopped_upper = False, ta_stopped_lower = False, ta_max_retx_reached = False\<rparr>
     else None
   })"

definition ta_stop :: "bool \<Rightarrow> rlc_tx_am \<Rightarrow> rlc_tx_am" where
  "ta_stop exec_ok st = (if \<not> ta_stopped_upper st
     then (let st = st\<lparr>ta_stopped_upper := True\<rparr>
           in if exec_ok then st\<lparr>ta_stopped_lower := True, ta_poll_timer := False\<rparr> else st)
     else st)"

text \<open>Comparisons relative to \<open>TX_Next_Ack\<close>.\<close>

abbreviation tx_mod_base :: "rlc_tx_am \<Rightarrow> u32 \<Rightarrow> u32" where
  "tx_mod_base st \<equiv> am_base (ta_size st) (ta_tx_next_ack st)"

definition head_min_size :: "rlc_tx_am \<Rightarrow> nat" where
  "head_min_size st = rlc_am_pdu_header_min_size (ta_size st)"

definition head_max_size :: "rlc_tx_am \<Rightarrow> nat" where
  "head_max_size st = rlc_am_pdu_header_max_size (ta_size st)"

definition inside_tx_window :: "rlc_tx_am \<Rightarrow> u32 \<Rightarrow> bool" where
  "inside_tx_window st sn \<longleftrightarrow> tx_mod_base st sn < am_window_size (ta_size st)"

definition is_tx_window_full :: "rlc_tx_am \<Rightarrow> bool" where
  "is_tx_window_full st \<longleftrightarrow> cm_full (ta_window st)
     \<or> txam_max_window (ta_cfg st) \<noteq> 0 \<and> tx_mod_base st (ta_tx_next st) > txam_max_window (ta_cfg st)"

definition ta_valid_ack_sn :: "rlc_tx_am \<Rightarrow> u32 \<Rightarrow> bool" where
  "ta_valid_ack_sn st sn \<longleftrightarrow> 0 < tx_mod_base st sn \<and> tx_mod_base st sn \<le> am_window_size (ta_size st)"

section \<open>SDUs from the upper layer\<close>

definition ta_handle_changed_buffer_state :: "bool \<Rightarrow> rlc_tx_am \<Rightarrow> rlc_tx_am \<times> rlc_tx_event list" where
  "ta_handle_changed_buffer_state defer_ok st =
     (let (pending, ev) = trigger_update defer_ok (ta_pending_buffer_state st)
      in (st\<lparr>ta_pending_buffer_state := pending\<rparr>, ev))"

definition ta_handle_sdu :: "bool \<Rightarrow> bytes \<Rightarrow> bool \<Rightarrow> rlc_tx_am \<Rightarrow> rlc_tx_am \<times> rlc_tx_event list" where
  "ta_handle_sdu defer_ok sdu_buf0 is_retx st =
     (let sdu = \<lparr>sdu_buf = sdu_buf0, sdu_is_retx = is_retx \<and> \<not> ta_is_srb st,
            sdu_pdcp_sn = get_pdcp_sn sdu_buf0 (txam_pdcp_sn_len (ta_cfg st)) (ta_is_srb st)\<rparr>;
          (written, q) = sq_write (ta_sdu_queue st) sdu
      in if written then ta_handle_changed_buffer_state defer_ok (st\<lparr>ta_sdu_queue := q\<rparr>)
         else (st\<lparr>ta_sdu_queue := q\<rparr>, []))"

definition ta_discard_sdu :: "bool \<Rightarrow> u32 \<Rightarrow> rlc_tx_am \<Rightarrow> rlc_tx_am \<times> rlc_tx_event list" where
  "ta_discard_sdu defer_ok pdcp_sn st =
     (let (discarded, q) = sq_try_discard (ta_sdu_queue st) pdcp_sn
      in if discarded then ta_handle_changed_buffer_state defer_ok (st\<lparr>ta_sdu_queue := q\<rparr>)
         else (st\<lparr>ta_sdu_queue := q\<rparr>, []))"

definition ta_on_status_report_changed :: "bool \<Rightarrow> rlc_tx_am \<Rightarrow> rlc_tx_am \<times> rlc_tx_event list" where
  "ta_on_status_report_changed defer_ok st = ta_handle_changed_buffer_state defer_ok st"

section \<open>Polling\<close>

text \<open>Whether, after the PDU, nothing is left to transmit or nothing new can be transmitted.\<close>

definition ta_nothing_to_send :: "rlc_tx_am \<Rightarrow> bool" where
  "ta_nothing_to_send st \<longleftrightarrow>
     (sq_is_empty (ta_sdu_queue st) \<and> rq_empty (ta_retx_queue st) \<and> ta_sn_under_segmentation st = INVALID_RLC_SN)
     \<or> is_tx_window_full st"

definition get_polling_bit :: "u32 \<Rightarrow> bool \<Rightarrow> u32 \<Rightarrow> rlc_tx_am \<Rightarrow> u8 \<times> rlc_tx_am" where
  "get_polling_bit sn is_retx payload_size st =
     (let st = (if \<not> is_retx then st\<lparr>ta_pdu_without_poll := ta_pdu_without_poll st + 1,
                                      ta_byte_without_poll := ta_byte_without_poll st + payload_size\<rparr> else st);
          cfg = ta_cfg st;
          poll = (\<not> is_retx
              \<and> (txam_poll_pdu cfg > 0 \<and> ta_pdu_without_poll st \<ge> word_of_int (txam_poll_pdu cfg)
                 \<or> txam_poll_byte cfg > 0 \<and> ta_byte_without_poll st \<ge> word_of_int (txam_poll_byte cfg))
            \<or> ta_nothing_to_send st);
          st = (if poll then st\<lparr>ta_pdu_without_poll := 0, ta_byte_without_poll := 0\<rparr> else st);
          st = (if poll \<and> \<not> is_retx then st\<lparr>ta_poll_sn := sn\<rparr> else st);
          st = (if poll \<and> txam_t_poll_retx cfg > 0 \<and> \<not> ta_stopped_lower st then st\<lparr>ta_poll_timer := True\<rparr> else st)
      in (if poll then 1 else 0, st))"

section \<open>Building PDUs\<close>

definition ta_data_header :: "rlc_tx_am \<Rightarrow> u8 \<Rightarrow> rlc_si_field \<Rightarrow> u32 \<Rightarrow> u16 \<Rightarrow> rlc_am_pdu_header" where
  "ta_data_header st p si sn so = \<lparr>amh_dc = dc_data, amh_p = p, amh_si = si, amh_sn_size = ta_size st,
     amh_sn = sn, amh_so = so\<rparr>"

text \<open>\<open>copy_segments(byte_buffer_view{sdu, so, len}, span)\<close>: as many bytes as fit.\<close>

definition copy_view :: "bytes \<Rightarrow> nat \<Rightarrow> nat \<Rightarrow> nat \<Rightarrow> bytes" where
  "copy_view sdu so len space = take space (take len (drop so sdu))"

definition build_first_sdu_segment :: "nat \<Rightarrow> rlc_tx_am \<Rightarrow> (bytes \<times> rlc_tx_am) option" where
  "build_first_sdu_segment grant_len st = do {
     info \<leftarrow> win_at (ta_window st) (ta_tx_next st);
     if length (ti_sdu info) + head_min_size st \<le> grant_len then Some ([], st)
     else if grant_len \<le> head_min_size st then Some ([], st)
     else do {
       let segment_payload_len = (of_nat (grant_len - head_min_size st) :: u32);
       let st = st\<lparr>ta_sn_under_segmentation := ta_tx_next st\<rparr>;
       let (p, st) = get_polling_bit (ta_tx_next st) False segment_payload_len st;
       let hdr = ta_data_header st p first_segment (ta_tx_next st) (ucast (ti_next_so info));
       let header = rlc_am_write_data_pdu_header hdr;
       let payload = copy_view (ti_sdu info) (unat (amh_so hdr)) (unat segment_payload_len) (grant_len - length header);
       if length payload = 0 \<or> length payload \<noteq> unat segment_payload_len then Some ([], st)
       else do {
         w \<leftarrow> win_set (ta_window st) (ta_tx_next st) (info\<lparr>ti_next_so := ti_next_so info + segment_payload_len\<rparr>);
         Some (header @ payload, st\<lparr>ta_window := w\<rparr>)
       }
     }
   }"

text \<open>The argument is the sequence number whose window entry the caller passes by reference.\<close>

definition build_continued_sdu_segment :: "nat \<Rightarrow> u32 \<Rightarrow> rlc_tx_am \<Rightarrow> (bytes \<times> rlc_tx_am) option" where
  "build_continued_sdu_segment grant_len sn st = do {
     info \<leftarrow> win_at (ta_window st) sn;
     if ti_next_so info = 0 then Some ([], st\<lparr>ta_sn_under_segmentation := INVALID_RLC_SN\<rparr>)
     else if unat (ti_next_so info) \<ge> length (ti_sdu info)
     then Some ([], st\<lparr>ta_sn_under_segmentation := INVALID_RLC_SN\<rparr>)
     else if grant_len \<le> head_max_size st then Some ([], st)
     else do {
       let rest_len = (of_nat (length (ti_sdu info)) - ti_next_so info :: u32);
       let more_segments = (unat (rest_len + of_nat (head_max_size st)) > grant_len);
       let si = (if more_segments then middle_segment else last_segment);
       let segment_payload_len = (if more_segments then of_nat (grant_len - head_max_size st) else rest_len);
       let st = (if more_segments then st else st\<lparr>ta_sn_under_segmentation := INVALID_RLC_SN\<rparr>);
       let (p, st) = get_polling_bit (ta_tx_next st) False segment_payload_len st;
       let hdr = ta_data_header st p si (ta_tx_next st) (ucast (ti_next_so info));
       let header = rlc_am_write_data_pdu_header hdr;
       let payload = copy_view (ti_sdu info) (unat (amh_so hdr)) (unat segment_payload_len) (grant_len - length header);
       if length payload = 0 \<or> length payload \<noteq> unat segment_payload_len then Some ([], st)
       else do {
         w \<leftarrow> win_set (ta_window st) sn (info\<lparr>ti_next_so := ti_next_so info + segment_payload_len\<rparr>);
         let st = st\<lparr>ta_window := w\<rparr>;
         Some (header @ payload,
           if si = last_segment then st\<lparr>ta_tx_next := am_inc (ta_size st) (ta_tx_next st)\<rparr> else st)
       }
     }
   }"

text \<open>The polling bit of a complete SDU is computed with the length of the buffer that was moved into
  the window before: zero.\<close>

definition build_new_pdu :: "nat \<Rightarrow> rlc_tx_am \<Rightarrow> (bytes \<times> rlc_tx_am \<times> rlc_tx_event list) option" where
  "build_new_pdu grant_len st =
     (if grant_len \<le> head_min_size st then Some ([], st, [])
      else if is_tx_window_full st then Some ([], st, [])
      else (case sq_read sdu_default (ta_sdu_queue st) of (ok, sdu, q) \<Rightarrow>
        let st = st\<lparr>ta_sdu_queue := q\<rparr> in
        if \<not> ok then Some ([], st, [])
        else do {
          w \<leftarrow> add_sn (ta_window st) (ta_tx_next st) \<lparr>ti_sdu = sdu_buf sdu, ti_is_retx = sdu_is_retx sdu,
                  ti_pdcp_sn = sdu_pdcp_sn sdu, ti_next_so = 0, ti_retx_count = RETX_COUNT_NOT_STARTED\<rparr>;
          let st = st\<lparr>ta_window := w\<rparr>;
          let ev = (case sdu_pdcp_sn sdu of None \<Rightarrow> []
             | Some sn \<Rightarrow> if sdu_is_retx sdu then [On_retransmitted_sdu sn]
                 else [On_transmitted_sdu sn (txam_queue_size_bytes (ta_cfg st))]);
          if length (sdu_buf sdu) + head_min_size st > grant_len
          then do {
            (pdu, st) \<leftarrow> build_first_sdu_segment grant_len st;
            Some (pdu, st, ev)
          }
          else do {
            let (p, st) = get_polling_bit (ta_tx_next st) False 0 st;
            let header = rlc_am_write_data_pdu_header (ta_data_header st p full_sdu (ta_tx_next st) 0);
            let payload = copy_view (sdu_buf sdu) 0 (length (sdu_buf sdu)) (grant_len - length header);
            if length payload = 0 then Some ([], st, ev)
            else Some (header @ payload, st\<lparr>ta_tx_next := am_inc (ta_size st) (ta_tx_next st)\<rparr>, ev)
          }
        }))"

section \<open>Retransmissions\<close>

text \<open>Popping makes the ring buffer shorter.\<close>

lemma clean_invalid_front_count: "clean_invalid_front b = Some b' \<Longrightarrow> rb_count b' \<le> rb_count b"
proof (induction b rule: clean_invalid_front.induct)
  case (1 b)
  show ?case
    using 1 by (subst (asm) (2) clean_invalid_front.simps)
      (fastforce simp: rb_pop_def split: if_splits option.splits)
qed

lemma rq_pop_size: "rq_pop q = Some q' \<Longrightarrow> \<not> rq_empty q \<Longrightarrow> rq_size q' < rq_size q"
  by (fastforce simp: rq_pop_def rq_size_def rq_empty_def rb_empty_def rb_pop_def bind_eq_Some_conv'
      split: if_splits dest: clean_invalid_front_count)

text \<open>Retransmissions of sequence numbers that left the window are dropped.\<close>

function drop_stale_retx :: "rlc_tx_am_sdu_info circular_map \<Rightarrow> rlc_retx_queue \<Rightarrow> rlc_retx_queue option" where
  "drop_stale_retx w q = (if rq_empty q then Some q
     else (case rq_front q of None \<Rightarrow> None
       | Some retx \<Rightarrow> if has_sn w (rt_sn retx) then Some q
           else (case rq_pop q of None \<Rightarrow> None | Some q' \<Rightarrow> drop_stale_retx w q')))"
  by pat_completeness auto
termination
  by (relation "measure (\<lambda>(w, q). rq_size q)") (auto dest: rq_pop_size)

declare drop_stale_retx.simps [simp del]

definition get_retx_expected_hdr_len :: "rlc_tx_am \<Rightarrow> rlc_tx_amd_retx \<Rightarrow> nat" where
  "get_retx_expected_hdr_len st retx = (if rt_so retx = 0 then head_min_size st else head_max_size st)"

definition retx_si :: "rlc_tx_amd_retx \<Rightarrow> bool \<Rightarrow> rlc_si_field" where
  "retx_si retx sdu_complete = (if rt_so retx = 0 then (if sdu_complete then full_sdu else first_segment)
     else (if sdu_complete then last_segment else middle_segment))"

definition build_retx_pdu :: "nat \<Rightarrow> rlc_tx_am \<Rightarrow> (bytes \<times> rlc_tx_am) option" where
  "build_retx_pdu grant_len st = do {
     q \<leftarrow> drop_stale_retx (ta_window st) (ta_retx_queue st);
     let st = st\<lparr>ta_retx_queue := q\<rparr>;
     if rq_empty q then Some ([], st)
     else do {
       retx \<leftarrow> rq_front q;
       let st = st\<lparr>ta_retx_sn := rt_sn retx\<rparr>;
       info \<leftarrow> win_at (ta_window st) (rt_sn retx);
       if unat (rt_so retx + rt_length retx) > length (ti_sdu info)
       then do { q \<leftarrow> rq_pop q; Some ([], st\<lparr>ta_retx_queue := q\<rparr>) }
       else if grant_len \<le> get_retx_expected_hdr_len st retx then Some ([], st)
       else do {
         let expected_hdr_len = get_retx_expected_hdr_len st retx;
         let retx_payload_len = min (unat (rt_length retx)) (grant_len - expected_hdr_len);
         let retx_complete = (retx_payload_len = unat (rt_length retx));
         let sdu_complete = (unat (rt_so retx) + retx_payload_len \<ge> length (ti_sdu info));
         let si = retx_si retx sdu_complete;
         st \<leftarrow> (if retx_complete
           then do {
             let st = (if ti_retx_count info = txam_max_retx_thresh (ta_cfg st)
                       then st\<lparr>ta_max_retx_reached := True\<rparr> else st);
             q \<leftarrow> rq_pop q;
             Some (st\<lparr>ta_retx_queue := q\<rparr>)
           }
           else do {
             q \<leftarrow> rq_replace_front (retx\<lparr>rt_so := rt_so retx + of_nat retx_payload_len,
                                        rt_length := rt_length retx - of_nat retx_payload_len\<rparr>) q;
             Some (st\<lparr>ta_retx_queue := q\<rparr>)
           });
         let (p, st) = get_polling_bit (rt_sn retx) True 0 st;
         let hdr = ta_data_header st p si (rt_sn retx) (ucast (rt_so retx));
         let header = rlc_am_write_data_pdu_header hdr;
         if length header \<noteq> expected_hdr_len then None
         else do {
           let payload = copy_view (ti_sdu info) (unat (amh_so hdr)) retx_payload_len (grant_len - length header);
           if length payload = 0 \<or> length payload \<noteq> retx_payload_len then Some ([], st)
           else Some (header @ payload, st)
         }
       }
     }
   }"

section \<open>The grant of the MAC layer\<close>

text \<open>The status report that the provider hands out stays in the hands of the reader, trimmed to the
  grant.  The result holds the PDU, the transmitter and the receiver.\<close>

definition pull_status_pdu :: "bool \<Rightarrow> nat \<Rightarrow> rlc_rx_am \<Rightarrow> bytes \<times> rlc_rx_am" where
  "pull_status_pdu defer_ok grant_len rx =
     (if grant_len < unat sizeof_header_ack_sn then ([], rx)
      else let (status, rx) = ra_get_status_pdu defer_ok rx in
        if unat (st_packed_size status) > grant_len
        then (let (ok, status) = trim status (of_nat grant_len);
                  rx = rx\<lparr>ra_status_reader := status\<rparr>
              in if ok then (pack status, rx) else ([], rx))
        else (pack status, rx))"

definition ta_pull_pdu :: "bool \<Rightarrow> nat \<Rightarrow> rlc_rx_am \<Rightarrow> rlc_tx_am
     \<Rightarrow> (bytes \<times> rlc_rx_am \<times> rlc_tx_am \<times> rlc_tx_event list) option" where
  "ta_pull_pdu defer_ok grant_len rx st =
     (if ta_max_retx_reached st then Some ([], rx, st, [])
      else if ra_status_report_required rx
      then (let (pdu, rx) = pull_status_pdu defer_ok grant_len rx in Some (pdu, rx, st, []))
      else if \<not> rq_empty (ta_retx_queue st)
      then do { (pdu, st) \<leftarrow> build_retx_pdu grant_len st; Some (pdu, rx, st, []) }
      else if ta_sn_under_segmentation st \<noteq> INVALID_RLC_SN \<and> has_sn (ta_window st) (ta_sn_under_segmentation st)
      then do { (pdu, st) \<leftarrow> build_continued_sdu_segment grant_len (ta_sn_under_segmentation st) st; Some (pdu, rx, st, []) }
      else (let st = st\<lparr>ta_sn_under_segmentation := INVALID_RLC_SN\<rparr> in
        if sq_is_empty (ta_sdu_queue st) then Some ([], rx, st, [])
        else do { (pdu, st, ev) \<leftarrow> build_new_pdu grant_len st; Some (pdu, rx, st, ev) }))"

section \<open>The buffer state\<close>

definition ta_segment_bytes :: "rlc_tx_am \<Rightarrow> u32" where
  "ta_segment_bytes st = (if ta_sn_under_segmentation st \<noteq> INVALID_RLC_SN
     then (case win_at (ta_window st) (ta_sn_under_segmentation st) of None \<Rightarrow> 0
       | Some info \<Rightarrow> of_nat (length (ti_sdu info)) - ti_next_so info + of_nat (head_max_size st))
     else 0)"

definition ta_get_buffer_state :: "rlc_rx_am \<Rightarrow> rlc_tx_am \<Rightarrow> (u32 \<times> rlc_tx_am) option" where
  "ta_get_buffer_state rx st = do {
     let queue_state = sq_get_state (ta_sdu_queue st);
     let queue_bytes = n_bytes queue_state + n_sdus queue_state * of_nat (head_min_size st);
     let segment_bytes = ta_segment_bytes st;
     let st = (if ta_sn_under_segmentation st \<noteq> INVALID_RLC_SN then st
               else st\<lparr>ta_sdu_queue := snd (sq_front (ta_sdu_queue st))\<rparr>);
     let retx_state = rq_st (ta_retx_queue st);
     let retx_bytes = rs_retx_bytes retx_state + rs_n_retx_so_zero retx_state * of_nat (head_min_size st)
           + rs_n_retx_so_nonzero retx_state * of_nat (head_max_size st);
     q \<leftarrow> drop_stale_retx (ta_window st) (ta_retx_queue st);
     let st = st\<lparr>ta_retx_queue := q\<rparr>;
     let status_bytes = (if ra_status_report_required rx then ra_get_status_pdu_length rx else 0);
     let pending_bytes = queue_bytes + segment_bytes + retx_bytes + status_bytes;
     Some (pending_bytes, if unat pending_bytes \<le> MAX_DL_PDU_LENGTH
       then st\<lparr>ta_suspend_bs_notif_barring := True\<rparr> else st)
   }"

definition ta_update_mac_buffer_state :: "bool \<Rightarrow> bool \<Rightarrow> rlc_rx_am \<Rightarrow> rlc_tx_am
     \<Rightarrow> (rlc_tx_am \<times> rlc_tx_event list) option" where
  "ta_update_mac_buffer_state force_notify hol_older rx st = do {
     (bs, st) \<leftarrow> ta_get_buffer_state rx (st\<lparr>ta_pending_buffer_state := False\<rparr>);
     let notify = (force_notify \<or> unat bs \<le> MAX_DL_PDU_LENGTH
           \<or> unat (ta_prev_pending_bytes st) \<le> MAX_DL_PDU_LENGTH
           \<or> ta_suspend_bs_notif_barring st \<or> hol_older);
     let st = (if notify then st\<lparr>ta_suspend_bs_notif_barring := False\<rparr> else st);
     Some (st\<lparr>ta_prev_pending_bytes := bs\<rparr>, if notify then [On_buffer_state_update bs] else [])
   }"

section \<open>Retransmission counters\<close>

definition increment_retx_count :: "u32 \<Rightarrow> rlc_tx_am \<Rightarrow> (rlc_tx_am \<times> rlc_tx_event list) option" where
  "increment_retx_count sn st = do {
     pdu \<leftarrow> win_at (ta_window st) sn;
     let count = (if ti_retx_count pdu = RETX_COUNT_NOT_STARTED then 0 else ti_retx_count pdu + 1);
     w \<leftarrow> win_set (ta_window st) sn (pdu\<lparr>ti_retx_count := count\<rparr>);
     Some (st\<lparr>ta_window := w\<rparr>, if count = txam_max_retx_thresh (ta_cfg st) then [On_max_retx] else [])
   }"

definition decrement_retx_count :: "u32 \<Rightarrow> rlc_tx_am \<Rightarrow> rlc_tx_am option" where
  "decrement_retx_count sn st = do {
     pdu \<leftarrow> win_at (ta_window st) sn;
     if ti_retx_count pdu = RETX_COUNT_NOT_STARTED then Some st
     else do {
       w \<leftarrow> win_set (ta_window st) sn (pdu\<lparr>ti_retx_count :=
              (if ti_retx_count pdu = 0 then RETX_COUNT_NOT_STARTED else ti_retx_count pdu - 1)\<rparr>);
       Some (st\<lparr>ta_window := w\<rparr>)
     }
   }"

section \<open>Status reports from the peer\<close>

definition protocol_failure :: "bool \<Rightarrow> rlc_tx_event list" where
  "protocol_failure defer_ok = (if defer_ok then [On_protocol_failure] else [])"

text \<open>The result is the verdict and the notifications.\<close>

definition valid_nack :: "bool \<Rightarrow> rlc_tx_am \<Rightarrow> u32 \<Rightarrow> rlc_am_status_nack \<Rightarrow> bool \<times> rlc_tx_event list" where
  "valid_nack defer_ok st ack_sn nack =
     (let last_sn = nack_sn nack + ucast (nack_range nack) - 1 in
      if tx_mod_base st (nack_sn nack) \<ge> tx_mod_base st ack_sn then (False, [])
      else if has_nack_range nack \<and> tx_mod_base st last_sn \<ge> tx_mod_base st ack_sn then (False, [])
      else if \<not> inside_tx_window st (nack_sn nack) then (False, [])
      else if has_nack_range nack \<and> \<not> inside_tx_window st last_sn then (False, [])
      else if tx_mod_base st (nack_sn nack) > tx_mod_base st (ta_tx_next st) then (False, protocol_failure defer_ok)
      else if has_nack_range nack \<and> tx_mod_base st last_sn > tx_mod_base st (ta_tx_next st)
      then (False, protocol_failure defer_ok)
      else (True, []))"

fun valid_nacks :: "bool \<Rightarrow> rlc_tx_am \<Rightarrow> u32 \<Rightarrow> rlc_am_status_nack list \<Rightarrow> bool \<times> rlc_tx_event list" where
  "valid_nacks defer_ok st ack_sn [] = (True, [])"
| "valid_nacks defer_ok st ack_sn (nack # nacks) = (case valid_nack defer_ok st ack_sn nack of
     (ok, ev) \<Rightarrow> if ok then valid_nacks defer_ok st ack_sn nacks else (False, ev))"

text \<open>The range of bytes that a NACK asks for, after the corrections; \<^const>\<open>None\<close> if it is ignored.  The
  second component lists the protocol failures reported.\<close>

definition nack_bounds :: "bool \<Rightarrow> rlc_tx_am \<Rightarrow> rlc_tx_am_sdu_info \<Rightarrow> rlc_am_status_nack
     \<Rightarrow> ((u16 \<times> u16) option \<times> rlc_tx_event list)" where
  "nack_bounds defer_ok st info nack =
     (let sdu_length = (of_nat (length (ti_sdu info)) :: u32);
          start0 = (if has_so nack then so_start nack else 0);
          end0 = (if has_so nack then so_end nack else ucast (sdu_length - 1));
          segmenting = (nack_sn nack = ta_sn_under_segmentation st) in
      if end0 = so_end_of_sdu \<and> segmenting \<and> (ti_next_so info = 0 \<or> ucast start0 \<ge> ti_next_so info) then (None, [])
      else
        let end1 = (if end0 = so_end_of_sdu
              then (if segmenting then ucast (ti_next_so info - 1) else ucast (sdu_length - 1)) else end0);
            (start1, ev1) = (if start0 > end1 then (0, protocol_failure defer_ok) else (start0, []));
            (start2, ev2) = (if ucast start1 \<ge> sdu_length then (0, protocol_failure defer_ok) else (start1, []));
            (end2, ev3) = (if ucast end1 \<ge> sdu_length
              then (ucast (sdu_length - 1), On_protocol_failure # protocol_failure defer_ok) else (end1, []))
        in (Some (start2, end2), ev1 @ ev2 @ ev3))"

definition handle_nack :: "bool \<Rightarrow> rlc_am_status_nack \<Rightarrow> rlc_tx_am
     \<Rightarrow> (bool \<times> rlc_tx_am \<times> rlc_tx_event list) option" where
  "handle_nack defer_ok nack st =
     (if has_nack_range nack then Some (False, st, [])
      else if \<not> (tx_mod_base st (ta_tx_next_ack st) \<le> tx_mod_base st (nack_sn nack)
                 \<and> tx_mod_base st (nack_sn nack) \<le> tx_mod_base st (ta_tx_next st)) then Some (False, st, [])
      else do {
        info \<leftarrow> win_at (ta_window st) (nack_sn nack);
        case nack_bounds defer_ok st info nack of
          (None, ev) \<Rightarrow> Some (False, st, ev)
        | (Some (first, lst), ev) \<Rightarrow>
            let retx = \<lparr>rt_sn = nack_sn nack, rt_so = ucast first, rt_length = ucast lst - ucast first + 1\<rparr>;
                (pushed, q) = rq_try_push retx (ta_retx_queue st)
            in Some (pushed, st\<lparr>ta_retx_queue := q\<rparr>, ev)
      })"

text \<open>One NACK without a range, and the count of the retransmission, once per sequence number.\<close>

definition process_nack :: "bool \<Rightarrow> rlc_am_status_nack \<Rightarrow> u32 \<Rightarrow> rlc_tx_am
     \<Rightarrow> (u32 \<times> rlc_tx_am \<times> rlc_tx_event list) option" where
  "process_nack defer_ok nack prev_retx_sn st = do {
     (queued, st, ev) \<leftarrow> handle_nack defer_ok nack st;
     if queued \<and> prev_retx_sn \<noteq> nack_sn nack
     then do {
       (st, ev') \<leftarrow> increment_retx_count (nack_sn nack) st;
       Some (nack_sn nack, st, ev @ ev')
     }
     else Some (prev_retx_sn, st, ev)
   }"

text \<open>One NACK for each sequence number of a NACK range; the segment offsets apply to the first and the
  last one.\<close>

definition range_item :: "rlc_am_sn_size \<Rightarrow> rlc_am_status_nack \<Rightarrow> u32 \<Rightarrow> rlc_am_status_nack" where
  "range_item s rng range_sn =
     (let start = (if has_so rng \<and> range_sn = nack_sn rng then so_start rng else 0);
          lst = (if has_so rng \<and> range_sn = (nack_sn rng + ucast (nack_range rng) - 1) mod am_mod s
                 then so_end rng else so_end_of_sdu)
      in nack_default\<lparr>nack_sn := range_sn, so_start := start, so_end := lst,
           has_so := has_so rng \<and> (start \<noteq> 0 \<or> lst \<noteq> so_end_of_sdu)\<rparr>)"

definition range_stop :: "rlc_am_sn_size \<Rightarrow> rlc_am_status_nack \<Rightarrow> u32" where
  "range_stop s rng = (nack_sn rng + ucast (nack_range rng)) mod am_mod s"

lemma am_mod_take_bit: "x mod am_mod s = take_bit (am_to_number s) x"
  by (cases s) (simp_all add: am_mod_def cardinality_def take_bit_eq_mod)

lemma am_inc_sn_inc: "am_inc s x = sn_inc (am_to_number s) x"
  by (simp add: am_inc_def am_mod_take_bit sn_inc_def)

text \<open>Walking towards a stop: the distance shrinks by one with each step.\<close>

lemma am_off_towards:
  assumes "am_off s sn stop \<noteq> 0"
  shows "am_off s (am_inc s sn) stop + 1 = am_off s sn stop"
proof -
  have "am_off s sn (am_inc s sn) = 1"
    using sn_off_inc[OF am_to_number_32(1), of s sn sn] by (cases s) (simp_all add: am_inc_sn_inc)
  then show ?thesis
    using sn_off_rebase_ge[OF am_to_number_32(1), of s sn "am_inc s sn" stop] assms by simp
qed

lemma am_off_eq_0: "am_off s b x = 0 \<longleftrightarrow> take_bit (am_to_number s) x = take_bit (am_to_number s) b"
proof
  assume "am_off s b x = 0"
  then have "am_off s b (take_bit (am_to_number s) x) = am_off s b (take_bit (am_to_number s) b)"
    by (simp add: sn_off_take_bit[OF am_to_number_32(1)])
  then show "take_bit (am_to_number s) x = take_bit (am_to_number s) b"
    by (intro sn_off_inject[OF am_to_number_32(1)]) (simp_all add: unat_take_bit_u32)
next
  assume "take_bit (am_to_number s) x = take_bit (am_to_number s) b"
  then show "am_off s b x = 0"
    using sn_off_take_bit[OF am_to_number_32(1), of s b x] sn_off_take_bit[OF am_to_number_32(1), of s b b] by simp
qed

text \<open>The modulus is a constant of the entity and given by \<open>s\<close> here.\<close>

function nack_range_loop :: "rlc_am_sn_size \<Rightarrow> bool \<Rightarrow> rlc_am_status_nack \<Rightarrow> u32 \<Rightarrow> u32 \<Rightarrow> u32 \<Rightarrow> rlc_tx_am
     \<Rightarrow> (u32 \<times> rlc_tx_am \<times> rlc_tx_event list) option" where
  "nack_range_loop s defer_ok rng ack_sn range_sn prev_retx_sn st =
     (if range_sn = range_stop s rng then Some (prev_retx_sn, st, [])
      else if range_sn = ack_sn then Some (prev_retx_sn, st, [])
      else (case process_nack defer_ok (range_item s rng range_sn) prev_retx_sn st of None \<Rightarrow> None
        | Some (prev, st', ev) \<Rightarrow>
            (case nack_range_loop s defer_ok rng ack_sn (am_inc s range_sn) prev st' of None \<Rightarrow> None
              | Some (prev', st'', ev') \<Rightarrow> Some (prev', st'', ev @ ev'))))"
  by pat_completeness auto
termination
proof (relation "measure (\<lambda>(s, defer_ok, rng, ack_sn, range_sn, prev, st).
    am_off s range_sn (range_stop s rng)
      + (if unat range_sn < 2 ^ am_to_number s then 0 else 2 ^ am_to_number s))", goal_cases)
  case (2 s defer_ok rng ack_sn range_sn prev st r prev' x st' ev)
  let ?n = "am_to_number s"
  have inc: "unat (am_inc s range_sn) < 2 ^ ?n"
    by (simp add: am_inc_sn_inc sn_inc_less)
  have stop: "take_bit ?n (range_stop s rng) = range_stop s rng"
    by (simp add: range_stop_def am_mod_take_bit)
  show ?case
  proof (cases "unat range_sn < 2 ^ ?n")
    case True
    then have "am_off s range_sn (range_stop s rng) \<noteq> 0"
      using 2(1) stop take_bit_of_bound[OF True] by (simp add: am_off_eq_0)
    then show ?thesis using 2 True inc am_off_towards[of s range_sn "range_stop s rng"] by simp
  next
    case False
    then show ?thesis using 2 inc am_off_less[of s "am_inc s range_sn" "range_stop s rng"] by simp
  qed
qed simp

declare nack_range_loop.simps [simp del]

fun nacks_loop :: "bool \<Rightarrow> u32 \<Rightarrow> rlc_am_status_nack list \<Rightarrow> u32 \<Rightarrow> rlc_tx_am
     \<Rightarrow> (rlc_tx_am \<times> rlc_tx_event list) option" where
  "nacks_loop defer_ok ack_sn [] prev_retx_sn st = Some (st, [])"
| "nacks_loop defer_ok ack_sn (nack # nacks) prev_retx_sn st = do {
     (prev, st, ev) \<leftarrow> (if has_nack_range nack
        then nack_range_loop (ta_size st) defer_ok nack ack_sn (nack_sn nack) prev_retx_sn st
        else process_nack defer_ok nack prev_retx_sn st);
     (st, ev') \<leftarrow> nacks_loop defer_ok ack_sn nacks prev st;
     Some (st, ev @ ev')
   }"

text \<open>Acknowledged SDUs leave the window in order; the last PDCP sequence numbers among them are
  remembered, separately for first transmissions and retransmissions of the PDCP layer.\<close>

function ack_loop :: "rlc_am_sn_size \<Rightarrow> u32 \<Rightarrow> u32 \<Rightarrow> u32 \<Rightarrow> rlc_tx_am_sdu_info circular_map \<Rightarrow> u32 option \<Rightarrow> u32 option
     \<Rightarrow> (u32 \<times> rlc_tx_am_sdu_info circular_map \<times> u32 option \<times> u32 option) option" where
  "ack_loop s stop_sn sn next_ack w deliv retx_deliv =
     (if am_base s next_ack sn < am_base s next_ack stop_sn
      then (case win_at w sn of None \<Rightarrow> Some (next_ack, w, deliv, retx_deliv)
        | Some info \<Rightarrow> (case remove_sn w sn of None \<Rightarrow> None
            | Some w' \<Rightarrow> ack_loop s stop_sn (am_inc s sn) (am_inc s sn) w'
                (if ti_pdcp_sn info \<noteq> None \<and> \<not> ti_is_retx info then ti_pdcp_sn info else deliv)
                (if ti_pdcp_sn info \<noteq> None \<and> ti_is_retx info then ti_pdcp_sn info else retx_deliv)))
      else Some (next_ack, w, deliv, retx_deliv))"
  by pat_completeness auto
termination
proof (relation "measure (\<lambda>(s, stop_sn, sn, _). am_off s sn stop_sn)", goal_cases)
  case (2 s stop_sn sn next_ack w deliv retx_deliv info w')
  then have "am_off s next_ack sn < am_off s next_ack stop_sn"
    by (simp add: am_base_less)
  then have "am_off s sn stop_sn \<noteq> 0"
    using sn_off_rebase_ge[OF am_to_number_32(1), of s next_ack sn stop_sn] by simp
  then show ?case using am_off_towards[of s sn stop_sn] by simp
qed simp

declare ack_loop.simps [simp del]

text \<open>The queue of retransmissions is emptied; counters of retransmissions that were not started are
  set back, once per sequence number.\<close>

function clear_retx_loop :: "rlc_tx_am \<Rightarrow> rlc_tx_am option" where
  "clear_retx_loop st = (if rq_empty (ta_retx_queue st) then Some st
     else (case rq_front (ta_retx_queue st) of None \<Rightarrow> None
       | Some retx \<Rightarrow>
          (case (if ta_retx_sn st \<noteq> rt_sn retx
                 then map_option (\<lambda>st'. (ta_window st', rt_sn retx))
                        (if has_sn (ta_window st) (rt_sn retx) then decrement_retx_count (rt_sn retx) st else Some st)
                 else Some (ta_window st, ta_retx_sn st)) of None \<Rightarrow> None
           | Some (w, sn) \<Rightarrow> (case rq_pop (ta_retx_queue st) of None \<Rightarrow> None
               | Some q \<Rightarrow> clear_retx_loop (st\<lparr>ta_window := w, ta_retx_sn := sn, ta_retx_queue := q\<rparr>)))))"
  by pat_completeness auto
termination
  by (relation "measure (\<lambda>st. rq_size (ta_retx_queue st))") (auto dest: rq_pop_size)

declare clear_retx_loop.simps [simp del]

definition delivered_events :: "u32 option \<Rightarrow> u32 option \<Rightarrow> rlc_tx_event list" where
  "delivered_events deliv retx_deliv =
     (case deliv of None \<Rightarrow> [] | Some sn \<Rightarrow> [On_delivered_sdu sn])
     @ (case retx_deliv of None \<Rightarrow> [] | Some sn \<Rightarrow> [On_delivered_retransmitted_sdu sn])"

definition handle_status_pdu :: "bool \<Rightarrow> bool \<Rightarrow> rlc_rx_am \<Rightarrow> rlc_am_status_pdu \<Rightarrow> rlc_tx_am
     \<Rightarrow> (rlc_tx_am \<times> rlc_tx_event list) option" where
  "handle_status_pdu defer_ok hol_older rx status st =
     (if \<not> ta_valid_ack_sn st (st_ack_sn status) then Some (st, [])
      else if tx_mod_base st (st_ack_sn status) > tx_mod_base st (ta_tx_next st + 1)
      then Some (st, protocol_failure defer_ok)
      else (case valid_nacks defer_ok st (st_ack_sn status) (st_nacks status) of (ok, ev0) \<Rightarrow>
        if \<not> ok then Some (st, ev0)
        else do {
          let st = (if tx_mod_base st (ta_poll_sn st) < tx_mod_base st (st_ack_sn status)
                    then st\<lparr>ta_poll_timer := False\<rparr> else st);
          let stop_sn = (if st_nacks status = [] then st_ack_sn status else nack_sn (hd (st_nacks status)));
          (next_ack, w, deliv, retx_deliv) \<leftarrow>
            ack_loop (ta_size st) stop_sn (ta_tx_next_ack st) (ta_tx_next_ack st) (ta_window st) None None;
          st \<leftarrow> clear_retx_loop (st\<lparr>ta_tx_next_ack := next_ack, ta_window := w\<rparr>);
          (st, ev2) \<leftarrow> nacks_loop defer_ok (st_ack_sn status) (st_nacks status) INVALID_RLC_SN
            (st\<lparr>ta_retx_sn := INVALID_RLC_SN\<rparr>);
          (st, ev3) \<leftarrow> ta_update_mac_buffer_state True hol_older rx st;
          Some (st, delivered_events deliv retx_deliv @ ev2 @ ev3)
        }))"

definition on_status_pdu :: "bool \<Rightarrow> bool \<Rightarrow> bool \<Rightarrow> rlc_rx_am \<Rightarrow> rlc_am_status_pdu \<Rightarrow> rlc_tx_am
     \<Rightarrow> (rlc_tx_am \<times> rlc_tx_event list) option" where
  "on_status_pdu exec_ok defer_ok hol_older rx status st =
     (if exec_ok then handle_status_pdu defer_ok hol_older rx status st else Some (st, []))"

section \<open>Expiry of t-PollRetransmit\<close>

definition on_expired_poll_retransmit_timer :: "bool \<Rightarrow> rlc_rx_am \<Rightarrow> rlc_tx_am
     \<Rightarrow> (rlc_tx_am \<times> rlc_tx_event list) option" where
  "on_expired_poll_retransmit_timer hol_older rx st =
     (if \<not> ta_nothing_to_send st then Some (st, [])
      else if cm_empty (ta_window st) then Some (st, [])
      else if \<not> has_sn (ta_window st) (ta_tx_next_ack st) then Some (st, [])
      else do {
        info \<leftarrow> win_at (ta_window st) (ta_tx_next_ack st);
        let retx = \<lparr>rt_sn = ta_tx_next_ack st, rt_so = 0, rt_length = of_nat (length (ti_sdu info))\<rparr>;
        let (enqueued, q) = rq_try_push retx (ta_retx_queue st);
        let st = st\<lparr>ta_retx_queue := q\<rparr>;
        (st, ev) \<leftarrow> (if enqueued then increment_retx_count (ta_tx_next_ack st) st else Some (st, []));
        (st, ev') \<leftarrow> ta_update_mac_buffer_state True hol_older rx st;
        Some (st, ev @ ev')
      })"

end
