(* ===== verification/Rlc_Tx_Am_Inv.thy ===== *)
theory Rlc_Tx_Am_Inv
  imports Rlc_Tx_Am
begin

text \<open>
  The invariant of the acknowledged-mode transmitter and its preservation by every operation: the
  shape of the transmit window, the segmentation progress, the bounds of the queued retransmissions
  and the poll counters.
\<close>

section \<open>Invariant\<close>

text \<open>
  The bound on the length of SDUs keeps offsets within the 16 bits of the header and the byte total of
  a full retransmission queue within its 32-bit counter; the PDCP layer sends at most 9000 bytes and
  its header.
\<close>

definition am_max_sdu :: nat where
  "am_max_sdu = 32767"

text \<open>The window holds exactly the sequence numbers from \<open>TX_Next_Ack\<close> up to \<open>TX_Next\<close>, and \<open>TX_Next\<close>
  itself while its SDU is being segmented.\<close>

definition tx_end :: "rlc_am_sn_size \<Rightarrow> u32 \<Rightarrow> u32 \<Rightarrow> u32 \<Rightarrow> nat" where
  "tx_end s ack nxt seg = am_off s ack nxt + (if seg = INVALID_RLC_SN then 0 else 1)"

definition tx_win :: "rlc_am_sn_size \<Rightarrow> u32 \<Rightarrow> u32 \<Rightarrow> u32 \<Rightarrow> rlc_tx_am_sdu_info circular_map \<Rightarrow> bool" where
  "tx_win s ack nxt seg w \<longleftrightarrow> cm_wf (am_to_number s - 1) w
     \<and> unat ack < 2 ^ am_to_number s \<and> unat nxt < 2 ^ am_to_number s
     \<and> tx_end s ack nxt seg \<le> am_W s \<and> seg \<in> {INVALID_RLC_SN, nxt}
     \<and> (\<forall>sn. win_at w sn \<noteq> None \<longleftrightarrow> unat sn < 2 ^ am_to_number s \<and> am_off s ack sn < tx_end s ack nxt seg)"

definition tx_info_ok :: "bool \<Rightarrow> rlc_tx_am_sdu_info \<Rightarrow> bool" where
  "tx_info_ok segmenting info \<longleftrightarrow> ti_sdu info \<noteq> [] \<and> length (ti_sdu info) \<le> am_max_sdu
     \<and> (if segmenting then 0 < unat (ti_next_so info) \<and> unat (ti_next_so info) < length (ti_sdu info)
        else ti_next_so info = 0 \<or> unat (ti_next_so info) = length (ti_sdu info))"

definition tx_infos :: "u32 \<Rightarrow> rlc_tx_am_sdu_info circular_map \<Rightarrow> bool" where
  "tx_infos seg w \<longleftrightarrow> (\<forall>sn info. win_at w sn = Some info \<longrightarrow> tx_info_ok (sn = seg) info)"

text \<open>Every queued retransmission is a nonempty part of an SDU of the window.\<close>

definition win_sdus :: "rlc_tx_am_sdu_info circular_map \<Rightarrow> u32 \<Rightarrow> bytes option" where
  "win_sdus w sn = map_option ti_sdu (win_at w sn)"

definition retx_ok :: "rlc_tx_am_sdu_info circular_map \<Rightarrow> rlc_tx_amd_retx \<Rightarrow> bool" where
  "retx_ok w r \<longleftrightarrow> (\<exists>sdu. win_sdus w (rt_sn r) = Some sdu \<and> 0 < unat (rt_length r)
     \<and> unat (rt_so r) + unat (rt_length r) \<le> length sdu)"

definition tx_retx :: "rlc_am_sn_size \<Rightarrow> rlc_tx_am_sdu_info circular_map \<Rightarrow> rlc_retx_queue \<Rightarrow> bool" where
  "tx_retx s w q \<longleftrightarrow> rq_wf q \<and> rb_max_size (rq_queue q) = am_W s \<and> rq_exact q
     \<and> (\<forall>r \<in> set (rq_abs q). retx_ok w r)"

definition tx_sdus :: "rlc_sdu_queue \<Rightarrow> bool" where
  "tx_sdus q \<longleftrightarrow> sq_wf q \<and> (\<forall>s \<in> set (sq_queue q). sdu_buf s \<noteq> [] \<and> length (sdu_buf s) \<le> am_max_sdu)"

text \<open>The counters stay below the thresholds of the configuration.\<close>

definition tx_polls :: "rlc_tx_am_config \<Rightarrow> u32 \<Rightarrow> u32 \<Rightarrow> bool" where
  "tx_polls cfg pdus byts \<longleftrightarrow> (txam_poll_pdu cfg > 0 \<longrightarrow> int (unat pdus) < txam_poll_pdu cfg)
     \<and> (txam_poll_byte cfg > 0 \<longrightarrow> int (unat byts) < txam_poll_byte cfg)"

definition tx_cfg_ok :: "rlc_tx_am_config \<Rightarrow> bool" where
  "tx_cfg_ok cfg \<longleftrightarrow> 0 < txam_queue_size cfg \<and> txam_poll_pdu cfg < 2 ^ 31 \<and> txam_poll_byte cfg < 2 ^ 31"

definition ta_inv :: "rlc_tx_am \<Rightarrow> bool" where
  "ta_inv st \<longleftrightarrow> tx_cfg_ok (ta_cfg st)
     \<and> tx_win (ta_size st) (ta_tx_next_ack st) (ta_tx_next st) (ta_sn_under_segmentation st) (ta_window st)
     \<and> tx_infos (ta_sn_under_segmentation st) (ta_window st)
     \<and> tx_retx (ta_size st) (ta_window st) (ta_retx_queue st)
     \<and> tx_sdus (ta_sdu_queue st)
     \<and> tx_polls (ta_cfg st) (ta_pdu_without_poll st) (ta_byte_without_poll st)"

subsection \<open>The window\<close>

lemma invalid_not_sn: "unat sn < 2 ^ am_to_number s \<Longrightarrow> sn \<noteq> INVALID_RLC_SN"
  by (cases s) (auto simp: INVALID_RLC_SN_def)

lemma am_off_inj: "unat x < 2 ^ am_to_number s \<Longrightarrow> unat y < 2 ^ am_to_number s
    \<Longrightarrow> am_off s b x = am_off s b y \<longleftrightarrow> x = y"
  using sn_off_inject[OF am_to_number_32(1)] by blast

lemma card_am_off:
  assumes "k \<le> 2 ^ am_to_number s"
  shows "card {sn. unat sn < 2 ^ am_to_number s \<and> am_off s b sn < k} = k"
proof -
  let ?A = "{sn. unat sn < 2 ^ am_to_number s \<and> am_off s b sn < k}"
  have "bij_betw (am_off s b) ?A {..<k}"
  proof (rule bij_betw_imageI)
    show "inj_on (am_off s b) ?A"
      by (auto simp: inj_on_def am_off_inj)
    show "am_off s b ` ?A = {..<k}"
    proof
      show "{..<k} \<subseteq> am_off s b ` ?A"
      proof
        fix j assume "j \<in> {..<k}"
        then have j: "j < k" "j < 2 ^ am_to_number s" using assms by auto
        have "j < 2 ^ 32" using j(2) by (cases s) auto
        then have "am_off s b (take_bit (am_to_number s) (b + of_nat j)) = j"
          using j sn_off_add[OF am_to_number_32(1), of s b b "of_nat j"]
          by (simp add: sn_off_take_bit am_to_number_32 unat_of_nat_u32)
        then show "j \<in> am_off s b ` ?A"
          using j by (intro image_eqI[of _ _ "take_bit (am_to_number s) (b + of_nat j)"]) (simp_all add: unat_take_bit_u32)
      qed
    qed auto
  qed
  then show ?thesis by (simp add: bij_betw_same_card)
qed

lemma tx_win_size:
  assumes "tx_win s ack nxt seg w"
  shows "cm_size w = tx_end s ack nxt seg"
proof -
  have "dom (win_at w) = {sn. unat sn < 2 ^ am_to_number s \<and> am_off s ack sn < tx_end s ack nxt seg}"
    using assms by (auto simp: tx_win_def)
  moreover have "tx_end s ack nxt seg \<le> 2 ^ am_to_number s"
    using assms am_W(4)[of s] by (simp add: tx_win_def)
  ultimately show ?thesis
    using win.nof_card[of "am_to_number s - 1" w] assms card_am_off by (simp add: tx_win_def)
qed

lemma am_W_pow: "am_W s = 2 ^ (am_to_number s - 1)"
  by (cases s) (simp_all add: am_W_def)

lemma tx_win_full: "tx_win s ack nxt seg w \<Longrightarrow> cm_full w \<longleftrightarrow> tx_end s ack nxt seg = am_W s"
  by (simp add: cm_full_def tx_win_size) (auto simp: tx_win_def cm_wf_def am_W_pow)

text \<open>Adding \<open>TX_Next\<close>: its slot is free.\<close>

lemma tx_win_add:
  assumes win: "tx_win s ack nxt INVALID_RLC_SN w" and room: "am_off s ack nxt < am_W s"
  shows "\<exists>w'. add_sn w nxt info = Some w' \<and> cm_wf (am_to_number s - 1) w' \<and> win_at w' = (win_at w)(nxt \<mapsto> info)"
proof -
  have absent: "win_at w nxt = None"
    using win by (auto simp: tx_win_def tx_end_def)
  have "unat sn' mod 2 ^ (am_to_number s - 1) \<noteq> unat nxt mod 2 ^ (am_to_number s - 1)" if "win_at w sn' \<noteq> None" for sn'
  proof
    assume eq: "unat sn' mod 2 ^ (am_to_number s - 1) = unat nxt mod 2 ^ (am_to_number s - 1)"
    have "sn' = nxt"
      by (rule sn_off_no_collision[OF am_to_number_32(1) _ _ _ _ _ eq, where b = ack])
        (use win room that in \<open>auto simp: tx_win_def tx_end_def am_W_pow\<close>)
    then show False using that absent by simp
  qed
  then show ?thesis using win.add_map_update[of "am_to_number s - 1" w nxt info] win absent by (auto simp: tx_win_def)
qed

subsection \<open>Polling\<close>

abbreviation poll_upd :: "u32 \<Rightarrow> u32 \<Rightarrow> u32 \<Rightarrow> bool \<Rightarrow> rlc_tx_am \<Rightarrow> rlc_tx_am" where
  "poll_upd a b c d st \<equiv> st\<lparr>ta_poll_sn := c, ta_pdu_without_poll := a, ta_byte_without_poll := b, ta_poll_timer := d\<rparr>"

lemma nothing_to_send_upd [simp]:
  "ta_nothing_to_send (st\<lparr>ta_poll_sn := c\<rparr>) = ta_nothing_to_send st"
  "ta_nothing_to_send (st\<lparr>ta_pdu_without_poll := a\<rparr>) = ta_nothing_to_send st"
  "ta_nothing_to_send (st\<lparr>ta_byte_without_poll := a\<rparr>) = ta_nothing_to_send st"
  "ta_nothing_to_send (st\<lparr>ta_poll_timer := d\<rparr>) = ta_nothing_to_send st"
  by (simp_all add: ta_nothing_to_send_def is_tx_window_full_def)

text \<open>The polling decision: a new PDU that would bring a counter to its threshold, or the last PDU that
  can be sent for now.\<close>

definition poll_due :: "bool \<Rightarrow> u32 \<Rightarrow> rlc_tx_am \<Rightarrow> bool" where
  "poll_due is_retx payload_size st \<longleftrightarrow>
     (\<not> is_retx \<and> (0 < txam_poll_pdu (ta_cfg st) \<and> txam_poll_pdu (ta_cfg st) \<le> int (unat (ta_pdu_without_poll st)) + 1
        \<or> 0 < txam_poll_byte (ta_cfg st)
           \<and> txam_poll_byte (ta_cfg st) \<le> int (unat (ta_byte_without_poll st)) + int (unat payload_size)))
     \<or> ta_nothing_to_send st"

lemma word_of_int_le_u32:
  assumes "0 < i" and "i < 2 ^ 31"
  shows "(word_of_int i :: u32) \<le> x \<longleftrightarrow> i \<le> int (unat x)"
proof -
  have "uint (word_of_int i :: u32) = i"
    using assms by (simp add: uint_word_of_int)
  then show ?thesis by (simp add: word_le_def)
qed

lemma unat_plus_u32: "unat a + unat b < 2 ^ 32 \<Longrightarrow> unat (a + b :: u32) = unat a + unat b"
  by (simp add: unat_word_ariths)

lemma poll_counter:
  assumes "0 < i" and "int (unat c) < i" and "i < 2 ^ 31" and "unat x < 2 ^ 31"
  shows "word_of_int i \<le> c + x \<longleftrightarrow> i \<le> int (unat (c :: u32)) + int (unat x)"
    "uint (c + x) = uint c + uint x"
proof -
  have "int (unat c) < 2 ^ 31"
    using assms by linarith
  then have "unat c < 2 ^ 31"
    by (metis of_nat_less_iff of_nat_numeral of_nat_power)
  then have *: "unat (c + x) = unat c + unat x"
    using assms(4) by (intro unat_plus_u32) simp
  then have "int (unat (c + x)) = int (unat c) + int (unat x)"
    by simp
  then show "uint (c + x) = uint c + uint x"
    by simp
  show "word_of_int i \<le> c + x \<longleftrightarrow> i \<le> int (unat c) + int (unat x)"
    unfolding word_of_int_le_u32[OF assms(1,3)] * by simp
qed

lemma get_polling_bit_eq:
  assumes "tx_cfg_ok (ta_cfg st)" and "tx_polls (ta_cfg st) (ta_pdu_without_poll st) (ta_byte_without_poll st)"
    and "unat payload_size < 2 ^ 31"
  shows "get_polling_bit sn is_retx payload_size st =
     (if poll_due is_retx payload_size st
      then (1, poll_upd 0 0 (if is_retx then ta_poll_sn st else sn)
                 (txam_t_poll_retx (ta_cfg st) > 0 \<and> \<not> ta_stopped_lower st \<or> ta_poll_timer st) st)
      else (0, if is_retx then st else st\<lparr>ta_pdu_without_poll := ta_pdu_without_poll st + 1,
                 ta_byte_without_poll := ta_byte_without_poll st + payload_size\<rparr>))"
proof -
  have p: "word_of_int (txam_poll_pdu (ta_cfg st)) \<le> ta_pdu_without_poll st + 1
      \<longleftrightarrow> txam_poll_pdu (ta_cfg st) \<le> int (unat (ta_pdu_without_poll st)) + 1" if "0 < txam_poll_pdu (ta_cfg st)"
    using poll_counter(1)[of "txam_poll_pdu (ta_cfg st)" "ta_pdu_without_poll st" 1] assms that
    by (simp add: tx_cfg_ok_def tx_polls_def)
  have b: "word_of_int (txam_poll_byte (ta_cfg st)) \<le> ta_byte_without_poll st + payload_size
      \<longleftrightarrow> txam_poll_byte (ta_cfg st) \<le> int (unat (ta_byte_without_poll st)) + int (unat payload_size)"
    if "0 < txam_poll_byte (ta_cfg st)"
    using poll_counter(1)[of "txam_poll_byte (ta_cfg st)" "ta_byte_without_poll st" payload_size] assms that
    by (simp add: tx_cfg_ok_def tx_polls_def)
  show ?thesis
    unfolding get_polling_bit_def Let_def poll_due_def
    by (cases is_retx) (simp_all add: p b cong: conj_cong)
qed

lemma get_polling_bit_spec:
  assumes "tx_cfg_ok (ta_cfg st)" and "tx_polls (ta_cfg st) (ta_pdu_without_poll st) (ta_byte_without_poll st)"
    and "unat payload_size < 2 ^ 31"
  shows "\<exists>p a b c d. get_polling_bit sn is_retx payload_size st = (p, poll_upd a b c d st) \<and> p \<le> 1
     \<and> tx_polls (ta_cfg st) a b"
proof (cases "poll_due is_retx payload_size st")
  case True
  then show ?thesis
    unfolding get_polling_bit_eq[OF assms]
    by (intro exI conjI[OF if_P[THEN trans]]) (auto simp: tx_polls_def)
next
  case False
  let ?a = "if is_retx then ta_pdu_without_poll st else ta_pdu_without_poll st + 1"
  let ?b = "if is_retx then ta_byte_without_poll st else ta_byte_without_poll st + payload_size"
  have "tx_polls (ta_cfg st) ?a ?b"
    using False assms poll_counter(2)[of "txam_poll_pdu (ta_cfg st)" "ta_pdu_without_poll st" 1]
      poll_counter(2)[of "txam_poll_byte (ta_cfg st)" "ta_byte_without_poll st" payload_size]
    by (auto simp: tx_polls_def tx_cfg_ok_def poll_due_def not_le)
  moreover have "get_polling_bit sn is_retx payload_size st = (0, poll_upd ?a ?b (ta_poll_sn st) (ta_poll_timer st) st)"
    unfolding get_polling_bit_eq[OF assms] using False by auto
  ultimately show ?thesis by (metis word_zero_le)
qed

subsection \<open>Data PDUs\<close>

text \<open>The segmentation info for \<open>n\<close> bytes from offset \<open>so\<close> of an SDU of \<open>len\<close> bytes, and the data PDU.\<close>

definition seg_kind :: "nat \<Rightarrow> nat \<Rightarrow> nat \<Rightarrow> rlc_si_field" where
  "seg_kind so n len = (if so = 0 then (if n = len then full_sdu else first_segment)
     else if so + n = len then last_segment else middle_segment)"

definition am_pdu_of :: "rlc_am_sn_size \<Rightarrow> u8 \<Rightarrow> u32 \<Rightarrow> bytes \<Rightarrow> nat \<Rightarrow> nat \<Rightarrow> bytes" where
  "am_pdu_of s p sn sdu so n = rlc_am_write_data_pdu_header
     \<lparr>amh_dc = dc_data, amh_p = p, amh_si = seg_kind so n (length sdu), amh_sn_size = s, amh_sn = sn, amh_so = of_nat so\<rparr>
     @ take n (drop so sdu)"

definition am_hdr_len :: "rlc_am_sn_size \<Rightarrow> nat \<Rightarrow> nat" where
  "am_hdr_len s so = (if so = 0 then rlc_am_pdu_header_min_size s else rlc_am_pdu_header_max_size s)"

lemma am_pdu_header_ok:
  assumes "p \<le> 1" and "unat sn < 2 ^ am_to_number s" and "so < 65536"
  shows "am_header_ok \<lparr>amh_dc = dc_data, amh_p = p, amh_si = seg_kind so n l, amh_sn_size = s, amh_sn = sn, amh_so = of_nat so\<rparr>"
proof -
  have "(of_nat so :: u16) = 0 \<longleftrightarrow> so = 0"
    using unat_of_nat_u16[of so] assms(3) by (simp add: word_unat_eq_iff)
  then show ?thesis using assms by (auto simp: am_header_ok_def seg_kind_def)
qed

lemma length_am_header:
  assumes "p \<le> 1" and "unat sn < 2 ^ am_to_number s" and "so < 65536"
  shows "length (rlc_am_write_data_pdu_header \<lparr>amh_dc = dc_data, amh_p = p, amh_si = seg_kind so n l, amh_sn_size = s,
     amh_sn = sn, amh_so = of_nat so\<rparr>) = am_hdr_len s so"
  using length_write_am_header[OF am_pdu_header_ok[OF assms]]
  by (auto simp: amh_get_packed_size_def am_hdr_len_def seg_kind_def)

lemma length_am_pdu_of:
  assumes "p \<le> 1" and "unat sn < 2 ^ am_to_number s" and "so + n \<le> length sdu" and "so < 65536"
  shows "length (am_pdu_of s p sn sdu so n) = am_hdr_len s so + n"
  using length_am_header[OF assms(1,2,4)] assms(3) by (simp add: am_pdu_of_def)

text \<open>A data PDU of the window: \<open>n\<close> bytes from offset \<open>so\<close> of the SDU \<open>sn\<close>.\<close>

definition tx_data_pdu :: "rlc_am_sn_size \<Rightarrow> rlc_tx_am_sdu_info circular_map \<Rightarrow> u32 \<Rightarrow> nat \<Rightarrow> nat \<Rightarrow> bytes \<Rightarrow> bool" where
  "tx_data_pdu s w sn so n pdu \<longleftrightarrow> (\<exists>sdu p. win_sdus w sn = Some sdu \<and> p \<le> 1 \<and> 0 < n
     \<and> so + n \<le> length sdu \<and> pdu = am_pdu_of s p sn sdu so n)"

lemma head_sizes: "head_min_size st = am_hdr_len (ta_size st) 0" "0 < so \<Longrightarrow> head_max_size st = am_hdr_len (ta_size st) so"
    "am_hdr_len s so \<le> 5" "0 < am_hdr_len s so"
  by (cases s; simp add: head_min_size_def head_max_size_def am_hdr_len_def rlc_am_pdu_header_max_size_def
      rlc_am_pdu_header_so_size_def)+

lemma unat_ucast_u16: "unat (so :: u32) < 65536 \<Longrightarrow> unat (ucast so :: u16) = unat so"
  by (simp add: unsigned_ucast_eq take_bit_eq_mod)

lemma copy_view_all: "n \<le> space \<Longrightarrow> copy_view sdu so n space = take n (drop so sdu)"
  by (simp add: copy_view_def min_def)

text \<open>Writing \<open>n\<close> bytes from offset \<open>so\<close>, as all four builders do it.\<close>

lemma build_payload:
  assumes "p \<le> 1" and "unat sn < 2 ^ am_to_number s" and "unat (so :: u32) < 65536" and "ta_size st' = s"
    and "si = seg_kind (unat so) n (length sdu)" and "0 < n" and "unat so + n \<le> length sdu"
    and "am_hdr_len s (unat so) + n \<le> grant_len"
  defines "hdr \<equiv> ta_data_header st' p si sn (ucast so)"
  shows "rlc_am_write_data_pdu_header hdr
      @ copy_view sdu (unat (amh_so hdr)) n (grant_len - length (rlc_am_write_data_pdu_header hdr))
      = am_pdu_of s p sn sdu (unat so) n"
    "length (copy_view sdu (unat (amh_so hdr)) n (grant_len - length (rlc_am_write_data_pdu_header hdr))) = n"
    "length (rlc_am_write_data_pdu_header hdr) = am_hdr_len s (unat so)"
    "copy_view sdu (unat (amh_so hdr)) n (grant_len - length (rlc_am_write_data_pdu_header hdr)) \<noteq> []"
proof -
  have hdr: "hdr = \<lparr>amh_dc = dc_data, amh_p = p, amh_si = seg_kind (unat so) n (length sdu),
     amh_sn_size = s, amh_sn = sn, amh_so = of_nat (unat so)\<rparr>"
    using assms by (simp add: hdr_def ta_data_header_def)
  show len: "length (rlc_am_write_data_pdu_header hdr) = am_hdr_len s (unat so)"
    unfolding hdr by (rule length_am_header) (use assms in auto)
  have so: "unat (amh_so hdr) = unat so"
    using assms(3) by (simp add: hdr unat_ucast_u16)
  have fits: "n \<le> grant_len - length (rlc_am_write_data_pdu_header hdr)"
    using assms(8) len by simp
  show "rlc_am_write_data_pdu_header hdr
      @ copy_view sdu (unat (amh_so hdr)) n (grant_len - length (rlc_am_write_data_pdu_header hdr))
      = am_pdu_of s p sn sdu (unat so) n"
    unfolding so copy_view_all[OF fits] am_pdu_of_def by (simp add: hdr)
  show copied: "length (copy_view sdu (unat (amh_so hdr)) n (grant_len - length (rlc_am_write_data_pdu_header hdr))) = n"
    unfolding so copy_view_all[OF fits] using assms(7) by simp
  show "copy_view sdu (unat (amh_so hdr)) n (grant_len - length (rlc_am_write_data_pdu_header hdr)) \<noteq> []"
    using copied assms(6) by auto
qed

lemma build_first_spec:
  assumes info: "win_at (ta_window st) (ta_tx_next st) = Some info" "ti_next_so info = 0" "length (ti_sdu info) \<le> am_max_sdu"
    and wf: "cm_wf k (ta_window st)" and nxt: "unat (ta_tx_next st) < 2 ^ am_to_number (ta_size st)"
    and n: "grant_len = head_min_size st + n" "0 < n" "n < length (ti_sdu info)"
    and polls: "tx_cfg_ok (ta_cfg st)" "tx_polls (ta_cfg st) (ta_pdu_without_poll st) (ta_byte_without_poll st)"
  shows "\<exists>p a b c d w'. build_first_sdu_segment grant_len st =
     Some (am_pdu_of (ta_size st) p (ta_tx_next st) (ti_sdu info) 0 n,
       (poll_upd a b c d st)\<lparr>ta_sn_under_segmentation := ta_tx_next st, ta_window := w'\<rparr>)
     \<and> p \<le> 1 \<and> tx_polls (ta_cfg st) a b \<and> cm_wf k w'
     \<and> win_at w' = (win_at (ta_window st))(ta_tx_next st \<mapsto> info\<lparr>ti_next_so := of_nat n\<rparr>)"
proof -
  let ?st = "st\<lparr>ta_sn_under_segmentation := ta_tx_next st\<rparr>"
  have small: "n < 2 ^ 31" "unat (of_nat n :: u32) = n"
    using n info(3) by (simp_all add: am_max_sdu_def unat_of_nat_u32)
  obtain p a b c d where poll: "get_polling_bit (ta_tx_next st) False (of_nat n) ?st = (p, poll_upd a b c d ?st)"
      "p \<le> 1" "tx_polls (ta_cfg st) a b"
    using get_polling_bit_spec[of ?st "of_nat n" "ta_tx_next st" False] polls small by auto
  obtain w' where w': "win_set (ta_window st) (ta_tx_next st) (info\<lparr>ti_next_so := of_nat n\<rparr>) = Some w'" "cm_wf k w'"
      "win_at w' = (win_at (ta_window st))(ta_tx_next st \<mapsto> info\<lparr>ti_next_so := of_nat n\<rparr>)"
    using win.upd_present[OF wf, of "ta_tx_next st"] info(1) by (auto simp: has_sn_win_at)
  have hs: "head_min_size st = am_hdr_len (ta_size st) 0" "am_hdr_len (ta_size st) 0 + n \<le> grant_len"
    using n by (simp_all add: head_sizes)
  note pay = build_payload[OF poll(2) nxt, of 0 "poll_upd a b c d ?st" first_segment n "ti_sdu info" grant_len]
  have "build_first_sdu_segment grant_len st = Some (am_pdu_of (ta_size st) p (ta_tx_next st) (ti_sdu info) 0 n,
       (poll_upd a b c d st)\<lparr>ta_sn_under_segmentation := ta_tx_next st, ta_window := w'\<rparr>)"
    unfolding build_first_sdu_segment_def
    using info(1,2) n poll(1) w'(1) pay hs small(2) by (simp add: Let_def seg_kind_def)
  then show ?thesis using poll(2,3) w'(2,3) by blast
qed

lemma build_continued_spec:
  assumes info: "win_at (ta_window st) (ta_tx_next st) = Some info" "length (ti_sdu info) \<le> am_max_sdu"
      "0 < unat (ti_next_so info)" "unat (ti_next_so info) < length (ti_sdu info)"
    and wf: "cm_wf k (ta_window st)" and nxt: "unat (ta_tx_next st) < 2 ^ am_to_number (ta_size st)"
    and grant: "head_max_size st < grant_len"
    and polls: "tx_cfg_ok (ta_cfg st)" "tx_polls (ta_cfg st) (ta_pdu_without_poll st) (ta_byte_without_poll st)"
  defines "n \<equiv> min (length (ti_sdu info) - unat (ti_next_so info)) (grant_len - head_max_size st)"
  defines "complete \<equiv> unat (ti_next_so info) + n = length (ti_sdu info)"
  shows "\<exists>p a b c d w'. build_continued_sdu_segment grant_len (ta_tx_next st) st =
     Some (am_pdu_of (ta_size st) p (ta_tx_next st) (ti_sdu info) (unat (ti_next_so info)) n,
       (poll_upd a b c d st)\<lparr>ta_sn_under_segmentation := (if complete then INVALID_RLC_SN else ta_sn_under_segmentation st),
          ta_window := w', ta_tx_next := (if complete then am_inc (ta_size st) (ta_tx_next st) else ta_tx_next st)\<rparr>)
     \<and> p \<le> 1 \<and> tx_polls (ta_cfg st) a b \<and> cm_wf k w'
     \<and> win_at w' = (win_at (ta_window st))(ta_tx_next st \<mapsto> info\<lparr>ti_next_so := ti_next_so info + of_nat n\<rparr>)"
proof -
  let ?so = "ti_next_so info" and ?len = "length (ti_sdu info)"
  let ?st = "st\<lparr>ta_sn_under_segmentation := (if complete then INVALID_RLC_SN else ta_sn_under_segmentation st)\<rparr>"
  have n: "0 < n" "unat ?so + n \<le> ?len" "n < 2 ^ 31"
    using info grant by (auto simp: n_def am_max_sdu_def)
  have rest: "unat (of_nat ?len - ?so) = ?len - unat ?so"
    using info by (subst unat_sub) (auto simp: word_le_nat_alt unat_of_nat_u32 am_max_sdu_def)
  have hs: "head_max_size st = am_hdr_len (ta_size st) (unat ?so)" "am_hdr_len (ta_size st) (unat ?so) \<le> 5"
    using info(3) by (simp_all add: head_sizes)
  have sum: "unat (of_nat ?len - ?so + of_nat (head_max_size st)) = ?len - unat ?so + head_max_size st"
    using hs info(2) by (subst unat_plus_u32) (simp_all add: rest unat_of_nat_u32 am_max_sdu_def)
  have more_iff: "unat (of_nat ?len - ?so + of_nat (head_max_size st)) > grant_len \<longleftrightarrow> \<not> complete"
    using grant info(4) unfolding sum complete_def n_def by auto
  have len_w: "(if \<not> complete then of_nat (grant_len - head_max_size st) else of_nat ?len - ?so) = (of_nat n :: u32)"
    using rest grant info(4) by (auto simp: complete_def n_def min_def word_unat_eq_iff unat_of_nat_u32 am_max_sdu_def)
  have fits: "am_hdr_len (ta_size st) (unat ?so) + n \<le> grant_len"
    using hs grant by (simp add: n_def)
  have si: "(if \<not> complete then middle_segment else last_segment) = seg_kind (unat ?so) n ?len"
    using info(3) by (simp add: seg_kind_def complete_def)
  obtain p a b c d where poll: "get_polling_bit (ta_tx_next st) False (of_nat n) ?st = (p, poll_upd a b c d ?st)"
      "p \<le> 1" "tx_polls (ta_cfg st) a b"
    using get_polling_bit_spec[of ?st "of_nat n" "ta_tx_next st" False] polls n(3) by (auto simp: unat_of_nat_u32)
  obtain w' where w': "win_set (ta_window st) (ta_tx_next st) (info\<lparr>ti_next_so := ?so + of_nat n\<rparr>) = Some w'" "cm_wf k w'"
      "win_at w' = (win_at (ta_window st))(ta_tx_next st \<mapsto> info\<lparr>ti_next_so := ?so + of_nat n\<rparr>)"
    using win.upd_present[OF wf, of "ta_tx_next st"] info(1) by auto
  have so0: "?so \<noteq> 0" using info(3) by auto
  have so16: "unat ?so < 65536" using info by (simp add: am_max_sdu_def)
  note pay = build_payload[OF poll(2) nxt so16 _ si n(1,2) fits, of "poll_upd a b c d ?st"]
  have eq: "build_continued_sdu_segment grant_len (ta_tx_next st) st =
     Some (am_pdu_of (ta_size st) p (ta_tx_next st) (ti_sdu info) (unat ?so) n,
       (poll_upd a b c d st)\<lparr>ta_sn_under_segmentation := (if complete then INVALID_RLC_SN else ta_sn_under_segmentation st),
          ta_window := w', ta_tx_next := (if complete then am_inc (ta_size st) (ta_tx_next st) else ta_tx_next st)\<rparr>)"
    unfolding build_continued_sdu_segment_def Let_def info(1) bind.bind_lunit more_iff len_w
    using so0 info(4) grant poll(1) w'(1) pay n(3) by (cases complete) (simp_all add: unat_of_nat_u32)
  then show ?thesis using poll(2,3) w'(2,3) by blast
qed

subsection \<open>The stream of SDUs that are not acknowledged\<close>

definition sn_plus :: "rlc_am_sn_size \<Rightarrow> u32 \<Rightarrow> nat \<Rightarrow> u32" where
  "sn_plus s b i = take_bit (am_to_number s) (b + of_nat i)"

lemma am_off_sn_plus: "i < 2 ^ am_to_number s \<Longrightarrow> am_off s b (sn_plus s b i) = i"
proof -
  assume i: "i < 2 ^ am_to_number s"
  then have "i < 2 ^ 32" by (cases s) auto
  then show ?thesis
    using i sn_off_add[OF am_to_number_32(1), of s b b "of_nat i"]
    by (simp add: sn_plus_def sn_off_take_bit am_to_number_32 unat_of_nat_u32)
qed

lemma sn_plus_bound: "unat (sn_plus s b i) < 2 ^ am_to_number s"
  by (simp add: sn_plus_def unat_take_bit_u32)

lemma sn_plus_am_off: "unat x < 2 ^ am_to_number s \<Longrightarrow> sn_plus s b (am_off s b x) = x"
  using am_off_inj[OF sn_plus_bound, of x s b b "am_off s b x"] am_off_sn_plus[OF am_off_less, of s b b x] by simp

lemma sn_plus_0: "unat b < 2 ^ am_to_number s \<Longrightarrow> sn_plus s b 0 = b"
  by (simp add: sn_plus_def take_bit_of_bound)

lemma sn_plus_Suc: "sn_plus s b (Suc i) = sn_plus s (am_inc s b) i"
proof -
  have "b + of_nat (Suc i) = (b + 1) + of_nat i"
    by simp
  then show ?thesis
    unfolding sn_plus_def am_inc_sn_inc sn_inc_def take_bit_add_left[OF am_to_number_32(1)] by (rule arg_cong)
qed

text \<open>The SDUs of the window in the order of their sequence numbers, followed by those waiting.\<close>

definition window_stream :: "rlc_am_sn_size \<Rightarrow> u32 \<Rightarrow> nat \<Rightarrow> rlc_tx_am_sdu_info circular_map \<Rightarrow> bytes list" where
  "window_stream s ack k w = map (\<lambda>i. the (win_sdus w (sn_plus s ack i))) [0..<k]"

definition ta_nof :: "rlc_tx_am \<Rightarrow> nat" where
  "ta_nof st = tx_end (ta_size st) (ta_tx_next_ack st) (ta_tx_next st) (ta_sn_under_segmentation st)"

definition ta_stream :: "rlc_tx_am \<Rightarrow> bytes list" where
  "ta_stream st = window_stream (ta_size st) (ta_tx_next_ack st) (ta_nof st) (ta_window st)
     @ map sdu_buf (sq_abs (ta_sdu_queue st))"

lemma window_stream_cong: "win_sdus w' = win_sdus w \<Longrightarrow> window_stream s ack k w' = window_stream s ack k w"
  by (simp add: window_stream_def)

lemma window_stream_Suc: "window_stream s ack (Suc k) w = window_stream s ack k w @ [the (win_sdus w (sn_plus s ack k))]"
  by (simp add: window_stream_def)

subsection \<open>Changes of the window\<close>

lemma win_sdus_upd:
  assumes "win_at w' = (win_at w)(sn \<mapsto> info')" and "win_at w sn = Some info" and "ti_sdu info' = ti_sdu info"
  shows "win_sdus w' = win_sdus w"
  using assms by (auto simp: win_sdus_def fun_eq_iff)

lemma tx_win_upd:
  assumes "tx_win s ack nxt seg w" and "cm_wf (am_to_number s - 1) w'" and "win_sdus w' = win_sdus w"
  shows "tx_win s ack nxt seg w'"
proof -
  have "win_at w' sn \<noteq> None \<longleftrightarrow> win_at w sn \<noteq> None" for sn
    using fun_cong[OF assms(3), of sn] by (cases "win_at w' sn"; cases "win_at w sn") (simp_all add: win_sdus_def)
  then show ?thesis using assms(1,2) by (simp add: tx_win_def)
qed

text \<open>The last segment was sent: \<open>TX_Next\<close> moves on.\<close>

lemma tx_win_finish:
  assumes "tx_win s ack nxt nxt w"
  shows "tx_win s ack (am_inc s nxt) INVALID_RLC_SN w" "tx_end s ack (am_inc s nxt) INVALID_RLC_SN = tx_end s ack nxt nxt"
proof -
  have nxt: "nxt \<noteq> INVALID_RLC_SN"
    using assms invalid_not_sn by (auto simp: tx_win_def)
  then have "am_off s ack nxt + 1 < 2 ^ am_to_number s"
    using assms am_W(4)[of s] by (simp add: tx_win_def tx_end_def)
  then have "am_off s ack (am_inc s nxt) = am_off s ack nxt + 1"
    by (simp add: am_off_inc)
  then show e: "tx_end s ack (am_inc s nxt) INVALID_RLC_SN = tx_end s ack nxt nxt"
    using nxt by (simp add: tx_end_def)
  have "unat (am_inc s nxt) < 2 ^ am_to_number s"
    by (simp add: am_inc_sn_inc sn_inc_less)
  then show "tx_win s ack (am_inc s nxt) INVALID_RLC_SN w"
    using assms by (simp add: tx_win_def e)
qed

text \<open>\<open>TX_Next\<close> was added.\<close>

lemma tx_win_added:
  assumes win: "tx_win s ack nxt INVALID_RLC_SN w" and room: "am_off s ack nxt < am_W s"
    and w': "cm_wf (am_to_number s - 1) w'" "win_at w' = (win_at w)(nxt \<mapsto> info)"
  shows "tx_win s ack nxt nxt w'" "tx_end s ack nxt nxt = Suc (tx_end s ack nxt INVALID_RLC_SN)"
proof -
  have nxt: "nxt \<noteq> INVALID_RLC_SN" "unat nxt < 2 ^ am_to_number s"
    using win invalid_not_sn by (auto simp: tx_win_def)
  then show e: "tx_end s ack nxt nxt = Suc (tx_end s ack nxt INVALID_RLC_SN)"
    by (simp add: tx_end_def)
  have "win_at w' sn \<noteq> None \<longleftrightarrow> unat sn < 2 ^ am_to_number s \<and> am_off s ack sn < Suc (am_off s ack nxt)" for sn
    using win nxt(2) am_off_inj[of sn s nxt ack] unfolding w'(2)
    by (auto simp: tx_win_def tx_end_def less_Suc_eq)
  then show "tx_win s ack nxt nxt w'"
    using win room w'(1) by (simp add: tx_win_def e) (simp add: tx_end_def)
qed

lemma tx_retx_upd: "tx_retx s w q \<Longrightarrow> win_sdus w \<subseteq>\<^sub>m win_sdus w' \<Longrightarrow> tx_retx s w' q"
  by (fastforce simp: tx_retx_def retx_ok_def map_le_def dom_def)

lemma tx_infosD: "tx_infos seg w \<Longrightarrow> win_at w sn = Some info \<Longrightarrow> tx_info_ok (sn = seg) info"
  by (simp add: tx_infos_def)

lemma tx_win_invalid: "tx_win s ack nxt seg w \<Longrightarrow> win_at w INVALID_RLC_SN = None"
  using invalid_not_sn[of INVALID_RLC_SN s] unfolding tx_win_def by blast

lemma tx_infos_upd:
  assumes "win_at w INVALID_RLC_SN = None" and "tx_infos seg w" and "win_at w' = (win_at w)(sn \<mapsto> info)"
    and "tx_info_ok (sn = seg') info" and "seg \<in> {INVALID_RLC_SN, sn}" and "seg' \<in> {INVALID_RLC_SN, sn}"
  shows "tx_infos seg' w'"
proof -
  have "tx_info_ok (x = seg') i" if "win_at w x = Some i" "x \<noteq> sn" for x i
  proof -
    have "x \<noteq> INVALID_RLC_SN"
      using assms(1) that(1) by auto
    then show ?thesis using tx_infosD[OF assms(2) that(1)] that(2) assms(5,6) by auto
  qed
  then show ?thesis using assms(3,4) by (simp add: tx_infos_def)
qed

subsection \<open>What a grant gives\<close>

text \<open>The bytes that are left to be sent: retransmissions, the rest of the SDU under segmentation and the
  waiting SDUs.\<close>

definition ta_seg_left :: "rlc_tx_am \<Rightarrow> nat" where
  "ta_seg_left st = (case win_at (ta_window st) (ta_sn_under_segmentation st) of None \<Rightarrow> 0
     | Some info \<Rightarrow> length (ti_sdu info) - unat (ti_next_so info))"

definition ta_unsent :: "rlc_tx_am \<Rightarrow> nat" where
  "ta_unsent st = retx_bytes (rq_abs (ta_retx_queue st)) + ta_seg_left st + sdu_bytes (sq_abs (ta_sdu_queue st))"

text \<open>Of the SDU under segmentation nothing is retransmitted beyond what was sent.  The transmitter relies on
  the peer for this: the reports it gets must not ask for more.\<close>

definition sent_below :: "rlc_tx_am \<Rightarrow> u32 \<Rightarrow> nat \<Rightarrow> bool" where
  "sent_below st sn k \<longleftrightarrow> (sn = ta_sn_under_segmentation st
     \<longrightarrow> (\<forall>info. win_at (ta_window st) sn = Some info \<longrightarrow> k \<le> unat (ti_next_so info)))"

definition ta_low :: "rlc_tx_am \<Rightarrow> bool" where
  "ta_low st \<longleftrightarrow> (\<forall>r \<in> set (rq_abs (ta_retx_queue st)). sent_below st (rt_sn r) (unat (rt_so r) + unat (rt_length r)))"

text \<open>A grant gives nothing, or a data PDU with some of those bytes.\<close>

definition ta_advanced :: "rlc_tx_am \<Rightarrow> rlc_tx_am \<Rightarrow> bool" where
  "ta_advanced st st' \<longleftrightarrow> (ta_low st \<longrightarrow> ta_low st') \<and> win_sdus (ta_window st) \<subseteq>\<^sub>m win_sdus (ta_window st')
     \<and> (\<forall>sn k. win_at (ta_window st) sn \<noteq> None \<longrightarrow> sent_below st sn k \<longrightarrow> sent_below st' sn k)
     \<and> am_off (ta_size st) (ta_tx_next_ack st) (ta_tx_next st) \<le> am_off (ta_size st) (ta_tx_next_ack st) (ta_tx_next st')"

definition ta_sent :: "rlc_tx_am \<Rightarrow> nat \<Rightarrow> bytes \<Rightarrow> rlc_tx_am \<Rightarrow> bool" where
  "ta_sent st grant_len pdu st' \<longleftrightarrow> ta_inv st' \<and> ta_cfg st' = ta_cfg st \<and> ta_tx_next_ack st' = ta_tx_next_ack st
     \<and> ta_stream st' = ta_stream st \<and> ta_nof st \<le> ta_nof st' \<and> length pdu \<le> grant_len \<and> ta_advanced st st'
     \<and> (pdu = [] \<and> ta_unsent st' = ta_unsent st
          \<or> (\<exists>sn so n. tx_data_pdu (ta_size st) (ta_window st') sn so n pdu \<and> ta_unsent st' + n = ta_unsent st
                \<and> (ta_low st \<longrightarrow> sent_below st' sn (so + n))))"

lemma ta_advanced_same:
  assumes "win_at (ta_window st') = win_at (ta_window st)" and "ta_sn_under_segmentation st' = ta_sn_under_segmentation st"
    and "ta_tx_next st' = ta_tx_next st" and "set (rq_abs (ta_retx_queue st')) \<subseteq> set (rq_abs (ta_retx_queue st))"
  shows "ta_advanced st st'"
  using assms by (auto simp: ta_advanced_def ta_low_def sent_below_def win_sdus_def map_le_def)

lemma ta_sent_nothing: "ta_inv st \<Longrightarrow> ta_sent st grant_len [] st"
  by (simp add: ta_sent_def ta_advanced_same)

text \<open>The SDU with sequence number \<open>TX_Next\<close> enters the window or makes progress.\<close>

lemma ta_advanced_next:
  assumes inv: "ta_inv st" and w': "win_at (ta_window st') = (win_at (ta_window st))(ta_tx_next st \<mapsto> info)"
    and seg: "ta_sn_under_segmentation st' \<in> {INVALID_RLC_SN, ta_tx_next st}" and q: "ta_retx_queue st' = ta_retx_queue st"
    and old: "\<And>i. win_at (ta_window st) (ta_tx_next st) = Some i \<Longrightarrow> ta_sn_under_segmentation st = ta_tx_next st
       \<and> ti_sdu info = ti_sdu i \<and> ti_next_so i \<le> ti_next_so info"
    and nxt: "am_off (ta_size st) (ta_tx_next_ack st) (ta_tx_next st) \<le> am_off (ta_size st) (ta_tx_next_ack st) (ta_tx_next st')"
  shows "ta_advanced st st'"
proof -
  have win: "tx_win (ta_size st) (ta_tx_next_ack st) (ta_tx_next st) (ta_sn_under_segmentation st) (ta_window st)"
    using inv by (simp add: ta_inv_def)
  have none: "win_at (ta_window st) INVALID_RLC_SN = None" using tx_win_invalid[OF win] .
  have below: "sent_below st' sn k" if "win_at (ta_window st) sn \<noteq> None" "sent_below st sn k" for sn k
    using that none seg old unfolding sent_below_def w' by (fastforce simp: word_le_nat_alt intro: order_trans)
  have "ta_low st'" if "ta_low st"
    unfolding ta_low_def q
  proof
    fix r assume r: "r \<in> set (rq_abs (ta_retx_queue st))"
    then have "win_at (ta_window st) (rt_sn r) \<noteq> None"
      using inv by (auto simp: ta_inv_def tx_retx_def retx_ok_def win_sdus_def)
    then show "sent_below st' (rt_sn r) (unat (rt_so r) + unat (rt_length r))"
      using below that r by (simp add: ta_low_def)
  qed
  moreover have "win_sdus (ta_window st) \<subseteq>\<^sub>m win_sdus (ta_window st')"
    using old by (auto simp: map_le_def win_sdus_def w')
  ultimately show ?thesis using below nxt by (simp add: ta_advanced_def)
qed

lemma tx_data_pdu_nonempty: "tx_data_pdu s w sn so n pdu \<Longrightarrow> pdu \<noteq> []"
  by (auto simp: tx_data_pdu_def am_pdu_of_def)

lemma ta_sentI:
  assumes "ta_inv st'" and "ta_cfg st' = ta_cfg st" and "ta_tx_next_ack st' = ta_tx_next_ack st" and "ta_stream st' = ta_stream st"
    and "ta_nof st \<le> ta_nof st'" and "length pdu \<le> grant_len" and "tx_data_pdu (ta_size st) (ta_window st') sn so n pdu"
    and "ta_unsent st' + n = ta_unsent st" and "ta_advanced st st'" and "ta_low st \<Longrightarrow> sent_below st' sn (so + n)"
  shows "ta_sent st grant_len pdu st' \<and> pdu \<noteq> []"
  using assms tx_data_pdu_nonempty[OF assms(7)] unfolding ta_sent_def by blast

lemma continued_sent:
  assumes inv: "ta_inv st" and seg: "ta_sn_under_segmentation st \<noteq> INVALID_RLC_SN"
  shows "\<exists>pdu st'. build_continued_sdu_segment grant_len (ta_sn_under_segmentation st) st = Some (pdu, st') \<and> ta_sent st grant_len pdu st'
     \<and> (head_max_size st < grant_len \<longrightarrow> pdu \<noteq> [])"
proof -
  let ?s = "ta_size st" and ?ack = "ta_tx_next_ack st" and ?nxt = "ta_tx_next st"
  have win: "tx_win ?s ?ack ?nxt ?nxt (ta_window st)" and eq: "ta_sn_under_segmentation st = ?nxt"
    using inv seg by (auto simp: ta_inv_def tx_win_def)
  then have nxt: "unat ?nxt < 2 ^ am_to_number ?s" "?nxt \<noteq> INVALID_RLC_SN" and wf: "cm_wf (am_to_number ?s - 1) (ta_window st)"
    using seg by (auto simp: tx_win_def)
  then obtain info where info: "win_at (ta_window st) ?nxt = Some info"
    using win nxt by (auto simp: tx_win_def tx_end_def)
  have ok: "tx_info_ok True info"
    using tx_infosD[OF _ info, of ?nxt] inv eq by (simp add: ta_inv_def)
  show ?thesis
  proof (cases "grant_len \<le> head_max_size st")
    case True
    then have "build_continued_sdu_segment grant_len ?nxt st = Some ([], st)"
      using info ok by (auto simp: build_continued_sdu_segment_def tx_info_ok_def)
    then show ?thesis using ta_sent_nothing[OF inv] eq True by auto
  next
    case False
    let ?so = "unat (ti_next_so info)" and ?len = "length (ti_sdu info)"
    define n where "n = min (?len - ?so) (grant_len - head_max_size st)"
    define complete where "complete \<longleftrightarrow> ?so + n = ?len"
    have len: "?len \<le> am_max_sdu" "0 < ?so" "?so < ?len" and polls: "tx_cfg_ok (ta_cfg st)"
        "tx_polls (ta_cfg st) (ta_pdu_without_poll st) (ta_byte_without_poll st)"
      using ok inv by (simp_all add: tx_info_ok_def ta_inv_def)
    obtain p a b c d w' where built: "build_continued_sdu_segment grant_len ?nxt st =
       Some (am_pdu_of ?s p ?nxt (ti_sdu info) ?so n,
         (poll_upd a b c d st)\<lparr>ta_sn_under_segmentation := (if complete then INVALID_RLC_SN else ta_sn_under_segmentation st),
          ta_window := w', ta_tx_next := (if complete then am_inc ?s ?nxt else ?nxt)\<rparr>)"
       (is "_ = Some (?pdu, ?st')")
       "p \<le> 1" "tx_polls (ta_cfg st) a b" "cm_wf (am_to_number ?s - 1) w'"
       "win_at w' = (win_at (ta_window st))(?nxt \<mapsto> info\<lparr>ti_next_so := ti_next_so info + of_nat n\<rparr>)"
      using build_continued_spec[OF info len wf nxt(1) _ polls, of grant_len] False unfolding n_def complete_def by auto
    have n: "0 < n" "?so + n \<le> ?len" "n \<le> grant_len - head_max_size st"
      using len False by (auto simp: n_def)
    have "am_off ?s ?ack ?nxt + 1 \<le> am_W ?s" using win nxt(2) by (simp add: tx_win_def tx_end_def)
    then have nxt_le: "am_off ?s ?ack ?nxt \<le> am_off ?s ?ack (am_inc ?s ?nxt)"
      using am_W(4)[of ?s] by (simp add: am_off_inc)
    have so_n: "unat (ti_next_so info + of_nat n) = ?so + n"
      using n len by (subst unat_plus_u32) (simp_all add: unat_of_nat_u32 am_max_sdu_def)
    have sdus: "win_sdus w' = win_sdus (ta_window st)"
      by (rule win_sdus_upd[OF built(5) info]) simp
    have win': "tx_win ?s ?ack ?nxt ?nxt w'"
      by (rule tx_win_upd[OF win built(4) sdus])
    have "tx_infos (ta_sn_under_segmentation ?st') w'"
      using inv ok so_n len n nxt(2) eq
      by (intro tx_infos_upd[OF tx_win_invalid[OF win] _ built(5)]) (auto simp: ta_inv_def tx_info_ok_def complete_def)
    moreover have "tx_win ?s ?ack (ta_tx_next ?st') (ta_sn_under_segmentation ?st') w'" "ta_nof ?st' = ta_nof st"
      using win' tx_win_finish[OF win'] eq by (auto simp: ta_nof_def)
    moreover have "tx_retx ?s w' (ta_retx_queue st)"
      using tx_retx_upd[of ?s "ta_window st" "ta_retx_queue st" w'] inv sdus by (simp add: ta_inv_def)
    ultimately have "ta_inv ?st'" "ta_stream ?st' = ta_stream st" "ta_nof ?st' = ta_nof st"
      using inv built(3) window_stream_cong[OF sdus] by (simp_all add: ta_inv_def ta_stream_def)
    moreover have "tx_data_pdu ?s w' ?nxt ?so n ?pdu"
      using built(2) n info sdus by (auto simp: tx_data_pdu_def win_sdus_def)
    moreover have "length ?pdu \<le> grant_len"
      using length_am_pdu_of[OF built(2) nxt(1) n(2)] n(3) len head_sizes(2)[OF len(2), of st] False
      by (simp add: am_max_sdu_def)
    moreover have "ta_unsent ?st' + n = ta_unsent st"
      using built(5) so_n n(2) info eq nxt(2) tx_win_invalid[OF win]
      by (cases complete) (simp_all add: ta_unsent_def ta_seg_left_def complete_def)
    moreover have "ta_advanced st ?st'"
      by (rule ta_advanced_next[OF inv, of _ "info\<lparr>ti_next_so := ti_next_so info + of_nat n\<rparr>"])
        (use built(5) eq info so_n nxt_le in \<open>auto simp: word_le_nat_alt\<close>)
    moreover have "sent_below ?st' ?nxt (?so + n)"
      using built(5) so_n by (simp add: sent_below_def)
    ultimately have "ta_sent st grant_len ?pdu ?st' \<and> ?pdu \<noteq> []"
      using ta_sentI[of ?st' st ?pdu grant_len ?nxt ?so n] by simp
    then show ?thesis using built(1) eq by auto
  qed
qed

lemma window_stream_added:
  assumes "win_at w' = (win_at w)(nxt \<mapsto> info)" and "unat nxt < 2 ^ am_to_number s"
  shows "window_stream s ack (Suc (am_off s ack nxt)) w' = window_stream s ack (am_off s ack nxt) w @ [ti_sdu info]"
proof -
  have "sn_plus s ack i \<noteq> nxt" if "i < am_off s ack nxt" for i
    using am_off_sn_plus[of i s ack] that am_off_less[of s ack nxt] by auto
  then have "window_stream s ack (am_off s ack nxt) w' = window_stream s ack (am_off s ack nxt) w"
    unfolding window_stream_def win_sdus_def assms(1) by (intro map_cong) auto
  then show ?thesis
    using sn_plus_am_off[OF assms(2), of ack] by (simp add: window_stream_Suc win_sdus_def assms(1))
qed

lemma sq_read_sdus:
  assumes "tx_sdus q" and "sq_read sdu0 q = (ok, sdu, q')"
  shows "tx_sdus q'" "ok \<Longrightarrow> sq_abs q = sdu # sq_abs q' \<and> sdu_buf sdu \<noteq> [] \<and> length (sdu_buf sdu) \<le> am_max_sdu"
    "\<not> ok \<Longrightarrow> sq_abs q = [] \<and> sq_abs q' = []"
proof -
  have wf: "sq_wf q" and all: "\<forall>s \<in> set (sq_queue q). sdu_buf s \<noteq> [] \<and> length (sdu_buf s) \<le> am_max_sdu"
    using assms(1) by (simp_all add: tx_sdus_def)
  have r: "read_result (sq_abs q) (ok, sdu, q')"
    using sq_read_spec[OF wf, of sdu0] assms(2) by simp
  show "tx_sdus q'"
    using r all sq_read_sets[OF assms(2)] by (auto simp: tx_sdus_def read_result_def)
  show "\<not> ok \<Longrightarrow> sq_abs q = [] \<and> sq_abs q' = []"
    using r by (simp add: read_result_def)
  assume ok
  then have abs: "sq_abs q = sdu # sq_abs q'" using r by (simp add: read_result_def)
  then have "sdu \<in> set (sq_queue q)"
    by (metis filter_is_subset list.set_intros(1) sq_abs_def subsetD)
  then show "sq_abs q = sdu # sq_abs q' \<and> sdu_buf sdu \<noteq> [] \<and> length (sdu_buf sdu) \<le> am_max_sdu"
    using abs all by blast
qed

text \<open>A new SDU enters the window; then it is sent whole or its first segment is sent.\<close>

lemma new_entry:
  assumes inv: "ta_inv st" and seg: "ta_sn_under_segmentation st = INVALID_RLC_SN" and full: "\<not> is_tx_window_full st"
    and info: "ti_sdu info \<noteq> []" "length (ti_sdu info) \<le> am_max_sdu" "ti_next_so info = 0"
  obtains w where "add_sn (ta_window st) (ta_tx_next st) info = Some w" "cm_wf (am_to_number (ta_size st) - 1) w"
    "win_at w = (win_at (ta_window st))(ta_tx_next st \<mapsto> info)"
    "tx_win (ta_size st) (ta_tx_next_ack st) (ta_tx_next st) (ta_tx_next st) w"
    "tx_infos INVALID_RLC_SN w" "tx_retx (ta_size st) w (ta_retx_queue st)"
    "tx_end (ta_size st) (ta_tx_next_ack st) (ta_tx_next st) (ta_tx_next st) = Suc (ta_nof st)"
    "window_stream (ta_size st) (ta_tx_next_ack st) (Suc (ta_nof st)) w
      = window_stream (ta_size st) (ta_tx_next_ack st) (ta_nof st) (ta_window st) @ [ti_sdu info]"
    "ta_nof st = am_off (ta_size st) (ta_tx_next_ack st) (ta_tx_next st)"
proof -
  let ?s = "ta_size st" and ?ack = "ta_tx_next_ack st" and ?nxt = "ta_tx_next st"
  have win: "tx_win ?s ?ack ?nxt INVALID_RLC_SN (ta_window st)" and infos: "tx_infos INVALID_RLC_SN (ta_window st)"
      and retx: "tx_retx ?s (ta_window st) (ta_retx_queue st)"
    using inv seg by (simp_all add: ta_inv_def)
  have nof: "ta_nof st = am_off ?s ?ack ?nxt"
    using seg by (simp add: ta_nof_def tx_end_def)
  have room: "am_off ?s ?ack ?nxt < am_W ?s"
    using full tx_win_full[OF win] win by (simp add: is_tx_window_full_def tx_win_def tx_end_def)
  obtain w where w: "add_sn (ta_window st) ?nxt info = Some w" "cm_wf (am_to_number ?s - 1) w"
      "win_at w = (win_at (ta_window st))(?nxt \<mapsto> info)"
    using tx_win_add[OF win room] by blast
  have absent: "win_at (ta_window st) ?nxt = None"
    using win by (auto simp: tx_win_def tx_end_def)
  have nxt: "unat ?nxt < 2 ^ am_to_number ?s" using win by (simp add: tx_win_def)
  have "tx_infos INVALID_RLC_SN w"
    by (rule tx_infos_upd[OF tx_win_invalid[OF win] infos w(3)]) (use info invalid_not_sn[OF nxt] in \<open>auto simp: tx_info_ok_def\<close>)
  moreover have "tx_retx ?s w (ta_retx_queue st)"
    by (rule tx_retx_upd[OF retx]) (use absent in \<open>auto simp: map_le_def win_sdus_def w(3) dom_def\<close>)
  moreover have "tx_win ?s ?ack ?nxt ?nxt w" "tx_end ?s ?ack ?nxt ?nxt = Suc (ta_nof st)"
    using tx_win_added[OF win room w(2,3)] nof by (simp_all add: tx_end_def)
  moreover have "window_stream ?s ?ack (Suc (ta_nof st)) w = window_stream ?s ?ack (ta_nof st) (ta_window st) @ [ti_sdu info]"
    unfolding nof by (rule window_stream_added[OF w(3) nxt])
  ultimately show ?thesis using that[OF w] nof by blast
qed

lemma new_sent:
  assumes inv: "ta_inv st" and seg: "ta_sn_under_segmentation st = INVALID_RLC_SN"
  shows "\<exists>pdu st' ev. build_new_pdu grant_len st = Some (pdu, st', ev) \<and> ta_sent st grant_len pdu st'
     \<and> (head_min_size st < grant_len \<and> \<not> is_tx_window_full st \<and> sq_abs (ta_sdu_queue st) \<noteq> [] \<longrightarrow> pdu \<noteq> [])"
proof (cases "grant_len \<le> head_min_size st \<or> is_tx_window_full st")
  case True
  then show ?thesis using ta_sent_nothing[OF inv] by (auto simp: build_new_pdu_def)
next
  case False
  let ?s = "ta_size st" and ?ack = "ta_tx_next_ack st" and ?nxt = "ta_tx_next st"
  obtain ok sdu q where rd: "sq_read sdu_default (ta_sdu_queue st) = (ok, sdu, q)"
    by (metis prod_cases3)
  have sdus: "tx_sdus (ta_sdu_queue st)" and polls: "tx_cfg_ok (ta_cfg st)"
      "tx_polls (ta_cfg st) (ta_pdu_without_poll st) (ta_byte_without_poll st)"
    using inv by (simp_all add: ta_inv_def)
  note q = sq_read_sdus[OF sdus rd]
  show ?thesis
  proof (cases ok)
    case no: False
    have "ta_sent st grant_len [] (st\<lparr>ta_sdu_queue := q\<rparr>)"
      using inv q(1) q(3)[OF no]
      by (simp add: ta_sent_def ta_inv_def ta_stream_def ta_nof_def ta_unsent_def ta_seg_left_def ta_advanced_same)
    then show ?thesis using False rd no q(3)[OF no] by (auto simp: build_new_pdu_def)
  next
    case yes: True
    let ?buf = "sdu_buf sdu"
    have buf: "?buf \<noteq> []" "length ?buf \<le> am_max_sdu" and abs: "sq_abs (ta_sdu_queue st) = sdu # sq_abs q"
      using q(2)[OF yes] by simp_all
    define info where "info = \<lparr>ti_sdu = ?buf, ti_is_retx = sdu_is_retx sdu, ti_pdcp_sn = sdu_pdcp_sn sdu,
      ti_next_so = 0, ti_retx_count = RETX_COUNT_NOT_STARTED\<rparr>"
    have i: "ti_sdu info = ?buf" "ti_next_so info = 0" by (simp_all add: info_def)
    obtain w where w: "add_sn (ta_window st) ?nxt info = Some w" "cm_wf (am_to_number ?s - 1) w"
        "win_at w = (win_at (ta_window st))(?nxt \<mapsto> info)" "tx_win ?s ?ack ?nxt ?nxt w"
        "tx_infos INVALID_RLC_SN w" "tx_retx ?s w (ta_retx_queue st)" "tx_end ?s ?ack ?nxt ?nxt = Suc (ta_nof st)"
        "window_stream ?s ?ack (Suc (ta_nof st)) w = window_stream ?s ?ack (ta_nof st) (ta_window st) @ [ti_sdu info]"
        "ta_nof st = am_off ?s ?ack ?nxt"
      using new_entry[OF inv seg, of info] False buf i by metis
    have nxt: "unat ?nxt < 2 ^ am_to_number ?s" using w(4) by (simp add: tx_win_def)
    have at: "win_at w ?nxt = Some info" by (simp add: w(3))
    have none: "win_at (ta_window st) INVALID_RLC_SN = None"
      using inv tx_win_invalid unfolding ta_inv_def by blast
    define ev where "ev = (case sdu_pdcp_sn sdu of None \<Rightarrow> []
             | Some sn \<Rightarrow> if sdu_is_retx sdu then [On_retransmitted_sdu sn]
                 else [On_transmitted_sdu sn (txam_queue_size_bytes (ta_cfg st))])"
    let ?st = "st\<lparr>ta_sdu_queue := q, ta_window := w\<rparr>"
    have absent: "win_at (ta_window st) ?nxt = None"
      using inv seg by (auto simp: ta_inv_def tx_win_def tx_end_def)
    have "am_off ?s ?ack ?nxt + 1 \<le> am_W ?s" using w(4,7,9) by (simp add: tx_win_def)
    then have nxt_le: "am_off ?s ?ack ?nxt \<le> am_off ?s ?ack (am_inc ?s ?nxt)"
      using am_W(4)[of ?s] by (simp add: am_off_inc)
    have stream: "window_stream ?s ?ack (Suc (ta_nof st)) w @ map sdu_buf (sq_abs q) = ta_stream st"
      by (simp add: w(8) i ta_stream_def abs)
    show ?thesis
    proof (cases "length ?buf + head_min_size st > grant_len")
      case segm: True
      define n where "n = grant_len - head_min_size st"
      have n: "grant_len = head_min_size ?st + n" "0 < n" "n < length (ti_sdu info)"
        using False segm by (auto simp: n_def head_min_size_def i)
      obtain p a b c d w' where built: "build_first_sdu_segment grant_len ?st = Some (am_pdu_of ?s p ?nxt ?buf 0 n,
          (poll_upd a b c d ?st)\<lparr>ta_sn_under_segmentation := ?nxt, ta_window := w'\<rparr>)" (is "_ = Some (?pdu, ?st')")
          "p \<le> 1" "tx_polls (ta_cfg st) a b" "cm_wf (am_to_number ?s - 1) w'"
          "win_at w' = (win_at w)(?nxt \<mapsto> info\<lparr>ti_next_so := of_nat n\<rparr>)"
        using build_first_spec[of ?st info "am_to_number ?s - 1" grant_len n] at i buf w(2) nxt n polls by auto
      have same: "win_sdus w' = win_sdus w"
        by (rule win_sdus_upd[OF built(5) at]) simp
      have "tx_infos ?nxt w'"
        using n buf i by (intro tx_infos_upd[OF tx_win_invalid[OF w(4)] w(5) built(5)])
          (auto simp: tx_info_ok_def unat_of_nat_u32 am_max_sdu_def)
      moreover have "tx_win ?s ?ack ?nxt ?nxt w'"
        by (rule tx_win_upd[OF w(4) built(4) same])
      moreover have "tx_retx ?s w' (ta_retx_queue st)"
        using tx_retx_upd[OF w(6), of w'] same by simp
      ultimately have "ta_inv ?st'" "ta_nof ?st' = Suc (ta_nof st)"
        using inv built(3) q(1) w(7) by (simp_all add: ta_inv_def ta_nof_def)
      moreover have "ta_stream ?st' = ta_stream st"
        using \<open>ta_nof ?st' = Suc (ta_nof st)\<close> stream window_stream_cong[OF same] by (simp add: ta_stream_def)
      moreover have "tx_data_pdu ?s w' ?nxt 0 n ?pdu"
        using built(2) n i at same by (auto simp: tx_data_pdu_def win_sdus_def)
      moreover have "length ?pdu \<le> grant_len"
        using length_am_pdu_of[OF built(2) nxt, of 0 n ?buf] n i by (simp add: head_sizes)
      moreover have "ta_unsent ?st' + n = ta_unsent st"
        using built(5) n i seg none abs buf by (simp add: ta_unsent_def ta_seg_left_def unat_of_nat_u32 am_max_sdu_def)
      moreover have "ta_advanced st ?st'"
        by (rule ta_advanced_next[OF inv, of _ "info\<lparr>ti_next_so := of_nat n\<rparr>"]) (use built(5) w(3) absent in auto)
      moreover have "sent_below ?st' ?nxt (0 + n)"
        using built(5) n i buf by (simp add: sent_below_def unat_of_nat_u32 am_max_sdu_def)
      ultimately have "ta_sent st grant_len ?pdu ?st' \<and> ?pdu \<noteq> []"
        using ta_sentI[of ?st' st ?pdu grant_len ?nxt 0 n] by simp
      moreover have "build_new_pdu grant_len st = Some (?pdu, ?st', ev)"
        using False yes rd w(1) built(1) segm by (simp add: build_new_pdu_def Let_def info_def ev_def head_min_size_def split: option.split)
      ultimately show ?thesis by blast
    next
      case whole: False
      obtain p a b c d where poll: "get_polling_bit ?nxt False 0 ?st = (p, poll_upd a b c d ?st)" "p \<le> 1" "tx_polls (ta_cfg st) a b"
        using get_polling_bit_spec[of ?st 0 ?nxt False] polls by auto
      let ?st' = "(poll_upd a b c d ?st)\<lparr>ta_tx_next := am_inc ?s ?nxt\<rparr>" and ?pdu = "am_pdu_of ?s p ?nxt ?buf 0 (length ?buf)"
      have fits: "am_hdr_len ?s 0 + length ?buf \<le> grant_len"
        using whole by (simp add: head_sizes)
      note pay = build_payload[OF poll(2) nxt, of 0 "poll_upd a b c d ?st" full_sdu "length ?buf" ?buf grant_len]
      have eq: "build_new_pdu grant_len st = Some (?pdu, ?st', ev)"
        using False yes rd w(1) whole poll(1) pay buf(1) fits
        by (simp add: build_new_pdu_def Let_def info_def ev_def head_min_size_def seg_kind_def ta_data_header_def split: option.split)
      have "ta_nof ?st' = Suc (ta_nof st)"
        using tx_win_finish(2)[OF w(4)] w(7) seg by (simp add: ta_nof_def)
      moreover have "ta_inv ?st'"
        using inv seg tx_win_finish(1)[OF w(4)] w(5,6) q(1) poll(3) by (simp add: ta_inv_def)
      moreover have "ta_stream ?st' = ta_stream st"
        using \<open>ta_nof ?st' = Suc (ta_nof st)\<close> stream by (simp add: ta_stream_def)
      moreover have "tx_data_pdu ?s w ?nxt 0 (length ?buf) ?pdu"
        using poll(2) buf i at by (auto simp: tx_data_pdu_def win_sdus_def)
      moreover have "length ?pdu \<le> grant_len"
        using length_am_pdu_of[OF poll(2) nxt, of 0 "length ?buf" ?buf] fits by simp
      moreover have "ta_unsent ?st' + length ?buf = ta_unsent st"
        using seg none tx_win_invalid[OF w(4)] abs by (simp add: ta_unsent_def ta_seg_left_def)
      moreover have "ta_advanced st ?st'"
        by (rule ta_advanced_next[OF inv, of _ info]) (use w(3) absent seg nxt_le in auto)
      moreover have "sent_below ?st' ?nxt (0 + length ?buf)"
        using invalid_not_sn[OF nxt] seg by (simp add: sent_below_def)
      ultimately have "ta_sent st grant_len ?pdu ?st' \<and> ?pdu \<noteq> []"
        using ta_sentI[of ?st' st ?pdu grant_len ?nxt 0 "length ?buf"] by simp
      then show ?thesis using eq by blast
    qed
  qed
qed

subsection \<open>The retransmission queue\<close>

definition win_small :: "rlc_tx_am_sdu_info circular_map \<Rightarrow> bool" where
  "win_small w \<longleftrightarrow> (\<forall>sn sdu. win_sdus w sn = Some sdu \<longrightarrow> length sdu \<le> am_max_sdu)"

lemma tx_infos_small: "tx_infos seg w \<Longrightarrow> win_small w"
  by (auto simp: win_small_def win_sdus_def tx_infos_def tx_info_ok_def)

lemma retx_ok_small: "win_small w \<Longrightarrow> retx_ok w r \<Longrightarrow> unat (rt_length r) \<le> am_max_sdu"
  by (force simp: win_small_def retx_ok_def)

lemma retx_bytes_bound: "\<forall>r \<in> set rs. unat (rt_length r) \<le> m \<Longrightarrow> retx_bytes rs \<le> length rs * m"
  by (induction rs) auto

text \<open>A full queue of retransmissions of SDUs of bounded length does not overflow the byte total.\<close>

lemma retx_bytes_fit:
  assumes "\<forall>r \<in> set rs. retx_ok w r" and "win_small w" and "length rs \<le> am_W s"
  shows "retx_bytes rs < 2 ^ 32"
proof -
  have "retx_bytes rs \<le> length rs * am_max_sdu"
    using assms retx_ok_small by (intro retx_bytes_bound) blast
  also have "\<dots> \<le> am_W s * am_max_sdu"
    using assms(3) by simp
  also have "\<dots> < 2 ^ 32"
    by (cases s) (simp_all add: am_W_def am_max_sdu_def)
  finally show ?thesis .
qed

lemma am_W_small: "am_W s < 2 ^ 32 - 1"
  by (cases s) (simp_all add: am_W_def)

lemma tx_retx_length: "tx_retx s w q \<Longrightarrow> length (rq_abs q) \<le> am_W s"
  using rq_size_bound[of q] rb.bounded[of "rq_queue q"] by (auto simp: tx_retx_def rq_wf_def rq_size_def)

lemma tx_retx_pop:
  assumes "tx_retx s w q" and "rq_abs q = r # rs"
  shows "\<exists>q'. rq_pop q = Some q' \<and> tx_retx s w q' \<and> rq_abs q' = rs"
proof -
  have "rs_exact rs (rs_subtract r (rq_st q))"
    using rs_subtract_exact[of "[]" r rs] assms by (simp add: tx_retx_def rq_exact_def)
  then show ?thesis
    using rq_pop_spec[of q r rs] assms by (auto simp: tx_retx_def rq_exact_def)
qed

lemma tx_retx_replace:
  assumes q: "tx_retx s w q" "rq_abs q = r # rs" and r': "retx_ok w r'" and small: "win_small w"
  shows "\<exists>q'. rq_replace_front r' q = Some q' \<and> tx_retx s w q' \<and> rq_abs q' = r' # rs"
proof -
  have "rs_exact rs (rs_subtract r (rq_st q))"
    using rs_subtract_exact[of "[]" r rs] q by (simp add: tx_retx_def rq_exact_def)
  moreover have "retx_bytes (r' # rs) < 2 ^ 32"
    by (rule retx_bytes_fit[OF _ small, of _ s]) (use q r' tx_retx_length[OF q(1)] in \<open>auto simp: tx_retx_def\<close>)
  moreover have "length rs + 1 < 2 ^ 32"
    using q tx_retx_length[OF q(1)] am_W_small[of s] by simp
  ultimately have "rs_exact (rs @ [r']) (rs_add r' (rs_subtract r (rq_st q)))"
    by (intro rs_add_exact) simp_all
  then have "rs_exact (r' # rs) (rs_add r' (rs_subtract r (rq_st q)))"
    using rs_exact_mset[of rs r' "[]"] by simp
  then show ?thesis
    using rq_replace_front_spec[of q r rs r'] q r' by (auto simp: tx_retx_def rq_exact_def)
qed

lemma tx_retx_push:
  assumes q: "tx_retx s w q" and r: "retx_ok w r" and small: "win_small w"
  shows "tx_retx s w (snd (rq_try_push r q))"
    "rq_abs (snd (rq_try_push r q)) = rq_abs q @ (if fst (rq_try_push r q) then [r] else [])"
    "fst (rq_try_push r q) \<longleftrightarrow> rq_size q < am_W s"
proof -
  have wf: "rq_wf q" and max: "rb_max_size (rq_queue q) = am_W s" using q by (simp_all add: tx_retx_def)
  note push = rq_push_spec[OF wf, of r]
  show "rq_abs (snd (rq_try_push r q)) = rq_abs q @ (if fst (rq_try_push r q) then [r] else [])"
      "fst (rq_try_push r q) \<longleftrightarrow> rq_size q < am_W s"
    using push(2,4) max by simp_all
  have "rs_exact (rq_abs q @ [r]) (rs_add r (rq_st q))" if "fst (rq_try_push r q)"
  proof -
    have "length (rq_abs q @ [r]) \<le> am_W s"
      using that push(4) rq_size_bound[OF wf] max by simp
    moreover have "retx_bytes (rq_abs q @ [r]) < 2 ^ 32"
      using q r calculation by (intro retx_bytes_fit[OF _ small]) (auto simp: tx_retx_def)
    ultimately show ?thesis
      using q am_W_small[of s] by (intro rs_add_exact) (auto simp: tx_retx_def rq_exact_def)
  qed
  then show "tx_retx s w (snd (rq_try_push r q))"
    using push q r by (auto simp: tx_retx_def rq_exact_def)
qed

text \<open>Nothing in the queue is stale.\<close>

lemma tx_retx_front:
  assumes "tx_retx s w q" and "rq_abs q = r # rs"
  shows "rq_front q = Some r" "\<not> rq_empty q" "retx_ok w r"
  using assms retx.front_law[of q] retx.empty_law[of q] by (auto simp: tx_retx_def)

lemma drop_stale_id:
  assumes "tx_retx s w q"
  shows "drop_stale_retx w q = Some q"
proof (cases "rq_abs q")
  case Nil
  then show ?thesis
    using assms retx.empty_law[of q] by (subst drop_stale_retx.simps) (simp add: tx_retx_def)
next
  case (Cons r rs)
  have "has_sn w (rt_sn r)"
    using tx_retx_front(3)[OF assms Cons] by (auto simp: retx_ok_def win_sdus_def has_sn_win_at)
  then show ?thesis
    using tx_retx_front[OF assms Cons] by (subst drop_stale_retx.simps) simp
qed

lemma retx_sent:
  assumes inv: "ta_inv st"
  shows "\<exists>pdu st'. build_retx_pdu grant_len st = Some (pdu, st') \<and> ta_sent st grant_len pdu st'
     \<and> (rq_abs (ta_retx_queue st) \<noteq> [] \<and> head_max_size st < grant_len \<longrightarrow> pdu \<noteq> [])"
proof -
  let ?s = "ta_size st" and ?q = "ta_retx_queue st" and ?w = "ta_window st"
  have retx: "tx_retx ?s ?w ?q" and infos: "tx_infos (ta_sn_under_segmentation st) ?w"
      and win: "tx_win ?s (ta_tx_next_ack st) (ta_tx_next st) (ta_sn_under_segmentation st) ?w"
      and polls: "tx_cfg_ok (ta_cfg st)" "tx_polls (ta_cfg st) (ta_pdu_without_poll st) (ta_byte_without_poll st)"
    using inv by (simp_all add: ta_inv_def)
  have small: "win_small ?w" by (rule tx_infos_small[OF infos])
  note stale = drop_stale_id[OF retx]
  show ?thesis
  proof (cases "rq_abs ?q")
    case Nil
    then have "build_retx_pdu grant_len st = Some ([], st)"
      using retx.empty_law[of ?q] retx stale by (simp add: build_retx_pdu_def tx_retx_def)
    then show ?thesis using ta_sent_nothing[OF inv] Nil by blast
  next
    case (Cons r rs)
    note front = tx_retx_front[OF retx Cons]
    obtain info where info: "win_at ?w (rt_sn r) = Some info" and len: "0 < unat (rt_length r)"
        "unat (rt_so r) + unat (rt_length r) \<le> length (ti_sdu info)"
      using front(3) by (auto simp: retx_ok_def win_sdus_def)
    have sdu: "length (ti_sdu info) \<le> am_max_sdu" and sn: "unat (rt_sn r) < 2 ^ am_to_number ?s"
      using infos info win by (auto simp: tx_infos_def tx_info_ok_def tx_win_def)
    have sum: "unat (rt_so r + rt_length r) = unat (rt_so r) + unat (rt_length r)"
      using len sdu by (intro unat_plus_u32) (simp add: am_max_sdu_def)
    have hdr: "get_retx_expected_hdr_len (st\<lparr>ta_retx_sn := x\<rparr>) r = am_hdr_len ?s (unat (rt_so r))" for x
      by (simp add: get_retx_expected_hdr_len_def head_min_size_def head_max_size_def am_hdr_len_def unsigned_eq_0_iff)
    let ?st0 = "st\<lparr>ta_retx_sn := rt_sn r\<rparr>"
    show ?thesis
    proof (cases "grant_len \<le> am_hdr_len ?s (unat (rt_so r))")
      case True
      then have "build_retx_pdu grant_len st = Some ([], ?st0)"
        using front stale info len sum hdr by (simp add: build_retx_pdu_def Let_def)
      moreover have "ta_sent st grant_len [] ?st0"
        using inv by (simp add: ta_sent_def ta_inv_def ta_stream_def ta_nof_def ta_unsent_def ta_seg_left_def ta_advanced_same)
      moreover have "\<not> head_max_size st < grant_len"
        using True by (cases ?s) (auto simp: am_hdr_len_def head_max_size_def rlc_am_pdu_header_max_size_def split: if_splits)
      ultimately show ?thesis by blast
    next
      case False
      define n where "n = min (unat (rt_length r)) (grant_len - am_hdr_len ?s (unat (rt_so r)))"
      have n: "0 < n" "n \<le> unat (rt_length r)" "unat (rt_so r) + n \<le> length (ti_sdu info)"
          "am_hdr_len ?s (unat (rt_so r)) + n \<le> grant_len"
        using False len by (auto simp: n_def)
      have si: "retx_si r (unat (rt_so r) + n \<ge> length (ti_sdu info)) = seg_kind (unat (rt_so r)) n (length (ti_sdu info))"
        using n(3) by (auto simp: retx_si_def seg_kind_def unsigned_eq_0_iff)
      let ?m = "if n = unat (rt_length r) \<and> ti_retx_count info = txam_max_retx_thresh (ta_cfg st) then True else ta_max_retx_reached st"
      let ?r' = "r\<lparr>rt_so := rt_so r + of_nat n, rt_length := rt_length r - of_nat n\<rparr>"
      have small_n: "unat (of_nat n :: u32) = n"
        using n sdu by (simp add: unat_of_nat_u32 am_max_sdu_def)
      then have r': "retx_ok ?w ?r'" if "n \<noteq> unat (rt_length r)"
        using that n len sdu info unat_plus_u32[of "rt_so r" "of_nat n"] unat_sub[of "of_nat n" "rt_length r"]
        by (auto simp: retx_ok_def win_sdus_def am_max_sdu_def word_le_nat_alt)
      obtain q where q: "(if n = unat (rt_length r) then rq_pop ?q else rq_replace_front ?r' ?q) = Some q" "tx_retx ?s ?w q"
          "rq_abs q = (if n = unat (rt_length r) then rs else ?r' # rs)"
        using tx_retx_pop[OF retx Cons] tx_retx_replace[OF retx Cons r' small] by (cases "n = unat (rt_length r)") auto
      let ?st1 = "st\<lparr>ta_retx_sn := rt_sn r, ta_max_retx_reached := ?m, ta_retx_queue := q\<rparr>"
      obtain p a b c d where poll: "get_polling_bit (rt_sn r) True 0 ?st1 = (p, poll_upd a b c d ?st1)" "p \<le> 1" "tx_polls (ta_cfg st) a b"
        using get_polling_bit_spec[of ?st1 0 "rt_sn r" True] polls by auto
      let ?st' = "poll_upd a b c d ?st1" and ?pdu = "am_pdu_of ?s p (rt_sn r) (ti_sdu info) (unat (rt_so r)) n"
      have so16: "unat (rt_so r) < 65536" using len sdu by (simp add: am_max_sdu_def)
      note pay = build_payload[OF poll(2) sn so16 _ si n(1,3,4), of ?st']
      have "build_retx_pdu grant_len st = Some (?pdu, ?st')"
        unfolding build_retx_pdu_def
        using front stale info len sum False hdr q(1) poll(1) pay n(1)
        by (simp add: Let_def flip: n_def split: if_splits)
      moreover have "ta_inv ?st'" "ta_stream ?st' = ta_stream st" "ta_nof ?st' = ta_nof st"
        using inv q(2) poll(3) by (simp_all add: ta_inv_def ta_stream_def ta_nof_def)
      moreover have "tx_data_pdu ?s ?w (rt_sn r) (unat (rt_so r)) n ?pdu"
        using poll(2) n info by (auto simp: tx_data_pdu_def win_sdus_def)
      moreover have "length ?pdu \<le> grant_len"
        using length_am_pdu_of[OF poll(2) sn n(3) so16] n(4) by simp
      moreover have "ta_unsent ?st' + n = ta_unsent st"
        using q(3) n(2) small_n unat_sub[of "of_nat n" "rt_length r"] Cons
        by (simp add: ta_unsent_def ta_seg_left_def word_le_nat_alt)
      moreover have low: "sent_below st (rt_sn r) (unat (rt_so r) + unat (rt_length r))" if "ta_low st"
        using that Cons by (simp add: ta_low_def)
      then have "sent_below ?st' (rt_sn r) (unat (rt_so r) + n)" if "ta_low st"
        using that n(2) by (auto simp: sent_below_def)
      moreover have "ta_low ?st'" if "ta_low st"
      proof -
        have "unat (rt_so ?r') + unat (rt_length ?r') = unat (rt_so r) + unat (rt_length r)"
          using n small_n len sdu unat_plus_u32[of "rt_so r" "of_nat n"] unat_sub[of "of_nat n" "rt_length r"]
          by (simp add: am_max_sdu_def word_le_nat_alt)
        then show ?thesis
          using that Cons q(3) by (auto simp: ta_low_def sent_below_def)
      qed
      then have "ta_advanced st ?st'" by (auto simp: ta_advanced_def sent_below_def)
      ultimately have "build_retx_pdu grant_len st = Some (?pdu, ?st')" "ta_sent st grant_len ?pdu ?st' \<and> ?pdu \<noteq> []"
        using ta_sentI[of ?st' st ?pdu grant_len "rt_sn r" "unat (rt_so r)" n] by simp_all
      then show ?thesis by blast
    qed
  qed
qed

end
