(* ===== verification/Rlc_Tx_Am_Status.thy ===== *)
theory Rlc_Tx_Am_Status
  imports Rlc_Tx_Am_Inv
begin

text \<open>
  The acknowledged-mode transmitter and status reports: the report of the own receiver that is sent to
  the peer, and the evaluation of the reports the peer sends, which takes acknowledged SDUs out of the
  window and queues the missing bytes for retransmission.
\<close>

section \<open>The status provider\<close>

text \<open>The number of bytes of an encoded report, when it is below the range of the 32-bit size.\<close>

definition status_bytes_fit :: "rlc_am_status_pdu \<Rightarrow> bool" where
  "status_bytes_fit status \<longleftrightarrow> length (pack status) < 2 ^ 32"

lemma pack_nacks_prefix: "length (pack_nacks f ns) \<le> length (pack_nacks f (ns @ ms))"
  if "\<And>a b n. length (f a n) = length (f b n)"
proof (induction ns)
  case (Cons n ns)
  then show ?case using that[of "ns \<noteq> []" n "ns @ ms \<noteq> []"] by simp
qed simp

lemma length_pack_prefix:
  assumes "st_nacks status = st_nacks status' @ dropped" and "st_sn_size status' = st_sn_size status"
  shows "length (pack status') \<le> length (pack status)"
  using assms pack_nacks_prefix[of pack_nack_12bit "st_nacks status'" dropped]
    pack_nacks_prefix[of pack_nack_18bit "st_nacks status'" dropped]
  by (cases "st_sn_size status")
    (auto simp: pack_def pack_12bit_def pack_18bit_def pack_nack_12bit_def pack_nack_18bit_def)

text \<open>A report that can be sent: well formed, with an acknowledgement in the range of the sequence numbers.\<close>

definition report_ok :: "rlc_am_sn_size \<Rightarrow> rlc_am_status_pdu \<Rightarrow> bool" where
  "report_ok s status \<longleftrightarrow> status_ok status \<and> st_cpt status = 0 \<and> st_sn_size status = s
     \<and> unat (st_ack_sn status) < 2 ^ am_to_number s \<and> status_bytes_fit status"

text \<open>The bytes of a report that are sent in a grant, and what the peer decodes.\<close>

definition report_pdu :: "rlc_am_sn_size \<Rightarrow> rlc_am_status_pdu \<Rightarrow> bytes \<Rightarrow> bool" where
  "report_pdu s status pdu \<longleftrightarrow> (\<exists>status'. pdu = pack status' \<and> unpack (status_pdu_new s) pdu = Some status'
     \<and> (\<exists>dropped. st_nacks status = st_nacks status' @ dropped
          \<and> st_ack_sn status' = (if dropped = [] then st_ack_sn status else nack_sn (hd dropped))))"

lemma report_ok_pdu: "report_ok s status \<Longrightarrow> length (pack status) = unat (st_packed_size status)"
  using length_pack[of status] unat_of_nat_u32[of "length (pack status)"]
  by (simp add: report_ok_def status_ok_def status_bytes_fit_def)

lemma report_decodes: "report_ok s status \<Longrightarrow> unpack (status_pdu_new s) (pack status) = Some status"
  using unpack_pack_12bit[of status "status_pdu_new am_size12bits"] unpack_pack_18bit[of status "status_pdu_new am_size18bits"]
  by (cases s) (auto simp: report_ok_def unpack_def pack_def status_pdu_new_def status_ok_def)

lemma trim_report:
  assumes ok: "report_ok s status" and m: "sizeof_header_ack_sn \<le> m"
  shows "fst (trim status m)" "report_ok s (snd (trim status m))" "unat (st_packed_size (snd (trim status m))) \<le> unat m"
    "\<exists>dropped. st_nacks status = st_nacks (snd (trim status m)) @ dropped
       \<and> st_ack_sn (snd (trim status m)) = (if dropped = [] then st_ack_sn status else nack_sn (hd dropped))"
proof -
  have "\<exists>dropped. st_nacks status = st_nacks (snd (trim status m)) @ dropped
       \<and> st_ack_sn (snd (trim status m)) = (if dropped = [] then st_ack_sn status else nack_sn (hd dropped))
       \<and> fst (trim status m) \<and> st_packed_size (snd (trim status m)) \<le> m"
    using trim_loop_spec[of status m] ok m
    by (cases "st_packed_size status \<le> m") (auto simp: trim_def trimmed_def report_ok_def not_less)
  then obtain dropped where d: "st_nacks status = st_nacks (snd (trim status m)) @ dropped"
      "st_ack_sn (snd (trim status m)) = (if dropped = [] then st_ack_sn status else nack_sn (hd dropped))"
      "fst (trim status m)" "st_packed_size (snd (trim status m)) \<le> m"
    by blast
  then show "fst (trim status m)" "unat (st_packed_size (snd (trim status m))) \<le> unat m"
    "\<exists>dropped. st_nacks status = st_nacks (snd (trim status m)) @ dropped
       \<and> st_ack_sn (snd (trim status m)) = (if dropped = [] then st_ack_sn status else nack_sn (hd dropped))"
    by (auto simp: word_le_nat_alt)
  have "unat (st_ack_sn (snd (trim status m))) < 2 ^ am_to_number s"
    using ok d(1,2) by (cases dropped) (auto simp: report_ok_def status_ok_def nack_ok_def)
  moreover have "status_bytes_fit (snd (trim status m))"
    using length_pack_prefix[OF d(1)] ok by (simp add: status_bytes_fit_def report_ok_def trim_fields)
  ultimately show "report_ok s (snd (trim status m))"
    using ok trim_ok[of status m] by (simp add: report_ok_def trim_fields)
qed

text \<open>
  What the transmitter relies on: a provider that asks for a report hands out one that can be sent, and
  the reader may replace the report in its hands by a trimmed one.
\<close>

locale status_provider =
  fixes invar :: "'p \<Rightarrow> bool" and sn_size :: "'p \<Rightarrow> rlc_am_sn_size" and required :: "'p \<Rightarrow> bool"
    and report :: "bool \<Rightarrow> 'p \<Rightarrow> rlc_am_status_pdu \<times> 'p" and keep :: "rlc_am_status_pdu \<Rightarrow> 'p \<Rightarrow> 'p"
  assumes report_law: "invar p \<Longrightarrow> required p \<Longrightarrow> report_ok (sn_size p) (fst (report b p))"
    and report_invar: "invar p \<Longrightarrow> invar (snd (report b p))"
    and report_size: "sn_size (snd (report b p)) = sn_size p"
    and keep_invar: "invar p \<Longrightarrow> report_ok (sn_size p) status \<Longrightarrow> invar (keep status p)"
    and keep_size: "sn_size (keep status p) = sn_size p"
begin

lemma sent_report:
  fixes b p
  assumes p: "invar p" "required p" and grant: "unat sizeof_header_ack_sn \<le> grant" "grant < 2 ^ 32"
  defines "status \<equiv> fst (report b p)" and "p' \<equiv> snd (report b p)"
  shows "if unat (st_packed_size status) > grant
     then fst (trim status (of_nat grant)) \<and> length (pack (snd (trim status (of_nat grant)))) \<le> grant
       \<and> report_pdu (sn_size p) status (pack (snd (trim status (of_nat grant))))
       \<and> invar (keep (snd (trim status (of_nat grant))) p')
     else length (pack status) \<le> grant \<and> report_pdu (sn_size p) status (pack status) \<and> invar p'"
proof -
  have ok: "report_ok (sn_size p) status" and p': "invar p'" "sn_size p' = sn_size p"
    using report_law report_invar report_size p by (simp_all add: status_def p'_def)
  have g: "unat (of_nat grant :: u32) = grant" "sizeof_header_ack_sn \<le> of_nat grant"
    using grant by (simp_all add: unat_of_nat_u32 word_le_nat_alt)
  note t = trim_report[OF ok g(2)]
  show ?thesis
    using t g(1) report_decodes[OF ok] report_decodes[OF t(2)] report_ok_pdu[OF ok] report_ok_pdu[OF t(2)]
      keep_invar[OF p'(1)] p' by (auto simp: report_pdu_def)
qed

end

definition ra_provides :: "rlc_rx_am \<Rightarrow> bool" where
  "ra_provides rx \<longleftrightarrow> ra_inv rx \<and> ra_fresh rx \<and> (ra_do_status rx \<longrightarrow> status_bytes_fit (ra_status_exchange rx))"

lemma ra_provides_required: "ra_provides rx \<Longrightarrow> ra_status_report_required rx \<Longrightarrow> report_ok (ra_size rx) (ra_status_exchange rx)"
  by (auto simp: ra_provides_def ra_status_report_required_def ra_fresh_def ra_inv_def ra_statuses_ok_def report_ok_def)

interpretation rap: status_provider ra_provides ra_size ra_status_report_required ra_get_status_pdu
  "\<lambda>status rx. rx\<lparr>ra_status_reader := status\<rparr>"
proof unfold_locales
  fix p status b
  show "ra_provides p \<Longrightarrow> ra_status_report_required p \<Longrightarrow> report_ok (ra_size p) (fst (ra_get_status_pdu b p))"
    using ra_provides_required[of p] by (simp add: ra_get_status_pdu_def Let_def)
  show "ra_provides p \<Longrightarrow> ra_provides (snd (ra_get_status_pdu b p))"
    using ra_get_status_pdu_inv[of p b] by (auto simp: ra_provides_def ra_fresh_def ra_get_status_pdu_def Let_def)
  show "ra_provides p \<Longrightarrow> report_ok (ra_size p) status \<Longrightarrow> ra_provides (p\<lparr>ra_status_reader := status\<rparr>)"
    by (auto simp: ra_provides_def ra_fresh_def ra_inv_def ra_statuses_ok_def report_ok_def)
  show "ra_size (snd (ra_get_status_pdu b p)) = ra_size p" "ra_size (p\<lparr>ra_status_reader := status\<rparr>) = ra_size p"
    by (simp_all add: ra_get_status_pdu_def Let_def)
qed

lemma pull_status_spec:
  assumes rx: "ra_provides rx" "ra_status_report_required rx" and grant: "grant_len < 2 ^ 32"
  shows "\<exists>pdu rx'. pull_status_pdu defer_ok grant_len rx = (pdu, rx') \<and> ra_provides rx' \<and> length pdu \<le> grant_len
     \<and> (if grant_len < unat sizeof_header_ack_sn then pdu = [] \<and> rx' = rx
        else report_pdu (ra_size rx) (ra_status_exchange rx) pdu)"
proof (cases "grant_len < unat sizeof_header_ack_sn")
  case True
  then show ?thesis using rx by (simp add: pull_status_pdu_def)
next
  case False
  have "fst (ra_get_status_pdu defer_ok rx) = ra_status_exchange rx"
    by (simp add: ra_get_status_pdu_def Let_def)
  then show ?thesis
    using rap.sent_report[OF rx _ grant, of defer_ok] False
    by (auto simp: pull_status_pdu_def case_prod_beta Let_def split: if_splits)
qed

section \<open>The grant\<close>

lemma segmenting_in_window:
  assumes "ta_inv st" and "ta_sn_under_segmentation st \<noteq> INVALID_RLC_SN"
  shows "has_sn (ta_window st) (ta_sn_under_segmentation st)" "ta_sn_under_segmentation st = ta_tx_next st"
proof -
  have "ta_sn_under_segmentation st = ta_tx_next st" "unat (ta_tx_next st) < 2 ^ am_to_number (ta_size st)"
    using assms by (auto simp: ta_inv_def tx_win_def)
  then show "has_sn (ta_window st) (ta_sn_under_segmentation st)" "ta_sn_under_segmentation st = ta_tx_next st"
    using assms by (auto simp: ta_inv_def tx_win_def tx_end_def has_sn_win_at)
qed

text \<open>What a grant is used for, in the order of priority: nothing after the maximum number of
  retransmissions, a status report, data.\<close>

definition ta_can_send :: "rlc_tx_am \<Rightarrow> bool" where
  "ta_can_send st \<longleftrightarrow> rq_abs (ta_retx_queue st) \<noteq> [] \<or> ta_sn_under_segmentation st \<noteq> INVALID_RLC_SN
     \<or> sq_abs (ta_sdu_queue st) \<noteq> [] \<and> \<not> is_tx_window_full st"

definition pull_result :: "rlc_rx_am \<Rightarrow> rlc_tx_am \<Rightarrow> nat \<Rightarrow> bytes \<Rightarrow> rlc_rx_am \<Rightarrow> rlc_tx_am \<Rightarrow> bool" where
  "pull_result rx st grant_len pdu rx' st' \<longleftrightarrow> length pdu \<le> grant_len \<and>
     (if ta_max_retx_reached st then pdu = [] \<and> rx' = rx \<and> st' = st
      else if ra_status_report_required rx
      then st' = st \<and> (if grant_len < unat sizeof_header_ack_sn then pdu = [] \<and> rx' = rx
                       else report_pdu (ra_size rx) (ra_status_exchange rx) pdu)
      else rx' = rx \<and> ta_sent st grant_len pdu st' \<and> (ta_can_send st \<and> head_max_size st < grant_len \<longrightarrow> pdu \<noteq> []))"

lemma ta_pull_spec:
  assumes inv: "ta_inv st" and rx: "ra_provides rx" and grant: "grant_len < 2 ^ 32"
  shows "\<exists>pdu rx' st' ev. ta_pull_pdu defer_ok grant_len rx st = Some (pdu, rx', st', ev)
     \<and> ra_provides rx' \<and> ta_inv st' \<and> pull_result rx st grant_len pdu rx' st'"
proof -
  consider "ta_max_retx_reached st" | "\<not> ta_max_retx_reached st" "ra_status_report_required rx"
    | (data) "\<not> ta_max_retx_reached st" "\<not> ra_status_report_required rx"
    by blast
  then show ?thesis
  proof cases
    case 1
    then show ?thesis using assms by (simp add: ta_pull_pdu_def pull_result_def)
  next
    case 2
    obtain pdu rx' where "pull_status_pdu defer_ok grant_len rx = (pdu, rx')" "ra_provides rx'" "length pdu \<le> grant_len"
       "if grant_len < unat sizeof_header_ack_sn then pdu = [] \<and> rx' = rx
        else report_pdu (ra_size rx) (ra_status_exchange rx) pdu"
      using pull_status_spec[OF rx 2(2) grant] by blast
    then show ?thesis
      using 2 inv by (intro exI[of _ pdu] exI[of _ rx'] exI[of _ st] exI[of _ "[]"]) (simp add: ta_pull_pdu_def pull_result_def)
  next
    case data
    have "\<exists>pdu st' ev. ta_pull_pdu defer_ok grant_len rx st = Some (pdu, rx, st', ev) \<and> ta_sent st grant_len pdu st'
       \<and> (ta_can_send st \<and> head_max_size st < grant_len \<longrightarrow> pdu \<noteq> [])"
    proof -
      have retx: "rq_empty (ta_retx_queue st) \<longleftrightarrow> rq_abs (ta_retx_queue st) = []"
        and sdus: "sq_is_empty (ta_sdu_queue st) \<Longrightarrow> sq_abs (ta_sdu_queue st) = []"
        using inv rq_empty_abs by (auto simp: ta_inv_def tx_retx_def sq_abs_def sq_is_empty_def)
      have hdr: "head_min_size st \<le> head_max_size st"
        by (cases "ta_size st") (simp_all add: head_min_size_def head_max_size_def rlc_am_pdu_header_max_size_def)

      consider "\<not> rq_empty (ta_retx_queue st)"
        | "rq_empty (ta_retx_queue st)" "ta_sn_under_segmentation st \<noteq> INVALID_RLC_SN"
        | "rq_empty (ta_retx_queue st)" "ta_sn_under_segmentation st = INVALID_RLC_SN"
        by blast
      then show ?thesis
      proof cases
        case 1
        then show ?thesis using retx_sent[OF inv, of grant_len] data retx by (auto simp: ta_pull_pdu_def)
      next
        case 2
        then show ?thesis
          using continued_sent[OF inv 2(2), of grant_len] segmenting_in_window[OF inv 2(2)] data by (auto simp: ta_pull_pdu_def)
      next
        case 3
        then have same: "st\<lparr>ta_sn_under_segmentation := INVALID_RLC_SN\<rparr> = st" by simp
        show ?thesis
          using new_sent[OF inv 3(2), of grant_len] ta_sent_nothing[OF inv, of grant_len] 3 data
            retx sdus hdr
          by (cases "sq_is_empty (ta_sdu_queue st)") (auto simp: ta_pull_pdu_def Let_def same ta_can_send_def)
      qed
    qed
    then obtain pdu st' ev where "ta_pull_pdu defer_ok grant_len rx st = Some (pdu, rx, st', ev)" "ta_sent st grant_len pdu st'"
        "ta_can_send st \<and> head_max_size st < grant_len \<longrightarrow> pdu \<noteq> []"
      by blast
    moreover have "ta_inv st'" "length pdu \<le> grant_len"
      using calculation(2) by (simp_all add: ta_sent_def)
    ultimately show ?thesis using rx data by (auto simp: pull_result_def)
  qed
qed

section \<open>The buffer state\<close>

text \<open>The number of bytes still to be sent: waiting SDUs and queued retransmissions with a header each, the
  rest of the SDU under segmentation with the header of its segment, and the status report.\<close>

definition retx_total :: "rlc_am_sn_size \<Rightarrow> rlc_tx_amd_retx list \<Rightarrow> nat" where
  "retx_total s rs = sum_list (map (\<lambda>r. unat (rt_length r) + am_hdr_len s (unat (rt_so r))) rs)"

definition segment_rest :: "rlc_tx_am \<Rightarrow> nat" where
  "segment_rest st = (case win_at (ta_window st) (ta_sn_under_segmentation st) of None \<Rightarrow> 0
     | Some info \<Rightarrow> length (ti_sdu info) - unat (ti_next_so info) + rlc_am_pdu_header_max_size (ta_size st))"

definition ta_pending :: "rlc_rx_am \<Rightarrow> rlc_tx_am \<Rightarrow> nat" where
  "ta_pending rx st =
     sum_list (map (\<lambda>sdu. length (sdu_buf sdu) + rlc_am_pdu_header_min_size (ta_size st)) (sq_abs (ta_sdu_queue st)))
     + segment_rest st + retx_total (ta_size st) (rq_abs (ta_retx_queue st))
     + (if ra_status_report_required rx then unat (ra_status_size rx) else 0)"

lemma u32_of_unat: "unat (x :: u32) = n \<Longrightarrow> x = of_nat n"
  by auto

lemma retx_total_exact:
  assumes "rs_exact rs st"
  shows "rs_retx_bytes st + rs_n_retx_so_zero st * of_nat (rlc_am_pdu_header_min_size s)
     + rs_n_retx_so_nonzero st * of_nat (rlc_am_pdu_header_max_size s) = of_nat (retx_total s rs)"
proof -
  let ?a = "rlc_am_pdu_header_min_size s" and ?b = "rlc_am_pdu_header_max_size s"
  have "retx_total s rs = retx_bytes rs + length (filter (\<lambda>r. rt_so r = 0) rs) * ?a
      + length (filter (\<lambda>r. rt_so r \<noteq> 0) rs) * ?b"
    by (induction rs) (simp_all add: retx_total_def am_hdr_len_def unsigned_eq_0_iff)
  also have "of_nat \<dots> = rs_retx_bytes st + rs_n_retx_so_zero st * of_nat ?a + rs_n_retx_so_nonzero st * of_nat ?b"
    using assms by (auto simp: rs_exact_def dest!: u32_of_unat)
  finally show ?thesis by simp
qed

lemma waiting_total: "sum_list (map (\<lambda>sdu. length (sdu_buf sdu) + h) ss) = sdu_bytes ss + length ss * h"
  by (induction ss) simp_all

lemma segment_rest_exact:
  assumes inv: "ta_inv st"
  shows "ta_segment_bytes st = of_nat (segment_rest st)"
proof (cases "ta_sn_under_segmentation st = INVALID_RLC_SN")
  case True
  then show ?thesis
    using tx_win_invalid[of "ta_size st" "ta_tx_next_ack st" "ta_tx_next st" INVALID_RLC_SN "ta_window st"] inv
    by (simp add: ta_segment_bytes_def segment_rest_def ta_inv_def)
next
  case False
  then obtain info where info: "win_at (ta_window st) (ta_sn_under_segmentation st) = Some info"
    using segmenting_in_window[OF inv] by (auto simp: has_sn_win_at)
  then have "tx_info_ok True info"
    using tx_infosD[OF _ info, of "ta_sn_under_segmentation st"] inv by (simp add: ta_inv_def)
  then have so: "unat (ti_next_so info) \<le> length (ti_sdu info)"
    by (simp add: tx_info_ok_def)
  have "of_nat (length (ti_sdu info)) - ti_next_so info = of_nat (length (ti_sdu info) - unat (ti_next_so info))"
    using so by (simp add: of_nat_diff)
  then show ?thesis
    using False info by (simp add: ta_segment_bytes_def segment_rest_def head_max_size_def)
qed

lemma tx_sdus_front: "tx_sdus q \<Longrightarrow> tx_sdus (snd (sq_front q)) \<and> sq_abs (snd (sq_front q)) = sq_abs q"
  using sq_front_spec[of q] sq_front_set[of q] by (auto simp: tx_sdus_def front_result_def)

lemma ta_get_buffer_state_spec:
  assumes inv: "ta_inv st"
  shows "\<exists>q b. ta_get_buffer_state rx st = Some (of_nat (ta_pending rx st),
       st\<lparr>ta_sdu_queue := q, ta_suspend_bs_notif_barring := b\<rparr>)
     \<and> tx_sdus q \<and> sq_abs q = sq_abs (ta_sdu_queue st)"
proof -
  have sdus: "tx_sdus (ta_sdu_queue st)" and retx: "tx_retx (ta_size st) (ta_window st) (ta_retx_queue st)"
    using inv by (simp_all add: ta_inv_def)
  let ?q = "if ta_sn_under_segmentation st \<noteq> INVALID_RLC_SN then ta_sdu_queue st else snd (sq_front (ta_sdu_queue st))"
  have q: "tx_sdus ?q" "sq_abs ?q = sq_abs (ta_sdu_queue st)"
    using sdus tx_sdus_front[OF sdus] by simp_all
  have "n_bytes (sq_get_state (ta_sdu_queue st)) + n_sdus (sq_get_state (ta_sdu_queue st)) * of_nat (head_min_size st)
      = of_nat (sdu_bytes (sq_abs (ta_sdu_queue st)) + length (sq_abs (ta_sdu_queue st)) * head_min_size st)"
    using sq_wf_state[THEN u32_of_unat, of "ta_sdu_queue st"] sdus by (simp add: tx_sdus_def)
  moreover have "rs_exact (rq_abs (ta_retx_queue st)) (rq_st (ta_retx_queue st))"
    using retx by (simp add: tx_retx_def rq_exact_def)
  note retx_total_exact[OF this, of "ta_size st"]
  ultimately have "ta_get_buffer_state rx st = Some (of_nat (ta_pending rx st), st\<lparr>ta_sdu_queue := ?q,
      ta_suspend_bs_notif_barring := (unat (of_nat (ta_pending rx st) :: u32) \<le> MAX_DL_PDU_LENGTH
        \<or> ta_suspend_bs_notif_barring st)\<rparr>)"
    using segment_rest_exact[OF inv] drop_stale_id[OF retx]
    by (cases "ta_sn_under_segmentation st = INVALID_RLC_SN"; cases "ra_status_report_required rx")
      (simp_all add: ta_get_buffer_state_def Let_def ta_pending_def waiting_total head_min_size_def head_max_size_def
        ra_get_status_pdu_length_def)
  then show ?thesis using q by blast
qed

section \<open>Retransmission counters\<close>

text \<open>Windows that differ in the retransmission counters only.\<close>

definition win_same :: "rlc_tx_am_sdu_info circular_map \<Rightarrow> rlc_tx_am_sdu_info circular_map \<Rightarrow> bool" where
  "win_same w w' \<longleftrightarrow> (\<forall>sn. map_option (ti_retx_count_update (\<lambda>_. 0)) (win_at w' sn)
     = map_option (ti_retx_count_update (\<lambda>_. 0)) (win_at w sn))"

lemma win_same_refl [simp]: "win_same w w"
  by (simp add: win_same_def)

lemma win_same_trans: "win_same w w' \<Longrightarrow> win_same w' w'' \<Longrightarrow> win_same w w''"
  by (simp add: win_same_def)

lemma win_same_cases:
  assumes "win_same w w'"
  obtains "win_at w sn = None" "win_at w' sn = None"
  | info c where "win_at w sn = Some info" "win_at w' sn = Some (info\<lparr>ti_retx_count := c\<rparr>)"
proof (cases "win_at w sn")
  case None
  then show ?thesis using assms that(1) by (metis map_option_is_None win_same_def)
next
  case (Some info)
  then obtain info' where i: "win_at w' sn = Some info'" "info'\<lparr>ti_retx_count := 0\<rparr> = info\<lparr>ti_retx_count := 0\<rparr>"
    using assms unfolding win_same_def by (metis (no_types, lifting) map_option_eq_Some)
  then have "info' = info\<lparr>ti_retx_count := ti_retx_count info'\<rparr>"
    by (cases info'; cases info) simp
  then show ?thesis using that(2)[OF Some, of "ti_retx_count info'"] i(1) by simp
qed

lemma win_same_sdus: "win_same w w' \<Longrightarrow> win_sdus w' = win_sdus w"
proof (rule ext)
  fix sn assume "win_same w w'"
  then show "win_sdus w' sn = win_sdus w sn"
    by (rule win_same_cases[of w w' sn]) (simp_all add: win_sdus_def)
qed

lemma win_same_infos:
  assumes "win_same w w'" and "tx_infos seg w"
  shows "tx_infos seg w'"
  unfolding tx_infos_def
proof (intro allI impI)
  fix sn info assume "win_at w' sn = Some info"
  then show "tx_info_ok (sn = seg) info"
    using tx_infosD[OF assms(2), of sn]
    by (cases rule: win_same_cases[OF assms(1), of sn]) (auto simp: tx_info_ok_def split: if_splits)
qed

lemma win_same_upd:
  assumes "win_at w sn = Some info" and "win_at w' = (win_at w)(sn \<mapsto> info\<lparr>ti_retx_count := c\<rparr>)"
  shows "win_same w w'"
  using assms by (simp add: win_same_def)

text \<open>Operations that change neither the SDUs in the window nor those waiting.\<close>

definition ta_kept :: "rlc_tx_am \<Rightarrow> rlc_tx_am \<Rightarrow> bool" where
  "ta_kept st st' \<longleftrightarrow> ta_cfg st' = ta_cfg st \<and> ta_tx_next_ack st' = ta_tx_next_ack st \<and> ta_tx_next st' = ta_tx_next st
     \<and> ta_sn_under_segmentation st' = ta_sn_under_segmentation st \<and> win_same (ta_window st) (ta_window st')
     \<and> sq_abs (ta_sdu_queue st') = sq_abs (ta_sdu_queue st)"

lemma ta_kept_refl [simp]: "ta_kept st st"
  by (simp add: ta_kept_def)

lemma ta_kept_trans: "ta_kept st st' \<Longrightarrow> ta_kept st' st'' \<Longrightarrow> ta_kept st st''"
  using win_same_trans by (auto simp: ta_kept_def)

lemma ta_kept_stream: "ta_kept st st' \<Longrightarrow> ta_stream st' = ta_stream st \<and> ta_nof st' = ta_nof st"
  using window_stream_cong[OF win_same_sdus] by (auto simp: ta_kept_def ta_stream_def ta_nof_def)

lemma sent_below_kept: "ta_kept st st' \<Longrightarrow> sent_below st' sn k = sent_below st sn k"
proof -
  assume kept: "ta_kept st st'"
  then have "win_same (ta_window st) (ta_window st')" by (simp add: ta_kept_def)
  then show ?thesis
    using kept by (cases rule: win_same_cases[of "ta_window st" "ta_window st'" sn]) (auto simp: ta_kept_def sent_below_def)
qed

lemma ta_low_kept: "ta_kept st st' \<Longrightarrow> rq_abs (ta_retx_queue st') = rq_abs (ta_retx_queue st) \<Longrightarrow> ta_low st' = ta_low st"
  by (simp add: ta_low_def sent_below_kept)

lemma ta_inv_counts:
  assumes inv: "ta_inv st" and w': "cm_wf (am_to_number (ta_size st) - 1) w'" "win_same (ta_window st) w'"
  shows "ta_inv (st\<lparr>ta_window := w'\<rparr>)" "ta_kept st (st\<lparr>ta_window := w'\<rparr>)"
proof -
  note same = win_same_sdus[OF w'(2)]
  show "ta_inv (st\<lparr>ta_window := w'\<rparr>)"
    using inv tx_win_upd[OF _ w'(1) same] win_same_infos[OF w'(2)] tx_retx_upd[of _ "ta_window st" _ w'] same
    by (simp add: ta_inv_def)
qed (use w' in \<open>simp add: ta_kept_def\<close>)

lemma increment_retx_count_spec:
  assumes inv: "ta_inv st" and sn: "win_at (ta_window st) sn \<noteq> None"
  shows "\<exists>w' ev. increment_retx_count sn st = Some (st\<lparr>ta_window := w'\<rparr>, ev) \<and> ta_inv (st\<lparr>ta_window := w'\<rparr>)
     \<and> ta_kept st (st\<lparr>ta_window := w'\<rparr>)"
proof -
  obtain info where info: "win_at (ta_window st) sn = Some info" using sn by auto
  let ?info' = "info\<lparr>ti_retx_count := (if ti_retx_count info = RETX_COUNT_NOT_STARTED then 0 else ti_retx_count info + 1)\<rparr>"
  have wf: "cm_wf (am_to_number (ta_size st) - 1) (ta_window st)" using inv by (simp add: ta_inv_def tx_win_def)
  obtain w' where w': "win_set (ta_window st) sn ?info' = Some w'" "cm_wf (am_to_number (ta_size st) - 1) w'"
      "win_at w' = (win_at (ta_window st))(sn \<mapsto> ?info')"
    using win.upd_present[OF wf sn] by blast
  then show ?thesis
    using info ta_inv_counts[OF inv w'(2) win_same_upd[OF info w'(3)]]
    by (auto simp: increment_retx_count_def Let_def)
qed

lemma decrement_retx_count_spec:
  assumes wf: "cm_wf k (ta_window st)" and sn: "has_sn (ta_window st) sn"
  shows "\<exists>w'. decrement_retx_count sn st = Some (st\<lparr>ta_window := w'\<rparr>) \<and> cm_wf k w' \<and> win_same (ta_window st) w'"
proof -
  obtain info where info: "win_at (ta_window st) sn = Some info" using sn by (auto simp: has_sn_win_at)
  let ?info' = "info\<lparr>ti_retx_count := (if ti_retx_count info = 0 then RETX_COUNT_NOT_STARTED else ti_retx_count info - 1)\<rparr>"
  obtain w' where w': "win_set (ta_window st) sn ?info' = Some w'" "cm_wf k w'"
      "win_at w' = (win_at (ta_window st))(sn \<mapsto> ?info')"
    using win.upd_present[OF wf, of sn ?info'] info by auto
  show ?thesis
  proof (cases "ti_retx_count info = RETX_COUNT_NOT_STARTED")
    case True
    then have "decrement_retx_count sn st = Some (st\<lparr>ta_window := ta_window st\<rparr>)"
      using info by (simp add: decrement_retx_count_def)
    then show ?thesis using wf by (intro exI[of _ "ta_window st"]) simp
  next
    case False
    then show ?thesis
      using info w' win_same_upd[OF info w'(3)] by (auto simp: decrement_retx_count_def)
  qed
qed

lemma ta_update_mac_spec:
  assumes inv: "ta_inv st"
  shows "\<exists>st' ev. ta_update_mac_buffer_state force_notify hol_older rx st = Some (st', ev) \<and> ta_inv st' \<and> ta_kept st st'
     \<and> ta_retx_queue st' = ta_retx_queue st \<and> (force_notify \<longrightarrow> ev = [On_buffer_state_update (of_nat (ta_pending rx st))])
     \<and> ta_max_retx_reached st' = ta_max_retx_reached st"
proof -
  let ?st = "st\<lparr>ta_pending_buffer_state := False\<rparr>"
  have "ta_inv ?st" "ta_pending rx ?st = ta_pending rx st"
    using inv by (simp_all add: ta_inv_def ta_pending_def segment_rest_def split: option.split)
  then obtain q b where "ta_get_buffer_state rx ?st = Some (of_nat (ta_pending rx st),
       ?st\<lparr>ta_sdu_queue := q, ta_suspend_bs_notif_barring := b\<rparr>)" "tx_sdus q" "sq_abs q = sq_abs (ta_sdu_queue st)"
    using ta_get_buffer_state_spec[of ?st rx] by auto
  then show ?thesis
    using inv by (auto simp: ta_update_mac_buffer_state_def Let_def ta_inv_def ta_kept_def)
qed

section \<open>Acknowledgements\<close>

text \<open>The SDUs of a part of the window with what is known of them.\<close>

definition window_infos :: "rlc_am_sn_size \<Rightarrow> u32 \<Rightarrow> nat \<Rightarrow> rlc_tx_am_sdu_info circular_map \<Rightarrow> rlc_tx_am_sdu_info list" where
  "window_infos s ack k w = map (\<lambda>i. the (win_at w (sn_plus s ack i))) [0..<k]"

text \<open>The last PDCP sequence number among delivered SDUs, of first transmissions or of retransmissions of
  the PDCP layer.\<close>

definition last_delivered :: "bool \<Rightarrow> rlc_tx_am_sdu_info list \<Rightarrow> u32 option \<Rightarrow> u32 option" where
  "last_delivered is_retx infos d = fold (\<lambda>info d. if ti_pdcp_sn info \<noteq> None \<and> ti_is_retx info = is_retx
     then ti_pdcp_sn info else d) infos d"

lemma tx_win_step:
  assumes win: "tx_win s ack nxt seg w" and pos: "0 < am_off s ack nxt"
  obtains info w1 where "win_at w ack = Some info" "remove_sn w ack = Some w1" "win_at w1 = (win_at w)(ack := None)"
    "tx_win s (am_inc s ack) nxt seg w1" "Suc (tx_end s (am_inc s ack) nxt seg) = tx_end s ack nxt seg"
proof -
  let ?a = "am_inc s ack"
  have wf: "cm_wf (am_to_number s - 1) w" and ack: "unat ack < 2 ^ am_to_number s"
    using win by (simp_all add: tx_win_def)
  have here: "win_at w ack \<noteq> None"
    using win ack pos by (simp add: tx_win_def tx_end_def)
  obtain w1 where w1: "remove_sn w ack = Some w1" "cm_wf (am_to_number s - 1) w1" "win_at w1 = (win_at w)(ack := None)"
    using win.remove_present[OF wf here] by blast
  have away: "Suc (am_off s ?a x) = am_off s ack x" if "unat x < 2 ^ am_to_number s" "x \<noteq> ack" for x
    using am_off_towards[of s ack x] am_off_zero[OF that(1) ack] that(2) by simp
  have nxt: "Suc (am_off s ?a nxt) = am_off s ack nxt" "unat nxt < 2 ^ am_to_number s"
    using am_off_towards[of s ack nxt] pos win by (simp_all add: tx_win_def)
  then have e: "Suc (tx_end s ?a nxt seg) = tx_end s ack nxt seg"
    by (simp add: tx_end_def flip: nxt(1))
  have "win_at w1 x \<noteq> None \<longleftrightarrow> unat x < 2 ^ am_to_number s \<and> am_off s ?a x < tx_end s ?a nxt seg" for x
  proof (cases "x = ack")
    case True
    have "am_off s ?a ack = 2 ^ am_to_number s - 1"
      using am_off_towards[of s ?a ack] sn_off_rebase_lt[OF am_to_number_32(1), of s ack ack ?a] am_off_inc[of s ack ack]
      by (cases s) simp_all
    moreover have "tx_end s ack nxt seg < 2 ^ am_to_number s"
      using win am_W(4)[of s] by (simp add: tx_win_def)
    ultimately show ?thesis using True w1(3) e by auto
  next
    case False
    have "am_off s ack x < tx_end s ack nxt seg \<longleftrightarrow> am_off s ?a x < tx_end s ?a nxt seg" if "unat x < 2 ^ am_to_number s"
      using away[OF that False] e by linarith
    then show ?thesis using False win w1(3) by (auto simp: tx_win_def)
  qed
  then have "tx_win s ?a nxt seg w1"
    using win w1(2) e sn_inc_less[of "am_to_number s" ack] by (simp add: tx_win_def am_inc_sn_inc)
  then show ?thesis using that here w1 e by blast
qed

lemma window_infos_step:
  assumes "win_at w1 = (win_at w)(ack := None)" and "win_at w ack = Some info" and "unat ack < 2 ^ am_to_number s"
    and "j < 2 ^ am_to_number s"
  shows "window_infos s ack (Suc j) w = info # window_infos s (am_inc s ack) j w1"
proof -
  have "sn_plus s (am_inc s ack) i \<noteq> ack" if "i < j" for i
    using am_off_sn_plus[of "Suc i" s ack] that assms(4) by (auto simp: sn_plus_Suc)
  then show ?thesis
    unfolding window_infos_def upt_conv_Cons[OF zero_less_Suc] map_Suc_upt[symmetric]
    using assms by (simp add: sn_plus_0 sn_plus_Suc)
qed

text \<open>The acknowledged SDUs leave the window in order: all below \<open>stop_sn\<close>, at most up to \<open>TX_Next\<close>.\<close>

lemma ack_loop_spec:
  assumes "tx_win s ack nxt seg w" and "unat stop_sn < 2 ^ am_to_number s"
    and "am_off s ack stop_sn \<le> am_off s ack nxt + (if seg = INVALID_RLC_SN then 1 else 0)"
  defines "j \<equiv> min (am_off s ack stop_sn) (am_off s ack nxt)"
  shows "\<exists>w'. ack_loop s stop_sn ack ack w d r = Some (sn_plus s ack j, w', last_delivered False (window_infos s ack j w) d,
       last_delivered True (window_infos s ack j w) r)
     \<and> tx_win s (sn_plus s ack j) nxt seg w' \<and> win_at w' = (\<lambda>sn. if am_off s ack sn < j then None else win_at w sn)"
  using assms(1,3) unfolding j_def
proof (induction "am_off s ack stop_sn" arbitrary: ack w d r)
  case 0
  then have "ack_loop s stop_sn ack ack w d r = Some (ack, w, d, r)"
    by (subst ack_loop.simps) (simp add: am_base_less flip: 0(1))
  moreover have "unat ack < 2 ^ am_to_number s" using 0 by (simp add: tx_win_def)
  ultimately show ?case
    using 0 by (simp add: sn_plus_0 window_infos_def last_delivered_def flip: 0(1))
next
  case (Suc k)
  let ?a = "am_inc s ack"
  have ack: "unat ack < 2 ^ am_to_number s" and more: "am_base s ack ack < am_base s ack stop_sn"
    using Suc(2,3) by (simp_all add: tx_win_def am_base_less)
  show ?case
  proof (cases "am_off s ack nxt = 0")
    case True
    then have "win_at w ack = None"
      using Suc by (cases "seg = INVALID_RLC_SN") (auto simp: tx_win_def tx_end_def)
    then have "ack_loop s stop_sn ack ack w d r = Some (ack, w, d, r)"
      using more by (subst ack_loop.simps) simp
    then show ?thesis
      using True Suc(3) ack by (simp add: sn_plus_0 window_infos_def last_delivered_def)
  next
    case False
    then obtain info w1 where w1: "win_at w ack = Some info" "remove_sn w ack = Some w1"
        "win_at w1 = (win_at w)(ack := None)" "tx_win s ?a nxt seg w1"
      using tx_win_step[OF Suc(3)] by blast
    have off: "am_off s ?a stop_sn = k" "Suc (am_off s ?a nxt) = am_off s ack nxt"
      using am_off_towards[of s ack stop_sn] am_off_towards[of s ack nxt] False Suc(2) by simp_all
    define j where "j = min k (am_off s ?a nxt)"
    have j: "min (am_off s ack stop_sn) (am_off s ack nxt) = Suc j" "Suc j < 2 ^ am_to_number s" "sn_plus s ?a j = sn_plus s ack (Suc j)"
      using off(2) Suc(2) am_off_less[of s ack nxt] by (auto simp: j_def sn_plus_Suc)
    have cond: "am_off s ?a stop_sn \<le> am_off s ?a nxt + (if seg = INVALID_RLC_SN then 1 else 0)"
      using Suc(2,4) off by linarith
    obtain w' where w': "ack_loop s stop_sn ?a ?a w1 (last_delivered False [info] d) (last_delivered True [info] r)
         = Some (sn_plus s ack (Suc j), w', last_delivered False (window_infos s ?a j w1) (last_delivered False [info] d),
             last_delivered True (window_infos s ?a j w1) (last_delivered True [info] r))"
        "tx_win s (sn_plus s ack (Suc j)) nxt seg w'" "win_at w' = (\<lambda>sn. if am_off s ?a sn < j then None else win_at w1 sn)"
      using Suc(1)[OF off(1)[symmetric] w1(4) cond, of "last_delivered False [info] d" "last_delivered True [info] r"]
      unfolding off(1) j_def[symmetric] j(3) by blast
    have "ack_loop s stop_sn ack ack w d r
        = ack_loop s stop_sn ?a ?a w1 (last_delivered False [info] d) (last_delivered True [info] r)"
      using more w1(1,2) by (subst ack_loop.simps) (simp add: last_delivered_def)
    moreover have "window_infos s ack (Suc j) w = info # window_infos s ?a j w1"
      using j(2) by (intro window_infos_step[OF w1(3,1) ack]) simp
    moreover have "win_at w' sn = (if am_off s ack sn < Suc j then None else win_at w sn)" for sn
    proof (cases "am_off s ack sn = 0 \<or> \<not> unat sn < 2 ^ am_to_number s")
      case True
      have "win_at w sn = None" if "\<not> unat sn < 2 ^ am_to_number s"
        using Suc(3) that unfolding tx_win_def by blast
      then show ?thesis
        using True w'(3) w1(3) am_off_zero[OF _ ack, of sn] by (cases "unat sn < 2 ^ am_to_number s") auto
    next
      case False
      then show ?thesis
        using w1(3) w'(3) am_off_towards[of s ack sn] by auto
    qed
    ultimately show ?thesis
      unfolding j(1) using w'(1,2) by (auto simp: last_delivered_def)
  qed
qed

text \<open>The stream loses the acknowledged prefix.\<close>

lemma window_stream_acked:
  assumes "win_at w' = (\<lambda>sn. if am_off s ack sn < j then None else win_at w sn)" and "j \<le> k" and "k < 2 ^ am_to_number s"
    and "unat ack < 2 ^ am_to_number s"
  shows "window_stream s (sn_plus s ack j) (k - j) w' = drop j (window_stream s ack k w)"
proof (rule nth_equalityI)
  fix i assume "i < length (window_stream s (sn_plus s ack j) (k - j) w')"
  then have i: "i < k - j" by (simp add: window_stream_def)
  have "sn_plus s (sn_plus s ack j) i = sn_plus s ack (j + i)"
    unfolding sn_plus_def take_bit_add_left[OF am_to_number_32(1)] by (simp add: add.assoc)
  moreover have "am_off s ack (sn_plus s ack (j + i)) = j + i"
    using i assms(2,3) by (intro am_off_sn_plus) simp
  ultimately show "window_stream s (sn_plus s ack j) (k - j) w' ! i = drop j (window_stream s ack k w) ! i"
    using i assms(1,2) by (simp add: window_stream_def win_sdus_def less_diff_conv add.commute)
qed (use assms in \<open>simp add: window_stream_def\<close>)

section \<open>Clearing the retransmission queue\<close>

lemma tx_retx_empty: "tx_retx s w q \<Longrightarrow> rq_empty q \<longleftrightarrow> rq_abs q = []"
  using rq_empty_abs by (auto simp: tx_retx_def)

lemma clear_retx_spec:
  assumes "tx_retx s w0 (ta_retx_queue st)" and "cm_wf k (ta_window st)"
  shows "\<exists>w' sn q. clear_retx_loop st = Some (st\<lparr>ta_window := w', ta_retx_sn := sn, ta_retx_queue := q\<rparr>)
     \<and> cm_wf k w' \<and> win_same (ta_window st) w' \<and> tx_retx s w0 q \<and> rq_empty q"
  using assms
proof (induction "rq_abs (ta_retx_queue st)" arbitrary: st)
  case Nil
  then have e: "rq_empty (ta_retx_queue st)" using tx_retx_empty by simp
  then have "clear_retx_loop st = Some (st\<lparr>ta_window := ta_window st, ta_retx_sn := ta_retx_sn st,
      ta_retx_queue := ta_retx_queue st\<rparr>)"
    by (subst clear_retx_loop.simps) simp
  then show ?case
    using Nil(2,3) e by (intro exI[of _ "ta_window st"] exI[of _ "ta_retx_sn st"] exI[of _ "ta_retx_queue st"]) simp
next
  case (Cons r rs)
  note abs = Cons(2)[symmetric]
  note front = tx_retx_front[OF Cons(3) abs]
  obtain q where q: "rq_pop (ta_retx_queue st) = Some q" "tx_retx s w0 q" "rq_abs q = rs"
    using tx_retx_pop[OF Cons(3) abs] by blast
  obtain w sn where step: "(if ta_retx_sn st \<noteq> rt_sn r
       then map_option (\<lambda>st'. (ta_window st', rt_sn r))
          (if has_sn (ta_window st) (rt_sn r) then decrement_retx_count (rt_sn r) st else Some st)
       else Some (ta_window st, ta_retx_sn st)) = Some (w, sn)" "cm_wf k w" "win_same (ta_window st) w"
    using decrement_retx_count_spec[OF Cons(4), of "rt_sn r"] Cons(4)
    by (cases "has_sn (ta_window st) (rt_sn r)"; cases "ta_retx_sn st = rt_sn r") auto
  let ?st = "st\<lparr>ta_window := w, ta_retx_sn := sn, ta_retx_queue := q\<rparr>"
  obtain w' sn' q' where "clear_retx_loop ?st = Some (st\<lparr>ta_window := w', ta_retx_sn := sn', ta_retx_queue := q'\<rparr>)"
      "cm_wf k w'" "win_same w w'" "tx_retx s w0 q'" "rq_empty q'"
    using Cons(1)[of ?st] q(2,3) step(2) by auto
  moreover have "clear_retx_loop st = clear_retx_loop ?st"
    using front q(1) step(1) by (subst clear_retx_loop.simps) simp
  ultimately show ?case
    using win_same_trans[OF step(3)] by auto
qed

section \<open>Negative acknowledgements\<close>

text \<open>The corrected range of a NACK lies in the SDU, and covers every missing byte that was sent.\<close>

lemma ucast_u16_len:
  assumes "0 < n" and "n \<le> am_max_sdu"
  shows "unat (ucast (of_nat n - 1 :: u32) :: u16) = n - 1"
proof -
  have eq: "(of_nat n - 1 :: u32) = of_nat (n - 1)" using assms by (simp add: of_nat_diff)
  have u: "unat (of_nat (n - 1) :: u32) = n - 1" using assms by (intro unat_of_nat_u32) (simp add: am_max_sdu_def)
  show ?thesis
    unfolding eq by (subst unat_ucast_u16; unfold u) (use assms in \<open>simp_all add: am_max_sdu_def\<close>)
qed

text \<open>The bounds before and after the corrections.\<close>

definition nack_first :: "rlc_am_status_nack \<Rightarrow> u16" where
  "nack_first nack = (if has_so nack then so_start nack else 0)"

definition nack_last :: "rlc_tx_am \<Rightarrow> rlc_tx_am_sdu_info \<Rightarrow> rlc_am_status_nack \<Rightarrow> u16" where
  "nack_last st info nack = (if has_so nack \<and> so_end nack \<noteq> so_end_of_sdu then so_end nack
     else if has_so nack \<and> nack_sn nack = ta_sn_under_segmentation st then ucast (ti_next_so info - 1)
     else ucast (of_nat (length (ti_sdu info)) - 1 :: u32))"

definition nack_unsent :: "rlc_tx_am \<Rightarrow> rlc_tx_am_sdu_info \<Rightarrow> rlc_am_status_nack \<Rightarrow> bool" where
  "nack_unsent st info nack \<longleftrightarrow> has_so nack \<and> so_end nack = so_end_of_sdu \<and> nack_sn nack = ta_sn_under_segmentation st
     \<and> (ti_next_so info = 0 \<or> ti_next_so info \<le> ucast (so_start nack))"

definition clip_first :: "nat \<Rightarrow> u16 \<Rightarrow> u16 \<Rightarrow> u16" where
  "clip_first n a b = (if unat b < unat a \<or> n \<le> unat a then 0 else a)"

definition clip_last :: "nat \<Rightarrow> u16 \<Rightarrow> u16" where
  "clip_last n b = (if n \<le> unat b then of_nat (n - 1) else b)"

lemma fst_nack_bounds:
  assumes "0 < length (ti_sdu info)" and "length (ti_sdu info) \<le> am_max_sdu"
  shows "fst (nack_bounds defer_ok st info nack) = (if nack_unsent st info nack then None
     else Some (clip_first (length (ti_sdu info)) (nack_first nack) (nack_last st info nack),
       clip_last (length (ti_sdu info)) (nack_last st info nack)))"
proof -
  let ?n = "length (ti_sdu info)" and ?e = "ucast (of_nat (length (ti_sdu info)) - 1 :: u32) :: u16"
  have e: "unat ?e = ?n - 1" by (rule ucast_u16_len[OF assms])
  then have "?e \<noteq> so_end_of_sdu" "(of_nat (?n - 1) :: u16) = ?e"
    using assms by (auto simp: so_end_of_sdu_def am_max_sdu_def word_unat_eq_iff unat_of_nat_u16)
  moreover have "(of_nat ?n :: u32) \<le> ucast (x :: u16) \<longleftrightarrow> ?n \<le> unat x" for x
    using assms(2) by (simp add: word_le_nat_alt unat_of_nat_u32 am_max_sdu_def)
  ultimately show ?thesis
    by (cases "has_so nack"; cases "so_end nack = so_end_of_sdu"; cases "nack_sn nack = ta_sn_under_segmentation st")
      (simp_all add: nack_bounds_def Let_def nack_unsent_def nack_first_def nack_last_def clip_first_def clip_last_def
        word_less_nat_alt)
qed

lemma clip_bounds:
  assumes "0 < n" and "n \<le> am_max_sdu"
  shows "unat (clip_first n a b) \<le> unat (clip_last n b)" "unat (clip_last n b) < n"
    "unat (clip_first n a b) \<le> unat a" "off < n \<Longrightarrow> off \<le> unat b \<Longrightarrow> off \<le> unat (clip_last n b)"
proof -
  have "unat (clip_last n b) = min (unat b) (n - 1)"
    using assms unat_of_nat_u16[of "n - 1"] unfolding clip_last_def by (auto simp: am_max_sdu_def simp del: of_nat_diff)
  then show "unat (clip_first n a b) \<le> unat (clip_last n b)" "unat (clip_last n b) < n"
    "unat (clip_first n a b) \<le> unat a" "off < n \<Longrightarrow> off \<le> unat b \<Longrightarrow> off \<le> unat (clip_last n b)"
    using assms by (auto simp: clip_first_def)
qed

text \<open>The retransmission that a NACK of a single sequence number leads to, if any.\<close>

definition nack_retx :: "rlc_tx_am \<Rightarrow> rlc_am_status_nack \<Rightarrow> rlc_tx_amd_retx option" where
  "nack_retx st nack = (if am_off (ta_size st) (ta_tx_next_ack st) (nack_sn nack) \<le> am_off (ta_size st) (ta_tx_next_ack st) (ta_tx_next st)
     then do {
       info \<leftarrow> win_at (ta_window st) (nack_sn nack);
       (a, b) \<leftarrow> fst (nack_bounds True st info nack);
       Some \<lparr>rt_sn = nack_sn nack, rt_so = ucast a, rt_length = ucast b - ucast a + 1\<rparr>
     } else None)"

text \<open>What the transmitter may be asked for: a sequence number it has used.\<close>

definition nack_known :: "rlc_tx_am \<Rightarrow> u32 \<Rightarrow> bool" where
  "nack_known st sn \<longleftrightarrow> unat sn < 2 ^ am_to_number (ta_size st)
     \<and> (ta_sn_under_segmentation st = INVALID_RLC_SN \<longrightarrow> sn \<noteq> ta_tx_next st)"

lemma nack_known_window:
  assumes inv: "ta_inv st" and sn: "nack_known st sn"
    and low: "am_off (ta_size st) (ta_tx_next_ack st) sn \<le> am_off (ta_size st) (ta_tx_next_ack st) (ta_tx_next st)"
  shows "win_at (ta_window st) sn \<noteq> None"
proof -
  have win: "tx_win (ta_size st) (ta_tx_next_ack st) (ta_tx_next st) (ta_sn_under_segmentation st) (ta_window st)"
    using inv by (simp add: ta_inv_def)
  then have "unat (ta_tx_next st) < 2 ^ am_to_number (ta_size st)" by (simp add: tx_win_def)
  then have "sn \<noteq> ta_tx_next st \<Longrightarrow> am_off (ta_size st) (ta_tx_next_ack st) sn \<noteq> am_off (ta_size st) (ta_tx_next_ack st) (ta_tx_next st)"
    using am_off_inj sn by (auto simp: nack_known_def)
  then have "am_off (ta_size st) (ta_tx_next_ack st) sn < tx_end (ta_size st) (ta_tx_next_ack st) (ta_tx_next st) (ta_sn_under_segmentation st)"
    using low sn by (auto simp: tx_end_def nack_known_def)
  then show ?thesis using win sn by (simp add: tx_win_def nack_known_def)
qed

lemma nack_retx_Some:
  assumes inv: "ta_inv st" and r: "nack_retx st nack = Some r"
  shows "retx_ok (ta_window st) r" "rt_sn r = nack_sn nack" "win_at (ta_window st) (nack_sn nack) \<noteq> None"
proof -
  obtain info a b where info: "win_at (ta_window st) (nack_sn nack) = Some info"
      and ab: "fst (nack_bounds True st info nack) = Some (a, b)"
      and r': "r = \<lparr>rt_sn = nack_sn nack, rt_so = ucast a, rt_length = ucast b - ucast a + 1\<rparr>"
    using r by (auto simp: nack_retx_def bind_eq_Some_conv' split: if_splits)
  then show "rt_sn r = nack_sn nack" "win_at (ta_window st) (nack_sn nack) \<noteq> None" by simp_all
  have n: "0 < length (ti_sdu info)" "length (ti_sdu info) \<le> am_max_sdu"
    using tx_infosD[OF _ info] inv by (auto simp: ta_inv_def tx_info_ok_def)
  have le: "unat a \<le> unat b" "unat b < length (ti_sdu info)"
    using ab clip_bounds[OF n] unfolding fst_nack_bounds[OF n] by (auto split: if_splits)
  then have "unat (ucast b - ucast a :: u32) = unat b - unat a"
    by (subst unat_sub) (simp_all add: word_le_nat_alt)
  then have "unat (ucast b - ucast a + 1 :: u32) = unat b - unat a + 1"
    using le n by (subst unat_plus_u32) (simp_all add: am_max_sdu_def)
  then show "retx_ok (ta_window st) r"
    using le info by (simp add: retx_ok_def win_sdus_def r')
qed

lemma rq_push_size: "rq_wf q \<Longrightarrow> rq_size (snd (rq_try_push r q)) = rq_size q + (if fst (rq_try_push r q) then 1 else 0)"
proof -
  assume wf: "rq_wf q"
  then have b: "rb_wf (rq_queue q)" by (simp add: rq_wf_def)
  show ?thesis
    using rb.push_ok[OF b, of "\<lparr>qi_invalid = False, qi_retx = r\<rparr>"] rb.push_full[OF b, of "\<lparr>qi_invalid = False, qi_retx = r\<rparr>"]
      rb.bounded[OF b]
    by (cases "length (rb_list (rq_queue q)) < rb_max_size (rq_queue q)")
      (auto simp: rq_try_push_def rq_size_def simp flip: length_rb_list)
qed

text \<open>Queues without removed elements: every push counts.\<close>

definition rq_plain :: "rlc_retx_queue \<Rightarrow> bool" where
  "rq_plain q \<longleftrightarrow> rq_size q = length (rq_abs q)"

lemma handle_nack_spec:
  assumes inv: "ta_inv st" and single: "\<not> has_nack_range nack" and sn: "nack_known st (nack_sn nack)"
    and plain: "rq_plain (ta_retx_queue st)"
  shows "\<exists>q ev. handle_nack defer_ok nack st = Some (rq_abs q \<noteq> rq_abs (ta_retx_queue st), st\<lparr>ta_retx_queue := q\<rparr>, ev)
     \<and> ta_inv (st\<lparr>ta_retx_queue := q\<rparr>) \<and> rq_plain q
     \<and> rq_abs q = take (am_W (ta_size st)) (rq_abs (ta_retx_queue st) @ (case nack_retx st nack of None \<Rightarrow> [] | Some r \<Rightarrow> [r]))
     \<and> (rq_abs q \<noteq> rq_abs (ta_retx_queue st) \<longrightarrow> win_at (ta_window st) (nack_sn nack) \<noteq> None)"
proof -
  let ?q = "ta_retx_queue st" and ?w = "ta_window st"
  have retx: "tx_retx (ta_size st) ?w ?q" and small: "win_small ?w"
    using inv tx_infos_small by (auto simp: ta_inv_def)
  note len = tx_retx_length[OF retx]
  have same: "handle_nack defer_ok nack st = Some (False, st, ev) \<Longrightarrow> nack_retx st nack = None \<Longrightarrow> ?thesis" for ev
    using inv plain len by (intro exI[of _ ?q]) simp
  show ?thesis
  proof (cases "tx_mod_base st (nack_sn nack) \<le> tx_mod_base st (ta_tx_next st)")
    case False
    then show ?thesis using single by (intro same) (simp_all add: handle_nack_def nack_retx_def am_base_le)
  next
    case True
    obtain info where info: "win_at ?w (nack_sn nack) = Some info"
      using nack_known_window[OF inv sn] True by (auto simp: am_base_le)
    have n: "0 < length (ti_sdu info)" "length (ti_sdu info) \<le> am_max_sdu"
      using tx_infosD[OF _ info] inv by (auto simp: ta_inv_def tx_info_ok_def)
    obtain ev where ev: "nack_bounds defer_ok st info nack = (fst (nack_bounds True st info nack), ev)"
      by (metis fst_nack_bounds[OF n] prod.collapse)
    show ?thesis
    proof (cases "fst (nack_bounds True st info nack)")
      case None
      then show ?thesis
        using single True info ev
        by (intro same) (auto simp: handle_nack_def nack_retx_def am_base_le)
    next
      case (Some ab)
      obtain a b where ab: "ab = (a, b)" by (cases ab)
      let ?r = "\<lparr>rt_sn = nack_sn nack, rt_so = ucast a, rt_length = ucast b - ucast a + 1\<rparr>"
      have r: "nack_retx st nack = Some ?r"
        using True info Some ab by (simp add: nack_retx_def am_base_le)
      note push = tx_retx_push[OF retx nack_retx_Some(1)[OF inv r] small]
      let ?p = "fst (rq_try_push ?r ?q)" and ?q' = "snd (rq_try_push ?r ?q)"
      have "handle_nack defer_ok nack st = Some (?p, st\<lparr>ta_retx_queue := ?q'\<rparr>, ev)"
        using single True info ev Some ab by (simp add: handle_nack_def am_base_le case_prod_beta Let_def)
      moreover have "?p \<longleftrightarrow> rq_abs ?q' \<noteq> rq_abs ?q" using push(2) by simp
      moreover have "rq_plain ?q'"
        using plain push(2) rq_push_size[of ?q ?r] retx by (simp add: rq_plain_def tx_retx_def)
      moreover have "rq_abs ?q' = take (am_W (ta_size st)) (rq_abs ?q @ [?r])"
        using push(2,3) len plain by (auto simp: rq_plain_def)
      moreover have "ta_inv (st\<lparr>ta_retx_queue := ?q'\<rparr>)"
        using inv push(1) by (simp add: ta_inv_def)
      ultimately show ?thesis using r info by (intro exI[of _ ?q']) auto
    qed
  qed
qed

subsection \<open>The loops over NACKs as one pass over single NACKs\<close>

text \<open>The NACKs of single sequence numbers that a NACK with a range stands for.\<close>

definition expand_nack :: "rlc_am_sn_size \<Rightarrow> u32 \<Rightarrow> rlc_am_status_nack \<Rightarrow> rlc_am_status_nack list" where
  "expand_nack s ack_sn nack = (if has_nack_range nack
     then map (range_item s nack) (takeWhile (\<lambda>sn. sn \<noteq> ack_sn) (map (sn_plus s (nack_sn nack)) [0..<unat (nack_range nack)]))
     else [nack])"

fun process_items :: "bool \<Rightarrow> rlc_am_status_nack list \<Rightarrow> u32 \<Rightarrow> rlc_tx_am \<Rightarrow> (u32 \<times> rlc_tx_am \<times> rlc_tx_event list) option" where
  "process_items defer_ok [] prev st = Some (prev, st, [])"
| "process_items defer_ok (nack # nacks) prev st = do {
     (prev, st, ev) \<leftarrow> process_nack defer_ok nack prev st;
     (prev, st, ev') \<leftarrow> process_items defer_ok nacks prev st;
     Some (prev, st, ev @ ev')
   }"

lemma process_items_append:
  "process_items defer_ok (ms @ ns) prev st = do {
     (prev, st, ev) \<leftarrow> process_items defer_ok ms prev st;
     (prev, st, ev') \<leftarrow> process_items defer_ok ns prev st;
     Some (prev, st, ev @ ev')
   }"
proof (induction ms arbitrary: prev st)
  case Nil
  then show ?case by (cases "process_items defer_ok ns prev st") auto
next
  case (Cons m ms)
  then show ?case
    by (cases "process_nack defer_ok m prev st")
      (auto simp: bind_assoc case_prod_beta intro!: arg_cong2[where f = Option.bind] ext)
qed

lemma sn_plus_upt:
  assumes "unat b < 2 ^ am_to_number s"
  shows "map (sn_plus s b) [0..<Suc k] = b # map (sn_plus s (am_inc s b)) [0..<k]"
  unfolding upt_conv_Cons[OF zero_less_Suc] map_Suc_upt[symmetric] using assms by (simp add: sn_plus_0 sn_plus_Suc)

lemma nack_range_loop_items:
  assumes "unat range_sn < 2 ^ am_to_number s"
  shows "nack_range_loop s defer_ok rng ack_sn range_sn prev st = process_items defer_ok
     (map (range_item s rng) (takeWhile (\<lambda>sn. sn \<noteq> ack_sn) (map (sn_plus s range_sn) [0..<am_off s range_sn (range_stop s rng)]))) prev st"
  using assms
proof (induction "am_off s range_sn (range_stop s rng)" arbitrary: range_sn prev st)
  case 0
  have "unat (range_stop s rng) < 2 ^ am_to_number s"
    by (simp add: range_stop_def am_mod_take_bit unat_take_bit_u32)
  then have "range_sn = range_stop s rng"
    using 0 am_off_zero[of "range_stop s rng" s range_sn] by simp
  then show ?case by (subst nack_range_loop.simps) simp
next
  case (Suc k)
  let ?next = "am_inc s range_sn"
  have k: "k = am_off s ?next (range_stop s rng)"
    using am_off_towards[of s range_sn "range_stop s rng"] Suc(2) by simp
  have ne: "range_sn \<noteq> range_stop s rng" using Suc(2) by auto
  have bound: "unat ?next < 2 ^ am_to_number s"
    by (simp add: am_inc_sn_inc sn_inc_less)
  have upt: "map (sn_plus s range_sn) [0..<am_off s range_sn (range_stop s rng)] = range_sn # map (sn_plus s ?next) [0..<k]"
    unfolding Suc(2)[symmetric] by (rule sn_plus_upt[OF Suc(3)])
  show ?case
    unfolding upt using ne Suc(1)[OF k bound]
    by (subst nack_range_loop.simps) (auto simp flip: k split: option.split)
qed

lemma range_stop_off: "am_off s (nack_sn rng) (range_stop s rng) = unat (nack_range rng)"
proof -
  have eq: "range_stop s rng = sn_plus s (nack_sn rng) (unat (nack_range rng))"
    by (simp add: range_stop_def am_mod_take_bit sn_plus_def)
  have "unat (nack_range rng) < 256"
    using unsigned_less[of "nack_range rng"] by simp
  then show ?thesis
    unfolding eq by (intro am_off_sn_plus) (cases s; simp)
qed

lemma handle_nack_cfg: "handle_nack defer_ok nack st = Some (b, st', ev) \<Longrightarrow> ta_cfg st' = ta_cfg st"
  unfolding handle_nack_def bind_eq_Some_conv'
  by (auto simp: bind_eq_Some_conv' Let_def case_prod_beta split: if_splits option.splits)

lemma increment_retx_count_cfg: "increment_retx_count sn st = Some (st', ev) \<Longrightarrow> ta_cfg st' = ta_cfg st"
  by (auto simp: increment_retx_count_def bind_eq_Some_conv' Let_def)

lemma process_nack_cfg: "process_nack defer_ok nack prev st = Some (prev', st', ev) \<Longrightarrow> ta_cfg st' = ta_cfg st"
  unfolding process_nack_def
  by (auto simp: bind_eq_Some_conv' split: if_splits dest!: handle_nack_cfg increment_retx_count_cfg)

lemma process_items_cfg: "process_items defer_ok nacks prev st = Some (prev', st', ev) \<Longrightarrow> ta_cfg st' = ta_cfg st"
  by (induction nacks arbitrary: prev st ev) (auto simp: bind_eq_Some_conv' dest!: process_nack_cfg)

lemma nacks_loop_items:
  assumes "\<forall>nack \<in> set nacks. unat (nack_sn nack) < 2 ^ am_to_number (ta_size st)"
  shows "nacks_loop defer_ok ack_sn nacks prev st
     = map_option snd (process_items defer_ok (concat (map (expand_nack (ta_size st) ack_sn) nacks)) prev st)"
  using assms
proof (induction nacks arbitrary: prev st)
  case (Cons n ns)
  let ?head = "process_items defer_ok (expand_nack (ta_size st) ack_sn n) prev st"
  have head: "(if has_nack_range n then nack_range_loop (ta_size st) defer_ok n ack_sn (nack_sn n) prev st
      else process_nack defer_ok n prev st) = ?head"
    using nack_range_loop_items[of "nack_sn n" "ta_size st" defer_ok n ack_sn prev st] Cons(2)
    by (cases "process_nack defer_ok n prev st") (auto simp: expand_nack_def range_stop_off)
  show ?case
  proof (cases ?head)
    case None
    then show ?thesis unfolding nacks_loop.simps head by (simp add: process_items_append)
  next
    case (Some r)
    obtain prev' st' ev where r: "r = (prev', st', ev)" by (cases r)
    then have "ta_cfg st' = ta_cfg st" using process_items_cfg Some by blast
    then have "nacks_loop defer_ok ack_sn ns prev' st'
       = map_option snd (process_items defer_ok (concat (map (expand_nack (ta_size st) ack_sn) ns)) prev' st')"
      using Cons(1)[of st' prev'] Cons(2) by simp
    then show ?thesis
      unfolding nacks_loop.simps head
      by (cases "process_items defer_ok (concat (map (expand_nack (ta_size st) ack_sn) ns)) prev' st'")
        (auto simp: process_items_append Some r)
  qed
qed simp

lemma nack_bounds_kept:
  assumes "ta_sn_under_segmentation st' = ta_sn_under_segmentation st"
  shows "nack_bounds d st' (info\<lparr>ti_retx_count := c\<rparr>) nack = nack_bounds d st info nack"
  by (simp add: nack_bounds_def assms Let_def)

lemma nack_retx_kept:
  assumes "ta_kept st st'"
  shows "nack_retx st' nack = nack_retx st nack"
proof -
  have "win_same (ta_window st) (ta_window st')" using assms by (simp add: ta_kept_def)
  then show ?thesis
    using assms nack_bounds_kept[of st' st]
    by (cases rule: win_same_cases[of "ta_window st" "ta_window st'" "nack_sn nack"])
      (simp_all add: ta_kept_def nack_retx_def)
qed

lemma nack_known_kept: "ta_kept st st' \<Longrightarrow> nack_known st' sn = nack_known st sn"
  by (simp add: ta_kept_def nack_known_def)

lemma process_nack_spec:
  assumes inv: "ta_inv st" and single: "\<not> has_nack_range nack" and sn: "nack_known st (nack_sn nack)"
    and plain: "rq_plain (ta_retx_queue st)"
  shows "\<exists>prev' st' ev. process_nack defer_ok nack prev st = Some (prev', st', ev) \<and> ta_inv st' \<and> ta_kept st st'
     \<and> rq_plain (ta_retx_queue st')
     \<and> rq_abs (ta_retx_queue st') = take (am_W (ta_size st)) (rq_abs (ta_retx_queue st) @ List.map_filter (nack_retx st) [nack])"
proof -
  obtain q ev where q: "handle_nack defer_ok nack st = Some (rq_abs q \<noteq> rq_abs (ta_retx_queue st), st\<lparr>ta_retx_queue := q\<rparr>, ev)"
     "ta_inv (st\<lparr>ta_retx_queue := q\<rparr>)" "rq_plain q"
     "rq_abs q = take (am_W (ta_size st)) (rq_abs (ta_retx_queue st) @ (case nack_retx st nack of None \<Rightarrow> [] | Some r \<Rightarrow> [r]))"
     "rq_abs q \<noteq> rq_abs (ta_retx_queue st) \<Longrightarrow> win_at (ta_window st) (nack_sn nack) \<noteq> None"
    using handle_nack_spec[OF assms] by blast
  let ?st = "st\<lparr>ta_retx_queue := q\<rparr>"
  have kept: "ta_kept st ?st" by (simp add: ta_kept_def)
  have abs: "rq_abs q = take (am_W (ta_size st)) (rq_abs (ta_retx_queue st) @ List.map_filter (nack_retx st) [nack])"
    using q(4) by (simp add: List.map_filter_simps split: option.split)
  show ?thesis
  proof (cases "rq_abs q \<noteq> rq_abs (ta_retx_queue st) \<and> prev \<noteq> nack_sn nack")
    case True
    then obtain w' ev' where "increment_retx_count (nack_sn nack) ?st = Some (?st\<lparr>ta_window := w'\<rparr>, ev')"
        "ta_inv (?st\<lparr>ta_window := w'\<rparr>)" "ta_kept ?st (?st\<lparr>ta_window := w'\<rparr>)"
      using increment_retx_count_spec[OF q(2), of "nack_sn nack"] q(5) by auto
    then show ?thesis
      using True q(1,3) abs ta_kept_trans[OF kept] by (simp add: process_nack_def)
  next
    case False
    then have "process_nack defer_ok nack prev st = Some (prev, ?st, ev)"
      using q(1) by (auto simp: process_nack_def)
    then show ?thesis using q(2,3) abs kept by simp
  qed
qed

lemma map_filter_Cons: "List.map_filter f (x # xs) = List.map_filter f [x] @ List.map_filter f xs"
  by (simp add: List.map_filter_simps split: option.split)

lemma take_append_take: "take n (take n xs @ ys) = take n (xs @ ys)"
  by (cases "length xs \<le> n") simp_all

lemma process_items_spec:
  assumes "ta_inv st" and "rq_plain (ta_retx_queue st)"
    and "\<forall>nack \<in> set items. \<not> has_nack_range nack \<and> nack_known st (nack_sn nack)"
  shows "\<exists>prev' st' ev. process_items defer_ok items prev st = Some (prev', st', ev) \<and> ta_inv st' \<and> ta_kept st st'
     \<and> rq_abs (ta_retx_queue st') = take (am_W (ta_size st)) (rq_abs (ta_retx_queue st) @ List.map_filter (nack_retx st) items)"
  using assms
proof (induction items arbitrary: prev st)
  case Nil
  then show ?case
    using tx_retx_length[of "ta_size st" "ta_window st" "ta_retx_queue st"] by (simp add: List.map_filter_simps ta_inv_def)
next
  case (Cons n ns)
  obtain prev1 st1 ev1 where 1: "process_nack defer_ok n prev st = Some (prev1, st1, ev1)" "ta_inv st1" "ta_kept st st1"
     "rq_plain (ta_retx_queue st1)"
     "rq_abs (ta_retx_queue st1) = take (am_W (ta_size st)) (rq_abs (ta_retx_queue st) @ List.map_filter (nack_retx st) [n])"
    using process_nack_spec[of st n defer_ok prev] Cons(2-4) by auto
  have size: "ta_size st1 = ta_size st" using 1(3) by (simp add: ta_kept_def)
  obtain prev2 st2 ev2 where 2: "process_items defer_ok ns prev1 st1 = Some (prev2, st2, ev2)" "ta_inv st2" "ta_kept st1 st2"
     "rq_abs (ta_retx_queue st2) = take (am_W (ta_size st)) (rq_abs (ta_retx_queue st1) @ List.map_filter (nack_retx st1) ns)"
    using Cons(1)[OF 1(2,4), of prev1] Cons(4) nack_known_kept[OF 1(3)] unfolding size by auto
  have "nack_retx st1 = nack_retx st" using nack_retx_kept[OF 1(3)] by blast
  then have "rq_abs (ta_retx_queue st2) = take (am_W (ta_size st)) (rq_abs (ta_retx_queue st) @ List.map_filter (nack_retx st) (n # ns))"
    unfolding 2(4) 1(5) take_append_take append_assoc by (simp only: map_filter_Cons[of _ n ns])
  then show ?case using 1(1) 2(1,2) ta_kept_trans[OF 1(3) 2(3)] by simp
qed

section \<open>Handling a status report\<close>

text \<open>The checks that a report has to pass.\<close>

definition status_accepted :: "rlc_tx_am \<Rightarrow> rlc_am_status_pdu \<Rightarrow> bool" where
  "status_accepted st status \<longleftrightarrow> ta_valid_ack_sn st (st_ack_sn status)
     \<and> tx_mod_base st (st_ack_sn status) \<le> tx_mod_base st (ta_tx_next st + 1)
     \<and> fst (valid_nacks True st (st_ack_sn status) (st_nacks status))"

text \<open>
  Reports about SDUs that were transmitted: the sequence numbers are in range, and \<open>ACK_SN = TX_Next + 1\<close>
  is used for the SDU under segmentation only, together with a NACK.  (If no SDU is under segmentation,
  a report without NACKs does no harm: the loop stops at \<open>TX_Next\<close>.)
\<close>

definition status_sane :: "rlc_tx_am \<Rightarrow> rlc_am_status_pdu \<Rightarrow> bool" where
  "status_sane st status \<longleftrightarrow> unat (st_ack_sn status) < 2 ^ am_to_number (ta_size st)
     \<and> (\<forall>nack \<in> set (st_nacks status). unat (nack_sn nack) < 2 ^ am_to_number (ta_size st))
     \<and> (st_ack_sn status = am_inc (ta_size st) (ta_tx_next st)
          \<longrightarrow> (st_nacks status = [] \<longleftrightarrow> ta_sn_under_segmentation st = INVALID_RLC_SN))"

definition status_stop :: "rlc_am_status_pdu \<Rightarrow> u32" where
  "status_stop status = (if st_nacks status = [] then st_ack_sn status else nack_sn (hd (st_nacks status)))"

text \<open>The number of SDUs acknowledged.\<close>

definition status_acks :: "rlc_tx_am \<Rightarrow> rlc_am_status_pdu \<Rightarrow> nat" where
  "status_acks st status = min (am_off (ta_size st) (ta_tx_next_ack st) (status_stop status))
     (am_off (ta_size st) (ta_tx_next_ack st) (ta_tx_next st))"

definition status_items :: "rlc_am_sn_size \<Rightarrow> rlc_am_status_pdu \<Rightarrow> rlc_am_status_nack list" where
  "status_items s status = concat (map (expand_nack s (st_ack_sn status)) (st_nacks status))"

lemma fst_valid_nack: "fst (valid_nack d st ack_sn nack) = fst (valid_nack True st ack_sn nack)"
  by (simp add: valid_nack_def Let_def)

lemma fst_valid_nacks: "fst (valid_nacks d st ack_sn nacks) \<longleftrightarrow> (\<forall>nack \<in> set nacks. fst (valid_nack True st ack_sn nack))"
  by (induction nacks) (auto simp: case_prod_beta fst_valid_nack[of d])

lemma valid_nack_low:
  assumes "fst (valid_nack True st ack_sn nack)"
  shows "am_off (ta_size st) (ta_tx_next_ack st) (nack_sn nack) < am_off (ta_size st) (ta_tx_next_ack st) ack_sn"
    "has_nack_range nack \<Longrightarrow> am_off (ta_size st) (ta_tx_next_ack st) (nack_sn nack + ucast (nack_range nack) - 1)
       < am_off (ta_size st) (ta_tx_next_ack st) ack_sn"
  using assms by (auto simp: valid_nack_def Let_def am_base_le not_le split: if_splits)

lemma accepted_ack_off:
  assumes inv: "ta_inv st" and acc: "status_accepted st status"
  shows "am_off (ta_size st) (ta_tx_next_ack st) (st_ack_sn status) \<le> am_off (ta_size st) (ta_tx_next_ack st) (ta_tx_next st) + 1"
    "am_off (ta_size st) (ta_tx_next_ack st) (st_ack_sn status) \<le> am_W (ta_size st)"
proof -
  let ?s = "ta_size st" and ?ack = "ta_tx_next_ack st"
  have "am_off ?s ?ack (ta_tx_next st + 1) \<le> am_off ?s ?ack (ta_tx_next st) + 1"
    unfolding sn_off_add[OF am_to_number_32(1)] by (cases ?s) (simp_all add: mod_less_eq_dividend)
  then show "am_off ?s ?ack (st_ack_sn status) \<le> am_off ?s ?ack (ta_tx_next st) + 1"
    using acc by (simp add: status_accepted_def am_base_le)
  show "am_off ?s ?ack (st_ack_sn status) \<le> am_W ?s"
    using acc by (simp add: status_accepted_def ta_valid_ack_sn_def word_le_nat_alt unat_am_base am_W)
qed

lemma sn_plus_off: "am_off s b x + i < 2 ^ am_to_number s \<Longrightarrow> am_off s b (sn_plus s x i) = am_off s b x + i"
proof -
  assume i: "am_off s b x + i < 2 ^ am_to_number s"
  then have "i < 2 ^ 32" by (cases s) auto
  then show ?thesis
    using i sn_off_add[OF am_to_number_32(1), of s b x "of_nat i"]
    by (simp add: sn_plus_def sn_off_take_bit am_to_number_32 unat_of_nat_u32)
qed

text \<open>All sequence numbers asked for lie before \<open>ACK_SN\<close>.\<close>

lemma range_low:
  assumes inv: "ta_inv st" and acc: "status_accepted st status" and nack: "nack \<in> set (st_nacks status)"
    and range: "has_nack_range nack" and i: "i < unat (nack_range nack)"
  shows "am_off (ta_size st) (ta_tx_next_ack st) (sn_plus (ta_size st) (nack_sn nack) i)
     < am_off (ta_size st) (ta_tx_next_ack st) (st_ack_sn status)"
proof -
  let ?s = "ta_size st" and ?off = "am_off (ta_size st) (ta_tx_next_ack st)"
  have v: "fst (valid_nack True st (st_ack_sn status) nack)"
    using acc nack by (simp add: status_accepted_def fst_valid_nacks)
  have r: "unat (nack_range nack) < 256" using unsigned_less[of "nack_range nack"] by simp
  have room: "?off (nack_sn nack) + 256 < 2 ^ am_to_number ?s"
    using valid_nack_low(1)[OF v] accepted_ack_off(2)[OF inv acc] by (cases ?s) (simp_all add: am_W_def)
  have u: "unat (ucast (nack_range nack) :: u32) = unat (nack_range nack)"
    using r by (simp add: unsigned_ucast_eq take_bit_eq_mod)
  have "unat (ucast (nack_range nack) - 1 :: u32) = unat (nack_range nack) - 1"
    using i by (subst unat_sub) (simp_all add: word_le_nat_alt u)
  then have "?off (nack_sn nack + (ucast (nack_range nack) - 1)) = ?off (nack_sn nack) + (unat (nack_range nack) - 1)"
    unfolding sn_off_add[OF am_to_number_32(1)] using r room by simp
  then have "?off (nack_sn nack) + i < ?off (st_ack_sn status)"
    using valid_nack_low(2)[OF v range] i by (simp add: add_diff_eq)
  then show ?thesis
    using sn_plus_off[of ?s "ta_tx_next_ack st" "nack_sn nack" i] r room i by simp
qed

lemma items_low:
  assumes inv: "ta_inv st" and acc: "status_accepted st status" and nack: "nack \<in> set (st_nacks status)"
    and sn: "unat (nack_sn nack) < 2 ^ am_to_number (ta_size st)"
    and item: "item \<in> set (expand_nack (ta_size st) (st_ack_sn status) nack)"
  shows "am_off (ta_size st) (ta_tx_next_ack st) (nack_sn item) < am_off (ta_size st) (ta_tx_next_ack st) (st_ack_sn status)"
    "unat (nack_sn item) < 2 ^ am_to_number (ta_size st)" "\<not> has_nack_range item"
proof -
  have v: "fst (valid_nack True st (st_ack_sn status) nack)"
    using acc nack by (simp add: status_accepted_def fst_valid_nacks)
  consider "\<not> has_nack_range nack" "item = nack"
    | i where "has_nack_range nack" "i < unat (nack_range nack)" "item = range_item (ta_size st) nack (sn_plus (ta_size st) (nack_sn nack) i)"
    using item by (cases "has_nack_range nack") (auto simp: expand_nack_def dest!: set_takeWhileD)
  then have "am_off (ta_size st) (ta_tx_next_ack st) (nack_sn item) < am_off (ta_size st) (ta_tx_next_ack st) (st_ack_sn status)
     \<and> unat (nack_sn item) < 2 ^ am_to_number (ta_size st) \<and> \<not> has_nack_range item"
    using valid_nack_low(1)[OF v] sn range_low[OF inv acc nack] sn_plus_bound
    by cases (simp_all add: range_item_def Let_def nack_default_def)
  then show "am_off (ta_size st) (ta_tx_next_ack st) (nack_sn item) < am_off (ta_size st) (ta_tx_next_ack st) (st_ack_sn status)"
    "unat (nack_sn item) < 2 ^ am_to_number (ta_size st)" "\<not> has_nack_range item" by blast+
qed

lemma sane_ack:
  assumes inv: "ta_inv st" and acc: "status_accepted st status" and sane: "status_sane st status"
  shows "st_ack_sn status = am_inc (ta_size st) (ta_tx_next st)
     \<or> am_off (ta_size st) (ta_tx_next_ack st) (st_ack_sn status) \<le> am_off (ta_size st) (ta_tx_next_ack st) (ta_tx_next st)"
proof -
  let ?s = "ta_size st" and ?off = "am_off (ta_size st) (ta_tx_next_ack st)"
  have "?off (ta_tx_next st) \<le> am_W ?s"
    using inv by (simp add: ta_inv_def tx_win_def tx_end_def)
  then have "?off (am_inc ?s (ta_tx_next st)) = ?off (ta_tx_next st) + 1"
    unfolding am_off_inc by (cases ?s) (simp_all add: am_W_def)
  then show ?thesis
    using accepted_ack_off(1)[OF inv acc] am_off_inj[of "st_ack_sn status" ?s "am_inc ?s (ta_tx_next st)" "ta_tx_next_ack st"] sane am_inc_less
    by (auto simp: status_sane_def)
qed

lemma items_known:
  assumes inv: "ta_inv st" and acc: "status_accepted st status" and sane: "status_sane st status"
    and item: "item \<in> set (status_items (ta_size st) status)"
  shows "nack_known st (nack_sn item)" "\<not> has_nack_range item"
proof -
  obtain nack where nack: "nack \<in> set (st_nacks status)" "item \<in> set (expand_nack (ta_size st) (st_ack_sn status) nack)"
    using item by (auto simp: status_items_def)
  have "unat (nack_sn nack) < 2 ^ am_to_number (ta_size st)"
    using sane nack(1) by (simp add: status_sane_def)
  note low = items_low[OF inv acc nack(1) this nack(2)]
  then show "nack_known st (nack_sn item)" "\<not> has_nack_range item"
    using sane_ack[OF inv acc sane] sane nack(1) by (auto simp: nack_known_def status_sane_def)
qed

lemma stop_off:
  assumes inv: "ta_inv st" and acc: "status_accepted st status" and sane: "status_sane st status"
  shows "unat (status_stop status) < 2 ^ am_to_number (ta_size st)"
    "am_off (ta_size st) (ta_tx_next_ack st) (status_stop status)
       \<le> am_off (ta_size st) (ta_tx_next_ack st) (ta_tx_next st) + (if ta_sn_under_segmentation st = INVALID_RLC_SN then 1 else 0)"
proof -
  show "unat (status_stop status) < 2 ^ am_to_number (ta_size st)"
    using sane by (auto simp: status_stop_def status_sane_def)
  show "am_off (ta_size st) (ta_tx_next_ack st) (status_stop status)
       \<le> am_off (ta_size st) (ta_tx_next_ack st) (ta_tx_next st) + (if ta_sn_under_segmentation st = INVALID_RLC_SN then 1 else 0)"
  proof (cases "st_nacks status")
    case Nil
    then show ?thesis
      using sane_ack[OF inv acc sane] sane accepted_ack_off(1)[OF inv acc] by (auto simp: status_stop_def status_sane_def)
  next
    case (Cons n ns)
    then have "fst (valid_nack True st (st_ack_sn status) n)"
      using acc fst_valid_nacks[of True st "st_ack_sn status" "st_nacks status"] by (simp add: status_accepted_def del: valid_nacks.simps)
    then show ?thesis
      using Cons valid_nack_low(1) accepted_ack_off(1)[OF inv acc] by (fastforce simp: status_stop_def)
  qed
qed

lemma handle_status_rejected:
  assumes "\<not> status_accepted st status"
  shows "\<exists>ev. handle_status_pdu defer_ok hol_older rx status st = Some (st, ev)"
  using assms fst_valid_nacks[of defer_ok st "st_ack_sn status" "st_nacks status"]
    fst_valid_nacks[of True st "st_ack_sn status" "st_nacks status"]
  by (auto simp: handle_status_pdu_def status_accepted_def not_le split: prod.split)

text \<open>The state after the acknowledgements were processed and the queue of retransmissions was emptied.\<close>

definition ta_acked :: "nat \<Rightarrow> rlc_tx_am \<Rightarrow> rlc_tx_am \<Rightarrow> bool" where
  "ta_acked j st st' \<longleftrightarrow> ta_inv st' \<and> ta_cfg st' = ta_cfg st \<and> ta_tx_next st' = ta_tx_next st
     \<and> ta_sn_under_segmentation st' = ta_sn_under_segmentation st \<and> ta_sdu_queue st' = ta_sdu_queue st
     \<and> ta_tx_next_ack st' = sn_plus (ta_size st) (ta_tx_next_ack st) j \<and> rq_empty (ta_retx_queue st')
     \<and> win_sdus (ta_window st') = (\<lambda>sn. if am_off (ta_size st) (ta_tx_next_ack st) sn < j then None else win_sdus (ta_window st) sn)
     \<and> (\<forall>sn info. win_at (ta_window st') sn = Some info
          \<longrightarrow> (\<exists>i. win_at (ta_window st) sn = Some i \<and> ti_next_so info = ti_next_so i))
     \<and> ta_stream st' = drop j (ta_stream st)"

lemma acked_window:
  assumes inv: "ta_inv st" and low: "j \<le> am_off (ta_size st) (ta_tx_next_ack st) (ta_tx_next st)"
    and w1: "tx_win (ta_size st) (sn_plus (ta_size st) (ta_tx_next_ack st) j) (ta_tx_next st) (ta_sn_under_segmentation st) w1"
      "win_at w1 = (\<lambda>sn. if am_off (ta_size st) (ta_tx_next_ack st) sn < j then None else win_at (ta_window st) sn)"
    and w2: "cm_wf (am_to_number (ta_size st) - 1) w2" "win_same w1 w2"
    and q: "tx_retx (ta_size st) (ta_window st) q" "rq_empty q"
  shows "ta_acked j st (st\<lparr>ta_poll_timer := b, ta_tx_next_ack := sn_plus (ta_size st) (ta_tx_next_ack st) j, ta_window := w2,
     ta_retx_queue := q, ta_retx_sn := INVALID_RLC_SN\<rparr>)"
proof -
  let ?s = "ta_size st" and ?ack = "ta_tx_next_ack st" and ?seg = "ta_sn_under_segmentation st"
  let ?st' = "st\<lparr>ta_poll_timer := b, ta_tx_next_ack := sn_plus ?s ?ack j, ta_window := w2,
     ta_retx_queue := q, ta_retx_sn := INVALID_RLC_SN\<rparr>"
  note same = win_same_sdus[OF w2(2)]
  have "tx_infos ?seg w1"
    using inv w1(2) by (auto simp: ta_inv_def tx_infos_def)
  then have "tx_infos ?seg w2" by (rule win_same_infos[OF w2(2)])
  moreover have "tx_win ?s (sn_plus ?s ?ack j) (ta_tx_next st) ?seg w2"
    by (rule tx_win_upd[OF w1(1) w2(1) same])
  moreover have "tx_retx ?s w2 q"
    using q tx_retx_empty[OF q(1)] by (simp add: tx_retx_def)
  ultimately have "ta_inv ?st'" using inv by (simp add: ta_inv_def)
  have sdus1: "win_sdus w1 = (\<lambda>sn. if am_off ?s ?ack sn < j then None else win_sdus (ta_window st) sn)"
    using w1(2) by (auto simp: win_sdus_def)
  have win: "tx_win ?s ?ack (ta_tx_next st) ?seg (ta_window st)" using inv by (simp add: ta_inv_def)
  have bounds: "unat ?ack < 2 ^ am_to_number ?s" "ta_nof st < 2 ^ am_to_number ?s"
    using win am_W(4)[of ?s] by (simp_all add: tx_win_def ta_nof_def)
  have "am_off ?s ?ack (sn_plus ?s ?ack j) = j"
    using low am_off_less[of ?s ?ack "ta_tx_next st"] by (intro am_off_sn_plus) linarith
  then have nof: "ta_nof ?st' = ta_nof st - j" and j: "j \<le> ta_nof st"
    using low sn_off_rebase_ge[OF am_to_number_32(1), of ?s ?ack "sn_plus ?s ?ack j" "ta_tx_next st"]
    by (simp_all add: ta_nof_def tx_end_def)
  have "window_stream ?s (sn_plus ?s ?ack j) (ta_nof st - j) w2 = drop j (window_stream ?s ?ack (ta_nof st) (ta_window st))"
    using window_stream_acked[OF w1(2) j bounds(2,1)] window_stream_cong[OF same] by simp
  then have "ta_stream ?st' = drop j (ta_stream st)"
    using nof j by (simp add: ta_stream_def) (simp add: window_stream_def)
  moreover have "\<exists>i. win_at (ta_window st) sn = Some i \<and> ti_next_so info = ti_next_so i" if "win_at w2 sn = Some info" for sn info
    using w2(2) by (rule win_same_cases[of w1 w2 sn]) (use that w1(2) in \<open>auto split: if_splits\<close>)
  ultimately show ?thesis
    using \<open>ta_inv ?st'\<close> same sdus1 q by (simp add: ta_acked_def)
qed

lemma ta_pending_kept:
  assumes "ta_kept st st'" and "rq_abs (ta_retx_queue st') = rq_abs (ta_retx_queue st)"
  shows "ta_pending rx st' = ta_pending rx st"
proof -
  have "win_same (ta_window st) (ta_window st')" using assms(1) by (simp add: ta_kept_def)
  then have "segment_rest st' = segment_rest st"
    using assms(1)
    by (cases rule: win_same_cases[of "ta_window st" "ta_window st'" "ta_sn_under_segmentation st"])
      (simp_all add: ta_kept_def segment_rest_def)
  then show ?thesis using assms by (simp add: ta_kept_def ta_pending_def)
qed

lemma handle_status_accepted:
  assumes inv: "ta_inv st" and acc: "status_accepted st status" and sane: "status_sane st status"
  defines "j \<equiv> status_acks st status"
  shows "\<exists>st1 st' ev. handle_status_pdu defer_ok hol_older rx status st = Some (st',
       delivered_events (last_delivered False (window_infos (ta_size st) (ta_tx_next_ack st) j (ta_window st)) None)
         (last_delivered True (window_infos (ta_size st) (ta_tx_next_ack st) j (ta_window st)) None)
       @ ev @ [On_buffer_state_update (of_nat (ta_pending rx st'))])
     \<and> ta_acked j st st1 \<and> ta_inv st' \<and> ta_kept st1 st'
     \<and> rq_abs (ta_retx_queue st') = take (am_W (ta_size st)) (List.map_filter (nack_retx st') (status_items (ta_size st) status))"
proof -
  let ?s = "ta_size st" and ?ack = "ta_tx_next_ack st" and ?seg = "ta_sn_under_segmentation st"
  have win: "tx_win ?s ?ack (ta_tx_next st) ?seg (ta_window st)" and retx: "tx_retx ?s (ta_window st) (ta_retx_queue st)"
    using inv by (simp_all add: ta_inv_def)
  have j: "j \<le> am_off ?s ?ack (ta_tx_next st)" "j = min (am_off ?s ?ack (status_stop status)) (am_off ?s ?ack (ta_tx_next st))"
    by (simp_all add: j_def status_acks_def)
  define b where "b = (if tx_mod_base st (ta_poll_sn st) < tx_mod_base st (st_ack_sn status) then False else ta_poll_timer st)"
  let ?st0 = "st\<lparr>ta_poll_timer := b\<rparr>"
  have st0: "(if tx_mod_base st (ta_poll_sn st) < tx_mod_base st (st_ack_sn status) then st\<lparr>ta_poll_timer := False\<rparr> else st) = ?st0"
    by (simp add: b_def)
  obtain w1 where w1: "ack_loop ?s (status_stop status) ?ack ?ack (ta_window st) None None
      = Some (sn_plus ?s ?ack j, w1, last_delivered False (window_infos ?s ?ack j (ta_window st)) None,
          last_delivered True (window_infos ?s ?ack j (ta_window st)) None)"
      "tx_win ?s (sn_plus ?s ?ack j) (ta_tx_next st) ?seg w1"
      "win_at w1 = (\<lambda>sn. if am_off ?s ?ack sn < j then None else win_at (ta_window st) sn)"
    using ack_loop_spec[OF win stop_off[OF inv acc sane], of None None] unfolding j(2)[symmetric] by blast
  let ?st1 = "?st0\<lparr>ta_tx_next_ack := sn_plus ?s ?ack j, ta_window := w1\<rparr>"
  have "cm_wf (am_to_number ?s - 1) w1" using w1(2) by (simp add: tx_win_def)
  then obtain w2 sn q where w2: "clear_retx_loop ?st1 = Some (?st1\<lparr>ta_window := w2, ta_retx_sn := sn, ta_retx_queue := q\<rparr>)"
      "cm_wf (am_to_number ?s - 1) w2" "win_same w1 w2" "tx_retx ?s (ta_window st) q" "rq_empty q"
    using clear_retx_spec[of ?s "ta_window st" ?st1 "am_to_number ?s - 1"] retx by auto
  let ?st2 = "st\<lparr>ta_poll_timer := b, ta_tx_next_ack := sn_plus ?s ?ack j, ta_window := w2,
     ta_retx_queue := q, ta_retx_sn := INVALID_RLC_SN\<rparr>"
  have acked: "ta_acked j st ?st2"
    by (rule acked_window[OF inv j(1) w1(2,3) w2(2-5)])
  then have inv2: "ta_inv ?st2" by (simp add: ta_acked_def)
  have plain: "rq_abs q = []" "rq_plain q"
    using tx_retx_empty[OF w2(4)] w2(5) by (simp_all add: rq_plain_def rq_size_def rq_empty_def rb_empty_def)
  have known: "\<forall>nack \<in> set (status_items ?s status). \<not> has_nack_range nack \<and> nack_known ?st2 (nack_sn nack)"
    using items_known[OF inv acc sane] by (simp add: nack_known_def)
  obtain prev' st3 ev where st3: "process_items defer_ok (status_items ?s status) INVALID_RLC_SN ?st2 = Some (prev', st3, ev)"
      "ta_inv st3" "ta_kept ?st2 st3"
      "rq_abs (ta_retx_queue st3) = take (am_W ?s) (List.map_filter (nack_retx ?st2) (status_items ?s status))"
    using process_items_spec[OF inv2 _ known, of defer_ok INVALID_RLC_SN] plain by auto
  obtain st' ev' where st': "ta_update_mac_buffer_state True hol_older rx st3 = Some (st', ev')" "ta_inv st'" "ta_kept st3 st'"
      "ta_retx_queue st' = ta_retx_queue st3" "ev' = [On_buffer_state_update (of_nat (ta_pending rx st3))]"
    using ta_update_mac_spec[OF st3(2), of True hol_older rx] by blast
  have kept: "ta_kept ?st2 st'" by (rule ta_kept_trans[OF st3(3) st'(3)])
  have "nacks_loop defer_ok (st_ack_sn status) (st_nacks status) INVALID_RLC_SN ?st2 = Some (st3, ev)"
    using nacks_loop_items[of "st_nacks status" ?st2 defer_ok "st_ack_sn status" INVALID_RLC_SN] st3(1) sane
    by (simp add: status_items_def status_sane_def)
  moreover have "fst (valid_nacks defer_ok st (st_ack_sn status) (st_nacks status))"
      "\<not> tx_mod_base st (ta_tx_next st + 1) < tx_mod_base st (st_ack_sn status)"
    using acc by (auto simp: status_accepted_def fst_valid_nacks leD)
  ultimately have "handle_status_pdu defer_ok hol_older rx status st = Some (st',
       delivered_events (last_delivered False (window_infos ?s ?ack j (ta_window st)) None)
         (last_delivered True (window_infos ?s ?ack j (ta_window st)) None) @ ev @ ev')"
    using acc w1(1) w2(1) st'(1) unfolding handle_status_pdu_def Let_def st0 status_stop_def[symmetric]
    by (simp add: status_accepted_def case_prod_beta)
  moreover have "nack_retx st' = nack_retx ?st2" using nack_retx_kept[OF kept] by blast
  moreover have "ta_pending rx st3 = ta_pending rx st'"
    using ta_pending_kept[OF st'(3)] st'(4) by simp
  ultimately show ?thesis
    using acked st'(2,4,5) kept st3(4) by (intro exI[of _ ?st2] exI[of _ st'] exI[of _ ev]) simp
qed

end
