(* ===== verification/Rlc_Tx_Am_Reach.thy ===== *)
theory Rlc_Tx_Am_Reach
  imports Rlc_Tx_Am_Status
begin

text \<open>
  The states that the acknowledged-mode transmitter reaches, and its properties: what a grant gives,
  what a status report does, polling, and the progress of transmission.
\<close>

section \<open>Decoded status reports\<close>

text \<open>The decoder yields sequence numbers below the modulus.\<close>

definition sns_below :: "nat \<Rightarrow> rlc_am_status_nack list \<Rightarrow> bool" where
  "sns_below k nacks \<longleftrightarrow> (\<forall>nack \<in> set nacks. unat (nack_sn nack) < 2 ^ k)"

lemma merge_nack_sn: "nack_sn (merge_nack l r) = nack_sn l"
  by (simp add: merge_nack_def expand_so_def expand_range_def Let_def)

lemma sns_below_push: "sns_below k (st_nacks st) \<Longrightarrow> unat (nack_sn n) < 2 ^ k \<Longrightarrow> sns_below k (st_nacks (push_nack st n))"
  by (auto simp: sns_below_def push_nack_nacks merge_nack_sn dest: in_set_butlastD)

lemma read_nack_so_sn: "read_nack_so e n bs = Some (n', rest) \<Longrightarrow> nack_sn n' = nack_sn n"
  by (auto simp: read_nack_so_def split: if_splits list.splits)

lemma read_nack_range_sn: "read_nack_range e n bs = Some (n', rest) \<Longrightarrow> nack_sn n' = nack_sn n"
  by (auto simp: read_nack_range_def split: if_splits list.splits)

lemma nack_sn_bits:
  "unat (push_bit 4 (ucast (b0 AND 0xFF)) OR ucast (drop_bit 4 (b1 AND 0xF0)) :: u32) < 2 ^ 12" (is "unat ?a < _")
  "unat (push_bit 10 (ucast (b0 AND 0xFF)) OR push_bit 2 (ucast (b1 AND 0xFF)) OR ucast (drop_bit 6 (b2 AND 0xC0)) :: u32) < 2 ^ 18"
    (is "unat ?b < _")
  for b0 b1 b2 :: u8
proof -
  have "take_bit 12 ?a = ?a" "take_bit 18 ?b = ?b"
    by (rule bit_word_eqI; auto simp: bit_simps dest: bit_imp_le_length)+
  then show "unat ?a < 2 ^ 12" "unat ?b < 2 ^ 18"
    using unat_below_take_bit by blast+
qed

lemma ack_sn_bits:
  "unat (push_bit 8 (ucast (b0 AND 0x0F)) OR ucast (b1 AND 0xFF) :: u32) < 2 ^ 12" (is "unat ?a < _")
  "unat (push_bit 14 (ucast (b0 AND 0x0F)) OR push_bit 6 (ucast (b1 AND 0xFF)) OR ucast (drop_bit 2 (b2 AND 0xFC)) :: u32) < 2 ^ 18"
    (is "unat ?b < _")
  for b0 b1 b2 :: u8
proof -
  have "take_bit 12 ?a = ?a" "take_bit 18 ?b = ?b"
    by (rule bit_word_eqI; auto simp: mask_numerals bit_simps dest: bit_imp_le_length)+
  then show "unat ?a < 2 ^ 12" "unat ?b < 2 ^ 18"
    using unat_below_take_bit by blast+
qed

lemma unpack_nack_12bit_sn: "unpack_nack_12bit bs = Some (n, e1, rest) \<Longrightarrow> unat (nack_sn n) < 2 ^ 12"
  using nack_sn_bits(1)
  by (cases bs rule: unpack_nack_12bit.cases)
    (auto simp: Let_def bind_eq_Some_conv' split: if_splits dest!: read_nack_so_sn read_nack_range_sn)

lemma unpack_nack_18bit_sn: "unpack_nack_18bit bs = Some (n, e1, rest) \<Longrightarrow> unat (nack_sn n) < 2 ^ 18"
  using nack_sn_bits(2)
  by (cases bs rule: unpack_nack_18bit.cases)
    (auto simp: Let_def bind_eq_Some_conv' split: if_splits dest!: read_nack_so_sn read_nack_range_sn)

lemma unpack_nacks_12bit_sns:
  "unpack_nacks_12bit e1 bs st = Some st' \<Longrightarrow> sns_below 12 (st_nacks st)
     \<Longrightarrow> sns_below 12 (st_nacks st') \<and> st_ack_sn st' = st_ack_sn st \<and> st_sn_size st' = st_sn_size st"
proof (induction e1 bs st rule: unpack_nacks_12bit.induct)
  case (1 e1 bs st)
  show ?case
    using 1(2)[unfolded unpack_nacks_12bit.simps[of e1 bs st]] 1(1,3) sns_below_push[of 12 st] unpack_nack_12bit_sn[of bs]
    by (fastforce split: if_splits option.splits)
qed

lemma unpack_nacks_18bit_sns:
  "unpack_nacks_18bit e1 bs st = Some st' \<Longrightarrow> sns_below 18 (st_nacks st)
     \<Longrightarrow> sns_below 18 (st_nacks st') \<and> st_ack_sn st' = st_ack_sn st \<and> st_sn_size st' = st_sn_size st"
proof (induction e1 bs st rule: unpack_nacks_18bit.induct)
  case (1 e1 bs st)
  show ?case
    using 1(2)[unfolded unpack_nacks_18bit.simps[of e1 bs st]] 1(1,3) sns_below_push[of 18 st] unpack_nack_18bit_sn[of bs]
    by (fastforce split: if_splits option.splits)
qed

lemma unpack_sns:
  assumes "unpack (status_pdu_new s) buf = Some status"
  shows "unat (st_ack_sn status) < 2 ^ am_to_number s" "sns_below (am_to_number s) (st_nacks status)"
proof -
  have "unat (st_ack_sn status) < 2 ^ am_to_number s \<and> sns_below (am_to_number s) (st_nacks status)"
    using assms ack_sn_bits
    by (cases s)
      (auto simp: unpack_def unpack_12bit_def unpack_18bit_def status_pdu_new_def Let_def status_reset_def sns_below_def
        split: list.splits if_splits dest!: unpack_nacks_12bit_sns unpack_nacks_18bit_sns)
  then show "unat (st_ack_sn status) < 2 ^ am_to_number s" "sns_below (am_to_number s) (st_nacks status)"
    by blast+
qed

section \<open>The other operations\<close>

lemma ta_changed_kept:
  "ta_inv st \<Longrightarrow> ta_inv (fst (ta_handle_changed_buffer_state defer_ok st))"
  "ta_kept st (fst (ta_handle_changed_buffer_state defer_ok st))"
  by (simp_all add: ta_handle_changed_buffer_state_def trigger_update_def ta_inv_def ta_kept_def)

lemma ta_stop_inv: "ta_inv st \<Longrightarrow> ta_inv (ta_stop exec_ok st)" "ta_kept st (ta_stop exec_ok st)"
  by (simp_all add: ta_stop_def ta_inv_def ta_kept_def Let_def)

text \<open>Whether the queue takes an SDU.\<close>

definition ta_sdu_of :: "bytes \<Rightarrow> bool \<Rightarrow> rlc_tx_am \<Rightarrow> rlc_sdu" where
  "ta_sdu_of buf is_retx st = \<lparr>sdu_buf = buf, sdu_is_retx = is_retx \<and> \<not> ta_is_srb st,
     sdu_pdcp_sn = get_pdcp_sn buf (txam_pdcp_sn_len (ta_cfg st)) (ta_is_srb st)\<rparr>"

lemma ta_handle_sdu_spec:
  fixes defer_ok is_retx :: bool
  assumes inv: "ta_inv st" and buf: "buf \<noteq> []" "length buf \<le> am_max_sdu"
  defines "st' \<equiv> fst (ta_handle_sdu defer_ok buf is_retx st)"
    and "taken \<equiv> fst (sq_write (ta_sdu_queue st) (ta_sdu_of buf is_retx st))"
  shows "ta_inv st'" "ta_cfg st' = ta_cfg st" "ta_window st' = ta_window st" "ta_stream st' = ta_stream st @ (if taken then [buf] else [])"
    "ta_tx_next_ack st' = ta_tx_next_ack st" "ta_tx_next st' = ta_tx_next st"
    "ta_sn_under_segmentation st' = ta_sn_under_segmentation st" "ta_retx_queue st' = ta_retx_queue st"
proof -
  let ?sdu = "ta_sdu_of buf is_retx st" and ?q = "snd (sq_write (ta_sdu_queue st) (ta_sdu_of buf is_retx st))"
  have "sdu_sn_ok ?sdu" by (rule pdcp_sdu_sn_ok) (simp add: ta_sdu_of_def)
  note w = sq_write_spec[OF _ this, of "ta_sdu_queue st"]
  have sdus: "tx_sdus (ta_sdu_queue st)" using inv by (simp add: ta_inv_def)
  have "tx_sdus ?q"
    using w(1) sdus sq_write_set[of "ta_sdu_queue st" ?sdu] buf by (auto simp: tx_sdus_def ta_sdu_of_def)
  then have inv': "ta_inv (st\<lparr>ta_sdu_queue := ?q\<rparr>)" using inv by (simp add: ta_inv_def)
  have stream: "ta_stream (st\<lparr>ta_sdu_queue := ?q\<rparr>) = ta_stream st @ (if taken then [buf] else [])"
    using w(2) sdus by (simp add: ta_stream_def ta_nof_def tx_sdus_def taken_def ta_sdu_of_def)
  have st': "st' = (if taken then fst (ta_handle_changed_buffer_state defer_ok (st\<lparr>ta_sdu_queue := ?q\<rparr>)) else st\<lparr>ta_sdu_queue := ?q\<rparr>)"
    by (simp add: st'_def ta_handle_sdu_def taken_def ta_sdu_of_def Let_def case_prod_beta)
  show "ta_inv st'" "ta_stream st' = ta_stream st @ (if taken then [buf] else [])"
    unfolding st' using ta_changed_kept(1)[OF inv'] inv' ta_kept_stream[OF ta_changed_kept(2)] stream by simp_all
  show "ta_cfg st' = ta_cfg st" "ta_window st' = ta_window st" "ta_tx_next_ack st' = ta_tx_next_ack st" "ta_tx_next st' = ta_tx_next st"
    "ta_sn_under_segmentation st' = ta_sn_under_segmentation st" "ta_retx_queue st' = ta_retx_queue st"
    unfolding st' by (simp_all add: ta_handle_changed_buffer_state_def trigger_update_def)
qed

lemma ta_discard_sdu_spec:
  fixes defer_ok :: bool
  assumes inv: "ta_inv st" and sn: "sn < STATE_DISCARDED"
  defines "st' \<equiv> fst (ta_discard_sdu defer_ok sn st)"
  shows "ta_inv st'" "ta_cfg st' = ta_cfg st" "ta_window st' = ta_window st" "ta_tx_next_ack st' = ta_tx_next_ack st"
    "ta_tx_next st' = ta_tx_next st" "ta_sn_under_segmentation st' = ta_sn_under_segmentation st"
    "\<exists>as gone bs. sq_abs (ta_sdu_queue st) = as @ gone @ bs \<and> sq_abs (ta_sdu_queue st') = as @ bs \<and> length gone \<le> 1"
proof -
  let ?q = "snd (sq_try_discard (ta_sdu_queue st) sn)" and ?ok = "fst (sq_try_discard (ta_sdu_queue st) sn)"
  have sn': "sn \<noteq> STATE_FREE" "sn \<noteq> STATE_DISCARDED" using sn by (auto simp: STATE_FREE_def STATE_DISCARDED_def)
  have sdus: "tx_sdus (ta_sdu_queue st)" using inv by (simp add: ta_inv_def)
  have wf: "sq_wf ?q"
    using sdus sn' by (intro fifo.discard_inv) (simp_all add: tx_sdus_def)
  then have inv': "ta_inv (st\<lparr>ta_sdu_queue := ?q\<rparr>)"
    using inv sdus by (simp add: ta_inv_def tx_sdus_def)
  have st': "st' = (if ?ok then fst (ta_handle_changed_buffer_state defer_ok (st\<lparr>ta_sdu_queue := ?q\<rparr>)) else st\<lparr>ta_sdu_queue := ?q\<rparr>)"
    by (simp add: st'_def ta_discard_sdu_def case_prod_beta)
  show "ta_inv st'" unfolding st' using ta_changed_kept(1)[OF inv'] inv' by simp
  show "ta_cfg st' = ta_cfg st" "ta_window st' = ta_window st" "ta_tx_next_ack st' = ta_tx_next_ack st" "ta_tx_next st' = ta_tx_next st"
    "ta_sn_under_segmentation st' = ta_sn_under_segmentation st"
    unfolding st' by (simp_all add: ta_handle_changed_buffer_state_def trigger_update_def)
  have "sq_abs (ta_sdu_queue st') = sq_abs ?q"
    unfolding st' by (simp add: ta_handle_changed_buffer_state_def trigger_update_def)
  moreover have "\<exists>as gone bs. sq_abs (ta_sdu_queue st) = as @ gone @ bs \<and> sq_abs ?q = as @ bs \<and> length gone \<le> 1"
  proof (cases ?ok)
    case True
    then obtain as s bs where "sq_abs (ta_sdu_queue st) = as @ s # bs" "sq_abs ?q = as @ bs"
      using sq_try_discard_success(2)[OF _ True sn'] sdus by (auto simp: tx_sdus_def)
    then show ?thesis by (intro exI[of _ as] exI[of _ "[s]"] exI[of _ bs]) simp
  next
    case False
    then show ?thesis using sq_try_discard_fail by (intro exI[of _ "sq_abs (ta_sdu_queue st)"] exI[of _ "[]"]) simp
  qed
  ultimately show "\<exists>as gone bs. sq_abs (ta_sdu_queue st) = as @ gone @ bs \<and> sq_abs (ta_sdu_queue st') = as @ bs \<and> length gone \<le> 1"
    by simp
qed

text \<open>Expiry of the poll retransmission timer: unless there is something else to send, the oldest SDU that
  is not acknowledged is queued.\<close>

lemma ta_oldest:
  assumes inv: "ta_inv st" and w: "\<not> cm_empty (ta_window st)"
  shows "win_at (ta_window st) (ta_tx_next_ack st) \<noteq> None"
proof -
  have win: "tx_win (ta_size st) (ta_tx_next_ack st) (ta_tx_next st) (ta_sn_under_segmentation st) (ta_window st)"
    using inv by (simp add: ta_inv_def)
  then have "0 < tx_end (ta_size st) (ta_tx_next_ack st) (ta_tx_next st) (ta_sn_under_segmentation st)"
    using w tx_win_size[OF win] by (simp add: cm_empty_def cm_size_def)
  then show ?thesis using win by (simp add: tx_win_def)
qed

lemma ta_oldest_not_segmenting:
  assumes inv: "ta_inv st" and stalled: "ta_nothing_to_send st"
  shows "ta_tx_next_ack st \<noteq> ta_sn_under_segmentation st"
proof
  assume eq: "ta_tx_next_ack st = ta_sn_under_segmentation st"
  have win: "tx_win (ta_size st) (ta_tx_next_ack st) (ta_tx_next st) (ta_sn_under_segmentation st) (ta_window st)"
    using inv by (simp add: ta_inv_def)
  then have seg: "ta_sn_under_segmentation st \<noteq> INVALID_RLC_SN"
    using eq invalid_not_sn[of "ta_tx_next_ack st" "ta_size st"] by (auto simp: tx_win_def)
  then have "tx_end (ta_size st) (ta_tx_next_ack st) (ta_tx_next st) (ta_sn_under_segmentation st) = 1"
    using win eq by (auto simp: tx_win_def tx_end_def)
  moreover have "tx_mod_base st (ta_tx_next st) = 0"
    using win eq seg by (auto simp: tx_win_def am_base_def)
  ultimately show False
    using stalled seg tx_win_full[OF win] am_W(5)[of "ta_size st"] by (simp add: ta_nothing_to_send_def is_tx_window_full_def)
qed

lemma ta_expired_spec:
  assumes inv: "ta_inv st"
  shows "\<exists>st' ev. on_expired_poll_retransmit_timer hol_older rx st = Some (st', ev) \<and> ta_inv st' \<and> ta_kept st st'
     \<and> (ta_nothing_to_send st \<and> \<not> cm_empty (ta_window st) \<longrightarrow> rq_abs (ta_retx_queue st') \<noteq> [])
     \<and> (ta_sn_under_segmentation st' = ta_sn_under_segmentation st) \<and> ta_max_retx_reached st' = ta_max_retx_reached st
     \<and> (ta_low st \<longrightarrow> ta_low st')"
proof (cases "ta_nothing_to_send st \<and> \<not> cm_empty (ta_window st)")
  case False
  then show ?thesis using inv by (auto simp: on_expired_poll_retransmit_timer_def)
next
  case True
  let ?sn = "ta_tx_next_ack st"
  obtain info where info: "win_at (ta_window st) ?sn = Some info" using ta_oldest[OF inv] True by auto
  have retx: "tx_retx (ta_size st) (ta_window st) (ta_retx_queue st)" and small: "win_small (ta_window st)"
    and ok: "ti_sdu info \<noteq> []" "length (ti_sdu info) \<le> am_max_sdu"
    using inv tx_infos_small tx_infosD[OF _ info] by (auto simp: ta_inv_def tx_info_ok_def)
  let ?r = "\<lparr>rt_sn = ?sn, rt_so = 0, rt_length = of_nat (length (ti_sdu info))\<rparr>"
  have "retx_ok (ta_window st) ?r"
    using info ok by (simp add: retx_ok_def win_sdus_def unat_of_nat_u32 am_max_sdu_def)
  note push = tx_retx_push[OF retx this small]
  let ?p = "fst (rq_try_push ?r (ta_retx_queue st))" and ?st = "st\<lparr>ta_retx_queue := snd (rq_try_push ?r (ta_retx_queue st))\<rparr>"
  have inv1: "ta_inv ?st" using inv push(1) by (simp add: ta_inv_def)
  have filled: "rq_abs (ta_retx_queue ?st) \<noteq> []"
  proof (cases ?p)
    case False
    then have "rq_size (ta_retx_queue st) \<noteq> 0" using push(3) am_W(1)[of "ta_size st"] by simp
    then have "\<not> rq_empty (ta_retx_queue st)" by (simp add: rq_size_def rq_empty_def rb_empty_def)
    then show ?thesis using push(2) tx_retx_empty[OF retx] by simp
  qed (simp add: push(2))
  obtain st2 ev where st2: "(if ?p then increment_retx_count ?sn ?st else Some (?st, [])) = Some (st2, ev)" "ta_inv st2" "ta_kept ?st st2"
      "ta_retx_queue st2 = ta_retx_queue ?st" "ta_max_retx_reached st2 = ta_max_retx_reached st"
    using increment_retx_count_spec[OF inv1, of ?sn] inv1 info by (cases ?p) auto
  obtain st' ev' where st': "ta_update_mac_buffer_state True hol_older rx st2 = Some (st', ev')" "ta_inv st'" "ta_kept st2 st'"
      "ta_retx_queue st' = ta_retx_queue st2" "ta_max_retx_reached st' = ta_max_retx_reached st2"
    using ta_update_mac_spec[OF st2(2), of True hol_older rx] by blast
  have "on_expired_poll_retransmit_timer hol_older rx st = Some (st', ev @ ev')"
    using True info st2(1) st'(1)
    by (cases ?p) (simp_all add: on_expired_poll_retransmit_timer_def has_sn_win_at Let_def case_prod_beta)
  moreover have "ta_kept st ?st" by (simp add: ta_kept_def)
  then have kept: "ta_kept st st'" using ta_kept_trans st2(3) st'(3) by blast
  moreover have "ta_low st'" if "ta_low st"
  proof -
    have "sent_below st ?sn k" for k
      using ta_oldest_not_segmenting[OF inv] True by (simp add: sent_below_def)
    then have "ta_low ?st" using that push(2) by (auto simp: ta_low_def sent_below_def)
    then show ?thesis using ta_low_kept[OF st2(3)] ta_low_kept[OF st'(3)] st2(4) st'(4) by simp
  qed
  ultimately show ?thesis
    using st' st2(4,5) filled by (simp add: ta_kept_def)
qed

section \<open>Missing bytes are queued\<close>

lemma tx_win_low:
  assumes "tx_win s ack nxt seg w" and "win_at w sn \<noteq> None"
  shows "am_off s ack sn \<le> am_off s ack nxt"
  using assms by (auto simp: tx_win_def tx_end_def split: if_splits)

text \<open>A byte of the window that a NACK of a single sequence number reports is in its retransmission, unless
  it was not sent yet.\<close>

lemma nack_retx_covers:
  assumes inv: "ta_inv st" and info: "win_at (ta_window st) (nack_sn nack) = Some info"
    and off: "nack_lo nack \<le> off" "off \<le> nack_hi nack" "off < length (ti_sdu info)"
    and sent: "nack_sn nack = ta_sn_under_segmentation st \<Longrightarrow> off < unat (ti_next_so info)"
  shows "\<exists>r. nack_retx st nack = Some r \<and> rt_sn r = nack_sn nack \<and> unat (rt_so r) \<le> off \<and> off < unat (rt_so r) + unat (rt_length r)"
proof -
  let ?n = "length (ti_sdu info)"
  have win: "tx_win (ta_size st) (ta_tx_next_ack st) (ta_tx_next st) (ta_sn_under_segmentation st) (ta_window st)"
    using inv by (simp add: ta_inv_def)
  have ok: "tx_info_ok (nack_sn nack = ta_sn_under_segmentation st) info"
    using tx_infosD[OF _ info] inv by (simp add: ta_inv_def)
  then have n: "0 < ?n" "?n \<le> am_max_sdu" by (auto simp: tx_info_ok_def)
  have "\<not> nack_unsent st info nack"
    using off(1) sent by (auto simp: nack_unsent_def nack_lo_def word_le_nat_alt)
  then have cut: "fst (nack_bounds True st info nack) = Some (clip_first ?n (nack_first nack) (nack_last st info nack), clip_last ?n (nack_last st info nack))"
    unfolding fst_nack_bounds[OF n] by simp
  have "off \<le> unat (nack_last st info nack)"
  proof -
    consider "has_so nack" "so_end nack \<noteq> so_end_of_sdu" | "has_so nack" "so_end nack = so_end_of_sdu" "nack_sn nack = ta_sn_under_segmentation st"
      | "\<not> has_so nack \<or> so_end nack = so_end_of_sdu \<and> nack_sn nack \<noteq> ta_sn_under_segmentation st" by blast
    then show ?thesis
    proof cases
      case 2
      then have so: "0 < unat (ti_next_so info)" "unat (ti_next_so info) < ?n" using ok by (simp_all add: tx_info_ok_def)
      then have "unat (ti_next_so info - 1) = unat (ti_next_so info) - 1"
        by (subst unat_sub) (simp_all add: word_le_nat_alt)
      then show ?thesis
        using 2 so sent n by (simp add: nack_last_def unat_ucast_u16 am_max_sdu_def)
    qed (use off(2,3) ucast_u16_len[OF n] in \<open>auto simp: nack_last_def nack_hi_def\<close>)
  qed
  then have hi: "off \<le> unat (clip_last ?n (nack_last st info nack))" by (rule clip_bounds(4)[OF n off(3)])
  have lo: "unat (clip_first ?n (nack_first nack) (nack_last st info nack)) \<le> off"
    using clip_bounds(3)[OF n, of "nack_first nack" "nack_last st info nack"] off(1)
    by (auto simp: nack_first_def nack_lo_def split: if_splits)
  let ?a = "clip_first ?n (nack_first nack) (nack_last st info nack)" and ?b = "clip_last ?n (nack_last st info nack)"
  have "unat (ucast ?b - ucast ?a :: u32) = unat ?b - unat ?a"
    using lo hi by (subst unat_sub) (simp_all add: word_le_nat_alt)
  then have "unat (ucast ?b - ucast ?a + 1 :: u32) = unat ?b - unat ?a + 1"
    using clip_bounds(2)[OF n, of "nack_last st info nack"] n by (subst unat_plus_u32) (simp_all add: am_max_sdu_def)
  moreover have "nack_retx st nack = Some \<lparr>rt_sn = nack_sn nack, rt_so = ucast ?a, rt_length = ucast ?b - ucast ?a + 1\<rparr>"
    using tx_win_low[OF win] info cut by (simp add: nack_retx_def)
  ultimately show ?thesis using lo hi by simp
qed

lemma sn_plus_inj: "i < 2 ^ am_to_number s \<Longrightarrow> j < 2 ^ am_to_number s \<Longrightarrow> sn_plus s b i = sn_plus s b j \<longleftrightarrow> i = j"
  by (metis am_off_sn_plus)

text \<open>Every byte that a report says to be missing is asked for by one of the single NACKs.\<close>

lemma missing_item:
  assumes inv: "ta_inv st" and acc: "status_accepted st status" and nack: "nack \<in> set (st_nacks status)"
    and sn: "unat (nack_sn nack) < 2 ^ am_to_number (ta_size st)"
    and byte: "(sn, off) \<in> nack_missing (ta_size st) nack"
  shows "\<exists>item \<in> set (expand_nack (ta_size st) (st_ack_sn status) nack). nack_sn item = sn \<and> nack_lo item \<le> off \<and> off \<le> nack_hi item"
proof -
  let ?s = "ta_size st"
  obtain i where i: "sn = sn_plus ?s (nack_sn nack) i" "i < nack_count nack" "off \<le> 65535" "i = 0 \<longrightarrow> nack_lo nack \<le> off"
      "Suc i = nack_count nack \<longrightarrow> off \<le> nack_hi nack"
    using byte by (auto simp: nack_missing_def missing_def sn_plus_def)
  show ?thesis
  proof (cases "has_nack_range nack")
    case False
    then show ?thesis using i sn by (simp add: expand_nack_def nack_count_def sn_plus_0)
  next
    case True
    let ?k = "unat (nack_range nack)"
    have "?k < 256" using unsigned_less[of "nack_range nack"] by simp
    moreover have "256 \<le> (2 :: nat) ^ am_to_number ?s" by (cases ?s) simp_all
    ultimately have k: "nack_count nack = ?k" "i < ?k" "?k < 2 ^ am_to_number ?s"
      using True i(2) by (simp_all add: nack_count_def)
    have all: "takeWhile (\<lambda>x. x \<noteq> st_ack_sn status) (map (sn_plus ?s (nack_sn nack)) [0..<?k]) = map (sn_plus ?s (nack_sn nack)) [0..<?k]"
      using range_low[OF inv acc nack True] by (subst takeWhile_eq_all_conv) fastforce
    have first: "sn = nack_sn nack \<longleftrightarrow> i = 0"
      using sn_plus_inj[of i ?s 0 "nack_sn nack"] sn_plus_0[OF sn] k i(1) by simp
    have "(nack_sn nack + ucast (nack_range nack) - 1) mod am_mod ?s = sn_plus ?s (nack_sn nack) (?k - 1)"
      using k(2) by (simp add: am_mod_take_bit sn_plus_def of_nat_diff add_diff_eq)
    then have lst: "sn = (nack_sn nack + ucast (nack_range nack) - 1) mod am_mod ?s \<longleftrightarrow> Suc i = ?k"
      using sn_plus_inj[of i ?s "?k - 1" "nack_sn nack"] k i(1) by auto
    have "range_item ?s nack sn \<in> set (expand_nack ?s (st_ack_sn status) nack)"
      unfolding expand_nack_def all using True i(1) k(2) by simp
    moreover have "nack_sn (range_item ?s nack sn) = sn" "nack_lo (range_item ?s nack sn) \<le> off" "off \<le> nack_hi (range_item ?s nack sn)"
      using first lst i(3-5) k(1)
      by (auto simp: range_item_def Let_def nack_lo_def nack_hi_def nack_default_def so_end_of_sdu_def split: if_splits)
    ultimately show ?thesis by blast
  qed
qed

section \<open>Reachable states\<close>

text \<open>
  The condition on the peer: \<open>ACK_SN = TX_Next + 1\<close> comes with a NACK if and only if an SDU is under
  segmentation.  A peer that acknowledges nothing that was not transmitted fulfils it.
\<close>

definition status_honest :: "rlc_tx_am \<Rightarrow> rlc_am_status_pdu \<Rightarrow> bool" where
  "status_honest st status \<longleftrightarrow> (st_ack_sn status = am_inc (ta_size st) (ta_tx_next st)
     \<longrightarrow> (st_nacks status = [] \<longleftrightarrow> ta_sn_under_segmentation st = INVALID_RLC_SN))"

lemma status_saneI:
  assumes "unpack (status_pdu_new (ta_size st)) buf = Some status" and "status_honest st status"
  shows "status_sane st status"
  using unpack_sns[OF assms(1)] assms(2) by (simp add: status_sane_def status_honest_def sns_below_def)

inductive ta_reachable :: "rlc_tx_am_config \<Rightarrow> bool \<Rightarrow> rlc_tx_am \<Rightarrow> bool" for cfg is_srb where
  ta_init: "tx_am_new cfg is_srb = Some st \<Longrightarrow> ta_reachable cfg is_srb st"
| ta_sdu: "ta_reachable cfg is_srb st \<Longrightarrow> buf \<noteq> [] \<Longrightarrow> length buf \<le> am_max_sdu
     \<Longrightarrow> ta_reachable cfg is_srb (fst (ta_handle_sdu defer_ok buf is_retx st))"
| ta_discard: "ta_reachable cfg is_srb st \<Longrightarrow> sn < STATE_DISCARDED
     \<Longrightarrow> ta_reachable cfg is_srb (fst (ta_discard_sdu defer_ok sn st))"
| ta_pull: "ta_reachable cfg is_srb st \<Longrightarrow> ra_provides rx \<Longrightarrow> grant_len < 2 ^ 32
     \<Longrightarrow> ta_pull_pdu defer_ok grant_len rx st = Some (pdu, rx', st', ev) \<Longrightarrow> ta_reachable cfg is_srb st'"
| ta_status: "ta_reachable cfg is_srb st \<Longrightarrow> unpack (status_pdu_new (txam_sn_field_length cfg)) buf = Some status
     \<Longrightarrow> status_honest st status \<Longrightarrow> on_status_pdu exec_ok defer_ok hol_older rx status st = Some (st', ev)
     \<Longrightarrow> ta_reachable cfg is_srb st'"
| ta_poll_expiry: "ta_reachable cfg is_srb st \<Longrightarrow> ta_poll_timer st
     \<Longrightarrow> on_expired_poll_retransmit_timer hol_older rx (st\<lparr>ta_poll_timer := False\<rparr>) = Some (st', ev) \<Longrightarrow> ta_reachable cfg is_srb st'"
| ta_report_changed: "ta_reachable cfg is_srb st \<Longrightarrow> ta_reachable cfg is_srb (fst (ta_on_status_report_changed defer_ok st))"
| ta_update: "ta_reachable cfg is_srb st \<Longrightarrow> ta_update_mac_buffer_state force_notify hol_older rx st = Some (st', ev)
     \<Longrightarrow> ta_reachable cfg is_srb st'"
| ta_stopping: "ta_reachable cfg is_srb st \<Longrightarrow> ta_reachable cfg is_srb (ta_stop exec_ok st)"

inductive_cases ta_reachableE: "ta_reachable cfg is_srb st"

lemma tx_am_new_inv:
  assumes cfg: "tx_cfg_ok cfg" and new: "tx_am_new cfg is_srb = Some st"
  shows "ta_inv st \<and> ta_cfg st = cfg \<and> ta_stream st = []"
proof -
  let ?s = "txam_sn_field_length cfg"
  have W: "unat (am_window_size ?s) = 2 ^ (am_to_number ?s - 1)"
    using am_W(3)[of ?s] by (simp add: am_W_def)
  obtain w :: "rlc_tx_am_sdu_info circular_map" where w: "cm_init (unat (am_window_size ?s)) = Some w" "cm_wf (am_to_number ?s - 1) w" "\<forall>sn. win_at w sn = None"
    using cm_init_pow2[of "am_to_number ?s - 1"] unfolding W win_at_def by auto
  then have st: "ta_cfg st = cfg" "ta_tx_next_ack st = 0" "ta_tx_next st = 0" "ta_sn_under_segmentation st = INVALID_RLC_SN"
      "ta_window st = w" "ta_retx_queue st = rq_new (unat (am_window_size ?s))" "ta_sdu_queue st = sq_new (txam_queue_size cfg) (txam_queue_size_bytes cfg)"
      "ta_pdu_without_poll st = 0" "ta_byte_without_poll st = 0"
    using new by (auto simp: tx_am_new_def Let_def split: if_splits)
  have "tx_win ?s 0 0 INVALID_RLC_SN w"
    using w by (simp add: tx_win_def tx_end_def)
  moreover have "tx_retx ?s w (rq_new (unat (am_window_size ?s)))"
    using rq_new_wf[of "unat (am_window_size ?s)"] am_W(1,3)[of ?s]
    by (simp add: tx_retx_def) (simp add: rq_new_def rb_new_def am_W_def to_next_pow2_exp)
  moreover have "tx_sdus (sq_new (txam_queue_size cfg) (txam_queue_size_bytes cfg))"
    using cfg sq_new_wf[of "txam_queue_size cfg"] by (simp add: tx_sdus_def tx_cfg_ok_def word_less_nat_alt) (simp add: sq_new_def)
  ultimately have "ta_inv st"
    using cfg w(3) by (simp add: ta_inv_def st tx_infos_def tx_polls_def)
  moreover have "ta_stream st = []"
    by (simp add: ta_stream_def ta_nof_def st tx_end_def window_stream_def)
  ultimately show ?thesis using st(1) by blast
qed

lemma handle_status_spec:
  assumes "ta_inv st" and "status_sane st status"
  shows "\<exists>st' ev. handle_status_pdu defer_ok hol_older rx status st = Some (st', ev) \<and> ta_inv st' \<and> ta_cfg st' = ta_cfg st"
proof (cases "status_accepted st status")
  case True
  then show ?thesis
    using handle_status_accepted[OF assms(1) True assms(2), of defer_ok hol_older rx] by (auto simp: ta_acked_def ta_kept_def)
next
  case False
  then show ?thesis using handle_status_rejected[OF False] assms(1) by blast
qed

lemma ta_reachable_inv:
  assumes cfg: "tx_cfg_ok cfg"
  shows "ta_reachable cfg is_srb st \<Longrightarrow> ta_inv st \<and> ta_cfg st = cfg"
proof (induction rule: ta_reachable.induct)
  case (ta_init st)
  then show ?case using tx_am_new_inv[OF cfg] by blast
next
  case (ta_sdu st buf defer_ok is_retx)
  then show ?case using ta_handle_sdu_spec[of st buf defer_ok is_retx] by simp
next
  case (ta_discard st sn defer_ok)
  then show ?case using ta_discard_sdu_spec[of st sn defer_ok] by simp
next
  case (ta_pull st rx grant_len defer_ok pdu rx' st' ev)
  then show ?case using ta_pull_spec[of st rx grant_len defer_ok]
    by (auto simp: pull_result_def ta_sent_def split: if_splits)
next
  case (ta_status st buf status exec_ok defer_ok hol_older rx st' ev)
  then show ?case
    using handle_status_spec[OF _ status_saneI, of st buf status defer_ok hol_older rx]
    by (auto simp: on_status_pdu_def split: if_splits)
next
  case (ta_poll_expiry st hol_older rx st' ev)
  then have "ta_inv (st\<lparr>ta_poll_timer := False\<rparr>)" by (auto simp: ta_inv_def)
  from ta_expired_spec[OF this, of hol_older rx] show ?case using ta_poll_expiry by (auto simp: ta_kept_def)
next
  case (ta_report_changed st defer_ok)
  then show ?case using ta_changed_kept[of st defer_ok] by (simp add: ta_on_status_report_changed_def ta_kept_def)
next
  case (ta_update st force_notify hol_older rx st' ev)
  then show ?case using ta_update_mac_spec[of st force_notify hol_older rx] by (auto simp: ta_kept_def)
next
  case (ta_stopping st exec_ok)
  then show ?case using ta_stop_inv[of st exec_ok] by (simp add: ta_kept_def)
qed

section \<open>Examples\<close>

definition ta_demo_cfg :: rlc_tx_am_config where
  "ta_demo_cfg = \<lparr>txam_sn_field_length = am_size12bits, txam_pdcp_sn_len = pdcp_size12bits, txam_t_poll_retx = 45,
     txam_max_retx_thresh = 4, txam_poll_pdu = 4, txam_poll_byte = 25,
     txam_queue_size = 8, txam_queue_size_bytes = 1000, txam_max_window = 0\<rparr>"

text \<open>A new transmitter, one with an SDU waiting, and one that has sent it.\<close>

definition ta_demo0 :: rlc_tx_am where
  "ta_demo0 = the (tx_am_new ta_demo_cfg False)"

definition ta_demo1 :: rlc_tx_am where
  "ta_demo1 = fst (ta_handle_sdu True [1, 2, 3] False ta_demo0)"

definition ta_demo2 :: rlc_tx_am where
  "ta_demo2 = (case ta_pull_pdu True 100 ra_demo ta_demo1 of None \<Rightarrow> ta_demo1 | Some (_, _, st, _) \<Rightarrow> st)"

lemmas ta_demo0_eval = ta_demo0_def tx_am_new_def ta_demo_cfg_def Let_def cm_init_def am_window_size_def window_size_def
  cardinality_def sq_new_def rq_new_def

lemmas ta_write_eval = ta_handle_sdu_def get_pdcp_sn_def ta_handle_changed_buffer_state_def trigger_update_def sq_write_def
  sq_get_state_def sq_push_counted_def sq_try_push_def sq_state_change_def sq_state_add_def

lemmas ta_pull_eval = ta_pull_pdu_def build_new_pdu_def rq_empty_def rb_empty_def rb_new_def head_min_size_def head_max_size_def
  is_tx_window_full_def cm_full_def cm_size_def sq_read.simps sq_is_empty_def add_sn_def has_sn_def cm_contains_def cm_overwrite_def
  cm_insert_def get_circular_idx_def get_polling_bit_def ta_nothing_to_send_def ta_data_header_def rlc_am_write_data_pdu_header_def
  copy_view_def am_inc_def am_mod_def sq_state_sub_def

lemma ta_demo_cfg_ok: "tx_cfg_ok ta_demo_cfg"
  by (simp add: tx_cfg_ok_def ta_demo_cfg_def)

lemma ta_demo0_new: "tx_am_new ta_demo_cfg False = Some ta_demo0"
  by (simp add: ta_demo0_eval)

lemma ta_demo1_eq: "ta_demo1 = ta_demo0\<lparr>ta_sdu_queue := (sq_new 8 1000)\<lparr>sq_queue := [\<lparr>sdu_buf = [1, 2, 3], sdu_is_retx = False,
     sdu_pdcp_sn = None\<rparr>], sq_state := 2 ^ 32 + 3\<rparr>, ta_pending_buffer_state := True\<rparr>"
  by (simp add: ta_demo1_def ta_demo0_eval ta_write_eval)

lemma rx_am_new_idle: "rx_am_new cfg = Some rx \<Longrightarrow> \<not> ra_do_status rx"
  by (auto simp: rx_am_new_def Let_def bind_eq_Some_conv')

lemma ra_demo_idle: "\<not> ra_status_report_required ra_demo" "\<not> ra_do_status ra_demo"
  using rx_am_new_idle[OF ra_demo_new] by (simp_all add: ra_status_report_required_def)

lemma ra_demo_provides: "ra_provides ra_demo"
  using ra_reachable_inv[OF ra_demo_reachable] ra_demo_idle by (simp add: ra_provides_def ra_fresh_def)

definition ta_demo_info :: rlc_tx_am_sdu_info where
  "ta_demo_info = \<lparr>ti_sdu = [1, 2, 3], ti_is_retx = False, ti_pdcp_sn = None, ti_next_so = 0,
     ti_retx_count = RETX_COUNT_NOT_STARTED\<rparr>"

lemma ta_demo1_pull:
  "ta_pull_pdu True 100 ra_demo ta_demo1 = Some ([am_octet0 dc_data 1 full_sdu 0, 0, 1, 2, 3], ra_demo,
     ta_demo0\<lparr>ta_tx_next := 1, ta_poll_timer := True, ta_pending_buffer_state := True,
       ta_window := \<lparr>cm_data = [0 \<mapsto> (0, ta_demo_info)], cm_capacity = 2048, cm_count = 1\<rparr>\<rparr>, [])"
  using ra_demo_idle by (simp add: ta_demo1_eq ta_demo0_eval ta_pull_eval ta_demo_info_def octet_def sq_state_change_def)

lemma ta_demo2_eq: "ta_demo2 = ta_demo0\<lparr>ta_tx_next := 1, ta_poll_timer := True, ta_pending_buffer_state := True,
    ta_window := \<lparr>cm_data = [0 \<mapsto> (0, ta_demo_info)], cm_capacity = 2048, cm_count = 1\<rparr>\<rparr>"
  by (simp add: ta_demo2_def ta_demo1_pull)

lemma ta_demo2_pulled:
  "\<exists>pdu ev. ta_pull_pdu True 100 ra_demo ta_demo1 = Some (pdu, ra_demo, ta_demo2, ev)"
  "ta_tx_next ta_demo2 = 1" "ta_tx_next_ack ta_demo2 = 0" "ta_size ta_demo2 = am_size12bits"
  "ta_sn_under_segmentation ta_demo2 = INVALID_RLC_SN"
  by (simp_all add: ta_demo2_eq ta_demo1_pull) (simp_all add: ta_demo0_eval)

lemma ta_demo2_state: "ta_nothing_to_send ta_demo2" "\<not> cm_empty (ta_window ta_demo2)" "\<not> ta_max_retx_reached ta_demo2"
    "ta_poll_timer ta_demo2"
  by (simp_all add: ta_demo2_eq cm_empty_def cm_size_def ta_nothing_to_send_def sq_is_empty_def rq_empty_def rb_empty_def)
    (simp_all add: ta_demo0_eval rb_new_def)

lemma ta_demo_reachable:
  "ta_reachable ta_demo_cfg False ta_demo0" "ta_reachable ta_demo_cfg False ta_demo1" "ta_reachable ta_demo_cfg False ta_demo2"
proof -
  show 0: "ta_reachable ta_demo_cfg False ta_demo0" by (rule ta_init[OF ta_demo0_new])
  show 1: "ta_reachable ta_demo_cfg False ta_demo1"
    unfolding ta_demo1_def by (rule ta_sdu[OF 0]) (simp_all add: am_max_sdu_def)
  show "ta_reachable ta_demo_cfg False ta_demo2"
    using ta_demo2_pulled(1) ta_pull[OF 1 ra_demo_provides, of 100] by fastforce
qed

text \<open>Reports that acknowledge the SDU, and that ask for it again.\<close>

definition ta_demo_ack :: rlc_am_status_pdu where
  "ta_demo_ack = (status_pdu_new am_size12bits)\<lparr>st_ack_sn := 1\<rparr>"

definition ta_demo_nack :: rlc_am_status_pdu where
  "ta_demo_nack = push_nack ta_demo_ack (nack_default\<lparr>nack_sn := 0\<rparr>)"

lemma ta_demo_reports:
  "unpack (status_pdu_new am_size12bits) (pack ta_demo_ack) = Some ta_demo_ack"
  "unpack (status_pdu_new am_size12bits) (pack ta_demo_nack) = Some ta_demo_nack"
proof -
  have ack: "status_ok ta_demo_ack" by (simp add: ta_demo_ack_def)
  have "nack_ok am_size12bits (nack_default\<lparr>nack_sn := 0\<rparr>)" "0 < nack_count (nack_default\<lparr>nack_sn := 0\<rparr>)"
    by (simp_all add: nack_ok_def nack_count_def nack_default_def)
  then have nack: "status_ok ta_demo_nack"
    unfolding ta_demo_nack_def by (intro push_nack_ok[OF ack]) (simp_all add: ta_demo_ack_def status_pdu_new_def)
  have "report_ok am_size12bits ta_demo_ack" "report_ok am_size12bits ta_demo_nack"
    using ack nack by (simp_all add: report_ok_def ta_demo_nack_def ta_demo_ack_def status_pdu_new_def status_bytes_fit_def
        pack_def pack_12bit_def push_nack_def pack_nack_12bit_def pack_nack_tail_def nack_default_def)
  then show "unpack (status_pdu_new am_size12bits) (pack ta_demo_ack) = Some ta_demo_ack"
    "unpack (status_pdu_new am_size12bits) (pack ta_demo_nack) = Some ta_demo_nack"
    using report_decodes by blast+
qed

section \<open>Properties\<close>

text \<open>C15: In every reachable state of an acknowledged-mode transmitter next to a reachable receiver, a grant
  of the MAC layer never fails an assertion, and the PDU never exceeds the grant.  After the maximum number of
  retransmissions nothing is sent any more.  A required status report goes first: the PDU then decodes to the report
  of the receiver, cut at a NACK if the grant is short, with \<open>ACK_SN\<close> at the first NACK left out.  Otherwise the PDU
  is nothing or the encoding of a nonempty slice of one SDU of the window, with sequence number, offset and
  segmentation info of that slice, and it is not empty if something may be sent and the grant exceeds the largest
  header; the number of bytes left to be sent shrinks by the bytes of the slice.\<close>

theorem am_tx_pull_pdu:
  assumes "tx_cfg_ok cfg" and "ta_reachable cfg is_srb st" and "ra_reachable rcfg rx"
    and "ra_do_status rx \<Longrightarrow> status_bytes_fit (ra_status_exchange rx)" and "grant_len < 2 ^ 32"
  shows "\<exists>pdu rx' st' ev. ta_pull_pdu defer_ok grant_len rx st = Some (pdu, rx', st', ev)
     \<and> ta_inv st' \<and> pull_result rx st grant_len pdu rx' st'"
proof -
  have "ra_provides rx"
    using ra_reachable_inv[OF assms(3)] ra_reachable_fresh[OF assms(3)] assms(4) by (simp add: ra_provides_def)
  from ta_pull_spec[OF _ this assms(5), of st defer_ok] show ?thesis
    using ta_reachable_inv[OF assms(1,2)] by blast
qed

theorem am_tx_pull_pdu_witness:
  "\<exists>pdu rx' st' ev. ta_pull_pdu True 4 ra_demo ta_demo1 = Some (pdu, rx', st', ev)
     \<and> ta_inv st' \<and> pull_result ra_demo ta_demo1 4 pdu rx' st'"
  by (rule am_tx_pull_pdu[OF ta_demo_cfg_ok ta_demo_reachable(2) ra_demo_reachable]) (simp_all add: ra_demo_idle)

text \<open>In every reachable state the transmit window holds exactly the sequence numbers from \<open>TX_Next_Ack\<close>
  up to \<open>TX_Next\<close>, and \<open>TX_Next\<close> itself while its SDU is being segmented; they are at most half the number space, so
  that no two of them share a slot.  The SDU under segmentation is partly sent, every other one completely.  Every
  queued retransmission is a nonempty part of an SDU of the window, and the byte total of the queue is exact.  The poll
  counters stay below the configured thresholds.\<close>

theorem am_tx_window:
  assumes "tx_cfg_ok cfg" and "ta_reachable cfg is_srb st"
  shows "let s = txam_sn_field_length cfg; w = ta_window st; seg = ta_sn_under_segmentation st in
     (\<forall>sn. has_sn w sn \<longleftrightarrow> unat sn < 2 ^ am_to_number s \<and> am_off s (ta_tx_next_ack st) sn < ta_nof st)
     \<and> cm_size w = ta_nof st \<and> ta_nof st \<le> unat (am_window_size s) \<and> seg \<in> {INVALID_RLC_SN, ta_tx_next st}
     \<and> (\<forall>sn info. win_at w sn = Some info \<longrightarrow> tx_info_ok (sn = seg) info)
     \<and> (\<forall>r \<in> set (rq_abs (ta_retx_queue st)). retx_ok w r)
     \<and> unat (rs_retx_bytes (rq_st (ta_retx_queue st))) = retx_bytes (rq_abs (ta_retx_queue st))
     \<and> tx_polls cfg (ta_pdu_without_poll st) (ta_byte_without_poll st)"
proof -
  have inv: "ta_inv st" and cfg: "ta_cfg st = cfg" using ta_reachable_inv[OF assms] by simp_all
  have win: "tx_win (txam_sn_field_length cfg) (ta_tx_next_ack st) (ta_tx_next st) (ta_sn_under_segmentation st) (ta_window st)"
    using inv cfg by (simp add: ta_inv_def)
  show ?thesis
    using inv cfg win tx_win_size[OF win] am_W(3)[of "txam_sn_field_length cfg"]
    by (simp add: Let_def ta_inv_def has_sn_win_at tx_infos_def tx_retx_def rq_exact_def rs_exact_def)
      (simp add: tx_win_def ta_nof_def)
qed

theorem am_tx_window_witness:
  "let s = txam_sn_field_length ta_demo_cfg; w = ta_window ta_demo2; seg = ta_sn_under_segmentation ta_demo2 in
     (\<forall>sn. has_sn w sn \<longleftrightarrow> unat sn < 2 ^ am_to_number s \<and> am_off s (ta_tx_next_ack ta_demo2) sn < ta_nof ta_demo2)
     \<and> cm_size w = ta_nof ta_demo2 \<and> ta_nof ta_demo2 \<le> unat (am_window_size s) \<and> seg \<in> {INVALID_RLC_SN, ta_tx_next ta_demo2}
     \<and> (\<forall>sn info. win_at w sn = Some info \<longrightarrow> tx_info_ok (sn = seg) info)
     \<and> (\<forall>r \<in> set (rq_abs (ta_retx_queue ta_demo2)). retx_ok w r)
     \<and> unat (rs_retx_bytes (rq_st (ta_retx_queue ta_demo2))) = retx_bytes (rq_abs (ta_retx_queue ta_demo2))
     \<and> tx_polls ta_demo_cfg (ta_pdu_without_poll ta_demo2) (ta_byte_without_poll ta_demo2)"
  by (rule am_tx_window[OF ta_demo_cfg_ok ta_demo_reachable(3)])

text \<open>C14: The transmitter implements the list of the SDUs that are not acknowledged, those of the window in
  the order of their sequence numbers followed by those waiting: an SDU of the upper layer is appended if the queue
  takes it; grants, the expiry of the poll timer and updates of the buffer state do not change the list; a status report
  of an honest peer removes exactly as many SDUs from the front as it acknowledges in sequence, up to its first NACK.\<close>

theorem am_tx_refines_list:
  assumes "tx_cfg_ok cfg" and "ta_reachable cfg is_srb st"
  shows "(buf \<noteq> [] \<longrightarrow> length buf \<le> am_max_sdu \<longrightarrow> ta_stream (fst (ta_handle_sdu defer_ok buf is_retx st))
        = ta_stream st @ (if fst (sq_write (ta_sdu_queue st) (ta_sdu_of buf is_retx st)) then [buf] else []))
     \<and> (ra_provides rx \<longrightarrow> grant_len < 2 ^ 32 \<longrightarrow> (\<exists>pdu rx' st' ev. ta_pull_pdu defer_ok grant_len rx st = Some (pdu, rx', st', ev)
        \<and> ta_stream st' = ta_stream st))
     \<and> (unpack (status_pdu_new (txam_sn_field_length cfg)) rep = Some status \<longrightarrow> status_honest st status \<longrightarrow>
        (\<exists>st' ev. handle_status_pdu defer_ok hol_older rx status st = Some (st', ev)
          \<and> ta_stream st' = drop (if status_accepted st status then status_acks st status else 0) (ta_stream st)))
     \<and> (\<exists>st' ev. on_expired_poll_retransmit_timer hol_older rx st = Some (st', ev) \<and> ta_stream st' = ta_stream st)
     \<and> (\<exists>st' ev. ta_update_mac_buffer_state force_notify hol_older rx st = Some (st', ev) \<and> ta_stream st' = ta_stream st)"
proof -
  have inv: "ta_inv st" and cfg: "ta_cfg st = cfg" using ta_reachable_inv[OF assms] by simp_all
  have pull: "\<exists>pdu rx' st' ev. ta_pull_pdu defer_ok grant_len rx st = Some (pdu, rx', st', ev) \<and> ta_stream st' = ta_stream st"
    if "ra_provides rx" "grant_len < 2 ^ 32"
    using ta_pull_spec[OF inv that, of defer_ok] by (fastforce simp: pull_result_def ta_sent_def split: if_splits)
  have status: "\<exists>st' ev. handle_status_pdu defer_ok hol_older rx status st = Some (st', ev)
        \<and> ta_stream st' = drop (if status_accepted st status then status_acks st status else 0) (ta_stream st)"
    if "unpack (status_pdu_new (txam_sn_field_length cfg)) rep = Some status" "status_honest st status"
  proof (cases "status_accepted st status")
    case True
    have "status_sane st status" using that cfg by (intro status_saneI[of st rep]) simp_all
    from handle_status_accepted[OF inv True this, of defer_ok hol_older rx] show ?thesis
      using True ta_kept_stream by (fastforce simp: ta_acked_def)
  next
    case False
    then show ?thesis using handle_status_rejected[OF False, of defer_ok hol_older rx] by auto
  qed
  show ?thesis
    using ta_handle_sdu_spec(4)[OF inv, of buf defer_ok is_retx] pull status
      ta_expired_spec[OF inv, of hol_older rx] ta_update_mac_spec[OF inv, of force_notify hol_older rx] ta_kept_stream
    by (intro conjI impI) (simp, blast+)
qed

theorem am_tx_refines_list_witness:
  "\<exists>st' ev. handle_status_pdu True False ra_demo ta_demo_ack ta_demo2 = Some (st', ev)
     \<and> ta_stream st' = drop (if status_accepted ta_demo2 ta_demo_ack then status_acks ta_demo2 ta_demo_ack else 0) (ta_stream ta_demo2)"
proof -
  have "status_honest ta_demo2 ta_demo_ack"
    by (simp add: status_honest_def ta_demo2_pulled(2,4) ta_demo_ack_def am_inc_def am_mod_def cardinality_def)
  then show ?thesis
    using am_tx_refines_list[OF ta_demo_cfg_ok ta_demo_reachable(3), where rep = "pack ta_demo_ack" and status = ta_demo_ack
        and defer_ok = True and hol_older = False and rx = ra_demo] ta_demo_reports(1)
    by (simp add: ta_demo_cfg_def)
qed

text \<open>A status report that passes the checks moves \<open>TX_Next_Ack\<close> to the first sequence number that is
  not acknowledged and takes the SDUs before it out of the window; the upper layer is told the last PDCP sequence numbers
  delivered, separately for first transmissions and retransmissions of PDCP; the old queue of retransmissions is replaced
  by the retransmissions that the NACKs of the report ask for, in their order, as many as the queue holds; the MAC layer
  is told the number of bytes then pending.  A report that fails a check changes nothing.\<close>

theorem am_status_effect:
  assumes "tx_cfg_ok cfg" and "ta_reachable cfg is_srb st"
    and "unpack (status_pdu_new (txam_sn_field_length cfg)) buf = Some status" and "status_honest st status"
  shows "\<exists>st' ev. handle_status_pdu defer_ok hol_older rx status st = Some (st', ev) \<and>
     (if status_accepted st status
      then let s = txam_sn_field_length cfg; j = status_acks st status; infos = window_infos s (ta_tx_next_ack st) j (ta_window st) in
        ta_tx_next_ack st' = sn_plus s (ta_tx_next_ack st) j
        \<and> win_sdus (ta_window st') = (\<lambda>sn. if am_off s (ta_tx_next_ack st) sn < j then None else win_sdus (ta_window st) sn)
        \<and> rq_abs (ta_retx_queue st') = take (am_W s) (List.map_filter (nack_retx st') (status_items s status))
        \<and> (\<exists>ev'. ev = delivered_events (last_delivered False infos None) (last_delivered True infos None) @ ev'
              @ [On_buffer_state_update (of_nat (ta_pending rx st'))])
      else st' = st)"
proof -
  have inv: "ta_inv st" and cfg: "ta_cfg st = cfg" using ta_reachable_inv[OF assms(1,2)] by simp_all
  have sane: "status_sane st status" using assms(3,4) cfg by (intro status_saneI[of st buf]) simp_all
  show ?thesis
  proof (cases "status_accepted st status")
    case True
    then obtain st1 st' ev where h: "handle_status_pdu defer_ok hol_older rx status st = Some (st',
       delivered_events (last_delivered False (window_infos (ta_size st) (ta_tx_next_ack st) (status_acks st status) (ta_window st)) None)
         (last_delivered True (window_infos (ta_size st) (ta_tx_next_ack st) (status_acks st status) (ta_window st)) None)
       @ ev @ [On_buffer_state_update (of_nat (ta_pending rx st'))])"
       "ta_acked (status_acks st status) st st1" "ta_kept st1 st'"
       "rq_abs (ta_retx_queue st') = take (am_W (ta_size st)) (List.map_filter (nack_retx st') (status_items (ta_size st) status))"
      using handle_status_accepted[OF inv True sane, of defer_ok hol_older rx] by blast
    have "ta_tx_next_ack st' = ta_tx_next_ack st1" "win_sdus (ta_window st') = win_sdus (ta_window st1)"
      using h(3) win_same_sdus by (auto simp: ta_kept_def)
    then show ?thesis
      using h True cfg unfolding ta_acked_def Let_def by auto
  next
    case False
    then show ?thesis using handle_status_rejected[OF False, of defer_ok hol_older rx] by auto
  qed
qed

theorem am_status_effect_witness:
  "\<exists>st' ev. handle_status_pdu True False ra_demo ta_demo_nack ta_demo2 = Some (st', ev) \<and>
     (if status_accepted ta_demo2 ta_demo_nack
      then let s = txam_sn_field_length ta_demo_cfg; j = status_acks ta_demo2 ta_demo_nack;
             infos = window_infos s (ta_tx_next_ack ta_demo2) j (ta_window ta_demo2) in
        ta_tx_next_ack st' = sn_plus s (ta_tx_next_ack ta_demo2) j
        \<and> win_sdus (ta_window st') = (\<lambda>sn. if am_off s (ta_tx_next_ack ta_demo2) sn < j then None else win_sdus (ta_window ta_demo2) sn)
        \<and> rq_abs (ta_retx_queue st') = take (am_W s) (List.map_filter (nack_retx st') (status_items s ta_demo_nack))
        \<and> (\<exists>ev'. ev = delivered_events (last_delivered False infos None) (last_delivered True infos None) @ ev'
              @ [On_buffer_state_update (of_nat (ta_pending ra_demo st'))])
      else st' = ta_demo2)"
proof -
  have "status_honest ta_demo2 ta_demo_nack"
    by (simp add: status_honest_def ta_demo2_pulled(2,4) ta_demo_nack_def ta_demo_ack_def am_inc_def am_mod_def cardinality_def)
  then show ?thesis
    by (intro am_status_effect[OF ta_demo_cfg_ok ta_demo_reachable(3), of "pack ta_demo_nack"])
      (simp_all add: ta_demo_cfg_def ta_demo_reports(2))
qed

text \<open>C13: Every byte that an accepted status report says to be missing, and that belongs to an SDU of the
  window and was sent before, lies in one of the retransmissions that are queued afterwards, whatever mix of ranges,
  offsets and end marks the report uses, as long as the report does not ask for more SDUs than the queue holds.\<close>

theorem am_status_requeues_missing:
  assumes "tx_cfg_ok cfg" and "ta_reachable cfg is_srb st"
    and "unpack (status_pdu_new (txam_sn_field_length cfg)) buf = Some status" and "status_honest st status"
    and "status_accepted st status" and "length (status_items (txam_sn_field_length cfg) status) \<le> am_W (txam_sn_field_length cfg)"
    and "(sn, off) \<in> (\<Union>nack \<in> set (st_nacks status). nack_missing (txam_sn_field_length cfg) nack)"
  shows "\<exists>st' ev. handle_status_pdu defer_ok hol_older rx status st = Some (st', ev) \<and>
     (\<forall>info. win_at (ta_window st') sn = Some info \<longrightarrow> off < length (ti_sdu info)
        \<longrightarrow> (sn = ta_sn_under_segmentation st' \<longrightarrow> off < unat (ti_next_so info))
        \<longrightarrow> (\<exists>r \<in> set (rq_abs (ta_retx_queue st')). rt_sn r = sn \<and> unat (rt_so r) \<le> off \<and> off < unat (rt_so r) + unat (rt_length r)))"
proof -
  have inv: "ta_inv st" and cfg: "ta_cfg st = cfg" using ta_reachable_inv[OF assms(1,2)] by simp_all
  have sane: "status_sane st status" using assms(3,4) cfg by (intro status_saneI[of st buf]) simp_all
  obtain st' ev where h: "handle_status_pdu defer_ok hol_older rx status st = Some (st', ev)" "ta_inv st'"
       "rq_abs (ta_retx_queue st') = take (am_W (ta_size st)) (List.map_filter (nack_retx st') (status_items (ta_size st) status))"
    using handle_status_accepted[OF inv assms(5) sane, of defer_ok hol_older rx] by blast
  obtain nack where nack: "nack \<in> set (st_nacks status)" "(sn, off) \<in> nack_missing (ta_size st) nack"
    using assms(7) cfg by auto
  have "unat (nack_sn nack) < 2 ^ am_to_number (ta_size st)" using sane nack(1) by (simp add: status_sane_def)
  from missing_item[OF inv assms(5) nack(1) this nack(2)]
  obtain item where item: "item \<in> set (expand_nack (ta_size st) (st_ack_sn status) nack)" "nack_sn item = sn"
      "nack_lo item \<le> off" "off \<le> nack_hi item"
    by blast
  have "length (List.map_filter (nack_retx st') (status_items (ta_size st) status)) \<le> length (status_items (ta_size st) status)"
    by (simp add: map_filter_def)
  then have abs: "rq_abs (ta_retx_queue st') = List.map_filter (nack_retx st') (status_items (ta_size st) status)"
    using h(3) assms(6) cfg by simp
  have "item \<in> set (status_items (ta_size st) status)"
    using nack(1) item(1) by (auto simp: status_items_def)
  then have "r \<in> set (rq_abs (ta_retx_queue st'))" if "nack_retx st' item = Some r" for r
    using that unfolding abs by (force simp: map_filter_def)
  moreover have "\<exists>r. nack_retx st' item = Some r \<and> rt_sn r = sn \<and> unat (rt_so r) \<le> off \<and> off < unat (rt_so r) + unat (rt_length r)"
    if "win_at (ta_window st') sn = Some info" "off < length (ti_sdu info)" "sn = ta_sn_under_segmentation st' \<longrightarrow> off < unat (ti_next_so info)" for info
    using nack_retx_covers[OF h(2), of item info off] item(2-4) that by simp
  ultimately show ?thesis using h(1) by blast
qed

theorem am_status_requeues_missing_witness:
  "\<exists>st' ev. handle_status_pdu True False ra_demo ta_demo_nack ta_demo2 = Some (st', ev) \<and>
     (\<forall>info. win_at (ta_window st') 0 = Some info \<longrightarrow> 1 < length (ti_sdu info)
        \<longrightarrow> (0 = ta_sn_under_segmentation st' \<longrightarrow> 1 < unat (ti_next_so info))
        \<longrightarrow> (\<exists>r \<in> set (rq_abs (ta_retx_queue st')). rt_sn r = 0 \<and> unat (rt_so r) \<le> 1 \<and> 1 < unat (rt_so r) + unat (rt_length r)))"
proof -
  have nacks: "st_nacks ta_demo_nack = [nack_default]" "st_ack_sn ta_demo_nack = 1"
    by (simp_all add: ta_demo_nack_def ta_demo_ack_def push_nack_def status_pdu_new_def nack_default_def)
  have honest: "status_honest ta_demo2 ta_demo_nack"
    by (simp add: status_honest_def ta_demo2_pulled(2,4) nacks am_inc_def am_mod_def cardinality_def)
  have acc: "status_accepted ta_demo2 ta_demo_nack"
    by (simp add: status_accepted_def nacks ta_demo2_pulled(2-4) ta_valid_ack_sn_def valid_nack_def inside_tx_window_def
        am_base_def am_mod_def am_window_size_def window_size_def cardinality_def nack_default_def)
  have "(0, 1) \<in> (\<Union>nack \<in> set (st_nacks ta_demo_nack). nack_missing (txam_sn_field_length ta_demo_cfg) nack)"
    by (simp add: nacks nack_missing_def missing_def nack_default_def nack_count_def nack_lo_def nack_hi_def)
  then show ?thesis
    using honest acc ta_demo_reports(2)
    by (intro am_status_requeues_missing[OF ta_demo_cfg_ok ta_demo_reachable(3), of "pack ta_demo_nack"])
      (simp_all add: ta_demo_cfg_def nacks status_items_def expand_nack_def nack_default_def am_W_def)
qed

text \<open>The nested loops of the status handler over NACKs and NACK ranges, with the wrap-around of sequence
  numbers and the cut at \<open>ACK_SN\<close>, are one pass over the list of the single NACKs that the ranges stand for.\<close>

theorem am_nack_loops_reference:
  assumes "\<forall>nack \<in> set nacks. unat (nack_sn nack) < 2 ^ am_to_number (ta_size st)"
  shows "nacks_loop defer_ok ack_sn nacks prev st
     = map_option snd (process_items defer_ok (concat (map (expand_nack (ta_size st) ack_sn) nacks)) prev st)"
  by (rule nacks_loop_items[OF assms])

theorem am_nack_loops_reference_witness:
  "nacks_loop True 1 [nack_default] INVALID_RLC_SN ta_demo2
     = map_option snd (process_items True (concat (map (expand_nack (ta_size ta_demo2) 1) [nack_default])) INVALID_RLC_SN ta_demo2)"
  by (rule am_nack_loops_reference) (simp add: nack_default_def)

text \<open>Grants in a row, with a receiver that asks for no status report.\<close>

fun ta_pulls :: "bool \<Rightarrow> rlc_rx_am \<Rightarrow> nat list \<Rightarrow> rlc_tx_am \<Rightarrow> (bytes list \<times> rlc_tx_am) option" where
  "ta_pulls defer_ok rx [] st = Some ([], st)"
| "ta_pulls defer_ok rx (grant_len # grants) st = do {
     (pdu, rx, st, ev) \<leftarrow> ta_pull_pdu defer_ok grant_len rx st;
     (pdus, st) \<leftarrow> ta_pulls defer_ok rx grants st;
     Some (pdu # pdus, st)
   }"

lemma ta_pulls_drain:
  assumes "ta_inv st" and "ra_provides rx" and "\<not> ra_status_report_required rx"
    and "\<forall>g \<in> set grants. head_max_size st < g \<and> g < 2 ^ 32" and "ta_unsent st \<le> length grants"
  shows "\<exists>now later pdus st'. grants = now @ later \<and> ta_pulls defer_ok rx now st = Some (pdus, st') \<and> ta_inv st'
     \<and> [] \<notin> set pdus \<and> ta_stream st' = ta_stream st \<and> (ta_max_retx_reached st' \<or> \<not> ta_can_send st')"
  using assms
proof (induction grants arbitrary: st)
  case Nil
  have "rq_abs (ta_retx_queue st) = []"
  proof (cases "rq_abs (ta_retx_queue st)")
    case (Cons r rs)
    then have "0 < unat (rt_length r)"
      using tx_retx_front(3)[OF _ Cons, of "ta_size st" "ta_window st"] Nil(1) by (auto simp: ta_inv_def retx_ok_def)
    then show ?thesis using Nil(5) Cons by (simp add: ta_unsent_def)
  qed
  moreover have "ta_sn_under_segmentation st = INVALID_RLC_SN"
  proof (rule ccontr)
    assume seg: "ta_sn_under_segmentation st \<noteq> INVALID_RLC_SN"
    then obtain info where info: "win_at (ta_window st) (ta_sn_under_segmentation st) = Some info"
      using segmenting_in_window[OF Nil(1)] by (auto simp: has_sn_win_at)
    then show False
      using tx_infosD[OF _ info, of "ta_sn_under_segmentation st"] Nil(1,5)
      by (simp add: ta_inv_def tx_info_ok_def ta_unsent_def ta_seg_left_def)
  qed
  moreover have "sq_abs (ta_sdu_queue st) = []"
  proof (cases "sq_abs (ta_sdu_queue st)")
    case (Cons s ss)
    then have "s \<in> set (sq_queue (ta_sdu_queue st))"
      by (metis filter_is_subset list.set_intros(1) sq_abs_def subsetD)
    then have "sdu_buf s \<noteq> []" using Nil(1) by (simp add: ta_inv_def tx_sdus_def)
    then show ?thesis using Nil(5) Cons by (simp add: ta_unsent_def)
  qed
  ultimately show ?case using Nil(1) by (simp add: ta_can_send_def)
next
  case (Cons g gs)
  show ?case
  proof (cases "ta_max_retx_reached st \<or> \<not> ta_can_send st")
    case True
    then show ?thesis using Cons(2) by (intro exI[of _ "[]"] exI[of _ "g # gs"] exI[of _ st]) simp
  next
    case False
    obtain pdu rx' st1 ev where p: "ta_pull_pdu defer_ok g rx st = Some (pdu, rx', st1, ev)" "ta_inv st1" "pull_result rx st g pdu rx' st1"
      using ta_pull_spec[OF Cons(2,3), of g defer_ok] Cons(5) by auto
    then have 1: "rx' = rx" "ta_sent st g pdu st1" "pdu \<noteq> []"
      using False Cons(4,5) by (simp_all add: pull_result_def)
    then obtain n where "0 < n" "ta_unsent st1 + n = ta_unsent st"
      by (auto simp: ta_sent_def tx_data_pdu_def)
    then have "ta_unsent st1 \<le> length gs" using Cons(6) by simp
    moreover have size: "ta_size st1 = ta_size st" "ta_stream st1 = ta_stream st" using 1(2) by (simp_all add: ta_sent_def)
    ultimately obtain now later pdus st' where "gs = now @ later" "ta_pulls defer_ok rx now st1 = Some (pdus, st')" "ta_inv st'"
       "[] \<notin> set pdus" "ta_stream st' = ta_stream st1" "ta_max_retx_reached st' \<or> \<not> ta_can_send st'"
      using Cons(1)[OF p(2) Cons(3,4)] Cons(5) by (auto simp: head_max_size_def)
    then show ?thesis
      using p(1) 1 size by (intro exI[of _ "g # now"] exI[of _ later] exI[of _ "pdu # pdus"] exI[of _ st']) simp
  qed
qed

text \<open>C28: Transmission makes progress: with grants that exceed the largest header, as many as there are bytes
  left to be sent, the transmitter gets to a point where nothing is left that it may send (all data were sent or the
  window is full), or the maximum number of retransmissions is reached; every PDU on the way carries data, and the list
  of SDUs that are not acknowledged stays the same.\<close>

theorem am_tx_drains:
  assumes "tx_cfg_ok cfg" and "ta_reachable cfg is_srb st" and "ra_provides rx" and "\<not> ra_status_report_required rx"
    and "\<forall>g \<in> set grants. head_max_size st < g \<and> g < 2 ^ 32" and "ta_unsent st \<le> length grants"
  shows "\<exists>now later pdus st'. grants = now @ later \<and> ta_pulls defer_ok rx now st = Some (pdus, st')
     \<and> [] \<notin> set pdus \<and> ta_stream st' = ta_stream st \<and> (ta_max_retx_reached st' \<or> \<not> ta_can_send st')"
  using ta_pulls_drain[OF _ assms(3-6), of defer_ok] ta_reachable_inv[OF assms(1,2)] by blast

theorem am_tx_drains_witness:
  "\<exists>now later pdus st'. [6, 6, 6] = now @ later \<and> ta_pulls True ra_demo now ta_demo1 = Some (pdus, st')
     \<and> [] \<notin> set pdus \<and> ta_stream st' = ta_stream ta_demo1 \<and> (ta_max_retx_reached st' \<or> \<not> ta_can_send st')"
proof (rule am_tx_drains[OF ta_demo_cfg_ok ta_demo_reachable(2) ra_demo_provides ra_demo_idle(1)])
  show "ta_unsent ta_demo1 \<le> length [6, 6, 6 :: nat]"
    by (simp add: ta_unsent_def ta_demo1_eq ta_demo0_eval rq_abs_def rb_list_def rb_new_def ta_seg_left_def win_at_def cm_at_def
        cm_contains_def sq_abs_def sq_live_def)
  have "head_max_size ta_demo1 \<le> 5"
    by (cases "ta_size ta_demo1") (simp_all add: head_max_size_def rlc_am_pdu_header_max_size_def rlc_am_pdu_header_so_size_def)
  then show "\<forall>g \<in> set [6, 6, 6]. head_max_size ta_demo1 < g \<and> g < 2 ^ 32" by simp
qed

text \<open>C29: No deadlock on lost PDUs or status reports: if the poll retransmission timer expires while an SDU is
  not acknowledged and the transmitter has nothing else to send or a full window, a retransmission is queued, and the
  next grant that exceeds the largest header gives a data PDU (unless a status report goes first or the maximum number
  of retransmissions was reached).\<close>

theorem am_poll_expiry_retransmits:
  assumes "tx_cfg_ok cfg" and "ta_reachable cfg is_srb st" and "ta_nothing_to_send st" and "\<not> cm_empty (ta_window st)"
    and "ta_poll_timer st"
    and "\<not> ta_max_retx_reached st" and "ra_provides rx" and "\<not> ra_status_report_required rx"
    and "head_max_size st < grant_len" and "grant_len < 2 ^ 32"
  shows "\<exists>st1 ev1 pdu rx' st2 ev2 sn so n. on_expired_poll_retransmit_timer hol_older rx (st\<lparr>ta_poll_timer := False\<rparr>) = Some (st1, ev1)
     \<and> rq_abs (ta_retx_queue st1) \<noteq> [] \<and> ta_pull_pdu defer_ok grant_len rx st1 = Some (pdu, rx', st2, ev2)
     \<and> tx_data_pdu (ta_size st) (ta_window st2) sn so n pdu"
proof -
  let ?st = "st\<lparr>ta_poll_timer := False\<rparr>"
  have inv: "ta_inv ?st" using ta_reachable_inv[OF assms(1,2)] by (auto simp: ta_inv_def)
  obtain st1 ev1 where 1: "on_expired_poll_retransmit_timer hol_older rx ?st = Some (st1, ev1)" "ta_inv st1" "ta_kept ?st st1"
      "rq_abs (ta_retx_queue st1) \<noteq> []" "\<not> ta_max_retx_reached st1"
    using ta_expired_spec[OF inv, of hol_older rx] assms(3,4,6) by auto
  have size: "ta_size st1 = ta_size st" using 1(3) by (simp add: ta_kept_def)
  obtain pdu rx' st2 ev2 where 2: "ta_pull_pdu defer_ok grant_len rx st1 = Some (pdu, rx', st2, ev2)"
      "pull_result rx st1 grant_len pdu rx' st2"
    using ta_pull_spec[OF 1(2) assms(7,10), of defer_ok] by blast
  then have "ta_sent st1 grant_len pdu st2" "pdu \<noteq> []"
    using 1(4,5) assms(8,9) size by (auto simp: pull_result_def ta_can_send_def head_max_size_def)
  then obtain sn so n where "tx_data_pdu (ta_size st) (ta_window st2) sn so n pdu"
    using size by (auto simp: ta_sent_def)
  then show ?thesis using 1(1,4) 2(1) by blast
qed

theorem am_poll_expiry_retransmits_witness:
  "\<exists>st1 ev1 pdu rx' st2 ev2 sn so n. on_expired_poll_retransmit_timer True ra_demo (ta_demo2\<lparr>ta_poll_timer := False\<rparr>) = Some (st1, ev1)
     \<and> rq_abs (ta_retx_queue st1) \<noteq> [] \<and> ta_pull_pdu True 100 ra_demo st1 = Some (pdu, rx', st2, ev2)
     \<and> tx_data_pdu (ta_size ta_demo2) (ta_window st2) sn so n pdu"
  by (rule am_poll_expiry_retransmits[OF ta_demo_cfg_ok ta_demo_reachable(3) _ _ _ _ ra_demo_provides ra_demo_idle(1)])
    (simp_all add: ta_demo2_state head_max_size_def ta_demo2_pulled(4) rlc_am_pdu_header_max_size_def rlc_am_pdu_header_so_size_def)

text \<open>The polling bit of a PDU is set exactly if the PDU is new and would bring one of the two counters to
  its configured threshold, or if after it nothing is left that can be sent.  A poll resets the counters, starts the poll
  retransmission timer if one is configured and the entity is not stopped, and a poll of a new PDU records its sequence
  number; without a poll a new PDU adds to the counters, which never wrap.\<close>

theorem am_polling_bit:
  assumes "tx_cfg_ok cfg" and "ta_reachable cfg is_srb st" and "unat payload_size < 2 ^ 31"
  shows "get_polling_bit sn is_retx payload_size st =
     (if poll_due is_retx payload_size st
      then (1, st\<lparr>ta_poll_sn := (if is_retx then ta_poll_sn st else sn), ta_pdu_without_poll := 0, ta_byte_without_poll := 0,
                 ta_poll_timer := (txam_t_poll_retx cfg > 0 \<and> \<not> ta_stopped_lower st \<or> ta_poll_timer st)\<rparr>)
      else (0, if is_retx then st else st\<lparr>ta_pdu_without_poll := ta_pdu_without_poll st + 1,
                 ta_byte_without_poll := ta_byte_without_poll st + payload_size\<rparr>))
     \<and> (\<not> is_retx \<and> \<not> poll_due is_retx payload_size st \<and> 0 < txam_poll_byte cfg
          \<longrightarrow> unat (ta_byte_without_poll st + payload_size) = unat (ta_byte_without_poll st) + unat payload_size)"
proof -
  have inv: "ta_inv st" and cfg: "ta_cfg st = cfg" using ta_reachable_inv[OF assms(1,2)] by simp_all
  have polls: "tx_cfg_ok (ta_cfg st)" "tx_polls (ta_cfg st) (ta_pdu_without_poll st) (ta_byte_without_poll st)"
    using inv by (simp_all add: ta_inv_def)
  have "unat (ta_byte_without_poll st + payload_size) = unat (ta_byte_without_poll st) + unat payload_size"
    if "0 < txam_poll_byte cfg"
  proof (rule unat_plus_u32)
    have "int (unat (ta_byte_without_poll st)) < 2 ^ 31"
      using polls that cfg by (simp add: tx_polls_def tx_cfg_ok_def)
    then have "unat (ta_byte_without_poll st) < 2 ^ 31" by (metis of_nat_less_iff of_nat_numeral of_nat_power)
    then show "unat (ta_byte_without_poll st) + unat payload_size < 2 ^ 32" using assms(3) by simp
  qed
  then show ?thesis using get_polling_bit_eq[OF polls assms(3), of sn is_retx] cfg by simp
qed

theorem am_polling_bit_witness:
  "get_polling_bit 0 False 3 ta_demo1 =
     (if poll_due False 3 ta_demo1
      then (1, ta_demo1\<lparr>ta_poll_sn := (if False then ta_poll_sn ta_demo1 else 0), ta_pdu_without_poll := 0, ta_byte_without_poll := 0,
                 ta_poll_timer := (txam_t_poll_retx ta_demo_cfg > 0 \<and> \<not> ta_stopped_lower ta_demo1 \<or> ta_poll_timer ta_demo1)\<rparr>)
      else (0, if False then ta_demo1 else ta_demo1\<lparr>ta_pdu_without_poll := ta_pdu_without_poll ta_demo1 + 1,
                 ta_byte_without_poll := ta_byte_without_poll ta_demo1 + 3\<rparr>))"
  by (rule am_polling_bit[OF ta_demo_cfg_ok ta_demo_reachable(2), THEN conjunct1]) simp

text \<open>The buffer state reported to the MAC layer is, modulo the 32 bits of the counter, the number of bytes
  pending: the waiting SDUs and the queued retransmissions, each with its header, the rest of the SDU under segmentation
  with the header of its next segment, and the status report if one is required.  Computing it changes neither the SDUs
  nor the retransmissions.\<close>

theorem am_buffer_state_exact:
  assumes "tx_cfg_ok cfg" and "ta_reachable cfg is_srb st"
  shows "\<exists>st'. ta_get_buffer_state rx st = Some (of_nat (ta_pending rx st), st') \<and> ta_kept st st'
     \<and> ta_retx_queue st' = ta_retx_queue st"
proof -
  have inv: "ta_inv st" using ta_reachable_inv[OF assms] by simp
  obtain q b where "ta_get_buffer_state rx st = Some (of_nat (ta_pending rx st), st\<lparr>ta_sdu_queue := q, ta_suspend_bs_notif_barring := b\<rparr>)"
      "sq_abs q = sq_abs (ta_sdu_queue st)"
    using ta_get_buffer_state_spec[OF inv, of rx] by blast
  then show ?thesis by (simp add: ta_kept_def)
qed

theorem am_buffer_state_exact_witness:
  "\<exists>st'. ta_get_buffer_state ra_demo ta_demo1 = Some (of_nat (ta_pending ra_demo ta_demo1), st') \<and> ta_kept ta_demo1 st'
     \<and> ta_retx_queue st' = ta_retx_queue ta_demo1"
  by (rule am_buffer_state_exact[OF ta_demo_cfg_ok ta_demo_reachable(2)])

text \<open>C32: Without the condition on the peer the status handler can fail.  In every reachable state in which no SDU is under
  segmentation and the window is not full, a report with \<open>ACK_SN = TX_Next + 1\<close> and a NACK for \<open>TX_Next\<close>, whatever its segment
  offsets, passes all checks although nothing was sent under \<open>TX_Next\<close>, and the access to the window fails.\<close>

theorem am_status_unsent_nack_fails:
  assumes cfg: "tx_cfg_ok cfg" and reach: "ta_reachable cfg is_srb st" and seg: "ta_sn_under_segmentation st = INVALID_RLC_SN"
    and room: "tx_mod_base st (ta_tx_next st) < am_window_size (ta_size st)"
    and status: "st_ack_sn status = am_inc (ta_size st) (ta_tx_next st)" "st_nacks status = [n]" "nack_sn n = ta_tx_next st"
      "\<not> has_nack_range n"
  shows "status_accepted st status \<and> handle_status_pdu defer_ok hol_older rx status st = None"
proof -
  let ?s = "ta_size st" and ?a = "ta_tx_next_ack st" and ?n = "ta_tx_next st"
  have inv: "ta_inv st" using ta_reachable_inv[OF cfg reach] by simp
  then have win: "tx_win ?s ?a ?n INVALID_RLC_SN (ta_window st)" and retx: "tx_retx ?s (ta_window st) (ta_retx_queue st)"
    using seg by (simp_all add: ta_inv_def)
  have off: "am_off ?s ?a ?n < am_W ?s" using room by (simp add: word_less_nat_alt unat_am_base am_W)
  then have ack: "am_off ?s ?a (am_inc ?s ?n) = am_off ?s ?a ?n + 1" using am_W(4)[of ?s] by (simp add: am_off_inc)
  have next1: "am_off ?s ?a (?n + 1) = am_off ?s ?a ?n + 1"
    using ack by (simp add: am_inc_def am_mod_take_bit sn_off_take_bit[OF am_to_number_32(1)])
  have valid: "ta_valid_ack_sn st (st_ack_sn status)" "\<not> tx_mod_base st (ta_tx_next st + 1) < tx_mod_base st (st_ack_sn status)"
    using off by (simp_all add: status(1) ta_valid_ack_sn_def word_less_nat_alt word_le_nat_alt unat_am_base ack next1 am_W)
  have nack: "valid_nack d st (st_ack_sn status) n = (True, [])" for d
    using off by (simp add: status valid_nack_def inside_tx_window_def word_less_nat_alt word_le_nat_alt unat_am_base ack am_W)
  have n: "unat ?n < 2 ^ am_to_number ?s" using win by (simp add: tx_win_def)
  obtain w' d r where loop: "ack_loop ?s ?n ?a ?a (ta_window st) None None = Some (sn_plus ?s ?a (am_off ?s ?a ?n), w', d, r)"
      "tx_win ?s (sn_plus ?s ?a (am_off ?s ?a ?n)) ?n INVALID_RLC_SN w'" "win_at w' = (\<lambda>sn. if am_off ?s ?a sn < am_off ?s ?a ?n then None else win_at (ta_window st) sn)"
    using ack_loop_spec[OF win n, of None None] by auto
  have gone: "win_at w' ?n = None"
    using loop(3) win by (cases "win_at (ta_window st) ?n") (auto simp: tx_win_def tx_end_def)
  define st1 where "st1 = (if tx_mod_base st (ta_poll_sn st) < tx_mod_base st (st_ack_sn status) then st\<lparr>ta_poll_timer := False\<rparr> else st)
      \<lparr>ta_tx_next_ack := sn_plus ?s ?a (am_off ?s ?a ?n), ta_window := w'\<rparr>"
  obtain w'' sn q where clear: "clear_retx_loop st1 = Some (st1\<lparr>ta_window := w'', ta_retx_sn := sn, ta_retx_queue := q\<rparr>)" "win_same w' w''"
  proof -
    have "ta_retx_queue st1 = ta_retx_queue st" "ta_window st1 = w'" by (simp_all add: st1_def)
    then show ?thesis using clear_retx_spec[of ?s "ta_window st" st1] retx loop(2) that unfolding tx_win_def by force
  qed
  have "win_at w'' ?n = None"
    using clear(2) gone by (metis win_same_def option.map_disc_iff)
  then have "process_nack defer_ok n INVALID_RLC_SN (st1\<lparr>ta_window := w'', ta_retx_queue := q, ta_retx_sn := INVALID_RLC_SN\<rparr>) = None"
    by (simp add: process_nack_def handle_nack_def status(3,4) st1_def am_base_le)
  then show ?thesis
    using valid nack loop(1) clear(1)
    by (cases "tx_mod_base st (ta_poll_sn st) < tx_mod_base st (st_ack_sn status)")
      (simp_all add: st1_def status_accepted_def handle_status_pdu_def status(2,3,4) Let_def not_less[of "tx_mod_base st (ta_tx_next st + 1)"])
qed

theorem am_status_unsent_nack_fails_witness:
  "tx_am_new ta_demo_cfg False = Some ta_demo0
     \<and> unpack (status_pdu_new am_size12bits) (pack ta_demo_nack) = Some ta_demo_nack
     \<and> status_accepted ta_demo0 ta_demo_nack
     \<and> handle_status_pdu True False ra_demo ta_demo_nack ta_demo0 = None"
proof -
  have nacks: "st_nacks ta_demo_nack = [nack_default]" "st_ack_sn ta_demo_nack = 1"
    by (simp_all add: ta_demo_nack_def ta_demo_ack_def push_nack_def status_pdu_new_def nack_default_def)
  have "status_accepted ta_demo0 ta_demo_nack \<and> handle_status_pdu True False ra_demo ta_demo_nack ta_demo0 = None"
    by (rule am_status_unsent_nack_fails[OF ta_demo_cfg_ok ta_demo_reachable(1), where n = nack_default])
      (simp_all add: nacks ta_demo0_eval am_base_def am_mod_def am_inc_def nack_default_def)
  then show ?thesis
    by (simp add: ta_demo0_new ta_demo_reports(2))
qed

end
