(* ===== verification/Rlc_Am_Link_Rx.thy ===== *)
theory Rlc_Am_Link_Rx
  imports Rlc_Tx_Am_Reach
begin

text \<open>
  The acknowledged-mode receiver as its peer sees it: the report it hands out describes its present
  state, no NACK ends inside the bytes that follow the last one received, and what a data PDU does to
  the window.
\<close>

section \<open>Where NACKs end\<close>

text \<open>A NACK ends at the end of its last SDU, or in front of a byte of it that was received.\<close>

definition nack_tight :: "rlc_am_sn_size \<Rightarrow> rlc_rx_am_sdu_info circular_map \<Rightarrow> rlc_am_status_nack \<Rightarrow> bool" where
  "nack_tight s w n \<longleftrightarrow> nack_hi n = 65535
     \<or> (\<exists>info. win_at w (sn_plus s (nack_sn n) (nack_count n - 1)) = Some info \<and> nack_hi n + 1 \<in> covered (ai_segments info))"

definition report_tight :: "rlc_am_sn_size \<Rightarrow> rlc_rx_am_sdu_info circular_map \<Rightarrow> rlc_am_status_pdu \<Rightarrow> bool" where
  "report_tight s w status \<longleftrightarrow> st_mod_nr status = cardinality (am_to_number s) \<and> (\<forall>n \<in> set (st_nacks status). nack_tight s w n)"

lemma push_nack_tight:
  assumes "report_tight s w status" and n: "nack_tight s w n" "nack_count n = 1"
  shows "report_tight s w (push_nack status n)"
proof -
  have mod: "st_mod_nr status = cardinality (am_to_number s)"
    using assms(1) by (simp add: report_tight_def)
  have "nack_tight s w (merge_nack l n)" if m: "can_be_merged (st_mod_nr status) l n" for l
  proof -
    note f = merge_nack_fields[OF m] merge_nack_range[OF m]
    have "sn_plus s (nack_sn l) (nack_count l) = sn_plus s (nack_sn n) 0"
      using f(6) by (simp add: mod sn_plus_def mod_cardinality)
    then show ?thesis
      using n f by (simp add: nack_tight_def)
  qed
  moreover have "st_mod_nr (push_nack status n) = st_mod_nr status"
    by (simp add: push_nack_def Let_def)
  ultimately show ?thesis
    using assms(1) n by (auto simp: report_tight_def push_nack_nacks dest: in_set_butlastD)
qed

lemma nack_default_tight:
  "nack_tight s w (nack_default\<lparr>nack_sn := i, has_so := False\<rparr>)"
  "nack_tight s w (nack_default\<lparr>nack_sn := i, has_so := True, so_start := a, so_end := so_end_of_sdu\<rparr>)"
  "nack_count (nack_default\<lparr>nack_sn := i, has_so := True, so_start := a, so_end := b\<rparr>) = 1"
  "nack_count (nack_default\<lparr>nack_sn := i, has_so := False\<rparr>) = 1"
  by (simp_all add: nack_tight_def nack_hi_def nack_default_def so_end_of_sdu_def nack_count_def)

lemma gap_tight:
  assumes "win_at w i = Some info" and "unat i < 2 ^ am_to_number s" and "segm \<in> set (ai_segments info)" and "seg_payload segm \<noteq> []"
  shows "nack_tight s w (nack_default\<lparr>nack_sn := i, has_so := True, so_start := a, so_end := seg_so segm - 1\<rparr>)"
proof (cases "seg_so segm = 0")
  case True
  have "unat (- 1 :: u16) = 65535" by (simp add: unsigned_minus_1_eq_mask mask_eq_exp_minus_1)
  then show ?thesis using True by (simp add: nack_tight_def nack_hi_def nack_default_def)
next
  case False
  then have "unat (seg_so segm - 1) + 1 = seg_lo segm"
    by (simp add: unat_minus_one seg_lo_def unat_gt_0)
  moreover have "seg_lo segm \<in> covered (ai_segments info)"
    using assms(3,4) by (auto simp: covered_def seg_bytes_def seg_hi_def seg_lo_def)
  moreover have "sn_plus s i 0 = i" using take_bit_of_bound[OF assms(2)] by (simp add: sn_plus_def)
  ultimately show ?thesis
    using assms(1) by (simp add: nack_tight_def nack_hi_def nack_default_def nack_count_def)
qed

lemma am_nack_segments_tight:
  assumes "win_at w i = Some info" and "unat i < 2 ^ am_to_number s"
  shows "am_nack_segments i segs l hl status = Some (status', l', hl') \<Longrightarrow> report_tight s w status
     \<Longrightarrow> set segs \<subseteq> set (ai_segments info) \<Longrightarrow> \<forall>segm \<in> set segs. seg_payload segm \<noteq> [] \<Longrightarrow> report_tight s w status'"
proof (induction segs arbitrary: l hl status)
  case (Cons segm segs)
  then show ?case
    using push_nack_tight[OF _ gap_tight[OF assms, of segm] nack_default_tight(3)]
    by (auto simp: Let_def split: if_splits)
qed simp

lemma am_nack_sdu_tight:
  assumes "am_nack_sdu i w status = Some status'" and "report_tight s w status" and i: "unat i < 2 ^ am_to_number s"
    and "\<And>info. win_at w i = Some info \<Longrightarrow> info_ok info"
  shows "report_tight s w status'"
proof (cases "win_at w i")
  case None
  then show ?thesis
    using assms(1) push_nack_tight[OF assms(2) nack_default_tight(1,4)] by (auto simp: am_nack_sdu_def)
next
  case (Some info)
  show ?thesis
  proof (cases "ai_fully_received info")
    case True
    then show ?thesis using Some assms(1,2) by (simp add: am_nack_sdu_def)
  next
    case False
    then obtain segs where segs: "ai_data info = Sdu_segments segs" "segs_fit segs"
      using assms(4)[OF Some] by (auto simp: info_ok_def)
    obtain st1 last_so have_last where s1: "am_nack_segments i segs 0 False status = Some (st1, last_so, have_last)"
      using assms(1) Some False segs(1) by (auto simp: am_nack_sdu_def bind_eq_Some_conv)
    have "report_tight s w st1"
      by (rule am_nack_segments_tight[OF Some i s1 assms(2)]) (use segs in \<open>auto simp: ai_segments_def segs_fit_def seg_fits_def\<close>)
    then show ?thesis
      using assms(1) Some False segs(1) s1 push_nack_tight[OF _ nack_default_tight(2,3)]
      by (auto simp: am_nack_sdu_def Let_def split: if_splits)
  qed
qed

lemma am_report_loop_tight:
  "am_report_loop s nxt stop i w status = Some status' \<Longrightarrow> report_tight s w status \<Longrightarrow> unat i < 2 ^ am_to_number s
     \<Longrightarrow> (\<And>x info. win_at w x = Some info \<Longrightarrow> info_ok info) \<Longrightarrow> report_tight s w status'"
proof (induction s nxt stop i w status rule: am_report_loop.induct)
  case (1 s nxt stop i w status)
  show ?case
  proof (cases "am_base s nxt i < am_base s nxt stop")
    case True
    obtain st1 where st1: "am_nack_sdu i w status = Some st1" "am_report_loop s nxt stop (am_inc s i) w st1 = Some status'"
      using 1(2) True by (subst (asm) am_report_loop.simps) (auto split: option.splits)
    show ?thesis
      using 1(1)[OF True st1(1,2) am_nack_sdu_tight[OF st1(1) 1(3,4)] am_inc_less] 1(5) by blast
  next
    case False
    then show ?thesis using 1(2,3) by (simp add: am_report_loop.simps)
  qed
qed

section \<open>Where NACKs begin\<close>

text \<open>NACKs are added for one sequence number after the other; the first one stays first.\<close>

definition nacks_added :: "u32 set \<Rightarrow> rlc_am_status_pdu \<Rightarrow> rlc_am_status_pdu \<Rightarrow> bool" where
  "nacks_added A st st' \<longleftrightarrow> nack_sn ` set (st_nacks st') \<subseteq> A \<union> nack_sn ` set (st_nacks st)
     \<and> (st_nacks st \<noteq> [] \<longrightarrow> st_nacks st' \<noteq> [] \<and> nack_sn (hd (st_nacks st')) = nack_sn (hd (st_nacks st)))"

lemma nacks_added_refl [simp]: "nacks_added A st st"
  by (simp add: nacks_added_def)

lemma nacks_added_trans: "nacks_added A st st' \<Longrightarrow> nacks_added B st' st'' \<Longrightarrow> A \<subseteq> C \<Longrightarrow> B \<subseteq> C \<Longrightarrow> nacks_added C st st''"
  unfolding nacks_added_def by (intro conjI) (blast, simp)

lemma push_nack_added: "nacks_added {nack_sn n} st (push_nack st n)"
proof (cases "st_nacks st" rule: rev_cases)
  case (snoc ns l)
  then show ?thesis
    by (cases ns) (auto simp: nacks_added_def push_nack_nacks merge_nack_sn)
qed (simp add: nacks_added_def push_nack_nacks)

lemma am_nack_segments_added: "am_nack_segments i segs l hl status = Some (status', l', hl') \<Longrightarrow> nacks_added {i} status status'"
proof (induction segs arbitrary: l hl status)
  case (Cons segm segs)
  then show ?case
    using nacks_added_trans[OF push_nack_added, of "{i}"]
    by (fastforce simp: Let_def nack_default_def split: if_splits)
qed simp

lemma am_nack_sdu_added:
  assumes "am_nack_sdu i w status = Some status'"
  shows "nacks_added {i} status status'"
proof (cases "win_at w i")
  case None
  then show ?thesis using assms push_nack_added[of "nack_default\<lparr>nack_sn := i, has_so := False\<rparr>" status]
    by (auto simp: am_nack_sdu_def)
next
  case (Some info)
  have tail: "nacks_added {i} st1 (push_nack st1 (nack_default\<lparr>nack_sn := i, has_so := True, so_start := a, so_end := b\<rparr>))" for st1 a b
    using push_nack_added[of "nack_default\<lparr>nack_sn := i, has_so := True, so_start := a, so_end := b\<rparr>" st1] by simp
  show ?thesis
  proof (cases "ai_fully_received info")
    case False
    then obtain segs st1 last_so have_last where segs: "ai_data info = Sdu_segments segs"
        "am_nack_segments i segs 0 False status = Some (st1, last_so, have_last)"
      using assms Some by (auto simp: am_nack_sdu_def bind_eq_Some_conv split: rx_sdu_data.splits)
    have "status' = st1 \<or> (\<exists>a b. status' = push_nack st1 (nack_default\<lparr>nack_sn := i, has_so := True, so_start := a, so_end := b\<rparr>))"
      using assms Some False segs by (auto simp: am_nack_sdu_def Let_def split: if_splits)
    then show ?thesis
      using am_nack_segments_added[OF segs(2)] nacks_added_trans[OF am_nack_segments_added[OF segs(2)] tail] by blast
  qed (use assms Some in \<open>simp add: am_nack_sdu_def\<close>)
qed

lemma am_report_loop_added:
  "am_report_loop s nxt stop i w status = Some status' \<Longrightarrow> unat i < 2 ^ am_to_number s
     \<Longrightarrow> nacks_added {x. unat x < 2 ^ am_to_number s \<and> am_off s nxt x < am_off s nxt stop} status status'"
proof (induction s nxt stop i w status rule: am_report_loop.induct)
  case (1 s nxt stop i w status)
  show ?case
  proof (cases "am_base s nxt i < am_base s nxt stop")
    case True
    obtain st1 where st1: "am_nack_sdu i w status = Some st1" "am_report_loop s nxt stop (am_inc s i) w st1 = Some status'"
      using 1(2) True by (subst (asm) am_report_loop.simps) (auto split: option.splits)
    have "am_off s nxt i < am_off s nxt stop" using True by (simp add: am_base_less)
    then show ?thesis
      using 1(3) by (intro nacks_added_trans[OF am_nack_sdu_added[OF st1(1)] 1(1)[OF True st1 am_inc_less]]) auto
  next
    case False
    then show ?thesis using 1(2) by (simp add: am_report_loop.simps)
  qed
qed

text \<open>The NACKs lie below \<open>ACK_SN\<close>, and the first one is for \<open>RX_Next\<close> unless nothing of that SDU is missing.\<close>

definition report_order :: "rlc_am_sn_size \<Rightarrow> u32 \<Rightarrow> u32 \<Rightarrow> rlc_rx_am_sdu_info circular_map \<Rightarrow> rlc_am_status_pdu \<Rightarrow> bool" where
  "report_order s nxt stop w status \<longleftrightarrow>
     (\<forall>n \<in> set (st_nacks status). unat (nack_sn n) < 2 ^ am_to_number s \<and> am_off s nxt (nack_sn n) < am_off s nxt stop)
     \<and> (st_nacks status \<noteq> [] \<longrightarrow> nack_sn (hd (st_nacks status)) = nxt \<or> (\<forall>off \<le> 65535. am_has w nxt off))"

lemma am_report_loop_order:
  assumes loop: "am_report_loop s nxt stop nxt w status = Some status'" and good: "status_good s status" "st_nacks status = []"
    and nxt: "unat nxt < 2 ^ am_to_number s" and infos: "\<And>x info. win_at w x = Some info \<Longrightarrow> info_ok info"
  shows "report_order s nxt stop w status'"
proof -
  have sns: "\<forall>n \<in> set (st_nacks status'). unat (nack_sn n) < 2 ^ am_to_number s \<and> am_off s nxt (nack_sn n) < am_off s nxt stop"
    using am_report_loop_added[OF loop nxt] good(2) by (auto simp: nacks_added_def)
  have "nack_sn (hd (st_nacks status')) = nxt \<or> (\<forall>off \<le> 65535. am_has w nxt off)" if ne: "st_nacks status' \<noteq> []"
  proof (cases "am_base s nxt nxt < am_base s nxt stop")
    case False
    then show ?thesis using loop good(2) ne by (simp add: am_report_loop.simps)
  next
    case True
    obtain st1 where st1: "am_nack_sdu nxt w status = Some st1" "am_report_loop s nxt stop (am_inc s nxt) w st1 = Some status'"
      using loop True by (subst (asm) am_report_loop.simps) (auto split: option.splits)
    have miss: "status_missing st1 = {nxt} \<times> {off. off \<le> 65535 \<and> \<not> am_has w nxt off}"
      using am_nack_sdu_spec[OF good(1) nxt, of w] infos st1(1) good(2) by (auto simp: status_missing_def)
    show ?thesis
    proof (cases "st_nacks st1")
      case Nil
      then have "status_missing st1 = {}" by (simp add: status_missing_def)
      then show ?thesis using miss by auto
    next
      case (Cons n ns)
      then have "nack_sn n = nxt"
        using am_nack_sdu_added[OF st1(1)] good(2) by (simp add: nacks_added_def)
      then show ?thesis
        using am_report_loop_added[OF st1(2) am_inc_less] Cons by (simp add: nacks_added_def)
    qed
  qed
  then show ?thesis using sns by (simp add: report_order_def)
qed

section \<open>The report describes the present state\<close>

definition ra_report_current :: "rlc_rx_am \<Rightarrow> rlc_am_status_pdu \<Rightarrow> bool" where
  "ra_report_current st status \<longleftrightarrow> ra_report_exact st status \<and> report_tight (ra_size st) (ra_window st) status
     \<and> report_order (ra_size st) (ra_next st) (ra_stop_sn st) (ra_window st) status"

definition ra_current :: "rlc_rx_am \<Rightarrow> bool" where
  "ra_current st \<longleftrightarrow> (ra_do_status st \<longrightarrow> ra_report_current st (ra_status_exchange st))"

lemma ra_refresh_current:
  assumes inv: "ra_inv st"
  shows "\<exists>status. ra_refresh_status_report st = Some (st\<lparr>ra_status_writer := ra_status_exchange st,
       ra_status_exchange := status, ra_status_size := st_packed_size status\<rparr>) \<and> ra_report_current st status"
proof -
  let ?s = "ra_size st"
  obtain status where r: "ra_refresh_status_report st = Some (st\<lparr>ra_status_writer := ra_status_exchange st,
       ra_status_exchange := status, ra_status_size := st_packed_size status\<rparr>)" "ra_report_exact st status"
    using ra_refresh_spec[OF inv] by blast
  then obtain status0 where loop: "am_report_loop ?s (ra_next st) (ra_stop_sn st) (ra_next st) (ra_window st)
        (status_reset (ra_status_writer st)) = Some status0" "status = status0\<lparr>st_ack_sn := ra_stop_sn st\<rparr>"
    by (auto simp: ra_refresh_status_report_def bind_eq_Some_conv ra_store_status_report_def dest!: arg_cong[of _ _ ra_status_exchange])
  have reset: "report_tight ?s (ra_window st) (status_reset (ra_status_writer st))"
    using inv by (auto simp: report_tight_def status_reset_def ra_inv_def ra_statuses_ok_def status_ok_def)
  have nxt: "unat (ra_next st) < 2 ^ am_to_number ?s" and infos: "\<And>x info. win_at (ra_window st) x = Some info \<Longrightarrow> info_ok info"
    using inv by (auto simp: ra_inv_def am_state_def am_win_def)
  have "report_tight ?s (ra_window st) status0"
    by (rule am_report_loop_tight[OF loop(1) reset nxt infos])
  moreover have "report_order ?s (ra_next st) (ra_stop_sn st) (ra_window st) status0"
    using inv by (intro am_report_loop_order[OF loop(1) status_reset_good(1) _ nxt infos])
      (simp_all add: ra_inv_def ra_statuses_ok_def status_reset_def)
  ultimately have "report_tight ?s (ra_window st) status" "report_order ?s (ra_next st) (ra_stop_sn st) (ra_window st) status"
    using loop(2) by (simp_all add: report_tight_def report_order_def)
  then show ?thesis using r unfolding ra_report_current_def by blast
qed

text \<open>Two states that report the same.\<close>

definition ra_same :: "rlc_rx_am \<Rightarrow> rlc_rx_am \<Rightarrow> bool" where
  "ra_same st st' \<longleftrightarrow> ra_cfg st' = ra_cfg st \<and> ra_next st' = ra_next st \<and> ra_highest_status st' = ra_highest_status st
     \<and> ra_next_highest st' = ra_next_highest st \<and> ra_max_nof_sn st' = ra_max_nof_sn st
     \<and> win_at (ra_window st') = win_at (ra_window st)"

lemma ra_same_refl [simp]: "ra_same st st"
  by (simp add: ra_same_def)

lemma report_current_cong:
  assumes "ra_cfg st' = ra_cfg st" "ra_next st' = ra_next st" "ra_highest_status st' = ra_highest_status st"
    "ra_max_nof_sn st' = ra_max_nof_sn st" "am_has (ra_window st') = am_has (ra_window st)"
    "\<And>x info k. win_at (ra_window st) x = Some info \<Longrightarrow> k \<in> covered (ai_segments info)
       \<Longrightarrow> \<exists>info'. win_at (ra_window st') x = Some info' \<and> k \<in> covered (ai_segments info')"
    and "ra_report_current st status"
  shows "ra_report_current st' status"
proof -
  have "ra_stop_sn st' = ra_stop_sn st" using assms by (simp add: ra_stop_sn_def)
  moreover have "nack_tight s (ra_window st) n \<Longrightarrow> nack_tight s (ra_window st') n" for s n
    using assms(6) unfolding nack_tight_def by blast
  ultimately show ?thesis
    using assms(1-5,7) by (auto simp: ra_report_current_def ra_report_exact_def report_tight_def report_order_def)
qed

lemma ra_same_current: "ra_same st st' \<Longrightarrow> ra_report_current st status \<Longrightarrow> ra_report_current st' status"
  by (rule report_current_cong[of st' st]) (simp_all add: ra_same_def am_has_def fun_eq_iff)

lemma ra_on_exit_current:
  assumes inv: "ra_inv st" and cur: "changed \<or> requested \<or> ra_current st"
  shows "\<exists>st' ev. ra_on_exit changed requested st = Some (st', ev) \<and> ra_inv st' \<and> ra_same st st' \<and> ra_current st'
     \<and> set ev \<subseteq> {On_status_report_changed}"
proof (cases "changed \<or> requested")
  case False
  then show ?thesis using inv cur by (simp add: ra_on_exit_def)
next
  case True
  obtain status where r: "ra_refresh_status_report st = Some (st\<lparr>ra_status_writer := ra_status_exchange st,
       ra_status_exchange := status, ra_status_size := st_packed_size status\<rparr>)" "ra_report_current st status"
    using ra_refresh_current[OF inv] by blast
  define st1 where "st1 = st\<lparr>ra_status_writer := ra_status_exchange st,
       ra_status_exchange := status, ra_status_size := st_packed_size status\<rparr>"
  have inv1: "ra_inv st1"
    unfolding st1_def by (rule ra_inv_refresh[OF inv]) (use r(2) in \<open>simp add: ra_report_current_def\<close>)
  have same: "ra_same st (st1\<lparr>ra_do_status := b\<rparr>)" "ra_same st st1" for b by (simp_all add: st1_def ra_same_def)
  have ex: "ra_status_exchange st1 = status" "ra_status_exchange (st1\<lparr>ra_do_status := b\<rparr>) = status" for b by (simp_all add: st1_def)
  have "ra_current st1" "ra_current (st1\<lparr>ra_do_status := True\<rparr>)"
    using same[THEN ra_same_current, OF r(2)] by (simp_all only: ra_current_def ex simp_thms)
  then show ?thesis
    using inv1 same True r(1) unfolding st1_def[symmetric]
    by (cases requested) (auto simp: ra_on_exit_def ra_notify_status_report_changed_def Let_def)
qed

section \<open>What a data PDU does\<close>

text \<open>A segment that brings nothing new leaves the report as it is.\<close>

lemma not_stored_current:
  assumes cur: "ra_current st" and info: "win_at (ra_window st) sn = Some i" "\<not> ai_fully_received i"
    and st': "ra_cfg st' = ra_cfg st" "ra_next st' = ra_next st" "ra_highest_status st' = ra_highest_status st"
      "ra_max_nof_sn st' = ra_max_nof_sn st" "ra_do_status st' = ra_do_status st" "ra_status_exchange st' = ra_status_exchange st"
    and w': "win_at (ra_window st') = (win_at (ra_window st))(sn \<mapsto> i')" "ai_segments i' = ai_segments i" "\<not> ai_fully_received i'"
  shows "ra_current st'"
proof -
  have has: "am_has (ra_window st') = am_has (ra_window st)"
    using info w' by (auto simp: am_has_def fun_eq_iff)
  have "\<exists>info'. win_at (ra_window st') x = Some info' \<and> k \<in> covered (ai_segments info')"
    if "win_at (ra_window st) x = Some info" "k \<in> covered (ai_segments info)" for x info k
    using that info(1) w' by (cases "x = sn") auto
  from report_current_cong[OF st'(1-4) has this] show ?thesis
    using cur st'(5,6) by (simp add: ra_current_def)
qed

definition ra_dropped :: "rlc_rx_am \<Rightarrow> u32 \<Rightarrow> bool" where
  "ra_dropped st sn \<longleftrightarrow> \<not> inside_rx_window st sn \<or> am_full (ra_window st) sn"

lemma ra_data_effect:
  assumes inv: "ra_inv st" and cur: "ra_current st"
    and read: "rlc_am_read_data_pdu_header buf (ra_size st) am_header_zero = Some h"
    and len: "amh_get_packed_size h < length buf" and fits: "am_pdu_fits (ra_size st) buf"
  defines "payload \<equiv> drop (amh_get_packed_size h) buf" and "sn \<equiv> amh_sn h"
  defines "info \<equiv> am_stored h payload (am_info_at st sn)"
  assumes again: "\<And>segs. amh_si h \<noteq> full_sdu \<Longrightarrow> segs = ai_segments (am_info_at st sn)
     \<Longrightarrow> \<not> fst (store_segment segs \<lparr>seg_si = amh_si h, seg_so = amh_so h, seg_payload = payload\<rparr>)
     \<Longrightarrow> segs \<noteq> [] \<and> \<not> snd (segment_inventory segs)"
    and returns: "ra_timer_set st \<or> ra_handle_data_pdu True buf st \<noteq> None"
  shows "\<exists>st' ev ev'. ra_handle_data_pdu True buf st = Some (st', ev @ ev') \<and> ra_inv st' \<and> ra_cfg st' = ra_cfg st \<and> ra_current st'
     \<and> set ev' \<subseteq> {On_status_report_changed}
     \<and> (if ra_dropped st sn then ra_same st st' \<and> ev = []
        else am_placed sn info st (ra_next st') (ra_highest_status st') (ra_next_highest st') (ra_window st')
          \<and> ev = (if ai_fully_received info then [On_new_sdu (am_sdu_bytes info)] else []))"
proof (cases "ra_dropped st sn")
  case True
  then have "ra_handle_data_pdu True buf st = ra_on_exit False (amh_p h \<noteq> 0) st"
    using read len by (auto simp: ra_handle_data_pdu_def ra_dropped_def sn_def Let_def am_full_def split: option.splits)
  moreover have "\<exists>st' ev'. ra_on_exit False (amh_p h \<noteq> 0) st = Some (st', ev') \<and> ra_inv st' \<and> ra_same st st' \<and> ra_current st'
     \<and> set ev' \<subseteq> {On_status_report_changed}"
    using ra_on_exit_current[OF inv] cur by blast
  ultimately show ?thesis using True by (auto simp: ra_same_def)
next
  case False
  let ?i = "am_info_at st sn" and ?seg = "\<lparr>seg_si = amh_si h, seg_so = amh_so h, seg_payload = payload\<rparr>"
  have in_win: "inside_rx_window st sn" and nf: "\<not> am_full (ra_window st) sn" using False by (auto simp: ra_dropped_def)
  have bound: "unat sn < 2 ^ am_to_number (ra_size st)" using read_am_header_bounds(1)[OF read] by (simp add: sn_def)
  have core: "ra_core st" using inv by (simp add: ra_inv_core)
  have i: "info_ok ?i \<or> ?i = am_info_default" "\<not> ai_fully_received ?i"
    using inv nf by (auto simp: am_info_at_def ra_inv_def am_state_def am_win_def am_full_def am_info_default_def split: option.splits)
  have ok: "info_ok info"
    unfolding info_def using i len fits read by (intro am_stored_ok) (auto simp: payload_def am_pdu_fits_def)
  obtain stored w' where store: "(if amh_si h = full_sdu then ra_handle_full_data_sdu h payload st
        else ra_handle_segment_data_sdu h payload st) = Some (stored, st\<lparr>ra_window := w'\<rparr>)"
        "cm_wf (am_to_number (ra_size st) - 1) w'" "win_at w' = (win_at (ra_window st))(sn \<mapsto> info)"
        "stored \<longleftrightarrow> amh_si h = full_sdu \<or> fst (store_segment (ai_segments ?i) ?seg)"
    using ra_store_spec[OF core bound[unfolded sn_def] in_win[unfolded sn_def], of payload] unfolding info_def sn_def by blast
  let ?ev = "if ai_fully_received info then [On_new_sdu (am_sdu_bytes info)] else []"
  have "ra_timer_set st \<or> ra_placed True sn (st\<lparr>ra_window := w'\<rparr>) \<noteq> None"
    using returns read len in_win nf store(1)[unfolded payload_def]
    by (cases "ra_placed True sn (st\<lparr>ra_window := w'\<rparr>)")
      (auto simp: ra_handle_data_pdu_def sn_def Let_def am_full_def split: option.splits)
  then obtain w hs nxt highest running trigger where placed: "ra_placed True sn (st\<lparr>ra_window := w'\<rparr>)
       = Some (st\<lparr>ra_window := w, ra_highest_status := hs, ra_next := nxt, ra_next_highest := highest,
             ra_timer_running := running, ra_status_trigger := trigger\<rparr>, ?ev)"
      "ra_core (st\<lparr>ra_window := w, ra_highest_status := hs, ra_next := nxt, ra_next_highest := highest,
             ra_timer_running := running, ra_status_trigger := trigger\<rparr>)" "am_placed sn info st nxt hs highest w"
    using ra_placed_spec[OF core bound in_win store(2,3) ok, of True] by (auto simp: am_sdu_bytes_def)
  let ?st1 = "st\<lparr>ra_window := w, ra_highest_status := hs, ra_next := nxt, ra_next_highest := highest,
             ra_timer_running := running, ra_status_trigger := trigger\<rparr>"
  have inv1: "ra_inv ?st1"
    using inv placed(2) by (simp add: ra_inv_core ra_statuses_ok_def)
  have "ra_current ?st1" if "\<not> stored"
  proof -
    have segs: "amh_si h \<noteq> full_sdu" "\<not> fst (store_segment (ai_segments ?i) ?seg)" using that store(4) by auto
    note a = again[OF segs(1) refl segs(2)]
    have "snd (store_segment (ai_segments ?i) ?seg) = ai_segments ?i"
      using segs(2) by (auto simp: store_segment_def split: option.splits)
    then have info: "ai_segments info = ai_segments ?i" "\<not> ai_fully_received info"
      using segs(1) a by (simp_all add: info_def am_stored_def ai_segments_def Let_def)
    have "ai_segments am_info_default = []" by (simp add: am_info_default_def ai_segments_def)
    then have at: "win_at (ra_window st) sn = Some ?i"
      using a by (auto simp: am_info_at_def split: option.splits)
    show ?thesis
      by (rule not_stored_current[OF cur at i(2), of _ info]) (use placed(3) info in \<open>simp_all add: am_placed_def\<close>)
  qed
  then obtain st2 ev2 where exit: "ra_on_exit stored (amh_p h \<noteq> 0) ?st1 = Some (st2, ev2)" "ra_inv st2" "ra_same ?st1 st2"
      "ra_current st2" "set ev2 \<subseteq> {On_status_report_changed}"
    using ra_on_exit_current[OF inv1] by blast
  have "ra_handle_data_pdu True buf st = Some (st2, ?ev @ ev2)"
    using read len in_win nf store(1) placed(1) exit(1)
    by (auto simp: ra_handle_data_pdu_def sn_def payload_def Let_def am_full_def split: option.splits)
  moreover have eqs: "ra_next st2 = nxt" "ra_highest_status st2 = hs" "ra_next_highest st2 = highest"
      "win_at (ra_window st2) = win_at w"
    using exit(3) by (simp_all add: ra_same_def)
  have "am_placed sn info st (ra_next st2) (ra_highest_status st2) (ra_next_highest st2) (ra_window st2)"
    using placed(3) unfolding am_placed_def eqs .
  ultimately show ?thesis
    using exit False by (auto simp: ra_same_def)
qed

section \<open>The other operations\<close>

lemma ra_get_status_same: "ra_same rx (snd (ra_get_status_pdu b rx))" "ra_current (snd (ra_get_status_pdu b rx))"
  by (simp_all add: ra_same_def ra_current_def ra_get_status_pdu_def Let_def)

lemma ra_current_same: "ra_current st \<Longrightarrow> ra_same st st' \<Longrightarrow> ra_do_status st' = ra_do_status st
    \<Longrightarrow> ra_status_exchange st' = ra_status_exchange st \<Longrightarrow> ra_current st'"
  using ra_same_current[of st st'] by (simp add: ra_current_def)

lemma ra_prohibit_same:
  "ra_same rx (fst (ra_on_expired_status_prohibit_timer rx))"
  "ra_current rx \<Longrightarrow> ra_current (fst (ra_on_expired_status_prohibit_timer rx))"
  "ra_inv rx \<Longrightarrow> ra_inv (fst (ra_on_expired_status_prohibit_timer rx))"
proof -
  show same: "ra_same rx (fst (ra_on_expired_status_prohibit_timer rx))"
    by (simp add: ra_same_def ra_on_expired_status_prohibit_timer_def Let_def)
  show "ra_current rx \<Longrightarrow> ra_current (fst (ra_on_expired_status_prohibit_timer rx))"
    by (erule ra_current_same[OF _ same]) (simp_all add: ra_on_expired_status_prohibit_timer_def Let_def)
  show "ra_inv rx \<Longrightarrow> ra_inv (fst (ra_on_expired_status_prohibit_timer rx))"
    by (auto simp: ra_on_expired_status_prohibit_timer_def Let_def ra_inv_def ra_statuses_ok_def)
qed

lemma ra_pull_status_same:
  "ra_same rx (snd (pull_status_pdu b grant_len rx))" "ra_current rx \<Longrightarrow> ra_current (snd (pull_status_pdu b grant_len rx))"
  by (simp_all add: pull_status_pdu_def case_prod_beta Let_def ra_get_status_pdu_def ra_same_def ra_current_def)

text \<open>The expiry of the reassembly timer moves \<open>RX_Highest_Status\<close>.\<close>

lemma ra_expire_current:
  assumes inv: "ra_inv st" and running: "ra_timer_running st"
    and returns: "ra_timer_set st \<or> ra_on_expired_reassembly_timer (st\<lparr>ra_timer_running := False\<rparr>) \<noteq> None"
  shows "\<exists>st' ev. ra_on_expired_reassembly_timer (st\<lparr>ra_timer_running := False\<rparr>) = Some (st', ev) \<and> ra_inv st' \<and> ra_cfg st' = ra_cfg st
     \<and> ra_current st' \<and> ra_next st' = ra_next st \<and> ra_next_highest st' = ra_next_highest st
     \<and> ra_window st' = ra_window st \<and> set ev \<subseteq> {On_status_report_changed}"
proof -
  let ?s = "ra_size st" and ?nxt = "ra_next st" and ?hi = "ra_next_highest st" and ?t = "ra_status_trigger st"
  let ?st0 = "st\<lparr>ra_timer_running := False\<rparr>"
  define sn where "sn = am_status_loop ?s ?nxt ?hi ?t (ra_window st)"
  have timer: "am_timer ?s ?nxt ?hi ?t (ra_window st)" and state: "am_state {} ?s ?nxt (ra_highest_status st) ?hi (ra_window st)"
    using inv running by (simp_all add: ra_inv_def)
  have gap: "am_first_gap ?s ?nxt ?hi (ra_window st) ?t sn"
    unfolding sn_def using timer state by (intro am_status_loop_spec) (simp_all add: am_timer_def am_state_def)
  have ack: "valid_ack_sn ?st0 ?t" "valid_ack_sn ?st0 sn"
    using timer state gap by (auto simp: am_valid_ack_off am_timer_def am_state_def am_first_gap_def)
  have state': "am_state {} ?s ?nxt sn ?hi (ra_window st)"
    using state gap by (auto simp: am_state_def am_first_gap_def)
  have "ra_timer_set st \<or> ra_start_timer sn (?st0\<lparr>ra_highest_status := sn\<rparr>) \<noteq> None"
    using returns ack by (auto simp: ra_on_expired_reassembly_timer_def Let_def sn_def[symmetric])
  then obtain r t where start: "ra_start_timer sn (?st0\<lparr>ra_highest_status := sn\<rparr>)
        = Some (?st0\<lparr>ra_highest_status := sn, ra_timer_running := r, ra_status_trigger := t\<rparr>)" (is "_ = Some ?st1")
      "r \<longrightarrow> am_timer ?s ?nxt ?hi t (ra_window st)"
    using ra_start_timer_spec[of "?st0\<lparr>ra_highest_status := sn\<rparr>" sn] state' by (auto simp: ra_timer_set_def)
  have inv1: "ra_inv ?st1"
    using inv state' start(2) by (simp add: ra_inv_def ra_statuses_ok_def)
  obtain status where ref: "ra_refresh_status_report ?st1 = Some (?st1\<lparr>ra_status_writer := ra_status_exchange ?st1,
       ra_status_exchange := status, ra_status_size := st_packed_size status\<rparr>)" "ra_report_current ?st1 status"
    using ra_refresh_current[OF inv1] by blast
  let ?st2 = "?st1\<lparr>ra_status_writer := ra_status_exchange ?st1, ra_status_exchange := status,
     ra_status_size := st_packed_size status, ra_do_status := True\<rparr>"
  have "ra_same ?st1 ?st2" by (simp add: ra_same_def)
  from ra_same_current[OF this ref(2)] have "ra_current ?st2" by (simp add: ra_current_def)
  moreover have "ra_inv ?st2"
    using ra_inv_refresh[OF inv1, of status "st_packed_size status"] ref(2)
    by (simp add: ra_report_current_def ra_inv_def ra_statuses_ok_def)
  moreover have "ra_on_expired_reassembly_timer ?st0 = Some (?st2, ra_notify_status_report_changed ?st2)"
    using ack start(1) ref(1) by (simp add: ra_on_expired_reassembly_timer_def Let_def sn_def[symmetric])
  ultimately show ?thesis
    by (intro exI[of _ ?st2] exI[of _ "ra_notify_status_report_changed ?st2"]) (auto simp: ra_notify_status_report_changed_def)
qed

end
