(* ===== verification/Rlc_Am_Link.thy ===== *)
theory Rlc_Am_Link
  imports Rlc_Am_Link_Rx
begin

text \<open>
  One direction of an acknowledged-mode link: the transmitter of one entity and the receiver of its
  peer.  The relation between them is kept by everything that happens on either side, by the transfer of
  a data PDU and by the transfer of a status report, and it tells which SDUs have been delivered.
\<close>

section \<open>The relation\<close>

text \<open>The bytes of an SDU that the receiver holds, for an entry of its window; what it holds has been sent.\<close>

definition rx_got :: "bytes \<Rightarrow> rlc_rx_am_sdu_info \<Rightarrow> nat set" where
  "rx_got sdu info = (if ai_fully_received info then {..<length sdu} else covered (ai_segments info))"

definition rx_info_rel :: "rlc_tx_am \<Rightarrow> u32 \<Rightarrow> rlc_rx_am_sdu_info \<Rightarrow> bool" where
  "rx_info_rel tx sn info \<longleftrightarrow> (\<exists>sdu. win_sdus (ta_window tx) sn = Some sdu \<and> (\<forall>k \<in> rx_got sdu info. sent_below tx sn (Suc k))
     \<and> (\<not> ai_fully_received info \<longrightarrow> segs_of sdu (ai_segments info) \<and> ai_segments info \<noteq> []
          \<and> covered (ai_segments info) \<noteq> {..<length sdu}))"

text \<open>\<open>TX_Next_Ack \<le> RX_Next \<le> TX_Next\<close>, and everything received was sent.\<close>

definition am_rel :: "rlc_tx_am \<Rightarrow> rlc_rx_am \<Rightarrow> bool" where
  "am_rel tx rx \<longleftrightarrow> ta_inv tx \<and> ra_inv rx \<and> ra_size rx = ta_size tx \<and> ta_low tx \<and> ra_current rx
     \<and> am_off (ta_size tx) (ta_tx_next_ack tx) (ra_next rx) + am_off (ta_size tx) (ra_next rx) (ra_next_highest rx) \<le> ta_nof tx
     \<and> am_off (ta_size tx) (ta_tx_next_ack tx) (ra_next rx) \<le> am_off (ta_size tx) (ta_tx_next_ack tx) (ta_tx_next tx)
     \<and> (\<forall>sn info. win_at (ra_window rx) sn = Some info \<longrightarrow> rx_info_rel tx sn info)"

text \<open>The SDUs of the transmit window that were delivered, by their position.\<close>

definition am_done :: "rlc_tx_am \<Rightarrow> rlc_rx_am \<Rightarrow> nat set" where
  "am_done tx rx = {i. i < ta_nof tx \<and> (i < am_off (ta_size tx) (ta_tx_next_ack tx) (ra_next rx)
     \<or> am_full (ra_window rx) (sn_plus (ta_size tx) (ta_tx_next_ack tx) i))}"

lemma sent_below_mono: "sent_below tx sn k \<Longrightarrow> l \<le> k \<Longrightarrow> sent_below tx sn l"
  by (fastforce simp: sent_below_def)

lemma am_off_chain:
  assumes "am_off s a r + am_off s r x < 2 ^ am_to_number s"
  shows "am_off s a x = am_off s a r + am_off s r x"
  using assms sn_off_rebase_ge[OF am_to_number_32(1), of s a r x] sn_off_rebase_lt[OF am_to_number_32(1), of s a x r]
    am_off_less[of s a r]
  by (cases "am_off s a r \<le> am_off s a x") auto

lemma ta_nof_bounds:
  assumes "ta_inv tx"
  shows "ta_nof tx \<le> am_W (ta_size tx)" "ta_nof tx < 2 ^ am_to_number (ta_size tx)"
    "unat (ta_tx_next_ack tx) < 2 ^ am_to_number (ta_size tx)" "unat (ta_tx_next tx) < 2 ^ am_to_number (ta_size tx)"
    "ta_nof tx = am_off (ta_size tx) (ta_tx_next_ack tx) (ta_tx_next tx) + (if ta_sn_under_segmentation tx = INVALID_RLC_SN then 0 else 1)"
    "win_at (ta_window tx) sn \<noteq> None \<longleftrightarrow> unat sn < 2 ^ am_to_number (ta_size tx)
       \<and> am_off (ta_size tx) (ta_tx_next_ack tx) sn < ta_nof tx"
proof -
  have win: "tx_win (ta_size tx) (ta_tx_next_ack tx) (ta_tx_next tx) (ta_sn_under_segmentation tx) (ta_window tx)"
    using assms by (simp add: ta_inv_def)
  then show "ta_nof tx \<le> am_W (ta_size tx)" "unat (ta_tx_next_ack tx) < 2 ^ am_to_number (ta_size tx)"
    "unat (ta_tx_next tx) < 2 ^ am_to_number (ta_size tx)"
    by (simp_all add: tx_win_def ta_nof_def)
  then show "ta_nof tx < 2 ^ am_to_number (ta_size tx)" using am_W(4)[of "ta_size tx"] by simp
  show "ta_nof tx = am_off (ta_size tx) (ta_tx_next_ack tx) (ta_tx_next tx) + (if ta_sn_under_segmentation tx = INVALID_RLC_SN then 0 else 1)"
    by (simp add: ta_nof_def tx_end_def)
  show "win_at (ta_window tx) sn \<noteq> None \<longleftrightarrow> unat sn < 2 ^ am_to_number (ta_size tx)
       \<and> am_off (ta_size tx) (ta_tx_next_ack tx) sn < ta_nof tx"
    using win unfolding tx_win_def ta_nof_def by blast
qed

lemma win_sdus_iff:
  "ta_inv tx \<Longrightarrow> win_sdus (ta_window tx) sn \<noteq> None \<longleftrightarrow> unat sn < 2 ^ am_to_number (ta_size tx)
     \<and> am_off (ta_size tx) (ta_tx_next_ack tx) sn < ta_nof tx"
  using ta_nof_bounds(6)[of tx sn] by (simp add: win_sdus_def)

text \<open>The SDU under segmentation has not been sent completely.\<close>

lemma sent_below_length:
  assumes "ta_inv tx" and "win_sdus (ta_window tx) sn = Some sdu" and "sent_below tx sn (length sdu)"
  shows "sn \<noteq> ta_sn_under_segmentation tx"
proof
  assume seg: "sn = ta_sn_under_segmentation tx"
  obtain info where "win_at (ta_window tx) sn = Some info" "ti_sdu info = sdu" using assms(2) by (auto simp: win_sdus_def)
  then show False
    using seg assms(3) tx_infosD[of "ta_sn_under_segmentation tx" "ta_window tx" sn info] assms(1)
    by (auto simp: ta_inv_def tx_info_ok_def sent_below_def)
qed

text \<open>An SDU whose bytes were all received has been sent completely.\<close>

lemma rx_full_sent:
  assumes "ta_inv tx" and "rx_info_rel tx sn info" and "ai_fully_received info"
  shows "sn \<noteq> ta_sn_under_segmentation tx"
proof -
  obtain sdu where sdu: "win_sdus (ta_window tx) sn = Some sdu" "\<forall>k < length sdu. sent_below tx sn (Suc k)"
    using assms(2,3) by (auto simp: rx_info_rel_def rx_got_def)
  have "sdu \<noteq> []"
    using assms(1) sdu(1) tx_infosD[of "ta_sn_under_segmentation tx" "ta_window tx" sn]
    by (auto simp: ta_inv_def win_sdus_def tx_info_ok_def)
  then have "sent_below tx sn (length sdu)" using sdu(2)[rule_format, of "length sdu - 1"] by simp
  then show ?thesis by (rule sent_below_length[OF assms(1) sdu(1)])
qed

section \<open>One side moves\<close>

lemma am_rel_advanced:
  assumes rel: "am_rel tx rx" and inv: "ta_inv tx'" and tx': "ta_cfg tx' = ta_cfg tx" "ta_tx_next_ack tx' = ta_tx_next_ack tx"
    "ta_nof tx \<le> ta_nof tx'" "ta_advanced tx tx'"
  shows "am_rel tx' rx" "am_done tx' rx = am_done tx rx"
proof -
  let ?s = "ta_size tx" and ?a = "ta_tx_next_ack tx"
  have info: "rx_info_rel tx' sn info" if old: "rx_info_rel tx sn info" for sn info
  proof -
    obtain sdu where sdu: "win_sdus (ta_window tx) sn = Some sdu" "\<forall>k \<in> rx_got sdu info. sent_below tx sn (Suc k)"
        "\<not> ai_fully_received info \<longrightarrow> segs_of sdu (ai_segments info) \<and> ai_segments info \<noteq> []
          \<and> covered (ai_segments info) \<noteq> {..<length sdu}"
      using old unfolding rx_info_rel_def by blast
    have at: "win_at (ta_window tx) sn \<noteq> None" using sdu(1) by (auto simp: win_sdus_def)
    have "win_sdus (ta_window tx') sn = Some sdu"
      using tx'(4) sdu(1) by (metis domI map_le_def ta_advanced_def)
    moreover have "\<forall>k \<in> rx_got sdu info. sent_below tx' sn (Suc k)"
      using sdu(2) at tx'(4) by (simp add: ta_advanced_def)
    ultimately show ?thesis using sdu(3) unfolding rx_info_rel_def by blast
  qed
  show "am_rel tx' rx"
    using rel inv tx' info unfolding am_rel_def ta_advanced_def by fastforce
  have "am_off ?s ?a sn < ta_nof tx" if "win_at (ra_window rx) sn \<noteq> None" for sn
  proof -
    have "rx_info_rel tx sn (the (win_at (ra_window rx) sn))" using rel that by (auto simp: am_rel_def)
    then show ?thesis
      using win_sdus_iff[of tx sn] rel by (auto simp: rx_info_rel_def am_rel_def)
  qed
  moreover have "am_off ?s ?a (ra_next rx) \<le> ta_nof tx" using rel by (simp add: am_rel_def)
  moreover have "ta_nof tx' < 2 ^ am_to_number ?s" using ta_nof_bounds(2)[OF inv] tx'(1) by simp
  ultimately show "am_done tx' rx = am_done tx rx"
    using tx'(1-3) am_off_sn_plus[of _ ?s ?a] by (fastforce simp: am_done_def am_full_def)
qed

lemma am_rel_kept:
  assumes rel: "am_rel tx rx" and tx': "ta_inv tx'" "ta_kept tx tx'" "ta_low tx'"
  shows "am_rel tx' rx" "am_done tx' rx = am_done tx rx"
proof -
  have k: "ta_cfg tx' = ta_cfg tx" "ta_tx_next_ack tx' = ta_tx_next_ack tx" "ta_tx_next tx' = ta_tx_next tx"
      "ta_nof tx' = ta_nof tx" "win_sdus (ta_window tx') = win_sdus (ta_window tx)"
    using tx'(2) ta_kept_stream[OF tx'(2)] win_same_sdus by (auto simp: ta_kept_def)
  have "rx_info_rel tx' sn info = rx_info_rel tx sn info" for sn info
    by (simp add: rx_info_rel_def k sent_below_kept[OF tx'(2)])
  then show "am_rel tx' rx" "am_done tx' rx = am_done tx rx"
    using rel tx'(1,3) k by (simp_all add: am_rel_def am_done_def)
qed

lemma am_rel_rx:
  assumes rel: "am_rel tx rx" and rx': "ra_inv rx'" "ra_current rx'" "ra_cfg rx' = ra_cfg rx" "ra_next rx' = ra_next rx"
    "ra_next_highest rx' = ra_next_highest rx" "win_at (ra_window rx') = win_at (ra_window rx)"
  shows "am_rel tx rx'" "am_done tx rx' = am_done tx rx"
  using assms by (simp_all add: am_rel_def am_done_def am_full_def)

lemma am_rel_same: "am_rel tx rx \<Longrightarrow> ra_inv rx' \<Longrightarrow> ra_current rx' \<Longrightarrow> ra_same rx rx' \<Longrightarrow> am_rel tx rx' \<and> am_done tx rx' = am_done tx rx"
  using am_rel_rx[of tx rx rx'] by (simp add: ra_same_def)

section \<open>A data PDU arrives\<close>

abbreviation pdu_header :: "rlc_am_sn_size \<Rightarrow> u8 \<Rightarrow> u32 \<Rightarrow> bytes \<Rightarrow> nat \<Rightarrow> nat \<Rightarrow> rlc_am_pdu_header" where
  "pdu_header s p sn sdu so n \<equiv> \<lparr>amh_dc = dc_data, amh_p = p, amh_si = seg_kind so n (length sdu), amh_sn_size = s,
     amh_sn = sn, amh_so = of_nat so\<rparr>"

lemma am_pdu_read:
  assumes p: "p \<le> 1" and sn: "unat sn < 2 ^ am_to_number s" and n: "0 < n" "so + n \<le> length sdu" "length sdu \<le> am_max_sdu"
  defines "pdu \<equiv> am_pdu_of s p sn sdu so n" and "h \<equiv> pdu_header s p sn sdu so n"
  shows "rlc_am_read_data_pdu_header pdu s am_header_zero = Some h" "amh_get_packed_size h < length pdu"
    "drop (amh_get_packed_size h) pdu = take n (drop so sdu)" "\<not> is_control_pdu pdu" "am_pdu_fits s pdu" "pdu \<noteq> []"
proof -
  have so: "so < 65536" using n by (simp add: am_max_sdu_def)
  have ok: "am_header_ok h" unfolding h_def by (rule am_pdu_header_ok[OF p sn so])
  have payload: "take n (drop so sdu) \<noteq> []" "length (take n (drop so sdu)) = n" using n by auto
  have pdu: "pdu = rlc_am_write_data_pdu_header h @ take n (drop so sdu)" by (simp add: pdu_def h_def am_pdu_of_def)
  have len: "length (rlc_am_write_data_pdu_header h) = amh_get_packed_size h" by (rule length_write_am_header[OF ok])
  show read: "rlc_am_read_data_pdu_header pdu s am_header_zero = Some h"
    using read_write_am_header[OF ok payload(1), of am_header_zero] by (simp add: pdu h_def am_header_zero_def)
  show "amh_get_packed_size h < length pdu" "drop (amh_get_packed_size h) pdu = take n (drop so sdu)" "pdu \<noteq> []"
    using len payload by (simp_all add: pdu)
  have "hd pdu = am_octet0 dc_data p (amh_si h) (octet 8 sn AND 0x0F) \<or> hd pdu = am_octet0 dc_data p (amh_si h) (octet 16 sn AND 0x03)"
    by (cases s) (simp_all add: pdu rlc_am_write_data_pdu_header_def h_def)
  then show "\<not> is_control_pdu pdu"
    using am_octet0_fields(1)[OF sn_high_octets(1)] am_octet0_fields(1)[OF sn_high_octets(2)]
    by (auto simp: is_control_pdu_def)
  have "unat (of_nat so :: u16) = so" using unat_of_nat_u16[of so] so by simp
  then show "am_pdu_fits s pdu"
    unfolding am_pdu_fits_def read option.case using len payload(2) n by (simp add: pdu h_def am_max_sdu_def)
qed

text \<open>What is stored after a slice of the SDU has arrived.\<close>

lemma slice_seg_of:
  assumes n: "0 < n" "so + n \<le> length sdu" "length sdu \<le> am_max_sdu" and si: "seg_kind so n (length sdu) \<noteq> full_sdu"
  defines "seg \<equiv> \<lparr>seg_si = seg_kind so n (length sdu), seg_so = of_nat so, seg_payload = take n (drop so sdu)\<rparr>"
  shows "seg_of sdu seg" "seg_bytes seg = {so..<so + n}"
proof -
  have so: "unat (of_nat so :: u16) = so" using n by (simp add: unat_of_nat_u16 am_max_sdu_def)
  have p: "length (seg_payload seg) = n" using n by (simp add: seg_def)
  have e: "seg_lo seg = so" "seg_hi seg = so + n" using p by (simp_all add: seg_def seg_lo_def seg_hi_def so)
  show "seg_bytes seg = {so..<so + n}" using e by (simp add: seg_bytes_def)
  have "seg_payload seg \<noteq> []" "seg_payload seg = take n (drop so sdu)" using p n(1) by (auto simp: seg_def)
  moreover have "seg_si seg = last_segment \<longleftrightarrow> so + n = length sdu"
    using si by (auto simp: seg_def seg_kind_def split: if_splits)
  ultimately show "seg_of sdu seg"
    unfolding seg_of_def e p using n by (simp add: am_max_sdu_def)
qed

lemma slice_stored:
  fixes p :: u8
  assumes rel: "am_rel tx rx" and sdu: "win_sdus (ta_window tx) sn = Some sdu" and nf: "\<not> am_full (ra_window rx) sn"
    and n: "0 < n" "so + n \<le> length sdu" and sent: "sent_below tx sn (so + n)"
  defines "h \<equiv> pdu_header (ta_size tx) p sn sdu so n" and "segs \<equiv> ai_segments (am_info_at rx sn)"
  defines "info \<equiv> am_stored h (take n (drop so sdu)) (am_info_at rx sn)"
  shows "rx_info_rel tx sn info" "ai_fully_received info \<Longrightarrow> am_sdu_bytes info = sdu"
    "seg_kind so n (length sdu) \<noteq> full_sdu
      \<Longrightarrow> \<not> fst (store_segment segs \<lparr>seg_si = seg_kind so n (length sdu), seg_so = of_nat so, seg_payload = take n (drop so sdu)\<rparr>)
      \<Longrightarrow> segs \<noteq> [] \<and> \<not> snd (segment_inventory segs)"
proof -
  have len: "length sdu \<le> am_max_sdu" "sdu \<noteq> []"
    using rel sdu tx_infosD[of "ta_sn_under_segmentation tx" "ta_window tx" sn]
    by (auto simp: am_rel_def ta_inv_def win_sdus_def tx_info_ok_def)
  have len': "length sdu \<le> 65536" using len by (simp add: am_max_sdu_def)
  have segs: "segs_of sdu segs" "\<forall>k \<in> covered segs. sent_below tx sn (Suc k)" "covered segs \<noteq> {..<length sdu}"
  proof -
    have "segs_of sdu segs \<and> (\<forall>k \<in> covered segs. sent_below tx sn (Suc k)) \<and> covered segs \<noteq> {..<length sdu}"
    proof (cases "win_at (ra_window rx) sn")
      case None
      then have "segs = []" by (simp add: segs_def am_info_at_def am_info_default_def ai_segments_def)
      moreover have "{..<length sdu} \<noteq> {}" using len(2) by auto
      ultimately show ?thesis by (auto simp: segs_of_def chained_def covered_def)
    next
      case (Some i)
      then have "rx_info_rel tx sn i" "\<not> ai_fully_received i" "am_info_at rx sn = i"
        using rel nf by (auto simp: am_rel_def am_full_def am_info_at_def)
      then show ?thesis using sdu by (auto simp: segs_def rx_info_rel_def rx_got_def)
    qed
    then show "segs_of sdu segs" "\<forall>k \<in> covered segs. sent_below tx sn (Suc k)" "covered segs \<noteq> {..<length sdu}" by blast+
  qed
  let ?seg = "\<lparr>seg_si = seg_kind so n (length sdu), seg_so = of_nat so, seg_payload = take n (drop so sdu)\<rparr>"
  let ?segs = "snd (store_segment segs ?seg)"
  have store: "segs_of sdu ?segs" "covered ?segs = covered segs \<union> {so..<so + n}"
      "fst (store_segment segs ?seg) \<longleftrightarrow> \<not> {so..<so + n} \<subseteq> covered segs" if "seg_kind so n (length sdu) \<noteq> full_sdu"
    using store_segment_spec[OF segs(1) slice_seg_of(1)[OF n len(1) that], of "fst (store_segment segs ?seg)" ?segs]
      slice_seg_of(2)[OF n len(1) that] by simp_all
  show "segs \<noteq> [] \<and> \<not> snd (segment_inventory segs)"
    if "seg_kind so n (length sdu) \<noteq> full_sdu" "\<not> fst (store_segment segs ?seg)"
  proof -
    have "so \<in> covered segs" using store(3)[OF that(1)] that(2) n(1) by auto
    then have "segs \<noteq> []" by (auto simp: covered_def)
    then show ?thesis using segment_inventory_spec(1)[OF segs(1) len(2) len'] segs(3) by simp
  qed
  have "rx_info_rel tx sn info \<and> (ai_fully_received info \<longrightarrow> am_sdu_bytes info = sdu)"
  proof (cases "seg_kind so n (length sdu) = full_sdu")
    case True
    then have whole: "so = 0" "n = length sdu" by (auto simp: seg_kind_def split: if_splits)
    have "sent_below tx sn (Suc k)" if "k < length sdu" for k
      using sent_below_mono[OF sent, of "Suc k"] that whole by simp
    then show ?thesis
      using sdu True whole by (simp add: info_def h_def am_stored_def rx_info_rel_def rx_got_def am_sdu_bytes_def)
  next
    case False
    note st = store[OF False] and inv = segment_inventory_spec[OF store(1)[OF False] len(2) len']
    have info: "ai_segments info = ?segs" "ai_fully_received info \<longleftrightarrow> covered ?segs = {..<length sdu}"
        "ai_fully_received info \<Longrightarrow> am_sdu_bytes info = sdu"
      using False inv by (simp_all add: info_def h_def am_stored_def ai_segments_def Let_def segs_def am_sdu_bytes_def)
    have sent': "sent_below tx sn (Suc k)" if "k \<in> covered ?segs" for k
      using that st(2) segs(2) sent_below_mono[OF sent, of "Suc k"] by auto
    have "?segs \<noteq> []"
    proof
      assume "?segs = []"
      then have "covered ?segs = {}" by (simp add: covered_def)
      then show False using st(2) n(1) by auto
    qed
    then show ?thesis
      using sdu info st(1) sent' by (auto simp: rx_info_rel_def rx_got_def)
  qed
  then show "rx_info_rel tx sn info" "ai_fully_received info \<Longrightarrow> am_sdu_bytes info = sdu" by blast+
qed

text \<open>The receiver's variables after the SDU was placed, as seen from the transmitter.\<close>

lemma am_rel_placed:
  assumes rel: "am_rel tx rx" and sn: "unat sn < 2 ^ am_to_number (ta_size tx)"
      "am_off (ta_size tx) (ta_tx_next_ack tx) (ra_next rx) \<le> am_off (ta_size tx) (ta_tx_next_ack tx) sn"
      "am_off (ta_size tx) (ta_tx_next_ack tx) sn < ta_nof tx"
    and nf: "\<not> am_full (ra_window rx) sn" and info: "rx_info_rel tx sn info"
    and placed: "am_placed sn info rx (ra_next rx') (ra_highest_status rx') (ra_next_highest rx') (ra_window rx')"
    and rx': "ra_inv rx'" "ra_cfg rx' = ra_cfg rx" "ra_current rx'"
  shows "am_rel tx rx'" "am_off (ta_size tx) (ta_tx_next_ack tx) sn \<notin> am_done tx rx"
    "am_done tx rx' = (if ai_fully_received info then insert (am_off (ta_size tx) (ta_tx_next_ack tx) sn) (am_done tx rx)
       else am_done tx rx)"
proof -
  let ?s = "ta_size tx" and ?a = "ta_tx_next_ack tx" and ?rn = "ra_next rx" and ?nx = "ra_next rx'" and ?h = "ra_next_highest rx'"
  let ?r = "am_off ?s ?a ?rn" and ?i = "am_off ?s ?a sn" and ?d = "am_off ?s ?rn ?nx"
  have inv: "ta_inv tx" and size: "ra_size rx = ?s" and hi: "?r + am_off ?s ?rn (ra_next_highest rx) \<le> ta_nof tx"
      and low: "?r \<le> am_off ?s ?a (ta_tx_next tx)"
      and infos: "\<And>x j. win_at (ra_window rx) x = Some j \<Longrightarrow> rx_info_rel tx x j"
    using rel by (auto simp: am_rel_def)
  note nof = ta_nof_bounds[OF inv]
  have off: "am_off ?s ?rn x = am_off ?s ?a x - ?r" if "?r \<le> am_off ?s ?a x" for x
    using sn_off_rebase_ge[OF am_to_number_32(1) that] .
  define f where "f = (win_at (ra_window rx))(sn \<mapsto> if ai_fully_received info then info\<lparr>ai_data := Sdu_slice []\<rparr> else info)"
  have full: "(\<exists>j. f x = Some j \<and> ai_fully_received j) \<longleftrightarrow> am_full (ra_window rx) x \<or> x = sn \<and> ai_fully_received info" for x
    using nf by (auto simp: f_def am_full_def)
  have "rx_info_rel tx sn (info\<lparr>ai_data := Sdu_slice []\<rparr>)" if "ai_fully_received info"
    using info that by (simp add: rx_info_rel_def rx_got_def)
  then have f: "rx_info_rel tx x j" if "f x = Some j" for x j
    using that infos[of x j] info by (cases "x = sn") (auto simp: f_def split: if_splits)
  have h: "am_off ?s ?rn ?h = (if am_off ?s ?rn (ra_next_highest rx) \<le> ?i - ?r then ?i - ?r + 1 else am_off ?s ?rn (ra_next_highest rx))"
    using placed size off[OF sn(2)] sn(3) nof(2) by (simp add: am_placed_def am_off_inc)
  then have h_nof: "?r + am_off ?s ?rn ?h \<le> ta_nof tx" using hi sn(2,3) by (auto split: if_splits)
  have mv: "am_moved ?s ?rn ?h f ?nx (win_at (ra_window rx'))"
    using placed size by (auto simp: am_placed_def f_def am_moved_def split: if_splits)
  then have d: "?d \<le> am_off ?s ?rn ?h" and passed: "\<And>x. unat x < 2 ^ am_to_number ?s \<Longrightarrow> am_off ?s ?rn x < ?d
        \<Longrightarrow> am_full (ra_window rx) x \<or> x = sn \<and> ai_fully_received info"
      and g: "win_at (ra_window rx') x = (if am_off ?s ?rn x < ?d then None else f x)" for x
    using full by (auto simp: am_moved_def)
  have r': "am_off ?s ?a ?nx = ?r + ?d"
    using d h_nof nof(2) by (intro am_off_chain) simp
  have h': "am_off ?s ?nx ?h = am_off ?s ?rn ?h - ?d"
    using sn_off_rebase_ge[OF am_to_number_32(1) d] .
  have "am_off ?s ?a ?nx \<le> am_off ?s ?a (ta_tx_next tx)"
  proof (rule ccontr)
    assume "\<not> ?thesis"
    then have seg: "ta_sn_under_segmentation tx \<noteq> INVALID_RLC_SN" and e: "?r + ?d = am_off ?s ?a (ta_tx_next tx) + 1"
      using r' d h_nof nof(5) by (auto split: if_splits)
    then have "ta_sn_under_segmentation tx = ta_tx_next tx" using inv by (auto simp: ta_inv_def tx_win_def)
    moreover have "am_off ?s ?rn (ta_tx_next tx) < ?d" using off[OF low] e low by simp
    then obtain j where "f (ta_tx_next tx) = Some j" "ai_fully_received j"
      using passed[OF nof(4)] full[of "ta_tx_next tx"] by blast
    ultimately show False using rx_full_sent[OF inv f] by metis
  qed
  moreover have "rx_info_rel tx x j" if "win_at (ra_window rx') x = Some j" for x j
    using that g f by (auto split: if_splits)
  ultimately show "am_rel tx rx'"
    using rel rx' r' h' d h_nof by (simp add: am_rel_def)
  have plus: "sn_plus ?s ?a ?i = sn" using sn_plus_am_off[OF sn(1)] .
  show "?i \<notin> am_done tx rx"
    using sn(2) nf plus by (simp add: am_done_def)
  have full': "am_full (ra_window rx') x \<longleftrightarrow> \<not> am_off ?s ?rn x < ?d \<and> (am_full (ra_window rx) x \<or> x = sn \<and> ai_fully_received info)" for x
    using g[of x] full[of x] by (auto simp: am_full_def)
  have "j \<in> am_done tx rx' \<longleftrightarrow> j \<in> am_done tx rx \<or> j = ?i \<and> ai_fully_received info" for j
  proof (cases "j < ta_nof tx")
    case False
    then show ?thesis using sn(3) by (auto simp: am_done_def)
  next
    case True
    let ?x = "sn_plus ?s ?a j"
    have j: "am_off ?s ?a ?x = j" using True nof(2) by (intro am_off_sn_plus) simp
    have x: "?x = sn \<longleftrightarrow> j = ?i" using j plus by auto
    show ?thesis
    proof (cases "j < ?r")
      case True
      then show ?thesis using \<open>j < ta_nof tx\<close> r' by (simp add: am_done_def)
    next
      case False
      then have "am_off ?s ?rn ?x = j - ?r" using off[of ?x] j by simp
      then have "j < ?r + ?d \<longleftrightarrow> am_off ?s ?rn ?x < ?d" using False by auto
      then show ?thesis
        using \<open>j < ta_nof tx\<close> False r' full'[of ?x] passed[OF sn_plus_bound, of ?a j] x by (auto simp: am_done_def)
    qed
  qed
  then show "am_done tx rx' = (if ai_fully_received info then insert ?i (am_done tx rx) else am_done tx rx)"
    by auto
qed

text \<open>The transfer of a data PDU: nothing, or the delivery of an SDU that was not delivered before.\<close>

lemma data_transfer:
  assumes rel: "am_rel tx rx" and pdu: "tx_data_pdu (ta_size tx) (ta_window tx) sn so n pdu" and sent: "sent_below tx sn (so + n)"
    and returns: "ra_timer_set rx \<or> ra_handle_pdu True pdu rx \<noteq> None"
  obtains rx' ev ev' where "ra_handle_pdu True pdu rx = Some (rx', ev @ ev')" "set ev' \<subseteq> {On_status_report_changed}"
    "am_rel tx rx'" "ra_cfg rx' = ra_cfg rx"
    "ev = [] \<and> am_done tx rx' = am_done tx rx
     \<or> (\<exists>i. i < ta_nof tx \<and> i \<notin> am_done tx rx \<and> am_done tx rx' = insert i (am_done tx rx) \<and> ev = [On_new_sdu (ta_stream tx ! i)])"
proof -
  let ?s = "ta_size tx" and ?a = "ta_tx_next_ack tx" and ?rn = "ra_next rx"
  let ?r = "am_off ?s ?a ?rn" and ?i = "am_off ?s ?a sn"
  obtain sdu p where sdu: "win_sdus (ta_window tx) sn = Some sdu" "p \<le> 1" "0 < n" "so + n \<le> length sdu" "pdu = am_pdu_of ?s p sn sdu so n"
    using pdu by (auto simp: tx_data_pdu_def)
  have inv: "ta_inv tx" and rinv: "ra_inv rx" and size: "ra_size rx = ?s" and cur: "ra_current rx"
      and r: "?r \<le> ta_nof tx"
    using rel by (simp_all add: am_rel_def)
  note nof = ta_nof_bounds[OF inv]
  have sn: "unat sn < 2 ^ am_to_number ?s" "?i < ta_nof tx" using win_sdus_iff[OF inv, of sn] sdu(1) by auto
  have len: "length sdu \<le> am_max_sdu"
    using inv sdu(1) tx_infosD[of "ta_sn_under_segmentation tx" "ta_window tx" sn]
    by (auto simp: ta_inv_def win_sdus_def tx_info_ok_def)
  note read = am_pdu_read[OF sdu(2) sn(1) sdu(3,4) len, folded sdu(5)]
  have drop: "ra_dropped rx sn \<longleftrightarrow> ?i < ?r \<or> am_full (ra_window rx) sn"
    using am_inside_off[of rx sn] size sn(2) r nof(1) am_W(2)[of ?s] sn_off_rebase[OF am_to_number_32(1)[of ?s], where b = ?a and b' = ?rn and x = sn]
    by (auto simp: ra_dropped_def)
  let ?h = "pdu_header ?s p sn sdu so n" and ?pl = "take n (drop so sdu)"
  let ?info = "am_stored ?h ?pl (am_info_at rx sn)"
  have again: "segs \<noteq> [] \<and> \<not> snd (segment_inventory segs)"
    if "\<not> ra_dropped rx sn" "seg_kind so n (length sdu) \<noteq> full_sdu" "segs = ai_segments (am_info_at rx sn)"
      "\<not> fst (store_segment segs \<lparr>seg_si = seg_kind so n (length sdu), seg_so = of_nat so, seg_payload = ?pl\<rparr>)" for segs
    using slice_stored(3)[OF rel sdu(1) _ sdu(3,4) sent that(2)] that drop by simp
  show thesis
  proof (cases "ra_dropped rx sn")
    case True
    have "\<exists>rx' ev'. ra_handle_data_pdu True pdu rx = Some (rx', ev') \<and> ra_inv rx' \<and> ra_same rx rx' \<and> ra_current rx'
       \<and> set ev' \<subseteq> {On_status_report_changed}"
    proof -
      have "ra_handle_data_pdu True pdu rx = ra_on_exit False (p \<noteq> 0) rx"
        using read(1,2) True size by (auto simp: ra_handle_data_pdu_def ra_dropped_def Let_def am_full_def split: option.splits)
      then show ?thesis using ra_on_exit_current[OF rinv, of False "p \<noteq> 0"] cur by auto
    qed
    then obtain rx' ev' where "ra_handle_data_pdu True pdu rx = Some (rx', ev')" "ra_inv rx'" "ra_same rx rx'" "ra_current rx'"
        "set ev' \<subseteq> {On_status_report_changed}" by blast
    then show thesis
      using that[of rx' "[]" ev'] am_rel_same[OF rel, of rx'] read(4,6) by (simp add: ra_handle_pdu_def ra_same_def)
  next
    case False
    have nf: "\<not> am_full (ra_window rx) sn" "?r \<le> ?i" using False drop by auto
    note stored = slice_stored(1,2)[OF rel sdu(1) nf(1) sdu(3,4) sent, of p]
    have "ra_timer_set rx \<or> ra_handle_data_pdu True pdu rx \<noteq> None"
      using returns read(4,6) by (simp add: ra_handle_pdu_def)
    then obtain rx' ev ev' where eff: "ra_handle_data_pdu True pdu rx = Some (rx', ev @ ev')" "ra_inv rx'" "ra_cfg rx' = ra_cfg rx" "ra_current rx'"
        "set ev' \<subseteq> {On_status_report_changed}"
        "am_placed sn ?info rx (ra_next rx') (ra_highest_status rx') (ra_next_highest rx') (ra_window rx')"
        "ev = (if ai_fully_received ?info then [On_new_sdu (am_sdu_bytes ?info)] else [])"
      using ra_data_effect[OF rinv cur, of pdu ?h] read(1,2,3,5) size again[OF False] False by auto
    note pl = am_rel_placed[OF rel sn(1) nf(2) sn(2) nf(1) stored(1) eff(6,2,3,4)]
    have "ta_stream tx ! ?i = sdu"
      using sn sdu(1) sn_plus_am_off[OF sn(1), of ?a] by (simp add: ta_stream_def nth_append window_stream_def)
    then have "ev = [] \<and> am_done tx rx' = am_done tx rx
     \<or> (\<exists>i. i < ta_nof tx \<and> i \<notin> am_done tx rx \<and> am_done tx rx' = insert i (am_done tx rx) \<and> ev = [On_new_sdu (ta_stream tx ! i)])"
      using eff(7) pl(2,3) stored(2) sn(2) by (cases "ai_fully_received ?info") auto
    then show thesis
      using that[OF _ eff(5) pl(1) eff(3)] eff(1) read(4,6) by (simp add: ra_handle_pdu_def)
  qed
qed

end
