(* ===== verification/Rlc_Am_Link_Status.thy ===== *)
theory Rlc_Am_Link_Status
  imports Rlc_Am_Link
begin

text \<open>
  The transfer of a status report: what the receiver says is true of the transmitter, so the report acknowledges
  exactly the SDUs before \<open>RX_Next\<close>, asks for nothing that was not sent, and keeps the relation of
  the two sides.
\<close>

section \<open>What a report says\<close>

text \<open>A report as it arrives: cut at a NACK if it did not fit.\<close>

definition report_cut :: "rlc_am_status_pdu \<Rightarrow> rlc_am_status_pdu \<Rightarrow> bool" where
  "report_cut status status' \<longleftrightarrow> (\<exists>dropped. st_nacks status = st_nacks status' @ dropped
     \<and> st_ack_sn status' = (if dropped = [] then st_ack_sn status else nack_sn (hd dropped)))"

text \<open>Something of the SDU \<open>RX_Next\<close> is missing.\<close>

lemma rx_next_missing:
  assumes rel: "am_rel tx rx" and ne: "ra_next rx \<noteq> ra_next_highest rx"
  shows "\<exists>off \<le> 65535. \<not> am_has (ra_window rx) (ra_next rx) off"
proof (cases "win_at (ra_window rx) (ra_next rx)")
  case None
  then show ?thesis by (auto simp: am_has_def)
next
  case (Some info)
  have state: "am_state {} (ra_size rx) (ra_next rx) (ra_highest_status rx) (ra_next_highest rx) (ra_window rx)"
    using rel unfolding am_rel_def ra_inv_def by blast
  then have nf: "\<not> ai_fully_received info" using ne Some by (auto simp: am_state_def am_full_def)
  have "rx_info_rel tx (ra_next rx) info" using rel Some by (simp add: am_rel_def)
  then obtain sdu where sdu: "win_sdus (ta_window tx) (ra_next rx) = Some sdu" "segs_of sdu (ai_segments info)"
      "covered (ai_segments info) \<noteq> {..<length sdu}"
    using nf by (auto simp: rx_info_rel_def)
  have len: "length sdu \<le> am_max_sdu"
    using rel sdu(1) tx_infosD[of "ta_sn_under_segmentation tx" "ta_window tx" "ra_next rx"]
    by (auto simp: am_rel_def ta_inv_def win_sdus_def tx_info_ok_def)
  have segs: "seg_hi seg \<le> length sdu \<and> (seg_si seg = last_segment \<longrightarrow> seg_hi seg = length sdu)" if "seg \<in> set (ai_segments info)" for seg
    using sdu(2) that by (auto simp: segs_of_def seg_of_def)
  then have "covered (ai_segments info) \<subseteq> {..<length sdu}" by (fastforce simp: covered_def seg_bytes_def)
  then obtain off where off: "off < length sdu" "off \<notin> covered (ai_segments info)" using sdu(3) by auto
  then have "\<not> am_has (ra_window rx) (ra_next rx) off"
    using Some nf segs by (fastforce simp: am_has_def)
  then show ?thesis using off(1) len by (intro exI[of _ off]) (simp add: am_max_sdu_def)
qed

text \<open>\<open>ACK_SN\<close> does not exceed \<open>RX_Next_Highest\<close>, and the first sequence number that is not acknowledged is \<open>RX_Next\<close>.\<close>

lemma report_stop:
  assumes rel: "am_rel tx rx" and cur: "ra_report_current rx status" and cut: "report_cut status status'"
  shows "am_off (ra_size rx) (ra_next rx) (st_ack_sn status') \<le> am_off (ra_size rx) (ra_next rx) (ra_next_highest rx)"
    "status_stop status' = ra_next rx" "set (st_nacks status') \<subseteq> set (st_nacks status)"
proof -
  let ?s = "ra_size rx" and ?rn = "ra_next rx" and ?stop = "ra_stop_sn rx"
  obtain dropped where d: "st_nacks status = st_nacks status' @ dropped"
      "st_ack_sn status' = (if dropped = [] then st_ack_sn status else nack_sn (hd dropped))"
    using cut by (auto simp: report_cut_def)
  have inv: "ra_inv rx" using rel by (simp add: am_rel_def)
  have state: "am_state {} ?s ?rn (ra_highest_status rx) (ra_next_highest rx) (ra_window rx)" using inv by (simp add: ra_inv_def)
  have ack: "st_ack_sn status = ?stop" and missing: "status_missing status = {(sn, off). unat sn < 2 ^ am_to_number ?s
          \<and> am_off ?s ?rn sn < am_off ?s ?rn ?stop \<and> off \<le> 65535 \<and> \<not> am_has (ra_window rx) sn off}"
      and order: "report_order ?s ?rn ?stop (ra_window rx) status"
    using cur by (simp_all add: ra_report_current_def ra_report_exact_def am_base_less)
  have stop: "am_off ?s ?rn ?stop \<le> am_off ?s ?rn (ra_next_highest rx)"
    using ra_stop_sn_off(2)[OF inv] state by (auto simp: am_state_def)
  have low: "am_off ?s ?rn (nack_sn n) < am_off ?s ?rn ?stop" if "n \<in> set (st_nacks status)" for n
    using order that by (simp add: report_order_def)
  have "dropped \<noteq> [] \<Longrightarrow> hd dropped \<in> set (st_nacks status)" using d(1) by simp
  then show "am_off ?s ?rn (st_ack_sn status') \<le> am_off ?s ?rn (ra_next_highest rx)"
    using d(2) ack stop low[of "hd dropped"] by (auto split: if_splits)
  have below: "\<exists>off \<le> 65535. \<not> am_has (ra_window rx) ?rn off" if "0 < am_off ?s ?rn ?stop"
    using rx_next_missing[OF rel] that stop by fastforce
  have first: "nack_sn (hd (st_nacks status)) = ?rn" if "st_nacks status \<noteq> []"
  proof -
    have "0 < am_off ?s ?rn ?stop" using low[of "hd (st_nacks status)"] that by simp
    then show ?thesis using below order that unfolding report_order_def by blast
  qed
  have "?stop = ?rn" if "st_nacks status = []"
  proof (rule ccontr)
    assume "?stop \<noteq> ?rn"
    then have pos: "0 < am_off ?s ?rn ?stop"
      using ra_stop_sn_off(1)[OF inv] state am_off_zero[of ?stop ?s ?rn] by (auto simp: am_state_def)
    have "status_missing status = {}" using that by (simp add: status_missing_def)
    then show False using below[OF pos] pos missing state by (auto simp: am_state_def)
  qed
  then show "status_stop status' = ?rn"
    using d first ack by (cases "st_nacks status'"; cases dropped) (auto simp: status_stop_def)
  show "set (st_nacks status') \<subseteq> set (st_nacks status)" using d(1) by auto
qed

text \<open>The same, as the transmitter sees it: the report is one of an honest peer.\<close>

lemma report_honest:
  assumes rel: "am_rel tx rx" and cur: "ra_report_current rx status" and cut: "report_cut status status'"
  defines "r \<equiv> am_off (ta_size tx) (ta_tx_next_ack tx) (ra_next rx)"
  shows "am_off (ta_size tx) (ta_tx_next_ack tx) (st_ack_sn status') = r + am_off (ta_size tx) (ra_next rx) (st_ack_sn status')"
    "am_off (ta_size tx) (ta_tx_next_ack tx) (st_ack_sn status') \<le> ta_nof tx"
    "status_honest tx status'" "status_acks tx status' = r"
proof -
  let ?s = "ta_size tx" and ?a = "ta_tx_next_ack tx" and ?rn = "ra_next rx" and ?ack = "st_ack_sn status'"
  have inv: "ta_inv tx" and size: "ra_size rx = ?s" and hi: "r + am_off ?s ?rn (ra_next_highest rx) \<le> ta_nof tx"
      and low: "r \<le> am_off ?s ?a (ta_tx_next tx)"
    using rel by (auto simp: am_rel_def r_def)
  note nof = ta_nof_bounds[OF inv] and stop = report_stop[OF rel cur cut]
  have le: "r + am_off ?s ?rn ?ack \<le> ta_nof tx" using stop(1) hi size by simp
  then show ack: "am_off ?s ?a ?ack = r + am_off ?s ?rn ?ack"
    unfolding r_def using nof(2) by (intro am_off_chain) simp
  then show "am_off ?s ?a ?ack \<le> ta_nof tx" using le by simp
  show "status_acks tx status' = r"
    using stop(2) low by (simp add: status_acks_def r_def)
  show "status_honest tx status'"
    unfolding status_honest_def
  proof
    assume e: "?ack = am_inc ?s (ta_tx_next tx)"
    have "am_off ?s ?a (ta_tx_next tx) + 1 < 2 ^ am_to_number ?s" using nof(1,5) am_W(2,5)[of ?s] by (auto split: if_splits)
    then have "am_off ?s ?a ?ack = am_off ?s ?a (ta_tx_next tx) + 1" using e by (simp add: am_off_inc)
    then have "ta_sn_under_segmentation tx \<noteq> INVALID_RLC_SN" "am_off ?s ?a ?ack \<noteq> r"
      using ack le nof(5) low by (auto split: if_splits)
    moreover have "?ack = ?rn" if "st_nacks status' = []" using stop(2) that by (simp add: status_stop_def)
    ultimately show "(st_nacks status' = []) = (ta_sn_under_segmentation tx = INVALID_RLC_SN)"
      by (auto simp: r_def)
  qed
qed

section \<open>What a report asks for\<close>

text \<open>A single NACK without offsets asks for all bytes of a sequence number that the report says to be missing;
  one with an explicit end belongs to the last sequence number of its range.\<close>

lemma sn_plus_last:
  "0 < unat (r :: u8) \<Longrightarrow> (x + ucast r - 1) mod am_mod s = sn_plus s x (unat r - 1)"
proof -
  assume r: "0 < unat r"
  then have "x + ucast r - 1 = x + of_nat (unat r - 1)" by (simp add: of_nat_diff)
  then show ?thesis by (simp only: am_mod_take_bit sn_plus_def)
qed

lemma item_whole:
  assumes item: "item \<in> set (expand_nack s ack n)" and no: "\<not> has_so item" and sn: "unat (nack_sn n) < 2 ^ am_to_number s"
    and off: "off \<le> 65535"
  shows "(nack_sn item, off) \<in> nack_missing s n"
proof (cases "has_nack_range n")
  case False
  then have "item = n" using item by (simp add: expand_nack_def)
  then have "nack_sn item = take_bit (am_to_number s) (nack_sn n + of_nat 0)" using take_bit_of_bound[OF sn] by simp
  then show ?thesis
    using False no off \<open>item = n\<close> unfolding nack_missing_def missing_def nack_count_def nack_lo_def nack_hi_def by force
next
  case True
  then obtain i where i: "i < unat (nack_range n)" "item = range_item s n (sn_plus s (nack_sn n) i)"
    using item by (auto simp: expand_nack_def dest!: set_takeWhileD)
  have lo: "nack_lo n \<le> off" if "i = 0"
    using no i(2) that sn_plus_0[OF sn] by (auto simp: range_item_def Let_def nack_lo_def split: if_splits)
  have hi: "off \<le> nack_hi n" if "Suc i = unat (nack_range n)"
  proof -
    have "(nack_sn n + ucast (nack_range n) - 1) mod am_mod s = sn_plus s (nack_sn n) i"
      using sn_plus_last[of "nack_range n" "nack_sn n" s] that by (metis diff_Suc_1 zero_less_Suc)
    then show ?thesis
      using no i(2) off by (auto simp: range_item_def Let_def nack_hi_def so_end_of_sdu_def split: if_splits)
  qed
  have "nack_sn item = sn_plus s (nack_sn n) i" using i(2) by (simp add: range_item_def Let_def)
  then show ?thesis
    using True i(1) lo hi off by (auto simp: nack_missing_def missing_def nack_count_def sn_plus_def intro!: exI[of _ i])
qed

lemma item_end:
  assumes item: "item \<in> set (expand_nack s ack n)" and e: "has_so item" "so_end item \<noteq> so_end_of_sdu"
    and sn: "unat (nack_sn n) < 2 ^ am_to_number s"
  shows "nack_sn item = sn_plus s (nack_sn n) (nack_count n - 1)" "nack_hi n = unat (so_end item)"
proof -
  have "nack_sn item = sn_plus s (nack_sn n) (nack_count n - 1) \<and> nack_hi n = unat (so_end item)"
  proof (cases "has_nack_range n")
    case False
    then show ?thesis
      using item e sn_plus_0[OF sn] by (auto simp: expand_nack_def nack_count_def nack_hi_def)
  next
    case True
    then obtain i where i: "i < unat (nack_range n)" "item = range_item s n (sn_plus s (nack_sn n) i)"
      using item by (auto simp: expand_nack_def dest!: set_takeWhileD)
    then show ?thesis
      using e True sn_plus_last[of "nack_range n" "nack_sn n" s]
      by (auto simp: range_item_def Let_def nack_hi_def nack_count_def split: if_splits)
  qed
  then show "nack_sn item = sn_plus s (nack_sn n) (nack_count n - 1)" "nack_hi n = unat (so_end item)" by blast+
qed

text \<open>A report that reaches the SDU under segmentation comes from a receiver that has a part of it.\<close>

lemma segmenting_received:
  assumes rel: "am_rel tx rx" and seg: "ta_sn_under_segmentation tx \<noteq> INVALID_RLC_SN"
    and top: "ta_nof tx \<le> am_off (ta_size tx) (ta_tx_next_ack tx) (ra_next rx) + am_off (ta_size tx) (ra_next rx) (ra_next_highest rx)"
  shows "\<exists>off \<le> 65535. am_has (ra_window rx) (ta_sn_under_segmentation tx) off"
proof -
  let ?s = "ta_size tx" and ?a = "ta_tx_next_ack tx" and ?rn = "ra_next rx" and ?seg = "ta_sn_under_segmentation tx"
  have inv: "ta_inv tx" and low: "am_off ?s ?a ?rn \<le> am_off ?s ?a (ta_tx_next tx)" and size: "ra_size rx = ?s"
      and hi: "am_off ?s ?a ?rn + am_off ?s ?rn (ra_next_highest rx) \<le> ta_nof tx"
    using rel by (auto simp: am_rel_def)
  note nof = ta_nof_bounds[OF inv]
  have segn: "?seg = ta_tx_next tx" using segmenting_in_window(2)[OF inv seg] .
  have off: "am_off ?s ?rn ?seg + 1 = am_off ?s ?rn (ra_next_highest rx)"
    using sn_off_rebase_ge[OF am_to_number_32(1) low] top hi nof(5) seg low segn by auto
  then have ne: "ra_next rx \<noteq> ra_next_highest rx" by auto
  have "am_state {} (ra_size rx) ?rn (ra_highest_status rx) (ra_next_highest rx) (ra_window rx)"
    using rel unfolding am_rel_def ra_inv_def by blast
  then obtain x info where x: "win_at (ra_window rx) x = Some info" "am_off ?s ?rn x + 1 = am_off ?s ?rn (ra_next_highest rx)"
      "unat x < 2 ^ am_to_number ?s" "info_ok info"
    using ne size unfolding am_state_def am_win_def by fastforce
  then have "x = ?seg" using off am_off_inject[of x ?s ?seg ?rn] nof(4) segn by simp
  then have info: "rx_info_rel tx ?seg info" "win_at (ra_window rx) ?seg = Some info" using rel x(1) by (auto simp: am_rel_def)
  then have nf: "\<not> ai_fully_received info" using rx_full_sent[OF inv info(1)] by blast
  then obtain sdu where sdu: "win_sdus (ta_window tx) ?seg = Some sdu" "segs_of sdu (ai_segments info)" "ai_segments info \<noteq> []"
    using info(1) by (auto simp: rx_info_rel_def)
  have len: "length sdu \<le> am_max_sdu"
    using inv sdu(1) tx_infosD[of ?seg "ta_window tx" ?seg] by (auto simp: ta_inv_def win_sdus_def tx_info_ok_def)
  let ?g = "hd (ai_segments info)"
  have "seg_of sdu ?g" "?g \<in> set (ai_segments info)" using sdu by (auto simp: segs_of_def)
  then have g: "seg_lo ?g < seg_hi ?g" "seg_hi ?g \<le> length sdu" "?g \<in> set (ai_segments info)"
    by (auto simp: seg_of_def seg_hi_def seg_lo_def)
  then have "seg_lo ?g \<in> covered (ai_segments info)" unfolding covered_def seg_bytes_def by force
  moreover have "seg_lo ?g \<le> 65535" using g len by (simp add: am_max_sdu_def)
  ultimately show ?thesis using info(2) by (intro exI[of _ "seg_lo ?g"]) (simp add: am_has_def)
qed

text \<open>Nothing is queued for retransmission that was not sent.\<close>

lemma nack_retx_low:
  assumes rel: "am_rel tx rx" and cur: "ra_report_current rx status" and cut: "report_cut status status'"
    and acc: "status_accepted tx status'"
    and item: "item \<in> set (status_items (ta_size tx) status')" and r: "nack_retx tx item = Some r"
  shows "sent_below tx (rt_sn r) (unat (rt_so r) + unat (rt_length r))"
  unfolding sent_below_def
proof (intro impI allI)
  fix info
  assume seg: "rt_sn r = ta_sn_under_segmentation tx" and info: "win_at (ta_window tx) (rt_sn r) = Some info"
  let ?s = "ta_size tx" and ?a = "ta_tx_next_ack tx" and ?rn = "ra_next rx" and ?n = "length (ti_sdu info)"
  have inv: "ta_inv tx" and size: "ra_size rx = ?s" and low: "am_off ?s ?a ?rn \<le> am_off ?s ?a (ta_tx_next tx)"
    using rel by (auto simp: am_rel_def)
  note nof = ta_nof_bounds[OF inv] and stop = report_stop[OF rel cur cut] and honest = report_honest[OF rel cur cut]
  have sn: "rt_sn r = nack_sn item" using nack_retx_Some[OF inv r] by blast
  have ok: "tx_info_ok True info" using inv info seg tx_infosD[of "ta_sn_under_segmentation tx" "ta_window tx" "rt_sn r" info]
    by (simp add: ta_inv_def)
  then have len: "0 < ?n" "?n \<le> am_max_sdu" and nxt: "0 < unat (ti_next_so info)" "unat (ti_next_so info) < ?n"
    by (auto simp: tx_info_ok_def)
  obtain b where b: "b = clip_last ?n (nack_last tx info item)" "\<not> nack_unsent tx info item"
      "unat (rt_so r) + unat (rt_length r) = unat b + 1"
  proof -
    obtain a b where ab: "fst (nack_bounds True tx info item) = Some (a, b)" "rt_so r = ucast a" "rt_length r = ucast b - ucast a + 1"
      using r info sn by (auto simp: nack_retx_def bind_eq_Some_conv' split: if_splits)
    have ab': "unat a \<le> unat b" "unat b < ?n" "b = clip_last ?n (nack_last tx info item)" "\<not> nack_unsent tx info item"
      using ab(1) clip_bounds(1,2)[OF len] unfolding fst_nack_bounds[OF len] by (auto split: if_splits)
    then have "unat (ucast b - ucast a :: u32) = unat b - unat a"
      by (subst unat_sub) (simp_all add: word_le_nat_alt)
    then have "unat (ucast b - ucast a + 1 :: u32) = unat b - unat a + 1"
      using ab' len by (subst unat_plus_u32) (simp_all add: am_max_sdu_def)
    then show thesis using that[OF ab'(3,4)] ab ab'(1) by simp
  qed
  obtain n where n: "n \<in> set (st_nacks status')" "item \<in> set (expand_nack ?s (st_ack_sn status') n)"
    using item by (auto simp: status_items_def)
  have n': "n \<in> set (st_nacks status)" using stop(3) n(1) by blast
  have n_sn: "unat (nack_sn n) < 2 ^ am_to_number ?s"
    using cur n' size by (simp add: ra_report_current_def report_order_def)
  have win: "tx_win ?s ?a (ta_tx_next tx) (ta_sn_under_segmentation tx) (ta_window tx)" using inv by (simp add: ta_inv_def)
  have seg_sn: "ta_sn_under_segmentation tx = ta_tx_next tx" "ta_sn_under_segmentation tx \<noteq> INVALID_RLC_SN"
    using win tx_win_invalid[OF win] info seg by (auto simp: tx_win_def)
  show "unat (rt_so r) + unat (rt_length r) \<le> unat (ti_next_so info)"
  proof (cases "has_so item")
    case False
    have "am_off ?s ?a (ta_tx_next tx) < am_off ?s ?a (st_ack_sn status')"
      using items_low(1)[OF inv acc n(1) n_sn n(2)] sn seg seg_sn by simp
    then have "ta_nof tx \<le> am_off ?s ?a ?rn + am_off ?s ?rn (ra_next_highest rx)"
      using honest(1) stop(1) size nof(5) by (auto split: if_splits)
    then obtain off where off: "off \<le> 65535" "am_has (ra_window rx) (ta_sn_under_segmentation tx) off"
      using segmenting_received[OF rel seg_sn(2)] by blast
    have "(nack_sn item, off) \<in> status_missing status"
      using item_whole[OF n(2) False n_sn off(1)] n' cur size
      by (auto simp: status_missing_def ra_report_current_def ra_report_exact_def)
    then show ?thesis using off(2) sn seg cur by (auto simp: ra_report_current_def ra_report_exact_def)
  next
    case True
    show ?thesis
    proof (cases "so_end item = so_end_of_sdu")
      case True
      have "unat (ucast (ti_next_so info - 1) :: u16) = unat (ti_next_so info) - 1"
        using nxt len by (simp add: unat_ucast_u16 unat_minus_one unat_gt_0 am_max_sdu_def)
      then show ?thesis
        using b True \<open>has_so item\<close> sn seg nxt by (simp add: nack_last_def clip_last_def)
    next
      case False
      note e = item_end[OF n(2) \<open>has_so item\<close> False n_sn]
      have "nack_hi n \<noteq> 65535" using e(2) False by (auto simp: so_end_of_sdu_def word_unat_eq_iff)
      moreover have "nack_tight ?s (ra_window rx) n" using cur n' size by (simp add: ra_report_current_def report_tight_def)
      ultimately obtain j where j: "win_at (ra_window rx) (rt_sn r) = Some j" "nack_hi n + 1 \<in> covered (ai_segments j)"
        using e(1) sn by (auto simp: nack_tight_def)
      have jrel: "rx_info_rel tx (rt_sn r) j" using rel j(1) by (simp add: am_rel_def)
      then have "\<not> ai_fully_received j" using rx_full_sent[OF inv jrel] seg by blast
      then have "sent_below tx (rt_sn r) (Suc (nack_hi n + 1))"
        using jrel j(2) by (auto simp: rx_info_rel_def rx_got_def)
      then have "nack_hi n + 2 \<le> unat (ti_next_so info)" using seg info by (simp add: sent_below_def)
      moreover have "unat b \<le> nack_hi n"
        using b(1) e(2) True False len by (auto simp: nack_last_def clip_last_def unat_of_nat_u16 am_max_sdu_def)
      ultimately show ?thesis using b(3) by simp
    qed
  qed
qed

section \<open>The report arrives\<close>

lemma nack_retx_acked:
  assumes inv: "ta_inv tx" and acked: "ta_acked j tx tx'"
  shows "nack_retx tx' nack = Some r \<Longrightarrow> nack_retx tx nack = Some r" "sent_below tx sn k \<Longrightarrow> sent_below tx' sn k"
proof -
  have same: "ta_cfg tx' = ta_cfg tx" "ta_tx_next tx' = ta_tx_next tx" "ta_sn_under_segmentation tx' = ta_sn_under_segmentation tx"
    using acked by (simp_all add: ta_acked_def)
  have old: "\<exists>i. win_at (ta_window tx) sn = Some i \<and> ti_next_so info = ti_next_so i \<and> ti_sdu info = ti_sdu i"
    if "win_at (ta_window tx') sn = Some info" for sn info
  proof -
    have "win_sdus (ta_window tx') sn = Some (ti_sdu info)" using that by (simp add: win_sdus_def)
    then have "win_sdus (ta_window tx) sn = Some (ti_sdu info)" using acked by (simp add: ta_acked_def split: if_splits)
    moreover have "\<exists>i. win_at (ta_window tx) sn = Some i \<and> ti_next_so info = ti_next_so i"
      using acked that by (simp add: ta_acked_def)
    ultimately show ?thesis by (auto simp: win_sdus_def)
  qed
  show "sent_below tx sn k \<Longrightarrow> sent_below tx' sn k" using old same(3) by (fastforce simp: sent_below_def)
  assume r: "nack_retx tx' nack = Some r"
  then obtain info a b where info: "win_at (ta_window tx') (nack_sn nack) = Some info"
      and ab: "fst (nack_bounds True tx' info nack) = Some (a, b)"
      and r': "r = \<lparr>rt_sn = nack_sn nack, rt_so = ucast a, rt_length = ucast b - ucast a + 1\<rparr>"
    by (auto simp: nack_retx_def bind_eq_Some_conv' split: if_splits)
  obtain i where i: "win_at (ta_window tx) (nack_sn nack) = Some i" "ti_next_so info = ti_next_so i" "ti_sdu info = ti_sdu i"
    using old[OF info] by blast
  have "nack_bounds True tx i nack = nack_bounds True tx' info nack" unfolding nack_bounds_def i(2,3) same ..
  moreover have "am_off (ta_size tx) (ta_tx_next_ack tx) (nack_sn nack) \<le> am_off (ta_size tx) (ta_tx_next_ack tx) (ta_tx_next tx)"
    using inv i(1) by (intro tx_win_low) (auto simp: ta_inv_def)
  ultimately show "nack_retx tx nack = Some r" using i(1) ab r' by (simp add: nack_retx_def)
qed

text \<open>Acknowledging the SDUs before \<open>RX_Next\<close> keeps the relation.\<close>

lemma sn_plus_plus: "sn_plus s (sn_plus s a r) i = sn_plus s a (i + r)"
  using take_bit_add_left[OF am_to_number_32(1), of s "a + of_nat r" "of_nat i"] by (simp add: sn_plus_def algebra_simps)

lemma am_rel_acked:
  assumes rel: "am_rel tx rx" and acked: "ta_acked r tx tx1" and r: "r = am_off (ta_size tx) (ta_tx_next_ack tx) (ra_next rx)"
    and kept: "ta_inv tx'" "ta_kept tx1 tx'" "ta_low tx'"
  shows "am_rel tx' rx" "am_done tx' rx = {i. i + r \<in> am_done tx rx}" "{..<r} \<subseteq> am_done tx rx" "r \<le> length (ta_stream tx)"
    "ta_stream tx' = drop r (ta_stream tx)" "ta_cfg tx' = ta_cfg tx" "ta_tx_next_ack tx' = ra_next rx"
proof -
  let ?s = "ta_size tx" and ?a = "ta_tx_next_ack tx" and ?rn = "ra_next rx"
  have inv: "ta_inv tx" and size: "ra_size rx = ?s" and hi: "r + am_off ?s ?rn (ra_next_highest rx) \<le> ta_nof tx"
      and low: "r \<le> am_off ?s ?a (ta_tx_next tx)" and rinv: "ra_inv rx"
    using rel r by (auto simp: am_rel_def)
  note nof = ta_nof_bounds[OF inv]
  have rn: "unat ?rn < 2 ^ am_to_number ?s" using rinv size by (simp add: ra_inv_def am_state_def)
  have ack1: "ta_tx_next_ack tx1 = ?rn" using acked sn_plus_am_off[OF rn, of ?a] r by (simp add: ta_acked_def)
  have k: "ta_cfg tx' = ta_cfg tx" "ta_tx_next_ack tx' = ?rn" "ta_tx_next tx' = ta_tx_next tx"
      "ta_sn_under_segmentation tx' = ta_sn_under_segmentation tx" "win_sdus (ta_window tx') = win_sdus (ta_window tx1)"
      "ta_stream tx' = drop r (ta_stream tx)"
    using kept(2) acked ack1 ta_kept_stream[OF kept(2)] win_same_sdus by (auto simp: ta_kept_def ta_acked_def)
  then show "ta_cfg tx' = ta_cfg tx" "ta_tx_next_ack tx' = ra_next rx" "ta_stream tx' = drop r (ta_stream tx)" by blast+
  have off: "am_off ?s ?rn x = am_off ?s ?a x - r" if "r \<le> am_off ?s ?a x" for x
    using sn_off_rebase_ge[OF am_to_number_32(1)] that r by blast
  have nof': "ta_nof tx' = ta_nof tx - r"
    using off[OF low] low by (simp add: ta_nof_def tx_end_def k)
  have r_nof: "r \<le> ta_nof tx" using hi by simp
  then show "{..<r} \<subseteq> am_done tx rx" using r by (auto simp: am_done_def)
  show "r \<le> length (ta_stream tx)" using r_nof by (simp add: ta_stream_def window_stream_def)
  have info: "rx_info_rel tx' sn i" if at: "win_at (ra_window rx) sn = Some i" for sn i
  proof -
    have "am_off ?s ?rn sn < am_off ?s ?rn (ra_next_highest rx)"
      using rinv size at by (simp add: ra_inv_def am_state_def am_win_def)
    then have ge: "\<not> am_off ?s ?a sn < r"
      using am_off_chain[of ?s ?a ?rn sn] hi nof(2) r by simp
    obtain sdu where sdu: "win_sdus (ta_window tx) sn = Some sdu" "\<forall>k \<in> rx_got sdu i. sent_below tx sn (Suc k)"
        "\<not> ai_fully_received i \<longrightarrow> segs_of sdu (ai_segments i) \<and> ai_segments i \<noteq> [] \<and> covered (ai_segments i) \<noteq> {..<length sdu}"
      using rel at unfolding am_rel_def rx_info_rel_def by blast
    have "win_sdus (ta_window tx') sn = Some sdu" using sdu(1) ge acked by (simp add: k(5) ta_acked_def)
    moreover have "\<forall>k \<in> rx_got sdu i. sent_below tx' sn (Suc k)"
      using sdu(2) nack_retx_acked(2)[OF inv acked] sent_below_kept[OF kept(2)] by blast
    ultimately show ?thesis using sdu(3) unfolding rx_info_rel_def by blast
  qed
  have "am_off ?s ?rn ?rn = 0" using am_off_zero[OF rn rn] by simp
  then show "am_rel tx' rx"
    using rel kept(1,3) info hi r_nof unfolding am_rel_def k(1,2,3) nof' by (auto simp: r)
  have "i \<in> am_done tx' rx \<longleftrightarrow> i + r \<in> am_done tx rx" for i
    using sn_plus_plus[of ?s ?a r i] sn_plus_am_off[OF rn, of ?a] \<open>am_off ?s ?rn ?rn = 0\<close> r
    by (auto simp: am_done_def k(1,2) nof')
  then show "am_done tx' rx = {i. i + r \<in> am_done tx rx}" by blast
qed

lemma status_transfer:
  assumes rel: "am_rel tx rx" and cur: "ra_report_current rx status" and cut: "report_cut status status'"
    and dec: "unpack (status_pdu_new (ta_size tx)) buf = Some status'"
  shows "\<exists>tx' ev j. handle_status_pdu defer_ok hol_older rxo status' tx = Some (tx', ev) \<and> am_rel tx' rx \<and> ta_cfg tx' = ta_cfg tx
     \<and> j \<le> length (ta_stream tx) \<and> {..<j} \<subseteq> am_done tx rx \<and> am_done tx' rx = {i. i + j \<in> am_done tx rx}
     \<and> ta_stream tx' = drop j (ta_stream tx) \<and> (status_accepted tx status' \<longrightarrow> ta_tx_next_ack tx' = ra_next rx)"
proof (cases "status_accepted tx status'")
  case False
  then obtain ev where "handle_status_pdu defer_ok hol_older rxo status' tx = Some (tx, ev)"
    using handle_status_rejected by blast
  then show ?thesis using rel False by (intro exI[of _ tx] exI[of _ ev] exI[of _ 0]) simp
next
  case True
  let ?r = "am_off (ta_size tx) (ta_tx_next_ack tx) (ra_next rx)"
  have inv: "ta_inv tx" using rel by (simp add: am_rel_def)
  note honest = report_honest[OF rel cur cut]
  have sane: "status_sane tx status'" by (rule status_saneI[OF dec honest(3)])
  obtain tx1 tx' ev where h: "handle_status_pdu defer_ok hol_older rxo status' tx = Some (tx', ev)" "ta_acked ?r tx tx1"
      "ta_inv tx'" "ta_kept tx1 tx'"
      "rq_abs (ta_retx_queue tx') = take (am_W (ta_size tx)) (List.map_filter (nack_retx tx') (status_items (ta_size tx) status'))"
    using handle_status_accepted[OF inv True sane, of defer_ok hol_older rxo] honest(4) by auto
  have "ta_low tx'"
    unfolding ta_low_def
  proof
    fix q assume "q \<in> set (rq_abs (ta_retx_queue tx'))"
    then obtain item where item: "item \<in> set (status_items (ta_size tx) status')" "nack_retx tx' item = Some q"
      using h(5) by (auto dest!: in_set_takeD simp: List.map_filter_def)
    then have "nack_retx tx item = Some q"
      using nack_retx_kept[OF h(4)] nack_retx_acked(1)[OF inv h(2)] by simp
    from nack_retx_low[OF rel cur cut True item(1) this]
    show "sent_below tx' (rt_sn q) (unat (rt_so q) + unat (rt_length q))"
      using nack_retx_acked(2)[OF inv h(2)] sent_below_kept[OF h(4)] by simp
  qed
  from am_rel_acked[OF rel h(2) refl h(3,4) this] show ?thesis using h(1) by blast
qed

end
