(* ===== verification/Rlc_Am_Channel.thy ===== *)
theory Rlc_Am_Channel
  imports Rlc_Am_Link_Status
begin

text \<open>
  The acknowledged-mode entity (\<open>lib/rlc/rlc_am_entity.h\<close>, \<open>lib/rlc/rlc_base_entity.h\<close> and
  \<open>lib/rlc/rlc_am_interconnect.h\<close>), which connects a transmitter and a receiver, and two such entities facing each
  other over a channel that may lose every PDU.
\<close>

section \<open>The entity\<close>

record rlc_am_entity =
  ame_tx :: rlc_tx_am
  ame_rx :: rlc_rx_am

definition am_entity_new :: "rlc_tx_am_config \<Rightarrow> rlc_rx_am_config \<Rightarrow> bool \<Rightarrow> rlc_am_entity option" where
  "am_entity_new tcfg rcfg is_srb = do {
     tx \<leftarrow> tx_am_new tcfg is_srb;
     rx \<leftarrow> rx_am_new rcfg;
     Some \<lparr>ame_tx = tx, ame_rx = rx\<rparr>
   }"

definition am_entity_stop :: "bool \<Rightarrow> rlc_am_entity \<Rightarrow> rlc_am_entity" where
  "am_entity_stop exec_ok e = \<lparr>ame_tx = ta_stop exec_ok (ame_tx e), ame_rx = ra_stop (ame_rx e)\<rparr>"

text \<open>
  The transmitter is the receiver's status handler and status notifier.  The SDUs for the upper layer are
  collected.
\<close>

fun am_dispatch :: "bool \<Rightarrow> bool \<Rightarrow> bool \<Rightarrow> rlc_rx_am_event list \<Rightarrow> rlc_am_entity
     \<Rightarrow> (rlc_am_entity \<times> bytes list \<times> rlc_tx_event list) option" where
  "am_dispatch exec_ok defer_ok hol_older [] e = Some (e, [], [])"
| "am_dispatch exec_ok defer_ok hol_older (On_new_sdu sdu # evs) e = do {
     (e, sdus, out) \<leftarrow> am_dispatch exec_ok defer_ok hol_older evs e;
     Some (e, sdu # sdus, out)
   }"
| "am_dispatch exec_ok defer_ok hol_older (On_status_pdu status # evs) e = do {
     (tx, ev) \<leftarrow> on_status_pdu exec_ok defer_ok hol_older (ame_rx e) status (ame_tx e);
     (e, sdus, out) \<leftarrow> am_dispatch exec_ok defer_ok hol_older evs (e\<lparr>ame_tx := tx\<rparr>);
     Some (e, sdus, ev @ out)
   }"
| "am_dispatch exec_ok defer_ok hol_older (On_status_report_changed # evs) e = do {
     let (tx, ev) = ta_on_status_report_changed defer_ok (ame_tx e);
     (e, sdus, out) \<leftarrow> am_dispatch exec_ok defer_ok hol_older evs (e\<lparr>ame_tx := tx\<rparr>);
     Some (e, sdus, ev @ out)
   }"

definition am_handle_pdu :: "bool \<Rightarrow> bool \<Rightarrow> bool \<Rightarrow> bool \<Rightarrow> bytes \<Rightarrow> rlc_am_entity
     \<Rightarrow> (rlc_am_entity \<times> bytes list \<times> rlc_tx_event list) option" where
  "am_handle_pdu pool_ok exec_ok defer_ok hol_older pdu e = do {
     (rx, evs) \<leftarrow> ra_handle_pdu pool_ok pdu (ame_rx e);
     am_dispatch exec_ok defer_ok hol_older evs (e\<lparr>ame_rx := rx\<rparr>)
   }"

definition am_pull_pdu :: "bool \<Rightarrow> nat \<Rightarrow> rlc_am_entity \<Rightarrow> (bytes \<times> rlc_am_entity \<times> rlc_tx_event list) option" where
  "am_pull_pdu defer_ok grant_len e = do {
     (pdu, rx, tx, ev) \<leftarrow> ta_pull_pdu defer_ok grant_len (ame_rx e) (ame_tx e);
     Some (pdu, \<lparr>ame_tx = tx, ame_rx = rx\<rparr>, ev)
   }"

definition am_handle_sdu :: "bool \<Rightarrow> bytes \<Rightarrow> bool \<Rightarrow> rlc_am_entity \<Rightarrow> rlc_am_entity \<times> rlc_tx_event list" where
  "am_handle_sdu defer_ok buf is_retx e =
     (let (tx, ev) = ta_handle_sdu defer_ok buf is_retx (ame_tx e) in (e\<lparr>ame_tx := tx\<rparr>, ev))"

text \<open>The three timers; each handler runs after its timer has stopped.\<close>

definition am_poll_expired :: "bool \<Rightarrow> rlc_am_entity \<Rightarrow> (rlc_am_entity \<times> rlc_tx_event list) option" where
  "am_poll_expired hol_older e = do {
     (tx, ev) \<leftarrow> on_expired_poll_retransmit_timer hol_older (ame_rx e) ((ame_tx e)\<lparr>ta_poll_timer := False\<rparr>);
     Some (e\<lparr>ame_tx := tx\<rparr>, ev)
   }"

definition am_reassembly_expired :: "bool \<Rightarrow> bool \<Rightarrow> bool \<Rightarrow> rlc_am_entity
     \<Rightarrow> (rlc_am_entity \<times> bytes list \<times> rlc_tx_event list) option" where
  "am_reassembly_expired exec_ok defer_ok hol_older e = do {
     (rx, evs) \<leftarrow> ra_on_expired_reassembly_timer ((ame_rx e)\<lparr>ra_timer_running := False\<rparr>);
     am_dispatch exec_ok defer_ok hol_older evs (e\<lparr>ame_rx := rx\<rparr>)
   }"

definition am_prohibit_expired :: "bool \<Rightarrow> bool \<Rightarrow> bool \<Rightarrow> rlc_am_entity
     \<Rightarrow> (rlc_am_entity \<times> bytes list \<times> rlc_tx_event list) option" where
  "am_prohibit_expired exec_ok defer_ok hol_older e =
     (case ra_on_expired_status_prohibit_timer (ame_rx e) of (rx, evs) \<Rightarrow>
        am_dispatch exec_ok defer_ok hol_older evs (e\<lparr>ame_rx := rx\<rparr>))"

definition am_update_mac :: "bool \<Rightarrow> bool \<Rightarrow> rlc_am_entity \<Rightarrow> (rlc_am_entity \<times> rlc_tx_event list) option" where
  "am_update_mac force_notify hol_older e = do {
     (tx, ev) \<leftarrow> ta_update_mac_buffer_state force_notify hol_older (ame_rx e) (ame_tx e);
     Some (e\<lparr>ame_tx := tx\<rparr>, ev)
   }"

section \<open>Two entities\<close>

text \<open>An entity with the history of the SDUs that its queue accepted and that it delivered.\<close>

record am_end =
  ae_entity :: rlc_am_entity
  ae_accepted :: "bytes list"
  ae_delivered :: "bytes list"

definition am_taken :: "bytes \<Rightarrow> bool \<Rightarrow> rlc_am_entity \<Rightarrow> bool" where
  "am_taken buf is_retx e = fst (sq_write (ta_sdu_queue (ame_tx e)) (ta_sdu_of buf is_retx (ame_tx e)))"

text \<open>The grant is a 32-bit number, and the encoded status report stays below that many bytes.\<close>

definition am_grant_ok :: "nat \<Rightarrow> rlc_am_entity \<Rightarrow> bool" where
  "am_grant_ok grant_len e \<longleftrightarrow> grant_len < 2 ^ 32
     \<and> (ra_do_status (ame_rx e) \<longrightarrow> status_bytes_fit (ra_status_exchange (ame_rx e)))"

text \<open>
  The link: SDUs arrive at either end, grants are given to either end, a PDU is lost or received, timers expire,
  the buffer state is updated, an end is stopped.  Memory for segments is available.
\<close>

inductive am_link :: "rlc_am_sn_size \<Rightarrow> am_end \<Rightarrow> am_end \<Rightarrow> bool" for s where
  al_init: "am_entity_new tcfg rcfg is_srb = Some e \<Longrightarrow> am_entity_new tcfg' rcfg' is_srb' = Some f
     \<Longrightarrow> tx_cfg_ok tcfg \<Longrightarrow> tx_cfg_ok tcfg' \<Longrightarrow> txam_sn_field_length tcfg = s \<Longrightarrow> rxam_sn_field_length rcfg = s
     \<Longrightarrow> txam_sn_field_length tcfg' = s \<Longrightarrow> rxam_sn_field_length rcfg' = s
     \<Longrightarrow> am_link s \<lparr>ae_entity = e, ae_accepted = [], ae_delivered = []\<rparr> \<lparr>ae_entity = f, ae_accepted = [], ae_delivered = []\<rparr>"
| al_swap: "am_link s p q \<Longrightarrow> am_link s q p"
| al_sdu: "am_link s p q \<Longrightarrow> buf \<noteq> [] \<Longrightarrow> length buf \<le> am_max_sdu
     \<Longrightarrow> am_link s (p\<lparr>ae_entity := fst (am_handle_sdu defer_ok buf is_retx (ae_entity p)),
           ae_accepted := ae_accepted p @ (if am_taken buf is_retx (ae_entity p) then [buf] else [])\<rparr>) q"
| al_lost: "am_link s p q \<Longrightarrow> am_grant_ok grant_len (ae_entity p)
     \<Longrightarrow> am_pull_pdu defer_ok grant_len (ae_entity p) = Some (pdu, e, ev) \<Longrightarrow> am_link s (p\<lparr>ae_entity := e\<rparr>) q"
| al_received: "am_link s p q \<Longrightarrow> am_grant_ok grant_len (ae_entity p)
     \<Longrightarrow> am_pull_pdu defer_ok grant_len (ae_entity p) = Some (pdu, e, ev)
     \<Longrightarrow> am_handle_pdu True exec_ok defer_ok' hol_older pdu (ae_entity q) = Some (f, sdus, ev')
     \<Longrightarrow> am_link s (p\<lparr>ae_entity := e\<rparr>) (q\<lparr>ae_entity := f, ae_delivered := ae_delivered q @ sdus\<rparr>)"
| al_poll: "am_link s p q \<Longrightarrow> ta_poll_timer (ame_tx (ae_entity p)) \<Longrightarrow> am_poll_expired hol_older (ae_entity p) = Some (e, ev)
     \<Longrightarrow> am_link s (p\<lparr>ae_entity := e\<rparr>) q"
| al_reassembly: "am_link s p q \<Longrightarrow> ra_timer_running (ame_rx (ae_entity p))
     \<Longrightarrow> am_reassembly_expired exec_ok defer_ok hol_older (ae_entity p) = Some (e, sdus, ev)
     \<Longrightarrow> am_link s (p\<lparr>ae_entity := e, ae_delivered := ae_delivered p @ sdus\<rparr>) q"
| al_prohibit: "am_link s p q \<Longrightarrow> am_prohibit_expired exec_ok defer_ok hol_older (ae_entity p) = Some (e, sdus, ev)
     \<Longrightarrow> am_link s (p\<lparr>ae_entity := e, ae_delivered := ae_delivered p @ sdus\<rparr>) q"
| al_update: "am_link s p q \<Longrightarrow> am_update_mac force_notify hol_older (ae_entity p) = Some (e, ev)
     \<Longrightarrow> am_link s (p\<lparr>ae_entity := e\<rparr>) q"
| al_stop: "am_link s p q \<Longrightarrow> am_link s (p\<lparr>ae_entity := am_entity_stop exec_ok (ae_entity p)\<rparr>) q"

section \<open>Invariant\<close>

text \<open>
  One direction: the transmitter holds the accepted SDUs from some position on, and the delivered SDUs are,
  in some order, those before that position and those of the window that are done, each once.
\<close>

definition am_flow :: "rlc_tx_am \<Rightarrow> rlc_rx_am \<Rightarrow> bytes list \<Rightarrow> bytes list \<Rightarrow> bool" where
  "am_flow tx rx accepted delivered \<longleftrightarrow> am_rel tx rx \<and> (\<exists>k idx. distinct idx \<and> k \<le> length accepted
     \<and> ta_stream tx = drop k accepted \<and> delivered = map ((!) accepted) idx \<and> set idx = {..<k} \<union> (+) k ` am_done tx rx)"

definition am_link_inv :: "rlc_am_sn_size \<Rightarrow> am_end \<Rightarrow> am_end \<Rightarrow> bool" where
  "am_link_inv s p q \<longleftrightarrow>
     am_flow (ame_tx (ae_entity p)) (ame_rx (ae_entity q)) (ae_accepted p) (ae_delivered q)
     \<and> am_flow (ame_tx (ae_entity q)) (ame_rx (ae_entity p)) (ae_accepted q) (ae_delivered p)
     \<and> ta_size (ame_tx (ae_entity p)) = s \<and> ta_size (ame_tx (ae_entity q)) = s"

text \<open>Steps of one side that change neither the list of SDUs nor what is done.\<close>

lemma am_flow_same:
  "am_flow tx rx acc dlv \<Longrightarrow> am_rel tx' rx' \<Longrightarrow> am_done tx' rx' = am_done tx rx \<Longrightarrow> ta_stream tx' = ta_stream tx
     \<Longrightarrow> am_flow tx' rx' acc dlv"
  by (simp add: am_flow_def)

lemma am_flow_kept: "am_flow tx rx acc dlv \<Longrightarrow> ta_inv tx' \<Longrightarrow> ta_kept tx tx' \<Longrightarrow> ta_low tx' \<Longrightarrow> am_flow tx' rx acc dlv"
  using am_rel_kept[of tx rx tx'] ta_kept_stream[of tx tx'] am_flow_same by (auto simp: am_flow_def)

lemma am_flow_rx: "am_flow tx rx acc dlv \<Longrightarrow> ra_inv rx' \<Longrightarrow> ra_current rx' \<Longrightarrow> ra_same rx rx' \<Longrightarrow> am_flow tx rx' acc dlv"
  using am_rel_same[of tx rx rx'] by (auto simp: am_flow_def)

text \<open>An SDU is accepted.\<close>

lemma am_flow_accepted:
  assumes flow: "am_flow tx rx acc dlv" and rel: "am_rel tx' rx" "am_done tx' rx = am_done tx rx" and st: "ta_stream tx' = ta_stream tx @ new"
  shows "am_flow tx' rx (acc @ new) dlv"
proof -
  obtain k idx where i: "distinct idx" "k \<le> length acc" "ta_stream tx = drop k acc" "dlv = map ((!) acc) idx"
      "set idx = {..<k} \<union> (+) k ` am_done tx rx"
    using flow by (auto simp: am_flow_def)
  have "i < length acc" if "i \<in> set idx" for i
  proof -
    have "ta_nof tx \<le> length (ta_stream tx)" by (simp add: ta_stream_def window_stream_def)
    then show ?thesis using that i(2,3,5) by (auto simp: am_done_def)
  qed
  then have "dlv = map ((!) (acc @ new)) idx" using i(4) by (simp add: nth_append)
  then show ?thesis using rel i st by (auto simp: am_flow_def intro!: exI[of _ k] exI[of _ idx])
qed

text \<open>An SDU is delivered.\<close>

lemma am_flow_delivered:
  assumes flow: "am_flow tx rx acc dlv" and rel: "am_rel tx rx'"
    and i: "i < ta_nof tx" "i \<notin> am_done tx rx" "am_done tx rx' = insert i (am_done tx rx)"
  shows "am_flow tx rx' acc (dlv @ [ta_stream tx ! i])"
proof -
  obtain k idx where k: "distinct idx" "k \<le> length acc" "ta_stream tx = drop k acc" "dlv = map ((!) acc) idx"
      "set idx = {..<k} \<union> (+) k ` am_done tx rx"
    using flow by (auto simp: am_flow_def)
  have "ta_nof tx \<le> length (ta_stream tx)" by (simp add: ta_stream_def window_stream_def)
  then have "ta_stream tx ! i = acc ! (k + i)" using i(1) k(2,3) by simp
  then show ?thesis
    using rel k i unfolding am_flow_def by (intro conjI exI[of _ k] exI[of _ "idx @ [k + i]"]) auto
qed

text \<open>SDUs are acknowledged.\<close>

lemma shift_image: "x \<in> (+) k ` A \<longleftrightarrow> k \<le> x \<and> x - k \<in> A" for k :: nat
  by (force simp: image_iff)

lemma am_flow_acked:
  assumes flow: "am_flow tx rx acc dlv" and rel: "am_rel tx' rx" and j: "j \<le> length (ta_stream tx)" "{..<j} \<subseteq> am_done tx rx"
    "am_done tx' rx = {i. i + j \<in> am_done tx rx}" "ta_stream tx' = drop j (ta_stream tx)"
  shows "am_flow tx' rx acc dlv"
proof -
  obtain k idx where k: "distinct idx" "k \<le> length acc" "ta_stream tx = drop k acc" "dlv = map ((!) acc) idx"
      "set idx = {..<k} \<union> (+) k ` am_done tx rx"
    using flow by (auto simp: am_flow_def)
  have "set idx = {..<k + j} \<union> (+) (k + j) ` am_done tx' rx"
  proof (rule set_eqI)
    fix x
    have "x \<in> set idx \<longleftrightarrow> x < k \<or> k \<le> x \<and> x - k \<in> am_done tx rx" by (simp add: k(5) shift_image)
    moreover have "x - (k + j) + j = x - k" if "k + j \<le> x" using that by simp
    then have "x \<in> {..<k + j} \<union> (+) (k + j) ` am_done tx' rx \<longleftrightarrow> x < k + j \<or> k + j \<le> x \<and> x - k \<in> am_done tx rx"
      by (auto simp: j(3) shift_image)
    moreover have "x - k \<in> am_done tx rx" if "k \<le> x" "x < k + j" using that j(2) by auto
    ultimately show "x \<in> set idx \<longleftrightarrow> x \<in> {..<k + j} \<union> (+) (k + j) ` am_done tx' rx" by auto
  qed
  then show ?thesis
    using rel k j(1,4) unfolding am_flow_def by (intro conjI exI[of _ "k + j"] exI[of _ idx]) (auto simp: add.commute)
qed

section \<open>The steps\<close>

lemma am_flow_quiet:
  "am_flow tx rx acc dlv \<Longrightarrow> ta_inv tx' \<Longrightarrow> ta_kept tx tx' \<Longrightarrow> ta_retx_queue tx' = ta_retx_queue tx \<Longrightarrow> am_flow tx' rx acc dlv"
  using am_flow_kept[of tx rx acc dlv tx'] ta_low_kept[of tx tx'] by (simp add: am_flow_def am_rel_def)

lemma dispatch_changed:
  "set evs \<subseteq> {On_status_report_changed} \<Longrightarrow> ta_inv (ame_tx e)
     \<Longrightarrow> \<exists>tx' out. am_dispatch exec_ok defer_ok hol_older evs e = Some (e\<lparr>ame_tx := tx'\<rparr>, [], out)
       \<and> ta_inv tx' \<and> ta_kept (ame_tx e) tx' \<and> ta_retx_queue tx' = ta_retx_queue (ame_tx e)"
proof (induction evs arbitrary: e)
  case Nil
  then show ?case by (intro exI[of _ "ame_tx e"]) simp
next
  case (Cons ev evs)
  let ?c = "ta_on_status_report_changed defer_ok (ame_tx e)"
  have c: "ta_inv (fst ?c)" "ta_kept (ame_tx e) (fst ?c)" "ta_retx_queue (fst ?c) = ta_retx_queue (ame_tx e)"
    using ta_changed_kept[of "ame_tx e" defer_ok] Cons.prems(2)
    by (simp_all add: ta_on_status_report_changed_def ta_handle_changed_buffer_state_def case_prod_beta Let_def)
  obtain tx' out where ih: "am_dispatch exec_ok defer_ok hol_older evs (e\<lparr>ame_tx := fst ?c\<rparr>) = Some (e\<lparr>ame_tx := tx'\<rparr>, [], out)"
      "ta_inv tx'" "ta_kept (fst ?c) tx'" "ta_retx_queue tx' = ta_retx_queue (fst ?c)"
    using Cons.IH[of "e\<lparr>ame_tx := fst ?c\<rparr>"] Cons.prems c(1) by auto
  then show ?case
    using Cons.prems(1) c ta_kept_trans[OF c(2) ih(3)] by (cases ev) (auto simp: case_prod_beta Let_def)
qed

lemma dispatch_sdus:
  assumes "set evs \<subseteq> {On_status_report_changed}" and "ta_inv (ame_tx e)"
  shows "\<exists>tx' out. am_dispatch exec_ok defer_ok hol_older (map On_new_sdu sdus @ evs) e = Some (e\<lparr>ame_tx := tx'\<rparr>, sdus, out)
       \<and> ta_inv tx' \<and> ta_kept (ame_tx e) tx' \<and> ta_retx_queue tx' = ta_retx_queue (ame_tx e)"
proof (induction sdus)
  case Nil
  then show ?case using dispatch_changed[OF assms, of exec_ok defer_ok hol_older] by simp
qed auto

lemma ra_current_provides:
  assumes "am_rel tx rx" and "ra_do_status rx \<longrightarrow> status_bytes_fit (ra_status_exchange rx)"
  shows "ra_provides rx"
  using assms ra_stop_sn_off(1)[of rx]
  by (auto simp: am_rel_def ra_provides_def ra_fresh_def ra_current_def ra_report_current_def ra_report_exact_def)

lemma ta_pull_rx:
  assumes "ta_pull_pdu defer_ok grant_len rx tx = Some (pdu, rx', tx', ev)" and "ra_current rx"
  shows "ra_same rx rx'" "ra_current rx'"
proof -
  have "rx' = rx \<or> rx' = snd (pull_status_pdu defer_ok grant_len rx)"
    using assms(1) by (auto simp: ta_pull_pdu_def Let_def case_prod_beta bind_eq_Some_conv split: if_splits)
  then show "ra_same rx rx'" "ra_current rx'" using ra_pull_status_same[of rx defer_ok grant_len] assms(2) by auto
qed

lemma control_decodes: "unpack (status_pdu_new s) pdu = Some status \<Longrightarrow> is_control_pdu pdu \<and> pdu \<noteq> []"
  by (cases s) (auto simp: unpack_def unpack_12bit_def unpack_18bit_def status_pdu_new_def split: list.splits if_splits)

text \<open>A grant: the PDU leaves one end, whether or not it arrives.\<close>

lemma pull_flow:
  assumes inv: "am_link_inv s p q" and grant: "am_grant_ok grant_len (ae_entity p)"
  obtains pdu rx' tx' ev where "am_pull_pdu defer_ok grant_len (ae_entity p) = Some (pdu, \<lparr>ame_tx = tx', ame_rx = rx'\<rparr>, ev)"
    "ra_inv rx'" "ra_current rx'" "ra_same (ame_rx (ae_entity p)) rx'" "ta_cfg tx' = ta_cfg (ame_tx (ae_entity p))"
    "am_flow tx' (ame_rx (ae_entity q)) (ae_accepted p) (ae_delivered q)"
    "pdu = [] \<or> ra_do_status (ame_rx (ae_entity p)) \<and> report_pdu (ra_size (ame_rx (ae_entity p))) (ra_status_exchange (ame_rx (ae_entity p))) pdu
     \<or> (\<exists>sn so n. tx_data_pdu (ta_size tx') (ta_window tx') sn so n pdu \<and> sent_below tx' sn (so + n))"
proof -
  let ?tx = "ame_tx (ae_entity p)" and ?rx = "ame_rx (ae_entity p)" and ?rxq = "ame_rx (ae_entity q)"
  have flow: "am_flow ?tx ?rxq (ae_accepted p) (ae_delivered q)" and rel: "am_rel ?tx ?rxq" "am_rel (ame_tx (ae_entity q)) ?rx"
    using inv by (auto simp: am_link_inv_def am_flow_def)
  have tinv: "ta_inv ?tx" and low: "ta_low ?tx" and cur: "ra_current ?rx" using rel by (auto simp: am_rel_def)
  have prov: "ra_provides ?rx" using ra_current_provides[OF rel(2)] grant by (simp add: am_grant_ok_def)
  obtain pdu rx' tx' ev where pull: "ta_pull_pdu defer_ok grant_len ?rx ?tx = Some (pdu, rx', tx', ev)" "ra_provides rx'" "ta_inv tx'"
      "pull_result ?rx ?tx grant_len pdu rx' tx'"
    using ta_pull_spec[OF tinv prov, of grant_len defer_ok] grant by (auto simp: am_grant_ok_def)
  note same = ta_pull_rx[OF pull(1) cur]
  have kind: "tx' = ?tx \<and> (pdu = [] \<or> ra_do_status ?rx \<and> report_pdu (ra_size ?rx) (ra_status_exchange ?rx) pdu) \<or> ta_sent ?tx grant_len pdu tx'"
    using pull(4) by (auto simp: pull_result_def ra_status_report_required_def split: if_splits)
  show thesis
  proof (rule that[of pdu tx' rx' ev])
    show "am_pull_pdu defer_ok grant_len (ae_entity p) = Some (pdu, \<lparr>ame_tx = tx', ame_rx = rx'\<rparr>, ev)"
      using pull(1) by (simp add: am_pull_pdu_def)
    show "ra_inv rx'" using pull(2) by (simp add: ra_provides_def)
    show "ra_current rx'" "ra_same ?rx rx'" using same by blast+
    show cfg: "ta_cfg tx' = ta_cfg ?tx" using kind by (auto simp: ta_sent_def)
    show "am_flow tx' ?rxq (ae_accepted p) (ae_delivered q)"
      using kind flow am_rel_advanced[OF rel(1), of tx'] am_flow_same[OF flow, of tx' ?rxq] by (auto simp: ta_sent_def)
    show "pdu = [] \<or> ra_do_status ?rx \<and> report_pdu (ra_size ?rx) (ra_status_exchange ?rx) pdu
       \<or> (\<exists>sn so n. tx_data_pdu (ta_size tx') (ta_window tx') sn so n pdu \<and> sent_below tx' sn (so + n))"
      using kind low cfg by (auto simp: ta_sent_def)
  qed
qed

text \<open>The PDU arrives at the other end.\<close>

lemma transfer_flow:
  assumes inv: "am_link_inv s p q" and grant: "am_grant_ok grant_len (ae_entity p)"
  shows "\<exists>pdu e ev. am_pull_pdu defer_ok grant_len (ae_entity p) = Some (pdu, e, ev) \<and> am_link_inv s (p\<lparr>ae_entity := e\<rparr>) q
     \<and> (ra_timer_set (ame_rx (ae_entity q)) \<or> am_handle_pdu True exec_ok defer_ok' hol_older pdu (ae_entity q) \<noteq> None \<longrightarrow>
       (\<exists>f sdus ev'. am_handle_pdu True exec_ok defer_ok' hol_older pdu (ae_entity q) = Some (f, sdus, ev')
         \<and> am_link_inv s (p\<lparr>ae_entity := e\<rparr>) (q\<lparr>ae_entity := f, ae_delivered := ae_delivered q @ sdus\<rparr>)))"
proof -
  let ?f = "ae_entity q" and ?rx = "ame_rx (ae_entity p)"
  obtain pdu rx' tx' ev where pull: "am_pull_pdu defer_ok grant_len (ae_entity p) = Some (pdu, \<lparr>ame_tx = tx', ame_rx = rx'\<rparr>, ev)"
    "ra_inv rx'" "ra_current rx'" "ra_same ?rx rx'" "ta_cfg tx' = ta_cfg (ame_tx (ae_entity p))"
    "am_flow tx' (ame_rx ?f) (ae_accepted p) (ae_delivered q)"
    "pdu = [] \<or> ra_do_status ?rx \<and> report_pdu (ra_size ?rx) (ra_status_exchange ?rx) pdu
     \<or> (\<exists>sn so n. tx_data_pdu (ta_size tx') (ta_window tx') sn so n pdu \<and> sent_below tx' sn (so + n))"
    by (rule pull_flow[OF inv grant, of defer_ok])
  have rflow: "am_flow (ame_tx ?f) ?rx (ae_accepted q) (ae_delivered p)" and size: "ta_size (ame_tx ?f) = s" "ta_size tx' = s"
    using inv pull(5) by (auto simp: am_link_inv_def)
  then have rflow': "am_flow (ame_tx ?f) rx' (ae_accepted q) (ae_delivered p)" using am_flow_rx pull(2-4) by blast
  have rel: "am_rel tx' (ame_rx ?f)" "am_rel (ame_tx ?f) ?rx" using pull(6) rflow by (auto simp: am_flow_def)
  then have sizes: "ra_size (ame_rx ?f) = s" "ra_size ?rx = s" using size by (auto simp: am_rel_def)
  let ?e = "\<lparr>ame_tx = tx', ame_rx = rx'\<rparr>"
  have lost: "am_link_inv s (p\<lparr>ae_entity := ?e\<rparr>) q" using pull(6) rflow' size by (simp add: am_link_inv_def)
  have tinv: "ta_inv (ame_tx ?f)" using rel(2) by (simp add: am_rel_def)
  consider (nothing) "pdu = []" | (status) "ra_do_status ?rx" "report_pdu s (ra_status_exchange ?rx) pdu"
    | (data) sn so n where "tx_data_pdu (ta_size tx') (ta_window tx') sn so n pdu" "sent_below tx' sn (so + n)"
    using pull(7) unfolding sizes by blast
  then have "\<exists>f sdus ev'. am_handle_pdu True exec_ok defer_ok' hol_older pdu ?f = Some (f, sdus, ev')
     \<and> am_link_inv s (p\<lparr>ae_entity := ?e\<rparr>) (q\<lparr>ae_entity := f, ae_delivered := ae_delivered q @ sdus\<rparr>)"
    if returns: "ra_timer_set (ame_rx ?f) \<or> am_handle_pdu True exec_ok defer_ok' hol_older pdu ?f \<noteq> None"
  proof cases
    case nothing
    then show ?thesis using lost by (simp add: am_handle_pdu_def ra_handle_pdu_def)
  next
    case status
    obtain st' where st': "unpack (status_pdu_new s) pdu = Some st'" "report_cut (ra_status_exchange ?rx) st'"
      using status(2) by (auto simp: report_pdu_def report_cut_def)
    have cur: "ra_report_current ?rx (ra_status_exchange ?rx)" using rel(2) status(1) by (simp add: am_rel_def ra_current_def)
    obtain tx2 ev2 j where t: "handle_status_pdu defer_ok' hol_older (ame_rx ?f) st' (ame_tx ?f) = Some (tx2, ev2)" "am_rel tx2 ?rx"
        "ta_cfg tx2 = ta_cfg (ame_tx ?f)" "j \<le> length (ta_stream (ame_tx ?f))" "{..<j} \<subseteq> am_done (ame_tx ?f) ?rx"
        "am_done tx2 ?rx = {i. i + j \<in> am_done (ame_tx ?f) ?rx}" "ta_stream tx2 = drop j (ta_stream (ame_tx ?f))"
      using status_transfer[OF rel(2) cur st'(2), of pdu defer_ok' hol_older "ame_rx ?f"] st'(1) size by auto
    have "am_flow tx2 rx' (ae_accepted q) (ae_delivered p)"
      using am_flow_rx[OF am_flow_acked[OF rflow t(2,4-7)] pull(2,3,4)] .
    moreover have "am_handle_pdu True exec_ok defer_ok' hol_older pdu ?f = Some (if exec_ok then ?f\<lparr>ame_tx := tx2\<rparr> else ?f, [], if exec_ok then ev2 else [])"
      using control_decodes[OF st'(1)] st'(1) sizes t(1)
      by (simp add: am_handle_pdu_def ra_handle_pdu_def ra_handle_control_pdu_def on_status_pdu_def)
    ultimately show ?thesis using lost pull(6) size t(3) by (cases exec_ok) (simp_all add: am_link_inv_def)
  next
    case data
    have handled: "ra_timer_set (ame_rx ?f) \<or> ra_handle_pdu True pdu (ame_rx ?f) \<noteq> None"
      using returns by (cases "ra_handle_pdu True pdu (ame_rx ?f)") (simp_all add: am_handle_pdu_def)
    obtain rx2 evs evs' where d: "ra_handle_pdu True pdu (ame_rx ?f) = Some (rx2, evs @ evs')" "set evs' \<subseteq> {On_status_report_changed}"
        "am_rel tx' rx2" "ra_cfg rx2 = ra_cfg (ame_rx ?f)" "evs = [] \<and> am_done tx' rx2 = am_done tx' (ame_rx ?f)
         \<or> (\<exists>i. i < ta_nof tx' \<and> i \<notin> am_done tx' (ame_rx ?f) \<and> am_done tx' rx2 = insert i (am_done tx' (ame_rx ?f))
              \<and> evs = [On_new_sdu (ta_stream tx' ! i)])"
      by (rule data_transfer[OF rel(1) data handled])
    have "\<exists>sdus. evs = map On_new_sdu sdus \<and> am_flow tx' rx2 (ae_accepted p) (ae_delivered q @ sdus)"
      using d(5)
    proof (elim disjE exE conjE)
      assume "evs = []" "am_done tx' rx2 = am_done tx' (ame_rx ?f)"
      then show ?thesis using am_flow_same[OF pull(6) d(3)] by (intro exI[of _ "[]"]) simp
    next
      fix i assume i: "i < ta_nof tx'" "i \<notin> am_done tx' (ame_rx ?f)" "am_done tx' rx2 = insert i (am_done tx' (ame_rx ?f))"
        "evs = [On_new_sdu (ta_stream tx' ! i)]"
      show ?thesis using am_flow_delivered[OF pull(6) d(3) i(1-3)] i(4) by (intro exI[of _ "[ta_stream tx' ! i]"]) simp
    qed
    then obtain sdus where sdus: "evs = map On_new_sdu sdus" "am_flow tx' rx2 (ae_accepted p) (ae_delivered q @ sdus)" by blast
    obtain tx2 out where disp: "am_dispatch exec_ok defer_ok' hol_older (evs @ evs') (?f\<lparr>ame_rx := rx2\<rparr>)
          = Some (?f\<lparr>ame_rx := rx2, ame_tx := tx2\<rparr>, sdus, out)" "ta_inv tx2" "ta_kept (ame_tx ?f) tx2"
        "ta_retx_queue tx2 = ta_retx_queue (ame_tx ?f)"
      using dispatch_sdus[OF d(2), of "?f\<lparr>ame_rx := rx2\<rparr>" exec_ok defer_ok' hol_older sdus] tinv sdus(1) by auto
    have "am_flow tx2 rx' (ae_accepted q) (ae_delivered p)" by (rule am_flow_quiet[OF rflow' disp(2-4)])
    moreover have "ta_size tx2 = s" using disp(3) size by (simp add: ta_kept_def)
    ultimately show ?thesis
      using d(1) disp(1) sdus(2) size by (simp add: am_handle_pdu_def am_link_inv_def)
  qed
  then show ?thesis using pull(1) lost by blast
qed

text \<open>The other steps.\<close>

lemma am_link_inv_sym: "am_link_inv s p q \<Longrightarrow> am_link_inv s q p"
  by (simp add: am_link_inv_def)

lemma am_link_inv_rel:
  assumes "am_link_inv s p q"
  shows "am_rel (ame_tx (ae_entity p)) (ame_rx (ae_entity q))" "am_rel (ame_tx (ae_entity q)) (ame_rx (ae_entity p))"
    "ta_inv (ame_tx (ae_entity p))" "ta_low (ame_tx (ae_entity p))" "ra_inv (ame_rx (ae_entity p))" "ra_current (ame_rx (ae_entity p))"
  using assms by (auto simp: am_link_inv_def am_flow_def am_rel_def)

lemma sdu_flow:
  assumes inv: "am_link_inv s p q" and buf: "buf \<noteq> []" "length buf \<le> am_max_sdu"
  shows "am_link_inv s (p\<lparr>ae_entity := fst (am_handle_sdu defer_ok buf is_retx (ae_entity p)),
           ae_accepted := ae_accepted p @ (if am_taken buf is_retx (ae_entity p) then [buf] else [])\<rparr>) q"
proof -
  let ?e = "ae_entity p" and ?f = "ae_entity q"
  let ?tx = "fst (ta_handle_sdu defer_ok buf is_retx (ame_tx ?e))"
  note rel = am_link_inv_rel[OF inv] and spec = ta_handle_sdu_spec[OF am_link_inv_rel(3)[OF inv] buf, of defer_ok is_retx]
  have "ta_advanced (ame_tx ?e) ?tx" by (rule ta_advanced_same) (simp_all add: spec)
  moreover have "ta_nof ?tx = ta_nof (ame_tx ?e)" by (simp add: ta_nof_def spec)
  ultimately have "am_rel ?tx (ame_rx ?f)" "am_done ?tx (ame_rx ?f) = am_done (ame_tx ?e) (ame_rx ?f)"
    using am_rel_advanced[OF rel(1) spec(1)] spec by simp_all
  then have "am_flow ?tx (ame_rx ?f) (ae_accepted p @ (if am_taken buf is_retx ?e then [buf] else [])) (ae_delivered q)"
    using inv am_flow_accepted[OF _ _ _ spec(4)] by (simp add: am_link_inv_def am_taken_def)
  then show ?thesis
    using inv spec(2) by (simp add: am_link_inv_def am_handle_sdu_def case_prod_beta Let_def)
qed

lemma am_link_inv_tx:
  assumes inv: "am_link_inv s p q" and tx: "ta_inv tx'" "ta_kept (ame_tx (ae_entity p)) tx'" "ta_low tx'"
  shows "am_link_inv s (p\<lparr>ae_entity := (ae_entity p)\<lparr>ame_tx := tx'\<rparr>\<rparr>) q"
  using inv am_flow_kept[OF _ tx] tx(2) by (simp add: am_link_inv_def ta_kept_def)

lemma poll_flow:
  assumes inv: "am_link_inv s p q"
  shows "\<exists>e ev. am_poll_expired hol_older (ae_entity p) = Some (e, ev) \<and> am_link_inv s (p\<lparr>ae_entity := e\<rparr>) q"
proof -
  let ?tx = "ame_tx (ae_entity p)"
  let ?stopped = "?tx\<lparr>ta_poll_timer := False\<rparr>"
  note rel = am_link_inv_rel[OF inv]
  have tx0: "ta_inv ?stopped" "ta_kept ?tx ?stopped" using rel(3) by (simp_all add: ta_inv_def ta_kept_def)
  have "ta_low ?stopped = ta_low ?tx" by (rule ta_low_kept[OF tx0(2)]) simp
  with rel(4) obtain tx' ev where x: "on_expired_poll_retransmit_timer hol_older (ame_rx (ae_entity p)) ?stopped = Some (tx', ev)"
      "ta_inv tx'" "ta_kept ?stopped tx'" "ta_low tx'"
    using ta_expired_spec[OF tx0(1), of hol_older "ame_rx (ae_entity p)"] by blast
  then show ?thesis
    using am_link_inv_tx[OF inv x(2) ta_kept_trans[OF tx0(2) x(3)] x(4)] by (simp add: am_poll_expired_def)
qed

lemma update_flow:
  assumes inv: "am_link_inv s p q"
  shows "\<exists>e ev. am_update_mac force_notify hol_older (ae_entity p) = Some (e, ev) \<and> am_link_inv s (p\<lparr>ae_entity := e\<rparr>) q"
proof -
  note rel = am_link_inv_rel[OF inv]
  obtain tx' ev where x: "ta_update_mac_buffer_state force_notify hol_older (ame_rx (ae_entity p)) (ame_tx (ae_entity p)) = Some (tx', ev)"
      "ta_inv tx'" "ta_kept (ame_tx (ae_entity p)) tx'" "ta_retx_queue tx' = ta_retx_queue (ame_tx (ae_entity p))"
    using ta_update_mac_spec[OF rel(3), of force_notify hol_older "ame_rx (ae_entity p)"] by blast
  then have "ta_low tx'" using rel(4) ta_low_kept[OF x(3)] by simp
  then show ?thesis using am_link_inv_tx[OF inv x(2,3)] x(1) by (simp add: am_update_mac_def)
qed

text \<open>The receiver changed, and the transmitter next to it was told.\<close>

lemma rx_flow:
  assumes inv: "am_link_inv s p q" and rx': "am_flow (ame_tx (ae_entity q)) rx' (ae_accepted q) (ae_delivered p)"
    and evs: "set evs \<subseteq> {On_status_report_changed}"
  shows "\<exists>e out. am_dispatch exec_ok defer_ok hol_older evs ((ae_entity p)\<lparr>ame_rx := rx'\<rparr>) = Some (e, [], out)
     \<and> am_link_inv s (p\<lparr>ae_entity := e\<rparr>) q"
proof -
  let ?e = "(ae_entity p)\<lparr>ame_rx := rx'\<rparr>"
  have "ta_inv (ame_tx ?e)" using am_link_inv_rel(3)[OF inv] by simp
  then obtain tx' out where d: "am_dispatch exec_ok defer_ok hol_older evs ?e = Some (?e\<lparr>ame_tx := tx'\<rparr>, [], out)" "ta_inv tx'"
      "ta_kept (ame_tx (ae_entity p)) tx'" "ta_retx_queue tx' = ta_retx_queue (ame_tx (ae_entity p))"
    using dispatch_changed[OF evs, of ?e exec_ok defer_ok hol_older] by auto
  have "am_flow tx' (ame_rx (ae_entity q)) (ae_accepted p) (ae_delivered q)"
    using inv am_flow_quiet[OF _ d(2-4)] by (simp add: am_link_inv_def)
  then have "am_link_inv s (p\<lparr>ae_entity := ?e\<lparr>ame_tx := tx'\<rparr>\<rparr>) q"
    using inv rx' d(3) by (simp add: am_link_inv_def ta_kept_def)
  then show ?thesis using d(1) by blast
qed

lemma reassembly_flow:
  assumes inv: "am_link_inv s p q" and running: "ra_timer_running (ame_rx (ae_entity p))"
    and returns: "ra_timer_set (ame_rx (ae_entity p)) \<or> am_reassembly_expired exec_ok defer_ok hol_older (ae_entity p) \<noteq> None"
  shows "\<exists>e ev. am_reassembly_expired exec_ok defer_ok hol_older (ae_entity p) = Some (e, [], ev) \<and> am_link_inv s (p\<lparr>ae_entity := e\<rparr>) q"
proof -
  let ?rx = "ame_rx (ae_entity p)" and ?tx = "ame_tx (ae_entity q)"
  note rel = am_link_inv_rel[OF inv]
  have "ra_timer_set ?rx \<or> ra_on_expired_reassembly_timer (?rx\<lparr>ra_timer_running := False\<rparr>) \<noteq> None"
    using returns by (cases "ra_on_expired_reassembly_timer (?rx\<lparr>ra_timer_running := False\<rparr>)") (simp_all add: am_reassembly_expired_def)
  then obtain rx' evs where x: "ra_on_expired_reassembly_timer (?rx\<lparr>ra_timer_running := False\<rparr>) = Some (rx', evs)" "ra_inv rx'"
      "ra_cfg rx' = ra_cfg ?rx" "ra_current rx'" "ra_next rx' = ra_next ?rx" "ra_next_highest rx' = ra_next_highest ?rx"
      "ra_window rx' = ra_window ?rx" "set evs \<subseteq> {On_status_report_changed}"
    using ra_expire_current[OF rel(5) running] by blast
  have "am_rel ?tx rx'" "am_done ?tx rx' = am_done ?tx ?rx" using am_rel_rx[OF rel(2) x(2,4,3,5,6)] x(7) by simp_all
  then have "am_flow ?tx rx' (ae_accepted q) (ae_delivered p)"
    using inv am_flow_same[of ?tx ?rx _ _ ?tx rx'] by (simp add: am_link_inv_def)
  from rx_flow[OF inv this x(8), of exec_ok defer_ok hol_older] show ?thesis
    using x(1) by (auto simp: am_reassembly_expired_def)
qed

lemma prohibit_flow:
  assumes inv: "am_link_inv s p q"
  shows "\<exists>e ev. am_prohibit_expired exec_ok defer_ok hol_older (ae_entity p) = Some (e, [], ev) \<and> am_link_inv s (p\<lparr>ae_entity := e\<rparr>) q"
proof -
  let ?x = "ra_on_expired_status_prohibit_timer (ame_rx (ae_entity p))"
  note rel = am_link_inv_rel[OF inv]
  have "am_flow (ame_tx (ae_entity q)) (fst ?x) (ae_accepted q) (ae_delivered p)"
    using inv am_flow_rx[OF _ ra_prohibit_same(3)[OF rel(5)] ra_prohibit_same(2)[OF rel(6)] ra_prohibit_same(1)]
    by (simp add: am_link_inv_def)
  moreover have "set (snd ?x) \<subseteq> {On_status_report_changed}"
    by (auto simp: ra_on_expired_status_prohibit_timer_def ra_notify_status_report_changed_def Let_def)
  ultimately show ?thesis
    using rx_flow[OF inv, of "fst ?x" "snd ?x" exec_ok defer_ok hol_older] unfolding am_prohibit_expired_def case_prod_beta by blast
qed

lemma stop_flow:
  assumes inv: "am_link_inv s p q"
  shows "am_link_inv s (p\<lparr>ae_entity := am_entity_stop exec_ok (ae_entity p)\<rparr>) q"
proof -
  let ?tx = "ame_tx (ae_entity p)" and ?rx = "ame_rx (ae_entity p)"
  note rel = am_link_inv_rel[OF inv]
  have rx: "ra_inv (ra_stop ?rx)" "ra_same ?rx (ra_stop ?rx)" "ra_current (ra_stop ?rx)"
    using rel(5) ra_current_same[OF rel(6), of "ra_stop ?rx"] by (auto simp: ra_stop_def ra_same_def ra_inv_def ra_statuses_ok_def)
  have q: "ta_retx_queue (ta_stop exec_ok ?tx) = ta_retx_queue ?tx" by (simp add: ta_stop_def Let_def)
  have "am_flow (ta_stop exec_ok ?tx) (ame_rx (ae_entity q)) (ae_accepted p) (ae_delivered q)"
    using inv am_flow_quiet[OF _ ta_stop_inv(1)[OF rel(3)] ta_stop_inv(2) q] by (simp add: am_link_inv_def)
  moreover have "am_flow (ame_tx (ae_entity q)) (ra_stop ?rx) (ae_accepted q) (ae_delivered p)"
    using inv am_flow_rx[OF _ rx(1,3,2)] by (simp add: am_link_inv_def)
  moreover have "ta_cfg (ta_stop exec_ok ?tx) = ta_cfg ?tx" using ta_stop_inv(2)[of ?tx exec_ok] by (simp add: ta_kept_def)
  ultimately show ?thesis using inv by (simp add: am_link_inv_def am_entity_stop_def)
qed

lemma init_flow:
  assumes tx: "tx_am_new tcfg is_srb = Some tx" "tx_cfg_ok tcfg" and rx: "rx_am_new rcfg = Some rx"
    and size: "txam_sn_field_length tcfg = s" "rxam_sn_field_length rcfg = s"
  shows "am_flow tx rx [] []"
proof -
  have t: "ta_inv tx" "ta_cfg tx = tcfg" "ta_stream tx = []" using tx_am_new_inv[OF tx(2,1)] by blast+
  have r: "ra_inv rx" "ra_cfg rx = rcfg" "\<not> ra_do_status rx" using rx_am_new_cfg[OF rx] rx_am_new_idle[OF rx] by blast+
  have t0: "ta_tx_next_ack tx = 0" "ta_tx_next tx = 0" "rq_abs (ta_retx_queue tx) = []"
    using tx(1) rq_new_wf[of "unat (am_window_size (txam_sn_field_length tcfg))"]
    by (auto simp: tx_am_new_def Let_def bind_eq_Some_conv am_W split: if_splits)
  have r0: "ra_next rx = 0" "ra_next_highest rx = 0" "win_at (ra_window rx) x = None" for x
  proof -
    show "ra_next rx = 0" "ra_next_highest rx = 0" using rx by (auto simp: rx_am_new_def Let_def bind_eq_Some_conv split: if_splits)
    then show "win_at (ra_window rx) x = None"
      using r(1) by (cases "win_at (ra_window rx) x") (auto simp: ra_inv_def am_state_def am_win_def)
  qed
  have "ta_low tx" using t0(3) by (simp add: ta_low_def)
  then have "am_rel tx rx" using t r t0 r0 size by (simp add: am_rel_def ra_current_def)
  moreover have "am_done tx rx = {}" by (auto simp: am_done_def am_full_def r0 t0)
  ultimately show ?thesis using t(3) by (auto simp: am_flow_def)
qed

lemma am_link_invariant: "am_link s p q \<Longrightarrow> am_link_inv s p q"
proof (induction rule: am_link.induct)
  case (al_init tcfg rcfg is_srb e tcfg' rcfg' is_srb' f)
  then show ?case
    using init_flow[of tcfg is_srb "ame_tx e" rcfg' "ame_rx f"] init_flow[of tcfg' is_srb' "ame_tx f" rcfg "ame_rx e"]
      tx_am_new_inv[of tcfg is_srb "ame_tx e"] tx_am_new_inv[of tcfg' is_srb' "ame_tx f"]
    by (auto simp: am_entity_new_def bind_eq_Some_conv am_link_inv_def)
next
  case (al_lost p q grant_len defer_ok pdu e ev)
  then show ?case using transfer_flow[of s p q grant_len defer_ok] by fastforce
next
  case (al_received p q grant_len defer_ok pdu e ev exec_ok defer_ok' hol_older f sdus ev')
  then show ?case using transfer_flow[of s p q grant_len defer_ok exec_ok defer_ok' hol_older] by fastforce
next
  case (al_poll p q hol_older e ev)
  then show ?case using poll_flow[of s p q hol_older] by auto
next
  case (al_reassembly p q exec_ok defer_ok hol_older e sdus ev)
  then show ?case using reassembly_flow[of s p q exec_ok defer_ok hol_older] by auto
next
  case (al_prohibit p q exec_ok defer_ok hol_older e sdus ev)
  then show ?case using prohibit_flow[of s p q exec_ok defer_ok hol_older] by auto
next
  case (al_update p q force_notify hol_older e ev)
  then show ?case using update_flow[of s p q force_notify hol_older] by auto
qed (simp_all add: am_link_inv_sym sdu_flow stop_flow)

section \<open>Example\<close>

text \<open>Two new entities, one with an SDU waiting, and the ends after its PDU was received.\<close>

definition am_demo_e :: rlc_am_entity where
  "am_demo_e = \<lparr>ame_tx = ta_demo0, ame_rx = ra_demo\<rparr>"

definition am_demo_q :: am_end where
  "am_demo_q = \<lparr>ae_entity = am_demo_e, ae_accepted = [], ae_delivered = []\<rparr>"

definition am_demo_p :: am_end where
  "am_demo_p = am_demo_q\<lparr>ae_entity := fst (am_handle_sdu True [1, 2, 3] False am_demo_e),
     ae_accepted := (if am_taken [1, 2, 3] False am_demo_e then [[1, 2, 3]] else [])\<rparr>"

definition am_demo_step :: "(am_end \<times> am_end) option" where
  "am_demo_step = do {
     (pdu, e, ev) \<leftarrow> am_pull_pdu True 100 (ae_entity am_demo_p);
     (f, sdus, ev') \<leftarrow> am_handle_pdu True True True False pdu (ae_entity am_demo_q);
     Some (am_demo_p\<lparr>ae_entity := e\<rparr>, am_demo_q\<lparr>ae_entity := f, ae_delivered := ae_delivered am_demo_q @ sdus\<rparr>)
   }"

lemma am_demo_link: "am_link am_size12bits am_demo_p am_demo_q"
proof -
  have "am_entity_new ta_demo_cfg ra_demo_cfg False = Some am_demo_e"
    using ta_demo0_new ra_demo_new by (simp add: am_entity_new_def am_demo_e_def)
  then have "am_link am_size12bits am_demo_q am_demo_q"
    unfolding am_demo_q_def using ta_demo_cfg_ok by (intro al_init) (auto simp: ta_demo_cfg_def ra_demo_cfg_def)
  from al_sdu[OF this, of "[1, 2, 3]" False True] show ?thesis
    by (simp add: am_demo_p_def am_max_sdu_def am_demo_q_def)
qed

lemma am_demo_grant: "am_grant_ok 100 (ae_entity am_demo_p)"
  using ra_demo_idle(2)
  by (simp add: am_grant_ok_def am_demo_p_def am_demo_e_def am_handle_sdu_def case_prod_beta Let_def)

lemma am_demo_timers:
  "0 < rxam_t_reassembly (ra_cfg (ame_rx (ae_entity am_demo_p)))" "0 < rxam_t_reassembly (ra_cfg (ame_rx (ae_entity am_demo_q)))"
  using rx_am_new_cfg[OF ra_demo_new]
  by (simp_all add: am_demo_p_def am_demo_q_def am_demo_e_def am_handle_sdu_def case_prod_beta Let_def ra_demo_cfg_def)

lemma am_demo_step_link:
  obtains p q where "am_demo_step = Some (p, q)" "am_link am_size12bits p q"
proof -
  obtain pdu e ev f sdus ev' where t: "am_pull_pdu True 100 (ae_entity am_demo_p) = Some (pdu, e, ev)"
      "am_handle_pdu True True True False pdu (ae_entity am_demo_q) = Some (f, sdus, ev')"
    using transfer_flow[OF am_link_invariant[OF am_demo_link] am_demo_grant, of True True True False] am_demo_timers(2)
    unfolding ra_timer_set_def by blast
  show thesis
    by (rule that[OF _ al_received[OF am_demo_link am_demo_grant t]]) (simp add: am_demo_step_def t)
qed

section \<open>Properties\<close>

lemma am_flow_reliable:
  assumes "am_flow tx rx accepted delivered"
  shows "\<exists>idx. distinct idx \<and> set idx \<subseteq> {..<length accepted} \<and> delivered = map ((!) accepted) idx
     \<and> ta_stream tx = drop (length accepted - length (ta_stream tx)) accepted
     \<and> {..<length accepted - length (ta_stream tx)} \<subseteq> set idx"
proof -
  obtain k idx where i: "distinct idx" "k \<le> length accepted" "ta_stream tx = drop k accepted" "delivered = map ((!) accepted) idx"
      "set idx = {..<k} \<union> (+) k ` am_done tx rx"
    using assms by (auto simp: am_flow_def)
  have k: "length accepted - length (ta_stream tx) = k" using i(2,3) by simp
  have "ta_nof tx \<le> length (ta_stream tx)" by (simp add: ta_stream_def window_stream_def)
  then have "set idx \<subseteq> {..<length accepted}" using i(2,3,5) by (auto simp: am_done_def)
  then show ?thesis unfolding k using i by blast
qed

text \<open>C1: Acknowledged mode is reliable.  Two entities with the same sequence-number size face each other over a
  channel that may lose any PDU; SDUs, grants, timer expiries, buffer updates and stops happen at either end in any
  order.  Then the SDUs delivered at one end are SDUs that the other end accepted, byte for byte, none of them twice; the
  transmitter still holds a tail of the list of accepted SDUs, and every SDU that it has let go was delivered.\<close>

theorem am_link_reliable:
  assumes "am_link s p q"
  shows "\<exists>idx. distinct idx \<and> set idx \<subseteq> {..<length (ae_accepted p)} \<and> ae_delivered q = map ((!) (ae_accepted p)) idx
     \<and> ta_stream (ame_tx (ae_entity p))
         = drop (length (ae_accepted p) - length (ta_stream (ame_tx (ae_entity p)))) (ae_accepted p)
     \<and> {..<length (ae_accepted p) - length (ta_stream (ame_tx (ae_entity p)))} \<subseteq> set idx"
proof -
  have "am_flow (ame_tx (ae_entity p)) (ame_rx (ae_entity q)) (ae_accepted p) (ae_delivered q)"
    using am_link_invariant[OF assms] by (simp add: am_link_inv_def)
  then show ?thesis by (rule am_flow_reliable)
qed

theorem am_link_reliable_witness:
  "\<exists>p q idx. am_demo_step = Some (p, q) \<and> distinct idx \<and> set idx \<subseteq> {..<length (ae_accepted p)}
     \<and> ae_delivered q = map ((!) (ae_accepted p)) idx
     \<and> {..<length (ae_accepted p) - length (ta_stream (ame_tx (ae_entity p)))} \<subseteq> set idx"
proof -
  obtain p q where pq: "am_demo_step = Some (p, q)" "am_link am_size12bits p q" by (rule am_demo_step_link)
  show ?thesis using am_link_reliable[OF pq(2)] pq(1) by blast
qed

text \<open>C2: No assertion fails on a link whose ends have a positive \<open>t-Reassembly\<close>, so that the timer has a duration: in
  every state it can reach, every grant gives a PDU, the other end handles that PDU, the expiry handlers of all timers
  and the update of the buffer state complete.  In particular the condition on status reports under which the
  transmitter is safe is met by the receiver of its peer.\<close>

theorem am_link_never_asserts:
  assumes "am_link s p q" and "am_grant_ok grant_len (ae_entity p)"
    and "0 < rxam_t_reassembly (ra_cfg (ame_rx (ae_entity p)))" and "0 < rxam_t_reassembly (ra_cfg (ame_rx (ae_entity q)))"
  shows "(\<exists>pdu e ev f sdus ev'. am_pull_pdu defer_ok grant_len (ae_entity p) = Some (pdu, e, ev)
        \<and> am_handle_pdu True exec_ok defer_ok' hol_older pdu (ae_entity q) = Some (f, sdus, ev'))
     \<and> (\<exists>e ev. am_poll_expired hol_older (ae_entity p) = Some (e, ev))
     \<and> (ra_timer_running (ame_rx (ae_entity p)) \<longrightarrow>
          (\<exists>e ev. am_reassembly_expired exec_ok defer_ok hol_older (ae_entity p) = Some (e, [], ev)))
     \<and> (\<exists>e ev. am_prohibit_expired exec_ok defer_ok hol_older (ae_entity p) = Some (e, [], ev))
     \<and> (\<exists>e ev. am_update_mac force_notify hol_older (ae_entity p) = Some (e, ev))"
proof -
  note inv = am_link_invariant[OF assms(1)]
  have "ra_timer_set (ame_rx (ae_entity p))" "ra_timer_set (ame_rx (ae_entity q))"
    using assms(3,4) by (simp_all add: ra_timer_set_def)
  then show ?thesis
    using transfer_flow[OF inv assms(2), of defer_ok exec_ok defer_ok' hol_older] poll_flow[OF inv, of hol_older]
      reassembly_flow[OF inv, of exec_ok defer_ok hol_older] prohibit_flow[OF inv, of exec_ok defer_ok hol_older]
      update_flow[OF inv, of force_notify hol_older]
    by blast
qed

theorem am_link_never_asserts_witness:
  "(\<exists>pdu e ev f sdus ev'. am_pull_pdu True 100 (ae_entity am_demo_p) = Some (pdu, e, ev)
        \<and> am_handle_pdu True True True False pdu (ae_entity am_demo_q) = Some (f, sdus, ev'))
     \<and> (\<exists>e ev. am_poll_expired False (ae_entity am_demo_p) = Some (e, ev))
     \<and> (\<exists>e ev. am_prohibit_expired True True False (ae_entity am_demo_p) = Some (e, [], ev))"
  using am_link_never_asserts[OF am_demo_link am_demo_grant am_demo_timers, of True True True False False] by blast

text \<open>C3: The windows of the two ends fit together: counted from \<open>TX_Next_Ack\<close>, \<open>RX_Next\<close> lies at or before
  \<open>TX_Next\<close> and \<open>RX_Next_Highest\<close> within one window; and what the receiver stores under a sequence number are slices of
  the SDU that the transmitter still holds under the same number.\<close>

theorem am_link_windows:
  assumes "am_link s p q" and "tx = ame_tx (ae_entity p)" and "rx = ame_rx (ae_entity q)"
  shows "am_off s (ta_tx_next_ack tx) (ra_next rx) \<le> am_off s (ta_tx_next_ack tx) (ta_tx_next tx)
     \<and> am_off s (ta_tx_next_ack tx) (ra_next rx) + am_off s (ra_next rx) (ra_next_highest rx) \<le> am_W s
     \<and> (\<forall>sn info. win_at (ra_window rx) sn = Some info \<longrightarrow> (\<exists>sdu. win_sdus (ta_window tx) sn = Some sdu
          \<and> (\<not> ai_fully_received info \<longrightarrow> segs_of sdu (ai_segments info))))"
proof -
  have rel: "am_rel tx rx" "ta_size tx = s"
    using am_link_inv_rel(1)[OF am_link_invariant[OF assms(1)]] am_link_invariant[OF assms(1)] assms(2,3)
    by (simp_all add: am_link_inv_def)
  then have "ta_nof tx \<le> am_W s" using ta_nof_bounds(1)[of tx] by (simp add: am_rel_def)
  moreover have "rx_info_rel tx sn info" if "win_at (ra_window rx) sn = Some info" for sn info
    using rel(1) that by (simp add: am_rel_def)
  then have "\<exists>sdu. win_sdus (ta_window tx) sn = Some sdu \<and> (\<not> ai_fully_received info \<longrightarrow> segs_of sdu (ai_segments info))"
    if "win_at (ra_window rx) sn = Some info" for sn info
    using that unfolding rx_info_rel_def by blast
  ultimately show ?thesis using rel unfolding am_rel_def by auto
qed

theorem am_link_windows_witness:
  "\<exists>p q tx rx. am_demo_step = Some (p, q) \<and> tx = ame_tx (ae_entity p) \<and> rx = ame_rx (ae_entity q)
     \<and> am_off am_size12bits (ta_tx_next_ack tx) (ra_next rx) \<le> am_off am_size12bits (ta_tx_next_ack tx) (ta_tx_next tx)
     \<and> am_off am_size12bits (ta_tx_next_ack tx) (ra_next rx) + am_off am_size12bits (ra_next rx) (ra_next_highest rx) \<le> am_W am_size12bits"
proof -
  obtain p q where pq: "am_demo_step = Some (p, q)" "am_link am_size12bits p q" by (rule am_demo_step_link)
  show ?thesis using am_link_windows[OF pq(2) refl refl] pq(1) by blast
qed

end
