(* ===== verification/Bit_Encoding.thy ===== *)
theory Bit_Encoding
  imports Rlc_Prelude
begin

unbundle bit_operations_syntax

text \<open>
  \<open>lib/support/bit_encoding.cpp\<close>: the encoder that appends fields of bits to a byte buffer and the
  decoder that reads them back, most significant bit first.  A buffer is a list of bytes; the
  iterator of the decoder is the list of the bytes from its position on.  A result \<^const>\<open>None\<close> is a
  failed assertion.  Appending to the buffer succeeds (the segment pool is not exhausted).
\<close>

section \<open>The encoder\<close>

record bit_encoder =
  be_buf :: bytes
  be_offset :: nat

definition bit_encoder_new :: "bytes \<Rightarrow> bit_encoder" where
  "bit_encoder_new buf = \<lparr>be_buf = buf, be_offset = 0\<rparr>"

text \<open>\<open>writer.back() += b\<close>\<close>

definition back_add :: "bytes \<Rightarrow> u8 \<Rightarrow> bytes" where
  "back_add buf b = butlast buf @ [last buf + b]"

function pack_loop :: "bit_encoder \<Rightarrow> u64 \<Rightarrow> nat \<Rightarrow> bit_encoder" where
  "pack_loop e val n_bits = (if n_bits = 0 then e else
     let e1 = (if be_offset e = 0 then e\<lparr>be_buf := be_buf e @ [0]\<rparr> else e);
         val1 = (if n_bits < 64 then val AND (push_bit n_bits 1 - 1) else val)
     in if n_bits < 8 - be_offset e
        then e1\<lparr>be_buf := back_add (be_buf e1) (ucast (push_bit (8 - be_offset e - n_bits) val1)),
                be_offset := be_offset e + n_bits\<rparr>
        else pack_loop
          (e1\<lparr>be_buf := back_add (be_buf e1) (ucast (drop_bit (n_bits - (8 - be_offset e)) val1)),
              be_offset := 0\<rparr>) val1 (n_bits - (8 - be_offset e)))"
  by pat_completeness auto
termination
  by (relation "measures [\<lambda>(e, val, n). n, \<lambda>(e, val, n). be_offset e]") auto

declare pack_loop.simps [simp del]

definition pack :: "bit_encoder \<Rightarrow> u64 \<Rightarrow> nat \<Rightarrow> bit_encoder option" where
  "pack e val n_bits = (if n_bits \<le> 64 then Some (pack_loop e val n_bits) else None)"

fun pack_all :: "bit_encoder \<Rightarrow> bytes \<Rightarrow> bit_encoder" where
  "pack_all e [] = e"
| "pack_all e (b # bs) = pack_all (pack_loop e (ucast b) 8) bs"

definition pack_bytes :: "bit_encoder \<Rightarrow> bytes \<Rightarrow> bit_encoder" where
  "pack_bytes e bs = (if bs = [] then e
     else if be_offset e = 0 then e\<lparr>be_buf := be_buf e @ bs\<rparr>
     else pack_all e bs)"

definition align_bytes_zero :: "bit_encoder \<Rightarrow> bit_encoder" where
  "align_bytes_zero e = e\<lparr>be_offset := 0\<rparr>"

definition be_nof_bytes :: "bit_encoder \<Rightarrow> nat" where
  "be_nof_bytes e = length (be_buf e)"

definition be_nof_bits :: "bit_encoder \<Rightarrow> nat" where
  "be_nof_bits e = 8 * (length (be_buf e) - (if be_offset e = 0 then 0 else 1)) + be_offset e"

section \<open>The decoder\<close>

record bit_decoder =
  bd_rest :: bytes
  bd_offset :: nat

definition bit_decoder_new :: "bytes \<Rightarrow> bit_decoder" where
  "bit_decoder_new buf = \<lparr>bd_rest = buf, bd_offset = 0\<rparr>"

definition advance_bits :: "bit_decoder \<Rightarrow> nat \<Rightarrow> bool \<times> bit_decoder" where
  "advance_bits d n_bits =
     (let extra_bits = (bd_offset d + n_bits) mod 8;
          bytes_required = (bd_offset d + n_bits + 7) div 8;
          bytes_offset = (bd_offset d + n_bits) div 8
      in if length (bd_rest d) < bytes_required then (False, d)
         else (True, d\<lparr>bd_rest := drop bytes_offset (bd_rest d), bd_offset := extra_bits\<rparr>))"

function unpack_loop :: "bit_decoder \<Rightarrow> 'a::len word \<Rightarrow> nat \<Rightarrow> bool \<times> 'a word \<times> bit_decoder" where
  "unpack_loop d val n_bits = (if n_bits = 0 then (True, val, d) else
     case bd_rest d of [] \<Rightarrow> (False, val, d)
     | b # rest \<Rightarrow>
       if n_bits < 8 - bd_offset d
       then (True, val + ucast (drop_bit (8 - bd_offset d - n_bits)
                (b AND (push_bit (8 - bd_offset d) 1 - push_bit (8 - bd_offset d - n_bits) 1))),
             d\<lparr>bd_offset := bd_offset d + n_bits\<rparr>)
       else unpack_loop (d\<lparr>bd_rest := rest, bd_offset := 0\<rparr>)
              (val + push_bit (n_bits - (8 - bd_offset d))
                 (ucast (b AND (push_bit (8 - bd_offset d) 1 - 1))))
              (n_bits - (8 - bd_offset d)))"
  by pat_completeness auto
termination
  by (relation "measure (\<lambda>(d, val, n). length (bd_rest d))") auto

declare unpack_loop.simps [simp del]

definition unpack :: "bit_decoder \<Rightarrow> nat \<Rightarrow> (bool \<times> 'a::len word \<times> bit_decoder) option" where
  "unpack d n_bits = (if n_bits \<le> LENGTH('a) then Some (unpack_loop d 0 n_bits) else None)"

fun unpack_each :: "bit_decoder \<Rightarrow> nat \<Rightarrow> bool \<times> bytes \<times> bit_decoder" where
  "unpack_each d 0 = (True, [], d)"
| "unpack_each d (Suc n) = (case unpack_loop d (0 :: u8) 8 of (ok, b, d') \<Rightarrow>
     if \<not> ok then (False, [], d') else
     case unpack_each d' n of (ok', bs, d'') \<Rightarrow> (ok', b # bs, d''))"

definition unpack_bytes :: "bit_decoder \<Rightarrow> nat \<Rightarrow> bool \<times> bytes \<times> bit_decoder" where
  "unpack_bytes d n = (if n = 0 then (True, [], d)
     else if length (bd_rest d) < n then (False, [], d)
     else if bd_offset d = 0
       then (True, take n (bd_rest d), d\<lparr>bd_rest := drop n (bd_rest d)\<rparr>)
     else unpack_each d n)"

definition bd_align_bytes :: "bit_decoder \<Rightarrow> bit_decoder" where
  "bd_align_bytes d = (if bd_offset d \<noteq> 0 then d\<lparr>bd_rest := tl (bd_rest d), bd_offset := 0\<rparr> else d)"

definition unpack_aligned_bytes :: "bit_decoder \<Rightarrow> nat \<Rightarrow> bytes \<times> bit_decoder" where
  "unpack_aligned_bytes d n = (let d' = bd_align_bytes d in
     if n = 0 then ([], d')
     else if length (bd_rest d') < n then ([], d')
     else (take n (bd_rest d'), d'\<lparr>bd_rest := drop n (bd_rest d')\<rparr>))"

section \<open>Bit strings\<close>

text \<open>The bits of a number, most significant first, and the number they stand for.\<close>

definition nat_bits :: "nat \<Rightarrow> nat \<Rightarrow> bool list" where
  "nat_bits n v = rev (map (bit v) [0..<n])"

definition bits_nat :: "bool list \<Rightarrow> nat" where
  "bits_nat bs = horner_sum of_bool 2 (rev bs)"

definition byte_bits :: "u8 \<Rightarrow> bool list" where
  "byte_bits b = nat_bits 8 (unat b)"

definition bytes_bits :: "bytes \<Rightarrow> bool list" where
  "bytes_bits bs = concat (map byte_bits bs)"

lemma length_nat_bits [simp]: "length (nat_bits n v) = n"
  by (simp add: nat_bits_def)

lemma length_byte_bits [simp]: "length (byte_bits b) = 8"
  by (simp add: byte_bits_def)

lemma length_bytes_bits [simp]: "length (bytes_bits bs) = 8 * length bs"
  by (induction bs) (auto simp: bytes_bits_def)

lemma bytes_bits_simps [simp]:
  "bytes_bits [] = []" "bytes_bits (b # bs) = byte_bits b @ bytes_bits bs"
  "bytes_bits (xs @ ys) = bytes_bits xs @ bytes_bits ys"
  by (simp_all add: bytes_bits_def)

lemma bits_nat_nat_bits: "bits_nat (nat_bits n v) = v mod 2 ^ n"
  by (simp add: bits_nat_def nat_bits_def horner_sum_bit_eq_take_bit take_bit_eq_mod)

lemma bits_nat_append: "bits_nat (xs @ ys) = bits_nat xs * 2 ^ length ys + bits_nat ys"
  by (simp add: bits_nat_def horner_sum_append)

lemma bits_nat_Nil [simp]: "bits_nat [] = 0"
  by (simp add: bits_nat_def)

lemma bits_nat_less: "bits_nat bs < 2 ^ length bs"
  using horner_sum_of_bool_2_less[of "rev bs", where ?'a = nat] by (simp add: bits_nat_def)

lemma nat_bits_bits_nat: "nat_bits (length bs) (bits_nat bs) = bs"
  by (rule nth_equalityI) (auto simp: nat_bits_def bits_nat_def rev_nth bit_horner_sum_bit_iff)

lemma bits_nat_inject: "length xs = length ys \<Longrightarrow> bits_nat xs = bits_nat ys \<Longrightarrow> xs = ys"
  by (metis nat_bits_bits_nat)

lemma bits_nat_take: "k \<le> length bs \<Longrightarrow> bits_nat (take k bs) = bits_nat bs div 2 ^ (length bs - k)"
  using bits_nat_append[of "take k bs" "drop k bs"] bits_nat_less[of "drop k bs"] by simp

lemma bits_nat_drop: "k \<le> length bs \<Longrightarrow> bits_nat (drop k bs) = bits_nat bs mod 2 ^ (length bs - k)"
  using bits_nat_append[of "take k bs" "drop k bs"] bits_nat_less[of "drop k bs"] by simp

lemma bits_nat_byte_bits [simp]: "bits_nat (byte_bits b) = unat b"
  using unsigned_less[of b, where ?'a = nat] by (simp add: byte_bits_def bits_nat_nat_bits)

lemma byte_bits_eqI: "length bs = 8 \<Longrightarrow> unat b = bits_nat bs \<Longrightarrow> byte_bits b = bs"
  by (rule bits_nat_inject) simp_all

lemma byte_bits_inject: "byte_bits a = byte_bits b \<longleftrightarrow> a = b"
  by (metis bits_nat_byte_bits unsigned_word_eqI)

lemma bytes_bits_inject: "bytes_bits xs = bytes_bits ys \<Longrightarrow> xs = ys"
proof (induction xs arbitrary: ys)
  case Nil
  then show ?case
    by (cases ys) (auto dest: arg_cong[of _ _ length])
next
  case (Cons x xs)
  then show ?case
    by (cases ys) (auto simp: byte_bits_inject dest: arg_cong[of _ _ length])
qed

lemma bits_nat_False [simp]: "bits_nat (replicate n False) = 0"
proof (induction n)
  case (Suc n)
  then show ?case
    using bits_nat_append[of "[False]" "replicate n False"] by (simp add: bits_nat_def)
qed simp

section \<open>What the encoder writes\<close>

definition enc_bits :: "bit_encoder \<Rightarrow> bool list" where
  "enc_bits e = take (be_nof_bits e) (bytes_bits (be_buf e))"

definition enc_wf :: "bit_encoder \<Rightarrow> bool" where
  "enc_wf e \<longleftrightarrow> be_offset e < 8 \<and> (be_offset e \<noteq> 0 \<longrightarrow> be_buf e \<noteq> []
     \<and> drop (be_offset e) (byte_bits (last (be_buf e))) = replicate (8 - be_offset e) False)"

lemma enc_wf_new [simp]: "enc_wf (bit_encoder_new buf)"
  by (simp add: enc_wf_def bit_encoder_new_def)

lemma enc_bits_aligned: "be_offset e = 0 \<Longrightarrow> enc_bits e = bytes_bits (be_buf e)"
  by (simp add: enc_bits_def be_nof_bits_def)

lemma enc_bits_new [simp]: "enc_bits (bit_encoder_new buf) = bytes_bits buf"
  by (simp add: enc_bits_aligned bit_encoder_new_def)

lemma enc_bits_snoc:
  "be_buf e = pre @ [b] \<Longrightarrow> be_offset e \<noteq> 0 \<Longrightarrow> be_offset e < 8 \<Longrightarrow>
     enc_bits e = bytes_bits pre @ take (be_offset e) (byte_bits b)"
  by (simp add: enc_bits_def be_nof_bits_def)

text \<open>Adding a field into the free low bits of a byte puts its bits behind the ones written.\<close>

lemma byte_bits_add:
  assumes off: "off + length new \<le> 8"
    and free: "drop off (byte_bits b) = replicate (8 - off) False"
    and x: "unat x = bits_nat new * 2 ^ (8 - off - length new)"
  shows "byte_bits (b + x) = take off (byte_bits b) @ new @ replicate (8 - off - length new) False"
    (is "_ = ?bs")
proof (rule byte_bits_eqI)
  show len: "length ?bs = 8"
    using off by simp
  have "byte_bits b = take off (byte_bits b) @ replicate (8 - off) False"
    using append_take_drop_id[of off "byte_bits b"] by (simp add: free)
  then have "bits_nat (byte_bits b) = bits_nat (take off (byte_bits b)) * 2 ^ (8 - off)"
    by (metis bits_nat_append bits_nat_False add_0_right length_replicate)
  moreover have "bits_nat ?bs = bits_nat (take off (byte_bits b)) * 2 ^ (8 - off) + unat x"
    using off by (simp add: bits_nat_append x)
  moreover have "bits_nat ?bs < 2 ^ 8"
    using bits_nat_less[of ?bs] len by metis
  ultimately show "unat (b + x) = bits_nat ?bs"
    by (simp add: unat_word_ariths)
qed

text \<open>Slices of a field.\<close>

lemma take_nat_bits: "k \<le> n \<Longrightarrow> take k (nat_bits n v) = nat_bits k (v div 2 ^ (n - k))"
  by (rule nth_equalityI)
    (auto simp: nat_bits_def rev_nth bit_iff_odd div_mult2_eq[symmetric] power_add[symmetric]
      intro!: arg_cong[of _ _ odd] arg_cong[of _ _ "(div) v"])

lemma drop_nat_bits: "k \<le> n \<Longrightarrow> drop k (nat_bits n v) = nat_bits (n - k) v"
  by (rule nth_equalityI) (auto simp: nat_bits_def rev_nth)

lemma nat_bits_mod: "n \<le> m \<Longrightarrow> nat_bits n (v mod 2 ^ m) = nat_bits n v"
  by (auto simp: nat_bits_def bit_take_bit_iff simp flip: take_bit_eq_mod)

lemma nat_bits_append: "nat_bits k (v div 2 ^ n) @ nat_bits n v = nat_bits (k + n) v"
  using append_take_drop_id[of k "nat_bits (k + n) v"] by (simp add: take_nat_bits drop_nat_bits)

lemma nat_bits_0 [simp]: "nat_bits 0 v = []" "nat_bits n 0 = replicate n False"
  by (simp_all add: nat_bits_def map_replicate_const bot_fun_def)

lemma byte_bits_0 [simp]: "byte_bits 0 = replicate 8 False"
  by (simp add: byte_bits_def)

text \<open>The masks and shifts of the two codecs on the numbers.\<close>

lemma masked_u64:
  assumes "n \<le> 64"
  shows "(if n < 64 then (val :: u64) AND (push_bit n 1 - 1) else val) = take_bit n val"
proof (cases "n < 64")
  case True
  then show ?thesis
    by (simp add: take_bit_eq_mask mask_eq_exp_minus_1 push_bit_of_1)
next
  case False
  then show ?thesis
    using assms by (simp add: take_bit_length_eq[where ?'a = 64, simplified])
qed

lemma unat_low_part:
  assumes "n + m \<le> 8"
  shows "unat (ucast (push_bit m (take_bit n (val :: u64))) :: u8) = unat val mod 2 ^ n * 2 ^ m"
proof -
  have "unat val mod 2 ^ n * 2 ^ m < 2 ^ n * 2 ^ m"
    by simp
  also have "\<dots> \<le> 2 ^ 8"
    using assms power_increasing[of "n + m" 8 "2::nat"] by (simp add: power_add)
  finally have b: "unat val mod 2 ^ n * 2 ^ m < 256"
    by simp
  then show ?thesis
    by (simp add: unsigned_ucast_eq unsigned_push_bit_eq unat_take_bit take_bit_eq_mod[where ?'a = nat]
        push_bit_eq_mult[where ?'a = nat] mod_mult_left_eq)
qed

lemma unat_high_part:
  assumes "k \<le> n" "k \<le> 8" "n \<le> 64"
  shows "unat (ucast (drop_bit (n - k) (take_bit n (val :: u64))) :: u8) = unat val mod 2 ^ n div 2 ^ (n - k)"
proof -
  have "unat val mod 2 ^ n < 2 ^ (n - k) * 2 ^ k"
    using assms by (simp flip: power_add)
  then have "unat val mod 2 ^ n div 2 ^ (n - k) < 2 ^ k"
    by (simp add: less_mult_imp_div_less mult.commute)
  also have "\<dots> \<le> (2::nat) ^ 8"
    using assms by (intro power_increasing) auto
  finally show ?thesis
    by (simp add: unsigned_ucast_eq unat_drop_bit_eq unat_take_bit take_bit_eq_mod[where ?'a = nat]
        drop_bit_eq_div[where ?'a = nat])
qed

text \<open>The byte under construction at the start of a round.\<close>

lemma enc_open_byte:
  assumes "enc_wf e"
  obtains pre b where "be_buf (if be_offset e = 0 then e\<lparr>be_buf := be_buf e @ [0]\<rparr> else e) = pre @ [b]"
    and "enc_bits e = bytes_bits pre @ take (be_offset e) (byte_bits b)"
    and "drop (be_offset e) (byte_bits b) = replicate (8 - be_offset e) False"
proof (cases "be_offset e = 0")
  case True
  then show ?thesis
    by (intro that[of "be_buf e" 0]) (simp_all add: enc_bits_aligned)
next
  case False
  then have "be_buf e \<noteq> []"
    using assms by (simp add: enc_wf_def)
  then obtain pre b where buf: "be_buf e = pre @ [b]"
    by (metis append_butlast_last_id)
  then show ?thesis
    using False assms by (intro that[of pre b]) (simp_all add: enc_wf_def enc_bits_snoc)
qed

lemma back_add_snoc [simp]: "back_add (pre @ [b]) x = pre @ [b + x]"
  by (simp add: back_add_def)

lemma be_offset_if [simp]:
  "be_offset (if c then e\<lparr>be_buf := x\<rparr> else e) = be_offset e"
  by simp

lemma pack_loop_bits:
  assumes "enc_wf e" and "n \<le> 64"
  shows "enc_wf (pack_loop e val n) \<and> enc_bits (pack_loop e val n) = enc_bits e @ nat_bits n (unat val)"
  using assms
proof (induction e val n rule: pack_loop.induct)
  case (1 e val n)
  let ?e1 = "if be_offset e = 0 then e\<lparr>be_buf := be_buf e @ [0]\<rparr> else e" and ?o = "be_offset e"
  obtain pre b where buf: "be_buf ?e1 = pre @ [b]"
    and bits: "enc_bits e = bytes_bits pre @ take ?o (byte_bits b)"
    and free: "drop ?o (byte_bits b) = replicate (8 - ?o) False"
    by (rule enc_open_byte[OF 1(2)])
  have o8: "?o < 8"
    using 1(2) by (simp add: enc_wf_def)
  note val1 = masked_u64[OF 1(3), of val]
  consider "n = 0" | "0 < n" "n < 8 - ?o" | "0 < n" "8 - ?o \<le> n"
    by linarith
  then show ?case
  proof cases
    case 1
    then show ?thesis
      using \<open>enc_wf e\<close> by (simp add: pack_loop.simps)
  next
    case 2
    let ?x = "ucast (push_bit (8 - ?o - n) (take_bit n val)) :: u8"
    have add: "byte_bits (b + ?x) = take ?o (byte_bits b) @ nat_bits n (unat val) @ replicate (8 - ?o - n) False"
      using byte_bits_add[of ?o "nat_bits n (unat val)" b ?x] free 2
      by (simp add: unat_low_part bits_nat_nat_bits)
    have res: "pack_loop e val n = ?e1\<lparr>be_buf := pre @ [b + ?x], be_offset := ?o + n\<rparr>"
      using 2 by (simp add: pack_loop.simps[of e val n] Let_def buf val1 del: if_split)
    show ?thesis
      using 2 o8 add bits unfolding res by (simp add: enc_wf_def enc_bits_snoc)
  next
    case 3
    let ?k = "8 - ?o"
    let ?x = "ucast (drop_bit (n - ?k) (take_bit n val)) :: u8"
    let ?e2 = "?e1\<lparr>be_buf := pre @ [b + ?x], be_offset := 0\<rparr>"
    have "unat ?x = bits_nat (take ?k (nat_bits n (unat val)))"
      using unat_high_part[of ?k n val] 3 \<open>n \<le> 64\<close> by (simp add: bits_nat_take bits_nat_nat_bits)
    then have add: "byte_bits (b + ?x) = take ?o (byte_bits b) @ take ?k (nat_bits n (unat val))"
      using byte_bits_add[of ?o "take ?k (nat_bits n (unat val))" b ?x] free 3 o8 by simp
    have res: "pack_loop e val n = pack_loop ?e2 (take_bit n val) (n - ?k)"
      using 3 by (simp add: pack_loop.simps[of e val n] Let_def buf val1 del: if_split)
    have e2: "enc_wf ?e2" "enc_bits ?e2 = enc_bits e @ take ?k (nat_bits n (unat val))"
      using add bits by (simp_all add: enc_wf_def enc_bits_aligned)
    have "enc_wf (pack_loop ?e2 (take_bit n val) (n - ?k)) \<and>
        enc_bits (pack_loop ?e2 (take_bit n val) (n - ?k)) = enc_bits ?e2 @ nat_bits (n - ?k) (unat (take_bit n val))"
      using "1.IH"[OF _ refl refl] 3 e2(1) \<open>n \<le> 64\<close> by (simp add: buf val1 del: if_split)
    moreover have "take ?k (nat_bits n (unat val)) @ nat_bits (n - ?k) (unat (take_bit n val)) = nat_bits n (unat val)"
      using append_take_drop_id[of ?k "nat_bits n (unat val)"] 3
      by (simp add: drop_nat_bits unat_take_bit nat_bits_mod)
    ultimately show ?thesis
      unfolding res e2(2) by simp
  qed
qed

lemma pack_bits:
  assumes "enc_wf e" and "n \<le> 64"
  obtains e' where "pack e val n = Some e'" and "enc_wf e'"
    and "enc_bits e' = enc_bits e @ nat_bits n (unat val)"
  using pack_loop_bits[OF assms, of val] assms that[of "pack_loop e val n"] by (simp add: pack_def)

lemma pack_all_bits:
  "enc_wf e \<Longrightarrow> enc_wf (pack_all e bs) \<and> enc_bits (pack_all e bs) = enc_bits e @ bytes_bits bs"
proof (induction bs arbitrary: e)
  case (Cons b bs)
  then show ?case
    using pack_loop_bits[of e 8 "ucast b"]
      unsigned_less[of b, where ?'a = nat]
    by (simp add: byte_bits_def unsigned_ucast_eq take_bit_eq_mod)
qed simp

lemma pack_bytes_bits:
  assumes "enc_wf e"
  shows "enc_wf (pack_bytes e bs) \<and> enc_bits (pack_bytes e bs) = enc_bits e @ bytes_bits bs"
  using pack_all_bits[OF assms, of bs] assms
  by (auto simp: pack_bytes_def enc_bits_aligned enc_wf_def)

lemma length_enc_bits: "enc_wf e \<Longrightarrow> length (enc_bits e) = be_nof_bits e"
  by (cases "be_buf e" rule: rev_cases) (auto simp: enc_bits_def enc_wf_def be_nof_bits_def)

text \<open>The bytes are the bits written, filled up with zeros.\<close>

lemma enc_buf_bits:
  assumes "enc_wf e"
  shows "\<exists>k<8. bytes_bits (be_buf e) = enc_bits e @ replicate k False"
proof (cases "be_offset e = 0")
  case False
  then obtain pre b where buf: "be_buf e = pre @ [b]"
    using assms by (metis append_butlast_last_id enc_wf_def)
  then show ?thesis
    using False assms append_take_drop_id[of "be_offset e" "byte_bits b"]
    by (intro exI[of _ "8 - be_offset e"]) (simp add: enc_bits_snoc enc_wf_def)
qed (simp add: enc_bits_aligned)

section \<open>What the decoder reads\<close>

definition dec_bits :: "bit_decoder \<Rightarrow> bool list" where
  "dec_bits d = drop (bd_offset d) (bytes_bits (bd_rest d))"

definition dec_wf :: "bit_decoder \<Rightarrow> bool" where
  "dec_wf d \<longleftrightarrow> bd_offset d < 8 \<and> (bd_rest d = [] \<longrightarrow> bd_offset d = 0)"

lemma dec_bits_new: "dec_bits (bit_decoder_new buf) = bytes_bits buf" "dec_wf (bit_decoder_new buf)"
  by (simp_all add: dec_bits_def bit_decoder_new_def dec_wf_def)

lemma u8_field:
  assumes "n \<le> k" and "k \<le> 8"
  shows "drop_bit (k - n) ((b :: u8) AND (push_bit k 1 - push_bit (k - n) 1)) = drop_bit (k - n) (take_bit k b)"
proof -
  have "push_bit k (1 :: u8) - push_bit (k - n) 1 = push_bit (k - n) (mask n)"
    using assms by (simp add: mask_eq_exp_minus_1 push_bit_of_1 push_bit_eq_mult left_diff_distrib flip: power_add)
  then show ?thesis
    using assms by (auto intro!: bit_eqI simp: bit_drop_bit_eq bit_and_iff bit_push_bit_iff bit_mask_iff bit_take_bit_iff)
qed

lemma field_bits_nat:
  assumes "n \<le> 8 - off" and "off < 8"
  shows "unat (drop_bit (8 - off - n) (take_bit (8 - off) (b :: u8))) = bits_nat (take n (drop off (byte_bits b)))"
  using assms by (simp add: bits_nat_take bits_nat_drop unat_drop_bit_eq unat_take_bit
      drop_bit_eq_div[where ?'a = nat])

lemma ucast_of_nat: "ucast (x :: 'b::len word) = (of_nat (unat x) :: 'a::len word)"
  by (metis of_nat_unat unsigned_ucast_eq word_of_nat_eq_0_iff of_nat_unat)

text \<open>Reading a field advances the decoder by its bits and returns the number they stand for.\<close>

lemma unpack_loop_bits:
  assumes "dec_wf d"
  shows "if n \<le> length (dec_bits d)
    then \<exists>d'. unpack_loop d val n = (True, val + of_nat (bits_nat (take n (dec_bits d))), d')
      \<and> dec_wf d' \<and> dec_bits d' = drop n (dec_bits d)
    else \<not> fst (unpack_loop d (val :: 'a::len word) n)"
  using assms
proof (induction d val n rule: unpack_loop.induct)
  case (1 d val n)
  let ?k = "8 - bd_offset d"
  have o8: "bd_offset d < 8"
    using 1(2) by (simp add: dec_wf_def)
  show ?case
  proof (cases "n = 0")
    case True
    then show ?thesis
      using 1(2) by (simp add: unpack_loop.simps)
  next
    case n0: False
    show ?thesis
    proof (cases "bd_rest d")
      case Nil
      then show ?thesis
        using n0 by (simp add: unpack_loop.simps[of d] dec_bits_def)
    next
      case (Cons b rest)
      have bits: "dec_bits d = drop (bd_offset d) (byte_bits b) @ bytes_bits rest"
        using Cons o8 by (simp add: dec_bits_def)
      show ?thesis
      proof (cases "n < ?k")
        case True
        then have "unpack_loop d val n = (True, val + of_nat (bits_nat (take n (dec_bits d))),
            d\<lparr>bd_offset := bd_offset d + n\<rparr>)"
          using n0 Cons u8_field[of n ?k b] field_bits_nat[of n "bd_offset d" b] o8
          by (simp add: unpack_loop.simps[of d] ucast_of_nat bits)
        then show ?thesis
          using True Cons bits o8 by (auto simp: dec_wf_def dec_bits_def add.commute)
      next
        case False
        let ?d1 = "d\<lparr>bd_rest := rest, bd_offset := 0\<rparr>"
        let ?v1 = "val + push_bit (n - ?k) (ucast (take_bit ?k b))"
        have mask_b: "b AND (push_bit ?k 1 - 1) = take_bit ?k b"
          using u8_field[of ?k ?k b] o8 by simp
        have res: "unpack_loop d val n = unpack_loop ?d1 ?v1 (n - ?k)"
          using False n0 Cons unfolding mask_b[symmetric] by (simp add: unpack_loop.simps[of d])
        have IH: "if n - ?k \<le> length (dec_bits ?d1)
          then \<exists>d'. unpack_loop ?d1 ?v1 (n - ?k) = (True, ?v1 + of_nat (bits_nat (take (n - ?k) (dec_bits ?d1))), d')
            \<and> dec_wf d' \<and> dec_bits d' = drop (n - ?k) (dec_bits ?d1)
          else \<not> fst (unpack_loop ?d1 ?v1 (n - ?k))"
          using "1.IH"[OF n0 Cons False] unfolding mask_b by (simp add: dec_wf_def)
        have val: "?v1 + of_nat (bits_nat (take (n - ?k) (bytes_bits rest))) = val + of_nat (bits_nat (take n (dec_bits d)))"
          if "n - ?k \<le> 8 * length rest"
          using field_bits_nat[of ?k "bd_offset d" b] o8 False that
          by (simp add: bits bits_nat_append ucast_of_nat push_bit_eq_mult add.assoc)
        have len: "n \<le> length (dec_bits d) \<longleftrightarrow> n - ?k \<le> 8 * length rest"
          using bits False o8 by auto
        have tail: "drop (n - ?k) (bytes_bits rest) = drop n (dec_bits d)"
          using bits False o8 by simp
        have d1: "dec_bits ?d1 = bytes_bits rest"
          by (simp add: dec_bits_def)
        show ?thesis
          using IH val unfolding res d1 len length_bytes_bits tail by (auto split: if_splits)
      qed
    qed
  qed
qed

lemma unpack_bits:
  assumes "dec_wf d" and "n \<le> length (dec_bits d)" and "n \<le> LENGTH('a)"
  obtains d' where "unpack d n = Some (True, of_nat (bits_nat (take n (dec_bits d))) :: 'a::len word, d')"
    and "dec_wf d'" and "dec_bits d' = drop n (dec_bits d)"
  using unpack_loop_bits[OF assms(1), of n "0 :: 'a word"] assms that by (auto simp: unpack_def)

text \<open>A field read from where it was written.\<close>

lemma unpack_field:
  assumes "dec_wf d" and "dec_bits d = nat_bits n v @ rest" and "n \<le> LENGTH('a)"
  obtains d' where "unpack d n = Some (True, of_nat (v mod 2 ^ n) :: 'a::len word, d')"
    and "dec_wf d'" and "dec_bits d' = rest"
  by (rule unpack_bits[of d n, where ?'a = 'a]) (use assms that in \<open>auto simp: bits_nat_nat_bits\<close>)

lemma unpack_each_bits:
  "dec_wf d \<Longrightarrow> dec_bits d = bytes_bits bs @ rest \<Longrightarrow>
     \<exists>d'. unpack_each d (length bs) = (True, bs, d') \<and> dec_wf d' \<and> dec_bits d' = rest"
proof (induction bs arbitrary: d)
  case (Cons b bs)
  obtain d1 where "unpack_loop d (0 :: u8) 8 = (True, b, d1)" "dec_wf d1" "dec_bits d1 = bytes_bits bs @ rest"
    using unpack_loop_bits[OF Cons.prems(1), of 8 "0 :: u8"] Cons.prems(2) by auto
  then show ?case
    using Cons.IH[of d1] by auto
qed simp

lemma dec_bits_length: "dec_wf d \<Longrightarrow> length (dec_bits d) = 8 * length (bd_rest d) - bd_offset d"
  by (simp add: dec_bits_def)

lemma unpack_bytes_bits:
  assumes wf: "dec_wf d" and bits: "dec_bits d = bytes_bits bs @ rest"
  shows "\<exists>d'. unpack_bytes d (length bs) = (True, bs, d') \<and> dec_wf d' \<and> dec_bits d' = rest"
proof (cases "bd_offset d = 0")
  case True
  have len: "length bs \<le> length (bd_rest d)"
    using arg_cong[OF bits, of length] True by (simp add: dec_bits_def)
  have "bytes_bits (take (length bs) (bd_rest d)) @ bytes_bits (drop (length bs) (bd_rest d)) = bytes_bits bs @ rest"
    using bits True by (simp add: dec_bits_def flip: bytes_bits_simps(3))
  then have eq: "bytes_bits (take (length bs) (bd_rest d)) = bytes_bits bs" "bytes_bits (drop (length bs) (bd_rest d)) = rest"
    using len by (simp_all add: append_eq_append_conv)
  have "take (length bs) (bd_rest d) = bs"
    by (rule bytes_bits_inject[OF eq(1)])
  then show ?thesis
    using True len eq(2) by (auto simp: unpack_bytes_def dec_wf_def dec_bits_def)
next
  case False
  have "8 * length bs \<le> 8 * length (bd_rest d) - bd_offset d"
    using arg_cong[OF bits, of length] by (simp add: dec_bits_def)
  then have "length bs \<le> length (bd_rest d)"
    by linarith
  then show ?thesis
    using False unpack_each_bits[OF assms] assms by (cases "bs = []") (auto simp: unpack_bytes_def)
qed

lemma bytes_bits_drop: "bytes_bits (drop k bs) = drop (8 * k) (bytes_bits bs)"
  by (induction bs arbitrary: k) (auto simp: drop_Cons split: nat.splits)

lemma ceil8_exact: "(s + 7) div 8 \<le> l \<Longrightarrow> l \<le> s div 8 \<Longrightarrow> s mod 8 = 0" for s l :: nat
proof -
  assume "(s + 7) div 8 \<le> l" "l \<le> s div 8"
  then have "(s + 7) div 8 \<le> s div 8"
    by simp
  then have "s + 7 < 8 * (s div 8) + 8"
    by linarith
  moreover have "s = 8 * (s div 8) + s mod 8"
    by simp
  ultimately show ?thesis
    by linarith
qed

lemma advance_bits_bits:
  assumes "dec_wf d"
  shows "fst (advance_bits d n) \<longleftrightarrow> n \<le> length (dec_bits d)"
    and "n \<le> length (dec_bits d) \<Longrightarrow> dec_wf (snd (advance_bits d n)) \<and>
      dec_bits (snd (advance_bits d n)) = drop n (dec_bits d)"
proof -
  let ?s = "bd_offset d + n"
  have len: "n \<le> length (dec_bits d) \<longleftrightarrow> ?s \<le> 8 * length (bd_rest d)"
    using assms by (cases "bd_rest d") (auto simp: dec_bits_def dec_wf_def)
  have req: "(?s + 7) div 8 \<le> length (bd_rest d) \<longleftrightarrow> ?s \<le> 8 * length (bd_rest d)"
    by linarith
  show "fst (advance_bits d n) \<longleftrightarrow> n \<le> length (dec_bits d)"
    using req len by (auto simp: advance_bits_def Let_def)
  assume "n \<le> length (dec_bits d)"
  then have ok: "\<not> length (bd_rest d) < (?s + 7) div 8"
    using req len by simp
  have "length (bd_rest d) \<le> ?s div 8 \<Longrightarrow> ?s mod 8 = 0"
    by (rule ceil8_exact) (use ok in simp_all)
  moreover have "?s mod 8 + 8 * (?s div 8) = ?s"
    by simp
  ultimately show "dec_wf (snd (advance_bits d n)) \<and> dec_bits (snd (advance_bits d n)) = drop n (dec_bits d)"
    using ok by (simp add: advance_bits_def Let_def dec_wf_def dec_bits_def bytes_bits_drop add.commute)
qed

section \<open>The codec as a whole\<close>

text \<open>A message as a sequence of fields, each a value and its width in bits.\<close>

fun pack_fields :: "bit_encoder \<Rightarrow> (u64 \<times> nat) list \<Rightarrow> bit_encoder option" where
  "pack_fields e [] = Some e"
| "pack_fields e ((val, n) # fs) = Option.bind (pack e val n) (\<lambda>e'. pack_fields e' fs)"

fun unpack_fields :: "bit_decoder \<Rightarrow> nat list \<Rightarrow> (u64 list \<times> bit_decoder) option" where
  "unpack_fields d [] = Some ([], d)"
| "unpack_fields d (n # ns) = Option.bind (unpack d n) (\<lambda>(ok, v, d').
     if \<not> ok then None else map_option (\<lambda>(vs, d''). (v # vs, d'')) (unpack_fields d' ns))"

definition fields_bits :: "(u64 \<times> nat) list \<Rightarrow> bool list" where
  "fields_bits fs = concat (map (\<lambda>(v, n). nat_bits n (unat v)) fs)"

lemma pack_fields_bits:
  "enc_wf e \<Longrightarrow> \<forall>(v, n) \<in> set fs. n \<le> 64 \<Longrightarrow>
     \<exists>e'. pack_fields e fs = Some e' \<and> enc_wf e' \<and> enc_bits e' = enc_bits e @ fields_bits fs"
proof (induction e fs rule: pack_fields.induct)
  case (2 e val n fs)
  obtain e1 where "pack e val n = Some e1" "enc_wf e1" "enc_bits e1 = enc_bits e @ nat_bits n (unat val)"
    using pack_bits[of e n val] 2 by auto
  then show ?case
    using 2 by (auto simp: fields_bits_def)
qed (simp add: fields_bits_def)

lemma unpack_fields_bits:
  "dec_wf d \<Longrightarrow> dec_bits d = fields_bits fs @ rest \<Longrightarrow> \<forall>(v, n) \<in> set fs. n \<le> 64 \<and> unat v < 2 ^ n \<Longrightarrow>
     \<exists>d'. unpack_fields d (map snd fs) = Some (map fst fs, d') \<and> dec_bits d' = rest"
proof (induction fs arbitrary: d)
  case (Cons f fs)
  obtain val n where f: "f = (val, n)"
    by (cases f)
  obtain d1 where "unpack d n = Some (True, of_nat (unat val mod 2 ^ n) :: u64, d1)" "dec_wf d1"
      "dec_bits d1 = fields_bits fs @ rest"
    using unpack_field[of d n "unat val" "fields_bits fs @ rest", where ?'a = 64] Cons.prems f
    by (auto simp: fields_bits_def)
  moreover have "of_nat (unat val mod 2 ^ n) = val"
    using Cons.prems(3) f by auto
  ultimately show ?case
    using Cons.IH[of d1] Cons.prems(3) f by auto
qed (simp add: fields_bits_def)

text \<open>
  C31: For every buffer the encoder starts from and every sequence of fields of at most 64 bits whose
  values fit their widths, packing does not fail and leaves the earlier bytes as they were; a decoder
  placed behind them that unpacks the same widths returns exactly the values packed, and what
  remains is fewer than eight zero bits of padding.
\<close>

theorem bit_codec_roundtrip:
  assumes "\<forall>(v, n) \<in> set fs. n \<le> 64 \<and> unat v < 2 ^ n"
  shows "\<exists>e d. pack_fields (bit_encoder_new buf) fs = Some e \<and> take (length buf) (be_buf e) = buf
    \<and> unpack_fields (bit_decoder_new (drop (length buf) (be_buf e))) (map snd fs) = Some (map fst fs, d)
    \<and> length (dec_bits d) < 8 \<and> True \<notin> set (dec_bits d)"
proof -
  have "\<forall>(v, n) \<in> set fs. n \<le> 64"
    using assms by auto
  then obtain e where e: "pack_fields (bit_encoder_new buf) fs = Some e" "enc_wf e"
      "enc_bits e = bytes_bits buf @ fields_bits fs"
    using pack_fields_bits[OF enc_wf_new, of fs buf] by (auto simp: enc_bits_new)
  then obtain k where k: "k < 8" "bytes_bits (be_buf e) = bytes_bits buf @ fields_bits fs @ replicate k False"
    using enc_buf_bits[of e] by auto
  let ?rest = "drop (length buf) (be_buf e)"
  have len: "length buf \<le> length (be_buf e)"
    using arg_cong[OF k(2), of length] by simp
  have "bytes_bits (take (length buf) (be_buf e)) @ bytes_bits ?rest = bytes_bits buf @ fields_bits fs @ replicate k False"
    using k(2) by (simp flip: bytes_bits_simps(3))
  then have split: "bytes_bits (take (length buf) (be_buf e)) = bytes_bits buf"
      "bytes_bits ?rest = fields_bits fs @ replicate k False"
    using len by (simp_all add: append_eq_append_conv)
  obtain d where "unpack_fields (bit_decoder_new ?rest) (map snd fs) = Some (map fst fs, d)"
      "dec_bits d = replicate k False"
    using unpack_fields_bits[of "bit_decoder_new ?rest" fs "replicate k False"] split(2) assms
    by (auto simp: dec_bits_new)
  then show ?thesis
    using e(1) k(1) bytes_bits_inject[OF split(1)] by auto
qed

theorem bit_codec_roundtrip_witness:
  "\<exists>e d. pack_fields (bit_encoder_new [0xAB]) [(1, 1), (0x2F, 6), (0x12345, 18)] = Some e
    \<and> take 1 (be_buf e) = [0xAB]
    \<and> unpack_fields (bit_decoder_new (drop 1 (be_buf e))) [1, 6, 18] = Some ([1, 0x2F, 0x12345], d)
    \<and> length (dec_bits d) < 8 \<and> True \<notin> set (dec_bits d)"
  using bit_codec_roundtrip[of "[(1, 1), (0x2F, 6), (0x12345, 18)]" "[0xAB]"] by simp

end
