(* ===== verification/Security_Engine.thy ===== *)
theory Security_Engine
  imports Rlc_Prelude
begin

unbundle bit_operations_syntax

text \<open>
  \<open>lib/security/security_engine_impl.cpp\<close> with the integrity and ciphering engines it owns
  (\<open>integrity_engine_generic.cpp\<close>, \<open>integrity_engine_nia2_*.cpp\<close>, \<open>ciphering_engine_nea*.cpp\<close>) and
  the types of \<open>include/ocudu/security/security.h\<close>.  The keystream of a ciphering algorithm and the
  MAC of an integrity algorithm are functions of a record the operations take as an argument; a
  function value \<^const>\<open>None\<close> is an error return of the algorithm, which the integrity engines answer with \<open>integrity_failure\<close>.  What happens
  inside an algorithm is stated with the algorithm (\<open>Nea_Nia\<close>): where its own assertion fails, as that of NIA2 on the size of its
  buffer in the build without the CMAC of the library, or its arithmetic overflows, the engine below sees the same
  error return.  A result \<^const>\<open>None\<close> of an operation is
  a failed assertion or an access outside the buffer.
\<close>

section \<open>Algorithms, keys and configuration\<close>

datatype ciphering_algorithm = nea0 | nea1 | nea2 | nea3
datatype integrity_algorithm = nia0 | nia1 | nia2 | nia3
datatype security_direction = sec_uplink | sec_downlink
datatype integrity_enabled = integrity_off | integrity_on | integrity_smc_transition
datatype ciphering_enabled = ciphering_off | ciphering_on
datatype sec_domain = sec_rrc | sec_up

datatype security_status = sec_success | sec_success_unprotected | sec_buffer_failure
  | sec_engine_failure | sec_integrity_failure | sec_ciphering_failure

definition sec_is_success :: "security_status \<Rightarrow> bool" where
  "sec_is_success s \<longleftrightarrow> s = sec_success \<or> s = sec_success_unprotected"

definition sec_mac_len :: nat where
  "sec_mac_len = 4"

record sec_128_as_config =
  sc_domain :: sec_domain
  sc_k_128_int :: "bytes option"
  sc_k_128_enc :: bytes
  sc_integ_algo :: "integrity_algorithm option"
  sc_cipher_algo :: ciphering_algorithm

text \<open>The algorithms: key, COUNT, bearer, direction and message.\<close>

record sec_prims =
  sp_nea :: "ciphering_algorithm \<Rightarrow> bytes \<Rightarrow> u32 \<Rightarrow> u8 \<Rightarrow> security_direction \<Rightarrow> bytes \<Rightarrow> bytes option"
  sp_nia :: "integrity_algorithm \<Rightarrow> bytes \<Rightarrow> u32 \<Rightarrow> u8 \<Rightarrow> security_direction \<Rightarrow> bytes \<Rightarrow> bytes option"

section \<open>The integrity engine\<close>

record integrity_engine =
  ie_k_128_int :: bytes
  ie_bearer_id :: u8
  ie_direction :: security_direction
  ie_integ_algo :: integrity_algorithm

definition ie_compute_mac :: "sec_prims \<Rightarrow> integrity_engine \<Rightarrow> bytes \<Rightarrow> u32 \<Rightarrow> bytes option" where
  "ie_compute_mac p ie v count = (if ie_integ_algo ie = nia0 then Some [0, 0, 0, 0]
     else sp_nia p (ie_integ_algo ie) (ie_k_128_int ie) count (ie_bearer_id ie) (ie_direction ie) v)"

text \<open>The flag says whether the buffer can be extended.\<close>

definition protect_integrity ::
  "sec_prims \<Rightarrow> integrity_engine \<Rightarrow> bool \<Rightarrow> bytes \<Rightarrow> u32 \<Rightarrow> security_status \<times> bytes" where
  "protect_integrity p ie mem_ok buf count = (case ie_compute_mac p ie buf count of
       None \<Rightarrow> (sec_integrity_failure, buf)
     | Some mac \<Rightarrow> if \<not> mem_ok then (sec_buffer_failure, buf) else (sec_success, buf @ mac))"

definition verify_integrity ::
  "sec_prims \<Rightarrow> integrity_engine \<Rightarrow> bytes \<Rightarrow> u32 \<Rightarrow> security_status \<times> bytes" where
  "verify_integrity p ie buf count = (if length buf \<le> sec_mac_len then (sec_integrity_failure, buf)
     else let v = take (length buf - sec_mac_len) buf; m = drop (length buf - sec_mac_len) buf
     in case ie_compute_mac p ie v count of
          None \<Rightarrow> (sec_integrity_failure, buf)
        | Some mac \<Rightarrow> if mac \<noteq> m then (sec_integrity_failure, buf) else (sec_success, v))"

section \<open>The ciphering engine\<close>

record ciphering_engine =
  ce_k_128_enc :: bytes
  ce_bearer_id :: u8
  ce_direction :: security_direction
  ce_algo :: ciphering_algorithm

definition apply_ciphering ::
  "sec_prims \<Rightarrow> ciphering_engine \<Rightarrow> bytes \<Rightarrow> nat \<Rightarrow> u32 \<Rightarrow> (security_status \<times> bytes) option" where
  "apply_ciphering p ce buf offset count = (if length buf < offset then None else
     case sp_nea p (ce_algo ce) (ce_k_128_enc ce) count (ce_bearer_id ce) (ce_direction ce) (drop offset buf) of
       None \<Rightarrow> Some (sec_ciphering_failure, buf)
     | Some msg \<Rightarrow> Some (sec_success, take offset buf @ msg))"

section \<open>The security engine\<close>

record security_engine =
  se_integ_eng :: "integrity_engine option"
  se_cipher_eng :: "ciphering_engine option"
  se_allow_unprotected :: bool

definition security_engine_new :: "sec_128_as_config \<Rightarrow> u8 \<Rightarrow> security_direction \<Rightarrow> integrity_enabled
    \<Rightarrow> ciphering_enabled \<Rightarrow> security_engine option" where
  "security_engine_new sec_cfg bearer direction integ ciph =
     (let integ_eng = (if integ = integrity_off then Some None
         else case (sc_integ_algo sec_cfg, sc_k_128_int sec_cfg) of
             (Some algo, Some key) \<Rightarrow> Some (Some \<lparr>ie_k_128_int = key, ie_bearer_id = bearer,
                ie_direction = direction, ie_integ_algo = algo\<rparr>)
           | _ \<Rightarrow> None);
          cipher_eng = (if ciph = ciphering_on \<and> sc_cipher_algo sec_cfg \<noteq> nea0
         then Some \<lparr>ce_k_128_enc = sc_k_128_enc sec_cfg, ce_bearer_id = bearer,
                ce_direction = direction, ce_algo = sc_cipher_algo sec_cfg\<rparr>
         else None)
      in map_option (\<lambda>ie. \<lparr>se_integ_eng = ie, se_cipher_eng = cipher_eng,
           se_allow_unprotected = (integ = integrity_smc_transition)\<rparr>) integ_eng)"

definition encrypt_and_protect_integrity :: "sec_prims \<Rightarrow> security_engine \<Rightarrow> bool \<Rightarrow> bytes \<Rightarrow> nat \<Rightarrow> u32
    \<Rightarrow> (security_status \<times> bytes) option" where
  "encrypt_and_protect_integrity p se mem_ok buf offset count =
     (let (integ_status, buf1) = (case se_integ_eng se of
          None \<Rightarrow> (sec_success_unprotected, buf)
        | Some ie \<Rightarrow> protect_integrity p ie mem_ok buf count)
      in if \<not> sec_is_success integ_status then Some (integ_status, buf1)
      else case se_cipher_eng se of
          None \<Rightarrow> Some (integ_status, buf1)
        | Some ce \<Rightarrow> Option.bind (apply_ciphering p ce buf1 offset count) (\<lambda>(cipher_status, buf2).
            Some (if \<not> sec_is_success cipher_status then cipher_status else integ_status, buf2)))"

text \<open>
  The second half of \<open>decrypt_and_verify_integrity\<close>: the view of the last four bytes of a shorter
  buffer lies outside of it.
\<close>

definition verify_or_zero_mac ::
  "sec_prims \<Rightarrow> security_engine \<Rightarrow> bytes \<Rightarrow> u32 \<Rightarrow> (security_status \<times> bytes) option" where
  "verify_or_zero_mac p se buf count = (case se_integ_eng se of
       None \<Rightarrow> Some (sec_success_unprotected, buf)
     | Some ie \<Rightarrow> (let (integ_status, buf1) = verify_integrity p ie buf count in
         if se_allow_unprotected se \<and> integ_status = sec_integrity_failure then
           (if length buf1 < sec_mac_len then None
            else if drop (length buf1 - sec_mac_len) buf1 = [0, 0, 0, 0]
            then Some (sec_success_unprotected, take (length buf1 - sec_mac_len) buf1)
            else Some (integ_status, buf1))
         else Some (integ_status, buf1)))"

definition decrypt_and_verify_integrity :: "sec_prims \<Rightarrow> security_engine \<Rightarrow> bytes \<Rightarrow> nat \<Rightarrow> u32
    \<Rightarrow> (security_status \<times> bytes) option" where
  "decrypt_and_verify_integrity p se buf offset count = (case se_cipher_eng se of
       None \<Rightarrow> verify_or_zero_mac p se buf count
     | Some ce \<Rightarrow> Option.bind (apply_ciphering p ce buf offset count) (\<lambda>(cipher_status, buf1).
         if \<not> sec_is_success cipher_status then Some (cipher_status, buf1)
         else verify_or_zero_mac p se buf1 count))"

section \<open>What the algorithms promise\<close>

text \<open>
  Ciphering is its own inverse and keeps the length of the message, whatever the key; a MAC has four
  bytes.
\<close>

locale sec_algorithms =
  fixes nea :: "ciphering_algorithm \<Rightarrow> bytes \<Rightarrow> u32 \<Rightarrow> u8 \<Rightarrow> security_direction \<Rightarrow> bytes \<Rightarrow> bytes option"
    and nia :: "integrity_algorithm \<Rightarrow> bytes \<Rightarrow> u32 \<Rightarrow> u8 \<Rightarrow> security_direction \<Rightarrow> bytes \<Rightarrow> bytes option"
  assumes nea_inverse: "nea a k c b d msg = Some msg' \<Longrightarrow> nea a k c b d msg' = Some msg"
    and nea_length: "nea a k c b d msg = Some msg' \<Longrightarrow> length msg' = length msg"
    and nia_length: "nia ia k c b d msg = Some mac \<Longrightarrow> length mac = sec_mac_len"
begin

lemma nea_same_count: "nea a k c b d msg1 = Some msg' \<Longrightarrow> nea a k c b d msg2 = Some msg' \<Longrightarrow> msg1 = msg2"
  using nea_inverse by (metis option.inject)

end

definition prims_ok :: "sec_prims \<Rightarrow> bool" where
  "prims_ok p \<longleftrightarrow> sec_algorithms (sp_nea p) (sp_nia p)"

section \<open>Protect and verify\<close>

lemma prims_okD:
  assumes "prims_ok p"
  shows "sp_nea p a k c b d msg = Some msg' \<Longrightarrow> sp_nea p a k c b d msg' = Some msg"
    and "sp_nea p a k c b d msg = Some msg' \<Longrightarrow> length msg' = length msg"
    and "sp_nia p ia k c b d msg = Some mac \<Longrightarrow> length mac = sec_mac_len"
  by (fact sec_algorithms.nea_inverse[OF assms[unfolded prims_ok_def]]
    sec_algorithms.nea_length[OF assms[unfolded prims_ok_def]]
    sec_algorithms.nia_length[OF assms[unfolded prims_ok_def]])+

lemma compute_mac_length:
  "prims_ok p \<Longrightarrow> ie_compute_mac p ie v count = Some mac \<Longrightarrow> length mac = sec_mac_len"
  by (auto simp: ie_compute_mac_def sec_mac_len_def dest!: prims_okD(3) split: if_splits)

text \<open>The engine accepts a buffer exactly when protecting what it returns gives the buffer back.\<close>

lemma verify_integrity_iff:
  assumes "prims_ok p" and "buf \<noteq> []"
  shows "verify_integrity p ie pdu count = (sec_success, buf) \<longleftrightarrow>
    protect_integrity p ie True buf count = (sec_success, pdu)"
proof
  assume "verify_integrity p ie pdu count = (sec_success, buf)"
  then show "protect_integrity p ie True buf count = (sec_success, pdu)"
    by (auto simp: verify_integrity_def protect_integrity_def Let_def split: if_splits option.splits)
next
  assume "protect_integrity p ie True buf count = (sec_success, pdu)"
  then obtain mac where "ie_compute_mac p ie buf count = Some mac" "pdu = buf @ mac"
    by (auto simp: protect_integrity_def split: option.splits)
  then show "verify_integrity p ie pdu count = (sec_success, buf)"
    using compute_mac_length[OF assms(1), of ie buf count mac] assms(2)
    by (simp add: verify_integrity_def)
qed

lemma apply_ciphering_inverse:
  assumes "prims_ok p"
  shows "apply_ciphering p ce buf off count = Some (sec_success, out) \<longleftrightarrow>
    apply_ciphering p ce out off count = Some (sec_success, buf)"
proof -
  have "apply_ciphering p ce b off count = Some (sec_success, a)"
    if "apply_ciphering p ce a off count = Some (sec_success, b)" for a b
  proof -
    obtain msg where "off \<le> length a" "b = take off a @ msg" and nea:
      "sp_nea p (ce_algo ce) (ce_k_128_enc ce) count (ce_bearer_id ce) (ce_direction ce) (drop off a) = Some msg"
      using \<open>apply_ciphering p ce a off count = _\<close>
      by (auto simp: apply_ciphering_def split: if_splits option.splits)
    then show ?thesis
      using prims_okD(1)[OF assms nea] by (simp add: apply_ciphering_def)
  qed
  then show ?thesis
    by blast
qed

lemma apply_ciphering_status:
  "apply_ciphering p ce buf off count = Some (s, out) \<Longrightarrow> s = sec_success \<or> s = sec_ciphering_failure"
  by (auto simp: apply_ciphering_def split: if_splits option.splits)

lemma protect_integrity_status:
  "protect_integrity p ie m buf count = (s, out) \<Longrightarrow>
     s = sec_success \<or> (s = sec_integrity_failure \<or> s = sec_buffer_failure) \<and> out = buf"
  by (auto simp: protect_integrity_def split: if_splits option.splits)

lemma verify_integrity_status:
  "verify_integrity p ie buf count = (s, out) \<Longrightarrow> s = sec_success \<or> s = sec_integrity_failure \<and> out = buf"
  by (auto simp: verify_integrity_def Let_def split: if_splits option.splits)

lemma verify_or_zero_mac_success:
  assumes "se_integ_eng se = Some ie"
  shows "verify_or_zero_mac p se buf count = Some (sec_success, out) \<longleftrightarrow>
    verify_integrity p ie buf count = (sec_success, out)"
  using verify_integrity_status[of p ie buf count]
  by (cases "verify_integrity p ie buf count") (auto simp: verify_or_zero_mac_def assms)

lemma encrypt_success_iff:
  assumes "se_integ_eng se = Some ie"
  shows "encrypt_and_protect_integrity p se m buf off count = Some (sec_success, out) \<longleftrightarrow>
    (\<exists>mid. protect_integrity p ie m buf count = (sec_success, mid) \<and>
      (case se_cipher_eng se of None \<Rightarrow> out = mid
       | Some ce \<Rightarrow> apply_ciphering p ce mid off count = Some (sec_success, out)))"
  using protect_integrity_status[of p ie m buf count]
  by (cases "protect_integrity p ie m buf count")
    (auto simp: encrypt_and_protect_integrity_def assms sec_is_success_def bind_eq_Some_conv'
      dest: apply_ciphering_status split: option.splits if_splits)

lemma decrypt_success_iff:
  assumes "se_integ_eng se = Some ie"
  shows "decrypt_and_verify_integrity p se buf off count = Some (sec_success, out) \<longleftrightarrow>
    (\<exists>mid. verify_integrity p ie mid count = (sec_success, out) \<and>
      (case se_cipher_eng se of None \<Rightarrow> mid = buf
       | Some ce \<Rightarrow> apply_ciphering p ce buf off count = Some (sec_success, mid)))"
  using verify_or_zero_mac_success[OF assms]
  by (auto simp: decrypt_and_verify_integrity_def sec_is_success_def bind_eq_Some_conv'
      dest: apply_ciphering_status split: option.splits if_splits)

text \<open>
  For a receiving and a transmitting engine with the same integrity and ciphering configuration,
  and algorithms whose ciphering is an involution and whose MACs have four bytes: the receiver accepts
  a PDU as integrity verified with content \<open>buf\<close> exactly when that PDU is what the transmitter
  produces from \<open>buf\<close> under the same COUNT.  So everything protected is recovered, and nothing else is
  accepted, also while PDUs with a zero MAC-I are tolerated.
\<close>

theorem security_engine_exact:
  assumes "prims_ok p" and "se_integ_eng se = Some ie" and "buf \<noteq> []"
  shows "decrypt_and_verify_integrity p (se\<lparr>se_allow_unprotected := smc\<rparr>) pdu off count = Some (sec_success, buf)
    \<longleftrightarrow> encrypt_and_protect_integrity p se True buf off count = Some (sec_success, pdu)"
  using assms(2) verify_integrity_iff[OF assms(1,3), of ie] apply_ciphering_inverse[OF assms(1)]
  by (auto simp: encrypt_success_iff decrypt_success_iff split: option.splits)

definition demo_prims :: sec_prims where
  "demo_prims = \<lparr>sp_nea = (\<lambda>a k c b d msg. Some (map (\<lambda>x. x XOR 0x5A) msg)),
     sp_nia = (\<lambda>a k c b d msg. Some [ucast c, b, sum_list msg, 7])\<rparr>"

lemma demo_prims_ok: "prims_ok demo_prims"
  unfolding prims_ok_def demo_prims_def
  by unfold_locales (auto simp: sec_mac_len_def o_def xor.assoc)

text \<open>An engine of an SRB with integrity protection and ciphering.\<close>

definition demo_engine :: security_engine where
  "demo_engine = \<lparr>se_integ_eng = Some \<lparr>ie_k_128_int = replicate 16 1, ie_bearer_id = 0,
       ie_direction = sec_uplink, ie_integ_algo = nia2\<rparr>,
     se_cipher_eng = Some \<lparr>ce_k_128_enc = replicate 16 2, ce_bearer_id = 0,
       ce_direction = sec_uplink, ce_algo = nea2\<rparr>, se_allow_unprotected = False\<rparr>"

theorem security_engine_exact_witness:
  "decrypt_and_verify_integrity demo_prims (demo_engine\<lparr>se_allow_unprotected := True\<rparr>)
       [0, 5, 0x5B, 0x5F, 0x5A, 0x5C, 0x5D] 2 5 = Some (sec_success, [0, 5, 1])
   \<and> encrypt_and_protect_integrity demo_prims demo_engine True [0, 5, 1] 2 5 =
       Some (sec_success, [0, 5, 0x5B, 0x5F, 0x5A, 0x5C, 0x5D])"
proof -
  have integ: "\<exists>ie. se_integ_eng demo_engine = Some ie"
    by (simp add: demo_engine_def)
  have enc: "encrypt_and_protect_integrity demo_prims demo_engine True [0, 5, 1] 2 5 =
       Some (sec_success, [0, 5, 0x5B, 0x5F, 0x5A, 0x5C, 0x5D])"
    by code_simp
  then show ?thesis
    using integ security_engine_exact[OF demo_prims_ok, of demo_engine _ "[0, 5, 1]" True
      "[0, 5, 0x5B, 0x5F, 0x5A, 0x5C, 0x5D]" 2 5] by auto
qed

text \<open>
  C40: While PDUs with a zero MAC-I are tolerated (\<open>smc_transition\<close>), the engine reads the last four
  bytes of every PDU that fails the integrity check; for a PDU of fewer than four bytes this is an access
  outside the buffer, whatever its content and the keys.
\<close>

theorem smc_transition_short_pdu:
  assumes "se_integ_eng se = Some ie" and "se_cipher_eng se = None" and "se_allow_unprotected se"
  shows "decrypt_and_verify_integrity p se pdu off count = None \<longleftrightarrow> length pdu < sec_mac_len"
  using assms
  by (auto simp: decrypt_and_verify_integrity_def verify_or_zero_mac_def verify_integrity_def Let_def
      sec_mac_len_def split: option.splits if_splits)

theorem smc_transition_short_pdu_witness:
  "decrypt_and_verify_integrity demo_prims
     (demo_engine\<lparr>se_cipher_eng := None, se_allow_unprotected := True\<rparr>) [0, 0, 1] 2 0 = None"
proof -
  have "\<exists>ie. se_integ_eng (demo_engine\<lparr>se_cipher_eng := None, se_allow_unprotected := True\<rparr>) = Some ie"
    by (simp add: demo_engine_def)
  then show ?thesis
    using smc_transition_short_pdu[of "demo_engine\<lparr>se_cipher_eng := None, se_allow_unprotected := True\<rparr>" _
        demo_prims "[0, 0, 1]" 2 0] by (auto simp: sec_mac_len_def)
qed

end
