(* ===== verification/Pdcp_Base.thy ===== *)
theory Pdcp_Base
  imports Rlc_Config Bit_Encoding Security_Engine
begin

unbundle bit_operations_syntax

text \<open>
  What the transmitting and the receiving PDCP entity share: the configuration of
  \<open>include/ocudu/pdcp/pdcp_config.h\<close>, the arithmetic of COUNT, HFN and SN of \<open>lib/pdcp/pdcp_sn.h\<close>
  and \<open>pdcp_entity_tx_rx_base.h\<close>, the headers of \<open>pdcp_pdu.h\<close>, and the reconstruction of a COUNT from
  a sequence number that both entities carry out.
\<close>

text \<open>Congruence rules that keep evaluation out of the continuations.\<close>

lemma bind_weak_cong: "x = y \<Longrightarrow> Option.bind x f = Option.bind y f"
  by simp

lemma map_option_weak_cong: "x = y \<Longrightarrow> map_option f x = map_option f y"
  by simp

lemmas eval_congs = bind_weak_cong map_option_weak_cong option.case_cong_weak

section \<open>Configuration\<close>

datatype pdcp_rb_type = pdcp_srb | pdcp_drb
datatype pdcp_rlc_mode = pdcp_um | pdcp_am
datatype pdcp_security_direction = pdcp_uplink | pdcp_downlink

record pdcp_max_count =
  mc_notify :: u32
  mc_hard :: u32

definition pdcp_tx_default_max_count_notify :: u32 where
  "pdcp_tx_default_max_count_notify = 0xc0000000"
definition pdcp_tx_default_max_count_hard :: u32 where
  "pdcp_tx_default_max_count_hard = 0xfffffffe"
definition pdcp_rx_default_max_count_notify :: u32 where
  "pdcp_rx_default_max_count_notify = 0xc0000000"
definition pdcp_rx_default_max_count_hard :: u32 where
  "pdcp_rx_default_max_count_hard = 0xd0000000"

text \<open>The initializer of \<open>pdcp_custom_config_base\<close>, the base of the TX and of the RX parameters.\<close>

definition pdcp_custom_max_count :: pdcp_max_count where
  "pdcp_custom_max_count = \<lparr>mc_notify = pdcp_tx_default_max_count_notify,
     mc_hard = pdcp_tx_default_max_count_hard\<rparr>"

text \<open>Timer values are milliseconds; infinity is -1.\<close>

record pdcp_tx_config =
  txc_rb_type :: pdcp_rb_type
  txc_rlc_mode :: pdcp_rlc_mode
  txc_sn_size :: pdcp_sn_size
  txc_direction :: pdcp_security_direction
  txc_header_compression :: bool
  txc_uplink_only_rohc :: bool
  txc_discard_timer :: "int option"
  txc_status_report_required :: bool
  txc_max_count :: pdcp_max_count
  txc_test_mode :: bool

record pdcp_rx_config =
  rxc_rb_type :: pdcp_rb_type
  rxc_rlc_mode :: pdcp_rlc_mode
  rxc_sn_size :: pdcp_sn_size
  rxc_direction :: pdcp_security_direction
  rxc_header_compression :: bool
  rxc_t_reordering :: int
  rxc_max_count :: pdcp_max_count

definition pdcp_t_reordering_infinity :: int where
  "pdcp_t_reordering_infinity = - 1"
definition pdcp_discard_timer_infinity :: int where
  "pdcp_discard_timer_infinity = - 1"

definition to_security_direction :: "pdcp_security_direction \<Rightarrow> security_direction" where
  "to_security_direction d = (if d = pdcp_uplink then sec_uplink else sec_downlink)"

section \<open>Sizes\<close>

text \<open>The value of the enumerator; that it is not \<open>invalid\<close> is asserted.\<close>

fun pdcp_sn_size_to_uint :: "pdcp_sn_size \<Rightarrow> nat" where
  "pdcp_sn_size_to_uint pdcp_size12bits = 12"
| "pdcp_sn_size_to_uint pdcp_size18bits = 18"
| "pdcp_sn_size_to_uint pdcp_invalid = 19"

definition pcdp_sn_cardinality :: "nat \<Rightarrow> u32 option" where
  "pcdp_sn_cardinality sn_size = (if sn_size < 32 then Some (push_bit sn_size 1) else None)"

definition pdcp_window_size_bits :: "nat \<Rightarrow> u32 option" where
  "pdcp_window_size_bits sn_size = pcdp_sn_cardinality (sn_size - 1)"

definition pdcp_data_header_size :: "pdcp_sn_size \<Rightarrow> u32" where
  "pdcp_data_header_size sz = (if sz = pdcp_size12bits then 2 else 3)"

definition pdcp_data_trailer_size :: "pdcp_rb_type \<Rightarrow> bool \<Rightarrow> u32" where
  "pdcp_data_trailer_size rb integrity_enabled =
     (if rb = pdcp_srb then 4 else if integrity_enabled then 4 else 0)"

fun pdcp_data_pdu_header_size :: "pdcp_sn_size \<Rightarrow> nat option" where
  "pdcp_data_pdu_header_size pdcp_size12bits = Some 2"
| "pdcp_data_pdu_header_size pdcp_size18bits = Some 3"
| "pdcp_data_pdu_header_size pdcp_invalid = None"

fun pdcp_window_size :: "pdcp_sn_size \<Rightarrow> u32 option" where
  "pdcp_window_size pdcp_size12bits = Some 2048"
| "pdcp_window_size pdcp_size18bits = Some 131072"
| "pdcp_window_size pdcp_invalid = None"

section \<open>COUNT, HFN and SN\<close>

definition pdcp_compute_sn :: "u32 \<Rightarrow> pdcp_sn_size \<Rightarrow> u32" where
  "pdcp_compute_sn count sz = count AND drop_bit (32 - pdcp_sn_size_to_uint sz) 0xffffffff"

definition pdcp_compute_hfn :: "u32 \<Rightarrow> pdcp_sn_size \<Rightarrow> u32" where
  "pdcp_compute_hfn count sz = drop_bit (pdcp_sn_size_to_uint sz) count"

definition pdcp_compute_count :: "u32 \<Rightarrow> u32 \<Rightarrow> pdcp_sn_size \<Rightarrow> u32" where
  "pdcp_compute_count hfn sn sz = push_bit (pdcp_sn_size_to_uint sz) hfn OR sn"

record pdcp_count_info =
  ci_sn :: u32
  ci_hfn :: u32

text \<open>
  The reconstruction of RCVD_COUNT in \<open>handle_data_pdu\<close> and of NOTIFICATION_COUNT in
  \<open>notification_count_estimation\<close>; \<open>lower\<close> is RX_DELIV or the lower edge of the TX window.  The first
  comparison is on \<open>int64_t\<close>, the second on \<open>uint32_t\<close>.
\<close>

definition count_estimation :: "pdcp_sn_size \<Rightarrow> u32 \<Rightarrow> u32 \<Rightarrow> u32 \<Rightarrow> u32" where
  "count_estimation sz wsize lower sn =
     (let hfn = (if uint sn < uint (pdcp_compute_sn lower sz) - uint wsize
            then pdcp_compute_hfn lower sz + 1
          else if pdcp_compute_sn lower sz + wsize \<le> sn then pdcp_compute_hfn lower sz - 1
          else pdcp_compute_hfn lower sz)
      in pdcp_compute_count hfn sn sz)"

section \<open>PDU headers\<close>

datatype pdcp_dc_field = pdcp_dc_control | pdcp_dc_data

definition pdcp_pdu_get_dc :: "u8 \<Rightarrow> pdcp_dc_field" where
  "pdcp_pdu_get_dc b = (if drop_bit 7 b AND 1 = 0 then pdcp_dc_control else pdcp_dc_data)"

text \<open>The control PDU type keeps its three bits: values above \<open>udc_feedback\<close> can be received.\<close>

type_synonym pdcp_control_pdu_type = u8

definition cpt_status_report :: pdcp_control_pdu_type where "cpt_status_report = 0"
definition cpt_interspersed_rohc_feedback :: pdcp_control_pdu_type where "cpt_interspersed_rohc_feedback = 1"

definition pdcp_control_pdu_get_cpt :: "u8 \<Rightarrow> pdcp_control_pdu_type" where
  "pdcp_control_pdu_get_cpt b = drop_bit 4 b AND 7"

definition pdcp_control_pdu_max_size :: nat where
  "pdcp_control_pdu_max_size = 9000"

definition read_data_pdu_header :: "pdcp_sn_size \<Rightarrow> bytes \<Rightarrow> u32 option" where
  "read_data_pdu_header sz buf = Option.bind (pdcp_data_pdu_header_size sz) (\<lambda>hdr_len_bytes.
     if length buf \<le> hdr_len_bytes then None
     else if sz = pdcp_size12bits
       then Some (push_bit 8 (ucast (buf ! 0) AND 0x0f) OR (ucast (buf ! 1) AND 0xff))
       else Some (push_bit 16 (ucast (buf ! 0) AND 0x03) OR push_bit 8 (ucast (buf ! 1) AND 0xff)
              OR (ucast (buf ! 2) AND 0xff)))"

text \<open>
  The flag says whether the header room can be reserved.  The result is the value returned and the
  buffer; \<^const>\<open>None\<close> is a failed assertion.
\<close>

definition prepend_data_pdu_header ::
  "pdcp_rb_type \<Rightarrow> pdcp_sn_size \<Rightarrow> bool \<Rightarrow> bytes \<Rightarrow> u32 \<Rightarrow> (bool \<times> bytes) option" where
  "prepend_data_pdu_header rb sz mem_ok buf sn =
     (if rb = pdcp_srb \<and> sz = pdcp_size18bits then None
      else if \<not> mem_ok then Some (False, buf)
      else let dc = (if rb = pdcp_srb then 0x00 else 0x80) in case sz of
          pdcp_size12bits \<Rightarrow> Some (True,
            (dc OR ucast (drop_bit 8 (sn AND 0x00000f00))) # ucast (sn AND 0x000000ff) # buf)
        | pdcp_size18bits \<Rightarrow> Some (True,
            (dc OR ucast (drop_bit 16 (sn AND 0x00030000))) # ucast (drop_bit 8 (sn AND 0x0000ff00))
              # ucast (sn AND 0x000000ff) # buf)
        | pdcp_invalid \<Rightarrow> Some (False, dc # 0 # 0 # buf))"

definition prepend_control_pdu_header :: "bool \<Rightarrow> bytes \<Rightarrow> pdcp_control_pdu_type \<Rightarrow> bool \<times> bytes" where
  "prepend_control_pdu_header mem_ok buf cpt =
     (if \<not> mem_ok then (False, buf) else (True, push_bit 4 (cpt AND 3) # buf))"

section \<open>Arithmetic of COUNT\<close>

abbreviation sn_len :: "pdcp_sn_size \<Rightarrow> nat" where
  "sn_len \<equiv> pdcp_sn_size_to_uint"

definition valid_sn_size :: "pdcp_sn_size \<Rightarrow> bool" where
  "valid_sn_size sz \<longleftrightarrow> sz \<noteq> pdcp_invalid"

text \<open>Half of the range of sequence numbers.\<close>

definition half_range :: "pdcp_sn_size \<Rightarrow> nat" where
  "half_range sz = 2 ^ (sn_len sz - 1)"

lemma sn_len_bounds: "12 \<le> sn_len sz" "sn_len sz < 32" "Suc (sn_len sz - 1) = sn_len sz"
  by (cases sz; simp)+

lemma half_range_double: "2 * half_range sz = 2 ^ sn_len sz"
  by (cases sz) (simp_all add: half_range_def)

lemma half_range_bounds: "2048 \<le> half_range sz" "half_range sz \<le> 2 ^ 18"
  by (cases sz; simp add: half_range_def)+

lemma window_size_half_range:
  "valid_sn_size sz \<Longrightarrow> pdcp_window_size sz = Some (of_nat (half_range sz))"
  "pdcp_window_size_bits (sn_len sz) = Some (of_nat (half_range sz))"
  by (cases sz; simp add: valid_sn_size_def half_range_def pdcp_window_size_bits_def pcdp_sn_cardinality_def)+

lemma compute_sn_take_bit: "pdcp_compute_sn count sz = take_bit (sn_len sz) count"
proof -
  have "drop_bit (32 - sn_len sz) (0xffffffff :: u32) = mask (sn_len sz)"
    by (cases sz) (simp_all add: mask_eq_exp_minus_1)
  then show ?thesis
    by (simp add: pdcp_compute_sn_def take_bit_eq_mask)
qed

lemma unat_compute_sn: "unat (pdcp_compute_sn count sz) = unat count mod 2 ^ sn_len sz"
  by (simp add: compute_sn_take_bit unat_take_bit)

lemma unat_compute_hfn: "unat (pdcp_compute_hfn count sz) = unat count div 2 ^ sn_len sz"
  by (simp add: pdcp_compute_hfn_def unat_drop_bit_eq drop_bit_eq_div[where ?'a = nat])

lemma push_bit_and_take_bit_eq_0: "push_bit n x AND take_bit n (y :: u32) = 0"
  by (rule bit_eqI) (simp add: bit_and_iff bit_push_bit_iff bit_take_bit_iff)

lemma uint_of_int_u32: "uint (of_int k :: u32) = k mod 2 ^ 32"
  by (simp add: uint_word_of_int)

lemma take_bit_mult_add:
  assumes "n \<le> 32"
  shows "take_bit n (x * 2 ^ n + (y :: u32)) = take_bit n y"
proof -
  have "x * 2 ^ n + y = of_int (uint x * 2 ^ n + uint y)"
    by simp
  then have "uint (x * 2 ^ n + y) = (uint x * 2 ^ n + uint y) mod 2 ^ 32"
    by (simp only: uint_of_int_u32)
  then have "uint (take_bit n (x * 2 ^ n + y)) = uint (take_bit n y)"
    using assms by (simp add: uint_take_bit_u32 mod_pow2_pow2[of n 32, simplified])
  then show ?thesis
    by (rule unsigned_word_eqI)
qed

lemma compute_count_sum:
  assumes "unat sn < 2 ^ sn_len sz"
  shows "pdcp_compute_count hfn sn sz = hfn * 2 ^ sn_len sz + sn"
proof -
  have "take_bit (sn_len sz) sn = sn"
    by (rule take_bit_of_bound[OF assms])
  then have "push_bit (sn_len sz) hfn AND sn = 0"
    by (metis push_bit_and_take_bit_eq_0)
  then have "push_bit (sn_len sz) hfn + sn = push_bit (sn_len sz) hfn OR sn"
    by (rule disjunctive_add_eq_or)
  then show ?thesis
    by (simp only: pdcp_compute_count_def push_bit_eq_mult)
qed

lemma count_parts: "hfn * 2 ^ sn_len sz + pdcp_compute_sn c sz = c"
  if "hfn = pdcp_compute_hfn c sz" for c :: u32
proof -
  have "push_bit (sn_len sz) (drop_bit (sn_len sz) c) + take_bit (sn_len sz) c = c"
    by (rule bits_ident)
  then show ?thesis
    using that by (simp add: compute_sn_take_bit pdcp_compute_hfn_def push_bit_eq_mult)
qed

text \<open>
  The estimate is the one COUNT with that sequence number in the range of \<open>2^len\<close> values that starts
  half a range below \<open>lower\<close>, modulo \<open>2^32\<close>.
\<close>

lemma count_estimation_hfn:
  assumes sn: "unat sn < 2 ^ sn_len sz"
  shows "\<exists>d::int. count_estimation sz (of_nat (half_range sz)) lower sn =
      (pdcp_compute_hfn lower sz + of_int d) * 2 ^ sn_len sz + sn
    \<and> 0 \<le> d * 2 ^ sn_len sz + (uint sn - uint (pdcp_compute_sn lower sz)) + int (half_range sz)
    \<and> d * 2 ^ sn_len sz + (uint sn - uint (pdcp_compute_sn lower sz)) + int (half_range sz) < 2 ^ sn_len sz"
proof -
  let ?l = "pdcp_compute_sn lower sz" and ?W = "half_range sz" and ?N = "2 ^ sn_len sz :: int"
  have W: "uint (of_nat ?W :: u32) = int ?W" and N: "?N = 2 * int ?W"
    using half_range_bounds[of sz] arg_cong[OF half_range_double[of sz], of int]
    by (simp_all add: uint_nat unat_of_nat_u32)
  have l: "uint ?l < ?N" and s: "uint sn < ?N"
    using unat_compute_sn[of lower sz] sn by (simp_all add: uint_nat del: of_nat_unat)
  have add: "uint (?l + of_nat ?W) = uint ?l + int ?W"
    using l W half_range_bounds[of sz] N by (simp add: uint_word_ariths)
  have nn: "0 \<le> uint ?l" "0 \<le> uint sn"
    by simp_all
  consider "uint sn < uint ?l - int ?W" | "uint ?l + int ?W \<le> uint sn" | "uint ?l - int ?W \<le> uint sn" "uint sn < uint ?l + int ?W"
    by linarith
  then show ?thesis
  proof cases
    case 1
    have "0 \<le> ?N + (uint sn - uint ?l) + int ?W" "?N + (uint sn - uint ?l) + int ?W < ?N"
      using 1 nn N l by linarith+
    then show ?thesis
      using 1 by (intro exI[of _ 1]) (simp add: count_estimation_def W compute_count_sum[OF sn])
  next
    case 2
    then have ge: "0 \<le> - ?N + (uint sn - uint ?l) + int ?W" "- ?N + (uint sn - uint ?l) + int ?W < ?N"
      "\<not> uint sn < uint ?l - int ?W"
      using nn N s by linarith+
    then show ?thesis
      using 2 add by (intro exI[of _ "- 1"])
        (simp add: count_estimation_def W compute_count_sum[OF sn] word_le_def)
  next
    case 3
    then have "0 \<le> (uint sn - uint ?l) + int ?W" "(uint sn - uint ?l) + int ?W < ?N"
      using nn N by linarith+
    then show ?thesis
      using 3 add by (intro exI[of _ 0])
        (simp add: count_estimation_def W compute_count_sum[OF sn] word_le_def)
  qed
qed

lemma count_estimation_window:
  assumes sn: "unat sn < 2 ^ sn_len sz"
  shows "take_bit (sn_len sz) (count_estimation sz (of_nat (half_range sz)) lower sn) = sn"
    and "unat (count_estimation sz (of_nat (half_range sz)) lower sn - (lower - of_nat (half_range sz))) < 2 ^ sn_len sz"
proof -
  let ?c = "count_estimation sz (of_nat (half_range sz)) lower sn" and ?W = "half_range sz"
  let ?h = "pdcp_compute_hfn lower sz" and ?l = "pdcp_compute_sn lower sz"
  obtain d :: int where d: "?c = (?h + of_int d) * 2 ^ sn_len sz + sn"
    "0 \<le> d * 2 ^ sn_len sz + (uint sn - uint ?l) + int ?W"
    "d * 2 ^ sn_len sz + (uint sn - uint ?l) + int ?W < 2 ^ sn_len sz" (is "?k < _")
    using count_estimation_hfn[OF sn] by blast
  show "take_bit (sn_len sz) ?c = sn"
    unfolding d(1) using take_bit_mult_add[of "sn_len sz"] sn_len_bounds(2)[of sz] take_bit_of_bound[OF sn]
    by simp
  have "lower = ?h * 2 ^ sn_len sz + ?l"
    using count_parts[OF refl, of lower sz] by simp
  then have "?c - (lower - of_nat ?W) = of_int ?k"
    unfolding d(1) by (simp add: algebra_simps)
  then have "uint (?c - (lower - of_nat ?W)) = ?k mod 2 ^ 32"
    by (simp only: uint_of_int_u32)
  moreover have "(2::int) ^ sn_len sz \<le> 2 ^ 32"
    using sn_len_bounds(2)[of sz] by (intro power_increasing) auto
  ultimately have "uint (?c - (lower - of_nat ?W)) < 2 ^ sn_len sz"
    using d(2,3) by simp
  then show "unat (?c - (lower - of_nat ?W)) < 2 ^ sn_len sz"
    by (simp add: uint_nat del: of_nat_unat)
qed

lemma count_estimation_unique:
  assumes "unat (c - (lower - of_nat (half_range sz))) < 2 ^ sn_len sz"
  shows "count_estimation sz (of_nat (half_range sz)) lower (pdcp_compute_sn c sz) = c"
proof -
  let ?b = "lower - of_nat (half_range sz)" and ?sn = "pdcp_compute_sn c sz"
  let ?e = "count_estimation sz (of_nat (half_range sz)) lower ?sn"
  have sn: "unat ?sn < 2 ^ sn_len sz"
    by (simp add: unat_compute_sn)
  have "take_bit (sn_len sz) ?e = take_bit (sn_len sz) c"
    using count_estimation_window(1)[OF sn, of lower] by (simp add: compute_sn_take_bit)
  then have "uint ?e mod 2 ^ sn_len sz = uint c mod 2 ^ sn_len sz"
    by (simp flip: uint_take_bit_u32)
  then have "int (sn_off (sn_len sz) ?b ?e) = int (sn_off (sn_len sz) ?b c)"
    unfolding int_sn_off[OF less_imp_le[OF sn_len_bounds(2)]] by (rule mod_diff_cong) simp
  then have "unat (take_bit (sn_len sz) (?e - ?b)) = unat (take_bit (sn_len sz) (c - ?b))"
    by (simp only: of_nat_eq_iff sn_off_def)
  then have "take_bit (sn_len sz) (?e - ?b) = take_bit (sn_len sz) (c - ?b)"
    by (rule unsigned_word_eqI)
  then have "?e - ?b = c - ?b"
    using take_bit_of_bound[OF assms] take_bit_of_bound[OF count_estimation_window(2)[OF sn, of lower]] by simp
  then show ?thesis
    by simp
qed

section \<open>The reconstruction and the headers\<close>

text \<open>
  Reconstruction of COUNT: for every COUNT \<open>c\<close> and every lower edge that differ by at most half the
  range of sequence numbers (at most \<open>W\<close> below, less than \<open>W\<close> above), the receiver that knows only the
  edge and the transmitted SN recovers exactly \<open>c\<close>, with the window size its own sequence number size
  prescribes, also across HFN boundaries.
\<close>

theorem count_estimation_exact:
  assumes "pdcp_window_size sz = Some w" and "unat lower \<le> unat c + unat w" and "unat c < unat lower + unat w"
  shows "count_estimation sz w lower (pdcp_compute_sn c sz) = c"
proof -
  have "valid_sn_size sz"
    using assms(1) by (cases sz) (auto simp: valid_sn_size_def)
  then have w: "w = of_nat (half_range sz)"
    using window_size_half_range(1) assms(1) by simp
  have W: "unat w = half_range sz"
    using half_range_bounds(2)[of sz] by (simp add: w unat_of_nat_u32)
  have "c - (lower - w) = of_int (int (unat c) - int (unat lower) + int (half_range sz))"
    by (simp add: w)
  also have "int (unat c) - int (unat lower) + int (half_range sz) = int (unat c + half_range sz - unat lower)"
    using assms(2) W by (simp add: of_nat_diff)
  finally have "c - (lower - w) = of_nat (unat c + half_range sz - unat lower)"
    by (simp only: of_int_of_nat_eq)
  moreover have bound: "unat c + half_range sz - unat lower < 2 ^ sn_len sz"
    using assms(2,3) W half_range_double[of sz] by (simp add: less_diff_conv2)
  moreover have "(2::nat) ^ sn_len sz \<le> 2 ^ 32"
    using sn_len_bounds(2)[of sz] by (intro power_increasing) auto
  ultimately have "unat (c - (lower - w)) < 2 ^ sn_len sz"
    by (simp add: unat_of_nat_u32)
  then show ?thesis
    unfolding w by (rule count_estimation_unique)
qed

theorem count_estimation_exact_witness:
  "count_estimation pdcp_size12bits 2048 0x1FF0 (pdcp_compute_sn 0x2005 pdcp_size12bits) = 0x2005
   \<and> pdcp_compute_sn 0x2005 pdcp_size12bits = 5
   \<and> count_estimation pdcp_size12bits 2048 0x2005 (pdcp_compute_sn 0x1FF0 pdcp_size12bits) = 0x1FF0"
  using count_estimation_exact[of pdcp_size12bits 2048 "0x1FF0" "0x2005"]
    count_estimation_exact[of pdcp_size12bits 2048 "0x2005" "0x1FF0"]
  by (simp add: pdcp_compute_sn_def)

text \<open>The masks of the header fields.\<close>

lemma header_masks:
  "(0x00000f00 :: u32) = push_bit 8 (mask 4)" "(0x00030000 :: u32) = push_bit 16 (mask 2)"
  "(0x0000ff00 :: u32) = push_bit 8 (mask 8)" "(0x000000ff :: u32) = mask 8"
  "(0x0f :: u32) = mask 4" "(0x03 :: u32) = mask 2"
  by (simp_all add: mask_eq_exp_minus_1)

lemma data_header_12:
  assumes "dc AND 0x0f = (0 :: u8)"
  shows "push_bit 8 (ucast (dc OR ucast (drop_bit 8 (sn AND 0x00000f00))) AND 0x0f)
    OR (ucast (ucast (sn AND 0x000000ff) :: u8) AND 0xff) = take_bit 12 (sn :: u32)"
proof -
  have dc: "\<not> bit dc i" if "i < 4" for i
    using that arg_cong[OF assms, of "\<lambda>x. bit x i"] by (simp add: bit_and_iff mask_numerals(3) bit_mask_iff)
  show ?thesis
    unfolding header_masks
    by (rule bit_word_eqI) (auto simp: bit_simps dest: dc)
qed

lemma bit_eq_split:
  "(\<And>n. n < k \<Longrightarrow> bit a n = bit b n) \<Longrightarrow> (\<And>n. k \<le> n \<Longrightarrow> bit a n = bit b n) \<Longrightarrow> a = b"
  for a b :: "'a::len word"
  by (meson bit_word_eqI linorder_not_le)

lemma data_header_18:
  assumes "dc AND 0x03 = (0 :: u8)"
  shows "push_bit 16 (ucast (dc OR ucast (drop_bit 16 (sn AND 0x00030000))) AND 0x03)
    OR push_bit 8 (ucast (ucast (drop_bit 8 (sn AND 0x0000ff00)) :: u8) AND 0xff)
    OR (ucast (ucast (sn AND 0x000000ff) :: u8) AND 0xff) = take_bit 18 (sn :: u32)"
proof -
  have dc: "\<not> bit dc i" if "i < 2" for i
    using that arg_cong[OF assms, of "\<lambda>x. bit x i"] by (simp add: bit_and_iff mask_numerals(2) bit_mask_iff)
  show ?thesis
    unfolding header_masks
    by (rule bit_eq_split[of 16]) (auto simp: bit_simps dest: dc)
qed

lemma data_bit_dc: "pdcp_pdu_get_dc (0x80 OR x) = pdcp_dc_data"
proof -
  have "bit (drop_bit 7 (0x80 OR x) AND 1) 0"
    by (simp add: bit_simps)
  then have "drop_bit 7 (0x80 OR x) AND 1 \<noteq> 0"
    by (metis bit_0_eq bot_apply bot_bool_def)
  then show ?thesis
    by (simp add: pdcp_pdu_get_dc_def)
qed

lemma dc_masks: "(0x80 :: u8) AND 0x0f = 0" "(0x80 :: u8) AND 0x03 = 0"
  by simp_all

text \<open>
  Header round trip: for every bearer type, sequence number size and non-empty payload the
  transmitter accepts, reading the header of the PDU it builds gives back the sequence number of the
  COUNT; the payload follows the header unchanged, and the first byte marks a DRB PDU as data.
\<close>

theorem data_pdu_header_roundtrip:
  assumes "prepend_data_pdu_header rb sz True buf (pdcp_compute_sn c sz) = Some (True, pdu)" and "buf \<noteq> []"
  shows "read_data_pdu_header sz pdu = Some (pdcp_compute_sn c sz)
    \<and> drop (unat (pdcp_data_header_size sz)) pdu = buf
    \<and> (rb = pdcp_drb \<longrightarrow> pdcp_pdu_get_dc (hd pdu) = pdcp_dc_data)"
proof (cases sz)
  case pdcp_size12bits
  then show ?thesis
    using assms data_header_12[OF dc_masks(1), of "pdcp_compute_sn c sz"] data_header_12[of 0 "pdcp_compute_sn c sz"]
    by (auto simp: prepend_data_pdu_header_def read_data_pdu_header_def Let_def compute_sn_take_bit
        pdcp_data_header_size_def data_bit_dc split: if_splits)
next
  case pdcp_size18bits
  then show ?thesis
    using assms data_header_18[OF dc_masks(2), of "pdcp_compute_sn c sz"]
    by (auto simp: prepend_data_pdu_header_def read_data_pdu_header_def Let_def compute_sn_take_bit
        pdcp_data_header_size_def data_bit_dc split: if_splits)
next
  case pdcp_invalid
  then show ?thesis
    using assms by (auto simp: prepend_data_pdu_header_def Let_def split: if_splits)
qed

theorem data_pdu_header_roundtrip_witness:
  "read_data_pdu_header pdcp_size18bits [0x81, 0x23, 0x45, 0xAA] = Some 0x12345
   \<and> drop 3 [0x81, 0x23, 0x45, 0xAA :: u8] = [0xAA]
   \<and> pdcp_pdu_get_dc 0x81 = pdcp_dc_data"
  using data_pdu_header_roundtrip[of pdcp_drb pdcp_size18bits "[0xAA]" "0x12345" "[0x81, 0x23, 0x45, 0xAA]"]
  by (simp add: prepend_data_pdu_header_def pdcp_compute_sn_def pdcp_data_header_size_def)

end
