(* ===== verification/Pdcp_Rx.thy ===== *)
theory Pdcp_Rx
  imports Pdcp_Base Circular_Map Ring_Buffer
begin

unbundle bit_operations_syntax

text \<open>
  \<open>lib/pdcp/pdcp_entity_rx.cpp\<close> and \<open>pdcp_entity_rx.h\<close>: the receiving PDCP entity.  An operation
  returns the new state and the list of calls to the upper layers and to the transmitting entity, in
  their order; \<^const>\<open>None\<close> is a failed assertion or an access outside a buffer.  The tasks that are
  handed to the crypto and the UE executors are results of the operation that posts them.  Timers are
  flags (running or not); logging, tracing and metrics are left out.
\<close>

section \<open>State\<close>

record pdcp_rx_state =
  rx_next :: u32
  rx_deliv :: u32
  rx_reord :: u32

definition rx_state_zero :: pdcp_rx_state where
  "rx_state_zero = \<lparr>rx_next = 0, rx_deliv = 0, rx_reord = 0\<rparr>"

record pdcp_rx_pdu_info =
  pi_buf :: bytes
  pi_count :: u32
  pi_integrity_verified :: bool

record pdcp_rx_sdu_info =
  si_buf :: bytes
  si_count :: u32
  si_integrity_verified :: bool

text \<open>
  The calls an entity makes.  A delivered SDU carries its COUNT, which the code only logs.
\<close>

datatype pdcp_rx_event =
    on_new_sdu u32 bytes bool
  | on_resume_required
  | on_max_count_reached
  | on_protocol_failure
  | on_integrity_failure
  | on_status_report bytes
  | on_rohc_feedback_received bytes
  | on_rohc_feedback_produced bytes

text \<open>
  The crypto token manager (\<open>lib/pdcp/pdcp_crypto_token.h\<close>): an atomic counter and the event flag of
  its awaitable.
\<close>

record token_manager =
  tm_tokens :: u32
  tm_pending_set :: bool

text \<open>
  The ROHC decompressor is the list of the packets it was given since its creation; the results it
  computes are a function of that list (below).
\<close>

record pdcp_entity_rx =
  pr_cfg :: pdcp_rx_config
  pr_bearer_id :: u8
  pr_hdr_len_bytes :: nat
  pr_window_size :: u32
  pr_max_count_notified :: bool
  pr_max_count_overflow :: bool
  pr_stopped :: bool
  pr_rohc_decomp :: "bytes list option"
  pr_sec_engine_pool :: "security_engine option list"
  pr_integrity_enabled :: integrity_enabled
  pr_ciphering_enabled :: ciphering_enabled
  pr_st :: pdcp_rx_state
  pr_rx_window :: "pdcp_rx_sdu_info circular_map"
  pr_reordering_timer :: bool
  pr_token_mngr :: token_manager
  pr_buffering :: bool
  pr_suspended :: bool
  pr_resume_requested :: bool
  pr_pdu_buffer :: "bytes ring_buffer"

text \<open>
  What the entity depends on: the security algorithms, the ROHC decompressor (the packets before, the
  packet, the decompressed packet and the feedback), whether the factory creates one, whether memory
  for the copy of a PDU is available, which tasks the executors accept, and the index of the worker.
\<close>

record pdcp_env =
  env_prims :: sec_prims
  env_decompress :: "bytes list \<Rightarrow> bytes \<Rightarrow> bytes \<times> bytes"
  env_rohc_ok :: bool
  env_copy_ok :: "bytes \<Rightarrow> bool"
  env_crypto_accepts :: "bytes \<Rightarrow> bool"
  env_ue_accepts :: bool
  env_worker_idx :: nat

section \<open>Crypto tokens\<close>

definition increment_token :: "token_manager \<Rightarrow> token_manager" where
  "increment_token tm = tm\<lparr>tm_tokens := tm_tokens tm + 1\<rparr>"

definition return_token :: "token_manager \<Rightarrow> token_manager option" where
  "return_token tm = (if tm_tokens tm = 0xffffffff then None
     else Some (tm\<lparr>tm_tokens := tm_tokens tm - 1,
                   tm_pending_set := (tm_pending_set tm \<or> tm_tokens tm = 0)\<rparr>))"

definition tm_start :: "token_manager \<Rightarrow> token_manager" where
  "tm_start tm = increment_token (tm\<lparr>tm_pending_set := False\<rparr>)"

definition tm_stop :: "token_manager \<Rightarrow> token_manager option" where
  "tm_stop tm = return_token tm"

section \<open>Helpers\<close>

definition pr_is_srb :: "pdcp_entity_rx \<Rightarrow> bool" where
  "pr_is_srb s \<longleftrightarrow> rxc_rb_type (pr_cfg s) = pdcp_srb"

definition pr_is_um :: "pdcp_entity_rx \<Rightarrow> bool" where
  "pr_is_um s \<longleftrightarrow> rxc_rlc_mode (pr_cfg s) = pdcp_um"

definition init_header_decompression :: "pdcp_env \<Rightarrow> pdcp_entity_rx \<Rightarrow> pdcp_entity_rx" where
  "init_header_decompression env s = (if rxc_header_compression (pr_cfg s)
     then s\<lparr>pr_rohc_decomp := (if env_rohc_ok env then Some [] else None)\<rparr> else s)"

text \<open>The result: whether an SDU is left, the buffer, the calls and the state.\<close>

definition apply_header_decompression :: "pdcp_env \<Rightarrow> pdcp_entity_rx \<Rightarrow> bytes
    \<Rightarrow> bool \<times> bytes \<times> pdcp_rx_event list \<times> pdcp_entity_rx" where
  "apply_header_decompression env s buf = (case pr_rohc_decomp s of
       None \<Rightarrow> (True, buf, [], s)
     | Some hist \<Rightarrow>
        (let (decomp_packet, feedback_packet) = env_decompress env hist buf;
             s1 = s\<lparr>pr_rohc_decomp := Some (hist @ [buf])\<rparr>
         in if decomp_packet = [] \<and> feedback_packet = [] then (False, [], [], s1)
            else let evs = (if feedback_packet \<noteq> [] then [on_rohc_feedback_produced feedback_packet] else [])
            in if decomp_packet = [] then (False, [], evs, s1) else (True, decomp_packet, evs, s1)))"

definition deliver_sdu :: "pdcp_env \<Rightarrow> pdcp_entity_rx \<Rightarrow> pdcp_rx_sdu_info \<Rightarrow> pdcp_entity_rx \<times> pdcp_rx_event list" where
  "deliver_sdu env s si = (let (ok, buf, evs, s1) = apply_header_decompression env s (si_buf si) in
     (s1, if ok then evs @ [on_new_sdu (si_count si) buf (si_integrity_verified si)] else evs))"

text \<open>Delivering changes the decompressor only.\<close>

lemma apply_header_decompression_state:
  "apply_header_decompression env s buf = (ok, buf', evs, s') \<Longrightarrow> \<exists>r. s' = s\<lparr>pr_rohc_decomp := r\<rparr>"
  by (auto simp: apply_header_decompression_def Let_def split: option.splits prod.splits if_splits
      intro: exI[of _ "pr_rohc_decomp s"])

lemma deliver_sdu_state: "\<exists>r. fst (deliver_sdu env s si) = s\<lparr>pr_rohc_decomp := r\<rparr>"
  by (cases "apply_header_decompression env s (si_buf si)")
    (auto simp: deliver_sdu_def dest: apply_header_decompression_state)

lemma deliver_sdu_pr_st [simp]: "pr_st (fst (deliver_sdu env s si)) = pr_st s"
  "pr_rx_window (fst (deliver_sdu env s si)) = pr_rx_window s"
  using deliver_sdu_state[of env s si] by auto

section \<open>Delivery\<close>

definition set_rx_deliv :: "pdcp_entity_rx \<Rightarrow> u32 \<Rightarrow> pdcp_entity_rx" where
  "set_rx_deliv s c = s\<lparr>pr_st := (pr_st s)\<lparr>rx_deliv := c\<rparr>\<rparr>"

definition add_events :: "'e list \<Rightarrow> ('s \<times> 'e list) option \<Rightarrow> ('s \<times> 'e list) option" where
  "add_events evs r = map_option (\<lambda>(s, evs'). (s, evs @ evs')) r"

lemma add_events_cong [fundef_cong]: "evs = evs' \<Longrightarrow> r = r' \<Longrightarrow> add_events evs r = add_events evs' r'"
  by simp

function deliver_all_consecutive_counts ::
  "pdcp_env \<Rightarrow> pdcp_entity_rx \<Rightarrow> (pdcp_entity_rx \<times> pdcp_rx_event list) option" where
  "deliver_all_consecutive_counts env s =
     (if rx_deliv (pr_st s) \<noteq> rx_next (pr_st s) \<and> has_sn (pr_rx_window s) (rx_deliv (pr_st s)) then
        Option.bind (win_at (pr_rx_window s) (rx_deliv (pr_st s))) (\<lambda>si.
        Option.bind (remove_sn (pr_rx_window s) (rx_deliv (pr_st s))) (\<lambda>w.
        add_events (snd (deliver_sdu env s si))
          (deliver_all_consecutive_counts env
            (set_rx_deliv ((fst (deliver_sdu env s si))\<lparr>pr_rx_window := w\<rparr>) (rx_deliv (pr_st s) + 1)))))
      else Some (s, []))"
  by pat_completeness auto
termination
  by (relation "measure (\<lambda>(env, s). unat (rx_next (pr_st s) - rx_deliv (pr_st s)))")
    (auto simp: set_rx_deliv_def unat_diff_Suc)

declare deliver_all_consecutive_counts.simps [simp del]

text \<open>\<open>for (count = rx_deliv; count < rx_next; count++)\<close>\<close>

function deliver_all_sdus_loop ::
  "pdcp_env \<Rightarrow> pdcp_entity_rx \<Rightarrow> u32 \<Rightarrow> (pdcp_entity_rx \<times> pdcp_rx_event list) option" where
  "deliver_all_sdus_loop env s count =
     (if count < rx_next (pr_st s) then
        (if has_sn (pr_rx_window s) count then
           Option.bind (win_at (pr_rx_window s) count) (\<lambda>si.
           Option.bind (remove_sn (pr_rx_window s) count) (\<lambda>w.
           add_events (snd (deliver_sdu env s si))
             (deliver_all_sdus_loop env ((fst (deliver_sdu env s si))\<lparr>pr_rx_window := w\<rparr>) (count + 1))))
         else deliver_all_sdus_loop env s (count + 1))
      else Some (s, []))"
  by pat_completeness auto
termination
  by (relation "measure (\<lambda>(env, s, count). unat (rx_next (pr_st s) - count))") (auto simp: unat_diff_Suc)

declare deliver_all_sdus_loop.simps [simp del]

definition deliver_all_sdus ::
  "pdcp_env \<Rightarrow> pdcp_entity_rx \<Rightarrow> (pdcp_entity_rx \<times> pdcp_rx_event list) option" where
  "deliver_all_sdus env s = deliver_all_sdus_loop env s (rx_deliv (pr_st s))"

function discard_all_sdus :: "pdcp_entity_rx \<Rightarrow> pdcp_entity_rx option" where
  "discard_all_sdus s =
     (if rx_deliv (pr_st s) \<noteq> rx_next (pr_st s) then
        Option.bind (if has_sn (pr_rx_window s) (rx_deliv (pr_st s))
                     then remove_sn (pr_rx_window s) (rx_deliv (pr_st s)) else Some (pr_rx_window s))
          (\<lambda>w. discard_all_sdus (set_rx_deliv (s\<lparr>pr_rx_window := w\<rparr>) (rx_deliv (pr_st s) + 1)))
      else Some s)"
  by pat_completeness auto
termination
  by (relation "measure (\<lambda>s. unat (rx_next (pr_st s) - rx_deliv (pr_st s)))")
    (auto simp: set_rx_deliv_def unat_diff_Suc)

declare discard_all_sdus.simps [simp del]

section \<open>t-Reordering\<close>

text \<open>The first loop of \<open>handle_t_reordering_expire\<close>.\<close>

function expire_loop ::
  "pdcp_env \<Rightarrow> pdcp_entity_rx \<Rightarrow> (pdcp_entity_rx \<times> pdcp_rx_event list) option" where
  "expire_loop env s =
     (if rx_deliv (pr_st s) \<noteq> rx_reord (pr_st s) then
        (if has_sn (pr_rx_window s) (rx_deliv (pr_st s)) then
           Option.bind (win_at (pr_rx_window s) (rx_deliv (pr_st s))) (\<lambda>si.
           Option.bind (remove_sn (pr_rx_window s) (rx_deliv (pr_st s))) (\<lambda>w.
           add_events (snd (deliver_sdu env s si))
             (expire_loop env
               (set_rx_deliv ((fst (deliver_sdu env s si))\<lparr>pr_rx_window := w\<rparr>) (rx_deliv (pr_st s) + 1)))))
         else expire_loop env (set_rx_deliv s (rx_deliv (pr_st s) + 1)))
      else Some (s, []))"
  by pat_completeness auto
termination
  by (relation "measure (\<lambda>(env, s). unat (rx_reord (pr_st s) - rx_deliv (pr_st s)))")
    (auto simp: set_rx_deliv_def unat_diff_Suc)

declare expire_loop.simps [simp del]

definition start_reordering :: "pdcp_entity_rx \<Rightarrow> pdcp_entity_rx" where
  "start_reordering s = s\<lparr>pr_st := (pr_st s)\<lparr>rx_reord := rx_next (pr_st s)\<rparr>, pr_reordering_timer := True\<rparr>"

definition handle_t_reordering_expire ::
  "pdcp_env \<Rightarrow> pdcp_entity_rx \<Rightarrow> (pdcp_entity_rx \<times> pdcp_rx_event list) option" where
  "handle_t_reordering_expire env s =
     Option.bind (expire_loop env s) (\<lambda>(s1, evs1).
     Option.bind (deliver_all_consecutive_counts env s1) (\<lambda>(s2, evs2).
       Some (if rx_deliv (pr_st s2) < rx_next (pr_st s2) \<and> rxc_t_reordering (pr_cfg s2) \<noteq> 0
             then start_reordering s2 else s2, evs1 @ evs2)))"

text \<open>The timer has expired: it no longer runs when its callback is called.\<close>

definition reordering_callback ::
  "pdcp_env \<Rightarrow> pdcp_entity_rx \<Rightarrow> (pdcp_entity_rx \<times> pdcp_rx_event list) option" where
  "reordering_callback env s = (let s1 = s\<lparr>pr_reordering_timer := False\<rparr> in
     if pr_stopped s1 then Some (s1, []) else handle_t_reordering_expire env s1)"

section \<open>Reordering of a received PDU\<close>

definition store_sdu :: "pdcp_entity_rx \<Rightarrow> pdcp_rx_pdu_info \<Rightarrow> pdcp_entity_rx option" where
  "store_sdu s pi = map_option (\<lambda>w. s\<lparr>pr_rx_window := w\<rparr>)
     (add_sn (pr_rx_window s) (pi_count pi) \<lparr>si_buf = pi_buf pi, si_count = pi_count pi,
        si_integrity_verified = pi_integrity_verified pi\<rparr>)"

text \<open>What follows the delivery of consecutive COUNTs.\<close>

definition update_reordering ::
  "pdcp_env \<Rightarrow> pdcp_entity_rx \<Rightarrow> (pdcp_entity_rx \<times> pdcp_rx_event list) option" where
  "update_reordering env s =
     (let s1 = (if pr_reordering_timer s \<and> rx_reord (pr_st s) \<le> rx_deliv (pr_st s)
                then s\<lparr>pr_reordering_timer := False\<rparr> else s)
      in if rxc_t_reordering (pr_cfg s1) \<noteq> pdcp_t_reordering_infinity then
           (if rxc_t_reordering (pr_cfg s1) = 0
            then handle_t_reordering_expire env (s1\<lparr>pr_st := (pr_st s1)\<lparr>rx_reord := rx_next (pr_st s1)\<rparr>\<rparr>)
            else if \<not> pr_reordering_timer s1 \<and> rx_deliv (pr_st s1) < rx_next (pr_st s1)
            then Some (start_reordering s1, [])
            else Some (s1, []))
         else Some (s1, []))"

definition update_rx_next :: "pdcp_entity_rx \<Rightarrow> u32 \<Rightarrow> pdcp_entity_rx" where
  "update_rx_next s rcvd_count = (if rx_next (pr_st s) \<le> rcvd_count
     then s\<lparr>pr_st := (pr_st s)\<lparr>rx_next := rcvd_count + 1\<rparr>\<rparr> else s)"

definition apply_reordering :: "pdcp_env \<Rightarrow> pdcp_entity_rx \<Rightarrow> pdcp_rx_pdu_info
    \<Rightarrow> (pdcp_entity_rx \<times> pdcp_rx_event list) option" where
  "apply_reordering env s pi =
     (let rcvd_count = pi_count pi; win = pr_rx_window s in
      if rcvd_count < rx_deliv (pr_st s) then Some (s, [])
      else if has_sn win rcvd_count \<and> map_option si_count (win_at win rcvd_count) = Some rcvd_count
      then Some (s, [])
      else Option.bind (if has_sn win rcvd_count then remove_sn win rcvd_count else Some win) (\<lambda>w.
           Option.bind (store_sdu (s\<lparr>pr_rx_window := w\<rparr>) pi) (\<lambda>s1.
             let s2 = update_rx_next s1 rcvd_count in
             Option.bind (if rcvd_count = rx_deliv (pr_st s2)
                          then deliver_all_consecutive_counts env s2 else Some (s2, [])) (\<lambda>(s3, evs).
               add_events evs (update_reordering env s3)))))"

section \<open>Deciphering and the executors\<close>

text \<open>
  \<open>apply_deciphering_and_integrity_check\<close>.  A worker index outside the pool fails an assertion.
\<close>

definition apply_deciphering_and_integrity_check ::
  "pdcp_env \<Rightarrow> pdcp_entity_rx \<Rightarrow> bytes \<Rightarrow> u32 \<Rightarrow> (security_status \<times> bytes) option" where
  "apply_deciphering_and_integrity_check env s buf count =
     (if length (pr_sec_engine_pool s) \<le> env_worker_idx env then None
      else case pr_sec_engine_pool s ! env_worker_idx env of
        None \<Rightarrow>
          (if pr_is_srb s then
             (if length buf \<le> sec_mac_len then Some (sec_buffer_failure, buf)
              else if drop (length buf - sec_mac_len) buf \<noteq> [0, 0, 0, 0] then Some (sec_integrity_failure, buf)
              else Some (sec_success_unprotected, take (length buf - sec_mac_len) buf))
           else Some (sec_success_unprotected, buf))
      | Some sec_engine \<Rightarrow>
          let hdr_size = (if rxc_sn_size (pr_cfg s) = pdcp_size12bits then 2 else 3)
          in decrypt_and_verify_integrity (env_prims env) sec_engine buf hdr_size count)"

text \<open>Tasks in flight; each holds a crypto token.\<close>

datatype pdcp_rx_task =
    Crypto_task pdcp_rx_pdu_info
  | Reorder_task pdcp_rx_pdu_info
  | Failure_task security_status

definition drop_token :: "pdcp_entity_rx \<Rightarrow> pdcp_entity_rx option" where
  "drop_token s = map_option (\<lambda>tm. s\<lparr>pr_token_mngr := tm\<rparr>) (return_token (pr_token_mngr s))"

definition post_ue_task :: "pdcp_env \<Rightarrow> pdcp_entity_rx \<Rightarrow> pdcp_rx_task
    \<Rightarrow> (pdcp_entity_rx \<times> pdcp_rx_task list) option" where
  "post_ue_task env s t = (if env_ue_accepts env then Some (s, [t])
     else map_option (\<lambda>s'. (s', [])) (drop_token s))"

text \<open>\<open>trim_head\<close> of more bytes than the buffer has fails an assertion.\<close>

definition pdcp_apply_security :: "pdcp_env \<Rightarrow> pdcp_entity_rx \<Rightarrow> pdcp_rx_pdu_info
    \<Rightarrow> (pdcp_entity_rx \<times> pdcp_rx_task list) option" where
  "pdcp_apply_security env s pi =
     Option.bind (apply_deciphering_and_integrity_check env s (pi_buf pi) (pi_count pi)) (\<lambda>(status, buf).
       if \<not> sec_is_success status then post_ue_task env s (Failure_task status)
       else let hdr_size = (if rxc_sn_size (pr_cfg s) = pdcp_size12bits then 2 else 3)
         in if length buf < hdr_size then None
            else post_ue_task env s (Reorder_task \<lparr>pi_buf = drop hdr_size buf, pi_count = pi_count pi,
                   pi_integrity_verified = (status = sec_success)\<rparr>))"

definition security_failure_events :: "security_status \<Rightarrow> pdcp_rx_event list" where
  "security_failure_events status = [if status = sec_integrity_failure then on_integrity_failure
     else on_protocol_failure]"

text \<open>A task runs and gives its token back, or passes it on.\<close>

definition run_rx_task :: "pdcp_env \<Rightarrow> pdcp_entity_rx \<Rightarrow> pdcp_rx_task
    \<Rightarrow> (pdcp_entity_rx \<times> pdcp_rx_event list \<times> pdcp_rx_task list) option" where
  "run_rx_task env s t = (case t of
       Crypto_task pi \<Rightarrow> map_option (\<lambda>(s', ts). (s', [], ts)) (pdcp_apply_security env s pi)
     | Reorder_task pi \<Rightarrow> Option.bind (apply_reordering env s pi) (\<lambda>(s1, evs).
         map_option (\<lambda>s2. (s2, evs, [])) (drop_token s1))
     | Failure_task status \<Rightarrow>
         map_option (\<lambda>s'. (s', security_failure_events status, [])) (drop_token s))"

section \<open>Reception\<close>

definition check_max_count :: "pdcp_entity_rx \<Rightarrow> u32 \<Rightarrow> bool \<times> pdcp_entity_rx \<times> pdcp_rx_event list" where
  "check_max_count s rcvd_count =
     (let notify = mc_notify (rxc_max_count (pr_cfg s)) < rcvd_count \<and> \<not> pr_max_count_notified s;
          s1 = (if notify then s\<lparr>pr_max_count_notified := True\<rparr> else s);
          evs1 = (if notify then [on_max_count_reached] else [])
      in if mc_hard (rxc_max_count (pr_cfg s1)) \<le> rcvd_count then
           (if \<not> pr_max_count_overflow s1
            then (False, s1\<lparr>pr_max_count_overflow := True\<rparr>, evs1 @ [on_protocol_failure])
            else (False, s1, evs1))
         else (True, s1, evs1))"

text \<open>The task posted to the crypto executor is the last component.\<close>

definition handle_data_pdu :: "pdcp_env \<Rightarrow> pdcp_entity_rx \<Rightarrow> bytes
    \<Rightarrow> (pdcp_entity_rx \<times> pdcp_rx_event list \<times> pdcp_rx_task list) option" where
  "handle_data_pdu env s pdu =
     (if length pdu \<le> pr_hdr_len_bytes s then Some (s, [], [])
      else case read_data_pdu_header (rxc_sn_size (pr_cfg s)) pdu of
        None \<Rightarrow> Some (s, [], [])
      | Some sn \<Rightarrow>
          (let rcvd_count = count_estimation (rxc_sn_size (pr_cfg s)) (pr_window_size s) (rx_deliv (pr_st s)) sn;
               (go, s1, evs) = check_max_count s rcvd_count
           in if \<not> go then Some (s1, evs, [])
              else let s2 = s1\<lparr>pr_token_mngr := increment_token (pr_token_mngr s1)\<rparr>
              in if env_crypto_accepts env pdu
                 then Some (s2, evs, [Crypto_task \<lparr>pi_buf = pdu, pi_count = rcvd_count,
                        pi_integrity_verified = False\<rparr>])
                 else map_option (\<lambda>s3. (s3, evs, [])) (drop_token s2)))"

definition handle_control_pdu :: "pdcp_entity_rx \<Rightarrow> bytes
    \<Rightarrow> (pdcp_entity_rx \<times> pdcp_rx_event list \<times> pdcp_rx_task list) option" where
  "handle_control_pdu s pdu =
     (let hdr_byte = hd pdu; cpt = pdcp_control_pdu_get_cpt hdr_byte
      in if pdcp_pdu_get_dc hdr_byte \<noteq> pdcp_dc_control then None
         else Some (s, if cpt = cpt_status_report then [on_status_report pdu]
                else if cpt = cpt_interspersed_rohc_feedback then [on_rohc_feedback_received pdu]
                else [], []))"

definition rx_handle_pdu :: "pdcp_env \<Rightarrow> pdcp_entity_rx \<Rightarrow> bytes
    \<Rightarrow> (pdcp_entity_rx \<times> pdcp_rx_event list \<times> pdcp_rx_task list) option" where
  "rx_handle_pdu env s buf =
     (if pr_stopped s then Some (s, [], [])
      else let resume = pr_suspended s \<and> \<not> pr_resume_requested s;
               s1 = (if resume then s\<lparr>pr_resume_requested := True\<rparr> else s);
               evs1 = (if resume then [on_resume_required] else [])
      in if pr_buffering s1
         then Some (s1\<lparr>pr_pdu_buffer := snd (rb_try_push (pr_pdu_buffer s1) buf)\<rparr>, evs1, [])
         else if buf = [] \<or> \<not> env_copy_ok env buf then Some (s1, evs1, [])
         else map_option (\<lambda>(s2, evs2, ts). (s2, evs1 @ evs2, ts))
           (if pr_is_srb s1 \<or> pdcp_pdu_get_dc (hd buf) = pdcp_dc_data
            then handle_data_pdu env s1 buf else handle_control_pdu s1 buf))"

section \<open>Security configuration\<close>

definition configure_security :: "pdcp_entity_rx \<Rightarrow> sec_128_as_config \<Rightarrow> integrity_enabled
    \<Rightarrow> ciphering_enabled \<Rightarrow> pdcp_entity_rx option" where
  "configure_security s sec_cfg integ ciph =
     (if \<not> (pr_is_srb s \<and> sc_domain sec_cfg = sec_rrc \<or> \<not> pr_is_srb s \<and> sc_domain sec_cfg = sec_up) then None
      else if \<not> (pr_is_srb s \<or> integ \<noteq> integrity_smc_transition) then None
      else if integ \<noteq> integrity_off \<and> (sc_k_128_int sec_cfg = None \<or> sc_integ_algo sec_cfg = None) then Some s
      else if integ = integrity_off \<and> pr_is_srb s then None
      else map_option (\<lambda>eng. s\<lparr>pr_integrity_enabled := integ, pr_ciphering_enabled := ciph,
               pr_sec_engine_pool := replicate (length (pr_sec_engine_pool s)) (Some eng)\<rparr>)
             (security_engine_new sec_cfg (pr_bearer_id s) (to_security_direction (rxc_direction (pr_cfg s)))
                integ ciph))"

section \<open>Life cycle\<close>

text \<open>The constructor; ROHC on an SRB is reported as a fatal error.\<close>

definition pdcp_entity_rx_new :: "pdcp_env \<Rightarrow> u8 \<Rightarrow> pdcp_rx_config \<Rightarrow> nat \<Rightarrow> pdcp_entity_rx option" where
  "pdcp_entity_rx_new env bearer cfg max_nof_crypto_workers =
     Option.bind (pdcp_data_pdu_header_size (rxc_sn_size cfg)) (\<lambda>hdr_len.
     Option.bind (pdcp_window_size (rxc_sn_size cfg)) (\<lambda>wsize.
     Option.bind (pdcp_window_size_bits (pdcp_sn_size_to_uint (rxc_sn_size cfg))) (\<lambda>win_capacity.
     Option.bind (cm_init (unat win_capacity)) (\<lambda>w.
       if rxc_rb_type cfg = pdcp_srb \<and> rxc_header_compression cfg then None
       else Some (init_header_decompression env
         \<lparr>pr_cfg = cfg, pr_bearer_id = bearer, pr_hdr_len_bytes = hdr_len, pr_window_size = wsize,
           pr_max_count_notified = False, pr_max_count_overflow = False, pr_stopped = False,
           pr_rohc_decomp = None, pr_sec_engine_pool = replicate max_nof_crypto_workers None,
           pr_integrity_enabled = integrity_off, pr_ciphering_enabled = ciphering_off,
           pr_st = rx_state_zero, pr_rx_window = w, pr_reordering_timer = False,
           pr_token_mngr = \<lparr>tm_tokens = 0, tm_pending_set = False\<rparr>,
           pr_buffering = False, pr_suspended = False, pr_resume_requested = False,
           pr_pdu_buffer = rb_new 2048\<rparr>)))))"

definition rx_stop :: "pdcp_entity_rx \<Rightarrow> pdcp_entity_rx option" where
  "rx_stop s = (if \<not> pr_stopped s then
       map_option (\<lambda>tm. s\<lparr>pr_stopped := True, pr_reordering_timer := False, pr_token_mngr := tm\<rparr>)
         (tm_stop (pr_token_mngr s))
     else Some s)"

definition rx_notify_pdu_processing_stopped :: "pdcp_entity_rx \<Rightarrow> pdcp_entity_rx option" where
  "rx_notify_pdu_processing_stopped s = (if \<not> pr_stopped s then
       map_option (\<lambda>tm. s\<lparr>pr_token_mngr := tm\<rparr>) (tm_stop (pr_token_mngr s)) else Some s)"

definition rx_restart_pdu_processing :: "pdcp_entity_rx \<Rightarrow> pdcp_entity_rx" where
  "rx_restart_pdu_processing s = (if \<not> pr_stopped s
     then s\<lparr>pr_token_mngr := tm_start (pr_token_mngr s)\<rparr> else s)"

definition rx_begin_buffering :: "pdcp_entity_rx \<Rightarrow> pdcp_entity_rx" where
  "rx_begin_buffering s = s\<lparr>pr_buffering := True\<rparr>"

text \<open>
  The loop of \<open>end_buffering\<close>, counted by the number of buffered PDUs: handling a PDU does not add to
  the buffer any more.
\<close>

fun flush_pdu_buffer :: "pdcp_env \<Rightarrow> nat \<Rightarrow> pdcp_entity_rx
    \<Rightarrow> (pdcp_entity_rx \<times> pdcp_rx_event list \<times> pdcp_rx_task list) option" where
  "flush_pdu_buffer env 0 s = Some (s, [], [])"
| "flush_pdu_buffer env (Suc n) s =
     Option.bind (rb_top (pr_pdu_buffer s)) (\<lambda>buf.
     Option.bind (rb_pop (pr_pdu_buffer s)) (\<lambda>rb.
     Option.bind (rx_handle_pdu env (s\<lparr>pr_pdu_buffer := rb\<rparr>) buf) (\<lambda>(s1, evs1, ts1).
       map_option (\<lambda>(s2, evs2, ts2). (s2, evs1 @ evs2, ts1 @ ts2)) (flush_pdu_buffer env n s1))))"

definition rx_end_buffering :: "pdcp_env \<Rightarrow> pdcp_entity_rx
    \<Rightarrow> (pdcp_entity_rx \<times> pdcp_rx_event list \<times> pdcp_rx_task list) option" where
  "rx_end_buffering env s = flush_pdu_buffer env (rb_count (pr_pdu_buffer s)) (s\<lparr>pr_buffering := False\<rparr>)"

definition rx_suspend :: "pdcp_env \<Rightarrow> pdcp_entity_rx \<Rightarrow> (bool \<times> pdcp_entity_rx \<times> pdcp_rx_event list) option" where
  "rx_suspend env s = (if pr_suspended s then Some (False, s, [])
     else if \<not> pr_buffering s then Some (False, s, [])
     else map_option (\<lambda>(s1, evs). (True, s1\<lparr>pr_st := rx_state_zero, pr_suspended := True\<rparr>, evs))
       (deliver_all_sdus env (s\<lparr>pr_reordering_timer := False\<rparr>)))"

definition rx_resume :: "pdcp_entity_rx \<Rightarrow> bool \<times> pdcp_entity_rx" where
  "rx_resume s = (if \<not> pr_suspended s then (False, s)
     else if \<not> pr_buffering s then (False, s)
     else (True, s\<lparr>pr_suspended := False, pr_resume_requested := False\<rparr>))"

definition rx_reestablish :: "pdcp_env \<Rightarrow> pdcp_entity_rx \<Rightarrow> sec_128_as_config
    \<Rightarrow> (pdcp_entity_rx \<times> pdcp_rx_event list) option" where
  "rx_reestablish env s sec_cfg =
     Option.bind (if pr_is_srb s then discard_all_sdus s else Some s) (\<lambda>s1.
     Option.bind (if pr_is_srb s1 \<or> pr_is_um s1 then
          (let s2 = s1\<lparr>pr_reordering_timer := False\<rparr>
           in if pr_is_um s2 then deliver_all_sdus env s2 else Some (s2, []))
        else Some (s1, [])) (\<lambda>(s3, evs).
     let s4 = init_header_decompression env s3;
         s5 = (if pr_is_srb s4 \<or> pr_is_um s4 then s4\<lparr>pr_st := rx_state_zero\<rparr> else s4)
     in map_option (\<lambda>s6. (s6, evs))
          (configure_security s5 sec_cfg (pr_integrity_enabled s5) (pr_ciphering_enabled s5))))"

definition rx_get_count :: "pdcp_entity_rx \<Rightarrow> pdcp_count_info" where
  "rx_get_count s = (let count = rx_deliv (pr_st s); sz = rxc_sn_size (pr_cfg s)
     in \<lparr>ci_sn = pdcp_compute_sn count sz, ci_hfn = pdcp_compute_hfn count sz\<rparr>)"

definition rx_set_count :: "pdcp_entity_rx \<Rightarrow> pdcp_count_info \<Rightarrow> pdcp_entity_rx" where
  "rx_set_count s ci = (let count = pdcp_compute_count (ci_hfn ci) (ci_sn ci) (rxc_sn_size (pr_cfg s))
     in s\<lparr>pr_st := \<lparr>rx_next = count, rx_deliv = count, rx_reord = count\<rparr>\<rparr>)"

section \<open>Status report\<close>

text \<open>\<open>for (i = bitmap_begin; i < bitmap_end; i++)\<close>\<close>

function report_bitmap :: "pdcp_rx_sdu_info circular_map \<Rightarrow> u32 \<Rightarrow> u32 \<Rightarrow> bit_encoder \<Rightarrow> bit_encoder option" where
  "report_bitmap w i bitmap_end enc = (if i < bitmap_end
     then Option.bind (pack enc (if has_sn w i then 1 else 0) 1) (\<lambda>enc'. report_bitmap w (i + 1) bitmap_end enc')
     else Some enc)"
  by pat_completeness auto
termination
  by (relation "measure (\<lambda>(w, i, e, enc). unat (e - i))") (auto simp: unat_diff_Suc)

declare report_bitmap.simps [simp del]

definition max_report_bits :: u32 where
  "max_report_bits = of_nat ((pdcp_control_pdu_max_size - 5) * 8)"

definition report_end :: "pdcp_rx_state \<Rightarrow> u32" where
  "report_end st = (let bitmap_begin = rx_deliv st + 1; bitmap_end = rx_next st
     in if bitmap_begin < bitmap_end \<and> max_report_bits < bitmap_end - bitmap_begin
        then bitmap_begin + max_report_bits else bitmap_end)"

definition compile_status_report :: "pdcp_entity_rx \<Rightarrow> bytes option" where
  "compile_status_report s =
     Option.bind (pack (bit_encoder_new []) 0 1) (\<lambda>e1.
     Option.bind (pack e1 (ucast cpt_status_report) 3) (\<lambda>e2.
     Option.bind (pack e2 0 4) (\<lambda>e3.
     Option.bind (pack e3 (ucast (rx_deliv (pr_st s))) 32) (\<lambda>e4.
       map_option be_buf
         (report_bitmap (pr_rx_window s) (rx_deliv (pr_st s) + 1) (report_end (pr_st s)) e4)))))"

end
