(* ===== verification/Pdcp_Tx.thy ===== *)
theory Pdcp_Tx
  imports Pdcp_Rx
begin

unbundle bit_operations_syntax

text \<open>
  \<open>lib/pdcp/pdcp_entity_tx.cpp\<close>, \<open>pdcp_entity_tx.h\<close> and \<open>pdcp_tx_window.cpp\<close>: the transmitting PDCP entity.  An operation
  returns the new state, the calls to the lower and upper layers in their order, and the tasks it hands to the executors;
  \<^const>\<open>None\<close> is a failed assertion, or for the loop of the discard callback also that it does not end.  The discard timer is
  the tick at which it was started with its duration, or \<^const>\<open>None\<close> when it does not run; the crypto reordering timer is a
  flag.  The bound of the timer service on the duration it is given is not checked: the remaining time of an SDU, computed from
  the clock in 32 bits, is recorded as it is.  Logging, tracing and metrics are left out.
\<close>

section \<open>Transmit window\<close>

record pdcp_tx_window_sdu_info =
  wsi_sdu :: bytes
  wsi_count :: u32
  wsi_tick_point_of_arrival :: "u32 option"

record pdcp_tx_window_element =
  we_sdu_info :: pdcp_tx_window_sdu_info
  we_pdu :: bytes
  we_sdu_length :: u32

record pdcp_tx_window =
  tw_window :: "pdcp_tx_window_element circular_map"
  tw_rb_type :: pdcp_rb_type
  tw_sn_size :: pdcp_sn_size
  tw_sdu_bytes :: u32
  tw_nof_sdus :: u32

definition tw_new :: "pdcp_rb_type \<Rightarrow> pdcp_sn_size \<Rightarrow> pdcp_tx_window option" where
  "tw_new rb sz = Option.bind (pdcp_window_size_bits (pdcp_sn_size_to_uint sz)) (\<lambda>n.
     map_option (\<lambda>w. \<lparr>tw_window = w, tw_rb_type = rb, tw_sn_size = sz, tw_sdu_bytes = 0, tw_nof_sdus = 0\<rparr>)
       (cm_init (unat n)))"

definition tw_has_sn :: "pdcp_tx_window \<Rightarrow> u32 \<Rightarrow> bool" where
  "tw_has_sn w count = has_sn (tw_window w) count"

definition tw_at :: "pdcp_tx_window \<Rightarrow> u32 \<Rightarrow> pdcp_tx_window_element option" where
  "tw_at w count = win_at (tw_window w) count"

definition tw_add_sdu :: "pdcp_tx_window \<Rightarrow> pdcp_tx_window_sdu_info \<Rightarrow> u32 \<Rightarrow> pdcp_tx_window option" where
  "tw_add_sdu w si sdu_length = map_option (\<lambda>m. w\<lparr>tw_window := m, tw_sdu_bytes := tw_sdu_bytes w + sdu_length,
       tw_nof_sdus := tw_nof_sdus w + 1\<rparr>)
     (add_sn (tw_window w) (wsi_count si) \<lparr>we_sdu_info = si, we_pdu = [], we_sdu_length = sdu_length\<rparr>)"

definition tw_remove_sdu :: "pdcp_tx_window \<Rightarrow> u32 \<Rightarrow> pdcp_tx_window option" where
  "tw_remove_sdu w count = (if tw_has_sn w count then
       Option.bind (tw_at w count) (\<lambda>e. map_option (\<lambda>m. w\<lparr>tw_window := m,
         tw_sdu_bytes := tw_sdu_bytes w - we_sdu_length e, tw_nof_sdus := tw_nof_sdus w - 1\<rparr>) (remove_sn (tw_window w) count))
     else Some w)"

definition tw_clear :: "pdcp_tx_window \<Rightarrow> pdcp_tx_window" where
  "tw_clear w = w\<lparr>tw_sdu_bytes := 0, tw_nof_sdus := 0, tw_window := cm_clear (tw_window w)\<rparr>"

definition tw_get_pdu_bytes :: "pdcp_tx_window \<Rightarrow> integrity_enabled \<Rightarrow> u32" where
  "tw_get_pdu_bytes w integrity = tw_sdu_bytes w + tw_nof_sdus w *
     (pdcp_data_header_size (tw_sn_size w) + pdcp_data_trailer_size (tw_rb_type w) (integrity \<noteq> integrity_off))"

text \<open>\<open>tx_window[count].pdu = pdu\<close>; moving the PDU out leaves the empty buffer.\<close>

definition tw_set_pdu :: "pdcp_tx_window \<Rightarrow> u32 \<Rightarrow> bytes \<Rightarrow> pdcp_tx_window option" where
  "tw_set_pdu w count pdu = Option.bind (tw_at w count) (\<lambda>e.
     map_option (\<lambda>m. w\<lparr>tw_window := m\<rparr>) (win_set (tw_window w) count (e\<lparr>we_pdu := pdu\<rparr>)))"

section \<open>State\<close>

record pdcp_tx_state =
  ts_next :: u32
  ts_trans_crypto :: u32
  ts_reord_crypto :: u32
  ts_trans :: u32
  ts_next_ack :: u32

definition tx_state_at :: "u32 \<Rightarrow> pdcp_tx_state" where
  "tx_state_at c = \<lparr>ts_next = c, ts_trans_crypto = c, ts_reord_crypto = c, ts_trans = c, ts_next_ack = c\<rparr>"

record pdcp_tx_buffer_info =
  tb_is_retx :: bool
  tb_retx_id :: "16 word"
  tb_count :: u32
  tb_buf :: bytes

datatype pdcp_tx_event =
    on_new_data_pdu u32 bytes bool
  | on_new_control_pdu bytes
  | on_discard_pdu u32
  | tx_on_resume_required
  | tx_on_max_count_reached
  | tx_on_protocol_failure

text \<open>Tasks in flight; each holds a crypto token.\<close>

datatype pdcp_tx_task =
    Tx_crypto_task pdcp_tx_buffer_info
  | Tx_reorder_task pdcp_tx_buffer_info
  | Tx_failure_task security_status

text \<open>The ROHC compressor is the list of packets and of feedback it was given since its creation.\<close>

datatype rohc_input = Rohc_packet bytes | Rohc_feedback bytes

record pdcp_entity_tx =
  pt_cfg :: pdcp_tx_config
  pt_bearer_id :: u8
  pt_window_size :: u32
  pt_max_count_notified :: bool
  pt_max_count_overflow :: bool
  pt_stopped :: bool
  pt_discard_timer :: "(u32 \<times> u32) option"
  pt_crypto_reordering_timer :: bool
  pt_st :: pdcp_tx_state
  pt_desired_buffer_size :: u32
  pt_max_nof_crypto_workers :: nat
  pt_retransmit_id :: "16 word"
  pt_rohc_comp :: "rohc_input list option"
  pt_sec_engine_pool :: "security_engine option list"
  pt_integrity_enabled :: integrity_enabled
  pt_ciphering_enabled :: ciphering_enabled
  pt_token_mngr :: token_manager
  pt_buffering :: bool
  pt_suspended :: bool
  pt_resume_requested :: bool
  pt_sdu_buffer :: "bytes ring_buffer"
  pt_tx_window :: pdcp_tx_window

text \<open>
  What the entity depends on: the security algorithms, the ROHC compressor (an empty result is a failure), whether the factory
  creates one, whether the memory for copies, headers and MACs is available, which tasks the executors accept, the index of
  the worker and the current tick of the timers.
\<close>

record pdcp_tx_env =
  tenv_prims :: sec_prims
  tenv_compress :: "rohc_input list \<Rightarrow> bytes \<Rightarrow> bytes"
  tenv_rohc_ok :: bool
  tenv_copy_ok :: "bytes \<Rightarrow> bool"
  tenv_header_ok :: "bytes \<Rightarrow> bool"
  tenv_append_ok :: "bytes \<Rightarrow> bool"
  tenv_crypto_accepts :: "bytes \<Rightarrow> bool"
  tenv_ue_accepts :: bool
  tenv_worker_idx :: nat
  tenv_now :: u32

section \<open>Helpers\<close>

definition pt_is_srb :: "pdcp_entity_tx \<Rightarrow> bool" where
  "pt_is_srb s \<longleftrightarrow> txc_rb_type (pt_cfg s) = pdcp_srb"

definition pt_is_um :: "pdcp_entity_tx \<Rightarrow> bool" where
  "pt_is_um s \<longleftrightarrow> txc_rlc_mode (pt_cfg s) = pdcp_um"

definition pt_is_am :: "pdcp_entity_tx \<Rightarrow> bool" where
  "pt_is_am s \<longleftrightarrow> txc_rlc_mode (pt_cfg s) = pdcp_am"

definition pt_SN :: "pdcp_entity_tx \<Rightarrow> u32 \<Rightarrow> u32" where
  "pt_SN s count = pdcp_compute_sn count (txc_sn_size (pt_cfg s))"

definition discard_configured :: "pdcp_entity_tx \<Rightarrow> bool" where
  "discard_configured s \<longleftrightarrow> txc_discard_timer (pt_cfg s) \<noteq> None"

definition discard_finite :: "pdcp_entity_tx \<Rightarrow> bool" where
  "discard_finite s \<longleftrightarrow> discard_configured s \<and> txc_discard_timer (pt_cfg s) \<noteq> Some pdcp_discard_timer_infinity"

definition discard_duration :: "pdcp_entity_tx \<Rightarrow> u32" where
  "discard_duration s = (case txc_discard_timer (pt_cfg s) of None \<Rightarrow> 0 | Some d \<Rightarrow> of_int d)"

definition tx_drop_token :: "pdcp_entity_tx \<Rightarrow> pdcp_entity_tx option" where
  "tx_drop_token s = map_option (\<lambda>tm. s\<lparr>pt_token_mngr := tm\<rparr>) (return_token (pt_token_mngr s))"

definition get_pdu_size :: "pdcp_entity_tx \<Rightarrow> bytes \<Rightarrow> u32" where
  "get_pdu_size s sdu = pdcp_data_header_size (txc_sn_size (pt_cfg s)) + of_nat (length sdu)
     + (if pt_integrity_enabled s = integrity_off then 0 else 4)"

datatype early_drop_reason = zero_dbs | full_rlc_queue | full_window | no_drop

definition check_early_drop :: "pdcp_entity_tx \<Rightarrow> bytes \<Rightarrow> early_drop_reason" where
  "check_early_drop s buf =
     (if pt_desired_buffer_size s = 0 then zero_dbs
      else let updated_buffer_size = tw_get_pdu_bytes (pt_tx_window s) (pt_integrity_enabled s) + get_pdu_size s buf
      in if pt_desired_buffer_size s < updated_buffer_size then full_rlc_queue
      else if pt_window_size s - 1 \<le> ts_next (pt_st s) - ts_next_ack (pt_st s) then full_window
      else no_drop)"

definition init_header_compression :: "pdcp_tx_env \<Rightarrow> pdcp_entity_tx \<Rightarrow> pdcp_entity_tx" where
  "init_header_compression env s = (if txc_header_compression (pt_cfg s) \<and> \<not> txc_uplink_only_rohc (pt_cfg s)
     then s\<lparr>pt_rohc_comp := (if tenv_rohc_ok env then Some [] else None)\<rparr> else s)"

text \<open>The result: whether a packet is left, the packet, the calls and the state.\<close>

definition apply_header_compression :: "pdcp_tx_env \<Rightarrow> pdcp_entity_tx \<Rightarrow> bytes
    \<Rightarrow> bool \<times> bytes \<times> pdcp_tx_event list \<times> pdcp_entity_tx" where
  "apply_header_compression env s buf = (case pt_rohc_comp s of
       None \<Rightarrow> (True, buf, [], s)
     | Some hist \<Rightarrow>
         (let packet = tenv_compress env hist buf; s1 = s\<lparr>pt_rohc_comp := Some (hist @ [Rohc_packet buf])\<rparr>
          in if packet = [] then (False, [], [tx_on_protocol_failure], s1) else (True, packet, [], s1)))"

definition tx_notification_count_estimation :: "pdcp_entity_tx \<Rightarrow> u32 \<Rightarrow> u32" where
  "tx_notification_count_estimation s notification_sn =
     (let tx_lower = (if discard_configured s then ts_next_ack (pt_st s) else ts_trans (pt_st s))
      in count_estimation (txc_sn_size (pt_cfg s)) (pt_window_size s) tx_lower notification_sn)"

section \<open>Discarding\<close>

text \<open>\<open>while (st.tx_next_ack <= highest_count)\<close>; the caller has checked that \<open>highest_count\<close> is below TX_NEXT.\<close>

function stop_discard_loop :: "pdcp_entity_tx \<Rightarrow> u32 \<Rightarrow> pdcp_entity_tx option" where
  "stop_discard_loop s highest_count =
     (if ts_next_ack (pt_st s) \<le> highest_count \<and> highest_count \<noteq> 0xffffffff then
        Option.bind (tw_remove_sdu (pt_tx_window s) (ts_next_ack (pt_st s))) (\<lambda>w.
          stop_discard_loop (s\<lparr>pt_tx_window := w, pt_st := (pt_st s)\<lparr>ts_next_ack := ts_next_ack (pt_st s) + 1\<rparr>\<rparr>) highest_count)
      else Some s)"
  by pat_completeness auto
termination
proof (relation "measure (\<lambda>(s, h). unat (h + 1 - ts_next_ack (pt_st s)))", goal_cases)
  case (2 s h w)
  then have "1 + h \<noteq> 0" "unat (ts_next_ack (pt_st s)) \<le> unat h"
    by (auto simp: word_le_nat_alt add_eq_0_iff)
  then have "ts_next_ack (pt_st s) < h + 1"
    by (simp add: word_less_nat_alt unatSuc add.commute)
  then have "ts_next_ack (pt_st s) \<noteq> h + 1"
    by auto
  then show ?case
    using unat_diff_Suc[of "ts_next_ack (pt_st s)" "h + 1"] by simp
qed simp

declare stop_discard_loop.simps [simp del]

definition set_discard_timer :: "pdcp_tx_env \<Rightarrow> u32 \<Rightarrow> pdcp_entity_tx \<Rightarrow> pdcp_entity_tx" where
  "set_discard_timer env duration s = s\<lparr>pt_discard_timer := Some (tenv_now env, duration)\<rparr>"

definition stop_discard_timer :: "pdcp_tx_env \<Rightarrow> pdcp_entity_tx \<Rightarrow> u32 \<Rightarrow> pdcp_entity_tx option" where
  "stop_discard_timer env s highest_count =
     (if \<not> discard_configured s then Some s
      else if highest_count < ts_next_ack (pt_st s) \<or> ts_next (pt_st s) \<le> highest_count then Some s
      else if \<not> tw_has_sn (pt_tx_window s) (ts_next_ack (pt_st s)) then Some s
      else Option.bind (stop_discard_loop (s\<lparr>pt_discard_timer := None\<rparr>) highest_count) (\<lambda>s1.
        let s2 = s1\<lparr>pt_st := (pt_st s1)\<lparr>ts_trans := max (ts_trans (pt_st s1)) (ts_next_ack (pt_st s1))\<rparr>\<rparr> in
        if \<not> discard_finite s2 then Some s2
        else if ts_next_ack (pt_st s2) \<noteq> ts_next (pt_st s2) then
          Option.bind (tw_at (pt_tx_window s2) (ts_next_ack (pt_st s2))) (\<lambda>e.
          Option.bind (wsi_tick_point_of_arrival (we_sdu_info e)) (\<lambda>toa.
            Some (set_discard_timer env (toa + discard_duration s2 - tenv_now env) s2)))
        else Some s2))"

text \<open>\<open>while (st.tx_next_ack < st.tx_next && !tx_window.has_sn(st.tx_next_ack))\<close>\<close>

function advance_next_ack :: "pdcp_entity_tx \<Rightarrow> pdcp_entity_tx" where
  "advance_next_ack s =
     (if ts_next_ack (pt_st s) < ts_next (pt_st s) \<and> \<not> tw_has_sn (pt_tx_window s) (ts_next_ack (pt_st s))
      then advance_next_ack (s\<lparr>pt_st := (pt_st s)\<lparr>ts_next_ack := ts_next_ack (pt_st s) + 1\<rparr>\<rparr>)
      else s)"
  by pat_completeness auto
termination
  by (relation "measure (\<lambda>s. unat (ts_next (pt_st s) - ts_next_ack (pt_st s)))") (auto simp: unat_diff_Suc)

declare advance_next_ack.simps [simp del]

definition discard_pdu :: "pdcp_entity_tx \<Rightarrow> u32 \<Rightarrow> (pdcp_entity_tx \<times> pdcp_tx_event list) option" where
  "discard_pdu s count =
     (if \<not> discard_configured s then Some (s, [])
      else if count < ts_next_ack (pt_st s) \<or> ts_next (pt_st s) \<le> count then Some (s, [])
      else if \<not> tw_has_sn (pt_tx_window s) count then Some (s, [])
      else map_option (\<lambda>w.
        (let s1 = advance_next_ack (s\<lparr>pt_tx_window := w\<rparr>)
         in (s1\<lparr>pt_st := (pt_st s1)\<lparr>ts_trans := max (ts_trans (pt_st s1)) (ts_next_ack (pt_st s1))\<rparr>\<rparr>,
             [on_discard_pdu (pt_SN s count)]))) (tw_remove_sdu (pt_tx_window s) count))"

text \<open>The loop of the discard callback.\<close>

partial_function (option) discard_loop :: "pdcp_tx_env \<Rightarrow> u32 \<Rightarrow> pdcp_entity_tx
    \<Rightarrow> (pdcp_entity_tx \<times> pdcp_tx_event list) option" where
  "discard_loop env oldest_timepoint s =
     Option.bind (discard_pdu s (ts_next_ack (pt_st s))) (\<lambda>(s1, evs).
       if \<not> tw_has_sn (pt_tx_window s1) (ts_next_ack (pt_st s1)) then Some (s1, evs)
       else Option.bind (tw_at (pt_tx_window s1) (ts_next_ack (pt_st s1))) (\<lambda>e.
            Option.bind (wsi_tick_point_of_arrival (we_sdu_info e)) (\<lambda>toa.
              if toa \<noteq> oldest_timepoint then Some (set_discard_timer env (toa - oldest_timepoint) s1, evs)
              else if ts_next_ack (pt_st s1) \<noteq> ts_next (pt_st s1)
              then Option.bind (discard_loop env oldest_timepoint s1) (\<lambda>(s2, evs2). Some (s2, evs @ evs2))
              else Some (s1, evs))))"

declare discard_loop.simps [code]

text \<open>The timer has expired: it no longer runs when its callback is called.\<close>

definition discard_callback :: "pdcp_tx_env \<Rightarrow> pdcp_entity_tx \<Rightarrow> (pdcp_entity_tx \<times> pdcp_tx_event list) option" where
  "discard_callback env s0 = (let s = s0\<lparr>pt_discard_timer := None\<rparr> in
     if pt_stopped s then Some (s, [])
     else if \<not> tw_has_sn (pt_tx_window s) (ts_next_ack (pt_st s)) then Some (s, [])
     else Option.bind (tw_at (pt_tx_window s) (ts_next_ack (pt_st s))) (\<lambda>e.
          Option.bind (wsi_tick_point_of_arrival (we_sdu_info e)) (\<lambda>oldest. discard_loop env oldest s)))"

section \<open>Notifications of the lower layers\<close>

definition handle_transmit_notification_impl :: "pdcp_tx_env \<Rightarrow> pdcp_entity_tx \<Rightarrow> u32 \<Rightarrow> pdcp_entity_tx option" where
  "handle_transmit_notification_impl env s notif_sn =
     (if push_bit (pdcp_sn_size_to_uint (txc_sn_size (pt_cfg s))) 1 \<le> notif_sn then Some s
      else let notif_count = tx_notification_count_estimation s notif_sn in
      if ts_trans_crypto (pt_st s) \<le> notif_count then Some s
      else if notif_count < ts_trans (pt_st s) then Some s
      else if ts_next (pt_st s) \<le> notif_count then Some s
      else let s1 = s\<lparr>pt_st := (pt_st s)\<lparr>ts_trans := notif_count + 1\<rparr>\<rparr>
      in if \<not> discard_configured s1 then Some s1
         else if pt_is_um s1 then stop_discard_timer env s1 notif_count else Some s1)"

definition handle_transmit_notification :: "pdcp_tx_env \<Rightarrow> pdcp_entity_tx \<Rightarrow> u32 \<Rightarrow> pdcp_entity_tx option" where
  "handle_transmit_notification env s notif_sn =
     (if pt_stopped s then Some s else handle_transmit_notification_impl env s notif_sn)"

definition handle_delivery_notification_impl :: "pdcp_tx_env \<Rightarrow> pdcp_entity_tx \<Rightarrow> u32 \<Rightarrow> pdcp_entity_tx option" where
  "handle_delivery_notification_impl env s notif_sn =
     (if push_bit (pdcp_sn_size_to_uint (txc_sn_size (pt_cfg s))) 1 \<le> notif_sn then Some s
      else let notif_count = tx_notification_count_estimation s notif_sn in
      if ts_next (pt_st s) \<le> notif_count then Some s
      else if \<not> discard_configured s then Some s
      else if pt_is_am s then stop_discard_timer env s notif_count else Some s)"

definition handle_delivery_notification :: "pdcp_tx_env \<Rightarrow> pdcp_entity_tx \<Rightarrow> u32 \<Rightarrow> pdcp_entity_tx option" where
  "handle_delivery_notification env s notif_sn =
     (if pt_stopped s then Some s else handle_delivery_notification_impl env s notif_sn)"

definition handle_retransmit_notification :: "pdcp_tx_env \<Rightarrow> pdcp_entity_tx \<Rightarrow> u32 \<Rightarrow> pdcp_entity_tx option" where
  "handle_retransmit_notification env s notif_sn =
     (if pt_stopped s \<or> pt_is_srb s \<or> pt_is_um s then Some s else handle_transmit_notification_impl env s notif_sn)"

definition handle_delivery_retransmitted_notification :: "pdcp_tx_env \<Rightarrow> pdcp_entity_tx \<Rightarrow> u32 \<Rightarrow> pdcp_entity_tx option" where
  "handle_delivery_retransmitted_notification env s notif_sn =
     (if pt_stopped s \<or> pt_is_srb s \<or> pt_is_um s then Some s else handle_delivery_notification_impl env s notif_sn)"

definition handle_desired_buffer_size_notification :: "pdcp_entity_tx \<Rightarrow> u32 \<Rightarrow> pdcp_entity_tx" where
  "handle_desired_buffer_size_notification s desired_bs = (if pt_stopped s then s else s\<lparr>pt_desired_buffer_size := desired_bs\<rparr>)"

section \<open>Reordering after the crypto workers\<close>

text \<open>Notifications change neither TX_NEXT nor the configuration.\<close>

lemma stop_discard_loop_next:
  "stop_discard_loop s h = Some s' \<Longrightarrow> ts_next (pt_st s') = ts_next (pt_st s)"
proof (induction s h rule: stop_discard_loop.induct)
  case (1 s h)
  show ?case
    using 1(2) 1(1) by (subst (asm) stop_discard_loop.simps) (auto simp: bind_eq_Some_conv' split: if_splits)
qed

lemma transmit_notification_next:
  "handle_transmit_notification env s sn = Some s' \<Longrightarrow> ts_next (pt_st s') = ts_next (pt_st s)"
  by (auto simp: handle_transmit_notification_def handle_transmit_notification_impl_def stop_discard_timer_def
      set_discard_timer_def Let_def bind_eq_Some_conv' dest!: stop_discard_loop_next split: if_splits)

text \<open>\<open>for (count = st.tx_trans_crypto; count < st.tx_next && not tx_window[count].pdu.empty(); count++)\<close>\<close>

function deliver_in_order :: "pdcp_tx_env \<Rightarrow> bool \<Rightarrow> pdcp_entity_tx \<Rightarrow> u32 \<Rightarrow> (pdcp_entity_tx \<times> pdcp_tx_event list) option" where
  "deliver_in_order env is_retx s count =
     (if count < ts_next (pt_st s) then
        Option.bind (tw_at (pt_tx_window s) count) (\<lambda>e.
          if we_pdu e = [] then Some (s, [])
          else Option.bind (tw_set_pdu (pt_tx_window s) count []) (\<lambda>w.
            Option.bind (if txc_test_mode (pt_cfg s)
                then handle_transmit_notification env
                  (s\<lparr>pt_tx_window := w, pt_st := (pt_st s)\<lparr>ts_trans_crypto := count + 1\<rparr>\<rparr>) (pt_SN s count)
                else Some (s\<lparr>pt_tx_window := w, pt_st := (pt_st s)\<lparr>ts_trans_crypto := count + 1\<rparr>\<rparr>)) (\<lambda>s2.
              add_events [on_new_data_pdu count (we_pdu e) is_retx] (deliver_in_order env is_retx s2 (count + 1)))))
      else Some (s, []))"
  by pat_completeness auto
termination
  by (relation "measure (\<lambda>(env, r, s, count). unat (ts_next (pt_st s) - count))")
    (auto simp: unat_diff_Suc dest!: transmit_notification_next split: if_splits)

declare deliver_in_order.simps [simp del]

definition tx_apply_reordering :: "pdcp_tx_env \<Rightarrow> pdcp_entity_tx \<Rightarrow> pdcp_tx_buffer_info
    \<Rightarrow> (pdcp_entity_tx \<times> pdcp_tx_event list) option" where
  "tx_apply_reordering env s bi =
     (if pt_stopped s then Some (s, [])
      else if tb_retx_id bi \<noteq> pt_retransmit_id s then Some (s, [])
      else if tb_count bi < ts_next_ack (pt_st s) then Some (s, [])
      else if tb_count bi < ts_trans (pt_st s) then Some (s, [])
      else if \<not> tw_has_sn (pt_tx_window s) (tb_count bi) then Some (s, [])
      else Option.bind (tw_set_pdu (pt_tx_window s) (tb_count bi) (tb_buf bi)) (\<lambda>w.
        Option.bind (deliver_in_order env (tb_is_retx bi) (s\<lparr>pt_tx_window := w\<rparr>) (ts_trans_crypto (pt_st s))) (\<lambda>(s1, evs).
          let s2 = (if pt_crypto_reordering_timer s1 \<and> ts_reord_crypto (pt_st s1) \<le> ts_trans_crypto (pt_st s1)
                    then s1\<lparr>pt_crypto_reordering_timer := False\<rparr> else s1);
              s3 = (if \<not> pt_crypto_reordering_timer s2 \<and> ts_trans_crypto (pt_st s2) < ts_next (pt_st s2)
                    then s2\<lparr>pt_st := (pt_st s2)\<lparr>ts_reord_crypto := ts_next (pt_st s2)\<rparr>, pt_crypto_reordering_timer := True\<rparr> else s2)
          in Some (s3, evs))))"

text \<open>The first loop of \<open>crypto_reordering_timeout\<close>.\<close>

function crypto_expire_loop :: "pdcp_entity_tx \<Rightarrow> (pdcp_entity_tx \<times> pdcp_tx_event list) option" where
  "crypto_expire_loop s =
     (let count = ts_trans_crypto (pt_st s); next = (pt_st s)\<lparr>ts_trans_crypto := count + 1\<rparr> in
      if count \<noteq> ts_reord_crypto (pt_st s) then
        (if tw_has_sn (pt_tx_window s) count \<and> map_option we_pdu (tw_at (pt_tx_window s) count) \<noteq> Some [] then
           Option.bind (tw_at (pt_tx_window s) count) (\<lambda>e.
           Option.bind (tw_set_pdu (pt_tx_window s) count []) (\<lambda>w.
             add_events [on_new_data_pdu count (we_pdu e) False] (crypto_expire_loop (s\<lparr>pt_tx_window := w, pt_st := next\<rparr>))))
         else crypto_expire_loop (s\<lparr>pt_st := next\<rparr>))
      else Some (s, []))"
  by pat_completeness auto
termination
  by (relation "measure (\<lambda>s. unat (ts_reord_crypto (pt_st s) - ts_trans_crypto (pt_st s)))") (auto simp: unat_diff_Suc)

declare crypto_expire_loop.simps [simp del]

definition crypto_reordering_timeout :: "pdcp_tx_env \<Rightarrow> pdcp_entity_tx \<Rightarrow> (pdcp_entity_tx \<times> pdcp_tx_event list) option" where
  "crypto_reordering_timeout env s0 = (let s = s0\<lparr>pt_crypto_reordering_timer := False\<rparr> in
     if pt_stopped s then Some (s, [])
     else Option.bind (crypto_expire_loop s) (\<lambda>(s1, evs1).
       Option.bind (deliver_in_order env False s1 (ts_trans_crypto (pt_st s1))) (\<lambda>(s2, evs2).
         Some (if ts_trans_crypto (pt_st s2) < ts_next (pt_st s2)
               then s2\<lparr>pt_st := (pt_st s2)\<lparr>ts_reord_crypto := ts_next (pt_st s2)\<rparr>, pt_crypto_reordering_timer := True\<rparr>
               else s2, evs1 @ evs2))))"

section \<open>Protection\<close>

definition apply_ciphering_and_integrity_protection ::
  "pdcp_tx_env \<Rightarrow> pdcp_entity_tx \<Rightarrow> bytes \<Rightarrow> u32 \<Rightarrow> (security_status \<times> bytes) option" where
  "apply_ciphering_and_integrity_protection env s buf count =
     (if pt_max_nof_crypto_workers s \<le> tenv_worker_idx env then None
      else case pt_sec_engine_pool s ! tenv_worker_idx env of
        None \<Rightarrow>
          (if pt_is_srb s then
             (if \<not> tenv_append_ok env buf then Some (sec_buffer_failure, buf)
              else Some (sec_success_unprotected, buf @ [0, 0, 0, 0]))
           else Some (sec_engine_failure, buf))
      | Some sec_engine \<Rightarrow>
          let hdr_size = (if txc_sn_size (pt_cfg s) = pdcp_size12bits then 2 else 3)
          in encrypt_and_protect_integrity (tenv_prims env) sec_engine (tenv_append_ok env buf) buf hdr_size count)"

definition tx_post_ue_task :: "pdcp_tx_env \<Rightarrow> pdcp_entity_tx \<Rightarrow> pdcp_tx_task \<Rightarrow> (pdcp_entity_tx \<times> pdcp_tx_task list) option" where
  "tx_post_ue_task env s t = (if tenv_ue_accepts env then Some (s, [t])
     else map_option (\<lambda>s'. (s', [])) (tx_drop_token s))"

definition tx_apply_security :: "pdcp_tx_env \<Rightarrow> pdcp_entity_tx \<Rightarrow> pdcp_tx_buffer_info
    \<Rightarrow> (pdcp_entity_tx \<times> pdcp_tx_task list) option" where
  "tx_apply_security env s bi =
     Option.bind (apply_ciphering_and_integrity_protection env s (tb_buf bi) (tb_count bi)) (\<lambda>(status, buf).
       if \<not> sec_is_success status then tx_post_ue_task env s (Tx_failure_task status)
       else tx_post_ue_task env s (Tx_reorder_task (bi\<lparr>tb_buf := buf\<rparr>)))"

text \<open>A task runs and gives its token back, or passes it on.\<close>

definition run_tx_task :: "pdcp_tx_env \<Rightarrow> pdcp_entity_tx \<Rightarrow> pdcp_tx_task
    \<Rightarrow> (pdcp_entity_tx \<times> pdcp_tx_event list \<times> pdcp_tx_task list) option" where
  "run_tx_task env s t = (case t of
       Tx_crypto_task bi \<Rightarrow> map_option (\<lambda>(s', ts). (s', [], ts)) (tx_apply_security env s bi)
     | Tx_reorder_task bi \<Rightarrow> Option.bind (tx_apply_reordering env s bi) (\<lambda>(s1, evs).
         map_option (\<lambda>s2. (s2, evs, [])) (tx_drop_token s1))
     | Tx_failure_task status \<Rightarrow> map_option (\<lambda>s'. (s', [tx_on_protocol_failure], [])) (tx_drop_token s))"

text \<open>The creation of the task with its token; a task the executor refuses gives the token back.\<close>

definition post_crypto_task :: "pdcp_tx_env \<Rightarrow> pdcp_entity_tx \<Rightarrow> pdcp_tx_buffer_info
    \<Rightarrow> (pdcp_entity_tx \<times> pdcp_tx_task list) option" where
  "post_crypto_task env s bi = (let s1 = s\<lparr>pt_token_mngr := increment_token (pt_token_mngr s)\<rparr> in
     if tenv_crypto_accepts env (tb_buf bi) then Some (s1, [Tx_crypto_task bi])
     else map_option (\<lambda>s2. (s2, [])) (tx_drop_token s1))"

section \<open>Transmission of an SDU\<close>

definition tx_check_max_count :: "pdcp_entity_tx \<Rightarrow> bool \<times> pdcp_entity_tx \<times> pdcp_tx_event list" where
  "tx_check_max_count s =
     (if mc_hard (txc_max_count (pt_cfg s)) \<le> ts_next (pt_st s) then
        (if \<not> pt_max_count_overflow s then (False, s\<lparr>pt_max_count_overflow := True\<rparr>, [tx_on_protocol_failure])
         else (False, s, []))
      else if mc_notify (txc_max_count (pt_cfg s)) \<le> ts_next (pt_st s) \<and> \<not> pt_max_count_notified s
      then (True, s\<lparr>pt_max_count_notified := True\<rparr>, [tx_on_max_count_reached])
      else (True, s, []))"

definition start_discard_timer :: "pdcp_tx_env \<Rightarrow> pdcp_entity_tx \<Rightarrow> pdcp_entity_tx" where
  "start_discard_timer env s = (if discard_finite s \<and> pt_discard_timer s = None
     then set_discard_timer env (discard_duration s) s else s)"

text \<open>From the wrapping of the SDU on.\<close>

definition tx_send_sdu :: "pdcp_tx_env \<Rightarrow> pdcp_entity_tx \<Rightarrow> bytes
    \<Rightarrow> (pdcp_entity_tx \<times> pdcp_tx_event list \<times> pdcp_tx_task list) option" where
  "tx_send_sdu env s buf =
     (let count = ts_next (pt_st s);
          s1 = start_discard_timer env s;
          keep = discard_configured s1 \<and> pt_is_am s1;
          sdu_info = \<lparr>wsi_sdu = (if keep then buf else []), wsi_count = count,
            wsi_tick_point_of_arrival = (if discard_finite s1 then Some (tenv_now env) else None)\<rparr>
      in if keep \<and> \<not> tenv_copy_ok env buf then Some (s1, [tx_on_protocol_failure], [])
         else Option.bind (tw_add_sdu (pt_tx_window s1) sdu_info (of_nat (length buf))) (\<lambda>w.
           let (ok, buf1, evs, s2) = apply_header_compression env (s1\<lparr>pt_tx_window := w\<rparr>) buf
           in if \<not> ok then Some (s2, evs, [])
              else Option.bind (prepend_data_pdu_header (txc_rb_type (pt_cfg s2)) (txc_sn_size (pt_cfg s2)) (tenv_header_ok env buf1) buf1
                     (pt_SN s2 count)) (\<lambda>(hdr_ok, buf2).
                if \<not> hdr_ok then Some (s2, evs @ [tx_on_protocol_failure], [])
                else map_option (\<lambda>(s3, ts). (s3, evs, ts))
                  (post_crypto_task env (s2\<lparr>pt_st := (pt_st s2)\<lparr>ts_next := ts_next (pt_st s2) + 1\<rparr>\<rparr>)
                     \<lparr>tb_is_retx = False, tb_retx_id = pt_retransmit_id s2, tb_count = count, tb_buf = buf2\<rparr>))))"

definition handle_sdu :: "pdcp_tx_env \<Rightarrow> pdcp_entity_tx \<Rightarrow> bytes
    \<Rightarrow> (pdcp_entity_tx \<times> pdcp_tx_event list \<times> pdcp_tx_task list) option" where
  "handle_sdu env s buf =
     (if pt_stopped s then Some (s, [], [])
      else let resume = pt_suspended s \<and> \<not> pt_resume_requested s;
               s1 = (if resume then s\<lparr>pt_resume_requested := True\<rparr> else s);
               evs1 = (if resume then [tx_on_resume_required] else [])
      in if pt_buffering s1 then Some (s1\<lparr>pt_sdu_buffer := snd (rb_try_push (pt_sdu_buffer s1) buf)\<rparr>, evs1, [])
         else if \<not> pt_is_srb s1 \<and> check_early_drop s1 buf \<noteq> no_drop then Some (s1, evs1, [])
         else let (go, s2, evs2) = tx_check_max_count s1
         in if \<not> go then Some (s2, evs1 @ evs2, [])
            else map_option (\<lambda>(s3, evs3, ts). (s3, evs1 @ evs2 @ evs3, ts)) (tx_send_sdu env s2 buf))"

section \<open>Control PDUs\<close>

text \<open>The bits of the bitmap are read until the decoder has none left.\<close>

definition dec_left :: "bit_decoder \<Rightarrow> nat" where
  "dec_left d = 8 * length (bd_rest d) - min 8 (bd_offset d)"

lemma unpack_bit_decreases:
  assumes "unpack d (Suc 0) = Some (True, v :: u32, d')"
  shows "dec_left d' < dec_left d"
  using assms
  by (subst (asm) unpack_def, subst (asm) unpack_loop.simps)
    (auto simp: dec_left_def unpack_loop.simps split: list.splits if_splits)

function report_discards :: "pdcp_entity_tx \<Rightarrow> bit_decoder \<Rightarrow> u32 \<Rightarrow> (pdcp_entity_tx \<times> pdcp_tx_event list) option" where
  "report_discards s dec fmc =
     Option.bind (unpack dec 1) (\<lambda>(ok, bit :: u32, dec').
       if ok then
         Option.bind (if bit = 1 then discard_pdu s (fmc + 1) else Some (s, [])) (\<lambda>(s1, evs).
           add_events evs (report_discards s1 dec' (fmc + 1)))
       else Some (s, []))"
  by pat_completeness auto
termination
  by (relation "measure (\<lambda>(s, d, fmc). dec_left d)") (auto dest: unpack_bit_decreases)

declare report_discards.simps [simp del]

text \<open>\<open>for (count = st.tx_next_ack; count < fmc; count++)\<close>\<close>

function discard_below :: "pdcp_entity_tx \<Rightarrow> u32 \<Rightarrow> u32 \<Rightarrow> (pdcp_entity_tx \<times> pdcp_tx_event list) option" where
  "discard_below s count fmc = (if count < fmc then
       Option.bind (discard_pdu s count) (\<lambda>(s1, evs). add_events evs (discard_below s1 (count + 1) fmc))
     else Some (s, []))"
  by pat_completeness auto
termination
  by (relation "measure (\<lambda>(s, count, fmc). unat (fmc - count))") (auto simp: unat_diff_Suc)

declare discard_below.simps [simp del]

text \<open>The flag says whether memory for a copy of the report is available.\<close>

definition handle_status_report :: "bool \<Rightarrow> pdcp_entity_tx \<Rightarrow> bytes \<Rightarrow> (pdcp_entity_tx \<times> pdcp_tx_event list) option" where
  "handle_status_report mem_ok s buf =
     (if \<not> mem_ok then Some (s, [])
      else Option.bind (unpack (bit_decoder_new buf) 1) (\<lambda>(_, dc :: u32, d1).
        if dc \<noteq> 0 then Some (s, [])
        else Option.bind (unpack d1 3) (\<lambda>(_, cpt :: u32, d2).
          if cpt \<noteq> ucast cpt_status_report then Some (s, [])
          else Option.bind (unpack d2 4) (\<lambda>(_, reserved :: u32, d3).
            if reserved \<noteq> 0 then Some (s, [])
            else Option.bind (unpack d3 32) (\<lambda>(_, fmc :: u32, d4).
              let bitmap_length = of_nat (length buf) - 5 :: u32;
                  evs1 = (if fmc = ts_next (pt_st s) \<and> bitmap_length \<noteq> 0 then [tx_on_protocol_failure] else []);
                  delta = ts_next (pt_st s) - fmc - 1
              in if ts_next (pt_st s) < fmc then Some (s, [tx_on_protocol_failure])
                 else if (delta + 7) div 8 < bitmap_length then Some (s, evs1 @ [tx_on_protocol_failure])
                 else if bitmap_length \<noteq> 0 \<and> push_bit (unat (delta mod 8)) (last buf) \<noteq> 0
                 then Some (s, evs1 @ [tx_on_protocol_failure])
                 else add_events evs1 (Option.bind (discard_below s (ts_next_ack (pt_st s)) fmc) (\<lambda>(s1, evs2).
                   add_events evs2 (report_discards s1 d4 fmc))))))))"

definition consume_rohc_feedback :: "bool \<Rightarrow> pdcp_entity_tx \<Rightarrow> bytes \<Rightarrow> pdcp_entity_tx option" where
  "consume_rohc_feedback mem_ok s buf = (case pt_rohc_comp s of
       None \<Rightarrow> Some s
     | Some hist \<Rightarrow> if \<not> mem_ok then Some s
        else Option.bind (unpack (bit_decoder_new buf) 1) (\<lambda>(_, dc :: u32, d1).
          if dc \<noteq> 0 then Some s
          else Option.bind (unpack d1 3) (\<lambda>(_, cpt :: u32, d2).
            if cpt \<noteq> ucast cpt_interspersed_rohc_feedback then Some s
            else Option.bind (unpack d2 4) (\<lambda>(_, reserved :: u32, d3).
              if reserved \<noteq> 0 then Some s
              else Some (s\<lparr>pt_rohc_comp := Some (hist @ [Rohc_feedback (tl buf)])\<rparr>)))))"

definition forward_rohc_feedback :: "bool \<Rightarrow> pdcp_entity_tx \<Rightarrow> bytes \<Rightarrow> pdcp_tx_event list" where
  "forward_rohc_feedback mem_ok s rohc_feedback =
     (let (ok, buf) = prepend_control_pdu_header mem_ok rohc_feedback cpt_interspersed_rohc_feedback
      in if \<not> ok then [tx_on_protocol_failure] else [on_new_control_pdu buf])"

text \<open>The report is what the receiving entity compiles.\<close>

definition send_status_report :: "pdcp_entity_tx \<Rightarrow> bytes \<Rightarrow> pdcp_tx_event list" where
  "send_status_report s status_report = (if txc_status_report_required (pt_cfg s) then [on_new_control_pdu status_report] else [])"

section \<open>Retransmission and recovery\<close>

definition tx_reset :: "pdcp_entity_tx \<Rightarrow> pdcp_entity_tx" where
  "tx_reset s = s\<lparr>pt_st := tx_state_at 0, pt_tx_window := tw_clear (pt_tx_window s)\<rparr>"

lemma header_compression_state:
  "apply_header_compression env s buf = (ok, buf', evs, s') \<Longrightarrow> \<exists>r. s' = s\<lparr>pt_rohc_comp := r\<rparr>"
  by (auto simp: apply_header_compression_def Let_def split: option.splits if_splits intro: exI[of _ "pt_rohc_comp s"])

lemma post_crypto_task_state:
  "post_crypto_task env s bi = Some (s', ts) \<Longrightarrow> \<exists>tm. s' = s\<lparr>pt_token_mngr := tm\<rparr>"
  by (auto simp: post_crypto_task_def tx_drop_token_def Let_def split: if_splits)

text \<open>\<open>for (count = st.tx_next_ack; count < st.tx_next; count++)\<close>, left at the first failure\<close>

function retransmit_loop :: "pdcp_tx_env \<Rightarrow> pdcp_entity_tx \<Rightarrow> u32
    \<Rightarrow> (pdcp_entity_tx \<times> pdcp_tx_event list \<times> pdcp_tx_task list) option" where
  "retransmit_loop env s count =
     (if count < ts_next (pt_st s) then
        (if tw_has_sn (pt_tx_window s) count then
           Option.bind (tw_at (pt_tx_window s) count) (\<lambda>e.
             if \<not> tenv_copy_ok env (wsi_sdu (we_sdu_info e)) then Some (s, [tx_on_protocol_failure], [])
             else case apply_header_compression env s (wsi_sdu (we_sdu_info e)) of (ok, buf1, evs, s1) \<Rightarrow>
               if \<not> ok then Some (s1, evs, [])
               else Option.bind (prepend_data_pdu_header (txc_rb_type (pt_cfg s1)) (txc_sn_size (pt_cfg s1)) (tenv_header_ok env buf1)
                      buf1 (pt_SN s1 count)) (\<lambda>(hdr_ok, buf2).
                 if \<not> hdr_ok then Some (s1, evs @ [tx_on_protocol_failure], [])
                 else Option.bind (post_crypto_task env s1 \<lparr>tb_is_retx = True, tb_retx_id = pt_retransmit_id s1,
                        tb_count = count, tb_buf = buf2\<rparr>) (\<lambda>(s2, ts).
                   Option.bind (retransmit_loop env s2 (count + 1)) (\<lambda>(s3, evs3, ts3). Some (s3, evs @ evs3, ts @ ts3)))))
         else retransmit_loop env s (count + 1))
      else Some (s, [], []))"
  by pat_completeness auto
termination
  by (relation "measure (\<lambda>(env, s, count). unat (ts_next (pt_st s) - count))")
    (auto simp: unat_diff_Suc dest!: header_compression_state[OF sym] post_crypto_task_state)

declare retransmit_loop.simps [simp del]

definition retransmit_all_pdus :: "pdcp_tx_env \<Rightarrow> pdcp_entity_tx
    \<Rightarrow> (pdcp_entity_tx \<times> pdcp_tx_event list \<times> pdcp_tx_task list) option" where
  "retransmit_all_pdus env s =
     (if \<not> discard_configured s then Some (s, [], [])
      else if \<not> pt_is_am s then Some (s, [], [])
      else let s1 = s\<lparr>pt_st := (pt_st s)\<lparr>ts_trans := ts_next_ack (pt_st s), ts_trans_crypto := ts_next_ack (pt_st s)\<rparr>,
                 pt_retransmit_id := pt_retransmit_id s + 1\<rparr>
        in retransmit_loop env s1 (ts_next_ack (pt_st s1)))"

definition data_recovery :: "pdcp_tx_env \<Rightarrow> pdcp_entity_tx \<Rightarrow> bytes
    \<Rightarrow> (pdcp_entity_tx \<times> pdcp_tx_event list \<times> pdcp_tx_task list) option" where
  "data_recovery env s status_report =
     (if pt_is_srb s \<or> \<not> pt_is_am s then None
      else map_option (\<lambda>(s1, evs, ts). (s1, send_status_report s status_report @ evs, ts)) (retransmit_all_pdus env s))"

definition tx_configure_security :: "pdcp_entity_tx \<Rightarrow> sec_128_as_config \<Rightarrow> integrity_enabled
    \<Rightarrow> ciphering_enabled \<Rightarrow> pdcp_entity_tx option" where
  "tx_configure_security s sec_cfg integ ciph =
     (if \<not> (pt_is_srb s \<and> sc_domain sec_cfg = sec_rrc \<or> \<not> pt_is_srb s \<and> sc_domain sec_cfg = sec_up) then None
      else if integ = integrity_smc_transition then None
      else if integ \<noteq> integrity_off \<and> (sc_k_128_int sec_cfg = None \<or> sc_integ_algo sec_cfg = None) then Some s
      else if integ = integrity_off \<and> pt_is_srb s then None
      else map_option (\<lambda>eng. s\<lparr>pt_integrity_enabled := integ, pt_ciphering_enabled := ciph,
               pt_sec_engine_pool := replicate (pt_max_nof_crypto_workers s) (Some eng)\<rparr>)
             (security_engine_new sec_cfg (pt_bearer_id s) (to_security_direction (txc_direction (pt_cfg s))) integ ciph))"

definition tx_reestablish :: "pdcp_tx_env \<Rightarrow> pdcp_entity_tx \<Rightarrow> sec_128_as_config
    \<Rightarrow> (pdcp_entity_tx \<times> pdcp_tx_event list \<times> pdcp_tx_task list) option" where
  "tx_reestablish env s sec_cfg =
     (let s1 = init_header_compression env s;
          s2 = (if pt_is_srb s1 \<or> pt_is_um s1 then tx_reset s1 else s1)
      in Option.bind (tx_configure_security s2 sec_cfg (pt_integrity_enabled s2) (pt_ciphering_enabled s2)) (\<lambda>s3.
           if pt_is_am s3 then retransmit_all_pdus env s3 else Some (s3, [], [])))"

section \<open>Life cycle\<close>

definition pdcp_entity_tx_new :: "pdcp_tx_env \<Rightarrow> u8 \<Rightarrow> pdcp_tx_config \<Rightarrow> nat \<Rightarrow> pdcp_entity_tx option" where
  "pdcp_entity_tx_new env bearer cfg max_nof_crypto_workers =
     Option.bind (pdcp_data_pdu_header_size (txc_sn_size cfg)) (\<lambda>_.
     Option.bind (pdcp_window_size (txc_sn_size cfg)) (\<lambda>wsize.
     Option.bind (tw_new (txc_rb_type cfg) (txc_sn_size cfg)) (\<lambda>w.
       if txc_rb_type cfg = pdcp_srb \<and>
          (txc_sn_size cfg \<noteq> pdcp_size12bits \<or> txc_rlc_mode cfg = pdcp_um \<or> txc_header_compression cfg) then None
       else Some (init_header_compression env
         \<lparr>pt_cfg = cfg, pt_bearer_id = bearer, pt_window_size = wsize, pt_max_count_notified = False,
           pt_max_count_overflow = False, pt_stopped = False, pt_discard_timer = None, pt_crypto_reordering_timer = False,
           pt_st = tx_state_at 0, pt_desired_buffer_size = 0, pt_max_nof_crypto_workers = max_nof_crypto_workers,
           pt_retransmit_id = 0, pt_rohc_comp = None, pt_sec_engine_pool = replicate max_nof_crypto_workers None,
           pt_integrity_enabled = integrity_off, pt_ciphering_enabled = ciphering_off,
           pt_token_mngr = \<lparr>tm_tokens = 0, tm_pending_set = False\<rparr>, pt_buffering = False, pt_suspended = False,
           pt_resume_requested = False, pt_sdu_buffer = rb_new 2048, pt_tx_window = w\<rparr>))))"

definition tx_stop :: "pdcp_entity_tx \<Rightarrow> pdcp_entity_tx option" where
  "tx_stop s = (if \<not> pt_stopped s then
       map_option (\<lambda>tm. s\<lparr>pt_stopped := True, pt_tx_window := tw_clear (pt_tx_window s),
           pt_discard_timer := (if discard_configured s then None else pt_discard_timer s),
           pt_crypto_reordering_timer := False, pt_token_mngr := tm\<rparr>) (tm_stop (pt_token_mngr s))
     else Some s)"

definition tx_notify_pdu_processing_stopped :: "pdcp_entity_tx \<Rightarrow> pdcp_entity_tx option" where
  "tx_notify_pdu_processing_stopped s = (if \<not> pt_stopped s then
       map_option (\<lambda>tm. s\<lparr>pt_token_mngr := tm\<rparr>) (tm_stop (pt_token_mngr s)) else Some s)"

definition tx_restart_pdu_processing :: "pdcp_entity_tx \<Rightarrow> pdcp_entity_tx" where
  "tx_restart_pdu_processing s = (if \<not> pt_stopped s then s\<lparr>pt_token_mngr := tm_start (pt_token_mngr s)\<rparr> else s)"

definition tx_begin_buffering :: "pdcp_entity_tx \<Rightarrow> pdcp_entity_tx" where
  "tx_begin_buffering s = s\<lparr>pt_buffering := True\<rparr>"

text \<open>
  The loop of \<open>end_buffering\<close>, counted by the number of buffered SDUs: handling an SDU does not add to the buffer any more.
\<close>

fun flush_sdu_buffer :: "pdcp_tx_env \<Rightarrow> nat \<Rightarrow> pdcp_entity_tx
    \<Rightarrow> (pdcp_entity_tx \<times> pdcp_tx_event list \<times> pdcp_tx_task list) option" where
  "flush_sdu_buffer env 0 s = Some (s, [], [])"
| "flush_sdu_buffer env (Suc n) s =
     Option.bind (rb_top (pt_sdu_buffer s)) (\<lambda>buf.
     Option.bind (rb_pop (pt_sdu_buffer s)) (\<lambda>rb.
     Option.bind (handle_sdu env (s\<lparr>pt_sdu_buffer := rb\<rparr>) buf) (\<lambda>(s1, evs1, ts1).
       map_option (\<lambda>(s2, evs2, ts2). (s2, evs1 @ evs2, ts1 @ ts2)) (flush_sdu_buffer env n s1))))"

definition tx_end_buffering :: "pdcp_tx_env \<Rightarrow> pdcp_entity_tx
    \<Rightarrow> (pdcp_entity_tx \<times> pdcp_tx_event list \<times> pdcp_tx_task list) option" where
  "tx_end_buffering env s = flush_sdu_buffer env (rb_count (pt_sdu_buffer s)) (s\<lparr>pt_buffering := False\<rparr>)"

definition tx_suspend :: "pdcp_entity_tx \<Rightarrow> bool \<times> pdcp_entity_tx" where
  "tx_suspend s = (if pt_suspended s then (False, s)
     else if \<not> pt_buffering s then (False, s)
     else (True, s\<lparr>pt_st := tx_state_at 0, pt_tx_window := tw_clear (pt_tx_window s),
       pt_discard_timer := (if discard_configured s then None else pt_discard_timer s), pt_suspended := True\<rparr>))"

definition tx_resume :: "pdcp_entity_tx \<Rightarrow> bool \<times> pdcp_entity_tx" where
  "tx_resume s = (if \<not> pt_suspended s then (False, s)
     else if \<not> pt_buffering s then (False, s)
     else (True, s\<lparr>pt_suspended := False, pt_resume_requested := False\<rparr>))"

definition tx_get_count :: "pdcp_entity_tx \<Rightarrow> pdcp_count_info" where
  "tx_get_count s = (let count = ts_next (pt_st s); sz = txc_sn_size (pt_cfg s)
     in \<lparr>ci_sn = pdcp_compute_sn count sz, ci_hfn = pdcp_compute_hfn count sz\<rparr>)"

definition tx_set_count :: "pdcp_entity_tx \<Rightarrow> pdcp_count_info \<Rightarrow> pdcp_entity_tx" where
  "tx_set_count s ci = s\<lparr>pt_st := tx_state_at (pdcp_compute_count (ci_hfn ci) (ci_sn ci) (txc_sn_size (pt_cfg s)))\<rparr>"

definition nof_pdus_in_window :: "pdcp_entity_tx \<Rightarrow> u32" where
  "nof_pdus_in_window s = ts_next (pt_st s) - ts_next_ack (pt_st s)"

end
