(* ===== verification/Pdcp_Rx_Inv.thy ===== *)
theory Pdcp_Rx_Inv
  imports Pdcp_Rx "HOL-Library.Sublist"
begin

unbundle bit_operations_syntax

text \<open>
  The invariant of the receiving PDCP entity and its preservation: what the delivery loops take out
  of the window, the relation of RX_DELIV, RX_REORD and RX_NEXT, and the absence of failed assertions.
\<close>

section \<open>What a delivery loop does\<close>

fun sdu_counts :: "pdcp_rx_event list \<Rightarrow> u32 list" where
  "sdu_counts [] = []"
| "sdu_counts (on_new_sdu c b v # evs) = c # sdu_counts evs"
| "sdu_counts (_ # evs) = sdu_counts evs"

lemma sdu_counts_append [simp]: "sdu_counts (xs @ ys) = sdu_counts xs @ sdu_counts ys"
  by (induction xs rule: sdu_counts.induct) auto

text \<open>The COUNTs from \<open>lo\<close> below \<open>hi\<close> the window holds, in ascending order, and their delivery.\<close>

definition held :: "pdcp_entity_rx \<Rightarrow> nat \<Rightarrow> nat \<Rightarrow> u32 list" where
  "held s lo hi = filter (\<lambda>c. win_at (pr_rx_window s) c \<noteq> None) (map of_nat [lo..<hi])"

definition sdu_event :: "pdcp_entity_rx \<Rightarrow> u32 \<Rightarrow> pdcp_rx_event" where
  "sdu_event s c = (let si = the (win_at (pr_rx_window s) c)
     in on_new_sdu c (si_buf si) (si_integrity_verified si))"

definition delivery_frame :: "pdcp_entity_rx \<Rightarrow> pdcp_entity_rx \<Rightarrow> bool" where
  "delivery_frame s s' \<longleftrightarrow>
     s' = s\<lparr>pr_rohc_decomp := pr_rohc_decomp s', pr_rx_window := pr_rx_window s', pr_st := pr_st s'\<rparr>"

lemma delivery_frame_trans: "delivery_frame s s1 \<Longrightarrow> delivery_frame s1 s2 \<Longrightarrow> delivery_frame s s2"
  by (cases s; cases s1; cases s2) (simp add: delivery_frame_def)

text \<open>
  From \<open>s\<close> to \<open>s'\<close> the SDUs from \<open>lo\<close> below \<open>hi\<close> leave the window and go to the upper layers in
  ascending order of COUNT; header decompression may consume some of them.
\<close>

definition drained :: "nat \<Rightarrow> nat \<Rightarrow> pdcp_entity_rx \<Rightarrow> pdcp_entity_rx \<Rightarrow> pdcp_rx_event list \<Rightarrow> bool" where
  "drained lo hi s s' evs \<longleftrightarrow>
     delivery_frame s s' \<and> rx_next (pr_st s') = rx_next (pr_st s) \<and> rx_reord (pr_st s') = rx_reord (pr_st s)
     \<and> (\<forall>k. cm_wf k (pr_rx_window s) \<longrightarrow> cm_wf k (pr_rx_window s'))
     \<and> (\<forall>c. win_at (pr_rx_window s') c =
          (if lo \<le> unat c \<and> unat c < hi then None else win_at (pr_rx_window s) c))
     \<and> subseq (sdu_counts evs) (held s lo hi)
     \<and> (pr_rohc_decomp s = None \<longrightarrow> pr_rohc_decomp s' = None \<and> evs = map (sdu_event s) (held s lo hi))"

lemma drained_refl: "drained lo lo s s []"
  by (auto simp: drained_def held_def delivery_frame_def)

lemma held_split: "lo \<le> mid \<Longrightarrow> mid \<le> hi \<Longrightarrow> held s lo hi = held s lo mid @ held s mid hi"
  using upt_add_eq_append[of lo mid "hi - mid"] by (simp add: held_def)

lemma held_cong:
  assumes "\<And>c. lo \<le> unat c \<Longrightarrow> unat c < hi \<Longrightarrow> win_at (pr_rx_window s') c = win_at (pr_rx_window s) c"
    and "hi \<le> 2 ^ 32"
  shows "held s' lo hi = held s lo hi" "map (sdu_event s') (held s lo hi) = map (sdu_event s) (held s lo hi)"
proof -
  have c: "win_at (pr_rx_window s') (of_nat i) = win_at (pr_rx_window s) (of_nat i)" if "i \<in> set [lo..<hi]" for i
    using that assms by (intro assms(1)) (auto simp: unat_of_nat_u32)
  show "held s' lo hi = held s lo hi"
    unfolding held_def using c by (intro filter_cong) auto
  show "map (sdu_event s') (held s lo hi) = map (sdu_event s) (held s lo hi)"
    using c by (auto simp: held_def sdu_event_def)
qed

lemma drained_trans:
  assumes d1: "drained lo mid s s1 evs1" and d2: "drained mid hi s1 s2 evs2"
    and "lo \<le> mid" and "mid \<le> hi" and hi: "hi \<le> 2 ^ 32"
  shows "drained lo hi s s2 (evs1 @ evs2)"
proof -
  have same: "win_at (pr_rx_window s1) c = win_at (pr_rx_window s) c" if "mid \<le> unat c" for c
    using d1 that by (simp add: drained_def)
  note h = held_cong[of mid hi s1 s, OF same hi]
  have sub: "subseq (sdu_counts (evs1 @ evs2)) (held s lo hi)"
    using d1 d2 h(1) held_split[OF assms(3,4), of s] by (auto simp: drained_def intro: list_emb_append_mono)
  have win: "win_at (pr_rx_window s2) c =
      (if lo \<le> unat c \<and> unat c < hi then None else win_at (pr_rx_window s) c)" for c
    using d1 d2 assms(3,4) by (auto simp: drained_def)
  have ev: "evs1 @ evs2 = map (sdu_event s) (held s lo hi)" "pr_rohc_decomp s2 = None" if "pr_rohc_decomp s = None"
    using d1 d2 h held_split[OF assms(3,4), of s] that by (auto simp: drained_def)
  have "delivery_frame s s2"
    using d1 d2 delivery_frame_trans by (auto simp: drained_def)
  then show ?thesis
    using d1 d2 sub win ev unfolding drained_def by simp
qed

text \<open>Every SDU is stored under its COUNT.\<close>

definition win_counts :: "nat \<Rightarrow> pdcp_entity_rx \<Rightarrow> bool" where
  "win_counts k s \<longleftrightarrow> cm_wf k (pr_rx_window s)
     \<and> (\<forall>c si. win_at (pr_rx_window s) c = Some si \<longrightarrow> si_count si = c)"

lemma win_counts_drained: "win_counts k s \<Longrightarrow> drained lo hi s s' evs \<Longrightarrow> win_counts k s'"
  by (auto simp: win_counts_def drained_def split: if_splits)

lemma held_single: "held s (unat c) (Suc (unat c)) = (if win_at (pr_rx_window s) c = None then [] else [c])"
  by (simp add: held_def)

text \<open>One SDU handed up: its delivery and its removal.\<close>

lemma deliver_sdu_counts:
  "sdu_counts (snd (deliver_sdu env s si)) = [] \<or> sdu_counts (snd (deliver_sdu env s si)) = [si_count si]"
  "pr_rohc_decomp s = None \<Longrightarrow> deliver_sdu env s si = (s, [on_new_sdu (si_count si) (si_buf si) (si_integrity_verified si)])"
  by (auto simp: deliver_sdu_def apply_header_decompression_def Let_def split: option.splits prod.splits if_splits)

lemma drained_deliver:
  assumes wf: "win_counts k s" and si: "win_at (pr_rx_window s) c = Some si"
  obtains w where "remove_sn (pr_rx_window s) c = Some w"
    and "\<And>d. drained (unat c) (Suc (unat c)) s
      (set_rx_deliv ((fst (deliver_sdu env s si))\<lparr>pr_rx_window := w\<rparr>) d) (snd (deliver_sdu env s si))"
proof -
  have cm: "cm_wf k (pr_rx_window s)" and cnt: "si_count si = c"
    using wf si by (auto simp: win_counts_def)
  obtain w where w: "remove_sn (pr_rx_window s) c = Some w" "cm_wf k w"
      "win_at w = (win_at (pr_rx_window s))(c := None)"
    using win.remove_present[OF cm, of c] si by auto
  have "cm_wf k' w" if "cm_wf k' (pr_rx_window s)" for k'
    using win.remove_present[OF that, of c] si w(1) by auto
  moreover obtain r where r: "fst (deliver_sdu env s si) = s\<lparr>pr_rohc_decomp := r\<rparr>"
    using deliver_sdu_state by blast
  moreover have "pr_rohc_decomp s = None \<Longrightarrow> r = None"
    using r deliver_sdu_counts(2)[of s env si] by (cases s) auto
  moreover have "unat c' = unat c \<longleftrightarrow> c' = c" for c' :: u32
    by (simp add: word_unat_eq_iff)
  ultimately have "drained (unat c) (Suc (unat c)) s
      (set_rx_deliv ((fst (deliver_sdu env s si))\<lparr>pr_rx_window := w\<rparr>) d) (snd (deliver_sdu env s si))" for d
    using deliver_sdu_counts(1)[of env s si] deliver_sdu_counts(2)[of s env si] si cnt w(3)
    by (auto simp: drained_def delivery_frame_def set_rx_deliv_def held_single sdu_event_def le_less_Suc_eq)
  then show ?thesis
    using that w(1) by blast
qed

lemma drained_skip:
  assumes "win_at (pr_rx_window s) c = None"
  shows "drained (unat c) (Suc (unat c)) s (set_rx_deliv s d) []"
proof -
  have "unat c' = unat c \<longleftrightarrow> c' = c" for c' :: u32
    by (simp add: word_unat_eq_iff)
  then show ?thesis
    using assms by (auto simp: drained_def delivery_frame_def set_rx_deliv_def held_single le_less_Suc_eq)
qed

lemma set_rx_deliv_same: "set_rx_deliv s (rx_deliv (pr_st s)) = s"
  by (simp add: set_rx_deliv_def)

section \<open>The loops\<close>

lemma unat_inc: "unat c < unat n \<Longrightarrow> unat (c + 1) = Suc (unat c)" for c n :: u32
  using unat_less_u32[of n] by (simp add: unat_word_ariths)

lemma unat_inc_le: "unat c < unat n \<Longrightarrow> unat (c + 1) \<le> unat n" for c n :: u32
  by (simp add: unat_inc)

lemma u32_less_iff: "c < n \<longleftrightarrow> unat c < unat n" "c \<le> n \<longleftrightarrow> unat c \<le> unat n" "c = n \<longleftrightarrow> unat c = unat n"
  for c n :: u32
  by (simp_all add: word_less_nat_alt word_le_nat_alt word_unat_eq_iff)

lemma pr_st_set_rx_deliv [simp]: "pr_st (set_rx_deliv s d) = (pr_st s)\<lparr>rx_deliv := d\<rparr>"
  "pr_rx_window (set_rx_deliv s d) = pr_rx_window s"
  by (simp_all add: set_rx_deliv_def)

text \<open>One round of a loop followed by the rest of it.\<close>

lemma drained_Cons:
  fixes c :: u32
  assumes "drained (unat c) (Suc (unat c)) s s1 evs1" and "r = Some (s2, evs2)"
    and "drained (unat (c + 1)) hi s1 s2 evs2" and "unat c < hi" and "hi < 2 ^ 32"
  shows "add_events evs1 r = Some (s2, evs1 @ evs2) \<and> drained (unat c) hi s s2 (evs1 @ evs2)"
proof -
  have "unat (c + 1) = Suc (unat c)"
    using assms(4,5) by (simp add: unat_word_ariths)
  then show ?thesis
    using drained_trans[OF assms(1), of hi s2 evs2] assms by (simp add: add_events_def)
qed

lemma deliver_all_sdus_loop_ok:
  assumes "win_counts k s" and "unat count \<le> unat (rx_next (pr_st s))"
  shows "\<exists>s' evs. deliver_all_sdus_loop env s count = Some (s', evs)
    \<and> drained (unat count) (unat (rx_next (pr_st s))) s s' evs \<and> pr_st s' = pr_st s"
  using assms
proof (induction env s count rule: deliver_all_sdus_loop.induct)
  case (1 env s count)
  let ?n = "rx_next (pr_st s)"
  show ?case
  proof (cases "count < ?n")
    case False
    then show ?thesis
      using 1 drained_refl by (simp add: deliver_all_sdus_loop.simps[of env s] word_less_nat_alt)
  next
    case True
    then have lt: "unat count < unat ?n" and le: "unat (count + 1) \<le> unat ?n"
      using unat_inc_le by (auto simp: word_less_nat_alt)
    show ?thesis
    proof (cases "win_at (pr_rx_window s) count")
      case None
      then have skip: "drained (unat count) (Suc (unat count)) s s []"
        using drained_skip[of s count "rx_deliv (pr_st s)"] by (simp add: set_rx_deliv_same)
      obtain s' evs where ih: "deliver_all_sdus_loop env s (count + 1) = Some (s', evs)"
          "drained (unat (count + 1)) (unat ?n) s s' evs" "pr_st s' = pr_st s"
        using "1.IH"(2)[OF True _ 1(3) le] None by (auto simp: has_sn_win_at)
      then show ?thesis
        using True None drained_Cons[OF skip ih(1,2) lt unat_less_u32]
        by (simp add: deliver_all_sdus_loop.simps[of env s] has_sn_win_at)
    next
      case (Some si)
      obtain w where w: "remove_sn (pr_rx_window s) count = Some w"
          "\<And>d. drained (unat count) (Suc (unat count)) s
            (set_rx_deliv ((fst (deliver_sdu env s si))\<lparr>pr_rx_window := w\<rparr>) d) (snd (deliver_sdu env s si))"
        using drained_deliver[OF 1(3) Some] by blast
      let ?s1 = "(fst (deliver_sdu env s si))\<lparr>pr_rx_window := w\<rparr>"
      have s1: "drained (unat count) (Suc (unat count)) s ?s1 (snd (deliver_sdu env s si))"
        using w(2)[of "rx_deliv (pr_st ?s1)"] by (simp only: set_rx_deliv_same)
      obtain s' evs where ih: "deliver_all_sdus_loop env ?s1 (count + 1) = Some (s', evs)"
          "drained (unat (count + 1)) (unat ?n) ?s1 s' evs" "pr_st s' = pr_st s"
        using "1.IH"(1)[OF True _ Some w(1) win_counts_drained[OF 1(3) s1]] le Some
        by (auto simp: has_sn_win_at)
      then show ?thesis
        using True Some w(1) drained_Cons[OF s1 ih(1,2) lt unat_less_u32]
        by (simp add: deliver_all_sdus_loop.simps[of env s] has_sn_win_at)
    qed
  qed
qed

lemma expire_loop_ok:
  assumes "win_counts k s" and "unat (rx_deliv (pr_st s)) \<le> unat (rx_reord (pr_st s))"
  shows "\<exists>s' evs. expire_loop env s = Some (s', evs)
    \<and> drained (unat (rx_deliv (pr_st s))) (unat (rx_reord (pr_st s))) s s' evs
    \<and> pr_st s' = (pr_st s)\<lparr>rx_deliv := rx_reord (pr_st s)\<rparr>"
  using assms
proof (induction env s rule: expire_loop.induct)
  case (1 env s)
  let ?d = "rx_deliv (pr_st s)" and ?r = "rx_reord (pr_st s)"
  show ?case
  proof (cases "?d = ?r")
    case True
    then show ?thesis
      using drained_refl by (simp add: expire_loop.simps[of env s])
  next
    case False
    then have lt: "unat ?d < unat ?r"
      using 1(4) by (simp add: word_unat_eq_iff)
    note le = unat_inc_le[OF lt]
    show ?thesis
    proof (cases "win_at (pr_rx_window s) ?d")
      case None
      note skip = drained_skip[OF None, of "?d + 1"]
      obtain s' evs where ih: "expire_loop env (set_rx_deliv s (?d + 1)) = Some (s', evs)"
          "drained (unat (?d + 1)) (unat ?r) (set_rx_deliv s (?d + 1)) s' evs"
          "pr_st s' = (pr_st s)\<lparr>rx_deliv := ?r\<rparr>"
        using "1.IH"(2)[OF False _ win_counts_drained[OF 1(3) skip]] le None by (auto simp: has_sn_win_at)
      then show ?thesis
        using False None drained_Cons[OF skip ih(1,2) lt unat_less_u32]
        by (simp add: expire_loop.simps[of env s] has_sn_win_at)
    next
      case (Some si)
      obtain w where w: "remove_sn (pr_rx_window s) ?d = Some w"
          "\<And>d. drained (unat ?d) (Suc (unat ?d)) s
            (set_rx_deliv ((fst (deliver_sdu env s si))\<lparr>pr_rx_window := w\<rparr>) d) (snd (deliver_sdu env s si))"
        using drained_deliver[OF 1(3) Some] by blast
      let ?s1 = "set_rx_deliv ((fst (deliver_sdu env s si))\<lparr>pr_rx_window := w\<rparr>) (?d + 1)"
      note s1 = w(2)[of "?d + 1"]
      obtain s' evs where ih: "expire_loop env ?s1 = Some (s', evs)"
          "drained (unat (?d + 1)) (unat ?r) ?s1 s' evs" "pr_st s' = (pr_st s)\<lparr>rx_deliv := ?r\<rparr>"
        using "1.IH"(1)[OF False _ Some w(1) win_counts_drained[OF 1(3) s1]] le Some
        by (auto simp: has_sn_win_at)
      then show ?thesis
        using False Some w(1) drained_Cons[OF s1 ih(1,2) lt unat_less_u32]
        by (simp add: expire_loop.simps[of env s] has_sn_win_at)
    qed
  qed
qed

lemma deliver_all_consecutive_counts_ok:
  assumes "win_counts k s" and "unat (rx_deliv (pr_st s)) \<le> unat (rx_next (pr_st s))"
  shows "\<exists>s' evs d'. deliver_all_consecutive_counts env s = Some (s', evs)
    \<and> drained (unat (rx_deliv (pr_st s))) (unat d') s s' evs \<and> pr_st s' = (pr_st s)\<lparr>rx_deliv := d'\<rparr>
    \<and> unat (rx_deliv (pr_st s)) \<le> unat d' \<and> unat d' \<le> unat (rx_next (pr_st s))
    \<and> (d' = rx_next (pr_st s) \<or> win_at (pr_rx_window s') d' = None)
    \<and> (\<forall>c. unat (rx_deliv (pr_st s)) \<le> unat c \<and> unat c < unat d' \<longrightarrow> win_at (pr_rx_window s) c \<noteq> None)"
  using assms
proof (induction env s rule: deliver_all_consecutive_counts.induct)
  case (1 env s)
  let ?d = "rx_deliv (pr_st s)" and ?n = "rx_next (pr_st s)"
  show ?case
  proof (cases "?d \<noteq> ?n \<and> has_sn (pr_rx_window s) ?d")
    case False
    then show ?thesis
      using 1(3) drained_refl by (intro exI[of _ s] exI[of _ "[]"] exI[of _ ?d])
        (auto simp: deliver_all_consecutive_counts.simps[of env s] has_sn_win_at)
  next
    case True
    then obtain si where si: "win_at (pr_rx_window s) ?d = Some si"
      by (auto simp: has_sn_win_at)
    have lt: "unat ?d < unat ?n"
      using 1(3) True by (simp add: word_unat_eq_iff)
    obtain w where w: "remove_sn (pr_rx_window s) ?d = Some w"
        "\<And>d. drained (unat ?d) (Suc (unat ?d)) s
          (set_rx_deliv ((fst (deliver_sdu env s si))\<lparr>pr_rx_window := w\<rparr>) d) (snd (deliver_sdu env s si))"
      using drained_deliver[OF 1(2) si] by blast
    let ?s1 = "set_rx_deliv ((fst (deliver_sdu env s si))\<lparr>pr_rx_window := w\<rparr>) (?d + 1)"
    note s1 = w(2)[of "?d + 1"]
    obtain s' evs d' where ih: "deliver_all_consecutive_counts env ?s1 = Some (s', evs)"
        "drained (unat (?d + 1)) (unat d') ?s1 s' evs" "pr_st s' = (pr_st s)\<lparr>rx_deliv := d'\<rparr>"
        "unat (?d + 1) \<le> unat d'" "unat d' \<le> unat ?n" "d' = ?n \<or> win_at (pr_rx_window s') d' = None"
        "\<forall>c. unat (?d + 1) \<le> unat c \<and> unat c < unat d' \<longrightarrow> win_at (pr_rx_window ?s1) c \<noteq> None"
      using "1.IH"[OF True si w(1) win_counts_drained[OF 1(2) s1]] unat_inc_le[OF lt] by auto
    have lt': "unat ?d < unat d'" and inc: "unat (?d + 1) = Suc (unat ?d)"
      using ih(4) unat_inc[OF lt] by auto
    have held: "win_at (pr_rx_window s) c \<noteq> None" if "unat ?d \<le> unat c" "unat c < unat d'" for c
    proof (cases "c = ?d")
      case False
      then have "unat (?d + 1) \<le> unat c"
        using that inc by (simp add: word_unat_eq_iff)
      then show ?thesis
        using ih(7) that(2) s1 unfolding drained_def by (metis (no_types, lifting))
    qed (simp add: si)
    show ?thesis
      using True w(1) si drained_Cons[OF s1 ih(1,2) lt' unat_less_u32] ih(3,5,6) lt' held
      by (intro exI[of _ s'] exI[of _ "snd (deliver_sdu env s si) @ evs"] exI[of _ d'])
        (simp add: deliver_all_consecutive_counts.simps[of env s])
  qed
qed

lemma discard_all_sdus_ok:
  assumes "win_counts k s" and "unat (rx_deliv (pr_st s)) \<le> unat (rx_next (pr_st s))"
  shows "\<exists>s'. discard_all_sdus s = Some s' \<and> win_counts k s'
    \<and> s' = s\<lparr>pr_rx_window := pr_rx_window s', pr_st := (pr_st s)\<lparr>rx_deliv := rx_next (pr_st s)\<rparr>\<rparr>
    \<and> (\<forall>c. win_at (pr_rx_window s') c = (if unat (rx_deliv (pr_st s)) \<le> unat c \<and> unat c < unat (rx_next (pr_st s))
         then None else win_at (pr_rx_window s) c))"
  using assms
proof (induction s rule: discard_all_sdus.induct)
  case (1 s)
  let ?d = "rx_deliv (pr_st s)" and ?n = "rx_next (pr_st s)"
  show ?case
  proof (cases "?d = ?n")
    case True
    then show ?thesis
      using 1(2) by (intro exI[of _ s]) (auto simp: discard_all_sdus.simps[of s])
  next
    case False
    then have lt: "unat ?d < unat ?n"
      using 1(3) by (simp add: word_unat_eq_iff)
    have cm: "cm_wf k (pr_rx_window s)"
      using 1(2) by (simp add: win_counts_def)
    obtain w where w: "(if has_sn (pr_rx_window s) ?d then remove_sn (pr_rx_window s) ?d
        else Some (pr_rx_window s)) = Some w" "cm_wf k w" "win_at w = (win_at (pr_rx_window s))(?d := None)"
      using win.remove_present[OF cm, of ?d] cm by (cases "win_at (pr_rx_window s) ?d") (auto simp: has_sn_win_at fun_upd_idem)
    let ?s1 = "set_rx_deliv (s\<lparr>pr_rx_window := w\<rparr>) (?d + 1)"
    have "win_counts k ?s1"
      using w 1(2) by (auto simp: win_counts_def)
    then obtain s' where ih: "discard_all_sdus ?s1 = Some s'" "win_counts k s'"
        "s' = ?s1\<lparr>pr_rx_window := pr_rx_window s', pr_st := (pr_st ?s1)\<lparr>rx_deliv := ?n\<rparr>\<rparr>"
        "\<forall>c. win_at (pr_rx_window s') c = (if unat (?d + 1) \<le> unat c \<and> unat c < unat ?n
         then None else win_at w c)"
      using "1.IH"[OF False w(1)] unat_inc_le[OF lt] by auto
    have "s' = s\<lparr>pr_rx_window := pr_rx_window s', pr_st := (pr_st s)\<lparr>rx_deliv := ?n\<rparr>\<rparr>"
      using ih(3) by (cases s; cases s') (simp add: set_rx_deliv_def)
    moreover have "win_at (pr_rx_window s') c = (if unat ?d \<le> unat c \<and> unat c < unat ?n
         then None else win_at (pr_rx_window s) c)" for c
      using ih(4) w(3) unat_inc[OF lt] lt by (auto simp: Suc_le_eq le_less word_unat_eq_iff)
    ultimately show ?thesis
      using False w(1) ih(1,2) by (intro exI[of _ s']) (simp add: discard_all_sdus.simps[of s])
  qed
qed

section \<open>The invariant\<close>

definition rx_cfg_ok :: "pdcp_entity_rx \<Rightarrow> bool" where
  "rx_cfg_ok s \<longleftrightarrow> valid_sn_size (rxc_sn_size (pr_cfg s))
     \<and> pr_window_size s = of_nat (half_range (rxc_sn_size (pr_cfg s)))
     \<and> pdcp_data_pdu_header_size (rxc_sn_size (pr_cfg s)) = Some (pr_hdr_len_bytes s)
     \<and> - 1 \<le> rxc_t_reordering (pr_cfg s)"

text \<open>
  The window holds COUNTs of the interval from RX_DELIV to RX_NEXT only, and that interval is not
  longer than the window.
\<close>

definition rx_window_inv :: "pdcp_entity_rx \<Rightarrow> bool" where
  "rx_window_inv s \<longleftrightarrow> win_counts (sn_len (rxc_sn_size (pr_cfg s)) - 1) s
     \<and> unat (rx_deliv (pr_st s)) \<le> unat (rx_next (pr_st s))
     \<and> unat (rx_next (pr_st s)) \<le> unat (rx_deliv (pr_st s)) + half_range (rxc_sn_size (pr_cfg s))
     \<and> (\<forall>c. win_at (pr_rx_window s) c \<noteq> None \<longrightarrow>
          unat (rx_deliv (pr_st s)) \<le> unat c \<and> unat c < unat (rx_next (pr_st s)))"

text \<open>
  Between two operations: the SDU RX_DELIV waits for is not in the window; the timer runs with
  RX_REORD in the interval, and, unless it was stopped with the entity, whenever there is a gap to wait for.
\<close>

definition rx_timer_inv :: "pdcp_entity_rx \<Rightarrow> bool" where
  "rx_timer_inv s \<longleftrightarrow> win_at (pr_rx_window s) (rx_deliv (pr_st s)) = None
     \<and> (pr_reordering_timer s \<longrightarrow> unat (rx_deliv (pr_st s)) < unat (rx_reord (pr_st s))
          \<and> unat (rx_reord (pr_st s)) \<le> unat (rx_next (pr_st s)))
     \<and> (rxc_t_reordering (pr_cfg s) = 0 \<longrightarrow> rx_deliv (pr_st s) = rx_next (pr_st s))
     \<and> (0 < rxc_t_reordering (pr_cfg s) \<and> \<not> pr_stopped s \<and> rx_deliv (pr_st s) \<noteq> rx_next (pr_st s)
          \<longrightarrow> pr_reordering_timer s)"

definition rx_inv :: "pdcp_entity_rx \<Rightarrow> bool" where
  "rx_inv s \<longleftrightarrow> rx_cfg_ok s \<and> rx_window_inv s \<and> rx_timer_inv s"

lemma rx_window_invD:
  assumes "rx_window_inv s"
  shows "win_counts (sn_len (rxc_sn_size (pr_cfg s)) - 1) s"
    "unat (rx_deliv (pr_st s)) \<le> unat (rx_next (pr_st s))"
    "unat (rx_next (pr_st s)) \<le> unat (rx_deliv (pr_st s)) + half_range (rxc_sn_size (pr_cfg s))"
    "win_at (pr_rx_window s) c \<noteq> None \<Longrightarrow> unat (rx_deliv (pr_st s)) \<le> unat c \<and> unat c < unat (rx_next (pr_st s))"
  using assms unfolding rx_window_inv_def by blast+

lemma delivery_frameD:
  assumes "delivery_frame s s'"
  shows "pr_cfg s' = pr_cfg s" "pr_window_size s' = pr_window_size s" "pr_hdr_len_bytes s' = pr_hdr_len_bytes s"
    "pr_reordering_timer s' = pr_reordering_timer s" "pr_stopped s' = pr_stopped s"
    "pr_token_mngr s' = pr_token_mngr s" "pr_sec_engine_pool s' = pr_sec_engine_pool s"
    "pr_max_count_notified s' = pr_max_count_notified s" "pr_max_count_overflow s' = pr_max_count_overflow s"
    "pr_pdu_buffer s' = pr_pdu_buffer s" "pr_buffering s' = pr_buffering s" "pr_suspended s' = pr_suspended s"
  by (use assms in \<open>cases s; cases s'; simp add: delivery_frame_def\<close>)+

lemma drained_frame:
  assumes "drained lo hi s s' evs"
  shows "pr_cfg s' = pr_cfg s" "pr_window_size s' = pr_window_size s" "pr_hdr_len_bytes s' = pr_hdr_len_bytes s"
    "pr_reordering_timer s' = pr_reordering_timer s" "pr_stopped s' = pr_stopped s"
    "rx_next (pr_st s') = rx_next (pr_st s)" "rx_reord (pr_st s') = rx_reord (pr_st s)"
  using assms delivery_frameD[of s s'] by (simp_all add: drained_def)

text \<open>Draining from RX_DELIV on keeps the window invariant.\<close>

lemma drained_window_inv:
  assumes "rx_window_inv s" and d: "drained (unat (rx_deliv (pr_st s))) (unat d') s s' evs"
    and "rx_deliv (pr_st s') = d'" and "unat (rx_deliv (pr_st s)) \<le> unat d'" and "unat d' \<le> unat (rx_next (pr_st s))"
  shows "rx_window_inv s'"
proof -
  have win: "win_at (pr_rx_window s') c = (if unat (rx_deliv (pr_st s)) \<le> unat c \<and> unat c < unat d' then None
      else win_at (pr_rx_window s) c)" for c
    using d by (simp add: drained_def)
  show ?thesis
    using rx_window_invD[OF assms(1)] win_counts_drained[OF _ d] drained_frame[OF d] assms(3-)
    unfolding rx_window_inv_def by (auto simp: win split: if_splits)
qed

text \<open>Deliveries in ascending order of COUNT, from \<open>lo\<close> below \<open>hi\<close>.\<close>

definition counts_in :: "nat \<Rightarrow> nat \<Rightarrow> pdcp_rx_event list \<Rightarrow> bool" where
  "counts_in lo hi evs \<longleftrightarrow> sorted_wrt (<) (map unat (sdu_counts evs))
     \<and> (\<forall>c \<in> set (sdu_counts evs). lo \<le> unat c \<and> unat c < hi)"

lemma counts_in_append:
  "counts_in lo mid xs \<Longrightarrow> counts_in mid hi ys \<Longrightarrow> lo \<le> mid \<Longrightarrow> mid \<le> hi \<Longrightarrow> counts_in lo hi (xs @ ys)"
  by (fastforce simp: counts_in_def sorted_wrt_append)

lemma counts_in_Nil [simp]: "counts_in lo hi []"
  by (simp add: counts_in_def)

lemma held_sorted:
  assumes "hi \<le> 2 ^ 32"
  shows "sorted_wrt (<) (map unat (held s lo hi))" "c \<in> set (held s lo hi) \<Longrightarrow> lo \<le> unat c \<and> unat c < hi"
proof -
  have "map unat (held s lo hi) = filter (\<lambda>i. win_at (pr_rx_window s) (of_nat i) \<noteq> None) [lo..<hi]"
    using assms by (auto simp: held_def filter_map o_def unat_of_nat_u32 intro!: map_idI)
  then show "sorted_wrt (<) (map unat (held s lo hi))"
    by (simp add: sorted_wrt_filter)
  show "c \<in> set (held s lo hi) \<Longrightarrow> lo \<le> unat c \<and> unat c < hi"
    using assms by (auto simp: held_def unat_of_nat_u32)
qed

lemma sorted_wrt_subseq: "subseq xs ys \<Longrightarrow> sorted_wrt P ys \<Longrightarrow> sorted_wrt P xs"
  by (induction rule: list_emb.induct) (auto dest: list_emb_set)

lemma drained_counts_in:
  assumes "drained lo hi s s' evs" and "hi \<le> 2 ^ 32"
  shows "counts_in lo hi evs"
proof -
  have sub: "subseq (sdu_counts evs) (held s lo hi)"
    using assms(1) by (simp add: drained_def)
  then have "subseq (map unat (sdu_counts evs)) (map unat (held s lo hi))"
    by (rule subseq_map)
  then have "sorted_wrt (<) (map unat (sdu_counts evs))"
    using held_sorted(1)[OF assms(2), of s lo] by (rule sorted_wrt_subseq)
  moreover have "set (sdu_counts evs) \<subseteq> set (held s lo hi)"
    using list_emb_set[OF sub] by blast
  ultimately show ?thesis
    using held_sorted(2)[OF assms(2)] by (auto simp: counts_in_def)
qed

lemma handle_t_reordering_expire_ok:
  assumes inv: "rx_window_inv s" and d: "unat (rx_deliv (pr_st s)) \<le> unat (rx_reord (pr_st s))"
    and r: "unat (rx_reord (pr_st s)) \<le> unat (rx_next (pr_st s))"
  shows "\<exists>s2 evs d'. handle_t_reordering_expire env s = Some
      (if d' \<noteq> rx_next (pr_st s) \<and> rxc_t_reordering (pr_cfg s) \<noteq> 0 then start_reordering s2 else s2, evs)
    \<and> drained (unat (rx_deliv (pr_st s))) (unat d') s s2 evs \<and> pr_st s2 = (pr_st s)\<lparr>rx_deliv := d'\<rparr>
    \<and> unat (rx_reord (pr_st s)) \<le> unat d' \<and> unat d' \<le> unat (rx_next (pr_st s))
    \<and> (d' = rx_next (pr_st s) \<or> win_at (pr_rx_window s2) d' = None)"
proof -
  obtain s1 evs1 where e: "expire_loop env s = Some (s1, evs1)"
    "drained (unat (rx_deliv (pr_st s))) (unat (rx_reord (pr_st s))) s s1 evs1"
    "pr_st s1 = (pr_st s)\<lparr>rx_deliv := rx_reord (pr_st s)\<rparr>"
    using expire_loop_ok[OF rx_window_invD(1)[OF inv] d] by blast
  have inv1: "rx_window_inv s1"
    using drained_window_inv[OF inv e(2)] e(3) d r by simp
  obtain s2 evs2 d' where c: "deliver_all_consecutive_counts env s1 = Some (s2, evs2)"
    "drained (unat (rx_reord (pr_st s))) (unat d') s1 s2 evs2" "pr_st s2 = (pr_st s)\<lparr>rx_deliv := d'\<rparr>"
    "unat (rx_reord (pr_st s)) \<le> unat d'" "unat d' \<le> unat (rx_next (pr_st s))"
    "d' = rx_next (pr_st s) \<or> win_at (pr_rx_window s2) d' = None"
    using deliver_all_consecutive_counts_ok[OF rx_window_invD(1,2)[OF inv1], of env] e(3) r by auto
  have "drained (unat (rx_deliv (pr_st s))) (unat d') s s2 (evs1 @ evs2)"
    using drained_trans[OF e(2) c(2) d c(4)] unat_less_u32[of d'] by simp
  moreover have "pr_cfg s2 = pr_cfg s"
    using drained_frame(1)[OF c(2)] drained_frame(1)[OF e(2)] by simp
  moreover have "rx_deliv (pr_st s2) < rx_next (pr_st s2) \<longleftrightarrow> d' \<noteq> rx_next (pr_st s)"
    using c(3,5) by (auto simp: u32_less_iff)
  ultimately show ?thesis
    using e(1) c by (intro exI[of _ s2] exI[of _ "evs1 @ evs2"] exI[of _ d'])
      (simp add: handle_t_reordering_expire_def)
qed

section \<open>Preservation\<close>

text \<open>What delivering operations change, and what an operation that delivers achieves.\<close>

definition rx_frame :: "pdcp_entity_rx \<Rightarrow> pdcp_entity_rx \<Rightarrow> bool" where
  "rx_frame s s' \<longleftrightarrow> s' = s\<lparr>pr_rohc_decomp := pr_rohc_decomp s', pr_st := pr_st s',
     pr_rx_window := pr_rx_window s', pr_reordering_timer := pr_reordering_timer s'\<rparr>"

lemma rx_frame_refl [simp]: "rx_frame s s"
  by (simp add: rx_frame_def)

lemma rx_frame_trans: "rx_frame s s1 \<Longrightarrow> rx_frame s1 s2 \<Longrightarrow> rx_frame s s2"
  by (cases s; cases s1; cases s2) (simp add: rx_frame_def)

lemma rx_frameD:
  assumes "rx_frame s s'"
  shows "pr_cfg s' = pr_cfg s" "pr_window_size s' = pr_window_size s" "pr_hdr_len_bytes s' = pr_hdr_len_bytes s"
    "pr_stopped s' = pr_stopped s" "pr_token_mngr s' = pr_token_mngr s" "pr_sec_engine_pool s' = pr_sec_engine_pool s"
    "pr_pdu_buffer s' = pr_pdu_buffer s" "pr_buffering s' = pr_buffering s"
  by (use assms in \<open>cases s; cases s'; simp add: rx_frame_def\<close>)+

lemma rx_frame_drained: "drained lo hi s s' evs \<Longrightarrow> rx_frame s s'"
  by (cases s; cases s') (simp add: drained_def delivery_frame_def rx_frame_def)

lemma rx_frame_updates:
  "rx_frame s (s\<lparr>pr_reordering_timer := b\<rparr>)" "rx_frame s (s\<lparr>pr_st := x\<rparr>)" "rx_frame s (s\<lparr>pr_rx_window := w\<rparr>)"
  "rx_frame s (start_reordering s)"
  by (cases s; simp add: rx_frame_def start_reordering_def)+

lemma rx_cfg_ok_frame: "rx_frame s s' \<Longrightarrow> rx_cfg_ok s' \<longleftrightarrow> rx_cfg_ok s"
  by (simp add: rx_cfg_ok_def rx_frameD)

definition rx_delivers :: "pdcp_entity_rx \<Rightarrow> pdcp_entity_rx \<Rightarrow> pdcp_rx_event list \<Rightarrow> bool" where
  "rx_delivers s s' evs \<longleftrightarrow> rx_inv s' \<and> rx_frame s s'
     \<and> unat (rx_deliv (pr_st s)) \<le> unat (rx_deliv (pr_st s'))
     \<and> unat (rx_next (pr_st s)) \<le> unat (rx_next (pr_st s'))
     \<and> counts_in (unat (rx_deliv (pr_st s))) (unat (rx_deliv (pr_st s'))) evs"

lemma rx_window_inv_head:
  "rx_window_inv s \<Longrightarrow> rx_deliv (pr_st s) = rx_next (pr_st s) \<Longrightarrow> win_at (pr_rx_window s) (rx_deliv (pr_st s)) = None"
  using rx_window_invD(4)[of s "rx_deliv (pr_st s)"] by fastforce

lemma start_reordering_inv:
  assumes "rx_cfg_ok s" and "rx_window_inv s" and "win_at (pr_rx_window s) (rx_deliv (pr_st s)) = None"
    and "rx_deliv (pr_st s) \<noteq> rx_next (pr_st s)" and "rxc_t_reordering (pr_cfg s) \<noteq> 0"
  shows "rx_inv (start_reordering s)"
proof -
  have "unat (rx_deliv (pr_st s)) < unat (rx_next (pr_st s))"
    using rx_window_invD(2)[OF assms(2)] assms(4) by (simp add: word_unat_eq_iff)
  then show ?thesis
    using assms by (simp add: rx_inv_def rx_cfg_ok_def rx_window_inv_def win_counts_def rx_timer_inv_def start_reordering_def)
qed

lemma handle_t_reordering_expire_delivers:
  assumes cfg: "rx_cfg_ok s" and inv: "rx_window_inv s"
    and d: "unat (rx_deliv (pr_st s)) \<le> unat (rx_reord (pr_st s))"
    and r: "unat (rx_reord (pr_st s)) \<le> unat (rx_next (pr_st s))"
    and t0: "rxc_t_reordering (pr_cfg s) = 0 \<longrightarrow> rx_reord (pr_st s) = rx_next (pr_st s)"
    and tm: "\<not> pr_reordering_timer s"
  shows "\<exists>s' evs. handle_t_reordering_expire env s = Some (s', evs) \<and> rx_delivers s s' evs
    \<and> unat (rx_reord (pr_st s)) \<le> unat (rx_deliv (pr_st s'))"
proof -
  obtain s2 evs d' where e: "handle_t_reordering_expire env s = Some
      (if d' \<noteq> rx_next (pr_st s) \<and> rxc_t_reordering (pr_cfg s) \<noteq> 0 then start_reordering s2 else s2, evs)"
    and dr: "drained (unat (rx_deliv (pr_st s))) (unat d') s s2 evs" and st: "pr_st s2 = (pr_st s)\<lparr>rx_deliv := d'\<rparr>"
    and d': "unat (rx_reord (pr_st s)) \<le> unat d'" "unat d' \<le> unat (rx_next (pr_st s))"
    and head: "d' = rx_next (pr_st s) \<or> win_at (pr_rx_window s2) d' = None"
    using handle_t_reordering_expire_ok[OF inv d r] by blast
  have inv2: "rx_window_inv s2"
    using drained_window_inv[OF inv dr] st d d' by simp
  have head2: "win_at (pr_rx_window s2) (rx_deliv (pr_st s2)) = None"
    using head rx_window_inv_head[OF inv2] st by auto
  have cfg2: "rx_cfg_ok s2" and fr: "rx_frame s s2"
    using rx_cfg_ok_frame rx_frame_drained[OF dr] cfg by auto
  have cnt: "counts_in (unat (rx_deliv (pr_st s))) (unat d') evs"
    using drained_counts_in[OF dr] unat_less_u32[of d'] by simp
  show ?thesis
  proof (cases "d' \<noteq> rx_next (pr_st s) \<and> rxc_t_reordering (pr_cfg s) \<noteq> 0")
    case True
    then have "rx_inv (start_reordering s2)"
      using start_reordering_inv[OF cfg2 inv2 head2] st rx_frameD(1)[OF fr] by simp
    moreover have "rx_frame s (start_reordering s2)"
      using rx_frame_trans[OF fr rx_frame_updates(4)] .
    ultimately show ?thesis
      using e True cnt d d' st by (simp add: rx_delivers_def start_reordering_def)
  next
    case False
    then have "d' = rx_next (pr_st s)"
      using t0 d' by (auto simp: word_unat_eq_iff)
    then have "rx_inv s2"
      using cfg2 inv2 head2 st tm drained_frame(4)[OF dr] by (simp add: rx_inv_def rx_timer_inv_def)
    then show ?thesis
      using e False cnt d d' st fr by (simp add: rx_delivers_def)
  qed
qed

lemma update_reordering_delivers:
  assumes cfg: "rx_cfg_ok s" and inv: "rx_window_inv s"
    and head: "win_at (pr_rx_window s) (rx_deliv (pr_st s)) = None"
    and tm: "pr_reordering_timer s \<longrightarrow> unat (rx_reord (pr_st s)) \<le> unat (rx_next (pr_st s))"
    and t0: "rxc_t_reordering (pr_cfg s) = 0 \<longrightarrow> \<not> pr_reordering_timer s"
  shows "\<exists>s' evs. update_reordering env s = Some (s', evs) \<and> rx_delivers s s' evs"
proof -
  define s1 where "s1 = (if pr_reordering_timer s \<and> rx_reord (pr_st s) \<le> rx_deliv (pr_st s)
    then s\<lparr>pr_reordering_timer := False\<rparr> else s)"
  have st1: "pr_st s1 = pr_st s" "pr_cfg s1 = pr_cfg s" "pr_rx_window s1 = pr_rx_window s" "pr_stopped s1 = pr_stopped s"
    and fr1: "rx_frame s s1"
    using rx_frame_updates(1)[of s False] by (auto simp: s1_def)
  have cfg1: "rx_cfg_ok s1" and inv1: "rx_window_inv s1"
    using cfg inv rx_cfg_ok_frame[OF fr1] st1 by (simp_all add: rx_window_inv_def win_counts_def)
  have tm1: "pr_reordering_timer s1 \<longrightarrow> unat (rx_deliv (pr_st s)) < unat (rx_reord (pr_st s))
      \<and> unat (rx_reord (pr_st s)) \<le> unat (rx_next (pr_st s))"
    using tm by (auto simp: s1_def word_le_nat_alt)
  have dn: "unat (rx_deliv (pr_st s)) \<le> unat (rx_next (pr_st s))"
    using rx_window_invD(2)[OF inv] .
  consider "rxc_t_reordering (pr_cfg s) = 0"
    | "rxc_t_reordering (pr_cfg s) \<noteq> 0" "rxc_t_reordering (pr_cfg s) \<noteq> - 1"
      "\<not> pr_reordering_timer s1" "rx_deliv (pr_st s) < rx_next (pr_st s)"
    | "rxc_t_reordering (pr_cfg s) \<noteq> 0"
      "rxc_t_reordering (pr_cfg s) = - 1 \<or> pr_reordering_timer s1 \<or> \<not> rx_deliv (pr_st s) < rx_next (pr_st s)"
    by blast
  then show ?thesis
  proof cases
    case 1
    let ?s2 = "s1\<lparr>pr_st := (pr_st s1)\<lparr>rx_reord := rx_next (pr_st s1)\<rparr>\<rparr>"
    have "rx_cfg_ok ?s2" "rx_window_inv ?s2" "\<not> pr_reordering_timer ?s2"
      using cfg1 inv1 t0 1 by (auto simp: rx_cfg_ok_def rx_window_inv_def win_counts_def s1_def)
    then obtain s' evs where "handle_t_reordering_expire env ?s2 = Some (s', evs)" "rx_delivers ?s2 s' evs"
      using handle_t_reordering_expire_delivers[of ?s2 env] dn st1 by auto
    moreover have "rx_frame s ?s2"
      using rx_frame_trans[OF fr1 rx_frame_updates(2)] .
    ultimately show ?thesis
      using 1 st1 rx_frame_trans
      by (auto simp: update_reordering_def s1_def[symmetric] Let_def pdcp_t_reordering_infinity_def rx_delivers_def)
  next
    case 2
    then have "rx_inv (start_reordering s1)"
      using start_reordering_inv[OF cfg1 inv1] head st1 by auto
    moreover have "rx_frame s (start_reordering s1)"
      using rx_frame_trans[OF fr1 rx_frame_updates(4)] .
    ultimately show ?thesis
      using 2 st1 by (simp add: update_reordering_def s1_def[symmetric] Let_def pdcp_t_reordering_infinity_def
          rx_delivers_def start_reordering_def)
  next
    case 3
    have "rx_inv s1"
      using cfg1 inv1 head tm1 st1 3 dn
      by (auto simp: rx_inv_def rx_timer_inv_def u32_less_iff)
    moreover have "update_reordering env s = Some (s1, [])"
      using 3 st1 by (auto simp: update_reordering_def s1_def[symmetric] Let_def pdcp_t_reordering_infinity_def)
    ultimately show ?thesis
      using fr1 st1 by (simp add: rx_delivers_def)
  qed
qed

lemma mod_window_inject:
  assumes "(a::nat) mod m = b mod m" and "lo \<le> a" "a < lo + m" "lo \<le> b" "b < lo + m"
  shows "a = b"
proof -
  have "\<not> m \<le> a - b" "\<not> m \<le> b - a"
    using assms by linarith+
  then show ?thesis
    using mod_eq_dvd_iff_nat[of b a m] mod_eq_dvd_iff_nat[of a b m] assms(1)
    by (metis dvd_imp_le diff_is_0_eq' linorder_le_cases neq0_conv diff_diff_cancel diff_zero)
qed

text \<open>Storing a COUNT of the receive window: the window invariant with the new RX_NEXT.\<close>

lemma store_sdu_ok:
  assumes inv: "rx_window_inv s" and c: "win_at (pr_rx_window s) (pi_count pi) = None"
    and lo: "unat (rx_deliv (pr_st s)) \<le> unat (pi_count pi)"
    and hi: "unat (pi_count pi) < unat (rx_deliv (pr_st s)) + half_range (rxc_sn_size (pr_cfg s))"
    and m: "unat (pi_count pi) + 1 < 2 ^ 32"
  obtains s1 w where "store_sdu s pi = Some s1" and "s1 = s\<lparr>pr_rx_window := w\<rparr>"
    and "rx_window_inv (update_rx_next s1 (pi_count pi))"
    and "win_at w = (win_at (pr_rx_window s))(pi_count pi \<mapsto> \<lparr>si_buf = pi_buf pi, si_count = pi_count pi,
        si_integrity_verified = pi_integrity_verified pi\<rparr>)"
proof -
  let ?k = "sn_len (rxc_sn_size (pr_cfg s)) - 1" and ?c = "pi_count pi"
  let ?si = "\<lparr>si_buf = pi_buf pi, si_count = ?c, si_integrity_verified = pi_integrity_verified pi\<rparr>"
  note I = rx_window_invD[OF inv]
  have cm: "cm_wf ?k (pr_rx_window s)"
    using I(1) by (simp add: win_counts_def)
  have fresh: "unat sn' mod 2 ^ ?k \<noteq> unat ?c mod 2 ^ ?k" if "win_at (pr_rx_window s) sn' \<noteq> None" for sn'
  proof
    assume eq: "unat sn' mod 2 ^ ?k = unat ?c mod 2 ^ ?k"
    have "unat (rx_deliv (pr_st s)) \<le> unat sn'" "unat sn' < unat (rx_deliv (pr_st s)) + 2 ^ ?k"
      using I(3) I(4)[OF that] by (auto simp: half_range_def)
    moreover have "unat ?c < unat (rx_deliv (pr_st s)) + 2 ^ ?k"
      using hi by (simp add: half_range_def)
    ultimately have "unat sn' = unat ?c"
      using eq lo by (rule_tac mod_window_inject) auto
    then have "sn' = ?c"
      by (rule unsigned_word_eqI)
    then show False
      using that c by simp
  qed
  obtain w where w: "add_sn (pr_rx_window s) ?c ?si = Some w" "cm_wf ?k w"
      "win_at w = (win_at (pr_rx_window s))(?c \<mapsto> ?si)"
    using win.add_map_update[OF cm c fresh, of ?si] by blast
  let ?s1 = "s\<lparr>pr_rx_window := w\<rparr>"
  have inc: "unat (?c + 1) = unat ?c + 1"
    using m by (simp add: unat_word_ariths)
  have wc: "win_counts ?k ?s1"
    using w I(1) by (auto simp: win_counts_def)
  have keys: "unat (rx_deliv (pr_st s)) \<le> unat c'
      \<and> unat c' < (if rx_next (pr_st s) \<le> ?c then unat ?c + 1 else unat (rx_next (pr_st s)))"
    if "win_at w c' \<noteq> None" for c'
    using that I(4)[of c'] lo w(3) by (cases "c' = ?c") (auto simp: word_le_nat_alt)
  have "rx_window_inv (update_rx_next ?s1 ?c)"
    using I(2,3) lo hi inc wc keys
    by (auto simp: rx_window_inv_def update_rx_next_def win_counts_def word_le_nat_alt split: if_splits)
  then show ?thesis
    using that[of ?s1 w] w by (simp add: store_sdu_def)
qed

lemma update_rx_next_simps [simp]:
  "pr_cfg (update_rx_next s c) = pr_cfg s" "pr_rx_window (update_rx_next s c) = pr_rx_window s"
  "rx_deliv (pr_st (update_rx_next s c)) = rx_deliv (pr_st s)" "rx_reord (pr_st (update_rx_next s c)) = rx_reord (pr_st s)"
  "pr_reordering_timer (update_rx_next s c) = pr_reordering_timer s"
  by (simp_all add: update_rx_next_def)

lemma update_rx_next_frame: "rx_frame s (update_rx_next s c)"
  using rx_frame_updates(2) by (simp add: update_rx_next_def)

lemma update_rx_next_ge:
  assumes "unat c + 1 < 2 ^ 32"
  shows "unat (rx_next (pr_st s)) \<le> unat (rx_next (pr_st (update_rx_next s c)))"
proof -
  have "unat (c + 1) = unat c + 1"
    using assms by (simp add: unat_word_ariths)
  then show ?thesis
    by (simp add: update_rx_next_def word_le_nat_alt)
qed

text \<open>A PDU that is old or already stored changes nothing.\<close>

lemma apply_reordering_drop:
  assumes "rx_inv s" and "unat (pi_count pi) < unat (rx_deliv (pr_st s)) \<or> win_at (pr_rx_window s) (pi_count pi) \<noteq> None"
  shows "apply_reordering env s pi = Some (s, [])"
proof -
  have "win_counts (sn_len (rxc_sn_size (pr_cfg s)) - 1) s"
    using assms(1) by (simp add: rx_inv_def rx_window_inv_def)
  then show ?thesis
    using assms(2) by (auto simp: apply_reordering_def Let_def has_sn_win_at win_counts_def word_less_nat_alt)
qed

text \<open>A new PDU of the window is stored, and what it completes is delivered.\<close>

lemma apply_reordering_new:
  assumes inv: "rx_inv s" and c: "win_at (pr_rx_window s) (pi_count pi) = None"
    and lo: "unat (rx_deliv (pr_st s)) \<le> unat (pi_count pi)"
    and hi: "unat (pi_count pi) < unat (rx_deliv (pr_st s)) + half_range (rxc_sn_size (pr_cfg s))"
    and m: "unat (pi_count pi) + 1 < 2 ^ 32"
  shows "\<exists>s' evs. apply_reordering env s pi = Some (s', evs) \<and> rx_delivers s s' evs"
proof -
  let ?c = "pi_count pi"
  have cfg: "rx_cfg_ok s" and wi: "rx_window_inv s" and ti: "rx_timer_inv s"
    using inv by (simp_all add: rx_inv_def)
  obtain s1 w where s1: "store_sdu s pi = Some s1" "s1 = s\<lparr>pr_rx_window := w\<rparr>"
    and inv2: "rx_window_inv (update_rx_next s1 ?c)"
    and w: "win_at w = (win_at (pr_rx_window s))(?c \<mapsto> \<lparr>si_buf = pi_buf pi, si_count = ?c,
        si_integrity_verified = pi_integrity_verified pi\<rparr>)"
    using store_sdu_ok[OF wi c lo hi m] by blast
  let ?s2 = "update_rx_next s1 ?c"
  have fr2: "rx_frame s ?s2"
    unfolding s1(2) by (rule rx_frame_trans[OF rx_frame_updates(3) update_rx_next_frame])
  have st2: "rx_deliv (pr_st ?s2) = rx_deliv (pr_st s)" "rx_reord (pr_st ?s2) = rx_reord (pr_st s)"
    "pr_reordering_timer ?s2 = pr_reordering_timer s"
    using s1(2) by simp_all
  have nx: "unat (rx_next (pr_st s)) \<le> unat (rx_next (pr_st ?s2))"
    using update_rx_next_ge[OF m, of s1] s1(2) by simp
  have "\<exists>s3 evs. (if ?c = rx_deliv (pr_st ?s2) then deliver_all_consecutive_counts env ?s2 else Some (?s2, [])) = Some (s3, evs)
    \<and> rx_window_inv s3 \<and> win_at (pr_rx_window s3) (rx_deliv (pr_st s3)) = None \<and> rx_frame ?s2 s3
    \<and> pr_reordering_timer s3 = pr_reordering_timer s \<and> rx_reord (pr_st s3) = rx_reord (pr_st s)
    \<and> rx_next (pr_st s3) = rx_next (pr_st ?s2) \<and> unat (rx_deliv (pr_st s)) \<le> unat (rx_deliv (pr_st s3))
    \<and> counts_in (unat (rx_deliv (pr_st s))) (unat (rx_deliv (pr_st s3))) evs"
  proof (cases "?c = rx_deliv (pr_st ?s2)")
    case False
    then show ?thesis
      using inv2 ti w s1(2) st2 by (intro exI[of _ ?s2] exI[of _ "[]"]) (simp add: rx_timer_inv_def)
  next
    case True
    obtain s3 evs d' where s3: "deliver_all_consecutive_counts env ?s2 = Some (s3, evs)"
      "drained (unat (rx_deliv (pr_st s))) (unat d') ?s2 s3 evs" "pr_st s3 = (pr_st ?s2)\<lparr>rx_deliv := d'\<rparr>"
      "unat (rx_deliv (pr_st s)) \<le> unat d'" "unat d' \<le> unat (rx_next (pr_st ?s2))"
      "d' = rx_next (pr_st ?s2) \<or> win_at (pr_rx_window s3) d' = None"
      using deliver_all_consecutive_counts_ok[OF rx_window_invD(1,2)[OF inv2], of env] st2(1) by auto
    have inv3: "rx_window_inv s3"
      using drained_window_inv[OF inv2, of d' s3 evs] s3 st2(1) by simp
    then have "win_at (pr_rx_window s3) (rx_deliv (pr_st s3)) = None"
      using rx_window_inv_head[OF inv3] s3(3,6) by auto
    then show ?thesis
      using True s3 inv3 rx_frame_drained[OF s3(2)] drained_frame(4)[OF s3(2)] st2
        drained_counts_in[OF s3(2)] unat_less_u32[of d'] by simp
  qed
  then obtain s3 evs where s3: "(if ?c = rx_deliv (pr_st ?s2) then deliver_all_consecutive_counts env ?s2 else Some (?s2, [])) = Some (s3, evs)"
    and inv3: "rx_window_inv s3" "win_at (pr_rx_window s3) (rx_deliv (pr_st s3)) = None" and fr3: "rx_frame ?s2 s3"
    and st3: "pr_reordering_timer s3 = pr_reordering_timer s" "rx_reord (pr_st s3) = rx_reord (pr_st s)"
      "rx_next (pr_st s3) = rx_next (pr_st ?s2)" and mono: "unat (rx_deliv (pr_st s)) \<le> unat (rx_deliv (pr_st s3))"
    and cnt: "counts_in (unat (rx_deliv (pr_st s))) (unat (rx_deliv (pr_st s3))) evs"
    by blast
  have fr: "rx_frame s s3"
    by (rule rx_frame_trans[OF fr2 fr3])
  have "rx_cfg_ok s3" "pr_reordering_timer s3 \<longrightarrow> unat (rx_reord (pr_st s3)) \<le> unat (rx_next (pr_st s3))"
    "rxc_t_reordering (pr_cfg s3) = 0 \<longrightarrow> \<not> pr_reordering_timer s3"
    using cfg rx_cfg_ok_frame[OF fr] ti nx st3 rx_frameD(1)[OF fr] by (auto simp: rx_timer_inv_def)
  then obtain s' evs' where u: "update_reordering env s3 = Some (s', evs')" "rx_delivers s3 s' evs'"
    using update_reordering_delivers[OF _ inv3] by blast
  have "rx_delivers s s' (evs @ evs')"
    using u(2) rx_frame_trans[OF fr] counts_in_append[OF cnt] mono nx st3(3) by (auto simp: rx_delivers_def)
  moreover have "apply_reordering env s pi = Some (s', evs @ evs')"
    using c lo s1 s3 u(1)
    by (cases "?c = rx_deliv (pr_st s)")
      (auto simp: apply_reordering_def Let_def has_sn_win_at word_less_nat_alt not_less add_events_def)
  ultimately show ?thesis
    by blast
qed

end
