(* ===== verification/Pdcp_Tx_Inv.thy ===== *)
theory Pdcp_Tx_Inv
  imports Pdcp_Tx Pdcp_Rx_Inv
begin

unbundle bit_operations_syntax

text \<open>
  The transmitting PDCP entity: the window with its counters as a finite map, the invariant of the entity and its preservation
  by discarding, by notifications of the lower layers and by the reordering after the crypto workers.
\<close>

section \<open>The window is a finite map with exact counters\<close>

definition tw_wf :: "nat \<Rightarrow> pdcp_tx_window \<Rightarrow> bool" where
  "tw_wf k w \<longleftrightarrow> cm_wf k (tw_window w) \<and> tw_nof_sdus w = of_nat (card (dom (tw_at w)))
     \<and> tw_sdu_bytes w = (\<Sum>c \<in> dom (tw_at w). we_sdu_length (the (tw_at w c)))"

lemma tw_has_sn_at: "tw_has_sn w c \<longleftrightarrow> tw_at w c \<noteq> None"
  by (simp add: tw_has_sn_def tw_at_def has_sn_win_at)

lemma tw_at_update [simp]: "tw_at (w\<lparr>tw_window := m\<rparr>) = win_at m" "tw_at (w\<lparr>tw_sdu_bytes := b\<rparr>) = tw_at w"
  "tw_at (w\<lparr>tw_nof_sdus := n\<rparr>) = tw_at w"
  by (simp_all add: tw_at_def fun_eq_iff)

lemma tw_at_eq: "win_at (tw_window w) = tw_at w"
  by (simp add: tw_at_def fun_eq_iff)

lemma tw_wf_finite: "tw_wf k w \<Longrightarrow> finite (dom (tw_at w))"
  using win.dom_finite[of k "tw_window w"] by (simp add: tw_wf_def tw_at_eq)

lemma tw_remove_ok:
  assumes "tw_wf k w"
  obtains w' where "tw_remove_sdu w c = Some w'" and "tw_wf k w'" and "tw_at w' = (tw_at w)(c := None)"
    and "tw_rb_type w' = tw_rb_type w" and "tw_sn_size w' = tw_sn_size w"
proof (cases "tw_at w c")
  case None
  then show ?thesis
    using that[of w] assms by (auto simp: tw_remove_sdu_def tw_has_sn_at fun_eq_iff)
next
  case (Some e)
  then have "win_at (tw_window w) c \<noteq> None"
    by (simp add: tw_at_eq)
  then obtain m where m: "remove_sn (tw_window w) c = Some m" "cm_wf k m" "win_at m = (tw_at w)(c := None)"
    using win.remove_present[of k "tw_window w" c] assms by (auto simp: tw_wf_def tw_at_eq)
  let ?D = "dom (tw_at w)" and ?f = "\<lambda>x. we_sdu_length (the (tw_at w x))"
  have fin: "finite ?D" and c: "c \<in> ?D"
    using tw_wf_finite[OF assms] Some by auto
  have "sum ?f ?D = ?f c + sum ?f (?D - {c})"
    by (rule sum.remove[OF fin c])
  moreover have "card ?D = Suc (card (?D - {c}))"
    using fin c by (metis card_Suc_Diff1)
  moreover have "(\<Sum>x \<in> ?D - {c}. we_sdu_length (the (((tw_at w)(c := None)) x))) = sum ?f (?D - {c})"
    by (intro sum.cong) auto
  ultimately have "tw_wf k (w\<lparr>tw_window := m, tw_sdu_bytes := tw_sdu_bytes w - we_sdu_length e, tw_nof_sdus := tw_nof_sdus w - 1\<rparr>)"
    using assms m Some by (simp add: tw_wf_def)
  then show ?thesis
    by (rule that[rotated]) (use m Some in \<open>simp_all add: tw_remove_sdu_def tw_has_sn_at\<close>)
qed

lemma tw_add_ok:
  assumes "tw_wf k w" and "\<And>c. tw_at w c \<noteq> None \<Longrightarrow> unat c mod 2 ^ k \<noteq> unat (wsi_count si) mod 2 ^ k"
  obtains w' where "tw_add_sdu w si len = Some w'" and "tw_wf k w'"
    and "tw_at w' = (tw_at w)(wsi_count si \<mapsto> \<lparr>we_sdu_info = si, we_pdu = [], we_sdu_length = len\<rparr>)"
    and "tw_rb_type w' = tw_rb_type w" and "tw_sn_size w' = tw_sn_size w"
proof -
  let ?c = "wsi_count si" and ?e = "\<lparr>we_sdu_info = si, we_pdu = [], we_sdu_length = len\<rparr>"
  have fresh: "tw_at w ?c = None"
    using assms(2) by blast
  obtain m where m: "add_sn (tw_window w) ?c ?e = Some m" "cm_wf k m" "win_at m = (tw_at w)(?c \<mapsto> ?e)"
    using win.add_map_update[of k "tw_window w" ?c ?e] assms fresh by (auto simp: tw_wf_def tw_at_eq)
  have fin: "finite (dom (tw_at w))" and c: "?c \<notin> dom (tw_at w)"
    using tw_wf_finite[OF assms(1)] fresh by auto
  have "(\<Sum>x \<in> dom (tw_at w). we_sdu_length (the (((tw_at w)(?c \<mapsto> ?e)) x))) = (\<Sum>x \<in> dom (tw_at w). we_sdu_length (the (tw_at w x)))"
    using c by (intro sum.cong) auto
  then have "tw_wf k (w\<lparr>tw_window := m, tw_sdu_bytes := tw_sdu_bytes w + len, tw_nof_sdus := tw_nof_sdus w + 1\<rparr>)"
    using assms(1) m fin c by (simp add: tw_wf_def add.commute)
  then show ?thesis
    by (rule that[rotated]) (use m in \<open>simp_all add: tw_add_sdu_def\<close>)
qed

lemma tw_set_pdu_ok:
  assumes "tw_wf k w" and "tw_at w c = Some e"
  obtains w' where "tw_set_pdu w c pdu = Some w'" and "tw_wf k w'" and "tw_at w' = (tw_at w)(c \<mapsto> e\<lparr>we_pdu := pdu\<rparr>)"
    and "tw_rb_type w' = tw_rb_type w" and "tw_sn_size w' = tw_sn_size w"
proof -
  have "win_at (tw_window w) c \<noteq> None"
    using assms(2) by (simp add: tw_at_eq)
  then obtain m where m: "win_set (tw_window w) c (e\<lparr>we_pdu := pdu\<rparr>) = Some m" "cm_wf k m"
      "win_at m = (tw_at w)(c \<mapsto> e\<lparr>we_pdu := pdu\<rparr>)"
    using win.upd_present[of k "tw_window w" c "e\<lparr>we_pdu := pdu\<rparr>"] assms(1) by (auto simp: tw_wf_def tw_at_eq)
  have D: "dom ((tw_at w)(c \<mapsto> e\<lparr>we_pdu := pdu\<rparr>)) = dom (tw_at w)"
    using assms(2) by auto
  have "tw_wf k (w\<lparr>tw_window := m\<rparr>)"
    using assms m unfolding tw_wf_def by (simp add: D del: dom_fun_upd cong: sum.cong) (intro sum.cong, auto)
  then show ?thesis
    by (rule that[rotated]) (use m assms(2) in \<open>simp_all add: tw_set_pdu_def\<close>)
qed

lemma tw_clear_ok:
  assumes "tw_wf k w"
  shows "tw_wf k (tw_clear w)" and "tw_at (tw_clear w) = (\<lambda>_. None)"
proof -
  show at: "tw_at (tw_clear w) = (\<lambda>_. None)"
    by (simp add: fun_eq_iff tw_at_def tw_clear_def win_at_def cm_at_def cm_contains_def cm_clear_def)
  have "cm_wf k (cm_clear (tw_window w))"
    using assms by (simp add: tw_wf_def cm_wf_def cm_clear_def cm_slots_def)
  then show "tw_wf k (tw_clear w)"
    by (simp add: tw_wf_def at) (simp add: tw_clear_def)
qed

section \<open>The invariant\<close>

abbreviation tx_win_bits :: "pdcp_entity_tx \<Rightarrow> nat" where
  "tx_win_bits s \<equiv> sn_len (txc_sn_size (pt_cfg s)) - 1"

definition tx_cfg_ok :: "pdcp_entity_tx \<Rightarrow> bool" where
  "tx_cfg_ok s \<longleftrightarrow> valid_sn_size (txc_sn_size (pt_cfg s)) \<and> pt_window_size s = of_nat (half_range (txc_sn_size (pt_cfg s)))
     \<and> tw_rb_type (pt_tx_window s) = txc_rb_type (pt_cfg s) \<and> tw_sn_size (pt_tx_window s) = txc_sn_size (pt_cfg s)"

text \<open>What the window holds lies in the window, under its own COUNT, with its time of arrival when SDUs can expire.\<close>

definition tx_held_ok :: "pdcp_entity_tx \<Rightarrow> bool" where
  "tx_held_ok s \<longleftrightarrow> tw_wf (tx_win_bits s) (pt_tx_window s) \<and> (\<forall>c e. tw_at (pt_tx_window s) c = Some e \<longrightarrow>
     unat (ts_next_ack (pt_st s)) \<le> unat c \<and> unat c < unat (ts_next (pt_st s)) \<and> wsi_count (we_sdu_info e) = c
     \<and> (discard_finite s \<longrightarrow> wsi_tick_point_of_arrival (we_sdu_info e) \<noteq> None))"

definition tx_vars_ok :: "pdcp_entity_tx \<Rightarrow> bool" where
  "tx_vars_ok s \<longleftrightarrow> (let st = pt_st s in
     unat (ts_next_ack st) \<le> unat (ts_trans st) \<and> unat (ts_trans st) \<le> unat (ts_next st)
     \<and> unat (ts_next st) \<le> unat (ts_next_ack st) + half_range (txc_sn_size (pt_cfg s))
     \<and> unat (ts_trans_crypto st) \<le> unat (ts_next st) \<and> unat (ts_next st) \<le> unat (mc_hard (txc_max_count (pt_cfg s))))"

definition tx_inv :: "pdcp_entity_tx \<Rightarrow> bool" where
  "tx_inv s \<longleftrightarrow> tx_cfg_ok s \<and> tx_held_ok s \<and> tx_vars_ok s"

text \<open>Between two operations, while the crypto reordering timer runs, it waits for a COUNT of the window.\<close>

definition tx_timer_ok :: "pdcp_entity_tx \<Rightarrow> bool" where
  "tx_timer_ok s \<longleftrightarrow> (pt_crypto_reordering_timer s \<longrightarrow> unat (ts_trans_crypto (pt_st s)) \<le> unat (ts_reord_crypto (pt_st s))
     \<and> unat (ts_reord_crypto (pt_st s)) \<le> unat (ts_next (pt_st s)))"

text \<open>The COUNTs of the data PDUs handed down and of the SDUs that were given a COUNT.\<close>

definition pdu_counts :: "pdcp_tx_event list \<Rightarrow> u32 list" where
  "pdu_counts evs = concat (map (\<lambda>ev. case ev of on_new_data_pdu c pdu r \<Rightarrow> [c] | _ \<Rightarrow> []) evs)"

definition new_counts :: "pdcp_tx_task list \<Rightarrow> u32 list" where
  "new_counts ts = concat (map (\<lambda>t. case t of Tx_crypto_task bi \<Rightarrow> if tb_is_retx bi then [] else [tb_count bi] | _ \<Rightarrow> []) ts)"

lemma counts_simps [simp]: "pdu_counts [] = []" "new_counts [] = []"
  "pdu_counts (xs @ ys) = pdu_counts xs @ pdu_counts ys" "new_counts (ts @ us) = new_counts ts @ new_counts us"
  "pdu_counts (on_new_data_pdu c pdu r # xs) = c # pdu_counts xs" "pdu_counts (on_discard_pdu sn # xs) = pdu_counts xs"
  "pdu_counts (on_new_control_pdu b # xs) = pdu_counts xs" "pdu_counts (tx_on_resume_required # xs) = pdu_counts xs"
  "pdu_counts (tx_on_max_count_reached # xs) = pdu_counts xs" "pdu_counts (tx_on_protocol_failure # xs) = pdu_counts xs"
  "new_counts (Tx_crypto_task bi # ts) = (if tb_is_retx bi then [] else [tb_count bi]) @ new_counts ts"
  "new_counts (Tx_reorder_task bi # ts) = new_counts ts" "new_counts (Tx_failure_task st # ts) = new_counts ts"
  by (simp_all add: pdu_counts_def new_counts_def)

text \<open>Strictly increasing COUNTs of a range.\<close>

definition rising :: "u32 \<Rightarrow> u32 \<Rightarrow> u32 list \<Rightarrow> bool" where
  "rising lo hi cs \<longleftrightarrow> unat lo \<le> unat hi \<and> sorted_wrt (<) (map unat cs) \<and> (\<forall>c \<in> set cs. unat lo \<le> unat c \<and> unat c < unat hi)"

lemma rising_append: "rising lo mid xs \<Longrightarrow> rising mid hi ys \<Longrightarrow> rising lo hi (xs @ ys)"
  by (fastforce simp: rising_def sorted_wrt_append)

lemma rising_Nil [simp]: "rising lo hi [] \<longleftrightarrow> unat lo \<le> unat hi"
  by (simp add: rising_def)

lemma rising_Cons: "unat c < unat hi \<Longrightarrow> rising (c + 1) hi cs \<Longrightarrow> rising c hi (c # cs)"
  by (fastforce simp: rising_def unat_inc)

lemma rising_le: "rising lo hi cs \<Longrightarrow> unat lo' \<le> unat lo \<Longrightarrow> rising lo' hi cs"
  by (fastforce simp: rising_def)

text \<open>The effect of an operation.\<close>

definition tx_effect :: "pdcp_entity_tx \<Rightarrow> pdcp_tx_event list \<Rightarrow> pdcp_tx_task list \<Rightarrow> pdcp_entity_tx \<Rightarrow> bool" where
  "tx_effect s evs ts s' \<longleftrightarrow> tx_inv s' \<and> pt_cfg s' = pt_cfg s
     \<and> rising (ts_trans_crypto (pt_st s)) (ts_trans_crypto (pt_st s')) (pdu_counts evs)
     \<and> rising (ts_next (pt_st s)) (ts_next (pt_st s')) (new_counts ts)"

lemma tx_effect_refl: "tx_inv s \<Longrightarrow> tx_effect s [] [] s"
  by (simp add: tx_effect_def)

lemma tx_effect_trans: "tx_effect s evs ts s1 \<Longrightarrow> tx_effect s1 evs1 ts1 s2 \<Longrightarrow> tx_effect s (evs @ evs1) (ts @ ts1) s2"
  by (auto simp: tx_effect_def intro: rising_append)

text \<open>Updates of what the invariant does not mention.\<close>

definition tx_same :: "pdcp_entity_tx \<Rightarrow> pdcp_entity_tx \<Rightarrow> bool" where
  "tx_same s s' \<longleftrightarrow> pt_cfg s' = pt_cfg s \<and> pt_window_size s' = pt_window_size s \<and> pt_tx_window s' = pt_tx_window s \<and> pt_st s' = pt_st s
     \<and> (pt_crypto_reordering_timer s' \<longrightarrow> pt_crypto_reordering_timer s)"

lemma tx_same_inv: "tx_same s s' \<Longrightarrow> tx_inv s \<Longrightarrow> tx_inv s'"
  by (auto simp: tx_same_def tx_inv_def tx_cfg_ok_def tx_held_ok_def tx_vars_ok_def discard_finite_def discard_configured_def Let_def)

lemma tx_same_timer: "tx_same s s' \<Longrightarrow> tx_timer_ok s \<Longrightarrow> tx_timer_ok s'"
  by (auto simp: tx_same_def tx_timer_ok_def)

lemma tx_same_effect: "tx_same s s' \<Longrightarrow> tx_inv s \<Longrightarrow> pdu_counts evs = [] \<Longrightarrow> new_counts ts = [] \<Longrightarrow> tx_effect s evs ts s'"
  using tx_same_inv[of s s'] by (simp add: tx_effect_def) (simp add: tx_same_def)

lemma tx_same_trans: "tx_same s s1 \<Longrightarrow> tx_same s1 s2 \<Longrightarrow> tx_same s s2"
  by (auto simp: tx_same_def)

section \<open>Discarding\<close>

lemma advance_next_ack_ok:
  assumes "unat (ts_next_ack (pt_st s)) \<le> unat (ts_next (pt_st s))"
  shows "\<exists>a. advance_next_ack s = s\<lparr>pt_st := (pt_st s)\<lparr>ts_next_ack := a\<rparr>\<rparr> \<and> unat (ts_next_ack (pt_st s)) \<le> unat a
    \<and> unat a \<le> unat (ts_next (pt_st s)) \<and> (a = ts_next (pt_st s) \<or> tw_at (pt_tx_window s) a \<noteq> None)
    \<and> (\<forall>c. unat (ts_next_ack (pt_st s)) \<le> unat c \<and> unat c < unat a \<longrightarrow> tw_at (pt_tx_window s) c = None)"
  using assms
proof (induction s rule: advance_next_ack.induct)
  case (1 s)
  let ?a = "ts_next_ack (pt_st s)" and ?n = "ts_next (pt_st s)"
  show ?case
  proof (cases "?a < ?n \<and> \<not> tw_has_sn (pt_tx_window s) ?a")
    case True
    then have lt: "unat ?a < unat ?n" and none: "tw_at (pt_tx_window s) ?a = None"
      by (simp_all add: word_less_nat_alt tw_has_sn_at)
    have inc: "unat (?a + 1) = Suc (unat ?a)"
      by (rule unat_inc[OF lt])
    let ?s = "s\<lparr>pt_st := (pt_st s)\<lparr>ts_next_ack := ?a + 1\<rparr>\<rparr>"
    obtain a where a: "advance_next_ack ?s = ?s\<lparr>pt_st := (pt_st ?s)\<lparr>ts_next_ack := a\<rparr>\<rparr>" "Suc (unat ?a) \<le> unat a"
      "unat a \<le> unat ?n" "a = ?n \<or> tw_at (pt_tx_window s) a \<noteq> None"
      "\<forall>c. Suc (unat ?a) \<le> unat c \<and> unat c < unat a \<longrightarrow> tw_at (pt_tx_window s) c = None"
      using 1(1)[OF True] lt inc by auto
    have "tw_at (pt_tx_window s) c = None" if "unat ?a \<le> unat c" "unat c < unat a" for c
      using that a(5) none u32_less_iff(3)[of c ?a] by (metis Suc_leI le_neq_implies_less)
    then show ?thesis
      using True a by (subst advance_next_ack.simps) (auto intro!: exI[of _ a])
  next
    case False
    then show ?thesis
      using 1(2) by (subst advance_next_ack.simps) (auto intro!: exI[of _ ?a] simp: tw_has_sn_at u32_less_iff)
  qed
qed

lemma tx_held_okD: "tx_held_ok s \<Longrightarrow> tw_wf (tx_win_bits s) (pt_tx_window s)"
  "tx_held_ok s \<Longrightarrow> tw_at (pt_tx_window s) c = Some e \<Longrightarrow>
     unat (ts_next_ack (pt_st s)) \<le> unat c \<and> unat c < unat (ts_next (pt_st s)) \<and> wsi_count (we_sdu_info e) = c
     \<and> (discard_finite s \<longrightarrow> wsi_tick_point_of_arrival (we_sdu_info e) \<noteq> None)"
  by (auto simp: tx_held_ok_def)

text \<open>A discarded PDU leaves the window, and TX_NEXT_ACK moves to the oldest COUNT that is still held.\<close>

lemma discard_pdu_ok:
  assumes "tx_inv s"
  obtains (Kept) "discard_pdu s c = Some (s, [])" and "\<not> (discard_configured s \<and> tw_at (pt_tx_window s) c \<noteq> None)"
  | (Gone) w a where "discard_pdu s c = Some (s\<lparr>pt_tx_window := w, pt_st := (pt_st s)\<lparr>ts_next_ack := a,
        ts_trans := max (ts_trans (pt_st s)) a\<rparr>\<rparr>, [on_discard_pdu (pt_SN s c)])"
      and "discard_configured s" and "tw_at (pt_tx_window s) c \<noteq> None"
      and "tx_inv (s\<lparr>pt_tx_window := w, pt_st := (pt_st s)\<lparr>ts_next_ack := a, ts_trans := max (ts_trans (pt_st s)) a\<rparr>\<rparr>)"
      and "tw_at w = (tw_at (pt_tx_window s))(c := None)" and "unat (ts_next_ack (pt_st s)) \<le> unat a"
      and "a = ts_next (pt_st s) \<or> tw_at w a \<noteq> None"
      and "c = ts_next_ack (pt_st s) \<Longrightarrow> unat (ts_next_ack (pt_st s)) < unat a"
proof (cases "discard_configured s \<and> tw_at (pt_tx_window s) c \<noteq> None")
  case False
  then have "discard_pdu s c = Some (s, [])"
    by (auto simp: discard_pdu_def tw_has_sn_at)
  then show ?thesis
    using False Kept by blast
next
  case True
  let ?st = "pt_st s"
  have held: "tx_held_ok s" and vars: "tx_vars_ok s" and cfg: "tx_cfg_ok s"
    using assms by (simp_all add: tx_inv_def)
  obtain e where e: "tw_at (pt_tx_window s) c = Some e"
    using True by auto
  obtain w where w: "tw_remove_sdu (pt_tx_window s) c = Some w" "tw_wf (tx_win_bits s) w"
      "tw_at w = (tw_at (pt_tx_window s))(c := None)" "tw_rb_type w = tw_rb_type (pt_tx_window s)" "tw_sn_size w = tw_sn_size (pt_tx_window s)"
    using tw_remove_ok[OF tx_held_okD(1)[OF held]] by metis
  let ?s = "s\<lparr>pt_tx_window := w\<rparr>"
  have le: "unat (ts_next_ack (pt_st ?s)) \<le> unat (ts_next (pt_st ?s))"
    using vars by (simp add: tx_vars_ok_def Let_def)
  obtain a where a: "advance_next_ack ?s = ?s\<lparr>pt_st := ?st\<lparr>ts_next_ack := a\<rparr>\<rparr>" "unat (ts_next_ack ?st) \<le> unat a"
      "unat a \<le> unat (ts_next ?st)" "a = ts_next ?st \<or> tw_at w a \<noteq> None"
      "\<forall>c. unat (ts_next_ack ?st) \<le> unat c \<and> unat c < unat a \<longrightarrow> tw_at w c = None"
    using advance_next_ack_ok[OF le] by auto
  let ?s' = "s\<lparr>pt_tx_window := w, pt_st := ?st\<lparr>ts_next_ack := a, ts_trans := max (ts_trans ?st) a\<rparr>\<rparr>"
  have "discard_pdu s c = Some (?s', [on_discard_pdu (pt_SN s c)])"
    using True tx_held_okD(2)[OF held e] w(1) a(1) e
    by (simp add: discard_pdu_def tw_has_sn_at u32_less_iff Let_def)
  moreover have "tx_held_ok ?s'"
    unfolding tx_held_ok_def
  proof (intro conjI allI impI)
    fix d f
    assume d: "tw_at (pt_tx_window ?s') d = Some f"
    then have "tw_at (pt_tx_window s) d = Some f"
      using w(3) by (auto split: if_splits)
    note D = tx_held_okD(2)[OF held this]
    have "\<not> unat d < unat a"
      using a(5) d D by force
    then show "unat (ts_next_ack (pt_st ?s')) \<le> unat d"
      by simp
    show "unat d < unat (ts_next (pt_st ?s'))" "wsi_count (we_sdu_info f) = d"
      using D by simp_all
    assume "discard_finite ?s'"
    then show "wsi_tick_point_of_arrival (we_sdu_info f) \<noteq> None"
      using D by (simp add: discard_finite_def discard_configured_def)
  qed (use w in simp)
  moreover have "tx_vars_ok ?s'" "tx_cfg_ok ?s'"
    using vars cfg a w(4,5) by (auto simp: tx_vars_ok_def tx_cfg_ok_def Let_def max_def u32_less_iff)
  moreover have "unat (ts_next_ack ?st) < unat a" if "c = ts_next_ack ?st"
  proof -
    have "a \<noteq> c"
      using a(4) w(3) tx_held_okD(2)[OF held e] by auto
    then show ?thesis
      using that a(2) by (simp add: u32_less_iff)
  qed
  ultimately show ?thesis
    using Gone[where w = w and a = a] True w(3) a by (simp add: tx_inv_def)
qed

lemma discard_pdu_effect:
  assumes "tx_inv s"
  obtains s' evs where "discard_pdu s c = Some (s', evs)" and "tx_effect s evs [] s'" and "pt_stopped s' = pt_stopped s"
    and "discard_configured s \<Longrightarrow> tw_at (pt_tx_window s') = (tw_at (pt_tx_window s))(c := None)"
    and "evs = (if discard_configured s \<and> tw_at (pt_tx_window s) c \<noteq> None then [on_discard_pdu (pt_SN s c)] else [])"
    and "ts_next (pt_st s') = ts_next (pt_st s)" and "pt_cfg s' = pt_cfg s" and "tx_timer_ok s \<Longrightarrow> tx_timer_ok s'"
proof (cases rule: discard_pdu_ok[OF assms, of c])
  case 1
  then show ?thesis
    using that[of s "[]"] tx_effect_refl[OF assms] by (auto simp: fun_eq_iff)
next
  case (2 w a)
  then show ?thesis
    using that[OF 2(1)] by (simp add: tx_effect_def tx_timer_ok_def)
qed

lemma stop_discard_loop_ok:
  assumes "tw_wf k (pt_tx_window s)" and "unat h < 2 ^ 32 - 1" and "unat (ts_next_ack (pt_st s)) \<le> unat h + 1"
  shows "\<exists>w. stop_discard_loop s h = Some (s\<lparr>pt_tx_window := w, pt_st := (pt_st s)\<lparr>ts_next_ack := h + 1\<rparr>\<rparr>) \<and> tw_wf k w
    \<and> tw_at w = (\<lambda>c. if unat (ts_next_ack (pt_st s)) \<le> unat c \<and> unat c \<le> unat h then None else tw_at (pt_tx_window s) c)
    \<and> tw_rb_type w = tw_rb_type (pt_tx_window s) \<and> tw_sn_size w = tw_sn_size (pt_tx_window s)"
  using assms
proof (induction s h rule: stop_discard_loop.induct)
  case (1 s h)
  let ?a = "ts_next_ack (pt_st s)"
  have h: "h \<noteq> 0xffffffff" "unat (h + 1) = unat h + 1"
    using 1(3) by (auto simp: unat_word_ariths)
  show ?case
  proof (cases "?a \<le> h")
    case True
    then have inc: "unat (?a + 1) = Suc (unat ?a)"
      using h 1(3) by (simp add: u32_less_iff unat_word_ariths)
    obtain w where w: "tw_remove_sdu (pt_tx_window s) ?a = Some w" "tw_wf k w" "tw_at w = (tw_at (pt_tx_window s))(?a := None)"
        "tw_rb_type w = tw_rb_type (pt_tx_window s)" "tw_sn_size w = tw_sn_size (pt_tx_window s)"
      using tw_remove_ok[OF 1(2)] by metis
    let ?s = "s\<lparr>pt_tx_window := w, pt_st := (pt_st s)\<lparr>ts_next_ack := ?a + 1\<rparr>\<rparr>"
    obtain v where v: "stop_discard_loop ?s h = Some (?s\<lparr>pt_tx_window := v, pt_st := (pt_st ?s)\<lparr>ts_next_ack := h + 1\<rparr>\<rparr>)" "tw_wf k v"
        "tw_at v = (\<lambda>c. if Suc (unat ?a) \<le> unat c \<and> unat c \<le> unat h then None else tw_at w c)"
        "tw_rb_type v = tw_rb_type w" "tw_sn_size v = tw_sn_size w"
      using 1(1)[of w] True h w(1,2) 1(3) inc by (auto simp: u32_less_iff cong: if_cong)
    have "tw_at v c = (if unat ?a \<le> unat c \<and> unat c \<le> unat h then None else tw_at (pt_tx_window s) c)" for c
      using True u32_less_iff(3)[of c ?a] by (auto simp: v(3) w(3) u32_less_iff(2))
    then have "tw_at v = (\<lambda>c. if unat ?a \<le> unat c \<and> unat c \<le> unat h then None else tw_at (pt_tx_window s) c)"
      by (rule ext)
    then show ?thesis
      using True h v w by (subst stop_discard_loop.simps) (auto intro!: exI[of _ v])
  next
    case False
    then have "unat ?a = unat (h + 1)"
      using 1(4) h(2) by (simp add: u32_less_iff)
    then have a: "?a = h + 1"
      by (simp add: u32_less_iff(3))
    have "tw_at (pt_tx_window s) = (\<lambda>c. if unat ?a \<le> unat c \<and> unat c \<le> unat h then None else tw_at (pt_tx_window s) c)"
      using False by (intro ext) (auto simp: u32_less_iff)
    moreover have "s = s\<lparr>pt_tx_window := pt_tx_window s, pt_st := (pt_st s)\<lparr>ts_next_ack := h + 1\<rparr>\<rparr>"
      using a by simp
    ultimately show ?thesis
      using False 1(2) by (subst stop_discard_loop.simps) (intro exI[of _ "pt_tx_window s"], simp)
  qed
qed

text \<open>What a notification for the COUNT \<open>h\<close> of the window does to it.\<close>

definition acked_state :: "pdcp_entity_tx \<Rightarrow> u32 \<Rightarrow> pdcp_tx_window \<Rightarrow> (u32 \<times> u32) option \<Rightarrow> pdcp_entity_tx" where
  "acked_state s h w timer = s\<lparr>pt_tx_window := w, pt_discard_timer := timer,
     pt_st := (pt_st s)\<lparr>ts_next_ack := h + 1, ts_trans := max (ts_trans (pt_st s)) (h + 1)\<rparr>\<rparr>"

lemma stop_discard_timer_ok:
  assumes "tx_inv s" and "stop_discard_timer env s h = Some s'"
  obtains "s' = s"
  | w timer where "s' = acked_state s h w timer" and "tx_inv s'" and "unat (ts_next_ack (pt_st s)) \<le> unat h"
      and "unat h < unat (ts_next (pt_st s))" and "tw_at w = (\<lambda>c. if unat c \<le> unat h then None else tw_at (pt_tx_window s) c)"
proof (cases "\<not> discard_configured s \<or> h < ts_next_ack (pt_st s) \<or> ts_next (pt_st s) \<le> h \<or> \<not> tw_has_sn (pt_tx_window s) (ts_next_ack (pt_st s))")
  case True
  then have "stop_discard_timer env s h = Some s"
    by (elim disjE) (simp_all add: stop_discard_timer_def)
  then show ?thesis
    using assms(2) that(1) by simp
next
  case False
  let ?st = "pt_st s" and ?s = "s\<lparr>pt_discard_timer := None\<rparr>"
  have held: "tx_held_ok s" and vars: "tx_vars_ok s" and cfg: "tx_cfg_ok s"
    using assms by (simp_all add: tx_inv_def)
  have b: "unat (ts_next_ack ?st) \<le> unat h" "unat h < unat (ts_next ?st)"
    using False by (auto simp: u32_less_iff)
  have h: "unat h < 2 ^ 32 - 1" "unat (h + 1) = Suc (unat h)"
    using unat_less_u32[of "ts_next ?st"] b(2) unat_inc[OF b(2)] by simp_all
  obtain w where w: "stop_discard_loop ?s h = Some (?s\<lparr>pt_tx_window := w, pt_st := ?st\<lparr>ts_next_ack := h + 1\<rparr>\<rparr>)"
      "tw_wf (tx_win_bits s) w"
      "tw_at w = (\<lambda>c. if unat (ts_next_ack ?st) \<le> unat c \<and> unat c \<le> unat h then None else tw_at (pt_tx_window s) c)"
      "tw_rb_type w = tw_rb_type (pt_tx_window s)" "tw_sn_size w = tw_sn_size (pt_tx_window s)"
    using stop_discard_loop_ok[of "tx_win_bits s" ?s h] tx_held_okD(1)[OF held] h b by (auto cong: if_cong)
  have at: "tw_at w = (\<lambda>c. if unat c \<le> unat h then None else tw_at (pt_tx_window s) c)"
  proof
    fix c
    show "tw_at w c = (if unat c \<le> unat h then None else tw_at (pt_tx_window s) c)"
      using tx_held_okD(2)[OF held, of c] by (cases "tw_at (pt_tx_window s) c") (auto simp: w(3))
  qed
  define timer where "timer = pt_discard_timer s'"
  have s': "s' = acked_state s h w timer"
    using assms(2) False w(1) unfolding timer_def
    by (auto simp: stop_discard_timer_def acked_state_def set_discard_timer_def Let_def bind_eq_Some_conv' split: if_splits
        intro!: pdcp_entity_tx.equality)
  have "tx_held_ok s'"
    using tx_held_okD(2)[OF held] w(2) h
    by (auto simp: tx_held_ok_def s' acked_state_def at discard_finite_def discard_configured_def split: if_splits)
  moreover have "tx_vars_ok s'" "tx_cfg_ok s'"
    using vars cfg b h w(4,5) by (auto simp: s' acked_state_def tx_vars_ok_def tx_cfg_ok_def Let_def max_def u32_less_iff)
  ultimately show ?thesis
    using that(2)[OF s' _ b at] by (simp add: tx_inv_def)
qed

lemma stop_discard_timer_effect:
  assumes "tx_inv s" and "stop_discard_timer env s h = Some s'"
  shows "tx_effect s [] [] s'" and "pt_stopped s' = pt_stopped s" and "pt_crypto_reordering_timer s' = pt_crypto_reordering_timer s"
    and "ts_trans_crypto (pt_st s') = ts_trans_crypto (pt_st s)" and "ts_next (pt_st s') = ts_next (pt_st s)"
    and "ts_reord_crypto (pt_st s') = ts_reord_crypto (pt_st s)"
  using assms(1) by (cases rule: stop_discard_timer_ok[OF assms]; simp add: tx_effect_def; simp add: acked_state_def)+

lemma handle_transmit_notification_effect:
  assumes "tx_inv s" and "handle_transmit_notification_impl env s sn = Some s'"
  shows "tx_effect s [] [] s'" and "pt_stopped s' = pt_stopped s" and "pt_crypto_reordering_timer s' = pt_crypto_reordering_timer s"
    and "ts_trans_crypto (pt_st s') = ts_trans_crypto (pt_st s)" and "ts_next (pt_st s') = ts_next (pt_st s)"
    and "ts_reord_crypto (pt_st s') = ts_reord_crypto (pt_st s)"
proof -
  let ?n = "tx_notification_count_estimation s sn" and ?st = "pt_st s"
  let ?s = "s\<lparr>pt_st := ?st\<lparr>ts_trans := ?n + 1\<rparr>\<rparr>"
  have "tx_effect s [] [] s' \<and> pt_stopped s' = pt_stopped s \<and> pt_crypto_reordering_timer s' = pt_crypto_reordering_timer s
    \<and> ts_trans_crypto (pt_st s') = ts_trans_crypto ?st \<and> ts_next (pt_st s') = ts_next ?st
    \<and> ts_reord_crypto (pt_st s') = ts_reord_crypto ?st"
  proof (cases "s' = s")
    case True
    then show ?thesis
      using tx_effect_refl[OF assms(1)] by simp
  next
    case False
    then have b: "unat ?n < unat (ts_next ?st)" "unat (ts_trans ?st) \<le> unat ?n"
      and s': "s' = ?s \<or> stop_discard_timer env ?s ?n = Some s'"
      using assms(2) by (auto simp: handle_transmit_notification_impl_def Let_def u32_less_iff split: if_splits)
    have inv: "tx_inv ?s"
      using assms(1) b unat_inc[OF b(1)]
      by (auto simp: tx_inv_def tx_cfg_ok_def tx_held_ok_def tx_vars_ok_def discard_finite_def discard_configured_def Let_def)
    have "tx_effect s [] [] ?s"
      using inv by (simp add: tx_effect_def)
    then show ?thesis
      using s' stop_discard_timer_effect[OF inv] tx_effect_trans[of s "[]" "[]" ?s "[]" "[]" s'] by auto
  qed
  then show "tx_effect s [] [] s'" and "pt_stopped s' = pt_stopped s" and "pt_crypto_reordering_timer s' = pt_crypto_reordering_timer s"
    and "ts_trans_crypto (pt_st s') = ts_trans_crypto (pt_st s)" and "ts_next (pt_st s') = ts_next (pt_st s)"
    and "ts_reord_crypto (pt_st s') = ts_reord_crypto (pt_st s)"
    by simp_all
qed

lemma handle_delivery_notification_effect:
  assumes "tx_inv s" and "handle_delivery_notification_impl env s sn = Some s'"
  shows "tx_effect s [] [] s'" and "tx_timer_ok s \<Longrightarrow> tx_timer_ok s'"
proof -
  have "s' = s \<or> (\<exists>h. stop_discard_timer env s h = Some s')"
    using assms(2) by (auto simp: handle_delivery_notification_impl_def Let_def split: if_splits)
  then show "tx_effect s [] [] s'" and "tx_timer_ok s \<Longrightarrow> tx_timer_ok s'"
    using stop_discard_timer_effect[OF assms(1)] tx_effect_refl[OF assms(1)] by (auto simp: tx_timer_ok_def)
qed

section \<open>Order of transmission\<close>

lemma tx_inv_set_pdu:
  assumes "tx_inv s" and "tw_set_pdu (pt_tx_window s) c pdu = Some w"
  shows "tx_inv (s\<lparr>pt_tx_window := w\<rparr>)"
proof -
  have held: "tx_held_ok s"
    using assms by (simp add: tx_inv_def)
  obtain e where e: "tw_at (pt_tx_window s) c = Some e"
    using assms(2) by (auto simp: tw_set_pdu_def bind_eq_Some_conv')
  obtain v where "tw_set_pdu (pt_tx_window s) c pdu = Some v" "tw_wf (tx_win_bits s) v"
      "tw_at v = (tw_at (pt_tx_window s))(c \<mapsto> e\<lparr>we_pdu := pdu\<rparr>)"
      "tw_rb_type v = tw_rb_type (pt_tx_window s)" "tw_sn_size v = tw_sn_size (pt_tx_window s)"
    using tw_set_pdu_ok[OF tx_held_okD(1)[OF held] e] by metis
  then have w: "tw_wf (tx_win_bits s) w" "tw_at w = (tw_at (pt_tx_window s))(c \<mapsto> e\<lparr>we_pdu := pdu\<rparr>)"
      "tw_rb_type w = tw_rb_type (pt_tx_window s)" "tw_sn_size w = tw_sn_size (pt_tx_window s)"
    using assms(2) by simp_all
  have "tx_held_ok (s\<lparr>pt_tx_window := w\<rparr>)"
    using tx_held_okD(2)[OF held] w(1) e
    by (fastforce simp: tx_held_ok_def w(2) discard_finite_def discard_configured_def split: if_splits)
  then show ?thesis
    using assms(1) w(3,4) by (simp add: tx_inv_def tx_cfg_ok_def tx_vars_ok_def)
qed

lemma deliver_in_order_effect:
  assumes "tx_inv s" and "ts_trans_crypto (pt_st s) = c" and "deliver_in_order env r s c = Some (s', evs)"
  shows "tx_effect s evs [] s' \<and> ts_next (pt_st s') = ts_next (pt_st s) \<and> ts_reord_crypto (pt_st s') = ts_reord_crypto (pt_st s)
    \<and> pt_crypto_reordering_timer s' = pt_crypto_reordering_timer s \<and> pt_stopped s' = pt_stopped s"
  using assms
proof (induction env r s c arbitrary: s' evs rule: deliver_in_order.induct)
  case (1 env r s c)
  show ?case
  proof (cases "c < ts_next (pt_st s) \<and> map_option we_pdu (tw_at (pt_tx_window s) c) \<noteq> Some []")
    case False
    then have "s' = s" "evs = []"
      using 1(4) by (subst (asm) deliver_in_order.simps, auto simp: bind_eq_Some_conv' split: if_splits)+
    then show ?thesis
      using tx_effect_refl[OF 1(2)] by simp
  next
    case True
    then have lt: "unat c < unat (ts_next (pt_st s))"
      by (simp add: u32_less_iff)
    let ?next = "\<lambda>w. s\<lparr>pt_tx_window := w, pt_st := (pt_st s)\<lparr>ts_trans_crypto := c + 1\<rparr>\<rparr>"
    obtain e where e: "tw_at (pt_tx_window s) c = Some e" "we_pdu e \<noteq> []"
      using 1(4) True by (subst (asm) deliver_in_order.simps) (cases "tw_at (pt_tx_window s) c", auto)
    have "Option.bind (tw_set_pdu (pt_tx_window s) c []) (\<lambda>w. Option.bind
        (if txc_test_mode (pt_cfg s) then handle_transmit_notification env (?next w) (pt_SN s c) else Some (?next w))
        (\<lambda>s2. add_events [on_new_data_pdu c (we_pdu e) r] (deliver_in_order env r s2 (c + 1)))) = Some (s', evs)"
      using 1(4) True e by (subst (asm) deliver_in_order.simps) simp
    then obtain w s2 where w: "tw_set_pdu (pt_tx_window s) c [] = Some w"
      and s2: "(if txc_test_mode (pt_cfg s) then handle_transmit_notification env (?next w) (pt_SN s c) else Some (?next w)) = Some s2"
      and rest': "add_events [on_new_data_pdu c (we_pdu e) r] (deliver_in_order env r s2 (c + 1)) = Some (s', evs)"
      unfolding bind_eq_Some_conv' by blast
    obtain evs2 where rest: "deliver_in_order env r s2 (c + 1) = Some (s', evs2)" "evs = on_new_data_pdu c (we_pdu e) r # evs2"
      using rest' by (auto simp: add_events_def)
    let ?s1 = "s\<lparr>pt_tx_window := w, pt_st := (pt_st s)\<lparr>ts_trans_crypto := c + 1\<rparr>\<rparr>"
    have inv1: "tx_inv ?s1"
      using tx_inv_set_pdu[OF 1(2) w] unat_inc[OF lt] lt
      by (auto simp: tx_inv_def tx_cfg_ok_def tx_held_ok_def tx_vars_ok_def discard_finite_def discard_configured_def Let_def)
    have s2': "tx_effect ?s1 [] [] s2 \<and> ts_trans_crypto (pt_st s2) = c + 1 \<and> ts_next (pt_st s2) = ts_next (pt_st s)
        \<and> ts_reord_crypto (pt_st s2) = ts_reord_crypto (pt_st s)
        \<and> pt_crypto_reordering_timer s2 = pt_crypto_reordering_timer s \<and> pt_stopped s2 = pt_stopped s"
    proof (cases "s2 = ?s1")
      case True
      then show ?thesis
        using tx_effect_refl[OF inv1] by simp
    next
      case False
      then have "handle_transmit_notification_impl env ?s1 (pt_SN s c) = Some s2"
        using s2 by (auto simp: handle_transmit_notification_def split: if_splits)
      then show ?thesis
        using handle_transmit_notification_effect[OF inv1] by simp
    qed
    have IH: "tx_effect s2 evs2 [] s' \<and> ts_next (pt_st s') = ts_next (pt_st s2) \<and> ts_reord_crypto (pt_st s') = ts_reord_crypto (pt_st s2)
        \<and> pt_crypto_reordering_timer s' = pt_crypto_reordering_timer s2 \<and> pt_stopped s' = pt_stopped s2"
      using 1(1)[OF _ e w s2 _ _ rest(1)] True s2' by (auto simp: tx_effect_def)
    have "unat (ts_trans_crypto (pt_st s')) \<ge> Suc (unat c)"
      using IH s2' unat_inc[OF lt] by (simp add: tx_effect_def rising_def)
    then have "rising c (ts_trans_crypto (pt_st s')) (c # pdu_counts evs2)"
      using IH s2' by (intro rising_Cons) (simp_all add: tx_effect_def)
    then have "tx_effect s evs [] s'"
      using IH s2' 1(3) rest(2) by (auto simp: tx_effect_def)
    then show ?thesis
      using IH s2' by simp
  qed
qed

lemma tx_apply_reordering_effect:
  assumes "tx_inv s" and "tx_timer_ok s" and "tx_apply_reordering env s bi = Some (s', evs)"
  shows "tx_effect s evs [] s'" and "tx_timer_ok s'"
proof -
  have "tx_effect s evs [] s' \<and> tx_timer_ok s'"
  proof (cases "s' = s \<and> evs = []")
    case True
    then show ?thesis
      using tx_effect_refl assms by simp
  next
    case False
    then obtain w s1 where w: "tw_set_pdu (pt_tx_window s) (tb_count bi) (tb_buf bi) = Some w"
      and s1: "deliver_in_order env (tb_is_retx bi) (s\<lparr>pt_tx_window := w\<rparr>) (ts_trans_crypto (pt_st s)) = Some (s1, evs)"
      and s': "s' = (let s2 = (if pt_crypto_reordering_timer s1 \<and> ts_reord_crypto (pt_st s1) \<le> ts_trans_crypto (pt_st s1)
                    then s1\<lparr>pt_crypto_reordering_timer := False\<rparr> else s1)
          in if \<not> pt_crypto_reordering_timer s2 \<and> ts_trans_crypto (pt_st s2) < ts_next (pt_st s2)
             then s2\<lparr>pt_st := (pt_st s2)\<lparr>ts_reord_crypto := ts_next (pt_st s2)\<rparr>, pt_crypto_reordering_timer := True\<rparr> else s2)"
      using assms(3) by (auto simp: tx_apply_reordering_def Let_def bind_eq_Some_conv' split: if_splits)
    have eff: "tx_effect (s\<lparr>pt_tx_window := w\<rparr>) evs [] s1 \<and> ts_next (pt_st s1) = ts_next (pt_st s)
        \<and> ts_reord_crypto (pt_st s1) = ts_reord_crypto (pt_st s) \<and> pt_crypto_reordering_timer s1 = pt_crypto_reordering_timer s"
      using deliver_in_order_effect[OF tx_inv_set_pdu[OF assms(1) w] _ s1] by simp
    have "tx_inv s'" "pt_cfg s' = pt_cfg s1" "ts_trans_crypto (pt_st s') = ts_trans_crypto (pt_st s1)" "ts_next (pt_st s') = ts_next (pt_st s1)"
      using eff unfolding s'
      by (auto simp: Let_def tx_effect_def tx_inv_def tx_cfg_ok_def tx_held_ok_def tx_vars_ok_def discard_finite_def discard_configured_def)
    then have "tx_effect s evs [] s'"
      using eff by (simp add: tx_effect_def)
    moreover have "tx_timer_ok s'"
      using eff assms(2) unfolding s' by (auto simp: Let_def tx_timer_ok_def u32_less_iff)
    ultimately show ?thesis
      by simp
  qed
  then show "tx_effect s evs [] s'" and "tx_timer_ok s'"
    by simp_all
qed

end
