(* ===== verification/Pdcp_Rx_Reach.thy ===== *)
theory Pdcp_Rx_Reach
  imports Pdcp_Rx_Inv
begin

unbundle bit_operations_syntax

text \<open>
  The receiving PDCP entity among its executors: PDUs arrive, the tasks of the crypto and the UE
  executors run in any order, the timer expires, buffering and PDU processing are switched.  A step
  relation, the invariant of the reachable states, and the properties of every run.  The runs are those between two
  re-establishments: \<open>reestablish\<close>, \<open>suspend\<close>, \<open>resume\<close> and \<open>set_count\<close>, which reset the state variables, are not steps, and an
  entity whose processing is already halted is not stopped a second time.
\<close>

section \<open>The system\<close>

text \<open>
  \<open>rs_halted\<close> says that \<open>stop\<close> or \<open>notify_pdu_processing_stopped\<close> took back the token the entity
  itself holds.
\<close>

record pdcp_rx_sys =
  rs_ent :: pdcp_entity_rx
  rs_tasks :: "pdcp_rx_task list"
  rs_halted :: bool

definition remove_nth :: "nat \<Rightarrow> 'a list \<Rightarrow> 'a list" where
  "remove_nth i xs = take i xs @ drop (Suc i) xs"

text \<open>Fewer tasks are in flight than tokens can count.\<close>

definition max_rx_tasks :: nat where
  "max_rx_tasks = 2 ^ 31"

inductive rx_step :: "pdcp_rx_sys \<Rightarrow> pdcp_rx_event list \<Rightarrow> pdcp_rx_sys \<Rightarrow> bool" where
  step_pdu: "rx_handle_pdu env (rs_ent y) buf = Some (s', evs, ts) \<Longrightarrow>
     (rs_halted y \<Longrightarrow> pr_buffering (rs_ent y) \<or> pr_stopped (rs_ent y)) \<Longrightarrow>
     Suc (length (rs_tasks y)) < max_rx_tasks \<Longrightarrow>
     rx_step y evs (y\<lparr>rs_ent := s', rs_tasks := rs_tasks y @ ts\<rparr>)"
| step_task: "i < length (rs_tasks y) \<Longrightarrow>
     run_rx_task env (rs_ent y) (rs_tasks y ! i) = Some (s', evs, ts) \<Longrightarrow>
     rx_step y evs (y\<lparr>rs_ent := s', rs_tasks := remove_nth i (rs_tasks y) @ ts\<rparr>)"
| step_timer: "pr_reordering_timer (rs_ent y) \<Longrightarrow>
     reordering_callback env (rs_ent y) = Some (s', evs) \<Longrightarrow> rx_step y evs (y\<lparr>rs_ent := s'\<rparr>)"
| step_begin_buffering: "rx_step y [] (y\<lparr>rs_ent := rx_begin_buffering (rs_ent y)\<rparr>)"
| step_end_buffering: "rx_end_buffering env (rs_ent y) = Some (s', evs, ts) \<Longrightarrow> \<not> rs_halted y \<Longrightarrow>
     Suc (length (rs_tasks y) + rb_count (pr_pdu_buffer (rs_ent y))) < max_rx_tasks \<Longrightarrow>
     rx_step y evs (y\<lparr>rs_ent := s', rs_tasks := rs_tasks y @ ts\<rparr>)"
| step_configure: "configure_security (rs_ent y) sec_cfg integ ciph = Some s' \<Longrightarrow>
     rx_step y [] (y\<lparr>rs_ent := s'\<rparr>)"
| step_halt: "rx_notify_pdu_processing_stopped (rs_ent y) = Some s' \<Longrightarrow> \<not> rs_halted y \<Longrightarrow>
     rx_step y [] (y\<lparr>rs_ent := s', rs_halted := True\<rparr>)"
| step_restart: "rs_halted y \<Longrightarrow> \<not> pr_stopped (rs_ent y) \<Longrightarrow>
     rx_step y [] (y\<lparr>rs_ent := rx_restart_pdu_processing (rs_ent y), rs_halted := False\<rparr>)"
| step_stop: "rx_stop (rs_ent y) = Some s' \<Longrightarrow> \<not> rs_halted y \<Longrightarrow>
     rx_step y [] (y\<lparr>rs_ent := s', rs_halted := True\<rparr>)"

text \<open>A run and the calls it makes.\<close>

inductive rx_run :: "pdcp_rx_sys \<Rightarrow> pdcp_rx_event list \<Rightarrow> pdcp_rx_sys \<Rightarrow> bool" where
  run_refl: "rx_run y [] y"
| run_step: "rx_run y evs y1 \<Longrightarrow> rx_step y1 evs' y2 \<Longrightarrow> rx_run y (evs @ evs') y2"

inductive_cases rx_stepE: "rx_step y evs y'"

section \<open>The invariant\<close>

text \<open>
  The hard limit of COUNT leaves room for half the range of sequence numbers.
\<close>

definition max_count_ok :: "pdcp_rx_config \<Rightarrow> bool" where
  "max_count_ok cfg \<longleftrightarrow> unat (mc_hard (rxc_max_count cfg)) + half_range (rxc_sn_size cfg) \<le> 2 ^ 32"

fun task_ok :: "pdcp_entity_rx \<Rightarrow> pdcp_rx_task \<Rightarrow> bool" where
  "task_ok s (Crypto_task pi) \<longleftrightarrow>
     unat (pi_count pi) < unat (rx_deliv (pr_st s)) + half_range (rxc_sn_size (pr_cfg s))
     \<and> pi_count pi < mc_hard (rxc_max_count (pr_cfg s))"
| "task_ok s (Reorder_task pi) \<longleftrightarrow>
     unat (pi_count pi) < unat (rx_deliv (pr_st s)) + half_range (rxc_sn_size (pr_cfg s))
     \<and> pi_count pi < mc_hard (rxc_max_count (pr_cfg s))"
| "task_ok s (Failure_task status) \<longleftrightarrow> \<not> sec_is_success status"

definition tokens_ok :: "pdcp_rx_sys \<Rightarrow> bool" where
  "tokens_ok y \<longleftrightarrow> tm_tokens (pr_token_mngr (rs_ent y)) =
       of_nat (length (rs_tasks y)) - (if rs_halted y then 1 else 0)
     \<and> (tm_pending_set (pr_token_mngr (rs_ent y)) \<longleftrightarrow> rs_halted y \<and> rs_tasks y = [])
     \<and> length (rs_tasks y) < max_rx_tasks"

definition rx_sys_inv :: "pdcp_rx_sys \<Rightarrow> bool" where
  "rx_sys_inv y \<longleftrightarrow> rx_inv (rs_ent y) \<and> max_count_ok (pr_cfg (rs_ent y))
     \<and> (\<forall>t \<in> set (rs_tasks y). task_ok (rs_ent y) t) \<and> tokens_ok y
     \<and> (pr_stopped (rs_ent y) \<longrightarrow> rs_halted y)"

text \<open>Operations that do not touch the reception state.\<close>

definition rx_same :: "pdcp_entity_rx \<Rightarrow> pdcp_entity_rx \<Rightarrow> bool" where
  "rx_same s s' \<longleftrightarrow> pr_cfg s' = pr_cfg s \<and> pr_window_size s' = pr_window_size s
     \<and> pr_hdr_len_bytes s' = pr_hdr_len_bytes s \<and> pr_st s' = pr_st s \<and> pr_rx_window s' = pr_rx_window s
     \<and> pr_reordering_timer s' = pr_reordering_timer s \<and> pr_stopped s' = pr_stopped s"

lemma rx_same_refl [simp]: "rx_same s s"
  by (simp add: rx_same_def)

lemma rx_same_trans: "rx_same s s1 \<Longrightarrow> rx_same s1 s2 \<Longrightarrow> rx_same s s2"
  by (simp add: rx_same_def)

lemma rx_same_inv: "rx_same s s' \<Longrightarrow> rx_inv s' \<longleftrightarrow> rx_inv s"
  by (simp add: rx_same_def rx_inv_def rx_cfg_ok_def rx_window_inv_def win_counts_def rx_timer_inv_def)

lemma rx_same_task_ok: "rx_same s s' \<Longrightarrow> task_ok s' t \<longleftrightarrow> task_ok s t"
  by (cases t) (simp_all add: rx_same_def)

text \<open>The COUNT of a PDU that passes the limits lies in the receive window or before it.\<close>

lemma received_count_bound:
  assumes cfg: "rx_cfg_ok s" and mc: "max_count_ok (pr_cfg s)" and sn: "unat sn < 2 ^ sn_len (rxc_sn_size (pr_cfg s))"
    and c: "c = count_estimation (rxc_sn_size (pr_cfg s)) (pr_window_size s) (rx_deliv (pr_st s)) sn"
    and hard: "c < mc_hard (rxc_max_count (pr_cfg s))"
  shows "unat c < unat (rx_deliv (pr_st s)) + half_range (rxc_sn_size (pr_cfg s))"
proof -
  let ?sz = "rxc_sn_size (pr_cfg s)" and ?d = "rx_deliv (pr_st s)"
  let ?W = "half_range ?sz"
  have w: "pr_window_size s = of_nat ?W"
    using cfg by (simp add: rx_cfg_ok_def)
  have off: "unat (c - (?d - of_nat ?W)) < 2 * ?W"
    using count_estimation_window(2)[OF sn, of ?d] half_range_double[of ?sz] by (simp add: c w)
  have top: "unat c + ?W < 2 ^ 32"
    using hard mc by (simp add: max_count_ok_def word_less_nat_alt)
  have "c - (?d - of_nat ?W) = of_int (int (unat c + ?W) - int (unat ?d))"
    by simp
  then have eq: "uint (c - (?d - of_nat ?W)) = (int (unat c + ?W) - int (unat ?d)) mod 2 ^ 32"
    by (simp only: uint_of_int_u32)
  show ?thesis
  proof (rule ccontr)
    assume "\<not> ?thesis"
    then have ge: "unat ?d + ?W \<le> unat c"
      by simp
    moreover have "int (unat c + ?W) < 2 ^ 32"
      using top by (metis of_nat_less_iff of_nat_numeral of_nat_power)
    ultimately have "0 \<le> int (unat c + ?W) - int (unat ?d)" "int (unat c + ?W) - int (unat ?d) < 2 ^ 32"
      by linarith+
    then have "uint (c - (?d - of_nat ?W)) = int (unat c + ?W) - int (unat ?d)"
      using eq by simp
    then have "int (unat (c - (?d - of_nat ?W))) = int (unat c + ?W) - int (unat ?d)"
      by simp
    then show False
      using off ge by linarith
  qed
qed

lemma read_header_bound:
  assumes "read_data_pdu_header sz pdu = Some sn"
  shows "unat sn < 2 ^ sn_len sz"
proof (rule unat_below_take_bit, cases sz)
  case pdcp_size12bits
  then have "sn = push_bit 8 (ucast (pdu ! 0) AND mask 4) OR (ucast (pdu ! 1) AND mask 8)"
    using assms by (simp add: read_data_pdu_header_def mask_eq_exp_minus_1 split: if_splits)
  then show "take_bit (sn_len sz) sn = sn"
    by (auto intro!: bit_word_eqI simp: pdcp_size12bits bit_simps)
next
  case pdcp_size18bits
  then have "sn = push_bit 16 (ucast (pdu ! 0) AND mask 2) OR push_bit 8 (ucast (pdu ! 1) AND mask 8)
      OR (ucast (pdu ! 2) AND mask 8)"
    using assms by (simp add: read_data_pdu_header_def mask_eq_exp_minus_1 split: if_splits)
  then show "take_bit (sn_len sz) sn = sn"
    by (auto intro!: bit_word_eqI simp: pdcp_size18bits bit_simps)
qed (use assms in \<open>simp add: read_data_pdu_header_def\<close>)

section \<open>Tokens\<close>

text \<open>The token manager when \<open>n\<close> tasks hold a token.\<close>

definition tokens_of :: "bool \<Rightarrow> nat \<Rightarrow> token_manager" where
  "tokens_of halted n = \<lparr>tm_tokens = of_nat n - (if halted then 1 else 0), tm_pending_set = (halted \<and> n = 0)\<rparr>"

lemma tokens_ok_iff:
  "tokens_ok y \<longleftrightarrow> pr_token_mngr (rs_ent y) = tokens_of (rs_halted y) (length (rs_tasks y))
     \<and> length (rs_tasks y) < max_rx_tasks"
  by (cases "pr_token_mngr (rs_ent y)") (auto simp: tokens_ok_def tokens_of_def)

lemma of_nat_token:
  assumes "n < 2 ^ 31"
  shows "of_nat n \<noteq> (0xffffffff :: u32)" "(of_nat n :: u32) = 0 \<longleftrightarrow> n = 0" "of_nat n = (1 :: u32) \<longleftrightarrow> n = 1"
    "of_nat n - 1 = (0xffffffff :: u32) \<longleftrightarrow> n = 0"
proof -
  have n: "unat (of_nat n :: u32) = n"
    using assms by (simp add: unat_of_nat_u32)
  show "of_nat n \<noteq> (0xffffffff :: u32)" "(of_nat n :: u32) = 0 \<longleftrightarrow> n = 0" "of_nat n = (1 :: u32) \<longleftrightarrow> n = 1"
    using assms n by (auto simp: word_unat_eq_iff)
  show "of_nat n - 1 = (0xffffffff :: u32) \<longleftrightarrow> n = 0"
  proof (cases n)
    case (Suc m)
    then have "unat (of_nat n - 1 :: u32) = m"
      using assms by (simp add: unat_of_nat_u32)
    then show ?thesis
      using assms Suc by (auto simp: word_unat_eq_iff)
  qed simp
qed

lemma increment_tokens_of: "\<not> h \<Longrightarrow> increment_token (tokens_of h n) = tokens_of h (Suc n)"
  by (simp add: increment_token_def tokens_of_def)

lemma return_tokens_of:
  assumes "Suc n < max_rx_tasks"
  shows "return_token (tokens_of h (Suc n)) = Some (tokens_of h n)"
  using assms of_nat_token[of n] of_nat_token[of "Suc n"]
  by (auto simp: return_token_def tokens_of_def max_rx_tasks_def)

lemma stop_tokens_of:
  assumes "n < max_rx_tasks"
  shows "tm_stop (tokens_of False n) = Some (tokens_of True n)"
  using assms of_nat_token[of n] by (auto simp: tm_stop_def return_token_def tokens_of_def max_rx_tasks_def)

lemma start_tokens_of: "tm_start (tokens_of True n) = tokens_of False n"
  by (simp add: tm_start_def increment_token_def tokens_of_def)

section \<open>Reception keeps the invariant\<close>

lemma check_max_count_ok:
  assumes "check_max_count s c = (go, s1, evs)"
  shows "rx_same s s1" "pr_token_mngr s1 = pr_token_mngr s" "sdu_counts evs = []"
    "go \<longleftrightarrow> c < mc_hard (rxc_max_count (pr_cfg s))"
    "pr_pdu_buffer s1 = pr_pdu_buffer s" "pr_buffering s1 = pr_buffering s"
  using assms by (auto simp: check_max_count_def Let_def rx_same_def not_le split: if_splits)

definition pdu_effect :: "bool \<Rightarrow> nat \<Rightarrow> pdcp_entity_rx \<Rightarrow> pdcp_entity_rx \<Rightarrow> pdcp_rx_event list
    \<Rightarrow> pdcp_rx_task list \<Rightarrow> bool" where
  "pdu_effect h n s s' evs ts \<longleftrightarrow> rx_same s s' \<and> sdu_counts evs = [] \<and> (\<forall>t \<in> set ts. task_ok s t)
     \<and> pr_token_mngr s' = tokens_of h (n + length ts)
     \<and> (\<not> pr_buffering s \<longrightarrow> pr_pdu_buffer s' = pr_pdu_buffer s \<and> \<not> pr_buffering s')"

lemma handle_data_pdu_ok:
  assumes inv: "rx_inv s" and mc: "max_count_ok (pr_cfg s)" and n: "Suc n < max_rx_tasks"
    and tok: "pr_token_mngr s = tokens_of False n"
  shows "\<exists>s' evs ts. handle_data_pdu env s pdu = Some (s', evs, ts) \<and> length ts \<le> 1 \<and> pdu_effect False n s s' evs ts"
proof (cases "read_data_pdu_header (rxc_sn_size (pr_cfg s)) pdu")
  case None
  then show ?thesis
    using tok by (simp add: handle_data_pdu_def pdu_effect_def)
next
  case (Some sn)
  let ?c = "count_estimation (rxc_sn_size (pr_cfg s)) (pr_window_size s) (rx_deliv (pr_st s)) sn"
  obtain go s1 evs where chk: "check_max_count s ?c = (go, s1, evs)"
    by (metis prod_cases3)
  note C = check_max_count_ok[OF chk]
  show ?thesis
  proof (cases "length pdu \<le> pr_hdr_len_bytes s \<or> \<not> go")
    case True
    then show ?thesis
      using C tok Some by (auto simp: handle_data_pdu_def chk pdu_effect_def)
  next
    case False
    have bound: "unat ?c < unat (rx_deliv (pr_st s)) + half_range (rxc_sn_size (pr_cfg s))"
      using received_count_bound[OF _ mc read_header_bound[OF Some] refl] inv C(4) False by (simp add: rx_inv_def)
    let ?s2 = "s1\<lparr>pr_token_mngr := increment_token (pr_token_mngr s1)\<rparr>"
    have s2: "rx_same s ?s2" "pr_token_mngr ?s2 = tokens_of False (Suc n)"
      using C(1,2) tok by (simp_all add: rx_same_def increment_tokens_of)
    have s3: "drop_token ?s2 = Some (s1\<lparr>pr_token_mngr := tokens_of False n\<rparr>)"
      using s2(2) return_tokens_of[OF n] by (simp add: drop_token_def)
    show ?thesis
    proof (cases "env_crypto_accepts env pdu")
      case True
      then show ?thesis
        using False Some C s2 bound by (simp add: handle_data_pdu_def chk pdu_effect_def rx_same_def)
    next
      case rej: False
      have "handle_data_pdu env s pdu = Some (s1\<lparr>pr_token_mngr := tokens_of False n\<rparr>, evs, [])"
        using False rej Some s3 by (simp add: handle_data_pdu_def chk)
      then show ?thesis
        using C by (auto simp: pdu_effect_def rx_same_def)
    qed
  qed
qed

lemma rx_handle_pdu_ok:
  assumes inv: "rx_inv s" and mc: "max_count_ok (pr_cfg s)" and n: "Suc n < max_rx_tasks"
    and tok: "pr_token_mngr s = tokens_of h n" and h: "h \<Longrightarrow> pr_buffering s \<or> pr_stopped s"
  shows "\<exists>s' evs ts. rx_handle_pdu env s buf = Some (s', evs, ts) \<and> length ts \<le> 1 \<and> pdu_effect h n s s' evs ts"
proof -
  let ?resume = "pr_suspended s \<and> \<not> pr_resume_requested s"
  define s1 where "s1 = (if ?resume then s\<lparr>pr_resume_requested := True\<rparr> else s)"
  define evs1 where "evs1 = (if ?resume then [on_resume_required] else [])"
  have s1: "rx_same s s1" "pr_token_mngr s1 = pr_token_mngr s" "pr_buffering s1 = pr_buffering s"
      "pr_pdu_buffer s1 = pr_pdu_buffer s" "sdu_counts evs1 = []"
    by (simp_all add: s1_def evs1_def rx_same_def)
  have hp: "rx_handle_pdu env s buf = (if pr_stopped s then Some (s, [], [])
      else if pr_buffering s1 then Some (s1\<lparr>pr_pdu_buffer := snd (rb_try_push (pr_pdu_buffer s1) buf)\<rparr>, evs1, [])
      else if buf = [] \<or> \<not> env_copy_ok env buf then Some (s1, evs1, [])
      else map_option (\<lambda>(s2, evs2, ts). (s2, evs1 @ evs2, ts))
        (if pr_is_srb s1 \<or> pdcp_pdu_get_dc (hd buf) = pdcp_dc_data
         then handle_data_pdu env s1 buf else handle_control_pdu s1 buf))"
    by (simp add: rx_handle_pdu_def s1_def evs1_def Let_def)
  consider "pr_stopped s \<or> pr_buffering s \<or> buf = [] \<or> \<not> env_copy_ok env buf"
    | "\<not> pr_stopped s" "\<not> pr_buffering s" "buf \<noteq> []" "env_copy_ok env buf" "pr_is_srb s1 \<or> pdcp_pdu_get_dc (hd buf) = pdcp_dc_data"
    | "\<not> pr_stopped s" "\<not> pr_buffering s" "buf \<noteq> []" "env_copy_ok env buf" "\<not> (pr_is_srb s1 \<or> pdcp_pdu_get_dc (hd buf) = pdcp_dc_data)"
    by blast
  then show ?thesis
  proof cases
    case 1
    then show ?thesis
      using s1 tok unfolding hp by (auto simp: pdu_effect_def rx_same_def)
  next
    case 2
    then have "\<not> h"
      using h by blast
    then obtain s' evs ts where "handle_data_pdu env s1 buf = Some (s', evs, ts)" "length ts \<le> 1"
        "pdu_effect False n s1 s' evs ts"
      using handle_data_pdu_ok[of s1 n env buf] inv mc n tok s1(1,2) rx_same_inv[OF s1(1)] by (auto simp: rx_same_def)
    then show ?thesis
      using 2 s1 \<open>\<not> h\<close> rx_same_trans[OF s1(1)] rx_same_task_ok[OF s1(1)] unfolding hp by (auto simp: pdu_effect_def)
  next
    case 3
    then show ?thesis
      using s1 tok unfolding hp
      by (cases "pdcp_pdu_get_dc (hd buf)") (auto simp: handle_control_pdu_def Let_def pdu_effect_def)
  qed
qed

lemma flush_pdu_buffer_ok:
  assumes "rx_inv s" and "max_count_ok (pr_cfg s)" and "Suc (n + k) < max_rx_tasks"
    and "pr_token_mngr s = tokens_of False n" and "\<not> pr_buffering s"
    and "flush_pdu_buffer env k s = Some (s', evs, ts)"
  shows "rx_same s s' \<and> sdu_counts evs = [] \<and> (\<forall>t \<in> set ts. task_ok s t)
    \<and> pr_token_mngr s' = tokens_of False (n + length ts) \<and> length ts \<le> k"
  using assms
proof (induction k arbitrary: s n evs ts)
  case 0
  then show ?case
    by simp
next
  case (Suc k)
  obtain buf rb s1 evs1 ts1 evs2 ts2 where f: "rb_top (pr_pdu_buffer s) = Some buf" "rb_pop (pr_pdu_buffer s) = Some rb"
      "rx_handle_pdu env (s\<lparr>pr_pdu_buffer := rb\<rparr>) buf = Some (s1, evs1, ts1)"
      "flush_pdu_buffer env k s1 = Some (s', evs2, ts2)" "evs = evs1 @ evs2" "ts = ts1 @ ts2"
    using Suc.prems(6) by (auto simp: bind_eq_Some_conv')
  let ?s0 = "s\<lparr>pr_pdu_buffer := rb\<rparr>"
  have s0: "rx_same s ?s0"
    by (simp add: rx_same_def)
  have e1: "length ts1 \<le> 1" "pdu_effect False n ?s0 s1 evs1 ts1"
    using rx_handle_pdu_ok[of ?s0 n False env buf] Suc.prems rx_same_inv[OF s0] f(3) by auto
  have s1: "rx_same s s1" "\<not> pr_buffering s1" "pr_token_mngr s1 = tokens_of False (n + length ts1)"
    using e1(2) rx_same_trans[OF s0] Suc.prems(5) by (auto simp: pdu_effect_def)
  then have "rx_same s1 s' \<and> sdu_counts evs2 = [] \<and> (\<forall>t \<in> set ts2. task_ok s1 t)
      \<and> pr_token_mngr s' = tokens_of False (n + length ts1 + length ts2) \<and> length ts2 \<le> k"
    using Suc.IH[of s1 "n + length ts1" evs2 ts2] Suc.prems(1-3) rx_same_inv[OF s1(1)] e1(1) f(4)
    by (auto simp: rx_same_def)
  then show ?case
    using e1 s1 f(5,6) rx_same_trans[OF s1(1)] rx_same_task_ok[OF s1(1)] rx_same_task_ok[OF s0] Suc.prems(5)
    by (auto simp: pdu_effect_def add.assoc)
qed

section \<open>Tasks keep the invariant\<close>

lemma post_ue_task_ok:
  assumes tok: "pr_token_mngr s = tokens_of h (Suc n)" and n: "Suc n < max_rx_tasks"
  shows "\<exists>s' ts. post_ue_task env s t = Some (s', ts) \<and> rx_same s s' \<and> set ts \<subseteq> {t} \<and> length ts \<le> 1
    \<and> pr_token_mngr s' = tokens_of h (n + length ts)"
  using return_tokens_of[OF n, of h] tok by (auto simp: post_ue_task_def drop_token_def rx_same_def)

lemma pdcp_apply_security_ok:
  assumes tok: "pr_token_mngr s = tokens_of h (Suc n)" and n: "Suc n < max_rx_tasks"
    and ok: "task_ok s (Crypto_task pi)" and run: "pdcp_apply_security env s pi = Some (s', ts)"
  shows "rx_same s s' \<and> (\<forall>t \<in> set ts. task_ok s t) \<and> length ts \<le> 1 \<and> pr_token_mngr s' = tokens_of h (n + length ts)"
proof -
  obtain t where "post_ue_task env s t = Some (s', ts)" "task_ok s t"
    using run ok by (auto simp: pdcp_apply_security_def bind_eq_Some_conv' Let_def split: if_splits)
  then show ?thesis
    using post_ue_task_ok[OF tok n, of env t] by auto
qed

lemma reorder_task_ok:
  assumes inv: "rx_inv s" and mc: "max_count_ok (pr_cfg s)" and ok: "task_ok s (Reorder_task pi)"
  shows "\<exists>s' evs. apply_reordering env s pi = Some (s', evs) \<and> rx_delivers s s' evs"
proof (cases "unat (pi_count pi) < unat (rx_deliv (pr_st s)) \<or> win_at (pr_rx_window s) (pi_count pi) \<noteq> None")
  case True
  then show ?thesis
    using apply_reordering_drop[OF inv] inv by (simp add: rx_delivers_def)
next
  case False
  have "unat (pi_count pi) + 1 < 2 ^ 32"
    using ok mc half_range_bounds(1)[of "rxc_sn_size (pr_cfg s)"] by (simp add: max_count_ok_def word_less_nat_alt)
  then show ?thesis
    using apply_reordering_new[OF inv] ok False by simp
qed

lemma rx_delivers_task_ok: "rx_delivers s s' evs \<Longrightarrow> task_ok s t \<Longrightarrow> task_ok s' t"
  by (cases t) (auto simp: rx_delivers_def rx_frameD)

lemma rx_delivers_token: "rx_delivers s s' evs \<Longrightarrow> pr_token_mngr s' = pr_token_mngr s"
  by (auto simp: rx_delivers_def dest: rx_frameD(5))

lemma set_remove_nth: "set (remove_nth i xs) \<subseteq> set xs"
  by (auto simp: remove_nth_def dest: in_set_takeD in_set_dropD)

lemma length_remove_nth: "i < length xs \<Longrightarrow> Suc (length (remove_nth i xs)) = length xs"
  by (simp add: remove_nth_def)

section \<open>Every step keeps the invariant\<close>

definition step_effect :: "pdcp_rx_sys \<Rightarrow> pdcp_rx_event list \<Rightarrow> pdcp_rx_sys \<Rightarrow> bool" where
  "step_effect y evs y' \<longleftrightarrow> rx_sys_inv y' \<and> pr_cfg (rs_ent y') = pr_cfg (rs_ent y)
     \<and> unat (rx_deliv (pr_st (rs_ent y))) \<le> unat (rx_deliv (pr_st (rs_ent y')))
     \<and> counts_in (unat (rx_deliv (pr_st (rs_ent y)))) (unat (rx_deliv (pr_st (rs_ent y')))) evs"

lemma counts_in_none: "sdu_counts evs = [] \<Longrightarrow> counts_in lo hi evs"
  by (simp add: counts_in_def)

text \<open>A step that leaves the reception state alone and hands out and takes back tokens.\<close>

lemma same_step_effect:
  assumes inv: "rx_sys_inv y" and same: "rx_same (rs_ent y) s'" and "sdu_counts evs = []"
    and "\<forall>t \<in> set ts. task_ok (rs_ent y) t" and "pr_token_mngr s' = tokens_of h (length ts)"
    and "length ts < max_rx_tasks" and "pr_stopped s' \<longrightarrow> h"
  shows "step_effect y evs (y\<lparr>rs_ent := s', rs_tasks := ts, rs_halted := h\<rparr>)"
  using assms rx_same_inv[OF same] rx_same_task_ok[OF same] counts_in_none
  by (auto simp: step_effect_def rx_sys_inv_def tokens_ok_iff rx_same_def)

text \<open>A step of the entity that delivers.\<close>

lemma deliver_step_effect:
  assumes inv: "rx_sys_inv y" and del: "rx_delivers (rs_ent y) s' evs" and ts: "set ts \<subseteq> set (rs_tasks y)"
    and tok: "pr_token_mngr s'' = tokens_of (rs_halted y) (length ts)" and "length ts < max_rx_tasks"
    and same: "rx_same s' s''"
  shows "step_effect y evs (y\<lparr>rs_ent := s'', rs_tasks := ts\<rparr>)"
proof -
  have "rx_frame (rs_ent y) s'" "rx_inv s'"
    using del by (simp_all add: rx_delivers_def)
  moreover have "\<forall>t \<in> set ts. task_ok s'' t"
    using inv ts rx_delivers_task_ok[OF del] rx_same_task_ok[OF same] by (auto simp: rx_sys_inv_def)
  ultimately show ?thesis
    using assms rx_same_inv[OF same] rx_frameD(1,4)[of "rs_ent y" s']
    by (auto simp: step_effect_def rx_sys_inv_def tokens_ok_iff rx_delivers_def rx_same_def)
qed

lemma rx_step_task_effect:
  assumes inv: "rx_sys_inv y" and i: "i < length (rs_tasks y)"
    and run: "run_rx_task env (rs_ent y) (rs_tasks y ! i) = Some (s', evs, ts)"
  shows "step_effect y evs (y\<lparr>rs_ent := s', rs_tasks := remove_nth i (rs_tasks y) @ ts\<rparr>)"
proof -
  let ?s = "rs_ent y" and ?rest = "remove_nth i (rs_tasks y)"
  obtain n where n: "length (rs_tasks y) = Suc n" "length ?rest = n" "Suc n < max_rx_tasks"
    using length_remove_nth[OF i] inv by (auto simp: rx_sys_inv_def tokens_ok_iff)
  have tok: "pr_token_mngr ?s = tokens_of (rs_halted y) (Suc n)"
    using inv n by (simp add: rx_sys_inv_def tokens_ok_iff)
  have ri: "rx_inv ?s" and mc: "max_count_ok (pr_cfg ?s)" and ok: "task_ok ?s (rs_tasks y ! i)"
    and rest: "\<forall>t \<in> set ?rest. task_ok ?s t" and hs: "pr_stopped ?s \<longrightarrow> rs_halted y"
    using inv i set_remove_nth[of i "rs_tasks y"] by (auto simp: rx_sys_inv_def)
  have drop: "drop_token s = Some (s\<lparr>pr_token_mngr := tokens_of (rs_halted y) n\<rparr>)"
    if "pr_token_mngr s = tokens_of (rs_halted y) (Suc n)" for s
    using that return_tokens_of[OF n(3)] by (simp add: drop_token_def)
  show ?thesis
  proof (cases "rs_tasks y ! i")
    case (Crypto_task pi)
    then have "pdcp_apply_security env ?s pi = Some (s', ts)" "evs = []"
      using run by (auto simp: run_rx_task_def)
    then have e: "rx_same ?s s'" "\<forall>t \<in> set ts. task_ok ?s t" "length ts \<le> 1"
        "pr_token_mngr s' = tokens_of (rs_halted y) (n + length ts)" "evs = []"
      using pdcp_apply_security_ok[OF tok n(3), of pi env s' ts] ok Crypto_task by auto
    show ?thesis
      using same_step_effect[OF inv e(1), of evs "?rest @ ts" "rs_halted y"] e rest n hs by (auto simp: rx_same_def)
  next
    case (Reorder_task pi)
    obtain s1 evs1 where r: "apply_reordering env ?s pi = Some (s1, evs1)" "rx_delivers ?s s1 evs1"
      using reorder_task_ok[OF ri mc ok[unfolded Reorder_task]] by blast
    then have "pr_token_mngr s1 = tokens_of (rs_halted y) (Suc n)"
      using tok rx_delivers_token by metis
    then have e: "s' = s1\<lparr>pr_token_mngr := tokens_of (rs_halted y) n\<rparr>" "evs = evs1" "ts = []"
      using run r(1) Reorder_task drop by (auto simp: run_rx_task_def)
    show ?thesis
      using deliver_step_effect[OF inv r(2), of ?rest s'] set_remove_nth[of i "rs_tasks y"] e n by (simp add: rx_same_def)
  next
    case (Failure_task status)
    then have e: "s' = ?s\<lparr>pr_token_mngr := tokens_of (rs_halted y) n\<rparr>" "evs = security_failure_events status" "ts = []"
      using run drop[OF tok] by (auto simp: run_rx_task_def)
    then have "sdu_counts evs = []"
      by (simp add: security_failure_events_def)
    then show ?thesis
      using same_step_effect[OF inv, of s' evs ?rest "rs_halted y"] e rest n hs by (simp add: rx_same_def)
  qed
qed

lemma reordering_callback_ok:
  assumes inv: "rx_inv s" and run: "pr_reordering_timer s"
  shows "\<exists>s' evs. reordering_callback env s = Some (s', evs) \<and> rx_delivers s s' evs
    \<and> (\<not> pr_stopped s \<longrightarrow> unat (rx_reord (pr_st s)) \<le> unat (rx_deliv (pr_st s')))"
proof -
  let ?s1 = "s\<lparr>pr_reordering_timer := False\<rparr>"
  have cfg: "rx_cfg_ok ?s1" and wi: "rx_window_inv ?s1" and ti: "rx_timer_inv s"
    using inv by (simp_all add: rx_inv_def rx_cfg_ok_def rx_window_inv_def win_counts_def)
  show ?thesis
  proof (cases "pr_stopped s")
    case True
    then have "rx_inv ?s1"
      using cfg wi ti by (simp add: rx_inv_def rx_timer_inv_def)
    then show ?thesis
      using True by (simp add: reordering_callback_def rx_delivers_def rx_frame_updates)
  next
    case False
    obtain s' evs where e: "handle_t_reordering_expire env ?s1 = Some (s', evs)" "rx_delivers ?s1 s' evs"
        "unat (rx_reord (pr_st s)) \<le> unat (rx_deliv (pr_st s'))"
      using handle_t_reordering_expire_delivers[OF cfg wi, of env] ti run by (auto simp: rx_timer_inv_def)
    moreover have "rx_delivers s s' evs"
      using e(2) rx_frame_trans[OF rx_frame_updates(1)] by (auto simp: rx_delivers_def)
    ultimately show ?thesis
      using False by (simp add: reordering_callback_def)
  qed
qed

lemma configure_security_same:
  "configure_security s sec_cfg integ ciph = Some s' \<Longrightarrow> rx_same s s' \<and> pr_token_mngr s' = pr_token_mngr s"
  by (auto simp: configure_security_def rx_same_def split: if_splits)

lemma sys_update_triv: "y\<lparr>rs_ent := s, rs_tasks := rs_tasks y, rs_halted := rs_halted y\<rparr> = y\<lparr>rs_ent := s\<rparr>"
  "y\<lparr>rs_ent := s, rs_tasks := ts, rs_halted := rs_halted y\<rparr> = y\<lparr>rs_ent := s, rs_tasks := ts\<rparr>"
  "y\<lparr>rs_ent := s, rs_tasks := rs_tasks y, rs_halted := h\<rparr> = y\<lparr>rs_ent := s, rs_halted := h\<rparr>"
  by simp_all

lemma rx_step_effect:
  assumes "rx_step y evs y'" and inv: "rx_sys_inv y"
  shows "step_effect y evs y'"
  using assms(1)
proof cases
  case (step_pdu env buf s' ts)
  have "pdu_effect (rs_halted y) (length (rs_tasks y)) (rs_ent y) s' evs ts" "length ts \<le> 1"
    using rx_handle_pdu_ok[of "rs_ent y" "length (rs_tasks y)" "rs_halted y" env buf] step_pdu inv
    by (auto simp: rx_sys_inv_def tokens_ok_iff)
  then show ?thesis
    using same_step_effect[OF inv, of s' evs "rs_tasks y @ ts" "rs_halted y"] step_pdu inv
    by (auto simp: pdu_effect_def rx_sys_inv_def rx_same_def)
next
  case (step_task i env s' ts)
  then show ?thesis
    using rx_step_task_effect[OF inv] by simp
next
  case (step_timer env s')
  have "rx_delivers (rs_ent y) s' evs"
    using reordering_callback_ok[of "rs_ent y" env] step_timer inv by (auto simp: rx_sys_inv_def)
  moreover have "pr_token_mngr s' = tokens_of (rs_halted y) (length (rs_tasks y))"
    using rx_delivers_token[OF calculation] inv by (simp add: rx_sys_inv_def tokens_ok_iff)
  ultimately show ?thesis
    using deliver_step_effect[OF inv, of s' evs "rs_tasks y" s'] step_timer inv by (simp add: rx_sys_inv_def tokens_ok_iff)
next
  case step_begin_buffering
  then show ?thesis
    using same_step_effect[OF inv, of "rx_begin_buffering (rs_ent y)" "[]" "rs_tasks y" "rs_halted y"] inv
    by (simp add: rx_begin_buffering_def rx_sys_inv_def tokens_ok_iff rx_same_def)
next
  case (step_end_buffering env s' ts)
  let ?s0 = "(rs_ent y)\<lparr>pr_buffering := False\<rparr>"
  have same0: "rx_same (rs_ent y) ?s0"
    by (simp add: rx_same_def)
  have e: "rx_same ?s0 s'" "sdu_counts evs = []" "\<forall>t \<in> set ts. task_ok ?s0 t"
      "pr_token_mngr s' = tokens_of False (length (rs_tasks y) + length ts)" "length ts \<le> rb_count (pr_pdu_buffer (rs_ent y))"
    using flush_pdu_buffer_ok[of ?s0 "length (rs_tasks y)" "rb_count (pr_pdu_buffer (rs_ent y))" env s' evs ts]
      step_end_buffering inv rx_same_inv[OF same0] by (auto simp: rx_end_buffering_def rx_sys_inv_def tokens_ok_iff)
  have "step_effect y evs (y\<lparr>rs_ent := s', rs_tasks := rs_tasks y @ ts, rs_halted := rs_halted y\<rparr>)"
    by (rule same_step_effect[OF inv rx_same_trans[OF same0 e(1)] e(2)])
      (use e step_end_buffering inv rx_same_task_ok[OF same0] in \<open>auto simp: rx_sys_inv_def rx_same_def\<close>)
  then show ?thesis
    using step_end_buffering(1) by simp
next
  case (step_configure sec_cfg integ ciph s')
  then show ?thesis
    using same_step_effect[OF inv, of s' "[]" "rs_tasks y" "rs_halted y"] configure_security_same[OF step_configure(3)] inv
    by (auto simp: rx_sys_inv_def tokens_ok_iff rx_same_def)
next
  case (step_halt s')
  then have "s' = (rs_ent y)\<lparr>pr_token_mngr := tokens_of True (length (rs_tasks y))\<rparr>"
    using inv stop_tokens_of[of "length (rs_tasks y)"]
    by (auto simp: rx_notify_pdu_processing_stopped_def rx_sys_inv_def tokens_ok_iff)
  then show ?thesis
    using same_step_effect[OF inv, of s' "[]" "rs_tasks y" True] step_halt inv
    by (simp add: rx_sys_inv_def tokens_ok_iff rx_same_def)
next
  case step_restart
  then have "rx_restart_pdu_processing (rs_ent y) = (rs_ent y)\<lparr>pr_token_mngr := tokens_of False (length (rs_tasks y))\<rparr>"
    using inv start_tokens_of by (simp add: rx_restart_pdu_processing_def rx_sys_inv_def tokens_ok_iff)
  then show ?thesis
    using same_step_effect[OF inv, of "rx_restart_pdu_processing (rs_ent y)" "[]" "rs_tasks y" False] step_restart inv
    by (simp add: rx_sys_inv_def tokens_ok_iff rx_same_def)
next
  case (step_stop s')
  then have s': "s' = (rs_ent y)\<lparr>pr_stopped := True, pr_reordering_timer := False,
      pr_token_mngr := tokens_of True (length (rs_tasks y))\<rparr>"
    using inv stop_tokens_of[of "length (rs_tasks y)"] by (auto simp: rx_stop_def rx_sys_inv_def tokens_ok_iff)
  have "rx_inv s'"
    using inv by (simp add: s' rx_sys_inv_def rx_inv_def rx_cfg_ok_def rx_window_inv_def win_counts_def rx_timer_inv_def)
  moreover have "task_ok s' t \<longleftrightarrow> task_ok (rs_ent y) t" for t
    by (cases t) (simp_all add: s')
  ultimately show ?thesis
    using step_stop inv by (simp add: step_effect_def rx_sys_inv_def tokens_ok_iff s')
qed

lemma rx_run_effect: "rx_run y evs y' \<Longrightarrow> rx_sys_inv y \<Longrightarrow> step_effect y evs y'"
proof (induction rule: rx_run.induct)
  case (run_refl y)
  then show ?case
    by (simp add: step_effect_def)
next
  case (run_step y evs y1 evs' y2)
  then have "step_effect y evs y1" "step_effect y1 evs' y2"
    using rx_step_effect by (auto simp: step_effect_def)
  then show ?case
    using counts_in_append by (auto simp: step_effect_def)
qed

section \<open>Every run of an entity\<close>

definition rx_sys_new :: "pdcp_entity_rx \<Rightarrow> pdcp_rx_sys" where
  "rx_sys_new s = \<lparr>rs_ent = s, rs_tasks = [], rs_halted = False\<rparr>"

text \<open>A configuration: t-Reordering is a duration or infinity, and the hard limit leaves room.\<close>

definition rx_config_ok :: "pdcp_rx_config \<Rightarrow> bool" where
  "rx_config_ok cfg \<longleftrightarrow> - 1 \<le> rxc_t_reordering cfg \<and> max_count_ok cfg"

lemma init_header_decompression_same: "rx_same s (init_header_decompression env s)"
  "pr_token_mngr (init_header_decompression env s) = pr_token_mngr s"
  by (simp_all add: init_header_decompression_def rx_same_def)

lemma pdcp_entity_rx_new_state:
  assumes "pdcp_entity_rx_new env b cfg nw = Some s"
  shows "pr_cfg s = cfg" "valid_sn_size (rxc_sn_size cfg)"
    "pdcp_data_pdu_header_size (rxc_sn_size cfg) = Some (pr_hdr_len_bytes s)"
    "pr_window_size s = of_nat (half_range (rxc_sn_size cfg))" "pr_st s = rx_state_zero"
    "cm_wf (sn_len (rxc_sn_size cfg) - 1) (pr_rx_window s)" "win_at (pr_rx_window s) c = None"
    "\<not> pr_reordering_timer s" "\<not> pr_stopped s" "pr_token_mngr s = tokens_of False 0"
proof -
  let ?sz = "rxc_sn_size cfg"
  show valid: "valid_sn_size ?sz"
    using assms by (cases ?sz) (auto simp: pdcp_entity_rx_new_def valid_sn_size_def)
  obtain hl w s0 where s0: "pdcp_data_pdu_header_size ?sz = Some hl" "cm_init (half_range ?sz) = Some w"
    "s = init_header_decompression env s0" "pr_cfg s0 = cfg" "pr_hdr_len_bytes s0 = hl"
    "pr_window_size s0 = of_nat (half_range ?sz)" "pr_st s0 = rx_state_zero" "pr_rx_window s0 = w"
    "\<not> pr_reordering_timer s0" "\<not> pr_stopped s0" "pr_token_mngr s0 = tokens_of False 0"
    using assms window_size_half_range(1)[OF valid] window_size_half_range(2)[of ?sz] half_range_bounds(2)[of ?sz]
    by (auto simp: pdcp_entity_rx_new_def bind_eq_Some_conv' unat_of_nat_u32 tokens_of_def split: if_splits)
  have w: "cm_wf (sn_len ?sz - 1) w" "win_at w c = None"
    using cm_init_pow2[of "sn_len ?sz - 1", where ?'a = pdcp_rx_sdu_info] s0(2)
    by (auto simp: win_at_def half_range_def)
  have "rx_same s0 s" "pr_token_mngr s = pr_token_mngr s0"
    using s0(3) init_header_decompression_same(1)[of s0 env] init_header_decompression_same(2)[of env s0] by simp_all
  then show "pr_cfg s = cfg" "pdcp_data_pdu_header_size ?sz = Some (pr_hdr_len_bytes s)"
    "pr_window_size s = of_nat (half_range ?sz)" "pr_st s = rx_state_zero"
    "cm_wf (sn_len ?sz - 1) (pr_rx_window s)" "win_at (pr_rx_window s) c = None"
    "\<not> pr_reordering_timer s" "\<not> pr_stopped s" "pr_token_mngr s = tokens_of False 0"
    using s0 w by (simp_all add: rx_same_def)
qed

lemma pdcp_entity_rx_new_inv:
  assumes "pdcp_entity_rx_new env b cfg nw = Some s" and "rx_config_ok cfg"
  shows "rx_sys_inv (rx_sys_new s)" "pr_cfg s = cfg" "rx_deliv (pr_st s) = 0"
  using pdcp_entity_rx_new_state[OF assms(1)] assms(2)
  by (simp_all add: rx_sys_inv_def rx_sys_new_def rx_inv_def rx_cfg_ok_def rx_window_inv_def win_counts_def
      rx_timer_inv_def rx_state_zero_def rx_config_ok_def tokens_ok_iff max_rx_tasks_def)

lemma rx_run_inv:
  assumes "pdcp_entity_rx_new env b cfg nw = Some s" and "rx_config_ok cfg" and "rx_run (rx_sys_new s) evs y"
  shows "rx_sys_inv y" "counts_in 0 (unat (rx_deliv (pr_st (rs_ent y)))) evs" "pr_cfg (rs_ent y) = cfg"
  using rx_run_effect[OF assms(3)] pdcp_entity_rx_new_inv[OF assms(1,2)]
  by (auto simp: step_effect_def rx_sys_new_def)

section \<open>Concrete runs\<close>

text \<open>PDUs handled one after the other, each with its tasks run to the end.\<close>

fun rx_finish :: "pdcp_env \<Rightarrow> nat \<Rightarrow> pdcp_entity_rx \<Rightarrow> pdcp_rx_task list
    \<Rightarrow> (pdcp_entity_rx \<times> pdcp_rx_event list) option" where
  "rx_finish env n s [] = Some (s, [])"
| "rx_finish env 0 s (t # ts) = None"
| "rx_finish env (Suc n) s (t # ts) = Option.bind (run_rx_task env s t) (\<lambda>(s1, evs, ts1).
     add_events evs (rx_finish env n s1 (ts @ ts1)))"

fun rx_feed :: "pdcp_env \<Rightarrow> pdcp_entity_rx \<Rightarrow> bytes list \<Rightarrow> (pdcp_entity_rx \<times> pdcp_rx_event list) option" where
  "rx_feed env s [] = Some (s, [])"
| "rx_feed env s (pdu # pdus) = Option.bind (rx_handle_pdu env s pdu) (\<lambda>(s1, evs1, ts).
     Option.bind (rx_finish env (Suc (Suc 0)) s1 ts) (\<lambda>(s2, evs2). add_events (evs1 @ evs2) (rx_feed env s2 pdus)))"

lemma rx_run_trans: "rx_run y1 evs' y2 \<Longrightarrow> rx_run y evs y1 \<Longrightarrow> rx_run y (evs @ evs') y2"
  by (induction rule: rx_run.induct) (auto simp: run_step simp flip: append_assoc)

lemma rx_run_single: "rx_step y evs y' \<Longrightarrow> rx_run y evs y'"
  using run_step[OF run_refl] by simp

lemma rx_finish_run:
  "rx_finish env n s ts = Some (s', evs) \<Longrightarrow>
     rx_run \<lparr>rs_ent = s, rs_tasks = ts, rs_halted = h\<rparr> evs \<lparr>rs_ent = s', rs_tasks = [], rs_halted = h\<rparr>"
proof (induction env n s ts arbitrary: evs rule: rx_finish.induct)
  case (3 env n s t ts)
  then obtain s1 evs1 ts1 evs2 where r: "run_rx_task env s t = Some (s1, evs1, ts1)"
      "rx_finish env n s1 (ts @ ts1) = Some (s', evs2)" "evs = evs1 @ evs2"
    by (auto simp: bind_eq_Some_conv' add_events_def)
  have "rx_step \<lparr>rs_ent = s, rs_tasks = t # ts, rs_halted = h\<rparr> evs1 \<lparr>rs_ent = s1, rs_tasks = ts @ ts1, rs_halted = h\<rparr>"
    using step_task[of 0 "\<lparr>rs_ent = s, rs_tasks = t # ts, rs_halted = h\<rparr>" env s1 evs1 ts1] r(1)
    by (simp add: remove_nth_def)
  then show ?case
    using rx_run_trans[OF 3(1)[OF r(1) refl refl r(2)] rx_run_single] r(3) by simp
qed (auto intro: run_refl)

lemma rx_feed_run:
  "rx_feed env s pdus = Some (s', evs) \<Longrightarrow> rx_run (rx_sys_new s) evs (rx_sys_new s')"
proof (induction env s pdus arbitrary: evs rule: rx_feed.induct)
  case (2 env s pdu pdus)
  then obtain s1 evs1 ts s2 evs2 evs3 where r: "rx_handle_pdu env s pdu = Some (s1, evs1, ts)"
      "rx_finish env (Suc (Suc 0)) s1 ts = Some (s2, evs2)" "rx_feed env s2 pdus = Some (s', evs3)" "evs = (evs1 @ evs2) @ evs3"
    by (auto simp: bind_eq_Some_conv' add_events_def)
  have "rx_step (rx_sys_new s) evs1 \<lparr>rs_ent = s1, rs_tasks = ts, rs_halted = False\<rparr>"
    using step_pdu[of env "rx_sys_new s" pdu s1 evs1 ts] r(1) by (simp add: rx_sys_new_def max_rx_tasks_def)
  then have "rx_run (rx_sys_new s) (evs1 @ evs2) (rx_sys_new s2)"
    using rx_run_trans[OF rx_finish_run[OF r(2)] rx_run_single] by (simp add: rx_sys_new_def)
  moreover have "rx_run (rx_sys_new s2) evs3 (rx_sys_new s')"
    using 2(1)[OF r(1) refl refl r(2) refl r(3)] .
  ultimately show ?case
    using rx_run_trans r(4) by blast
qed (auto intro: run_refl)

text \<open>A DRB with 12-bit sequence numbers and a hard limit that leaves room; two crypto workers.\<close>

definition demo_rx_cfg :: pdcp_rx_config where
  "demo_rx_cfg = \<lparr>rxc_rb_type = pdcp_drb, rxc_rlc_mode = pdcp_am, rxc_sn_size = pdcp_size12bits,
     rxc_direction = pdcp_uplink, rxc_header_compression = False, rxc_t_reordering = 10,
     rxc_max_count = \<lparr>mc_notify = pdcp_rx_default_max_count_notify, mc_hard = pdcp_rx_default_max_count_hard\<rparr>\<rparr>"

definition demo_env :: pdcp_env where
  "demo_env = \<lparr>env_prims = demo_prims, env_decompress = (\<lambda>hist p. (p, [])), env_rohc_ok = True,
     env_copy_ok = (\<lambda>_. True), env_crypto_accepts = (\<lambda>_. True), env_ue_accepts = True, env_worker_idx = 0\<rparr>"

definition demo_rx :: "pdcp_entity_rx option" where
  "demo_rx = pdcp_entity_rx_new demo_env 3 demo_rx_cfg 2"

definition demo_rx_run :: "bytes list \<Rightarrow> (u32 \<times> bool \<times> pdcp_rx_event list) option" where
  "demo_rx_run pdus = Option.bind demo_rx (\<lambda>s. map_option (\<lambda>(s', evs). (rx_deliv (pr_st s'),
     pr_reordering_timer s' \<and> \<not> pr_stopped s' \<and> pr_rohc_decomp s' = None, evs)) (rx_feed demo_env s pdus))"

lemmas rx_eval = pdcp_entity_rx_new_def pdcp_window_size_bits_def pcdp_sn_cardinality_def cm_init_def
  init_header_decompression_def rx_handle_pdu_def handle_data_pdu_def handle_control_pdu_def
  read_data_pdu_header_def count_estimation_def pdcp_compute_sn_def pdcp_compute_hfn_def pdcp_compute_count_def
  check_max_count_def increment_token_def return_token_def drop_token_def run_rx_task_def pdcp_apply_security_def
  apply_deciphering_and_integrity_check_def post_ue_task_def sec_is_success_def apply_reordering_def
  update_rx_next_def update_reordering_def store_sdu_def start_reordering_def pdcp_t_reordering_infinity_def
  deliver_all_consecutive_counts.simps set_rx_deliv_def add_events_def deliver_sdu_def apply_header_decompression_def
  has_sn_def add_sn_def remove_sn_def win_at_def cm_contains_def cm_overwrite_def cm_insert_def cm_erase_def cm_at_def
  get_circular_idx_def rx_state_zero_def pr_is_srb_def pdcp_pdu_get_dc_def Let_def

lemma demo_rx_run_value:
  "demo_rx_run [[0x80, 1, 0xB1], [0x80, 1, 0xB1], [0x80, 0, 0xB0], [0x80, 3, 0xB3]] =
     Some (2, True, [on_new_sdu 0 [0xB0] False, on_new_sdu 1 [0xB1] False])"
  by (simp add: demo_rx_run_def demo_rx_def demo_env_def demo_rx_cfg_def rx_eval word_le_nat_alt word_less_nat_alt
      pdcp_rx_default_max_count_hard_def pdcp_rx_default_max_count_notify_def cong: eval_congs split del: if_split)

lemma demo_rx_runs:
  obtains s s' where "pdcp_entity_rx_new demo_env 3 demo_rx_cfg 2 = Some s" and "rx_deliv (pr_st s') = 2"
    and "rx_run (rx_sys_new s) [on_new_sdu 0 [0xB0] False, on_new_sdu 1 [0xB1] False] (rx_sys_new s')"
    and "pr_reordering_timer s'" and "\<not> pr_stopped s'" and "pr_rohc_decomp s' = None"
proof -
  obtain s s' where r: "demo_rx = Some s" "rx_deliv (pr_st s') = 2"
    "rx_feed demo_env s [[0x80, 1, 0xB1], [0x80, 1, 0xB1], [0x80, 0, 0xB0], [0x80, 3, 0xB3]] =
      Some (s', [on_new_sdu 0 [0xB0] False, on_new_sdu 1 [0xB1] False])"
    "pr_reordering_timer s'" "\<not> pr_stopped s'" "pr_rohc_decomp s' = None"
    using demo_rx_run_value by (auto simp: demo_rx_run_def bind_eq_Some_conv' simp del: rx_feed.simps)
  show ?thesis
    using that[OF r(1)[unfolded demo_rx_def] r(2) rx_feed_run[OF r(3)] r(4-6)] .
qed

lemma demo_rx_config_ok: "rx_config_ok demo_rx_cfg"
  by (simp add: rx_config_ok_def max_count_ok_def demo_rx_cfg_def half_range_def pdcp_rx_default_max_count_hard_def)

section \<open>Properties of every run\<close>

text \<open>
  C4: In-order delivery without duplicates: in every run of a receiving PDCP entity (PDUs in any order, with
  any content and any losses and repetitions, crypto tasks finishing in any order, t-Reordering expiring
  at any time, buffering, security reconfiguration, halting and stopping), the SDUs handed to the upper
  layers have strictly increasing COUNTs, all of them below RX_DELIV.  The hard limit on COUNT leaves room for half the
  range of sequence numbers.
\<close>

theorem pdcp_rx_in_order:
  assumes "pdcp_entity_rx_new env b cfg nw = Some s" and "rx_config_ok cfg" and "rx_run (rx_sys_new s) evs y"
  shows "sorted_wrt (<) (map unat (sdu_counts evs)) \<and> distinct (sdu_counts evs)
    \<and> (\<forall>c \<in> set (sdu_counts evs). unat c < unat (rx_deliv (pr_st (rs_ent y))))"
proof -
  have "counts_in 0 (unat (rx_deliv (pr_st (rs_ent y)))) evs"
    by (rule rx_run_inv[OF assms])
  then show ?thesis
    by (auto simp: counts_in_def strict_sorted_iff distinct_map)
qed

theorem pdcp_rx_in_order_witness:
  "\<exists>s y evs. pdcp_entity_rx_new demo_env 3 demo_rx_cfg 2 = Some s \<and> rx_run (rx_sys_new s) evs y
    \<and> sdu_counts evs = [0, 1] \<and> sorted_wrt (<) (map unat (sdu_counts evs)) \<and> distinct (sdu_counts evs)
    \<and> (\<exists>c \<in> set (sdu_counts evs). unat c < unat (rx_deliv (pr_st (rs_ent y))))"
proof -
  obtain s s' where s: "pdcp_entity_rx_new demo_env 3 demo_rx_cfg 2 = Some s"
      "rx_run (rx_sys_new s) [on_new_sdu 0 [0xB0] False, on_new_sdu 1 [0xB1] False] (rx_sys_new s')"
    using demo_rx_runs by metis
  have "sdu_counts [on_new_sdu 0 [0xB0] False, on_new_sdu 1 [0xB1] False] = [0, 1]"
    by simp
  then show ?thesis
    using s pdcp_rx_in_order[OF s(1) demo_rx_config_ok s(2)] by (metis list.set_intros(1))
qed

text \<open>
  C6: The receive window, for a hard limit on COUNT at least half a range of sequence numbers below \<open>2^32\<close> (the limit 0xd0000000 of
  the header for received PDUs is; the default \<open>2^32 - 2\<close> is not, and there the invariant fails, as shown at
  the end of this theory): in every reachable state RX_DELIV does not exceed RX_NEXT and is at most half the
  range of sequence numbers behind it; every stored SDU lies strictly between them under its own COUNT, so the
  SDU that RX_DELIV waits for is never held back; and as long as the entity is not stopped and t-Reordering is
  finite, the timer runs whenever something is missing, with RX_REORD ahead of RX_DELIV.
\<close>

theorem pdcp_rx_window_invariant:
  assumes "pdcp_entity_rx_new env b cfg nw = Some s" and "rx_config_ok cfg" and "rx_run (rx_sys_new s) evs y"
  shows "let e = rs_ent y; st = pr_st e in
    unat (rx_deliv st) \<le> unat (rx_next st) \<and> unat (rx_next st) \<le> unat (rx_deliv st) + half_range (rxc_sn_size cfg)
    \<and> (\<forall>c. case win_at (pr_rx_window e) c of None \<Rightarrow> True
         | Some si \<Rightarrow> si_count si = c \<and> unat (rx_deliv st) < unat c \<and> unat c < unat (rx_next st))
    \<and> (if pr_reordering_timer e then unat (rx_deliv st) < unat (rx_reord st) \<and> unat (rx_reord st) \<le> unat (rx_next st)
       else pr_stopped e \<or> rx_deliv st = rx_next st \<or> rxc_t_reordering cfg = pdcp_t_reordering_infinity)"
proof -
  let ?e = "rs_ent y"
  have inv: "rx_inv ?e" and cfg: "pr_cfg ?e = cfg"
    using rx_run_inv[OF assms] by (auto simp: rx_sys_inv_def)
  then have wi: "rx_window_inv ?e" and ti: "rx_timer_inv ?e"
    by (simp_all add: rx_inv_def)
  note W = rx_window_invD[OF wi]
  have "si_count si = c \<and> unat (rx_deliv (pr_st ?e)) < unat c \<and> unat c < unat (rx_next (pr_st ?e))"
    if "win_at (pr_rx_window ?e) c = Some si" for c si
  proof -
    have "c \<noteq> rx_deliv (pr_st ?e)"
      using ti that by (auto simp: rx_timer_inv_def)
    then show ?thesis
      using W(1) W(4)[of c] that by (auto simp: win_counts_def word_unat_eq_iff le_less)
  qed
  moreover have "rxc_t_reordering cfg = - 1 \<or> rxc_t_reordering cfg = 0 \<or> 0 < rxc_t_reordering cfg"
    using assms(2) by (auto simp: rx_config_ok_def)
  ultimately show ?thesis
    using W(2,3) ti cfg unfolding rx_timer_inv_def Let_def pdcp_t_reordering_infinity_def by (auto split: option.splits)
qed

theorem pdcp_rx_window_invariant_witness:
  "\<exists>s y evs. pdcp_entity_rx_new demo_env 3 demo_rx_cfg 2 = Some s \<and> rx_run (rx_sys_new s) evs y
    \<and> rx_deliv (pr_st (rs_ent y)) = 2
    \<and> unat (rx_next (pr_st (rs_ent y))) \<le> 2 + half_range pdcp_size12bits"
proof -
  obtain s s' where s: "pdcp_entity_rx_new demo_env 3 demo_rx_cfg 2 = Some s" "rx_deliv (pr_st s') = 2"
      "rx_run (rx_sys_new s) [on_new_sdu 0 [0xB0] False, on_new_sdu 1 [0xB1] False] (rx_sys_new s')"
    using demo_rx_runs by metis
  have "unat (rx_next (pr_st s')) \<le> 2 + half_range pdcp_size12bits"
    using pdcp_rx_window_invariant[OF s(1) demo_rx_config_ok s(3)] s(2)
    by (simp add: rx_sys_new_def Let_def demo_rx_cfg_def)
  then show ?thesis
    using s by (auto simp: rx_sys_new_def intro!: exI[of _ "rx_sys_new s'"])
qed

text \<open>
  C5: For a hard limit on COUNT that leaves room for half the range of sequence numbers, the state machine of the receiving
  entity fails no assertion in any state of its runs: handling a PDU while the processing is not halted, running any
  reordering or failure task in flight and the expiry of t-Reordering return normally, and the awaitable of the
  crypto tokens is set exactly when the processing is halted and no task is in flight.  The tasks of the crypto workers
  are not included: the security engine may trim a PDU that is too short, see the end of this theory.
\<close>

theorem pdcp_rx_never_asserts:
  assumes "pdcp_entity_rx_new env0 b cfg nw = Some s" and "rx_config_ok cfg" and "rx_run (rx_sys_new s) evs y"
    and "Suc (length (rs_tasks y)) < max_rx_tasks"
  shows "(\<not> rs_halted y \<longrightarrow> rx_handle_pdu env (rs_ent y) buf \<noteq> None)
    \<and> (pr_reordering_timer (rs_ent y) \<longrightarrow> reordering_callback env (rs_ent y) \<noteq> None)
    \<and> (\<forall>t \<in> set (rs_tasks y). (\<forall>pi. t \<noteq> Crypto_task pi) \<longrightarrow> run_rx_task env (rs_ent y) t \<noteq> None)
    \<and> (tm_pending_set (pr_token_mngr (rs_ent y)) \<longleftrightarrow> rs_halted y \<and> rs_tasks y = [])"
proof -
  let ?s = "rs_ent y"
  have inv: "rx_sys_inv y"
    by (rule rx_run_inv[OF assms(1-3)])
  then have ri: "rx_inv ?s" and mc: "max_count_ok (pr_cfg ?s)"
    and tok: "pr_token_mngr ?s = tokens_of (rs_halted y) (length (rs_tasks y))"
    by (simp_all add: rx_sys_inv_def tokens_ok_iff)
  have "run_rx_task env ?s t \<noteq> None" if t: "t \<in> set (rs_tasks y)" "\<forall>pi. t \<noteq> Crypto_task pi" for t
  proof -
    obtain n where n: "length (rs_tasks y) = Suc n" "Suc n < max_rx_tasks"
      using t(1) assms(4) by (cases "rs_tasks y") auto
    have drop: "drop_token s \<noteq> None" if "pr_token_mngr s = pr_token_mngr ?s" for s
      using that tok n return_tokens_of[OF n(2)] by (simp add: drop_token_def)
    have ok: "task_ok ?s t"
      using inv t(1) by (simp add: rx_sys_inv_def)
    show ?thesis
    proof (cases t)
      case (Reorder_task pi)
      obtain s1 evs1 where r: "apply_reordering env ?s pi = Some (s1, evs1)" "rx_delivers ?s s1 evs1"
        using reorder_task_ok[OF ri mc ok[unfolded Reorder_task]] by blast
      then show ?thesis
        using drop[OF rx_delivers_token[OF r(2)]] Reorder_task by (simp add: run_rx_task_def)
    qed (use t(2) drop[of ?s] in \<open>auto simp: run_rx_task_def\<close>)
  qed
  moreover have "\<not> rs_halted y \<Longrightarrow> rx_handle_pdu env ?s buf \<noteq> None"
    using rx_handle_pdu_ok[OF ri mc assms(4) tok, of env buf] by auto
  moreover have "pr_reordering_timer ?s \<Longrightarrow> reordering_callback env ?s \<noteq> None"
    using reordering_callback_ok[OF ri, of env] by auto
  moreover have "tm_pending_set (pr_token_mngr ?s) \<longleftrightarrow> rs_halted y \<and> rs_tasks y = []"
    by (simp add: tok tokens_of_def)
  ultimately show ?thesis
    by blast
qed

theorem pdcp_rx_never_asserts_witness:
  "\<exists>s y evs. pdcp_entity_rx_new demo_env 3 demo_rx_cfg 2 = Some s \<and> rx_run (rx_sys_new s) evs y
    \<and> rx_deliv (pr_st (rs_ent y)) = 2 \<and> rx_handle_pdu demo_env (rs_ent y) [0x80, 2, 0xB2] \<noteq> None
    \<and> \<not> tm_pending_set (pr_token_mngr (rs_ent y))"
proof -
  obtain s s' where s: "pdcp_entity_rx_new demo_env 3 demo_rx_cfg 2 = Some s" "rx_deliv (pr_st s') = 2"
      "rx_run (rx_sys_new s) [on_new_sdu 0 [0xB0] False, on_new_sdu 1 [0xB1] False] (rx_sys_new s')"
    using demo_rx_runs by metis
  have "rx_handle_pdu demo_env s' [0x80, 2, 0xB2] \<noteq> None \<and> \<not> tm_pending_set (pr_token_mngr s')"
    using pdcp_rx_never_asserts[OF s(1) demo_rx_config_ok s(3), of demo_env "[0x80, 2, 0xB2]"]
    by (simp add: rx_sys_new_def max_rx_tasks_def)
  then show ?thesis
    using s by (auto simp: rx_sys_new_def intro!: exI[of _ "rx_sys_new s'"])
qed

text \<open>
  C17: Expiry of t-Reordering: for an entity without header compression in a state that satisfies the invariant,
  with the timer running and not stopped, the callback ends and hands up exactly the stored SDUs from the old to the new
  RX_DELIV, in ascending order of COUNT, with their bytes; the new RX_DELIV is at least the old RX_REORD, so nothing
  that was waited for when the timer started holds back delivery any longer; nothing at or above it leaves the window.
\<close>

theorem pdcp_rx_expiry_delivers:
  assumes "rx_inv s" and "pr_reordering_timer s" and "\<not> pr_stopped s" and "pr_rohc_decomp s = None"
  shows "\<exists>s' evs. reordering_callback env s = Some (s', evs) \<and> rx_inv s'
    \<and> unat (rx_reord (pr_st s)) \<le> unat (rx_deliv (pr_st s'))
    \<and> evs = map (sdu_event s) (held s (unat (rx_deliv (pr_st s))) (unat (rx_deliv (pr_st s'))))
    \<and> (\<forall>c. win_at (pr_rx_window s') c =
          (if unat c < unat (rx_deliv (pr_st s')) then None else win_at (pr_rx_window s) c))"
proof -
  let ?s1 = "s\<lparr>pr_reordering_timer := False\<rparr>"
  have wi: "rx_window_inv ?s1" and ti: "rx_timer_inv s" and wis: "rx_window_inv s"
    using assms(1) by (simp_all add: rx_inv_def rx_window_inv_def win_counts_def)
  obtain s2 evs d' where e: "handle_t_reordering_expire env ?s1 = Some
      (if d' \<noteq> rx_next (pr_st ?s1) \<and> rxc_t_reordering (pr_cfg ?s1) \<noteq> 0 then start_reordering s2 else s2, evs)"
    and dr: "drained (unat (rx_deliv (pr_st s))) (unat d') ?s1 s2 evs" and st: "pr_st s2 = (pr_st s)\<lparr>rx_deliv := d'\<rparr>"
    and d': "unat (rx_reord (pr_st s)) \<le> unat d'"
    using handle_t_reordering_expire_ok[OF wi, of env] ti assms(2) by (auto simp: rx_timer_inv_def)
  obtain s' evs' where c: "reordering_callback env s = Some (s', evs')" "rx_delivers s s' evs'"
    using reordering_callback_ok[OF assms(1,2)] by blast
  have s': "evs' = evs" "pr_rx_window s' = pr_rx_window s2" "rx_deliv (pr_st s') = d'"
    using c(1) e st assms(3) by (auto simp: reordering_callback_def Let_def start_reordering_def split: if_splits)
  have "sdu_event ?s1 = sdu_event s" "held ?s1 = held s"
    by (auto simp: sdu_event_def held_def fun_eq_iff)
  moreover have "win_at (pr_rx_window s) c = None" if "unat c < unat (rx_deliv (pr_st s))" for c
    using rx_window_invD(4)[OF wis, of c] that by fastforce
  ultimately show ?thesis
    using c d' s' dr assms(4) by (auto simp: drained_def rx_delivers_def not_less)
qed

theorem pdcp_rx_expiry_delivers_witness:
  "\<exists>s s' evs. rx_deliv (pr_st s) = 2 \<and> reordering_callback demo_env s = Some (s', evs) \<and> rx_inv s'
    \<and> unat (rx_reord (pr_st s)) \<le> unat (rx_deliv (pr_st s'))
    \<and> evs = map (sdu_event s) (held s (unat (rx_deliv (pr_st s))) (unat (rx_deliv (pr_st s'))))"
proof -
  obtain s s' where s: "pdcp_entity_rx_new demo_env 3 demo_rx_cfg 2 = Some s" "rx_deliv (pr_st s') = 2"
      "rx_run (rx_sys_new s) [on_new_sdu 0 [0xB0] False, on_new_sdu 1 [0xB1] False] (rx_sys_new s')"
      "pr_reordering_timer s'" "\<not> pr_stopped s'" "pr_rohc_decomp s' = None"
    using demo_rx_runs by metis
  have "rx_inv s'"
    using rx_run_inv(1)[OF s(1) demo_rx_config_ok s(3)] by (simp add: rx_sys_inv_def rx_sys_new_def)
  then show ?thesis
    using pdcp_rx_expiry_delivers[OF _ s(4-6), of demo_env] s(2) by blast
qed

section \<open>Status report\<close>

lemma report_bitmap_bits:
  assumes "enc_wf e" and "unat i \<le> unat hi"
  shows "\<exists>e'. report_bitmap w i hi e = Some e' \<and> enc_wf e'
    \<and> enc_bits e' = enc_bits e @ map (\<lambda>c. win_at w (of_nat c) \<noteq> None) [unat i..<unat hi]"
  using assms
proof (induction w i hi e rule: report_bitmap.induct)
  case (1 w i hi e)
  show ?case
  proof (cases "i < hi")
    case False
    then show ?thesis
      using 1 by (auto simp: report_bitmap.simps[of w i] word_less_nat_alt)
  next
    case True
    then have lt: "unat i < unat hi"
      by (simp add: word_less_nat_alt)
    let ?b = "(if has_sn w i then 1 else 0) :: u64"
    obtain e1 where e1: "pack e ?b 1 = Some e1" "enc_wf e1" "enc_bits e1 = enc_bits e @ nat_bits 1 (unat ?b)"
      using pack_bits[OF 1(2), of 1 ?b] by auto
    have bit: "nat_bits 1 (unat ?b) = [win_at w i \<noteq> None]"
      by (auto simp: nat_bits_def has_sn_win_at bit_0)
    obtain e' where "report_bitmap w (i + 1) hi e1 = Some e'" "enc_wf e'"
        "enc_bits e' = enc_bits e1 @ map (\<lambda>c. win_at w (of_nat c) \<noteq> None) [unat (i + 1)..<unat hi]"
      using "1.IH"[OF True e1(1,2)] unat_inc_le[OF lt] by blast
    then show ?thesis
      using True e1 bit unat_inc[OF lt] upt_conv_Cons[OF lt] by (simp add: report_bitmap.simps[of w i])
  qed
qed

text \<open>The number of bits of the bitmap.\<close>

definition report_len :: "pdcp_rx_state \<Rightarrow> nat" where
  "report_len st = min (unat (rx_next st) - unat (rx_deliv st) - 1) ((pdcp_control_pdu_max_size - 5) * 8)"

lemma report_end_value:
  assumes "unat (rx_deliv st) \<le> unat (rx_next st)" and "unat (rx_next st) < 2 ^ 32 - 1"
  shows "[unat (rx_deliv st + 1)..<unat (report_end st)] =
    [unat (rx_deliv st) + 1..<unat (rx_deliv st) + 1 + report_len st]"
proof -
  let ?d = "rx_deliv st" and ?n = "rx_next st"
  have inc: "unat (?d + 1) = unat ?d + 1"
    using assms by (simp add: unat_word_ariths)
  have max: "unat max_report_bits = (pdcp_control_pdu_max_size - 5) * 8" "(pdcp_control_pdu_max_size - 5) * 8 = 71960"
    by (simp_all add: max_report_bits_def pdcp_control_pdu_max_size_def)
  show ?thesis
  proof (cases "unat ?d + 1 < unat ?n")
    case False
    then have "\<not> ?d + 1 < ?n"
      using inc by (simp add: word_less_nat_alt)
    then show ?thesis
      using False inc assms(1) by (simp add: report_end_def report_len_def Let_def)
  next
    case True
    have lt: "?d + 1 < ?n"
      using True inc by (simp add: word_less_nat_alt)
    have diff: "unat (?n - (?d + 1)) = unat ?n - (unat ?d + 1)"
      using True inc by (simp add: unat_sub word_le_nat_alt)
    show ?thesis
    proof (cases "71960 < unat ?n - (unat ?d + 1)")
      case big: True
      have "unat (?d + 1 + max_report_bits) = unat ?d + 1 + 71960"
        using big inc max assms(2) by (simp add: unat_word_ariths)
      then show ?thesis
        using big lt diff max inc by (simp add: report_end_def report_len_def Let_def word_less_nat_alt)
    next
      case small: False
      then show ?thesis
        using True lt diff max inc by (simp add: report_end_def report_len_def Let_def word_less_nat_alt)
    qed
  qed
qed

text \<open>
  The status report of a receiving entity: it is compiled without a failed assertion, fits into the maximum size of a
  control PDU, starts with the control header and RX_DELIV as first missing COUNT, and its bitmap says of every COUNT
  after that, up to RX_NEXT or the size limit, whether it is stored; what follows is zero padding to the byte.
\<close>

theorem compile_status_report_exact:
  assumes "rx_inv s" and "unat (rx_next (pr_st s)) < 2 ^ 32 - 1"
  shows "\<exists>buf pad. compile_status_report s = Some buf \<and> length buf \<le> pdcp_control_pdu_max_size \<and> pad < 8
    \<and> bytes_bits buf = replicate 8 False @ nat_bits 32 (unat (rx_deliv (pr_st s)))
        @ map (\<lambda>i. win_at (pr_rx_window s) (of_nat (unat (rx_deliv (pr_st s)) + 1 + i)) \<noteq> None) [0..<report_len (pr_st s)]
        @ replicate pad False"
proof -
  let ?st = "pr_st s"
  have dn: "unat (rx_deliv ?st) \<le> unat (rx_next ?st)"
    using assms(1) by (simp add: rx_inv_def rx_window_inv_def)
  obtain e1 where e1: "pack (bit_encoder_new []) 0 1 = Some e1" "enc_wf e1" "enc_bits e1 = [] @ nat_bits 1 0"
    using pack_bits[of "bit_encoder_new []" 1 0] by auto
  obtain e2 where e2: "pack e1 (ucast cpt_status_report) 3 = Some e2" "enc_wf e2" "enc_bits e2 = enc_bits e1 @ nat_bits 3 0"
    using pack_bits[OF e1(2), of 3 "ucast cpt_status_report"] by (auto simp: cpt_status_report_def)
  obtain e3 where e3: "pack e2 0 4 = Some e3" "enc_wf e3" "enc_bits e3 = enc_bits e2 @ nat_bits 4 0"
    using pack_bits[OF e2(2), of 4 0] by auto
  have "unat (ucast (rx_deliv ?st) :: u64) = unat (rx_deliv ?st)"
    using unat_less_u32[of "rx_deliv ?st"] by (simp add: unsigned_ucast_eq take_bit_eq_mod)
  then obtain e4 where e4: "pack e3 (ucast (rx_deliv ?st)) 32 = Some e4" "enc_wf e4"
      "enc_bits e4 = enc_bits e3 @ nat_bits 32 (unat (rx_deliv ?st))"
    using pack_bits[OF e3(2), of 32 "ucast (rx_deliv ?st)"] by auto
  let ?map = "map (\<lambda>i. win_at (pr_rx_window s) (of_nat (unat (rx_deliv ?st) + 1 + i)) \<noteq> None) [0..<report_len ?st]"
  have shift: "[unat (rx_deliv ?st) + 1..<unat (rx_deliv ?st) + 1 + report_len ?st] =
      map (\<lambda>i. unat (rx_deliv ?st) + 1 + i) [0..<report_len ?st]"
    by (rule nth_equalityI) (auto simp del: upt_Suc)
  have "\<exists>e5. report_bitmap (pr_rx_window s) (rx_deliv ?st + 1) (report_end ?st) e4 = Some e5 \<and> enc_wf e5
      \<and> enc_bits e5 = enc_bits e4 @ ?map"
  proof (cases "unat (rx_deliv ?st + 1) \<le> unat (report_end ?st)")
    case True
    then show ?thesis
      using report_bitmap_bits[OF e4(2) True, of "pr_rx_window s"]
      unfolding report_end_value[OF dn assms(2)] shift by (simp add: o_def)
  next
    case False
    then have "[unat (rx_deliv ?st) + 1..<unat (rx_deliv ?st) + 1 + report_len ?st] = []"
      using report_end_value[OF dn assms(2)] by simp
    then have "report_len ?st = 0"
      unfolding upt_eq_Nil_conv by simp
    then show ?thesis
      using False e4(2) by (simp add: report_bitmap.simps[of "pr_rx_window s"] word_less_nat_alt)
  qed
  then obtain e5 where e5: "report_bitmap (pr_rx_window s) (rx_deliv ?st + 1) (report_end ?st) e4 = Some e5" "enc_wf e5"
      "enc_bits e5 = enc_bits e4 @ ?map"
    by blast
  obtain pad where pad: "pad < 8" "bytes_bits (be_buf e5) = enc_bits e5 @ replicate pad False"
    using enc_buf_bits[OF e5(2)] by blast
  have bits: "enc_bits e5 = replicate 8 False @ nat_bits 32 (unat (rx_deliv ?st)) @ ?map"
    using e1 e2 e3 e4 e5 replicate_Suc[of 7 False] by (simp add: replicate_add[symmetric] flip: append_assoc)
  have "8 * length (be_buf e5) = 40 + report_len ?st + pad"
    using arg_cong[OF pad(2), of length] bits by simp
  then have "length (be_buf e5) \<le> pdcp_control_pdu_max_size"
    using pad(1) by (simp add: report_len_def pdcp_control_pdu_max_size_def)
  then show ?thesis
    using e1 e2 e3 e4 e5 pad bits by (intro exI[of _ "be_buf e5"] exI[of _ pad]) (simp add: compile_status_report_def)
qed

theorem compile_status_report_exact_witness:
  "\<exists>s buf pad. rx_deliv (pr_st s) = 2 \<and> compile_status_report s = Some buf \<and> length buf \<le> 9000 \<and> pad < 8
    \<and> bytes_bits buf = replicate 8 False @ nat_bits 32 2
        @ map (\<lambda>i. win_at (pr_rx_window s) (of_nat (2 + 1 + i)) \<noteq> None) [0..<report_len (pr_st s)]
        @ replicate pad False"
proof -
  obtain s s' where s: "pdcp_entity_rx_new demo_env 3 demo_rx_cfg 2 = Some s" "rx_deliv (pr_st s') = 2"
      "rx_run (rx_sys_new s) [on_new_sdu 0 [0xB0] False, on_new_sdu 1 [0xB1] False] (rx_sys_new s')"
    using demo_rx_runs by metis
  have inv: "rx_inv s'" and cfg: "pr_cfg s' = demo_rx_cfg"
    using rx_run_inv[OF s(1) demo_rx_config_ok s(3)] by (auto simp: rx_sys_inv_def rx_sys_new_def)
  then have "unat (rx_next (pr_st s')) \<le> 2 + half_range pdcp_size12bits"
    using s(2) by (simp add: rx_inv_def rx_window_inv_def demo_rx_cfg_def)
  then have "unat (rx_next (pr_st s')) < 2 ^ 32 - 1"
    by (simp add: half_range_def)
  then show ?thesis
    using compile_status_report_exact[OF inv] s(2) by (auto simp: pdcp_control_pdu_max_size_def)
qed

section \<open>Findings\<close>

text \<open>
  C39: On an SRB before security is configured, the receiver removes the header and the four bytes of the
  MAC-I from every PDU longer than four bytes whose last four bytes are zero.  For a PDU of exactly five bytes the
  rest is shorter than the header, and removing the header is a failed assertion; no other PDU that passes the length
  check of \<open>handle_data_pdu\<close> fails.
\<close>

theorem unprotected_srb_short_pdu:
  assumes "rxc_rb_type (pr_cfg s) = pdcp_srb" and "rxc_sn_size (pr_cfg s) = pdcp_size12bits"
    and "env_worker_idx env < length (pr_sec_engine_pool s)" and "pr_sec_engine_pool s ! env_worker_idx env = None"
    and "env_ue_accepts env"
  shows "pdcp_apply_security env s pi = None \<longleftrightarrow> (\<exists>x. pi_buf pi = [x, 0, 0, 0, 0])"
proof -
  let ?b = "pi_buf pi"
  have chk: "apply_deciphering_and_integrity_check env s ?b (pi_count pi) =
      Some (if length ?b \<le> 4 then (sec_buffer_failure, ?b)
            else if drop (length ?b - 4) ?b \<noteq> [0, 0, 0, 0] then (sec_integrity_failure, ?b)
            else (sec_success_unprotected, take (length ?b - 4) ?b))"
    using assms by (simp add: apply_deciphering_and_integrity_check_def pr_is_srb_def sec_mac_len_def)
  have "pdcp_apply_security env s pi = None \<longleftrightarrow>
      4 < length ?b \<and> drop (length ?b - 4) ?b = [0, 0, 0, 0] \<and> length ?b - 4 < 2"
    using assms(2,5) by (simp add: pdcp_apply_security_def chk sec_is_success_def post_ue_task_def)
  also have "\<dots> \<longleftrightarrow> length ?b = 5 \<and> drop 1 ?b = [0, 0, 0, 0]"
    by (cases "length ?b = 5") auto
  also have "\<dots> \<longleftrightarrow> (\<exists>x. ?b = [x, 0, 0, 0, 0])"
    by (cases ?b) auto
  finally show ?thesis .
qed

definition demo_srb_cfg :: pdcp_rx_config where
  "demo_srb_cfg = demo_rx_cfg\<lparr>rxc_rb_type := pdcp_srb\<rparr>"

theorem unprotected_srb_short_pdu_witness:
  "\<exists>s. pdcp_entity_rx_new demo_env 0 demo_srb_cfg 1 = Some s
    \<and> pdcp_apply_security demo_env s \<lparr>pi_buf = [0, 0, 0, 0, 0], pi_count = 0, pi_integrity_verified = False\<rparr> = None"
proof -
  obtain s where s: "pdcp_entity_rx_new demo_env 0 demo_srb_cfg 1 = Some s" "pr_cfg s = demo_srb_cfg"
      "pr_sec_engine_pool s = [None]"
    by (simp add: pdcp_entity_rx_new_def demo_srb_cfg_def demo_rx_cfg_def pdcp_window_size_bits_def pcdp_sn_cardinality_def
        cm_init_def init_header_decompression_def)
  then show ?thesis
    using unprotected_srb_short_pdu[of s demo_env "\<lparr>pi_buf = [0, 0, 0, 0, 0], pi_count = 0, pi_integrity_verified = False\<rparr>"]
    by (auto simp: demo_srb_cfg_def demo_rx_cfg_def demo_env_def)
qed

text \<open>A sequence number in the upper half of the range, seen by a receiver that still waits for COUNT 0.\<close>

lemma count_estimation_underflow:
  assumes "half_range sz \<le> unat sn" and "unat sn < 2 * half_range sz"
  shows "count_estimation sz (of_nat (half_range sz)) 0 sn = sn - of_nat (2 * half_range sz)"
    and "unat (sn - of_nat (2 * half_range sz)) = 2 ^ 32 - 2 * half_range sz + unat sn"
proof -
  let ?h = "half_range sz" and ?c = "sn - of_nat (2 * half_range sz) :: u32"
  have h: "2 * ?h \<le> 2 ^ 19"
    using half_range_bounds(2)[of sz] by simp
  define y where "y = 2 ^ 32 - 2 * ?h + unat sn"
  have "of_nat y + of_nat (2 * ?h) = (of_nat (y + 2 * ?h) :: u32)"
    by (simp only: of_nat_add)
  also have "y + 2 * ?h = 2 ^ 32 + unat sn"
    using h by (simp add: y_def)
  also have "of_nat (2 ^ 32 + unat sn) = (of_nat (2 ^ 32) + of_nat (unat sn) :: u32)"
    by (simp only: of_nat_add)
  also have "\<dots> = sn"
    by simp
  finally have "?c = of_nat y"
    by (simp only: diff_eq_eq)
  moreover have "y < 2 ^ 32"
    using assms h by (simp add: y_def)
  ultimately show c: "unat ?c = 2 ^ 32 - 2 * ?h + unat sn"
    by (simp only: y_def unat_of_nat_u32)
  have "unat (take_bit (sn_len sz) ?c) = unat sn"
    unfolding unat_take_bit c using assms(2)
    by (cases sz) (simp_all add: take_bit_eq_mod half_range_def mod_add_left_eq[symmetric])
  then have sn: "pdcp_compute_sn ?c sz = sn"
    by (simp add: compute_sn_take_bit word_unat_eq_iff)
  have "unat (?c - (0 - of_nat ?h)) = unat (sn - of_nat ?h)"
    by simp
  also have "\<dots> = unat sn - ?h"
    using assms(1) h by (simp add: unat_sub word_le_nat_alt unat_of_nat_u32)
  finally have "unat (?c - (0 - of_nat ?h)) < 2 ^ sn_len sz"
    using assms half_range_double[of sz] by simp
  from count_estimation_unique[OF this] show "count_estimation sz (of_nat ?h) 0 sn = ?c"
    by (simp only: sn)
qed

text \<open>
  C38: The HFN of a received PDU is computed as HFN(RX_DELIV) - 1 when its SN is half a range ahead, also when
  HFN(RX_DELIV) is zero: the COUNT is then within one range of sequence numbers of \<open>2^32\<close>.  The default limits, which are those
  of the transmitter for both directions, let such a COUNT pass.  So on a new bearer with a finite t-Reordering, one PDU
  with any SN in the upper half of the range (the last two apart) moves RX_NEXT behind its COUNT, the expiry of t-Reordering moves
  RX_DELIV there, and from then on every PDU up to that COUNT is dropped: what remains is less than half a range of COUNTs.
\<close>

theorem hfn_underflow_blocks_bearer:
  assumes new: "pdcp_entity_rx_new env0 b cfg nw = Some s" and mc: "rxc_max_count cfg = pdcp_custom_max_count"
    and t: "0 < rxc_t_reordering cfg" and sn: "half_range (rxc_sn_size cfg) \<le> unat sn" "unat sn + 2 < 2 * half_range (rxc_sn_size cfg)"
    and pi: "pi_count pi = count_estimation (rxc_sn_size cfg) (pr_window_size s) (rx_deliv (pr_st s)) sn"
  shows "unat (pi_count pi) = 2 ^ 32 - 2 * half_range (rxc_sn_size cfg) + unat sn
    \<and> pi_count pi < mc_hard (rxc_max_count (pr_cfg s))
    \<and> (\<exists>s1 s2 evs. apply_reordering env s pi = Some (s1, []) \<and> pr_reordering_timer s1
        \<and> rx_next (pr_st s1) = pi_count pi + 1 \<and> reordering_callback env s1 = Some (s2, evs)
        \<and> rx_deliv (pr_st s2) = pi_count pi + 1
        \<and> (\<forall>pi'. pi_count pi' \<le> pi_count pi \<longrightarrow> apply_reordering env s2 pi' = Some (s2, [])))"
proof -
  note S = pdcp_entity_rx_new_state[OF new]
  let ?h = "half_range (rxc_sn_size cfg)" and ?c = "pi_count pi"
  let ?n = "?c + 1" and ?k = "sn_len (rxc_sn_size cfg) - 1"
  let ?si = "\<lparr>si_buf = pi_buf pi, si_count = ?c, si_integrity_verified = pi_integrity_verified pi\<rparr>"
  have c: "unat ?c = 2 ^ 32 - 2 * ?h + unat sn"
    using count_estimation_underflow[of "rxc_sn_size cfg" sn] sn S(4,5) pi by (simp add: rx_state_zero_def)
  then have bound: "unat ?c + 2 < 2 ^ 32" "0 < unat ?c"
    using sn half_range_bounds[of "rxc_sn_size cfg"] by simp_all
  then have n: "unat ?n = unat ?c + 1" "?c < ?n" "0 < ?n"
    by (simp_all add: unat_word_ariths word_less_nat_alt)
  have hard: "?c < 0xfffffffe"
    using bound(1) by (simp add: word_less_nat_alt)
  obtain w where w: "add_sn (pr_rx_window s) ?c ?si = Some w" "cm_wf ?k w" "win_at w = (win_at (pr_rx_window s))(?c \<mapsto> ?si)"
    using win.add_map_update[OF S(6), of ?c ?si] S(7) by auto
  define s1 where "s1 = s\<lparr>pr_rx_window := w, pr_st := \<lparr>rx_next = ?n, rx_deliv = 0, rx_reord = ?n\<rparr>, pr_reordering_timer := True\<rparr>"
  have s1: "apply_reordering env s pi = Some (s1, [])"
    using S(1,5,7,8) w(1) t bound(2) n(3)
    by (simp add: apply_reordering_def has_sn_win_at store_sdu_def update_rx_next_def rx_state_zero_def update_reordering_def
        start_reordering_def pdcp_t_reordering_infinity_def s1_def add_events_def Let_def word_less_nat_alt unat_gt_0)
  let ?s1' = "s1\<lparr>pr_reordering_timer := False\<rparr>"
  have "win_counts ?k ?s1'"
    using w S(7) by (auto simp: win_counts_def s1_def)
  then obtain s2 evs where e: "expire_loop env ?s1' = Some (s2, evs)" "pr_st s2 = (pr_st s1)\<lparr>rx_deliv := ?n\<rparr>"
    using expire_loop_ok[of ?k ?s1' env] by (auto simp: s1_def)
  then have "handle_t_reordering_expire env ?s1' = Some (s2, evs)"
    by (simp add: handle_t_reordering_expire_def deliver_all_consecutive_counts.simps[of env s2] s1_def)
  then have s2: "reordering_callback env s1 = Some (s2, evs)" "rx_deliv (pr_st s2) = ?n"
    using S(9) e(2) by (simp_all add: reordering_callback_def s1_def)
  have "apply_reordering env s2 pi' = Some (s2, [])" if "pi_count pi' \<le> ?c" for pi'
    using order.strict_trans1[OF that n(2)] s2(2) by (simp add: apply_reordering_def)
  then show ?thesis
    using c s1 s2 S(1) mc hard by (auto simp: s1_def pdcp_custom_max_count_def pdcp_tx_default_max_count_hard_def)
qed

definition demo_default_cfg :: pdcp_rx_config where
  "demo_default_cfg = demo_rx_cfg\<lparr>rxc_max_count := pdcp_custom_max_count\<rparr>"

theorem hfn_underflow_blocks_bearer_witness:
  "\<exists>s s1 s2 evs. pdcp_entity_rx_new demo_env 3 demo_default_cfg 2 = Some s
    \<and> count_estimation pdcp_size12bits (pr_window_size s) (rx_deliv (pr_st s)) 2048 = 0xfffff800
    \<and> apply_reordering demo_env s \<lparr>pi_buf = [7], pi_count = 0xfffff800, pi_integrity_verified = False\<rparr> = Some (s1, [])
    \<and> reordering_callback demo_env s1 = Some (s2, evs)
    \<and> apply_reordering demo_env s2 \<lparr>pi_buf = [7], pi_count = 0, pi_integrity_verified = False\<rparr> = Some (s2, [])"
proof -
  let ?pi = "\<lparr>pi_buf = [7], pi_count = 0xfffff800, pi_integrity_verified = False\<rparr>"
  obtain s where s: "pdcp_entity_rx_new demo_env 3 demo_default_cfg 2 = Some s"
    by (simp add: pdcp_entity_rx_new_def demo_default_cfg_def demo_rx_cfg_def pdcp_window_size_bits_def
        pcdp_sn_cardinality_def cm_init_def)
  have "count_estimation pdcp_size12bits 2048 0 2048 = 0xfffff800"
    by code_simp
  then have ce: "count_estimation pdcp_size12bits (pr_window_size s) (rx_deliv (pr_st s)) 2048 = 0xfffff800"
    using pdcp_entity_rx_new_state(4,5)[OF s]
    by (simp add: half_range_def rx_state_zero_def demo_default_cfg_def demo_rx_cfg_def)
  have "\<exists>s1 s2 evs. apply_reordering demo_env s ?pi = Some (s1, []) \<and> reordering_callback demo_env s1 = Some (s2, evs)
      \<and> (\<forall>pi'. pi_count pi' \<le> pi_count ?pi \<longrightarrow> apply_reordering demo_env s2 pi' = Some (s2, []))"
    using hfn_underflow_blocks_bearer[OF s, of 2048 ?pi demo_env] ce
    by (auto simp: demo_default_cfg_def demo_rx_cfg_def half_range_def)
  then show ?thesis
    using s ce by fastforce
qed

end
