(* ===== verification/Zuc.thy ===== *)
theory Zuc
  imports Rlc_Prelude
begin

unbundle bit_operations_syntax

text \<open>
  \<open>lib/security/zuc.cpp\<close>: the stream cipher ZUC behind NEA3 and NIA3.  The state \<open>zuc_state_t\<close> is a
  record with the sixteen cells of the shift register, the two registers of the nonlinear function and
  the four words of the bit reorganization; the functions are those of the source.  The cells hold 31-bit
  numbers in 32-bit words.  The last part shows that the feedback computed with additions, shifts and masks is the
  linear recurrence modulo \<open>2 ^ 31 - 1\<close> that defines the cipher.
\<close>

section \<open>Tables and macros\<close>

definition zuc_S0 :: "u8 list" where
  "zuc_S0 = [
     0x3e, 0x72, 0x5b, 0x47, 0xca, 0xe0, 0x00, 0x33, 0x04, 0xd1, 0x54, 0x98, 0x09, 0xb9, 0x6d, 0xcb,
     0x7b, 0x1b, 0xf9, 0x32, 0xaf, 0x9d, 0x6a, 0xa5, 0xb8, 0x2d, 0xfc, 0x1d, 0x08, 0x53, 0x03, 0x90,
     0x4d, 0x4e, 0x84, 0x99, 0xe4, 0xce, 0xd9, 0x91, 0xdd, 0xb6, 0x85, 0x48, 0x8b, 0x29, 0x6e, 0xac,
     0xcd, 0xc1, 0xf8, 0x1e, 0x73, 0x43, 0x69, 0xc6, 0xb5, 0xbd, 0xfd, 0x39, 0x63, 0x20, 0xd4, 0x38,
     0x76, 0x7d, 0xb2, 0xa7, 0xcf, 0xed, 0x57, 0xc5, 0xf3, 0x2c, 0xbb, 0x14, 0x21, 0x06, 0x55, 0x9b,
     0xe3, 0xef, 0x5e, 0x31, 0x4f, 0x7f, 0x5a, 0xa4, 0x0d, 0x82, 0x51, 0x49, 0x5f, 0xba, 0x58, 0x1c,
     0x4a, 0x16, 0xd5, 0x17, 0xa8, 0x92, 0x24, 0x1f, 0x8c, 0xff, 0xd8, 0xae, 0x2e, 0x01, 0xd3, 0xad,
     0x3b, 0x4b, 0xda, 0x46, 0xeb, 0xc9, 0xde, 0x9a, 0x8f, 0x87, 0xd7, 0x3a, 0x80, 0x6f, 0x2f, 0xc8,
     0xb1, 0xb4, 0x37, 0xf7, 0x0a, 0x22, 0x13, 0x28, 0x7c, 0xcc, 0x3c, 0x89, 0xc7, 0xc3, 0x96, 0x56,
     0x07, 0xbf, 0x7e, 0xf0, 0x0b, 0x2b, 0x97, 0x52, 0x35, 0x41, 0x79, 0x61, 0xa6, 0x4c, 0x10, 0xfe,
     0xbc, 0x26, 0x95, 0x88, 0x8a, 0xb0, 0xa3, 0xfb, 0xc0, 0x18, 0x94, 0xf2, 0xe1, 0xe5, 0xe9, 0x5d,
     0xd0, 0xdc, 0x11, 0x66, 0x64, 0x5c, 0xec, 0x59, 0x42, 0x75, 0x12, 0xf5, 0x74, 0x9c, 0xaa, 0x23,
     0x0e, 0x86, 0xab, 0xbe, 0x2a, 0x02, 0xe7, 0x67, 0xe6, 0x44, 0xa2, 0x6c, 0xc2, 0x93, 0x9f, 0xf1,
     0xf6, 0xfa, 0x36, 0xd2, 0x50, 0x68, 0x9e, 0x62, 0x71, 0x15, 0x3d, 0xd6, 0x40, 0xc4, 0xe2, 0x0f,
     0x8e, 0x83, 0x77, 0x6b, 0x25, 0x05, 0x3f, 0x0c, 0x30, 0xea, 0x70, 0xb7, 0xa1, 0xe8, 0xa9, 0x65,
     0x8d, 0x27, 0x1a, 0xdb, 0x81, 0xb3, 0xa0, 0xf4, 0x45, 0x7a, 0x19, 0xdf, 0xee, 0x78, 0x34, 0x60]"

definition zuc_S1 :: "u8 list" where
  "zuc_S1 = [
     0x55, 0xc2, 0x63, 0x71, 0x3b, 0xc8, 0x47, 0x86, 0x9f, 0x3c, 0xda, 0x5b, 0x29, 0xaa, 0xfd, 0x77,
     0x8c, 0xc5, 0x94, 0x0c, 0xa6, 0x1a, 0x13, 0x00, 0xe3, 0xa8, 0x16, 0x72, 0x40, 0xf9, 0xf8, 0x42,
     0x44, 0x26, 0x68, 0x96, 0x81, 0xd9, 0x45, 0x3e, 0x10, 0x76, 0xc6, 0xa7, 0x8b, 0x39, 0x43, 0xe1,
     0x3a, 0xb5, 0x56, 0x2a, 0xc0, 0x6d, 0xb3, 0x05, 0x22, 0x66, 0xbf, 0xdc, 0x0b, 0xfa, 0x62, 0x48,
     0xdd, 0x20, 0x11, 0x06, 0x36, 0xc9, 0xc1, 0xcf, 0xf6, 0x27, 0x52, 0xbb, 0x69, 0xf5, 0xd4, 0x87,
     0x7f, 0x84, 0x4c, 0xd2, 0x9c, 0x57, 0xa4, 0xbc, 0x4f, 0x9a, 0xdf, 0xfe, 0xd6, 0x8d, 0x7a, 0xeb,
     0x2b, 0x53, 0xd8, 0x5c, 0xa1, 0x14, 0x17, 0xfb, 0x23, 0xd5, 0x7d, 0x30, 0x67, 0x73, 0x08, 0x09,
     0xee, 0xb7, 0x70, 0x3f, 0x61, 0xb2, 0x19, 0x8e, 0x4e, 0xe5, 0x4b, 0x93, 0x8f, 0x5d, 0xdb, 0xa9,
     0xad, 0xf1, 0xae, 0x2e, 0xcb, 0x0d, 0xfc, 0xf4, 0x2d, 0x46, 0x6e, 0x1d, 0x97, 0xe8, 0xd1, 0xe9,
     0x4d, 0x37, 0xa5, 0x75, 0x5e, 0x83, 0x9e, 0xab, 0x82, 0x9d, 0xb9, 0x1c, 0xe0, 0xcd, 0x49, 0x89,
     0x01, 0xb6, 0xbd, 0x58, 0x24, 0xa2, 0x5f, 0x38, 0x78, 0x99, 0x15, 0x90, 0x50, 0xb8, 0x95, 0xe4,
     0xd0, 0x91, 0xc7, 0xce, 0xed, 0x0f, 0xb4, 0x6f, 0xa0, 0xcc, 0xf0, 0x02, 0x4a, 0x79, 0xc3, 0xde,
     0xa3, 0xef, 0xea, 0x51, 0xe6, 0x6b, 0x18, 0xec, 0x1b, 0x2c, 0x80, 0xf7, 0x74, 0xe7, 0xff, 0x21,
     0x5a, 0x6a, 0x54, 0x1e, 0x41, 0x31, 0x92, 0x35, 0xc4, 0x33, 0x07, 0x0a, 0xba, 0x7e, 0x0e, 0x34,
     0x88, 0xb1, 0x98, 0x7c, 0xf3, 0x3d, 0x60, 0x6c, 0x7b, 0xca, 0xd3, 0x1f, 0x32, 0x65, 0x04, 0x28,
     0x64, 0xbe, 0x85, 0x9b, 0x2f, 0x59, 0x8a, 0xd7, 0xb0, 0x25, 0xac, 0xaf, 0x12, 0x03, 0xe2, 0xf2]"

definition EK_d :: "u32 list" where
  "EK_d = [
     0x44d7, 0x26bc, 0x626b, 0x135e, 0x5789, 0x35e2, 0x7135, 0x09af,
     0x4d78, 0x2f13, 0x6bc4, 0x1af1, 0x5e26, 0x3c4d, 0x789a, 0x47ac]"

definition MAKEU32 :: "u8 \<Rightarrow> u8 \<Rightarrow> u8 \<Rightarrow> u8 \<Rightarrow> u32" where
  "MAKEU32 a b c d = push_bit 24 (ucast a) OR push_bit 16 (ucast b) OR push_bit 8 (ucast c) OR ucast d"

definition MulByPow2 :: "u32 \<Rightarrow> nat \<Rightarrow> u32" where
  "MulByPow2 x k = (push_bit k x OR drop_bit (31 - k) x) AND 0x7fffffff"

definition MAKEU31 :: "u8 \<Rightarrow> u32 \<Rightarrow> u8 \<Rightarrow> u32" where
  "MAKEU31 a b c = push_bit 23 (ucast a) OR push_bit 8 b OR ucast c"

definition ROT :: "u32 \<Rightarrow> nat \<Rightarrow> u32" where
  "ROT a k = push_bit k a OR drop_bit (32 - k) a"

section \<open>State and steps\<close>

record zuc_state =
  zs_S0 :: u32
  zs_S1 :: u32
  zs_S2 :: u32
  zs_S3 :: u32
  zs_S4 :: u32
  zs_S5 :: u32
  zs_S6 :: u32
  zs_S7 :: u32
  zs_S8 :: u32
  zs_S9 :: u32
  zs_S10 :: u32
  zs_S11 :: u32
  zs_S12 :: u32
  zs_S13 :: u32
  zs_S14 :: u32
  zs_S15 :: u32
  zs_R1 :: u32
  zs_R2 :: u32
  zs_X0 :: u32
  zs_X1 :: u32
  zs_X2 :: u32
  zs_X3 :: u32

definition AddM :: "u32 \<Rightarrow> u32 \<Rightarrow> u32" where
  "AddM a b = (let c = a + b in (c AND 0x7fffffff) + drop_bit 31 c)"

definition LFSR_feedback :: "zuc_state \<Rightarrow> u32" where
  "LFSR_feedback s =
     (let f = zs_S0 s;
          f = AddM f (MulByPow2 (zs_S0 s) 8);
          f = AddM f (MulByPow2 (zs_S4 s) 20);
          f = AddM f (MulByPow2 (zs_S10 s) 21);
          f = AddM f (MulByPow2 (zs_S13 s) 17)
      in AddM f (MulByPow2 (zs_S15 s) 15))"

definition LFSR_shift :: "zuc_state \<Rightarrow> u32 \<Rightarrow> zuc_state" where
  "LFSR_shift s f = s\<lparr>zs_S0 := zs_S1 s, zs_S1 := zs_S2 s, zs_S2 := zs_S3 s, zs_S3 := zs_S4 s,
     zs_S4 := zs_S5 s, zs_S5 := zs_S6 s, zs_S6 := zs_S7 s, zs_S7 := zs_S8 s,
     zs_S8 := zs_S9 s, zs_S9 := zs_S10 s, zs_S10 := zs_S11 s, zs_S11 := zs_S12 s,
     zs_S12 := zs_S13 s, zs_S13 := zs_S14 s, zs_S14 := zs_S15 s, zs_S15 := f\<rparr>"

definition LFSRWithInitialisationMode :: "zuc_state \<Rightarrow> u32 \<Rightarrow> zuc_state" where
  "LFSRWithInitialisationMode s u = LFSR_shift s (AddM (LFSR_feedback s) u)"

definition LFSRWithWorkMode :: "zuc_state \<Rightarrow> zuc_state" where
  "LFSRWithWorkMode s = LFSR_shift s (LFSR_feedback s)"

definition BitReorganization :: "zuc_state \<Rightarrow> zuc_state" where
  "BitReorganization s = s\<lparr>
     zs_X0 := push_bit 1 (zs_S15 s AND 0x7fff8000) OR (zs_S14 s AND 0xffff),
     zs_X1 := push_bit 16 (zs_S11 s AND 0xffff) OR drop_bit 15 (zs_S9 s),
     zs_X2 := push_bit 16 (zs_S7 s AND 0xffff) OR drop_bit 15 (zs_S5 s),
     zs_X3 := push_bit 16 (zs_S2 s AND 0xffff) OR drop_bit 15 (zs_S0 s)\<rparr>"

definition zuc_L1 :: "u32 \<Rightarrow> u32" where
  "zuc_L1 x = x XOR ROT x 2 XOR ROT x 10 XOR ROT x 18 XOR ROT x 24"

definition zuc_L2 :: "u32 \<Rightarrow> u32" where
  "zuc_L2 x = x XOR ROT x 8 XOR ROT x 14 XOR ROT x 22 XOR ROT x 30"

definition zuc_sboxes :: "u32 \<Rightarrow> u32" where
  "zuc_sboxes u = MAKEU32 (zuc_S0 ! unat (drop_bit 24 u)) (zuc_S1 ! unat (drop_bit 16 u AND 0xff))
     (zuc_S0 ! unat (drop_bit 8 u AND 0xff)) (zuc_S1 ! unat (u AND 0xff))"

definition zuc_F :: "zuc_state \<Rightarrow> u32 \<times> zuc_state" where
  "zuc_F s =
     (let w = (zs_X0 s XOR zs_R1 s) + zs_R2 s;
          w1 = zs_R1 s + zs_X1 s;
          w2 = zs_R2 s XOR zs_X2 s;
          u = zuc_L1 (push_bit 16 w1 OR drop_bit 16 w2);
          v = zuc_L2 (push_bit 16 w2 OR drop_bit 16 w1)
      in (w, s\<lparr>zs_R1 := zuc_sboxes u, zs_R2 := zuc_sboxes v\<rparr>))"

section \<open>Initialization and keystream\<close>

definition ek :: "bytes \<Rightarrow> bytes \<Rightarrow> nat \<Rightarrow> u32" where
  "ek k iv i = MAKEU31 (k ! i) (EK_d ! i) (iv ! i)"

definition zuc_load :: "bytes \<Rightarrow> bytes \<Rightarrow> zuc_state" where
  "zuc_load k iv = \<lparr>zs_S0 = ek k iv 0, zs_S1 = ek k iv 1, zs_S2 = ek k iv 2, zs_S3 = ek k iv 3,
     zs_S4 = ek k iv 4, zs_S5 = ek k iv 5, zs_S6 = ek k iv 6, zs_S7 = ek k iv 7,
     zs_S8 = ek k iv 8, zs_S9 = ek k iv 9, zs_S10 = ek k iv 10, zs_S11 = ek k iv 11,
     zs_S12 = ek k iv 12, zs_S13 = ek k iv 13, zs_S14 = ek k iv 14, zs_S15 = ek k iv 15,
     zs_R1 = 0, zs_R2 = 0, zs_X0 = 0, zs_X1 = 0, zs_X2 = 0, zs_X3 = 0\<rparr>"

fun zuc_init_rounds :: "nat \<Rightarrow> zuc_state \<Rightarrow> zuc_state" where
  "zuc_init_rounds 0 s = s"
| "zuc_init_rounds (Suc nCount) s = (let (w, s1) = zuc_F (BitReorganization s)
     in zuc_init_rounds nCount (LFSRWithInitialisationMode s1 (drop_bit 1 w)))"

definition zuc_initialize :: "bytes \<Rightarrow> bytes \<Rightarrow> zuc_state" where
  "zuc_initialize k iv = zuc_init_rounds 32 (zuc_load k iv)"

fun zuc_keystream_loop :: "nat \<Rightarrow> zuc_state \<Rightarrow> u32 list \<times> zuc_state" where
  "zuc_keystream_loop 0 s = ([], s)"
| "zuc_keystream_loop (Suc n) s =
     (let (w, s1) = zuc_F (BitReorganization s);
          (ks, s2) = zuc_keystream_loop n (LFSRWithWorkMode s1)
      in ((w XOR zs_X3 s1) # ks, s2))"

definition zuc_generate_keystream :: "zuc_state \<Rightarrow> nat \<Rightarrow> u32 list \<times> zuc_state" where
  "zuc_generate_keystream s key_stream_len =
     zuc_keystream_loop key_stream_len (LFSRWithWorkMode (snd (zuc_F (BitReorganization s))))"

section \<open>Arithmetic modulo the Mersenne prime\<close>

definition zuc_M :: nat where
  "zuc_M = 2 ^ 31 - 1"

text \<open>The representative of a residue class that the cells hold: \<open>zuc_M\<close> stands for zero.\<close>

definition zuc_rep :: "nat \<Rightarrow> nat" where
  "zuc_rep x = (if x mod zuc_M = 0 then zuc_M else x mod zuc_M)"

definition cell_ok :: "u32 \<Rightarrow> bool" where
  "cell_ok x \<longleftrightarrow> 0 < unat x \<and> unat x < 2 ^ 31"

lemma zuc_rep_unique: "0 < a \<Longrightarrow> a \<le> zuc_M \<Longrightarrow> a mod zuc_M = x mod zuc_M \<Longrightarrow> a = zuc_rep x"
  by (auto simp: zuc_rep_def le_less)

lemma zuc_rep_add: "zuc_rep (zuc_rep x + y) = zuc_rep (x + y)"
proof -
  have "zuc_rep x mod zuc_M = x mod zuc_M"
    by (simp add: zuc_rep_def)
  then have "(zuc_rep x + y) mod zuc_M = (x + y) mod zuc_M"
    by (rule mod_add_cong) simp
  then show ?thesis
    by (simp add: zuc_rep_def)
qed

lemma zuc_rep_cell: "cell_ok x \<Longrightarrow> zuc_rep (unat x) = unat x"
  by (rule zuc_rep_unique[symmetric]) (auto simp: cell_ok_def zuc_M_def)

lemma and_31: "(x :: u32) AND 0x7fffffff = take_bit 31 x"
proof -
  have "(0x7fffffff :: u32) = mask 31"
    by (simp add: mask_eq_exp_minus_1)
  then show ?thesis
    by (simp only: take_bit_eq_mask)
qed

text \<open>\<open>AddM\<close> is addition of residues, for a cell and any 31-bit number.\<close>

lemma unat_AddM:
  assumes "unat a < 2 ^ 31" and "unat b < 2 ^ 31"
  shows "unat (AddM a b) = (unat a + unat b) mod 2 ^ 31 + (unat a + unat b) div 2 ^ 31"
proof -
  let ?c = "unat a + unat b"
  have c: "unat (a + b) = ?c"
    using assms by (intro unat_add_u32) simp
  have "unat ((a + b) AND 0x7fffffff) = ?c mod 2 ^ 31" "unat (drop_bit 31 (a + b)) = ?c div 2 ^ 31"
    by (simp_all only: and_31 unat_take_bit unat_drop_bit_u32 c)
  moreover have "?c mod 2 ^ 31 + ?c div 2 ^ 31 < 2 ^ 32"
    using assms by simp
  ultimately show ?thesis
    unfolding AddM_def Let_def by (subst unat_add_u32) simp_all
qed

lemma AddM_rep:
  assumes "cell_ok a" and "unat b < 2 ^ 31"
  shows "unat (AddM a b) = zuc_rep (unat a + unat b)" and "cell_ok (AddM a b)"
proof -
  let ?c = "unat a + unat b"
  have c: "?c = ?c div 2 ^ 31 * 2 ^ 31 + ?c mod 2 ^ 31"
    by simp
  have v: "unat (AddM a b) = ?c mod 2 ^ 31 + ?c div 2 ^ 31"
    using assms by (intro unat_AddM) (auto simp: cell_ok_def)
  have le: "?c \<le> 2 * zuc_M" "0 < ?c"
    using assms by (auto simp: cell_ok_def zuc_M_def)
  have "0 < ?c mod 2 ^ 31 + ?c div 2 ^ 31 \<and> ?c mod 2 ^ 31 + ?c div 2 ^ 31 \<le> zuc_M"
  proof (cases "?c < 2 ^ 31")
    case True
    then show ?thesis
      using le by (simp add: zuc_M_def)
  next
    case False
    then have "?c div 2 ^ 31 = 1" "?c mod 2 ^ 31 = ?c - 2 ^ 31"
      using le by (simp_all add: zuc_M_def div_nat_eqI le_mod_geq)
    then show ?thesis
      using le by (simp add: zuc_M_def)
  qed
  moreover have "(?c mod 2 ^ 31 + ?c div 2 ^ 31) mod zuc_M = ?c mod zuc_M"
  proof -
    have "?c = ?c mod 2 ^ 31 + ?c div 2 ^ 31 + zuc_M * (?c div 2 ^ 31)"
      using c by (simp add: zuc_M_def)
    then show ?thesis
      by (metis mod_mult_self2)
  qed
  ultimately show "unat (AddM a b) = zuc_rep ?c" "cell_ok (AddM a b)"
    using v zuc_rep_unique[of "?c mod 2 ^ 31 + ?c div 2 ^ 31" ?c] by (auto simp: cell_ok_def zuc_M_def)
qed

text \<open>The macro \<open>MulByPow2\<close> rotates a 31-bit number, which is a multiplication by a power of two.\<close>

lemma MulByPow2_parts:
  assumes "k < 31" and "unat x < 2 ^ 31"
  shows "unat (MulByPow2 x k) = unat x mod 2 ^ (31 - k) * 2 ^ k + unat x div 2 ^ (31 - k)"
proof -
  let ?lo = "push_bit k (take_bit (31 - k) x)" and ?hi = "drop_bit (31 - k) x"
  have x: "take_bit 31 x = x"
    using assms(2) by (intro take_bit_of_bound) simp
  have hi: "take_bit k ?hi = ?hi"
    using assms(1) x by (simp add: take_bit_drop_bit)
  have "MulByPow2 x k = ?lo OR ?hi"
  proof -
    have "take_bit 31 (push_bit k x) = ?lo"
      by (simp add: take_bit_push_bit)
    moreover have "take_bit 31 ?hi = ?hi"
      using hi assms(1) by (metis take_bit_take_bit min.absorb_iff2 less_imp_le)
    ultimately show ?thesis
      by (simp only: MulByPow2_def and_31 take_bit_or)
  qed
  also have "\<dots> = ?lo + ?hi"
  proof -
    have "?lo AND ?hi = 0"
      by (subst hi[symmetric]) (auto intro!: bit_eqI simp: bit_simps)
    then show ?thesis
      by (rule disjunctive_add_eq_or[symmetric])
  qed
  finally have sum: "MulByPow2 x k = ?lo + ?hi" .
  have "unat x mod 2 ^ (31 - k) * 2 ^ k < 2 ^ (31 - k) * 2 ^ k"
    by simp
  also have "\<dots> = 2 ^ 31"
    using assms(1) by (simp flip: power_add)
  finally have lt: "unat x mod 2 ^ (31 - k) * 2 ^ k < 2 ^ 31" .
  have "unat (2 ^ k :: u32) = 2 ^ k"
    using unat_of_nat_u32[of "2 ^ k"] power_strict_increasing[of k 32 "2 :: nat"] assms(1) by simp
  with lt have lo: "unat ?lo = unat x mod 2 ^ (31 - k) * 2 ^ k"
    by (simp only: push_bit_eq_mult unat_word_ariths unat_take_bit) simp
  have hi_v: "unat ?hi = unat x div 2 ^ (31 - k)"
    by (rule unat_drop_bit_u32)
  have "unat ?hi < 2 ^ 31"
    using hi_v assms(2) by (metis div_le_dividend le_less_trans)
  then have "unat ?lo + unat ?hi < 2 ^ 32"
    using lt lo by simp
  then have "unat (?lo + ?hi) = unat ?lo + unat ?hi"
    by (rule unat_add_u32)
  then show ?thesis
    by (simp only: sum lo hi_v)
qed

lemma MulByPow2_rep:
  assumes "k < 31" and "unat x < 2 ^ 31"
  shows "unat (MulByPow2 x k) < 2 ^ 31" and "unat (MulByPow2 x k) mod zuc_M = (2 ^ k * unat x) mod zuc_M"
proof -
  let ?lo = "unat x mod 2 ^ (31 - k)" and ?hi = "unat x div 2 ^ (31 - k)"
  have p: "(2 :: nat) ^ (31 - k) * 2 ^ k = 2 ^ 31"
    using assms(1) by (simp flip: power_add)
  have v: "unat (MulByPow2 x k) = ?lo * 2 ^ k + ?hi"
    by (rule MulByPow2_parts[OF assms])
  have "?hi < 2 ^ k"
    using assms(2) p by (simp add: less_mult_imp_div_less mult.commute)
  moreover have "Suc ?lo * 2 ^ k \<le> 2 ^ 31"
    using mult_le_mono1[of "Suc ?lo" "2 ^ (31 - k)" "2 ^ k"] p by (simp add: Suc_leI)
  ultimately show "unat (MulByPow2 x k) < 2 ^ 31"
    unfolding v by simp
  have "2 ^ k * unat x = 2 ^ k * (?hi * 2 ^ (31 - k) + ?lo)"
    by (simp only: div_mult_mod_eq)
  also have "\<dots> = ?hi * (2 ^ (31 - k) * 2 ^ k) + ?lo * 2 ^ k"
    by (simp only: algebra_simps)
  also have "\<dots> = ?lo * 2 ^ k + ?hi + zuc_M * ?hi"
    unfolding p by (simp add: zuc_M_def)
  finally show "unat (MulByPow2 x k) mod zuc_M = (2 ^ k * unat x) mod zuc_M"
    unfolding v by (metis mod_mult_self2)
qed

text \<open>One term of the feedback.\<close>

lemma AddM_term:
  assumes "cell_ok a" and "unat a = zuc_rep n" and "k < 31" and "cell_ok x"
  shows "cell_ok (AddM a (MulByPow2 x k))" and "unat (AddM a (MulByPow2 x k)) = zuc_rep (n + 2 ^ k * unat x)"
proof -
  note m = MulByPow2_rep[OF assms(3), of x]
  have x: "unat x < 2 ^ 31"
    using assms(4) by (simp add: cell_ok_def)
  have "unat (AddM a (MulByPow2 x k)) = zuc_rep (unat a + unat (MulByPow2 x k))"
    by (rule AddM_rep(1)[OF assms(1) m(1)[OF x]])
  also have "\<dots> = zuc_rep (unat a + 2 ^ k * unat x)"
    using m(2)[OF x] by (simp add: zuc_rep_def mod_add_right_eq[of "unat a" "unat (MulByPow2 x k)", symmetric])
      (simp add: mod_add_right_eq)
  finally show "unat (AddM a (MulByPow2 x k)) = zuc_rep (n + 2 ^ k * unat x)"
    unfolding assms(2) zuc_rep_add .
  show "cell_ok (AddM a (MulByPow2 x k))"
    by (rule AddM_rep(2)[OF assms(1) m(1)[OF x]])
qed

section \<open>The register follows the recurrence\<close>

definition zs_cells :: "zuc_state \<Rightarrow> u32 list" where
  "zs_cells s = [zs_S0 s, zs_S1 s, zs_S2 s, zs_S3 s, zs_S4 s, zs_S5 s, zs_S6 s, zs_S7 s,
     zs_S8 s, zs_S9 s, zs_S10 s, zs_S11 s, zs_S12 s, zs_S13 s, zs_S14 s, zs_S15 s]"

definition cells_ok :: "zuc_state \<Rightarrow> bool" where
  "cells_ok s \<longleftrightarrow> list_all cell_ok (zs_cells s)"

text \<open>The recurrence of the ZUC specification on the sixteen cells.\<close>

definition zuc_recurrence :: "zuc_state \<Rightarrow> nat" where
  "zuc_recurrence s = 2 ^ 15 * unat (zs_S15 s) + 2 ^ 17 * unat (zs_S13 s) + 2 ^ 21 * unat (zs_S10 s)
     + 2 ^ 20 * unat (zs_S4 s) + (1 + 2 ^ 8) * unat (zs_S0 s)"

lemma zs_cells_shift: "zs_cells (LFSR_shift s f) = tl (zs_cells s) @ [f]"
  by (simp add: zs_cells_def LFSR_shift_def)

lemma cells_ok_shift: "cells_ok s \<Longrightarrow> cell_ok f \<Longrightarrow> cells_ok (LFSR_shift s f)"
  by (simp add: cells_ok_def zs_cells_shift) (simp add: zs_cells_def)

lemma LFSR_feedback_rep:
  assumes "cells_ok s"
  shows "cell_ok (LFSR_feedback s)" and "unat (LFSR_feedback s) = zuc_rep (zuc_recurrence s)"
proof -
  have ok: "cell_ok (zs_S0 s)" "cell_ok (zs_S4 s)" "cell_ok (zs_S10 s)" "cell_ok (zs_S13 s)" "cell_ok (zs_S15 s)"
    using assms by (auto simp: cells_ok_def zs_cells_def)
  let ?f1 = "AddM (zs_S0 s) (MulByPow2 (zs_S0 s) 8)"
  let ?f2 = "AddM ?f1 (MulByPow2 (zs_S4 s) 20)"
  let ?f3 = "AddM ?f2 (MulByPow2 (zs_S10 s) 21)"
  let ?f4 = "AddM ?f3 (MulByPow2 (zs_S13 s) 17)"
  note f1 = AddM_term[OF ok(1) zuc_rep_cell[OF ok(1), symmetric] _ ok(1), of 8]
  note f2 = AddM_term[OF f1(1) f1(2) _ ok(2), of 20]
  note f3 = AddM_term[OF f2(1) f2(2) _ ok(3), of 21]
  note f4 = AddM_term[OF f3(1) f3(2) _ ok(4), of 17]
  note f5 = AddM_term[OF f4(1) f4(2) _ ok(5), of 15]
  show "cell_ok (LFSR_feedback s)"
    using f5(1) by (simp add: LFSR_feedback_def)
  have "unat (LFSR_feedback s) = zuc_rep (unat (zs_S0 s) + 2 ^ 8 * unat (zs_S0 s) + 2 ^ 20 * unat (zs_S4 s)
    + 2 ^ 21 * unat (zs_S10 s) + 2 ^ 17 * unat (zs_S13 s) + 2 ^ 15 * unat (zs_S15 s))"
    using f5(2) by (simp add: LFSR_feedback_def)
  then show "unat (LFSR_feedback s) = zuc_rep (zuc_recurrence s)"
    by (simp add: zuc_recurrence_def algebra_simps)
qed

lemma work_mode_rep:
  assumes "cells_ok s"
  shows "cells_ok (LFSRWithWorkMode s)"
    and "zs_cells (LFSRWithWorkMode s) = tl (zs_cells s) @ [of_nat (zuc_rep (zuc_recurrence s))]"
  using LFSR_feedback_rep[OF assms] cells_ok_shift[OF assms]
  by (simp_all add: LFSRWithWorkMode_def zs_cells_shift flip: LFSR_feedback_rep(2)[OF assms])

lemma initialisation_mode_rep:
  assumes "cells_ok s" and "unat u < 2 ^ 31"
  shows "cells_ok (LFSRWithInitialisationMode s u)"
    and "zs_cells (LFSRWithInitialisationMode s u) = tl (zs_cells s) @ [of_nat (zuc_rep (zuc_recurrence s + unat u))]"
proof -
  note f = LFSR_feedback_rep[OF assms(1)]
  note a = AddM_rep[OF f(1) assms(2)]
  have v: "unat (AddM (LFSR_feedback s) u) = zuc_rep (zuc_recurrence s + unat u)"
    using a(1) f(2) by (simp add: zuc_rep_add)
  then have "AddM (LFSR_feedback s) u = of_nat (zuc_rep (zuc_recurrence s + unat u))"
    by (simp flip: v)
  then show "cells_ok (LFSRWithInitialisationMode s u)"
    "zs_cells (LFSRWithInitialisationMode s u) = tl (zs_cells s) @ [of_nat (zuc_rep (zuc_recurrence s + unat u))]"
    using cells_ok_shift[OF assms(1) a(2)] by (simp_all add: LFSRWithInitialisationMode_def zs_cells_shift)
qed

text \<open>The nonlinear part does not touch the register.\<close>

lemma zs_cells_F: "zs_cells (snd (zuc_F (BitReorganization s))) = zs_cells s"
  by (simp add: zs_cells_def zuc_F_def BitReorganization_def Let_def)

lemma cells_ok_F: "cells_ok (snd (zuc_F (BitReorganization s))) \<longleftrightarrow> cells_ok s"
  by (simp add: cells_ok_def zs_cells_F)

lemma recurrence_F: "zuc_recurrence (snd (zuc_F (BitReorganization s))) = zuc_recurrence s"
  by (simp add: zuc_recurrence_def zuc_F_def BitReorganization_def Let_def)

lemma unat_half: "unat (drop_bit 1 (w :: u32)) < 2 ^ 31"
  using unat_less_u32[of w] unat_drop_bit_u32[of 1 w] by simp

definition zuc_init_step :: "zuc_state \<Rightarrow> zuc_state" where
  "zuc_init_step s = (let (w, s1) = zuc_F (BitReorganization s) in LFSRWithInitialisationMode s1 (drop_bit 1 w))"

definition zuc_work_step :: "zuc_state \<Rightarrow> zuc_state" where
  "zuc_work_step s = LFSRWithWorkMode (snd (zuc_F (BitReorganization s)))"

lemma zuc_init_rounds_iter: "zuc_init_rounds n s = (zuc_init_step ^^ n) s"
  by (induction n arbitrary: s) (simp_all add: zuc_init_step_def split_def Let_def funpow_swap1)

lemma init_step_ok: "cells_ok s \<Longrightarrow> cells_ok (zuc_init_step s)"
  using initialisation_mode_rep(1)[of "snd (zuc_F (BitReorganization s))", OF _ unat_half]
  by (simp add: zuc_init_step_def split_def Let_def cells_ok_F)

lemma work_step_ok: "cells_ok s \<Longrightarrow> cells_ok (zuc_work_step s)"
  using work_mode_rep(1)[of "snd (zuc_F (BitReorganization s))"] by (simp add: zuc_work_step_def cells_ok_F)

lemma init_steps_ok: "cells_ok s \<Longrightarrow> cells_ok ((zuc_init_step ^^ n) s)"
  by (induction n) (simp_all add: init_step_ok)

lemma work_steps_ok: "cells_ok s \<Longrightarrow> cells_ok ((zuc_work_step ^^ n) s)"
  by (induction n) (simp_all add: work_step_ok)

lemma MAKEU31_ok:
  assumes "take_bit 15 d = d" and "d \<noteq> 0"
  shows "cell_ok (MAKEU31 a d c)"
proof -
  have bits: "bit d n \<Longrightarrow> n < 15" for n
    using assms(1) by (metis bit_take_bit_iff)
  have "take_bit 31 (MAKEU31 a d c) = MAKEU31 a d c"
    by (rule bit_eqI) (auto simp: MAKEU31_def bit_simps dest: bit_imp_le_length bits)
  then have "unat (MAKEU31 a d c) < 2 ^ 31"
    using unat_take_bit[of 31 "MAKEU31 a d c"] by (metis mod_less_divisor zero_less_power zero_less_numeral)
  moreover have "MAKEU31 a d c \<noteq> 0"
  proof
    assume 0: "MAKEU31 a d c = 0"
    obtain n where "bit d n"
      using assms(2) by (metis bit_eqI bit_0_eq bot_apply bot_bool_def)
    then have "bit (MAKEU31 a d c) (8 + n)"
      using bits[of n] by (simp add: MAKEU31_def bit_simps)
    then show False
      by (simp add: 0)
  qed
  ultimately show ?thesis
    by (simp add: cell_ok_def unat_gt_0)
qed

lemma EK_d_ok: "list_all (\<lambda>d. take_bit 15 d = d \<and> d \<noteq> 0) EK_d" "length EK_d = 16"
  by code_simp+

lemma ek_ok: "i < 16 \<Longrightarrow> cell_ok (ek k iv i)"
  using EK_d_ok by (auto simp: ek_def list_all_length intro: MAKEU31_ok)

lemma zuc_load_ok: "cells_ok (zuc_load k iv)"
  by (simp add: cells_ok_def zs_cells_def zuc_load_def ek_ok)

lemma zuc_initialize_ok: "cells_ok (zuc_initialize k iv)"
  unfolding zuc_initialize_def zuc_init_rounds_iter by (intro init_steps_ok zuc_load_ok)

lemma zuc_keystream_loop_length: "length (fst (zuc_keystream_loop n s)) = n"
  by (induction n arbitrary: s) (simp_all add: split_def Let_def)

section \<open>Properties\<close>

text \<open>
  C21: The shift register of ZUC: for every key and initialization vector and after any number of rounds in
  initialization mode followed by any number in working mode, every cell is one of \<open>1, ..., 2^31 - 1\<close>, and one further step
  drops the oldest cell and appends the value of the recurrence
  \<open>2^15 s15 + 2^17 s13 + 2^21 s10 + 2^20 s4 + (1 + 2^8) s0\<close> modulo \<open>2^31 - 1\<close>, with \<open>2^31 - 1\<close> for zero, plus the
  upper 31 bits of the output of \<open>F\<close> in initialization mode.
\<close>

theorem zuc_register_recurrence:
  fixes k iv :: bytes and i n :: nat
  defines "s \<equiv> zuc_init_rounds i (zuc_load k iv)"
  shows "let t = (zuc_work_step ^^ n) s; (w, s1) = zuc_F (BitReorganization s) in
    list_all (\<lambda>c. 1 \<le> unat c \<and> unat c \<le> 2 ^ 31 - 1) (zs_cells t)
    \<and> zs_cells (LFSRWithWorkMode (snd (zuc_F (BitReorganization t)))) = tl (zs_cells t) @ [of_nat (zuc_rep (zuc_recurrence t))]
    \<and> zs_cells (LFSRWithInitialisationMode s1 (drop_bit 1 w))
        = tl (zs_cells s) @ [of_nat (zuc_rep (zuc_recurrence s + unat w div 2))]"
proof -
  have s: "cells_ok s"
    unfolding s_def zuc_init_rounds_iter by (intro init_steps_ok zuc_load_ok)
  then have t: "cells_ok ((zuc_work_step ^^ n) s)"
    by (rule work_steps_ok)
  have u: "unat (drop_bit 1 (fst (zuc_F (BitReorganization s)))) = unat (fst (zuc_F (BitReorganization s))) div 2"
    using unat_drop_bit_u32[of 1] by simp
  have range: "list_all (\<lambda>c. 1 \<le> unat c \<and> unat c \<le> 2 ^ 31 - 1) (zs_cells ((zuc_work_step ^^ n) s))"
    using t by (auto simp: cells_ok_def cell_ok_def elim!: list.pred_mono_strong)
  show ?thesis
    using range work_mode_rep(2)[of "snd (zuc_F (BitReorganization ((zuc_work_step ^^ n) s)))"] s t u
      initialisation_mode_rep(2)[of "snd (zuc_F (BitReorganization s))", OF _ unat_half]
    by (simp add: Let_def split_def cells_ok_F zs_cells_F recurrence_F)
qed

end
