(* ===== verification/Snow3g.thy ===== *)
theory Snow3g
  imports Snow3g_Tables
begin

unbundle bit_operations_syntax

text \<open>
  \<open>lib/security/s3g.cpp\<close>: the stream cipher SNOW 3G and the MAC function f9 (UIA2) built on it.  The arrays
  behind the pointers of \<open>S3G_STATE\<close> are lists of 16 and 3 words.  An access to the message outside its bytes
  gives \<^const>\<open>None\<close>.  The lookup tables \<open>PM\<close> of the multiplication start with arbitrary contents, as the array on
  the stack does.
\<close>

section \<open>Multiplication in the byte field\<close>

definition s3g_mul_x :: "u8 \<Rightarrow> u8 \<Rightarrow> u8" where
  "s3g_mul_x v c = (if v AND 0x80 \<noteq> 0 then push_bit 1 v XOR c else push_bit 1 v)"

fun s3g_mul_x_pow :: "u8 \<Rightarrow> nat \<Rightarrow> u8 \<Rightarrow> u8" where
  "s3g_mul_x_pow v 0 c = v"
| "s3g_mul_x_pow v (Suc i) c = s3g_mul_x (s3g_mul_x_pow v i c) c"

definition s3g_mul_alpha :: "u8 \<Rightarrow> u32" where
  "s3g_mul_alpha c = MUL_ALPHA ! unat c"

definition s3g_div_alpha :: "u8 \<Rightarrow> u32" where
  "s3g_div_alpha c = DIV_ALPHA ! unat c"

definition s3g_s1 :: "u32 \<Rightarrow> u32" where
  "s3g_s1 w = S1_T0 ! unat (ucast (w AND 0xff) :: u8) XOR S1_T1 ! unat (ucast (drop_bit 8 w AND 0xff) :: u8)
     XOR S1_T2 ! unat (ucast (drop_bit 16 w AND 0xff) :: u8) XOR S1_T3 ! unat (ucast (drop_bit 24 w AND 0xff) :: u8)"

definition s3g_s2 :: "u32 \<Rightarrow> u32" where
  "s3g_s2 w = S2_T0 ! unat (ucast (w AND 0xff) :: u8) XOR S2_T1 ! unat (ucast (drop_bit 8 w AND 0xff) :: u8)
     XOR S2_T2 ! unat (ucast (drop_bit 16 w AND 0xff) :: u8) XOR S2_T3 ! unat (ucast (drop_bit 24 w AND 0xff) :: u8)"

section \<open>The cipher\<close>

record s3g_state =
  s3_lfsr :: "u32 list"
  s3_fsm :: "u32 list"

definition s3g_clock_lfsr :: "s3g_state \<Rightarrow> u32 \<Rightarrow> s3g_state" where
  "s3g_clock_lfsr s f =
     (let l = s3_lfsr s;
          v = (push_bit 8 (l ! 0) AND 0xffffff00) XOR s3g_mul_alpha (ucast (drop_bit 24 (l ! 0) AND 0xff))
            XOR l ! 2 XOR (drop_bit 8 (l ! 11) AND 0x00ffffff) XOR s3g_div_alpha (ucast (l ! 11 AND 0xff)) XOR f
      in s\<lparr>s3_lfsr := map (\<lambda>i. l ! (i + 1)) [0..<15] @ [v]\<rparr>)"

definition s3g_clock_fsm :: "s3g_state \<Rightarrow> u32 \<times> s3g_state" where
  "s3g_clock_fsm s =
     (let l = s3_lfsr s; m = s3_fsm s;
          f = ((l ! 15 + m ! 0) AND 0xffffffff) XOR m ! 1;
          r = (m ! 1 + (m ! 2 XOR l ! 5)) AND 0xffffffff
      in (f, s\<lparr>s3_fsm := [r, s3g_s1 (m ! 0), s3g_s2 (m ! 1)]\<rparr>))"

definition s3g_load :: "u32 list \<Rightarrow> u32 list \<Rightarrow> s3g_state" where
  "s3g_load k iv = \<lparr>s3_lfsr =
     [k ! 0 XOR 0xffffffff, k ! 1 XOR 0xffffffff, k ! 2 XOR 0xffffffff, k ! 3 XOR 0xffffffff,
      k ! 0, k ! 1, k ! 2, k ! 3,
      k ! 0 XOR 0xffffffff, k ! 1 XOR 0xffffffff XOR iv ! 3, k ! 2 XOR 0xffffffff XOR iv ! 2, k ! 3 XOR 0xffffffff,
      k ! 0 XOR iv ! 1, k ! 1, k ! 2, k ! 3 XOR iv ! 0],
     s3_fsm = [0, 0, 0]\<rparr>"

fun s3g_init_rounds :: "nat \<Rightarrow> s3g_state \<Rightarrow> s3g_state" where
  "s3g_init_rounds 0 s = s"
| "s3g_init_rounds (Suc n) s = (let (f, s1) = s3g_clock_fsm s in s3g_init_rounds n (s3g_clock_lfsr s1 f))"

definition s3g_initialize :: "u32 list \<Rightarrow> u32 list \<Rightarrow> s3g_state" where
  "s3g_initialize k iv = s3g_init_rounds 32 (s3g_load k iv)"

fun s3g_keystream_loop :: "nat \<Rightarrow> s3g_state \<Rightarrow> u32 list" where
  "s3g_keystream_loop 0 s = []"
| "s3g_keystream_loop (Suc n) s = (let (f, s1) = s3g_clock_fsm s
     in (f XOR s3_lfsr s1 ! 0) # s3g_keystream_loop n (s3g_clock_lfsr s1 0))"

definition s3g_generate_keystream :: "s3g_state \<Rightarrow> nat \<Rightarrow> u32 list" where
  "s3g_generate_keystream s n = s3g_keystream_loop n (s3g_clock_lfsr (snd (s3g_clock_fsm s)) 0)"

section \<open>Multiplication of 64-bit polynomials\<close>

definition s3g_MUL64x :: "u64 \<Rightarrow> u64 \<Rightarrow> u64" where
  "s3g_MUL64x V c = (if V AND 0x8000000000000000 \<noteq> 0 then push_bit 1 V XOR c else push_bit 1 V)"

fun s3g_MUL64xPOW :: "u64 \<Rightarrow> nat \<Rightarrow> u64 \<Rightarrow> u64" where
  "s3g_MUL64xPOW V 0 c = V"
| "s3g_MUL64xPOW V (Suc i) c = s3g_MUL64x (s3g_MUL64xPOW V i c) c"

definition s3g_MUL64 :: "u64 \<Rightarrow> u64 \<Rightarrow> u64 \<Rightarrow> u64" where
  "s3g_MUL64 V P c = fold (\<lambda>i result. if drop_bit i P AND 1 \<noteq> 0 then result XOR s3g_MUL64xPOW V i c else result) [0..<64] 0"

type_synonym mul_table = "u64 list list"

definition pm_set :: "mul_table \<Rightarrow> nat \<Rightarrow> nat \<Rightarrow> u64 \<Rightarrow> mul_table" where
  "pm_set PM i j v = PM[i := (PM ! i)[j := v]]"

definition pm_power :: "u64 \<Rightarrow> nat \<Rightarrow> mul_table \<Rightarrow> mul_table" where
  "pm_power c i PM =
     (let a = PM ! ((i - 1) div 8) ! (2 ^ ((i - 1) mod 8))
      in pm_set PM (i div 8) (2 ^ (i mod 8)) (if a AND push_bit 63 1 \<noteq> 0 then push_bit 1 a XOR c else push_bit 1 a))"

definition pm_fill_row :: "u64 list \<Rightarrow> u64 list" where
  "pm_fill_row row = fold (\<lambda>j row. fold (\<lambda>k row. row[2 ^ j + k := row ! (2 ^ j) XOR row ! k]) [1..<2 ^ j] row) [1..<8] row"

definition s3g_PRE_MUL_P :: "mul_table \<Rightarrow> u64 \<Rightarrow> u64 \<Rightarrow> mul_table" where
  "s3g_PRE_MUL_P PM P c =
     (let PM1 = fold (\<lambda>i PM. pm_set PM i 0 0) [0..<8] PM;
          PM2 = pm_set PM1 0 1 P;
          PM3 = fold (pm_power c) [1..<64] PM2
      in fold (\<lambda>i PM. PM[i := pm_fill_row (PM ! i)]) [0..<8] PM3)"

definition s3g_MUL_P :: "mul_table \<Rightarrow> u64 \<Rightarrow> u64" where
  "s3g_MUL_P PM X = PM ! 0 ! unat (X AND 0xff) XOR PM ! 1 ! unat (drop_bit 8 X AND 0xff)
     XOR PM ! 2 ! unat (drop_bit 16 X AND 0xff) XOR PM ! 3 ! unat (drop_bit 24 X AND 0xff)
     XOR PM ! 4 ! unat (drop_bit 32 X AND 0xff) XOR PM ! 5 ! unat (drop_bit 40 X AND 0xff)
     XOR PM ! 6 ! unat (drop_bit 48 X AND 0xff) XOR PM ! 7 ! unat (drop_bit 56 X AND 0xff)"

section \<open>The MAC function f9\<close>

definition mask8bit :: "nat \<Rightarrow> u8" where
  "mask8bit n = 0xff XOR (push_bit (8 - n) 1 - 1)"

text \<open>The word of four key bytes from index \<open>j\<close>.\<close>

definition s3g_key_word :: "bytes \<Rightarrow> nat \<Rightarrow> u32" where
  "s3g_key_word key j = push_bit 24 (ucast (key ! j)) XOR push_bit 16 (ucast (key ! (j + 1)))
     XOR push_bit 8 (ucast (key ! (j + 2))) XOR ucast (key ! (j + 3))"

definition s3g_data :: "bytes \<Rightarrow> nat \<Rightarrow> nat \<Rightarrow> u64" where
  "s3g_data data i sh = push_bit sh (ucast (data ! i))"

text \<open>\<open>for (i = 0; i < D - 2; i++)\<close>\<close>

function f9_blocks :: "mul_table \<Rightarrow> bytes \<Rightarrow> u32 \<Rightarrow> u32 \<Rightarrow> u64 \<Rightarrow> u64 option" where
  "f9_blocks PM data D i EVAL =
     (if i < D - 2 then
        (let b = unat (8 * i) in if length data \<le> b + 7 then None
         else f9_blocks PM data D (i + 1) (s3g_MUL_P PM (EVAL XOR
           (s3g_data data b 56 OR s3g_data data (b + 1) 48 OR s3g_data data (b + 2) 40 OR s3g_data data (b + 3) 32
            OR s3g_data data (b + 4) 24 OR s3g_data data (b + 5) 16 OR s3g_data data (b + 6) 8 OR s3g_data data (b + 7) 0))))
      else Some EVAL)"
  by pat_completeness auto
termination
proof (relation "measure (\<lambda>(PM, data, D, i, EVAL). unat (D - 2 - i))", goal_cases)
  case (2 PM data D i EVAL b)
  then show ?case
    using unat_diff_Suc[of i "D - 2"] by auto
qed simp

declare f9_blocks.simps [simp del]

text \<open>\<open>while (rem_bits > 7)\<close> and the partial byte behind it.\<close>

function f9_tail :: "bytes \<Rightarrow> nat \<Rightarrow> nat \<Rightarrow> nat \<Rightarrow> u64 \<Rightarrow> u64 option" where
  "f9_tail data b rem_bits i M =
     (if rem_bits = 0 then Some M else if length data \<le> b + i then None
      else if 7 < rem_bits then f9_tail data b (rem_bits - 8) (i + 1) (M OR s3g_data data (b + i) (8 * (7 - i)))
      else Some (M OR push_bit (8 * (7 - i)) (ucast (data ! (b + i) AND mask8bit rem_bits))))"
  by pat_completeness auto
termination
  by (relation "measure (\<lambda>(data, b, rem_bits, i, M). rem_bits)") auto

declare f9_tail.simps [simp del]

definition s3g_f9 :: "mul_table \<Rightarrow> bytes \<Rightarrow> u32 \<Rightarrow> u32 \<Rightarrow> u32 \<Rightarrow> bytes \<Rightarrow> u64 \<Rightarrow> bytes option" where
  "s3g_f9 PM0 key count fresh dir data len =
     (let K = [s3g_key_word key 12, s3g_key_word key 8, s3g_key_word key 4, s3g_key_word key 0];
          IV = [fresh XOR push_bit 15 dir, count XOR push_bit 31 dir, fresh, count];
          z = s3g_generate_keystream (s3g_initialize K IV) 5;
          P = push_bit 32 (ucast (z ! 0)) OR ucast (z ! 1);
          Q = push_bit 32 (ucast (z ! 2)) OR ucast (z ! 3);
          D = (ucast (if len mod 64 = 0 then drop_bit 6 len + 1 else drop_bit 6 len + 2) :: u32);
          c = 0x1b;
          PM = s3g_PRE_MUL_P PM0 P c
      in Option.bind (f9_blocks PM data D 0 0) (\<lambda>EVAL.
           let rem_bits = (if len mod 64 = 0 then 64 else unat (len mod 64))
           in Option.bind (f9_tail data (unat (8 * (D - 2))) rem_bits 0 0) (\<lambda>M_D_2.
                let EVAL = s3g_MUL_P PM (EVAL XOR M_D_2);
                    EVAL = s3g_MUL64 (EVAL XOR len) Q c
                in Some (map (\<lambda>i. ucast ((drop_bit (56 - 8 * i) EVAL XOR ucast (drop_bit (24 - 8 * i) (z ! 4))) AND 0xff)) [0..<4]))))"

section \<open>Sums over exclusive or\<close>

fun xsum :: "(nat \<Rightarrow> u64) \<Rightarrow> nat \<Rightarrow> u64" where
  "xsum f 0 = 0"
| "xsum f (Suc n) = xsum f n XOR f n"

lemma xsum_cong: "(\<And>i. i < n \<Longrightarrow> f i = g i) \<Longrightarrow> xsum f n = xsum g n"
  by (induction n) simp_all

lemma xsum_zero: "xsum (\<lambda>i. 0) n = 0"
  by (induction n) simp_all

lemma xsum_xor: "xsum (\<lambda>i. f i XOR g i) n = xsum f n XOR xsum g n"
  by (induction n) (simp_all add: ac_simps)

lemma xsum_append: "xsum f (m + n) = xsum f m XOR xsum (\<lambda>i. f (m + i)) n"
  by (induction n) (simp_all add: xor.assoc)

lemma xsum_swap: "xsum (\<lambda>i. xsum (f i) n) m = xsum (\<lambda>j. xsum (\<lambda>i. f i j) m) n"
  by (induction m) (simp_all add: xsum_zero xsum_xor)

lemma xsum_if: "xsum (\<lambda>i. if p then f i else 0) n = (if p then xsum f n else 0)"
  by (simp add: xsum_zero)

text \<open>A sum over the bits that are set.\<close>

definition bit_sum :: "(nat \<Rightarrow> u64) \<Rightarrow> (nat \<Rightarrow> bool) \<Rightarrow> nat \<Rightarrow> u64" where
  "bit_sum g p n = xsum (\<lambda>i. if p i then g i else 0) n"

section \<open>Multiplication is bilinear and commutative\<close>

lemma bit_and_exp: "(x :: 'a::len word) AND push_bit n 1 \<noteq> 0 \<longleftrightarrow> bit x n"
proof
  assume "x AND push_bit n 1 \<noteq> 0"
  then obtain m where "bit (x AND push_bit n 1) m"
    by (metis bit_eqI bit_0_eq bot_apply bot_bool_def)
  then show "bit x n"
    by (auto simp: bit_simps)
next
  assume "bit x n"
  then have "bit (x AND push_bit n 1) n"
    using bit_imp_le_length[of x n] by (simp add: bit_simps)
  then show "x AND push_bit n 1 \<noteq> 0"
    by auto
qed

lemma MUL64x_bit: "s3g_MUL64x V c = push_bit 1 V XOR (if bit V 63 then c else 0)"
proof -
  have "(0x8000000000000000 :: u64) = push_bit 63 1"
    by (simp add: push_bit_eq_mult)
  then show ?thesis
    by (simp only: s3g_MUL64x_def bit_and_exp) simp
qed

lemma MUL64x_xor: "s3g_MUL64x (a XOR b) c = s3g_MUL64x a c XOR s3g_MUL64x b c"
  by (auto simp: MUL64x_bit bit_xor_iff push_bit_xor ac_simps)

lemma MUL64xPOW_xor: "s3g_MUL64xPOW (a XOR b) i c = s3g_MUL64xPOW a i c XOR s3g_MUL64xPOW b i c"
  by (induction i) (simp_all add: MUL64x_xor)

lemma MUL64xPOW_zero: "s3g_MUL64xPOW 0 i c = 0"
  by (induction i) (simp_all add: MUL64x_bit)

lemma MUL64xPOW_add: "s3g_MUL64xPOW (s3g_MUL64xPOW V i c) j c = s3g_MUL64xPOW V (i + j) c"
  by (induction j) simp_all

lemma MUL64xPOW_xsum: "s3g_MUL64xPOW (xsum f n) i c = xsum (\<lambda>j. s3g_MUL64xPOW (f j) i c) n"
  by (induction n) (simp_all add: MUL64xPOW_zero MUL64xPOW_xor)

lemma MUL64xPOW_one: "j < 64 \<Longrightarrow> s3g_MUL64xPOW 1 j c = push_bit j 1"
proof (induction j)
  case (Suc j)
  then have "\<not> bit (push_bit j 1 :: u64) 63"
    by (simp add: bit_simps)
  then show ?case
    using Suc by (simp add: MUL64x_bit)
qed simp

lemma word_bit_sum: "n \<le> 64 \<Longrightarrow> take_bit n V = bit_sum (\<lambda>j. push_bit j 1) (bit V) n"
proof (induction n)
  case (Suc n)
  have "take_bit (Suc n) V = take_bit n V XOR (if bit V n then push_bit n 1 else 0)"
    using Suc.prems by (intro bit_eqI) (auto simp: bit_simps less_Suc_eq)
  then show ?case
    using Suc by (simp add: bit_sum_def)
qed (simp add: bit_sum_def)

lemma word_powers: "V = bit_sum (\<lambda>j. s3g_MUL64xPOW 1 j c) (bit V) 64"
proof -
  have "V = take_bit 64 V"
    by (simp add: take_bit_word_eq_self)
  also have "\<dots> = bit_sum (\<lambda>j. push_bit j 1) (bit V) 64"
    by (rule word_bit_sum) simp
  also have "\<dots> = bit_sum (\<lambda>j. s3g_MUL64xPOW 1 j c) (bit V) 64"
    unfolding bit_sum_def by (rule xsum_cong) (simp add: MUL64xPOW_one)
  finally show ?thesis .
qed

lemma MUL64_fold:
  "fold (\<lambda>i result. if drop_bit i (P :: u64) AND 1 \<noteq> 0 then result XOR s3g_MUL64xPOW V i c else result) [0..<n] 0
    = bit_sum (\<lambda>i. s3g_MUL64xPOW V i c) (bit P) n"
proof (induction n)
  case (Suc n)
  have "drop_bit n P AND 1 \<noteq> 0 \<longleftrightarrow> bit P n"
    by (simp add: and_one_eq bit_iff_odd_drop_bit odd_iff_mod_2_eq_one)
  then show ?case
    using Suc by (simp add: bit_sum_def)
qed (simp add: bit_sum_def)

lemma MUL64_sum: "s3g_MUL64 V P c = bit_sum (\<lambda>i. s3g_MUL64xPOW V i c) (bit P) 64"
  unfolding s3g_MUL64_def by (rule MUL64_fold)

lemma MUL64_double:
  "s3g_MUL64 V P c = xsum (\<lambda>i. xsum (\<lambda>j. if bit P i \<and> bit V j then s3g_MUL64xPOW 1 (i + j) c else 0) 64) 64"
proof -
  have "s3g_MUL64xPOW V i c = xsum (\<lambda>j. if bit V j then s3g_MUL64xPOW 1 (i + j) c else 0) 64" for i
  proof -
    have "s3g_MUL64xPOW V i c = s3g_MUL64xPOW (bit_sum (\<lambda>j. s3g_MUL64xPOW 1 j c) (bit V) 64) i c"
      by (simp flip: word_powers)
    also have "\<dots> = xsum (\<lambda>j. if bit V j then s3g_MUL64xPOW 1 (i + j) c else 0) 64"
      unfolding bit_sum_def MUL64xPOW_xsum
      by (rule xsum_cong) (simp add: MUL64xPOW_zero MUL64xPOW_add add.commute)
    finally show ?thesis .
  qed
  then have "s3g_MUL64 V P c =
    xsum (\<lambda>i. if bit P i then xsum (\<lambda>j. if bit V j then s3g_MUL64xPOW 1 (i + j) c else 0) 64 else 0) 64"
    unfolding MUL64_sum bit_sum_def by (intro xsum_cong) simp
  also have "\<dots> = xsum (\<lambda>i. xsum (\<lambda>j. if bit P i \<and> bit V j then s3g_MUL64xPOW 1 (i + j) c else 0) 64) 64"
    by (intro xsum_cong) (auto simp: xsum_zero)
  finally show ?thesis .
qed

lemma MUL64_commute: "s3g_MUL64 V P c = s3g_MUL64 P V c"
  unfolding MUL64_double[of V] MUL64_double[of P]
  by (subst xsum_swap) (intro xsum_cong, simp add: add.commute conj_commute)

section \<open>The lookup tables\<close>

lemma nat_bit_bound: "(x :: nat) < 2 ^ j \<Longrightarrow> j \<le> b \<Longrightarrow> \<not> bit x b"
proof -
  assume "x < 2 ^ j" "j \<le> b"
  then have "x < 2 ^ b"
    by (meson less_le_trans power_increasing one_le_numeral)
  then show ?thesis
    by (simp add: bit_iff_odd)
qed

lemma bit_sum_low:
  assumes "(x :: nat) < 2 ^ j" and "j \<le> n"
  shows "bit_sum g (bit x) n = bit_sum g (bit x) j"
proof -
  have "xsum (\<lambda>i. if bit x (j + i) then g (j + i) else 0) (n - j) = xsum (\<lambda>i. 0) (n - j)"
    using assms(1) by (intro xsum_cong) (simp add: nat_bit_bound)
  then show ?thesis
    using xsum_append[of "\<lambda>i. if bit x i then g i else 0" j "n - j"] assms(2) by (simp add: bit_sum_def xsum_zero)
qed

lemma bit_sum_power:
  assumes "(k :: nat) < 2 ^ j" and "j < n"
  shows "bit_sum g (bit (2 ^ j + k)) n = g j XOR bit_sum g (bit k) n"
proof -
  have "take_bit j (2 ^ j + k) = take_bit j k"
    by (simp add: take_bit_eq_mod)
  then have low: "bit (2 ^ j + k) b \<longleftrightarrow> bit k b" if "b < j" for b
    using that by (metis bit_take_bit_iff)
  have "(2 ^ j + k) div 2 ^ j = 1"
    using assms(1) by (simp add: div_add_self1)
  then have top: "bit (2 ^ j + k) j"
    by (simp add: bit_iff_odd)
  have "bit_sum g (bit (2 ^ j + k)) n = bit_sum g (bit (2 ^ j + k)) (Suc j)"
    using assms by (intro bit_sum_low) simp_all
  also have "\<dots> = bit_sum g (bit (2 ^ j + k)) j XOR g j"
    using top by (simp add: bit_sum_def)
  also have "bit_sum g (bit (2 ^ j + k)) j = bit_sum g (bit k) j"
    unfolding bit_sum_def by (rule xsum_cong) (simp add: low)
  also have "\<dots> = bit_sum g (bit k) n"
    using assms by (intro bit_sum_low[symmetric]) simp_all
  finally show ?thesis
    by (simp add: ac_simps)
qed

lemma fill_inner:
  assumes "length row = 256" and "j < 8" and "m \<le> 2 ^ j"
  defines "r \<equiv> fold (\<lambda>k row. row[2 ^ j + k := row ! (2 ^ j) XOR row ! k]) [1..<m] row"
  shows "length r = 256 \<and> (\<forall>x < 256. r ! x = (if 2 ^ j < x \<and> x < 2 ^ j + m then row ! (2 ^ j) XOR row ! (x - 2 ^ j) else row ! x))"
  using assms(3) unfolding r_def
proof (induction m)
  case (Suc m)
  have p: "(2 :: nat) ^ j \<le> 128"
    using power_increasing[of j 7 "2 :: nat"] assms(2) by simp
  show ?case
  proof (cases "m = 0")
    case True
    then show ?thesis
      using assms(1) by auto
  next
    case False
    let ?r = "fold (\<lambda>k row. row[2 ^ j + k := row ! (2 ^ j) XOR row ! k]) [1..<m] row"
    have IH: "length ?r = 256" "\<And>x. x < 256 \<Longrightarrow> ?r ! x = (if 2 ^ j < x \<and> x < 2 ^ j + m then row ! (2 ^ j) XOR row ! (x - 2 ^ j) else row ! x)"
      using Suc by auto
    have "?r ! (2 ^ j) = row ! (2 ^ j)" "?r ! m = row ! m"
      using IH(2)[of "2 ^ j"] IH(2)[of m] p Suc.prems by auto
    then have "fold (\<lambda>k row. row[2 ^ j + k := row ! (2 ^ j) XOR row ! k]) [1..<Suc m] row
      = ?r[2 ^ j + m := row ! (2 ^ j) XOR row ! m]"
      using False by simp
    then show ?thesis
      using IH False p Suc.prems by (auto simp: nth_list_update)
  qed
qed (auto simp: assms(1))

definition row_basis :: "(nat \<Rightarrow> u64) \<Rightarrow> u64 list \<Rightarrow> bool" where
  "row_basis g row \<longleftrightarrow> length row = 256 \<and> row ! 0 = 0 \<and> (\<forall>b < 8. row ! (2 ^ b) = g b)"

lemma fill_row_spec:
  assumes "row_basis g row"
  shows "length (pm_fill_row row) = 256 \<and> (\<forall>x < 256. pm_fill_row row ! x = bit_sum g (bit x) 8)"
proof -
  let ?step = "\<lambda>j row. fold (\<lambda>k row. row[2 ^ j + k := row ! (2 ^ j) XOR row ! k]) [1..<2 ^ j] row"
  have "row_basis g (fold ?step [1..<n] row) \<and> (\<forall>x < 2 ^ n. fold ?step [1..<n] row ! x = bit_sum g (bit x) 8)"
    if "1 \<le> n" "n \<le> 8" for n
    using that
  proof (induction n rule: nat_induct_at_least)
    case base
    have "bit_sum g (bit (0 :: nat)) 8 = 0" "bit_sum g (bit (1 :: nat)) 8 = g 0"
      using bit_sum_power[of 0 0 8 g] by (simp_all add: bit_sum_def xsum_zero)
    then show ?case
      using assms by (auto simp: row_basis_def less_2_cases_iff dest: spec[of _ "0 :: nat"])
  next
    case (Suc n)
    let ?r = "fold ?step [1..<n] row"
    have IH: "row_basis g ?r" "\<And>x. x < 2 ^ n \<Longrightarrow> ?r ! x = bit_sum g (bit x) 8"
      using Suc by auto
    have step: "fold ?step [1..<Suc n] row = ?step n ?r"
      using Suc.hyps by simp
    have len: "length ?r = 256" "?r ! (2 ^ n) = g n"
      using IH(1) Suc.prems by (auto simp: row_basis_def)
    note r = fill_inner[of ?r n "2 ^ n", OF len(1), unfolded step[symmetric]]
    have v: "length (fold ?step [1..<Suc n] row) = 256"
      "\<And>x. x < 256 \<Longrightarrow> fold ?step [1..<Suc n] row ! x = (if 2 ^ n < x \<and> x < 2 ^ n + 2 ^ n then g n XOR ?r ! (x - 2 ^ n) else ?r ! x)"
      using r Suc.prems len by auto
    have p: "(2 :: nat) ^ Suc n \<le> 256"
      using power_increasing[of "Suc n" 8 "2 :: nat"] Suc.prems by simp
    have "fold ?step [1..<Suc n] row ! x = bit_sum g (bit x) 8" if "x < 2 ^ Suc n" for x
    proof (cases "x < 2 ^ n")
      case True
      then show ?thesis
        using v(2)[of x] IH(2)[of x] that p by simp
    next
      case False
      then have "bit_sum g (bit x) 8 = g n XOR bit_sum g (bit (x - 2 ^ n)) 8"
        using bit_sum_power[of "x - 2 ^ n" n 8 g] that Suc.prems by simp
      moreover have "bit_sum g (bit (0 :: nat)) 8 = 0"
        by (simp add: bit_sum_def xsum_zero)
      ultimately show ?thesis
        using v(2)[of x] IH(2)[of "x - 2 ^ n"] len(2) False that p by (cases "x = 2 ^ n") auto
    qed
    moreover have "fold ?step [1..<Suc n] row ! (2 ^ b) = g b" if "b < 8" for b
    proof -
      have "\<not> (2 ^ n < (2 :: nat) ^ b \<and> (2 :: nat) ^ b < 2 ^ n + 2 ^ n)"
        using power_strict_increasing_iff[of "2 :: nat" n b] power_strict_increasing_iff[of "2 :: nat" b "Suc n"] by (simp add: mult_2)
      moreover have "(2 :: nat) ^ b < 256"
        using power_strict_increasing[of b 8 "2 :: nat"] that by simp
      ultimately show ?thesis
        using v(2)[of "2 ^ b"] IH(1) that by (auto simp: row_basis_def)
    qed
    moreover have "fold ?step [1..<Suc n] row ! 0 = 0"
      using v(2)[of 0] IH(1) by (simp add: row_basis_def)
    ultimately show ?case
      using v(1) by (auto simp: row_basis_def)
  qed
  from this[of 8] show ?thesis
    by (auto simp: row_basis_def pm_fill_row_def)
qed

definition pm_ok :: "mul_table \<Rightarrow> bool" where
  "pm_ok PM \<longleftrightarrow> length PM = 8 \<and> (\<forall>i < 8. length (PM ! i) = 256)"

lemma pm_set_ok: "pm_ok PM \<Longrightarrow> pm_ok (pm_set PM i j v)"
  by (cases "i < 8") (auto simp: pm_ok_def pm_set_def nth_list_update)

lemma pm_set_get:
  "pm_ok PM \<Longrightarrow> i < 8 \<Longrightarrow> j < 256 \<Longrightarrow> i' < 8 \<Longrightarrow>
     pm_set PM i j v ! i' ! j' = (if i' = i \<and> j' = j then v else PM ! i' ! j')"
  by (auto simp: pm_ok_def pm_set_def nth_list_update)

lemma pm_clear:
  assumes "pm_ok PM" and "n \<le> 8"
  shows "pm_ok (fold (\<lambda>i PM. pm_set PM i 0 0) [0..<n] PM)
    \<and> (\<forall>i < n. fold (\<lambda>i PM. pm_set PM i 0 0) [0..<n] PM ! i ! 0 = 0)"
  using assms(2)
proof (induction n)
  case (Suc n)
  then show ?case
    by (auto simp: pm_set_ok pm_set_get less_Suc_eq)
qed (simp add: assms(1))

lemma power_below_256: "b < 8 \<Longrightarrow> (2 :: nat) ^ b < 256"
  using power_strict_increasing[of b 8 "2 :: nat"] by simp

lemma pm_power_MUL64x:
  "pm_power c i PM = pm_set PM (i div 8) (2 ^ (i mod 8)) (s3g_MUL64x (PM ! ((i - 1) div 8) ! (2 ^ ((i - 1) mod 8))) c)"
  by (simp only: pm_power_def bit_and_exp MUL64x_bit Let_def) simp

lemma pm_powers:
  fixes c :: u64
  assumes "pm_ok PM" and "\<forall>i < 8. PM ! i ! 0 = 0" and "PM ! 0 ! 1 = P" and "1 \<le> n" and "n \<le> 64"
  defines "R \<equiv> \<lambda>n. fold (pm_power c) [1..<n] PM"
  shows "pm_ok (R n) \<and> (\<forall>i < 8. R n ! i ! 0 = 0) \<and> (\<forall>m < n. R n ! (m div 8) ! (2 ^ (m mod 8)) = s3g_MUL64xPOW P m c)"
  using assms(4,5)
proof (induction n rule: nat_induct_at_least)
  case base
  then show ?case
    using assms(1,2,3) by (simp add: R_def)
next
  case (Suc n)
  have IH: "pm_ok (R n)" "\<forall>i < 8. R n ! i ! 0 = 0"
    "\<And>m. m < n \<Longrightarrow> R n ! (m div 8) ! (2 ^ (m mod 8)) = s3g_MUL64xPOW P m c"
    using Suc by auto
  have n: "n div 8 < 8" "(2 :: nat) ^ (n mod 8) < 256"
    using Suc.prems power_below_256[of "n mod 8"] by auto
  obtain k where k: "n = Suc k"
    using Suc.hyps by (cases n) auto
  have "pm_power c n (R n) = pm_set (R n) (n div 8) (2 ^ (n mod 8)) (s3g_MUL64xPOW P n c)"
    using IH(3)[of k] by (simp add: pm_power_MUL64x k)
  moreover have "R (Suc n) = pm_power c n (R n)"
    using Suc.hyps by (simp add: R_def)
  ultimately have R: "R (Suc n) = pm_set (R n) (n div 8) (2 ^ (n mod 8)) (s3g_MUL64xPOW P n c)"
    by simp
  have "R (Suc n) ! (m div 8) ! (2 ^ (m mod 8)) = s3g_MUL64xPOW P m c" if "m < Suc n" for m
  proof (cases "m = n")
    case True
    then show ?thesis
      using R n by (simp add: pm_set_get[OF IH(1)])
  next
    case False
    then have "m div 8 \<noteq> n div 8 \<or> (2 :: nat) ^ (m mod 8) \<noteq> 2 ^ (n mod 8)"
      by (metis div_mult_mod_eq power_inject_exp one_less_numeral_iff semiring_norm(76))
    then show ?thesis
      using R n IH(3)[of m] that False Suc.prems by (auto simp: pm_set_get[OF IH(1)])
  qed
  then show ?case
    using R n IH(1,2) by (auto simp: pm_set_ok pm_set_get[OF IH(1)])
qed

lemma pm_fill_rows:
  assumes "length PM = 8" and "n \<le> 8"
  shows "length (fold (\<lambda>i PM. PM[i := f (PM ! i)]) [0..<n] PM) = 8
    \<and> (\<forall>i < 8. fold (\<lambda>i PM. PM[i := f (PM ! i)]) [0..<n] PM ! i = (if i < n then f (PM ! i) else PM ! i))"
  using assms(2)
proof (induction n)
  case (Suc n)
  then show ?case
    using assms(1) by (auto simp: nth_list_update less_Suc_eq)
qed (simp add: assms(1))

lemma PRE_MUL_P_spec:
  assumes "pm_ok PM0" and "i < 8" and "x < 256"
  shows "s3g_PRE_MUL_P PM0 P c ! i ! x = bit_sum (\<lambda>b. s3g_MUL64xPOW P (8 * i + b) c) (bit x) 8"
proof -
  let ?PM1 = "fold (\<lambda>i PM. pm_set PM i 0 0) [0..<8] PM0"
  let ?PM2 = "pm_set ?PM1 0 1 P"
  let ?PM3 = "fold (pm_power c) [1..<64] ?PM2"
  have 1: "pm_ok ?PM1" "\<forall>i < 8. ?PM1 ! i ! 0 = 0"
    using pm_clear[OF assms(1), of 8] by auto
  have 2: "pm_ok ?PM2" "\<forall>i < 8. ?PM2 ! i ! 0 = 0" "?PM2 ! 0 ! 1 = P"
    using 1 by (simp_all add: pm_set_ok pm_set_get)
  have 3: "pm_ok ?PM3" "\<forall>i < 8. ?PM3 ! i ! 0 = 0"
    "\<And>m. m < 64 \<Longrightarrow> ?PM3 ! (m div 8) ! (2 ^ (m mod 8)) = s3g_MUL64xPOW P m c"
    using pm_powers[OF 2, of 64 c] by auto
  have "?PM3 ! i ! (2 ^ b) = s3g_MUL64xPOW P (8 * i + b) c" if "b < 8" for b
    using 3(3)[of "8 * i + b"] that assms(2) by simp
  then have "row_basis (\<lambda>b. s3g_MUL64xPOW P (8 * i + b) c) (?PM3 ! i)"
    using 3(1,2) assms(2) by (simp add: row_basis_def pm_ok_def)
  then show ?thesis
    using fill_row_spec[of _ "?PM3 ! i"] pm_fill_rows[of ?PM3 8 pm_fill_row] 3(1) assms(2,3)
    by (simp add: s3g_PRE_MUL_P_def Let_def pm_ok_def)
qed

lemma byte_index: "unat (drop_bit n (X :: u64) AND 0xff) < 256" "b < 8 \<Longrightarrow> bit (unat (drop_bit n X AND 0xff)) b \<longleftrightarrow> bit X (n + b)"
proof -
  have m: "drop_bit n X AND 0xff = take_bit 8 (drop_bit n X)"
    using take_bit_eq_mask[of 8 "drop_bit n X"] by (simp add: mask_eq_exp_minus_1)
  show "unat (drop_bit n X AND 0xff) < 256"
    unfolding m unat_take_bit by simp
  show "b < 8 \<Longrightarrow> bit (unat (drop_bit n X AND 0xff)) b \<longleftrightarrow> bit X (n + b)"
    unfolding m by (simp add: bit_simps)
qed

lemma MUL_P_byte:
  assumes "pm_ok PM0" and "i < 8"
  shows "s3g_PRE_MUL_P PM0 P c ! i ! unat (drop_bit (8 * i) (X :: u64) AND 0xff)
    = xsum (\<lambda>b. if bit X (8 * i + b) then s3g_MUL64xPOW P (8 * i + b) c else 0) 8"
  unfolding PRE_MUL_P_spec[OF assms byte_index(1)] bit_sum_def
  by (rule xsum_cong) (simp add: byte_index(2))

lemma xsum_64: "xsum f 64 = xsum f 8 XOR xsum (\<lambda>b. f (8 + b)) 8 XOR xsum (\<lambda>b. f (16 + b)) 8 XOR xsum (\<lambda>b. f (24 + b)) 8
  XOR xsum (\<lambda>b. f (32 + b)) 8 XOR xsum (\<lambda>b. f (40 + b)) 8 XOR xsum (\<lambda>b. f (48 + b)) 8 XOR xsum (\<lambda>b. f (56 + b)) 8"
  using xsum_append[of f 8 8] xsum_append[of f 16 8] xsum_append[of f 24 8] xsum_append[of f 32 8]
    xsum_append[of f 40 8] xsum_append[of f 48 8] xsum_append[of f 56 8] by (simp add: xor.assoc)

text \<open>The table lookup is the multiplication.\<close>

lemma MUL_P_MUL64:
  assumes "pm_ok PM0"
  shows "s3g_MUL_P (s3g_PRE_MUL_P PM0 P c) X = s3g_MUL64 X P c"
proof -
  have "s3g_MUL_P (s3g_PRE_MUL_P PM0 P c) X = xsum (\<lambda>m. if bit X m then s3g_MUL64xPOW P m c else 0) 64"
    unfolding s3g_MUL_P_def xsum_64
    using MUL_P_byte[OF assms, of 0 P c X] MUL_P_byte[OF assms, of 1 P c X] MUL_P_byte[OF assms, of 2 P c X]
      MUL_P_byte[OF assms, of 3 P c X] MUL_P_byte[OF assms, of 4 P c X] MUL_P_byte[OF assms, of 5 P c X]
      MUL_P_byte[OF assms, of 6 P c X] MUL_P_byte[OF assms, of 7 P c X] by (simp cong: if_cong)
  also have "\<dots> = s3g_MUL64 P X c"
    by (simp add: MUL64_sum bit_sum_def)
  also have "\<dots> = s3g_MUL64 X P c"
    by (rule MUL64_commute)
  finally show ?thesis .
qed

section \<open>The MAC as evaluation of a polynomial\<close>

text \<open>
  The reference: the message is cut into blocks of eight bytes, most significant byte first, the last one
  padded with zeros; the blocks are the coefficients of a polynomial that is evaluated at \<open>P\<close> by Horner's scheme,
  the length is added, and the result is multiplied by \<open>Q\<close>.
\<close>

fun be64_from :: "nat \<Rightarrow> bytes \<Rightarrow> u64" where
  "be64_from i [] = 0"
| "be64_from i (b # bs) = push_bit (8 * (7 - i)) (ucast b) OR be64_from (Suc i) bs"

definition f9_message :: "bytes \<Rightarrow> u64 list" where
  "f9_message data = map (\<lambda>j. be64_from 0 (take 8 (drop (8 * j) data))) [0..<(length data + 7) div 8]"

definition f9_horner :: "u64 \<Rightarrow> u64 list \<Rightarrow> u64 \<Rightarrow> u64" where
  "f9_horner P ms e = foldl (\<lambda>e m. s3g_MUL64 (e XOR m) P 0x1b) e ms"

definition be32_bytes :: "u32 \<Rightarrow> bytes" where
  "be32_bytes w = [ucast (drop_bit 24 w), ucast (drop_bit 16 w), ucast (drop_bit 8 w), ucast w]"

definition uia2 :: "bytes \<Rightarrow> u32 \<Rightarrow> u32 \<Rightarrow> u32 \<Rightarrow> bytes \<Rightarrow> bytes" where
  "uia2 key count fresh dir data =
     (let z = s3g_generate_keystream (s3g_initialize
            [s3g_key_word key 12, s3g_key_word key 8, s3g_key_word key 4, s3g_key_word key 0]
            [fresh XOR push_bit 15 dir, count XOR push_bit 31 dir, fresh, count]) 5;
          P = push_bit 32 (ucast (z ! 0)) OR ucast (z ! 1);
          Q = push_bit 32 (ucast (z ! 2)) OR ucast (z ! 3);
          EVAL = s3g_MUL64 (f9_horner P (f9_message data) 0 XOR of_nat (8 * length data)) Q 0x1b
      in be32_bytes (ucast (drop_bit 32 EVAL) XOR z ! 4))"

lemma take_8:
  assumes "b + 7 < length xs"
  shows "take 8 (drop b xs) = [xs ! b, xs ! (b + 1), xs ! (b + 2), xs ! (b + 3), xs ! (b + 4), xs ! (b + 5), xs ! (b + 6), xs ! (b + 7)]"
proof -
  have "take 8 (drop b xs) = map (\<lambda>i. xs ! (b + i)) [0..<8]"
    using assms by (intro nth_equalityI) simp_all
  then show ?thesis
    by (simp add: upt_rec numeral_eq_Suc)
qed

lemma be64_take_8:
  assumes "b + 7 < length data"
  shows "be64_from 0 (take 8 (drop b data)) = s3g_data data b 56 OR s3g_data data (b + 1) 48 OR s3g_data data (b + 2) 40
    OR s3g_data data (b + 3) 32 OR s3g_data data (b + 4) 24 OR s3g_data data (b + 5) 16 OR s3g_data data (b + 6) 8
    OR s3g_data data (b + 7) 0"
  unfolding take_8[OF assms] by (simp add: s3g_data_def or.assoc)

lemma unat_of_nat_u64: "k < 2 ^ 64 \<Longrightarrow> unat (of_nat k :: u64) = k"
  by (simp only: unat_of_nat) (simp add: take_bit_eq_mod)

lemma unat_drop_bit: "unat (drop_bit n (x :: 'a::len word)) = unat x div 2 ^ n"
proof -
  have "take_bit LENGTH('a) (unat x) = unat x"
    by (intro take_bit_nat_eq_self) simp
  then show ?thesis
    by (simp only: unsigned_drop_bit_eq) (simp add: drop_bit_eq_div)
qed

lemma f9_blocks_spec:
  assumes "D - 2 = of_nat q" and "8 * q < length data" and "length data < 2 ^ 29" and "i \<le> q"
    and PM: "\<And>X. s3g_MUL_P PM X = s3g_MUL64 X P 0x1b"
  shows "f9_blocks PM data D (of_nat i) e =
    Some (f9_horner P (map (\<lambda>j. be64_from 0 (take 8 (drop (8 * j) data))) [i..<q]) e)"
  using assms(4)
proof (induction "q - i" arbitrary: i e)
  case 0
  then show ?case
    using assms(1) by (simp add: f9_blocks.simps f9_horner_def)
next
  case (Suc k)
  have q: "q < 2 ^ 29"
    using assms(2,3) by simp
  have lt: "(of_nat i :: u32) < of_nat q" and b: "unat (8 * of_nat i :: u32) = 8 * i"
    using Suc.hyps(2) q unat_of_nat_u32[of "8 * i"]
    by (simp_all add: word_less_nat_alt unat_of_nat_u32 of_nat_mult)
  have in_range: "8 * i + 7 < length data"
    using Suc.hyps(2) assms(2) by simp
  have "of_nat i < D - 2" "\<not> length data \<le> 8 * i + 7"
    using lt in_range by (simp_all add: assms(1))
  then have "f9_blocks PM data D (of_nat i) e = f9_blocks PM data D (of_nat i + 1)
    (s3g_MUL64 (e XOR be64_from 0 (take 8 (drop (8 * i) data))) P 0x1b)"
    by (simp only: f9_blocks.simps[of PM data D "of_nat i" e] b be64_take_8[OF in_range] PM Let_def if_True if_False)
  then show ?case
    using Suc.hyps(1)[of "Suc i"] Suc.hyps(2) Suc.prems
    by (simp add: f9_horner_def upt_conv_Cons add.commute[of _ "1 :: u32"])
qed

lemma f9_tail_spec:
  "i + r \<le> 8 \<Longrightarrow> b + i + r \<le> length data \<Longrightarrow>
     f9_tail data b (8 * r) i M = Some (M OR be64_from i (take r (drop (b + i) data)))"
proof (induction r arbitrary: i M)
  case 0
  then show ?case
    by (simp add: f9_tail.simps)
next
  case (Suc r)
  have "drop (b + i) data = data ! (b + i) # drop (b + Suc i) data"
    using Suc.prems by (simp add: Cons_nth_drop_Suc)
  then show ?case
    using Suc.IH[of "Suc i"] Suc.prems by (simp add: f9_tail.simps[of data b "8 + 8 * r"] s3g_data_def or.assoc)
qed

lemma f9_sizes:
  assumes "0 < n" and "n < 2 ^ 29"
  defines "len \<equiv> of_nat (8 * n) :: u64" and "q \<equiv> (n - 1) div 8"
  shows "(ucast (if len mod 64 = 0 then drop_bit 6 len + 1 else drop_bit 6 len + 2) :: u32) - 2 = of_nat q"
    and "(if len mod 64 = 0 then 64 else unat (len mod 64)) = 8 * (n - 8 * q)"
    and "(n + 7) div 8 = Suc q"
proof -
  have len: "unat len = 8 * n"
    using assms(2) unfolding len_def by (intro unat_of_nat_u64) simp
  then have md: "unat (len mod 64) = 8 * (n mod 8)"
    using mult_mod_right[of 8 n 8] by (simp add: unat_mod)
  have dv: "unat (drop_bit 6 len) = n div 8"
    using len unat_drop_bit[of 6 len] by simp
  have n: "n div 8 < 2 ^ 29" "n = n div 8 * 8 + n mod 8"
    using assms(2) by auto
  have zero: "len mod 64 = 0 \<longleftrightarrow> n mod 8 = 0"
    using md by (metis mult_eq_0_iff unat_eq_zero zero_neq_numeral)
  have "drop_bit 6 len = of_nat (n div 8)"
    using dv by (metis of_nat_unat ucast_id)
  then have "ucast (drop_bit 6 len + k) = (of_nat (n div 8 + unat k) :: u32)" if "unat k \<le> 2" for k
  proof -
    have "unat (drop_bit 6 len + k) = n div 8 + unat k"
      using that n(1) dv by (simp add: unat_word_ariths)
    then show ?thesis
      by (metis of_nat_unat)
  qed
  note D = this[of 1] this[of 2]
  have q: "n div 8 = (if n mod 8 = 0 then Suc q else q)"
    using assms(1) by (cases n) (simp_all add: q_def div_Suc)
  show "(ucast (if len mod 64 = 0 then drop_bit 6 len + 1 else drop_bit 6 len + 2) :: u32) - 2 = of_nat q"
    using D zero q by (simp split: if_splits)
  show "(if len mod 64 = 0 then 64 else unat (len mod 64)) = 8 * (n - 8 * q)"
    using zero md n(2) q by (auto split: if_splits)
  show "(n + 7) div 8 = Suc q"
    using assms(1) by (simp add: q_def)
qed

lemma f9_mac_bytes:
  "map (\<lambda>i. ucast ((drop_bit (56 - 8 * i) (E :: u64) XOR ucast (drop_bit (24 - 8 * i) (w :: u32))) AND 0xff)) [0..<4]
    = be32_bytes (ucast (drop_bit 32 E) XOR w)"
proof -
  have ff: "(x :: u64) AND 0xff = take_bit 8 x" for x
    using take_bit_eq_mask[of 8 x] by (simp add: mask_eq_exp_minus_1)
  have "ucast ((drop_bit (32 + n) E XOR ucast (drop_bit n w)) AND 0xff) = (ucast (drop_bit n (ucast (drop_bit 32 E) XOR w)) :: u8)"
    if "n \<le> 24" for n
    using that unfolding ff by (intro bit_eqI) (auto simp: bit_simps ac_simps)
  from this[of 24] this[of 16] this[of 8] this[of 0] show ?thesis
    by (simp add: be32_bytes_def upt_rec numeral_eq_Suc)
qed

lemma ceil_div_8: "0 < (n :: nat) \<Longrightarrow> (n + 7) div 8 = Suc ((n - 1) div 8)"
  by simp

lemma floor_div_8: "0 < (n :: nat) \<Longrightarrow> 8 * ((n - 1) div 8) < n" "0 < (n :: nat) \<Longrightarrow> n - 8 * ((n - 1) div 8) \<le> 8"
  by presburger+

lemma f9_message_split:
  assumes "data \<noteq> []"
  defines "q \<equiv> (length data - 1) div 8"
  shows "f9_message data = map (\<lambda>j. be64_from 0 (take 8 (drop (8 * j) data))) [0..<q] @ [be64_from 0 (drop (8 * q) data)]"
    and "8 * q < length data" and "length data - 8 * q \<le> 8"
proof -
  have n: "0 < length data"
    using assms(1) by simp
  then show "8 * q < length data" and le: "length data - 8 * q \<le> 8"
    unfolding q_def by (rule floor_div_8)+
  have "(length data + 7) div 8 = Suc q"
    using ceil_div_8[OF n] by (simp add: q_def)
  then show "f9_message data = map (\<lambda>j. be64_from 0 (take 8 (drop (8 * j) data))) [0..<q] @ [be64_from 0 (drop (8 * q) data)]"
    using le by (simp add: f9_message_def)
qed

lemma f9_exact:
  assumes "pm_ok PM0" and "data \<noteq> []" and "length data < 2 ^ 29"
  shows "s3g_f9 PM0 key count fresh dir data (of_nat (8 * length data)) = Some (uia2 key count fresh dir data)"
proof -
  let ?n = "length data" and ?q = "(length data - 1) div 8" and ?len = "of_nat (8 * length data) :: u64"
  let ?D = "ucast (if ?len mod 64 = 0 then drop_bit 6 ?len + 1 else drop_bit 6 ?len + 2) :: u32"
  have n: "0 < ?n"
    using assms(2) by simp
  note sizes = f9_sizes[OF n assms(3)]
  note msg = f9_message_split[OF assms(2)]
  have b: "unat (8 * (?D - 2)) = 8 * ?q"
  proof -
    have "8 * (?D - 2) = of_nat (8 * ?q)"
      by (simp only: sizes(1)) simp
    then show ?thesis
      using msg(2) assms(3) unat_of_nat_u32[of "8 * ?q"] by simp
  qed
  have blocks: "f9_blocks (s3g_PRE_MUL_P PM0 P 0x1b) data ?D 0 0
    = Some (f9_horner P (map (\<lambda>j. be64_from 0 (take 8 (drop (8 * j) data))) [0..<?q]) 0)" for P
    using f9_blocks_spec[OF sizes(1) msg(2) assms(3), of 0 "s3g_PRE_MUL_P PM0 P 0x1b" P 0] MUL_P_MUL64[OF assms(1)]
    by simp
  have tail: "f9_tail data (unat (8 * (?D - 2))) (if ?len mod 64 = 0 then 64 else unat (?len mod 64)) 0 0
    = Some (be64_from 0 (drop (8 * ?q) data))"
    unfolding b sizes(2) using f9_tail_spec[of 0 "?n - 8 * ?q" "8 * ?q" data 0] msg(2,3) by simp
  show ?thesis
    unfolding s3g_f9_def Let_def blocks tail bind.simps f9_mac_bytes uia2_def msg(1) MUL_P_MUL64[OF assms(1)]
    by (simp add: f9_horner_def)
qed

section \<open>The tables are the functions of the specification\<close>

text \<open>Multiplication with a power of \<open>x\<close> in the byte field is linear over exclusive or.\<close>

lemma mul_x_bit: "s3g_mul_x v c = push_bit 1 v XOR (if bit v 7 then c else 0)"
proof -
  have "(0x80 :: u8) = push_bit 7 1"
    by (simp add: push_bit_eq_mult)
  then show ?thesis
    by (simp only: s3g_mul_x_def bit_and_exp) simp
qed

lemma mul_x_pow_xor: "s3g_mul_x_pow (a XOR b) i c = s3g_mul_x_pow a i c XOR s3g_mul_x_pow b i c"
  by (induction i) (auto simp: mul_x_bit bit_xor_iff push_bit_xor ac_simps)

definition make_word :: "u8 \<Rightarrow> u8 \<Rightarrow> u8 \<Rightarrow> u8 \<Rightarrow> u32" where
  "make_word a b c d = push_bit 24 (ucast a) OR push_bit 16 (ucast b) OR push_bit 8 (ucast c) OR ucast d"

definition mul_alpha_ref :: "u8 \<Rightarrow> u32" where
  "mul_alpha_ref c = make_word (s3g_mul_x_pow c 23 0xA9) (s3g_mul_x_pow c 245 0xA9) (s3g_mul_x_pow c 48 0xA9) (s3g_mul_x_pow c 239 0xA9)"

definition div_alpha_ref :: "u8 \<Rightarrow> u32" where
  "div_alpha_ref c = make_word (s3g_mul_x_pow c 16 0xA9) (s3g_mul_x_pow c 39 0xA9) (s3g_mul_x_pow c 6 0xA9) (s3g_mul_x_pow c 64 0xA9)"

definition sbox_ref :: "(u8 \<Rightarrow> u8) \<Rightarrow> u8 \<Rightarrow> u32 \<Rightarrow> u32" where
  "sbox_ref S p w =
     (let s0 = S (ucast (drop_bit 24 w)); s1 = S (ucast (drop_bit 16 w)); s2 = S (ucast (drop_bit 8 w)); s3 = S (ucast w);
          m = (\<lambda>v. s3g_mul_x v p)
      in make_word (m s0 XOR s1 XOR s2 XOR m s3 XOR s3) (m s0 XOR s0 XOR m s1 XOR s2 XOR s3)
           (s0 XOR m s1 XOR s1 XOR m s2 XOR s3) (s0 XOR s1 XOR m s2 XOR s2 XOR m s3))"

lemma of_nat_power_add: "j < 8 \<Longrightarrow> k < 2 ^ j \<Longrightarrow> (of_nat (2 ^ j + k) :: u8) = of_nat (2 ^ j) XOR of_nat k"
proof -
  assume j: "j < 8" and k: "k < 2 ^ j"
  have "bit (of_nat k :: u8) b \<Longrightarrow> b < j" for b
    using nat_bit_bound[OF k, of b] by (meson bit_of_nat_iff not_less)
  then have "(of_nat (2 ^ j) :: u8) AND of_nat k = 0"
    by (intro bit_eqI) (auto simp: bit_simps)
  then show ?thesis
    by (simp add: disjunctive_add_eq_xor)
qed

lemma make_word_xor: "make_word (a XOR a') (b XOR b') (c XOR c') (d XOR d') = make_word a b c d XOR make_word a' b' c' d'"
  by (rule bit_eqI) (auto simp: make_word_def bit_simps dest: bit_imp_le_length)

lemma make_word_zero: "make_word 0 0 0 0 = 0"
  by (simp add: make_word_def)

lemma mul_x_pow_zero: "s3g_mul_x_pow 0 i c = 0"
  by (induction i) (simp_all add: mul_x_bit)

text \<open>A table that is linear in its index is given by its values at the powers of two.\<close>

definition linear_table :: "u32 list \<Rightarrow> u32 list" where
  "linear_table bs = foldl (\<lambda>t b. t @ map (\<lambda>x. b XOR x) t) [0] bs"

lemma linear_table_nth:
  assumes "f 0 = 0" and "\<And>a b. f (a XOR b) = f a XOR f b"
  shows "length bs \<le> 8 \<Longrightarrow> (\<And>j. j < length bs \<Longrightarrow> bs ! j = f (of_nat (2 ^ j) :: u8)) \<Longrightarrow>
    length (linear_table bs) = 2 ^ length bs \<and> (\<forall>x < 2 ^ length bs. linear_table bs ! x = f (of_nat x))"
proof (induction bs rule: rev_induct)
  case Nil
  then show ?case
    using assms(1) by (simp add: linear_table_def)
next
  case (snoc b bs)
  have "bs ! j = f (of_nat (2 ^ j))" if "j < length bs" for j
    using snoc.prems(2)[of j] that by (simp add: nth_append)
  then have IH: "length (linear_table bs) = 2 ^ length bs" "\<And>x. x < 2 ^ length bs \<Longrightarrow> linear_table bs ! x = f (of_nat x)"
    using snoc.IH snoc.prems(1) by simp_all
  have b: "b = f (of_nat (2 ^ length bs))"
    using snoc.prems(2)[of "length bs"] by simp
  have split: "linear_table (bs @ [b]) = linear_table bs @ map (\<lambda>x. b XOR x) (linear_table bs)"
    by (simp add: linear_table_def)
  have "linear_table (bs @ [b]) ! x = f (of_nat x)" if "x < 2 ^ Suc (length bs)" for x
  proof (cases "x < 2 ^ length bs")
    case True
    then show ?thesis
      using IH split by (simp add: nth_append)
  next
    case False
    let ?k = "x - 2 ^ length bs"
    have k: "?k < 2 ^ length bs" "x = 2 ^ length bs + ?k" "length bs < 8"
      using False that snoc.prems(1) by auto
    have "(of_nat x :: u8) = of_nat (2 ^ length bs) XOR of_nat ?k"
      using of_nat_power_add[OF k(3,1)] k(2) by metis
    then have "f (of_nat x) = f (of_nat (2 ^ length bs)) XOR f (of_nat ?k)"
      by (simp only: assms(2))
    then show ?thesis
      using IH split b k(1) False by (simp add: nth_append)
  qed
  then show ?case
    using IH(1) split by simp
qed

lemma linear_table_ref:
  assumes "f 0 = 0" and "\<And>a b. f (a XOR b) = f a XOR f b" and "T = linear_table bs"
    and "bs = [f 1, f 2, f 4, f 8, f 16, f 32, f 64, f 128]"
  shows "T ! unat (c :: u8) = f c"
proof -
  have "bs ! j = f (of_nat (2 ^ j))" if "j < length bs" for j
  proof -
    have "j \<in> set [0..<8]"
      using that assms(4) by simp
    then show ?thesis
      unfolding assms(4) by (auto simp: upt_rec numeral_eq_Suc)
  qed
  moreover have "unat c < 256" "length bs = 8"
    using unsigned_less[of c] assms(4) by simp_all
  ultimately have "linear_table bs ! unat c = f (of_nat (unat c))"
    using linear_table_nth[of f bs, OF assms(1,2)] by simp
  then show ?thesis
    using assms(3) by simp
qed

text \<open>The powers of \<open>x\<close> that the basis values need.\<close>

fun mul_x_chain :: "bytes \<Rightarrow> bool" where
  "mul_x_chain (a # b # xs) \<longleftrightarrow> b = s3g_mul_x a 0xA9 \<and> mul_x_chain (b # xs)"
| "mul_x_chain xs \<longleftrightarrow> True"

lemma mul_x_pow_shift: "s3g_mul_x_pow (s3g_mul_x v c) i c = s3g_mul_x (s3g_mul_x_pow v i c) c"
  by (induction i) simp_all

lemma mul_x_chain_nth: "mul_x_chain xs \<Longrightarrow> i < length xs \<Longrightarrow> xs ! i = s3g_mul_x_pow (hd xs) i 0xA9"
proof (induction xs arbitrary: i rule: mul_x_chain.induct)
  case (1 a b xs)
  then show ?case
    by (cases i) (auto simp: mul_x_pow_shift)
qed auto

lemma mul_x_pow_add: "s3g_mul_x_pow (s3g_mul_x_pow v j c) i c = s3g_mul_x_pow v (i + j) c"
  by (induction i) simp_all

definition x_powers :: bytes where
  "x_powers = [
     0x01, 0x02, 0x04, 0x08, 0x10, 0x20, 0x40, 0x80, 0xa9, 0xfb, 0x5f, 0xbe, 0xd5, 0x03, 0x06, 0x0c,
     0x18, 0x30, 0x60, 0xc0, 0x29, 0x52, 0xa4, 0xe1, 0x6b, 0xd6, 0x05, 0x0a, 0x14, 0x28, 0x50, 0xa0,
     0xe9, 0x7b, 0xf6, 0x45, 0x8a, 0xbd, 0xd3, 0x0f, 0x1e, 0x3c, 0x78, 0xf0, 0x49, 0x92, 0x8d, 0xb3,
     0xcf, 0x37, 0x6e, 0xdc, 0x11, 0x22, 0x44, 0x88, 0xb9, 0xdb, 0x1f, 0x3e, 0x7c, 0xf8, 0x59, 0xb2,
     0xcd, 0x33, 0x66, 0xcc, 0x31, 0x62, 0xc4, 0x21, 0x42, 0x84, 0xa1, 0xeb, 0x7f, 0xfe, 0x55, 0xaa,
     0xfd, 0x53, 0xa6, 0xe5, 0x63, 0xc6, 0x25, 0x4a, 0x94, 0x81, 0xab, 0xff, 0x57, 0xae, 0xf5, 0x43,
     0x86, 0xa5, 0xe3, 0x6f, 0xde, 0x15, 0x2a, 0x54, 0xa8, 0xf9, 0x5b, 0xb6, 0xc5, 0x23, 0x46, 0x8c,
     0xb1, 0xcb, 0x3f, 0x7e, 0xfc, 0x51, 0xa2, 0xed, 0x73, 0xe6, 0x65, 0xca, 0x3d, 0x7a, 0xf4, 0x41,
     0x82, 0xad, 0xf3, 0x4f, 0x9e, 0x95, 0x83, 0xaf, 0xf7, 0x47, 0x8e, 0xb5, 0xc3, 0x2f, 0x5e, 0xbc,
     0xd1, 0x0b, 0x16, 0x2c, 0x58, 0xb0, 0xc9, 0x3b, 0x76, 0xec, 0x71, 0xe2, 0x6d, 0xda, 0x1d, 0x3a,
     0x74, 0xe8, 0x79, 0xf2, 0x4d, 0x9a, 0x9d, 0x93, 0x8f, 0xb7, 0xc7, 0x27, 0x4e, 0x9c, 0x91, 0x8b,
     0xbf, 0xd7, 0x07, 0x0e, 0x1c, 0x38, 0x70, 0xe0, 0x69, 0xd2, 0x0d, 0x1a, 0x34, 0x68, 0xd0, 0x09,
     0x12, 0x24, 0x48, 0x90, 0x89, 0xbb, 0xdf, 0x17, 0x2e, 0x5c, 0xb8, 0xd9, 0x1b, 0x36, 0x6c, 0xd8,
     0x19, 0x32, 0x64, 0xc8, 0x39, 0x72, 0xe4, 0x61, 0xc2, 0x2d, 0x5a, 0xb4, 0xc1, 0x2b, 0x56, 0xac,
     0xf1, 0x4b, 0x96, 0x85, 0xa3, 0xef, 0x77, 0xee, 0x75, 0xea, 0x7d, 0xfa, 0x5d, 0xba, 0xdd, 0x13,
     0x26, 0x4c, 0x98, 0x99, 0x9b, 0x9f, 0x97, 0x87, 0xa7, 0xe7, 0x67, 0xce, 0x35]"

lemma x_powers_chain: "mul_x_chain x_powers"
  by (simp add: x_powers_def s3g_mul_x_def)

lemma x_power: "n < 253 \<Longrightarrow> s3g_mul_x_pow 1 n 0xA9 = x_powers ! n"
  using mul_x_chain_nth[OF x_powers_chain, of n] by (simp add: x_powers_def)

lemma x_power_basis: "j < 8 \<Longrightarrow> n \<le> 245 \<Longrightarrow> s3g_mul_x_pow (x_powers ! j) n 0xA9 = x_powers ! (n + j)"
  using x_power[of j] x_power[of "n + j"] mul_x_pow_add[of 1 j "0xA9" n] by simp

lemma x_power_bases: "n \<le> 245 \<Longrightarrow> s3g_mul_x_pow 1 n 0xA9 = x_powers ! n"
  "n \<le> 245 \<Longrightarrow> s3g_mul_x_pow 2 n 0xA9 = x_powers ! (n + 1)" "n \<le> 245 \<Longrightarrow> s3g_mul_x_pow 4 n 0xA9 = x_powers ! (n + 2)"
  "n \<le> 245 \<Longrightarrow> s3g_mul_x_pow 8 n 0xA9 = x_powers ! (n + 3)" "n \<le> 245 \<Longrightarrow> s3g_mul_x_pow 16 n 0xA9 = x_powers ! (n + 4)"
  "n \<le> 245 \<Longrightarrow> s3g_mul_x_pow 32 n 0xA9 = x_powers ! (n + 5)" "n \<le> 245 \<Longrightarrow> s3g_mul_x_pow 64 n 0xA9 = x_powers ! (n + 6)"
  "n \<le> 245 \<Longrightarrow> s3g_mul_x_pow 128 n 0xA9 = x_powers ! (n + 7)"
  using x_power_basis[of 0 n] x_power_basis[of 1 n] x_power_basis[of 2 n] x_power_basis[of 3 n]
    x_power_basis[of 4 n] x_power_basis[of 5 n] x_power_basis[of 6 n] x_power_basis[of 7 n]
  by (simp_all add: x_powers_def del: s3g_mul_x_pow.simps)

lemma mul_alpha_exact: "s3g_mul_alpha c = mul_alpha_ref c"
  unfolding s3g_mul_alpha_def
proof (rule linear_table_ref[of mul_alpha_ref])
  show "mul_alpha_ref 0 = 0" "\<And>a b. mul_alpha_ref (a XOR b) = mul_alpha_ref a XOR mul_alpha_ref b"
    by (simp_all add: mul_alpha_ref_def mul_x_pow_zero mul_x_pow_xor make_word_zero make_word_xor)
  show "MUL_ALPHA = linear_table [0xe19fcf13, 0x6b973726, 0xd6876e4c, 0x05a7dc98, 0x0ae71199, 0x1467229b, 0x28ce449f, 0x50358897]"
    by (simp add: MUL_ALPHA_def linear_table_def)
  show "[0xe19fcf13, 0x6b973726, 0xd6876e4c, 0x05a7dc98, 0x0ae71199, 0x1467229b, 0x28ce449f, 0x50358897]
    = [mul_alpha_ref 1, mul_alpha_ref 2, mul_alpha_ref 4, mul_alpha_ref 8, mul_alpha_ref 16, mul_alpha_ref 32, mul_alpha_ref 64, mul_alpha_ref 128]"
    by (simp add: mul_alpha_ref_def make_word_def x_power_bases) (simp add: x_powers_def)
qed

lemma div_alpha_exact: "s3g_div_alpha c = div_alpha_ref c"
  unfolding s3g_div_alpha_def
proof (rule linear_table_ref[of div_alpha_ref])
  show "div_alpha_ref 0 = 0" "\<And>a b. div_alpha_ref (a XOR b) = div_alpha_ref a XOR div_alpha_ref b"
    by (simp_all add: div_alpha_ref_def mul_x_pow_zero mul_x_pow_xor make_word_zero make_word_xor)
  show "DIV_ALPHA = linear_table [0x180f40cd, 0x301e8033, 0x603ca966, 0xc078fbcc, 0x29f05f31, 0x5249be62, 0xa492d5c4, 0xe18d0321]"
    by (simp add: DIV_ALPHA_def linear_table_def)
  show "[0x180f40cd, 0x301e8033, 0x603ca966, 0xc078fbcc, 0x29f05f31, 0x5249be62, 0xa492d5c4, 0xe18d0321]
    = [div_alpha_ref 1, div_alpha_ref 2, div_alpha_ref 4, div_alpha_ref 8, div_alpha_ref 16, div_alpha_ref 32, div_alpha_ref 64, div_alpha_ref 128]"
    by (simp add: div_alpha_ref_def make_word_def x_power_bases) (simp add: x_powers_def)
qed

text \<open>The S-box tables: each holds the contribution of one byte.\<close>

lemma S1_T0_map: "S1_T0 = map (\<lambda>s. make_word (s3g_mul_x s 0x1b XOR s) s s (s3g_mul_x s 0x1b)) s3g_SR"
  by (simp add: S1_T0_def s3g_SR_def make_word_def s3g_mul_x_def)

lemma S1_T1_map: "S1_T1 = map (\<lambda>s. make_word s s (s3g_mul_x s 0x1b) (s3g_mul_x s 0x1b XOR s)) s3g_SR"
  by (simp add: S1_T1_def s3g_SR_def make_word_def s3g_mul_x_def)

lemma S1_T2_map: "S1_T2 = map (\<lambda>s. make_word s (s3g_mul_x s 0x1b) (s3g_mul_x s 0x1b XOR s) s) s3g_SR"
  by (simp add: S1_T2_def s3g_SR_def make_word_def s3g_mul_x_def)

lemma S1_T3_map: "S1_T3 = map (\<lambda>s. make_word (s3g_mul_x s 0x1b) (s3g_mul_x s 0x1b XOR s) s s) s3g_SR"
  by (simp add: S1_T3_def s3g_SR_def make_word_def s3g_mul_x_def)

lemma S2_T0_map: "S2_T0 = map (\<lambda>s. make_word (s3g_mul_x s 0x69 XOR s) s s (s3g_mul_x s 0x69)) s3g_SQ"
  by (simp add: S2_T0_def s3g_SQ_def make_word_def s3g_mul_x_def)

lemma S2_T1_map: "S2_T1 = map (\<lambda>s. make_word s s (s3g_mul_x s 0x69) (s3g_mul_x s 0x69 XOR s)) s3g_SQ"
  by (simp add: S2_T1_def s3g_SQ_def make_word_def s3g_mul_x_def)

lemma S2_T2_map: "S2_T2 = map (\<lambda>s. make_word s (s3g_mul_x s 0x69) (s3g_mul_x s 0x69 XOR s) s) s3g_SQ"
  by (simp add: S2_T2_def s3g_SQ_def make_word_def s3g_mul_x_def)

lemma S2_T3_map: "S2_T3 = map (\<lambda>s. make_word (s3g_mul_x s 0x69) (s3g_mul_x s 0x69 XOR s) s s) s3g_SQ"
  by (simp add: S2_T3_def s3g_SQ_def make_word_def s3g_mul_x_def)

lemma length_substitutions: "length s3g_SR = 256" "length s3g_SQ = 256"
  by (simp_all add: s3g_SR_def s3g_SQ_def)

lemma byte_of_word: "(ucast ((x :: u32) AND 0xff) :: u8) = ucast x"
proof -
  have "x AND 0xff = take_bit 8 x"
    using take_bit_eq_mask[of 8 x] by (simp add: mask_eq_exp_minus_1)
  then show ?thesis
    by (simp only:) (intro bit_eqI, auto simp: bit_simps)
qed

lemma sbox_tables:
  assumes "length S = 256" and "T0 = map (\<lambda>s. make_word (s3g_mul_x s p XOR s) s s (s3g_mul_x s p)) S"
    and "T1 = map (\<lambda>s. make_word s s (s3g_mul_x s p) (s3g_mul_x s p XOR s)) S"
    and "T2 = map (\<lambda>s. make_word s (s3g_mul_x s p) (s3g_mul_x s p XOR s) s) S"
    and "T3 = map (\<lambda>s. make_word (s3g_mul_x s p) (s3g_mul_x s p XOR s) s s) S"
  shows "T0 ! unat (ucast (w AND 0xff) :: u8) XOR T1 ! unat (ucast (drop_bit 8 w AND 0xff) :: u8)
     XOR T2 ! unat (ucast (drop_bit 16 w AND 0xff) :: u8) XOR T3 ! unat (ucast (drop_bit 24 w AND 0xff) :: u8)
   = sbox_ref (\<lambda>b. S ! unat b) p w"
proof -
  have "unat b < length S" for b :: u8
    using unsigned_less[of b] assms(1) by simp
  then show ?thesis
    unfolding assms(2-) byte_of_word sbox_ref_def Let_def
    by (simp add: make_word_xor[symmetric]) (simp add: ac_simps)
qed

lemma s3g_s1_exact: "s3g_s1 w = sbox_ref (\<lambda>b. s3g_SR ! unat b) 0x1b w"
  unfolding s3g_s1_def by (rule sbox_tables[OF length_substitutions(1) S1_T0_map S1_T1_map S1_T2_map S1_T3_map])

lemma s3g_s2_exact: "s3g_s2 w = sbox_ref (\<lambda>b. s3g_SQ ! unat b) 0x69 w"
  unfolding s3g_s2_def by (rule sbox_tables[OF length_substitutions(2) S2_T0_map S2_T1_map S2_T2_map S2_T3_map])

section \<open>Properties\<close>

text \<open>
  C20: The lookup tables of SNOW 3G are what the specification defines: for every byte multiplication with and division by
  \<open>\<alpha>\<close> are the four powers of \<open>x\<close> modulo the polynomial \<open>0xA9\<close>, computed by the shift-and-reduce function of the same
  file, and for every word the two S-boxes are the byte substitutions \<open>SR\<close> and \<open>SQ\<close> followed by the mixing
  of columns with reduction by \<open>0x1b\<close> and \<open>0x69\<close>.
\<close>

theorem snow3g_tables_exact:
  "(\<forall>c. s3g_mul_alpha c = mul_alpha_ref c \<and> s3g_div_alpha c = div_alpha_ref c)
   \<and> (\<forall>w. s3g_s1 w = sbox_ref (\<lambda>b. s3g_SR ! unat b) 0x1b w \<and> s3g_s2 w = sbox_ref (\<lambda>b. s3g_SQ ! unat b) 0x69 w)"
  by (simp add: mul_alpha_exact div_alpha_exact s3g_s1_exact s3g_s2_exact)

text \<open>
  C19: The MAC function f9 with its precomputed tables: whatever the array of tables contains at first, for every key,
  parameters and non-empty message of bytes (below \<open>2^29\<close>, so that its length in bits fits 32 bits), it stays inside the
  message and returns the UIA2 value, the polynomial of the zero-padded message blocks evaluated by shift-and-add
  multiplication with \<open>P\<close> and \<open>Q\<close>.
\<close>

theorem s3g_f9_polynomial:
  assumes "length PM0 = 8" and "\<forall>i < 8. length (PM0 ! i) = 256" and "data \<noteq> []" and "length data < 2 ^ 29"
  shows "s3g_f9 PM0 key count fresh dir data (of_nat (8 * length data)) = Some (uia2 key count fresh dir data)"
  using assms by (intro f9_exact) (simp_all add: pm_ok_def)

theorem s3g_f9_polynomial_witness:
  "s3g_f9 (replicate 8 (replicate 256 7)) (replicate 16 1) 5 6 1 [0xAA, 0xBB, 3] 24 = Some (uia2 (replicate 16 1) 5 6 1 [0xAA, 0xBB, 3])"
  using s3g_f9_polynomial[of "replicate 8 (replicate 256 7)" "[0xAA, 0xBB, 3]" "replicate 16 1" 5 6 1] by simp

end
