(* ===== verification/Nea_Nia.thy ===== *)
theory Nea_Nia
  imports Security_Engine Zuc Snow3g
begin

unbundle bit_operations_syntax

text \<open>
  The algorithms behind the security engine: \<open>include/ocudu/security/ciphering.h\<close> (NEA1, NEA2, NEA3),
  \<open>include/ocudu/security/integrity.h\<close> (NIA1, NIA3), \<open>ciphering_engine_nea2.cpp\<close> and the CMAC of
  \<open>integrity_engine_nia2_non_cmac.cpp\<close>.  AES belongs to a library outside of the repository: its block function and its
  counter mode are the argument \<open>aes\<close>.  The lengths of messages in bits are 32-bit words as in the code; the results
  on whole messages hold up to \<open>2 ^ 29 - 4\<close> bytes, for NIA3 up to \<open>2 ^ 28 - 12\<close>.  The last part makes the record of algorithms of the engine from these functions and shows that they
  keep the contract \<open>sec_algorithms\<close>.
\<close>

section \<open>Shared pieces\<close>

definition dir_to_number :: "security_direction \<Rightarrow> u8" where
  "dir_to_number d = (if d = sec_uplink then 0 else 1)"

definition zero_tailing_bits :: "u8 \<Rightarrow> u8 \<Rightarrow> u8" where
  "zero_tailing_bits tail_byte length_bits = (let bits = (8 - (length_bits AND 7)) AND 7
     in tail_byte AND push_bit (unat bits) 0xff)"

definition xor_at :: "bytes \<Rightarrow> nat \<Rightarrow> u8 \<Rightarrow> bytes" where
  "xor_at msg i b = msg[i := msg ! i XOR b]"

text \<open>\<open>for (i = 0; i < msg_len_block_32 - 1; i++)\<close>\<close>

definition nea_blocks :: "u32 list \<Rightarrow> nat \<Rightarrow> bytes \<Rightarrow> bytes" where
  "nea_blocks ks n msg = fold (\<lambda>i m.
     xor_at (xor_at (xor_at (xor_at m (4 * i) (ucast (drop_bit 24 (ks ! i) AND 0xff)))
       (4 * i + 1) (ucast (drop_bit 16 (ks ! i) AND 0xff)))
       (4 * i + 2) (ucast (drop_bit 8 (ks ! i) AND 0xff)))
       (4 * i + 3) (ucast (ks ! i AND 0xff))) [0..<n] msg"

text \<open>\<open>for (i = (msg_len_block_32 - 1) * 4; i < msg_len_block_8; i++)\<close>, where \<open>offset\<close> equals \<open>i\<close>\<close>

definition nea_last :: "u32 list \<Rightarrow> nat \<Rightarrow> nat \<Rightarrow> bytes \<Rightarrow> bytes" where
  "nea_last ks a b msg = fold (\<lambda>i m. xor_at m i (ucast (drop_bit ((3 - i mod 4) * 8) (ks ! (i div 4)) AND 0xff))) [a..<b] msg"

definition nea_xor :: "u32 list \<Rightarrow> u32 \<Rightarrow> bytes \<Rightarrow> bytes" where
  "nea_xor ks msg_len msg =
     (let block_8 = (msg_len + 7) div 8; block_32 = (msg_len + 31) div 32
      in nea_last ks (unat ((block_32 - 1) * 4)) (unat block_8) (nea_blocks ks (unat block_32 - 1) msg))"

section \<open>NEA1\<close>

definition nea1_key_word :: "bytes \<Rightarrow> nat \<Rightarrow> u32" where
  "nea1_key_word key j = push_bit 24 (ucast (key ! j)) OR push_bit 16 (ucast (key ! (j + 1)))
     OR push_bit 8 (ucast (key ! (j + 2))) OR ucast (key ! (j + 3))"

definition nea1_keystream :: "bytes \<Rightarrow> u32 \<Rightarrow> u8 \<Rightarrow> security_direction \<Rightarrow> nat \<Rightarrow> u32 list" where
  "nea1_keystream key count bearer direction n =
     (let k = [nea1_key_word key 12, nea1_key_word key 8, nea1_key_word key 4, nea1_key_word key 0];
          iv2 = push_bit 27 (ucast (bearer AND 0x1f)) OR push_bit 26 (ucast (dir_to_number direction AND 1))
      in s3g_generate_keystream (s3g_initialize k [iv2, count, iv2, count]) n)"

definition security_nea1 :: "bytes \<Rightarrow> u32 \<Rightarrow> u8 \<Rightarrow> security_direction \<Rightarrow> bytes \<Rightarrow> u32 \<Rightarrow> bytes" where
  "security_nea1 key count bearer direction msg msg_len =
     (let len = length msg; block_8 = unat ((msg_len + 7) div 8); block_32 = unat ((msg_len + 31) div 32)
      in if block_8 \<le> len \<and> 0 < len then
           (let m = nea_xor (nea1_keystream key count bearer direction block_32) msg_len msg
            in m[block_8 - 1 := zero_tailing_bits (m ! (block_8 - 1)) (ucast msg_len)])
         else msg)"

section \<open>NEA3\<close>

definition nea3_keystream :: "bytes \<Rightarrow> u32 \<Rightarrow> u8 \<Rightarrow> security_direction \<Rightarrow> nat \<Rightarrow> u32 list" where
  "nea3_keystream key count bearer direction n =
     (let half = [ucast (drop_bit 24 count AND 0xff), ucast (drop_bit 16 count AND 0xff), ucast (drop_bit 8 count AND 0xff),
            ucast (count AND 0xff), push_bit 3 (bearer AND 0x1f) OR push_bit 2 (dir_to_number direction AND 1), 0, 0, 0]
      in fst (zuc_generate_keystream (zuc_initialize key (half @ half)) n))"

definition security_nea3 :: "bytes \<Rightarrow> u32 \<Rightarrow> u8 \<Rightarrow> security_direction \<Rightarrow> bytes \<Rightarrow> u32 \<Rightarrow> bytes" where
  "security_nea3 key count bearer direction msg msg_len =
     (let len = length msg; block_8 = unat ((msg_len + 7) div 8); block_32 = unat ((msg_len + 31) div 32)
      in if block_8 \<le> len \<and> 0 < len then
           (let m = nea_xor (nea3_keystream key count bearer direction block_32) msg_len msg
            in m[len - 1 := zero_tailing_bits (m ! (len - 1)) (ucast msg_len)])
         else msg)"

section \<open>AES: NEA2 and NIA2\<close>

text \<open>
  What the AES library offers: the block function, which writes an array of 16 bytes; counter mode, which adds a keystream to
  the bytes it is given and continues it in the next call under the same context (the code keeps the position in \<open>nc_off\<close>, the
  counter and the stream block); and whether a call reports an error, by key and number of bytes.
\<close>

record aes_lib =
  aes_encrypt :: "bytes \<Rightarrow> bytes \<Rightarrow> bytes"
  aes_stream :: "bytes \<Rightarrow> bytes \<Rightarrow> nat \<Rightarrow> u8"
  aes_ctr_ok :: "bytes \<Rightarrow> nat \<Rightarrow> bool"

definition aes_ecb :: "aes_lib \<Rightarrow> bytes \<Rightarrow> bytes \<Rightarrow> bytes" where
  "aes_ecb aes key block = take 16 (aes_encrypt aes key block @ replicate 16 0)"

definition aes_ctr :: "aes_lib \<Rightarrow> bytes \<Rightarrow> bytes \<Rightarrow> nat \<Rightarrow> bytes \<Rightarrow> bytes option" where
  "aes_ctr aes key nonce pos xs = (if aes_ctr_ok aes key (length xs)
     then Some (map (\<lambda>i. xs ! i XOR aes_stream aes key nonce (pos + i)) [0..<length xs]) else None)"

definition nea2_nonce :: "u32 \<Rightarrow> u8 \<Rightarrow> security_direction \<Rightarrow> bytes" where
  "nea2_nonce count bearer direction = [ucast (drop_bit 24 count AND 0xff), ucast (drop_bit 16 count AND 0xff),
     ucast (drop_bit 8 count AND 0xff), ucast (count AND 0xff),
     push_bit 3 (bearer AND 0x1f) OR push_bit 2 (dir_to_number direction AND 1)] @ replicate 11 0"

text \<open>The loop over the segments of the buffer.\<close>

fun nea2_segments :: "aes_lib \<Rightarrow> bytes \<Rightarrow> bytes \<Rightarrow> nat \<Rightarrow> bytes list \<Rightarrow> bytes option" where
  "nea2_segments aes key nonce pos [] = Some []"
| "nea2_segments aes key nonce pos (seg # segs) = Option.bind (aes_ctr aes key nonce pos seg) (\<lambda>out.
     map_option (\<lambda>rest. out @ rest) (nea2_segments aes key nonce (pos + length seg) segs))"

text \<open>The subkeys of CMAC and the message with preamble and padding.\<close>

definition cmac_subkey :: "bytes \<Rightarrow> bytes" where
  "cmac_subkey l = (let k = map (\<lambda>i. push_bit 1 (l ! i) OR (drop_bit 7 (l ! (i + 1)) AND 1)) [0..<15] @ [push_bit 1 (l ! 15)]
     in if l ! 0 AND 0x80 \<noteq> 0 then k[15 := k ! 15 XOR 0x87] else k)"

definition xor_blocks :: "bytes \<Rightarrow> bytes \<Rightarrow> nat \<Rightarrow> bytes" where
  "xor_blocks t msg i = map (\<lambda>j. t ! j XOR msg ! (i * 16 + j)) [0..<16]"

definition sec_max_pdu_size :: nat where
  "sec_max_pdu_size = 9100"

definition nia2_preamble :: "u32 \<Rightarrow> u8 \<Rightarrow> security_direction \<Rightarrow> bytes" where
  "nia2_preamble count bearer direction = [ucast (drop_bit 24 count AND 0xff), ucast (drop_bit 16 count AND 0xff),
     ucast (drop_bit 8 count AND 0xff), ucast (count AND 0xff), push_bit 3 bearer OR push_bit 2 (dir_to_number direction), 0, 0, 0]"

definition nia2_compute_mac :: "aes_lib \<Rightarrow> bytes \<Rightarrow> u32 \<Rightarrow> u8 \<Rightarrow> security_direction \<Rightarrow> bytes \<Rightarrow> bytes option" where
  "nia2_compute_mac aes key count bearer direction v =
     (let len = length v; l = aes_ecb aes key (replicate 16 0); k1 = cmac_subkey l; k2 = cmac_subkey k1 in
      if sec_max_pdu_size < len + 8 + 16 then None else
      (let msg = nia2_preamble count bearer direction @ v @ replicate 16 0;
           n = (len + 8 + 15) div 16;
           t = fold (\<lambda>i t. aes_ecb aes key (xor_blocks t msg i)) [0..<n - 1] (replicate 16 0);
           pad_bits = (8 * len + 64) mod 128;
           t = (if pad_bits = 0 then aes_ecb aes key (xor_blocks (map2 (XOR) t k1) msg (n - 1))
                else let p = 128 - pad_bits - 1; i = (n - 1) * 16 + (15 - p div 8);
                         msg = msg[i := msg ! i OR push_bit (p mod 8) 1]
                     in aes_ecb aes key (xor_blocks (map2 (XOR) t k2) msg (n - 1)))
       in Some (take 4 t)))"

section \<open>NIA1 and NIA3\<close>

definition security_nia1 :: "mul_table \<Rightarrow> bytes \<Rightarrow> u32 \<Rightarrow> u8 \<Rightarrow> security_direction \<Rightarrow> bytes \<Rightarrow> u32 \<Rightarrow> bytes option" where
  "security_nia1 PM key count bearer direction msg msg_len = (if unat ((msg_len + 7) div 8) \<le> length msg
     then s3g_f9 PM key count (push_bit 27 (ucast bearer)) (ucast (dir_to_number direction)) msg (ucast msg_len)
     else Some [0, 0, 0, 0])"

definition GET_WORD :: "u32 list \<Rightarrow> nat \<Rightarrow> u32 option" where
  "GET_WORD DATA i = (let ti = i mod 32 in
     if ti = 0 then (if i div 32 < length DATA then Some (DATA ! (i div 32)) else None)
     else if i div 32 + 1 < length DATA then Some (push_bit ti (DATA ! (i div 32)) OR drop_bit (32 - ti) (DATA ! (i div 32 + 1)))
     else None)"

fun nia3_loop :: "u32 list \<Rightarrow> bytes \<Rightarrow> nat \<Rightarrow> nat \<Rightarrow> u32 \<Rightarrow> u32 option" where
  "nia3_loop ks msg i 0 T = Some T"
| "nia3_loop ks msg i (Suc n) T =
     (if msg ! (i div 8) AND push_bit (7 - i mod 8) 1 \<noteq> 0
      then Option.bind (GET_WORD ks i) (\<lambda>w. nia3_loop ks msg (i + 1) n (T XOR w))
      else nia3_loop ks msg (i + 1) n T)"

definition nia3_iv :: "u32 \<Rightarrow> u8 \<Rightarrow> security_direction \<Rightarrow> bytes" where
  "nia3_iv count bearer direction =
     (let d = push_bit 7 (dir_to_number direction AND 1); b = push_bit 3 bearer AND 0xf8
      in [ucast (drop_bit 24 count AND 0xff), ucast (drop_bit 16 count AND 0xff), ucast (drop_bit 8 count AND 0xff), ucast (count AND 0xff),
          b, 0, 0, 0,
          ucast (drop_bit 24 count AND 0xff) XOR d, ucast (drop_bit 16 count AND 0xff), ucast (drop_bit 8 count AND 0xff), ucast (count AND 0xff),
          b, 0, 0 XOR d, 0])"

text \<open>The length of the keystream is computed in \<open>int\<close>; \<open>None\<close> where that overflows or the keystream is read outside.\<close>

definition security_nia3 :: "bytes \<Rightarrow> u32 \<Rightarrow> u8 \<Rightarrow> security_direction \<Rightarrow> bytes \<Rightarrow> u32 \<Rightarrow> bytes option" where
  "security_nia3 key count bearer direction msg msg_len =
     (if unat ((msg_len + 7) div 8) \<le> length msg then
       if 2 ^ 31 \<le> unat (msg_len + 64) + 31 then None else
        (let L = unat ((msg_len + 64 + 31) div 32);
             ks = fst (zuc_generate_keystream (zuc_initialize key (nia3_iv count bearer direction)) L)
         in Option.bind (nia3_loop ks msg 0 (unat msg_len) 0) (\<lambda>T.
              Option.bind (GET_WORD ks (unat msg_len)) (\<lambda>w.
                let mac_tmp = T XOR w XOR ks ! (L - 1)
                in Some [ucast (drop_bit 24 mac_tmp AND 0xff), ucast (drop_bit 16 mac_tmp AND 0xff),
                         ucast (drop_bit 8 mac_tmp AND 0xff), ucast (mac_tmp AND 0xff)])))
      else Some [0, 0, 0, 0])"

section \<open>The record of algorithms\<close>

definition byte_len_bits :: "bytes \<Rightarrow> u32" where
  "byte_len_bits msg = of_nat (length msg) * 8"

definition sec_prims_of :: "aes_lib \<Rightarrow> mul_table \<Rightarrow> sec_prims" where
  "sec_prims_of aes PM = \<lparr>
     sp_nea = (\<lambda>a k c b d msg. case a of
         nea0 \<Rightarrow> Some msg
       | nea1 \<Rightarrow> Some (security_nea1 k c b d msg (byte_len_bits msg))
       | nea2 \<Rightarrow> nea2_segments aes k (nea2_nonce c b d) 0 [msg]
       | nea3 \<Rightarrow> Some (security_nea3 k c b d msg (byte_len_bits msg))),
     sp_nia = (\<lambda>a k c b d msg. case a of
         nia0 \<Rightarrow> Some [0, 0, 0, 0]
       | nia1 \<Rightarrow> security_nia1 PM k c b d msg (byte_len_bits msg)
       | nia2 \<Rightarrow> nia2_compute_mac aes k c b d msg
       | nia3 \<Rightarrow> security_nia3 k c b d msg (byte_len_bits msg))\<rparr>"

section \<open>Ciphering is an exclusive or with a pad\<close>

lemma length_xor_at [simp]: "length (xor_at m i b) = length m"
  by (simp add: xor_at_def)

lemma nth_xor_at: "j < length m \<Longrightarrow> xor_at m i b ! j = (if j = i then m ! j XOR b else m ! j)"
  by (cases "i < length m") (auto simp: xor_at_def)

text \<open>The byte of a keystream at a position.\<close>

definition ks_byte :: "u32 list \<Rightarrow> nat \<Rightarrow> u8" where
  "ks_byte ks i = be32_bytes (ks ! (i div 4)) ! (i mod 4)"

lemma ks_byte_shift: "ucast (drop_bit ((3 - i mod 4) * 8) (ks ! (i div 4)) AND 0xff) = ks_byte ks i"
proof -
  have "i mod 4 \<in> {0, 1, 2, 3}"
    by auto
  then show ?thesis
    by (auto simp: ks_byte_def be32_bytes_def byte_of_word)
qed

lemma ks_byte_block: "ks_byte ks (4 * n) = ucast (drop_bit 24 (ks ! n))" "ks_byte ks (4 * n + 1) = ucast (drop_bit 16 (ks ! n))"
  "ks_byte ks (4 * n + 2) = ucast (drop_bit 8 (ks ! n))" "ks_byte ks (4 * n + 3) = ucast (ks ! n)"
proof -
  have "(4 * n + 1) div 4 = n" "(4 * n + 1) mod 4 = 1" "(4 * n + 2) div 4 = n" "(4 * n + 2) mod 4 = 2"
    "(4 * n + 3) div 4 = n" "(4 * n + 3) mod 4 = 3"
    by presburger+
  then show "ks_byte ks (4 * n) = ucast (drop_bit 24 (ks ! n))" "ks_byte ks (4 * n + 1) = ucast (drop_bit 16 (ks ! n))"
    "ks_byte ks (4 * n + 2) = ucast (drop_bit 8 (ks ! n))" "ks_byte ks (4 * n + 3) = ucast (ks ! n)"
    by (simp_all only: ks_byte_def be32_bytes_def) simp_all
qed

lemma length_nea [simp]: "length (nea_last ks a b msg) = length msg" "length (nea_blocks ks n msg) = length msg"
proof -
  show "length (nea_last ks a b msg) = length msg"
    unfolding nea_last_def by (induction b) simp_all
  show "length (nea_blocks ks n msg) = length msg"
    unfolding nea_blocks_def by (induction n) simp_all
qed

lemma nea_last_nth:
  "j < length msg \<Longrightarrow>
     nea_last ks a b msg ! j = (if a \<le> j \<and> j < b then msg ! j XOR ks_byte ks j else msg ! j)"
proof (induction b)
  case (Suc b)
  have "nea_last ks a (Suc b) msg = (if a \<le> b then xor_at (nea_last ks a b msg) b (ks_byte ks b) else nea_last ks a b msg)"
    by (simp add: nea_last_def ks_byte_shift)
  then show ?case
    using Suc by (auto simp: nth_xor_at less_Suc_eq)
qed (simp add: nea_last_def)

lemma nea_blocks_nth:
  assumes "j < length msg"
  shows "nea_blocks ks n msg ! j = (if j < 4 * n then msg ! j XOR ks_byte ks j else msg ! j)"
proof (induction n)
  case (Suc n)
  let ?m = "nea_blocks ks n msg"
  have step: "nea_blocks ks (Suc n) msg = xor_at (xor_at (xor_at (xor_at ?m (4 * n) (ks_byte ks (4 * n)))
    (4 * n + 1) (ks_byte ks (4 * n + 1))) (4 * n + 2) (ks_byte ks (4 * n + 2))) (4 * n + 3) (ks_byte ks (4 * n + 3))"
    by (simp only: nea_blocks_def ks_byte_block byte_of_word) simp
  consider "j < 4 * n" | "j = 4 * n" | "j = 4 * n + 1" | "j = 4 * n + 2" | "j = 4 * n + 3" | "4 * n + 4 \<le> j"
    by linarith
  then show ?case
    using Suc assms unfolding step by cases (simp_all add: nth_xor_at)
qed (simp add: nea_blocks_def)

lemma nea_xor_pad:
  "\<exists>pad. length pad = length msg \<and> (\<forall>m. length m = length msg \<longrightarrow> nea_xor ks msg_len m = map2 (XOR) m pad)"
proof -
  let ?a = "unat (((msg_len + 31) div 32 - 1) * 4)" and ?b = "unat ((msg_len + 7) div 8)" and ?n = "unat ((msg_len + 31) div 32) - 1"
  let ?pad = "map (\<lambda>j. (if j < 4 * ?n then ks_byte ks j else 0) XOR (if ?a \<le> j \<and> j < ?b then ks_byte ks j else 0)) [0..<length msg]"
  have "nea_xor ks msg_len m = map2 (XOR) m ?pad" if "length m = length msg" for m
  proof (rule nth_equalityI)
    show len: "length (nea_xor ks msg_len m) = length (map2 (XOR) m ?pad)"
      using that by (simp add: nea_xor_def Let_def)
    fix j
    assume "j < length (nea_xor ks msg_len m)"
    then have j: "j < length m"
      using len that by simp
    then show "nea_xor ks msg_len m ! j = map2 (XOR) m ?pad ! j"
      using that by (simp add: nea_xor_def Let_def nea_blocks_nth nea_last_nth xor.assoc)
  qed
  then show ?thesis
    by (intro exI[of _ ?pad]) simp
qed

lemma map2_xor_twice: "length pad = length m \<Longrightarrow> map2 (XOR) (map2 (XOR) m pad) pad = (m :: bytes)"
  by (intro nth_equalityI) (simp_all add: xor.assoc)

lemma zero_tailing_full: "zero_tailing_bits b (ucast (byte_len_bits msg)) = b"
proof -
  have "byte_len_bits msg = push_bit 3 (of_nat (length msg))" and m: "(7 :: u8) = mask 3"
    by (simp_all add: byte_len_bits_def push_bit_eq_mult mask_eq_exp_minus_1)
  then have "(ucast (byte_len_bits msg) :: u8) AND 7 = 0"
    unfolding m by (intro bit_eqI) (auto simp: bit_simps)
  then show ?thesis
    by (simp add: zero_tailing_bits_def)
qed

lemma nea_pad:
  "\<exists>pad. length pad = length (msg :: bytes) \<and> (\<forall>m. length m = length msg \<longrightarrow>
     security_nea1 k c b d m (byte_len_bits m) = map2 (XOR) m pad)" (is "?P1")
  "\<exists>pad. length pad = length msg \<and> (\<forall>m. length m = length msg \<longrightarrow>
     security_nea3 k c b d m (byte_len_bits m) = map2 (XOR) m pad)" (is "?P3")
proof -
  have len: "byte_len_bits m = byte_len_bits msg" if "length m = length msg" for m :: bytes
    using that by (simp add: byte_len_bits_def)
  let ?on = "unat ((byte_len_bits msg + 7) div 8) \<le> length msg \<and> 0 < length msg" and ?n = "unat ((byte_len_bits msg + 31) div 32)"
  obtain pad1 where p1: "length pad1 = length msg"
    "\<And>m. length m = length msg \<Longrightarrow> nea_xor (nea1_keystream k c b d ?n) (byte_len_bits msg) m = map2 (XOR) m pad1"
    using nea_xor_pad[of msg "nea1_keystream k c b d ?n" "byte_len_bits msg"] by auto
  obtain pad3 where p3: "length pad3 = length msg"
    "\<And>m. length m = length msg \<Longrightarrow> nea_xor (nea3_keystream k c b d ?n) (byte_len_bits msg) m = map2 (XOR) m pad3"
    using nea_xor_pad[of msg "nea3_keystream k c b d ?n" "byte_len_bits msg"] by auto
  have zero: "map2 (XOR) m (replicate (length msg) 0) = m" if "length m = length msg" for m :: bytes
    using that by (intro nth_equalityI) simp_all
  have "security_nea1 k c b d m (byte_len_bits m) = map2 (XOR) m (if ?on then pad1 else replicate (length msg) 0)"
    "security_nea3 k c b d m (byte_len_bits m) = map2 (XOR) m (if ?on then pad3 else replicate (length msg) 0)"
    if "length m = length msg" for m
    unfolding len[OF that] using that
    by (simp_all add: security_nea1_def security_nea3_def Let_def p1(2) p3(2) zero zero_tailing_full)
  note pads = this
  show ?P1
    using p1(1) pads(1) by (intro exI[of _ "if ?on then pad1 else replicate (length msg) 0"]) simp
  show ?P3
    using p3(1) pads(2) by (intro exI[of _ "if ?on then pad3 else replicate (length msg) 0"]) simp
qed


section \<open>The algorithms keep the contract of the engine\<close>

lemma nea_pad_involution:
  assumes "\<exists>pad. length pad = length msg \<and> (\<forall>m. length m = length msg \<longrightarrow> f m = map2 (XOR) m (pad :: bytes))"
  shows "f (f msg) = msg" and "length (f msg) = length msg"
  using assms by (auto simp: map2_xor_twice)

lemma nea2_single:
  "nea2_segments aes key nonce 0 [msg] = (if aes_ctr_ok aes key (length msg)
     then Some (map2 (XOR) msg (map (aes_stream aes key nonce) [0..<length msg])) else None)"
proof -
  have "map (\<lambda>i. msg ! i XOR aes_stream aes key nonce i) [0..<length msg] = map2 (XOR) msg (map (aes_stream aes key nonce) [0..<length msg])"
    by (intro nth_equalityI) simp_all
  then show ?thesis
    by (simp add: aes_ctr_def)
qed

text \<open>How the buffer is cut into segments does not matter, as long as no call fails.\<close>

lemma nea2_segments_concat:
  assumes "\<And>n. aes_ctr_ok aes key n"
  shows "nea2_segments aes key nonce pos segs = aes_ctr aes key nonce pos (concat segs)"
proof (induction segs arbitrary: pos)
  case Nil
  then show ?case
    using assms by (simp add: aes_ctr_def)
next
  case (Cons seg segs)
  have "map (\<lambda>i. seg ! i XOR aes_stream aes key nonce (pos + i)) [0..<length seg]
      @ map (\<lambda>i. concat segs ! i XOR aes_stream aes key nonce (pos + length seg + i)) [0..<length (concat segs)]
    = map (\<lambda>i. (seg @ concat segs) ! i XOR aes_stream aes key nonce (pos + i)) [0..<length seg + length (concat segs)]"
    by (intro nth_equalityI) (auto simp: nth_append)
  then show ?case
    using assms Cons by (simp add: aes_ctr_def)
qed

lemma f9_length: "s3g_f9 PM key count fresh dir data len = Some mac \<Longrightarrow> length mac = 4"
  unfolding s3g_f9_def Let_def bind_eq_Some_conv' by (elim exE conjE) (simp only: option.inject, force)

lemma nia3_length: "security_nia3 key count bearer direction msg msg_len = Some mac \<Longrightarrow> length mac = 4"
  by (auto simp: security_nia3_def Let_def bind_eq_Some_conv' split: if_splits)

lemma length_aes_ecb: "length (aes_ecb aes key block) = 16"
  by (simp add: aes_ecb_def)

lemma nia2_length: "nia2_compute_mac aes key count bearer direction v = Some mac \<Longrightarrow> length mac = 4"
  by (auto simp: nia2_compute_mac_def Let_def length_aes_ecb split: if_splits)

interpretation algos: sec_algorithms "sp_nea (sec_prims_of aes PM)" "sp_nia (sec_prims_of aes PM)"
proof unfold_locales
  show "sp_nea (sec_prims_of aes PM) a k c b d msg' = Some msg" if "sp_nea (sec_prims_of aes PM) a k c b d msg = Some msg'"
    for a k c b d msg msg'
    using that nea_pad_involution[OF nea_pad(1)[of msg k c b d]] nea_pad_involution[OF nea_pad(2)[of msg k c b d]]
    by (cases a) (auto simp: sec_prims_of_def nea2_single map2_xor_twice simp del: nea2_segments.simps split: if_splits)
  show "length msg' = length msg" if "sp_nea (sec_prims_of aes PM) a k c b d msg = Some msg'" for a k c b d msg msg'
    using that nea_pad_involution(2)[OF nea_pad(1)[of msg k c b d]] nea_pad_involution(2)[OF nea_pad(2)[of msg k c b d]]
    by (cases a) (auto simp: sec_prims_of_def nea2_single simp del: nea2_segments.simps split: if_splits)
  show "length mac = sec_mac_len" if "sp_nia (sec_prims_of aes PM) ia k c b d msg = Some mac" for ia k c b d msg mac
    using that by (cases ia) (auto simp: sec_prims_of_def sec_mac_len_def security_nia1_def
      intro: f9_length nia3_length nia2_length split: if_splits)
qed

lemma sec_prims_of_ok: "prims_ok (sec_prims_of aes PM)"
  unfolding prims_ok_def by (rule algos.sec_algorithms_axioms)


section \<open>NIA2 is AES-CMAC\<close>

text \<open>The CMAC of RFC 4493 for a block function, two subkeys and a message, with the chaining value.\<close>

function cmac :: "(bytes \<Rightarrow> bytes) \<Rightarrow> bytes \<Rightarrow> bytes \<Rightarrow> bytes \<Rightarrow> bytes \<Rightarrow> bytes" where
  "cmac E K1 K2 X M =
     (if length M < 16 then E (map2 (XOR) X (map2 (XOR) (M @ 0x80 # replicate (15 - length M) 0) K2))
      else if length M = 16 then E (map2 (XOR) X (map2 (XOR) M K1))
      else cmac E K1 K2 (E (map2 (XOR) X (take 16 M))) (drop 16 M))"
  by pat_completeness auto
termination
  by (relation "measure (\<lambda>(E, K1, K2, X, M). length M)") auto

declare cmac.simps [simp del]

lemma xor_blocks_map2:
  assumes "length t = 16" and "take 16 (drop (16 * i) msg) = blk" and "length blk = 16"
  shows "xor_blocks t msg i = map2 (XOR) t blk"
proof (rule nth_equalityI)
  show "length (xor_blocks t msg i) = length (map2 (XOR) t blk)"
    using assms by (simp add: xor_blocks_def)
  fix j
  assume "j < length (xor_blocks t msg i)"
  then have j: "j < 16"
    by (simp add: xor_blocks_def)
  have "16 * i + j < length msg"
  proof -
    have "length (take 16 (drop (16 * i) msg)) = 16"
      using assms(2,3) by simp
    then have "16 * i + 16 \<le> length msg"
      by simp
    then show ?thesis
      using j by simp
  qed
  then have "blk ! j = msg ! (16 * i + j)"
    using assms(2) j by auto
  then show "xor_blocks t msg i ! j = map2 (XOR) t blk ! j"
    using assms j by (simp add: xor_blocks_def mult.commute)
qed

lemma cmac_loop:
  assumes "length M \<le> 16 * n" and "16 * (n - 1) < length M" and "0 < n" and "length T0 = 16"
  shows "i \<le> n - 1 \<Longrightarrow> length (fold (\<lambda>i t. aes_ecb aes key (xor_blocks t (M @ pad) i)) [0..<i] T0) = 16
    \<and> cmac (aes_ecb aes key) K1 K2 T0 M =
      cmac (aes_ecb aes key) K1 K2 (fold (\<lambda>i t. aes_ecb aes key (xor_blocks t (M @ pad) i)) [0..<i] T0) (drop (16 * i) M)"
proof (induction i)
  case (Suc i)
  let ?t = "fold (\<lambda>i t. aes_ecb aes key (xor_blocks t (M @ pad) i)) [0..<i] T0"
  have IH: "length ?t = 16" "cmac (aes_ecb aes key) K1 K2 T0 M = cmac (aes_ecb aes key) K1 K2 ?t (drop (16 * i) M)"
    using Suc by auto
  have len: "16 * i + 16 < length M"
    using Suc.prems assms(2) by linarith
  have "xor_blocks ?t (M @ pad) i = map2 (XOR) ?t (take 16 (drop (16 * i) M))"
    using len by (intro xor_blocks_map2[OF IH(1)]) simp_all
  then have "cmac (aes_ecb aes key) K1 K2 ?t (drop (16 * i) M)
    = cmac (aes_ecb aes key) K1 K2 (aes_ecb aes key (xor_blocks ?t (M @ pad) i)) (drop (16 * Suc i) M)"
  proof -
    have "\<not> length (drop (16 * i) M) < 16" "length (drop (16 * i) M) \<noteq> 16" "drop 16 (drop (16 * i) M) = drop (16 * Suc i) M"
      using len by (simp_all add: add.commute)
    then show ?thesis
      using \<open>xor_blocks ?t (M @ pad) i = _\<close> by (simp only: cmac.simps[of _ K1 K2 ?t "drop (16 * i) M"] if_False)
  qed
  then show ?case
    using IH(2) by (simp add: length_aes_ecb)
qed (simp add: assms(4))

lemma replicate_split: "m \<le> n \<Longrightarrow> take m (replicate n x) = replicate m x"
  by simp

lemma xor_commute3: "length t = 16 \<Longrightarrow> length k = 16 \<Longrightarrow> length b = 16 \<Longrightarrow>
  map2 (XOR) (map2 (XOR) t k) b = map2 (XOR) t (map2 (XOR) b (k :: bytes))"
  by (intro nth_equalityI) (simp_all add: ac_simps)

lemma length_cmac_subkey: "length (cmac_subkey l) = 16"
  by (simp add: cmac_subkey_def Let_def)

lemma cmac_sizes:
  fixes len :: nat
  defines "N \<equiv> len + 8" and "n \<equiv> (len + 8 + 15) div 16"
  shows "N \<le> 16 * n" and "16 * (n - 1) < N" and "0 < n"
    and "(8 * len + 64) mod 128 = 0 \<longleftrightarrow> N = 16 * n"
    and "N \<noteq> 16 * n \<Longrightarrow> (n - 1) * 16 + (15 - (128 - (8 * len + 64) mod 128 - 1) div 8) = N"
    and "N \<noteq> 16 * n \<Longrightarrow> (128 - (8 * len + 64) mod 128 - 1) mod 8 = 7"
proof -
  define q r where "q = (N - 1) div 16" and "r = (N - 1) mod 16"
  have N: "N = 16 * q + r + 1" "r < 16"
    by (simp_all add: q_def r_def N_def)
  have n: "n = q + 1"
    using N by (simp add: n_def N_def[symmetric])
  have len: "8 * len + 64 = 128 * q + 8 * (r + 1)"
    using N by (simp add: N_def)
  have m: "(8 * len + 64) mod 128 = (if r = 15 then 0 else 8 * (r + 1))"
    unfolding len using N(2) by (simp add: mod_mult_self4)
  show "N \<le> 16 * n" "16 * (n - 1) < N" "0 < n"
    using N n by simp_all
  show "(8 * len + 64) mod 128 = 0 \<longleftrightarrow> N = 16 * n"
    unfolding m using N n by simp
  assume "N \<noteq> 16 * n"
  then have r: "r < 15"
    using N n by auto
  have p: "128 - (8 * len + 64) mod 128 - 1 = 8 * (14 - r) + 7"
    unfolding m using r by simp
  show "(n - 1) * 16 + (15 - (128 - (8 * len + 64) mod 128 - 1) div 8) = N"
    unfolding p using r N n by simp
  show "(128 - (8 * len + 64) mod 128 - 1) mod 8 = 7"
    unfolding p by simp
qed

lemma nia2_cmac_message:
  fixes aes :: aes_lib and key :: bytes and M :: bytes
  assumes M: "length M = len + 8" and K: "length K1 = 16" "length K2 = 16"
  defines "n \<equiv> (len + 8 + 15) div 16" and "E \<equiv> aes_ecb aes key" and "p \<equiv> 128 - (8 * len + 64) mod 128 - 1"
    and "pad \<equiv> replicate 16 (0 :: u8)"
  defines "t \<equiv> fold (\<lambda>i t. E (xor_blocks t (M @ pad) i)) [0..<n - 1] (replicate 16 0)"
    and "i \<equiv> (n - 1) * 16 + (15 - p div 8)"
  shows "(if (8 * len + 64) mod 128 = 0 then E (xor_blocks (map2 (XOR) t K1) (M @ pad) (n - 1))
      else E (xor_blocks (map2 (XOR) t K2) ((M @ pad)[i := (M @ pad) ! i OR push_bit (p mod 8) 1]) (n - 1)))
    = cmac E K1 K2 (replicate 16 0) M"
proof -
  let ?rest = "drop (16 * (n - 1)) M"
  note sz = cmac_sizes[of len, folded n_def, folded p_def]
  have loop: "length t = 16" "cmac E K1 K2 (replicate 16 0) M = cmac E K1 K2 t ?rest"
    using cmac_loop[of M n "replicate 16 0" "n - 1" aes key pad K1 K2] sz(1-3) M by (auto simp: t_def E_def)
  have rest: "length ?rest = len + 8 - 16 * (n - 1)"
    by (simp only: length_drop M)
  show ?thesis
  proof (cases "(8 * len + 64) mod 128 = 0")
    case True
    then have len: "length ?rest = 16"
      using sz(1-4) rest by linarith
    have "xor_blocks (map2 (XOR) t K1) (M @ pad) (n - 1) = map2 (XOR) (map2 (XOR) t K1) ?rest"
      using len loop(1) K by (intro xor_blocks_map2) simp_all
    also have "\<dots> = map2 (XOR) t (map2 (XOR) ?rest K1)"
      using len loop(1) K by (intro xor_commute3) simp_all
    finally show ?thesis
      using True len loop(2) cmac.simps[of E K1 K2 t ?rest] by simp
  next
    case False
    then have ne: "len + 8 \<noteq> 16 * n"
      using sz(4) by simp
    have len: "length ?rest < 16" "0 < length ?rest"
      using sz(1-3) ne rest by linarith+
    let ?blk = "?rest @ 0x80 # replicate (15 - length ?rest) 0"
    have pad: "pad = 0 # replicate 15 0"
      by (simp add: pad_def numeral_eq_Suc)
    have i: "i = length M" "p mod 8 = 7"
      using sz(5,6)[OF ne] M by (simp_all only: i_def)
    have upd: "(M @ pad)[i := (M @ pad) ! i OR push_bit (p mod 8) 1] = M @ 0x80 # replicate 15 0"
      unfolding i pad by (simp add: push_bit_eq_mult)
    have "take 16 (drop (16 * (n - 1)) (M @ 0x80 # replicate 15 0)) = ?blk"
    proof -
      have "16 * (n - 1) \<le> length M"
        using sz(2) M by simp
      then have "drop (16 * (n - 1)) (M @ 0x80 # replicate 15 0) = ?rest @ 0x80 # replicate 15 0"
        by simp
      moreover have "16 - length ?rest = Suc (15 - length ?rest)"
        using len by linarith
      ultimately show ?thesis
        using len by (simp only: take_append take_Suc_Cons replicate_split[of "15 - length ?rest" 15] take_all_iff) simp
    qed
    then have "xor_blocks (map2 (XOR) t K2) (M @ 0x80 # replicate 15 0) (n - 1) = map2 (XOR) (map2 (XOR) t K2) ?blk"
      using len loop(1) K by (intro xor_blocks_map2) simp_all
    also have "\<dots> = map2 (XOR) t (map2 (XOR) ?blk K2)"
      using len loop(1) K by (intro xor_commute3) simp_all
    finally show ?thesis
      unfolding upd using False len loop(2) cmac.simps[of E K1 K2 t ?rest] by (simp only: if_False if_True)
  qed
qed

lemma nia2_cmac:
  assumes "length v + 24 \<le> sec_max_pdu_size" and "K1 = cmac_subkey (aes_ecb aes key (replicate 16 0))"
  shows "nia2_compute_mac aes key count bearer direction v =
    Some (take 4 (cmac (aes_ecb aes key) K1 (cmac_subkey K1) (replicate 16 0) (nia2_preamble count bearer direction @ v)))"
proof -
  have M: "length (nia2_preamble count bearer direction @ v) = length v + 8"
    by (simp add: nia2_preamble_def)
  show ?thesis
    unfolding nia2_cmac_message[OF M, of K1 "cmac_subkey K1" aes key, symmetric, OF length_cmac_subkey[of "aes_ecb aes key (replicate 16 0)", folded assms(2)] length_cmac_subkey]
    using assms(1) by (simp only: nia2_compute_mac_def Let_def assms(2)[symmetric] append_assoc) (simp add: if_distrib)
qed

text \<open>The reference: subkeys by doubling in the field of \<open>2 ^ 128\<close> elements (RFC 4493), and the 64 bits before the message (TS 33.401, B.2.3).\<close>

type_synonym u128 = "128 word"

text \<open>Blocks as numbers, most significant byte first.\<close>

definition block_word :: "bytes \<Rightarrow> u128" where
  "block_word b = horner_sum of_bool 2 (map (\<lambda>i. bit (b ! (15 - i div 8)) (i mod 8)) [0..<128])"

definition word_block :: "u128 \<Rightarrow> bytes" where
  "word_block w = map (\<lambda>i. ucast (drop_bit (8 * (15 - i)) w)) [0..<16]"

definition cmac_double :: "u128 \<Rightarrow> u128" where
  "cmac_double w = push_bit 1 w XOR (if bit w 127 then 0x87 else 0)"

lemma bit_block_word: "bit (block_word b) j \<longleftrightarrow> j < 128 \<and> bit (b ! (15 - j div 8)) (j mod 8)"
  by (auto simp: block_word_def bit_horner_sum_bit_word_iff)

lemma bit_shl1:
  fixes w :: "'a::len word"
  shows "bit (w * 2) m \<longleftrightarrow> m < LENGTH('a) \<and> 0 < m \<and> bit w (m - 1)"
proof -
  have "bit (push_bit 1 w) m \<longleftrightarrow> m < LENGTH('a) \<and> 0 < m \<and> bit w (m - 1)"
    by (simp only: bit_push_bit_iff possible_bit_word) auto
  then show ?thesis
    by (simp add: push_bit_eq_mult)
qed

lemma bit_double:
  "bit (cmac_double w) m \<longleftrightarrow> m < 128 \<and> ((0 < m \<and> bit w (m - 1)) \<noteq> (bit w 127 \<and> m < 8 \<and> bit (0x87 :: u8) m))"
proof -
  have "(0x87 :: u128) = ucast (0x87 :: u8)"
    by simp
  then have "bit (0x87 :: u128) m \<longleftrightarrow> m < 8 \<and> bit (0x87 :: u8) m"
    by (simp only: bit_unsigned_iff) (auto dest: bit_imp_le_length)
  then have c: "bit (if bit w 127 then 0x87 else 0 :: u128) m \<longleftrightarrow> bit w 127 \<and> m < 8 \<and> bit (0x87 :: u8) m"
    by simp
  have "bit (push_bit 1 w) m \<longleftrightarrow> m < 128 \<and> 0 < m \<and> bit w (m - 1)"
    using bit_shl1[of w m] by (simp add: push_bit_eq_mult)
  then show ?thesis
    unfolding cmac_double_def bit_xor_iff c by auto
qed

lemma cmac_subkey_double:
  assumes "length l = 16"
  shows "cmac_subkey l = word_block (cmac_double (block_word l))"
proof (rule nth_equalityI)
  show "length (cmac_subkey l) = length (word_block (cmac_double (block_word l)))"
    by (simp add: length_cmac_subkey word_block_def)
  fix i assume "i < length (cmac_subkey l)"
  then have i: "i < 16" by (simp add: length_cmac_subkey)
  have top: "bit (block_word l) 127 \<longleftrightarrow> l ! 0 AND 0x80 \<noteq> 0"
    using bit_and_exp[of "l ! 0" 7] by (simp add: bit_block_word)
  show "cmac_subkey l ! i = word_block (cmac_double (block_word l)) ! i"
  proof (rule bit_word_eqI)
    fix n assume "n < LENGTH(8)"
    then have n: "n < 8" by simp
    let ?m = "8 * (15 - i) + n"
    have "bit (word_block (cmac_double (block_word l)) ! i) n \<longleftrightarrow> bit (cmac_double (block_word l)) ?m"
      using i n by (simp add: word_block_def bit_unsigned_iff bit_drop_bit_eq)
    also have "\<dots> \<longleftrightarrow> (0 < ?m \<and> bit (block_word l) (?m - 1)) \<noteq> (l ! 0 AND 0x80 \<noteq> 0 \<and> i = 15 \<and> bit (0x87 :: u8) n)"
      using i n by (auto simp: bit_double top)
    also have "0 < ?m \<and> bit (block_word l) (?m - 1) \<longleftrightarrow> (if 0 < n then bit (l ! i) (n - 1) else i < 15 \<and> bit (l ! (i + 1)) 7)"
    proof (cases "0 < n")
      case True
      then have "?m - 1 = 8 * (15 - i) + (n - 1)" by simp
      then have "(?m - 1) div 8 = 15 - i" "(?m - 1) mod 8 = n - 1" "?m - 1 < 128" using i n by simp_all
      then show ?thesis using True i by (simp add: bit_block_word)
    next
      case False
      have "(?m - 1) div 8 = 14 - i" "(?m - 1) mod 8 = 7" "?m - 1 < 128" if "i < 15"
      proof -
        have "?m - 1 = 8 * (14 - i) + 7" using that False by simp
        then show "(?m - 1) div 8 = 14 - i" "(?m - 1) mod 8 = 7" "?m - 1 < 128" by simp_all
      qed
      then show ?thesis using False i by (cases "i = 15") (simp_all add: bit_block_word)
    qed
    finally show "bit (cmac_subkey l ! i) n = bit (word_block (cmac_double (block_word l)) ! i) n"
      using i n by (cases "i = 15") (auto simp: cmac_subkey_def Let_def nth_append bit_or_iff bit_xor_iff bit_and_iff bit_drop_bit_eq bit_shl1 bit_1_iff nth_list_update push_bit_eq_mult less_Suc_eq_0_disj)
  qed
qed


text \<open>The CMAC of a message under a block function, with the subkeys from the encrypted zero block.\<close>

definition aes_cmac :: "(bytes \<Rightarrow> bytes) \<Rightarrow> bytes \<Rightarrow> bytes" where
  "aes_cmac E M = (let L = block_word (E (replicate 16 0)); K1 = cmac_double L; K2 = cmac_double K1
     in cmac E (word_block K1) (word_block K2) (replicate 16 0) M)"

text \<open>COUNT, the five bits of the bearer, the direction and 26 zero bits, most significant bit first.\<close>

definition eia2_header :: "u32 \<Rightarrow> u8 \<Rightarrow> security_direction \<Rightarrow> u64" where
  "eia2_header count bearer direction = push_bit 32 (ucast count) OR push_bit 27 (ucast (take_bit 5 bearer))
     OR (if direction = sec_downlink then push_bit 26 1 else 0)"

definition header_bytes :: "u64 \<Rightarrow> bytes" where
  "header_bytes w = map (\<lambda>i. ucast (drop_bit (8 * (7 - i)) w)) [0..<8]"

lemma length_word_block [simp]: "length (word_block w) = 16"
  by (simp add: word_block_def)

lemma block_word_word_block: "block_word (word_block w) = w"
proof (rule bit_word_eqI)
  fix n assume "n < LENGTH(128)"
  then have n: "n < 128" by simp
  then have "15 - n div 8 < 16" "15 - (15 - n div 8) = n div 8" "8 * (n div 8) + n mod 8 = n" by auto
  then show "bit (block_word (word_block w)) n = bit w n"
    using n by (simp add: bit_block_word word_block_def bit_unsigned_iff bit_drop_bit_eq)
qed

lemma bit_header: "bit (eia2_header count bearer direction) n \<longleftrightarrow> n < 64 \<and> (if 32 \<le> n then bit count (n - 32)
     else if 27 \<le> n then bit bearer (n - 27) else n = 26 \<and> direction = sec_downlink)"
  unfolding eia2_header_def bit_or_iff
  by (auto simp: bit_push_bit_iff bit_unsigned_iff bit_take_bit_iff bit_1_iff simp del: push_bit_of_1 dest: bit_imp_le_length)

lemma nia2_preamble_header: "nia2_preamble count bearer direction = header_bytes (eia2_header count bearer direction)"
proof -
  have b: "[0..<8] = [0, 1, 2, 3, 4, 5, 6, 7 :: nat]"
    by (simp add: upt_rec)
  have "bit (push_bit 2 (dir_to_number direction)) n \<longleftrightarrow> n = 2 \<and> direction = sec_downlink" for n
    using bit_exp_iff[of 2 n, where ?'a = "8 word"] by (cases direction) (auto simp: dir_to_number_def)
  then have bearer: "push_bit 3 bearer OR push_bit 2 (dir_to_number direction) = ucast (drop_bit 24 (eia2_header count bearer direction))"
    by (intro bit_word_eqI) (auto simp: bit_unsigned_iff bit_drop_bit_eq bit_header bit_or_iff bit_push_bit_iff[of 3])
  have count: "ucast (drop_bit k count AND 0xff) = (ucast (drop_bit (32 + k) (eia2_header count bearer direction)) :: u8)" if "k \<le> 24" for k
    using that by (intro bit_word_eqI) (auto simp: bit_unsigned_iff bit_drop_bit_eq bit_header byte_of_word)
  have zero: "(ucast (drop_bit k (eia2_header count bearer direction)) :: u8) = 0" if "k \<le> 16" for k
    using that by (intro bit_word_eqI) (auto simp: bit_unsigned_iff bit_drop_bit_eq bit_header)
  show ?thesis
    unfolding header_bytes_def nia2_preamble_def b
    using bearer count[of 24] count[of 16] count[of 8] count[of 0] zero[of 16] zero[of 8] zero[of 0] by simp
qed


section \<open>The algorithms against their definitions\<close>

lemma byte_len_words:
  assumes "length msg + 4 \<le> 2 ^ 29"
  shows "unat (byte_len_bits msg) = 8 * length msg" and "unat ((byte_len_bits msg + 7) div 8) = length msg"
    and "unat ((byte_len_bits msg + 31) div 32) = (length msg + 3) div 4"
    and "unat ((byte_len_bits msg + 64 + 31) div 32) = (8 * length msg + 95) div 32 \<or> 2 ^ 29 < length msg + 12"
proof -
  show bits: "unat (byte_len_bits msg) = 8 * length msg"
    using assms by (simp add: byte_len_bits_def unat_word_ariths unat_of_nat)
  show "unat ((byte_len_bits msg + 7) div 8) = length msg"
    using assms by (simp add: unat_div unat_word_ariths bits)
  show "unat ((byte_len_bits msg + 31) div 32) = (length msg + 3) div 4"
    using assms by (simp add: unat_div unat_word_ariths bits)
  show "unat ((byte_len_bits msg + 64 + 31) div 32) = (8 * length msg + 95) div 32 \<or> 2 ^ 29 < length msg + 12"
    using assms by (auto simp: unat_div unat_word_ariths bits)
qed

lemma nea_xor_keystream:
  assumes "msg \<noteq> []" and "length msg + 4 \<le> 2 ^ 29"
  shows "nea_xor ks (byte_len_bits msg) msg = map2 (XOR) msg (map (ks_byte ks) [0..<length msg])"
proof -
  let ?l = "length msg" and ?n = "(byte_len_bits msg + 31) div 32 :: u32"
  have n: "unat ?n = (?l + 3) div 4"
    using byte_len_words(3)[OF assms(2)] .
  then have "0 < unat ?n"
    using assms(1) by (cases msg) auto
  then have "?n \<noteq> 0"
    by auto
  then have n1: "unat (?n - 1) = unat ?n - 1"
    by (simp add: unat_minus_one)
  have a: "unat ((?n - 1) * 4) = 4 * (unat ?n - 1)"
  proof -
    have "unat (?n - 1) * 4 < 2 ^ 32"
      using assms(2) by (simp only: n1 n) simp
    then show ?thesis
      by (simp only: unat_word_ariths(2) n1) simp
  qed
  show ?thesis
  proof (rule nth_equalityI)
    fix j
    assume "j < length (nea_xor ks (byte_len_bits msg) msg)"
    then have j: "j < ?l"
      by (simp add: nea_xor_def Let_def)
    then show "nea_xor ks (byte_len_bits msg) msg ! j = map2 (XOR) msg (map (ks_byte ks) [0..<?l]) ! j"
      by (simp only: nea_xor_def Let_def a byte_len_words(2)[OF assms(2)]) (simp add: nea_blocks_nth nea_last_nth)
  qed (simp add: nea_xor_def Let_def)
qed

lemma length_s3g_keystream_loop [simp]: "length (s3g_keystream_loop n s) = n"
  by (induction n arbitrary: s) (simp_all add: Let_def split_beta)

lemma length_keystreams [simp]:
  "length (nea1_keystream key count bearer direction n) = n" "length (nea3_keystream key count bearer direction n) = n"
  by (simp_all add: nea1_keystream_def nea3_keystream_def Let_def zuc_generate_keystream_def zuc_keystream_loop_length
      s3g_generate_keystream_def)

text \<open>
  C24: For a non-empty message NEA1 and NEA3 add the first \<open>length msg\<close> bytes of the keystream of SNOW 3G and of ZUC, in the
  order of the bytes of its big endian words.  The keystream the code asks for is long enough, no byte is left in the clear or
  added twice although whole words and the last word are handled by different loops, and the clearing of trailing bits changes
  nothing.
\<close>

theorem nea_is_stream_cipher:
  assumes "msg \<noteq> []" and "length msg + 4 \<le> 2 ^ 29" and "n = (length msg + 3) div 4"
    and "ks1 = nea1_keystream key count bearer direction n" and "ks3 = nea3_keystream key count bearer direction n"
  shows "security_nea1 key count bearer direction msg (byte_len_bits msg) = map2 (XOR) msg (map (ks_byte ks1) [0..<length msg])
    \<and> security_nea3 key count bearer direction msg (byte_len_bits msg) = map2 (XOR) msg (map (ks_byte ks3) [0..<length msg])
    \<and> length ks1 = n \<and> length ks3 = n \<and> length msg \<le> 4 * n"
proof -
  have "length msg \<le> 4 * ((length msg + 3) div 4)"
    by presburger
  then show ?thesis
    using assms(1,3-5) byte_len_words(2,3)[OF assms(2)] nea_xor_keystream[OF assms(1,2)]
    by (simp add: security_nea1_def security_nea3_def Let_def zero_tailing_full)
qed

theorem nea_is_stream_cipher_witness:
  "security_nea1 (replicate 16 7) 1 2 sec_uplink [1, 2, 3, 4, 5] (byte_len_bits [1, 2, 3, 4, 5])
    = map2 (XOR) [1, 2, 3, 4, 5] (map (ks_byte (nea1_keystream (replicate 16 7) 1 2 sec_uplink 2)) [0..<length [1 :: u8, 2, 3, 4, 5]])"
proof -
  have "[1 :: u8, 2, 3, 4, 5] \<noteq> []" "length [1 :: u8, 2, 3, 4, 5] + 4 \<le> 2 ^ 29" "2 = (length [1 :: u8, 2, 3, 4, 5] + 3) div 4"
    by simp_all
  then show ?thesis
    by (rule nea_is_stream_cipher[THEN conjunct1, OF _ _ _ refl refl])
qed

text \<open>The word of a keystream that starts at bit \<open>i\<close>, the first bit of a word being its most significant one.\<close>

definition ks_word :: "u32 list \<Rightarrow> nat \<Rightarrow> u32" where
  "ks_word ks i = horner_sum of_bool 2 (map (\<lambda>j. bit (ks ! ((i + 31 - j) div 32)) (31 - (i + 31 - j) mod 32)) [0..<32])"

lemma bit_ks_word: "bit (ks_word ks i) j \<longleftrightarrow> j < 32 \<and> bit (ks ! ((i + 31 - j) div 32)) (31 - (i + 31 - j) mod 32)"
  by (auto simp: ks_word_def bit_horner_sum_bit_word_iff)

lemma GET_WORD_ks_word:
  assumes "i div 32 + 1 < length ks"
  shows "GET_WORD ks i = Some (ks_word ks i)"
proof -
  define q r where "q = i div 32" and "r = i mod 32"
  have i: "i = 32 * q + r" "r < 32"
    by (simp_all add: q_def r_def)
  have pos: "(i + 31 - j) div 32 = (if j < r then q + 1 else q)" "31 - (i + 31 - j) mod 32 = (if j < r then 32 + j - r else j - r)" if "j < 32" for j
  proof -
    define s where "s = (if j < r then r - 1 - j else r + 31 - j)"
    have "i + 31 - j = 32 * (if j < r then q + 1 else q) + s" and s: "s < 32"
      using i that by (auto simp: s_def)
    then show "(i + 31 - j) div 32 = (if j < r then q + 1 else q)" "31 - (i + 31 - j) mod 32 = (if j < r then 32 + j - r else j - r)"
      using that i(2) by (simp_all only: div_mult_self4 mod_mult_self4 div_less mod_less) (auto simp: s_def)
  qed
  have "ks_word ks i = (if r = 0 then ks ! q else push_bit r (ks ! q) OR drop_bit (32 - r) (ks ! (q + 1)))"
    using i(2) by (intro bit_eqI) (auto simp: bit_ks_word pos bit_simps dest: bit_imp_le_length)
  then show ?thesis
    using assms by (simp add: GET_WORD_def Let_def q_def r_def)
qed

text \<open>EIA3: the words at the positions of the bits that are set, the word after the message and the last word.\<close>

definition eia3_mac :: "u32 list \<Rightarrow> bytes \<Rightarrow> u32" where
  "eia3_mac ks msg = fold (\<lambda>i T. if bit (msg ! (i div 8)) (7 - i mod 8) then T XOR ks_word ks i else T) [0..<8 * length msg] 0
     XOR ks_word ks (8 * length msg) XOR last ks"

lemma nia3_loop_fold:
  assumes "(i + n) div 32 + 1 < length ks"
  shows "nia3_loop ks msg i n T = Some (fold (\<lambda>i T. if bit (msg ! (i div 8)) (7 - i mod 8) then T XOR ks_word ks i else T) [i..<i + n] T)"
  using assms
proof (induction n arbitrary: i T)
  case (Suc n)
  have "i div 32 \<le> (i + Suc n) div 32"
    by (simp add: div_le_mono)
  then have "GET_WORD ks i = Some (ks_word ks i)"
    using Suc.prems by (intro GET_WORD_ks_word) simp
  moreover have u: "[i..<i + Suc n] = i # [i + 1..<(i + 1) + n]"
    by (simp add: upt_conv_Cons del: upt_Suc)
  ultimately show ?case
    using Suc unfolding u by (simp add: bit_and_exp del: upt_Suc push_bit_of_1)
qed simp

text \<open>The initialisation vector of 128-EIA3: COUNT, bearer and zeros twice, the direction added to the bytes 8 and 14.\<close>

definition eia3_iv :: "u32 \<Rightarrow> u8 \<Rightarrow> security_direction \<Rightarrow> bytes" where
  "eia3_iv count bearer direction =
     (let iv0 = be32_bytes count @ [push_bit 3 bearer, 0, 0, 0]; dir = (if direction = sec_downlink then 0x80 else 0)
      in iv0 @ iv0[0 := iv0 ! 0 XOR dir, 6 := iv0 ! 6 XOR dir])"

lemma nia3_iv_spec: "nia3_iv count bearer direction = eia3_iv count bearer direction"
proof -
  have "(0xf8 :: u8) = push_bit 3 (- 1)"
    by (simp add: push_bit_eq_mult)
  then have "push_bit 3 bearer AND 0xf8 = push_bit 3 bearer"
    by (simp only: push_bit_and[symmetric]) simp
  moreover have "push_bit 7 (dir_to_number direction AND 1) = (if direction = sec_downlink then 0x80 else 0)"
    by (cases direction) (simp_all add: dir_to_number_def push_bit_eq_mult)
  ultimately show ?thesis
    by (simp add: nia3_iv_def eia3_iv_def be32_bytes_def byte_of_word Let_def)
qed

text \<open>
  C23: For every message of at most \<open>2 ^ 28 - 12\<close> bytes, also the empty one, NIA3 returns the MAC of 128-EIA3: with the ZUC
  keystream for the initialisation vector that the algorithm prescribes, the exclusive or of the keystream words that start at the
  positions of the set bits, of the word after the message and of the last word.  The keystream the code asks for has the word at every position it reads, so no access is outside of it.
\<close>

theorem nia3_is_eia3:
  assumes "length msg + 12 \<le> 2 ^ 28"
    and "ks = fst (zuc_generate_keystream (zuc_initialize key (eia3_iv count bearer direction)) ((8 * length msg + 95) div 32))"
  shows "security_nia3 key count bearer direction msg (byte_len_bits msg) = Some (be32_bytes (eia3_mac ks msg))"
proof -
  let ?l = "length msg"
  have l4: "?l + 4 \<le> 2 ^ 29"
    using assms(1) by simp
  have L: "unat ((byte_len_bits msg + 64 + 31) div 32) = (8 * ?l + 95) div 32"
    using byte_len_words(4)[OF l4] assms(1) by simp
  have int: "\<not> 2 ^ 31 \<le> unat (byte_len_bits msg + 64) + 31"
    using assms(1) by (simp add: unat_word_ariths(1) byte_len_words(1)[OF l4])
  have len: "length ks = (8 * ?l + 95) div 32"
    by (simp add: assms(2) zuc_generate_keystream_def zuc_keystream_loop_length Let_def split_beta)
  have room: "8 * ?l div 32 + 1 < length ks"
    unfolding len using div_le_mono[of "8 * ?l + 64" "8 * ?l + 95" 32] by simp
  then have "last ks = ks ! ((8 * ?l + 95) div 32 - 1)"
    unfolding len[symmetric] by (intro last_conv_nth) auto
  then show ?thesis
    unfolding security_nia3_def Let_def L nia3_iv_spec assms(2)[symmetric] byte_len_words(1,2)[OF l4] eia3_mac_def be32_bytes_def byte_of_word
      nia3_loop_fold[of 0 "8 * ?l" ks msg 0, unfolded add_0, OF room] GET_WORD_ks_word[OF room]
    using int by (simp only: bind.bind_lunit order.refl if_True if_False)
qed

theorem nia3_is_eia3_witness:
  "security_nia3 (replicate 16 7) 1 2 sec_uplink [0xA5] (byte_len_bits [0xA5]) = Some (be32_bytes (eia3_mac
    (fst (zuc_generate_keystream (zuc_initialize (replicate 16 7) (eia3_iv 1 2 sec_uplink)) ((8 * length [0xA5 :: u8] + 95) div 32))) [0xA5]))"
proof -
  have "length [0xA5 :: u8] + 12 \<le> 2 ^ 28"
    by simp
  then show ?thesis
    by (rule nia3_is_eia3[OF _ refl])
qed

text \<open>
  C22: For every message that fits its buffer of 9100 bytes with the preamble and the padding block, NIA2 (in the build without the
  CMAC of the library) returns the first four bytes of the AES-CMAC of RFC 4493 of COUNT, bearer, direction and the message, for
  every block function: the shifts of single bytes that make the subkeys are the doubling of a 128-bit number, and the indexed
  loop, the padding bit set in the zeroed buffer and the choice of the subkey compute the recursive definition.  A longer message
  runs into the assertion on the size of the buffer.
\<close>

theorem nia2_is_cmac:
  "nia2_compute_mac aes key count bearer direction v =
    (if length v + 24 \<le> sec_max_pdu_size
     then Some (take 4 (aes_cmac (aes_ecb aes key) (header_bytes (eia2_header count bearer direction) @ v)))
     else None)"
proof -
  let ?L = "aes_ecb aes key (replicate 16 0)"
  have "cmac_subkey ?L = word_block (cmac_double (block_word ?L))"
    by (rule cmac_subkey_double) (simp add: length_aes_ecb)
  moreover from this have "cmac_subkey (cmac_subkey ?L) = word_block (cmac_double (cmac_double (block_word ?L)))"
    using cmac_subkey_double[of "cmac_subkey ?L"] by (simp add: block_word_word_block)
  ultimately show ?thesis
    using nia2_cmac[OF _ refl, of v aes key] unfolding nia2_preamble_header aes_cmac_def Let_def
    by (simp add: nia2_compute_mac_def Let_def)
qed

definition demo_aes :: aes_lib where
  "demo_aes = \<lparr>aes_encrypt = (\<lambda>k b. map2 (XOR) k (rotate1 b)), aes_stream = (\<lambda>k n i. n ! (i mod 16) XOR k ! (i mod 16)),
     aes_ctr_ok = (\<lambda>k n. True)\<rparr>"

theorem nia2_is_cmac_witness:
  "nia2_compute_mac demo_aes (replicate 16 0x81) 5 1 sec_downlink [1, 2, 3] = Some [135, 135, 130, 139]"
proof -
  have "(if length [1 :: u8, 2, 3] + 24 \<le> sec_max_pdu_size
     then Some (take 4 (aes_cmac (aes_ecb demo_aes (replicate 16 0x81)) (header_bytes (eia2_header 5 1 sec_downlink) @ [1, 2, 3])))
     else None) = Some [135, 135, 130, 139]"
    by code_simp
  then show ?thesis
    by (simp only: nia2_is_cmac)
qed

text \<open>
  C18: The engine with the repository's algorithms, for every AES library that offers a block function and a counter mode and may
  also report errors: for a receiving and a transmitting engine with the same configuration, whatever the algorithms, keys,
  bearer and direction, the receiver accepts a PDU as integrity verified with content \<open>buf\<close> exactly when that PDU is what the
  transmitter produces from \<open>buf\<close> under the same COUNT.  So everything protected is recovered and nothing else is accepted, also
  while PDUs with a zero MAC-I are tolerated.
\<close>

theorem protected_pdu_exact:
  assumes "se_integ_eng se = Some ie" and "buf \<noteq> []"
  shows "decrypt_and_verify_integrity (sec_prims_of aes PM) (se\<lparr>se_allow_unprotected := smc\<rparr>) pdu off count = Some (sec_success, buf)
    \<longleftrightarrow> encrypt_and_protect_integrity (sec_prims_of aes PM) se True buf off count = Some (sec_success, pdu)"
  using security_engine_exact[OF sec_prims_of_ok assms] .

theorem protected_pdu_exact_witness:
  "decrypt_and_verify_integrity (sec_prims_of demo_aes []) (demo_engine\<lparr>se_allow_unprotected := True\<rparr>)
       [0, 5, 3, 7, 7, 7, 7] 2 5 = Some (sec_success, [0, 5, 1])
   \<and> encrypt_and_protect_integrity (sec_prims_of demo_aes []) demo_engine True [0, 5, 1] 2 5 =
       Some (sec_success, [0, 5, 3, 7, 7, 7, 7])"
proof -
  have integ: "\<exists>ie. se_integ_eng demo_engine = Some ie"
    by (simp add: demo_engine_def)
  have enc: "encrypt_and_protect_integrity (sec_prims_of demo_aes []) demo_engine True [0, 5, 1] 2 5 =
       Some (sec_success, [0, 5, 3, 7, 7, 7, 7])"
    by code_simp
  then show ?thesis
    using integ protected_pdu_exact[of demo_engine _ "[0, 5, 1]" demo_aes "[]" True
      "[0, 5, 3, 7, 7, 7, 7]" 2 5] by auto
qed

end
