(* ===== verification/Pdcp_Tx_Reach.thy ===== *)
theory Pdcp_Tx_Reach
  imports Pdcp_Tx_Inv Pdcp_Rx_Reach Nea_Nia
begin

unbundle bit_operations_syntax

text \<open>
  The runs of a transmitting PDCP entity: a step relation over all its operations with the tasks of the executors in any order,
  the properties of every run, the discard timer, status reports, and what its PDUs are for the receiving entity.
\<close>

section \<open>The crypto reordering timer\<close>

lemma crypto_expire_loop_effect:
  assumes "tx_inv s" and "unat (ts_trans_crypto (pt_st s)) \<le> unat (ts_reord_crypto (pt_st s))"
    and "unat (ts_reord_crypto (pt_st s)) \<le> unat (ts_next (pt_st s))"
  shows "\<exists>s' evs. crypto_expire_loop s = Some (s', evs) \<and> tx_effect s evs [] s' \<and> ts_trans_crypto (pt_st s') = ts_reord_crypto (pt_st s)
    \<and> ts_next (pt_st s') = ts_next (pt_st s) \<and> pt_crypto_reordering_timer s' = pt_crypto_reordering_timer s"
  using assms
proof (induction s rule: crypto_expire_loop.induct)
  case (1 s)
  let ?c = "ts_trans_crypto (pt_st s)" and ?r = "ts_reord_crypto (pt_st s)"
  show ?case
  proof (cases "?c = ?r")
    case True
    then show ?thesis
      using tx_effect_refl[OF 1(3)] by (subst crypto_expire_loop.simps) simp
  next
    case False
    let ?next = "(pt_st s)\<lparr>ts_trans_crypto := ?c + 1\<rparr>"
    have lt: "unat ?c < unat ?r" and ltn: "unat ?c < unat (ts_next (pt_st s))"
      using False 1(4,5) by (simp_all add: u32_less_iff)
    have inc: "unat (?c + 1) = Suc (unat ?c)"
      by (rule unat_inc[OF lt])
    have step: "tx_inv (t\<lparr>pt_st := ?next\<rparr>)" if "tx_inv t" "pt_st t = pt_st s" for t
      using that inc ltn
      by (auto simp: tx_inv_def tx_cfg_ok_def tx_held_ok_def tx_vars_ok_def discard_finite_def discard_configured_def Let_def)
    show ?thesis
    proof (cases "tw_has_sn (pt_tx_window s) ?c \<and> map_option we_pdu (tw_at (pt_tx_window s) ?c) \<noteq> Some []")
      case True
      then obtain e where e: "tw_at (pt_tx_window s) ?c = Some e"
        by (auto simp: tw_has_sn_at)
      have held: "tx_held_ok s"
        using 1(3) by (simp add: tx_inv_def)
      obtain w where w: "tw_set_pdu (pt_tx_window s) ?c [] = Some w"
        using tw_set_pdu_ok[OF tx_held_okD(1)[OF held] e] by metis
      let ?s = "s\<lparr>pt_tx_window := w, pt_st := ?next\<rparr>"
      have "tx_inv ?s"
        using step[OF tx_inv_set_pdu[OF 1(3) w]] by simp
      then obtain s' evs where IH: "crypto_expire_loop ?s = Some (s', evs)" "tx_effect ?s evs [] s'" "ts_trans_crypto (pt_st s') = ?r"
          "ts_next (pt_st s') = ts_next (pt_st s)" "pt_crypto_reordering_timer s' = pt_crypto_reordering_timer s"
        using 1(1)[OF refl refl False True e w] inc lt 1(5) by auto
      have "rising ?c ?r (?c # pdu_counts evs)"
        using IH(2,3) lt by (intro rising_Cons) (simp_all add: tx_effect_def)
      then have "tx_effect s (on_new_data_pdu ?c (we_pdu e) False # evs) [] s'"
        using IH(2,3) by (simp add: tx_effect_def)
      then show ?thesis
        using IH False True e w by (subst crypto_expire_loop.simps) (simp add: Let_def add_events_def)
    next
      case none: False
      let ?s = "s\<lparr>pt_st := ?next\<rparr>"
      have "tx_inv ?s"
        using step[OF 1(3)] by simp
      then obtain s' evs where IH: "crypto_expire_loop ?s = Some (s', evs)" "tx_effect ?s evs [] s'" "ts_trans_crypto (pt_st s') = ?r"
          "ts_next (pt_st s') = ts_next (pt_st s)" "pt_crypto_reordering_timer s' = pt_crypto_reordering_timer s"
        using 1(2)[OF refl refl False none] inc lt 1(5) by auto
      have "tx_effect s evs [] s'"
        using IH(2,3) inc by (auto simp: tx_effect_def intro: rising_le)
      then show ?thesis
        using IH False none by (subst crypto_expire_loop.simps) (auto simp: Let_def)
    qed
  qed
qed

lemma crypto_reordering_timeout_effect:
  assumes "tx_inv s" and "tx_timer_ok s" and "pt_crypto_reordering_timer s" and "crypto_reordering_timeout env s = Some (s', evs)"
  shows "tx_effect s evs [] s'" and "tx_timer_ok s'"
proof -
  let ?s = "s\<lparr>pt_crypto_reordering_timer := False\<rparr>"
  have same: "tx_same s ?s"
    by (simp add: tx_same_def)
  have inv: "tx_inv ?s"
    by (rule tx_same_inv[OF same assms(1)])
  have "tx_effect s evs [] s' \<and> tx_timer_ok s'"
  proof (cases "pt_stopped s")
    case True
    then show ?thesis
      using assms(4) tx_same_effect[OF same assms(1)] by (auto simp: crypto_reordering_timeout_def tx_timer_ok_def)
  next
    case False
    obtain s1 evs1 where s1: "crypto_expire_loop ?s = Some (s1, evs1)" "tx_effect ?s evs1 [] s1"
        "ts_next (pt_st s1) = ts_next (pt_st s)" "\<not> pt_crypto_reordering_timer s1"
      using crypto_expire_loop_effect[OF inv] assms(2,3) by (auto simp: tx_timer_ok_def)
    obtain s2 evs2 where s2: "deliver_in_order env False s1 (ts_trans_crypto (pt_st s1)) = Some (s2, evs2)"
      and s': "s' = (if ts_trans_crypto (pt_st s2) < ts_next (pt_st s2)
               then s2\<lparr>pt_st := (pt_st s2)\<lparr>ts_reord_crypto := ts_next (pt_st s2)\<rparr>, pt_crypto_reordering_timer := True\<rparr>
               else s2)" "evs = evs1 @ evs2"
      using assms(4) False s1(1) by (auto simp: crypto_reordering_timeout_def Let_def bind_eq_Some_conv')
    have inv1: "tx_inv s1"
      using s1(2) by (simp add: tx_effect_def)
    have eff2: "tx_effect s1 evs2 [] s2" "\<not> pt_crypto_reordering_timer s2"
      using deliver_in_order_effect[OF inv1 refl s2] s1(4) by simp_all
    have "tx_effect ?s evs [] s2"
      using tx_effect_trans[OF s1(2) eff2(1)] s'(2) by simp
    then have "tx_effect s evs [] s'"
      unfolding s'(1)
      by (auto simp: tx_effect_def tx_inv_def tx_cfg_ok_def tx_held_ok_def tx_vars_ok_def discard_finite_def discard_configured_def Let_def)
    then show ?thesis
      using eff2(2) unfolding s'(1) by (auto simp: tx_timer_ok_def u32_less_iff)
  qed
  then show "tx_effect s evs [] s'" and "tx_timer_ok s'"
    by simp_all
qed

section \<open>The discard timer\<close>

text \<open>
  The loop removes the SDUs from the oldest on while their time of arrival is \<open>t\<close>; the timer is set for the oldest that remains.
\<close>

definition expired_exactly :: "pdcp_tx_env \<Rightarrow> u32 \<Rightarrow> pdcp_entity_tx \<Rightarrow> pdcp_entity_tx \<Rightarrow> bool" where
  "expired_exactly env t s s' \<longleftrightarrow> (let a' = ts_next_ack (pt_st s') in
     tw_at (pt_tx_window s') = (\<lambda>c. if unat c < unat a' then None else tw_at (pt_tx_window s) c)
     \<and> (\<forall>c e. unat c < unat a' \<and> tw_at (pt_tx_window s) c = Some e \<longrightarrow> wsi_tick_point_of_arrival (we_sdu_info e) = Some t)
     \<and> (case tw_at (pt_tx_window s') a' of
          None \<Rightarrow> a' = ts_next (pt_st s') \<and> pt_discard_timer s' = pt_discard_timer s
        | Some e \<Rightarrow> (\<exists>t'. wsi_tick_point_of_arrival (we_sdu_info e) = Some t' \<and> t' \<noteq> t
            \<and> pt_discard_timer s' = Some (tenv_now env, t' - t))))"

lemma discard_loop_ok:
  assumes "tx_inv s" and "discard_finite s" and "tw_at (pt_tx_window s) (ts_next_ack (pt_st s)) = Some e"
    and "wsi_tick_point_of_arrival (we_sdu_info e) = Some t"
  shows "\<exists>s' evs. discard_loop env t s = Some (s', evs) \<and> tx_effect s evs [] s' \<and> (tx_timer_ok s \<longrightarrow> tx_timer_ok s')
    \<and> expired_exactly env t s s'"
  using assms
proof (induction "unat (ts_next (pt_st s) - ts_next_ack (pt_st s))" arbitrary: s e rule: less_induct)
  case less
  let ?a = "ts_next_ack (pt_st s)" and ?n = "ts_next (pt_st s)"
  have held: "tx_held_ok s" and conf: "discard_configured s"
    using less(2,3) by (simp_all add: tx_inv_def discard_finite_def)
  show ?case
  proof (cases rule: discard_pdu_ok[OF less(2), of ?a])
    case 1
    then show ?thesis
      using less(4) conf by simp
  next
    case (2 w a)
    note gone = 2(1,4,5,7) 2(8)[OF refl]
    define s1 where "s1 = s\<lparr>pt_tx_window := w, pt_st := (pt_st s)\<lparr>ts_next_ack := a, ts_trans := max (ts_trans (pt_st s)) a\<rparr>\<rparr>"
    let ?ev = "[on_discard_pdu (pt_SN s ?a)]"
    have inv1: "tx_inv s1" and d: "discard_pdu s ?a = Some (s1, ?ev)"
      using gone by (simp_all add: s1_def)
    have held1: "tx_held_ok s1" and fin1: "discard_finite s1"
      using inv1 less(3) by (simp_all add: tx_inv_def s1_def discard_finite_def discard_configured_def)
    have eff1: "tx_effect s ?ev [] s1" and tim1: "tx_timer_ok s \<Longrightarrow> tx_timer_ok s1"
      using inv1 by (simp_all add: tx_effect_def s1_def tx_timer_ok_def)
    have st1 [simp]: "ts_next_ack (pt_st s1) = a" "ts_next (pt_st s1) = ?n" "pt_tx_window s1 = w" "pt_discard_timer s1 = pt_discard_timer s"
      by (simp_all add: s1_def)
    have below: "tw_at (pt_tx_window s) c = None \<or> c = ?a" if "unat c < unat a" for c
    proof -
      have "tw_at w c = None"
        using tx_held_okD(2)[OF held1, of c] that by (cases "tw_at w c") auto
      then show ?thesis
        by (auto simp: gone(3) split: if_splits)
    qed
    have at1: "tw_at w c = (if unat c < unat a then None else tw_at (pt_tx_window s) c)" for c
      using below[of c] gone(5) by (auto simp: gone(3))
    have tick: "\<forall>c f. unat c < unat a \<and> tw_at (pt_tx_window s) c = Some f \<longrightarrow> wsi_tick_point_of_arrival (we_sdu_info f) = Some t"
      using below less(4,5) by fastforce
    show ?thesis
    proof (cases "tw_at w a")
      case None
      then have "discard_loop env t s = Some (s1, ?ev)"
        using d by (subst discard_loop.simps) (simp add: tw_has_sn_at)
      moreover have "expired_exactly env t s s1"
        using None gone(4) at1 tick by (auto simp: expired_exactly_def Let_def fun_eq_iff)
      ultimately show ?thesis
        using eff1 tim1 by blast
    next
      case (Some f)
      then obtain t' where t': "wsi_tick_point_of_arrival (we_sdu_info f) = Some t'"
        using tx_held_okD(2)[OF held1, of a f] fin1 by auto
      have an: "unat a < unat ?n"
        using tx_held_okD(2)[OF held1, of a f] Some by simp
      show ?thesis
      proof (cases "t' = t")
        case False
        let ?s = "set_discard_timer env (t' - t) s1"
        have same: "tx_same s1 ?s"
          by (simp add: tx_same_def set_discard_timer_def)
        have "discard_loop env t s = Some (?s, ?ev)"
          using d Some t' False by (subst discard_loop.simps) (simp add: tw_has_sn_at)
        moreover have "expired_exactly env t s ?s"
          using Some t' False at1 tick by (auto simp: expired_exactly_def Let_def fun_eq_iff set_discard_timer_def)
        ultimately show ?thesis
          using tx_effect_trans[OF eff1 tx_same_effect[OF same inv1, of "[]" "[]"]] tim1 tx_same_timer[OF same] by auto
      next
        case True
        have "unat (?n - a) < unat (?n - ?a)"
          using an gone(5) by (simp add: unat_sub_if_size word_size)
        then obtain s' evs where IH: "discard_loop env t s1 = Some (s', evs)" "tx_effect s1 evs [] s'"
            "tx_timer_ok s1 \<longrightarrow> tx_timer_ok s'" "expired_exactly env t s1 s'"
          using less(1)[of s1 f] inv1 fin1 Some t' True by auto
        have "discard_loop env t s = Some (s', ?ev @ evs)"
          using d Some t' True IH(1) an by (subst discard_loop.simps) (auto simp: tw_has_sn_at)
        moreover have "expired_exactly env t s s'"
        proof -
          have a': "unat a \<le> unat (ts_next_ack (pt_st s'))"
          proof (rule ccontr)
            assume "\<not> unat a \<le> unat (ts_next_ack (pt_st s'))"
            then have "tw_at w (ts_next_ack (pt_st s')) = None"
              by (simp add: at1)
            then show False
              using IH(4) \<open>\<not> unat a \<le> _\<close> an IH(2) by (auto simp: expired_exactly_def Let_def tx_effect_def rising_def split: option.splits)
          qed
          have at': "tw_at (pt_tx_window s') c = (if unat c < unat (ts_next_ack (pt_st s')) then None else tw_at w c)" for c
            using IH(4) by (simp add: expired_exactly_def Let_def)
          have tick': "\<forall>c f. unat c < unat (ts_next_ack (pt_st s')) \<and> tw_at w c = Some f \<longrightarrow> wsi_tick_point_of_arrival (we_sdu_info f) = Some t"
            using IH(4) by (simp add: expired_exactly_def Let_def)
          have "tw_at (pt_tx_window s') = (\<lambda>c. if unat c < unat (ts_next_ack (pt_st s')) then None else tw_at (pt_tx_window s) c)"
            using a' by (intro ext) (auto simp: at' at1)
          moreover have "wsi_tick_point_of_arrival (we_sdu_info f) = Some t"
            if "unat c < unat (ts_next_ack (pt_st s'))" "tw_at (pt_tx_window s) c = Some f" for c f
            using that tick tick' at1[of c] by (cases "unat c < unat a") auto
          ultimately show ?thesis
            using IH(4) unfolding expired_exactly_def Let_def st1 by blast
        qed
        ultimately show ?thesis
          using tx_effect_trans[OF eff1 IH(2)] tim1 IH(3) by auto
      qed
    qed
  qed
qed

lemma discard_callback_ok:
  assumes "tx_inv s" and "discard_finite s"
  shows "\<exists>s' evs. discard_callback env s = Some (s', evs) \<and> tx_effect s evs [] s' \<and> (tx_timer_ok s \<longrightarrow> tx_timer_ok s')
    \<and> (\<not> pt_stopped s \<longrightarrow> (case tw_at (pt_tx_window s) (ts_next_ack (pt_st s)) of
        None \<Rightarrow> s' = s\<lparr>pt_discard_timer := None\<rparr>
      | Some e \<Rightarrow> \<exists>t. wsi_tick_point_of_arrival (we_sdu_info e) = Some t \<and> expired_exactly env t (s\<lparr>pt_discard_timer := None\<rparr>) s'))"
proof -
  let ?s = "s\<lparr>pt_discard_timer := None\<rparr>"
  have same: "tx_same s ?s"
    by (simp add: tx_same_def)
  have inv: "tx_inv ?s" and fin: "discard_finite ?s"
    using tx_same_inv[OF same assms(1)] assms(2) by (simp_all add: discard_finite_def discard_configured_def)
  note quiet = tx_same_effect[OF same assms(1), of "[]" "[]"] tx_same_timer[OF same]
  show ?thesis
  proof (cases "pt_stopped s \<or> tw_at (pt_tx_window s) (ts_next_ack (pt_st s)) = None")
    case True
    then have "discard_callback env s = Some (?s, [])"
      by (elim disjE) (simp_all add: discard_callback_def Let_def tw_has_sn_at)
    then show ?thesis
      using quiet True by auto
  next
    case False
    then obtain e where e: "tw_at (pt_tx_window s) (ts_next_ack (pt_st s)) = Some e"
      by auto
    then obtain t where t: "wsi_tick_point_of_arrival (we_sdu_info e) = Some t"
      using assms tx_held_okD(2)[of s "ts_next_ack (pt_st s)" e] by (auto simp: tx_inv_def)
    obtain s' evs where s': "discard_loop env t ?s = Some (s', evs)" "tx_effect ?s evs [] s'" "tx_timer_ok ?s \<longrightarrow> tx_timer_ok s'"
        "expired_exactly env t ?s s'"
      using discard_loop_ok[OF inv fin, of e t env] e t by auto
    have "discard_callback env s = Some (s', evs)"
      using False e t s'(1) by (simp add: discard_callback_def tw_has_sn_at)
    then show ?thesis
      using tx_effect_trans[OF quiet(1) s'(2)] quiet(2) s'(3,4) e t by auto
  qed
qed

section \<open>Transmission of an SDU\<close>

text \<open>Header compression and the reservation of the header succeed; the other case is the subject of a property below.\<close>

definition tx_env_ok :: "pdcp_tx_env \<Rightarrow> bool" where
  "tx_env_ok env \<longleftrightarrow> (\<forall>hist buf. tenv_compress env hist buf \<noteq> []) \<and> (\<forall>buf. tenv_header_ok env buf)"

text \<open>A COUNT that is free in the window.\<close>

definition tx_room :: "pdcp_entity_tx \<Rightarrow> bool" where
  "tx_room s \<longleftrightarrow> unat (ts_next (pt_st s)) < unat (ts_next_ack (pt_st s)) + half_range (txc_sn_size (pt_cfg s))"

lemma tx_add_sdu_inv:
  assumes "tx_inv s" and "tx_room s" and "ts_next (pt_st s) < mc_hard (txc_max_count (pt_cfg s))"
    and "wsi_count si = ts_next (pt_st s)" and "discard_finite s \<longrightarrow> wsi_tick_point_of_arrival si \<noteq> None"
  obtains w where "tw_add_sdu (pt_tx_window s) si len = Some w"
    and "tx_inv (s\<lparr>pt_tx_window := w, pt_st := (pt_st s)\<lparr>ts_next := ts_next (pt_st s) + 1\<rparr>\<rparr>)"
    and "tw_at w = (tw_at (pt_tx_window s))(ts_next (pt_st s) \<mapsto> \<lparr>we_sdu_info = si, we_pdu = [], we_sdu_length = len\<rparr>)"
proof -
  let ?n = "ts_next (pt_st s)" and ?e = "\<lparr>we_sdu_info = si, we_pdu = [], we_sdu_length = len\<rparr>"
  have held: "tx_held_ok s" and vars: "tx_vars_ok s" and cfg: "tx_cfg_ok s"
    using assms(1) by (simp_all add: tx_inv_def)
  have inc: "unat (?n + 1) = Suc (unat ?n)"
    using unat_inc assms(3) by (auto simp: u32_less_iff)
  have half: "(2 :: nat) ^ tx_win_bits s = half_range (txc_sn_size (pt_cfg s))"
    by (simp add: half_range_def)
  have free: "unat c mod 2 ^ tx_win_bits s \<noteq> unat ?n mod 2 ^ tx_win_bits s" if "tw_at (pt_tx_window s) c \<noteq> None" for c
  proof
    assume eq: "unat c mod 2 ^ tx_win_bits s = unat ?n mod 2 ^ tx_win_bits s"
    obtain e where "tw_at (pt_tx_window s) c = Some e"
      using \<open>tw_at (pt_tx_window s) c \<noteq> None\<close> by auto
    note b = tx_held_okD(2)[OF held this]
    have "unat ?n < unat (ts_next_ack (pt_st s)) + 2 ^ tx_win_bits s"
      using assms(2) unfolding half tx_room_def .
    then have "unat c = unat ?n"
      using mod_window_inject[OF eq, of "unat (ts_next_ack (pt_st s))"] b by linarith
    then show False
      using b by simp
  qed
  obtain w where w: "tw_add_sdu (pt_tx_window s) si len = Some w" "tw_wf (tx_win_bits s) w" "tw_at w = (tw_at (pt_tx_window s))(?n \<mapsto> ?e)"
      "tw_rb_type w = tw_rb_type (pt_tx_window s)" "tw_sn_size w = tw_sn_size (pt_tx_window s)"
    using tw_add_ok[OF tx_held_okD(1)[OF held], of si] free assms(4) by metis
  let ?s = "s\<lparr>pt_tx_window := w, pt_st := (pt_st s)\<lparr>ts_next := ?n + 1\<rparr>\<rparr>"
  have "tx_held_ok ?s"
    using tx_held_okD(2)[OF held] w(2) assms(4,5) inc vars
    by (fastforce simp: tx_held_ok_def w(3) tx_vars_ok_def Let_def discard_finite_def discard_configured_def split: if_splits)
  moreover have "tx_vars_ok ?s" "tx_cfg_ok ?s"
    using vars cfg w(4,5) inc assms(2,3) by (auto simp: tx_vars_ok_def tx_cfg_ok_def tx_room_def Let_def u32_less_iff)
  ultimately show ?thesis
    using that[OF w(1) _ w(3)] by (simp add: tx_inv_def)
qed

lemma prepend_data_pdu_header_ok:
  "prepend_data_pdu_header rb sz True buf sn = Some (ok, buf') \<Longrightarrow> valid_sn_size sz \<Longrightarrow> ok"
  by (auto simp: prepend_data_pdu_header_def valid_sn_size_def Let_def split: if_splits pdcp_sn_size.splits)

lemma post_crypto_task_effect:
  assumes "tx_inv s" and "post_crypto_task env s bi = Some (s', ts)"
  shows "tx_same s s'" and "ts = [] \<or> ts = [Tx_crypto_task bi]"
  using assms(2) by (auto simp: post_crypto_task_def tx_drop_token_def Let_def tx_same_def split: if_splits)

lemma apply_header_compression_ok:
  assumes "tx_env_ok env" and "apply_header_compression env s buf = (ok, buf', evs, s')"
  shows "ok" and "evs = []" and "\<exists>r. s' = s\<lparr>pt_rohc_comp := r\<rparr>"
  using assms header_compression_state[OF assms(2)]
  by (auto simp: apply_header_compression_def tx_env_ok_def Let_def split: option.splits if_splits)

lemma tx_send_sdu_effect:
  assumes "tx_inv s" and "tx_env_ok env" and "tx_room s" and "ts_next (pt_st s) < mc_hard (txc_max_count (pt_cfg s))"
    and "tx_send_sdu env s buf = Some (s', evs, ts)"
  shows "tx_effect s evs ts s'" and "tx_timer_ok s \<Longrightarrow> tx_timer_ok s'"
    and "pt_st s' = pt_st s \<or> pt_st s' = (pt_st s)\<lparr>ts_next := ts_next (pt_st s) + 1\<rparr>"
proof -
  let ?n = "ts_next (pt_st s)"
  define s1 where "s1 = start_discard_timer env s"
  have same1: "tx_same s s1"
    by (simp add: s1_def start_discard_timer_def set_discard_timer_def tx_same_def)
  have st1: "pt_st s1 = pt_st s" "pt_cfg s1 = pt_cfg s" "pt_tx_window s1 = pt_tx_window s"
    using same1 by (simp_all add: tx_same_def)
  have inv1: "tx_inv s1"
    by (rule tx_same_inv[OF same1 assms(1)])
  let ?keep = "discard_configured s1 \<and> pt_is_am s1"
  let ?si = "\<lparr>wsi_sdu = (if ?keep then buf else []), wsi_count = ?n,
            wsi_tick_point_of_arrival = (if discard_finite s1 then Some (tenv_now env) else None)\<rparr>"
  have "tx_effect s evs ts s' \<and> (tx_timer_ok s \<longrightarrow> tx_timer_ok s') \<and> (pt_st s' = pt_st s \<or> pt_st s' = (pt_st s)\<lparr>ts_next := ?n + 1\<rparr>)"
  proof (cases "?keep \<and> \<not> tenv_copy_ok env buf")
    case True
    then have "s' = s1" "evs = [tx_on_protocol_failure]" "ts = []"
      using assms(5) by (auto simp: tx_send_sdu_def Let_def s1_def)
    then show ?thesis
      using tx_same_effect[OF same1 assms(1), of evs ts] tx_same_timer[OF same1] st1(1) by simp
  next
    case False
    have room1: "tx_room s1"
      using assms(3) by (simp add: tx_room_def st1)
    obtain w where w: "tw_add_sdu (pt_tx_window s1) ?si (of_nat (length buf)) = Some w"
        "tx_inv (s1\<lparr>pt_tx_window := w, pt_st := (pt_st s1)\<lparr>ts_next := ?n + 1\<rparr>\<rparr>)"
      using tx_add_sdu_inv[OF inv1 room1, of ?si "of_nat (length buf)"] assms(4) by (auto simp: st1)
    obtain ok buf1 evs1 s2 where c: "apply_header_compression env (s1\<lparr>pt_tx_window := w\<rparr>) buf = (ok, buf1, evs1, s2)"
      by (cases "apply_header_compression env (s1\<lparr>pt_tx_window := w\<rparr>) buf")
    obtain r where r: "ok" "evs1 = []" "s2 = s1\<lparr>pt_tx_window := w, pt_rohc_comp := r\<rparr>"
      using apply_header_compression_ok[OF assms(2) c] by auto
    let ?s3 = "s2\<lparr>pt_st := (pt_st s2)\<lparr>ts_next := ts_next (pt_st s2) + 1\<rparr>\<rparr>"
    have "Option.bind (prepend_data_pdu_header (txc_rb_type (pt_cfg s2)) (txc_sn_size (pt_cfg s2)) True buf1 (pt_SN s2 ?n)) (\<lambda>(hdr_ok, buf2).
        if \<not> hdr_ok then Some (s2, [tx_on_protocol_failure], [])
        else map_option (\<lambda>(s3, ts). (s3, [], ts)) (post_crypto_task env ?s3
               \<lparr>tb_is_retx = False, tb_retx_id = pt_retransmit_id s2, tb_count = ?n, tb_buf = buf2\<rparr>)) = Some (s', evs, ts)"
      using assms(2,5) False w(1) c r(1,2)
      by (auto simp: tx_send_sdu_def Let_def s1_def[symmetric] st1 tx_env_ok_def cong: if_cong)
    then obtain hdr_ok buf2 where h: "prepend_data_pdu_header (txc_rb_type (pt_cfg s2)) (txc_sn_size (pt_cfg s2)) True buf1 (pt_SN s2 ?n) = Some (hdr_ok, buf2)"
      and p: "(if \<not> hdr_ok then Some (s2, [tx_on_protocol_failure], [])
        else map_option (\<lambda>(s3, ts). (s3, [], ts)) (post_crypto_task env ?s3
               \<lparr>tb_is_retx = False, tb_retx_id = pt_retransmit_id s2, tb_count = ?n, tb_buf = buf2\<rparr>)) = Some (s', evs, ts)"
      by (auto simp: bind_eq_Some_conv')
    have "valid_sn_size (txc_sn_size (pt_cfg s2))"
      using inv1 r(3) by (simp add: tx_inv_def tx_cfg_ok_def)
    then have ok: "hdr_ok"
      by (rule prepend_data_pdu_header_ok[OF h])
    have same3: "tx_same (s1\<lparr>pt_tx_window := w, pt_st := (pt_st s1)\<lparr>ts_next := ?n + 1\<rparr>\<rparr>) ?s3"
      using r(3) by (simp add: tx_same_def st1)
    have inv3: "tx_inv ?s3"
      by (rule tx_same_inv[OF same3 w(2)])
    have post: "post_crypto_task env ?s3 \<lparr>tb_is_retx = False, tb_retx_id = pt_retransmit_id s2, tb_count = ?n, tb_buf = buf2\<rparr> = Some (s', ts)"
      and evs: "evs = []"
      using p ok by auto
    have same4: "tx_same ?s3 s'" and ts: "new_counts ts = [] \<or> new_counts ts = [?n]"
      using post_crypto_task_effect[OF inv3 post] by auto
    have inc: "unat (?n + 1) = Suc (unat ?n)"
      using unat_inc assms(4) by (auto simp: u32_less_iff)
    have st': "pt_st s' = (pt_st s)\<lparr>ts_next := ?n + 1\<rparr>" "pt_cfg s' = pt_cfg s" "pt_crypto_reordering_timer s' \<longrightarrow> pt_crypto_reordering_timer s"
      using same4 same1 r(3) by (simp_all add: tx_same_def st1)
    have "rising ?n (?n + 1) (new_counts ts)"
      using ts inc by (auto simp: rising_def)
    then have "tx_effect s evs ts s'"
      using tx_same_inv[OF same4 inv3] evs st' by (simp add: tx_effect_def)
    moreover have "tx_timer_ok s \<longrightarrow> tx_timer_ok s'"
      using st' inc by (auto simp: tx_timer_ok_def)
    ultimately show ?thesis
      using st'(1) by simp
  qed
  then show "tx_effect s evs ts s'" and "tx_timer_ok s \<Longrightarrow> tx_timer_ok s'"
    and "pt_st s' = pt_st s \<or> pt_st s' = (pt_st s)\<lparr>ts_next := ?n + 1\<rparr>"
    by blast+
qed

lemma no_drop_room:
  assumes "tx_inv s" and "check_early_drop s buf = no_drop"
  shows "tx_room s"
proof -
  let ?n = "ts_next (pt_st s)" and ?a = "ts_next_ack (pt_st s)" and ?h = "half_range (txc_sn_size (pt_cfg s))"
  have le: "unat ?a \<le> unat ?n" and ws: "pt_window_size s = of_nat ?h"
    using assms(1) by (auto simp: tx_inv_def tx_vars_ok_def tx_cfg_ok_def Let_def)
  have "\<not> pt_window_size s - 1 \<le> ?n - ?a"
    using assms(2) by (auto simp: check_early_drop_def Let_def split: if_splits)
  moreover have "unat (pt_window_size s - 1) = ?h - 1"
    using half_range_bounds[of "txc_sn_size (pt_cfg s)"] unfolding ws by (simp add: unat_sub_if_size word_size unat_of_nat)
  moreover have "unat (?n - ?a) = unat ?n - unat ?a"
    using le by (simp add: unat_sub_if_size)
  ultimately show ?thesis
    by (simp add: tx_room_def u32_less_iff)
qed

lemma handle_sdu_effect:
  assumes "tx_inv s" and "tx_env_ok env" and "pt_is_srb s \<longrightarrow> tx_room s" and "handle_sdu env s buf = Some (s', evs, ts)"
  shows "tx_effect s evs ts s'" and "tx_timer_ok s \<Longrightarrow> tx_timer_ok s'"
    and "pt_st s' = pt_st s \<or> pt_st s' = (pt_st s)\<lparr>ts_next := ts_next (pt_st s) + 1\<rparr>"
proof -
  define s1 where "s1 = (if pt_suspended s \<and> \<not> pt_resume_requested s then s\<lparr>pt_resume_requested := True\<rparr> else s)"
  define evs1 where "evs1 = (if pt_suspended s \<and> \<not> pt_resume_requested s then [tx_on_resume_required] else [])"
  have same1: "tx_same s s1" and none1: "pdu_counts evs1 = []"
    by (simp_all add: s1_def evs1_def tx_same_def)
  obtain go s2 evs2 where chk: "tx_check_max_count s1 = (go, s2, evs2)"
    by (cases "tx_check_max_count s1")
  have same2: "tx_same s1 s2" and none2: "pdu_counts evs2 = []" and go: "go \<Longrightarrow> ts_next (pt_st s1) < mc_hard (txc_max_count (pt_cfg s1))"
    using chk by (auto simp: tx_check_max_count_def tx_same_def split: if_splits)
  have same: "tx_same s s2"
    by (rule tx_same_trans[OF same1 same2])
  note sameD = same[unfolded tx_same_def]
  have inv2: "tx_inv s2"
    by (rule tx_same_inv[OF same assms(1)])
  consider "tx_same s s'" "pdu_counts evs = []" "ts = []"
    | evs3 where "tx_send_sdu env s2 buf = Some (s', evs3, ts)" "evs = evs1 @ evs2 @ evs3" "go" "pt_is_srb s1 \<or> check_early_drop s1 buf = no_drop"
  proof (cases "pt_stopped s \<or> pt_buffering s1 \<or> \<not> pt_is_srb s1 \<and> check_early_drop s1 buf \<noteq> no_drop \<or> \<not> go")
    case True
    then have "tx_same s s' \<and> pdu_counts evs = [] \<and> ts = []"
      using assms(4) chk same same1 none1 none2
      by (auto simp: handle_sdu_def Let_def s1_def[symmetric] evs1_def[symmetric] tx_same_def split: if_splits)
    then show ?thesis
      using that(1) by blast
  next
    case False
    then show ?thesis
      using assms(4) chk that(2)
      by (auto simp: handle_sdu_def Let_def s1_def[symmetric] evs1_def[symmetric] split: if_splits)
  qed
  then have "tx_effect s evs ts s' \<and> (tx_timer_ok s \<longrightarrow> tx_timer_ok s')
    \<and> (pt_st s' = pt_st s \<or> pt_st s' = (pt_st s)\<lparr>ts_next := ts_next (pt_st s) + 1\<rparr>)"
  proof cases
    case 1
    then show ?thesis
      using tx_same_effect[OF 1(1) assms(1)] 1(2,3) tx_same_timer[OF 1(1)] by (simp add: tx_same_def)
  next
    case 2
    have "tx_room s1"
      using no_drop_room[OF tx_same_inv[OF same1 assms(1)]] assms(3) 2(4) same1 by (auto simp: tx_same_def tx_room_def pt_is_srb_def)
    then have room: "tx_room s2" and lim: "ts_next (pt_st s2) < mc_hard (txc_max_count (pt_cfg s2))"
      using same2 go[OF 2(3)] by (simp_all add: tx_same_def tx_room_def)
    note eff = tx_send_sdu_effect[OF inv2 assms(2) room lim 2(1)]
    have "tx_effect s (evs1 @ evs2) [] s2"
      using tx_same_effect[OF same assms(1)] none1 none2 by simp
    then show ?thesis
      using tx_effect_trans[OF _ eff(1), of s "evs1 @ evs2" "[]"] eff(2,3) tx_same_timer[OF same] 2(2) sameD by simp
  qed
  then show "tx_effect s evs ts s'" and "tx_timer_ok s \<Longrightarrow> tx_timer_ok s'"
    and "pt_st s' = pt_st s \<or> pt_st s' = (pt_st s)\<lparr>ts_next := ts_next (pt_st s) + 1\<rparr>"
    by blast+
qed

lemma flush_sdu_buffer_effect:
  assumes "tx_inv s" and "tx_timer_ok s" and "tx_env_ok env"
    and "pt_is_srb s \<longrightarrow> unat (ts_next (pt_st s)) + n \<le> unat (ts_next_ack (pt_st s)) + half_range (txc_sn_size (pt_cfg s))"
    and "flush_sdu_buffer env n s = Some (s', evs, ts)"
  shows "tx_effect s evs ts s' \<and> tx_timer_ok s'"
  using assms
proof (induction n arbitrary: s evs ts)
  case 0
  then show ?case
    using tx_effect_refl by simp
next
  case (Suc n)
  obtain buf rb s1 evs1 ts1 evs2 ts2 where h: "handle_sdu env (s\<lparr>pt_sdu_buffer := rb\<rparr>) buf = Some (s1, evs1, ts1)"
    and rest: "flush_sdu_buffer env n s1 = Some (s', evs2, ts2)" and e: "evs = evs1 @ evs2" "ts = ts1 @ ts2"
    using Suc(6) by (auto simp: bind_eq_Some_conv')
  let ?s = "s\<lparr>pt_sdu_buffer := rb\<rparr>"
  have same: "tx_same s ?s"
    by (simp add: tx_same_def)
  have inv: "tx_inv ?s" "pt_is_srb ?s \<longrightarrow> tx_room ?s"
    using tx_same_inv[OF same Suc(2)] Suc(5) by (auto simp: tx_room_def pt_is_srb_def)
  note eff = handle_sdu_effect[OF inv(1) Suc(4) inv(2) h]
  have inv1: "tx_inv s1" and cfg1: "pt_cfg s1 = pt_cfg s" and tim1: "tx_timer_ok s1"
    using eff(1,2) tx_same_timer[OF same Suc(3)] by (simp_all add: tx_effect_def)
  have "pt_is_srb s1 \<longrightarrow> unat (ts_next (pt_st s1)) + n \<le> unat (ts_next_ack (pt_st s1)) + half_range (txc_sn_size (pt_cfg s1))"
    using eff(3) Suc(5) cfg1 by (auto simp: pt_is_srb_def unat_word_ariths intro: order.trans[OF add_right_mono[OF mod_less_eq_dividend]])
  then have "tx_effect s1 evs2 ts2 s' \<and> tx_timer_ok s'"
    using Suc(1)[OF inv1 tim1 Suc(4) _ rest] by simp
  then show ?case
    using tx_effect_trans[OF tx_effect_trans[OF tx_same_effect[OF same Suc(2), of "[]" "[]"] eff(1)], of evs2 ts2 s'] e by simp
qed

section \<open>Control PDUs and restarts\<close>

lemma discard_below_effect:
  assumes "tx_inv s"
  shows "\<exists>s' evs. discard_below s c fmc = Some (s', evs) \<and> tx_effect s evs [] s' \<and> (tx_timer_ok s \<longrightarrow> tx_timer_ok s')
    \<and> (discard_configured s \<longrightarrow> tw_at (pt_tx_window s') = (\<lambda>d. if unat c \<le> unat d \<and> unat d < unat fmc then None else tw_at (pt_tx_window s) d))"
  using assms
proof (induction s c fmc rule: discard_below.induct)
  case (1 s c fmc)
  show ?case
  proof (cases "c < fmc")
    case False
    then show ?thesis
      using tx_effect_refl[OF 1(2)] by (subst discard_below.simps) (auto simp: u32_less_iff fun_eq_iff)
  next
    case True
    obtain s1 evs1 where s1: "discard_pdu s c = Some (s1, evs1)" "tx_effect s evs1 [] s1" "tx_timer_ok s \<longrightarrow> tx_timer_ok s1"
        "discard_configured s \<longrightarrow> tw_at (pt_tx_window s1) = (tw_at (pt_tx_window s))(c := None)" "pt_cfg s1 = pt_cfg s"
      using discard_pdu_effect[OF 1(2)] by metis
    have inv1: "tx_inv s1"
      using s1(2) by (simp add: tx_effect_def)
    obtain s' evs where IH: "discard_below s1 (c + 1) fmc = Some (s', evs)" "tx_effect s1 evs [] s'" "tx_timer_ok s1 \<longrightarrow> tx_timer_ok s'"
        "discard_configured s1 \<longrightarrow> tw_at (pt_tx_window s') =
           (\<lambda>d. if unat (c + 1) \<le> unat d \<and> unat d < unat fmc then None else tw_at (pt_tx_window s1) d)"
      using 1(1)[OF True s1(1) refl inv1] by blast
    have inc: "unat (c + 1) = Suc (unat c)" and lt: "unat c < unat fmc"
      using True unat_inc by (auto simp: u32_less_iff)
    have "tw_at (pt_tx_window s') d = (if unat c \<le> unat d \<and> unat d < unat fmc then None else tw_at (pt_tx_window s) d)"
      if "discard_configured s" for d
    proof -
      have "discard_configured s1"
        using that s1(5) by (simp add: discard_configured_def)
      then show ?thesis
        using that IH(4) s1(4) inc lt u32_less_iff(3)[of d c] by (auto simp: Suc_le_eq)
    qed
    then show ?thesis
      using True s1(1) IH(1) tx_effect_trans[OF s1(2) IH(2)] s1(3) IH(3)
      by (subst discard_below.simps) (auto simp: add_events_def fun_eq_iff)
  qed
qed

lemma report_discards_effect:
  assumes "tx_inv s"
  shows "\<exists>s' evs. report_discards s d fmc = Some (s', evs) \<and> tx_effect s evs [] s' \<and> (tx_timer_ok s \<longrightarrow> tx_timer_ok s')"
  using assms
proof (induction s d fmc rule: report_discards.induct)
  case (1 s d fmc)
  obtain ok b d' where u: "unpack d 1 = Some (ok, b :: u32, d')"
    by (cases "unpack_loop d (0 :: u32) 1") (simp add: unpack_def)
  show ?case
  proof (cases ok)
    case False
    then show ?thesis
      using u tx_effect_refl[OF 1(2)] by (subst report_discards.simps) auto
  next
    case True
    have "\<exists>s1 evs1. (if b = 1 then discard_pdu s (fmc + 1) else Some (s, [])) = Some (s1, evs1) \<and> tx_effect s evs1 [] s1
        \<and> (tx_timer_ok s \<longrightarrow> tx_timer_ok s1)"
    proof (cases "b = 1")
      case True
      then show ?thesis
        by (cases rule: discard_pdu_effect[OF 1(2), of "fmc + 1"]) auto
    qed (use tx_effect_refl[OF 1(2)] in simp)
    then obtain s1 evs1 where s1: "(if b = 1 then discard_pdu s (fmc + 1) else Some (s, [])) = Some (s1, evs1)"
        "tx_effect s evs1 [] s1" "tx_timer_ok s \<longrightarrow> tx_timer_ok s1"
      by blast
    have inv1: "tx_inv s1"
      using s1(2) by (simp add: tx_effect_def)
    obtain s' evs where IH: "report_discards s1 d' (fmc + 1) = Some (s', evs)" "tx_effect s1 evs [] s'" "tx_timer_ok s1 \<longrightarrow> tx_timer_ok s'"
      using 1(1)[OF u refl refl True s1(1) refl inv1] by blast
    have "report_discards s d fmc = Some (s', evs1 @ evs)"
      using True u s1(1) IH(1) by (subst report_discards.simps) (simp add: add_events_def split del: if_split)
    then show ?thesis
      using tx_effect_trans[OF s1(2) IH(2)] s1(3) IH(3) by auto
  qed
qed

lemma unpack_u32: "n \<le> 32 \<Longrightarrow> \<exists>ok v d'. unpack d n = Some (ok, v :: u32, d')"
  by (cases "unpack_loop d (0 :: u32) n") (simp add: unpack_def)

lemma handle_status_report_effect:
  assumes "tx_inv s"
  shows "\<exists>s' evs. handle_status_report mem_ok s buf = Some (s', evs) \<and> tx_effect s evs [] s' \<and> (tx_timer_ok s \<longrightarrow> tx_timer_ok s')"
proof -
  have quiet: "tx_effect s evs [] s \<and> (tx_timer_ok s \<longrightarrow> tx_timer_ok s)" if "pdu_counts evs = []" for evs
    using tx_effect_refl[OF assms] that by (simp add: tx_effect_def)
  obtain ok1 dc d1 where u1: "unpack (bit_decoder_new buf) 1 = Some (ok1, dc :: u32, d1)"
    using unpack_u32 by fastforce
  obtain ok2 cpt d2 where u2: "unpack d1 3 = Some (ok2, cpt :: u32, d2)"
    using unpack_u32[of 3 d1] by auto
  obtain ok3 reserved d3 where u3: "unpack d2 4 = Some (ok3, reserved :: u32, d3)"
    using unpack_u32[of 4 d2] by auto
  obtain ok4 fmc d4 where u4: "unpack d3 32 = Some (ok4, fmc :: u32, d4)"
    using unpack_u32[of 32 d3] by auto
  obtain s1 evs1 where b: "discard_below s (ts_next_ack (pt_st s)) fmc = Some (s1, evs1)" "tx_effect s evs1 [] s1" "tx_timer_ok s \<longrightarrow> tx_timer_ok s1"
    using discard_below_effect[OF assms] by blast
  have inv1: "tx_inv s1"
    using b(2) by (simp add: tx_effect_def)
  obtain s2 evs2 where r: "report_discards s1 d4 fmc = Some (s2, evs2)" "tx_effect s1 evs2 [] s2" "tx_timer_ok s1 \<longrightarrow> tx_timer_ok s2"
    using report_discards_effect[OF inv1] by blast
  have "tx_effect s (evs0 @ evs1 @ evs2) [] s2 \<and> (tx_timer_ok s \<longrightarrow> tx_timer_ok s2)" if "pdu_counts evs0 = []" for evs0
    using tx_effect_trans[OF tx_effect_trans[OF conjunct1[OF quiet[OF that]] b(2)] r(2)] b(3) r(3) by simp
  then show ?thesis
    using quiet b(3) r(3) by (simp add: handle_status_report_def u1[simplified] u2 u3 u4 Let_def b(1) r(1) add_events_def)
qed

lemma retransmit_loop_effect:
  assumes "retransmit_loop env s c = Some (s', evs, ts)"
  shows "tx_same s s' \<and> pdu_counts evs = [] \<and> new_counts ts = []"
  using assms
proof (induction env s c arbitrary: s' evs ts rule: retransmit_loop.induct)
  case (1 env s c)
  show ?case
  proof (cases "c < ts_next (pt_st s)")
    case False
    then show ?thesis
      using 1(3) by (subst (asm) retransmit_loop.simps) (auto simp: tx_same_def)
  next
    case lt: True
    show ?thesis
    proof (cases "tw_has_sn (pt_tx_window s) c")
      case False
      then have "retransmit_loop env s (c + 1) = Some (s', evs, ts)"
        using 1(3) lt by (subst (asm) retransmit_loop.simps) simp
      then show ?thesis
        using 1(2)[OF lt False] by blast
    next
      case True
      then obtain e where e: "tw_at (pt_tx_window s) c = Some e"
        by (auto simp: tw_has_sn_at)
      obtain ok buf1 evs1 s1 where h: "apply_header_compression env s (wsi_sdu (we_sdu_info e)) = (ok, buf1, evs1, s1)"
        by (cases "apply_header_compression env s (wsi_sdu (we_sdu_info e))")
      have same1: "tx_same s s1" and none1: "pdu_counts evs1 = []"
        using h by (auto simp: apply_header_compression_def Let_def tx_same_def split: option.splits if_splits)
      show ?thesis
      proof (cases "tenv_copy_ok env (wsi_sdu (we_sdu_info e)) \<and> ok")
        case False
        then show ?thesis
          using 1(3) lt True e h same1 none1 by (subst (asm) retransmit_loop.simps) (auto simp: tx_same_def split: if_splits)
      next
        case ok: True
        obtain hdr_ok buf2 where p: "prepend_data_pdu_header (txc_rb_type (pt_cfg s1)) (txc_sn_size (pt_cfg s1)) (tenv_header_ok env buf1)
              buf1 (pt_SN s1 c) = Some (hdr_ok, buf2)"
          using 1(3) lt True e h ok by (subst (asm) retransmit_loop.simps) (auto simp: bind_eq_Some_conv')
        show ?thesis
        proof (cases hdr_ok)
          case False
          then show ?thesis
            using 1(3) lt True e h ok p same1 none1 by (subst (asm) retransmit_loop.simps) auto
        next
          case hdr: True
          let ?bi = "\<lparr>tb_is_retx = True, tb_retx_id = pt_retransmit_id s1, tb_count = c, tb_buf = buf2\<rparr>"
          have "Option.bind (post_crypto_task env s1 ?bi) (\<lambda>(s2, ts).
              Option.bind (retransmit_loop env s2 (c + 1)) (\<lambda>(s3, evs3, ts3). Some (s3, evs1 @ evs3, ts @ ts3))) = Some (s', evs, ts)"
            using 1(3) lt True e h ok p hdr by (subst (asm) retransmit_loop.simps) simp
          then obtain s2 ts2 evs3 ts3 where s2: "post_crypto_task env s1 ?bi = Some (s2, ts2)"
            and s3: "retransmit_loop env s2 (c + 1) = Some (s', evs3, ts3)" and eq: "evs = evs1 @ evs3" "ts = ts2 @ ts3"
            by (auto simp: bind_eq_Some_conv')
          have "tx_same s1 s2" "new_counts ts2 = []"
            using s2 by (auto simp: post_crypto_task_def tx_drop_token_def Let_def tx_same_def split: if_splits)
          moreover have "tx_same s2 s' \<and> pdu_counts evs3 = [] \<and> new_counts ts3 = []"
            using 1(1)[OF lt True e _ h[symmetric]] ok p hdr s2 s3 by auto
          ultimately show ?thesis
            using same1 none1 eq tx_same_trans by (metis counts_simps(3,4) append_Nil)
        qed
      qed
    qed
  qed
qed

lemma retransmit_all_pdus_inv:
  assumes "tx_inv s" and "\<not> pt_crypto_reordering_timer s" and "retransmit_all_pdus env s = Some (s', evs, ts)"
  shows "tx_inv s'" and "\<not> pt_crypto_reordering_timer s'" and "new_counts ts = []" and "ts_next (pt_st s') = ts_next (pt_st s)"
    and "pt_cfg s' = pt_cfg s" and "pdu_counts evs = []"
proof -
  let ?s1 = "s\<lparr>pt_st := (pt_st s)\<lparr>ts_trans := ts_next_ack (pt_st s), ts_trans_crypto := ts_next_ack (pt_st s)\<rparr>,
                 pt_retransmit_id := pt_retransmit_id s + 1\<rparr>"
  have "tx_inv s' \<and> \<not> pt_crypto_reordering_timer s' \<and> new_counts ts = [] \<and> ts_next (pt_st s') = ts_next (pt_st s)
    \<and> pt_cfg s' = pt_cfg s \<and> pdu_counts evs = []"
  proof (cases "discard_configured s \<and> pt_is_am s")
    case False
    then have "retransmit_all_pdus env s = Some (s, [], [])"
      by (auto simp: retransmit_all_pdus_def Let_def)
    then show ?thesis
      using assms by simp
  next
    case True
    have inv: "tx_inv ?s1"
      using assms(1)
      by (auto simp: tx_inv_def tx_cfg_ok_def tx_held_ok_def tx_vars_ok_def discard_finite_def discard_configured_def Let_def)
    have "retransmit_loop env ?s1 (ts_next_ack (pt_st s)) = Some (s', evs, ts)"
      using True assms(3) by (simp add: retransmit_all_pdus_def)
    note eff = retransmit_loop_effect[OF this]
    then show ?thesis
      using tx_same_inv[OF _ inv, of s'] assms(2) by (auto simp: tx_same_def)
  qed
  then show "tx_inv s'" and "\<not> pt_crypto_reordering_timer s'" and "new_counts ts = []" and "ts_next (pt_st s') = ts_next (pt_st s)"
    and "pt_cfg s' = pt_cfg s" and "pdu_counts evs = []"
    by simp_all
qed

section \<open>Runs\<close>

text \<open>
  The operations between two restarts.  Every step has its own environment.  Tasks run with arbitrary contents and in any order;
  an SRB has fewer unacknowledged SDUs than its window has places, which the code checks for DRBs only.
\<close>

inductive tx_step :: "pdcp_entity_tx \<Rightarrow> pdcp_tx_event list \<Rightarrow> pdcp_tx_task list \<Rightarrow> pdcp_entity_tx \<Rightarrow> bool" where
  step_sdu: "tx_env_ok env \<Longrightarrow> (pt_is_srb s \<Longrightarrow> tx_room s) \<Longrightarrow> handle_sdu env s buf = Some (s', evs, ts) \<Longrightarrow> tx_step s evs ts s'"
| step_task: "run_tx_task env s t = Some (s', evs, ts) \<Longrightarrow> tx_step s evs [] s'"
| step_discard_timer: "pt_discard_timer s \<noteq> None \<Longrightarrow> discard_finite s \<Longrightarrow> discard_callback env s = Some (s', evs) \<Longrightarrow> tx_step s evs [] s'"
| step_crypto_timer: "pt_crypto_reordering_timer s \<Longrightarrow> crypto_reordering_timeout env s = Some (s', evs) \<Longrightarrow> tx_step s evs [] s'"
| step_transmit: "handle_transmit_notification env s sn = Some s' \<Longrightarrow> tx_step s [] [] s'"
| step_delivery: "handle_delivery_notification env s sn = Some s' \<Longrightarrow> tx_step s [] [] s'"
| step_retransmit: "handle_retransmit_notification env s sn = Some s' \<Longrightarrow> tx_step s [] [] s'"
| step_delivery_retransmitted: "handle_delivery_retransmitted_notification env s sn = Some s' \<Longrightarrow> tx_step s [] [] s'"
| step_desired_buffer_size: "tx_step s [] [] (handle_desired_buffer_size_notification s bs)"
| step_status_report: "handle_status_report mem_ok s buf = Some (s', evs) \<Longrightarrow> tx_step s evs [] s'"
| step_rohc_received: "consume_rohc_feedback mem_ok s buf = Some s' \<Longrightarrow> tx_step s [] [] s'"
| step_rohc_produced: "tx_step s (forward_rohc_feedback mem_ok s buf) [] s"
| step_send_report: "tx_step s (send_status_report s report) [] s"
| step_begin_buffering: "tx_step s [] [] (tx_begin_buffering s)"
| step_end_buffering: "tx_env_ok env \<Longrightarrow> (pt_is_srb s \<Longrightarrow> unat (ts_next (pt_st s)) + rb_count (pt_sdu_buffer s)
      \<le> unat (ts_next_ack (pt_st s)) + half_range (txc_sn_size (pt_cfg s))) \<Longrightarrow>
      tx_end_buffering env s = Some (s', evs, ts) \<Longrightarrow> tx_step s evs ts s'"
| step_resume: "tx_step s [] [] (snd (tx_resume s))"
| step_configure: "tx_configure_security s sec_cfg integ ciph = Some s' \<Longrightarrow> tx_step s [] [] s'"
| step_halt: "tx_notify_pdu_processing_stopped s = Some s' \<Longrightarrow> tx_step s [] [] s'"
| step_continue: "tx_step s [] [] (tx_restart_pdu_processing s)"

text \<open>
  What starts the numbering or the transmission anew: re-establishment and data recovery, when no PDU is awaited from the crypto
  workers; suspension; and the transfer of a COUNT to an entity that holds no SDU.
\<close>

inductive tx_restart :: "pdcp_entity_tx \<Rightarrow> pdcp_entity_tx \<Rightarrow> bool" where
  restart_reestablish: "\<not> pt_crypto_reordering_timer s \<Longrightarrow> tx_reestablish env s sec_cfg = Some (s', evs, ts) \<Longrightarrow> tx_restart s s'"
| restart_recovery: "\<not> pt_crypto_reordering_timer s \<Longrightarrow> data_recovery env s report = Some (s', evs, ts) \<Longrightarrow> tx_restart s s'"
| restart_suspend: "tx_restart s (snd (tx_suspend s))"
| restart_count: "\<not> pt_crypto_reordering_timer s \<Longrightarrow> tw_at (pt_tx_window s) = (\<lambda>_. None) \<Longrightarrow> s' = tx_set_count s ci \<Longrightarrow>
      ts_next (pt_st s') \<le> mc_hard (txc_max_count (pt_cfg s)) \<Longrightarrow> tx_restart s s'"
| restart_stop: "tx_stop s = Some s' \<Longrightarrow> tx_restart s s'"

inductive tx_run :: "pdcp_entity_tx \<Rightarrow> pdcp_tx_event list \<Rightarrow> pdcp_tx_task list \<Rightarrow> pdcp_entity_tx \<Rightarrow> bool" where
  tx_run_refl: "tx_run s [] [] s"
| tx_run_step: "tx_run s evs ts s1 \<Longrightarrow> tx_step s1 evs1 ts1 s2 \<Longrightarrow> tx_run s (evs @ evs1) (ts @ ts1) s2"

text \<open>The states of an entity that was created with a configuration.\<close>

inductive tx_reachable :: "pdcp_entity_tx \<Rightarrow> bool" where
  reach_new: "pdcp_entity_tx_new env bearer cfg n = Some s \<Longrightarrow> tx_reachable s"
| reach_run: "tx_reachable s \<Longrightarrow> tx_run s evs ts s' \<Longrightarrow> tx_reachable s'"
| reach_restart: "tx_reachable s \<Longrightarrow> tx_restart s s' \<Longrightarrow> tx_reachable s'"

lemma run_tx_task_effect:
  assumes "tx_inv s" and "tx_timer_ok s" and "run_tx_task env s t = Some (s', evs, ts)"
  shows "tx_effect s evs [] s' \<and> tx_timer_ok s'"
proof (cases t)
  case (Tx_crypto_task bi)
  then have "tx_same s s'" "evs = []"
    using assms(3) by (auto simp: run_tx_task_def tx_apply_security_def tx_post_ue_task_def tx_drop_token_def bind_eq_Some_conv'
        tx_same_def split: if_splits)
  then show ?thesis
    using tx_same_effect[OF _ assms(1)] tx_same_timer[OF _ assms(2)] by simp
next
  case (Tx_reorder_task bi)
  then obtain s1 where s1: "tx_apply_reordering env s bi = Some (s1, evs)" "tx_drop_token s1 = Some s'"
    using assms(3) by (auto simp: run_tx_task_def bind_eq_Some_conv')
  have same: "tx_same s1 s'"
    using s1(2) by (auto simp: tx_drop_token_def tx_same_def)
  note eff = tx_apply_reordering_effect[OF assms(1,2) s1(1)]
  have "tx_inv s1"
    using eff(1) by (simp add: tx_effect_def)
  then show ?thesis
    using tx_effect_trans[OF eff(1) tx_same_effect[OF same, of "[]" "[]"]] tx_same_timer[OF same eff(2)] by simp
next
  case (Tx_failure_task st)
  then have "tx_same s s'" "evs = [tx_on_protocol_failure]"
    using assms(3) by (auto simp: run_tx_task_def tx_drop_token_def tx_same_def)
  then show ?thesis
    using tx_same_effect[OF _ assms(1)] tx_same_timer[OF _ assms(2)] by simp
qed

lemma transmit_notification_effect:
  assumes "tx_inv s" and "tx_timer_ok s" and "handle_transmit_notification_impl env s sn = Some s'"
  shows "tx_effect s [] [] s' \<and> tx_timer_ok s'"
  using handle_transmit_notification_effect[OF assms(1,3)] assms(2) by (simp add: tx_timer_ok_def)

lemma tx_step_effect:
  assumes "tx_step s evs ts s'" and "tx_inv s" and "tx_timer_ok s"
  shows "tx_effect s evs ts s' \<and> tx_timer_ok s'"
  using assms
proof (induction rule: tx_step.induct)
  case (step_sdu env s buf s' evs ts)
  then show ?case
    using handle_sdu_effect[of s env buf s' evs ts] by blast
next
  case (step_task env s t s' evs ts)
  then show ?case
    using run_tx_task_effect by blast
next
  case (step_discard_timer s env s' evs)
  then show ?case
    using discard_callback_ok[of s env] by auto
next
  case (step_crypto_timer s env s' evs)
  then show ?case
    using crypto_reordering_timeout_effect by blast
next
  case (step_transmit env s sn s')
  then show ?case
    using transmit_notification_effect[of s env sn s'] tx_effect_refl[of s] by (auto simp: handle_transmit_notification_def split: if_splits)
next
  case (step_delivery env s sn s')
  then show ?case
    using handle_delivery_notification_effect[of s env sn s'] tx_effect_refl[of s] by (auto simp: handle_delivery_notification_def split: if_splits)
next
  case (step_retransmit env s sn s')
  then show ?case
    using transmit_notification_effect[of s env sn s'] tx_effect_refl[of s] by (auto simp: handle_retransmit_notification_def split: if_splits)
next
  case (step_delivery_retransmitted env s sn s')
  then show ?case
    using handle_delivery_notification_effect[of s env sn s'] tx_effect_refl[of s]
    by (auto simp: handle_delivery_retransmitted_notification_def split: if_splits)
next
  case (step_desired_buffer_size s bs)
  have "tx_same s (handle_desired_buffer_size_notification s bs)"
    by (simp add: handle_desired_buffer_size_notification_def tx_same_def)
  then show ?case
    using tx_same_effect[of s _ "[]" "[]"] tx_same_timer step_desired_buffer_size by simp
next
  case (step_status_report mem_ok s buf s' evs)
  then show ?case
    using handle_status_report_effect[of s mem_ok buf] by auto
next
  case (step_rohc_received mem_ok s buf s')
  then have "tx_same s s'"
    by (auto simp: consume_rohc_feedback_def bind_eq_Some_conv' tx_same_def split: option.splits if_splits prod.splits)
  then show ?case
    using tx_same_effect[of s _ "[]" "[]"] tx_same_timer step_rohc_received by simp
next
  case (step_rohc_produced s mem_ok buf)
  then show ?case
    using tx_effect_refl[of s] by (auto simp: forward_rohc_feedback_def prepend_control_pdu_header_def tx_effect_def Let_def split: if_splits)
next
  case (step_send_report s report)
  then show ?case
    using tx_effect_refl[of s] by (auto simp: send_status_report_def tx_effect_def)
next
  case (step_begin_buffering s)
  have "tx_same s (tx_begin_buffering s)"
    by (simp add: tx_begin_buffering_def tx_same_def)
  then show ?case
    using tx_same_effect[of s _ "[]" "[]"] tx_same_timer step_begin_buffering by simp
next
  case (step_end_buffering env s s' evs ts)
  let ?s = "s\<lparr>pt_buffering := False\<rparr>"
  have same: "tx_same s ?s"
    by (simp add: tx_same_def)
  have "tx_effect ?s evs ts s' \<and> tx_timer_ok s'"
    using step_end_buffering tx_same_inv[OF same] tx_same_timer[OF same]
    by (intro flush_sdu_buffer_effect[of ?s env "rb_count (pt_sdu_buffer s)"]) (auto simp: tx_end_buffering_def pt_is_srb_def)
  then show ?case
    using tx_effect_trans[OF tx_same_effect[OF same, of "[]" "[]"], of evs ts s'] step_end_buffering by simp
next
  case (step_resume s)
  have "tx_same s (snd (tx_resume s))"
    by (simp add: tx_resume_def tx_same_def)
  then show ?case
    using tx_same_effect[of s _ "[]" "[]"] tx_same_timer step_resume by simp
next
  case (step_configure s sec_cfg integ ciph s')
  then have "tx_same s s'"
    by (auto simp: tx_configure_security_def tx_same_def split: if_splits)
  then show ?case
    using tx_same_effect[of s _ "[]" "[]"] tx_same_timer step_configure by simp
next
  case (step_halt s s')
  then have "tx_same s s'"
    by (auto simp: tx_notify_pdu_processing_stopped_def tx_same_def split: if_splits)
  then show ?case
    using tx_same_effect[of s _ "[]" "[]"] tx_same_timer step_halt by simp
next
  case (step_continue s)
  have "tx_same s (tx_restart_pdu_processing s)"
    by (simp add: tx_restart_pdu_processing_def tx_same_def)
  then show ?case
    using tx_same_effect[of s _ "[]" "[]"] tx_same_timer step_continue by simp
qed

lemma tx_run_effect:
  assumes "tx_run s evs ts s'" and "tx_inv s" and "tx_timer_ok s"
  shows "tx_effect s evs ts s' \<and> tx_timer_ok s'"
  using assms
proof (induction rule: tx_run.induct)
  case (tx_run_refl s)
  then show ?case
    using tx_effect_refl by simp
next
  case (tx_run_step s evs ts s1 evs1 ts1 s2)
  then have 1: "tx_effect s evs ts s1" "tx_timer_ok s1"
    by simp_all
  then have "tx_inv s1"
    by (simp add: tx_effect_def)
  then have "tx_effect s1 evs1 ts1 s2 \<and> tx_timer_ok s2"
    using tx_step_effect[OF tx_run_step(2)] 1(2) by simp
  then show ?case
    using tx_effect_trans[OF 1(1)] by simp
qed

lemma tx_reset_inv:
  assumes "tx_inv s"
  shows "tx_inv (s\<lparr>pt_st := tx_state_at 0, pt_tx_window := tw_clear (pt_tx_window s)\<rparr>)"
proof -
  have "tw_wf (tx_win_bits s) (pt_tx_window s)"
    using assms by (simp add: tx_inv_def tx_held_ok_def)
  note clear = tw_clear_ok[OF this]
  show ?thesis
    using assms clear
    by (simp add: tx_inv_def tx_cfg_ok_def tx_held_ok_def tx_vars_ok_def tx_state_at_def Let_def) (simp add: tw_clear_def)
qed

lemma tx_restart_inv:
  assumes "tx_restart s s'" and "tx_inv s" and "tx_timer_ok s"
  shows "tx_inv s' \<and> tx_timer_ok s'"
  using assms
proof (induction rule: tx_restart.induct)
  case (restart_reestablish s env sec_cfg s' evs ts)
  define s1 where "s1 = init_header_compression env s"
  define s2 where "s2 = (if pt_is_srb s1 \<or> pt_is_um s1 then tx_reset s1 else s1)"
  obtain s3 where s3: "tx_configure_security s2 sec_cfg (pt_integrity_enabled s2) (pt_ciphering_enabled s2) = Some s3"
    and fin: "(if pt_is_am s3 then retransmit_all_pdus env s3 else Some (s3, [], [])) = Some (s', evs, ts)"
    using restart_reestablish(2) unfolding tx_reestablish_def Let_def s1_def[symmetric] s2_def[symmetric] bind_eq_Some_conv' by blast
  have same1: "tx_same s s1"
    by (simp add: s1_def init_header_compression_def tx_same_def)
  have inv1: "tx_inv s1"
    by (rule tx_same_inv[OF same1 restart_reestablish(3)])
  have inv2: "tx_inv s2" "\<not> pt_crypto_reordering_timer s2"
    using inv1 tx_reset_inv[OF inv1] same1 restart_reestablish(1) by (auto simp: s2_def tx_reset_def tx_same_def)
  have same3: "tx_same s2 s3"
    using s3 by (auto simp: tx_configure_security_def tx_same_def split: if_splits)
  have inv3: "tx_inv s3" "\<not> pt_crypto_reordering_timer s3"
    using tx_same_inv[OF same3 inv2(1)] same3 inv2(2) by (auto simp: tx_same_def)
  then show ?case
    using fin retransmit_all_pdus_inv(1,2)[OF inv3] by (auto simp: tx_timer_ok_def split: if_splits)
next
  case (restart_recovery s env report s' evs ts)
  then obtain evs' ts' where "retransmit_all_pdus env s = Some (s', evs', ts')"
    by (auto simp: data_recovery_def split: if_splits)
  then show ?case
    using retransmit_all_pdus_inv(1,2)[OF restart_recovery(3,1)] by (auto simp: tx_timer_ok_def)
next
  case (restart_suspend s)
  let ?s = "s\<lparr>pt_st := tx_state_at 0, pt_tx_window := tw_clear (pt_tx_window s)\<rparr>"
  have "snd (tx_suspend s) = s \<or> tx_same ?s (snd (tx_suspend s))"
    by (simp add: tx_suspend_def tx_same_def)
  moreover have "tx_timer_ok ?s"
    by (simp add: tx_timer_ok_def tx_state_at_def)
  ultimately show ?case
    using tx_same_inv[OF _ tx_reset_inv[OF restart_suspend(1)]] tx_same_timer restart_suspend by metis
next
  case (restart_count s s' ci)
  then show ?case
    by (auto simp: tx_set_count_def tx_inv_def tx_cfg_ok_def tx_held_ok_def tx_vars_ok_def tx_state_at_def Let_def tx_timer_ok_def u32_less_iff)
next
  case (restart_stop s s')
  show ?case
  proof (cases "pt_stopped s")
    case True
    then show ?thesis
      using restart_stop by (simp add: tx_stop_def)
  next
    case False
    have "tw_wf (tx_win_bits s) (pt_tx_window s)"
      using restart_stop(2) by (simp add: tx_inv_def tx_held_ok_def)
    note clear = tw_clear_ok[OF this]
    have "tx_inv (s\<lparr>pt_tx_window := tw_clear (pt_tx_window s)\<rparr>)"
      using restart_stop(2) clear
      by (simp add: tx_inv_def tx_cfg_ok_def tx_held_ok_def tx_vars_ok_def) (simp add: tw_clear_def)
    moreover have "tx_same (s\<lparr>pt_tx_window := tw_clear (pt_tx_window s)\<rparr>) s'" "tx_timer_ok s'"
      using restart_stop(1) False by (auto simp: tx_stop_def tx_same_def tx_timer_ok_def)
    ultimately show ?thesis
      using tx_same_inv by blast
  qed
qed

lemma tx_new_inv:
  assumes "pdcp_entity_tx_new env bearer cfg n = Some s"
  shows "tx_inv s" and "tx_timer_ok s" and "pt_cfg s = cfg"
proof -
  let ?sz = "txc_sn_size cfg"
  have valid: "valid_sn_size ?sz"
    using assms by (cases ?sz) (auto simp: pdcp_entity_tx_new_def valid_sn_size_def)
  obtain m :: "pdcp_tx_window_element circular_map"
    where m: "cm_init (2 ^ (sn_len ?sz - 1)) = Some m" "cm_wf (sn_len ?sz - 1) m" "\<forall>c. cm_at m c = None"
    using cm_init_pow2 by blast
  have half: "unat (of_nat (half_range ?sz) :: u32) = 2 ^ (sn_len ?sz - 1)"
    by (cases ?sz) (simp_all add: half_range_def)
  let ?w = "\<lparr>tw_window = m, tw_rb_type = txc_rb_type cfg, tw_sn_size = ?sz, tw_sdu_bytes = 0, tw_nof_sdus = 0\<rparr>"
  have w: "tw_new (txc_rb_type cfg) ?sz = Some ?w"
    using m(1) half by (simp add: tw_new_def window_size_half_range(2))
  have at: "tw_at ?w = (\<lambda>_. None)"
    using m(3) by (simp add: tw_at_def win_at_def fun_eq_iff)
  have wf: "tw_wf (sn_len ?sz - 1) ?w"
    using m(2) by (simp add: tw_wf_def at)
  have s: "pt_cfg s = cfg \<and> pt_window_size s = of_nat (half_range ?sz) \<and> pt_tx_window s = ?w \<and> pt_st s = tx_state_at 0
      \<and> \<not> pt_crypto_reordering_timer s"
    using assms w window_size_half_range(1)[OF valid]
    by (auto simp: pdcp_entity_tx_new_def init_header_compression_def bind_eq_Some_conv' split: if_splits)
  then show "tx_inv s" and "tx_timer_ok s" and "pt_cfg s = cfg"
    using valid wf at by (simp_all add: tx_inv_def tx_cfg_ok_def tx_held_ok_def tx_vars_ok_def tx_state_at_def tx_timer_ok_def Let_def)
qed

lemma tx_reachable_inv: "tx_reachable s \<Longrightarrow> tx_inv s \<and> tx_timer_ok s"
proof (induction rule: tx_reachable.induct)
  case (reach_new env bearer cfg n s)
  then show ?case
    using tx_new_inv by blast
next
  case (reach_run s evs ts s')
  then show ?case
    using tx_run_effect[of s evs ts s'] by (simp add: tx_effect_def)
next
  case (reach_restart s s')
  then show ?case
    using tx_restart_inv by blast
qed

section \<open>Properties\<close>

text \<open>
  C7: Whatever the order in which the crypto workers finish, and with SDUs, notifications, status reports, timers, buffering and
  security configuration in any order: between two restarts of the transmission the data PDUs are handed to the lower layers
  in strictly increasing order of COUNT, so none is handed down twice, and all of them lie between the old and the new value
  of the variable for the next COUNT awaited from the crypto workers.
\<close>

theorem pdcp_tx_in_order:
  assumes "tx_reachable s" and "tx_run s evs ts s'"
  shows "sorted_wrt (<) (map unat (pdu_counts evs))
    \<and> (\<forall>c \<in> set (pdu_counts evs). ts_trans_crypto (pt_st s) \<le> c \<and> c < ts_trans_crypto (pt_st s'))
    \<and> ts_trans_crypto (pt_st s') \<le> ts_next (pt_st s')"
proof -
  have "tx_effect s evs ts s'"
    using tx_run_effect[OF assms(2)] tx_reachable_inv[OF assms(1)] by blast
  then show ?thesis
    by (auto simp: tx_effect_def rising_def tx_inv_def tx_vars_ok_def Let_def u32_less_iff)
qed

text \<open>
  C8: A COUNT is never used for two SDUs under the same keys: in every run the COUNTs of the PDUs given to the crypto workers for
  the first time increase strictly from TX_NEXT on, and TX_NEXT never passes the configured hard limit.
\<close>

theorem pdcp_tx_count_unique:
  assumes "tx_reachable s" and "tx_run s evs ts s'"
  shows "sorted_wrt (<) (map unat (new_counts ts))
    \<and> (\<forall>c \<in> set (new_counts ts). ts_next (pt_st s) \<le> c \<and> c < ts_next (pt_st s'))
    \<and> ts_next (pt_st s') \<le> mc_hard (txc_max_count (pt_cfg s))"
proof -
  have "tx_effect s evs ts s'"
    using tx_run_effect[OF assms(2)] tx_reachable_inv[OF assms(1)] by blast
  then show ?thesis
    by (auto simp: tx_effect_def rising_def tx_inv_def tx_vars_ok_def Let_def u32_less_iff)
qed

text \<open>
  C9: In every reachable state of a transmitting entity the window variables are ordered, TX_NEXT_ACK <= TX_TRANS <= TX_NEXT within
  half the range of sequence numbers; every SDU held lies in the window under its own COUNT and, when SDUs can expire, with its time
  of arrival; and the numbers of SDUs and bytes that decide on early drops are exactly those of the SDUs held.
\<close>

theorem pdcp_tx_window_invariant:
  assumes "tx_reachable s"
  shows "ts_next_ack (pt_st s) \<le> ts_trans (pt_st s) \<and> ts_trans (pt_st s) \<le> ts_next (pt_st s)
    \<and> unat (ts_next (pt_st s) - ts_next_ack (pt_st s)) \<le> half_range (txc_sn_size (pt_cfg s))
    \<and> (\<forall>c e. tw_at (pt_tx_window s) c = Some e \<longrightarrow> ts_next_ack (pt_st s) \<le> c \<and> c < ts_next (pt_st s) \<and> wsi_count (we_sdu_info e) = c
         \<and> (discard_finite s \<longrightarrow> wsi_tick_point_of_arrival (we_sdu_info e) \<noteq> None))
    \<and> tw_nof_sdus (pt_tx_window s) = of_nat (card (dom (tw_at (pt_tx_window s))))
    \<and> tw_sdu_bytes (pt_tx_window s) = (\<Sum>c \<in> dom (tw_at (pt_tx_window s)). we_sdu_length (the (tw_at (pt_tx_window s) c)))"
proof -
  have inv: "tx_vars_ok s" "tx_held_ok s"
    using tx_reachable_inv[OF assms] by (simp_all add: tx_inv_def)
  then have "unat (ts_next (pt_st s) - ts_next_ack (pt_st s)) \<le> half_range (txc_sn_size (pt_cfg s))"
    by (auto simp: tx_vars_ok_def Let_def unat_sub_if_size)
  then show ?thesis
    using inv by (auto simp: tx_vars_ok_def tx_held_ok_def tw_wf_def Let_def u32_less_iff)
qed

text \<open>
  C12: When the discard timer of a reachable entity expires, the callback ends without a failed assertion.  It removes exactly the
  SDUs, from the oldest on, that arrived with the oldest one, and only then is the timer started again: for the oldest SDU
  that remains, with the time that separates the two arrivals.
\<close>

theorem discard_callback_ends:
  assumes "tx_reachable s" and "discard_finite s" and "\<not> pt_stopped s" and "tw_at (pt_tx_window s) (ts_next_ack (pt_st s)) = Some e"
  shows "\<exists>s' evs t. discard_callback env s = Some (s', evs) \<and> wsi_tick_point_of_arrival (we_sdu_info e) = Some t
    \<and> (let a' = ts_next_ack (pt_st s') in ts_next_ack (pt_st s) < a'
     \<and> tw_at (pt_tx_window s') = (\<lambda>c. if c < a' then None else tw_at (pt_tx_window s) c)
     \<and> (\<forall>c f. c < a' \<and> tw_at (pt_tx_window s) c = Some f \<longrightarrow> wsi_tick_point_of_arrival (we_sdu_info f) = Some t)
     \<and> (case tw_at (pt_tx_window s') a' of
          None \<Rightarrow> a' = ts_next (pt_st s') \<and> pt_discard_timer s' = None
        | Some f \<Rightarrow> (\<exists>t'. wsi_tick_point_of_arrival (we_sdu_info f) = Some t' \<and> t' \<noteq> t
            \<and> pt_discard_timer s' = Some (tenv_now env, t' - t))))"
proof -
  have inv: "tx_inv s"
    using tx_reachable_inv[OF assms(1)] by simp
  obtain s' evs t where s': "discard_callback env s = Some (s', evs)" "tx_effect s evs [] s'"
      "wsi_tick_point_of_arrival (we_sdu_info e) = Some t" "expired_exactly env t (s\<lparr>pt_discard_timer := None\<rparr>) s'"
    using discard_callback_ok[OF inv assms(2), of env] assms(3,4) by auto
  have "ts_next_ack (pt_st s) < ts_next_ack (pt_st s')"
  proof (rule ccontr)
    let ?a = "ts_next_ack (pt_st s)" and ?a' = "ts_next_ack (pt_st s')"
    assume "\<not> ?a < ?a'"
    then have le: "unat ?a' \<le> unat ?a"
      by (simp add: u32_less_iff)
    then have at: "tw_at (pt_tx_window s') ?a = Some e"
      using s'(4) assms(4) by (simp add: expired_exactly_def Let_def)
    have held: "tx_held_ok s" "tx_held_ok s'"
      using inv s'(2) by (simp_all add: tx_inv_def tx_effect_def)
    obtain f where f: "tw_at (pt_tx_window s') ?a' = Some f"
      using s'(4) tx_held_okD(2)[OF held(2) at] le by (auto simp: expired_exactly_def Let_def split: option.splits)
    then have "tw_at (pt_tx_window s) ?a' = Some f"
      using s'(4) by (simp add: expired_exactly_def Let_def)
    then have "?a' = ?a"
      using tx_held_okD(2)[OF held(1)] le by (force simp: u32_less_iff(3))
    then show False
      using s'(3,4) f at by (auto simp: expired_exactly_def Let_def)
  qed
  then show ?thesis
    using s'(1,3,4) by (intro exI[of _ s'] exI[of _ evs] exI[of _ t])
      (auto simp: expired_exactly_def Let_def u32_less_iff(1) cong: if_cong split: option.splits)
qed

section \<open>A run\<close>

definition demo_tx_config :: pdcp_tx_config where
  "demo_tx_config = \<lparr>txc_rb_type = pdcp_drb, txc_rlc_mode = pdcp_am, txc_sn_size = pdcp_size12bits, txc_direction = pdcp_downlink,
     txc_header_compression = False, txc_uplink_only_rohc = False, txc_discard_timer = Some 100, txc_status_report_required = True,
     txc_max_count = pdcp_custom_max_count, txc_test_mode = False\<rparr>"

definition demo_tx_env :: "u32 \<Rightarrow> pdcp_tx_env" where
  "demo_tx_env now = \<lparr>tenv_prims = sec_prims_of demo_aes [], tenv_compress = (\<lambda>_ b. 0 # b), tenv_rohc_ok = True,
     tenv_copy_ok = (\<lambda>_. True), tenv_header_ok = (\<lambda>_. True), tenv_append_ok = (\<lambda>_. True), tenv_crypto_accepts = (\<lambda>_. True),
     tenv_ue_accepts = True, tenv_worker_idx = 0, tenv_now = now\<rparr>"

lemma demo_tx_env_ok: "tx_env_ok (demo_tx_env now)"
  by (simp add: tx_env_ok_def demo_tx_env_def)

definition demo_sec_cfg :: sec_128_as_config where
  "demo_sec_cfg = \<lparr>sc_domain = sec_up, sc_k_128_int = Some (replicate 16 1), sc_k_128_enc = replicate 16 2,
     sc_integ_algo = Some nia2, sc_cipher_algo = nea2\<rparr>"

definition demo_tx :: "pdcp_entity_tx option" where
  "demo_tx = Option.bind (pdcp_entity_tx_new (demo_tx_env 0) 0 demo_tx_config 1) (\<lambda>s.
     tx_configure_security (handle_desired_buffer_size_notification s 1000) demo_sec_cfg integrity_on ciphering_on)"

lemma demo_tx_reachable: "demo_tx = Some s \<Longrightarrow> tx_reachable s"
  by (auto simp: demo_tx_def bind_eq_Some_conv' intro!: reach_run[OF reach_run[OF reach_new]] tx_run_step[OF tx_run_refl, simplified]
      step_configure step_desired_buffer_size)

text \<open>SDUs arrive and tasks run, in a given order.\<close>

datatype tx_action = Act_sdu u32 bytes | Act_task pdcp_tx_task

fun tx_play :: "tx_action list \<Rightarrow> pdcp_entity_tx \<Rightarrow> (pdcp_entity_tx \<times> pdcp_tx_event list \<times> pdcp_tx_task list) option" where
  "tx_play [] s = Some (s, [], [])"
| "tx_play (Act_sdu now buf # acts) s = Option.bind (handle_sdu (demo_tx_env now) s buf) (\<lambda>(s1, evs1, ts1).
     map_option (\<lambda>(s2, evs2, ts2). (s2, evs1 @ evs2, ts1 @ ts2)) (tx_play acts s1))"
| "tx_play (Act_task t # acts) s = Option.bind (run_tx_task (demo_tx_env 0) s t) (\<lambda>(s1, evs1, ts1).
     map_option (\<lambda>(s2, evs2, ts2). (s2, evs1 @ evs2, ts2)) (tx_play acts s1))"

lemma tx_run_trans: "tx_run s1 evs1 ts1 s2 \<Longrightarrow> tx_run s evs ts s1 \<Longrightarrow> tx_run s (evs @ evs1) (ts @ ts1) s2"
proof (induction rule: tx_run.induct)
  case (tx_run_step s1 evs1 ts1 s2 evs2 ts2 s3)
  then show ?case
    using tx_run.tx_run_step[of s "evs @ evs1" "ts @ ts1" s2 evs2 ts2 s3] by simp
qed simp

lemma tx_step_cfg: "tx_step s evs ts s' \<Longrightarrow> tx_inv s \<Longrightarrow> tx_timer_ok s \<Longrightarrow> pt_cfg s' = pt_cfg s \<and> tx_inv s' \<and> tx_timer_ok s'"
  using tx_step_effect by (auto simp: tx_effect_def)

lemma tx_play_run:
  "tx_play acts s = Some (s', evs, ts) \<Longrightarrow> tx_inv s \<Longrightarrow> tx_timer_ok s \<Longrightarrow> \<not> pt_is_srb s \<Longrightarrow> tx_run s evs ts s'"
proof (induction acts arbitrary: s evs ts)
  case Nil
  then show ?case
    by (simp add: tx_run_refl)
next
  case (Cons act acts)
  obtain s1 evs1 ts1 evs2 ts2 where step: "tx_step s evs1 ts1 s1" and rest: "tx_play acts s1 = Some (s', evs2, ts2)"
    and eq: "evs = evs1 @ evs2" "ts = ts1 @ ts2"
  proof (cases act)
    case (Act_sdu now buf)
    then show ?thesis
      using Cons(2,5) that[OF step_sdu[OF demo_tx_env_ok[of now], of s buf]] by (auto simp: bind_eq_Some_conv')
  next
    case (Act_task t)
    then show ?thesis
      using Cons(2) that step_task[of "demo_tx_env 0"] by (fastforce simp: bind_eq_Some_conv')
  qed
  have "tx_run s1 evs2 ts2 s'"
    using Cons(1)[OF rest] tx_step_cfg[OF step Cons(3,4)] Cons(5) by (simp add: pt_is_srb_def)
  then show ?case
    using tx_run_trans[OF _ tx_run_step[OF tx_run_refl step]] eq by simp
qed

text \<open>Two SDUs, at different times; the PDU of the second is ready first.\<close>

definition demo_tx_acts :: "tx_action list" where
  "demo_tx_acts = [Act_sdu 0 [1, 2, 3], Act_sdu 7 [4, 5],
     Act_task (Tx_reorder_task \<lparr>tb_is_retx = False, tb_retx_id = 0, tb_count = 1, tb_buf = [0x80, 1, 9, 9]\<rparr>),
     Act_task (Tx_reorder_task \<lparr>tb_is_retx = False, tb_retx_id = 0, tb_count = 0, tb_buf = [0x80, 0, 8, 8]\<rparr>)]"

definition demo_tx_view where
  "demo_tx_view = Option.bind demo_tx (\<lambda>s. map_option (\<lambda>(s', evs, ts). (ts_next (pt_st s), pt_is_srb s, pdu_counts evs, new_counts ts,
      pt_st s', tw_nof_sdus (pt_tx_window s'), tw_sdu_bytes (pt_tx_window s'), discard_finite s', pt_stopped s',
      map_option (wsi_tick_point_of_arrival \<circ> we_sdu_info) (tw_at (pt_tx_window s') 0))) (tx_play demo_tx_acts s))"

lemmas tx_eval = pdcp_entity_tx_new_def tw_new_def pdcp_window_size_bits_def pcdp_sn_cardinality_def cm_init_def
  init_header_compression_def handle_desired_buffer_size_notification_def tx_configure_security_def security_engine_new_def
  to_security_direction_def handle_sdu_def check_early_drop_def tw_get_pdu_bytes_def get_pdu_size_def pdcp_data_header_size_def
  pdcp_data_trailer_size_def tx_check_max_count_def tx_send_sdu_def start_discard_timer_def set_discard_timer_def discard_finite_def
  discard_configured_def discard_duration_def pdcp_discard_timer_infinity_def pt_is_srb_def pt_is_am_def pt_is_um_def pt_SN_def
  pdcp_compute_sn_def apply_header_compression_def prepend_data_pdu_header_def post_crypto_task_def increment_token_def return_token_def
  tx_drop_token_def run_tx_task_def tx_apply_reordering_def deliver_in_order.simps add_events_def tw_set_pdu_def tw_at_def
  tw_has_sn_def tw_add_sdu_def tw_remove_sdu_def win_set_def cm_assign_def has_sn_def add_sn_def remove_sn_def win_at_def
  cm_contains_def cm_overwrite_def cm_insert_def cm_erase_def cm_at_def get_circular_idx_def tx_state_at_def Let_def

lemma demo_tx_view_value:
  "demo_tx_view = Some (0, False, [0, 1], [0, 1], \<lparr>ts_next = 2, ts_trans_crypto = 2, ts_reord_crypto = 2, ts_trans = 0, ts_next_ack = 0\<rparr>,
     2, 5, True, False, Some (Some 0))"
  by (simp add: demo_tx_view_def demo_tx_def demo_tx_env_def demo_tx_config_def demo_sec_cfg_def demo_tx_acts_def tx_eval
      pdcp_custom_max_count_def pdcp_tx_default_max_count_hard_def pdcp_tx_default_max_count_notify_def
      word_le_nat_alt word_less_nat_alt cong: eval_congs split del: if_split)

lemma demo_tx_runs:
  obtains s s' evs ts e where "tx_reachable s" and "tx_run s evs ts s'" and "pdu_counts evs = [0, 1]" and "new_counts ts = [0, 1]"
    and "ts_next (pt_st s) = 0" and "ts_next (pt_st s') = 2" and "tw_nof_sdus (pt_tx_window s') = 2" and "tw_sdu_bytes (pt_tx_window s') = 5"
    and "discard_finite s'" and "\<not> pt_stopped s'" and "tw_at (pt_tx_window s') (ts_next_ack (pt_st s')) = Some e" and "pt_cfg s = demo_tx_config"
proof -
  obtain s s' evs ts e where r: "demo_tx = Some s" "tx_play demo_tx_acts s = Some (s', evs, ts)" "\<not> pt_is_srb s"
      "pdu_counts evs = [0, 1]" "new_counts ts = [0, 1]" "ts_next (pt_st s) = 0" "ts_next (pt_st s') = 2"
      "tw_nof_sdus (pt_tx_window s') = 2" "tw_sdu_bytes (pt_tx_window s') = 5" "discard_finite s'" "\<not> pt_stopped s'"
      "tw_at (pt_tx_window s') 0 = Some e" "ts_next_ack (pt_st s') = 0"
    using demo_tx_view_value by (auto simp: demo_tx_view_def bind_eq_Some_conv' simp del: tx_play.simps)
  have reach: "tx_reachable s"
    by (rule demo_tx_reachable[OF r(1)])
  obtain s0 where s0: "pdcp_entity_tx_new (demo_tx_env 0) 0 demo_tx_config 1 = Some s0" "tx_configure_security
      (handle_desired_buffer_size_notification s0 1000) demo_sec_cfg integrity_on ciphering_on = Some s"
    using r(1) by (auto simp: demo_tx_def bind_eq_Some_conv')
  have "pt_cfg s = demo_tx_config"
    using s0(2) tx_new_inv(3)[OF s0(1)]
    by (auto simp: tx_configure_security_def handle_desired_buffer_size_notification_def split: if_splits)
  then show ?thesis
    using that[OF reach tx_play_run[OF r(2)]] tx_reachable_inv[OF reach] r(3-13) by auto
qed

theorem pdcp_tx_in_order_witness:
  "\<exists>s evs ts s'. tx_reachable s \<and> tx_run s evs ts s' \<and> pdu_counts evs = [0, 1]
    \<and> sorted_wrt (<) (map unat (pdu_counts evs)) \<and> ts_trans_crypto (pt_st s') \<le> ts_next (pt_st s')"
proof -
  obtain s s' evs ts e where r: "tx_reachable s" "tx_run s evs ts s'" "pdu_counts evs = [0, 1]"
    by (rule demo_tx_runs)
  then show ?thesis
    using pdcp_tx_in_order[OF r(1,2)] by blast
qed

theorem pdcp_tx_count_unique_witness:
  "\<exists>s evs ts s'. tx_reachable s \<and> tx_run s evs ts s' \<and> new_counts ts = [0, 1] \<and> ts_next (pt_st s') = 2
    \<and> sorted_wrt (<) (map unat (new_counts ts)) \<and> ts_next (pt_st s') \<le> 0xfffffffe"
proof -
  obtain s s' evs ts e where r: "tx_reachable s" "tx_run s evs ts s'" "new_counts ts = [0, 1]" "ts_next (pt_st s') = 2" "pt_cfg s = demo_tx_config"
    by (rule demo_tx_runs)
  have "mc_hard (txc_max_count (pt_cfg s)) = 0xfffffffe"
    by (simp add: r(5) demo_tx_config_def pdcp_custom_max_count_def pdcp_tx_default_max_count_hard_def)
  then show ?thesis
    using pdcp_tx_count_unique[OF r(1,2)] r by metis
qed

theorem pdcp_tx_window_invariant_witness:
  "\<exists>s. tx_reachable s \<and> ts_next (pt_st s) = 2 \<and> ts_next_ack (pt_st s) \<le> ts_trans (pt_st s)
    \<and> 2 = (of_nat (card (dom (tw_at (pt_tx_window s)))) :: u32)
    \<and> 5 = (\<Sum>c \<in> dom (tw_at (pt_tx_window s)). we_sdu_length (the (tw_at (pt_tx_window s) c)))"
proof -
  obtain s s' evs ts e where r: "tx_reachable s" "tx_run s evs ts s'" "ts_next (pt_st s') = 2"
      "tw_nof_sdus (pt_tx_window s') = 2" "tw_sdu_bytes (pt_tx_window s') = 5"
    by (rule demo_tx_runs)
  then show ?thesis
    using pdcp_tx_window_invariant[OF reach_run[OF r(1,2)]] reach_run[OF r(1,2)] by metis
qed

theorem discard_callback_ends_witness:
  "\<exists>s e s' evs. tx_reachable s \<and> tw_at (pt_tx_window s) (ts_next_ack (pt_st s)) = Some e
    \<and> discard_callback (demo_tx_env 100) s = Some (s', evs) \<and> ts_next_ack (pt_st s) < ts_next_ack (pt_st s')"
proof -
  obtain s s' evs ts e where r: "tx_reachable s" "tx_run s evs ts s'" "discard_finite s'" "\<not> pt_stopped s'"
      "tw_at (pt_tx_window s') (ts_next_ack (pt_st s')) = Some e"
    by (rule demo_tx_runs)
  show ?thesis
    using discard_callback_ends[OF reach_run[OF r(1,2)] r(3-5), of "demo_tx_env 100"] reach_run[OF r(1,2)] r(5) by (metis (no_types, lifting))
qed

end
