(* ===== verification/Pdcp_Tx_Report.thy ===== *)
theory Pdcp_Tx_Report
  imports Pdcp_Tx_Reach
begin

unbundle bit_operations_syntax

text \<open>
  Status reports from the receiving to the transmitting PDCP entity: what an accepted report removes from the transmit window,
  the composition with the report that the receiver compiles, and the reports that are refused.  The last section has the
  reachable states in which the next operation of the transmitting entity fails an assertion.
\<close>

section \<open>What a report discards\<close>

text \<open>The COUNTs that a bitmap behind \<open>fmc\<close> acknowledges.\<close>

definition acked_by :: "u32 \<Rightarrow> bool list \<Rightarrow> u32 \<Rightarrow> bool" where
  "acked_by fmc bits c \<longleftrightarrow> unat fmc < unat c \<and> unat c - unat fmc - 1 < length bits \<and> bits ! (unat c - unat fmc - 1)"

lemma acked_by_simps [simp]: "\<not> acked_by fmc [] c"
  "unat fmc + length bits < 2 ^ 32 - 1 \<Longrightarrow> acked_by fmc (b # bits) c \<longleftrightarrow> (b \<and> c = fmc + 1) \<or> acked_by (fmc + 1) bits c"
proof -
  show "\<not> acked_by fmc [] c"
    by (simp add: acked_by_def)
  assume "unat fmc + length bits < 2 ^ 32 - 1"
  then have inc: "unat (fmc + 1) = Suc (unat fmc)"
    using unat_inc[of fmc "0xffffffff"] by simp
  have "c = fmc + 1 \<longleftrightarrow> unat c = Suc (unat fmc)"
    using inc by (metis unsigned_word_eqI)
  then show "acked_by fmc (b # bits) c \<longleftrightarrow> (b \<and> c = fmc + 1) \<or> acked_by (fmc + 1) bits c"
    by (auto simp: acked_by_def inc nth_Cons' diff_Suc split: nat.splits)
qed

lemma report_discards_exact:
  assumes "tx_inv s" and "discard_configured s" and "dec_wf d" and "dec_bits d = bits" and "unat fmc + length bits < 2 ^ 32"
  shows "\<exists>s' evs. report_discards s d fmc = Some (s', evs) \<and> tx_effect s evs [] s' \<and> tx_on_protocol_failure \<notin> set evs
    \<and> tw_at (pt_tx_window s') = (\<lambda>c. if acked_by fmc bits c then None else tw_at (pt_tx_window s) c)"
  using assms
proof (induction bits arbitrary: s d fmc)
  case Nil
  then have "\<not> fst (unpack_loop d (0 :: u32) 1)"
    using unpack_loop_bits[of d 1 "0 :: u32"] by simp
  then have "report_discards s d fmc = Some (s, [])"
    by (subst report_discards.simps) (auto simp: unpack_def split: prod.splits)
  then show ?case
    using tx_effect_refl[OF Nil(1)] by simp
next
  case (Cons b bits)
  obtain d' where u: "unpack d 1 = Some (True, of_bool b :: u32, d')" and d': "dec_wf d'" "dec_bits d' = bits"
    by (rule unpack_bits[OF Cons(4), of 1, where ?'a = 32]) (use Cons(5) in \<open>auto simp: bits_nat_def\<close>)
  obtain s1 evs1 where s1: "(if (of_bool b :: u32) = 1 then discard_pdu s (fmc + 1) else Some (s, [])) = Some (s1, evs1)"
      "tx_effect s evs1 [] s1" "tx_on_protocol_failure \<notin> set evs1"
      "tw_at (pt_tx_window s1) = (\<lambda>c. if b \<and> c = fmc + 1 then None else tw_at (pt_tx_window s) c)"
  proof (cases b)
    case True
    then show ?thesis
      using that by (cases rule: discard_pdu_effect[OF Cons(2), of "fmc + 1"]) (use Cons(3) in \<open>auto simp: fun_eq_iff\<close>)
  next
    case False
    then show ?thesis
      using that[of s "[]"] tx_effect_refl[OF Cons(2)] by simp
  qed
  have s1_ok: "tx_inv s1" "discard_configured s1"
    using s1(2) Cons(3) by (simp_all add: tx_effect_def discard_configured_def)
  have inc: "unat (fmc + 1) = Suc (unat fmc)"
    using unat_inc[of fmc "0xffffffff"] Cons(6) by simp
  obtain s' evs where IH: "report_discards s1 d' (fmc + 1) = Some (s', evs)" "tx_effect s1 evs [] s'" "tx_on_protocol_failure \<notin> set evs"
      "tw_at (pt_tx_window s') = (\<lambda>c. if acked_by (fmc + 1) bits c then None else tw_at (pt_tx_window s1) c)"
    using Cons(1)[OF s1_ok d', of "fmc + 1"] Cons(6) inc by auto
  have "report_discards s d fmc = Some (s', evs1 @ evs)"
    using u s1(1) IH(1) by (subst report_discards.simps) (simp add: add_events_def split del: if_split)
  moreover have "tw_at (pt_tx_window s') = (\<lambda>c. if acked_by fmc (b # bits) c then None else tw_at (pt_tx_window s) c)"
    using IH(4) s1(4) Cons(6) by (auto simp: fun_eq_iff)
  ultimately show ?case
    using tx_effect_trans[OF s1(2) IH(2)] s1(3) IH(3) by auto
qed

section \<open>Reading a report\<close>

text \<open>A report in bits: the control header, the first missing COUNT and the bitmap with its padding.\<close>

definition is_report :: "bytes \<Rightarrow> u32 \<Rightarrow> bool list \<Rightarrow> bool" where
  "is_report buf fmc bits \<longleftrightarrow> bytes_bits buf = replicate 8 False @ nat_bits 32 (unat fmc) @ bits"

text \<open>The number of bits of the last byte that the tail check lets through, computed from TX_NEXT.\<close>

definition tail_bits :: "pdcp_entity_tx \<Rightarrow> u32 \<Rightarrow> nat" where
  "tail_bits s fmc = unat (ts_next (pt_st s) - fmc - 1) mod 8"

lemma is_report_length: "is_report buf fmc bits \<Longrightarrow> 8 * length buf = 40 + length bits"
  by (auto simp: is_report_def dest: arg_cong[of _ _ length])

lemma is_report_last:
  assumes "is_report buf fmc bits" and "bits \<noteq> []"
  shows "byte_bits (last buf) = drop (length bits - 8) bits" and "8 \<le> length bits"
proof -
  have len: "8 * length buf = 40 + length bits"
    by (rule is_report_length[OF assms(1)])
  then have ne: "buf \<noteq> []"
    by auto
  have "0 < length bits"
    using assms(2) by simp
  then show ge: "8 \<le> length bits"
    using len by presburger
  obtain pre b where buf: "buf = pre @ [b]"
    using ne by (metis append_butlast_last_id)
  have "bytes_bits pre @ byte_bits b = (replicate 8 False @ nat_bits 32 (unat fmc) @ take (length bits - 8) bits) @ drop (length bits - 8) bits"
    using assms(1) by (simp add: is_report_def buf)
  then show "byte_bits (last buf) = drop (length bits - 8) bits"
    using ge by (subst (asm) append_eq_append_conv) (simp_all add: buf)
qed

lemma push_bit_byte:
  "k \<le> 8 \<Longrightarrow> push_bit k (b :: u8) = 0 \<longleftrightarrow> (\<forall>i < 8. k \<le> i \<longrightarrow> \<not> byte_bits b ! i)"
proof -
  assume k: "k \<le> 8"
  have nth: "byte_bits b ! i \<longleftrightarrow> bit b (7 - i)" if "i < 8" for i
    using that by (simp add: byte_bits_def nat_bits_def rev_nth bit_unsigned_iff)
  have "push_bit k b = 0 \<longleftrightarrow> (\<forall>n < 8 - k. \<not> bit b n)"
  proof
    assume "push_bit k b = 0"
    then have z: "\<not> bit (push_bit k b) m" for m
      by simp
    show "\<forall>n < 8 - k. \<not> bit b n"
    proof (intro allI impI)
      fix n
      assume "n < 8 - k"
      then show "\<not> bit b n"
        using z[of "k + n"] k by (simp add: bit_push_bit_iff)
    qed
  next
    assume "\<forall>n < 8 - k. \<not> bit b n"
    then show "push_bit k b = 0"
      by (intro bit_word_eqI) (simp add: bit_push_bit_iff)
  qed
  also have "\<dots> \<longleftrightarrow> (\<forall>i < 8. k \<le> i \<longrightarrow> \<not> byte_bits b ! i)"
  proof (intro iffI allI impI)
    fix i
    assume "\<forall>n < 8 - k. \<not> bit b n" "i < 8" "k \<le> i"
    then show "\<not> byte_bits b ! i"
      by (simp add: nth)
  next
    fix n
    assume a: "\<forall>i < 8. k \<le> i \<longrightarrow> \<not> byte_bits b ! i" "n < 8 - k"
    then show "\<not> bit b n"
      using a(1)[rule_format, of "7 - n"] nth[of "7 - n"] by simp
  qed
  finally show ?thesis .
qed

lemma tail_check:
  assumes "is_report buf fmc bits" and "bits \<noteq> []" and "k \<le> 8"
  shows "push_bit k (last buf) = 0 \<longleftrightarrow> (\<forall>i < length bits. length bits - 8 + k \<le> i \<longrightarrow> \<not> bits ! i)"
proof -
  have "(\<forall>i < 8. k \<le> i \<longrightarrow> \<not> drop (length bits - 8) bits ! i) \<longleftrightarrow> (\<forall>i < length bits. length bits - 8 + k \<le> i \<longrightarrow> \<not> bits ! i)"
  proof (intro iffI allI impI)
    fix i
    assume a: "\<forall>i < 8. k \<le> i \<longrightarrow> \<not> drop (length bits - 8) bits ! i" "i < length bits" "length bits - 8 + k \<le> i"
    then show "\<not> bits ! i"
      using a(1)[rule_format, of "i - (length bits - 8)"] is_report_last(2)[OF assms(1,2)] by simp
  next
    fix i
    assume a: "\<forall>i < length bits. length bits - 8 + k \<le> i \<longrightarrow> \<not> bits ! i" "i < 8" "k \<le> i"
    then show "\<not> drop (length bits - 8) bits ! i"
      using a(1)[rule_format, of "length bits - 8 + i"] is_report_last(2)[OF assms(1,2)] by simp
  qed
  then show ?thesis
    unfolding push_bit_byte[OF assms(3)] is_report_last(1)[OF assms(1,2)] .
qed

lemma handle_status_report_read:
  assumes "is_report buf fmc bits" and "length bits < 2 ^ 32"
  obtains d where "dec_wf d" and "dec_bits d = bits" and "handle_status_report True s buf =
    (let bitmap_length = of_nat (length bits div 8) :: u32;
         evs1 = (if fmc = ts_next (pt_st s) \<and> bitmap_length \<noteq> 0 then [tx_on_protocol_failure] else []);
         delta = ts_next (pt_st s) - fmc - 1
     in if ts_next (pt_st s) < fmc then Some (s, [tx_on_protocol_failure])
        else if (delta + 7) div 8 < bitmap_length then Some (s, evs1 @ [tx_on_protocol_failure])
        else if bitmap_length \<noteq> 0 \<and> push_bit (tail_bits s fmc) (last buf) \<noteq> 0 then Some (s, evs1 @ [tx_on_protocol_failure])
        else add_events evs1 (Option.bind (discard_below s (ts_next_ack (pt_st s)) fmc) (\<lambda>(s1, evs2).
               add_events evs2 (report_discards s1 d fmc))))"
proof -
  have bits: "dec_bits (bit_decoder_new buf) = nat_bits 1 0 @ nat_bits 3 0 @ nat_bits 4 0 @ nat_bits 32 (unat fmc) @ bits"
    using assms(1) replicate_Suc[of 7 False] by (simp add: dec_bits_new is_report_def replicate_add[symmetric] flip: append_assoc)
  obtain d1 where u1: "unpack (bit_decoder_new buf) 1 = Some (True, 0 :: u32, d1)" "dec_wf d1"
      "dec_bits d1 = nat_bits 3 0 @ nat_bits 4 0 @ nat_bits 32 (unat fmc) @ bits"
    by (rule unpack_field[OF dec_bits_new(2) bits, where ?'a = 32]) auto
  obtain d2 where u2: "unpack d1 3 = Some (True, 0 :: u32, d2)" "dec_wf d2" "dec_bits d2 = nat_bits 4 0 @ nat_bits 32 (unat fmc) @ bits"
    by (rule unpack_field[OF u1(2,3), where ?'a = 32]) auto
  obtain d3 where u3: "unpack d2 4 = Some (True, 0 :: u32, d3)" "dec_wf d3" "dec_bits d3 = nat_bits 32 (unat fmc) @ bits"
    by (rule unpack_field[OF u2(2,3), where ?'a = 32]) auto
  obtain d4 where u4: "unpack d3 32 = Some (True, fmc, d4)" "dec_wf d4" "dec_bits d4 = bits"
    by (rule unpack_field[OF u3(2,3), where ?'a = 32]) (use unat_less_u32[of fmc] in auto)
  have len: "length buf = length bits div 8 + 5"
    using arg_cong[OF is_report_length[OF assms(1)], of "\<lambda>n. n div 8"] by simp
  then have "of_nat (length buf) - 5 = (of_nat (length bits div 8) :: u32)"
    by simp
  moreover have "unat ((ts_next (pt_st s) - fmc - 1) mod 8) = tail_bits s fmc"
    by (simp add: tail_bits_def unat_mod)
  ultimately have "handle_status_report True s buf =
    (let bitmap_length = of_nat (length bits div 8) :: u32;
         evs1 = (if fmc = ts_next (pt_st s) \<and> bitmap_length \<noteq> 0 then [tx_on_protocol_failure] else []);
         delta = ts_next (pt_st s) - fmc - 1
     in if ts_next (pt_st s) < fmc then Some (s, [tx_on_protocol_failure])
        else if (delta + 7) div 8 < bitmap_length then Some (s, evs1 @ [tx_on_protocol_failure])
        else if bitmap_length \<noteq> 0 \<and> push_bit (tail_bits s fmc) (last buf) \<noteq> 0 then Some (s, evs1 @ [tx_on_protocol_failure])
        else add_events evs1 (Option.bind (discard_below s (ts_next_ack (pt_st s)) fmc) (\<lambda>(s1, evs2).
               add_events evs2 (report_discards s1 d4 fmc))))"
    unfolding handle_status_report_def using u1(1) u2(1) u3(1) u4(1) by (simp add: cpt_status_report_def Let_def)
  then show ?thesis
    using that u4(2,3) by blast
qed

lemma discard_below_no_failure: "discard_below s c fmc = Some (s', evs) \<Longrightarrow> tx_on_protocol_failure \<notin> set evs"
proof (induction s c fmc arbitrary: evs rule: discard_below.induct)
  case (1 s c fmc)
  show ?case
  proof (cases "c < fmc")
    case True
    then obtain s1 evs1 evs2 where "discard_pdu s c = Some (s1, evs1)" "discard_below s1 (c + 1) fmc = Some (s', evs2)" "evs = evs1 @ evs2"
      using 1(2) by (subst (asm) discard_below.simps) (auto simp: bind_eq_Some_conv' add_events_def)
    then show ?thesis
      using 1(1)[OF True] by (auto simp: discard_pdu_def Let_def split: if_splits)
  next
    case False
    then show ?thesis
      using 1(2) by (subst (asm) discard_below.simps) simp
  qed
qed

lemma status_report_applied:
  assumes inv: "tx_inv s" and dis: "discard_configured s" and rep: "is_report buf fmc bits"
    and fmc: "unat fmc \<le> unat (ts_next (pt_st s))" "fmc = ts_next (pt_st s) \<Longrightarrow> bits = []" and top: "unat (ts_next (pt_st s)) < 2 ^ 32 - 8"
    and len: "length bits < unat (ts_next (pt_st s)) - unat fmc + 7"
    and tail: "bits \<noteq> [] \<Longrightarrow> \<forall>i < length bits. length bits - 8 + tail_bits s fmc \<le> i \<longrightarrow> \<not> bits ! i"
  shows "\<exists>s' evs. handle_status_report True s buf = Some (s', evs) \<and> tx_effect s evs [] s' \<and> tx_on_protocol_failure \<notin> set evs
    \<and> tw_at (pt_tx_window s') = (\<lambda>c. if c < fmc \<or> acked_by fmc bits c then None else tw_at (pt_tx_window s) c)"
proof -
  let ?n = "ts_next (pt_st s)" and ?a = "ts_next_ack (pt_st s)"
  obtain s1 evs1 where s1: "discard_below s ?a fmc = Some (s1, evs1)" "tx_effect s evs1 [] s1"
      "tw_at (pt_tx_window s1) = (\<lambda>d. if unat ?a \<le> unat d \<and> unat d < unat fmc then None else tw_at (pt_tx_window s) d)"
    using discard_below_effect[OF inv] dis by metis
  have nofail1: "tx_on_protocol_failure \<notin> set evs1"
    by (rule discard_below_no_failure[OF s1(1)])
  have ok1: "tx_inv s1" "discard_configured s1"
    using s1(2) dis by (simp_all add: tx_effect_def discard_configured_def)
  obtain d where d: "dec_wf d" "dec_bits d = bits" and run: "handle_status_report True s buf =
    (let bitmap_length = of_nat (length bits div 8) :: u32;
         evs1 = (if fmc = ?n \<and> bitmap_length \<noteq> 0 then [tx_on_protocol_failure] else []);
         delta = ?n - fmc - 1
     in if ?n < fmc then Some (s, [tx_on_protocol_failure])
        else if (delta + 7) div 8 < bitmap_length then Some (s, evs1 @ [tx_on_protocol_failure])
        else if bitmap_length \<noteq> 0 \<and> push_bit (tail_bits s fmc) (last buf) \<noteq> 0 then Some (s, evs1 @ [tx_on_protocol_failure])
        else add_events evs1 (Option.bind (discard_below s ?a fmc) (\<lambda>(s1, evs2).
               add_events evs2 (report_discards s1 d fmc))))"
    by (rule handle_status_report_read[OF rep]) (use len top in auto)
  have fits: "\<not> (?n - fmc - 1 + 7) div 8 < of_nat (length bits div 8)" if ne: "fmc \<noteq> ?n"
  proof -
    have "unat (?n - fmc - 1) = unat ?n - unat fmc - 1"
      using fmc ne by (simp add: unat_sub_if_size word_size u32_less_iff)
    then have "unat ((?n - fmc - 1 + 7) div 8) = (unat ?n - unat fmc - 1 + 7) div 8"
      using top by (simp only: unat_div unat_word_ariths) simp
    then show ?thesis
      using len top fmc by (simp add: word_less_nat_alt unat_of_nat_u32 div_le_mono)
  qed
  have tail_ok: "push_bit (tail_bits s fmc) (last buf) = 0" if "bits \<noteq> []"
    using tail_check[OF rep that, of "tail_bits s fmc"] tail[OF that] by (simp add: tail_bits_def)
  have unat_fmc: "\<not> ?n < fmc"
    using fmc(1) by (simp add: u32_less_iff)
  have room: "unat fmc + length bits < 2 ^ 32"
    using len top fmc(1) by simp
  obtain s' evs2 where s': "report_discards s1 d fmc = Some (s', evs2)" "tx_effect s1 evs2 [] s'" "tx_on_protocol_failure \<notin> set evs2"
      "tw_at (pt_tx_window s') = (\<lambda>c. if acked_by fmc bits c then None else tw_at (pt_tx_window s1) c)"
    using report_discards_exact[OF ok1 d room] by blast
  have "handle_status_report True s buf = Some (s', evs1 @ evs2)"
    unfolding run using fmc(2) fits tail_ok s1(1) s'(1) unat_fmc by (cases "bits = []"; cases "fmc = ?n") (auto simp: Let_def add_events_def)
  moreover have "tw_at (pt_tx_window s') = (\<lambda>c. if c < fmc \<or> acked_by fmc bits c then None else tw_at (pt_tx_window s) c)"
  proof
    fix c
    have "tw_at (pt_tx_window s) c = None" if "\<not> unat ?a \<le> unat c"
      using that inv tx_held_okD(2)[of s c] by (cases "tw_at (pt_tx_window s) c") (auto simp: tx_inv_def)
    then show "tw_at (pt_tx_window s') c = (if c < fmc \<or> acked_by fmc bits c then None else tw_at (pt_tx_window s) c)"
      unfolding s'(4) s1(3) by (auto simp: u32_less_iff)
  qed
  ultimately show ?thesis
    using tx_effect_trans[OF s1(2) s'(2)] nofail1 s'(3) by auto
qed

lemma status_report_refused:
  assumes rep: "is_report buf fmc bits" and fmc: "unat fmc < unat (ts_next (pt_st s))" and len: "length bits < 2 ^ 32"
    and tail: "i < length bits" "length bits - 8 + tail_bits s fmc \<le> i" "bits ! i"
  shows "handle_status_report True s buf = Some (s, [tx_on_protocol_failure])"
proof -
  have ne: "bits \<noteq> []"
    using tail(1) by auto
  have t: "push_bit (tail_bits s fmc) (last buf) \<noteq> 0"
    using tail_check[OF rep ne, of "tail_bits s fmc"] tail by (auto simp: tail_bits_def)
  have "1 \<le> length bits div 8"
    using is_report_last(2)[OF rep ne] by simp
  moreover have "unat (of_nat (length bits div 8) :: u32) = length bits div 8"
    using len by (simp add: unat_of_nat_u32)
  ultimately have nz: "(of_nat (length bits div 8) :: u32) \<noteq> 0"
    by (metis not_one_le_zero unat_0)
  have neq: "fmc \<noteq> ts_next (pt_st s)" "\<not> ts_next (pt_st s) < fmc"
    using fmc by (auto simp: u32_less_iff)
  show ?thesis
    by (rule handle_status_report_read[OF rep len, of s]) (use neq nz t in \<open>simp add: Let_def\<close>)
qed

section \<open>The report of the receiver\<close>

text \<open>The receiver holds or has delivered everything but what it reports as missing.\<close>

definition rx_stored :: "pdcp_entity_rx \<Rightarrow> u32 \<Rightarrow> bool" where
  "rx_stored r c \<longleftrightarrow> win_at (pr_rx_window r) c \<noteq> None"

lemma rx_stored_bounds:
  assumes "rx_inv r" and "rx_stored r c"
  shows "unat (rx_deliv (pr_st r)) < unat c \<and> unat c < unat (rx_next (pr_st r))"
proof -
  have wi: "rx_window_inv r" and none: "win_at (pr_rx_window r) (rx_deliv (pr_st r)) = None"
    using assms(1) by (simp_all add: rx_inv_def rx_timer_inv_def)
  obtain si where si: "win_at (pr_rx_window r) c = Some si"
    using assms(2) by (auto simp: rx_stored_def)
  have "c \<noteq> rx_deliv (pr_st r)"
    using si none by auto
  then show ?thesis
    using rx_window_invD(1)[OF wi] rx_window_invD(4)[OF wi, of c] si by (auto simp: win_counts_def word_unat_eq_iff le_less)
qed

text \<open>The bitmap with its padding, by the COUNTs it stands for.\<close>

lemma receiver_report:
  assumes "rx_inv r" and "unat (rx_next (pr_st r)) < 2 ^ 32 - 1"
  obtains buf bits where "compile_status_report r = Some buf" and "is_report buf (rx_deliv (pr_st r)) bits"
    and "report_len (pr_st r) \<le> length bits" and "length bits < report_len (pr_st r) + 8"
    and "\<And>i. i < length bits \<Longrightarrow> bits ! i \<longleftrightarrow> i < report_len (pr_st r) \<and> rx_stored r (rx_deliv (pr_st r) + 1 + of_nat i)"
proof -
  let ?d = "rx_deliv (pr_st r)" and ?L = "report_len (pr_st r)"
  obtain buf pad where b: "compile_status_report r = Some buf" "pad < 8" "bytes_bits buf = replicate 8 False @ nat_bits 32 (unat ?d)
        @ map (\<lambda>i. win_at (pr_rx_window r) (of_nat (unat ?d + 1 + i)) \<noteq> None) [0..<?L] @ replicate pad False"
    using compile_status_report_exact[OF assms] by blast
  let ?bits = "map (\<lambda>i. win_at (pr_rx_window r) (of_nat (unat ?d + 1 + i)) \<noteq> None) [0..<?L] @ replicate pad False"
  have "?bits ! i \<longleftrightarrow> i < ?L \<and> rx_stored r (?d + 1 + of_nat i)" if "i < length ?bits" for i
    using that by (simp add: nth_append rx_stored_def add_ac)
  then show ?thesis
    using that[of buf ?bits] b by (simp add: is_report_def)
qed

lemma last_byte_start:
  assumes "8 * n = 40 + m" and "L \<le> m" and "m < L + 8" and "0 < (L :: nat)"
  shows "m - 8 = 8 * ((L - 1) div 8)"
proof -
  define k where "k = n - 5"
  have k: "m = 8 * k"
    using assms(1) by (simp add: k_def)
  have k1: "1 \<le> k"
    using k assms(2,4) by (cases k) auto
  have "(L - 1) div 8 = k - 1"
    using assms k k1 by (intro div_nat_eqI) auto
  then show ?thesis
    using k k1 by simp
qed

lemma acked_by_stored:
  assumes "rx_inv r" and "report_len (pr_st r) \<le> length bits"
    and "\<And>i. i < length bits \<Longrightarrow> bits ! i \<longleftrightarrow> i < report_len (pr_st r) \<and> rx_stored r (rx_deliv (pr_st r) + 1 + of_nat i)"
  shows "acked_by (rx_deliv (pr_st r)) bits c \<longleftrightarrow> rx_stored r c \<and> unat c \<le> unat (rx_deliv (pr_st r)) + report_len (pr_st r)"
proof -
  let ?d = "rx_deliv (pr_st r)"
  have at_c: "?d + 1 + of_nat (unat c - unat ?d - 1) = c" if "unat ?d < unat c"
  proof -
    have "?d + 1 + of_nat (unat c - unat ?d - 1) = of_nat (unat ?d + 1 + (unat c - unat ?d - 1))"
      by simp
    also have "\<dots> = c"
      using that by simp
    finally show ?thesis .
  qed
  show ?thesis
    using assms(2,3) rx_stored_bounds[OF assms(1), of c] at_c by (fastforce simp: acked_by_def)
qed

text \<open>
  C11: A status report between two PDCP entities: the report that a receiver compiles, given to a transmitter that has sent at least
  what the receiver has seen, and whose tail check covers the last byte of the bitmap, is accepted without a protocol
  failure; afterwards the transmit window holds exactly the SDUs it held before except those below RX_DELIV, which the receiver has
  delivered or given up, and those that it stores within the reach of the bitmap.
\<close>

theorem receiver_report_applied:
  assumes "tx_reachable s" and "discard_configured s" and "rx_inv r"
    and "rx_next (pr_st r) \<le> ts_next (pt_st s)" and "ts_next (pt_st s) < 0xfffffff8"
    and "report_len (pr_st r) = 0 \<or> (report_len (pr_st r) - 1) mod 8 < unat (ts_next (pt_st s) - rx_deliv (pr_st r) - 1) mod 8"
  shows "\<exists>buf s' evs. compile_status_report r = Some buf \<and> handle_status_report True s buf = Some (s', evs)
    \<and> tx_on_protocol_failure \<notin> set evs
    \<and> tw_at (pt_tx_window s') = (\<lambda>c. if c < rx_deliv (pr_st r) \<or> (rx_stored r c \<and> unat c \<le> unat (rx_deliv (pr_st r)) + report_len (pr_st r))
         then None else tw_at (pt_tx_window s) c)"
proof -
  let ?d = "rx_deliv (pr_st r)" and ?n = "ts_next (pt_st s)" and ?L = "report_len (pr_st r)"
  have inv: "tx_inv s"
    using tx_reachable_inv[OF assms(1)] by simp
  have dn: "unat ?d \<le> unat (rx_next (pr_st r))" and nn: "unat (rx_next (pr_st r)) \<le> unat ?n" and top: "unat ?n < 2 ^ 32 - 8"
    using assms(3-5) by (simp_all add: rx_inv_def rx_window_inv_def u32_less_iff word_less_nat_alt word_le_nat_alt)
  obtain buf bits where b: "compile_status_report r = Some buf" "is_report buf ?d bits" "?L \<le> length bits" "length bits < ?L + 8"
      "\<And>i. i < length bits \<Longrightarrow> bits ! i \<longleftrightarrow> i < ?L \<and> rx_stored r (?d + 1 + of_nat i)"
    by (rule receiver_report[OF assms(3)]) (use nn top in auto)
  have len8: "8 * length buf = 40 + length bits"
    by (rule is_report_length[OF b(2)])
  have L: "?L \<le> unat (rx_next (pr_st r)) - unat ?d - 1"
    by (simp add: report_len_def)
  have full: "bits = []" if "?L = 0"
    using that b(4) is_report_last(2)[OF b(2)] by fastforce
  have tail: "\<not> bits ! i" if "i < length bits" "length bits - 8 + tail_bits s ?d \<le> i" for i
  proof
    assume "bits ! i"
    then have i: "i < ?L"
      using b(5)[OF that(1)] by simp
    then have "length bits - 8 = 8 * ((?L - 1) div 8)"
      by (intro last_byte_start[OF len8 b(3,4)]) simp
    then have "8 * ((?L - 1) div 8) + tail_bits s ?d \<le> i"
      using that(2) by simp
    moreover have "8 * ((?L - 1) div 8) + (?L - 1) mod 8 = ?L - 1"
      by simp
    ultimately show False
      using assms(6) i unfolding tail_bits_def by linarith
  qed
  have len: "length bits < unat ?n - unat ?d + 7"
    using b(4) L dn nn full by (cases "?L = 0") auto
  have le: "unat ?d \<le> unat ?n" and none: "?d = ?n \<Longrightarrow> bits = []"
    using dn nn L full by auto
  obtain s' evs where "handle_status_report True s buf = Some (s', evs)" "tx_on_protocol_failure \<notin> set evs"
      "tw_at (pt_tx_window s') = (\<lambda>c. if c < ?d \<or> acked_by ?d bits c then None else tw_at (pt_tx_window s) c)"
    using status_report_applied[OF inv assms(2) b(2) le none top len] tail by blast
  then show ?thesis
    using b(1) acked_by_stored[OF assms(3) b(3,5)] by auto
qed
text \<open>
  C34: Reports that are refused although they are right: the tail check compares the last byte of the bitmap with the number of COUNTs
  between FMC and TX_NEXT modulo 8.  Whenever the receiver stores a COUNT of the last byte of its bitmap whose position in
  that byte is not below this number, the transmitter declares a protocol failure and discards nothing.  This is
  every non-zero last byte when TX_NEXT - FMC - 1 is a multiple of 8, and every receiver that is some PDUs behind at
  the wrong distance.
\<close>

theorem receiver_report_refused:
  assumes "rx_inv r" and "unat (rx_next (pr_st r)) < 2 ^ 32 - 1" and "rx_deliv (pr_st r) < ts_next (pt_st s)"
    and "rx_stored r c" and "unat c \<le> unat (rx_deliv (pr_st r)) + report_len (pr_st r)"
    and "(unat c - unat (rx_deliv (pr_st r)) - 1) div 8 = (report_len (pr_st r) - 1) div 8"
    and "unat (ts_next (pt_st s) - rx_deliv (pr_st r) - 1) mod 8 \<le> (unat c - unat (rx_deliv (pr_st r)) - 1) mod 8"
  shows "\<exists>buf. compile_status_report r = Some buf \<and> handle_status_report True s buf = Some (s, [tx_on_protocol_failure])"
proof -
  let ?d = "rx_deliv (pr_st r)" and ?L = "report_len (pr_st r)"
  let ?i = "unat c - unat ?d - 1"
  obtain buf bits where b: "compile_status_report r = Some buf" "is_report buf ?d bits" "?L \<le> length bits" "length bits < ?L + 8"
      "\<And>i. i < length bits \<Longrightarrow> bits ! i \<longleftrightarrow> i < ?L \<and> rx_stored r (?d + 1 + of_nat i)"
    by (rule receiver_report[OF assms(1,2)]) blast
  have acked: "acked_by ?d bits c"
    using acked_by_stored[OF assms(1) b(3,5)] assms(4,5) by blast
  have len: "length bits < 2 ^ 32"
    using b(4) unat_less_u32[of "rx_next (pr_st r)"] by (simp add: report_len_def pdcp_control_pdu_max_size_def)
  have pos: "0 < ?L"
    using rx_stored_bounds[OF assms(1,4)] assms(5) by simp
  have "?i = 8 * ((?L - 1) div 8) + ?i mod 8"
    using assms(6) by (metis mult_div_mod_eq)
  moreover have "length bits - 8 = 8 * ((?L - 1) div 8)"
    by (rule last_byte_start[OF is_report_length[OF b(2)] b(3,4) pos])
  ultimately have "length bits - 8 + tail_bits s ?d \<le> ?i"
    using assms(7) by (simp add: tail_bits_def)
  then have "handle_status_report True s buf = Some (s, [tx_on_protocol_failure])"
    using status_report_refused[OF b(2) _ len, of s ?i] acked assms(3) by (simp add: acked_by_def word_less_nat_alt)
  then show ?thesis
    using b(1) by blast
qed

section \<open>Runs\<close>

text \<open>Four SDUs, the PDUs of which are all with the crypto workers; and the same after a report that says that COUNT 1 has arrived.\<close>

definition demo_four_sdus :: "tx_action list" where
  "demo_four_sdus = [Act_sdu 0 [1], Act_sdu 7 [2], Act_sdu 8 [3], Act_sdu 9 [4]]"

definition demo_four_view where
  "demo_four_view = Option.bind demo_tx (\<lambda>s. Option.bind (tx_play demo_four_sdus s) (\<lambda>(s', evs, ts).
     map_option (\<lambda>(s2, evs2). (pt_is_srb s, pt_st s', pt_stopped s', pt_is_am s', discard_finite s', pt_retransmit_id s', pt_rohc_comp s', txc_rb_type (pt_cfg s'),
         mc_hard (txc_max_count (pt_cfg s')), txc_sn_size (pt_cfg s'), map (\<lambda>c. tw_has_sn (pt_tx_window s') c) [0, 1, 2, 3],
         pt_st s2, pt_stopped s2, pt_is_am s2, discard_finite s2, map (\<lambda>c. tw_has_sn (pt_tx_window s2) c) [0, 1, 2, 3],
         tx_notification_count_estimation s2 0, txc_sn_size (pt_cfg s2)))
       (handle_status_report True s' [0, 0, 0, 0, 0, 0x80])))"

lemmas report_eval = handle_status_report_def unpack_def unpack_loop.simps bit_decoder_new_def cpt_status_report_def discard_below.simps
  report_discards.simps discard_pdu_def advance_next_ack.simps tx_notification_count_estimation_def count_estimation_def
  pdcp_compute_hfn_def pdcp_compute_count_def

lemma demo_four_view_value:
  "demo_four_view = Some (False, \<lparr>ts_next = 4, ts_trans_crypto = 0, ts_reord_crypto = 0, ts_trans = 0, ts_next_ack = 0\<rparr>,
     False, True, True, 0, None, pdcp_drb, 0xfffffffe, pdcp_size12bits, [True, True, True, True],
     \<lparr>ts_next = 4, ts_trans_crypto = 0, ts_reord_crypto = 0, ts_trans = 0, ts_next_ack = 0\<rparr>,
     False, True, True, [True, False, True, True], 0, pdcp_size12bits)"
  by (simp add: demo_four_view_def demo_tx_def demo_tx_env_def demo_tx_config_def demo_sec_cfg_def demo_four_sdus_def tx_eval report_eval
      pdcp_custom_max_count_def pdcp_tx_default_max_count_hard_def pdcp_tx_default_max_count_notify_def
      word_le_nat_alt word_less_nat_alt cong: eval_congs split del: if_split)

lemma demo_four_runs:
  obtains s s' where "tx_reachable s" and "pt_st s = \<lparr>ts_next = 4, ts_trans_crypto = 0, ts_reord_crypto = 0, ts_trans = 0, ts_next_ack = 0\<rparr>"
    and "\<not> pt_stopped s" and "discard_finite s" and "pt_retransmit_id s = 0" and "pt_rohc_comp s = None"
    and "txc_rb_type (pt_cfg s) = pdcp_drb" and "mc_hard (txc_max_count (pt_cfg s)) = 0xfffffffe" and "txc_sn_size (pt_cfg s) = pdcp_size12bits"
    and "\<forall>c \<in> {0, 1, 2, 3}. tw_at (pt_tx_window s) c \<noteq> None"
    and "tx_reachable s'" and "pt_st s' = \<lparr>ts_next = 4, ts_trans_crypto = 0, ts_reord_crypto = 0, ts_trans = 0, ts_next_ack = 0\<rparr>"
    and "\<not> pt_stopped s'" and "pt_is_am s'" and "discard_finite s'"
    and "tx_notification_count_estimation s' 0 = 0" and "txc_sn_size (pt_cfg s') = pdcp_size12bits"
    and "tw_at (pt_tx_window s') 0 \<noteq> None" and "tw_at (pt_tx_window s') 1 = None" and "tw_at (pt_tx_window s') 2 \<noteq> None"
proof -
  obtain s0 s s' evs ts evs2 where r: "demo_tx = Some s0" "\<not> pt_is_srb s0" "tx_play demo_four_sdus s0 = Some (s, evs, ts)"
      "handle_status_report True s [0, 0, 0, 0, 0, 0x80] = Some (s', evs2)"
    and s: "pt_st s = \<lparr>ts_next = 4, ts_trans_crypto = 0, ts_reord_crypto = 0, ts_trans = 0, ts_next_ack = 0\<rparr>"
      "\<not> pt_stopped s" "discard_finite s" "pt_retransmit_id s = 0" "pt_rohc_comp s = None" "txc_rb_type (pt_cfg s) = pdcp_drb"
      "mc_hard (txc_max_count (pt_cfg s)) = 0xfffffffe"
      "txc_sn_size (pt_cfg s) = pdcp_size12bits" "tw_has_sn (pt_tx_window s) 0" "tw_has_sn (pt_tx_window s) 1"
      "tw_has_sn (pt_tx_window s) 2" "tw_has_sn (pt_tx_window s) 3"
    and s': "pt_st s' = \<lparr>ts_next = 4, ts_trans_crypto = 0, ts_reord_crypto = 0, ts_trans = 0, ts_next_ack = 0\<rparr>"
      "\<not> pt_stopped s'" "pt_is_am s'" "discard_finite s'" "tx_notification_count_estimation s' 0 = 0"
      "txc_sn_size (pt_cfg s') = pdcp_size12bits" "tw_has_sn (pt_tx_window s') 0" "\<not> tw_has_sn (pt_tx_window s') 1" "tw_has_sn (pt_tx_window s') 2"
    using demo_four_view_value by (auto simp: demo_four_view_def bind_eq_Some_conv' simp del: tx_play.simps)
  have reach0: "tx_reachable s0"
    by (rule demo_tx_reachable[OF r(1)])
  have reach: "tx_reachable s"
    using reach_run[OF reach0 tx_play_run[OF r(3)]] tx_reachable_inv[OF reach0] r(2) by simp
  have reach': "tx_reachable s'"
    by (rule reach_run[OF reach tx_run_step[OF tx_run_refl step_status_report[OF r(4)]]])
  show ?thesis
    using that[OF reach s(1-8) _ reach' s'(1-6)] s(9-12) s'(7-9) by (auto simp: tw_has_sn_at)
qed

text \<open>A receiver that has COUNTs 0, 1 and 3.\<close>

definition demo_gap_view where
  "demo_gap_view = Option.bind demo_rx (\<lambda>r. map_option (\<lambda>(r', evs). (pr_st r', has_sn (pr_rx_window r') 3))
     (rx_feed demo_env r [[0x80, 1, 0xB1], [0x80, 0, 0xB0], [0x80, 3, 0xB3]]))"

lemma demo_gap_view_value: "demo_gap_view = Some (\<lparr>rx_next = 4, rx_deliv = 2, rx_reord = 4\<rparr>, True)"
  by (simp add: demo_gap_view_def demo_rx_def demo_env_def demo_rx_cfg_def rx_eval word_le_nat_alt word_less_nat_alt
      pdcp_rx_default_max_count_hard_def pdcp_rx_default_max_count_notify_def cong: eval_congs split del: if_split)

lemma demo_gap_runs:
  obtains r where "rx_inv r" and "pr_st r = \<lparr>rx_next = 4, rx_deliv = 2, rx_reord = 4\<rparr>" and "rx_stored r 3"
proof -
  obtain r0 r evs where r: "demo_rx = Some r0" "rx_feed demo_env r0 [[0x80, 1, 0xB1], [0x80, 0, 0xB0], [0x80, 3, 0xB3]] = Some (r, evs)"
      "pr_st r = \<lparr>rx_next = 4, rx_deliv = 2, rx_reord = 4\<rparr>" "has_sn (pr_rx_window r) 3"
    using demo_gap_view_value by (auto simp: demo_gap_view_def bind_eq_Some_conv' simp del: rx_feed.simps)
  have "rx_inv r"
    using rx_run_inv(1)[OF r(1)[unfolded demo_rx_def] demo_rx_config_ok rx_feed_run[OF r(2)]] by (simp add: rx_sys_inv_def rx_sys_new_def)
  then show ?thesis
    using that r(3,4) by (auto simp: rx_stored_def has_sn_win_at)
qed

theorem receiver_report_applied_witness:
  "\<exists>s r buf s' evs. tx_reachable s \<and> rx_inv r \<and> ts_next (pt_st s) = 4 \<and> rx_deliv (pr_st r) = 2 \<and> rx_stored r 3
    \<and> compile_status_report r = Some buf \<and> handle_status_report True s buf = Some (s', evs)
    \<and> tw_at (pt_tx_window s') 1 = None \<and> tw_at (pt_tx_window s') 2 \<noteq> None \<and> tw_at (pt_tx_window s') 3 = None"
proof -
  obtain s s1 where s: "tx_reachable s" "pt_st s = \<lparr>ts_next = 4, ts_trans_crypto = 0, ts_reord_crypto = 0, ts_trans = 0, ts_next_ack = 0\<rparr>"
      "discard_finite s" "\<forall>c \<in> {0, 1, 2, 3}. tw_at (pt_tx_window s) c \<noteq> None"
    by (rule demo_four_runs)
  obtain r where r: "rx_inv r" "pr_st r = \<lparr>rx_next = 4, rx_deliv = 2, rx_reord = 4\<rparr>" "rx_stored r 3"
    by (rule demo_gap_runs)
  have L: "report_len (pr_st r) = 1"
    by (simp add: r(2) report_len_def pdcp_control_pdu_max_size_def)
  have dis: "discard_configured s"
    using s(3) by (simp add: discard_finite_def)
  have two: "\<not> rx_stored r 2"
    using rx_stored_bounds[OF r(1), of 2] r(2) by auto
  obtain buf s' evs where a: "compile_status_report r = Some buf" "handle_status_report True s buf = Some (s', evs)"
      "tw_at (pt_tx_window s') = (\<lambda>c. if c < 2 \<or> (rx_stored r c \<and> unat c \<le> 3) then None else tw_at (pt_tx_window s) c)"
    using receiver_report_applied[OF s(1) dis r(1)] by (auto simp: s(2) r(2) L[unfolded r(2)])
  then show ?thesis
    using s r two bspec[OF s(4), of 2] by (intro exI[of _ s] exI[of _ r] exI[of _ buf] exI[of _ s'] exI[of _ evs]) simp
qed

theorem receiver_report_refused_witness:
  "\<exists>s r buf. ts_next (pt_st s) = 11 \<and> rx_inv r \<and> rx_deliv (pr_st r) = 2 \<and> rx_stored r 3 \<and> compile_status_report r = Some buf
    \<and> handle_status_report True s buf = Some (s, [tx_on_protocol_failure])"
proof -
  obtain s s1 where s: "tx_reachable s"
    by (rule demo_four_runs)
  obtain r where r: "rx_inv r" "pr_st r = \<lparr>rx_next = 4, rx_deliv = 2, rx_reord = 4\<rparr>" "rx_stored r 3"
    by (rule demo_gap_runs)
  let ?s = "s\<lparr>pt_st := tx_state_at 11\<rparr>"
  have L: "report_len (pr_st r) = 1"
    by (simp add: r(2) report_len_def pdcp_control_pdu_max_size_def)
  have "ts_next (pt_st ?s) = 11"
    by (simp add: tx_state_at_def)
  then show ?thesis
    using receiver_report_refused[OF r(1) _ _ r(3), of ?s] r L[unfolded r(2)]
    by (intro exI[of _ ?s] exI[of _ r]) (simp add: tx_state_at_def)
qed

section \<open>States in which the next operation fails an assertion\<close>

text \<open>
  C35: An SDU that is discarded (by its timer or a status report) while its PDU is the next one that the reordering awaits from the
  crypto workers: TX_TRANS_CRYPTO stays at the COUNT, and the next PDU that comes back from the crypto workers makes the
  reordering read the window at it, which fails the assertion of the window.
\<close>

theorem discard_before_crypto_fails:
  assumes "tx_reachable s" and "\<not> pt_stopped s" and "discard_configured s" and "tw_at (pt_tx_window s) (ts_trans_crypto (pt_st s)) \<noteq> None"
    and "discard_pdu s (ts_trans_crypto (pt_st s)) = Some (s', evs)"
    and "tb_retx_id bi = pt_retransmit_id s" and "tw_at (pt_tx_window s') (tb_count bi) \<noteq> None" and "ts_trans (pt_st s') \<le> tb_count bi"
  shows "tx_apply_reordering env s' bi = None"
proof -
  let ?c = "ts_trans_crypto (pt_st s)"
  have inv: "tx_inv s"
    using tx_reachable_inv[OF assms(1)] by simp
  show ?thesis
  proof (cases rule: discard_pdu_ok[OF inv, of ?c])
    case 1
    then show ?thesis
      using assms(3,4) by simp
  next
    case (2 w a)
    have s': "s' = s\<lparr>pt_tx_window := w, pt_st := (pt_st s)\<lparr>ts_next_ack := a, ts_trans := max (ts_trans (pt_st s)) a\<rparr>\<rparr>"
      using 2(1) assms(5) by simp
    have inv': "tx_held_ok s'" and lt: "?c < ts_next (pt_st s')"
      using 2(4) inv tx_held_okD(2)[of s ?c] assms(4) by (auto simp: s' tx_inv_def u32_less_iff)
    obtain e where e: "tw_at w (tb_count bi) = Some e"
      using assms(7) by (auto simp: s')
    obtain w' where w': "tw_set_pdu w (tb_count bi) (tb_buf bi) = Some w'" "tw_at w' = (tw_at w)(tb_count bi \<mapsto> e\<lparr>we_pdu := tb_buf bi\<rparr>)"
      using tw_set_pdu_ok[OF tx_held_okD(1)[OF inv', unfolded s', simplified] e] by metis
    have "tw_at w' ?c = None"
      using e w'(2) by (auto simp: 2(5))
    then have "deliver_in_order env' b (s'\<lparr>pt_tx_window := w'\<rparr>) ?c = None" for env' b
      using lt by (subst deliver_in_order.simps) simp
    moreover have "\<not> tb_count bi < a"
      using assms(8) by (simp add: s' not_less)
    ultimately show ?thesis
      using assms(2,6,8) e w'(1) by (auto simp: tx_apply_reordering_def s' tw_has_sn_at Let_def not_less)
  qed
qed

theorem discard_before_crypto_fails_witness:
  "\<exists>s s' evs. tx_reachable s \<and> ts_next (pt_st s) = 4 \<and> discard_pdu s 0 = Some (s', evs)
    \<and> tx_apply_reordering (demo_tx_env 100) s' \<lparr>tb_is_retx = False, tb_retx_id = 0, tb_count = 1, tb_buf = [0x80, 1, 2]\<rparr> = None"
proof -
  obtain s s1 where s: "tx_reachable s" "pt_st s = \<lparr>ts_next = 4, ts_trans_crypto = 0, ts_reord_crypto = 0, ts_trans = 0, ts_next_ack = 0\<rparr>"
      "\<not> pt_stopped s" "discard_finite s" "pt_retransmit_id s = 0" "\<forall>c \<in> {0, 1, 2, 3}. tw_at (pt_tx_window s) c \<noteq> None"
    by (rule demo_four_runs)
  have inv: "tx_inv s"
    using tx_reachable_inv[OF s(1)] by simp
  have dis: "discard_configured s"
    using s(4) by (simp add: discard_finite_def)
  show ?thesis
  proof (cases rule: discard_pdu_ok[OF inv, of 0])
    case 1
    then show ?thesis
      using dis s(6) by simp
  next
    case (2 w a)
    let ?s = "s\<lparr>pt_tx_window := w, pt_st := (pt_st s)\<lparr>ts_next_ack := a, ts_trans := max (ts_trans (pt_st s)) a\<rparr>\<rparr>"
    have one: "tw_at w 1 \<noteq> None"
      using s(6) by (simp add: 2(5))
    then have "unat a \<le> 1"
      using 2(4) tx_held_okD(2)[of ?s 1] by (auto simp: tx_inv_def)
    then have "max 0 a \<le> 1"
      by (simp add: word_le_nat_alt max_def)
    then show ?thesis
      using discard_before_crypto_fails[OF s(1,3) dis, of ?s _ "\<lparr>tb_is_retx = False, tb_retx_id = 0, tb_count = 1, tb_buf = [0x80, 1, 2]\<rparr>"]
        2(1) s one by (intro exI[of _ s] exI[of _ ?s]) (auto simp: s(2))
  qed
qed

text \<open>
  C36: A delivery notification up to a COUNT behind which an SDU was discarded already (a status report can take SDUs out of the middle of
  the window): with a finite discard timer, the timer is restarted for the SDU at the new TX_NEXT_ACK, which is read from the
  window without a check that it is there, and the assertion of the window fails.
\<close>

theorem delivery_notification_hole_fails:
  assumes "tx_reachable s" and "\<not> pt_stopped s" and "pt_is_am s" and "discard_finite s"
    and "notif_sn < push_bit (pdcp_sn_size_to_uint (txc_sn_size (pt_cfg s))) 1"
    and "tx_notification_count_estimation s notif_sn = c"
    and "tw_at (pt_tx_window s) (ts_next_ack (pt_st s)) \<noteq> None" and "ts_next_ack (pt_st s) \<le> c"
    and "unat c + 1 < unat (ts_next (pt_st s))" and "tw_at (pt_tx_window s) (c + 1) = None"
  shows "handle_delivery_notification env s notif_sn = None"
proof -
  let ?s = "s\<lparr>pt_discard_timer := None\<rparr>"
  have wf: "tw_wf (tx_win_bits s) (pt_tx_window ?s)"
    using tx_reachable_inv[OF assms(1)] by (simp add: tx_inv_def tx_held_ok_def)
  have c: "unat c < 2 ^ 32 - 1" "unat (c + 1) = unat c + 1"
    using assms(9) unat_less_u32[of "ts_next (pt_st s)"] unat_inc[of c "ts_next (pt_st s)"] by simp_all
  have ack: "unat (ts_next_ack (pt_st ?s)) \<le> unat c + 1"
    using assms(8) by (simp add: word_le_nat_alt)
  obtain w where w: "stop_discard_loop ?s c = Some (?s\<lparr>pt_tx_window := w, pt_st := (pt_st ?s)\<lparr>ts_next_ack := c + 1\<rparr>\<rparr>)"
      "tw_at w (c + 1) = None"
    using stop_discard_loop_ok[OF wf c(1) ack] assms(10) c(2) by auto
  have edge: "\<not> c < ts_next_ack (pt_st s)" "\<not> ts_next (pt_st s) \<le> c" "c + 1 \<noteq> ts_next (pt_st s)"
    using assms(8,9) c(2) by (auto simp: word_less_nat_alt word_le_nat_alt)
  have "stop_discard_timer env s c = None"
    using assms(4,7) edge w by (simp add: stop_discard_timer_def tw_has_sn_at discard_finite_def discard_configured_def Let_def)
  then show ?thesis
    using assms(2-6) edge(2) by (simp add: handle_delivery_notification_def handle_delivery_notification_impl_def Let_def discard_finite_def not_le)
qed

theorem delivery_notification_hole_fails_witness:
  "\<exists>s. tx_reachable s \<and> ts_next (pt_st s) = 4 \<and> tw_at (pt_tx_window s) 1 = None \<and> handle_delivery_notification (demo_tx_env 50) s 0 = None"
proof -
  obtain s0 s where s: "pt_st s = \<lparr>ts_next = 4, ts_trans_crypto = 0, ts_reord_crypto = 0, ts_trans = 0, ts_next_ack = 0\<rparr>" "tx_reachable s"
      "\<not> pt_stopped s" "pt_is_am s" "discard_finite s" "tx_notification_count_estimation s 0 = 0"
      "txc_sn_size (pt_cfg s) = pdcp_size12bits" "tw_at (pt_tx_window s) 0 \<noteq> None" "tw_at (pt_tx_window s) 1 = None"
    by (rule demo_four_runs)
  have "handle_delivery_notification (demo_tx_env 50) s 0 = None"
    by (rule delivery_notification_hole_fails[OF s(2-5) _ s(6)]) (use s in \<open>simp_all add: push_bit_of_1\<close>)
  then show ?thesis
    using s by auto
qed

text \<open>
  C37: The memory for the PDU header is not available (or the header compression fails): the SDU was added to the window already and
  stays there, but TX_NEXT is not advanced.  The next SDU is given the same COUNT and the window, which holds it, fails its
  assertion.
\<close>

theorem failed_header_blocks_bearer:
  assumes "tx_reachable s" and "tx_room s" and "ts_next (pt_st s) < mc_hard (txc_max_count (pt_cfg s))"
    and "txc_rb_type (pt_cfg s) = pdcp_drb" and "pt_rohc_comp s = None" and "\<not> tenv_header_ok env buf"
    and "tenv_copy_ok env buf" and "tenv_copy_ok env' buf'"
  shows "\<exists>s'. tx_send_sdu env s buf = Some (s', [tx_on_protocol_failure], []) \<and> tx_send_sdu env' s' buf' = None"
proof -
  let ?n = "ts_next (pt_st s)"
  define s1 where "s1 = start_discard_timer env s"
  have same1: "tx_same s s1"
    by (simp add: s1_def start_discard_timer_def set_discard_timer_def tx_same_def)
  have st1: "pt_st s1 = pt_st s" "pt_cfg s1 = pt_cfg s" "pt_tx_window s1 = pt_tx_window s" "pt_rohc_comp s1 = None"
    using same1 assms(5) by (simp_all add: tx_same_def s1_def start_discard_timer_def set_discard_timer_def)
  have inv1: "tx_inv s1" "tx_room s1"
    using tx_same_inv[OF same1] tx_reachable_inv[OF assms(1)] assms(2) by (simp_all add: tx_room_def st1)
  let ?keep = "discard_configured s1 \<and> pt_is_am s1"
  let ?si = "\<lparr>wsi_sdu = (if ?keep then buf else []), wsi_count = ?n,
            wsi_tick_point_of_arrival = (if discard_finite s1 then Some (tenv_now env) else None)\<rparr>"
  obtain w where w: "tw_add_sdu (pt_tx_window s1) ?si (of_nat (length buf)) = Some w" "tw_at w ?n \<noteq> None"
    by (rule tx_add_sdu_inv[OF inv1, of ?si "of_nat (length buf)"]) (use assms(3) that in \<open>simp_all add: st1\<close>)
  let ?s = "s1\<lparr>pt_tx_window := w\<rparr>"
  have "tx_send_sdu env s buf = Some (?s, [tx_on_protocol_failure], [])"
    using assms(4,6,7) w(1)
    by (simp add: tx_send_sdu_def Let_def s1_def[symmetric] st1 apply_header_compression_def prepend_data_pdu_header_def)
  moreover have "tw_add_sdu w si len = None" if "wsi_count si = ?n" for si len
    using w(2) that by (simp add: tw_add_sdu_def add_sn_def has_sn_win_at tw_at_def)
  then have "tx_send_sdu env' ?s buf' = None"
    using assms(8) by (simp add: tx_send_sdu_def Let_def start_discard_timer_def set_discard_timer_def st1)
  ultimately show ?thesis
    by blast
qed

theorem failed_header_blocks_bearer_witness:
  "\<exists>s s'. tx_reachable s \<and> ts_next (pt_st s) = 4
    \<and> tx_send_sdu ((demo_tx_env 10)\<lparr>tenv_header_ok := \<lambda>_. False\<rparr>) s [5] = Some (s', [tx_on_protocol_failure], [])
    \<and> tx_send_sdu (demo_tx_env 11) s' [6] = None"
proof -
  obtain s s1 where s: "tx_reachable s" "pt_st s = \<lparr>ts_next = 4, ts_trans_crypto = 0, ts_reord_crypto = 0, ts_trans = 0, ts_next_ack = 0\<rparr>"
      "mc_hard (txc_max_count (pt_cfg s)) = 0xfffffffe" "txc_sn_size (pt_cfg s) = pdcp_size12bits" "pt_rohc_comp s = None"
      "txc_rb_type (pt_cfg s) = pdcp_drb"
    by (rule demo_four_runs)
  have "tx_room s" "ts_next (pt_st s) < mc_hard (txc_max_count (pt_cfg s))"
    using s(2-4) by (simp_all add: tx_room_def half_range_def)
  then obtain s' where "tx_send_sdu ((demo_tx_env 10)\<lparr>tenv_header_ok := \<lambda>_. False\<rparr>) s [5] = Some (s', [tx_on_protocol_failure], [])"
      "tx_send_sdu (demo_tx_env 11) s' [6] = None"
    using failed_header_blocks_bearer[OF s(1) _ _ s(6,5), of "(demo_tx_env 10)\<lparr>tenv_header_ok := \<lambda>_. False\<rparr>" "[5]" "demo_tx_env 11" "[6]"]
      by (auto simp: demo_tx_env_def)
  then show ?thesis
    using s(1,2) by auto
qed

end
