(* ===== verification/Pdcp_Link.thy ===== *)
theory Pdcp_Link
  imports Pdcp_Tx_Report
begin

unbundle bit_operations_syntax

text \<open>
  A PDU from the transmitting to the receiving PDCP entity: numbering, header, ciphering and integrity protection on one side;
  header, reconstruction of COUNT, deciphering and integrity check on the other.
\<close>

section \<open>The protected PDU\<close>

text \<open>Protection leaves the header as it is and never shortens the PDU.\<close>

lemma encrypt_keeps_header:
  assumes "prims_ok p" and "se_integ_eng se = Some ie" and "off \<le> length buf"
    and "encrypt_and_protect_integrity p se m buf off count = Some (sec_success, pdu)"
  shows "take off pdu = take off buf" and "length pdu = length buf + sec_mac_len" and "m"
proof -
  obtain mid where mid: "protect_integrity p ie m buf count = (sec_success, mid)"
    "case se_cipher_eng se of None \<Rightarrow> pdu = mid | Some ce \<Rightarrow> apply_ciphering p ce mid off count = Some (sec_success, pdu)"
    using assms(4) encrypt_success_iff[OF assms(2)] by blast
  obtain mac where mac: "ie_compute_mac p ie buf count = Some mac" "mid = buf @ mac" "m"
    using mid(1) by (auto simp: protect_integrity_def split: option.splits if_splits)
  have len: "length mid = length buf + sec_mac_len"
    using compute_mac_length[OF assms(1) mac(1)] mac(2) by simp
  have "take off pdu = take off mid \<and> length pdu = length mid"
    using mid(2) len assms(3) by (auto simp: apply_ciphering_def dest: prims_okD(2)[OF assms(1)] split: option.splits if_splits)
  then show "take off pdu = take off buf" "length pdu = length buf + sec_mac_len" "m"
    using mac(2,3) len assms(3) by simp_all
qed

lemma encrypt_status:
  assumes "se_integ_eng se = Some ie" and "encrypt_and_protect_integrity p se m buf off count = Some (status, pdu)" and "sec_is_success status"
  shows "status = sec_success"
proof (cases "protect_integrity p ie m buf count")
  case (Pair st mid)
  then show ?thesis
    using assms protect_integrity_status[OF Pair]
    by (auto simp: encrypt_and_protect_integrity_def sec_is_success_def bind_eq_Some_conv' split: option.splits if_splits)
qed

lemma read_header_take:
  assumes "take (unat (pdcp_data_header_size sz)) pdu = take (unat (pdcp_data_header_size sz)) pdu'"
    and "unat (pdcp_data_header_size sz) < length pdu" and "unat (pdcp_data_header_size sz) < length pdu'" and "valid_sn_size sz"
  shows "read_data_pdu_header sz pdu = read_data_pdu_header sz pdu'"
proof -
  have "pdu ! i = pdu' ! i" if "i < unat (pdcp_data_header_size sz)" for i
    using that assms(1) by (metis nth_take)
  then show ?thesis
    using assms(2-4) by (cases sz) (simp_all add: read_data_pdu_header_def pdcp_data_header_size_def valid_sn_size_def)
qed

text \<open>What the transmitting entity gives to its crypto workers.\<close>

lemma tx_send_sdu_task:
  assumes "tx_send_sdu env s buf = Some (s1, evs, [Tx_crypto_task bi])" and "pt_rohc_comp s = None"
  shows "tb_count bi = ts_next (pt_st s)"
    and "prepend_data_pdu_header (txc_rb_type (pt_cfg s)) (txc_sn_size (pt_cfg s)) True buf
      (pdcp_compute_sn (ts_next (pt_st s)) (txc_sn_size (pt_cfg s))) = Some (True, tb_buf bi)"
proof -
  have st: "pt_rohc_comp (start_discard_timer env s) = None" "pt_cfg (start_discard_timer env s) = pt_cfg s"
      "pt_st (start_discard_timer env s) = pt_st s"
    using assms(2) by (simp_all add: start_discard_timer_def set_discard_timer_def)
  have task: "tb_count bi = ts_next (pt_st s)" and pre: "prepend_data_pdu_header (txc_rb_type (pt_cfg s)) (txc_sn_size (pt_cfg s))
      (tenv_header_ok env buf) buf (pdcp_compute_sn (ts_next (pt_st s)) (txc_sn_size (pt_cfg s))) = Some (True, tb_buf bi)"
    using assms(1) st by (auto simp: tx_send_sdu_def Let_def apply_header_compression_def bind_eq_Some_conv' post_crypto_task_def
        pt_SN_def split: if_splits)
  have "tenv_header_ok env buf"
    using pre by (auto simp: prepend_data_pdu_header_def split: if_splits)
  then show "tb_count bi = ts_next (pt_st s)"
    and "prepend_data_pdu_header (txc_rb_type (pt_cfg s)) (txc_sn_size (pt_cfg s)) True buf
      (pdcp_compute_sn (ts_next (pt_st s)) (txc_sn_size (pt_cfg s))) = Some (True, tb_buf bi)"
    using task pre by simp_all
qed

lemma prepend_length:
  "prepend_data_pdu_header rb sz True buf sn = Some (True, pdu) \<Longrightarrow> length pdu = unat (pdcp_data_header_size sz) + length buf"
  by (cases sz) (auto simp: prepend_data_pdu_header_def pdcp_data_header_size_def Let_def split: if_splits)

section \<open>From SDU to SDU\<close>

text \<open>
  C10: An SDU from end to end: the transmitting entity numbers an SDU and gives it to a crypto worker, which protects it.  When the
  receiving entity has the same sequence number size and security engine (it may also tolerate unprotected PDUs) and the
  COUNT lies within half the range of its RX_DELIV and below its hard limit, it reconstructs exactly the COUNT of the
  transmitter from the PDU, its crypto worker accepts the PDU as integrity verified, and what is passed on to the
  reordering is the SDU.  The receiving side starts behind the distinction of data and control PDUs.  This is for the algorithms of the repository with every AES library, without header compression.
\<close>

theorem pdcp_end_to_end:
  assumes send: "tx_send_sdu env s buf = Some (s1, evs, [Tx_crypto_task bi])" and "pt_rohc_comp s = None" and "buf \<noteq> []"
    and protect: "tx_apply_security env' s2 bi = Some (s3, [Tx_reorder_task bi'])"
    and link: "pt_cfg s2 = pt_cfg s" "rxc_sn_size (pr_cfg r) = txc_sn_size (pt_cfg s)" "tenv_prims env' = sec_prims_of aes PM" "env_prims renv = sec_prims_of aes PM"
    and eng: "pt_sec_engine_pool s2 ! tenv_worker_idx env' = Some eng" "se_integ_eng eng = Some ie"
      "pr_sec_engine_pool r ! env_worker_idx renv = Some (eng\<lparr>se_allow_unprotected := smc\<rparr>)" "env_worker_idx renv < length (pr_sec_engine_pool r)"
    and rx: "rx_inv r" "env_crypto_accepts renv (tb_buf bi')" "env_ue_accepts renv"
    and count: "unat (rx_deliv (pr_st r)) \<le> unat (ts_next (pt_st s)) + half_range (txc_sn_size (pt_cfg s))"
      "unat (ts_next (pt_st s)) < unat (rx_deliv (pr_st r)) + half_range (txc_sn_size (pt_cfg s))"
      "ts_next (pt_st s) < mc_hard (rxc_max_count (pr_cfg r))"
  shows "tb_count bi' = ts_next (pt_st s) \<and> (\<exists>r1 evs1 pi. handle_data_pdu renv r (tb_buf bi') = Some (r1, evs1, [Crypto_task pi])
    \<and> pdcp_apply_security renv r1 pi = Some (r1, [Reorder_task \<lparr>pi_buf = buf, pi_count = ts_next (pt_st s), pi_integrity_verified = True\<rparr>]))"
proof -
  let ?c = "ts_next (pt_st s)" and ?sz = "txc_sn_size (pt_cfg s)" and ?p = "sec_prims_of aes PM"
  let ?h = "unat (pdcp_data_header_size ?sz)" and ?pdu = "tb_buf bi'"
  have cfg: "valid_sn_size ?sz" "pr_hdr_len_bytes r = ?h" "pr_window_size r = of_nat (half_range ?sz)"
    using rx(1) link(2) by (cases ?sz; simp add: rx_inv_def rx_cfg_ok_def valid_sn_size_def pdcp_data_header_size_def)+
  have hdr: "(if ?sz = pdcp_size12bits then 2 else 3) = ?h"
    using cfg(1) by (cases ?sz) (auto simp: pdcp_data_header_size_def valid_sn_size_def)
  note task = tx_send_sdu_task[OF send assms(2)]
  have raw: "read_data_pdu_header ?sz (tb_buf bi) = Some (pdcp_compute_sn ?c ?sz)" "drop ?h (tb_buf bi) = buf"
    using data_pdu_header_roundtrip[OF task(2) assms(3)] by simp_all
  have len: "length (tb_buf bi) = ?h + length buf" "tb_buf bi \<noteq> []"
    using prepend_length[OF task(2)] assms(3) by auto
  obtain status where enc: "encrypt_and_protect_integrity ?p eng (tenv_append_ok env' (tb_buf bi)) (tb_buf bi) ?h ?c = Some (status, ?pdu)"
      "sec_is_success status" and bi': "bi' = bi\<lparr>tb_buf := ?pdu\<rparr>"
    using protect link(1,3) eng(1) task(1) hdr
    by (auto simp: tx_apply_security_def apply_ciphering_and_integrity_protection_def tx_post_ue_task_def bind_eq_Some_conv' split: if_splits)
  have ok: "status = sec_success"
    by (rule encrypt_status[OF eng(2) enc])
  note enc' = enc(1)[unfolded ok]
  have "?h \<le> length (tb_buf bi)"
    using len(1) by simp
  note keep = encrypt_keeps_header[OF sec_prims_of_ok eng(2) this enc']
  have "read_data_pdu_header ?sz ?pdu = read_data_pdu_header ?sz (tb_buf bi)"
    by (rule read_header_take[OF keep(1) _ _ cfg(1)]) (use keep(2) len(1) assms(3) in auto)
  then have read: "read_data_pdu_header ?sz ?pdu = Some (pdcp_compute_sn ?c ?sz)"
    using raw(1) by simp
  have win: "pdcp_window_size ?sz = Some (pr_window_size r)" "unat (pr_window_size r) = half_range ?sz"
    using window_size_half_range(1)[OF cfg(1)] cfg(3) half_range_bounds(2)[of ?sz] by (simp_all add: unat_of_nat_u32)
  have est: "count_estimation ?sz (pr_window_size r) (rx_deliv (pr_st r)) (pdcp_compute_sn ?c ?sz) = ?c"
    by (rule count_estimation_exact[OF win(1)]) (use count win(2) in auto)
  have hard: "\<not> mc_hard (rxc_max_count (pr_cfg r)) \<le> ?c"
    using count(3) by (simp add: not_le)
  define notify where "notify \<longleftrightarrow> mc_notify (rxc_max_count (pr_cfg r)) < ?c \<and> \<not> pr_max_count_notified r"
  define r1 where "r1 = (let r0 = (if notify then r\<lparr>pr_max_count_notified := True\<rparr> else r) in r0\<lparr>pr_token_mngr := increment_token (pr_token_mngr r0)\<rparr>)"
  let ?pi = "\<lparr>pi_buf = ?pdu, pi_count = ?c, pi_integrity_verified = False\<rparr>"
  have "handle_data_pdu renv r ?pdu = Some (r1, if notify then [on_max_count_reached] else [], [Crypto_task ?pi])"
    using keep(2) len(1) assms(3) cfg(2) link(2) read est rx(2) hard
    by (simp add: handle_data_pdu_def check_max_count_def Let_def r1_def notify_def)
  moreover have "pr_cfg r1 = pr_cfg r" "pr_sec_engine_pool r1 = pr_sec_engine_pool r"
    by (simp_all add: r1_def Let_def)
  moreover have "decrypt_and_verify_integrity ?p (eng\<lparr>se_allow_unprotected := smc\<rparr>) ?pdu ?h ?c = Some (sec_success, tb_buf bi)"
    using security_engine_exact[OF sec_prims_of_ok eng(2) len(2)] enc' keep(3) by simp
  ultimately have "pdcp_apply_security renv r1 ?pi = Some (r1, [Reorder_task \<lparr>pi_buf = buf, pi_count = ?c, pi_integrity_verified = True\<rparr>])"
    using link(2,4) eng(3,4) hdr raw(2) len(1) rx(3)
    by (simp add: pdcp_apply_security_def apply_deciphering_and_integrity_check_def sec_is_success_def post_ue_task_def split del: if_split)
  then show ?thesis
    using \<open>handle_data_pdu renv r ?pdu = _\<close> task(1) bi' by (metis pdcp_tx_buffer_info.select_convs(3) pdcp_tx_buffer_info.update_convs(4) pdcp_tx_buffer_info.surjective)
qed

section \<open>A link\<close>

definition demo_link_cfg :: pdcp_rx_config where
  "demo_link_cfg = demo_rx_cfg\<lparr>rxc_direction := pdcp_downlink\<rparr>"

definition demo_link_env :: pdcp_env where
  "demo_link_env = demo_env\<lparr>env_prims := sec_prims_of demo_aes []\<rparr>"

definition demo_link_engine :: security_engine where
  "demo_link_engine = \<lparr>se_integ_eng = Some \<lparr>ie_k_128_int = replicate 16 1, ie_bearer_id = 0, ie_direction = sec_downlink, ie_integ_algo = nia2\<rparr>,
     se_cipher_eng = Some \<lparr>ce_k_128_enc = replicate 16 2, ce_bearer_id = 0, ce_direction = sec_downlink, ce_algo = nea2\<rparr>,
     se_allow_unprotected = False\<rparr>"

definition demo_link_tx where
  "demo_link_tx = Option.bind demo_tx (\<lambda>s. map_option (\<lambda>(s1, evs, ts). (s, s1, ts, pt_st s, pt_cfg s = demo_tx_config, pt_rohc_comp s,
     pt_cfg s1 = pt_cfg s, pt_sec_engine_pool s1 = [Some demo_link_engine], pt_max_nof_crypto_workers s1)) (tx_send_sdu (demo_tx_env 0) s [1, 2, 3]))"

lemma demo_link_tx_value: "map_option (snd \<circ> snd) demo_link_tx = Some ([Tx_crypto_task \<lparr>tb_is_retx = False, tb_retx_id = 0, tb_count = 0,
       tb_buf = [0x80, 0, 1, 2, 3]\<rparr>], tx_state_at 0, True, None, True, True, 1)"
  by (simp add: demo_link_tx_def demo_tx_def demo_tx_env_def demo_tx_config_def demo_sec_cfg_def tx_eval demo_link_engine_def
      pdcp_custom_max_count_def pdcp_tx_default_max_count_hard_def pdcp_tx_default_max_count_notify_def
      word_le_nat_alt word_less_nat_alt cong: eval_congs split del: if_split)

definition demo_link_rx where
  "demo_link_rx = Option.bind (pdcp_entity_rx_new demo_link_env 0 demo_link_cfg 1) (\<lambda>r. map_option (\<lambda>r1. (r, r1, pr_st r1,
     pr_cfg r1 = demo_link_cfg, pr_sec_engine_pool r1 = [Some demo_link_engine])) (configure_security r demo_sec_cfg integrity_on ciphering_on))"

lemma demo_link_rx_value: "map_option (snd \<circ> snd) demo_link_rx = Some (rx_state_zero, True, True)"
  by (simp add: demo_link_rx_def demo_link_env_def demo_link_cfg_def demo_env_def demo_rx_cfg_def demo_sec_cfg_def rx_eval demo_link_engine_def
      configure_security_def security_engine_new_def to_security_direction_def
      pdcp_rx_default_max_count_hard_def pdcp_rx_default_max_count_notify_def
      word_le_nat_alt word_less_nat_alt cong: eval_congs split del: if_split)

lemma demo_link_protected:
  "encrypt_and_protect_integrity (sec_prims_of demo_aes []) demo_link_engine True [0x80, 0, 1, 2, 3] 2 0 = Some (sec_success, [0x80, 0, 3, 0, 1, 7, 3, 7, 3])"
  by code_simp

theorem pdcp_end_to_end_witness:
  "\<exists>s s1 evs bi r r1 evs1 pi. tx_send_sdu (demo_tx_env 0) s [1, 2, 3] = Some (s1, evs, [Tx_crypto_task bi])
    \<and> tx_apply_security (demo_tx_env 0) s1 bi = Some (s1, [Tx_reorder_task (bi\<lparr>tb_buf := [0x80, 0, 3, 0, 1, 7, 3, 7, 3]\<rparr>)])
    \<and> handle_data_pdu demo_link_env r [0x80, 0, 3, 0, 1, 7, 3, 7, 3] = Some (r1, evs1, [Crypto_task pi])
    \<and> pdcp_apply_security demo_link_env r1 pi = Some (r1, [Reorder_task \<lparr>pi_buf = [1, 2, 3], pi_count = 0, pi_integrity_verified = True\<rparr>])"
proof -
  let ?bi = "\<lparr>tb_is_retx = False, tb_retx_id = 0, tb_count = 0, tb_buf = [0x80, 0, 1, 2, 3]\<rparr>" and ?pdu = "[0x80, 0, 3, 0, 1, 7, 3, 7, 3] :: bytes"
  obtain s s1 evs where s: "tx_send_sdu (demo_tx_env 0) s [1, 2, 3] = Some (s1, evs, [Tx_crypto_task ?bi])" "pt_st s = tx_state_at 0"
      "pt_cfg s = demo_tx_config" "pt_rohc_comp s = None" "pt_cfg s1 = pt_cfg s" "pt_sec_engine_pool s1 = [Some demo_link_engine]"
      "pt_max_nof_crypto_workers s1 = 1"
    using demo_link_tx_value by (auto simp: demo_link_tx_def bind_eq_Some_conv')
  obtain r0 r where r: "pdcp_entity_rx_new demo_link_env 0 demo_link_cfg 1 = Some r0"
      "configure_security r0 demo_sec_cfg integrity_on ciphering_on = Some r" "pr_st r = rx_state_zero" "pr_cfg r = demo_link_cfg"
      "pr_sec_engine_pool r = [Some demo_link_engine]"
    using demo_link_rx_value by (auto simp: demo_link_rx_def bind_eq_Some_conv')
  have "rx_config_ok demo_link_cfg"
    using demo_rx_config_ok by (simp add: rx_config_ok_def max_count_ok_def demo_link_cfg_def)
  then have inv: "rx_inv r"
    using pdcp_entity_rx_new_inv(1)[OF r(1)] rx_same_inv[OF conjunct1[OF configure_security_same[OF r(2)]]]
    by (simp add: rx_sys_inv_def rx_sys_new_def)
  have sec: "tx_apply_security (demo_tx_env 0) s1 ?bi = Some (s1, [Tx_reorder_task (?bi\<lparr>tb_buf := ?pdu\<rparr>)])"
    using s(3,5-7) demo_link_protected by (simp add: tx_apply_security_def apply_ciphering_and_integrity_protection_def demo_tx_env_def
        demo_tx_config_def sec_is_success_def tx_post_ue_task_def)
  have "\<exists>r1 evs1 pi. handle_data_pdu demo_link_env r ?pdu = Some (r1, evs1, [Crypto_task pi])
    \<and> pdcp_apply_security demo_link_env r1 pi = Some (r1, [Reorder_task \<lparr>pi_buf = [1, 2, 3], pi_count = 0, pi_integrity_verified = True\<rparr>])"
    using pdcp_end_to_end[OF s(1,4) _ sec, of r demo_aes "[]" demo_link_env demo_link_engine _ False] s r inv
    by (simp add: demo_tx_env_def demo_link_env_def demo_env_def demo_link_engine_def demo_link_cfg_def demo_rx_cfg_def demo_tx_config_def
        tx_state_at_def rx_state_zero_def half_range_def pdcp_rx_default_max_count_hard_def)
  then show ?thesis
    using s(1) sec by blast
qed

end
