(* ===== verification/Spec2Isabelle.thy ===== *)
theory Spec2Isabelle
  imports Rlc_Um_Channel Rlc_Tm Rlc_Am_Channel Pdcp_Link
begin

text \<open>
  The user plane protocols of the gNB in \<open>src/src/ocudu\<close>: radio link control (RLC, \<open>lib/rlc\<close>), the packet data
  convergence protocol above it (PDCP, \<open>lib/pdcp\<close>), the security engine and algorithms PDCP uses (\<open>lib/security\<close>),
  and the containers and the bit codec they are built on.

  \<^bold>\<open>The program.\<close>  An RLC entity sits between PDCP above and MAC below, once per bearer.  Its transmitting
  side queues service data units (SDUs), cuts them to the size of the grants of the MAC layer and puts
  a header in front (\<open>handle_sdu\<close>, \<open>discard_sdu\<close>, \<open>pull_pdu\<close>, \<open>get_buffer_state\<close>); its receiving side
  stores segments, reassembles SDUs and hands them up (\<open>handle_pdu\<close>).  There are three modes: transparent
  (TM, no header), unacknowledged (UM, segmentation, a receive window with a reassembly timer) and
  acknowledged (AM, retransmission driven by status reports of the peer).  In AM the two sides of an entity
  share two interfaces (\<open>rlc_am_interconnect.h\<close>): the transmitter asks the receiver for the status report
  to send, and the receiver hands a report of the peer to the transmitter.  The entities are called from
  different executors; the SDU queue is the structure they share.  A PDCP entity numbers SDUs with a COUNT, compresses and
  protects them in crypto workers, puts the PDUs back in order and keeps SDUs in a window until RLC notifies their transmission
  or delivery or a discard timer expires (\<open>pdcp_entity_tx\<close>); the receiving side reconstructs COUNT, checks and
  deciphers in crypto workers and delivers in order with a reordering timer (\<open>pdcp_entity_rx\<close>).  The two sides of a bearer
  exchange status reports.

  \<^bold>\<open>The theories, in the order in which they are built.\<close>
  \<^item> \<open>Rlc_Prelude\<close>: word types, offsets of sequence numbers in a number space of \<open>2 ^ k\<close> (\<open>sn_off\<close>), lemmas on
    lists, options and words.  \<open>Rlc_Config\<close>: \<open>include/ocudu/rlc/rlc_config.h\<close>, field lengths,
    cardinality and window size, the configuration structures and header enumerations.
  \<^item> \<open>Circular_Map\<close>: \<open>adt/circular_map.h\<close> and \<open>support/sdu_window.h\<close>, the power-of-two slot array behind every
    window.  Locale \<open>sn_window\<close> is the contract the entities use; its interpretation \<open>win\<close> gives it for the array.
    \<open>Ring_Buffer\<close>: \<open>adt/ring_buffer.h\<close>, locale \<open>bounded_queue\<close>, interpretation \<open>rb\<close>.  \<open>Rlc_Retx_Queue\<close>:
    \<open>rlc_retx_queue.h\<close> over that buffer.
  \<^item> \<open>Rlc_Sdu_Queue\<close>: \<open>rlc_sdu_queue_lockfree.h\<close> with \<open>pdcp_sn_util.h\<close>; locale \<open>sdu_fifo\<close>, interpretation
    \<open>fifo\<close>: a queue of the SDUs that are not discarded, with exact counters.
  \<^item> \<open>Rlc_Am_Pdu\<close>, \<open>Rlc_Um_Pdu\<close>: the headers of \<open>rlc_am_pdu.h\<close> and \<open>rlc_um_pdu.h\<close>, bit by bit.  \<open>Rlc_Status_Pdu\<close>:
    class \<open>rlc_am_status_pdu\<close> (\<open>push_nack\<close>, \<open>trim\<close>, \<open>pack\<close>, \<open>unpack\<close>) and what a report says to be missing.
  \<^item> \<open>Rlc_Segments\<close>: \<open>store_segment\<close>, \<open>update_segment_inventory\<close> and chaining, shared by the receivers.
  \<^item> \<open>Rlc_Tx_Common\<close> (notifications), \<open>Rlc_Tm\<close>, \<open>Rlc_Tx_Um\<close>, \<open>Rlc_Rx_Um\<close>: the entities \<open>rlc_tx_tm_entity\<close>,
    \<open>rlc_rx_tm_entity\<close>, \<open>rlc_tx_um_entity\<close>, \<open>rlc_rx_um_entity\<close>; \<open>Rlc_Um_Channel\<close>: both UM sides together.
  \<^item> \<open>Rlc_Rx_Am\<close>: \<open>rlc_rx_am_entity\<close>.  \<open>Rlc_Tx_Am\<close>: the definitions of \<open>rlc_tx_am_entity\<close>; \<open>Rlc_Tx_Am_Inv\<close>: its
    invariant and the building of PDUs; \<open>Rlc_Tx_Am_Status\<close>: status reports, both directions, with locale
    \<open>status_provider\<close> (what the transmitter needs of the receiver) and its interpretation \<open>rap\<close>;
    \<open>Rlc_Tx_Am_Reach\<close>: reachable states and the properties of the transmitter.
  \<^item> \<open>Rlc_Am_Link_Rx\<close>, \<open>Rlc_Am_Link\<close>, \<open>Rlc_Am_Link_Status\<close>, \<open>Rlc_Am_Channel\<close>: two AM entities and the channel between them, with data
    PDUs in one and status reports in the other direction.
  \<^item> \<open>Bit_Encoding\<close>: \<open>lib/support/bit_encoding.cpp\<close>.  \<open>Security_Engine\<close>: \<open>security_engine_impl.cpp\<close>, the integrity and
    ciphering engines; locale \<open>sec_algorithms\<close> is what they need of the algorithms.  \<open>Zuc\<close>, \<open>Snow3g_Tables\<close>, \<open>Snow3g\<close>: the stream
    ciphers \<open>zuc.cpp\<close> and \<open>s3g.cpp\<close>.  \<open>Nea_Nia\<close>: NEA1 to NEA3 and NIA1 to NIA3 with the interpretation
    \<open>algos\<close> of \<open>sec_algorithms\<close>.
  \<^item> \<open>Pdcp_Base\<close>: configuration, COUNT, SN and HFN, headers, crypto tokens.  \<open>Pdcp_Rx\<close>: the definitions of \<open>pdcp_entity_rx\<close>;
    \<open>Pdcp_Rx_Inv\<close>: invariant and delivery; \<open>Pdcp_Rx_Reach\<close>: the step relation with crypto tasks in any order and
    the properties of every run.  \<open>Pdcp_Tx\<close>, \<open>Pdcp_Tx_Inv\<close>, \<open>Pdcp_Tx_Reach\<close>: the same for \<open>pdcp_entity_tx\<close> and
    \<open>pdcp_tx_window\<close>.  \<open>Pdcp_Tx_Report\<close>: status reports from receiver to transmitter, and states in which an
    assertion fails.  \<open>Pdcp_Link\<close>: an SDU from the transmitting to the receiving entity.

  \<^bold>\<open>How code becomes definitions.\<close>  A class is a record, one field per member that the behaviour depends on; a
  method is a function from arguments and state to result, new state and the list of notifications it
  sends, in order.  A failed \<open>ocudu_assert\<close> (also the one inside the window's index operator) is \<open>None\<close>, so
  "returns \<open>Some\<close>" means that no assertion fails.  Sequence numbers are 32-bit words, segment offsets 16-bit
  words and counters keep their width, so that wrap-around is the code's; \<open>size_t\<close> is \<open>nat\<close>.  Loops are
  recursive functions with termination proofs.  What other code decides is an argument: whether an executor
  accepts a task (\<open>defer_ok\<close>, \<open>exec_ok\<close>), whether the buffer pool can supply a buffer (\<open>pool_ok\<close>), whether the
  oldest SDU is older than a retransmission (\<open>hol_older\<close>); for PDCP these are the records \<open>pdcp_env\<close> and \<open>pdcp_tx_env\<close>, with the
  ROHC compressor, the index of the crypto worker and the current tick.  The AES library (mbedTLS) is the argument \<open>aes\<close> of
  NEA2 and NIA2.  Tasks posted to executors are values of a datatype, run in any order by the step relations.  A timer is the
  flag that it is running; its expiry may happen at any time while it runs.  Running a timer that was never given a duration, as the
  reassembly timer with \<open>t-Reassembly = 0\<close>, is \<open>None\<close>; the bound of the timer service on durations is not modelled.  The three status buffers of the AM receiver are three fields.

  \<^bold>\<open>What is shown.\<close>  Containers and the SDU queue refine maps and lists; headers and status reports survive
  encoding and decoding, and trimming keeps them meaningful; reassembly is exact for any order, duplication and
  overlap of segments.  For every RLC entity: an invariant holds in all reachable states, no assertion fails if
  \<open>t-Reassembly\<close> is positive, a PDU fits its grant and carries an exact slice of an SDU.  For the UM channel and the TM channel: exactly the accepted
  SDUs arrive, in order.  For the AM receiver: its status report says missing exactly what is missing.  For the AM
  transmitter: it implements the list of unacknowledged SDUs, a report removes what it acknowledges and
  queues every missing byte that was sent, and with enough grants everything is sent.  For two AM entities and a lossy
  channel: no assertion fails (with positive \<open>t-Reassembly\<close>), the windows stay aligned, what is delivered was accepted at the other end, byte for byte and none of
  it twice, and everything the transmitter has let go was delivered.
  For the security algorithms: the table-driven SNOW 3G and the ZUC register are equal to their defining
  recurrences and polynomials, NIA2 (without the CMAC of the library) is AES-CMAC of RFC 4493 and NIA3 is 128-EIA3, both with
  their subkeys, headers and initialisation vectors, the NEA are stream ciphers, and the engine accepts
  exactly what the peer's engine protects.  For PDCP: the receiver delivers in strictly increasing COUNT, and its
  window, timer and token handling fails no assertion under the conditions below (the trimming of short PDUs by the security
  functions can fail one); the transmitter hands PDUs down in strictly increasing COUNT, never uses a COUNT twice and
  keeps exact counters; the discard timer removes exactly what has expired; a report removes exactly what the receiver has;
  an SDU arrives with its COUNT and verified.  The properties of kind error are reachable states in which the code
  fails an assertion, refuses a correct report or stops accepting PDUs.

  \<^bold>\<open>Bounds and conditions.\<close>  \<open>am_max_sdu = 32767\<close> bounds the SDUs of AM (PDCP sends at most 9000 bytes), 65535 those of
  UM: offsets have 16 bits and the retransmission byte counter 32.  \<open>am_pdu_fits\<close>: the bytes of a received PDU lie
  in the range of offsets; beyond, trimming an overlapping segment wraps its offset.  \<open>status_honest\<close>: the
  peer does not report on SDUs that were never sent; without it the window access can fail, as the last property of \<open>Rlc_Tx_Am_Reach\<close>
  shows.  A zero \<open>t-Reassembly\<close> fails an assertion as soon as one SDU overtakes another (end of \<open>Rlc_Rx_Am\<close>).  \<open>status_bytes_fit\<close>: an encoded report is shorter than \<open>2 ^ 32\<close> bytes.
  The AM channel loses a PDU or delivers it at once, without reordering or duplication, memory is available and PDCP does not
  discard.  NEA messages have up to \<open>2 ^ 29 - 4\<close> bytes, NIA3 messages up to \<open>2 ^ 28 - 12\<close>: beyond, the bit counts of the code wrap.
  PDCP receiver: the hard limit of COUNT leaves room for half the range of sequence numbers (\<open>rx_config_ok\<close>; the default limit does
  not, and the end of \<open>Pdcp_Rx_Reach\<close> shows what follows), and its runs have no re-establishment, suspension, resumption or setting of
  COUNT, and no stop after the processing was halted.  PDCP transmitter: header compression and header reservation succeed
  (\<open>tx_env_ok\<close>; otherwise the bearer is blocked, see \<open>Pdcp_Tx_Report\<close>), an SRB sends only with room in its window (it has no check of its own), and re-establishment and
  recovery happen while the crypto reordering timer does not run.
  \<open>tx_cfg_ok\<close> of the RLC AM transmitter: a queue with room and poll thresholds below \<open>2 ^ 31\<close>.  Grants are shorter than \<open>2 ^ 32\<close> bytes.

  \<^bold>\<open>Not modelled.\<close>  In \<open>lib/rlc\<close>: metrics, logging, packet capture, time stamps, the recycling of PDU buffers and the
  factories; executions in which two executors run inside one operation of the SDU queue or of the
  status buffers (operations are atomic steps here).  In \<open>lib/pdcp\<close>: metrics, logging and the factories; ROHC itself.  In
  \<open>lib/security\<close>: key derivation and the AES library.  Outside: MAC and scheduler, GTP-U, NR-U, F1-U and SDAP, the generated ASN.1
  code, signal processing, control-plane procedures, open fronthaul, third-party code.  They are independent of the
  layers modelled here, which they call only through the operations above.
\<close>

end
